(* ===== verification/Prelude.thy ===== *)
theory Prelude
  imports Main "HOL-Library.Word"
begin

text \<open>
  Conventions shared by every component.

  A C \<open>char\<close> is a HOL \<^typ>\<open>char\<close>.
  A counted buffer (a pointer with a length, as in \<open>byte_chr(s,n,c)\<close> or in a \<open>stralloc\<close>) is the list of its
  bytes, so the count is the length of the list.
  A pointer to a NUL-terminated string is the list of the bytes it points to, where the end of the list stands for a
  terminating NUL; a NUL inside the list ends the string there, as it does in C, and \<open>cstr\<close> is the string so read.
  The characters that the code writes with escapes have names here.
\<close>

named_theorems byte_simps \<open>facts on bytes, character codes and C strings\<close>

abbreviation NUL :: char where "NUL \<equiv> CHR 0x00"
abbreviation TAB :: char where "TAB \<equiv> CHR 0x09"
abbreviation LF :: char where "LF \<equiv> CHR 0x0A"
abbreviation CR :: char where "CR \<equiv> CHR 0x0D"
abbreviation SP :: char where "SP \<equiv> CHR 0x20"
abbreviation DQ :: char where "DQ \<equiv> CHR 0x22"
abbreviation BSL :: char where "BSL \<equiv> CHR 0x5C"

text \<open>
  \<open>uch c\<close> is the value of \<open>(unsigned char) c\<close>. \<open>sch c\<close> is the value of a plain \<open>char\<close> where the code compares
  it as an \<open>int\<close>: signed, as on the platforms the Makefile builds for.
\<close>

abbreviation uch :: "char \<Rightarrow> nat" where "uch c \<equiv> of_char c"

definition sch :: "char \<Rightarrow> int" where
  "sch c = (if uch c < 128 then int (uch c) else int (uch c) - 256)"

definition cstr :: "char list \<Rightarrow> char list" where
  "cstr s = takeWhile (\<lambda>c. c \<noteq> NUL) s"

lemma cstr_Nil [simp]: "cstr [] = []"
  by (simp add: cstr_def)

lemma cstr_Cons [simp]: "cstr (c # s) = (if c = NUL then [] else c # cstr s)"
  by (simp add: cstr_def)

lemma cstr_nonul: "NUL \<notin> set s \<Longrightarrow> cstr s = s"
  by (induction s) auto

lemma nul_notin_cstr [simp]: "NUL \<notin> set (cstr s)"
  by (auto simp: cstr_def dest: set_takeWhileD)

lemma cstr_cstr [simp]: "cstr (cstr s) = cstr s"
  by (simp add: cstr_nonul)

lemma cstr_append_nul [simp]: "NUL \<notin> set s \<Longrightarrow> cstr (s @ NUL # t) = s"
  by (induction s) auto

lemma cstr_append: "NUL \<notin> set s \<Longrightarrow> cstr (s @ t) = s @ cstr t"
  by (induction s) auto

lemma length_cstr_le: "length (cstr s) \<le> length s"
  by (simp add: cstr_def length_takeWhile_le)

lemma cstr_prefix: "\<exists>t. s = cstr s @ t"
  unfolding cstr_def by (metis takeWhile_dropWhile_id)

text \<open>
  \<open>unsigned long\<close> has 32 bits: the tree's configured \<open>uint32.h\<close> makes it the 32-bit type, and \<open>datetime_sec\<close>
  (\<open>long\<close>) and \<open>int\<close> have 32 bits as well.
\<close>

type_synonym ulong = "32 word"

definition int_min :: int where "int_min = - 2147483648"
definition int_max :: int where "int_max = 2147483647"

definition fits32 :: "int \<Rightarrow> bool" where
  "fits32 x \<longleftrightarrow> int_min \<le> x \<and> x \<le> int_max"

text \<open>The byte a string pointer points to.\<close>

definition char_at :: "char list \<Rightarrow> nat \<Rightarrow> char" where
  "char_at s i = (if i < length s then s ! i else NUL)"

lemma char_at_0 [simp]: "char_at [] i = NUL" "char_at (c # s) 0 = c"
  by (simp_all add: char_at_def)

lemma char_at_Suc [simp]: "char_at (c # s) (Suc i) = char_at s i"
  by (simp add: char_at_def)

lemma char_at_drop: "char_at (drop i s) j = char_at s (i + j)"
  by (cases "i + j < length s") (auto simp: char_at_def less_diff_conv add.commute)

lemma char_at_append: "char_at (s @ t) i = (if i < length s then s ! i else char_at t (i - length s))"
  by (auto simp: char_at_def nth_append)

subsection \<open>Character codes\<close>

lemma uch_less [simp]: "uch c < 256"
  by (cases c) (simp add: of_char_def horner_sum_simps)

lemma uch_inject [simp]: "uch c = uch d \<longleftrightarrow> c = d"
  by (simp add: of_char_eq_iff)

lemma uch_char_of [simp]: "n < 256 \<Longrightarrow> uch (char_of n) = n"
  by simp

lemma char_of_uch [simp]: "char_of (uch c) = c"
  by simp

lemma uch_nul [simp]: "uch NUL = 0"
  by simp

lemma uch_0_iff [simp]: "uch c = 0 \<longleftrightarrow> c = NUL"
  by (metis uch_inject uch_nul)

lemma uch_pos_iff [simp]: "0 < uch c \<longleftrightarrow> c \<noteq> NUL"
  by (metis uch_0_iff gr0I less_irrefl)

lemma char_of_eq_iff: "n < 256 \<Longrightarrow> char_of n = c \<longleftrightarrow> n = uch c"
  by auto

lemma word_of_char_inject: "(of_char c :: 8 word) = of_char d \<longleftrightarrow> c = d"
proof -
  have "unat (of_char c :: 8 word) = uch c" for c
  proof -
    have "(of_char c :: 8 word) = of_nat (uch c)"
      by (simp add: of_char_def)
    then show ?thesis by (simp add: unat_of_nat take_bit_eq_mod)
  qed
  then show ?thesis by (metis uch_inject)
qed

lemma unat_of_char [simp]: "unat (of_char c :: 8 word) = uch c"
proof -
  have "(of_char c :: 8 word) = of_nat (uch c)"
    by (simp add: of_char_def)
  then show ?thesis by (simp add: unat_of_nat take_bit_eq_mod)
qed

subsection \<open>Words as numbers\<close>

lemma unat_drop_bit_div [byte_simps]: "unat (drop_bit k (w :: 'a::len word)) = unat w div 2 ^ k"
  by (simp only: unat_drop_bit_eq drop_bit_eq_div [of k "unat w"])

lemma unat_take_bit_mod [byte_simps]: "unat (take_bit k (w :: 'a::len word)) = unat w mod 2 ^ k"
  by (simp only: unsigned_take_bit_eq take_bit_eq_mod [of k "unat w"])

lemma unat_less_256 [simp]: "unat (b :: 8 word) < 256"
  using unsigned_less [of b] by simp

end
