(* ===== verification/Bytes.thy ===== *)
theory Bytes
  imports Prelude
begin

text \<open>
  The byte-string routines of \<open>byte_*.c\<close>, \<open>str_*.c\<close> and \<open>case_*.c\<close>.
  Their loops are unrolled four times in the source; one recursive call here is one unrolled step.
  \<open>byte_copy\<close>, \<open>byte_copyr\<close> and \<open>byte_zero\<close> write through pointers that may alias, so they work on one
  explicit memory (a list of bytes) and offsets into it. The lemmas give each routine its reference meaning: search by
  \<open>takeWhile\<close>, comparison by equality and sign, copying by a simultaneous move of the block.
\<close>

section \<open>Counted buffers: \<open>byte_*\<close>\<close>

fun byte_chr :: "char list \<Rightarrow> char \<Rightarrow> nat" where
  "byte_chr [] ch = 0"
| "byte_chr (x # s) ch = (if x = ch then 0 else Suc (byte_chr s ch))"

fun byte_rchr_loop :: "char list \<Rightarrow> char \<Rightarrow> nat \<Rightarrow> nat option \<Rightarrow> nat" where
  "byte_rchr_loop [] ch t u = (case u of None \<Rightarrow> t | Some p \<Rightarrow> p)"
| "byte_rchr_loop (x # s) ch t u = byte_rchr_loop s ch (Suc t) (if x = ch then Some t else u)"

definition byte_rchr :: "char list \<Rightarrow> char \<Rightarrow> nat" where
  "byte_rchr s ch = byte_rchr_loop s ch 0 None"

fun byte_cspn :: "char list \<Rightarrow> char list \<Rightarrow> nat" where
  "byte_cspn s [] = length s"
| "byte_cspn s (c # cs) = (if c = NUL then length s else byte_cspn (take (byte_chr s c) s) cs)"

fun byte_rcspn_loop :: "char list \<Rightarrow> char list \<Rightarrow> nat \<Rightarrow> nat \<Rightarrow> nat" where
  "byte_rcspn_loop s [] ret pos = ret"
| "byte_rcspn_loop s (c # cs) ret pos =
     (if c = NUL then ret
      else let i = byte_rchr (drop pos s) c + pos
           in if i < length s then byte_rcspn_loop s cs i i else byte_rcspn_loop s cs ret pos)"

definition byte_rcspn :: "char list \<Rightarrow> char list \<Rightarrow> nat" where
  "byte_rcspn s cs = byte_rcspn_loop s cs (length s) 0"

fun byte_diff :: "char list \<Rightarrow> nat \<Rightarrow> char list \<Rightarrow> int" where
  "byte_diff s 0 t = 0"
| "byte_diff (x # s) (Suc n) (y # t) = (if x \<noteq> y then int (uch x) - int (uch y) else byte_diff s n t)"

abbreviation byte_equal :: "char list \<Rightarrow> nat \<Rightarrow> char list \<Rightarrow> bool" where
  "byte_equal s n t \<equiv> byte_diff s n t = 0"

fun byte_copy :: "char list \<Rightarrow> nat \<Rightarrow> nat \<Rightarrow> nat \<Rightarrow> char list" where
  "byte_copy m to 0 from = m"
| "byte_copy m to (Suc n) from = byte_copy (m[to := m ! from]) (Suc to) n (Suc from)"

fun byte_copyr :: "char list \<Rightarrow> nat \<Rightarrow> nat \<Rightarrow> nat \<Rightarrow> char list" where
  "byte_copyr m to 0 from = m"
| "byte_copyr m to (Suc n) from = byte_copyr (m[to + n := m ! (from + n)]) to n from"

fun byte_zero :: "char list \<Rightarrow> nat \<Rightarrow> nat \<Rightarrow> char list" where
  "byte_zero m s 0 = m"
| "byte_zero m s (Suc n) = byte_zero (m[s := NUL]) (Suc s) n"

section \<open>NUL-terminated strings: \<open>str_*\<close>\<close>

fun str_len :: "char list \<Rightarrow> nat" where
  "str_len [] = 0"
| "str_len (x # s) = (if x = NUL then 0 else Suc (str_len s))"

fun str_chr :: "char list \<Rightarrow> char \<Rightarrow> nat" where
  "str_chr [] ch = 0"
| "str_chr (x # s) ch = (if x = NUL then 0 else if x = ch then 0 else Suc (str_chr s ch))"

fun str_rchr_loop :: "char list \<Rightarrow> char \<Rightarrow> nat \<Rightarrow> nat option \<Rightarrow> nat" where
  "str_rchr_loop [] ch t u = (case u of None \<Rightarrow> t | Some p \<Rightarrow> p)"
| "str_rchr_loop (x # s) ch t u =
     (if x = NUL then (case u of None \<Rightarrow> t | Some p \<Rightarrow> p)
      else str_rchr_loop s ch (Suc t) (if x = ch then Some t else u))"

definition str_rchr :: "char list \<Rightarrow> char \<Rightarrow> nat" where
  "str_rchr s ch = str_rchr_loop s ch 0 None"

fun str_diff :: "char list \<Rightarrow> char list \<Rightarrow> int" where
  "str_diff [] [] = 0"
| "str_diff [] (y # t) = int (uch NUL) - int (uch y)"
| "str_diff (x # s) [] = int (uch x) - int (uch NUL)"
| "str_diff (x # s) (y # t) =
     (if x \<noteq> y then int (uch x) - int (uch y) else if x = NUL then int (uch x) - int (uch y) else str_diff s t)"

fun str_diffn :: "char list \<Rightarrow> char list \<Rightarrow> nat \<Rightarrow> int" where
  "str_diffn s t 0 = 0"
| "str_diffn [] [] (Suc len) = 0"
| "str_diffn [] (y # t) (Suc len) = int (uch NUL) - int (uch y)"
| "str_diffn (x # s) [] (Suc len) = int (uch x) - int (uch NUL)"
| "str_diffn (x # s) (y # t) (Suc len) =
     (if x \<noteq> y then int (uch x) - int (uch y) else if x = NUL then int (uch x) - int (uch y) else str_diffn s t len)"

fun str_start :: "char list \<Rightarrow> char list \<Rightarrow> bool" where
  "str_start s [] = True"
| "str_start [] (x # t) = (x = NUL)"
| "str_start (y # s) (x # t) = (if x = NUL then True else if x \<noteq> y then False else str_start s t)"

text \<open>\<open>str_copy\<close> and \<open>str_copyb\<close> return the overwritten destination and the value the C function returns.\<close>

fun str_copy :: "char list \<Rightarrow> char list \<Rightarrow> char list \<times> nat" where
  "str_copy (d # ds) [] = (NUL # ds, 0)"
| "str_copy (d # ds) (c # t) =
     (if c = NUL then (NUL # ds, 0) else (case str_copy ds t of (r, len) \<Rightarrow> (c # r, Suc len)))"

text \<open>The four unrolled lines in the body of \<open>str_copyb\<close>: the flag tells that a line returned.\<close>

fun str_copyb_lines :: "nat \<Rightarrow> char list \<Rightarrow> char list \<Rightarrow> char list \<times> char list \<times> char list \<times> bool" where
  "str_copyb_lines 0 ds t = ([], ds, t, False)"
| "str_copyb_lines (Suc k) (d # ds) [] = ([], NUL # ds, [], True)"
| "str_copyb_lines (Suc k) (d # ds) (c # t) =
     (if c = NUL then ([], NUL # ds, c # t, True)
      else (case str_copyb_lines k ds t of (cp, ds', t', r) \<Rightarrow> (c # cp, ds', t', r)))"

fun str_copyb :: "char list \<Rightarrow> char list \<Rightarrow> nat \<Rightarrow> char list \<times> nat" where
  "str_copyb ds t 0 = (ds, 0)"
| "str_copyb ds t (Suc mx) =
     (case str_copyb_lines 4 ds t of (cp, ds', t', r) \<Rightarrow>
        if r then (cp @ ds', length cp)
        else (case str_copyb ds' t' mx of (ds'', len) \<Rightarrow> (cp @ ds'', length cp + len)))"

section \<open>Case-insensitive routines: \<open>case_*\<close>\<close>

text \<open>The two lines \<open>x = *s++ - 'A'; if (x <= 'Z' - 'A') x += 'a'; else x += 'A';\<close> on an \<open>unsigned char\<close>.\<close>

definition casefold :: "char \<Rightarrow> 8 word" where
  "casefold c = (let x = of_char c - 0x41 in if x \<le> 0x5A - 0x41 then x + 0x61 else x + 0x41)"

fun case_diffb :: "char list \<Rightarrow> nat \<Rightarrow> char list \<Rightarrow> int" where
  "case_diffb s 0 t = 0"
| "case_diffb (a # s) (Suc len) (b # t) =
     (let x = casefold a; y = casefold b
      in if x \<noteq> y then int (unat x) - int (unat y) else case_diffb s len t)"

fun case_diffs :: "char list \<Rightarrow> char list \<Rightarrow> int" where
  "case_diffs [] [] = 0"
| "case_diffs [] (b # t) = int (unat (casefold NUL)) - int (unat (casefold b))"
| "case_diffs (a # s) [] = int (unat (casefold a)) - int (unat (casefold NUL))"
| "case_diffs (a # s) (b # t) =
     (let x = casefold a; y = casefold b
      in if x \<noteq> y then int (unat x) - int (unat y)
         else if x = 0 then int (unat x) - int (unat y) else case_diffs s t)"

abbreviation case_equals :: "char list \<Rightarrow> char list \<Rightarrow> bool" where
  "case_equals s t \<equiv> case_diffs s t = 0"

text \<open>One step of the lowering loops: \<open>x = *s - 'A'; if (x <= 'Z' - 'A') *s = x + 'a';\<close>.\<close>

definition lower1 :: "char \<Rightarrow> char" where
  "lower1 c = (let x = of_char c - 0x41 :: 8 word
               in if x \<le> 0x5A - 0x41 then char_of (unat (x + 0x61)) else c)"

fun case_lowerb :: "char list \<Rightarrow> char list" where
  "case_lowerb [] = []"
| "case_lowerb (c # s) = lower1 c # case_lowerb s"

fun case_lowers :: "char list \<Rightarrow> char list" where
  "case_lowers [] = []"
| "case_lowers (c # s) = (if c = NUL then c # s else lower1 c # case_lowers s)"

fun case_starts :: "char list \<Rightarrow> char list \<Rightarrow> bool" where
  "case_starts s [] = True"
| "case_starts [] (b # t) = (casefold b = 0)"
| "case_starts (a # s) (b # t) =
     (let x = casefold a; y = casefold b
      in if y = 0 then True else if x \<noteq> y then False else case_starts s t)"

section \<open>Searching\<close>

lemma byte_chr_takeWhile: "byte_chr s c = length (takeWhile (\<lambda>x. x \<noteq> c) s)"
  by (induction s c rule: byte_chr.induct) auto

lemma byte_chr_le [simp]: "byte_chr s c \<le> length s"
  by (simp add: byte_chr_takeWhile length_takeWhile_le)

lemma byte_chr_less_iff: "byte_chr s c < length s \<longleftrightarrow> c \<in> set s"
  by (induction s c rule: byte_chr.induct) auto

lemma byte_chr_hit: "c \<in> set s \<Longrightarrow> s ! byte_chr s c = c"
  by (induction s c rule: byte_chr.induct) auto

lemma byte_chr_miss: "c \<notin> set s \<Longrightarrow> byte_chr s c = length s"
  by (induction s c rule: byte_chr.induct) auto

lemma take_byte_chr: "take (byte_chr s c) s = takeWhile (\<lambda>x. x \<noteq> c) s"
  by (induction s c rule: byte_chr.induct) auto

lemma byte_chr_notin_take: "c \<notin> set (take (byte_chr s c) s)"
  by (auto simp: take_byte_chr dest: set_takeWhileD)

lemma byte_chr_append: "c \<notin> set s \<Longrightarrow> byte_chr (s @ c # t) c = length s"
  by (induction s) auto

text \<open>The last occurrence: either there is none and the result is the length, or the result is the last one.\<close>

definition last_index :: "(char \<Rightarrow> bool) \<Rightarrow> char list \<Rightarrow> nat \<Rightarrow> bool" where
  "last_index P s r \<longleftrightarrow>
     (if \<exists>x \<in> set s. P x then r < length s \<and> P (s ! r) \<and> (\<forall>x \<in> set (drop (Suc r) s). \<not> P x) else r = length s)"

lemma last_index_not_less:
  assumes "last_index P s r" and "last_index P s q"
  shows "\<not> r < q"
proof
  assume "r < q"
  show False
  proof (cases "\<exists>x \<in> set s. P x")
    case False
    with assms \<open>r < q\<close> show False by (simp add: last_index_def)
  next
    case True
    with assms have q: "q < length s" "P (s ! q)" and r: "\<forall>x \<in> set (drop (Suc r) s). \<not> P x"
      unfolding last_index_def by metis+
    from \<open>r < q\<close> q(1) have "drop (Suc r) s ! (q - Suc r) = s ! q" "q - Suc r < length (drop (Suc r) s)"
      by simp_all
    then have "s ! q \<in> set (drop (Suc r) s)"
      by (metis nth_mem)
    with q r show False by blast
  qed
qed

lemma last_index_unique: "last_index P s r \<Longrightarrow> last_index P s q \<Longrightarrow> r = q"
  by (metis last_index_not_less linorder_neqE_nat)

lemma byte_rchr_loop_shift:
  "byte_rchr_loop s c t u =
     (if c \<in> set s then t + byte_rchr_loop s c 0 None else (case u of None \<Rightarrow> t + length s | Some p \<Rightarrow> p))"
proof (induction s arbitrary: t u)
  case Nil
  then show ?case by (simp split: option.split)
next
  case (Cons x s)
  show ?case
    using Cons [of "Suc t" "if x = c then Some t else u"] Cons [of 1 "if x = c then Some 0 else None"]
    by (auto split: option.split)
qed

lemma byte_rchr_Nil [simp]: "byte_rchr [] c = 0"
  by (simp add: byte_rchr_def)

lemma byte_rchr_Cons:
  "byte_rchr (x # s) c = (if c \<in> set s then Suc (byte_rchr s c) else if x = c then 0 else Suc (length s))"
  using byte_rchr_loop_shift [of s c "Suc 0" "if x = c then Some 0 else None"]
  by (simp add: byte_rchr_def)

lemma byte_rchr_last_index: "last_index (\<lambda>x. x = c) s (byte_rchr s c)"
  by (induction s) (auto simp: last_index_def byte_rchr_Cons)

lemma byte_rchr_le [simp]: "byte_rchr s c \<le> length s"
  by (induction s) (auto simp: byte_rchr_Cons)

lemma byte_rchr_less_iff: "byte_rchr s c < length s \<longleftrightarrow> c \<in> set s"
  by (induction s) (auto simp: byte_rchr_Cons)

lemma byte_rchr_hit: "c \<in> set s \<Longrightarrow> s ! byte_rchr s c = c"
  by (induction s) (auto simp: byte_rchr_Cons)

lemma byte_rchr_miss: "c \<notin> set s \<Longrightarrow> byte_rchr s c = length s"
  by (induction s) (auto simp: byte_rchr_Cons)

lemma byte_rchr_append: "c \<notin> set t \<Longrightarrow> byte_rchr (s @ c # t) c = length s"
  by (induction s) (auto simp: byte_rchr_Cons)

lemma byte_rchr_split:
  "c \<in> set s \<Longrightarrow> s = take (byte_rchr s c) s @ c # drop (Suc (byte_rchr s c)) s"
  by (metis byte_rchr_hit byte_rchr_less_iff id_take_nth_drop)

lemma byte_rchr_notin_drop: "c \<notin> set (drop (Suc (byte_rchr s c)) s)"
  by (induction s) (auto simp: byte_rchr_Cons)

lemma byte_cspn_takeWhile: "byte_cspn s cs = length (takeWhile (\<lambda>x. x \<notin> set (cstr cs)) s)"
proof (induction s cs rule: byte_cspn.induct)
  case (1 s)
  then show ?case by (simp add: takeWhile_eq_all_conv [THEN iffD2])
next
  case (2 s c cs)
  have "takeWhile (\<lambda>x. x \<notin> set (cstr cs)) (takeWhile (\<lambda>x. x \<noteq> c) s) =
        takeWhile (\<lambda>x. x \<noteq> c \<and> x \<notin> set (cstr cs)) s"
    by (induction s) auto
  with 2 show ?case
    by (simp add: take_byte_chr takeWhile_eq_all_conv [THEN iffD2])
qed

text \<open>\<open>byte_rcspn\<close>: each round moves \<open>pos\<close> to a later occurrence, so the result is the last byte of the set.\<close>

lemma last_index_extend:
  assumes "pos \<le> length s" and "\<forall>x \<in> set (drop (Suc pos) s). \<not> P x"
    and "byte_rchr (drop pos s) c = i" and "i < length (drop pos s)"
  shows "last_index (\<lambda>x. P x \<or> x = c) s (pos + i)"
proof -
  have c: "c \<in> set (drop pos s)"
    using assms(3,4) byte_rchr_less_iff by metis
  have "drop (Suc (pos + i)) s = drop (Suc i) (drop pos s)"
    by (simp add: add.commute)
  then have "c \<notin> set (drop (Suc (pos + i)) s)"
    using byte_rchr_notin_drop [of c "drop pos s"] assms(3) by simp
  moreover have "set (drop (Suc (pos + i)) s) \<subseteq> set (drop (Suc pos) s)"
    by (simp add: set_drop_subset_set_drop)
  ultimately have d: "\<forall>x \<in> set (drop (Suc (pos + i)) s). \<not> (P x \<or> x = c)"
    using assms(2) by blast
  have "s ! (pos + i) = c"
    using byte_rchr_hit [OF c] assms(1,3) by simp
  moreover have "pos + i < length s"
    using assms(4) by simp
  ultimately show ?thesis
    using d by (auto simp: last_index_def intro!: nth_mem)
qed

lemma byte_rcspn_loop_last_index:
  assumes "last_index (\<lambda>x. x \<in> A) s ret" and "pos = (if ret < length s then ret else 0)"
  shows "last_index (\<lambda>x. x \<in> A \<or> x \<in> set (cstr cs)) s (byte_rcspn_loop s cs ret pos)"
  using assms
proof (induction cs arbitrary: A ret pos)
  case Nil
  then show ?case by simp
next
  case (Cons c cs)
  let ?i = "byte_rchr (drop pos s) c"
  have noA: "\<forall>x \<in> set (drop (Suc pos) s). x \<notin> A"
    using Cons.prems by (auto simp: last_index_def split: if_splits dest: in_set_dropD)
  show ?case
  proof (cases "c = NUL")
    case True
    with Cons.prems show ?thesis by simp
  next
    case c: False
    show ?thesis
    proof (cases "?i + pos < length s")
      case True
      have "pos \<le> length s" using Cons.prems(2) by auto
      with True noA have "last_index (\<lambda>x. x \<in> A \<or> x = c) s (pos + ?i)"
        by (intro last_index_extend) auto
      then have "last_index (\<lambda>x. x \<in> insert c A) s (?i + pos)"
        by (simp add: add.commute disj_commute)
      from Cons.IH [OF this] True c show ?thesis
        by (simp add: Let_def disj_ac)
    next
      case False
      then have "c \<notin> set (drop pos s)"
        using byte_rchr_less_iff [of "drop pos s" c] by auto
      moreover have "set (drop (Suc ret) s) \<subseteq> set (drop ret s)"
        by (simp add: set_drop_subset_set_drop)
      ultimately have "last_index (\<lambda>x. x \<in> insert c A) s ret"
        using Cons.prems by (auto simp: last_index_def split: if_splits)
      from Cons.IH [OF this Cons.prems(2)] False c show ?thesis
        by (simp add: Let_def disj_ac)
    qed
  qed
qed

lemma byte_rcspn_last_index: "last_index (\<lambda>x. x \<in> set (cstr cs)) s (byte_rcspn s cs)"
  using byte_rcspn_loop_last_index [of "{}" s "length s" 0 cs]
  by (simp add: byte_rcspn_def last_index_def)

section \<open>Copying: the block moves as a whole\<close>

definition memmove :: "char list \<Rightarrow> nat \<Rightarrow> nat \<Rightarrow> nat \<Rightarrow> char list" where
  "memmove m to n from = take to m @ take n (drop from m) @ drop (to + n) m"

lemma length_byte_copy [simp]: "length (byte_copy m to n from) = length m"
  by (induction m to n "from" rule: byte_copy.induct) auto

lemma length_byte_copyr [simp]: "length (byte_copyr m to n from) = length m"
  by (induction m to n "from" rule: byte_copyr.induct) auto

lemma length_memmove: "to + n \<le> length m \<Longrightarrow> from + n \<le> length m \<Longrightarrow> length (memmove m to n from) = length m"
  by (simp add: memmove_def)

lemma memmove_nth:
  assumes "to + n \<le> length m" "from + n \<le> length m" "k < length m"
  shows "memmove m to n from ! k = (if to \<le> k \<and> k < to + n then m ! (from + (k - to)) else m ! k)"
proof -
  have "length (take n (drop from m)) = n"
    using assms by simp
  then show ?thesis
    using assms by (cases "k < to"; cases "k < to + n") (simp_all add: memmove_def nth_append less_diff_conv2)
qed

lemma byte_copy_nth:
  assumes "to + n \<le> length m" "from + n \<le> length m" "k < length m" "to \<le> from \<or> from + n \<le> to"
  shows "byte_copy m to n from ! k = (if to \<le> k \<and> k < to + n then m ! (from + (k - to)) else m ! k)"
  using assms
proof (induction m to n "from" rule: byte_copy.induct)
  case (1 m to "from")
  then show ?case by auto
next
  case (2 m to n "from")
  have eq: "byte_copy m to (Suc n) from ! k =
      (if Suc to \<le> k \<and> k < Suc to + n then m[to := m ! from] ! (Suc from + (k - Suc to)) else m[to := m ! from] ! k)"
    unfolding byte_copy.simps using "2.prems" by (intro "2.IH") auto
  show ?case
  proof (cases "Suc to \<le> k \<and> k < Suc to + n")
    case True
    then have idx: "Suc from + (k - Suc to) = from + (k - to)"
      by arith
    have "from + (k - to) \<noteq> to"
      using True "2.prems"(4) by auto
    with True show ?thesis
      unfolding eq idx by simp
  next
    case False
    with "2.prems" show ?thesis
      unfolding eq by (cases "k = to") auto
  qed
qed

lemma byte_copyr_nth:
  assumes "to + n \<le> length m" "from + n \<le> length m" "k < length m" "from \<le> to \<or> to + n \<le> from"
  shows "byte_copyr m to n from ! k = (if to \<le> k \<and> k < to + n then m ! (from + (k - to)) else m ! k)"
  using assms
proof (induction m to n "from" rule: byte_copyr.induct)
  case (1 m to "from")
  then show ?case by auto
next
  case (2 m to n "from")
  have "byte_copyr m to (Suc n) from ! k =
      (if to \<le> k \<and> k < to + n then m[to + n := m ! (from + n)] ! (from + (k - to)) else m[to + n := m ! (from + n)] ! k)"
    unfolding byte_copyr.simps using "2.prems" by (intro "2.IH") auto
  moreover have "to \<le> k \<and> k < to + n \<Longrightarrow> m[to + n := m ! (from + n)] ! (from + (k - to)) = m ! (from + (k - to))"
    using 2 by (subst nth_list_update_neq) auto
  ultimately show ?case
    using 2 by (auto simp: nth_list_update)
qed

lemma byte_copy_memmove:
  assumes "to + n \<le> length m" "from + n \<le> length m" "to \<le> from \<or> from + n \<le> to"
  shows "byte_copy m to n from = memmove m to n from"
  using assms by (intro nth_equalityI) (auto simp: length_memmove byte_copy_nth memmove_nth)

lemma byte_copyr_memmove:
  assumes "to + n \<le> length m" "from + n \<le> length m" "from \<le> to \<or> to + n \<le> from"
  shows "byte_copyr m to n from = memmove m to n from"
  using assms by (intro nth_equalityI) (auto simp: length_memmove byte_copyr_nth memmove_nth)

lemma byte_zero_eq: "s + n \<le> length m \<Longrightarrow> byte_zero m s n = take s m @ replicate n NUL @ drop (s + n) m"
proof (induction m s n rule: byte_zero.induct)
  case (1 m s)
  then show ?case by simp
next
  case (2 m s n)
  then have "byte_zero m s (Suc n) = take (Suc s) (m[s := NUL]) @ replicate n NUL @ drop (Suc s + n) (m[s := NUL])"
    by simp
  also have "take (Suc s) (m[s := NUL]) = take s m @ [NUL]"
    using 2 by (simp add: take_Suc_conv_app_nth)
  finally show ?case
    by simp
qed

section \<open>Strings\<close>

lemma str_len_cstr: "str_len s = length (cstr s)"
  by (induction s) auto

lemma str_chr_cstr: "str_chr s c = byte_chr (cstr s) c"
  by (induction s) auto

lemma str_rchr_loop_cstr: "str_rchr_loop s c t u = byte_rchr_loop (cstr s) c t u"
  by (induction s arbitrary: t u) auto

lemma str_rchr_cstr: "str_rchr s c = byte_rchr (cstr s) c"
  by (simp add: str_rchr_def byte_rchr_def str_rchr_loop_cstr)

lemma str_start_iff: "str_start s t \<longleftrightarrow> (\<exists>r. cstr s = cstr t @ r)"
proof (induction s t rule: str_start.induct)
  case (3 y s x t)
  then show ?case
    by (cases "x = NUL"; cases "x = y") auto
qed auto

lemma byte_diff_eq_0_iff: "n \<le> length s \<Longrightarrow> n \<le> length t \<Longrightarrow> byte_diff s n t = 0 \<longleftrightarrow> take n s = take n t"
proof (induction n arbitrary: s t)
  case 0
  then show ?case by simp
next
  case (Suc n)
  then show ?case by (cases s; cases t) auto
qed

lemma str_diff_eq_0_iff: "str_diff s t = 0 \<longleftrightarrow> cstr s = cstr t"
  by (induction s t rule: str_diff.induct) auto

lemma str_diff_sign: "str_diff s t < 0 \<longleftrightarrow> (cstr s, cstr t) \<in> lexord {(a, b). uch a < uch b}"
  by (induction s t rule: str_diff.induct) auto

lemma str_diffn_eq_0_iff: "str_diffn s t n = 0 \<longleftrightarrow> take n (cstr s) = take n (cstr t)"
proof (induction s t n rule: str_diffn.induct)
  case (5 x s y t n)
  then show ?case by (cases "x = y"; cases "x = NUL"; cases "y = NUL") auto
qed auto

lemma str_copy_eq:
  "length (cstr t) < length d \<Longrightarrow>
     str_copy d t = (cstr t @ NUL # drop (Suc (length (cstr t))) d, length (cstr t))"
proof (induction d t rule: str_copy.induct)
  case (2 d ds c t)
  then show ?case by (auto split: prod.split)
qed auto

lemma str_copyb_lines_eq:
  "k \<le> length d \<Longrightarrow>
   str_copyb_lines k d t =
     (if k \<le> length (cstr t) then (take k (cstr t), drop k d, drop k t, False)
      else (cstr t, NUL # drop (Suc (length (cstr t))) d, drop (length (cstr t)) t, True))"
proof (induction k d t rule: str_copyb_lines.induct)
  case (3 k d ds c t)
  then show ?case by (auto split: prod.split)
qed auto

text \<open>The bound counts rounds of four bytes, so up to four times \<open>max\<close> bytes are copied.\<close>

lemma cstr_drop_le: "k \<le> length (cstr t) \<Longrightarrow> cstr (drop k t) = drop k (cstr t)"
proof (induction t arbitrary: k)
  case Nil
  then show ?case by simp
next
  case (Cons c t)
  then show ?case by (cases k) (auto split: if_splits)
qed

lemma str_copyb_eq:
  "4 * mx \<le> length d \<Longrightarrow>
   str_copyb d t mx =
     (if 4 * mx \<le> length (cstr t) then (take (4 * mx) (cstr t) @ drop (4 * mx) d, 4 * mx)
      else (cstr t @ NUL # drop (Suc (length (cstr t))) d, length (cstr t)))"
proof (induction mx arbitrary: d t)
  case 0
  then show ?case by simp
next
  case (Suc mx)
  show ?case
  proof (cases "4 \<le> length (cstr t)")
    case False
    with Suc.prems show ?thesis
      by (simp add: str_copyb_lines_eq)
  next
    case True
    have d: "4 * mx \<le> length (drop 4 d)" using Suc.prems by simp
    have eq: "str_copyb d t (Suc mx) =
        (case str_copyb (drop 4 d) (drop 4 t) mx of (ds, len) \<Rightarrow> (take 4 (cstr t) @ ds, 4 + len))"
      using True Suc.prems by (simp add: str_copyb_lines_eq)
    have cat: "take (4 * Suc mx) (cstr t) = take 4 (cstr t) @ take (4 * mx) (drop 4 (cstr t))"
      by (simp add: take_add [symmetric])
    have whole: "take 4 (cstr t) @ drop 4 (cstr t) @ r = cstr t @ r" for r
      by (metis append.assoc append_take_drop_id)
    note IH = Suc.IH [OF d, of "drop 4 t"]
    show ?thesis
    proof (cases "4 * Suc mx \<le> length (cstr t)")
      case True
      then show ?thesis
        using IH unfolding eq cat by (simp add: cstr_drop_le add.commute)
    next
      case False
      then have len: "length (cstr t) - 4 + 4 = length (cstr t)"
        using True by simp
      from False True show ?thesis
        using IH unfolding eq by (simp add: cstr_drop_le whole len)
    qed
  qed
qed

section \<open>Case folding\<close>

definition lower :: "char \<Rightarrow> char" where
  "lower c = (if 65 \<le> uch c \<and> uch c \<le> 90 then char_of (uch c + 32) else c)"

lemma unat_minus_A: "unat (of_char c - 0x41 :: 8 word) = (if 65 \<le> uch c then uch c - 65 else uch c + 191)"
proof -
  have "uch c < 256" by (rule uch_less)
  then show ?thesis
    by (simp add: unat_sub_if' unat_of_char)
qed

lemma upper_test: "(of_char c - 0x41 :: 8 word) \<le> 0x19 \<longleftrightarrow> 65 \<le> uch c \<and> uch c \<le> 90"
  using uch_less [of c] by (auto simp: word_le_nat_alt unat_minus_A)

lemma lower1_lower: "lower1 c = lower c"
proof (cases "65 \<le> uch c \<and> uch c \<le> 90")
  case True
  then have "unat ((of_char c - 0x41) + 0x61 :: 8 word) = uch c + 32"
    by (simp add: unat_word_ariths unat_minus_A)
  with True show ?thesis
    by (simp add: lower1_def lower_def Let_def upper_test)
next
  case False
  then show ?thesis
    by (auto simp: lower1_def lower_def Let_def upper_test)
qed

lemma casefold_lower: "casefold c = of_char (lower c)"
proof (cases "65 \<le> uch c \<and> uch c \<le> 90")
  case True
  then have "unat ((of_char c - 0x41) + 0x61 :: 8 word) = uch (lower c)"
    by (simp add: unat_word_ariths unat_minus_A lower_def)
  with True have "unat (casefold c) = unat (of_char (lower c) :: 8 word)"
    unfolding unat_of_char by (simp add: casefold_def Let_def upper_test)
  then show ?thesis by (simp only: word_unat_eq_iff)
next
  case False
  then show ?thesis
    by (auto simp: casefold_def lower_def Let_def upper_test)
qed

lemma casefold_eq_iff: "casefold a = casefold b \<longleftrightarrow> lower a = lower b"
  by (simp add: casefold_lower word_of_char_inject)

lemma lower_nul_iff [simp]: "lower c = NUL \<longleftrightarrow> c = NUL" "lower NUL = NUL"
proof -
  have "lower c = NUL \<Longrightarrow> c = NUL"
  proof (rule ccontr)
    assume "lower c = NUL" "c \<noteq> NUL"
    then show False
      by (auto simp: lower_def char_of_eq_iff split: if_splits)
  qed
  then show "lower c = NUL \<longleftrightarrow> c = NUL" "lower NUL = NUL"
    by (auto simp: lower_def)
qed

lemma lower_lower [simp]: "lower (lower c) = lower c"
proof (cases "65 \<le> uch c \<and> uch c \<le> 90")
  case True
  then show ?thesis by (simp add: lower_def)
next
  case False
  then show ?thesis unfolding lower_def by presburger
qed

lemma case_lowerb_map: "case_lowerb s = map lower s"
  by (induction s) (auto simp: lower1_lower)

lemma length_case_lowerb [simp]: "length (case_lowerb s) = length s"
  by (induction s) auto

lemma case_lowers_map: "case_lowers s = map lower (cstr s) @ drop (length (cstr s)) s"
  by (induction s) (auto simp: lower1_lower)

lemma casefold_0_iff [simp]: "casefold c = 0 \<longleftrightarrow> c = NUL" "casefold NUL = 0"
proof -
  have "casefold c = 0 \<longleftrightarrow> unat (casefold c) = 0"
    by (simp add: unat_eq_0)
  then show "casefold c = 0 \<longleftrightarrow> c = NUL"
    by (simp add: casefold_lower)
  show "casefold NUL = 0"
    by (simp add: casefold_lower)
qed

lemma unat_casefold [simp]: "unat (casefold c) = uch (lower c)"
  by (simp add: casefold_lower)

lemma case_diffb_eq_0_iff:
  "n \<le> length s \<Longrightarrow> n \<le> length t \<Longrightarrow> case_diffb s n t = 0 \<longleftrightarrow> map lower (take n s) = map lower (take n t)"
proof (induction n arbitrary: s t)
  case 0
  then show ?case by simp
next
  case (Suc n)
  then show ?case by (cases s; cases t) (auto simp: Let_def casefold_eq_iff)
qed

lemma case_diffs_eq_0_iff: "case_diffs s t = 0 \<longleftrightarrow> map lower (cstr s) = map lower (cstr t)"
proof (induction s t rule: case_diffs.induct)
  case (4 a s b t)
  then show ?case
    by (cases "casefold a = casefold b"; cases "a = NUL"; cases "b = NUL")
      (auto simp: Let_def casefold_eq_iff)
qed auto

lemma case_starts_iff: "case_starts s t \<longleftrightarrow> (\<exists>r. map lower (cstr s) = map lower (cstr t) @ r)"
proof (induction s t rule: case_starts.induct)
  case (3 a s b t)
  then show ?case
    by (cases "casefold a = casefold b"; cases "a = NUL"; cases "b = NUL")
      (auto simp: Let_def casefold_eq_iff)
qed auto

section \<open>Properties\<close>

text \<open>\<open>case_diffs\<close> is 0 exactly for strings that are equal when the letters \<open>A\<close> to \<open>Z\<close> are made small.\<close>

theorem case_diffs_correct: "case_diffs s t = 0 \<longleftrightarrow> map lower (cstr s) = map lower (cstr t)"
  by (rule case_diffs_eq_0_iff)

text \<open>\<open>byte_copyr\<close> moves a block right when the destination starts behind the source, even if they overlap.\<close>

theorem byte_copyr_moves:
  assumes "to + n \<le> length m" and "from \<le> to"
  shows "byte_copyr m to n from = take to m @ take n (drop from m) @ drop (to + n) m"
  using byte_copyr_memmove [of to n m "from"] assms by (simp add: memmove_def)

theorem byte_copyr_moves_witness: "byte_copyr ''abcd'' 1 2 0 = take 1 ''abcd'' @ take 2 (drop 0 ''abcd'') @ drop (1 + 2) ''abcd''"
  by (rule byte_copyr_moves) simp_all

end
