(* ===== verification/Numtext.thy ===== *)
theory Numtext
  imports Bytes
begin

text \<open>
  Numbers in text: \<open>fmt_*.c\<close>, \<open>scan_*.c\<close>, \<open>fmtqfn.c\<close> and \<open>ip.c\<close>.
  Every \<open>fmt\<close> routine of the source takes a pointer \<open>s\<close>; with \<open>s = 0\<close> it only counts. The model of a routine is the
  list of the bytes it writes; where the code counts by a loop of its own, that loop is a definition too
  (\<open>fmt_ulong_len\<close>) and a lemma shows that both agree. The idiom \<open>i = fmt_x(s,...); len += i; if (s) s += i;\<close> is
  concatenation. The lemmas show that \<open>scan\<close> reads back what \<open>fmt\<close> writes and that queue file names are injective.
\<close>

section \<open>Formatting\<close>

fun fmt_len_loop :: "nat \<Rightarrow> nat \<Rightarrow> nat" where
  "fmt_len_loop len q = (if q > 9 then fmt_len_loop (Suc len) (q div 10) else len)"

declare fmt_len_loop.simps [simp del]

fun fmt_fill :: "nat \<Rightarrow> char list \<Rightarrow> char list" where
  "fmt_fill u acc =
     (let acc' = char_of (48 + u mod 10) # acc; u' = u div 10
      in if u' = 0 then acc' else fmt_fill u' acc')"

declare fmt_fill.simps [simp del]

definition fmt_ulong_len :: "nat \<Rightarrow> nat" where
  "fmt_ulong_len u = fmt_len_loop 1 u"

definition fmt_ulong :: "nat \<Rightarrow> char list" where
  "fmt_ulong u = fmt_fill u []"

definition fmt_uint :: "nat \<Rightarrow> char list" where
  "fmt_uint u = fmt_ulong u"

function fmt_pad :: "nat \<Rightarrow> nat \<Rightarrow> char list" where
  "fmt_pad len n = (if len < n then CHR ''0'' # fmt_pad (Suc len) n else [])"
  by pat_completeness auto
termination
  by (relation "measure (\<lambda>(len, n). n - len)") auto

declare fmt_pad.simps [simp del]

definition fmt_uint0 :: "nat \<Rightarrow> nat \<Rightarrow> char list" where
  "fmt_uint0 u n = fmt_pad (fmt_ulong_len u) n @ fmt_uint u"

fun fmt_str :: "char list \<Rightarrow> char list" where
  "fmt_str [] = []"
| "fmt_str (c # t) = (if c = NUL then [] else c # fmt_str t)"

fun fmt_strn :: "char list \<Rightarrow> nat \<Rightarrow> char list" where
  "fmt_strn t 0 = []"
| "fmt_strn [] (Suc n) = []"
| "fmt_strn (c # t) (Suc n) = (if c = NUL then [] else c # fmt_strn t n)"

section \<open>Scanning\<close>

text \<open>\<open>(unsigned long) (unsigned char) (s[pos] - '0')\<close>\<close>

definition digitval :: "char \<Rightarrow> nat" where
  "digitval c = unat (of_char c - 0x30 :: 8 word)"

fun scan_loop :: "nat \<Rightarrow> char list \<Rightarrow> nat \<Rightarrow> ulong \<Rightarrow> nat \<times> ulong" where
  "scan_loop base [] pos result = (pos, result)"
| "scan_loop base (ch # s) pos result =
     (let c = digitval ch
      in if c < base then scan_loop base s (Suc pos) (result * of_nat base + of_nat c) else (pos, result))"

definition scan_ulong :: "char list \<Rightarrow> nat \<times> ulong" where
  "scan_ulong s = scan_loop 10 s 0 0"

definition scan_8long :: "char list \<Rightarrow> nat \<times> ulong" where
  "scan_8long s = scan_loop 8 s 0 0"

section \<open>Queue file names\<close>

definition auto_split :: nat where
  "auto_split = 23"

definition fmtqfn :: "char list \<Rightarrow> nat \<Rightarrow> bool \<Rightarrow> char list" where
  "fmtqfn dirslash mid flagsplit =
     fmt_str dirslash
     @ (if flagsplit then fmt_ulong (mid mod auto_split) @ fmt_str ''/'' else [])
     @ fmt_ulong mid @ [NUL]"

section \<open>IP addresses\<close>

type_synonym ip_address = "8 word \<times> 8 word \<times> 8 word \<times> 8 word"

definition ip_fmt :: "ip_address \<Rightarrow> char list" where
  "ip_fmt ip = (case ip of (d0, d1, d2, d3) \<Rightarrow>
     fmt_ulong (unat d0) @ fmt_str ''.''
     @ fmt_ulong (unat d1) @ fmt_str ''.''
     @ fmt_ulong (unat d2) @ fmt_str ''.''
     @ fmt_ulong (unat d3))"

text \<open>
  \<open>ip_scan\<close> writes the fields it has read even when it then fails, so the address is passed in and out. Storing an
  \<open>unsigned long\<close> in the \<open>unsigned char\<close> \<open>d[i]\<close> keeps the low eight bits.
\<close>

definition ip_scan :: "char list \<Rightarrow> ip_address \<Rightarrow> nat \<times> ip_address" where
  "ip_scan s ip = (case ip of (d0, d1, d2, d3) \<Rightarrow>
     let (i, u) = scan_ulong s in
     if i = 0 then (0, (d0, d1, d2, d3)) else
     let d0 = ucast u; s = drop i s; len = i in
     if char_at s 0 \<noteq> CHR ''.'' then (0, (d0, d1, d2, d3)) else
     let s = drop 1 s; len = len + 1; (i, u) = scan_ulong s in
     if i = 0 then (0, (d0, d1, d2, d3)) else
     let d1 = ucast u; s = drop i s; len = len + i in
     if char_at s 0 \<noteq> CHR ''.'' then (0, (d0, d1, d2, d3)) else
     let s = drop 1 s; len = len + 1; (i, u) = scan_ulong s in
     if i = 0 then (0, (d0, d1, d2, d3)) else
     let d2 = ucast u; s = drop i s; len = len + i in
     if char_at s 0 \<noteq> CHR ''.'' then (0, (d0, d1, d2, d3)) else
     let s = drop 1 s; len = len + 1; (i, u) = scan_ulong s in
     if i = 0 then (0, (d0, d1, d2, d3)) else
     let d3 = ucast u; len = len + i in
     (len, (d0, d1, d2, d3)))"

definition ip_scanbracket :: "char list \<Rightarrow> ip_address \<Rightarrow> nat \<times> ip_address" where
  "ip_scanbracket s ip =
     (if char_at s 0 \<noteq> CHR ''['' then (0, ip)
      else case ip_scan (drop 1 s) ip of (len, ip') \<Rightarrow>
        if len = 0 then (0, ip')
        else if char_at s (len + 1) \<noteq> CHR '']'' then (0, ip')
        else (len + 2, ip'))"

section \<open>Formatting lemmas\<close>

abbreviation digit_char :: "nat \<Rightarrow> char" where
  "digit_char d \<equiv> char_of (48 + d)"

lemma fmt_fill_append: "fmt_fill u (acc @ r) = fmt_fill u acc @ r"
proof (induction u acc rule: fmt_fill.induct)
  case (1 u acc)
  then show ?case
    by (simp add: fmt_fill.simps [of u] Let_def)
qed

lemma fmt_ulong_rec:
  "fmt_ulong u = (if u < 10 then [digit_char u] else fmt_ulong (u div 10) @ [digit_char (u mod 10)])"
proof (cases "u < 10")
  case True
  then show ?thesis by (simp add: fmt_ulong_def fmt_fill.simps [of u])
next
  case False
  then have "u div 10 \<noteq> 0" by simp
  then have "fmt_fill u [] = fmt_fill (u div 10) ([] @ [digit_char (u mod 10)])"
    by (simp add: fmt_fill.simps [of u] Let_def)
  then show ?thesis
    using False by (simp add: fmt_ulong_def fmt_fill_append del: append_Nil)
qed

lemma fmt_ulong_induct [case_names small step]:
  assumes "\<And>u. u < 10 \<Longrightarrow> P u" and "\<And>u. \<not> u < 10 \<Longrightarrow> P (u div 10) \<Longrightarrow> P u"
  shows "P (u :: nat)"
proof (induction u rule: less_induct)
  case (less u)
  show ?case
  proof (cases "u < 10")
    case False
    then show ?thesis using less assms(2) by simp
  qed (rule assms(1))
qed

lemma fmt_len_loop_add: "fmt_len_loop (len + k) q = fmt_len_loop len q + k"
proof (induction len q rule: fmt_len_loop.induct)
  case (1 len q)
  then show ?case
    by (simp add: fmt_len_loop.simps [of "len + k"] fmt_len_loop.simps [of len])
qed

lemma length_fmt_ulong: "length (fmt_ulong u) = fmt_ulong_len u"
proof (induction u rule: fmt_ulong_induct)
  case (small u)
  then have "fmt_len_loop 1 u = 1"
    by (subst fmt_len_loop.simps) simp
  with small show ?case by (simp add: fmt_ulong_rec [of u] fmt_ulong_len_def)
next
  case (step u)
  then have "fmt_ulong_len u = fmt_len_loop (1 + 1) (u div 10)"
    unfolding fmt_ulong_len_def by (subst fmt_len_loop.simps) simp
  also have "\<dots> = fmt_ulong_len (u div 10) + 1"
    unfolding fmt_len_loop_add by (simp add: fmt_ulong_len_def)
  finally show ?case
    using step by (simp add: fmt_ulong_rec [of u])
qed

lemma fmt_ulong_neq_Nil [simp]: "fmt_ulong u \<noteq> []"
  by (subst fmt_ulong_rec) simp

lemma digitval_digit_char [simp]: "d < 10 \<Longrightarrow> digitval (digit_char d) = d"
  by (simp add: digitval_def unat_sub_if')

lemma digitval_less_10_iff: "digitval c < 10 \<longleftrightarrow> 48 \<le> uch c \<and> uch c \<le> 57"
  using uch_less [of c] by (auto simp: digitval_def unat_sub_if')

lemma digits_fmt_ulong: "\<forall>c \<in> set (fmt_ulong u). digitval c < 10"
proof (induction u rule: fmt_ulong_induct)
  case (small u)
  then show ?case by (simp add: fmt_ulong_rec [of u])
next
  case (step u)
  then show ?case by (simp add: fmt_ulong_rec [of u])
qed

lemma fmt_ulong_char: "c \<in> set (fmt_ulong u) \<Longrightarrow> 48 \<le> uch c \<and> uch c \<le> 57"
  using digits_fmt_ulong digitval_less_10_iff by blast

lemma fmt_ulong_not_special [simp]:
  "NUL \<notin> set (fmt_ulong u)" "CHR ''.'' \<notin> set (fmt_ulong u)" "CHR ''/'' \<notin> set (fmt_ulong u)"
  using fmt_ulong_char by fastforce+

text \<open>The number that a list of digits denotes.\<close>

fun digits_value :: "char list \<Rightarrow> nat \<Rightarrow> nat" where
  "digits_value [] n = n"
| "digits_value (c # s) n = digits_value s (n * 10 + digitval c)"

lemma digits_value_append: "digits_value (s @ t) n = digits_value t (digits_value s n)"
  by (induction s arbitrary: n) auto

lemma digits_value_fmt_ulong: "digits_value (fmt_ulong u) 0 = u"
proof (induction u rule: fmt_ulong_induct)
  case (small u)
  then show ?case by (simp add: fmt_ulong_rec [of u])
next
  case (step u)
  then show ?case by (simp add: fmt_ulong_rec [of u] digits_value_append)
qed

lemma fmt_ulong_inject: "fmt_ulong a = fmt_ulong b \<longleftrightarrow> a = b"
  by (metis digits_value_fmt_ulong)

section \<open>Scanning lemmas\<close>

lemma scan_loop_digits:
  assumes "\<forall>c \<in> set ds. digitval c < 10" and "r = [] \<or> \<not> digitval (hd r) < 10"
  shows "scan_loop 10 (ds @ r) pos (of_nat n) = (pos + length ds, of_nat (digits_value ds n))"
  using assms(1)
proof (induction ds arbitrary: pos n)
  case Nil
  then show ?case using assms(2) by (cases r) auto
next
  case (Cons c ds)
  have "(of_nat n * of_nat 10 + of_nat (digitval c) :: ulong) = of_nat (n * 10 + digitval c)"
    by (simp only: of_nat_mult of_nat_add)
  then have "scan_loop 10 ((c # ds) @ r) pos (of_nat n) = scan_loop 10 (ds @ r) (Suc pos) (of_nat (n * 10 + digitval c))"
    using Cons.prems by (simp add: Let_def)
  also have "\<dots> = (Suc pos + length ds, of_nat (digits_value ds (n * 10 + digitval c)))"
    using Cons.prems by (intro Cons.IH) simp
  finally show ?case by simp
qed

lemma scan_fmt_ulong:
  "r = [] \<or> \<not> digitval (hd r) < 10 \<Longrightarrow> scan_ulong (fmt_ulong u @ r) = (length (fmt_ulong u), of_nat u)"
  using scan_loop_digits [OF digits_fmt_ulong, of r u 0 0]
  by (simp add: scan_ulong_def digits_value_fmt_ulong)

lemma scan_loop_pos: "pos \<le> fst (scan_loop b s pos res) \<and> fst (scan_loop b s pos res) \<le> pos + length s"
proof (induction b s pos res rule: scan_loop.induct)
  case (2 base ch s pos result)
  then show ?case by (cases "digitval ch < base") (auto simp: Let_def)
qed simp

lemma scan_ulong_le: "fst (scan_ulong s) \<le> length s"
  using scan_loop_pos [of 0 10 s 0] by (simp add: scan_ulong_def)

lemma scan_loop_takeWhile:
  "scan_loop 10 s pos (of_nat n) =
     (pos + length (takeWhile (\<lambda>c. digitval c < 10) s), of_nat (digits_value (takeWhile (\<lambda>c. digitval c < 10) s) n))"
proof -
  let ?ds = "takeWhile (\<lambda>c. digitval c < 10) s"
  have s: "s = ?ds @ dropWhile (\<lambda>c. digitval c < 10) s" by simp
  have "dropWhile (\<lambda>c. digitval c < 10) s = [] \<or> \<not> digitval (hd (dropWhile (\<lambda>c. digitval c < 10) s)) < 10"
    by (metis hd_dropWhile)
  then have "scan_loop 10 (?ds @ dropWhile (\<lambda>c. digitval c < 10) s) pos (of_nat n) =
      (pos + length ?ds, of_nat (digits_value ?ds n))"
    by (intro scan_loop_digits) (auto dest: set_takeWhileD)
  then show ?thesis using s by simp
qed

text \<open>What \<open>scan_ulong\<close> computes on any input: the leading digits, and their value modulo the word size.\<close>

lemma scan_ulong_eq:
  "scan_ulong s =
     (length (takeWhile (\<lambda>c. digitval c < 10) s), of_nat (digits_value (takeWhile (\<lambda>c. digitval c < 10) s) 0))"
  using scan_loop_takeWhile [of s 0 0] by (simp add: scan_ulong_def)

lemma fmt_str_cstr: "fmt_str s = cstr s"
  by (induction s) auto

lemma fmt_strn_take: "fmt_strn s n = take n (cstr s)"
  by (induction s n rule: fmt_strn.induct) auto

lemma fmt_pad_eq: "fmt_pad len n = replicate (n - len) (CHR ''0'')"
proof (induction len n rule: fmt_pad.induct)
  case (1 len n)
  then show ?case
    by (cases "len < n") (simp_all add: fmt_pad.simps [of len n] Suc_diff_Suc [symmetric])
qed

lemma length_fmt_uint0: "length (fmt_uint0 u n) = max n (length (fmt_ulong u))"
  by (simp add: fmt_uint0_def fmt_pad_eq fmt_uint_def length_fmt_ulong)

section \<open>File names and addresses\<close>

lemma fmtqfn_inject:
  assumes "fmtqfn d i f = fmtqfn d j f"
  shows "i = j"
proof -
  have *: "fmtqfn d k f = (fmt_str d @ (if f then fmt_ulong (k mod auto_split) @ ''/'' else [])) @ fmt_ulong k @ [NUL]" for k
    by (simp add: fmtqfn_def)
  show ?thesis
  proof (cases f)
    case False
    with assms show ?thesis by (simp add: fmtqfn_def fmt_ulong_inject)
  next
    case True
    with assms have "fmt_ulong (i mod auto_split) @ CHR ''/'' # fmt_ulong i = fmt_ulong (j mod auto_split) @ CHR ''/'' # fmt_ulong j"
      by (simp add: fmtqfn_def)
    then have "byte_rchr (fmt_ulong (i mod auto_split) @ CHR ''/'' # fmt_ulong i) (CHR ''/'') = length (fmt_ulong (j mod auto_split))"
      by (simp add: byte_rchr_append)
    then have "length (fmt_ulong (i mod auto_split)) = length (fmt_ulong (j mod auto_split))"
      by (simp add: byte_rchr_append)
    with \<open>fmt_ulong (i mod auto_split) @ CHR ''/'' # fmt_ulong i = _\<close> show ?thesis
      by (simp add: fmt_ulong_inject)
  qed
qed

lemma digitval_dot [simp]: "digitval CHR ''.'' = 254" "digitval CHR '']'' = 45" "digitval NUL = 208" "digitval CHR ''/'' = 255"
  by (simp_all add: digitval_def unsigned_minus_1_eq_mask mask_eq_exp_minus_1)

lemma ip_scan_fmt:
  assumes "r = [] \<or> \<not> digitval (hd r) < 10"
  shows "ip_scan (ip_fmt ip @ r) ip0 = (length (ip_fmt ip), ip)"
proof -
  obtain a b c d where ip: "ip = (a, b, c, d)" by (cases ip)
  obtain a0 b0 c0 d0 where ip0: "ip0 = (a0, b0, c0, d0)" by (cases ip0)
  have u: "ucast (ucast x :: ulong) = x" for x :: "8 word"
    by (simp add: word_unat_eq_iff unsigned_ucast_eq take_bit_word_eq_self)
  show ?thesis
    using assms
    by (simp add: ip_scan_def ip_fmt_def ip ip0 scan_fmt_ulong Let_def u)
qed

lemma ip_scanbracket_fmt: "ip_scanbracket (''['' @ ip_fmt ip @ '']'' @ r) ip0 = (length (ip_fmt ip) + 2, ip)"
proof -
  have "ip_scan (ip_fmt ip @ CHR '']'' # r) ip0 = (length (ip_fmt ip), ip)"
    by (rule ip_scan_fmt) simp
  moreover have "length (ip_fmt ip) \<noteq> 0"
    by (cases ip) (simp add: ip_fmt_def)
  ultimately show ?thesis
    by (simp add: ip_scanbracket_def char_at_append)
qed

section \<open>Properties\<close>

text \<open>\<open>scan_ulong\<close> reads back every 32-bit number that \<open>fmt_ulong\<close> has written in front of something that is not a
  digit, and consumes exactly its digits.\<close>

theorem scan_fmt_roundtrip:
  assumes "r = [] \<or> \<not> digitval (hd r) < 10" and "u < 2 ^ 32"
  shows "fst (scan_ulong (fmt_ulong u @ r)) = length (fmt_ulong u) \<and> unat (snd (scan_ulong (fmt_ulong u @ r))) = u"
  using scan_fmt_ulong [OF assms(1), of u] assms(2) by (simp add: unat_of_nat)

theorem scan_fmt_roundtrip_witness:
  "fst (scan_ulong (fmt_ulong 407 @ ''/x'')) = length (fmt_ulong 407) \<and> unat (snd (scan_ulong (fmt_ulong 407 @ ''/x''))) = 407"
  by (rule scan_fmt_roundtrip) (simp_all add: digitval_def unsigned_minus_1_eq_mask mask_eq_exp_minus_1)

text \<open>\<open>ip_scanbracket\<close> reads back every address that \<open>ip_fmt\<close> has written between brackets.\<close>

theorem ip_roundtrip: "ip_scanbracket (''['' @ ip_fmt ip @ '']'' @ r) ip0 = (length (ip_fmt ip) + 2, ip)"
  by (rule ip_scanbracket_fmt)

end
