(* ===== verification/Stralloc.thy ===== *)
theory Stralloc
  imports Bytes
begin

unbundle bit_operations_syntax

text \<open>
  Memory: \<open>alloc.c\<close>, \<open>alloc_re.c\<close>, the growable arrays of \<open>gen_alloc.h\<close> and \<open>gen_allocdefs.h\<close>, and the string
  buffers of \<open>stralloc_*.c\<close>.

  Sizes are 32-bit words, so the wrap-around in \<open>n += x->len\<close>, \<open>base + n + (n >> 3)\<close> and
  \<open>x->a * sizeof(type)\<close> is in the model. A write or a copy outside a block has no defined result in C: such an
  operation returns \<^term>\<open>None\<close>. \<open>Some (ok, x)\<close> is the C return value (0 or 1) with the array after the call.
  \<open>malloc\<close> is not part of the sources: whether it can serve a size is the parameter \<open>mok\<close>. The bytes of a new block
  are unknown: \<open>junk\<close> stands for them.
  The lemmas: the invariant \<open>ga_inv\<close>, no undefined behaviour and the functional result of every operation as long as
  the sizes do not wrap, and the wrap-around itself.
\<close>

section \<open>\<open>alloc\<close>\<close>

definition ALIGNMENT :: "32 word" where "ALIGNMENT = 16"
definition SPACE :: "32 word" where "SPACE = 4096"

text \<open>A block is in the static \<open>space\<close> at an offset, or it comes from \<open>malloc\<close> with a size.\<close>

datatype block = Space "32 word" | Malloced "32 word"

definition alloc_size :: "32 word \<Rightarrow> 32 word" where
  "alloc_size n = ALIGNMENT + n - (n AND (ALIGNMENT - 1))"

definition alloc :: "(32 word \<Rightarrow> bool) \<Rightarrow> 32 word \<Rightarrow> 32 word \<Rightarrow> block option \<times> 32 word" where
  "alloc mok avail n =
     (let n = alloc_size n
      in if n \<le> avail then (Some (Space (avail - n)), avail - n)
         else if mok n then (Some (Malloced n), avail)
         else (None, avail))"

text \<open>\<open>alloc_free\<close>: which blocks are handed to \<open>free\<close>.\<close>

definition alloc_free :: "block \<Rightarrow> bool" where
  "alloc_free x = (case x of Space p \<Rightarrow> \<not> (p < SPACE) | Malloced _ \<Rightarrow> True)"

section \<open>Growable arrays\<close>

record 'a ga =
  field :: "'a list option"
  len :: "32 word"
  a :: "32 word"

text \<open>\<open>alloc_re(&x->field, i * sizeof, a * sizeof)\<close> with both sizes in bytes; the copy must fit the new block.\<close>

definition alloc_re :: "(32 word \<Rightarrow> bool) \<Rightarrow> 'a \<Rightarrow> 32 word \<Rightarrow> 32 word \<Rightarrow> 32 word \<Rightarrow> 'a list \<Rightarrow> (bool \<times> 'a list) option" where
  "alloc_re mok junk sz m n x =
     (if \<not> mok (n * sz) then Some (False, x)
      else let block = replicate (unat (n * sz) div unat sz) junk
           in if unat m \<le> length block \<and> unat m \<le> length x
              then Some (True, take (unat m) x @ drop (unat m) block)
              else None)"

definition ga_grow :: "(32 word \<Rightarrow> bool) \<Rightarrow> 'a \<Rightarrow> 32 word \<Rightarrow> 32 word \<Rightarrow> 'a ga \<Rightarrow> 'a list \<Rightarrow> 32 word \<Rightarrow> (bool \<times> 'a ga) option" where
  "ga_grow mok junk sz base x m n =
     (let i = a x
      in if n > i then
           let a' = base + n + drop_bit 3 n
           in case alloc_re mok junk sz i a' m of
                None \<Rightarrow> None
              | Some (True, m') \<Rightarrow> Some (True, x\<lparr>field := Some m', a := a'\<rparr>)
              | Some (False, _) \<Rightarrow> Some (False, x\<lparr>a := i\<rparr>)
         else Some (True, x))"

definition ga_first :: "(32 word \<Rightarrow> bool) \<Rightarrow> 'a \<Rightarrow> 32 word \<Rightarrow> 'a ga \<Rightarrow> 32 word \<Rightarrow> bool \<times> 'a ga" where
  "ga_first mok junk sz x n =
     (let x = x\<lparr>len := 0, a := n\<rparr>
      in if mok (n * sz) then (True, x\<lparr>field := Some (replicate (unat (n * sz) div unat sz) junk)\<rparr>)
         else (False, x))"

definition ga_ready :: "(32 word \<Rightarrow> bool) \<Rightarrow> 'a \<Rightarrow> 32 word \<Rightarrow> 32 word \<Rightarrow> 'a ga \<Rightarrow> 32 word \<Rightarrow> (bool \<times> 'a ga) option" where
  "ga_ready mok junk sz base x n =
     (case field x of
        Some m \<Rightarrow> ga_grow mok junk sz base x m n
      | None \<Rightarrow> Some (ga_first mok junk sz x n))"

definition ga_readyplus :: "(32 word \<Rightarrow> bool) \<Rightarrow> 'a \<Rightarrow> 32 word \<Rightarrow> 32 word \<Rightarrow> 'a ga \<Rightarrow> 32 word \<Rightarrow> (bool \<times> 'a ga) option" where
  "ga_readyplus mok junk sz base x n =
     (case field x of
        Some m \<Rightarrow> ga_grow mok junk sz base x m (n + len x)
      | None \<Rightarrow> Some (ga_first mok junk sz x n))"

definition ga_append :: "(32 word \<Rightarrow> bool) \<Rightarrow> 'a \<Rightarrow> 32 word \<Rightarrow> 32 word \<Rightarrow> 'a ga \<Rightarrow> 'a \<Rightarrow> (bool \<times> 'a ga) option" where
  "ga_append mok junk sz base x i =
     (case ga_readyplus mok junk sz base x 1 of
        None \<Rightarrow> None
      | Some (False, x) \<Rightarrow> Some (False, x)
      | Some (True, x) \<Rightarrow>
          (case field x of
             Some m \<Rightarrow> if unat (len x) < length m
                        then Some (True, x\<lparr>field := Some (m[unat (len x) := i]), len := len x + 1\<rparr>)
                        else None
           | None \<Rightarrow> None))"

section \<open>String buffers\<close>

type_synonym stralloc = "char ga"

definition stralloc_ready :: "(32 word \<Rightarrow> bool) \<Rightarrow> char \<Rightarrow> stralloc \<Rightarrow> 32 word \<Rightarrow> (bool \<times> stralloc) option" where
  "stralloc_ready mok junk x n = ga_ready mok junk 1 30 x n"

definition stralloc_readyplus :: "(32 word \<Rightarrow> bool) \<Rightarrow> char \<Rightarrow> stralloc \<Rightarrow> 32 word \<Rightarrow> (bool \<times> stralloc) option" where
  "stralloc_readyplus mok junk x n = ga_readyplus mok junk 1 30 x n"

definition stralloc_append :: "(32 word \<Rightarrow> bool) \<Rightarrow> char \<Rightarrow> stralloc \<Rightarrow> char \<Rightarrow> (bool \<times> stralloc) option" where
  "stralloc_append mok junk x i = ga_append mok junk 1 30 x i"

text \<open>
  The tail of \<open>stralloc_copyb\<close> and \<open>stralloc_catb\<close>: copy \<open>s\<close> to offset \<open>off\<close>, set the length, put the \<open>Z\<close>.
  The \<open>Z\<close> goes to the byte after the string.
\<close>

definition sa_write :: "stralloc \<Rightarrow> 32 word \<Rightarrow> char list \<Rightarrow> (bool \<times> stralloc) option" where
  "sa_write sa off s =
     (case field sa of
        None \<Rightarrow> None
      | Some m \<Rightarrow>
          let n' = off + of_nat (length s)
          in if unat off + length s < length m \<and> unat n' < length m
             then Some (True, sa\<lparr>field := Some ((take (unat off) m @ s @ drop (unat off + length s) m)[unat n' := CHR ''Z'']),
                                len := n'\<rparr>)
             else None)"

definition stralloc_copyb :: "(32 word \<Rightarrow> bool) \<Rightarrow> char \<Rightarrow> stralloc \<Rightarrow> char list \<Rightarrow> (bool \<times> stralloc) option" where
  "stralloc_copyb mok junk sa s =
     (case stralloc_ready mok junk sa (of_nat (length s) + 1) of
        None \<Rightarrow> None
      | Some (False, sa) \<Rightarrow> Some (False, sa)
      | Some (True, sa) \<Rightarrow> sa_write sa 0 s)"

definition stralloc_catb :: "(32 word \<Rightarrow> bool) \<Rightarrow> char \<Rightarrow> stralloc \<Rightarrow> char list \<Rightarrow> (bool \<times> stralloc) option" where
  "stralloc_catb mok junk sa s =
     (case field sa of
        None \<Rightarrow> stralloc_copyb mok junk sa s
      | Some _ \<Rightarrow>
         (case stralloc_readyplus mok junk sa (of_nat (length s) + 1) of
            None \<Rightarrow> None
          | Some (False, sa) \<Rightarrow> Some (False, sa)
          | Some (True, sa) \<Rightarrow> sa_write sa (len sa) s))"

definition sa_bytes :: "stralloc \<Rightarrow> char list" where
  "sa_bytes sa = (case field sa of None \<Rightarrow> [] | Some m \<Rightarrow> take (unat (len sa)) m)"

definition stralloc_copys :: "(32 word \<Rightarrow> bool) \<Rightarrow> char \<Rightarrow> stralloc \<Rightarrow> char list \<Rightarrow> (bool \<times> stralloc) option" where
  "stralloc_copys mok junk sa s = stralloc_copyb mok junk sa (take (str_len s) s)"

definition stralloc_cats :: "(32 word \<Rightarrow> bool) \<Rightarrow> char \<Rightarrow> stralloc \<Rightarrow> char list \<Rightarrow> (bool \<times> stralloc) option" where
  "stralloc_cats mok junk sa s = stralloc_catb mok junk sa (take (str_len s) s)"

definition stralloc_copy :: "(32 word \<Rightarrow> bool) \<Rightarrow> char \<Rightarrow> stralloc \<Rightarrow> stralloc \<Rightarrow> (bool \<times> stralloc) option" where
  "stralloc_copy mok junk sato safrom = stralloc_copyb mok junk sato (sa_bytes safrom)"

definition stralloc_cat :: "(32 word \<Rightarrow> bool) \<Rightarrow> char \<Rightarrow> stralloc \<Rightarrow> stralloc \<Rightarrow> (bool \<times> stralloc) option" where
  "stralloc_cat mok junk sato safrom = stralloc_catb mok junk sato (sa_bytes safrom)"

definition stralloc_starts :: "stralloc \<Rightarrow> char list \<Rightarrow> bool" where
  "stralloc_starts sa s =
     (unat (len sa) \<ge> str_len s \<and> byte_equal s (str_len s) (sa_bytes sa))"

section \<open>Invariant and results\<close>

definition ga_inv :: "'a ga \<Rightarrow> bool" where
  "ga_inv x \<longleftrightarrow> (case field x of None \<Rightarrow> True | Some m \<Rightarrow> length m = unat (a x) \<and> len x \<le> a x)"

definition ga_list :: "'a ga \<Rightarrow> 'a list" where
  "ga_list x = (case field x of None \<Rightarrow> [] | Some m \<Rightarrow> take (unat (len x)) m)"

text \<open>The sizes that stay below the word size for an array that has to hold \<open>n\<close> elements of \<open>sz\<close> bytes.\<close>

definition ga_room :: "32 word \<Rightarrow> 32 word \<Rightarrow> nat \<Rightarrow> bool" where
  "ga_room sz base n \<longleftrightarrow> 0 < sz \<and> (unat base + n + n div 8) * unat sz < 2 ^ 32"

lemma sa_bytes_ga_list: "sa_bytes sa = ga_list sa"
  by (simp add: sa_bytes_def ga_list_def)

lemma ga_roomD:
  assumes "ga_room sz base (unat n)"
  shows "unat (base + n + drop_bit 3 n) = unat base + unat n + unat n div 8"
    and "unat ((base + n + drop_bit 3 n) * sz) = (unat base + unat n + unat n div 8) * unat sz"
    and "unat (n * sz) = unat n * unat sz"
proof -
  have sz: "1 \<le> unat sz"
    using assms by (simp add: ga_room_def word_gt_0 unat_eq_0 Suc_le_eq unat_gt_0)
  have b: "(unat base + unat n + unat n div 8) * unat sz < 2 ^ 32"
    using assms by (simp add: ga_room_def)
  moreover have le: "unat base + unat n + unat n div 8 \<le> (unat base + unat n + unat n div 8) * unat sz"
    using sz by simp
  ultimately have c: "unat base + unat n + unat n div 8 < 2 ^ 32" by linarith
  have d: "unat (drop_bit 3 n) = unat n div 8"
    by (simp add: drop_bit_eq_div unat_div)
  show e: "unat (base + n + drop_bit 3 n) = unat base + unat n + unat n div 8"
    using c by (simp add: unat_word_ariths d)
  show "unat ((base + n + drop_bit 3 n) * sz) = (unat base + unat n + unat n div 8) * unat sz"
    unfolding unat_word_ariths(2) e using b by simp
  have "unat n * unat sz \<le> (unat base + unat n + unat n div 8) * unat sz"
    by (rule mult_le_mono1) simp
  with b have "unat n * unat sz < 2 ^ 32" by linarith
  then show "unat (n * sz) = unat n * unat sz"
    unfolding unat_word_ariths(2) by simp
qed

lemma length_zero_sz: "ga_room sz base n \<Longrightarrow> 0 < unat sz"
  by (auto simp: ga_room_def word_gt_0 unat_gt_0)

text \<open>What an operation that only makes room guarantees: it has a defined result and keeps the elements.\<close>

definition ga_grown :: "(32 word \<Rightarrow> bool) \<Rightarrow> 'a ga \<Rightarrow> nat \<Rightarrow> (bool \<times> 'a ga) option \<Rightarrow> bool" where
  "ga_grown mok x n r \<longleftrightarrow>
     (\<exists>b x'. r = Some (b, x') \<and> ga_inv x' \<and> ga_list x' = ga_list x \<and> (b \<or> (\<exists>k. \<not> mok k)) \<and>
        (b \<longrightarrow> (\<exists>m. field x' = Some m \<and> n \<le> length m \<and> (field x \<noteq> None \<longrightarrow> len x' = len x) \<and>
                     (field x = None \<longrightarrow> len x' = 0))) \<and>
        (\<not> b \<longrightarrow> field x' = field x))"

lemma ga_grow_ok:
  assumes "ga_inv x" "field x = Some m" "ga_room sz base (unat n)"
  shows "ga_grown mok x (unat n) (ga_grow mok junk sz base x m n)"
proof (cases "n > a x")
  case False
  then have "unat n \<le> length m"
    using assms(1,2) by (simp add: ga_inv_def word_le_nat_alt linorder_not_less)
  with False assms show ?thesis
    by (auto simp: ga_grown_def ga_grow_def Let_def)
next
  case True
  note room = ga_roomD [OF assms(3)]
  let ?a = "base + n + drop_bit 3 n"
  have sz: "0 < unat sz"
    using assms(3) by (rule length_zero_sz)
  have inv: "length m = unat (a x)" "len x \<le> a x"
    using assms(1,2) by (simp_all add: ga_inv_def)
  have le: "unat (a x) \<le> unat ?a" "unat n \<le> unat ?a"
    using True unfolding room(1) by (simp_all add: word_less_nat_alt)
  have l: "unat (len x) \<le> unat (a x)"
    using inv(2) by (simp add: word_le_nat_alt)
  have div: "unat (?a * sz) div unat sz = unat ?a"
    unfolding room(2) room(1) using sz by simp
  show ?thesis
  proof (cases "mok (?a * sz)")
    case False
    with True assms(1) show ?thesis
      by (auto simp: ga_grown_def ga_grow_def Let_def alloc_re_def ga_inv_def ga_list_def assms(2))
  next
    case ok: True
    let ?m = "m @ drop (length m) (replicate (unat ?a) junk)"
    have "ga_grow mok junk sz base x m n = Some (True, x\<lparr>field := Some ?m, a := ?a\<rparr>)"
      using True ok le inv unfolding ga_grow_def alloc_re_def Let_def div by simp
    moreover have "length ?m = unat ?a"
      using le inv by simp
    moreover have "len x \<le> ?a"
      using l le by (simp add: word_le_nat_alt)
    ultimately show ?thesis
      using l le inv assms(2) by (auto simp: ga_grown_def ga_inv_def ga_list_def)
  qed
qed

lemma ga_first_ok:
  assumes "field x = None" "ga_room sz base (unat n)"
  shows "ga_grown mok x (unat n) (Some (ga_first mok junk sz x n))"
proof -
  have "unat (n * sz) div unat sz = unat n"
    using ga_roomD(3) [OF assms(2)] length_zero_sz [OF assms(2)] by simp
  then show ?thesis
    using assms(1) by (auto simp: ga_grown_def ga_first_def Let_def ga_inv_def ga_list_def)
qed

lemma ga_ready_ok:
  "ga_inv x \<Longrightarrow> ga_room sz base (unat n) \<Longrightarrow> ga_grown mok x (unat n) (ga_ready mok junk sz base x n)"
  by (auto simp: ga_ready_def ga_grow_ok ga_first_ok split: option.split)

lemma ga_readyplus_ok:
  assumes "ga_inv x" "ga_room sz base (unat n + length (ga_list x))"
  shows "ga_grown mok x (unat n + length (ga_list x)) (ga_readyplus mok junk sz base x n)"
proof (cases "field x")
  case None
  then show ?thesis
    using assms ga_first_ok [OF None] by (simp add: ga_readyplus_def ga_list_def)
next
  case (Some m)
  have "unat (len x) \<le> length m"
    using assms(1) Some by (simp add: ga_inv_def word_le_nat_alt)
  then have l: "length (ga_list x) = unat (len x)"
    using Some by (simp add: ga_list_def)
  have sz: "0 < unat sz"
    using assms(2) by (rule length_zero_sz)
  then have "(unat n + unat (len x)) * 1 \<le> (unat base + (unat n + unat (len x)) + (unat n + unat (len x)) div 8) * unat sz"
    by (intro mult_le_mono) simp_all
  also have "\<dots> < 2 ^ 32"
    using assms(2) unfolding l ga_room_def by simp
  finally have sum: "unat (n + len x) = unat n + unat (len x)"
    by (simp add: unat_word_ariths)
  then have "ga_room sz base (unat (n + len x))"
    using assms(2) unfolding l by simp
  from ga_grow_ok [OF assms(1) Some this] show ?thesis
    using Some by (simp add: ga_readyplus_def sum l)
qed

lemma length_ga_list: "ga_inv x \<Longrightarrow> field x = Some m \<Longrightarrow> length (ga_list x) = unat (len x)"
  by (simp add: ga_inv_def ga_list_def word_le_nat_alt)

lemma ga_append_ok:
  assumes inv: "ga_inv x" and room: "ga_room sz base (Suc (length (ga_list x)))"
  shows "\<exists>b x'. ga_append mok junk sz base x i = Some (b, x') \<and> ga_inv x' \<and> (b \<or> (\<exists>k. \<not> mok k)) \<and>
           ga_list x' = (if b then ga_list x @ [i] else ga_list x)"
proof -
  have "ga_grown mok x (1 + length (ga_list x)) (ga_readyplus mok junk sz base x 1)"
    using ga_readyplus_ok [OF inv, of sz base 1 mok junk] room by simp
  then obtain b x' where r: "ga_readyplus mok junk sz base x 1 = Some (b, x')" and inv': "ga_inv x'"
    and same: "ga_list x' = ga_list x" and ok: "b \<or> (\<exists>k. \<not> mok k)"
    and fit: "b \<Longrightarrow> \<exists>m. field x' = Some m \<and> Suc (length (ga_list x)) \<le> length m"
    unfolding ga_grown_def by auto
  show ?thesis
  proof (cases b)
    case False
    with r inv' same ok show ?thesis by (auto simp: ga_append_def)
  next
    case True
    with fit obtain m where m: "field x' = Some m" "Suc (length (ga_list x)) \<le> length m" by auto
    have l: "unat (len x') = length (ga_list x)"
      using length_ga_list [OF inv' m(1)] same by simp
    have lt: "unat (len x') < length m" using l m(2) by simp
    have am: "length m = unat (a x')" using inv' m(1) by (simp add: ga_inv_def)
    have "unat (a x') < 2 ^ 32" using unsigned_less [of "a x'"] by simp
    then have u: "unat (len x' + 1) = Suc (unat (len x'))"
      using lt am by (simp add: unat_word_ariths)
    have "len x' + 1 \<le> a x'" using u lt am by (simp add: word_le_nat_alt)
    with r True m lt am u same show ?thesis
      by (auto simp: ga_append_def ga_inv_def ga_list_def take_Suc_conv_app_nth)
  qed
qed

section \<open>String buffers implement strings\<close>

lemma sa_write_ok:
  assumes inv: "ga_inv sa" and m: "field sa = Some m" and fit: "unat off + length s < length m"
  shows "\<exists>sa'. sa_write sa off s = Some (True, sa') \<and> ga_inv sa' \<and> ga_list sa' = take (unat off) m @ s"
proof -
  have am: "length m = unat (a sa)" using inv m by (simp add: ga_inv_def)
  have "unat (a sa) < 2 ^ 32" using unsigned_less [of "a sa"] by simp
  then have small: "unat off + length s < 2 ^ 32" using fit am by simp
  have u: "unat (off + of_nat (length s)) = unat off + length s"
    using small by (simp add: unat_word_ariths unat_of_nat)
  have "off + of_nat (length s) \<le> a sa"
    using u fit am by (simp add: word_le_nat_alt)
  moreover have "unat off \<le> length m" using fit by simp
  ultimately show ?thesis
    using m fit am u by (auto simp: sa_write_def Let_def ga_inv_def ga_list_def)
qed

lemma unat_of_nat_Suc: "Suc n < 2 ^ 32 \<Longrightarrow> unat (of_nat n + 1 :: 32 word) = Suc n"
proof -
  assume "Suc n < 2 ^ 32"
  then have "unat (of_nat (Suc n) :: 32 word) = Suc n"
    by (simp only: unat_of_nat len_of_numeral_defs) simp
  then show ?thesis by (simp add: add.commute)
qed

lemma ga_room_less: "ga_room sz base n \<Longrightarrow> n < 2 ^ 32"
proof -
  assume r: "ga_room sz base n"
  have "n * 1 \<le> (unat base + n + n div 8) * unat sz"
    using length_zero_sz [OF r] by (intro mult_le_mono) simp_all
  then show ?thesis using r by (simp add: ga_room_def)
qed

lemma ga_room_mono: "ga_room sz base n \<Longrightarrow> k \<le> n \<Longrightarrow> ga_room sz base k"
proof -
  assume r: "ga_room sz base n" and k: "k \<le> n"
  have "(unat base + k + k div 8) * unat sz \<le> (unat base + n + n div 8) * unat sz"
    using k by (intro mult_le_mono1) (simp add: add_mono div_le_mono)
  moreover have "(unat base + n + n div 8) * unat sz < 2 ^ 32" "0 < sz"
    using r by (simp_all add: ga_room_def)
  ultimately show ?thesis unfolding ga_room_def by linarith
qed

lemma stralloc_copyb_ok:
  assumes inv: "ga_inv sa" and room: "ga_room 1 30 (Suc (length s))"
  shows "\<exists>b sa'. stralloc_copyb mok junk sa s = Some (b, sa') \<and> ga_inv sa' \<and> (b \<or> (\<exists>k. \<not> mok k)) \<and>
           ga_list sa' = (if b then s else ga_list sa)"
proof -
  have n: "unat (of_nat (length s) + 1 :: 32 word) = Suc (length s)"
    using ga_room_less [OF room] by (rule unat_of_nat_Suc)
  have "ga_grown mok sa (Suc (length s)) (stralloc_ready mok junk sa (of_nat (length s) + 1))"
    using ga_ready_ok [OF inv, of 1 30 "of_nat (length s) + 1" mok junk] room unfolding n stralloc_ready_def by simp
  then obtain b sa' where r: "stralloc_ready mok junk sa (of_nat (length s) + 1) = Some (b, sa')" and inv': "ga_inv sa'"
    and same: "ga_list sa' = ga_list sa" and ok: "b \<or> (\<exists>k. \<not> mok k)"
    and fit: "b \<Longrightarrow> \<exists>m. field sa' = Some m \<and> Suc (length s) \<le> length m"
    unfolding ga_grown_def by auto
  show ?thesis
  proof (cases b)
    case False
    with r inv' same ok show ?thesis by (auto simp: stralloc_copyb_def)
  next
    case True
    with fit obtain m where m: "field sa' = Some m" "unat (0 :: 32 word) + length s < length m" by auto
    from sa_write_ok [OF inv' m] True r show ?thesis by (auto simp: stralloc_copyb_def)
  qed
qed

lemma stralloc_catb_ok:
  assumes inv: "ga_inv sa" and room: "ga_room 1 30 (Suc (length (ga_list sa) + length s))"
  shows "\<exists>b sa'. stralloc_catb mok junk sa s = Some (b, sa') \<and> ga_inv sa' \<and> (b \<or> (\<exists>k. \<not> mok k)) \<and>
           ga_list sa' = (if b then ga_list sa @ s else ga_list sa)"
proof (cases "field sa")
  case None
  then have "stralloc_catb mok junk sa s = stralloc_copyb mok junk sa s" and nil: "ga_list sa = []"
    by (simp_all add: stralloc_catb_def ga_list_def)
  moreover have "ga_room 1 30 (Suc (length s))"
    using room nil by simp
  ultimately show ?thesis
    using stralloc_copyb_ok [OF inv, of s mok junk] by (simp only: append_Nil)
next
  case (Some m0)
  have n: "unat (of_nat (length s) + 1 :: 32 word) = Suc (length s)"
    using ga_room_less [OF room] by (intro unat_of_nat_Suc) simp
  have "ga_grown mok sa (Suc (length s) + length (ga_list sa)) (stralloc_readyplus mok junk sa (of_nat (length s) + 1))"
    using ga_readyplus_ok [OF inv, of 1 30 "of_nat (length s) + 1" mok junk] room
    unfolding n stralloc_readyplus_def by (simp add: add.commute)
  then obtain b sa' where r: "stralloc_readyplus mok junk sa (of_nat (length s) + 1) = Some (b, sa')" and inv': "ga_inv sa'"
    and same: "ga_list sa' = ga_list sa" and ok: "b \<or> (\<exists>k. \<not> mok k)"
    and fit: "b \<Longrightarrow> \<exists>m. field sa' = Some m \<and> Suc (length s) + length (ga_list sa) \<le> length m"
    unfolding ga_grown_def by auto
  show ?thesis
  proof (cases b)
    case False
    with r inv' same ok Some show ?thesis by (auto simp: stralloc_catb_def)
  next
    case True
    with fit obtain m where m: "field sa' = Some m" and "Suc (length s) + length (ga_list sa) \<le> length m" by auto
    moreover have l: "unat (len sa') = length (ga_list sa)"
      using length_ga_list [OF inv' m] same by simp
    ultimately have "unat (len sa') + length s < length m" by simp
    moreover have "take (unat (len sa')) m = ga_list sa"
      using m same by (simp add: ga_list_def)
    ultimately show ?thesis
      using sa_write_ok [OF inv' m, of "len sa'" s] True r Some by (auto simp: stralloc_catb_def)
  qed
qed

text \<open>A chain of appends, each of which gives up as soon as one fails: \<open>if (!stralloc_cats(...)) return 0;\<close>.\<close>

fun cat_all :: "('b \<Rightarrow> char list \<Rightarrow> (bool \<times> 'b) option) \<Rightarrow> 'b \<Rightarrow> char list list \<Rightarrow> (bool \<times> 'b) option" where
  "cat_all catb b [] = Some (True, b)"
| "cat_all catb b (s # ss) =
     (case catb b s of
        None \<Rightarrow> None
      | Some (False, b') \<Rightarrow> Some (False, b')
      | Some (True, b') \<Rightarrow> cat_all catb b' ss)"

text \<open>
  The contract of a string buffer: what its clients, which treat a \<open>stralloc\<close> as the string of its bytes, rely on.
\<close>

locale string_buffer =
  fixes copyb :: "'b \<Rightarrow> char list \<Rightarrow> (bool \<times> 'b) option"
    and catb :: "'b \<Rightarrow> char list \<Rightarrow> (bool \<times> 'b) option"
    and bytes :: "'b \<Rightarrow> char list"
    and inv :: "'b \<Rightarrow> bool"
    and fits :: "nat \<Rightarrow> bool"
  assumes fits_mono: "fits n \<Longrightarrow> k \<le> n \<Longrightarrow> fits k"
    and copyb_law: "inv b \<Longrightarrow> fits (length s) \<Longrightarrow>
          \<exists>r b'. copyb b s = Some (r, b') \<and> inv b' \<and> bytes b' = (if r then s else bytes b)"
    and catb_law: "inv b \<Longrightarrow> fits (length (bytes b) + length s) \<Longrightarrow>
          \<exists>r b'. catb b s = Some (r, b') \<and> inv b' \<and> bytes b' = (if r then bytes b @ s else bytes b)"
begin

lemma cat_all_law:
  "inv b \<Longrightarrow> fits (length (bytes b) + length (concat ss)) \<Longrightarrow>
     \<exists>r b'. cat_all catb b ss = Some (r, b') \<and> inv b' \<and> (r \<longrightarrow> bytes b' = bytes b @ concat ss)"
proof (induction ss arbitrary: b)
  case Nil
  then show ?case by auto
next
  case (Cons s ss)
  have "fits (length (bytes b) + length s)"
    using Cons.prems(2) by (rule fits_mono) simp
  from catb_law [OF Cons.prems(1) this] obtain r b' where
    c: "catb b s = Some (r, b')" "inv b'" "bytes b' = (if r then bytes b @ s else bytes b)" by blast
  show ?case
  proof (cases r)
    case False
    with c show ?thesis by auto
  next
    case True
    have "fits (length (bytes b') + length (concat ss))"
      using Cons.prems(2) c True by (simp add: add.assoc)
    from Cons.IH [OF c(2) this] c True show ?thesis by auto
  qed
qed

lemma copy_cat_all:
  assumes "inv b" and "fits (length s + length (concat ss))" and "copyb b s = Some (True, b1)"
  shows "\<exists>r b'. cat_all catb b1 ss = Some (r, b') \<and> inv b' \<and> (r \<longrightarrow> bytes b' = s @ concat ss)"
proof -
  have "fits (length s)" using assms(2) by (rule fits_mono) simp
  from copyb_law [OF assms(1) this] assms(3) have "inv b1" "bytes b1 = s" by auto
  with cat_all_law [of b1 ss] assms(2) show ?thesis by simp
qed

end

interpretation sa: string_buffer "stralloc_copyb mok junk" "stralloc_catb mok junk" ga_list ga_inv "\<lambda>n. ga_room 1 30 (Suc n)"
  for mok junk
proof unfold_locales
  show "ga_room 1 30 (Suc n) \<Longrightarrow> k \<le> n \<Longrightarrow> ga_room 1 30 (Suc k)" for n k
    by (erule ga_room_mono) simp
  show "ga_inv b \<Longrightarrow> ga_room 1 30 (Suc (length s)) \<Longrightarrow>
      \<exists>r b'. stralloc_copyb mok junk b s = Some (r, b') \<and> ga_inv b' \<and> ga_list b' = (if r then s else ga_list b)" for b s
    using stralloc_copyb_ok by metis
  show "ga_inv b \<Longrightarrow> ga_room 1 30 (Suc (length (ga_list b) + length s)) \<Longrightarrow>
      \<exists>r b'. stralloc_catb mok junk b s = Some (r, b') \<and> ga_inv b' \<and>
        ga_list b' = (if r then ga_list b @ s else ga_list b)" for b s
    using stralloc_catb_ok by metis
qed

section \<open>Rounding in \<open>alloc\<close>\<close>

lemma and_15: "(n :: 32 word) AND 15 = n mod 16"
proof -
  have "n AND 15 = take_bit 4 n"
    by (simp add: take_bit_eq_mask mask_eq_exp_minus_1)
  then show ?thesis by (simp add: take_bit_eq_mod)
qed

lemma alloc_size_eq:
  assumes "unat n + 16 < 2 ^ 32"
  shows "unat (alloc_size n) = 16 * (unat n div 16) + 16"
proof -
  have m: "unat (n mod 16) = unat n mod 16"
    by (simp add: unat_mod)
  have "unat (16 + n) = 16 + unat n"
    using assms by (simp add: unat_word_ariths)
  moreover have "n mod 16 \<le> 16 + n"
    using calculation m by (simp add: word_le_nat_alt trans_le_add2)
  ultimately have "unat (16 + n - n mod 16) = 16 + unat n - unat n mod 16"
    using m by (simp add: unat_sub)
  then show ?thesis
    by (simp add: alloc_size_def ALIGNMENT_def and_15 minus_mod_eq_mult_div [symmetric])
qed

lemma alloc_size_wraps:
  assumes "2 ^ 32 - 16 \<le> unat n"
  shows "alloc_size n = 0"
proof -
  have lt: "unat n < 2 ^ 32" using unsigned_less [of n] by simp
  have d: "unat n div 16 = 2 ^ 28 - 1"
    using assms lt by simp
  have m: "unat (n mod 16) = unat n mod 16"
    by (simp add: unat_mod)
  then have "n mod 16 \<le> n"
    by (simp add: word_le_nat_alt)
  then have "unat (n - n mod 16) = unat n - unat n mod 16"
    by (simp only: unat_sub m)
  then have "unat (n - n mod 16) = 16 * (unat n div 16)"
    by (simp only: minus_mod_eq_mult_div)
  then have "unat (16 + (n - n mod 16)) = 0"
    by (simp add: unat_word_ariths d)
  then show ?thesis
    by (simp add: alloc_size_def ALIGNMENT_def and_15 unat_eq_0 add_diff_eq)
qed

section \<open>Properties\<close>

text \<open>Appending to a string buffer whose sizes stay below the word size has a defined result: it appends all the
  bytes or, for want of memory, leaves the string as it was.\<close>

theorem stralloc_catb_correct:
  assumes "ga_inv sa" and "ga_room 1 30 (Suc (length (ga_list sa) + length s))"
  shows "\<exists>b sa'. stralloc_catb mok junk sa s = Some (b, sa') \<and> ga_inv sa' \<and> (b \<or> (\<exists>k. \<not> mok k)) \<and>
           ga_list sa' = (if b then ga_list sa @ s else ga_list sa)"
  by (rule stralloc_catb_ok [OF assms])

theorem stralloc_catb_correct_witness:
  "\<exists>b sa'. stralloc_catb (\<lambda>_. True) NUL \<lparr>field = Some ''abZ'', len = 2, a = 3\<rparr> ''cd'' = Some (b, sa') \<and> ga_inv sa' \<and>
     (b \<or> (\<exists>k :: 32 word. \<not> (\<lambda>_. True) k)) \<and>
     ga_list sa' = (if b then ga_list \<lparr>field = Some ''abZ'', len = 2, a = 3\<rparr> @ ''cd'' else ga_list \<lparr>field = Some ''abZ'', len = 2, a = 3\<rparr>)"
  by (rule stralloc_catb_correct) (simp_all add: ga_inv_def ga_list_def ga_room_def)

text \<open>\<open>alloc\<close> rounds a size of at least \<open>2 ^ 32 - 16\<close> down to 0, so it hands out an empty block of its static space
  for it.\<close>

theorem alloc_huge:
  assumes "2 ^ 32 - 16 \<le> unat n"
  shows "alloc mok avail n = (Some (Space avail), avail)"
  by (simp add: alloc_def alloc_size_wraps [OF assms])

theorem alloc_huge_witness: "alloc (\<lambda>_. False) 4096 (- 1) = (Some (Space 4096), 4096)"
  by (rule alloc_huge) (simp add: unsigned_minus_1_eq_mask mask_eq_exp_minus_1)

end
