(* ===== verification/Prioq.thy ===== *)
theory Prioq
  imports Stralloc "HOL-Library.Multiset"
begin

text \<open>
  The priority queues of qmail-send: \<open>prioq.c\<close>. A queue is a growable array (\<open>gen_allocdefs.h\<close> with base 100) of
  delivery times with message numbers, kept as a binary heap. The two loops are \<open>sift_up\<close> and \<open>sift_down\<close>, on the whole
  allocated block as in the source. The lemmas: both loops keep the multiset and restore the heap order, so insertion
  adds one element, \<open>prioq_min\<close> is a minimum and \<open>prioq_delmin\<close> removes it; the contract is the locale
  \<open>priority_queue\<close>, whose client lemma is that emptying a queue yields its elements in order.
\<close>

record prioq_elt =
  dt :: int
  id :: ulong

type_synonym prioq = "prioq_elt ga"

definition sizeof_prioq_elt :: "32 word" where "sizeof_prioq_elt = 8"

definition prioq_readyplus :: "(32 word \<Rightarrow> bool) \<Rightarrow> prioq_elt \<Rightarrow> prioq \<Rightarrow> 32 word \<Rightarrow> (bool \<times> prioq) option" where
  "prioq_readyplus mok junk pq n = ga_readyplus mok junk sizeof_prioq_elt 100 pq n"

text \<open>The loop of \<open>prioq_insert\<close> from \<open>j = pq->len++\<close> to \<open>pq->p[j] = *pe\<close>.\<close>

fun sift_up :: "prioq_elt list \<Rightarrow> nat \<Rightarrow> prioq_elt \<Rightarrow> prioq_elt list" where
  "sift_up p j pe =
     (if j \<noteq> 0 then
        let i = (j - 1) div 2
        in if dt (p ! i) \<le> dt pe then p[j := pe] else sift_up (p[j := p ! i]) i pe
      else p[j := pe])"

declare sift_up.simps [simp del]

definition prioq_insert :: "(32 word \<Rightarrow> bool) \<Rightarrow> prioq_elt \<Rightarrow> prioq \<Rightarrow> prioq_elt \<Rightarrow> (bool \<times> prioq) option" where
  "prioq_insert mok junk pq pe =
     (case prioq_readyplus mok junk pq 1 of
        None \<Rightarrow> None
      | Some (False, pq) \<Rightarrow> Some (False, pq)
      | Some (True, pq) \<Rightarrow>
          (case field pq of
             None \<Rightarrow> None
           | Some p \<Rightarrow>
               if unat (len pq) < length p
               then Some (True, pq\<lparr>field := Some (sift_up p (unat (len pq)) pe), len := len pq + 1\<rparr>)
               else None))"

definition prioq_min :: "prioq \<Rightarrow> prioq_elt option" where
  "prioq_min pq =
     (case field pq of
        None \<Rightarrow> None
      | Some p \<Rightarrow> if len pq = 0 then None else Some (p ! 0))"

text \<open>The loop of \<open>prioq_delmin\<close> and the assignment after it; \<open>n\<close> is the index of the last element.\<close>

function sift_down :: "prioq_elt list \<Rightarrow> nat \<Rightarrow> nat \<Rightarrow> prioq_elt list" where
  "sift_down p n i =
     (let j = i + i + 2
      in if j > n then p[i := p ! n]
         else let j = (if dt (p ! (j - 1)) \<le> dt (p ! j) then j - 1 else j)
              in if dt (p ! n) \<le> dt (p ! j) then p[i := p ! n] else sift_down (p[i := p ! j]) n j)"
  by pat_completeness auto
termination
  by (relation "measure (\<lambda>(p, n, i). n - i)") (auto simp: Let_def)

declare sift_down.simps [simp del]

definition prioq_delmin :: "prioq \<Rightarrow> prioq" where
  "prioq_delmin pq =
     (case field pq of
        None \<Rightarrow> pq
      | Some p \<Rightarrow>
          if len pq = 0 then pq
          else let n = unat (len pq) - 1
               in pq\<lparr>field := Some (sift_down p n 0), len := of_nat n\<rparr>)"

section \<open>Heap order\<close>

definition hparent :: "nat \<Rightarrow> nat" where
  "hparent k = (k - 1) div 2"

text \<open>The first \<open>n\<close> elements are in heap order.\<close>

definition heapn :: "prioq_elt list \<Rightarrow> nat \<Rightarrow> bool" where
  "heapn p n \<longleftrightarrow> (\<forall>k. 0 < k \<and> k < n \<longrightarrow> dt (p ! hparent k) \<le> dt (p ! k))"

text \<open>
  Heap order with a hole at \<open>j\<close>: every edge that does not touch \<open>j\<close> is in order, and so is every path over \<open>j\<close>.
\<close>

definition holen :: "prioq_elt list \<Rightarrow> nat \<Rightarrow> nat \<Rightarrow> bool" where
  "holen p n j \<longleftrightarrow>
     (\<forall>k. 0 < k \<and> k < n \<and> k \<noteq> j \<and> hparent k \<noteq> j \<longrightarrow> dt (p ! hparent k) \<le> dt (p ! k)) \<and>
     (\<forall>k. 0 < k \<and> k < n \<and> hparent k = j \<and> 0 < j \<longrightarrow> dt (p ! hparent j) \<le> dt (p ! k))"

text \<open>The value \<open>x\<close> may go into the hole: it is not below its parent, or not above its children.\<close>

definition above_children :: "prioq_elt list \<Rightarrow> nat \<Rightarrow> nat \<Rightarrow> prioq_elt \<Rightarrow> bool" where
  "above_children p n j x \<longleftrightarrow> (\<forall>k. 0 < k \<and> k < n \<and> hparent k = j \<longrightarrow> dt x \<le> dt (p ! k))"

definition below_parent :: "prioq_elt list \<Rightarrow> nat \<Rightarrow> prioq_elt \<Rightarrow> bool" where
  "below_parent p j x \<longleftrightarrow> (0 < j \<longrightarrow> dt (p ! hparent j) \<le> dt x)"

lemma hparent_less: "0 < k \<Longrightarrow> hparent k < k"
  unfolding hparent_def by arith

lemma sift_up_unfold:
  "sift_up p j pe =
     (if j \<noteq> 0 \<and> \<not> dt (p ! hparent j) \<le> dt pe then sift_up (p[j := p ! hparent j]) (hparent j) pe else p[j := pe])"
  by (simp add: sift_up.simps [of p j] hparent_def Let_def)

lemma fill_hole:
  assumes "holen p n j" "above_children p n j x" "below_parent p j x" "n \<le> length p" "j < n"
  shows "heapn (p[j := x]) n"
  unfolding heapn_def
proof (intro allI impI)
  fix k assume k: "0 < k \<and> k < n"
  then have "hparent k < k" by (simp add: hparent_less)
  consider "k = j" | "hparent k = j" | "k \<noteq> j" "hparent k \<noteq> j" by blast
  then show "dt (p[j := x] ! hparent k) \<le> dt (p[j := x] ! k)"
  proof cases
    case 1
    then have "hparent k \<noteq> j" using \<open>hparent k < k\<close> by simp
    with 1 assms k show ?thesis by (simp add: below_parent_def)
  next
    case 2
    then have "k \<noteq> j" using \<open>hparent k < k\<close> by simp
    with 2 assms k show ?thesis by (simp add: above_children_def)
  next
    case 3
    with assms(1) k show ?thesis by (simp add: holen_def)
  qed
qed

lemma hole_up:
  assumes "holen p n j" "above_children p n j x" "0 < j" "j < n" "n \<le> length p" "dt x < dt (p ! hparent j)"
  shows "holen (p[j := p ! hparent j]) n (hparent j) \<and> above_children (p[j := p ! hparent j]) n (hparent j) x"
proof -
  let ?i = "hparent j"
  let ?p = "p[j := p ! ?i]"
  have ij: "?i < j" using assms(3) by (rule hparent_less)
  have edge: "dt (p ! hparent k) \<le> dt (p ! k)" if "0 < k" "k < n" "k \<noteq> j" "hparent k \<noteq> j" for k
    using assms(1) that by (simp add: holen_def)
  have path: "dt (p ! ?i) \<le> dt (p ! k)" if "0 < k" "k < n" "hparent k = j" for k
    using assms(1,3) that by (simp add: holen_def)
  have at: "?p ! k = (if k = j then p ! ?i else p ! k)" if "k < n" for k
    using assms(4,5) that by (simp add: nth_list_update)
  have e2: "dt (?p ! hparent k) \<le> dt (?p ! k)" if k: "0 < k" "k < n" "k \<noteq> ?i" "hparent k \<noteq> ?i" for k
  proof -
    have "k \<noteq> j" using k(4) by auto
    have "hparent k < n" using k hparent_less less_trans by blast
    then show ?thesis
      using at k edge path \<open>k \<noteq> j\<close> by (cases "hparent k = j") auto
  qed
  have p2: "dt (?p ! hparent ?i) \<le> dt (?p ! k)" if k: "0 < k" "k < n" "hparent k = ?i" "0 < ?i" for k
  proof -
    have h: "hparent ?i < ?i" using k(4) by (rule hparent_less)
    then have "hparent ?i \<noteq> j" "hparent ?i < n" using ij assms(4) by linarith+
    moreover have "dt (p ! hparent ?i) \<le> dt (p ! ?i)"
      using edge [of ?i] k(4) ij assms(4) \<open>hparent ?i \<noteq> j\<close> by auto
    moreover have "k \<noteq> j \<Longrightarrow> dt (p ! ?i) \<le> dt (p ! k)"
      using edge [of k] k ij by auto
    ultimately show ?thesis using at k(2) by auto
  qed
  have "dt x \<le> dt (?p ! k)" if k: "0 < k" "k < n" "hparent k = ?i" for k
    using at [OF k(2)] edge [of k] k ij assms(6) by (cases "k = j") auto
  with e2 p2 show ?thesis
    by (simp add: holen_def above_children_def)
qed

lemma length_sift_up [simp]: "length (sift_up p j pe) = length p"
proof (induction j arbitrary: p rule: less_induct)
  case (less j)
  then show ?case by (simp add: sift_up_unfold [of p j] hparent_less)
qed

lemma sift_up_heap:
  assumes "holen p n j" "above_children p n j pe" "j < n" "n \<le> length p"
  shows "heapn (sift_up p j pe) n"
  using assms
proof (induction j arbitrary: p rule: less_induct)
  case (less j)
  show ?case
  proof (cases "j \<noteq> 0 \<and> \<not> dt (p ! hparent j) \<le> dt pe")
    case True
    then have "holen (p[j := p ! hparent j]) n (hparent j)" "above_children (p[j := p ! hparent j]) n (hparent j) pe"
      using hole_up [of p n j pe] less.prems by auto
    moreover have "hparent j < j" using True by (simp add: hparent_less)
    ultimately have "heapn (sift_up (p[j := p ! hparent j]) (hparent j) pe) n"
      using less.prems by (intro less.IH) auto
    then show ?thesis
      using True by (simp add: sift_up_unfold [of p j])
  next
    case False
    then have "below_parent p j pe" by (auto simp: below_parent_def)
    with less.prems have "heapn (p[j := pe]) n" by (intro fill_hole)
    then show ?thesis
      unfolding sift_up_unfold [of p j] using False by (simp only: if_False)
  qed
qed

lemma mset_take_move:
  assumes "i < n" "j < n" "n \<le> length p" "i \<noteq> j"
  shows "mset (take n (p[j := p ! i, i := x])) = mset (take n (p[j := x]))"
proof -
  let ?q = "take n (p[j := x])"
  have "?q ! i = p ! i" "?q ! j = x"
    using assms by simp_all
  then have "take n (p[j := p ! i, i := x]) = ?q[j := ?q ! i, i := ?q ! j]"
    by (simp add: take_update_swap)
  also have "mset \<dots> = mset ?q"
    using assms by (intro mset_swap) auto
  finally show ?thesis .
qed

lemma sift_up_mset:
  assumes "j < n" "n \<le> length p"
  shows "mset (take n (sift_up p j pe)) = mset (take n (p[j := pe]))"
  using assms
proof (induction j arbitrary: p rule: less_induct)
  case (less j)
  show ?case
  proof (cases "j \<noteq> 0 \<and> \<not> dt (p ! hparent j) \<le> dt pe")
    case True
    then have i: "hparent j < j" by (simp add: hparent_less)
    then have "mset (take n (sift_up (p[j := p ! hparent j]) (hparent j) pe)) =
        mset (take n (p[j := p ! hparent j, hparent j := pe]))"
      using less.prems by (intro less.IH) auto
    also have "\<dots> = mset (take n (p[j := pe]))"
      using i less.prems by (intro mset_take_move) auto
    finally show ?thesis
      unfolding sift_up_unfold [of p j] using True by simp
  next
    case False
    then show ?thesis
      unfolding sift_up_unfold [of p j] by (simp only: if_False)
  qed
qed

section \<open>Deleting the minimum\<close>

lemma children_iff: "0 < k \<and> hparent k = i \<longleftrightarrow> k = 2 * i + 1 \<or> k = 2 * i + 2"
  unfolding hparent_def by presburger

text \<open>The child that the loop looks at: no child of the hole is smaller.\<close>

definition small_child :: "prioq_elt list \<Rightarrow> nat \<Rightarrow> nat" where
  "small_child p i = (if dt (p ! (2 * i + 1)) \<le> dt (p ! (2 * i + 2)) then 2 * i + 1 else 2 * i + 2)"

lemma sift_down_unfold:
  "sift_down p n i =
     (if 2 * i + 2 > n \<or> dt (p ! n) \<le> dt (p ! small_child p i) then p[i := p ! n]
      else sift_down (p[i := p ! small_child p i]) n (small_child p i))"
proof -
  have "i + i + 2 - 1 = 2 * i + 1" "i + i + 2 = 2 * i + 2" by simp_all
  then show ?thesis
    unfolding sift_down.simps [of p n i] Let_def small_child_def by (simp only: if_split) auto
qed

lemma small_child_props:
  "hparent (small_child p i) = i" "i < small_child p i" "0 < small_child p i" "small_child p i \<le> 2 * i + 2"
  "0 < k \<Longrightarrow> hparent k = i \<Longrightarrow> dt (p ! small_child p i) \<le> dt (p ! k)"
  using children_iff [of "small_child p i" i] children_iff [of k i] by (auto simp: small_child_def)

lemma small_child_step:
  assumes "\<not> (2 * i + 2 > n \<or> dt (p ! n) \<le> dt (p ! small_child p i))"
  shows "small_child p i < n \<and> i < small_child p i \<and> dt (p ! small_child p i) < dt (p ! n)"
proof -
  have "small_child p i \<noteq> n" using assms by auto
  moreover have "small_child p i \<le> n" using assms by (auto simp: small_child_def)
  moreover have "i < small_child p i" by (simp add: small_child_def)
  ultimately show ?thesis using assms by auto
qed

lemma no_smaller_child:
  assumes "2 * i + 2 > n \<or> dt x \<le> dt (p ! small_child p i)"
  shows "above_children p n i x"
  unfolding above_children_def
proof (intro allI impI)
  fix k assume k: "0 < k \<and> k < n \<and> hparent k = i"
  then have "k = 2 * i + 1 \<or> k = 2 * i + 2" using children_iff by blast
  then show "dt x \<le> dt (p ! k)"
    using assms k by (auto simp: small_child_def split: if_splits)
qed

lemma hole_down:
  assumes "holen p n i" "below_parent p i (p ! n)" "i < n" "n < length p" "j = small_child p i" "j < n"
    and "dt (p ! j) < dt (p ! n)"
  shows "holen (p[i := p ! j]) n j \<and> below_parent (p[i := p ! j]) j (p ! n)"
proof -
  let ?p = "p[i := p ! j]"
  note sc = small_child_props [where p = p and i = i, folded assms(5)]
  have edge: "dt (p ! hparent k) \<le> dt (p ! k)" if "0 < k" "k < n" "k \<noteq> i" "hparent k \<noteq> i" for k
    using assms(1) that by (simp add: holen_def)
  have path: "dt (p ! hparent i) \<le> dt (p ! k)" if "0 < k" "k < n" "hparent k = i" "0 < i" for k
    using assms(1) that by (simp add: holen_def)
  have small: "dt (p ! j) \<le> dt (p ! k)" if "0 < k" "hparent k = i" for k
    using small_child_props(5) [OF that, where p = p] assms(5) by simp
  have at: "?p ! k = (if k = i then p ! j else p ! k)" if "k < n" for k
    using assms(3,4) that by (simp add: nth_list_update)
  have e2: "dt (?p ! hparent k) \<le> dt (?p ! k)" if k: "0 < k" "k < n" "k \<noteq> j" "hparent k \<noteq> j" for k
  proof -
    have h: "hparent k < k" using k(1) by (rule hparent_less)
    then have at2: "?p ! hparent k = (if hparent k = i then p ! j else p ! hparent k)"
      using at k(2) by simp
    consider "k = i" | "hparent k = i" "k \<noteq> i" | "k \<noteq> i" "hparent k \<noteq> i" by blast
    then show ?thesis
    proof cases
      case 1
      then show ?thesis using at2 h at [OF k(2)] path [OF sc(3) assms(6) sc(1)] k(1) by auto
    next
      case 2
      then show ?thesis using at2 at [OF k(2)] small [OF k(1)] by auto
    next
      case 3
      then show ?thesis using at2 at [OF k(2)] edge [OF k(1,2)] by auto
    qed
  qed
  have p2: "dt (?p ! hparent j) \<le> dt (?p ! k)" if k: "0 < k" "k < n" "hparent k = j" for k
  proof -
    have "k \<noteq> i" "hparent k \<noteq> i"
      using k(3) sc(2) hparent_less [OF k(1)] by auto
    then show ?thesis
      using edge [OF k(1,2)] at [OF k(2)] at [OF assms(3)] k(3) sc(1) by simp
  qed
  have "below_parent ?p j (p ! n)"
    using at [OF assms(3)] sc(1) assms(7) by (simp add: below_parent_def)
  with e2 p2 show ?thesis by (simp add: holen_def)
qed

lemma length_sift_down [simp]: "length (sift_down p n i) = length p"
proof (induction "n - i" arbitrary: p i rule: less_induct)
  case less
  show ?case
  proof (cases "2 * i + 2 > n \<or> dt (p ! n) \<le> dt (p ! small_child p i)")
    case True
    then show ?thesis by (simp add: sift_down_unfold [of p n i])
  next
    case False
    moreover have "n - small_child p i < n - i"
      using small_child_step [OF False] by (auto intro: diff_less_mono2)
    ultimately show ?thesis
      using less.hyps [of "small_child p i" "p[i := p ! small_child p i]"] by (simp add: sift_down_unfold [of p n i])
  qed
qed

lemma sift_down_heap:
  assumes "holen p n i" "below_parent p i (p ! n)" "i < n" "n < length p"
  shows "heapn (sift_down p n i) n"
  using assms
proof (induction "n - i" arbitrary: p i rule: less_induct)
  case less
  let ?j = "small_child p i"
  show ?case
  proof (cases "2 * i + 2 > n \<or> dt (p ! n) \<le> dt (p ! ?j)")
    case True
    have "above_children p n i (p ! n)"
      using True by (rule no_smaller_child)
    with less.prems have "heapn (p[i := p ! n]) n" by (intro fill_hole) auto
    then show ?thesis
      unfolding sift_down_unfold [of p n i] using True by (simp only: if_True)
  next
    case False
    then have lt: "?j < n" "i < ?j" "dt (p ! ?j) < dt (p ! n)"
      using small_child_step [of n i p] by auto
    note down = hole_down [OF less.prems refl lt(1,3)]
    have keep: "p[i := p ! ?j] ! n = p ! n" using less.prems(3) by simp
    have "heapn (sift_down (p[i := p ! ?j]) n ?j) n"
      using down lt less.prems(3,4) keep by (intro less.hyps) auto
    then show ?thesis
      unfolding sift_down_unfold [of p n i] using False by (simp only: if_False)
  qed
qed

lemma sift_down_mset:
  assumes "i < n" "n < length p"
  shows "mset (take n (sift_down p n i)) = mset (take n (p[i := p ! n]))"
  using assms
proof (induction "n - i" arbitrary: p i rule: less_induct)
  case less
  let ?j = "small_child p i"
  show ?case
  proof (cases "2 * i + 2 > n \<or> dt (p ! n) \<le> dt (p ! ?j)")
    case True
    then show ?thesis
      unfolding sift_down_unfold [of p n i] by (simp only: if_True)
  next
    case False
    then have lt: "?j < n" "i < ?j"
      using small_child_step [of n i p] by auto
    have keep: "p[i := p ! ?j] ! n = p ! n" using less.prems(1) by simp
    have "mset (take n (sift_down (p[i := p ! ?j]) n ?j)) = mset (take n (p[i := p ! ?j, ?j := p[i := p ! ?j] ! n]))"
      using lt less.prems by (intro less.hyps) auto
    also have "\<dots> = mset (take n (p[i := p ! n]))"
      unfolding keep using lt less.prems by (intro mset_take_move) auto
    finally show ?thesis
      unfolding sift_down_unfold [of p n i] using False by (simp only: if_False)
  qed
qed

section \<open>The queue\<close>

definition prioq_inv :: "prioq \<Rightarrow> bool" where
  "prioq_inv pq \<longleftrightarrow> ga_inv pq \<and> (case field pq of None \<Rightarrow> True | Some p \<Rightarrow> heapn p (unat (len pq)))"

definition prioq_bag :: "prioq \<Rightarrow> prioq_elt multiset" where
  "prioq_bag pq = mset (ga_list pq)"

definition prioq_fits :: "nat \<Rightarrow> bool" where
  "prioq_fits n \<longleftrightarrow> ga_room sizeof_prioq_elt 100 n"

lemma heapn_take: "heapn (take n p) k \<longleftrightarrow> heapn p k" if "k \<le> n"
proof -
  have "take n p ! hparent i = p ! hparent i \<and> take n p ! i = p ! i" if "0 < i" "i < k" for i
    using that \<open>k \<le> n\<close> hparent_less [of i] by simp
  then show ?thesis by (auto simp: heapn_def)
qed

lemma heapn_root_le: "heapn p n \<Longrightarrow> k < n \<Longrightarrow> dt (p ! 0) \<le> dt (p ! k)"
proof (induction k rule: less_induct)
  case (less k)
  show ?case
  proof (cases "k = 0")
    case False
    then have "hparent k < k" by (simp add: hparent_less)
    with less have "dt (p ! 0) \<le> dt (p ! hparent k)" by simp
    also have "\<dots> \<le> dt (p ! k)"
      using less.prems False by (simp add: heapn_def)
    finally show ?thesis .
  qed simp
qed

lemma heapn_imp_holen_last: "heapn p n \<Longrightarrow> holen p (Suc n) n \<and> above_children p (Suc n) n x"
proof -
  assume h: "heapn p n"
  have "hparent k \<noteq> n" if "0 < k" "k < Suc n" for k
    using hparent_less [OF that(1)] that(2) by simp
  then show ?thesis
    using h by (auto simp: heapn_def holen_def above_children_def less_Suc_eq)
qed

lemma heapn_imp_holen_root: "heapn p (Suc n) \<Longrightarrow> holen p n 0"
  by (auto simp: heapn_def holen_def)

lemma prioq_insert_ok:
  assumes inv: "prioq_inv pq" and room: "prioq_fits (Suc (size (prioq_bag pq)))"
  shows "\<exists>b pq'. prioq_insert mok junk pq pe = Some (b, pq') \<and> prioq_inv pq' \<and> (b \<or> (\<exists>k. \<not> mok k)) \<and>
           prioq_bag pq' = (if b then add_mset pe (prioq_bag pq) else prioq_bag pq)"
proof -
  have ga: "ga_inv pq" using inv by (simp add: prioq_inv_def)
  have "ga_grown mok pq (1 + length (ga_list pq)) (prioq_readyplus mok junk pq 1)"
    using ga_readyplus_ok [OF ga, of sizeof_prioq_elt 100 1 mok junk] room
    by (simp add: prioq_readyplus_def prioq_fits_def prioq_bag_def)
  then obtain b x where r: "prioq_readyplus mok junk pq 1 = Some (b, x)" and x: "ga_inv x"
    and same: "ga_list x = ga_list pq" and ok: "b \<or> (\<exists>k. \<not> mok k)"
    and fit: "b \<Longrightarrow> \<exists>m. field x = Some m \<and> Suc (length (ga_list pq)) \<le> length m"
    and fail: "\<not> b \<Longrightarrow> field x = field pq"
    unfolding ga_grown_def by auto
  have heap: "heapn (ga_list pq) (length (ga_list pq))"
  proof (cases "field pq")
    case None
    then show ?thesis by (simp add: ga_list_def heapn_def)
  next
    case (Some m)
    then have "length (ga_list pq) = unat (len pq)" using length_ga_list [OF ga] by simp
    with Some inv show ?thesis by (simp add: prioq_inv_def ga_list_def heapn_take)
  qed
  have heapx: "heapn m (unat (len x))" if "field x = Some m" for m
  proof -
    have "unat (len x) = length (ga_list pq)" using length_ga_list [OF x that] same by simp
    moreover have "take (unat (len x)) m = ga_list pq" using same that by (simp add: ga_list_def)
    ultimately show ?thesis using heap heapn_take [of "unat (len x)" "unat (len x)" m] by simp
  qed
  show ?thesis
  proof (cases b)
    case False
    with r x same ok fail heapx show ?thesis
      by (auto simp: prioq_insert_def prioq_inv_def prioq_bag_def split: option.split)
  next
    case True
    with fit obtain m where m: "field x = Some m" "Suc (length (ga_list pq)) \<le> length m" by auto
    have l: "unat (len x) = length (ga_list pq)" using length_ga_list [OF x m(1)] same by simp
    have lt: "unat (len x) < length m" using l m(2) by simp
    have am: "length m = unat (a x)" using x m(1) by (simp add: ga_inv_def)
    have "unat (a x) < 2 ^ 32" using unsigned_less [of "a x"] by simp
    then have u: "unat (len x + 1) = Suc (unat (len x))"
      using lt am by (simp add: unat_word_ariths)
    have le: "len x + 1 \<le> a x" using u lt am by (simp add: word_le_nat_alt)
    let ?m = "sift_up m (unat (len x)) pe"
    have h: "heapn ?m (Suc (unat (len x)))"
      using heapn_imp_holen_last [OF heapx [OF m(1)], of pe] lt by (intro sift_up_heap) auto
    have "mset (take (Suc (unat (len x))) ?m) = mset (take (Suc (unat (len x))) (m[unat (len x) := pe]))"
      using lt by (intro sift_up_mset) auto
    also have "\<dots> = add_mset pe (mset (take (unat (len x)) m))"
      using lt by (simp add: take_Suc_conv_app_nth)
    finally have bag: "mset (take (Suc (unat (len x))) ?m) = add_mset pe (prioq_bag pq)"
      using same m(1) by (simp add: prioq_bag_def ga_list_def)
    show ?thesis
      using r True m(1) lt h bag u le am
      by (auto simp: prioq_insert_def prioq_inv_def ga_inv_def prioq_bag_def ga_list_def)
  qed
qed

lemma prioq_min_ok:
  assumes inv: "prioq_inv pq"
  shows "(prioq_min pq = None \<longleftrightarrow> prioq_bag pq = {#}) \<and>
    (\<forall>pe. prioq_min pq = Some pe \<longrightarrow> pe \<in># prioq_bag pq \<and> (\<forall>x \<in># prioq_bag pq. dt pe \<le> dt x))"
proof (cases "field pq")
  case None
  then show ?thesis by (simp add: prioq_min_def prioq_bag_def ga_list_def)
next
  case (Some p)
  have l: "length (ga_list pq) = unat (len pq)"
    using inv Some by (simp add: prioq_inv_def length_ga_list)
  have g: "ga_list pq ! k = p ! k" if "k < unat (len pq)" for k
    using Some that by (simp add: ga_list_def)
  have le: "dt (p ! 0) \<le> dt x" if "x \<in> set (ga_list pq)" for x
  proof -
    from that obtain k where "k < unat (len pq)" "x = p ! k" using l g by (auto simp: in_set_conv_nth)
    then show ?thesis using inv Some by (auto simp: prioq_inv_def intro: heapn_root_le)
  qed
  show ?thesis
  proof (cases "len pq = 0")
    case True
    with l Some show ?thesis by (simp add: prioq_min_def prioq_bag_def)
  next
    case False
    then have "0 < unat (len pq)" by (simp add: unat_gt_0)
    then have "p ! 0 \<in> set (ga_list pq)" using l g nth_mem by metis
    with False Some le show ?thesis by (auto simp: prioq_min_def prioq_bag_def)
  qed
qed

lemma prioq_delmin_ok:
  assumes inv: "prioq_inv pq"
  shows "prioq_inv (prioq_delmin pq) \<and>
    prioq_bag (prioq_delmin pq) = (case prioq_min pq of None \<Rightarrow> prioq_bag pq | Some pe \<Rightarrow> prioq_bag pq - {#pe#})"
proof (cases "field pq")
  case None
  with inv show ?thesis by (simp add: prioq_delmin_def prioq_min_def)
next
  case (Some p)
  show ?thesis
  proof (cases "len pq = 0")
    case True
    with inv Some show ?thesis by (simp add: prioq_delmin_def prioq_min_def)
  next
    case False
    define n where "n = unat (len pq) - 1"
    have u: "unat (len pq) = Suc n" using False by (simp add: n_def unat_gt_0)
    have len: "length p = unat (a pq)" "len pq \<le> a pq" "heapn p (Suc n)"
      using inv Some u by (simp_all add: prioq_inv_def ga_inv_def)
    then have n: "n < length p" using u by (simp add: word_le_nat_alt)
    have "unat (len pq) < 2 ^ 32" using unsigned_less [of "len pq"] by simp
    then have on: "unat (of_nat n :: 32 word) = n"
      using u by (simp add: unat_of_nat)
    have "of_nat n \<le> a pq" using on n len(1) by (simp add: word_le_nat_alt)
    have res: "prioq_delmin pq = pq\<lparr>field := Some (sift_down p n 0), len := of_nat n\<rparr>" "prioq_min pq = Some (p ! 0)"
      using Some False by (simp_all add: prioq_delmin_def prioq_min_def n_def Let_def)
    have tk: "take (Suc n) p = take n p @ [p ! n]" using n by (simp add: take_Suc_conv_app_nth)
    have "heapn (sift_down p n 0) n \<and> mset (take n (sift_down p n 0)) = mset (take (Suc n) p) - {#p ! 0#}"
    proof (cases "n = 0")
      case True
      then show ?thesis using n by (cases p) (simp_all add: heapn_def)
    next
      case False
      then have pos: "0 < n" by simp
      have "holen p n 0" using len(3) by (rule heapn_imp_holen_root)
      then have "heapn (sift_down p n 0) n"
        using pos n by (intro sift_down_heap) (auto simp: below_parent_def)
      moreover have "mset (take n (sift_down p n 0)) = mset (take n (p[0 := p ! n]))"
        using pos n by (rule sift_down_mset)
      moreover have "mset (take n (p[0 := p ! n])) = mset (take n p) - {#p ! 0#} + {#p ! n#}"
        using pos n by (simp add: take_update_swap mset_update)
      moreover have "p ! 0 \<in># mset (take n p)"
        using pos n by (metis in_multiset_in_set length_take min.absorb4 nth_mem nth_take)
      ultimately show ?thesis unfolding tk by simp
    qed
    then show ?thesis
      using Some u on n len(1) \<open>of_nat n \<le> a pq\<close> unfolding res
      by (simp add: prioq_inv_def ga_inv_def prioq_bag_def ga_list_def)
  qed
qed

section \<open>The contract of a priority queue\<close>

text \<open>\<open>while (prioq_min(&pq,&pe)) { prioq_delmin(&pq); ... }\<close>, at most \<open>n\<close> rounds.\<close>

fun drain :: "('q \<Rightarrow> 'e option) \<Rightarrow> ('q \<Rightarrow> 'q) \<Rightarrow> nat \<Rightarrow> 'q \<Rightarrow> 'e list \<times> 'q" where
  "drain qmin qdel 0 q = ([], q)"
| "drain qmin qdel (Suc n) q =
     (case qmin q of
        None \<Rightarrow> ([], q)
      | Some e \<Rightarrow> (case drain qmin qdel n (qdel q) of (es, q') \<Rightarrow> (e # es, q')))"

locale priority_queue =
  fixes ins :: "'q \<Rightarrow> 'e \<Rightarrow> (bool \<times> 'q) option"
    and qmin :: "'q \<Rightarrow> 'e option"
    and qdel :: "'q \<Rightarrow> 'q"
    and key :: "'e \<Rightarrow> int"
    and bag :: "'q \<Rightarrow> 'e multiset"
    and inv :: "'q \<Rightarrow> bool"
    and fits :: "nat \<Rightarrow> bool"
  assumes ins_law: "inv q \<Longrightarrow> fits (Suc (size (bag q))) \<Longrightarrow>
        \<exists>b q'. ins q e = Some (b, q') \<and> inv q' \<and> bag q' = (if b then add_mset e (bag q) else bag q)"
    and qmin_None: "inv q \<Longrightarrow> qmin q = None \<longleftrightarrow> bag q = {#}"
    and qmin_mem: "inv q \<Longrightarrow> qmin q = Some e \<Longrightarrow> e \<in># bag q"
    and qmin_le: "inv q \<Longrightarrow> qmin q = Some e \<Longrightarrow> x \<in># bag q \<Longrightarrow> key e \<le> key x"
    and qdel_inv: "inv q \<Longrightarrow> inv (qdel q)"
    and qdel_bag: "inv q \<Longrightarrow> qmin q = Some e \<Longrightarrow> bag (qdel q) = bag q - {#e#}"
begin

lemma drain_law:
  "inv q \<Longrightarrow> size (bag q) \<le> n \<Longrightarrow>
     mset (fst (drain qmin qdel n q)) = bag q \<and> sorted (map key (fst (drain qmin qdel n q))) \<and>
     inv (snd (drain qmin qdel n q)) \<and> bag (snd (drain qmin qdel n q)) = {#}"
proof (induction n arbitrary: q)
  case 0
  then show ?case by simp
next
  case (Suc n)
  show ?case
  proof (cases "qmin q")
    case None
    then show ?thesis using Suc.prems(1) qmin_None [OF Suc.prems(1)] by simp
  next
    case (Some e)
    have e: "e \<in># bag q" "bag (qdel q) = bag q - {#e#}" "inv (qdel q)"
      using Suc.prems(1) Some by (simp_all add: qmin_mem qdel_bag qdel_inv)
    then have "size (bag (qdel q)) \<le> n"
      using Suc.prems(2) by (simp add: size_Diff_singleton)
    note IH = Suc.IH [OF e(3) this]
    let ?r = "drain qmin qdel n (qdel q)"
    have "\<forall>x \<in> set (fst ?r). key e \<le> key x"
    proof
      fix x assume "x \<in> set (fst ?r)"
      then have "x \<in># bag (qdel q)" using IH by (metis in_multiset_in_set)
      then have "x \<in># bag q" using e(2) by (metis in_diffD)
      then show "key e \<le> key x" using Suc.prems(1) Some by (rule qmin_le [rotated 2])
    qed
    then show ?thesis
      using IH Some e(1,2) by (auto simp: case_prod_beta)
  qed
qed

text \<open>The first element drained is no later than any element inserted before.\<close>

lemma ins_min_law:
  assumes "inv q" "fits (Suc (size (bag q)))" "ins q e = Some (True, q')" "qmin q' = Some m"
  shows "key m \<le> key e \<and> (\<forall>x \<in># bag q. key m \<le> key x)"
proof -
  have "inv q'" "bag q' = add_mset e (bag q)"
    using ins_law [OF assms(1,2), of e] assms(3) by auto
  then show ?thesis using qmin_le [of q' m] assms(4) by simp
qed

end

interpretation pq: priority_queue "prioq_insert mok junk" prioq_min prioq_delmin dt prioq_bag prioq_inv prioq_fits
  for mok junk
proof unfold_locales
  fix q :: prioq and e x :: prioq_elt
  assume inv: "prioq_inv q"
  show "prioq_fits (Suc (size (prioq_bag q))) \<Longrightarrow>
      \<exists>b q'. prioq_insert mok junk q e = Some (b, q') \<and> prioq_inv q' \<and>
        prioq_bag q' = (if b then add_mset e (prioq_bag q) else prioq_bag q)"
    using prioq_insert_ok [OF inv] by metis
  show "prioq_min q = None \<longleftrightarrow> prioq_bag q = {#}"
    using prioq_min_ok [OF inv] by blast
  show "prioq_min q = Some e \<Longrightarrow> e \<in># prioq_bag q"
    using prioq_min_ok [OF inv] by blast
  show "prioq_min q = Some e \<Longrightarrow> x \<in># prioq_bag q \<Longrightarrow> dt e \<le> dt x"
    using prioq_min_ok [OF inv] by blast
  show "prioq_inv (prioq_delmin q)"
    using prioq_delmin_ok [OF inv] by blast
  show "prioq_min q = Some e \<Longrightarrow> prioq_bag (prioq_delmin q) = prioq_bag q - {#e#}"
    using prioq_delmin_ok [OF inv] by simp
qed

section \<open>Properties\<close>

text \<open>Taking the minimum and deleting it until the queue is empty yields all its elements, by delivery time.\<close>

theorem prioq_sorts:
  assumes "prioq_inv pq" and "size (prioq_bag pq) \<le> n"
  shows "mset (fst (drain prioq_min prioq_delmin n pq)) = prioq_bag pq \<and>
         sorted (map dt (fst (drain prioq_min prioq_delmin n pq))) \<and>
         prioq_bag (snd (drain prioq_min prioq_delmin n pq)) = {#}"
  using pq.drain_law [OF assms] by blast

theorem prioq_sorts_witness:
  "let pq = \<lparr>field = Some [\<lparr>dt = 5, id = 1\<rparr>, \<lparr>dt = 7, id = 2\<rparr>], len = 2, a = 2\<rparr> :: prioq
   in mset (fst (drain prioq_min prioq_delmin 2 pq)) = prioq_bag pq \<and>
      sorted (map dt (fst (drain prioq_min prioq_delmin 2 pq))) \<and>
      prioq_bag (snd (drain prioq_min prioq_delmin 2 pq)) = {#}"
  unfolding Let_def
proof (rule prioq_sorts)
  show "prioq_inv \<lparr>field = Some [\<lparr>dt = 5, id = 1\<rparr>, \<lparr>dt = 7, id = 2\<rparr>], len = 2, a = 2\<rparr>"
    by (auto simp: prioq_inv_def ga_inv_def heapn_def hparent_def less_2_cases_iff)
qed (simp add: prioq_bag_def ga_list_def)

text \<open>Inserting into a queue that has room for the sizes either fails, for want of memory, and changes no element,
  or adds the one element; it never writes outside the block.\<close>

theorem prioq_insert_correct:
  assumes "prioq_inv pq" and "prioq_fits (Suc (size (prioq_bag pq)))"
  shows "\<exists>b pq'. prioq_insert mok junk pq pe = Some (b, pq') \<and> prioq_inv pq' \<and> (b \<or> (\<exists>k. \<not> mok k)) \<and>
           prioq_bag pq' = (if b then add_mset pe (prioq_bag pq) else prioq_bag pq)"
  by (rule prioq_insert_ok [OF assms])

theorem prioq_insert_correct_witness:
  "\<exists>b pq'. prioq_insert (\<lambda>_. True) \<lparr>dt = 0, id = 0\<rparr> \<lparr>field = Some [\<lparr>dt = 5, id = 1\<rparr>], len = 1, a = 1\<rparr> \<lparr>dt = 4, id = 9\<rparr> =
       Some (b, pq') \<and> prioq_inv pq' \<and> (b \<or> (\<exists>k :: 32 word. \<not> (\<lambda>_. True) k)) \<and>
     prioq_bag pq' = (if b then add_mset \<lparr>dt = 4, id = 9\<rparr> (prioq_bag \<lparr>field = Some [\<lparr>dt = 5, id = 1\<rparr>], len = 1, a = 1\<rparr>)
                      else prioq_bag \<lparr>field = Some [\<lparr>dt = 5, id = 1\<rparr>], len = 1, a = 1\<rparr>)"
  by (rule prioq_insert_correct)
    (simp_all add: prioq_inv_def ga_inv_def heapn_def prioq_fits_def ga_room_def sizeof_prioq_elt_def prioq_bag_def ga_list_def)

end
