(* ===== verification/Constmap.thy ===== *)
theory Constmap
  imports Stralloc
begin

text \<open>
  The constant hash tables of \<open>constmap.c\<close>, which hold \<open>control/locals\<close>, \<open>control/virtualdomains\<close>,
  \<open>control/rcpthosts\<close> and their kin. The table points into the buffer \<open>s\<close> of NUL-terminated lines: a pointer is an
  offset into it. \<open>hash\<close>, \<open>next\<close>, \<open>input\<close> and \<open>inputlen\<close> are filled from the front, entry after entry, so each is
  the list of its entries; \<open>first\<close> has \<open>mask + 1\<close> elements, and \<open>-1\<close> ends a chain.
  The lemmas: building keeps the invariant \<open>cm_inv\<close> (every chain lists the positions of its bucket, latest first), so
  the search stops, and a lookup finds the last line whose key equals the argument up to case.
\<close>

record constmap =
  num :: nat
  mask :: ulong
  hashes :: "ulong list"
  first :: "int list"
  nxt :: "int list"
  input :: "nat list"
  inputlen :: "nat list"

text \<open>\<open>ch = *s++ - 'A'; if (ch <= 'Z' - 'A') ch += 'a' - 'A';\<close>\<close>

definition hash_char :: "char \<Rightarrow> 8 word" where
  "hash_char c = (let ch = of_char c - 0x41 in if ch \<le> 0x5A - 0x41 then ch + 0x20 else ch)"

fun hash_loop :: "char list \<Rightarrow> ulong \<Rightarrow> ulong" where
  "hash_loop [] h = h"
| "hash_loop (c # s) h = hash_loop s ((push_bit 5 h + h) XOR ucast (hash_char c))"

definition cm_hash :: "char list \<Rightarrow> ulong" where
  "cm_hash s = hash_loop s 5381"

text \<open>
  The search loop of \<open>constmap\<close>. Its result is \<^term>\<open>None\<close> if the loop does not stop; otherwise it is the C result,
  with \<^term>\<open>None\<close> for the null pointer.
\<close>

partial_function (option) cm_search :: "char list \<Rightarrow> constmap \<Rightarrow> ulong \<Rightarrow> char list \<Rightarrow> int \<Rightarrow> nat option option" where
  "cm_search buf cm h s pos =
     (if pos = - 1 then Some None
      else let p = nat pos
           in if h = hashes cm ! p \<and> length s = inputlen cm ! p \<and>
                 case_diffb (drop (input cm ! p) buf) (length s) s = 0
              then Some (Some (input cm ! p + inputlen cm ! p + 1))
              else cm_search buf cm h s (nxt cm ! p))"

definition constmap :: "char list \<Rightarrow> constmap \<Rightarrow> char list \<Rightarrow> nat option option" where
  "constmap buf cm s =
     (let h = cm_hash s in cm_search buf cm h s (first cm ! unat (h AND mask cm)))"

text \<open>\<open>while (h && (h < cm->num)) h += h;\<close>: 32 rounds shift every word to 0.\<close>

fun cm_size :: "nat \<Rightarrow> ulong \<Rightarrow> ulong \<Rightarrow> ulong" where
  "cm_size 0 h n = h"
| "cm_size (Suc fuel) h n = (if h \<noteq> 0 \<and> h < n then cm_size fuel (h + h) n else h)"

definition cm_add :: "char list \<Rightarrow> nat \<Rightarrow> nat \<Rightarrow> constmap \<Rightarrow> constmap" where
  "cm_add s i k cm =
     (let pos = length (input cm);
          h = cm_hash (take k (drop i s));
          b = unat (h AND mask cm)
      in cm\<lparr>input := input cm @ [i], inputlen := inputlen cm @ [k], hashes := hashes cm @ [h],
            nxt := nxt cm @ [first cm ! b], first := (first cm)[b := int pos]\<rparr>)"

text \<open>The loop over \<open>j\<close> that fills the table; the third argument is the rest of the buffer from \<open>j\<close> on.\<close>

fun cm_fill :: "char list \<Rightarrow> bool \<Rightarrow> char list \<Rightarrow> nat \<Rightarrow> nat \<Rightarrow> constmap \<Rightarrow> constmap" where
  "cm_fill s flagcolon [] i j cm = cm"
| "cm_fill s flagcolon (c # r) i j cm =
     (if c \<noteq> NUL then cm_fill s flagcolon r i (Suc j) cm
      else if flagcolon then
        let k = i + byte_chr (take (j - i) (drop i s)) (CHR '':'')
        in if k \<ge> j then cm_fill s flagcolon r (Suc j) (Suc j) cm
           else cm_fill s flagcolon r (Suc j) (Suc j) (cm_add s i (k - i) cm)
      else cm_fill s flagcolon r (Suc j) (Suc j) (cm_add s i (j - i) cm))"

definition constmap_init :: "(nat \<Rightarrow> bool) \<Rightarrow> char list \<Rightarrow> bool \<Rightarrow> constmap option" where
  "constmap_init mok s flagcolon =
     (let n = length (filter (\<lambda>c. c = NUL) s);
          h = cm_size 32 64 (of_nat n)
      in if mok (4 * unat h) then
           if mok (4 * n) then
             if mok (4 * n) then
               if mok (4 * n) then
                 if mok (4 * n) then
                   Some (cm_fill s flagcolon s 0 0
                     \<lparr>num = n, mask = h - 1, hashes = [], first = replicate (Suc (unat (h - 1))) (- 1),
                      nxt = [], input = [], inputlen = []\<rparr>)
                 else None
               else None
             else None
           else None
         else None)"

section \<open>Hashing\<close>

lemma hash_char_lower: "hash_char (lower c) = hash_char c"
proof -
  have "hash_char c = of_char (lower c) - 0x41" for c
  proof (cases "65 \<le> uch c \<and> uch c \<le> 90")
    case True
    then have "unat (of_char (lower c) :: 8 word) = uch c + 32"
      by (simp add: lower_def)
    then have "(of_char (lower c) :: 8 word) = of_char c + 0x20"
      using True by (simp add: word_unat_eq_iff unat_word_ariths)
    with True show ?thesis by (simp add: hash_char_def Let_def upper_test)
  next
    case False
    then show ?thesis
      by (auto simp: hash_char_def Let_def upper_test lower_def)
  qed
  then show ?thesis by simp
qed

lemma hash_loop_lower: "hash_loop (map lower s) h = hash_loop s h"
  by (induction s arbitrary: h) (auto simp: hash_char_lower)

lemma cm_hash_cong: "map lower s = map lower t \<Longrightarrow> cm_hash s = cm_hash t"
  by (metis cm_hash_def hash_loop_lower)

section \<open>Chains\<close>

text \<open>\<open>linked nxt pos ps\<close>: following \<open>next\<close> from \<open>pos\<close> visits the positions \<open>ps\<close> and then ends.\<close>

fun linked :: "int list \<Rightarrow> int \<Rightarrow> nat list \<Rightarrow> bool" where
  "linked nx pos [] = (pos = - 1)"
| "linked nx pos (p # ps) = (pos = int p \<and> p < length nx \<and> linked nx (nx ! p) ps)"

lemma linked_append: "linked nx pos ps \<Longrightarrow> linked (nx @ [x]) pos ps"
  by (induction nx pos ps rule: linked.induct) (auto simp: nth_append)

definition cm_hit :: "char list \<Rightarrow> constmap \<Rightarrow> ulong \<Rightarrow> char list \<Rightarrow> nat \<Rightarrow> bool" where
  "cm_hit buf cm h s p \<longleftrightarrow>
     h = hashes cm ! p \<and> length s = inputlen cm ! p \<and> case_diffb (drop (input cm ! p) buf) (length s) s = 0"

lemma cm_search_linked:
  "linked (nxt cm) pos ps \<Longrightarrow>
   cm_search buf cm h s pos =
     Some (map_option (\<lambda>p. input cm ! p + inputlen cm ! p + 1) (find (cm_hit buf cm h s) ps))"
proof (induction ps arbitrary: pos)
  case Nil
  then show ?case by (simp add: cm_search.simps [of buf cm h s])
next
  case (Cons p ps)
  then have "pos = int p" and IH: "cm_search buf cm h s (nxt cm ! p) =
      Some (map_option (\<lambda>p. input cm ! p + inputlen cm ! p + 1) (find (cm_hit buf cm h s) ps))"
    by auto
  show ?case
  proof (cases "cm_hit buf cm h s p")
    case True
    then show ?thesis
      unfolding \<open>pos = int p\<close> cm_search.simps [of buf cm h s "int p"] find.simps if_P [OF True] Let_def
      using True by (subst if_P) (simp_all add: cm_hit_def)
  next
    case False
    then have "cm_search buf cm h s pos = cm_search buf cm h s (nxt cm ! p)"
      unfolding \<open>pos = int p\<close> cm_search.simps [of buf cm h s "int p"]
      by (auto simp: cm_hit_def Let_def)
    with False IH show ?thesis by simp
  qed
qed

section \<open>The invariant of the table\<close>

definition cm_key :: "char list \<Rightarrow> constmap \<Rightarrow> nat \<Rightarrow> char list" where
  "cm_key buf cm p = take (inputlen cm ! p) (drop (input cm ! p) buf)"

definition bucket :: "constmap \<Rightarrow> nat \<Rightarrow> nat list" where
  "bucket cm b = filter (\<lambda>p. unat (hashes cm ! p AND mask cm) = b) (rev [0..<length (input cm)])"

definition cm_inv :: "char list \<Rightarrow> constmap \<Rightarrow> bool" where
  "cm_inv buf cm \<longleftrightarrow>
     length (first cm) = Suc (unat (mask cm)) \<and>
     length (inputlen cm) = length (input cm) \<and> length (hashes cm) = length (input cm) \<and>
     length (nxt cm) = length (input cm) \<and>
     (\<forall>p < length (input cm). hashes cm ! p = cm_hash (cm_key buf cm p) \<and> input cm ! p + inputlen cm ! p \<le> length buf) \<and>
     (\<forall>b \<le> unat (mask cm). linked (nxt cm) (first cm ! b) (bucket cm b))"

lemma and_mask_le: "unat ((h :: ulong) AND m) \<le> unat m"
  by (metis word_and_le1 word_le_nat_alt)

lemma cm_add_inv:
  assumes inv: "cm_inv s cm" and fit: "i + k \<le> length s"
  shows "cm_inv s (cm_add s i k cm)"
proof -
  let ?n = "length (input cm)"
  let ?h = "cm_hash (take k (drop i s))"
  let ?b = "unat (?h AND mask cm)"
  let ?cm = "cm_add s i k cm"
  have b: "?b \<le> unat (mask cm)" by (rule and_mask_le)
  have len: "length (first cm) = Suc (unat (mask cm))" "length (inputlen cm) = ?n" "length (hashes cm) = ?n"
    "length (nxt cm) = ?n"
    using inv by (simp_all add: cm_inv_def)
  have flds: "input ?cm = input cm @ [i]" "inputlen ?cm = inputlen cm @ [k]" "hashes ?cm = hashes cm @ [?h]"
    "nxt ?cm = nxt cm @ [first cm ! ?b]" "first ?cm = (first cm)[?b := int ?n]" "mask ?cm = mask cm"
    by (simp_all add: cm_add_def Let_def)
  have entries: "hashes ?cm ! p = cm_hash (cm_key s ?cm p) \<and> input ?cm ! p + inputlen ?cm ! p \<le> length s" if "p < Suc ?n" for p
  proof (cases "p < ?n")
    case True
    then show ?thesis using inv len flds by (simp add: cm_inv_def cm_key_def nth_append)
  next
    case False
    then have "p = ?n" using that by simp
    then show ?thesis using fit len flds by (simp add: cm_key_def nth_append)
  qed
  have old: "filter (\<lambda>p. unat ((hashes cm @ [?h]) ! p AND mask cm) = c) (rev [0..<?n]) = bucket cm c" for c
    unfolding bucket_def using len(3) by (intro filter_cong) (auto simp: nth_append)
  have bucket: "bucket ?cm c = (if c = ?b then ?n # bucket cm c else bucket cm c)" for c
    unfolding bucket_def [of ?cm] flds using old len(3) by (auto simp: nth_append)
  have "linked (nxt ?cm) (first ?cm ! c) (bucket ?cm c)" if c: "c \<le> unat (mask cm)" for c
  proof -
    have "linked (nxt ?cm) (first cm ! c) (bucket cm c)"
      unfolding flds using inv c by (intro linked_append) (simp add: cm_inv_def)
    then show ?thesis
      unfolding bucket using len c b flds(4,5) by (cases "c = ?b") (auto simp: nth_append)
  qed
  with entries show ?thesis
    using len by (simp add: cm_inv_def flds)
qed

section \<open>What a lookup finds\<close>

text \<open>The complete lines of the buffer, and the key of a line (\<open>flagcolon\<close>: what stands before the first colon).\<close>

fun cm_lines :: "char list \<Rightarrow> char list \<Rightarrow> char list list" where
  "cm_lines cur [] = []"
| "cm_lines cur (c # r) = (if c = NUL then cur # cm_lines [] r else cm_lines (cur @ [c]) r)"

definition key_of :: "bool \<Rightarrow> char list \<Rightarrow> char list option" where
  "key_of flagcolon l =
     (if flagcolon then (if CHR '':'' \<in> set l then Some (take (byte_chr l (CHR '':'')) l) else None) else Some l)"

definition value_of :: "char list \<Rightarrow> char list" where
  "value_of l = drop (Suc (byte_chr l (CHR '':''))) l"

definition key_matches :: "bool \<Rightarrow> char list \<Rightarrow> char list \<Rightarrow> bool" where
  "key_matches flagcolon k l = (case key_of flagcolon l of None \<Rightarrow> False | Some k' \<Rightarrow> map lower k' = map lower k)"

text \<open>Entry \<open>p\<close> of the table stands for a line.\<close>

definition entry_for :: "char list \<Rightarrow> bool \<Rightarrow> constmap \<Rightarrow> nat \<Rightarrow> char list \<Rightarrow> bool" where
  "entry_for s fc cm p l \<longleftrightarrow>
     key_of fc l = Some (cm_key s cm p) \<and>
     (fc \<longrightarrow> cstr (drop (input cm ! p + inputlen cm ! p + 1) s) = value_of l)"

definition cm_for :: "char list \<Rightarrow> bool \<Rightarrow> constmap \<Rightarrow> char list list \<Rightarrow> bool" where
  "cm_for s fc cm ls \<longleftrightarrow>
     cm_inv s cm \<and> (let ks = filter (\<lambda>l. key_of fc l \<noteq> None) ls
                     in length ks = length (input cm) \<and> (\<forall>p < length (input cm). entry_for s fc cm p (ks ! p)))"

lemma cm_add_for:
  assumes "cm_for s fc cm ls" and fit: "i + k \<le> length s" and key: "key_of fc l = Some (take k (drop i s))"
    and val: "fc \<Longrightarrow> cstr (drop (i + k + 1) s) = value_of l"
  shows "cm_for s fc (cm_add s i k cm) (ls @ [l])"
proof -
  let ?ks = "filter (\<lambda>l. key_of fc l \<noteq> None) ls"
  have inv: "cm_inv s cm" and n: "length ?ks = length (input cm)"
    and ent: "\<And>p. p < length (input cm) \<Longrightarrow> entry_for s fc cm p (?ks ! p)"
    using assms(1) by (auto simp: cm_for_def Let_def)
  have len: "length (inputlen cm) = length (input cm)"
    using inv by (simp add: cm_inv_def)
  have flds: "input (cm_add s i k cm) = input cm @ [i]" "inputlen (cm_add s i k cm) = inputlen cm @ [k]"
    by (simp_all add: cm_add_def Let_def)
  have "entry_for s fc (cm_add s i k cm) p ((?ks @ [l]) ! p)" if "p < Suc (length (input cm))" for p
  proof (cases "p < length (input cm)")
    case True
    with ent [of p] len n show ?thesis
      by (simp add: entry_for_def cm_key_def flds nth_append)
  next
    case False
    with that have "p = length (input cm)" by simp
    with key val len n show ?thesis
      by (simp add: entry_for_def cm_key_def flds nth_append)
  qed
  then show ?thesis
    using cm_add_inv [OF inv fit] n key by (simp add: cm_for_def flds)
qed

lemma cm_for_skip: "cm_for s fc cm ls \<Longrightarrow> key_of fc l = None \<Longrightarrow> cm_for s fc cm (ls @ [l])"
  by (simp add: cm_for_def)

lemma cm_fill_for:
  assumes "s = pre @ cur @ r" and "NUL \<notin> set cur" and "i = length pre" and "j = length pre + length cur"
    and "cm_for s fc cm ls"
  shows "cm_for s fc (cm_fill s fc r i j cm) (ls @ cm_lines cur r)"
  using assms
proof (induction r arbitrary: pre cur i j cm ls)
  case Nil
  then show ?case by simp
next
  case (Cons c r)
  show ?case
  proof (cases "c = NUL")
    case False
    have "cm_for s fc (cm_fill s fc r i (Suc j) cm) (ls @ cm_lines (cur @ [c]) r)"
      by (rule Cons.IH [of pre]) (use Cons.prems False in auto)
    with False show ?thesis by simp
  next
    case True
    have s: "s = (pre @ cur @ [NUL]) @ [] @ r" and line: "take (j - i) (drop i s) = cur"
      using Cons.prems True by auto
    have go: "cm_for s fc (cm_fill s fc r (Suc j) (Suc j) cm') ((ls @ [cur]) @ cm_lines [] r)"
      if "cm_for s fc cm' (ls @ [cur])" for cm'
      by (rule Cons.IH [OF s]) (use that Cons.prems in auto)
    let ?k = "byte_chr cur (CHR '':'')"
    have k: "?k \<le> length cur" by (rule byte_chr_le)
    consider (none) "fc" "CHR '':'' \<notin> set cur" | (key) "fc" "CHR '':'' \<in> set cur" | (plain) "\<not> fc" by blast
    then show ?thesis
    proof cases
      case none
      then have "?k = length cur" by (simp add: byte_chr_miss)
      then show ?thesis
        using True none go [of cm] Cons.prems line by (simp add: cm_for_skip key_of_def Let_def)
    next
      case key
      then have lt: "?k < length cur" by (simp add: byte_chr_less_iff)
      have "cm_for s fc (cm_add s i ?k cm) (ls @ [cur])"
      proof (rule cm_add_for [OF Cons.prems(5)])
        show "key_of fc cur = Some (take ?k (drop i s))"
          using key lt Cons.prems by (simp add: key_of_def)
        have "drop (i + ?k + 1) s = drop (Suc ?k) cur @ NUL # r"
          using lt Cons.prems True by simp
        moreover have "NUL \<notin> set (drop (Suc ?k) cur)"
          using Cons.prems(2) by (auto dest: in_set_dropD)
        ultimately show "cstr (drop (i + ?k + 1) s) = value_of cur"
          by (simp add: value_of_def)
      qed (use lt Cons.prems in simp)
      from go [OF this] True key lt Cons.prems(3,4) line show ?thesis by simp
    next
      case plain
      have "cm_for s fc (cm_add s i (j - i) cm) (ls @ [cur])"
        by (rule cm_add_for [OF Cons.prems(5)]) (use Cons.prems plain in \<open>auto simp: key_of_def\<close>)
      from go [OF this] True plain show ?thesis by simp
    qed
  qed
qed

lemma linked_empty: "cm_inv s \<lparr>num = n, mask = m, hashes = [], first = replicate (Suc (unat m)) (- 1),
    nxt = [], input = [], inputlen = []\<rparr>"
  by (auto simp: cm_inv_def bucket_def simp del: replicate_Suc)

lemma constmap_init_for:
  assumes "constmap_init mok s fc = Some cm"
  shows "cm_for s fc cm (cm_lines [] s)"
proof -
  obtain n m where cm: "cm = cm_fill s fc s 0 0 \<lparr>num = n, mask = m, hashes = [],
      first = replicate (Suc (unat m)) (- 1), nxt = [], input = [], inputlen = []\<rparr>"
    using assms by (auto simp: constmap_init_def Let_def split: if_splits)
  have "cm_for s fc cm ([] @ cm_lines [] s)"
    unfolding cm by (rule cm_fill_for [of _ "[]"]) (simp_all add: cm_for_def linked_empty del: replicate_Suc)
  then show ?thesis by simp
qed

lemma find_filter_imp: "(\<And>x. P x \<Longrightarrow> Q x) \<Longrightarrow> find P (filter Q xs) = find P xs"
  by (induction xs) auto

lemma find_rev_upt:
  "find (\<lambda>p. P (xs ! p)) (rev [0..<length xs]) = None \<longleftrightarrow> find P (rev xs) = None"
  "find (\<lambda>p. P (xs ! p)) (rev [0..<length xs]) = Some p \<Longrightarrow> find P (rev xs) = Some (xs ! p)"
proof (induction xs rule: rev_induct)
  case (snoc x xs)
  {
    case 1
    have "find (\<lambda>p. P ((xs @ [x]) ! p)) (rev [0..<length xs]) = find (\<lambda>p. P (xs ! p)) (rev [0..<length xs])"
      by (rule find_cong) (auto simp: nth_append)
    with snoc(1) show ?case by simp
  next
    case 2
    have e: "find (\<lambda>p. P ((xs @ [x]) ! p)) (rev [0..<length xs]) = find (\<lambda>p. P (xs ! p)) (rev [0..<length xs])"
      by (rule find_cong) (auto simp: nth_append)
    show ?case
    proof (cases "P x")
      case True
      with 2 have "p = length xs" by simp
      with True show ?thesis by simp
    next
      case False
      with 2 e have f: "find (\<lambda>p. P (xs ! p)) (rev [0..<length xs]) = Some p" by simp
      then have "p < length xs" by (auto simp: find_Some_iff rev_nth)
      with snoc(2) [OF f] False show ?thesis by (simp add: nth_append)
    qed
  }
qed simp_all

lemma cm_hit_iff:
  assumes "cm_inv buf cm" and "p < length (input cm)"
  shows "cm_hit buf cm (cm_hash s) s p \<longleftrightarrow> map lower (cm_key buf cm p) = map lower s"
proof -
  have le: "input cm ! p + inputlen cm ! p \<le> length buf" and h: "hashes cm ! p = cm_hash (cm_key buf cm p)"
    using assms by (simp_all add: cm_inv_def)
  have l: "length (cm_key buf cm p) = inputlen cm ! p"
    using le by (simp add: cm_key_def)
  have d: "case_diffb (drop (input cm ! p) buf) (length s) s = 0 \<longleftrightarrow> map lower (cm_key buf cm p) = map lower s"
    if "length s = inputlen cm ! p"
    using le that case_diffb_eq_0_iff [of "length s" "drop (input cm ! p) buf" s] by (simp add: cm_key_def)
  show ?thesis
    unfolding cm_hit_def
    using d h cm_hash_cong [of "cm_key buf cm p" s] l map_eq_imp_length_eq [of lower "cm_key buf cm p" lower s] by metis
qed

lemma constmap_find:
  assumes inv: "cm_inv buf cm"
  shows "constmap buf cm s = Some (map_option (\<lambda>p. input cm ! p + inputlen cm ! p + 1)
           (find (\<lambda>p. map lower (cm_key buf cm p) = map lower s) (rev [0..<length (input cm)])))"
proof -
  let ?b = "unat (cm_hash s AND mask cm)"
  have "linked (nxt cm) (first cm ! ?b) (bucket cm ?b)"
    using inv and_mask_le by (simp add: cm_inv_def)
  then have "constmap buf cm s = Some (map_option (\<lambda>p. input cm ! p + inputlen cm ! p + 1)
      (find (cm_hit buf cm (cm_hash s) s) (bucket cm ?b)))"
    by (simp add: constmap_def Let_def cm_search_linked)
  also have "find (cm_hit buf cm (cm_hash s) s) (bucket cm ?b) =
      find (cm_hit buf cm (cm_hash s) s) (rev [0..<length (input cm)])"
    unfolding bucket_def by (rule find_filter_imp) (simp add: cm_hit_def)
  also have "\<dots> = find (\<lambda>p. map lower (cm_key buf cm p) = map lower s) (rev [0..<length (input cm)])"
    by (rule find_cong) (auto simp: cm_hit_iff [OF inv])
  finally show ?thesis .
qed

lemma constmap_lookup:
  assumes "cm_for buf fc cm ls"
  shows "\<exists>r. constmap buf cm s = Some r \<and>
           (case find (key_matches fc s) (rev ls) of
              None \<Rightarrow> r = None
            | Some l \<Rightarrow> \<exists>off. r = Some off \<and> (fc \<longrightarrow> cstr (drop off buf) = value_of l))"
proof -
  let ?ks = "filter (\<lambda>l. key_of fc l \<noteq> None) ls"
  let ?key = "\<lambda>p. map lower (cm_key buf cm p) = map lower s"
  have inv: "cm_inv buf cm" and n: "length ?ks = length (input cm)"
    and ent: "\<And>p. p < length (input cm) \<Longrightarrow> entry_for buf fc cm p (?ks ! p)"
    using assms by (auto simp: cm_for_def Let_def)
  have same: "find ?key (rev [0..<length ?ks]) = find (\<lambda>p. key_matches fc s (?ks ! p)) (rev [0..<length ?ks])"
    by (rule find_cong) (use ent n in \<open>auto simp: entry_for_def key_matches_def\<close>)
  have all: "find (key_matches fc s) (rev ?ks) = find (key_matches fc s) (rev ls)"
    unfolding rev_filter by (rule find_filter_imp) (auto simp: key_matches_def split: option.splits)
  note look = constmap_find [OF inv, of s, folded n, unfolded same]
  show ?thesis
  proof (cases "find (\<lambda>p. key_matches fc s (?ks ! p)) (rev [0..<length ?ks])")
    case None
    with look find_rev_upt(1) [of "key_matches fc s" ?ks] all show ?thesis by simp
  next
    case (Some p)
    then have "p < length (input cm)" using n by (auto simp: find_Some_iff rev_nth)
    with ent have "entry_for buf fc cm p (?ks ! p)" by simp
    moreover have "find (key_matches fc s) (rev ls) = Some (?ks ! p)"
      using find_rev_upt(2) [OF Some] all by simp
    moreover have "constmap buf cm s = Some (Some (input cm ! p + inputlen cm ! p + 1))"
      using look Some by simp
    ultimately show ?thesis by (auto simp: entry_for_def)
  qed
qed

section \<open>The interface of a table\<close>

text \<open>
  The contract of a table of lines that is searched by key: a search returns, and it finds the last line that
  matches. \<open>tells l v\<close> says that the result \<open>v\<close> is one for the line \<open>l\<close>. Clients search for the parts of a
  name in turn and stop at the first hit.
\<close>

fun try_keys :: "('k \<Rightarrow> 'v option option) \<Rightarrow> 'k list \<Rightarrow> 'v option option" where
  "try_keys look [] = Some None"
| "try_keys look (k # ks) =
     (case look k of None \<Rightarrow> None | Some (Some v) \<Rightarrow> Some (Some v) | Some None \<Rightarrow> try_keys look ks)"

locale line_table =
  fixes look :: "'t \<Rightarrow> 'k \<Rightarrow> 'v option option"
    and matches :: "'t \<Rightarrow> 'k \<Rightarrow> 'l \<Rightarrow> bool"
    and tells :: "'t \<Rightarrow> 'l \<Rightarrow> 'v \<Rightarrow> bool"
    and holds :: "'t \<Rightarrow> 'l list \<Rightarrow> bool"
  assumes look_law: "holds t ls \<Longrightarrow> \<exists>r. look t k = Some r \<and>
      (case find (matches t k) (rev ls) of None \<Rightarrow> r = None | Some l \<Rightarrow> \<exists>v. r = Some v \<and> tells t l v)"
begin

lemma look_cases:
  assumes "holds t ls"
  obtains (none) "look t k = Some None" "\<And>l. l \<in> set ls \<Longrightarrow> \<not> matches t k l"
  | (hit) l v where "look t k = Some (Some v)" "find (matches t k) (rev ls) = Some l" "l \<in> set ls" "matches t k l" "tells t l v"
proof (cases "find (matches t k) (rev ls)")
  case None
  with look_law [OF assms, of k] show ?thesis
    using none by (auto simp: find_None_iff)
next
  case (Some l)
  then have "l \<in> set (rev ls)" "matches t k l"
    by (auto simp: find_Some_iff simp del: set_rev intro: nth_mem)
  with Some look_law [OF assms, of k] show ?thesis
    using hit by auto
qed

lemma look_total: "holds t ls \<Longrightarrow> \<exists>r. look t k = Some r"
  by (erule look_cases [of _ _ k]) auto

lemma look_none_iff: "holds t ls \<Longrightarrow> look t k = Some None \<longleftrightarrow> (\<forall>l \<in> set ls. \<not> matches t k l)"
  by (erule look_cases [of _ _ k]) auto

lemma try_keys_cases:
  assumes "holds t ls"
  obtains (none) "try_keys (look t) ks = Some None" "\<And>k l. k \<in> set ks \<Longrightarrow> l \<in> set ls \<Longrightarrow> \<not> matches t k l"
  | (hit) v ps k qs l where "try_keys (look t) ks = Some (Some v)" "ks = ps @ k # qs"
      "\<And>p l. p \<in> set ps \<Longrightarrow> l \<in> set ls \<Longrightarrow> \<not> matches t p l"
      "find (matches t k) (rev ls) = Some l" "l \<in> set ls" "matches t k l" "tells t l v"
proof (induction ks arbitrary: thesis)
  case Nil
  then show ?case by simp
next
  case (Cons k ks)
  show ?case
  proof (rule look_cases [OF assms, of k])
    assume n: "look t k = Some None" "\<And>l. l \<in> set ls \<Longrightarrow> \<not> matches t k l"
    show ?thesis
    proof (rule Cons.IH)
      assume "try_keys (look t) ks = Some None" "\<And>k l. k \<in> set ks \<Longrightarrow> l \<in> set ls \<Longrightarrow> \<not> matches t k l"
      with n show ?thesis by (intro Cons.prems(1)) auto
    next
      fix v ps k' qs l
      assume "try_keys (look t) ks = Some (Some v)" "ks = ps @ k' # qs"
        "\<And>p l. p \<in> set ps \<Longrightarrow> l \<in> set ls \<Longrightarrow> \<not> matches t p l"
        "find (matches t k') (rev ls) = Some l" "l \<in> set ls" "matches t k' l" "tells t l v"
      with n show ?thesis by (intro Cons.prems(2) [of v "k # ps" k' qs l]) auto
    qed
  next
    fix l v
    assume "look t k = Some (Some v)" "find (matches t k) (rev ls) = Some l" "l \<in> set ls" "matches t k l" "tells t l v"
    then show ?thesis by (intro Cons.prems(2) [of v "[]" k ks l]) auto
  qed
qed

lemma try_keys_none_iff:
  "holds t ls \<Longrightarrow> try_keys (look t) ks = Some None \<longleftrightarrow> (\<forall>k \<in> set ks. \<forall>l \<in> set ls. \<not> matches t k l)"
  by (erule try_keys_cases [of _ _ ks]) auto

lemma try_keys_total: "holds t ls \<Longrightarrow> \<exists>r. try_keys (look t) ks = Some r"
  by (erule try_keys_cases [of _ _ ks]) auto

end

text \<open>A built table is a buffer, the flag it was built with and the table.\<close>

type_synonym built = "char list \<times> bool \<times> constmap"

definition built_look :: "built \<Rightarrow> char list \<Rightarrow> nat option option" where
  "built_look t k = (case t of (buf, fc, cm) \<Rightarrow> constmap buf cm k)"

definition built_matches :: "built \<Rightarrow> char list \<Rightarrow> char list \<Rightarrow> bool" where
  "built_matches t k l = (case t of (buf, fc, cm) \<Rightarrow> key_matches fc k l)"

definition built_tells :: "built \<Rightarrow> char list \<Rightarrow> nat \<Rightarrow> bool" where
  "built_tells t l off = (case t of (buf, fc, cm) \<Rightarrow> fc \<longrightarrow> cstr (drop off buf) = value_of l)"

definition built_holds :: "built \<Rightarrow> char list list \<Rightarrow> bool" where
  "built_holds t ls = (case t of (buf, fc, cm) \<Rightarrow> cm_for buf fc cm ls)"

interpretation cm: line_table built_look built_matches built_tells built_holds
proof unfold_locales
  fix t :: built and ls k
  obtain buf fc cm where t: "t = (buf, fc, cm)" by (cases t)
  assume "built_holds t ls"
  then have "cm_for buf fc cm ls" by (simp add: t built_holds_def)
  moreover have "built_matches t k = key_matches fc k"
    by (simp add: t built_matches_def fun_eq_iff)
  ultimately
  show "\<exists>r. built_look t k = Some r \<and>
      (case find (built_matches t k) (rev ls) of None \<Rightarrow> r = None | Some l \<Rightarrow> \<exists>v. r = Some v \<and> built_tells t l v)"
    using constmap_lookup [of buf fc cm ls k] unfolding t built_look_def built_tells_def prod.case by simp
qed

lemma built_holds_init: "constmap_init mok s fc = Some cm \<Longrightarrow> built_holds (s, fc, cm) (cm_lines [] s)"
  by (simp add: built_holds_def constmap_init_for)

section \<open>Properties\<close>

text \<open>C38: A search in a table that \<open>constmap_init\<close> has built always returns. It finds nothing exactly if no line has the
  key, up to case; otherwise it returns a pointer into the last line with that key, at the text after the colon.\<close>

theorem constmap_correct:
  assumes "constmap_init mok s flagcolon = Some cm"
  shows "\<exists>r. constmap s cm k = Some r \<and>
           (case find (key_matches flagcolon k) (rev (cm_lines [] s)) of
              None \<Rightarrow> r = None
            | Some l \<Rightarrow> \<exists>off. r = Some off \<and> (flagcolon \<longrightarrow> cstr (drop off s) = value_of l))"
  using constmap_lookup [OF constmap_init_for [OF assms]] by blast

theorem constmap_correct_witness:
  "\<exists>cm r. constmap [CHR ''A'', CHR '':'', CHR ''x'', NUL] cm ''a'' = Some r \<and>
     (case find (key_matches True ''a'') (rev (cm_lines [] [CHR ''A'', CHR '':'', CHR ''x'', NUL])) of
        None \<Rightarrow> r = None
      | Some l \<Rightarrow> \<exists>off. r = Some off \<and> (True \<longrightarrow> cstr (drop off [CHR ''A'', CHR '':'', CHR ''x'', NUL]) = value_of l))"
proof -
  obtain cm where "constmap_init (\<lambda>_. True) [CHR ''A'', CHR '':'', CHR ''x'', NUL] True = Some cm"
    by (simp add: constmap_init_def Let_def)
  from constmap_correct [OF this] show ?thesis by blast
qed

text \<open>The first of several keys that is in the table decides a search for one after the other, as in the loops over
  the domains of a name; the search is undecided exactly if no line has any of the keys.\<close>

theorem constmap_try_keys:
  assumes "constmap_init mok s flagcolon = Some cm"
  shows "try_keys (constmap s cm) ks = Some None \<longleftrightarrow> (\<forall>k \<in> set ks. \<forall>l \<in> set (cm_lines [] s). \<not> key_matches flagcolon k l)"
proof -
  have "built_look (s, flagcolon, cm) = constmap s cm" "built_matches (s, flagcolon, cm) = key_matches flagcolon"
    by (simp_all add: fun_eq_iff built_look_def built_matches_def)
  with cm.try_keys_none_iff [OF built_holds_init [OF assms], of ks] show ?thesis by simp
qed

theorem constmap_try_keys_witness:
  "\<exists>cm. try_keys (constmap [CHR ''b'', NUL] cm) [''x.b'', ''b''] = Some None \<longleftrightarrow>
     (\<forall>k \<in> set [''x.b'', ''b'']. \<forall>l \<in> set (cm_lines [] [CHR ''b'', NUL]). \<not> key_matches False k l)"
proof -
  obtain cm where "constmap_init (\<lambda>_. True) [CHR ''b'', NUL] False = Some cm"
    by (simp add: constmap_init_def Let_def)
  from constmap_try_keys [OF this] show ?thesis by blast
qed

end
