(* ===== verification/Base64.thy ===== *)
theory Base64
  imports Bytes
begin

unbundle bit_operations_syntax

text \<open>
  \<open>base64.c\<close>, the coding of SMTP authentication. The output buffer is the list of its bytes; \<open>mem n\<close> says
  whether \<open>stralloc_ready\<close> gets room for \<open>n\<close> bytes. \<^term>\<open>None\<close> is a read outside the input or a write outside the
  room that was asked for, or a negative length; \<open>Some (r, out)\<close> is the return value with the output.
  The lemmas: decoding what \<open>b64encode\<close> wrote gives the input back, the length of the output, its alphabet, and the
  inputs on which the decoder leaves its buffers.
\<close>

definition b64alpha :: "char list" where
  "b64alpha = ''ABCDEFGHIJKLMNOPQRSTUVWXYZabcdefghijklmnopqrstuvwxyz0123456789+/''"

abbreviation B64PAD :: char where "B64PAD \<equiv> CHR ''=''"

section \<open>Encoding\<close>

text \<open>One round of the loop: three bytes in (those past the end are 0), four out.\<close>

definition b64_alpha_at :: "8 word \<Rightarrow> char" where
  "b64_alpha_at i = b64alpha ! unat i"

function b64_encode_loop :: "char list \<Rightarrow> char list" where
  "b64_encode_loop [] = []"
| "b64_encode_loop (ch # r) =
     (let a = of_char ch :: 8 word;
          b = (case r of [] \<Rightarrow> 0 | x # _ \<Rightarrow> of_char x);
          c = (case r of _ # y # _ \<Rightarrow> of_char y | _ \<Rightarrow> 0)
      in b64_alpha_at (drop_bit 2 a) #
         b64_alpha_at (push_bit 4 (a AND 3) OR drop_bit 4 b) #
         (if length r < 1 then B64PAD else b64_alpha_at (push_bit 2 (b AND 15) OR drop_bit 6 c)) #
         (if length r < 2 then B64PAD else b64_alpha_at (c AND 63)) #
         b64_encode_loop (drop 2 r))"
  by pat_completeness auto
termination by (relation "measure length") auto

definition b64encode :: "(nat \<Rightarrow> bool) \<Rightarrow> char list \<Rightarrow> char list \<Rightarrow> int \<times> char list" where
  "b64encode mem inp out =
     (if length inp = 0 then (if mem 0 then (0, []) else (- 1, out))
      else if \<not> mem (length inp div 3 * 4 + 4) then (- 1, out)
      else (0, b64_encode_loop inp))"

section \<open>Decoding\<close>

definition b64_digit :: "32 word \<Rightarrow> char \<Rightarrow> 32 word" where
  "b64_digit x c =
     (if 65 \<le> uch c \<and> uch c \<le> 90 then push_bit 6 x + of_nat (uch c - 65 + 0)
      else if 97 \<le> uch c \<and> uch c \<le> 122 then push_bit 6 x + of_nat (uch c - 97 + 26)
      else if 48 \<le> uch c \<and> uch c \<le> 57 then push_bit 6 x + of_nat (uch c - 48 + 52)
      else if c = CHR ''+'' then push_bit 6 x + 62
      else if c = CHR ''/'' then push_bit 6 x + 63
      else if c = CHR ''='' then push_bit 6 x
      else x)"

text \<open>Four characters give three bytes.\<close>

definition b64_group :: "char list \<Rightarrow> char list" where
  "b64_group q =
     (let x = foldl b64_digit 0 q
      in [char_of (unat (drop_bit 16 x AND 255)), char_of (unat (drop_bit 8 x AND 255)), char_of (unat (x AND 255))])"

text \<open>\<open>while(in[l-1] == B64PAD) { p ++; l--; }\<close> from the end: the rest of the reversed input; nothing stops it at the start.\<close>

fun b64_pads :: "char list \<Rightarrow> nat option" where
  "b64_pads [] = None"
| "b64_pads (c # r) = (if c = B64PAD then map_option Suc (b64_pads r) else Some 0)"

fun b64_groups :: "nat \<Rightarrow> char list \<Rightarrow> (char list \<times> char list) option" where
  "b64_groups 0 inp = Some ([], inp)"
| "b64_groups (Suc n) inp =
     (if length inp < 4 then None
      else case b64_groups n (drop 4 inp) of
             None \<Rightarrow> None
           | Some (out, r) \<Rightarrow> Some (b64_group (take 4 inp) @ out, r))"

definition b64decode :: "(nat \<Rightarrow> bool) \<Rightarrow> char list \<Rightarrow> char list \<Rightarrow> (int \<times> char list) option" where
  "b64decode mem inp out =
     (if inp = [] then Some (if mem 0 then (0, []) else (- 1, out))
      else case b64_pads (rev inp) of
        None \<Rightarrow> None
      | Some p \<Rightarrow>
          let n = length inp div 4;
              i = int n * 3 - int p
          in if i < 0 then None
             else if \<not> mem (nat i) then Some (- 1, out)
             else case b64_groups (n - 1) inp of
                    None \<Rightarrow> None
                  | Some (s, r) \<Rightarrow>
                      if length r < 4 then None
                      else let s' = s @ take (3 - p) (b64_group (take 4 r))
                           in if length s' \<le> nat i then Some (0, s') else None)"

section \<open>Round trip\<close>

lemma b64alpha_codes: "map uch b64alpha = [65..<91] @ [97..<123] @ [48..<58] @ [43, 47]"
  by (simp add: b64alpha_def upt_rec_numeral)

lemma length_b64alpha [simp]: "length b64alpha = 64"
  by (simp add: b64alpha_def)

lemma uch_b64alpha:
  assumes "i < 64"
  shows "uch (b64alpha ! i) =
    (if i < 26 then 65 + i else if i < 52 then 71 + i else if i < 62 then i - 4 else if i = 62 then 43 else 47)"
proof -
  have "uch (b64alpha ! i) = map uch b64alpha ! i"
    using assms by simp
  also have "\<dots> = ([65..<91] @ [97..<123] @ [48..<58] @ [43, 47]) ! i"
    by (simp only: b64alpha_codes)
  also have "\<dots> = (if i < 26 then 65 + i else if i < 52 then 71 + i else if i < 62 then i - 4 else if i = 62 then 43 else 47)"
    using assms by (auto simp: nth_append nth_Cons' less_Suc_eq)
  finally show ?thesis .
qed

lemma b64_digit_alpha:
  assumes "i < 64"
  shows "b64_digit x (b64alpha ! i) = push_bit 6 x + of_nat i" and "b64alpha ! i \<noteq> B64PAD"
proof -
  have c: "c = CHR ''+'' \<longleftrightarrow> uch c = 43" "c = CHR ''/'' \<longleftrightarrow> uch c = 47" "c = B64PAD \<longleftrightarrow> uch c = 61" for c
    using uch_inject [of c "CHR ''+''"] uch_inject [of c "CHR ''/''"] uch_inject [of c B64PAD] by simp_all
  show "b64alpha ! i \<noteq> B64PAD"
    using assms by (auto simp: c uch_b64alpha)
  consider "i < 26" | "26 \<le> i" "i < 52" | j where "i = j + 4" "48 \<le> j" "j \<le> 57" | "i = 62" | "i = 63"
    using assms that(3) [of "i - 4"] by linarith
  then show "b64_digit x (b64alpha ! i) = push_bit 6 x + of_nat i"
    using assms by cases (simp_all add: b64_digit_def c uch_b64alpha of_nat_diff)
qed

lemma unat_push_add:
  "unat (x :: 32 word) < 2 ^ 24 \<Longrightarrow> i < 64 \<Longrightarrow> unat (push_bit 6 x + of_nat i) = unat x * 64 + i"
  by (simp add: unat_word_ariths push_bit_eq_mult unat_of_nat)

lemma b64_group_alpha:
  assumes "i0 < 64" "i1 < 64" "i2 < 64" "i3 < 64"
  shows "unat (foldl b64_digit 0 [b64alpha ! i0, b64alpha ! i1, b64alpha ! i2, b64alpha ! i3]) =
           ((i0 * 64 + i1) * 64 + i2) * 64 + i3"
proof -
  have 0: "unat (push_bit 6 0 + of_nat i0 :: 32 word) = i0"
    using assms by (simp add: unat_of_nat)
  have 1: "unat (push_bit 6 (push_bit 6 0 + of_nat i0) + of_nat i1 :: 32 word) = i0 * 64 + i1"
    using assms 0 by (subst unat_push_add) simp_all
  have 2: "unat (push_bit 6 (push_bit 6 (push_bit 6 0 + of_nat i0) + of_nat i1) + of_nat i2 :: 32 word) = (i0 * 64 + i1) * 64 + i2"
    using assms 1 by (subst unat_push_add) simp_all
  show ?thesis
    using assms 2 by (simp only: foldl.simps b64_digit_alpha, subst unat_push_add) simp_all
qed

lemma div_less_16:
  fixes n :: nat
  shows "n < 256 \<Longrightarrow> n div 16 < 16" and "n < 256 \<Longrightarrow> n div 64 < 4" and "n < 256 \<Longrightarrow> n div 4 < 64"
  by simp_all

lemma sextet_bounds:
  fixes a b :: nat
  shows "b < 256 \<Longrightarrow> a mod 4 * 16 + b div 16 < 64" and "b < 256 \<Longrightarrow> a mod 16 * 4 + b div 64 < 64"
proof -
  have *: "x * 16 + y < 64" if "x < 4" "y < 16" for x y :: nat
    using that by simp
  have **: "x * 4 + y < 64" if "x < 16" "y < 4" for x y :: nat
    using that by simp
  show "b < 256 \<Longrightarrow> a mod 4 * 16 + b div 16 < 64" by (intro *) simp_all
  show "b < 256 \<Longrightarrow> a mod 16 * 4 + b div 64 < 64" by (intro **) simp_all
qed

lemma unat_quarter:
  fixes a b c :: "8 word"
  shows "unat (drop_bit 2 a) = unat a div 4"
    and "unat (push_bit 4 (a AND 3) OR drop_bit 4 b) = unat a mod 4 * 16 + unat b div 16"
    and "unat (push_bit 2 (b AND 15) OR drop_bit 6 c) = unat b mod 16 * 4 + unat c div 64"
    and "unat (c AND 63) = unat c mod 64"
proof -
  have m: "a AND 3 = take_bit 2 a" "b AND 15 = take_bit 4 b" "c AND 63 = take_bit 6 c"
    by (simp_all add: take_bit_eq_mask mask_eq_exp_minus_1)
  show "unat (drop_bit 2 a) = unat a div 4" "unat (c AND 63) = unat c mod 64"
    unfolding m byte_simps by simp_all
  have "push_bit 4 (take_bit 2 a) OR drop_bit 4 b = push_bit 4 (take_bit 2 a) + drop_bit 4 b"
    by (rule disjunctive_add [symmetric]) (auto simp: bit_simps dest: bit_imp_le_length)
  moreover have "unat a mod 4 * 16 + unat b div 16 < 256"
    using sextet_bounds(1) [OF unat_less_256, of "unat a" b] by simp
  ultimately show "unat (push_bit 4 (a AND 3) OR drop_bit 4 b) = unat a mod 4 * 16 + unat b div 16"
    unfolding m by (simp only: push_bit_eq_mult unat_word_ariths byte_simps) simp
  have "push_bit 2 (take_bit 4 b) OR drop_bit 6 c = push_bit 2 (take_bit 4 b) + drop_bit 6 c"
    by (rule disjunctive_add [symmetric]) (auto simp: bit_simps dest: bit_imp_le_length)
  moreover have "unat b mod 16 * 4 + unat c div 64 < 256"
    using sextet_bounds(2) [OF unat_less_256, of "unat b" c] by simp
  ultimately show "unat (push_bit 2 (b AND 15) OR drop_bit 6 c) = unat b mod 16 * 4 + unat c div 64"
    unfolding m by (simp only: push_bit_eq_mult unat_word_ariths byte_simps) simp
qed

lemma drop_255: "unat (drop_bit k (x :: 32 word) AND 255) = unat x div 2 ^ k mod 256"
proof -
  have "drop_bit k x AND 255 = take_bit 8 (drop_bit k x)"
    by (simp add: take_bit_eq_mask mask_eq_exp_minus_1)
  then show ?thesis by (simp add: byte_simps)
qed

text \<open>A group of the decoder undoes a round of the encoder; padding stands for zero bits.\<close>

lemma b64_digit_pad: "b64_digit x B64PAD = b64_digit x (b64alpha ! 0)"
  by (simp add: b64_digit_def b64alpha_def)

lemma sextets:
  fixes a b c :: nat
  assumes "a < 256" "b < 256" "c < 256"
  shows "((a div 4 * 64 + (a mod 4 * 16 + b div 16)) * 64 + (b mod 16 * 4 + c div 64)) * 64 + c mod 64 =
           a * 65536 + b * 256 + c"
proof -
  have "a = a div 4 * 4 + a mod 4" "b = b div 16 * 16 + b mod 16" "c = c div 64 * 64 + c mod 64"
    by simp_all
  then show ?thesis by algebra
qed

lemma three_bytes:
  fixes a b c :: nat
  assumes "a < 256" "b < 256" "c < 256"
  shows "(a * 65536 + b * 256 + c) div 65536 mod 256 = a" and "(a * 65536 + b * 256 + c) div 256 mod 256 = b"
    and "(a * 65536 + b * 256 + c) mod 256 = c"
proof -
  have "(a * 65536 + b * 256 + c) div 65536 = a" "(a * 65536 + b * 256 + c) div 256 = a * 256 + b"
    using assms by (auto intro!: div_nat_eqI)
  then show "(a * 65536 + b * 256 + c) div 65536 mod 256 = a" "(a * 65536 + b * 256 + c) div 256 mod 256 = b"
    using assms by (simp_all only: mod_mult_self3 mod_less)
  have "a * 65536 + b * 256 + c = (a * 256 + b) * 256 + c" by simp
  then show "(a * 65536 + b * 256 + c) mod 256 = c"
    using assms by (simp only: mod_mult_self3 mod_less)
qed

text \<open>The four indices of a group.\<close>

definition q1 :: "8 word \<Rightarrow> char" where "q1 a = b64_alpha_at (drop_bit 2 a)"
definition q2 :: "8 word \<Rightarrow> 8 word \<Rightarrow> char" where "q2 a b = b64_alpha_at (push_bit 4 (a AND 3) OR drop_bit 4 b)"
definition q3 :: "8 word \<Rightarrow> 8 word \<Rightarrow> char" where "q3 b c = b64_alpha_at (push_bit 2 (b AND 15) OR drop_bit 6 c)"
definition q4 :: "8 word \<Rightarrow> char" where "q4 c = b64_alpha_at (c AND 63)"

lemma b64_group_bytes: "b64_group [q1 a, q2 a b, q3 b c, q4 c] = [char_of (unat a), char_of (unat b), char_of (unat c)]"
proof -
  note q = unat_quarter(1) [of a] unat_quarter(2) [of a b] unat_quarter(3) [of b c] unat_quarter(4) [of c] and lt = unat_less_256 [of a] unat_less_256 [of b] unat_less_256 [of c]
  let ?x = "foldl b64_digit 0 [q1 a, q2 a b, q3 b c, q4 c]"
  have "unat a div 4 < 64" "unat a mod 4 * 16 + unat b div 16 < 64" "unat b mod 16 * 4 + unat c div 64 < 64"
    "unat c mod 64 < 64"
    using lt by (simp_all add: sextet_bounds div_less_16)
  note x = b64_group_alpha [OF this]
  have "unat ?x = unat a * 65536 + unat b * 256 + unat c"
    unfolding q1_def q2_def q3_def q4_def b64_alpha_at_def q x by (rule sextets [OF lt])
  then have "unat (drop_bit 16 ?x AND 255) = unat a" "unat (drop_bit 8 ?x AND 255) = unat b" "unat (?x AND 255) = unat c"
    using drop_255 [of 16 ?x] drop_255 [of 8 ?x] drop_255 [of 0 ?x] three_bytes [OF lt] by simp_all
  then show ?thesis
    by (simp only: b64_group_def Let_def)
qed

section \<open>Properties of the encoding\<close>

lemma uch_of_char [simp]: "char_of (unat (of_char ch :: 8 word)) = ch"
  by simp

text \<open>Encoding in whole groups.\<close>

lemma b64_encode_loop_simps:
  "b64_encode_loop [x] = [q1 (of_char x), q2 (of_char x) 0, B64PAD, B64PAD]"
  "b64_encode_loop [x, y] = [q1 (of_char x), q2 (of_char x) (of_char y), q3 (of_char y) 0, B64PAD]"
  "b64_encode_loop (x # y # z # r) =
     [q1 (of_char x), q2 (of_char x) (of_char y), q3 (of_char y) (of_char z), q4 (of_char z)] @ b64_encode_loop r"
  by (simp_all add: Let_def q1_def q2_def q3_def q4_def)

lemma triple_cases:
  obtains "s = []" | x where "s = [x]" | x y where "s = [x, y]" | x y z r where "s = x # y # z # r"
  by (metis list.exhaust)

lemma triple_induct:
  assumes "P []" "\<And>x. P [x]" "\<And>x y. P [x, y]" "\<And>x y z r. P r \<Longrightarrow> P (x # y # z # r)"
  shows "P s"
proof (induction s rule: length_induct)
  case (1 s)
  then show ?case
    using assms by (cases s rule: triple_cases) auto
qed

lemma length_b64_encode_loop: "length (b64_encode_loop s) = (length s + 2) div 3 * 4"
proof (induction s rule: triple_induct)
  case (4 x y z r)
  have "(length (x # y # z # r) + 2) div 3 = Suc ((length r + 2) div 3)" by simp
  with 4 show ?case by (simp add: b64_encode_loop_simps del: b64_encode_loop.simps(2))
qed (simp_all add: b64_encode_loop_simps del: b64_encode_loop.simps(2))

lemma q_not_pad [simp]: "q2 a b \<noteq> B64PAD" "q3 b c \<noteq> B64PAD" "q4 c \<noteq> B64PAD"
  unfolding q2_def q3_def q4_def b64_alpha_at_def unat_quarter
  by (intro b64_digit_alpha(2) sextet_bounds; simp)+

text \<open>The number of padding characters that end the output.\<close>

definition b64_padding :: "char list \<Rightarrow> nat" where
  "b64_padding s = (3 - length s mod 3) mod 3"

lemma b64_pads_encode: "s \<noteq> [] \<Longrightarrow> b64_pads (rev (b64_encode_loop s)) = Some (b64_padding s)"
proof (induction s rule: triple_induct)
  case (4 x y z r)
  have app: "b64_pads (t @ u) = b64_pads t" if "b64_pads t \<noteq> None" for t u
    using that by (induction t) auto
  show ?case
    using 4 app [of "rev (b64_encode_loop r)"]
    by (cases "r = []") (simp_all add: b64_encode_loop_simps b64_padding_def del: b64_encode_loop.simps(2))
qed (simp_all add: b64_encode_loop_simps b64_padding_def del: b64_encode_loop.simps(2))

text \<open>Every group but the last decodes to three bytes of the input.\<close>

lemma b64_groups_encode:
  "length s = 3 * n \<Longrightarrow> b64_groups n (b64_encode_loop s @ t) = Some (s, t)"
proof (induction n arbitrary: s)
  case 0
  then show ?case by simp
next
  case (Suc n)
  then obtain x y z r where s: "s = x # y # z # r" "length r = 3 * n"
    by (cases s rule: triple_cases) auto
  then show ?case
    using Suc.IH [of r]
    by (simp add: b64_encode_loop_simps b64_group_bytes del: b64_encode_loop.simps(2))
qed

lemma b64_encode_loop_append:
  "length s = 3 * n \<Longrightarrow> b64_encode_loop (s @ t) = b64_encode_loop s @ b64_encode_loop t"
proof (induction n arbitrary: s)
  case 0
  then show ?case by simp
next
  case (Suc n)
  then obtain x y z r where s: "s = x # y # z # r" "length r = 3 * n"
    by (cases s rule: triple_cases) auto
  then show ?case
    using Suc.IH [of r] by (simp add: b64_encode_loop_simps del: b64_encode_loop.simps(2))
qed

text \<open>The last group: a padding character counts as zero bits.\<close>

lemma b64_group_pads:
  "b64_group [p, q, r, B64PAD] = b64_group [p, q, r, b64alpha ! 0]"
  "b64_group [p, q, B64PAD, s] = b64_group [p, q, b64alpha ! 0, s]"
  by (simp_all add: b64_group_def Let_def b64_digit_pad)

lemma b64_last_group:
  assumes "s \<noteq> []" "length s \<le> 3"
  shows "take (3 - b64_padding s) (b64_group (b64_encode_loop s)) = s" and "length (b64_encode_loop s) = 4"
proof -
  have z: "q4 0 = b64alpha ! 0" and z2: "q3 0 0 = b64alpha ! 0"
    by (simp_all add: b64_alpha_at_def q3_def q4_def)
  show "take (3 - b64_padding s) (b64_group (b64_encode_loop s)) = s"
  proof (cases s rule: triple_cases)
    case (2 x)
    then show ?thesis
      using b64_group_bytes [of "of_char x" 0 0, unfolded z z2]
      by (simp add: b64_encode_loop_simps b64_padding_def b64_group_pads del: b64_encode_loop.simps(2))
  next
    case (3 x y)
    then show ?thesis
      using b64_group_bytes [of "of_char x" "of_char y" 0, unfolded z]
      by (simp add: b64_encode_loop_simps b64_padding_def b64_group_pads del: b64_encode_loop.simps(2))
  next
    case (4 x y z r)
    then show ?thesis
      using assms by (simp add: b64_encode_loop_simps b64_padding_def b64_group_bytes del: b64_encode_loop.simps(2))
  qed (use assms in simp)
  show "length (b64_encode_loop s) = 4"
    using assms by (simp add: length_b64_encode_loop) (cases s rule: triple_cases, auto)
qed

lemma b64decode_encode_loop:
  assumes "s \<noteq> []" and "mem (length s)"
  shows "b64decode mem (b64_encode_loop s) out = Some (0, s)"
proof -
  define n where "n = (length s - 1) div 3"
  define u where "u = take (3 * n) s"
  define v where "v = drop (3 * n) s"
  have len: "3 * n < length s" "length s \<le> 3 * n + 3"
    using assms(1) by (simp_all add: n_def) (cases s; simp; linarith)+
  have s: "s = u @ v" and u: "length u = 3 * n" and v: "v \<noteq> []" "length v \<le> 3"
    using len by (simp_all add: u_def v_def)
  have pad: "b64_padding s = b64_padding v"
    using u by (simp add: b64_padding_def s mod_add_eq [symmetric])
  have enc: "b64_encode_loop s = b64_encode_loop u @ b64_encode_loop v"
    unfolding s by (rule b64_encode_loop_append [OF u])
  note last = b64_last_group [OF v]
  have L: "length (b64_encode_loop s) div 4 = Suc n"
    using len by (simp add: length_b64_encode_loop)
  have p: "length v = 3 - b64_padding v"
    using v by (cases v rule: triple_cases) (auto simp: b64_padding_def)
  have i: "int (Suc n) * 3 - int (b64_padding s) = int (length s)"
    using p u by (simp add: s pad b64_padding_def)
  have ne: "b64_encode_loop s \<noteq> []"
    using L by auto
  have g: "b64_groups (Suc n - 1) (b64_encode_loop s) = Some (u, b64_encode_loop v)"
    unfolding enc using b64_groups_encode [OF u, of "b64_encode_loop v"] by simp
  have t: "take 4 (b64_encode_loop v) = b64_encode_loop v" "u @ v = s" "nat (int (length s)) = length s"
    using last(2) s by simp_all
  show ?thesis
    unfolding b64decode_def if_not_P [OF ne] b64_pads_encode [OF assms(1)] option.case Let_def L i g prod.case t
      last(1) [folded pad]
    using assms(2) last t(2) by simp
qed

section \<open>Properties\<close>

text \<open>\<open>b64decode\<close> gives back what \<open>b64encode\<close> has encoded, and stays within its buffers.\<close>

theorem b64_roundtrip:
  assumes "b64encode mem s out = (0, t)" and "mem' (length s)"
  shows "b64decode mem' t out' = Some (0, s)"
proof (cases "s = []")
  case True
  with assms show ?thesis by (simp add: b64encode_def b64decode_def split: if_splits)
next
  case False
  with assms have "t = b64_encode_loop s" by (simp add: b64encode_def split: if_splits)
  with False assms(2) show ?thesis by (simp add: b64decode_encode_loop)
qed

theorem b64_roundtrip_witness: "b64decode (\<lambda>_. True) ''YWI='' [] = Some (0, ''ab'')"
proof (rule b64_roundtrip [where mem = "\<lambda>_. True" and out = "[]"])
  show "b64encode (\<lambda>_. True) ''ab'' [] = (0, ''YWI='')" by code_simp
qed simp

text \<open>A decoder input of fewer than four characters makes \<open>b64decode\<close> read past its end.\<close>

theorem b64decode_short:
  assumes "inp \<noteq> []" and "length inp < 4" and "mem 0"
  shows "b64decode mem inp out = None"
proof -
  have "length inp div 4 = 0" using assms(2) by simp
  then show ?thesis
    using assms by (auto simp: b64decode_def Let_def split: option.splits)
qed

theorem b64decode_short_witness: "b64decode (\<lambda>_. True) ''YQ'' [] = None"
  by (rule b64decode_short) simp_all

end
