(* ===== verification/Datetime.thy ===== *)
theory Datetime
  imports Numtext "HOL-Library.Signed_Division"
begin

text \<open>
  Calendar time: \<open>datetime.c\<close>, \<open>datetime_un.c\<close> and the \<open>Date:\<close> line of \<open>date822fmt.c\<close>.

  C's \<open>/\<close> and \<open>%\<close> truncate towards zero: \<open>sdiv\<close> and \<open>smod\<close>. The integers are unbounded here; \<open>fits32\<close> (Prelude)
  bounds the times, and the bounds on the fields say that no intermediate result leaves 32 bits.
  \<open>localtime\<close> is not part of the sources: it is the parameter \<open>localtime\<close> of \<open>date822fmt\<close>.
  The lemmas: \<open>datetime_untai\<close> undoes \<open>datetime_tai\<close>, the fields have their ranges, and both agree with the
  proleptic Gregorian calendar, which is specified by its month lengths and its leap years.
\<close>

record datetime =
  hour :: int
  minute :: int
  sec :: int
  wday :: int
  mday :: int
  yday :: int
  mon :: int
  year :: int

definition datetime_tai :: "int \<Rightarrow> datetime" where
  "datetime_tai t =
     (let tod = t smod 86400;
          day = t sdiv 86400;
          (tod, day) = (if tod < 0 then (tod + 86400, day - 1) else (tod, day));
          h = tod sdiv 3600;
          tod = tod smod 3600;
          m = tod sdiv 60;
          s = tod smod 60;
          wd = (day + 4) smod 7;
          wd = (if wd < 0 then wd + 7 else wd);
          day = day - 11017;
          year = 5 + day sdiv 146097;
          day = day smod 146097;
          (day, year) = (if day < 0 then (day + 146097, year - 1) else (day, year));
          year = year * 4;
          (year, day) = (if day = 146096 then (year + 3, 36524) else (year + day sdiv 36524, day smod 36524));
          year = year * 25;
          year = year + day sdiv 1461;
          day = day smod 1461;
          year = year * 4;
          yday = (if day < 306 then 1 else 0);
          (year, day) = (if day = 1460 then (year + 3, 365) else (year + day sdiv 365, day smod 365));
          yday = yday + day;
          day = day * 10;
          mon = (day + 5) sdiv 306;
          day = day + 5 - 306 * mon;
          day = day sdiv 10;
          (yday, year, mon) = (if mon \<ge> 10 then (yday - 306, year + 1, mon - 10) else (yday + 59, year, mon + 2))
      in \<lparr>hour = h, minute = m, sec = s, wday = wd, mday = day + 1, yday = yday, mon = mon, year = year - 1900\<rparr>)"

definition datetime_untai :: "datetime \<Rightarrow> int" where
  "datetime_untai dt =
     (let y = year dt + 1900;
          m = mon dt;
          (m, y) = (if m \<ge> 2 then (m - 2, y) else (m + 10, y - 1));
          day = (mday dt - 1) * 10 + 5 + 306 * m;
          day = day sdiv 10;
          (y, day) = (if day = 365 then (y - 3, 1460) else (y, day + 365 * (y smod 4)));
          y = y sdiv 4;
          day = day + 1461 * (y smod 25);
          y = y sdiv 25;
          (y, day) = (if day = 36524 then (y - 3, 146096) else (y, day + 36524 * (y smod 4)));
          y = y sdiv 4;
          day = day + 146097 * (y - 5);
          day = day + 11017
      in ((day * 24 + hour dt) * 60 + minute dt) * 60 + sec dt)"

definition montab :: "char list list" where
  "montab = [''Jan'', ''Feb'', ''Mar'', ''Apr'', ''May'', ''Jun'', ''Jul'', ''Aug'', ''Sep'', ''Oct'', ''Nov'', ''Dec'']"

definition date822fmt :: "(int \<Rightarrow> datetime) \<Rightarrow> datetime \<Rightarrow> char list" where
  "date822fmt localtime dt =
     (let utc = datetime_untai dt;
          new_dt = localtime utc;
          loc = datetime_untai new_dt;
          date = fmt_uint (nat (mday new_dt)) @ fmt_str '' '' @ fmt_str (montab ! nat (mon new_dt)) @ fmt_str '' '' @
                 fmt_uint (nat (year new_dt + 1900)) @ fmt_str '' '' @
                 fmt_uint0 (nat (hour new_dt)) 2 @ fmt_str '':'' @ fmt_uint0 (nat (minute new_dt)) 2 @ fmt_str '':'' @
                 fmt_uint0 (nat (sec new_dt)) 2;
          zone = (if loc < utc
                  then let minutes = (utc - loc + 30) sdiv 60
                       in fmt_str '' -'' @ fmt_uint0 (nat (minutes sdiv 60)) 2 @ fmt_uint0 (nat (minutes smod 60)) 2
                  else let minutes = (loc - utc + 30) sdiv 60
                       in fmt_str '' +'' @ fmt_uint0 (nat (minutes sdiv 60)) 2 @ fmt_uint0 (nat (minutes smod 60)) 2)
      in date @ zone @ fmt_str [LF])"

section \<open>Truncating division\<close>

lemma sdiv_nonneg: "0 \<le> a \<Longrightarrow> 0 < b \<Longrightarrow> a sdiv b = a div (b :: int)"
  by (cases "a = 0") (simp_all add: signed_divide_int_def)

lemma smod_nonneg: "0 \<le> a \<Longrightarrow> 0 < b \<Longrightarrow> a smod b = a mod (b :: int)"
  by (cases "a = 0") (simp_all add: signed_modulo_int_def)

text \<open>\<open>x = a % b; if (x < 0) x += b;\<close> is the remainder with the sign of \<open>b\<close>; the quotient follows.\<close>

lemma smod_fix:
  assumes "0 < (b :: int)"
  shows "(if a smod b < 0 then a smod b + b else a smod b) = a mod b"
    and "(if a smod b < 0 then a sdiv b - 1 else a sdiv b) = a div b"
proof -
  have e: "a = a sdiv b * b + a smod b"
    by (simp add: sdiv_mult_smod_eq)
  have r: "- b < a smod b" "a smod b < b"
    using assms by (auto simp: signed_modulo_int_def sgn_if abs_if)
      (smt (verit) pos_mod_bound pos_mod_sign)+
  show "(if a smod b < 0 then a sdiv b - 1 else a sdiv b) = a div b"
  proof (cases "a smod b < 0")
    case True
    have "a = b * (a sdiv b - 1) + (a smod b + b)"
      using e by (simp add: algebra_simps)
    then show ?thesis
      using True r by (simp add: int_div_pos_eq)
  next
    case False
    have "a = b * (a sdiv b) + a smod b"
      using e by (simp add: algebra_simps)
    then show ?thesis
      using False r by (simp add: int_div_pos_eq)
  qed
  then show "(if a smod b < 0 then a smod b + b else a smod b) = a mod b"
    using e by (auto simp: minus_div_mult_eq_mod [symmetric] algebra_simps split: if_splits)
qed

lemma smod_fix_pair:
  assumes "0 < (b :: int)"
  shows "(if a smod b < 0 then (a smod b + b, a sdiv b - 1) else (a smod b, a sdiv b)) = (a mod b, a div b)"
    and "(if a smod b < 0 then (a smod b + b, x + a sdiv b - 1) else (a smod b, x + a sdiv b)) = (a mod b, x + a div b)"
  using smod_fix [OF assms, of a] by (auto split: if_splits)

section \<open>The day number taken apart\<close>

text \<open>A cycle of four parts, the last of which is a day longer.\<close>

lemma four_parts:
  fixes d per :: int
  assumes "0 \<le> d" "d \<le> 4 * per" "0 < per"
  obtains f g where "(if d = 4 * per then (x + 3, per) else (x + d sdiv per, d smod per)) = (x + f, g)"
    and "0 \<le> f" "f \<le> 3" "0 \<le> g" "g \<le> per" "d = per * f + g" "g = per \<Longrightarrow> f = 3"
proof (cases "d = 4 * per")
  case True
  show ?thesis by (rule that [of 3 per]) (use True assms in auto)
next
  case False
  have "d div per < 4"
  proof (rule ccontr)
    assume "\<not> d div per < 4"
    then have "per * 4 \<le> per * (d div per)"
      using assms(3) by (intro mult_left_mono) auto
    then show False
      using False assms mult_div_mod_eq [of per d] pos_mod_sign [OF assms(3), of d] by linarith
  qed
  moreover have "d mod per \<noteq> per"
    using pos_mod_bound [OF assms(3), of d] by simp
  ultimately show ?thesis
    using False assms
    by (intro that [of "d div per" "d mod per"])
      (auto simp: sdiv_nonneg smod_nonneg pos_imp_zdiv_nonneg_iff less_imp_le)
qed

text \<open>
  The day \<open>D\<close> since March 1, 2000: \<open>q\<close> periods of 400 years, \<open>c\<close> centuries, \<open>y\<close> periods of four years, \<open>f\<close> years
  and \<open>g\<close> days. \<open>from_march\<close> is the date that starts with the month \<open>m\<close> after March.
\<close>

definition day_parts :: "int \<Rightarrow> int \<Rightarrow> int \<Rightarrow> int \<Rightarrow> int \<Rightarrow> int \<Rightarrow> bool" where
  "day_parts D q c y f g \<longleftrightarrow>
     D = 146097 * q + 36524 * c + 1461 * y + 365 * f + g \<and> 0 \<le> c \<and> c \<le> 3 \<and> 0 \<le> y \<and> y \<le> 24 \<and> 0 \<le> f \<and> f \<le> 3 \<and>
     0 \<le> g \<and> g \<le> 365 \<and> (g = 365 \<longrightarrow> f = 3) \<and> 1461 * y + 365 * f + g \<le> 36524 \<and>
     (1461 * y + 365 * f + g = 36524 \<longrightarrow> c = 3)"

definition march_year :: "int \<Rightarrow> int \<Rightarrow> int \<Rightarrow> int \<Rightarrow> int" where
  "march_year q c y f = (((5 + q) * 4 + c) * 25 + y) * 4 + f"

lemma datetime_tai_parts:
  obtains q c y f g where "day_parts (t div 86400 - 11017) q c y f g"
    and "datetime_tai t =
      (let m = (10 * g + 5) div 306; z = (if 365 * f + g < 306 then 1 else 0) + g; tod = t mod 86400
       in \<lparr>hour = tod div 3600, minute = tod mod 3600 div 60, sec = tod mod 3600 mod 60,
           wday = (t div 86400 + 4) mod 7, mday = (10 * g + 5 - 306 * m) div 10 + 1,
           yday = (if m \<ge> 10 then z - 306 else z + 59), mon = (if m \<ge> 10 then m - 10 else m + 2),
           year = (if m \<ge> 10 then march_year q c y f + 1 else march_year q c y f) - 1900\<rparr>)"
proof -
  define D where "D = t div 86400 - 11017"
  define d0 where "d0 = D mod 146097"
  have d0: "0 \<le> d0" "d0 \<le> 4 * 36524" "0 < (36524 :: int)"
    using pos_mod_bound [of 146097 D] by (auto simp: d0_def)
  let ?q = "D div 146097"
  obtain c d1 where c: "(if d0 = 4 * 36524 then ((5 + ?q) * 4 + 3, 36524) else ((5 + ?q) * 4 + d0 sdiv 36524, d0 smod 36524)) =
      ((5 + ?q) * 4 + c, d1)"
    "0 \<le> c" "c \<le> 3" "0 \<le> d1" "d1 \<le> 36524" "d0 = 36524 * c + d1" "d1 = 36524 \<Longrightarrow> c = 3"
    using four_parts [OF d0, of "(5 + ?q) * 4"] by blast
  define y where "y = d1 div 1461"
  define d2 where "d2 = d1 mod 1461"
  have y: "d1 = 1461 * y + d2" "0 \<le> d2" "d2 \<le> 4 * 365" "0 \<le> y" "y \<le> 24" "0 < (365 :: int)"
    using c by (auto simp: y_def d2_def pos_imp_zdiv_nonneg_iff)
  let ?x = "(((5 + ?q) * 4 + c) * 25 + y) * 4"
  obtain f g where f: "(if d2 = 4 * 365 then (?x + 3, 365) else (?x + d2 sdiv 365, d2 smod 365)) = (?x + f, g)"
    "0 \<le> f" "f \<le> 3" "0 \<le> g" "g \<le> 365" "d2 = 365 * f + g" "g = 365 \<Longrightarrow> f = 3"
    using four_parts [OF y(2,3,6), of ?x] by blast
  have parts: "day_parts D ?q c y f g"
    using c f y by (auto simp: day_parts_def d0_def minus_div_mult_eq_mod [symmetric])
  define m where "m = (10 * g + 5) div 306"
  have m: "(g * 10 + 5) sdiv 306 = m" "(g * 10 + 5 - 306 * m) sdiv 10 = (10 * g + 5 - 306 * m) div 10"
    using f(4) by (simp_all add: m_def sdiv_nonneg mult.commute minus_mult_div_eq_mod)
  have y': "d1 sdiv 1461 = y" "d1 smod 1461 = d2"
    using c(4) by (simp_all add: y_def d2_def sdiv_nonneg smod_nonneg)
  have wd: "(if (n + 4) smod 7 < 0 then (n + 4) smod 7 + 7 else (n + 4) smod 7) = (n + 4) mod 7" for n :: int
    by (rule smod_fix(1)) simp
  have tod: "(t mod 86400) sdiv 3600 = t mod 86400 div 3600" "(t mod 86400) smod 3600 = t mod 86400 mod 3600"
    "(t mod 86400 mod 3600) sdiv 60 = t mod 86400 mod 3600 div 60"
    "(t mod 86400 mod 3600) smod 60 = t mod 86400 mod 3600 mod 60"
    by (simp_all add: sdiv_nonneg smod_nonneg)
  have fold: "t div 86400 - 11017 = D" by (simp add: D_def)
  have n: "4 * 36524 = (146096 :: int)" "4 * 365 = (1460 :: int)" by simp_all
  have fix1: "(if t smod 86400 < 0 then (t smod 86400 + 86400, t sdiv 86400 - 1) else (t smod 86400, t sdiv 86400)) =
      (t mod 86400, t div 86400)"
    by (rule smod_fix_pair) simp
  have "(if D smod 146097 < 0 then (D smod 146097 + 146097, 5 + D sdiv 146097 - 1) else (D smod 146097, 5 + D sdiv 146097)) =
      (d0, 5 + ?q)"
    unfolding d0_def by (rule smod_fix_pair) simp
  note fix2 = this [unfolded fold [symmetric]]
  note steps = fix1 wd fix2 c(1) [unfolded n, unfolded fold [symmetric]] f(1) [unfolded n, unfolded fold [symmetric]] m y' tod
  have "datetime_tai t =
      (let z = (if d2 < 306 then 1 else 0) + g; tod = t mod 86400
       in \<lparr>hour = tod div 3600, minute = tod mod 3600 div 60, sec = tod mod 3600 mod 60,
           wday = (t div 86400 + 4) mod 7, mday = (10 * g + 5 - 306 * m) div 10 + 1,
           yday = (if m \<ge> 10 then z - 306 else z + 59), mon = (if m \<ge> 10 then m - 10 else m + 2),
           year = (if m \<ge> 10 then ?x + f + 1 else ?x + f) - 1900\<rparr>)"
    unfolding datetime_tai_def
    by (simp only: steps Let_def prod.case cong: let_weak_cong prod.case_cong_weak)
      (cases "10 \<le> m"; simp add: fold m)
  then show ?thesis
    by (intro that [OF parts [unfolded D_def]]) (simp only: Let_def f(6) m_def march_year_def D_def)
qed

section \<open>The way back\<close>

lemma month_day:
  fixes g :: int
  assumes "0 \<le> g" "g \<le> 365"
  defines "m \<equiv> (10 * g + 5) div 306"
  shows "0 \<le> m" and "m \<le> 11" and "0 \<le> (10 * g + 5 - 306 * m) div 10" and "(10 * g + 5 - 306 * m) div 10 \<le> 30"
    and "((10 * g + 5 - 306 * m) div 10 * 10 + 5 + 306 * m) div 10 = g"
proof -
  define r where "r = 10 * g + 5 - 306 * m"
  define u where "u = r mod 10"
  have r: "0 \<le> r" "r < 306" "r = 10 * (r div 10) + u" "0 \<le> u" "u < 10"
    by (auto simp: r_def m_def u_def minus_mult_div_eq_mod)
  have "u \<noteq> 0"
  proof
    assume "u = 0"
    then have "10 * (r div 10) = 2 * (5 * g + 2 - 153 * m) + 1"
      using r(3) by (simp add: r_def)
    then have "even (2 * (5 * g + 2 - 153 * m) + 1)"
      by (metis dvd_mult2 even_numeral)
    then show False by simp
  qed
  then have "r div 10 * 10 + 5 + 306 * m = 10 * g + (10 - u)" "0 \<le> 10 - u" "10 - u < 10"
    using r by (auto simp: r_def)
  then have "(r div 10 * 10 + 5 + 306 * m) div 10 = g"
    by (metis int_div_pos_eq)
  then show "((10 * g + 5 - 306 * m) div 10 * 10 + 5 + 306 * m) div 10 = g"
    by (simp add: r_def)
  show "0 \<le> m" "m \<le> 11"
    using assms(1,2) by (auto simp: m_def)
  show "0 \<le> (10 * g + 5 - 306 * m) div 10" "(10 * g + 5 - 306 * m) div 10 \<le> 30"
    using r(1,2) unfolding r_def [symmetric] by auto
qed

lemma four_parts_back:
  fixes x :: int
  assumes "0 \<le> x" "0 \<le> f" "f \<le> 3" "g = per \<Longrightarrow> f = 3"
  shows "(if g = per then (4 * x + f - 3, 4 * per) else (4 * x + f, g + per * ((4 * x + f) smod 4))) =
           (if g = per then 4 * x else 4 * x + f, per * f + g)"
proof -
  have "(4 * x + f) smod 4 = f"
    using assms by (simp add: smod_nonneg)
  with assms(4) show ?thesis by auto
qed

lemma datetime_untai_parts:
  assumes parts: "day_parts D q c y f g" and q: "0 \<le> 5 + q" and m: "m = (10 * g + 5) div 306"
    and yr: "year dt = (if m \<ge> 10 then march_year q c y f + 1 else march_year q c y f) - 1900"
    and mo: "mon dt = (if m \<ge> 10 then m - 10 else m + 2)" and md: "mday dt = (10 * g + 5 - 306 * m) div 10 + 1"
  shows "datetime_untai dt = (((D + 11017) * 24 + hour dt) * 60 + minute dt) * 60 + sec dt"
proof -
  define B where "B = (5 + q) * 4 + c"
  define A where "A = B * 25 + y"
  have bounds: "0 \<le> c" "c \<le> 3" "0 \<le> y" "y \<le> 24" "0 \<le> f" "f \<le> 3" "0 \<le> g" "g \<le> 365"
    and last: "g = 365 \<Longrightarrow> f = 3" "1461 * y + 365 * f + g = 36524 \<Longrightarrow> c = 3"
    and D: "D = 146097 * q + 36524 * c + 1461 * y + 365 * f + g"
    using parts by (auto simp: day_parts_def)
  note md_lemma = month_day [OF bounds(7,8), folded m]
  have B: "0 \<le> B" and A: "0 \<le> A"
    using q bounds by (simp_all add: A_def B_def)
  have my: "march_year q c y f = 4 * A + f"
    by (simp add: march_year_def A_def B_def)
  have start: "(if mon dt \<ge> 2 then (mon dt - 2, year dt + 1900) else (mon dt + 10, year dt + 1900 - 1)) = (m, 4 * A + f)"
    using md_lemma(1,2) by (auto simp: mo yr my)
  have day: "((mday dt - 1) * 10 + 5 + 306 * m) sdiv 10 = g"
    using md_lemma by (simp add: md sdiv_nonneg)
  have n: "4 * 365 = (1460 :: int)" by simp
  have s1: "(if g = 365 then (4 * A + f - 3, 1460) else (4 * A + f, g + 365 * ((4 * A + f) smod 4))) =
      (if g = 365 then 4 * A else 4 * A + f, 365 * f + g)"
    using four_parts_back [of A f g 365, OF A bounds(5,6) last(1)] unfolding n .
  have s2: "(if g = 365 then 4 * A else 4 * A + f) sdiv 4 = A"
    using A bounds by (simp add: sdiv_nonneg)
  have s3: "A smod 25 = y" "A sdiv 25 = B"
    using A B bounds by (simp_all add: sdiv_nonneg smod_nonneg) (simp_all add: A_def)
  define d1 where "d1 = 365 * f + g + 1461 * y"
  have d1: "d1 = 36524 \<Longrightarrow> c = 3"
    using last(2) by (simp add: d1_def)
  have s4: "(if d1 = 36524 then (B - 3, 146096) else (B, d1 + 36524 * (B smod 4))) =
      (if d1 = 36524 then B - c else B, 36524 * c + d1)"
    using four_parts_back [of "5 + q" c d1 36524] q bounds d1 by (auto simp: B_def algebra_simps)
  have s5: "(if d1 = 36524 then B - c else B) sdiv 4 = 5 + q"
  proof -
    have "(4 * (5 + q) + c) div 4 = 5 + q"
      if "c < 4" using that bounds(1) by (intro int_div_pos_eq) auto
    then show ?thesis
      using B bounds q d1 by (auto simp: sdiv_nonneg B_def mult.commute)
  qed
  have "datetime_untai dt = (((36524 * c + d1 + 146097 * (5 + q - 5) + 11017) * 24 + hour dt) * 60 + minute dt) * 60 + sec dt"
    unfolding datetime_untai_def
    by (simp only: Let_def start prod.case day s1 s2 s3 d1_def [symmetric] s4 s5 cong: let_weak_cong prod.case_cong_weak)
  also have "36524 * c + d1 + 146097 * (5 + q - 5) = D"
    by (simp add: D d1_def)
  finally show ?thesis .
qed

lemma day_parts_q:
  assumes "day_parts D q c y f g" "- 730485 \<le> D"
  shows "0 \<le> 5 + q"
  using assms by (auto simp: day_parts_def)

lemma seconds_of_day: "((d * 24 + t mod 86400 div 3600) * 60 + t mod 86400 mod 3600 div 60) * 60 + t mod 86400 mod 3600 mod 60 =
    86400 * d + t mod (86400 :: int)"
  by presburger

text \<open>The times from March 1 of the year 0 on.\<close>

lemma datetime_untai_tai:
  assumes "- 62162035200 \<le> t"
  shows "datetime_untai (datetime_tai t) = t"
proof -
  obtain q c y f g where parts: "day_parts (t div 86400 - 11017) q c y f g"
    and dt: "datetime_tai t =
      (let m = (10 * g + 5) div 306; z = (if 365 * f + g < 306 then 1 else 0) + g; tod = t mod 86400
       in \<lparr>hour = tod div 3600, minute = tod mod 3600 div 60, sec = tod mod 3600 mod 60,
           wday = (t div 86400 + 4) mod 7, mday = (10 * g + 5 - 306 * m) div 10 + 1,
           yday = (if m \<ge> 10 then z - 306 else z + 59), mon = (if m \<ge> 10 then m - 10 else m + 2),
           year = (if m \<ge> 10 then march_year q c y f + 1 else march_year q c y f) - 1900\<rparr>)"
    by (rule datetime_tai_parts)
  have "- 730485 \<le> t div 86400 - 11017"
    using assms by simp
  from day_parts_q [OF parts this] have q: "0 \<le> 5 + q" .
  have "datetime_untai (datetime_tai t) =
      (((t div 86400 - 11017 + 11017) * 24 + t mod 86400 div 3600) * 60 + t mod 86400 mod 3600 div 60) * 60 + t mod 86400 mod 3600 mod 60"
    by (subst datetime_untai_parts [OF parts q refl]) (simp_all add: dt Let_def)
  then show ?thesis
    by (simp only: diff_add_cancel seconds_of_day mult_div_mod_eq)
qed

section \<open>The calendar\<close>

text \<open>
  The proleptic Gregorian calendar, by its rules: \<open>days_to_year y\<close> counts the days from January 1 of the year 1 to
  January 1 of \<open>y\<close>; months are numbered from 0.
\<close>

definition leap :: "int \<Rightarrow> bool" where
  "leap y \<longleftrightarrow> y mod 4 = 0 \<and> (y mod 100 \<noteq> 0 \<or> y mod 400 = 0)"

definition month_length :: "int \<Rightarrow> nat \<Rightarrow> int" where
  "month_length y m = (if m = 1 then if leap y then 29 else 28 else if m \<in> {3, 5, 8, 10} then 30 else 31)"

fun days_to_month :: "int \<Rightarrow> nat \<Rightarrow> int" where
  "days_to_month y 0 = 0"
| "days_to_month y (Suc m) = days_to_month y m + month_length y m"

definition days_to_year :: "int \<Rightarrow> int" where
  "days_to_year y = 365 * (y - 1) + (y - 1) div 4 - (y - 1) div 100 + (y - 1) div 400"

lemma div_pred:
  fixes y k :: int
  assumes "0 < k"
  shows "y div k = (y - 1) div k + (if y mod k = 0 then 1 else 0)"
proof (cases "y mod k = 0")
  case True
  have "(y - 1) div k = y div k - 1"
  proof (rule int_div_pos_eq)
    show "y - 1 = k * (y div k - 1) + (k - 1)"
      using True mult_div_mod_eq [of k y] by (simp add: right_diff_distrib)
  qed (use assms in auto)
  with True show ?thesis by simp
next
  case False
  have "(y - 1) div k = y div k"
  proof (rule int_div_pos_eq)
    show "y - 1 = k * (y div k) + (y mod k - 1)"
      using mult_div_mod_eq [of k y] by simp
    show "0 \<le> y mod k - 1" "y mod k - 1 < k"
      using False assms pos_mod_sign [OF assms, of y] pos_mod_bound [OF assms, of y] by linarith+
  qed
  with False show ?thesis by simp
qed

lemma days_to_year_Suc: "days_to_year (y + 1) = days_to_year y + days_to_month y 12"
proof -
  have m: "days_to_month y 12 = 365 + (if leap y then 1 else 0)"
    by (simp add: numeral_eq_Suc month_length_def)
  have d: "y mod 4 = 0" if "y mod 100 = 0"
    using that mod_mod_cancel [of 4 100 y] by simp
  have d': "y mod 100 = 0" if "y mod 400 = 0"
    using that mod_mod_cancel [of 100 400 y] by simp
  have s: "y div k - (y - 1) div k = (if y mod k = 0 then 1 else 0)" if "0 < k" for k :: int
    using div_pred [OF that, of y] by linarith
  have "days_to_year (y + 1) - days_to_year y =
      365 + (y div 4 - (y - 1) div 4) - (y div 100 - (y - 1) div 100) + (y div 400 - (y - 1) div 400)"
    unfolding days_to_year_def add_diff_cancel_right' by (simp only: right_diff_distrib)
  also have "\<dots> = 365 + (if y mod 4 = 0 then 1 else 0) - (if y mod 100 = 0 then 1 else 0) + (if y mod 400 = 0 then 1 else 0)"
    by (simp only: s)
  also have "\<dots> = days_to_month y 12"
    unfolding m leap_def using d d' by (cases "y mod 100 = 0"; cases "y mod 400 = 0"; cases "y mod 4 = 0") simp_all
  finally show ?thesis by linarith
qed

definition valid_date :: "datetime \<Rightarrow> bool" where
  "valid_date dt \<longleftrightarrow>
     0 \<le> mon dt \<and> mon dt \<le> 11 \<and> 1 \<le> mday dt \<and> mday dt \<le> month_length (year dt + 1900) (nat (mon dt))"

definition calendar_day :: "datetime \<Rightarrow> int" where
  "calendar_day dt = days_to_year (year dt + 1900) - days_to_year 1970 + days_to_month (year dt + 1900) (nat (mon dt)) + mday dt - 1"

text \<open>The years from March on, counted in the parts of the code.\<close>

lemma days_to_march_year:
  assumes "0 \<le> c" "c \<le> 3" "0 \<le> y" "y \<le> 24" "0 \<le> f" "f \<le> 3"
  shows "days_to_year (march_year q c y f + 1) = 146097 * (5 + q) + 36524 * c + 1461 * y + 365 * f"
proof -
  let ?Y = "march_year q c y f"
  have "?Y div 4 = ((5 + q) * 4 + c) * 25 + y"
    using assms by (intro int_div_pos_eq [of _ _ _ f]) (auto simp: march_year_def)
  moreover have "?Y div 100 = (5 + q) * 4 + c"
    using assms by (intro int_div_pos_eq [of _ _ _ "4 * y + f"]) (auto simp: march_year_def)
  moreover have "?Y div 400 = 5 + q"
    using assms by (intro int_div_pos_eq [of _ _ _ "100 * c + 4 * y + f"]) (auto simp: march_year_def)
  ultimately have "days_to_year (?Y + 1) = 365 * ?Y + (((5 + q) * 4 + c) * 25 + y) - ((5 + q) * 4 + c) + (5 + q)"
    by (simp only: days_to_year_def add_diff_cancel_right')
  then show ?thesis by (simp add: march_year_def)
qed

lemma leap_march_year:
  assumes "0 \<le> c" "c \<le> 3" "0 \<le> y" "y \<le> 24" "0 \<le> f" "f \<le> 3"
  shows "leap (march_year q c y f + 1) \<longleftrightarrow> f = 3 \<and> (y \<noteq> 24 \<or> c = 3)"
proof -
  let ?Y = "march_year q c y f"
  have "days_to_year (?Y + 1 + 1) = days_to_year (?Y + 1) + 365 + (if leap (?Y + 1) then 1 else 0)"
    unfolding days_to_year_Suc by (simp add: numeral_eq_Suc month_length_def)
  moreover have "days_to_year (?Y + 1 + 1) - days_to_year (?Y + 1) = 365 + (if f = 3 \<and> (y \<noteq> 24 \<or> c = 3) then 1 else 0)"
  proof -
    consider "f < 3" | "f = 3" "y < 24" | "f = 3" "y = 24" "c < 3" | "f = 3" "y = 24" "c = 3"
      using assms by linarith
    then show ?thesis
    proof cases
      case 1
      have "?Y + 1 = march_year q c y (f + 1)" by (simp add: march_year_def)
      with 1 assms days_to_march_year [of c y "f + 1" q] days_to_march_year [of c y f q] show ?thesis by simp
    next
      case 2
      have "?Y + 1 = march_year q c (y + 1) 0" using 2 by (simp add: march_year_def)
      with 2 assms days_to_march_year [of c "y + 1" 0 q] days_to_march_year [of c y f q] show ?thesis by simp
    next
      case 3
      have "?Y + 1 = march_year q (c + 1) 0 0" using 3 by (simp add: march_year_def)
      with 3 assms days_to_march_year [of "c + 1" 0 0 q] days_to_march_year [of c y f q] show ?thesis by simp
    next
      case 4
      have "?Y + 1 = march_year (q + 1) 0 0 0" using 4 by (simp add: march_year_def)
      with 4 assms days_to_march_year [of 0 0 0 "q + 1"] days_to_march_year [of c y f q] show ?thesis by simp
    qed
  qed
  ultimately show ?thesis by (simp split: if_splits)
qed

lemma leap_this_march_year:
  assumes "0 \<le> c" "c \<le> 3" "0 \<le> y" "y \<le> 24" "0 \<le> f" "f \<le> 3"
  shows "leap (march_year q c y f) \<longleftrightarrow> f = 0 \<and> (y \<noteq> 0 \<or> c = 0)"
proof -
  consider "0 < f" | "f = 0" "0 < y" | "f = 0" "y = 0" "0 < c" | "f = 0" "y = 0" "c = 0"
    using assms by linarith
  then show ?thesis
  proof cases
    case 1
    have "march_year q c y f = march_year q c y (f - 1) + 1" by (simp add: march_year_def)
    with 1 assms leap_march_year [of c y "f - 1" q] show ?thesis by simp
  next
    case 2
    have "march_year q c y f = march_year q c (y - 1) 3 + 1" using 2 by (simp add: march_year_def)
    with 2 assms leap_march_year [of c "y - 1" 3 q] show ?thesis by simp
  next
    case 3
    have "march_year q c y f = march_year q (c - 1) 24 3 + 1" using 3 by (simp add: march_year_def)
    with 3 assms leap_march_year [of "c - 1" 24 3 q] show ?thesis by simp
  next
    case 4
    have "march_year q c y f = march_year (q - 1) 3 24 3 + 1" using 4 by (simp add: march_year_def)
    with 4 assms leap_march_year [of 3 24 3 "q - 1"] show ?thesis by simp
  qed
qed

text \<open>The months from March on: the first day of each in the count \<open>g\<close>.\<close>

lemma march_months:
  fixes g :: int
  assumes "0 \<le> g" "g \<le> 365"
  obtains k s e where "(10 * g + 5) div 306 = k"
    and "(k, s, e) \<in> {(0, 0, 30), (1, 31, 60), (2, 61, 91), (3, 92, 121), (4, 122, 152), (5, 153, 183), (6, 184, 213),
           (7, 214, 244), (8, 245, 274), (9, 275, 305), (10, 306, 336), (11, 337, 365)}"
    and "(10 * g + 5 - 306 * k) div 10 = g - s" and "s \<le> g" and "g \<le> e"
proof -
  note use = that
  have go: thesis if k: "(k, s, e) \<in> {(0, 0, 30), (1, 31, 60), (2, 61, 91), (3, 92, 121), (4, 122, 152), (5, 153, 183), (6, 184, 213),
           (7, 214, 244), (8, 245, 274), (9, 275, 305), (10, 306, 336), (11, 337, 365)}" and b: "s \<le> g" "g \<le> e" for k s e :: int
  proof (rule use)
    show "(10 * g + 5) div 306 = k"
      using k b by (intro int_div_pos_eq [of _ _ _ "10 * g + 5 - 306 * k"]) auto
    show "(10 * g + 5 - 306 * k) div 10 = g - s"
      using k by (intro int_div_pos_eq [of _ _ _ "10 * s + 5 - 306 * k"]) auto
  qed fact+
  have "g \<le> 30 \<or> 31 \<le> g \<and> g \<le> 60 \<or> 61 \<le> g \<and> g \<le> 91 \<or> 92 \<le> g \<and> g \<le> 121 \<or> 122 \<le> g \<and> g \<le> 152 \<or> 153 \<le> g \<and> g \<le> 183 \<or>
    184 \<le> g \<and> g \<le> 213 \<or> 214 \<le> g \<and> g \<le> 244 \<or> 245 \<le> g \<and> g \<le> 274 \<or> 275 \<le> g \<and> g \<le> 305 \<or> 306 \<le> g \<and> g \<le> 336 \<or> 337 \<le> g"
    by linarith
  then show thesis
    using assms go [of 0 0 30] go [of 1 31 60] go [of 2 61 91] go [of 3 92 121] go [of 4 122 152] go [of 5 153 183]
      go [of 6 184 213] go [of 7 214 244] go [of 8 245 274] go [of 9 275 305] go [of 10 306 336] go [of 11 337 365]
    by (simp only: insert_iff prod.inject) auto
qed

text \<open>Days to a month, from March on, without and with the leap day.\<close>

lemma days_to_month_values:
  "days_to_month y 2 = 59 + (if leap y then 1 else 0)"
  "days_to_month y 3 = 90 + (if leap y then 1 else 0)"
  "days_to_month y 4 = 120 + (if leap y then 1 else 0)"
  "days_to_month y 5 = 151 + (if leap y then 1 else 0)"
  "days_to_month y 6 = 181 + (if leap y then 1 else 0)"
  "days_to_month y 7 = 212 + (if leap y then 1 else 0)"
  "days_to_month y 8 = 243 + (if leap y then 1 else 0)"
  "days_to_month y 9 = 273 + (if leap y then 1 else 0)"
  "days_to_month y 10 = 304 + (if leap y then 1 else 0)"
  "days_to_month y 11 = 334 + (if leap y then 1 else 0)"
  "days_to_month y 12 = 365 + (if leap y then 1 else 0)"
  "days_to_month y 1 = 31"
  by (simp_all add: eval_nat_numeral month_length_def)

lemma date_of_parts:
  assumes parts: "day_parts D q c y f g" and m: "m = (10 * g + 5) div 306"
    and yr: "year dt = (if m \<ge> 10 then march_year q c y f + 1 else march_year q c y f) - 1900"
    and mo: "mon dt = (if m \<ge> 10 then m - 10 else m + 2)" and md: "mday dt = (10 * g + 5 - 306 * m) div 10 + 1"
  shows "valid_date dt" and "calendar_day dt = D + 11017"
    and "days_to_month (year dt + 1900) (nat (mon dt)) + mday dt - 1 =
           (if m \<ge> 10 then g - 306 else g + 59 + (if leap (march_year q c y f) then 1 else 0))"
proof -
  have bounds: "0 \<le> c" "c \<le> 3" "0 \<le> y" "y \<le> 24" "0 \<le> f" "f \<le> 3"
    and g: "0 \<le> g" "g \<le> 365" and last: "g = 365 \<Longrightarrow> f = 3" "1461 * y + 365 * f + g = 36524 \<Longrightarrow> c = 3"
    and D: "D = 146097 * q + 36524 * c + 1461 * y + 365 * f + g"
    using parts by (auto simp: day_parts_def)
  obtain k s e where k: "m = k" "(10 * g + 5 - 306 * k) div 10 = g - s" "s \<le> g" "g \<le> e" and
    cases: "(k, s, e) \<in> {(0, 0, 30), (1, 31, 60), (2, 61, 91), (3, 92, 121), (4, 122, 152), (5, 153, 183), (6, 184, 213),
           (7, 214, 244), (8, 245, 274), (9, 275, 305), (10, 306, 336), (11, 337, 365)}"
    using march_months [OF g] unfolding m by metis
  let ?Y = "march_year q c y f"
  have years: "days_to_year (?Y + 1) = days_to_year ?Y + 365 + (if leap ?Y then 1 else 0)"
    unfolding days_to_year_Suc days_to_month_values by simp
  have "leap (?Y + 1)" if "g = 365"
    using last bounds that leap_march_year [OF bounds, of q] by auto
  then have feb: "leap (1 + ?Y) \<or> g \<le> 364"
    using g(2) by (auto simp: add.commute)
  have epoch: "days_to_year 1970 = 719162"
    by (simp add: days_to_year_def)
  have "valid_date dt \<and> days_to_month (year dt + 1900) (nat (mon dt)) + mday dt - 1 =
           (if m \<ge> 10 then g - 306 else g + 59 + (if leap ?Y then 1 else 0))"
    using cases k(2-4) feb unfolding valid_date_def yr mo md \<open>m = k\<close>
    by (elim insertE emptyE; clarsimp simp: days_to_month_values month_length_def)
  then show "valid_date dt" and ymd: "days_to_month (year dt + 1900) (nat (mon dt)) + mday dt - 1 =
           (if m \<ge> 10 then g - 306 else g + 59 + (if leap ?Y then 1 else 0))"
    by simp_all
  show "calendar_day dt = D + 11017"
    using ymd years days_to_march_year [OF bounds, of q] unfolding calendar_day_def D epoch add.commute [of ?Y 1]
    by (cases "m \<ge> 10") (simp_all add: yr)
qed

text \<open>The date of every time, and the day of the year in the 32-bit range.\<close>

lemma tai_calendar:
  shows "valid_date (datetime_tai t)" and "calendar_day (datetime_tai t) = t div 86400"
    and "wday (datetime_tai t) = (t div 86400 + 4) mod 7"
    and "hour (datetime_tai t) = t mod 86400 div 3600" and "minute (datetime_tai t) = t mod 3600 div 60"
    and "sec (datetime_tai t) = t mod 60"
    and "fits32 t \<Longrightarrow> yday (datetime_tai t) =
           days_to_month (year (datetime_tai t) + 1900) (nat (mon (datetime_tai t))) + mday (datetime_tai t) - 1"
proof -
  obtain q c y f g where parts: "day_parts (t div 86400 - 11017) q c y f g"
    and dt: "datetime_tai t =
      (let m = (10 * g + 5) div 306; z = (if 365 * f + g < 306 then 1 else 0) + g; tod = t mod 86400
       in \<lparr>hour = tod div 3600, minute = tod mod 3600 div 60, sec = tod mod 3600 mod 60,
           wday = (t div 86400 + 4) mod 7, mday = (10 * g + 5 - 306 * m) div 10 + 1,
           yday = (if m \<ge> 10 then z - 306 else z + 59), mon = (if m \<ge> 10 then m - 10 else m + 2),
           year = (if m \<ge> 10 then march_year q c y f + 1 else march_year q c y f) - 1900\<rparr>)"
    by (rule datetime_tai_parts)
  let ?m = "(10 * g + 5) div 306"
  note date = date_of_parts [OF parts refl, of "datetime_tai t"]
  have flds: "year (datetime_tai t) = (if ?m \<ge> 10 then march_year q c y f + 1 else march_year q c y f) - 1900"
    "mon (datetime_tai t) = (if ?m \<ge> 10 then ?m - 10 else ?m + 2)"
    "mday (datetime_tai t) = (10 * g + 5 - 306 * ?m) div 10 + 1"
    "yday (datetime_tai t) = (if ?m \<ge> 10 then (if 365 * f + g < 306 then 1 else 0) + g - 306
       else (if 365 * f + g < 306 then 1 else 0) + g + 59)"
    by (simp_all add: dt Let_def)
  show "valid_date (datetime_tai t)" "calendar_day (datetime_tai t) = t div 86400"
    using date [OF flds(1-3)] by simp_all
  show "wday (datetime_tai t) = (t div 86400 + 4) mod 7" "hour (datetime_tai t) = t mod 86400 div 3600"
    by (simp_all add: dt Let_def)
  show "minute (datetime_tai t) = t mod 3600 div 60" "sec (datetime_tai t) = t mod 60"
    by (simp_all add: dt Let_def mod_mod_cancel)
  assume fits: "fits32 t"
  have b: "0 \<le> c" "c \<le> 3" "0 \<le> y" "y \<le> 24" "0 \<le> f" "f \<le> 3" "0 \<le> g" "g \<le> 365"
    and D: "t div 86400 - 11017 = 146097 * q + 36524 * c + 1461 * y + 365 * f + g"
    and le: "1461 * y + 365 * f + g \<le> 36524"
    using parts by (auto simp: day_parts_def)
  have "- 24856 \<le> t div 86400" "t div 86400 \<le> 24855"
    using fits zdiv_mono1 [of "- 2147483648" t 86400] zdiv_mono1 [of t 2147483647 86400]
    by (simp_all add: fits32_def int_min_def int_max_def)
  then have q: "q = - 1 \<and> c = 3 \<and> 652 \<le> 1461 * y + 365 * f + g \<or> q = 0 \<and> c = 0"
    using b D le by (smt (verit))
  have m: "?m \<ge> 10 \<longleftrightarrow> 306 \<le> g"
    using b(7) by auto
  have "leap (march_year q c y f) \<longleftrightarrow> f = 0"
    unfolding leap_this_march_year [OF b(1-6)] using q b by auto
  moreover have "365 * f + g < 306 \<longleftrightarrow> f = 0 \<and> g < 306"
    using b by auto
  ultimately show "yday (datetime_tai t) =
      days_to_month (year (datetime_tai t) + 1900) (nat (mon (datetime_tai t))) + mday (datetime_tai t) - 1"
    unfolding date(3) [OF flds(1-3)] flds(4) m by auto
qed

section \<open>Properties\<close>

text \<open>\<open>datetime_untai\<close> gives back every 32-bit time that \<open>datetime_tai\<close> has taken apart.\<close>

theorem datetime_roundtrip:
  assumes "fits32 t"
  shows "datetime_untai (datetime_tai t) = t"
  using assms by (intro datetime_untai_tai) (simp add: fits32_def int_min_def)

theorem datetime_roundtrip_witness: "datetime_untai (datetime_tai (- 86401)) = - 86401"
  by (rule datetime_roundtrip) (simp add: fits32_def int_min_def int_max_def)

text \<open>\<open>datetime_tai\<close> computes the Gregorian date: a valid date whose day number since January 1, 1970 is the number
  of whole days of the time, with the weekday and the time of day.\<close>

theorem datetime_tai_gregorian:
  "valid_date (datetime_tai t) \<and> calendar_day (datetime_tai t) = t div 86400 \<and>
   wday (datetime_tai t) = (t div 86400 + 4) mod 7 \<and> hour (datetime_tai t) = t mod 86400 div 3600 \<and>
   minute (datetime_tai t) = t mod 3600 div 60 \<and> sec (datetime_tai t) = t mod 60"
  by (simp add: tai_calendar)

end
