(* ===== verification/Token822.thy ===== *)
theory Token822
  imports Bytes
begin

text \<open>
  The tokens of RFC 822 header fields: \<open>token822.c\<close>.

  A \<open>struct token822\<close> is a value of the datatype below; the kinds without text have no argument. A
  \<open>token822_alloc\<close> and a \<open>stralloc\<close> are the lists of their elements. \<open>mem n\<close> says whether a buffer can be
  made ready for \<open>n\<close> elements; a function that can fail returns the C result with the buffer after the call.
  The parser runs over its input twice, to count and to fill. Both passes are modelled, and so are the length that
  \<open>token822_unparse\<close> reserves and the folding of lines by moving bytes back.
  The lemmas: the second pass fills exactly the room that the first one counted, the unparser stays in its buffer,
  parsing what it wrote gives the tokens back (whatever the folding), and the rewriting of address lists keeps the
  tokens and their order.
\<close>

datatype token822 =
    ATOM (text_of: "char list") | QUOTE (text_of: "char list") | LITERAL (text_of: "char list")
  | COMMENT (text_of: "char list") | LEFT | RIGHT | AT | COMMA | SEMI | COLON | DOT

text \<open>The swaps of \<open>token822_reverse\<close>: \<open>for (i = 0;i + i < n;++i)\<close> with \<open>n\<close> the last index.\<close>

function token822_reverse_loop :: "nat \<Rightarrow> int \<Rightarrow> 'a list \<Rightarrow> 'a list" where
  "token822_reverse_loop i n ts =
     (if int i + int i < n
      then token822_reverse_loop (Suc i) n (ts[i := ts ! nat (n - int i), nat (n - int i) := ts ! i])
      else ts)"
  by pat_completeness auto
termination
  by (relation "measure (\<lambda>(i, n, ts). nat (n - int i - int i))") auto

definition token822_reverse :: "'a list \<Rightarrow> 'a list" where
  "token822_reverse ts = token822_reverse_loop 0 (int (length ts) - 1) ts"

section \<open>Writing tokens\<close>

definition is_word :: "token822 \<Rightarrow> bool" where
  "is_word t = (case t of ATOM _ \<Rightarrow> True | LITERAL _ \<Rightarrow> True | QUOTE _ \<Rightarrow> True | COMMENT _ \<Rightarrow> True | _ \<Rightarrow> False)"

text \<open>The type 0 before the first token is \<^term>\<open>None\<close>.\<close>

definition needspace :: "token822 option \<Rightarrow> token822 \<Rightarrow> bool" where
  "needspace t1 t2 =
     (case t1 of
        None \<Rightarrow> False
      | Some t1 \<Rightarrow>
          if t1 = COLON then True
          else if t1 = COMMA then True
          else if t2 = LEFT then True
          else is_word t1 \<and> is_word t2)"

definition atomok :: "char \<Rightarrow> bool" where
  "atomok ch = (ch \<notin> {SP, TAB, CR, LF, CHR ''('', CHR ''['', DQ, CHR ''<'', CHR ''>'', CHR '';'', CHR '':'',
                        CHR ''@'', CHR '','', CHR ''.''})"

text \<open>\<open>ch < 32\<close> compares a signed \<open>char\<close>, so it holds for the bytes above 127.\<close>

fun atomcheck_loop :: "char list \<Rightarrow> bool" where
  "atomcheck_loop [] = True"
| "atomcheck_loop (ch # s) =
     (if sch ch < 32 \<or> sch ch > 126 \<or> ch = CHR '')'' \<or> ch = CHR '']'' \<or> ch = BSL then False else atomcheck_loop s)"

definition atomcheck :: "token822 \<Rightarrow> token822" where
  "atomcheck t = (case t of ATOM s \<Rightarrow> if atomcheck_loop s then ATOM s else QUOTE s | t \<Rightarrow> t)"

definition needs_escape :: "char \<Rightarrow> bool" where
  "needs_escape ch = (ch \<in> {DQ, CHR ''['', CHR '']'', CHR ''('', CHR '')'', BSL, CR, LF})"

text \<open>The first pass of \<open>token822_unparse\<close>: the room to reserve.\<close>

fun escaped_len :: "char list \<Rightarrow> nat" where
  "escaped_len [] = 0"
| "escaped_len (ch # s) = (if needs_escape ch then 2 else 1) + escaped_len s"

definition token_len :: "token822 \<Rightarrow> nat" where
  "token_len t =
     (case t of
        COMMA \<Rightarrow> 3
      | ATOM s \<Rightarrow> escaped_len s
      | QUOTE s \<Rightarrow> 2 + escaped_len s
      | LITERAL s \<Rightarrow> 2 + escaped_len s
      | COMMENT s \<Rightarrow> 2 + escaped_len s
      | _ \<Rightarrow> 1)"

fun unparse_len :: "token822 option \<Rightarrow> token822 list \<Rightarrow> nat" where
  "unparse_len lasttype [] = 2"
| "unparse_len lasttype (t # ts) = (if needspace lasttype t then 1 else 0) + token_len t + unparse_len (Some t) ts"

text \<open>
  The second pass. Its state: the bytes up to \<open>s\<close>, and the offsets \<open>lineb\<close> (the start of the line) and \<open>linee\<close>
  (the last fold, once there is one). \<open>NSUW\<close> writes a fold after \<open>s\<close>; if the line up to here is short enough it takes
  back the fold before, moving what follows it two bytes down.
\<close>

record unparse_state =
  out :: "char list"
  lineb :: nat
  linee :: "nat option"

definition NSUW :: "nat \<Rightarrow> unparse_state \<Rightarrow> unparse_state" where
  "NSUW linelen u =
     (let s = length (out u);
          buf = out u @ [LF, SP]
      in case linee u of
           Some e \<Rightarrow>
             if linelen = 0 \<or> s - lineb u \<le> linelen
             then u\<lparr>out := take e buf @ drop (e + 2) buf, linee := Some (s - 2)\<rparr>
             else u\<lparr>out := buf, lineb := e + 1, linee := Some s\<rparr>
         | None \<Rightarrow> u\<lparr>out := buf, linee := Some s\<rparr>)"

fun escape :: "char list \<Rightarrow> char list" where
  "escape [] = []"
| "escape (ch # s) = (if needs_escape ch then [BSL, ch] else [ch]) @ escape s"

definition token_text :: "token822 \<Rightarrow> char list" where
  "token_text t =
     (case t of
        COMMA \<Rightarrow> '','' | AT \<Rightarrow> ''@'' | DOT \<Rightarrow> ''.'' | LEFT \<Rightarrow> ''<'' | RIGHT \<Rightarrow> ''>'' | SEMI \<Rightarrow> '';'' | COLON \<Rightarrow> '':''
      | ATOM s \<Rightarrow> escape s
      | QUOTE s \<Rightarrow> [DQ] @ escape s @ [DQ]
      | LITERAL s \<Rightarrow> ''['' @ escape s @ '']''
      | COMMENT s \<Rightarrow> ''('' @ escape s @ '')'')"

definition put_token :: "nat \<Rightarrow> token822 option \<Rightarrow> token822 \<Rightarrow> unparse_state \<Rightarrow> unparse_state" where
  "put_token linelen lasttype t u =
     (let u = (if needspace lasttype t then u\<lparr>out := out u @ [SP]\<rparr> else u);
          u = u\<lparr>out := out u @ token_text t\<rparr>
      in if t = COMMA then NSUW linelen u else u)"

fun unparse_loop :: "nat \<Rightarrow> token822 option \<Rightarrow> token822 list \<Rightarrow> unparse_state \<Rightarrow> unparse_state" where
  "unparse_loop linelen lasttype [] u = u"
| "unparse_loop linelen lasttype (t # ts) u = unparse_loop linelen (Some t) ts (put_token linelen lasttype t u)"

definition token822_unparse :: "(nat \<Rightarrow> bool) \<Rightarrow> char list \<Rightarrow> token822 list \<Rightarrow> nat \<Rightarrow> int \<times> char list" where
  "token822_unparse mem sa ta linelen =
     (if \<not> mem (unparse_len None ta) then (- 1, sa)
      else let u = NSUW linelen (unparse_loop linelen None ta \<lparr>out = [], lineb = 0, linee = None\<rparr>)
           in (1, butlast (out u)))"

text \<open>\<open>token822_unquote\<close>, which drops comments.\<close>

fun unquote_len :: "token822 list \<Rightarrow> nat" where
  "unquote_len [] = 0"
| "unquote_len (t # ts) =
     (case t of ATOM s \<Rightarrow> length s | QUOTE s \<Rightarrow> length s | LITERAL s \<Rightarrow> 2 + length s | COMMENT _ \<Rightarrow> 0 | _ \<Rightarrow> 1) +
     unquote_len ts"

fun unquote_loop :: "token822 list \<Rightarrow> char list" where
  "unquote_loop [] = []"
| "unquote_loop (t # ts) =
     (case t of
        COMMA \<Rightarrow> '','' | AT \<Rightarrow> ''@'' | DOT \<Rightarrow> ''.'' | LEFT \<Rightarrow> ''<'' | RIGHT \<Rightarrow> ''>'' | SEMI \<Rightarrow> '';'' | COLON \<Rightarrow> '':''
      | ATOM s \<Rightarrow> s
      | QUOTE s \<Rightarrow> s
      | LITERAL s \<Rightarrow> ''['' @ s @ '']''
      | COMMENT _ \<Rightarrow> []) @ unquote_loop ts"

definition token822_unquote :: "(nat \<Rightarrow> bool) \<Rightarrow> char list \<Rightarrow> token822 list \<Rightarrow> int \<times> char list" where
  "token822_unquote mem sa ta = (if \<not> mem (unquote_len ta) then (- 1, sa) else (1, unquote_loop ta))"

section \<open>Parsing\<close>

text \<open>The first pass: each counter returns the number of characters and what follows; \<^term>\<open>None\<close> is \<open>return 0\<close>.\<close>

fun count_comment :: "nat \<Rightarrow> char list \<Rightarrow> nat \<Rightarrow> (nat \<times> char list) option" where
  "count_comment 0 r n = Some (n, r)"
| "count_comment (Suc level) [] n = None"
| "count_comment (Suc level) (c # r) n =
     (if c = CHR ''('' then count_comment (Suc (Suc level)) r n
      else if c = CHR '')'' then count_comment level r n
      else if c = BSL then (case r of [] \<Rightarrow> None | _ # r' \<Rightarrow> count_comment (Suc level) r' (Suc n))
      else count_comment (Suc level) r (Suc n))"

fun count_quoted :: "char \<Rightarrow> char list \<Rightarrow> nat \<Rightarrow> (nat \<times> char list) option" where
  "count_quoted close [] n = None"
| "count_quoted close (c # r) n =
     (if c = close then Some (n, r)
      else if c = BSL then (case r of [] \<Rightarrow> None | _ # r' \<Rightarrow> count_quoted close r' (Suc n))
      else count_quoted close r (Suc n))"

fun count_atom :: "char list \<Rightarrow> nat \<Rightarrow> nat \<times> char list" where
  "count_atom [] n = (n, [])"
| "count_atom (c # r) n =
     (if c = BSL then
        case r of
          [] \<Rightarrow> (n, [])
        | _ # r' \<Rightarrow> (case r' of [] \<Rightarrow> (Suc n, []) | d # _ \<Rightarrow> if atomok d then count_atom r' (Suc n) else (Suc n, r'))
      else
        case r of [] \<Rightarrow> (Suc n, []) | d # _ \<Rightarrow> if atomok d then count_atom r (Suc n) else (Suc n, r))"

lemma count_comment_length: "count_comment level r n = Some (m, r') \<Longrightarrow> length r' \<le> length r"
  by (induction level r n rule: count_comment.induct) (force split: if_splits list.splits)+

lemma count_quoted_length: "count_quoted close r n = Some (m, r') \<Longrightarrow> length r' < length r"
  by (induction close r n rule: count_quoted.induct) (force split: if_splits list.splits)+

lemma count_atom_length: "count_atom r n = (m, r') \<Longrightarrow> r \<noteq> [] \<Longrightarrow> length r' < length r"
  by (induction r n rule: count_atom.induct) (force split: if_splits list.splits)+

function count_tokens :: "char list \<Rightarrow> nat \<Rightarrow> nat \<Rightarrow> (nat \<times> nat) option" where
  "count_tokens [] numtoks numchars = Some (numtoks, numchars)"
| "count_tokens (c # r) numtoks numchars =
     (if c \<in> {CHR ''.'', CHR '','', CHR ''@'', CHR ''<'', CHR ''>'', CHR '':'', CHR '';''}
        then count_tokens r (Suc numtoks) numchars
      else if c \<in> {SP, TAB, CR, LF} then count_tokens r numtoks numchars
      else if c \<in> {CHR '')'', CHR '']''} then None
      else if c = CHR ''('' then
        case count_comment 1 r numchars of
          None \<Rightarrow> None
        | Some (m, r') \<Rightarrow> count_tokens r' (Suc numtoks) m
      else if c = DQ then
        case count_quoted DQ r numchars of
          None \<Rightarrow> None
        | Some (m, r') \<Rightarrow> count_tokens r' (Suc numtoks) m
      else if c = CHR ''['' then
        case count_quoted (CHR '']'') r numchars of
          None \<Rightarrow> None
        | Some (m, r') \<Rightarrow> count_tokens r' (Suc numtoks) m
      else
        case count_atom (c # r) numchars of
          (m, r') \<Rightarrow> count_tokens r' (Suc numtoks) m)"
  by pat_completeness auto
termination
  by (relation "measure (\<lambda>(r, _). length r)")
    (auto dest!: count_comment_length count_quoted_length count_atom_length [OF sym] simp del: count_atom.simps)

text \<open>
  The second pass: each reader returns the text of the token and what follows. It never meets the end of the input
  inside a token, because the first pass has checked that; the equations for \<open>[]\<close> are there for completeness.
\<close>

fun fill_comment :: "nat \<Rightarrow> char list \<Rightarrow> char list \<times> char list" where
  "fill_comment 0 r = ([], r)"
| "fill_comment (Suc level) [] = ([], [])"
| "fill_comment (Suc level) (c # r) =
     (if c = CHR ''('' then fill_comment (Suc (Suc level)) r
      else if c = CHR '')'' then fill_comment level r
      else if c = BSL then
        case r of [] \<Rightarrow> ([], []) | d # r' \<Rightarrow> (case fill_comment (Suc level) r' of (s, q) \<Rightarrow> (d # s, q))
      else case fill_comment (Suc level) r of (s, q) \<Rightarrow> (c # s, q))"

fun fill_quoted :: "char \<Rightarrow> char list \<Rightarrow> char list \<times> char list" where
  "fill_quoted close [] = ([], [])"
| "fill_quoted close (c # r) =
     (if c = close then ([], r)
      else if c = BSL then
        case r of [] \<Rightarrow> ([], []) | d # r' \<Rightarrow> (case fill_quoted close r' of (s, q) \<Rightarrow> (d # s, q))
      else case fill_quoted close r of (s, q) \<Rightarrow> (c # s, q))"

fun fill_atom :: "char list \<Rightarrow> char list \<times> char list" where
  "fill_atom [] = ([], [])"
| "fill_atom (c # r) =
     (if c = BSL then
        case r of
          [] \<Rightarrow> ([], [])
        | x # r' \<Rightarrow>
            (case r' of
               [] \<Rightarrow> ([x], [])
             | d # _ \<Rightarrow> if atomok d then (case fill_atom r' of (s, q) \<Rightarrow> (x # s, q)) else ([x], r'))
      else
        case r of
          [] \<Rightarrow> ([c], [])
        | d # _ \<Rightarrow> if atomok d then (case fill_atom r of (s, q) \<Rightarrow> (c # s, q)) else ([c], r))"

lemma fill_comment_snd: "length (snd (fill_comment level r)) \<le> length r"
  by (induction level r rule: fill_comment.induct) (auto simp: case_prod_unfold le_SucI split: list.split)

lemma fill_quoted_snd: "length (snd (fill_quoted close r)) \<le> length r"
  by (induction close r rule: fill_quoted.induct) (auto simp: case_prod_unfold le_SucI split: list.split)

lemma fill_atom_snd: "r \<noteq> [] \<Longrightarrow> length (snd (fill_atom r)) < length r"
proof (induction r rule: fill_atom.induct)
  case (2 c r)
  then show ?case
    by (subst fill_atom.simps) (auto simp: case_prod_unfold less_SucI simp del: fill_atom.simps split: list.split)
qed simp

lemma fill_comment_length: "fill_comment level r = (s, q) \<Longrightarrow> length q \<le> length r"
  using fill_comment_snd [of level r] by simp

lemma fill_quoted_length: "fill_quoted close r = (s, q) \<Longrightarrow> length q \<le> length r"
  using fill_quoted_snd [of close r] by simp

lemma fill_atom_length: "fill_atom r = (s, q) \<Longrightarrow> r \<noteq> [] \<Longrightarrow> length q < length r"
  using fill_atom_snd [of r] by simp

function fill_tokens :: "char list \<Rightarrow> token822 list" where
  "fill_tokens [] = []"
| "fill_tokens (c # r) =
     (if c = CHR ''.'' then DOT # fill_tokens r
      else if c = CHR '','' then COMMA # fill_tokens r
      else if c = CHR ''@'' then AT # fill_tokens r
      else if c = CHR ''<'' then LEFT # fill_tokens r
      else if c = CHR ''>'' then RIGHT # fill_tokens r
      else if c = CHR '':'' then COLON # fill_tokens r
      else if c = CHR '';'' then SEMI # fill_tokens r
      else if c \<in> {SP, TAB, CR, LF} then fill_tokens r
      else if c = CHR ''('' then (case fill_comment 1 r of (s, q) \<Rightarrow> COMMENT s # fill_tokens q)
      else if c = DQ then (case fill_quoted DQ r of (s, q) \<Rightarrow> QUOTE s # fill_tokens q)
      else if c = CHR ''['' then (case fill_quoted (CHR '']'') r of (s, q) \<Rightarrow> LITERAL s # fill_tokens q)
      else (case fill_atom (c # r) of (s, q) \<Rightarrow> atomcheck (ATOM s) # fill_tokens q))"
  by pat_completeness auto
termination
  by (relation "measure length")
    (auto dest!: fill_comment_length [OF sym] fill_quoted_length [OF sym] fill_atom_length [OF sym]
      simp del: fill_atom.simps)

definition token822_parse ::
  "(nat \<Rightarrow> bool) \<Rightarrow> token822 list \<Rightarrow> char list \<Rightarrow> int \<times> token822 list" where
  "token822_parse mem ta sa =
     (case count_tokens sa 0 0 of
        None \<Rightarrow> (0, ta)
      | Some (numtoks, numchars) \<Rightarrow>
          if \<not> mem numtoks then (- 1, ta)
          else if \<not> mem numchars then (- 1, ta)
          else (1, fill_tokens sa))"

section \<open>Rewriting address lists\<close>

text \<open>
  \<open>token822_addrlist\<close> reads the tokens from right to left and collects its output in reverse. Here the tokens that are
  left come as a list whose head is \<open>t\<close>, the token under the pointer. \<open>Inl r\<close> is the return value \<open>r\<close> of a failure.
  The callback may change the address that it gets.
\<close>

definition token822_append :: "(nat \<Rightarrow> bool) \<Rightarrow> token822 list \<Rightarrow> token822 \<Rightarrow> token822 list option" where
  "token822_append mem ta t = (if mem (length ta + 1) then Some (ta @ [t]) else None)"

definition gotaddr ::
  "(nat \<Rightarrow> bool) \<Rightarrow> (token822 list \<Rightarrow> int \<times> token822 list) \<Rightarrow> token822 list \<Rightarrow> token822 list \<Rightarrow> token822 list option" where
  "gotaddr mem callback taout taaddr =
     (case callback taaddr of
        (r, taaddr) \<Rightarrow> if r \<noteq> 1 then None else if mem (length taout + length taaddr) then Some (taout @ taaddr) else None)"

text \<open>\<open>FLUSH\<close> and \<open>FLUSHCOMMA\<close>, after which the address is empty.\<close>

definition FLUSH ::
  "(nat \<Rightarrow> bool) \<Rightarrow> (token822 list \<Rightarrow> int \<times> token822 list) \<Rightarrow> token822 list \<Rightarrow> token822 list \<Rightarrow> token822 list option" where
  "FLUSH mem callback taout taaddr = (if taaddr \<noteq> [] then gotaddr mem callback taout taaddr else Some taout)"

definition FLUSHCOMMA ::
  "(nat \<Rightarrow> bool) \<Rightarrow> (token822 list \<Rightarrow> int \<times> token822 list) \<Rightarrow> token822 list \<Rightarrow> token822 list \<Rightarrow> token822 list option" where
  "FLUSHCOMMA mem callback taout taaddr =
     (if taaddr \<noteq> []
      then case gotaddr mem callback taout taaddr of None \<Rightarrow> None | Some taout \<Rightarrow> token822_append mem taout COMMA
      else Some taout)"

text \<open>\<open>while ((t >= beginning) && P) OUTLEFT\<close>, and the same with \<open>ADDRLEFT\<close>.\<close>

fun left_while :: "(nat \<Rightarrow> bool) \<Rightarrow> (token822 \<Rightarrow> bool) \<Rightarrow> token822 list \<Rightarrow> token822 list \<Rightarrow> (token822 list \<times> token822 list) option" where
  "left_while mem P ta [] = Some (ta, [])"
| "left_while mem P ta (t # ts) =
     (if P t then case token822_append mem ta t of None \<Rightarrow> None | Some ta \<Rightarrow> left_while mem P ta ts else Some (ta, t # ts))"

lemma left_while_length: "left_while mem P ta ts = Some (ta', ts') \<Longrightarrow> length ts' \<le> length ts"
  by (induction mem P ta ts rule: left_while.induct) (force split: if_splits option.splits)+

text \<open>The kinds that may stand before \<open><\<close>.\<close>

definition is_phrase :: "token822 \<Rightarrow> bool" where
  "is_phrase t = (case t of COMMENT _ \<Rightarrow> True | ATOM _ \<Rightarrow> True | QUOTE _ \<Rightarrow> True | AT \<Rightarrow> True | DOT \<Rightarrow> True | _ \<Rightarrow> False)"

text \<open>The case \<open>TOKEN822_RIGHT\<close> after its \<open>FLUSHCOMMA\<close>: the output and the tokens that are left.\<close>

definition addrlist_right ::
  "(nat \<Rightarrow> bool) \<Rightarrow> (token822 list \<Rightarrow> int \<times> token822 list) \<Rightarrow> token822 list \<Rightarrow> token822 list \<Rightarrow>
   int + token822 list \<times> token822 list" where
  "addrlist_right mem callback taout ts =
     (case token822_append mem taout RIGHT of
        None \<Rightarrow> Inl (- 1)
      | Some taout \<Rightarrow>
     (case left_while mem (\<lambda>t. t \<noteq> LEFT) [] ts of
        None \<Rightarrow> Inl (- 1)
      | Some (taaddr, ts) \<Rightarrow>
     (case gotaddr mem callback taout taaddr of
        None \<Rightarrow> Inl (- 1)
      | Some taout \<Rightarrow>
     (case ts of
        [] \<Rightarrow> Inl 0
      | t # ts \<Rightarrow>
     (case token822_append mem taout t of
        None \<Rightarrow> Inl (- 1)
      | Some taout \<Rightarrow>
     (case left_while mem is_phrase taout ts of
        None \<Rightarrow> Inl (- 1)
      | Some r \<Rightarrow> Inr r))))))"

lemma addrlist_right_length: "addrlist_right mem callback taout ts = Inr (taout', ts') \<Longrightarrow> length ts' < Suc (length ts)"
  by (auto simp: addrlist_right_def dest!: left_while_length split: option.splits list.splits prod.splits)

text \<open>The main loop, with the output and the pending address at its end.\<close>

function addrlist_loop ::
  "(nat \<Rightarrow> bool) \<Rightarrow> (token822 list \<Rightarrow> int \<times> token822 list) \<Rightarrow> token822 list \<Rightarrow> token822 list \<Rightarrow> bool \<Rightarrow> bool \<Rightarrow>
   token822 list \<Rightarrow> int + token822 list \<times> token822 list" where
  "addrlist_loop mem callback taout taaddr ingroup wordok [] = Inr (taout, taaddr)"
| "addrlist_loop mem callback taout taaddr ingroup wordok (t # ts) =
     (case t of
        SEMI \<Rightarrow>
          (case FLUSHCOMMA mem callback taout taaddr of
             None \<Rightarrow> Inl (- 1)
           | Some taout \<Rightarrow>
               if ingroup then Inl 0
               else case token822_append mem taout t of
                      None \<Rightarrow> Inl (- 1)
                    | Some taout \<Rightarrow> addrlist_loop mem callback taout [] True True ts)
      | COLON \<Rightarrow>
          (case FLUSH mem callback taout taaddr of
             None \<Rightarrow> Inl (- 1)
           | Some taout \<Rightarrow>
               if \<not> ingroup then Inl 0
               else case token822_append mem taout t of
                 None \<Rightarrow> Inl (- 1)
               | Some taout \<Rightarrow>
                 (case left_while mem (\<lambda>t. t \<noteq> COMMA) taout ts of
                   None \<Rightarrow> Inl (- 1)
                 | Some (taout, []) \<Rightarrow> addrlist_loop mem callback taout [] False True []
                 | Some (taout, u # us) \<Rightarrow>
                     (case token822_append mem taout u of
                        None \<Rightarrow> Inl (- 1)
                      | Some taout \<Rightarrow> addrlist_loop mem callback taout [] False True us)))
      | RIGHT \<Rightarrow>
          (case FLUSHCOMMA mem callback taout taaddr of
             None \<Rightarrow> Inl (- 1)
           | Some taout \<Rightarrow>
               (case addrlist_right mem callback taout ts of
                  Inl r \<Rightarrow> Inl r
                | Inr (taout, ts') \<Rightarrow> addrlist_loop mem callback taout [] ingroup False ts'))
      | COMMENT _ \<Rightarrow>
          (case token822_append mem taout t of
             None \<Rightarrow> Inl (- 1)
           | Some taout \<Rightarrow> addrlist_loop mem callback taout taaddr ingroup wordok ts)
      | COMMA \<Rightarrow>
          (case FLUSH mem callback taout taaddr of
             None \<Rightarrow> Inl (- 1)
           | Some taout \<Rightarrow>
               (case token822_append mem taout t of
                  None \<Rightarrow> Inl (- 1)
                | Some taout \<Rightarrow> addrlist_loop mem callback taout [] ingroup True ts))
      | _ \<Rightarrow>
          if is_word t then
            (case (if \<not> wordok then map_option (\<lambda>taout. (taout, [])) (FLUSHCOMMA mem callback taout taaddr) else Some (taout, taaddr)) of
               None \<Rightarrow> Inl (- 1)
             | Some (taout, taaddr) \<Rightarrow>
                 (case token822_append mem taaddr t of
                    None \<Rightarrow> Inl (- 1)
                  | Some taaddr \<Rightarrow> addrlist_loop mem callback taout taaddr ingroup False ts))
          else
            (case token822_append mem taaddr t of
               None \<Rightarrow> Inl (- 1)
             | Some taaddr \<Rightarrow> addrlist_loop mem callback taout taaddr ingroup True ts))"
  by pat_completeness auto
termination
  by (relation "measure (\<lambda>(_, _, _, _, _, _, ts). length ts)")
    (auto dest!: addrlist_right_length left_while_length [OF sym] left_while_length)

definition token822_addrlist ::
  "(nat \<Rightarrow> bool) \<Rightarrow> (token822 list \<Rightarrow> int \<times> token822 list) \<Rightarrow> token822 list \<Rightarrow> int + token822 list" where
  "token822_addrlist mem callback ta =
     (if \<not> mem 1 then Inl (- 1)
      else case addrlist_loop mem callback [] [] False True (rev (drop 2 ta)) of
        Inl r \<Rightarrow> Inl r
      | Inr (taout, taaddr) \<Rightarrow>
     (case FLUSH mem callback taout taaddr of
        None \<Rightarrow> Inl (- 1)
      | Some taout \<Rightarrow>
     (case left_while mem (\<lambda>_. True) taout (rev (take 2 ta)) of
        None \<Rightarrow> Inl (- 1)
      | Some (taout, _) \<Rightarrow> Inr (token822_reverse taout))))"

section \<open>Reversal\<close>

declare token822_reverse_loop.simps [simp del]

lemma token822_reverse_loop_nth:
  assumes "n = int (length ts) - 1" and "i \<le> (length ts + 1) div 2"
    and "\<And>k. k < length ts \<Longrightarrow> ts ! k = (if k < i \<or> length ts - 1 - k < i then us ! (length ts - 1 - k) else us ! k)"
    and "length us = length ts"
  shows "token822_reverse_loop i n ts = rev us"
  using assms
proof (induction i n ts rule: token822_reverse_loop.induct)
  case (1 i n ts)
  show ?case
  proof (cases "int i + int i < n")
    case False
    then have *: "length ts - 1 - k \<le> k" if "i \<le> k" for k
      using 1(2) that by linarith
    have "ts ! k = us ! (length ts - 1 - k)" if k: "k < length ts" for k
    proof (cases "k < i \<or> length ts - 1 - k < i")
      case True
      with 1(4) [OF k] show ?thesis by simp
    next
      case not: False
      then have "k = length ts - 1 - k"
        using k False 1(2) by linarith
      with 1(4) [OF k] not show ?thesis by simp
    qed
    then have "ts = rev us"
      using 1(5) by (intro nth_equalityI) (simp_all add: rev_nth)
    then show ?thesis
      using False by (subst token822_reverse_loop.simps) simp
  next
    case True
    let ?j = "nat (n - int i)"
    let ?ts = "ts[i := ts ! ?j, ?j := ts ! i]"
    have j: "?j = length ts - 1 - i" "i < ?j" "?j < length ts"
      using True 1(2) by linarith+
    have "token822_reverse_loop (Suc i) n ?ts = rev us"
    proof (rule 1(1) [OF True])
      show "n = int (length ?ts) - 1" "length us = length ?ts" using 1(2,5) by simp_all
      show "Suc i \<le> (length ?ts + 1) div 2" using j by simp
      fix k assume k: "k < length ?ts"
      have ij: "ts ! i = us ! i" "ts ! ?j = us ! ?j"
        using 1(4) [of i] 1(4) [of ?j] j by auto
      consider "k = i" | "k = ?j" | "k \<noteq> i" "k \<noteq> ?j" by blast
      then show "?ts ! k = (if k < Suc i \<or> length ?ts - 1 - k < Suc i then us ! (length ?ts - 1 - k) else us ! k)"
      proof cases
        case 3
        then have "length ts - 1 - k \<noteq> i"
          using j k by simp
        then show ?thesis
          using 3 1(4) [of k] k by (auto simp: less_Suc_eq)
      qed (use ij j k in auto)
    qed
    then show ?thesis
      using True by (simp add: token822_reverse_loop.simps [of i n ts])
  qed
qed

lemma token822_reverse_rev: "token822_reverse ts = rev ts"
  unfolding token822_reverse_def by (rule token822_reverse_loop_nth) simp_all

section \<open>The two passes of the parser agree\<close>

lemma count_comment_fill:
  "count_comment level r n = Some (m, r') \<Longrightarrow> \<exists>s. fill_comment level r = (s, r') \<and> m = n + length s"
  by (induction level r n arbitrary: m r' rule: count_comment.induct) (fastforce split: if_splits list.splits)+

lemma count_quoted_fill:
  "count_quoted close r n = Some (m, r') \<Longrightarrow> \<exists>s. fill_quoted close r = (s, r') \<and> m = n + length s"
  by (induction close r n arbitrary: m r' rule: count_quoted.induct) (fastforce split: if_splits list.splits)+

declare count_atom.simps(2) [simp del] fill_atom.simps(2) [simp del]

lemma count_atom_fill:
  "count_atom r n = (n + length (fst (fill_atom r)), snd (fill_atom r))"
proof (induction r n rule: count_atom.induct)
  case (2 c r n)
  then show ?case
    by (subst count_atom.simps, subst (1 2) fill_atom.simps) (auto simp: case_prod_unfold split: list.split)
qed simp

text \<open>The length of the text of a token: its \<open>slen\<close>.\<close>

definition slen :: "token822 \<Rightarrow> nat" where
  "slen t = (case t of ATOM s \<Rightarrow> length s | QUOTE s \<Rightarrow> length s | LITERAL s \<Rightarrow> length s | COMMENT s \<Rightarrow> length s | _ \<Rightarrow> 0)"

lemma slen_simps [simp]:
  "slen (ATOM s) = length s" "slen (QUOTE s) = length s" "slen (LITERAL s) = length s" "slen (COMMENT s) = length s"
  "slen LEFT = 0" "slen RIGHT = 0" "slen AT = 0" "slen COMMA = 0" "slen SEMI = 0" "slen COLON = 0" "slen DOT = 0"
  by (simp_all add: slen_def)

lemma slen_atomcheck [simp]: "slen (atomcheck t) = slen t"
  by (simp add: atomcheck_def split: token822.split)

lemma count_tokens_fill:
  "count_tokens r n m = Some (n', m') \<Longrightarrow>
     n' = n + length (fill_tokens r) \<and> m' = m + sum_list (map slen (fill_tokens r))"
proof (induction r n m rule: count_tokens.induct)
  case (1 n m)
  then show ?case by simp
next
  case (2 c r n m)
  let ?special = "{CHR ''.'', CHR '','', CHR ''@'', CHR ''<'', CHR ''>'', CHR '':'', CHR '';''}"
  note IH = 2(1-6) and got = 2(7)
  consider (punct) "c \<in> ?special" | (space) "c \<in> {SP, TAB, CR, LF}" | (bad) "c \<in> {CHR '')'', CHR '']''}"
    | (comment) "c = CHR ''(''" | (quoted) "c = DQ" | (literal) "c = CHR ''[''"
    | (atom) "c \<notin> ?special" "c \<notin> {SP, TAB, CR, LF}" "c \<notin> {CHR '')'', CHR '']''}" "c \<noteq> CHR ''(''" "c \<noteq> DQ" "c \<noteq> CHR ''[''"
    by argo
  then show ?case
  proof cases
    case punct
    then have "count_tokens (c # r) n m = count_tokens r (Suc n) m" and "\<exists>x. fill_tokens (c # r) = x # fill_tokens r \<and> slen x = 0"
      by auto
    with IH(1) [OF punct] got show ?thesis by auto
  next
    case space
    then have "count_tokens (c # r) n m = count_tokens r n m" and "fill_tokens (c # r) = fill_tokens r"
      and ns: "c \<notin> ?special"
      by auto
    with IH(2) [OF ns space] got show ?thesis by argo
  next
    case bad
    then have "count_tokens (c # r) n m = None" by auto
    from trans [OF this [symmetric] got] show ?thesis by simp
  next
    case comment
    then obtain k r' where k: "count_comment 1 r m = Some (k, r')" "count_tokens r' (Suc n) k = Some (n', m')"
      using got by (auto split: option.splits)
    with IH(3) [of "(k, r')" k r'] count_comment_fill [OF k(1)] comment show ?thesis by auto
  next
    case quoted
    then obtain k r' where k: "count_quoted DQ r m = Some (k, r')" "count_tokens r' (Suc n) k = Some (n', m')"
      using got by (auto split: option.splits)
    with IH(4) [of "(k, r')" k r'] count_quoted_fill [OF k(1)] quoted show ?thesis by auto
  next
    case literal
    then obtain k r' where k: "count_quoted (CHR '']'') r m = Some (k, r')" "count_tokens r' (Suc n) k = Some (n', m')"
      using got by (auto split: option.splits)
    with IH(5) [of "(k, r')" k r'] count_quoted_fill [OF k(1)] literal show ?thesis by auto
  next
    case atom
    let ?a = "fill_atom (c # r)"
    have "count_tokens (snd ?a) (Suc n) (m + length (fst ?a)) = Some (n', m')"
      using got atom by (simp add: count_atom_fill)
    from IH(6) [OF atom(1-6) _ this] show ?thesis
      using atom by (simp add: count_atom_fill case_prod_unfold)
  qed
qed

section \<open>Reading back what was written\<close>

definition blank :: "char list \<Rightarrow> bool" where
  "blank w \<longleftrightarrow> set w \<subseteq> {SP, TAB, CR, LF}"

lemma blank_simps [simp]:
  "blank []" "blank (c # w) \<longleftrightarrow> c \<in> {SP, TAB, CR, LF} \<and> blank w" "blank (v @ w) \<longleftrightarrow> blank v \<and> blank w"
  by (auto simp: blank_def)

text \<open>\<open>rendered l ts s\<close>: the bytes \<open>s\<close> show the tokens \<open>ts\<close> after a token \<open>l\<close>, with blanks between them.\<close>

inductive rendered :: "token822 option \<Rightarrow> token822 list \<Rightarrow> char list \<Rightarrow> bool" where
  rendered_end: "blank w \<Longrightarrow> rendered l [] w"
| rendered_token: "blank w \<Longrightarrow> (needspace l t \<Longrightarrow> w \<noteq> []) \<Longrightarrow> rendered (Some t) ts s \<Longrightarrow> rendered l (t # ts) (w @ token_text t @ s)"

inductive_simps rendered_Nil [simp]: "rendered l [] s"
inductive_cases rendered_ConsE: "rendered l (t # ts) s"

definition last_token :: "token822 option \<Rightarrow> token822 list \<Rightarrow> token822 option" where
  "last_token l ts = (if ts = [] then l else Some (last ts))"

lemma last_token_simps [simp]:
  "last_token l [] = l" "last_token l (t # ts) = last_token (Some t) ts" "last_token l (ts @ [t]) = Some t"
  by (simp_all add: last_token_def)

lemma rendered_blank: "rendered l ts s \<Longrightarrow> blank w \<Longrightarrow> rendered l ts (w @ s)"
proof (induction rule: rendered.induct)
  case (rendered_token v l t ts s)
  then have "rendered l (t # ts) ((w @ v) @ token_text t @ s)"
    by (intro rendered.rendered_token) auto
  then show ?case by simp
qed simp

lemma rendered_append:
  "rendered l ts1 s1 \<Longrightarrow> rendered (last_token l ts1) ts2 s2 \<Longrightarrow> rendered l (ts1 @ ts2) (s1 @ s2)"
proof (induction rule: rendered.induct)
  case (rendered_end w l)
  then show ?case by (simp add: rendered_blank)
next
  case (rendered_token w l t ts s)
  then show ?case by (simp add: rendered.rendered_token)
qed

lemma rendered_add:
  "rendered l ts s \<Longrightarrow> rendered l (ts @ [t]) (s @ (if needspace (last_token l ts) t then [SP] else []) @ token_text t)"
proof (rule rendered_append)
  show "rendered (last_token l ts) [t] ((if needspace (last_token l ts) t then [SP] else []) @ token_text t)"
    using rendered_token [of "if needspace (last_token l ts) t then [SP] else []" "last_token l ts" t "[]" "[]"]
    by (auto split: if_splits)
qed

lemma needspace_comma [simp]: "needspace (Some COMMA) t"
  by (simp add: needspace_def)

text \<open>
  The invariant of the unparser: it has rendered its tokens, and what stands before the last fold ends with a comma, so
  that the fold may be taken back.
\<close>

definition folded :: "token822 list \<Rightarrow> char list \<Rightarrow> nat \<Rightarrow> bool" where
  "folded ts s e \<longleftrightarrow> (\<exists>ts1 ts2 A B. ts = ts1 @ ts2 \<and> last_token None ts1 = Some COMMA \<and> s = A @ [LF, SP] @ B \<and> length A = e \<and>
     rendered None ts1 A \<and> rendered (Some COMMA) ts2 B)"

lemma foldedI:
  "rendered None ts1 A \<Longrightarrow> last_token None ts1 = Some COMMA \<Longrightarrow> rendered (Some COMMA) ts2 B \<Longrightarrow>
   folded (ts1 @ ts2) (A @ [LF, SP] @ B) (length A)"
  unfolding folded_def by blast

lemma foldedE:
  assumes "folded ts s e"
  obtains ts1 ts2 A B where "ts = ts1 @ ts2" "last_token None ts1 = Some COMMA" "s = A @ [LF, SP] @ B" "e = length A"
    "rendered None ts1 A" "rendered (Some COMMA) ts2 B"
  using assms unfolding folded_def by blast

definition unparse_inv :: "token822 list \<Rightarrow> unparse_state \<Rightarrow> bool" where
  "unparse_inv ts u \<longleftrightarrow>
     rendered None ts (out u) \<and> (case linee u of None \<Rightarrow> True | Some e \<Rightarrow> folded ts (out u) e)"

lemma folded_add:
  assumes "folded ts s e"
  shows "folded (ts @ [t]) (s @ (if needspace (last_token None ts) t then [SP] else []) @ token_text t) e"
  using assms
proof (rule foldedE)
  fix ts1 ts2 A B
  assume *: "ts = ts1 @ ts2" "last_token None ts1 = Some COMMA" "s = A @ [LF, SP] @ B" "e = length A"
    "rendered None ts1 A" "rendered (Some COMMA) ts2 B"
  have "last_token None ts = last_token (Some COMMA) ts2"
    using *(1,2) by (auto simp: last_token_def split: if_splits)
  then show ?thesis
    using foldedI [OF *(5,2) rendered_add [OF *(6), of t]] by (simp add: *)
qed

lemma unparse_inv_add:
  "unparse_inv ts u \<Longrightarrow>
   unparse_inv (ts @ [t]) (u\<lparr>out := out u @ (if needspace (last_token None ts) t then [SP] else []) @ token_text t\<rparr>)"
  unfolding unparse_inv_def using rendered_add folded_add
  by (cases "linee u") (simp_all del: append_assoc)

lemma NSUW_rendered:
  assumes "unparse_inv ts u"
  obtains X where "out (NSUW n u) = X @ [LF, SP]" and "rendered None ts X"
    and "linee (NSUW n u) = Some (length X)"
proof (cases "linee u")
  case None
  with assms show ?thesis
    by (intro that [of "out u"]) (auto simp: NSUW_def unparse_inv_def Let_def)
next
  case (Some e)
  with assms have r: "rendered None ts (out u)" and "folded ts (out u) e"
    by (auto simp: unparse_inv_def)
  from this(2) obtain ts1 ts2 A B where *: "ts = ts1 @ ts2" "last_token None ts1 = Some COMMA" "out u = A @ [LF, SP] @ B" "e = length A"
    "rendered None ts1 A" "rendered (Some COMMA) ts2 B"
    by (rule foldedE)
  then have AB: "rendered None ts (A @ B)"
    using * by (simp add: rendered_append)
  show ?thesis
  proof (cases "n = 0 \<or> length (out u) - lineb u \<le> n")
    case True
    with Some * AB show ?thesis
      by (intro that [of "A @ B"]) (auto simp: NSUW_def Let_def)
  next
    case False
    with Some r show ?thesis
      by (intro that [of "out u"]) (auto simp: NSUW_def Let_def)
  qed
qed

lemma NSUW_inv:
  assumes "unparse_inv ts u" and "last_token None ts = Some COMMA"
  shows "unparse_inv ts (NSUW n u)"
proof (rule NSUW_rendered [OF assms(1), of n])
  fix X
  assume *: "out (NSUW n u) = X @ [LF, SP]" "rendered None ts X" "linee (NSUW n u) = Some (length X)"
  have "rendered None (ts @ []) (X @ [LF, SP])"
    using *(2) by (intro rendered_append) auto
  moreover have "folded ts (X @ [LF, SP]) (length X)"
    using foldedI [OF *(2) assms(2), of "[]" "[]"] by simp
  ultimately show ?thesis
    using * by (simp add: unparse_inv_def)
qed

lemma put_token_inv:
  assumes "unparse_inv ts u"
  shows "unparse_inv (ts @ [t]) (put_token n (last_token None ts) t u)"
proof -
  let ?u = "u\<lparr>out := out u @ (if needspace (last_token None ts) t then [SP] else []) @ token_text t\<rparr>"
  have "put_token n (last_token None ts) t u = (if t = COMMA then NSUW n ?u else ?u)"
    by (simp add: put_token_def Let_def)
  then show ?thesis
    using unparse_inv_add [OF assms, of t] NSUW_inv [of "ts @ [t]" ?u] by (cases "t = COMMA") simp_all
qed

lemma unparse_loop_inv:
  "unparse_inv ts u \<Longrightarrow> unparse_inv (ts @ ts') (unparse_loop n (last_token None ts) ts' u)"
proof (induction ts' arbitrary: ts u)
  case (Cons t ts')
  from Cons.IH [OF put_token_inv [OF Cons.prems, of t n]] show ?case by simp
qed simp

lemma unparse_rendered:
  "mem (unparse_len None ta) \<Longrightarrow> \<exists>s. token822_unparse mem sa ta n = (1, s) \<and> rendered None ta s"
proof -
  assume mem: "mem (unparse_len None ta)"
  let ?u = "\<lparr>out = [], lineb = 0, linee = None\<rparr>"
  have "unparse_inv [] ?u"
    by (simp add: unparse_inv_def)
  from unparse_loop_inv [OF this, of ta n] have "unparse_inv ta (unparse_loop n None ta ?u)" by simp
  then obtain X where X: "out (NSUW n (unparse_loop n None ta ?u)) = X @ [LF, SP]" "rendered None ta X"
    using NSUW_rendered [of ta _ n] by blast
  have "rendered None (ta @ []) (X @ [LF])"
    using X(2) by (intro rendered_append) auto
  with X mem show ?thesis
    by (simp add: token822_unparse_def Let_def butlast_append)
qed

text \<open>The tokens that can be told apart again: an atom is a non-empty string of the characters that RFC 822 allows in it.\<close>

definition atom_char :: "char \<Rightarrow> bool" where
  "atom_char c \<longleftrightarrow> atomok c \<and> c \<notin> {CHR '')'', CHR '']'', BSL} \<and> 32 \<le> sch c \<and> sch c \<le> 126"

definition wf_token :: "token822 \<Rightarrow> bool" where
  "wf_token t = (case t of ATOM s \<Rightarrow> s \<noteq> [] \<and> (\<forall>c \<in> set s. atom_char c) | _ \<Rightarrow> True)"

lemma atomcheck_atom: "\<forall>c \<in> set s. atom_char c \<Longrightarrow> atomcheck (ATOM s) = ATOM s"
proof -
  assume "\<forall>c \<in> set s. atom_char c"
  then have "atomcheck_loop s"
    by (induction s) (auto simp: atom_char_def)
  then show ?thesis by (simp add: atomcheck_def)
qed

lemma atom_char_not_escaped: "atom_char c \<Longrightarrow> \<not> needs_escape c"
  by (auto simp: atom_char_def atomok_def needs_escape_def)

lemma escape_atom: "\<forall>c \<in> set s. atom_char c \<Longrightarrow> escape s = s"
  by (induction s) (simp_all add: atom_char_not_escaped)

lemma fill_atom_plain:
  "s \<noteq> [] \<Longrightarrow> \<forall>c \<in> set s. atom_char c \<Longrightarrow> r = [] \<or> \<not> atomok (hd r) \<Longrightarrow> fill_atom (s @ r) = (s, r)"
proof (induction s)
  case (Cons c s)
  have c: "c \<noteq> BSL"
    using Cons.prems(2) by (auto simp: atom_char_def)
  show ?case
  proof (cases s)
    case Nil
    then show ?thesis
      using c Cons.prems(3) by (cases r) (simp_all add: fill_atom.simps(2))
  next
    case s: (Cons d s')
    then have "atomok d" "fill_atom (s @ r) = (s, r)"
      using Cons by (auto simp: atom_char_def)
    then show ?thesis
      using c s by (simp add: fill_atom.simps(2) [of c])
  qed
qed simp

lemma fill_quoted_escape:
  assumes "close = DQ \<or> close = CHR '']''"
  shows "fill_quoted close (escape s @ close # r) = (s, r)"
proof -
  have "needs_escape close" "needs_escape BSL"
    using assms by (auto simp: needs_escape_def)
  moreover have "close \<noteq> BSL"
    using assms by auto
  ultimately show ?thesis
    by (induction s) auto
qed

lemma fill_comment_escape: "fill_comment 1 (escape s @ CHR '')'' # r) = (s, r)"
  by (induction s) (auto simp: needs_escape_def)

lemma count_quoted_escape:
  assumes "close = DQ \<or> close = CHR '']''"
  shows "count_quoted close (escape s @ close # r) n = Some (n + length s, r)"
proof -
  have "needs_escape close" "needs_escape BSL"
    using assms by (auto simp: needs_escape_def)
  moreover have "close \<noteq> BSL"
    using assms by auto
  ultimately show ?thesis
    by (induction s arbitrary: n) auto
qed

lemma count_comment_escape: "count_comment 1 (escape s @ CHR '')'' # r) n = Some (n + length s, r)"
  by (induction s arbitrary: n) (auto simp: needs_escape_def)

text \<open>A token is read back when an atom is followed by nothing that would continue it.\<close>

lemma read_atom:
  assumes "s \<noteq> []" "\<forall>c \<in> set s. atom_char c" "r = [] \<or> \<not> atomok (hd r)"
  shows "fill_tokens (s @ r) = ATOM s # fill_tokens r"
    and "count_tokens (s @ r) n m = count_tokens r (Suc n) (m + length s)"
proof -
  obtain c s' where s: "s = c # s'" using assms(1) by (cases s) auto
  have "atom_char c" using assms(2) s by simp
  then have c: "c \<noteq> CHR ''.''" "c \<noteq> CHR '',''" "c \<noteq> CHR ''@''" "c \<noteq> CHR ''<''" "c \<noteq> CHR ''>''" "c \<noteq> CHR '':''" "c \<noteq> CHR '';''"
    "c \<noteq> SP" "c \<noteq> TAB" "c \<noteq> CR" "c \<noteq> LF" "c \<noteq> CHR '')''" "c \<noteq> CHR '']''" "c \<noteq> CHR ''(''" "c \<noteq> DQ" "c \<noteq> CHR ''[''"
    by (auto simp: atom_char_def atomok_def)
  have f: "fill_atom (c # (s' @ r)) = (c # s', r)"
    using fill_atom_plain [OF assms] s by simp
  then show "fill_tokens (s @ r) = ATOM s # fill_tokens r"
    using c assms(2) by (simp add: s atomcheck_atom)
  show "count_tokens (s @ r) n m = count_tokens r (Suc n) (m + length s)"
    using c f by (simp add: s count_atom_fill)
qed

lemma read_token:
  assumes "wf_token t" and "case t of ATOM _ \<Rightarrow> r = [] \<or> \<not> atomok (hd r) | _ \<Rightarrow> True"
  shows "fill_tokens (token_text t @ r) = t # fill_tokens r"
    and "count_tokens (token_text t @ r) n m = count_tokens r (Suc n) (m + slen t)"
  using assms
  by (cases t; simp add: token_text_def wf_token_def escape_atom read_atom fill_quoted_escape fill_comment_escape [simplified]
      count_quoted_escape count_comment_escape [simplified])+

lemma read_blank:
  assumes "blank w"
  shows "fill_tokens (w @ r) = fill_tokens r" and "count_tokens (w @ r) n m = count_tokens r n m"
  using assms by (induction w) auto

lemma rendered_hd:
  assumes "rendered (Some t) ts s" and "is_word t"
  shows "s = [] \<or> \<not> atomok (hd s)"
proof -
  have blank_hd: "w \<noteq> [] \<Longrightarrow> blank w \<Longrightarrow> \<not> atomok (hd w)" for w
    by (cases w) (auto simp: atomok_def)
  show ?thesis
    using assms(1)
  proof cases
    case rendered_end
    then show ?thesis using blank_hd by blast
  next
    case (rendered_token w u ts' s')
    show ?thesis
    proof (cases "w = []")
      case True
      then have "\<not> needspace (Some t) u" using rendered_token by blast
      then have "\<not> is_word u"
        using assms(2) by (auto simp: needspace_def split: if_splits)
      then show ?thesis
        using True rendered_token(2) by (cases u) (auto simp: token_text_def is_word_def atomok_def)
    next
      case False
      then show ?thesis using blank_hd rendered_token by simp
    qed
  qed
qed

lemma read_rendered:
  "rendered l ts s \<Longrightarrow> \<forall>t \<in> set ts. wf_token t \<Longrightarrow>
     fill_tokens s = ts \<and> count_tokens s n m = Some (n + length ts, m + sum_list (map slen ts))"
proof (induction arbitrary: n m rule: rendered.induct)
  case (rendered_end w l)
  then show ?case using read_blank [of w "[]"] by simp
next
  case (rendered_token w l t ts s)
  have "case t of ATOM _ \<Rightarrow> s = [] \<or> \<not> atomok (hd s) | _ \<Rightarrow> True"
    using rendered_hd [OF rendered_token(3)] by (cases t) (auto simp: is_word_def)
  moreover have "wf_token t" using rendered_token.prems by simp
  ultimately show ?case
    using rendered_token read_blank [of w] read_token [of t s] by (simp add: add.assoc)
qed

section \<open>Room in the buffers\<close>

lemma length_escape: "length (escape s) = escaped_len s"
  by (induction s) auto

lemma length_token_text: "length (token_text t) + (if t = COMMA then 2 else 0) = token_len t"
  by (cases t) (simp_all add: token_text_def token_len_def length_escape)

lemma length_NSUW: "length (out (NSUW n u)) \<le> length (out u) + 2"
  by (auto simp: NSUW_def Let_def split: option.split)

lemma length_put_token:
  "length (out (put_token n l t u)) \<le> length (out u) + (if needspace l t then 1 else 0) + token_len t"
  using length_token_text [of t] length_NSUW [of n]
  by (auto simp: put_token_def Let_def) (metis (no_types, lifting) add.assoc add_Suc_right length_Cons length_append
      unparse_state.select_convs(1) unparse_state.surjective unparse_state.update_convs(1))+

lemma length_unparse_loop:
  "length (out (unparse_loop n l ts1 u)) + 2 \<le> length (out u) + unparse_len l (ts1 @ ts2)"
proof (induction ts1 arbitrary: l u)
  case Nil
  have "2 \<le> unparse_len l ts2"
    by (induction l ts2 rule: unparse_len.induct) auto
  then show ?case by simp
next
  case (Cons t ts1)
  show ?case
    using Cons.IH [of "Some t" "put_token n l t u"] length_put_token [of n l t u] by simp
qed

lemma length_unquote_loop: "length (unquote_loop ts) = unquote_len ts"
  by (induction ts) (simp_all split: token822.split)

section \<open>Address lists\<close>

text \<open>The tokens that \<open>token822_addrlist\<close> may not drop, add or reorder; it moves comments and adds commas.\<close>

definition keeps :: "token822 \<Rightarrow> bool" where
  "keeps t = (case t of COMMA \<Rightarrow> False | COMMENT _ \<Rightarrow> False | _ \<Rightarrow> True)"

abbreviation kept :: "token822 list \<Rightarrow> token822 list" where
  "kept ts \<equiv> filter keeps ts"

definition faithful_callback :: "(token822 list \<Rightarrow> int \<times> token822 list) \<Rightarrow> bool" where
  "faithful_callback callback \<longleftrightarrow> (\<forall>addr. kept (snd (callback addr)) = kept addr)"

lemma token822_append_Some: "token822_append mem ta t = Some ta' \<Longrightarrow> ta' = ta @ [t]"
  by (simp add: token822_append_def split: if_splits)

lemma gotaddr_kept:
  "gotaddr mem cb taout taaddr = Some r \<Longrightarrow> faithful_callback cb \<Longrightarrow> kept r = kept taout @ kept taaddr"
  unfolding gotaddr_def faithful_callback_def by (cases "cb taaddr") (auto split: if_splits dest: spec [of _ taaddr])

lemma FLUSH_kept:
  "FLUSH mem cb taout taaddr = Some r \<Longrightarrow> faithful_callback cb \<Longrightarrow> kept r = kept taout @ kept taaddr"
  by (auto simp: FLUSH_def gotaddr_kept split: if_splits)

lemma FLUSHCOMMA_kept:
  "FLUSHCOMMA mem cb taout taaddr = Some r \<Longrightarrow> faithful_callback cb \<Longrightarrow> kept r = kept taout @ kept taaddr"
  by (auto simp: FLUSHCOMMA_def gotaddr_kept keeps_def dest!: token822_append_Some split: if_splits option.splits)

lemma left_while_append: "left_while mem P ta ts = Some (ta', ts') \<Longrightarrow> ta' @ ts' = ta @ ts"
  by (induction mem P ta ts rule: left_while.induct) (auto dest!: token822_append_Some split: if_splits option.splits)

lemma left_while_all: "left_while mem (\<lambda>_. True) ta ts = Some (ta', ts') \<Longrightarrow> ta' = ta @ ts"
  by (induction mem "\<lambda>_ :: token822. True" ta ts rule: left_while.induct)
    (auto dest!: token822_append_Some split: if_splits option.splits)

lemma left_while_kept: "left_while mem P ta ts = Some (ta', ts') \<Longrightarrow> kept ta' @ kept ts' = kept ta @ kept ts"
  by (metis left_while_append filter_append)

lemma addrlist_right_kept:
  assumes "addrlist_right mem cb taout ts = Inr (taout', ts')" and "faithful_callback cb"
  shows "kept taout' @ kept ts' = kept taout @ RIGHT # kept ts"
proof -
  obtain o1 addr u us o2 o3 where *: "token822_append mem taout RIGHT = Some o1"
    "left_while mem (\<lambda>t. t \<noteq> LEFT) [] ts = Some (addr, u # us)" "gotaddr mem cb o1 addr = Some o2"
    "left_while mem is_phrase o3 us = Some (taout', ts')" and o3: "token822_append mem o2 u = Some o3"
    using assms(1) by (auto simp: addrlist_right_def split: option.splits list.splits)
  have "kept taout' @ kept ts' = kept (o2 @ [u]) @ kept us"
    using left_while_kept [OF *(4)] token822_append_Some [OF o3] by simp
  also have "\<dots> = kept o1 @ kept addr @ kept (u # us)"
    using gotaddr_kept [OF *(3) assms(2)] by simp
  also have "\<dots> = kept o1 @ kept ts"
    using left_while_kept [OF *(2)] by simp
  finally show ?thesis
    using token822_append_Some [OF *(1)] by (simp add: keeps_def)
qed

declare addrlist_loop.simps(2) [simp del]

lemma case_pair_InrE:
  "(case f of None \<Rightarrow> Inl e | Some (x, y) \<Rightarrow> g x y) = Inr z \<Longrightarrow> (\<And>x y. f = Some (x, y) \<Longrightarrow> g x y = Inr z \<Longrightarrow> P) \<Longrightarrow> P"
  by (cases f) auto

lemma case_InrE:
  "(case f of None \<Rightarrow> Inl e | Some x \<Rightarrow> g x) = Inr z \<Longrightarrow> (\<And>x. f = Some x \<Longrightarrow> g x = Inr z \<Longrightarrow> P) \<Longrightarrow> P"
  by (cases f) auto

lemma addrlist_loop_kept:
  assumes "faithful_callback cb"
  shows "addrlist_loop mem cb taout taaddr ingroup wordok ts = Inr (taout', taaddr') \<Longrightarrow>
   kept taout' @ kept taaddr' = kept taout @ kept taaddr @ kept ts"
proof (induction "length ts" arbitrary: taout taaddr ingroup wordok ts rule: less_induct)
  case less
  note flush = FLUSH_kept [OF _ assms] FLUSHCOMMA_kept [OF _ assms]
  show ?case
  proof (cases ts)
    case Nil
    with less.prems show ?thesis by simp
  next
    case (Cons t us)
    note run = less.prems [unfolded Cons addrlist_loop.simps(2)]
    have IH: "kept taout' @ kept taaddr' = kept o1 @ kept a1 @ kept vs"
      if "addrlist_loop mem cb o1 a1 g w vs = Inr (taout', taaddr')" "length vs \<le> length us" for o1 a1 g w vs
      using less.hyps [OF _ that(1)] that(2) Cons by simp
    have word: ?thesis if "t = ATOM s \<or> t = QUOTE s \<or> t = LITERAL s" for s
    proof -
      have w: "is_word t" "keeps t" using that by (auto simp: is_word_def keeps_def)
      let ?f = "if \<not> wordok then map_option (\<lambda>taout. (taout, [])) (FLUSHCOMMA mem cb taout taaddr) else Some (taout, taaddr)"
      have "(case ?f of None \<Rightarrow> Inl (- 1) | Some (taout, taaddr) \<Rightarrow>
          (case token822_append mem taaddr t of
             None \<Rightarrow> Inl (- 1)
           | Some taaddr \<Rightarrow> addrlist_loop mem cb taout taaddr ingroup False us)) = Inr (taout', taaddr')"
        using run w(1) that by (elim disjE) (simp_all only: token822.case if_True)
      then obtain o1 a1 a2 where *: "?f = Some (o1, a1)" and **: "token822_append mem a1 t = Some a2"
        "addrlist_loop mem cb o1 a2 ingroup False us = Inr (taout', taaddr')"
        by (elim case_pair_InrE case_InrE)
      have "kept o1 @ kept a1 = kept taout @ kept taaddr"
        using * flush(2) by (auto split: if_splits)
      then show ?thesis
        using IH [OF **(2)] token822_append_Some [OF **(1)] w(2) by (simp add: Cons)
    qed
    have punct: ?thesis if "t = LEFT \<or> t = AT \<or> t = DOT"
    proof -
      have "\<not> is_word t" "keeps t" using that by (auto simp: is_word_def keeps_def)
      have "(case token822_append mem taaddr t of None \<Rightarrow> Inl (- 1)
          | Some a2 \<Rightarrow> addrlist_loop mem cb taout a2 ingroup True us) = Inr (taout', taaddr')"
        using run \<open>\<not> is_word t\<close> that by (elim disjE) (simp_all only: token822.case if_False)
      then obtain a2 where *: "token822_append mem taaddr t = Some a2"
        "addrlist_loop mem cb taout a2 ingroup True us = Inr (taout', taaddr')"
        by (auto split: option.splits)
      show ?thesis
        using IH [OF *(2)] token822_append_Some [OF *(1)] \<open>keeps t\<close> by (simp add: Cons)
    qed
    show ?thesis
    proof (cases t)
      case RIGHT
      with run obtain o1 o2 vs where *: "FLUSHCOMMA mem cb taout taaddr = Some o1" "addrlist_right mem cb o1 us = Inr (o2, vs)"
        "addrlist_loop mem cb o2 [] ingroup False vs = Inr (taout', taaddr')"
        by (auto split: option.splits sum.splits)
      show ?thesis
        using IH [OF *(3)] addrlist_right_length [OF *(2)] addrlist_right_kept [OF *(2) assms] flush(2) [OF *(1)]
        by (simp add: Cons RIGHT keeps_def)
    next
      case SEMI
      with run obtain o1 o2 where *: "FLUSHCOMMA mem cb taout taaddr = Some o1" "token822_append mem o1 SEMI = Some o2"
        "addrlist_loop mem cb o2 [] True True us = Inr (taout', taaddr')"
        by (auto split: option.splits if_splits)
      show ?thesis
        using IH [OF *(3)] token822_append_Some [OF *(2)] flush(2) [OF *(1)] by (simp add: Cons SEMI keeps_def)
    next
      case COLON
      with run obtain o1 o2 o3 vs where *: "FLUSH mem cb taout taaddr = Some o1" "token822_append mem o1 COLON = Some o2"
        "left_while mem (\<lambda>t. t \<noteq> COMMA) o2 us = Some (o3, vs)"
        and rest: "vs = [] \<and> addrlist_loop mem cb o3 [] False True [] = Inr (taout', taaddr') \<or>
          (\<exists>u ws o4. vs = u # ws \<and> token822_append mem o3 u = Some o4 \<and> addrlist_loop mem cb o4 [] False True ws = Inr (taout', taaddr'))"
        by (auto split: option.splits if_splits list.splits)
      have "kept taout' @ kept taaddr' = kept o3 @ kept vs"
        using rest
      proof
        assume "vs = [] \<and> addrlist_loop mem cb o3 [] False True [] = Inr (taout', taaddr')"
        then show ?thesis by simp
      next
        assume "\<exists>u ws o4. vs = u # ws \<and> token822_append mem o3 u = Some o4 \<and> addrlist_loop mem cb o4 [] False True ws = Inr (taout', taaddr')"
        then obtain u ws o4 where r: "vs = u # ws" "token822_append mem o3 u = Some o4"
          "addrlist_loop mem cb o4 [] False True ws = Inr (taout', taaddr')" by blast
        show ?thesis
          using IH [OF r(3)] r(1) left_while_length [OF *(3)] token822_append_Some [OF r(2)] by simp
      qed
      then show ?thesis
        using left_while_kept [OF *(3)] token822_append_Some [OF *(2)] flush(1) [OF *(1)] by (simp add: Cons COLON keeps_def)
    next
      case COMMA
      with run obtain o1 o2 where *: "FLUSH mem cb taout taaddr = Some o1" "token822_append mem o1 COMMA = Some o2"
        "addrlist_loop mem cb o2 [] ingroup True us = Inr (taout', taaddr')"
        by (auto split: option.splits if_splits)
      show ?thesis
        using IH [OF *(3)] token822_append_Some [OF *(2)] flush(1) [OF *(1)] by (simp add: Cons COMMA keeps_def)
    next
      case (COMMENT s)
      with run obtain o2 where *: "token822_append mem taout t = Some o2"
        "addrlist_loop mem cb o2 taaddr ingroup wordok us = Inr (taout', taaddr')"
        by (auto split: option.splits if_splits)
      show ?thesis
        using IH [OF *(2)] token822_append_Some [OF *(1)] by (simp add: Cons COMMENT keeps_def)
    qed (use word punct in auto)
  qed
qed
lemma addrlist_kept:
  assumes "token822_addrlist mem cb ta = Inr ta'" and cb: "faithful_callback cb"
  shows "kept ta' = kept ta"
proof -
  obtain o1 a1 o2 o3 v where *: "addrlist_loop mem cb [] [] False True (rev (drop 2 ta)) = Inr (o1, a1)"
    "FLUSH mem cb o1 a1 = Some o2" "left_while mem (\<lambda>_. True) o2 (rev (take 2 ta)) = Some (o3, v)" "ta' = rev o3"
    using assms(1) by (auto simp: token822_addrlist_def token822_reverse_rev split: if_splits sum.splits option.splits)
  have "kept o3 = kept o1 @ kept a1 @ kept (rev (take 2 ta))"
    using left_while_all [OF *(3)] FLUSH_kept [OF *(2) cb] by simp
  also have "\<dots> = kept (rev (drop 2 ta) @ rev (take 2 ta))"
    using addrlist_loop_kept [OF cb *(1)] by simp
  finally show ?thesis
    by (simp add: *(4) rev_filter [symmetric] del: filter_append) (simp add: rev_append [symmetric] rev_filter del: rev_append)
qed

section \<open>Properties\<close>

text \<open>C40: Parsing what \<open>token822_unparse\<close> wrote, with any line length, gives the same tokens, as long as the text of each
  atom is a non-empty string of atom characters.\<close>

theorem token822_parse_unparse:
  assumes "\<And>n. mem n" and "\<forall>t \<in> set ta. wf_token t"
  shows "\<exists>s. token822_unparse mem sa ta linelen = (1, s) \<and> token822_parse mem ta' s = (1, ta)"
proof -
  obtain s where s: "token822_unparse mem sa ta linelen = (1, s)" "rendered None ta s"
    using unparse_rendered assms(1) by blast
  with read_rendered [OF s(2) assms(2)] assms(1) show ?thesis
    by (simp add: token822_parse_def)
qed

theorem token822_parse_unparse_witness:
  "\<exists>s. token822_unparse (\<lambda>_. True) [] [ATOM ''a'', COMMA, QUOTE [DQ], AT, COMMENT '')''] 3 = (1, s) \<and>
       token822_parse (\<lambda>_. True) [] s = (1, [ATOM ''a'', COMMA, QUOTE [DQ], AT, COMMENT '')''])"
  by (rule token822_parse_unparse) (auto simp: wf_token_def atom_char_def atomok_def sch_def)

text \<open>When the parser accepts, it has made room for exactly the tokens that it writes and for exactly the characters
  of their texts.\<close>

theorem token822_parse_exact:
  assumes "count_tokens sa 0 0 = Some (numtoks, numchars)"
  shows "length (fill_tokens sa) = numtoks \<and> sum_list (map slen (fill_tokens sa)) = numchars"
  using count_tokens_fill [OF assms] by simp

theorem token822_parse_exact_witness:
  "length (fill_tokens ''a.(b)@[c]'') = 5 \<and> sum_list (map slen (fill_tokens ''a.(b)@[c]'')) = 3"
  by (rule token822_parse_exact) (simp add: count_atom.simps(2) atomok_def eval_nat_numeral)

text \<open>While \<open>token822_unparse\<close> writes, its bytes and a fold after them always fit into the room it reserved.\<close>

theorem token822_unparse_fits:
  "length (out (unparse_loop linelen None ts1 \<lparr>out = [], lineb = 0, linee = None\<rparr>)) + 2 \<le> unparse_len None (ts1 @ ts2)"
  using length_unparse_loop [of linelen None ts1 "\<lparr>out = [], lineb = 0, linee = None\<rparr>" ts2] by simp

text \<open>If the callback keeps the tokens of an address, \<open>token822_addrlist\<close> keeps all tokens in their order, commas
  and comments apart.\<close>

theorem token822_addrlist_keeps:
  assumes "token822_addrlist mem callback ta = Inr ta'" and "faithful_callback callback"
  shows "filter keeps ta' = filter keeps ta"
  using assms by (rule addrlist_kept)

theorem token822_addrlist_keeps_witness:
  "filter keeps [ATOM ''to'', COLON, ATOM ''a'', COMMA, ATOM ''b''] = filter keeps [ATOM ''to'', COLON, ATOM ''a'', ATOM ''b'']"
proof (rule token822_addrlist_keeps [of "\<lambda>_. True" "\<lambda>a. (1, a)"])
  show "faithful_callback (\<lambda>a. (1, a))" by (simp add: faithful_callback_def)
  show "token822_addrlist (\<lambda>_. True) (\<lambda>a. (1, a)) [ATOM ''to'', COLON, ATOM ''a'', ATOM ''b''] =
      Inr [ATOM ''to'', COLON, ATOM ''a'', COMMA, ATOM ''b'']"
    by code_simp
qed

text \<open>
  An atom may hold any character that was written with a backslash, and \<open>token822_unparse\<close> writes it without: the
  address \<open>a\@b\<close> comes back as three tokens.
\<close>

lemma unparse_escaped_at:
  "token822_parse (\<lambda>_. True) [] [CHR ''a'', BSL, CHR ''@'', CHR ''b''] = (1, [ATOM ''a@b''])"
  "token822_unparse (\<lambda>_. True) [] [ATOM ''a@b''] 0 = (1, ''a@b'' @ [LF])"
  "token822_parse (\<lambda>_. True) [] (''a@b'' @ [LF]) = (1, [ATOM ''a'', AT, ATOM ''b''])"
  by code_simp+

end
