(* ===== verification/Header.thy ===== *)
theory Header
  imports Token822
begin

text \<open>
  Header fields and addresses as text: \<open>quote.c\<close> (quoting a local part) and \<open>hfield.c\<close> (recognising a field by its
  name). Buffers are lists; \<open>mem n\<close> says whether \<open>stralloc_ready\<close> gets room for \<open>n\<close> bytes.
  The lemmas: what \<open>quote\<close> writes is read back by the tokenizer of \<open>token822.c\<close> as the same local part, it fits into
  its room, and \<open>hfield_known\<close> finds the field whose name, up to case, stands before the colon.
\<close>

section \<open>Quoting\<close>

definition quote_ok :: "nat list" where
  "quote_ok =
    [0,0,0,0,0,0,0,0,0,0,0,0,0,0,0,0, 0,0,0,0,0,0,0,0,0,0,0,0,0,0,0,0,
     0,7,0,7,7,7,7,7,0,0,7,7,0,7,7,7, 7,7,7,7,7,7,7,7,7,7,0,0,0,7,0,7,
     0,7,7,7,7,7,7,7,7,7,7,7,7,7,7,7, 7,7,7,7,7,7,7,7,7,7,7,0,0,0,7,7,
     7,7,7,7,7,7,7,7,7,7,7,7,7,7,7,7, 7,7,7,7,7,7,7,7,7,7,7,7,7,7,7,0]"

fun doit_loop :: "char list \<Rightarrow> char list" where
  "doit_loop [] = []"
| "doit_loop (ch # s) =
     (if ch = CR \<or> ch = LF \<or> ch = DQ \<or> ch = BSL then [BSL, ch] else [ch]) @ doit_loop s"

definition doit :: "(nat \<Rightarrow> bool) \<Rightarrow> char list \<Rightarrow> char list \<Rightarrow> int \<times> char list" where
  "doit mem saout sain =
     (if \<not> mem (length sain * 2 + 2) then (0, saout) else (1, [DQ] @ doit_loop sain @ [DQ]))"

fun quote_bad_char :: "char list \<Rightarrow> bool" where
  "quote_bad_char [] = False"
| "quote_bad_char (c # s) = (if uch c \<ge> 128 then True else if quote_ok ! uch c = 0 then True else quote_bad_char s)"

fun two_dots :: "char list \<Rightarrow> bool" where
  "two_dots (c # d # s) = (if c = CHR ''.'' \<and> d = CHR ''.'' then True else two_dots (d # s))"
| "two_dots _ = False"

definition quote_need :: "char list \<Rightarrow> bool" where
  "quote_need s =
     (if s = [] then True
      else if quote_bad_char s then True
      else if hd s = CHR ''.'' then True
      else if last s = CHR ''.'' then True
      else two_dots s)"

definition quote :: "(nat \<Rightarrow> bool) \<Rightarrow> char list \<Rightarrow> char list \<Rightarrow> int \<times> char list" where
  "quote mem saout sain =
     (if quote_need sain then doit mem saout sain
      else if mem (length sain + 1) then (1, sain) else (0, saout))"

text \<open>\<open>quote2\<close> quotes what stands before the last \<open>@\<close> of a string.\<close>

definition quote2 :: "(nat \<Rightarrow> bool) \<Rightarrow> char list \<Rightarrow> char list \<Rightarrow> int \<times> char list" where
  "quote2 mem sa s =
     (if char_at s 0 = NUL then (if mem (str_len s + 1) then (1, take (str_len s) s) else (0, sa))
      else
        let j = str_rchr s (CHR ''@'')
        in if \<not> mem (str_len s + 1) then (0, sa)
           else let foo = take (str_len s) s
                in if char_at s j = NUL then quote mem sa foo
                   else case quote mem sa (take j foo) of
                          (r, sa) \<Rightarrow>
                            if r = 0 then (0, sa)
                            else let t = drop j s
                                 in if mem (length sa + str_len t + 1) then (1, sa @ take (str_len t) t) else (0, sa))"

section \<open>Field names\<close>

definition hname :: "char list list" where
  "hname =
    [''unknown-header'', ''sender'', ''from'', ''reply-to'', ''to'', ''cc'', ''bcc'', ''date'', ''message-id'', ''subject'',
     ''resent-sender'', ''resent-from'', ''resent-reply-to'', ''resent-to'', ''resent-cc'', ''resent-bcc'', ''resent-date'',
     ''resent-message-id'', ''return-receipt-to'', ''errors-to'', ''apparently-to'', ''received'', ''return-path'',
     ''delivered-to'', ''content-length'', ''content-type'', ''content-transfer-encoding'',
     ''notice-requested-upon-delivery-to'', ''mail-followup-to'']"

text \<open>The blanks and the colon after the name.\<close>

fun hmatch_colon :: "char list \<Rightarrow> bool" where
  "hmatch_colon [] = False"
| "hmatch_colon (ch # s) = (if ch = CHR '':'' then True else if ch \<noteq> SP \<and> ch \<noteq> TAB then False else hmatch_colon s)"

fun hmatch :: "char list \<Rightarrow> char list \<Rightarrow> bool" where
  "hmatch s [] = hmatch_colon s"
| "hmatch s (ch # t) =
     (if ch = NUL then hmatch_colon s
      else case s of
        [] \<Rightarrow> False
      | c # s \<Rightarrow>
          if ch \<noteq> c then
            if ch = CHR ''-'' then False
            else if sch ch - 32 \<noteq> sch c then False
            else hmatch s t
          else hmatch s t)"

fun hfield_known_loop :: "nat \<Rightarrow> char list list \<Rightarrow> char list \<Rightarrow> nat" where
  "hfield_known_loop i [] s = 0"
| "hfield_known_loop i (t # ts) s = (if hmatch s t then i else hfield_known_loop (Suc i) ts s)"

definition hfield_known :: "char list \<Rightarrow> nat" where
  "hfield_known s = hfield_known_loop 1 (tl hname) s"

text \<open>\<open>while (j)\<close>: drop the blanks before the colon, on the reversed name.\<close>

fun hfield_valid_trim :: "char list \<Rightarrow> char list" where
  "hfield_valid_trim [] = []"
| "hfield_valid_trim (ch # r) = (if ch \<noteq> SP \<and> ch \<noteq> TAB then ch # r else hfield_valid_trim r)"

fun hfield_valid_chars :: "char list \<Rightarrow> bool" where
  "hfield_valid_chars [] = True"
| "hfield_valid_chars (ch # s) = (if sch ch \<le> 32 then False else if sch ch \<ge> 127 then False else hfield_valid_chars s)"

definition hfield_valid :: "char list \<Rightarrow> bool" where
  "hfield_valid s =
     (let j = byte_chr s (CHR '':'')
      in if j \<ge> length s then False
         else let name = rev (hfield_valid_trim (rev (take j s)))
              in if name = [] then False else hfield_valid_chars name)"

fun hfield_skip_blanks :: "char list \<Rightarrow> nat \<Rightarrow> nat" where
  "hfield_skip_blanks [] i = i"
| "hfield_skip_blanks (ch # s) i = (if ch \<noteq> TAB \<and> ch \<noteq> LF \<and> ch \<noteq> CR \<and> ch \<noteq> SP then i else hfield_skip_blanks s (Suc i))"

definition hfield_skipname :: "char list \<Rightarrow> nat" where
  "hfield_skipname s =
     (let i = byte_chr s (CHR '':'');
          i = (if i < length s then i + 1 else i)
      in hfield_skip_blanks (drop i s) i)"

section \<open>Quoted local parts are read back\<close>

lemma fill_quoted_doit: "fill_quoted DQ (doit_loop s @ DQ # r) = (s, r)"
  by (induction s) auto

lemma length_doit_loop: "length (doit_loop s) \<le> length s * 2"
  by (induction s) auto

text \<open>What the table allows: the characters of atoms, and the dot.\<close>

lemma quote_ok_atom: "list_all (\<lambda>n. quote_ok ! n = 0 \<or> n = 46 \<or> atom_char (char_of n)) [0..<128]"
  by code_simp

lemma quote_chars:
  assumes "\<not> quote_bad_char s" and "c \<in> set s"
  shows "c = CHR ''.'' \<or> atom_char c"
proof -
  have "uch c < 128 \<and> quote_ok ! uch c \<noteq> 0"
    using assms by (induction s) (auto split: if_splits)
  moreover from this have "uch c \<in> set [0..<128]" by simp
  ultimately have "uch c = 46 \<or> atom_char (char_of (uch c))"
    using quote_ok_atom [unfolded list_all_iff, rule_format, of "uch c"] by argo
  then show ?thesis
    using uch_inject [of c "CHR ''.''"] by simp
qed

lemma unquote_atoms:
  "\<forall>c \<in> set s. c = CHR ''.'' \<or> atom_char c \<Longrightarrow>
     unquote_loop (fill_tokens s) = s \<and> (\<exists>k. count_tokens s n m = Some k)"
proof (induction s arbitrary: n m rule: length_induct)
  case (1 s)
  show ?case
  proof (cases s)
    case Nil
    then show ?thesis by simp
  next
    case (Cons c s')
    show ?thesis
    proof (cases "c = CHR ''.''")
      case True
      then show ?thesis using 1 Cons by simp
    next
      case False
      define u where "u = takeWhile (\<lambda>c. c \<noteq> CHR ''.'') s"
      define v where "v = dropWhile (\<lambda>c. c \<noteq> CHR ''.'') s"
      have s: "s = u @ v" by (simp add: u_def v_def)
      have u: "u \<noteq> []" using False Cons by (simp add: u_def)
      have "\<forall>c \<in> set u. atom_char c"
        using 1(2) by (auto simp: u_def dest: set_takeWhileD)
      moreover have "v = [] \<or> \<not> atomok (hd v)"
        using hd_dropWhile [of "\<lambda>c. c \<noteq> CHR ''.''" s] by (auto simp: v_def atomok_def)
      ultimately have "fill_tokens s = ATOM u # fill_tokens v" "count_tokens s n m = count_tokens v (Suc n) (m + length u)"
        unfolding s using u by (simp_all add: read_atom)
      moreover have "unquote_loop (fill_tokens v) = v \<and> (\<exists>k. count_tokens v (Suc n) (m + length u) = Some k)"
        using 1 s u by simp
      ultimately show ?thesis by (simp add: s)
    qed
  qed
qed

lemma count_quoted_doit: "count_quoted DQ (doit_loop s @ [DQ]) n = Some (n + length s, [])"
  by (induction s arbitrary: n) auto

lemma quote_unquote:
  assumes "quote mem saout s = (1, q)"
  shows "unquote_loop (fill_tokens q) = s \<and> (\<exists>k. count_tokens q 0 0 = Some k)"
proof (cases "quote_need s")
  case True
  then have "q = DQ # doit_loop s @ [DQ]"
    using assms by (simp add: quote_def doit_def split: if_splits)
  then show ?thesis
    by (simp add: fill_quoted_doit count_quoted_doit)
next
  case False
  then have "q = s" "\<not> quote_bad_char s"
    using assms by (auto simp: quote_def quote_need_def split: if_splits)
  then show ?thesis
    using unquote_atoms quote_chars by blast
qed

section \<open>The name before the colon\<close>

lemma hmatch_colon_iff: "hmatch_colon s \<longleftrightarrow> (\<exists>w r. s = w @ CHR '':'' # r \<and> set w \<subseteq> {SP, TAB})"
proof (induction s)
  case (Cons c s)
  show ?case
  proof (cases "c = CHR '':''")
    case True
    then show ?thesis by (auto intro: exI [of _ "[]"])
  next
    case False
    have "(\<exists>w r. c # s = w @ CHR '':'' # r \<and> set w \<subseteq> {SP, TAB}) \<longleftrightarrow>
        c \<in> {SP, TAB} \<and> (\<exists>w r. s = w @ CHR '':'' # r \<and> set w \<subseteq> {SP, TAB})" (is "?l \<longleftrightarrow> ?r")
    proof
      assume ?l
      then obtain w r where w: "c # s = w @ CHR '':'' # r" "set w \<subseteq> {SP, TAB}" by blast
      then show ?r using False by (cases w) auto
    next
      assume ?r
      then obtain w r where "c \<in> {SP, TAB}" "s = w @ CHR '':'' # r" "set w \<subseteq> {SP, TAB}" by blast
      then show ?l by (intro exI [of _ "c # w"] exI [of _ r]) simp
    qed
    with False Cons show ?thesis by auto
  qed
qed simp

text \<open>Names are made of small letters and dashes.\<close>

definition name_char :: "char \<Rightarrow> bool" where
  "name_char c \<longleftrightarrow> c = CHR ''-'' \<or> (97 \<le> uch c \<and> uch c \<le> 122)"

lemma hname_chars: "list_all (list_all name_char) hname"
  by (simp add: hname_def name_char_def)

lemma name_char_match:
  assumes "name_char ch"
  shows "(if ch \<noteq> c then ch \<noteq> CHR ''-'' \<and> sch ch - 32 = sch c else True) \<longleftrightarrow> lower c = ch"
proof (cases "ch = CHR ''-''")
  case True
  have "lower c = CHR ''-'' \<longleftrightarrow> c = CHR ''-''"
    by (auto simp: lower_def char_of_eq_iff)
  with True show ?thesis by auto
next
  case False
  then have ch: "97 \<le> uch ch" "uch ch \<le> 122"
    using assms by (auto simp: name_char_def)
  define k where "k = uch c"
  have k: "k < 256" by (simp add: k_def)
  have "sch ch - 32 = sch c \<longleftrightarrow> uch c + 32 = uch ch"
    using ch k unfolding sch_def k_def [symmetric] by auto
  moreover have "lower c = ch \<longleftrightarrow> c = ch \<or> uch c + 32 = uch ch"
    using ch uch_less [of c] uch_inject [of c ch] by (auto simp: lower_def char_of_eq_iff)
  ultimately show ?thesis using False by auto
qed

text \<open>\<open>field_named s t\<close>: the line \<open>s\<close> starts with the name \<open>t\<close> up to case, blanks and a colon.\<close>

definition field_named :: "char list \<Rightarrow> char list \<Rightarrow> bool" where
  "field_named s t \<longleftrightarrow> (\<exists>name w r. s = name @ w @ CHR '':'' # r \<and> map lower name = t \<and> set w \<subseteq> {SP, TAB})"

lemma field_named_Nil: "field_named s [] \<longleftrightarrow> hmatch_colon s"
  by (simp add: field_named_def hmatch_colon_iff)

lemma field_named_Cons: "field_named (c # s) (ch # t) \<longleftrightarrow> lower c = ch \<and> field_named s t"
proof
  assume "field_named (c # s) (ch # t)"
  then obtain name w r where *: "c # s = name @ w @ CHR '':'' # r" "map lower name = ch # t" "set w \<subseteq> {SP, TAB}"
    unfolding field_named_def by (elim exE conjE)
  from *(2) obtain n name' where n: "name = n # name'" "lower n = ch" "map lower name' = t"
    by (cases name) simp_all
  then have "c = n" "s = name' @ w @ CHR '':'' # r" using *(1) by simp_all
  with n *(3) show "lower c = ch \<and> field_named s t"
    unfolding field_named_def by (intro conjI exI [of _ name'] exI [of _ w] exI [of _ r]) simp_all
next
  assume "lower c = ch \<and> field_named s t"
  then obtain name w r where "lower c = ch" "s = name @ w @ CHR '':'' # r" "map lower name = t" "set w \<subseteq> {SP, TAB}"
    unfolding field_named_def by (elim exE conjE)
  then show "field_named (c # s) (ch # t)"
    unfolding field_named_def by (intro exI [of _ "c # name"] exI [of _ w] exI [of _ r]) simp
qed

lemma hmatch_iff: "\<forall>c \<in> set t. name_char c \<Longrightarrow> hmatch s t \<longleftrightarrow> field_named s t"
proof (induction t arbitrary: s)
  case Nil
  then show ?case by (simp add: field_named_Nil)
next
  case (Cons ch t)
  have ch: "name_char ch"
    using Cons.prems by simp
  then have nul: "ch \<noteq> NUL"
    by (auto simp: name_char_def)
  show ?case
  proof (cases s)
    case Nil
    with nul show ?thesis by (simp add: field_named_def)
  next
    case s: (Cons c s')
    then have "hmatch s (ch # t) \<longleftrightarrow> lower c = ch \<and> hmatch s' t"
      using name_char_match [OF ch, of c] nul by auto
    then show ?thesis
      using Cons by (simp add: s field_named_Cons)
  qed
qed

text \<open>The first match in the table.\<close>

lemma hfield_known_loop_spec:
  assumes "hfield_known_loop i ts s = k"
  shows "k = 0 \<and> i > 0 \<and> (\<forall>t \<in> set ts. \<not> hmatch s t) \<or> i = 0 \<or>
           i \<le> k \<and> k < i + length ts \<and> hmatch s (ts ! (k - i)) \<and> (\<forall>j < k - i. \<not> hmatch s (ts ! j))"
  using assms
proof (induction i ts s rule: hfield_known_loop.induct)
  case (2 i t ts s)
  show ?case
  proof (cases "hmatch s t")
    case True
    with 2(2) show ?thesis by auto
  next
    case False
    with 2 have "k = 0 \<and> (\<forall>t \<in> set ts. \<not> hmatch s t) \<or>
        Suc i \<le> k \<and> k < Suc i + length ts \<and> hmatch s (ts ! (k - Suc i)) \<and> (\<forall>j < k - Suc i. \<not> hmatch s (ts ! j))"
      by simp
    with False show ?thesis
      by (auto simp: Suc_diff_Suc [symmetric] less_Suc_eq_0_disj nth_Cons' )
  qed
qed auto

section \<open>Properties\<close>

text \<open>The tokenizer accepts what \<open>quote\<close> wrote for any local part, and the text of its tokens is that local part.\<close>

theorem quote_tokenizes:
  assumes "quote mem saout s = (1, q)" and "\<And>n. mem' n"
  shows "\<exists>ts. token822_parse mem' ta q = (1, ts) \<and> token822_unquote mem' sa ts = (1, s)"
  using quote_unquote [OF assms(1)] assms(2) by (auto simp: token822_parse_def token822_unquote_def)

theorem quote_tokenizes_witness:
  "\<exists>ts. token822_parse (\<lambda>_. True) [] [DQ, CHR ''a'', SP, BSL, DQ, DQ] = (1, ts) \<and>
        token822_unquote (\<lambda>_. True) [] ts = (1, [CHR ''a'', SP, DQ])"
  by (rule quote_tokenizes [where mem = "\<lambda>_. True" and saout = "[]"])
    (simp_all add: quote_def quote_need_def quote_ok_def doit_def)

text \<open>\<open>hfield_known\<close> returns the number of the field whose name, up to case, stands before the blanks and the
  colon, or 0 when no name of its table does.\<close>

theorem hfield_known_correct:
  "if hfield_known s = 0
   then \<not> (\<exists>t \<in> set (tl hname). field_named s t)
   else hfield_known s < length hname \<and> field_named s (hname ! hfield_known s)"
proof -
  have chars: "\<forall>c \<in> set t. name_char c" if "t \<in> set (tl hname)" for t
  proof -
    have "hname \<noteq> []" by (simp add: hname_def)
    then have "t \<in> set hname" using that by (rule list.set_sel(2))
    then show ?thesis using hname_chars unfolding list_all_iff by blast
  qed
  have tl: "tl hname ! (k - 1) = hname ! k" if "0 < k" for k
    using that by (cases k) (simp_all add: hname_def)
  note spec = hfield_known_loop_spec [OF hfield_known_def [symmetric]]
  show ?thesis
  proof (cases "hfield_known s = 0")
    case True
    then have "\<forall>t \<in> set (tl hname). \<not> hmatch s t"
      using spec [of s] by auto
    with True hmatch_iff [OF chars] show ?thesis by metis
  next
    case False
    then have k: "hfield_known s - 1 < length (tl hname)" "hmatch s (tl hname ! (hfield_known s - 1))"
      using spec [of s] by auto
    then have "tl hname ! (hfield_known s - 1) \<in> set (tl hname)" by (intro nth_mem)
    from hmatch_iff [OF chars [OF this], of s] k False tl show ?thesis by auto
  qed
qed

end
