(* ===== verification/Outcome.thy ===== *)
theory Outcome
  imports Prelude
begin

text \<open>
  Code that may end the process. An operation on a state gives \<open>Inl\<close> with what the process leaves behind when it exits, and
  \<open>Inr\<close> with its result when it returns. \<open>andthen\<close> runs the rest of a function after a call. \<open>ends\<close> says what holds at
  an exit and what at a return; its rules follow the calls of a function.
\<close>

text \<open>How a process ends: with an exit code, or never.\<close>

datatype qend = Exit nat | Hang

definition andthen :: "'e + 'a \<Rightarrow> ('a \<Rightarrow> 'e + 'b) \<Rightarrow> 'e + 'b" where
  "andthen r f = (case r of Inl e \<Rightarrow> Inl e | Inr a \<Rightarrow> f a)"

definition ends :: "('e \<Rightarrow> bool) \<Rightarrow> ('a \<Rightarrow> bool) \<Rightarrow> 'e + 'a \<Rightarrow> bool" where
  "ends E P r = (case r of Inl e \<Rightarrow> E e | Inr a \<Rightarrow> P a)"

lemma andthen_simps [simp]: "andthen (Inl e) f = Inl e" "andthen (Inr a) f = f a"
  by (simp_all add: andthen_def)

lemma andthen_cong [fundef_cong]:
  "r = q \<Longrightarrow> (\<And>a. q = Inr a \<Longrightarrow> f a = g a) \<Longrightarrow> andthen r f = andthen q g"
  by (cases q) auto

lemma andthen_Inr: "andthen r f = Inr b \<longleftrightarrow> (\<exists>a. r = Inr a \<and> f a = Inr b)"
  by (cases r) auto

lemma andthen_assoc: "andthen (andthen r f) g = andthen r (\<lambda>a. andthen (f a) g)"
  by (cases r) auto

lemma andthen_if: "andthen (if b then r else q) f = (if b then andthen r f else andthen q f)"
  by simp

lemma ends_simps [simp]: "ends E P (Inl e) = E e" "ends E P (Inr a) = P a"
  by (simp_all add: ends_def)

lemma ends_andthen: "ends E P r \<Longrightarrow> (\<And>a. P a \<Longrightarrow> ends E Q (f a)) \<Longrightarrow> ends E Q (andthen r f)"
  by (cases r) auto

lemma ends_mono: "ends E P r \<Longrightarrow> (\<And>e. E e \<Longrightarrow> F e) \<Longrightarrow> (\<And>a. P a \<Longrightarrow> Q a) \<Longrightarrow> ends F Q r"
  by (cases r) auto

lemma ends_conj: "ends E P r \<Longrightarrow> ends F Q r \<Longrightarrow> ends (\<lambda>e. E e \<and> F e) (\<lambda>a. P a \<and> Q a) r"
  by (cases r) auto

lemma ends_Inr: "ends E P r \<Longrightarrow> r = Inr a \<Longrightarrow> P a"
  by simp

lemma ends_Inl: "ends E P r \<Longrightarrow> r = Inl e \<Longrightarrow> E e"
  by simp

end
