(* ===== verification/Substdio.thy ===== *)
theory Substdio
  imports Bytes
begin

text \<open>
  Buffered input and output: \<open>substdio.c\<close>, \<open>substdi.c\<close>, \<open>substdo.c\<close> and \<open>substdio_copy.c\<close>.

  A \<open>substdio\<close> has the bytes \<open>sx\<close> of its buffer, the counts \<open>sp\<close> and \<open>sn\<close> of the structure's \<open>p\<close> and \<open>n\<close>, and the
  state \<open>sw\<close> of whatever its operation \<open>op\<close> reads or writes; \<open>op\<close> itself (\<open>read\<close>, \<open>write\<close> or a
  wrapper of the program) is an argument. The loops that repeat an interrupted system call may run forever, so that
  they are partial functions: \<open>None\<close> is not returning. The locales \<open>reader\<close> and \<open>writer\<close> state what \<open>op\<close> promises;
  \<open>fd_read\<close> and \<open>fd_write\<close> are \<open>read\<close> and \<open>write\<close> on a descriptor whose kernel side is a finite script of outcomes.
\<close>

section \<open>State\<close>

datatype rd = Got "char list" | Rd_intr | Rd_fail

datatype wr = Wrote nat | Wr_intr | Wr_fail

record 'w substdio =
  sx :: "char list"
  sp :: nat
  sn :: nat
  sw :: 'w

definition substdio_fdbuf :: "'w \<Rightarrow> char list \<Rightarrow> 'w substdio" where
  "substdio_fdbuf w buf = \<lparr>sx = buf, sp = 0, sn = length buf, sw = w\<rparr>"

section \<open>Input\<close>

partial_function (option) oneread :: "('w \<Rightarrow> nat \<Rightarrow> rd \<times> 'w) \<Rightarrow> 'w \<Rightarrow> nat \<Rightarrow> (rd \<times> 'w) option" where
  "oneread op w n = (case op w n of (r, w') \<Rightarrow> if r = Rd_intr then oneread op w' n else Some (r, w'))"

definition getthis :: "'w substdio \<Rightarrow> nat \<Rightarrow> rd \<times> 'w substdio" where
  "getthis s n =
     (let (r, p') = (if sp s > n then (n, sp s - n) else (sp s, 0))
      in (Got (take r (drop (sn s) (sx s))), s\<lparr>sp := p', sn := sn s + r\<rparr>))"

definition substdio_feed :: "('w \<Rightarrow> nat \<Rightarrow> rd \<times> 'w) \<Rightarrow> 'w substdio \<Rightarrow> (int \<times> 'w substdio) option" where
  "substdio_feed op s =
     (if sp s \<noteq> 0 then Some (int (sp s), s)
      else case oneread op (sw s) (sn s) of
             None \<Rightarrow> None
           | Some (Got bs, w') \<Rightarrow>
               (let r = length bs; q = sn s - r; x' = bs @ drop r (sx s)
                in if r = 0 then Some (0, s\<lparr>sw := w'\<rparr>)
                   else Some (int r, s\<lparr>sx := (if q > 0 then byte_copyr x' q r 0 else x'), sp := r, sn := q, sw := w'\<rparr>))
           | Some (_, w') \<Rightarrow> Some (- 1, s\<lparr>sw := w'\<rparr>))"

definition from_fd :: "'w substdio \<Rightarrow> (rd \<times> 'w) option \<Rightarrow> (rd \<times> 'w substdio) option" where
  "from_fd s res = map_option (\<lambda>(r, w'). (r, s\<lparr>sw := w'\<rparr>)) res"

definition after_feed :: "nat \<Rightarrow> (int \<times> 'w substdio) option \<Rightarrow> (rd \<times> 'w substdio) option" where
  "after_feed n res =
     (case res of None \<Rightarrow> None
      | Some (r, s') \<Rightarrow> Some (if r < 0 then (Rd_fail, s') else if r = 0 then (Got [], s') else getthis s' n))"

definition substdio_bget :: "('w \<Rightarrow> nat \<Rightarrow> rd \<times> 'w) \<Rightarrow> 'w substdio \<Rightarrow> nat \<Rightarrow> (rd \<times> 'w substdio) option" where
  "substdio_bget op s n =
     (if sp s > 0 then Some (getthis s n)
      else if sn s \<le> n then from_fd s (oneread op (sw s) (sn s))
      else after_feed n (substdio_feed op s))"

definition substdio_get :: "('w \<Rightarrow> nat \<Rightarrow> rd \<times> 'w) \<Rightarrow> 'w substdio \<Rightarrow> nat \<Rightarrow> (rd \<times> 'w substdio) option" where
  "substdio_get op s n =
     (if sp s > 0 then Some (getthis s n)
      else if sn s \<le> n then from_fd s (oneread op (sw s) n)
      else after_feed n (substdio_feed op s))"

definition substdio_peek :: "'w substdio \<Rightarrow> char list" where
  "substdio_peek s = drop (sn s) (sx s)"

definition substdio_seek :: "'w substdio \<Rightarrow> nat \<Rightarrow> 'w substdio" where
  "substdio_seek s n = s\<lparr>sn := sn s + n, sp := sp s - n\<rparr>"

section \<open>Output\<close>

partial_function (option) allwrite ::
  "('w \<Rightarrow> char list \<Rightarrow> wr \<times> 'w) \<Rightarrow> 'w \<Rightarrow> char list \<Rightarrow> (bool \<times> 'w) option" where
  "allwrite op w buf =
     (if buf = [] then Some (True, w)
      else case op w buf of (r, w') \<Rightarrow>
             (case r of Wrote k \<Rightarrow> allwrite op w' (drop k buf)
              | Wr_intr \<Rightarrow> allwrite op w' buf
              | Wr_fail \<Rightarrow> Some (False, w')))"

definition substdio_flush :: "('w \<Rightarrow> char list \<Rightarrow> wr \<times> 'w) \<Rightarrow> 'w substdio \<Rightarrow> (bool \<times> 'w substdio) option" where
  "substdio_flush op s =
     (if sp s = 0 then Some (True, s)
      else case allwrite op (sw s) (take (sp s) (sx s)) of
             None \<Rightarrow> None | Some (ok, w') \<Rightarrow> Some (ok, s\<lparr>sp := 0, sw := w'\<rparr>))"

definition to_buffer :: "'w substdio \<Rightarrow> char list \<Rightarrow> 'w substdio" where
  "to_buffer s buf =
     s\<lparr>sx := take (sp s) (sx s) @ buf @ drop (sp s + length buf) (sx s), sp := sp s + length buf\<rparr>"

partial_function (option) substdio_bput ::
  "('w \<Rightarrow> char list \<Rightarrow> wr \<times> 'w) \<Rightarrow> 'w substdio \<Rightarrow> char list \<Rightarrow> (bool \<times> 'w substdio) option" where
  "substdio_bput op s buf =
     (let n = sn s - sp s
      in if length buf > n
         then case substdio_flush op (to_buffer s (take n buf)) of
                None \<Rightarrow> None
              | Some (ok, s') \<Rightarrow> (if \<not> ok then Some (False, s') else substdio_bput op s' (drop n buf))
         else Some (True, to_buffer s buf))"

definition SUBSTDIO_OUTSIZE :: nat where "SUBSTDIO_OUTSIZE = 8192"

partial_function (option) put_direct ::
  "('w \<Rightarrow> char list \<Rightarrow> wr \<times> 'w) \<Rightarrow> nat \<Rightarrow> 'w substdio \<Rightarrow> char list \<Rightarrow> (bool \<times> 'w substdio) option" where
  "put_direct op n s buf =
     (if length buf > sn s
      then let n' = (if n > length buf then length buf else n)
           in case allwrite op (sw s) (take n' buf) of
                None \<Rightarrow> None
              | Some (ok, w') \<Rightarrow> (if \<not> ok then Some (False, s\<lparr>sw := w'\<rparr>) else put_direct op n' (s\<lparr>sw := w'\<rparr>) (drop n' buf))
      else Some (True, to_buffer s buf))"

definition substdio_put :: "('w \<Rightarrow> char list \<Rightarrow> wr \<times> 'w) \<Rightarrow> 'w substdio \<Rightarrow> char list \<Rightarrow> (bool \<times> 'w substdio) option" where
  "substdio_put op s buf =
     (let n = sn s
      in if int (length buf) > int n - int (sp s)
         then case substdio_flush op s of
                None \<Rightarrow> None
              | Some (ok, s') \<Rightarrow>
                  (if \<not> ok then Some (False, s')
                   else put_direct op (if n < SUBSTDIO_OUTSIZE then SUBSTDIO_OUTSIZE else n) s' buf)
         else Some (True, to_buffer s buf))"

definition substdio_putflush :: "('w \<Rightarrow> char list \<Rightarrow> wr \<times> 'w) \<Rightarrow> 'w substdio \<Rightarrow> char list \<Rightarrow> (bool \<times> 'w substdio) option" where
  "substdio_putflush op s buf =
     (case substdio_flush op s of
        None \<Rightarrow> None
      | Some (ok, s') \<Rightarrow>
          (if \<not> ok then Some (False, s')
           else case allwrite op (sw s') buf of None \<Rightarrow> None | Some (ok', w') \<Rightarrow> Some (ok', s'\<lparr>sw := w'\<rparr>)))"

definition substdio_bputs :: "('w \<Rightarrow> char list \<Rightarrow> wr \<times> 'w) \<Rightarrow> 'w substdio \<Rightarrow> char list \<Rightarrow> (bool \<times> 'w substdio) option" where
  "substdio_bputs op s str = substdio_bput op s (take (str_len str) str)"

definition substdio_puts :: "('w \<Rightarrow> char list \<Rightarrow> wr \<times> 'w) \<Rightarrow> 'w substdio \<Rightarrow> char list \<Rightarrow> (bool \<times> 'w substdio) option" where
  "substdio_puts op s str = substdio_put op s (take (str_len str) str)"

definition substdio_putsflush :: "('w \<Rightarrow> char list \<Rightarrow> wr \<times> 'w) \<Rightarrow> 'w substdio \<Rightarrow> char list \<Rightarrow> (bool \<times> 'w substdio) option" where
  "substdio_putsflush op s str = substdio_putflush op s (take (str_len str) str)"

text \<open>Copying one stream to the other; the result is the code's 0, -2 or -3.\<close>

partial_function (option) substdio_copy ::
  "('v \<Rightarrow> char list \<Rightarrow> wr \<times> 'v) \<Rightarrow> ('w \<Rightarrow> nat \<Rightarrow> rd \<times> 'w) \<Rightarrow> 'v substdio \<Rightarrow> 'w substdio
   \<Rightarrow> (int \<times> 'v substdio \<times> 'w substdio) option" where
  "substdio_copy wop rop ssout ssin =
     (case substdio_feed rop ssin of
        None \<Rightarrow> None
      | Some (n, ssin') \<Rightarrow>
          (if n < 0 then Some (- 2, ssout, ssin')
           else if n = 0 then Some (0, ssout, ssin')
           else case substdio_put wop ssout (take (nat n) (substdio_peek ssin')) of
                  None \<Rightarrow> None
                | Some (ok, ssout') \<Rightarrow>
                    (if \<not> ok then Some (- 3, ssout', ssin')
                     else substdio_copy wop rop ssout' (substdio_seek ssin' (nat n)))))"

section \<open>Descriptors\<close>

text \<open>What the kernel does with the successive calls of \<open>read\<close>; after the script comes the end of the file.\<close>

datatype fdin = Chunk "char list" | In_intr | In_fail

definition fd_read :: "fdin list \<Rightarrow> nat \<Rightarrow> rd \<times> fdin list" where
  "fd_read w n =
     (case w of
        [] \<Rightarrow> (Got [], [])
      | Chunk c # w' \<Rightarrow> if c = [] then (Got [], w) else (Got (take n c), if length c \<le> n then w' else Chunk (drop n c) # w')
      | In_intr # w' \<Rightarrow> (Rd_intr, w')
      | In_fail # w' \<Rightarrow> (Rd_fail, w))"

text \<open>The successive calls of \<open>write\<close>, with the bytes written so far; after the script every call takes all it is given.\<close>

datatype fdout = Takes nat | Out_intr | Out_fail

definition fd_write :: "fdout list \<times> char list \<Rightarrow> char list \<Rightarrow> wr \<times> fdout list \<times> char list" where
  "fd_write w buf =
     (case w of
        ([], written) \<Rightarrow> (Wrote (length buf), [], written @ buf)
      | (Takes k # w', written) \<Rightarrow> (let j = min k (length buf) in (Wrote j, w', written @ take j buf))
      | (Out_intr # w', written) \<Rightarrow> (Wr_intr, w', written)
      | (Out_fail # w', written) \<Rightarrow> (Wr_fail, w', written))"

section \<open>What a reading operation promises\<close>

definition in_inv :: "'w substdio \<Rightarrow> bool" where
  "in_inv s \<longleftrightarrow> sp s + sn s = length (sx s) \<and> 0 < length (sx s)"

text \<open>The bytes that a stream will still deliver: those in its buffer, then those the operation has left.\<close>

definition in_stream :: "('w \<Rightarrow> char list) \<Rightarrow> 'w substdio \<Rightarrow> char list" where
  "in_stream left s = take (sp s) (drop (sn s) (sx s)) @ left (sw s)"

locale reader =
  fixes op :: "'w \<Rightarrow> nat \<Rightarrow> rd \<times> 'w"
    and left :: "'w \<Rightarrow> char list"
    and bad :: "'w \<Rightarrow> bool"
    and interrupts :: "'w \<Rightarrow> nat"
  assumes op_got: "op w n = (Got bs, w') \<Longrightarrow> 0 < n \<Longrightarrow>
      length bs \<le> n \<and> left w = bs @ left w' \<and> bad w' = bad w \<and> (bs = [] \<longrightarrow> left w = [])"
    and op_intr: "op w n = (Rd_intr, w') \<Longrightarrow> left w' = left w \<and> bad w' = bad w \<and> interrupts w' < interrupts w"
    and op_fail: "op w n = (Rd_fail, w') \<Longrightarrow> bad w \<and> left w' = left w \<and> bad w' = bad w"
begin

lemma oneread_outcome:
  assumes "0 < n"
  obtains bs w' where "oneread op w n = Some (Got bs, w')" "length bs \<le> n" "left w = bs @ left w'" "bad w' = bad w"
      "bs = [] \<Longrightarrow> left w = []"
  | w' where "oneread op w n = Some (Rd_fail, w')" "bad w" "left w' = left w" "bad w' = bad w"
proof -
  have "(\<exists>bs w'. oneread op w n = Some (Got bs, w') \<and> length bs \<le> n \<and> left w = bs @ left w' \<and> bad w' = bad w \<and>
          (bs = [] \<longrightarrow> left w = [])) \<or>
        (\<exists>w'. oneread op w n = Some (Rd_fail, w') \<and> bad w \<and> left w' = left w \<and> bad w' = bad w)"
  proof (induction "interrupts w" arbitrary: w rule: less_induct)
    case less
    obtain r w' where r: "op w n = (r, w')" by fastforce
    show ?case
    proof (cases r)
      case (Got bs)
      then show ?thesis using r op_got [of w n bs w'] assms by (subst (1 2) oneread.simps) auto
    next
      case Rd_intr
      then have "op w n = (Rd_intr, w')" using r by simp
      note * = op_intr [OF this]
      then show ?thesis using less [of w'] Rd_intr r by (subst (1 2) oneread.simps) auto
    next
      case Rd_fail
      then show ?thesis using r op_fail [of w n w'] by (subst (1 2) oneread.simps) auto
    qed
  qed
  then show thesis using that by blast
qed

abbreviation stream :: "'w substdio \<Rightarrow> char list" where
  "stream \<equiv> in_stream left"

lemma stream_fdbuf: "stream (substdio_fdbuf w buf) = left w" "buf \<noteq> [] \<Longrightarrow> in_inv (substdio_fdbuf w buf)"
  by (simp_all add: in_stream_def substdio_fdbuf_def in_inv_def)

lemma getthis_stream:
  assumes "in_inv s" "0 < n" "0 < sp s"
  obtains bs s' where "getthis s n = (Got bs, s')" "in_inv s'" "stream s = bs @ stream s'" "bs \<noteq> []" "length bs \<le> n"
    "sw s' = sw s"
proof -
  let ?r = "if sp s > n then n else sp s"
  let ?s = "s\<lparr>sp := sp s - ?r, sn := sn s + ?r\<rparr>"
  have g: "getthis s n = (Got (take ?r (drop (sn s) (sx s))), ?s)"
    by (auto simp: getthis_def)
  have i: "in_inv ?s" using assms by (auto simp: in_inv_def)
  have "take (sp s) (drop (sn s) (sx s)) = take ?r (drop (sn s) (sx s)) @ take (sp s - ?r) (drop (sn s + ?r) (sx s))"
    using take_add [of ?r "sp s - ?r" "drop (sn s) (sx s)"] by (auto simp: add.commute)
  then have "stream s = take ?r (drop (sn s) (sx s)) @ stream ?s" by (simp add: in_stream_def)
  moreover have "take ?r (drop (sn s) (sx s)) \<noteq> []" using assms by (auto simp: in_inv_def)
  moreover have "length (take ?r (drop (sn s) (sx s))) \<le> n" by (auto simp: min_def)
  ultimately show thesis by (intro that [OF g i]) simp_all
qed

lemma feed_outcome:
  assumes "in_inv s"
  obtains s' where "substdio_feed op s = Some (int (sp s'), s')" "in_inv s'" "0 < sp s'" "stream s' = stream s"
      "bad (sw s') = bad (sw s)"
  | s' where "substdio_feed op s = Some (0, s')" "in_inv s'" "stream s = []" "stream s' = []" "bad (sw s') = bad (sw s)"
  | s' where "substdio_feed op s = Some (- 1, s')" "in_inv s'" "bad (sw s)" "stream s' = stream s" "bad (sw s') = bad (sw s)"
proof (cases "sp s = 0")
  case False
  then show thesis using assms that(1) [of s] by (simp add: substdio_feed_def)
next
  case True
  then have n: "0 < sn s" "sn s = length (sx s)" using assms by (auto simp: in_inv_def)
  from n(1) show thesis
  proof (cases rule: oneread_outcome [of "sn s" "sw s"])
    case (1 bs w')
    show thesis
    proof (cases "bs = []")
      case True
      then show thesis using that(2) [of "s\<lparr>sw := w'\<rparr>"] 1 assms \<open>sp s = 0\<close>
        by (auto simp: substdio_feed_def in_stream_def in_inv_def)
    next
      case False
      let ?r = "length bs" let ?q = "sn s - length bs" let ?x = "bs @ drop (length bs) (sx s)"
      let ?s = "s\<lparr>sx := (if ?q > 0 then byte_copyr ?x ?q ?r 0 else ?x), sp := ?r, sn := ?q, sw := w'\<rparr>"
      have lx: "length ?x = length (sx s)" using 1(2) n(2) by simp
      have mv: "byte_copyr ?x ?q ?r 0 = memmove ?x ?q ?r 0"
        by (rule byte_copyr_memmove) (use lx 1(2) n(2) in auto)
      have "drop ?q (byte_copyr ?x ?q ?r 0) = bs"
        unfolding mv using 1(2) n(2) by (simp add: memmove_def)
      then have "take ?r (drop ?q (sx ?s)) = bs"
        using 1(2) n(2) by (auto simp del: drop_append)
      then have st: "stream ?s = stream s"
        using 1(3) True by (simp add: in_stream_def)
      have "length (sx ?s) = length (sx s)" using lx by simp
      then have "in_inv ?s" using 1(2) n by (simp add: in_inv_def)
      moreover have "substdio_feed op s = Some (int (sp ?s), ?s)"
        using 1(1) True False by (simp add: substdio_feed_def Let_def)
      moreover have "0 < sp ?s" "bad (sw ?s) = bad (sw s)" using False 1(4) by auto
      ultimately show thesis using that(1) [of ?s] st by blast
    qed
  next
    case (2 w')
    then show thesis using that(3) [of "s\<lparr>sw := w'\<rparr>"] True assms
      by (auto simp: substdio_feed_def in_stream_def in_inv_def)
  qed
qed

lemma get_outcome:
  assumes "in_inv s" "0 < n"
  obtains bs s' where "substdio_get op s n = Some (Got bs, s')" "in_inv s'" "stream s = bs @ stream s'" "length bs \<le> n"
      "bs = [] \<Longrightarrow> stream s = []" "bad (sw s') = bad (sw s)"
  | s' where "substdio_get op s n = Some (Rd_fail, s')" "in_inv s'" "bad (sw s)" "stream s' = stream s" "bad (sw s') = bad (sw s)"
proof (cases "sp s > 0")
  case True
  obtain bs s' where "getthis s n = (Got bs, s')" "in_inv s'" "stream s = bs @ stream s'" "bs \<noteq> []" "length bs \<le> n"
    "sw s' = sw s" using getthis_stream [OF assms True] .
  then show thesis using that(1) [of bs s'] True by (simp add: substdio_get_def)
next
  case False
  show thesis
  proof (cases "sn s \<le> n")
    case True
    from assms(2) show thesis
    proof (cases rule: oneread_outcome [of n "sw s"])
      case (1 bs w')
      then show thesis using that(1) [of bs "s\<lparr>sw := w'\<rparr>"] True False assms
        by (auto simp: substdio_get_def from_fd_def in_stream_def in_inv_def)
    next
      case (2 w')
      then show thesis using that(2) [of "s\<lparr>sw := w'\<rparr>"] True False assms
        by (auto simp: substdio_get_def from_fd_def in_stream_def in_inv_def)
    qed
  next
    case big: False
    have g: "substdio_get op s n = after_feed n (substdio_feed op s)" using big False by (simp add: substdio_get_def)
    from assms(1) show thesis
    proof (cases rule: feed_outcome [of s])
      case (1 s')
      obtain bs s'' where "getthis s' n = (Got bs, s'')" "in_inv s''" "stream s' = bs @ stream s''" "bs \<noteq> []" "length bs \<le> n"
        "sw s'' = sw s'" using getthis_stream [OF 1(2) assms(2) 1(3)] .
      then show thesis using that(1) [of bs s''] 1 g by (simp add: after_feed_def)
    next
      case (2 s')
      then show thesis using that(1) [of "[]" s'] g by (simp add: after_feed_def)
    next
      case (3 s')
      then show thesis using that(2) [of s'] g by (simp add: after_feed_def)
    qed
  qed
qed

lemma seek_stream:
  assumes "in_inv s" "n \<le> sp s"
  shows "in_inv (substdio_seek s n)" "stream s = take n (substdio_peek s) @ stream (substdio_seek s n)"
    "sw (substdio_seek s n) = sw s" "length (take n (substdio_peek s)) = n"
proof -
  have "take (sp s) (drop (sn s) (sx s)) = take n (drop (sn s) (sx s)) @ take (sp s - n) (drop (sn s + n) (sx s))"
    using take_add [of n "sp s - n" "drop (sn s) (sx s)"] assms by (simp add: add.commute)
  then show "stream s = take n (substdio_peek s) @ stream (substdio_seek s n)"
    by (simp add: in_stream_def substdio_peek_def substdio_seek_def)
  show "in_inv (substdio_seek s n)" "sw (substdio_seek s n) = sw s" "length (take n (substdio_peek s)) = n"
    using assms by (auto simp: in_inv_def substdio_seek_def substdio_peek_def)
qed

lemma get_byte:
  assumes "in_inv s" "\<not> bad (sw s)"
  obtains s' where "stream s = []" "substdio_get op s 1 = Some (Got [], s')" "in_inv s'" "stream s' = []" "\<not> bad (sw s')"
  | c s' where "stream s = c # stream s'" "substdio_get op s 1 = Some (Got [c], s')" "in_inv s'" "\<not> bad (sw s')"
proof -
  from assms(1) have "0 < (1::nat)" by simp
  from assms(1) this show thesis
  proof (cases rule: get_outcome)
    case (1 bs s')
    show thesis
    proof (cases bs)
      case Nil
      then show thesis using 1 that(1) [of s'] assms(2) by auto
    next
      case (Cons c bs')
      then have "bs = [c]" using 1(4) by simp
      then show thesis using 1 that(2) [of c s'] assms(2) by auto
    qed
  next
    case (2 s')
    then show thesis using assms(2) by simp
  qed
qed

end

section \<open>What a writing operation promises\<close>

definition out_inv :: "'w substdio \<Rightarrow> bool" where
  "out_inv s \<longleftrightarrow> sp s \<le> sn s \<and> sn s = length (sx s) \<and> sx s \<noteq> []"

text \<open>What has been given to a stream so far: the bytes written and those still in its buffer.\<close>

definition out_sent :: "('w \<Rightarrow> char list) \<Rightarrow> 'w substdio \<Rightarrow> char list" where
  "out_sent written s = written (sw s) @ take (sp s) (sx s)"

locale writer =
  fixes op :: "'w \<Rightarrow> char list \<Rightarrow> wr \<times> 'w"
    and written :: "'w \<Rightarrow> char list"
    and delays :: "'w \<Rightarrow> nat"
  assumes op_wrote: "op w buf = (Wrote k, w') \<Longrightarrow> buf \<noteq> [] \<Longrightarrow>
      k \<le> length buf \<and> written w' = written w @ take k buf \<and> (k = 0 \<longrightarrow> delays w' < delays w)"
    and op_intr: "op w buf = (Wr_intr, w') \<Longrightarrow> written w' = written w \<and> delays w' < delays w"
    and op_fail: "op w buf = (Wr_fail, w') \<Longrightarrow> written w' = written w"
begin

lemma allwrite_outcome:
  obtains w' where "allwrite op w buf = Some (True, w')" "written w' = written w @ buf"
  | w' k where "allwrite op w buf = Some (False, w')" "k < length buf" "written w' = written w @ take k buf"
proof -
  have "(\<exists>w'. allwrite op w buf = Some (True, w') \<and> written w' = written w @ buf) \<or>
    (\<exists>w' k. allwrite op w buf = Some (False, w') \<and> k < length buf \<and> written w' = written w @ take k buf)"
  proof (induction "(buf, w)" arbitrary: buf w
      rule: wf_induct_rule [OF wf_measures [of "[\<lambda>(b, w). length b, \<lambda>(b, w). delays w]"]])
    case less: 1
    show ?case
    proof (cases "buf = []")
      case True
      then show ?thesis by (simp add: allwrite.simps)
    next
      case False
      obtain r w' where r: "op w buf = (r, w')" by fastforce
      show ?thesis
      proof (cases r)
        case (Wrote k)
        then have "op w buf = (Wrote k, w')" using r by simp
        note law = op_wrote [OF this False]
        have "((drop k buf, w'), buf, w) \<in> measures [\<lambda>(b, w). length b, \<lambda>(b, w). delays w]"
          using law False by (cases k) auto
        note IH = less [OF this]
        have eq: "allwrite op w buf = allwrite op w' (drop k buf)"
          using Wrote r False by (subst allwrite.simps) simp
        from IH show ?thesis
        proof (elim disjE exE conjE)
          fix w'' assume "allwrite op w' (drop k buf) = Some (True, w'')" "written w'' = written w' @ drop k buf"
          then show ?thesis using law eq by simp
        next
          fix w'' j assume *: "allwrite op w' (drop k buf) = Some (False, w'')" "j < length (drop k buf)"
            "written w'' = written w' @ take j (drop k buf)"
          have "written w'' = written w @ take (k + j) buf" using * law by (simp add: take_add)
          moreover have "k + j < length buf" using *(2) by simp
          ultimately show ?thesis using *(1) eq by auto
        qed
      next
        case Wr_intr
        then have "op w buf = (Wr_intr, w')" using r by simp
        note law = op_intr [OF this]
        have eq: "allwrite op w buf = allwrite op w' buf"
          using Wr_intr r False by (subst allwrite.simps) simp
        have "((buf, w'), buf, w) \<in> measures [\<lambda>(b, w). length b, \<lambda>(b, w). delays w]" using law by simp
        from less [OF this] law show ?thesis by (simp add: eq)
      next
        case Wr_fail
        then have "op w buf = (Wr_fail, w')" using r by simp
        from op_fail [OF this] have "written w' = written w @ take 0 buf" by simp
        then show ?thesis using Wr_fail r False by (subst (1 2) allwrite.simps) auto
      qed
    qed
  qed
  then show thesis using that by blast
qed

abbreviation sent :: "'w substdio \<Rightarrow> char list" where
  "sent \<equiv> out_sent written"

lemma sent_fdbuf: "sent (substdio_fdbuf w buf) = written w" "buf \<noteq> [] \<Longrightarrow> out_inv (substdio_fdbuf w buf)"
  by (simp_all add: out_sent_def substdio_fdbuf_def out_inv_def)

lemma to_buffer:
  assumes "out_inv s" "length buf \<le> sn s - sp s"
  shows "out_inv (to_buffer s buf)" "sent (to_buffer s buf) = sent s @ buf" "sw (to_buffer s buf) = sw s" "sn (to_buffer s buf) = sn s"
  using assms by (auto simp: out_inv_def to_buffer_def out_sent_def min_def)

lemma flush_outcome:
  assumes "out_inv s"
  obtains s' where "substdio_flush op s = Some (True, s')" "out_inv s'" "sp s' = 0" "sn s' = sn s" "written (sw s') = sent s" "sent s' = sent s"
  | s' k where "substdio_flush op s = Some (False, s')" "out_inv s'" "sp s' = 0" "sn s' = sn s"
      "k < length (sent s)" "written (sw s') = take k (sent s)"
proof (cases "sp s = 0")
  case True
  then show thesis using that(1) [of s] assms by (simp add: substdio_flush_def out_sent_def)
next
  case False
  show thesis
  proof (cases rule: allwrite_outcome [of "sw s" "take (sp s) (sx s)"])
    case (1 w')
    then show thesis using that(1) [of "s\<lparr>sp := 0, sw := w'\<rparr>"] assms False
      by (simp add: substdio_flush_def out_sent_def out_inv_def)
  next
    case (2 w' k)
    then have "written w' = take (length (written (sw s)) + k) (sent s)" "length (written (sw s)) + k < length (sent s)"
      by (simp_all add: out_sent_def)
    then show thesis using that(2) [of "s\<lparr>sp := 0, sw := w'\<rparr>" "length (written (sw s)) + k"] 2 assms False
      by (simp add: substdio_flush_def out_inv_def)
  qed
qed

text \<open>The outcome every output routine has: all was accepted, or the descriptor failed and got a beginning.\<close>

definition puts_all :: "char list \<Rightarrow> 'w substdio \<Rightarrow> (bool \<times> 'w substdio) option \<Rightarrow> bool" where
  "puts_all buf s res \<longleftrightarrow> (\<exists>ok s'. res = Some (ok, s') \<and> out_inv s' \<and> sn s' = sn s \<and>
     (if ok then sent s' = sent s @ buf
      else \<exists>k < length (sent s @ buf). written (sw s') = take k (sent s @ buf)))"

lemma puts_all_cases:
  assumes "puts_all buf s res"
  obtains s' where "res = Some (True, s')" "out_inv s'" "sn s' = sn s" "sent s' = sent s @ buf"
  | s' k where "res = Some (False, s')" "out_inv s'" "sn s' = sn s" "k < length (sent s @ buf)"
      "written (sw s') = take k (sent s @ buf)"
  using assms unfolding puts_all_def by (auto split: if_splits)

lemma puts_all_True: "out_inv s' \<Longrightarrow> sn s' = sn s \<Longrightarrow> sent s' = sent s @ buf \<Longrightarrow> puts_all buf s (Some (True, s'))"
  unfolding puts_all_def by (intro exI [of _ True] exI [of _ s']) simp

lemma puts_all_False:
  "out_inv s' \<Longrightarrow> sn s' = sn s \<Longrightarrow> k < length (sent s @ buf) \<Longrightarrow> written (sw s') = take k (sent s @ buf) \<Longrightarrow>
    puts_all buf s (Some (False, s'))"
  unfolding puts_all_def by auto

lemma puts_all_prefix:
  assumes "puts_all b s' res" "sn s' = sn s" "sent s' @ b = sent s @ a"
  shows "puts_all a s res"
  using assms(1) by (simp only: puts_all_def assms(2,3))

lemma put_direct_puts:
  assumes "out_inv s" "sp s = 0" "0 < n"
  shows "puts_all buf s (put_direct op n s buf)"
  using assms
proof (induction "length buf" arbitrary: buf s n rule: less_induct)
  case less
  show ?case
  proof (cases "length buf > sn s")
    case False
    then show ?thesis using to_buffer [of s buf] less.prems by (subst put_direct.simps) (simp add: puts_all_True)
  next
    case True
    let ?n = "if n > length buf then length buf else n"
    have n: "0 < ?n" "?n \<le> length buf" using less.prems True by auto
    have eq: "put_direct op n s buf = (case allwrite op (sw s) (take ?n buf) of None \<Rightarrow> None
       | Some (ok, w') \<Rightarrow> (if \<not> ok then Some (False, s\<lparr>sw := w'\<rparr>) else put_direct op ?n (s\<lparr>sw := w'\<rparr>) (drop ?n buf)))"
      using True by (subst put_direct.simps) (simp only: Let_def if_True)
    show ?thesis
    proof (cases rule: allwrite_outcome [of "sw s" "take ?n buf"])
      case (1 w')
      let ?s = "s\<lparr>sw := w'\<rparr>"
      have s: "out_inv ?s" "sp ?s = 0" "sn ?s = sn s" "sent ?s = sent s @ take ?n buf"
        using less.prems 1(2) by (auto simp: out_inv_def out_sent_def)
      have "puts_all (drop ?n buf) ?s (put_direct op ?n ?s (drop ?n buf))"
        by (rule less.hyps) (use n s in auto)
      then have "puts_all buf s (put_direct op ?n ?s (drop ?n buf))"
        by (rule puts_all_prefix) (simp_all only: s append_assoc append_take_drop_id)
      then show ?thesis by (simp only: eq 1(1) option.case prod.case not_True_eq_False if_False)
    next
      case (2 w' k)
      have "puts_all buf s (Some (False, s\<lparr>sw := w'\<rparr>))"
      proof (rule puts_all_False)
        show "written (sw (s\<lparr>sw := w'\<rparr>)) = take (length (written (sw s)) + k) (sent s @ buf)"
          using 2 less.prems n by (simp add: out_sent_def)
        show "length (written (sw s)) + k < length (sent s @ buf)" using 2 n by (simp add: out_sent_def)
      qed (use less.prems in \<open>simp_all add: out_inv_def\<close>)
      then show ?thesis by (simp only: eq 2(1) option.case prod.case not_False_eq_True if_True)
    qed
  qed
qed

lemma flush_then:
  assumes "out_inv s" "\<And>s'. out_inv s' \<Longrightarrow> sp s' = 0 \<Longrightarrow> sn s' = sn s \<Longrightarrow> sent s' = sent s \<Longrightarrow> puts_all buf s (f s')"
  shows "puts_all buf s (case substdio_flush op s of None \<Rightarrow> None | Some (ok, s') \<Rightarrow> (if \<not> ok then Some (False, s') else f s'))"
  using assms(1)
proof (cases rule: flush_outcome)
  case (1 s')
  then show ?thesis using assms(2) [of s'] by simp
next
  case (2 s' k)
  then have "puts_all buf s (Some (False, s'))" by (intro puts_all_False [where k = k]) auto
  then show ?thesis using 2 by simp
qed

lemma put_puts:
  assumes "out_inv s"
  shows "puts_all buf s (substdio_put op s buf)"
proof (cases "int (length buf) > int (sn s) - int (sp s)")
  case False
  then have "length buf \<le> sn s - sp s" using assms by (auto simp: out_inv_def)
  then show ?thesis using to_buffer [of s buf] assms False by (simp add: substdio_put_def puts_all_True)
next
  case True
  have "puts_all buf s (put_direct op (if sn s < SUBSTDIO_OUTSIZE then SUBSTDIO_OUTSIZE else sn s) s' buf)"
    if "out_inv s'" "sp s' = 0" "sn s' = sn s" "sent s' = sent s" for s'
    by (rule puts_all_prefix [OF put_direct_puts])
      (use that in \<open>auto simp: SUBSTDIO_OUTSIZE_def\<close>)
  then show ?thesis using True flush_then [OF assms] by (simp only: substdio_put_def Let_def if_True)
qed

lemma bput_puts:
  assumes "out_inv s"
  shows "puts_all buf s (substdio_bput op s buf)"
  using assms
proof (induction "(buf, s)" arbitrary: buf s
    rule: wf_induct_rule [OF wf_measures [of "[\<lambda>(b, s). length b, \<lambda>(b, s). sp s]"]])
  case less: 1
  let ?n = "sn s - sp s"
  show ?case
  proof (cases "length buf > ?n")
    case False
    then show ?thesis using to_buffer [of s buf] less.prems by (subst substdio_bput.simps) (simp add: puts_all_True)
  next
    case True
    let ?s = "to_buffer s (take ?n buf)"
    have tb: "out_inv ?s" "sent ?s = sent s @ take ?n buf" "sn ?s = sn s"
      using to_buffer [of s "take ?n buf"] less.prems by auto
    have eq: "substdio_bput op s buf = (case substdio_flush op ?s of None \<Rightarrow> None
       | Some (ok, s') \<Rightarrow> (if \<not> ok then Some (False, s') else substdio_bput op s' (drop ?n buf)))"
      using True by (subst substdio_bput.simps) (simp only: Let_def if_True)
    have "puts_all (drop ?n buf) ?s (case substdio_flush op ?s of None \<Rightarrow> None
       | Some (ok, s') \<Rightarrow> (if \<not> ok then Some (False, s') else substdio_bput op s' (drop ?n buf)))"
    proof (rule flush_then [OF tb(1)])
      fix s' assume *: "out_inv s'" "sp s' = 0" "sn s' = sn ?s" "sent s' = sent ?s"
      have "((drop ?n buf, s'), buf, s) \<in> measures [\<lambda>(b, s). length b, \<lambda>(b, s). sp s]"
        using *(2) True less.prems by (cases "sp s = sn s") (auto simp: out_inv_def)
      from less.hyps [OF this *(1)]
      show "puts_all (drop ?n buf) ?s (substdio_bput op s' (drop ?n buf))"
        by (rule puts_all_prefix) (use * in auto)
    qed
    then show ?thesis
      unfolding eq by (rule puts_all_prefix) (use tb in simp_all)
  qed
qed

lemma putflush_outcome:
  assumes "out_inv s"
  obtains s' where "substdio_putflush op s buf = Some (True, s')" "out_inv s'" "written (sw s') = sent s @ buf"
  | s' k where "substdio_putflush op s buf = Some (False, s')" "out_inv s'" "written (sw s') = take k (sent s @ buf)"
  using assms
proof (cases rule: flush_outcome)
  case (1 s')
  show thesis
  proof (cases rule: allwrite_outcome [of "sw s'" buf])
    case (1 w')
    then show thesis using \<open>substdio_flush op s = _\<close> \<open>out_inv s'\<close> \<open>written (sw s') = _\<close> that(1) [of "s'\<lparr>sw := w'\<rparr>"]
      by (simp add: substdio_putflush_def out_inv_def)
  next
    case (2 w' k)
    then show thesis using \<open>substdio_flush op s = _\<close> \<open>out_inv s'\<close> \<open>written (sw s') = _\<close>
        that(2) [of "s'\<lparr>sw := w'\<rparr>" "length (sent s) + k"]
      by (simp add: substdio_putflush_def out_inv_def)
  qed
next
  case (2 s' k)
  then show thesis using that(2) [of s' k] by (simp add: substdio_putflush_def)
qed

end

section \<open>The descriptors keep the promises\<close>

fun fd_left :: "fdin list \<Rightarrow> char list" where
  "fd_left [] = []"
| "fd_left (Chunk c # w) = (if c = [] then [] else c @ fd_left w)"
| "fd_left (In_intr # w) = fd_left w"
| "fd_left (In_fail # w) = []"

fun fd_bad :: "fdin list \<Rightarrow> bool" where
  "fd_bad [] = False"
| "fd_bad (Chunk c # w) = (c \<noteq> [] \<and> fd_bad w)"
| "fd_bad (In_intr # w) = fd_bad w"
| "fd_bad (In_fail # w) = True"

interpretation fdr: reader fd_read fd_left fd_bad length
proof
  fix w n bs w'
  assume "fd_read w n = (Got bs, w')" "0 < n"
  then show "length bs \<le> n \<and> fd_left w = bs @ fd_left w' \<and> fd_bad w' = fd_bad w \<and> (bs = [] \<longrightarrow> fd_left w = [])"
    by (auto simp: fd_read_def split: list.splits fdin.splits if_splits)
next
  fix w n w'
  assume "fd_read w n = (Rd_intr, w')"
  then show "fd_left w' = fd_left w \<and> fd_bad w' = fd_bad w \<and> length w' < length w"
    by (auto simp: fd_read_def split: list.splits fdin.splits if_splits)
next
  fix w n w'
  assume "fd_read w n = (Rd_fail, w')"
  then show "fd_bad w \<and> fd_left w' = fd_left w \<and> fd_bad w' = fd_bad w"
    by (auto simp: fd_read_def split: list.splits fdin.splits if_splits)
qed

interpretation fdw: writer fd_write snd "\<lambda>w. length (fst w)"
proof
  fix w buf k and w' :: "fdout list \<times> char list"
  assume "fd_write w buf = (Wrote k, w')" "buf \<noteq> []"
  then show "k \<le> length buf \<and> snd w' = snd w @ take k buf \<and> (k = 0 \<longrightarrow> length (fst w') < length (fst w))"
    by (auto simp: fd_write_def Let_def split: list.splits fdout.splits prod.splits)
next
  fix w buf and w' :: "fdout list \<times> char list"
  assume "fd_write w buf = (Wr_intr, w')"
  then show "snd w' = snd w \<and> length (fst w') < length (fst w)"
    by (auto simp: fd_write_def Let_def split: list.splits fdout.splits prod.splits)
next
  fix w buf and w' :: "fdout list \<times> char list"
  assume "fd_write w buf = (Wr_fail, w')"
  then show "snd w' = snd w"
    by (auto simp: fd_write_def Let_def split: list.splits fdout.splits prod.splits)
qed

text \<open>Copying between two such streams moves every byte, in order, when neither fails.\<close>

locale copier = reader + w: writer wop written delays
  for wop :: "'v \<Rightarrow> char list \<Rightarrow> wr \<times> 'v" and written delays
begin

lemma copy_outcome:
  assumes "in_inv ssin" "out_inv ssout"
  obtains ssout' ssin' where "substdio_copy wop op ssout ssin = Some (0, ssout', ssin')" "out_inv ssout'"
      "w.sent ssout' = w.sent ssout @ stream ssin"
  | ssout' ssin' where "substdio_copy wop op ssout ssin = Some (- 2, ssout', ssin')" "bad (sw ssin)" "out_inv ssout'"
      "\<exists>k. w.sent ssout' = w.sent ssout @ take k (stream ssin)"
  | ssout' ssin' where "substdio_copy wop op ssout ssin = Some (- 3, ssout', ssin')"
      "\<exists>k < length (w.sent ssout @ stream ssin). written (sw ssout') = take k (w.sent ssout @ stream ssin)"
proof -
  have "(\<exists>ssout' ssin'. substdio_copy wop op ssout ssin = Some (0, ssout', ssin') \<and> out_inv ssout' \<and>
           w.sent ssout' = w.sent ssout @ stream ssin) \<or>
        (\<exists>ssout' ssin'. substdio_copy wop op ssout ssin = Some (- 2, ssout', ssin') \<and> bad (sw ssin) \<and> out_inv ssout' \<and>
           (\<exists>k. w.sent ssout' = w.sent ssout @ take k (stream ssin))) \<or>
        (\<exists>ssout' ssin'. substdio_copy wop op ssout ssin = Some (- 3, ssout', ssin') \<and>
           (\<exists>k < length (w.sent ssout @ stream ssin). written (sw ssout') = take k (w.sent ssout @ stream ssin)))"
    (is "?P ssout ssin")
    using assms
  proof (induction "length (stream ssin)" arbitrary: ssin ssout rule: less_induct)
    case less
    from less.prems(1) show ?case
    proof (cases rule: feed_outcome)
      case (1 s')
      let ?x = "take (sp s') (substdio_peek s')" let ?s = "substdio_seek s' (sp s')"
      have sk: "in_inv ?s" "stream ssin = ?x @ stream ?s" "bad (sw ?s) = bad (sw ssin)" "length ?x = sp s'"
        using seek_stream [of s' "sp s'"] 1 by simp_all
      have eq: "substdio_copy wop op ssout ssin = (case substdio_put wop ssout ?x of None \<Rightarrow> None
         | Some (ok, ssout') \<Rightarrow> (if \<not> ok then Some (- 3, ssout', s') else substdio_copy wop op ssout' ?s))"
        using 1 by (subst substdio_copy.simps) (simp, unfold nat_int, rule refl)
      show ?thesis
      proof (rule w.puts_all_cases [OF w.put_puts [OF less.prems(2), of ?x]])
        fix ssout' assume *: "substdio_put wop ssout ?x = Some (True, ssout')" "out_inv ssout'" "w.sent ssout' = w.sent ssout @ ?x"
        have "length (stream ?s) < length (stream ssin)" using sk(2,4) 1(3) by simp
        from less.hyps [OF this sk(1) *(2)] have IH: "?P ssout' ?s" .
        have ext: "w.sent ssout' @ take k (stream ?s) = w.sent ssout @ take (sp s' + k) (stream ssin)" for k
          using sk(2,4) *(3) by simp
        have all: "w.sent ssout' @ stream ?s = w.sent ssout @ stream ssin" using sk(2) *(3) by simp
        have "substdio_copy wop op ssout ssin = substdio_copy wop op ssout' ?s" using eq *(1) by simp
        then show ?thesis using IH unfolding ext all sk(3) by auto
      next
        fix ssout' k assume *: "substdio_put wop ssout ?x = Some (False, ssout')" "k < length (w.sent ssout @ ?x)"
          "written (sw ssout') = take k (w.sent ssout @ ?x)"
        have "k < length (w.sent ssout @ stream ssin)" using *(2) sk(2) by simp
        moreover have "take k (w.sent ssout @ ?x) = take k (w.sent ssout @ stream ssin)" using *(2) sk(2) by simp
        moreover have "substdio_copy wop op ssout ssin = Some (- 3, ssout', s')" using eq *(1) by simp
        ultimately show ?thesis using *(3) by auto
      qed
    next
      case (2 s')
      then show ?thesis using less.prems by (subst substdio_copy.simps) simp
    next
      case (3 s')
      then have "substdio_copy wop op ssout ssin = Some (- 2, ssout, s')" by (subst substdio_copy.simps) simp
      moreover have "w.sent ssout = w.sent ssout @ take 0 (stream ssin)" by simp
      ultimately show ?thesis using 3 less.prems by blast
    qed
  qed
  then show thesis using that by blast
qed

end

interpretation fdc: copier fd_read fd_left fd_bad length fd_write snd "\<lambda>w. length (fst w)"
  by unfold_locales

section \<open>Properties\<close>

text \<open>C35: \<open>substdio_get\<close> on a descriptor always returns, whatever the kernel interrupts or splits, and delivers the next
  bytes of the stream and nothing else: at most as many as asked for, none only at its end, an error only where the
  descriptor fails.\<close>

theorem substdio_get_stream:
  assumes "in_inv s" and "0 < n"
  shows "\<exists>r s'. substdio_get fd_read s n = Some (r, s') \<and> in_inv s' \<and>
     (case r of Got bs \<Rightarrow> in_stream fd_left s = bs @ in_stream fd_left s' \<and> length bs \<le> n \<and> (bs = [] \<longrightarrow> in_stream fd_left s = [])
      | Rd_intr \<Rightarrow> False
      | Rd_fail \<Rightarrow> fd_bad (sw s) \<and> in_stream fd_left s' = in_stream fd_left s)"
  using assms by (cases rule: fdr.get_outcome) auto

theorem substdio_get_stream_witness:
  "\<exists>r s'. substdio_get fd_read (substdio_fdbuf [In_intr, Chunk ''ab''] ''0123'') 1 = Some (r, s') \<and> in_inv s' \<and>
     (case r of Got bs \<Rightarrow> in_stream fd_left (substdio_fdbuf [In_intr, Chunk ''ab''] ''0123'') = bs @ in_stream fd_left s' \<and>
         length bs \<le> 1 \<and> (bs = [] \<longrightarrow> in_stream fd_left (substdio_fdbuf [In_intr, Chunk ''ab''] ''0123'') = [])
      | Rd_intr \<Rightarrow> False
      | Rd_fail \<Rightarrow> fd_bad (sw (substdio_fdbuf [In_intr, Chunk ''ab''] ''0123'')) \<and>
         in_stream fd_left s' = in_stream fd_left (substdio_fdbuf [In_intr, Chunk ''ab''] ''0123''))"
  by (rule substdio_get_stream) (simp_all add: fdr.stream_fdbuf)

text \<open>Several calls of \<open>substdio_put\<close>, one after the other, as long as they succeed, and a \<open>substdio_flush\<close> after the last.\<close>

fun puts_then_flush :: "('w \<Rightarrow> char list \<Rightarrow> wr \<times> 'w) \<Rightarrow> 'w substdio \<Rightarrow> char list list \<Rightarrow> (bool \<times> 'w substdio) option" where
  "puts_then_flush op s [] = substdio_flush op s"
| "puts_then_flush op s (b # bs) =
     (case substdio_put op s b of None \<Rightarrow> None | Some (ok, s') \<Rightarrow> (if ok then puts_then_flush op s' bs else Some (False, s')))"

lemma puts_then_flush_writes:
  assumes "out_inv s"
  shows "\<exists>ok s'. puts_then_flush fd_write s bufs = Some (ok, s') \<and> out_inv s' \<and>
     (if ok then sp s' = 0 \<and> snd (sw s') = out_sent snd s @ concat bufs
      else \<exists>k < length (out_sent snd s @ concat bufs). snd (sw s') = take k (out_sent snd s @ concat bufs))"
  using assms
proof (induction bufs arbitrary: s)
  case Nil
  then show ?case by (cases rule: fdw.flush_outcome) auto
next
  case (Cons b bs)
  from fdw.put_puts [OF Cons.prems, of b] show ?case
  proof (cases rule: fdw.puts_all_cases)
    case (1 s')
    then have e: "puts_then_flush fd_write s (b # bs) = puts_then_flush fd_write s' bs" "fdw.sent s' @ concat bs = fdw.sent s @ concat (b # bs)" by simp_all
    show ?thesis unfolding e [symmetric] using Cons.IH [OF 1(2)] unfolding e by simp
  next
    case (2 s' k)
    then have "puts_then_flush fd_write s (b # bs) = Some (False, s')" "k < length (fdw.sent s @ concat (b # bs))"
      "snd (sw s') = take k (fdw.sent s @ concat (b # bs))" by simp_all
    then show ?thesis using 2(2) by (intro exI [of _ False] exI [of _ s']) (simp only: if_False, blast)
  qed
qed

text \<open>C36: what is put and flushed reaches the descriptor: any sequence of calls of \<open>substdio_put\<close> and a \<open>substdio_flush\<close> return, however the writes are
  split or interrupted. If all succeed, the descriptor itself has got what was in the buffer before and then exactly the bytes put, in order, and nothing is left in the
  buffer. If one fails, the descriptor has got a beginning of them.\<close>

theorem substdio_put_sends:
  assumes "out_inv s"
  shows "\<exists>ok s'. puts_then_flush fd_write s bufs = Some (ok, s') \<and> out_inv s' \<and>
     (if ok then sp s' = 0 \<and> snd (sw s') = out_sent snd s @ concat bufs
      else \<exists>k < length (out_sent snd s @ concat bufs). snd (sw s') = take k (out_sent snd s @ concat bufs))"
  by (rule puts_then_flush_writes [OF assms])

theorem substdio_put_sends_witness:
  "\<exists>ok s'. puts_then_flush fd_write (substdio_fdbuf ([Takes 1], []) ''0123'') [''hello'', ''you''] = Some (ok, s') \<and> out_inv s' \<and>
     (if ok then sp s' = 0 \<and> snd (sw s') = ''helloyou'' else \<exists>k < 8. snd (sw s') = take k ''helloyou'')"
proof -
  have "out_sent snd (substdio_fdbuf ([Takes 1], []) ''0123'') = []" by (simp add: fdw.sent_fdbuf)
  moreover have "out_inv (substdio_fdbuf ([Takes 1], [] :: char list) ''0123'')" by (simp add: fdw.sent_fdbuf)
  moreover have "[] @ concat [''hello'', ''you''] = ''helloyou''" "length ''helloyou'' = 8" by simp_all
  ultimately show ?thesis using substdio_put_sends [of "substdio_fdbuf ([Takes 1], []) ''0123''" "[''hello'', ''you'']"] by (simp only:)
qed

text \<open>\<open>substdio_copy\<close> from one descriptor to another always returns: 0 with every byte of the input given to the
  output in order, -2 after a read error with a beginning of them given, -3 after a write error with a beginning written.\<close>

theorem substdio_copy_returns:
  assumes "in_inv ssin" and "out_inv ssout"
  shows "\<exists>r ssout' ssin'. substdio_copy fd_write fd_read ssout ssin = Some (r, ssout', ssin') \<and>
     (let all = out_sent snd ssout @ in_stream fd_left ssin
      in r = 0 \<and> out_sent snd ssout' = all \<or>
         r = - 2 \<and> fd_bad (sw ssin) \<and> (\<exists>k. out_sent snd ssout' = out_sent snd ssout @ take k (in_stream fd_left ssin)) \<or>
         r = - 3 \<and> (\<exists>k < length all. snd (sw ssout') = take k all))"
  using assms by (cases rule: fdc.copy_outcome) auto

theorem substdio_copy_returns_witness:
  "\<exists>r ssout' ssin'. substdio_copy fd_write fd_read (substdio_fdbuf ([Out_intr], []) ''xy'') (substdio_fdbuf [Chunk ''abc''] ''01'')
        = Some (r, ssout', ssin') \<and>
     (let all = ''abc''
      in r = 0 \<and> out_sent snd ssout' = all \<or>
         r = - 2 \<and> False \<and> (\<exists>k. out_sent snd ssout' = take k all) \<or>
         r = - 3 \<and> (\<exists>k < length all. snd (sw ssout') = take k all))"
  using substdio_copy_returns [of "substdio_fdbuf [Chunk ''abc''] ''01''" "substdio_fdbuf ([Out_intr], []) ''xy''"]
  by (simp add: fdr.stream_fdbuf fdw.sent_fdbuf Let_def) (simp add: substdio_fdbuf_def)

end
