(* ===== verification/Headerbody.thy ===== *)
theory Headerbody
  imports Substdio Header
begin

text \<open>
  Reading a message line by line: \<open>getln.c\<close>, \<open>getln2.c\<close> and \<open>headerbody.c\<close>.

  A \<open>stralloc\<close> is the list of its bytes; \<open>mem n\<close> says whether room for \<open>n\<close> bytes can be had. The bytes that \<open>getln2\<close>
  leaves in the buffer (\<open>cont\<close> and \<open>clen\<close>) are a list. \<open>headerbody\<close> calls its three arguments; the model returns the
  sequence of these calls. \<open>header_events\<close> says what they are for a given list of lines; the theorems show that
  the code makes exactly these calls, and what they tell of the message.
\<close>

section \<open>Lines\<close>

partial_function (option) getln2_loop ::
  "(nat \<Rightarrow> bool) \<Rightarrow> ('w \<Rightarrow> nat \<Rightarrow> rd \<times> 'w) \<Rightarrow> 'w substdio \<Rightarrow> char list \<Rightarrow> char
   \<Rightarrow> (int \<times> 'w substdio \<times> char list \<times> char list) option" where
  "getln2_loop mem op ss sa sep =
     (case substdio_feed op ss of
        None \<Rightarrow> None
      | Some (n, ss') \<Rightarrow>
          (if n < 0 then Some (- 1, ss', sa, [])
           else if n = 0 then Some (0, ss', sa, [])
           else let x = take (nat n) (substdio_peek ss'); i = byte_chr x sep
                in if i < nat n then Some (0, substdio_seek ss' (i + 1), sa, take (i + 1) x)
                   else if \<not> mem (length sa + nat n) then Some (- 1, ss', sa, [])
                   else case substdio_get op ss' (nat n) of
                          Some (Got bs, ss'') \<Rightarrow> getln2_loop mem op ss'' (sa @ bs) sep
                        | _ \<Rightarrow> None))"

definition getln2 ::
  "(nat \<Rightarrow> bool) \<Rightarrow> ('w \<Rightarrow> nat \<Rightarrow> rd \<times> 'w) \<Rightarrow> 'w substdio \<Rightarrow> char list \<Rightarrow> char
   \<Rightarrow> (int \<times> 'w substdio \<times> char list \<times> char list) option" where
  "getln2 mem op ss sa sep =
     (if \<not> mem 0 then Some (- 1, ss, sa, []) else getln2_loop mem op ss [] sep)"

definition getln ::
  "(nat \<Rightarrow> bool) \<Rightarrow> ('w \<Rightarrow> nat \<Rightarrow> rd \<times> 'w) \<Rightarrow> 'w substdio \<Rightarrow> char list \<Rightarrow> bool \<Rightarrow> char
   \<Rightarrow> (int \<times> 'w substdio \<times> char list \<times> bool) option" where
  "getln mem op ss sa m sep =
     (case getln2 mem op ss sa sep of
        None \<Rightarrow> None
      | Some (r, ss', sa', cont) \<Rightarrow>
          Some (if r = - 1 then (- 1, ss', sa', m)
                else if cont = [] then (0, ss', sa', False)
                else if \<not> mem (length sa' + length cont + 1) then (- 1, ss', sa', m)
                else (0, ss', sa' @ cont, True)))"

section \<open>Header and body\<close>

definition getsa ::
  "(nat \<Rightarrow> bool) \<Rightarrow> ('w \<Rightarrow> nat \<Rightarrow> rd \<times> 'w) \<Rightarrow> 'w substdio \<Rightarrow> char list \<Rightarrow> bool
   \<Rightarrow> (int \<times> 'w substdio \<times> char list \<times> bool) option" where
  "getsa mem op ss sa m =
     (if \<not> m then Some (0, ss, sa, m)
      else case getln mem op ss sa m LF of
             None \<Rightarrow> None
           | Some (r, ss', sa', m') \<Rightarrow>
               Some (if r = - 1 then (- 1, ss', sa', m')
                     else if m' then (1, ss', sa', m')
                     else if sa' = [] then (0, ss', sa', m')
                     else if \<not> mem (length sa' + 1) then (- 1, ss', sa', m')
                     else (1, ss', sa' @ [LF], m')))"

datatype hb_call = Hf "char list" | Hdone | Bl "char list"

partial_function (option) hb_body ::
  "(nat \<Rightarrow> bool) \<Rightarrow> ('w \<Rightarrow> nat \<Rightarrow> rd \<times> 'w) \<Rightarrow> 'w substdio \<Rightarrow> char list \<Rightarrow> bool \<Rightarrow> hb_call list
   \<Rightarrow> (int \<times> 'w substdio \<times> hb_call list) option" where
  "hb_body mem op ss nextline m calls =
     (case getsa mem op ss nextline m of
        None \<Rightarrow> None
      | Some (r, ss', nextline', m') \<Rightarrow>
          (if r = - 1 then Some (- 1, ss', calls)
           else if r = 0 then Some (0, ss', calls)
           else hb_body mem op ss' nextline' m' (calls @ [Bl nextline'])))"

partial_function (option) hb_header ::
  "(nat \<Rightarrow> bool) \<Rightarrow> ('w \<Rightarrow> nat \<Rightarrow> rd \<times> 'w) \<Rightarrow> 'w substdio \<Rightarrow> bool \<Rightarrow> char list \<Rightarrow> char list \<Rightarrow> bool \<Rightarrow> hb_call list
   \<Rightarrow> (int \<times> 'w substdio \<times> hb_call list) option" where
  "hb_header mem op ss flaglineok line nextline m calls =
     (case getsa mem op ss nextline m of
        None \<Rightarrow> None
      | Some (r, ss', nl, m') \<Rightarrow>
          (if r = - 1 then Some (- 1, ss', calls)
           else if r = 0 then Some (0, ss', calls @ (if flaglineok then [Hf line] else []) @ [Hdone])
           else if flaglineok \<and> (char_at nl 0 = SP \<or> char_at nl 0 = TAB)
           then (if \<not> mem (length line + length nl + 1) then Some (- 1, ss', calls)
                 else hb_header mem op ss' flaglineok (line @ nl) nl m' calls)
           else let calls' = calls @ (if flaglineok then [Hf line] else [])
                in if length nl = 1 then hb_body mem op ss' nl m' (calls' @ [Hdone, Bl nl])
                   else if take 5 nl = ''From '' then
                     (if \<not> mem (length ''MBOX-Line: '' + 1) \<or> \<not> mem (length ''MBOX-Line: '' + length nl + 1) then Some (- 1, ss', calls')
                      else hb_header mem op ss' True (''MBOX-Line: '' @ nl) nl m' calls')
                   else if hfield_valid nl then
                     (if \<not> mem (length nl + 1) then Some (- 1, ss', calls') else hb_header mem op ss' True nl nl m' calls')
                   else (if \<not> mem 2 then Some (- 1, ss', calls' @ [Hdone])
                         else hb_body mem op ss' nl m' (calls' @ [Hdone, Bl [LF], Bl nl]))))"

definition headerbody ::
  "(nat \<Rightarrow> bool) \<Rightarrow> ('w \<Rightarrow> nat \<Rightarrow> rd \<times> 'w) \<Rightarrow> 'w substdio \<Rightarrow> (int \<times> 'w substdio \<times> hb_call list) option" where
  "headerbody mem op ss = hb_header mem op ss False [] [] True []"

section \<open>What the calls should be\<close>

text \<open>The lines of a text, each with its newline; one is added to a last line that has none.\<close>

function text_lines :: "char list \<Rightarrow> char list list" where
  "text_lines s =
     (if s = [] then [] else (takeWhile (\<lambda>c. c \<noteq> LF) s @ [LF]) # text_lines (tl (dropWhile (\<lambda>c. c \<noteq> LF) s)))"
  by pat_completeness auto
termination
proof (relation "measure length")
  fix s :: "char list"
  assume "s \<noteq> []"
  then show "(tl (dropWhile (\<lambda>c. c \<noteq> LF) s), s) \<in> measure length"
    using length_dropWhile_le [of "\<lambda>c. c \<noteq> LF" s] by (simp add: less_diff_conv2 Suc_le_eq [symmetric]) (cases s; simp)
qed simp

declare text_lines.simps [simp del]

fun header_events :: "char list option \<Rightarrow> char list list \<Rightarrow> hb_call list" where
  "header_events field [] = (case field of None \<Rightarrow> [] | Some f \<Rightarrow> [Hf f]) @ [Hdone]"
| "header_events field (l # ls) =
     (if field \<noteq> None \<and> (hd l = SP \<or> hd l = TAB) then header_events (Some (the field @ l)) ls
      else (case field of None \<Rightarrow> [] | Some f \<Rightarrow> [Hf f]) @
           (if length l = 1 then Hdone # Bl l # map Bl ls
            else if take 5 l = ''From '' then header_events (Some (''MBOX-Line: '' @ l)) ls
            else if hfield_valid l then header_events (Some l) ls
            else Hdone # Bl [LF] # Bl l # map Bl ls))"

section \<open>Reading one line\<close>

lemma take_Suc_byte_chr: "c \<in> set s \<Longrightarrow> take (Suc (byte_chr s c)) s = takeWhile (\<lambda>x. x \<noteq> c) s @ [c]"
  by (induction s) auto

lemma drop_Suc_byte_chr: "c \<in> set s \<Longrightarrow> drop (Suc (byte_chr s c)) s = tl (dropWhile (\<lambda>x. x \<noteq> c) s)"
  by (induction s) auto

lemma getthis_all: "getthis s (sp s) = (Got (take (sp s) (substdio_peek s)), substdio_seek s (sp s))"
  by (simp add: getthis_def substdio_peek_def substdio_seek_def)

context reader
begin

text \<open>The next line of a text, with its separator where it has one, and the rest.\<close>

lemma getln2_loop_line:
  assumes "in_inv ss" "\<not> bad (sw ss)" "\<forall>n. mem n"
  shows "\<exists>ss' sa' cont. getln2_loop mem op ss sa sep = Some (0, ss', sa', cont) \<and> in_inv ss' \<and> \<not> bad (sw ss') \<and>
     (if sep \<in> set (stream ss) then cont \<noteq> [] \<and> sa' @ cont = sa @ takeWhile (\<lambda>c. c \<noteq> sep) (stream ss) @ [sep] \<and>
        stream ss' = tl (dropWhile (\<lambda>c. c \<noteq> sep) (stream ss))
      else cont = [] \<and> sa' = sa @ stream ss \<and> stream ss' = [])"
  using assms(1,2)
proof (induction "length (stream ss)" arbitrary: ss sa rule: less_induct)
  case less
  from less.prems(1) show ?case
  proof (cases rule: feed_outcome)
    case (1 s')
    let ?x = "take (sp s') (substdio_peek s')" let ?i = "byte_chr ?x sep" let ?n = "substdio_seek s' (sp s')"
    have sk: "stream ss = ?x @ stream ?n" "length ?x = sp s'" "in_inv ?n" "\<not> bad (sw ?n)"
      using seek_stream [of s' "sp s'"] 1 less.prems by simp_all
    have ln: "getln2_loop mem op ss sa sep = (if ?i < sp s' then Some (0, substdio_seek s' (?i + 1), sa, take (?i + 1) ?x)
        else getln2_loop mem op ?n (sa @ ?x) sep)"
      using 1 assms(3) by (subst getln2_loop.simps) (simp add: Let_def substdio_get_def getthis_all)
    show ?thesis
    proof (cases "sep \<in> set ?x")
      case True
      then have i: "?i < sp s'" using byte_chr_less_iff [of ?x sep] sk(2) by simp
      let ?m = "substdio_seek s' (?i + 1)"
      have m: "in_inv ?m" "stream ss = take (?i + 1) (substdio_peek s') @ stream ?m" "sw ?m = sw s'"
        "length (take (?i + 1) (substdio_peek s')) = ?i + 1"
        using seek_stream [of s' "?i + 1"] i 1 by simp_all
      have pre: "take (?i + 1) (stream ss) = takeWhile (\<lambda>c. c \<noteq> sep) (stream ss) @ [sep]"
        and post: "drop (?i + 1) (stream ss) = tl (dropWhile (\<lambda>c. c \<noteq> sep) (stream ss))"
        using take_Suc_byte_chr [OF True] drop_Suc_byte_chr [OF True] True sk(1,2) i by auto
      have "take (?i + 1) ?x = take (?i + 1) (stream ss)" using sk(1,2) i by simp
      moreover have "stream ?m = drop (?i + 1) (stream ss)" using m(2,4) by simp
      moreover have "sep \<in> set (stream ss)" using True sk(1) by simp
      ultimately show ?thesis using ln i m(1,3) 1(5) less.prems(2) unfolding pre post by simp
    next
      case False
      then have i: "\<not> ?i < sp s'" using byte_chr_miss [OF False] sk(2) by linarith
      have "length (stream ?n) < length (stream ss)" using sk(1,2) 1(3) by simp
      note IH = less.hyps [OF this sk(3,4), of "sa @ ?x"]
      have "takeWhile (\<lambda>c. c \<noteq> sep) (stream ss) = ?x @ takeWhile (\<lambda>c. c \<noteq> sep) (stream ?n)"
        "dropWhile (\<lambda>c. c \<noteq> sep) (stream ss) = dropWhile (\<lambda>c. c \<noteq> sep) (stream ?n)"
        "sep \<in> set (stream ss) \<longleftrightarrow> sep \<in> set (stream ?n)"
        unfolding sk(1) using False by (auto intro: takeWhile_append2 dropWhile_append2)
      moreover have "getln2_loop mem op ss sa sep = getln2_loop mem op ?n (sa @ ?x) sep" using ln i by simp
      ultimately show ?thesis using IH sk(1) by (simp only: append_assoc)
    qed
  next
    case (2 s')
    then show ?thesis using less.prems by (subst getln2_loop.simps) simp
  next
    case (3 s')
    then show ?thesis using less.prems by simp
  qed
qed

lemma getln_line:
  assumes "in_inv ss" "\<not> bad (sw ss)" "\<forall>n. mem n"
  shows "\<exists>ss' sa'. getln mem op ss sa m sep = Some (0, ss', sa', sep \<in> set (stream ss)) \<and> in_inv ss' \<and> \<not> bad (sw ss') \<and>
     (if sep \<in> set (stream ss) then sa' = takeWhile (\<lambda>c. c \<noteq> sep) (stream ss) @ [sep] \<and>
        stream ss' = tl (dropWhile (\<lambda>c. c \<noteq> sep) (stream ss))
      else sa' = stream ss \<and> stream ss' = [])"
proof -
  obtain ss' sa' cont where *: "getln2_loop mem op ss [] sep = Some (0, ss', sa', cont)" "in_inv ss'" "\<not> bad (sw ss')"
    "if sep \<in> set (stream ss) then cont \<noteq> [] \<and> sa' @ cont = takeWhile (\<lambda>c. c \<noteq> sep) (stream ss) @ [sep] \<and>
        stream ss' = tl (dropWhile (\<lambda>c. c \<noteq> sep) (stream ss))
      else cont = [] \<and> sa' = stream ss \<and> stream ss' = []"
    using getln2_loop_line [OF assms, where sa = "[]" and sep = sep] by auto
  have "getln mem op ss sa m sep = Some (if cont = [] then (0, ss', sa', False) else (0, ss', sa' @ cont, True))"
    using *(1) assms(3) by (simp add: getln_def getln2_def)
  then show ?thesis using * by (auto split: if_splits)
qed

text \<open>\<open>getsa\<close> hands out the lines of the text one by one.\<close>

definition at_lines :: "'w substdio \<Rightarrow> bool \<Rightarrow> char list list \<Rightarrow> bool" where
  "at_lines ss m ls \<longleftrightarrow> in_inv ss \<and> \<not> bad (sw ss) \<and> (if m then text_lines (stream ss) = ls else ls = [])"

lemma getsa_lines:
  assumes "at_lines ss m ls" "\<forall>n. mem n"
  obtains ss' sa' m' where "ls = []" "getsa mem op ss sa m = Some (0, ss', sa', m')" "in_inv ss'"
  | l ls' ss' m' where "ls = l # ls'" "getsa mem op ss sa m = Some (1, ss', l, m')" "at_lines ss' m' ls'"
proof (cases m)
  case False
  then show thesis using assms that(1) [of ss sa m] by (simp add: at_lines_def getsa_def)
next
  case True
  let ?s = "stream ss"
  have inv: "in_inv ss" "\<not> bad (sw ss)" and ls: "text_lines ?s = ls" using assms True by (auto simp: at_lines_def)
  obtain ss' sa' where *: "getln mem op ss sa m LF = Some (0, ss', sa', LF \<in> set ?s)" "in_inv ss'" "\<not> bad (sw ss')"
    "if LF \<in> set ?s then sa' = takeWhile (\<lambda>c. c \<noteq> LF) ?s @ [LF] \<and> stream ss' = tl (dropWhile (\<lambda>c. c \<noteq> LF) ?s)
     else sa' = ?s \<and> stream ss' = []"
    using getln_line [OF inv assms(2), where sa = sa and m = m and sep = LF] by auto
  show thesis
  proof (cases "?s = []")
    case Nil: True
    then show thesis using that(1) [of ss' sa' False] * True ls by (simp add: getsa_def text_lines.simps [of "[]"])
  next
    case False
    have l: "ls = (takeWhile (\<lambda>c. c \<noteq> LF) ?s @ [LF]) # text_lines (tl (dropWhile (\<lambda>c. c \<noteq> LF) ?s))"
      using ls False by (subst (asm) text_lines.simps) simp
    show thesis
    proof (cases "LF \<in> set ?s")
      case lf: True
      then show thesis using that(2) [OF l, of ss' True] * True by (simp add: getsa_def at_lines_def)
    next
      case no: False
      then have tw: "takeWhile (\<lambda>c. c \<noteq> LF) ?s = ?s" and dw: "dropWhile (\<lambda>c. c \<noteq> LF) ?s = []"
        by (auto simp: takeWhile_eq_all_conv dropWhile_eq_Nil_conv)
      have "ls = (?s @ [LF]) # []" using l by (simp add: tw dw text_lines.simps [of "[]"])
      then show thesis using that(2) [of "?s @ [LF]" "[]" ss' False] * True False no assms(2)
        by (simp add: getsa_def at_lines_def)
    qed
  qed
qed

lemma hb_body_lines:
  assumes "at_lines ss m ls" "\<forall>n. mem n"
  shows "\<exists>ss'. hb_body mem op ss nextline m calls = Some (0, ss', calls @ map Bl ls)"
  using assms(1)
proof (induction ls arbitrary: ss nextline m calls)
  case Nil
  from Nil show ?case
    by (rule getsa_lines [OF _ assms(2), where sa = nextline]) (subst hb_body.simps; simp)+
next
  case (Cons l ls)
  obtain ss' m' where *: "getsa mem op ss nextline m = Some (1, ss', l, m')" "at_lines ss' m' ls"
    by (rule getsa_lines [OF Cons.prems assms(2), where sa = nextline]) auto
  show ?case
    using Cons.IH [OF *(2), of l "calls @ [Bl l]"] *(1) by (subst hb_body.simps) simp
qed

lemma hb_header_lines:
  assumes "at_lines ss m ls" "\<forall>n. mem n"
    and "\<forall>l \<in> set ls. l \<noteq> []"
  shows "\<exists>ss'. hb_header mem op ss ok line nextline m calls =
           Some (0, ss', calls @ header_events (if ok then Some line else None) ls)"
  using assms(1,3)
proof (induction ls arbitrary: ss ok line nextline m calls)
  case Nil
  from Nil.prems(1) show ?case
    by (rule getsa_lines [OF _ assms(2), where sa = nextline]) (subst hb_header.simps; simp)+
next
  case (Cons l ls)
  obtain ss' m' where *: "getsa mem op ss nextline m = Some (1, ss', l, m')" "at_lines ss' m' ls"
    by (rule getsa_lines [OF Cons.prems(1) assms(2), where sa = nextline]) auto
  have hd: "char_at l 0 = hd l" using Cons.prems(2) by (cases l) auto
  let ?calls = "calls @ (if ok then [Hf line] else [])"
  have IH: "\<exists>ss'. hb_header mem op s ok' line' l m' calls' =
           Some (0, ss', calls' @ header_events (if ok' then Some line' else None) ls)" if "at_lines s m' ls" for s ok' line' calls'
    using Cons.IH [OF that] Cons.prems(2) by simp
  consider (more) "ok" "hd l = SP \<or> hd l = TAB"
    | (new) "\<not> (ok \<and> (hd l = SP \<or> hd l = TAB))" by blast
  then show ?case
  proof cases
    case more
    then show ?thesis using IH [OF *(2), of True "line @ l" calls] *(1) assms(2)
      by (subst hb_header.simps) (simp add: hd)
  next
    case new
    then have e: "header_events (if ok then Some line else None) (l # ls) = (if ok then [Hf line] else []) @
           (if length l = 1 then Hdone # Bl l # map Bl ls
            else if take 5 l = ''From '' then header_events (Some (''MBOX-Line: '' @ l)) ls
            else if hfield_valid l then header_events (Some l) ls
            else Hdone # Bl [LF] # Bl l # map Bl ls)"
      by (cases ok) (simp_all add: Let_def)
    have h: "hb_header mem op ss ok line nextline m calls =
       (if length l = 1 then hb_body mem op ss' l m' (?calls @ [Hdone, Bl l])
        else if take 5 l = ''From '' then hb_header mem op ss' True (''MBOX-Line: '' @ l) l m' ?calls
        else if hfield_valid l then hb_header mem op ss' True l l m' ?calls
        else hb_body mem op ss' l m' (?calls @ [Hdone, Bl [LF], Bl l]))"
      using new *(1) assms(2) by (subst hb_header.simps) (cases ok; simp add: hd Let_def)
    show ?thesis
      unfolding h e
      using hb_body_lines [OF *(2) assms(2), of l "?calls @ [Hdone, Bl l]"] IH [OF *(2), of True "''MBOX-Line: '' @ l" ?calls]
        IH [OF *(2), of True l ?calls] hb_body_lines [OF *(2) assms(2), of l "?calls @ [Hdone, Bl [LF], Bl l]"]
      by (cases "length l = 1"; cases "take 5 l = ''From ''"; cases "hfield_valid l"; simp)
  qed
qed

lemma text_lines_nonempty: "\<forall>l \<in> set (text_lines s). l \<noteq> []"
  by (induction s rule: text_lines.induct) (subst text_lines.simps, simp)

theorem headerbody_events:
  assumes "in_inv ss" "\<not> bad (sw ss)" "\<forall>n. mem n"
  shows "\<exists>ss'. headerbody mem op ss = Some (0, ss', header_events None (text_lines (stream ss)))"
  using hb_header_lines [of ss True "text_lines (stream ss)" mem False "[]" "[]" "[]"] assms text_lines_nonempty
  by (simp add: headerbody_def at_lines_def)

end

section \<open>What the calls tell\<close>

definition mark_from :: "char list \<Rightarrow> char list" where
  "mark_from l = (if take 5 l = ''From '' then ''MBOX-Line: '' @ l else l)"

definition calls_for :: "char list \<Rightarrow> char list list \<Rightarrow> hb_call list \<Rightarrow> bool" where
  "calls_for start ls calls \<longleftrightarrow>
     (\<exists>hfs body header rest. calls = map Hf hfs @ [Hdone] @ map Bl body \<and> ls = header @ rest \<and>
        concat hfs = start @ concat (map mark_from header) \<and>
        (body = rest \<and> (rest = [] \<or> length (hd rest) = 1) \<or> body = [LF] # rest \<and> rest \<noteq> []))"

lemma calls_forI:
  "calls = map Hf hfs @ [Hdone] @ map Bl body \<Longrightarrow> ls = header @ rest \<Longrightarrow>
    concat hfs = start @ concat (map mark_from header) \<Longrightarrow>
    body = rest \<and> (rest = [] \<or> length (hd rest) = 1) \<or> body = [LF] # rest \<and> rest \<noteq> [] \<Longrightarrow> calls_for start ls calls"
  unfolding calls_for_def by blast

lemma calls_for_field:
  assumes "calls_for start ls calls"
  shows "calls_for (f @ start) ls (Hf f # calls)"
proof -
  obtain hfs body header rest where "calls = map Hf hfs @ [Hdone] @ map Bl body" "ls = header @ rest"
    "concat hfs = start @ concat (map mark_from header)"
    "body = rest \<and> (rest = [] \<or> length (hd rest) = 1) \<or> body = [LF] # rest \<and> rest \<noteq> []"
    using assms unfolding calls_for_def by blast
  then show ?thesis
    by (intro calls_forI [of _ "f # hfs" body ls header rest]) auto
qed

lemma calls_for_line:
  assumes "calls_for (start @ mark_from l) ls calls"
  shows "calls_for start (l # ls) calls"
proof -
  obtain hfs body header rest where "calls = map Hf hfs @ [Hdone] @ map Bl body" "ls = header @ rest"
    "concat hfs = (start @ mark_from l) @ concat (map mark_from header)"
    "body = rest \<and> (rest = [] \<or> length (hd rest) = 1) \<or> body = [LF] # rest \<and> rest \<noteq> []"
    using assms unfolding calls_for_def by blast
  then show ?thesis
    by (intro calls_forI [of _ hfs body _ "l # header" rest]) auto
qed

lemma calls_for_body:
  "length l = 1 \<Longrightarrow> calls_for [] (l # ls) (Hdone # Bl l # map Bl ls)"
  "calls_for [] (l # ls) (Hdone # Bl [LF] # Bl l # map Bl ls)"
  by (rule calls_forI [of _ "[]" "l # ls" _ "[]" "l # ls"]; simp) (rule calls_forI [of _ "[]" "[LF] # l # ls" _ "[]" "l # ls"]; simp)

lemma mark_from_blank: "hd l = SP \<or> hd l = TAB \<Longrightarrow> mark_from l = l"
  by (cases l) (auto simp: mark_from_def)

lemma header_events_calls:
  "calls_for (case field of None \<Rightarrow> [] | Some f \<Rightarrow> f) ls (header_events field ls)"
proof (induction field ls rule: header_events.induct)
  case (1 field)
  show ?case
    by (rule calls_forI [of _ "case field of None \<Rightarrow> [] | Some f \<Rightarrow> [f]" "[]" _ "[]" "[]"]) (auto split: option.split)
next
  case (2 field l ls)
  let ?calls = "if length l = 1 then Hdone # Bl l # map Bl ls
            else if take 5 l = ''From '' then header_events (Some (''MBOX-Line: '' @ l)) ls
            else if hfield_valid l then header_events (Some l) ls
            else Hdone # Bl [LF] # Bl l # map Bl ls"
  show ?case
  proof (cases "field \<noteq> None \<and> (hd l = SP \<or> hd l = TAB)")
    case True
    then have "calls_for (the field @ mark_from l) ls (header_events (Some (the field @ l)) ls)"
      using "2.IH"(1) by (auto simp: mark_from_blank)
    from calls_for_line [OF this] True show ?thesis by auto
  next
    case False
    have "calls_for [] (l # ls) ?calls"
    proof (cases "length l = 1")
      case True
      then show ?thesis by (simp add: calls_for_body(1))
    next
      case len: False
      show ?thesis
      proof (cases "take 5 l = ''From ''")
        case True
        then have "calls_for ([] @ mark_from l) ls ?calls"
          using "2.IH"(2) False len by (simp add: mark_from_def)
        then show ?thesis by (rule calls_for_line)
      next
        case nofrom: False
        then have "hfield_valid l \<Longrightarrow> calls_for ([] @ mark_from l) ls ?calls"
          using "2.IH"(3) False len by (simp add: mark_from_def)
        then have "hfield_valid l \<Longrightarrow> calls_for [] (l # ls) ?calls" by (rule calls_for_line)
        then show ?thesis using len nofrom calls_for_body(2) [of l ls] by (cases "hfield_valid l") simp_all
      qed
    qed
    moreover from this have "calls_for (f @ []) (l # ls) (Hf f # ?calls)" for f by (rule calls_for_field)
    ultimately show ?thesis using False by (cases field) simp_all
  qed
qed

lemma concat_text_lines: "concat (text_lines s) = s @ (if s = [] \<or> last s = LF then [] else [LF])"
proof (induction s rule: text_lines.induct)
  case (1 s)
  show ?case
  proof (cases "s = []")
    case True
    then show ?thesis by (simp add: text_lines.simps [of "[]"])
  next
    case False
    let ?a = "takeWhile (\<lambda>c. c \<noteq> LF) s" let ?d = "dropWhile (\<lambda>c. c \<noteq> LF) s"
    have s: "s = ?a @ ?d" by simp
    have IH: "concat (text_lines (tl ?d)) = tl ?d @ (if tl ?d = [] \<or> last (tl ?d) = LF then [] else [LF])" by (rule 1 [OF False])
    have e: "concat (text_lines s) = ?a @ LF # concat (text_lines (tl ?d))"
      using False by (subst text_lines.simps) simp
    show ?thesis
    proof (cases ?d)
      case Nil
      then have a: "?a = s" using s by simp
      have "last s \<noteq> LF" using Nil last_in_set [OF False] by (auto simp: dropWhile_eq_Nil_conv)
      moreover have "concat (text_lines (tl ?d)) = []" by (simp add: Nil text_lines.simps [of "[]"])
      ultimately show ?thesis using e False a by simp
    next
      case (Cons c t)
      then have "c = LF" using hd_dropWhile [of "\<lambda>c. c \<noteq> LF" s] by auto
      then have s': "?a @ LF # t = s" using s Cons by simp
      then have "last s = (if t = [] then LF else last t)" by (metis last.simps last_appendR list.distinct(1))
      moreover have "concat (text_lines s) = s @ (if t = [] \<or> last t = LF then [] else [LF])"
        using e IH Cons s' by (metis append.assoc append_Cons list.sel(3))
      ultimately show ?thesis using False by simp
    qed
  qed
qed

section \<open>Properties\<close>

text \<open>\<open>headerbody\<close>, reading from a descriptor that does not fail, with memory, reads the text to its end and
  succeeds. It calls \<open>dohf\<close> for the header fields, then \<open>hdone\<close> once, then \<open>dobl\<close> for the body lines. The fields
  together are the header lines in order, with \<open>MBOX-Line: \<close> put before those that start with \<open>From \<close>; the body is the
  rest of the text, with an empty line before it where the text has none; and the lines together are the text, with its
  last newline.\<close>

theorem headerbody_calls:
  assumes "in_inv ss" and "\<not> fd_bad (sw ss)" and "\<forall>n. mem n"
  shows "\<exists>ss' hfs body header rest.
     headerbody mem fd_read ss = Some (0, ss', map Hf hfs @ [Hdone] @ map Bl body) \<and>
     concat hfs = concat (map mark_from header) \<and>
     (body = rest \<and> (rest = [] \<or> length (hd rest) = 1) \<or> body = [LF] # rest \<and> rest \<noteq> []) \<and>
     concat (header @ rest) = in_stream fd_left ss @
       (if in_stream fd_left ss = [] \<or> last (in_stream fd_left ss) = LF then [] else [LF])"
proof -
  obtain ss' where h: "headerbody mem fd_read ss = Some (0, ss', header_events None (text_lines (in_stream fd_left ss)))"
    using fdr.headerbody_events [OF assms] by auto
  have "calls_for [] (text_lines (in_stream fd_left ss)) (header_events None (text_lines (in_stream fd_left ss)))"
    using header_events_calls [of None] by simp
  then obtain hfs body header rest where
    "header_events None (text_lines (in_stream fd_left ss)) = map Hf hfs @ [Hdone] @ map Bl body"
    "text_lines (in_stream fd_left ss) = header @ rest" "concat hfs = concat (map mark_from header)"
    "body = rest \<and> (rest = [] \<or> length (hd rest) = 1) \<or> body = [LF] # rest \<and> rest \<noteq> []"
    unfolding calls_for_def append_Nil by blast
  with h concat_text_lines [of "in_stream fd_left ss"] show ?thesis by metis
qed

theorem headerbody_calls_witness:
  "\<exists>ss' hfs body header rest.
     headerbody (\<lambda>_. True) fd_read (substdio_fdbuf [Chunk ''To: a'', In_intr, Chunk ''b''] ''01'') =
       Some (0, ss', map Hf hfs @ [Hdone] @ map Bl body) \<and>
     concat hfs = concat (map mark_from header) \<and>
     (body = rest \<and> (rest = [] \<or> length (hd rest) = 1) \<or> body = [LF] # rest \<and> rest \<noteq> []) \<and>
     concat (header @ rest) = ''To: ab'' @ [LF]"
proof -
  let ?s = "substdio_fdbuf [Chunk ''To: a'', In_intr, Chunk ''b''] ''01''"
  have "in_inv ?s" "\<not> fd_bad (sw ?s)" "in_stream fd_left ?s = ''To: ab''"
    by (simp_all add: fdr.stream_fdbuf) (simp add: substdio_fdbuf_def)
  then show ?thesis
    using headerbody_calls [of ?s "\<lambda>_. True"] by simp
qed

end
