(* ===== verification/Dotstuff.thy ===== *)
theory Dotstuff
  imports Outcome
begin

text \<open>
  The body of a message on the wire: \<open>blast\<close> of \<open>qmail-remote.c\<close>, which encodes it, and \<open>blast\<close> of \<open>qmail-smtpd.c\<close>,
  which decodes it and counts the hops in the header.

  The encoder reads the message from \<open>ssin\<close>: the bytes that come, and then the end of the file or an error. What it gives
  to \<open>smtpto\<close> is the list of bytes. The decoder reads from the connection, whose \<open>saferead\<close> exits the process when the
  connection ends; what it gives to \<open>put\<close> is the list of bytes.
\<close>

section \<open>Encoding\<close>

datatype ending = At_eof | Read_error

datatype blast_exit = Temp_read | Perm_partialline

text \<open>The inner loop: the rest of a line whose current character is \<open>ch\<close>, to its newline.\<close>

fun blast_line :: "ending \<Rightarrow> char \<Rightarrow> char list \<Rightarrow> char list \<Rightarrow> (blast_exit \<times> char list) + (char list \<times> char list)" where
  "blast_line e ch inp sent =
     (if ch = LF then Inr (inp, sent)
      else case inp of
             [] \<Rightarrow> Inl (case e of At_eof \<Rightarrow> Perm_partialline | Read_error \<Rightarrow> Temp_read, sent @ [ch])
           | ch' # inp' \<Rightarrow> blast_line e ch' inp' (sent @ [ch]))"

declare blast_line.simps [simp del]

lemma blast_line_LF: "blast_line e LF inp sent = Inr (inp, sent)"
  by (simp add: blast_line.simps)

lemma blast_line_length: "blast_line e ch inp sent = Inr (inp', sent') \<Longrightarrow> length inp' \<le> length inp"
proof (induction inp arbitrary: ch sent)
  case Nil
  then show ?case by (cases "ch = LF") (simp_all add: blast_line_LF blast_line.simps [of e ch "[]"])
next
  case (Cons a inp)
  show ?case
  proof (cases "ch = LF")
    case True
    then show ?thesis using Cons.prems by (simp add: blast_line_LF)
  next
    case False
    then have "blast_line e a inp (sent @ [ch]) = Inr (inp', sent')"
      using Cons.prems by (simp add: blast_line.simps [of e ch "a # inp"])
    from Cons.IH [OF this] show ?thesis by simp
  qed
qed

function remote_blast_loop :: "ending \<Rightarrow> char list \<Rightarrow> char list \<Rightarrow> (blast_exit \<times> char list) + char list" where
  "remote_blast_loop e inp sent =
     (case inp of
        [] \<Rightarrow> (case e of At_eof \<Rightarrow> Inr sent | Read_error \<Rightarrow> Inl (Temp_read, sent))
      | ch # inp' \<Rightarrow>
          (case blast_line e ch inp' (if ch = CHR ''.'' then sent @ ''.'' else sent) of
             Inl x \<Rightarrow> Inl x
           | Inr (rest, sent') \<Rightarrow> remote_blast_loop e rest (sent' @ [CR, LF])))"
  by pat_completeness auto
termination by (relation "measure (\<lambda>(e, inp, sent). length inp)") (auto dest: blast_line_length)

declare remote_blast_loop.simps [simp del]

definition remote_blast :: "ending \<Rightarrow> char list \<Rightarrow> (blast_exit \<times> char list) + char list" where
  "remote_blast e inp = andthen (remote_blast_loop e inp []) (\<lambda>sent. Inr (sent @ ''.'' @ [CR, LF]))"

section \<open>Decoding\<close>

record blast_st =
  state :: nat
  hops :: nat
  flaginheader :: bool
  pos :: nat
  flagmaybex :: bool
  flagmaybey :: bool
  flagmaybez :: bool
  stored :: "char list"

definition blast_init :: blast_st where
  "blast_init = \<lparr>state = 1, hops = 0, flaginheader = True, pos = 0, flagmaybex = True, flagmaybey = True,
                 flagmaybez = True, stored = []\<rparr>"

definition blast_hops :: "char \<Rightarrow> blast_st \<Rightarrow> blast_st" where
  "blast_hops ch s =
     (if \<not> flaginheader s then s
      else
        let s = (if pos s < 9 then
              (let z = flagmaybez s \<and> \<not> (ch \<noteq> ''delivered'' ! pos s \<and> ch \<noteq> ''DELIVERED'' ! pos s);
                   h = (if z \<and> pos s = 8 then hops s + 1 else hops s);
                   x = flagmaybex s \<and> \<not> (pos s < 8 \<and> ch \<noteq> ''received'' ! pos s \<and> ch \<noteq> ''RECEIVED'' ! pos s);
                   h = (if x \<and> pos s = 7 then h + 1 else h);
                   y = flagmaybey s \<and> \<not> (pos s < 2 \<and> ch \<noteq> [CR, LF] ! pos s);
                   fih = \<not> (y \<and> pos s = 1)
               in s\<lparr>flagmaybez := z, flagmaybex := x, flagmaybey := y, hops := h, flaginheader := fih, pos := pos s + 1\<rparr>)
             else s)
        in if ch = LF then s\<lparr>pos := 0, flagmaybex := True, flagmaybey := True, flagmaybez := True\<rparr> else s)"

datatype blast_act = Straynewline | Finished | Goes "char list" nat

text \<open>The \<open>switch\<close> with the \<open>put\<close> after it: what is put, and the next state.\<close>

definition blast_switch :: "nat \<Rightarrow> char \<Rightarrow> blast_act" where
  "blast_switch st ch =
     (if st = 0 then
        if ch = LF then Straynewline else if ch = CR then Goes [] 4 else Goes [ch] 0
      else if st = 1 then
        if ch = LF then Straynewline else if ch = CHR ''.'' then Goes [] 2 else if ch = CR then Goes [] 4 else Goes [ch] 0
      else if st = 2 then
        if ch = LF then Straynewline else if ch = CR then Goes [] 3 else Goes [ch] 0
      else if st = 3 then
        if ch = LF then Finished else if ch = CR then Goes [CHR ''.'', CR] 4 else Goes [CHR ''.'', CR, ch] 0
      else if st = 4 then
        if ch = LF then Goes [ch] 1 else if ch \<noteq> CR then Goes [CR, ch] 0 else Goes [ch] 4
      else Goes [ch] st)"

datatype smtpd_exit = Stray "char list" | Conn_lost "char list"

text \<open>The result of a return is the final state and what the connection still holds.\<close>

fun smtpd_blast_loop :: "blast_st \<Rightarrow> char list \<Rightarrow> smtpd_exit + (blast_st \<times> char list)" where
  "smtpd_blast_loop s [] = Inl (Conn_lost (stored s))"
| "smtpd_blast_loop s (ch # inp) =
     (let s = blast_hops ch s
      in case blast_switch (state s) ch of
           Straynewline \<Rightarrow> Inl (Stray (stored s))
         | Finished \<Rightarrow> Inr (s, inp)
         | Goes out st \<Rightarrow> smtpd_blast_loop (s\<lparr>state := st, stored := stored s @ out\<rparr>) inp)"

definition smtpd_blast :: "char list \<Rightarrow> smtpd_exit + (blast_st \<times> char list)" where
  "smtpd_blast inp = smtpd_blast_loop blast_init inp"

section \<open>What the encoder sends\<close>

definition stuff :: "char list \<Rightarrow> char list" where
  "stuff l = (if l \<noteq> [] \<and> hd l = CHR ''.'' then ''.'' @ l else l) @ [CR, LF]"

lemma stuff_simps: "stuff [] = [CR, LF]" "stuff (c # l) = (if c = CHR ''.'' then [c] else []) @ c # l @ [CR, LF]"
  by (simp_all add: stuff_def)

definition on_wire :: "char list list \<Rightarrow> char list" where
  "on_wire ls = concat (map stuff ls) @ ''.'' @ [CR, LF]"

text \<open>A message of complete lines, each given without its newline.\<close>

definition as_message :: "char list list \<Rightarrow> char list" where
  "as_message ls = concat (map (\<lambda>l. l @ [LF]) ls)"

lemma as_message_simps [simp]: "as_message [] = []" "as_message (l # ls) = l @ LF # as_message ls"
  by (simp_all add: as_message_def)

lemma blast_line_complete:
  "LF \<notin> set (ch # l) \<Longrightarrow> blast_line e ch (l @ LF # inp) sent = Inr (inp, sent @ ch # l)"
proof (induction l arbitrary: ch sent)
  case Nil
  then show ?case by (subst blast_line.simps) (simp add: blast_line.simps [of e LF])
next
  case (Cons c l)
  then show ?case by (subst blast_line.simps) auto
qed

lemma remote_blast_loop_complete:
  assumes "\<forall>l \<in> set ls. LF \<notin> set l"
  shows "remote_blast_loop e (as_message ls @ rest) sent = remote_blast_loop e rest (sent @ concat (map stuff ls))"
  using assms
proof (induction ls arbitrary: sent)
  case Nil
  then show ?case by simp
next
  case (Cons l ls)
  have IH: "remote_blast_loop e (as_message ls @ rest) s = remote_blast_loop e rest (s @ concat (map stuff ls))" for s
    using Cons by simp
  show ?case
  proof (cases l)
    case Nil
    then show ?thesis using IH by (subst remote_blast_loop.simps) (simp add: blast_line_LF stuff_simps)
  next
    case (Cons c m)
    then have "LF \<notin> set (c # m)" using Cons.prems by simp
    from blast_line_complete [OF this, of e "as_message ls @ rest"] show ?thesis
      using IH Cons by (subst remote_blast_loop.simps) (simp add: stuff_simps)
  qed
qed

lemma remote_blast_complete:
  "\<forall>l \<in> set ls. LF \<notin> set l \<Longrightarrow> remote_blast At_eof (as_message ls) = Inr (on_wire ls)"
  using remote_blast_loop_complete [of ls At_eof "[]" "[]"]
  by (simp add: remote_blast_def on_wire_def remote_blast_loop.simps [of _ "[]"])

lemma blast_line_partial:
  "LF \<notin> set (ch # l) \<Longrightarrow> blast_line e ch l sent = Inl (case e of At_eof \<Rightarrow> Perm_partialline | Read_error \<Rightarrow> Temp_read, sent @ ch # l)"
proof (induction l arbitrary: ch sent)
  case Nil
  then show ?case by (subst blast_line.simps) auto
next
  case (Cons c l)
  then show ?case by (subst blast_line.simps) auto
qed

text \<open>Every text is complete lines and what stands after the last newline.\<close>

lemma text_split:
  obtains ls rest where "s = as_message ls @ rest" "\<forall>l \<in> set ls. LF \<notin> set l" "LF \<notin> set rest"
proof -
  have "\<exists>ls rest. s = as_message ls @ rest \<and> (\<forall>l \<in> set ls. LF \<notin> set l) \<and> LF \<notin> set rest"
  proof (induction "length s" arbitrary: s rule: less_induct)
    case less
    show ?case
    proof (cases "LF \<in> set s")
      case True
      then obtain l t where s: "s = l @ LF # t" "LF \<notin> set l" by (metis split_list_first)
      then obtain ls rest where "t = as_message ls @ rest" "\<forall>l \<in> set ls. LF \<notin> set l" "LF \<notin> set rest"
        using less [of t] by auto
      then show ?thesis using s by (intro exI [of _ "l # ls"] exI [of _ rest]) simp
    next
      case False
      then show ?thesis by (intro exI [of _ "[]"] exI [of _ s]) simp
    qed
  qed
  then show thesis using that by blast
qed

section \<open>What the decoder reads\<close>

text \<open>The decoder started in a state, on a line that the encoder has sent: the line is stored.\<close>

fun runs :: "nat \<Rightarrow> char list \<Rightarrow> (nat \<times> char list) option" where
  "runs st [] = Some (st, [])"
| "runs st (ch # inp) =
     (case blast_switch st ch of
        Goes out st' \<Rightarrow> map_option (\<lambda>(st'', out'). (st'', out @ out')) (runs st' inp)
      | _ \<Rightarrow> None)"

lemma runs_append:
  "runs st a = Some (st', out) \<Longrightarrow> runs st (a @ b) = map_option (\<lambda>(st'', out'). (st'', out @ out')) (runs st' b)"
proof (induction a arbitrary: st out)
  case Nil
  then show ?case by (cases "runs st' b") auto
next
  case (Cons c a)
  then show ?case
    by (cases "blast_switch st c"; cases "runs st' b") (auto split: option.splits)
qed

lemma runs_line:
  assumes "LF \<notin> set l"
  shows "runs 0 (l @ [CR, LF]) = Some (1, l @ [LF])" and "runs 4 (l @ [CR, LF]) = Some (1, CR # l @ [LF])"
  using assms by (induction l) (auto simp: blast_switch_def)

lemma runs_stuff:
  assumes "LF \<notin> set l"
  shows "runs 1 (stuff l) = Some (1, l @ [LF])"
proof (cases l)
  case Nil
  then show ?thesis by (simp add: stuff_simps blast_switch_def)
next
  case (Cons c m)
  then show ?thesis using runs_line [of m] assms
    by (cases "c = CHR ''.''"; cases "c = CR") (auto simp: stuff_simps blast_switch_def)
qed

lemma runs_stuffs: "\<forall>l \<in> set ls. LF \<notin> set l \<Longrightarrow> runs 1 (concat (map stuff ls)) = Some (1, as_message ls)"
proof (induction ls)
  case (Cons l ls)
  then show ?case by (simp add: runs_append [OF runs_stuff] del: One_nat_def)
qed simp

text \<open>The loop keeps two things apart: what the switch does with the bytes and what the hop counter sees of them.\<close>

definition hop_fold :: "char list \<Rightarrow> blast_st \<Rightarrow> blast_st" where
  "hop_fold inp s = fold blast_hops inp s"

lemma blast_hops_state [simp]: "state (blast_hops ch s) = state s" "stored (blast_hops ch s) = stored s"
  by (simp_all add: blast_hops_def Let_def)

lemma blast_hops_update: "blast_hops ch (s\<lparr>state := st, stored := out\<rparr>) = (blast_hops ch s)\<lparr>state := st, stored := out\<rparr>"
  by (simp add: blast_hops_def Let_def)

lemma blast_hops_fold_update: "fold blast_hops inp (s\<lparr>state := st, stored := out\<rparr>) = (fold blast_hops inp s)\<lparr>state := st, stored := out\<rparr>"
  by (induction inp arbitrary: s) (simp_all add: blast_hops_update)

lemma smtpd_blast_loop_runs:
  "runs (state s) a = Some (st, out) \<Longrightarrow>
    smtpd_blast_loop s (a @ b) = smtpd_blast_loop ((fold blast_hops a s)\<lparr>state := st, stored := stored s @ out\<rparr>) b"
proof (induction a arbitrary: s out)
  case Nil
  then show ?case by (cases s) auto
next
  case (Cons c a)
  obtain o1 st1 where g: "blast_switch (state s) c = Goes o1 st1" using Cons.prems by (auto split: blast_act.splits)
  obtain o2 where r: "runs st1 a = Some (st, o2)" "out = o1 @ o2" using Cons.prems g by auto
  have "smtpd_blast_loop s ((c # a) @ b) = smtpd_blast_loop ((blast_hops c s)\<lparr>state := st1, stored := stored s @ o1\<rparr>) (a @ b)"
    using g by (simp add: Let_def)
  also have "\<dots> = smtpd_blast_loop
      ((fold blast_hops a ((blast_hops c s)\<lparr>state := st1, stored := stored s @ o1\<rparr>))\<lparr>state := st, stored := (stored s @ o1) @ o2\<rparr>) b"
    using Cons.IH [of "(blast_hops c s)\<lparr>state := st1, stored := stored s @ o1\<rparr>" o2] r by simp
  finally show ?case using r by (simp add: blast_hops_fold_update)
qed

lemma fold_blast_hops_state [simp]: "state (fold blast_hops a s) = state s" "stored (fold blast_hops a s) = stored s"
  by (induction a arbitrary: s) simp_all

lemma runs_no_LF: "LF \<notin> set a \<Longrightarrow> \<exists>st' out. runs st a = Some (st', out)"
proof (induction a arbitrary: st)
  case (Cons c a)
  then have "c \<noteq> LF" by auto
  then have "\<exists>o1 st1. blast_switch st c = Goes o1 st1" by (simp add: blast_switch_def)
  then obtain o1 st1 where "blast_switch st c = Goes o1 st1" by blast
  moreover obtain st2 o2 where "runs st1 a = Some (st2, o2)" using Cons.IH [of st1] Cons.prems by auto
  ultimately show ?case by simp
qed simp

section \<open>Counting hops\<close>

text \<open>A word at the start of a line, each letter in either case.\<close>

definition begins_with :: "char list \<Rightarrow> char list \<Rightarrow> nat \<Rightarrow> char list \<Rightarrow> bool" where
  "begins_with low up n l \<longleftrightarrow> (\<forall>i < min n (length l). l ! i = low ! i \<or> l ! i = up ! i)"

lemma begins_with_snoc:
  "begins_with low up n (p @ [c]) \<longleftrightarrow>
     begins_with low up n p \<and> (length p < n \<longrightarrow> c = low ! length p \<or> c = up ! length p)"
  by (cases "length p < n") (auto simp: begins_with_def nth_append less_Suc_eq min_absorb1 min_absorb2)

definition hop_line :: "char list \<Rightarrow> bool" where
  "hop_line l \<longleftrightarrow> 9 \<le> length l \<and> begins_with ''delivered'' ''DELIVERED'' 9 l \<or>
     8 \<le> length l \<and> begins_with ''received'' ''RECEIVED'' 8 l"

abbreviation "is_delivered p \<equiv> begins_with ''delivered'' ''DELIVERED'' 9 p"
abbreviation "is_received p \<equiv> begins_with ''received'' ''RECEIVED'' 8 p"
abbreviation "is_empty_line p \<equiv> begins_with [CR, LF] [CR, LF] 2 p"

definition line_start :: "blast_st \<Rightarrow> bool" where
  "line_start s \<longleftrightarrow> flaginheader s \<and> pos s = 0 \<and> flagmaybex s \<and> flagmaybey s \<and> flagmaybez s"

definition seen :: "blast_st \<Rightarrow> char list \<Rightarrow> blast_st" where
  "seen s p = s\<lparr>pos := min 9 (length p), flagmaybez := is_delivered p, flagmaybex := is_received p, flagmaybey := is_empty_line p,
     hops := hops s + (if 9 \<le> length p \<and> is_delivered p then 1 else 0) + (if 8 \<le> length p \<and> is_received p then 1 else 0)\<rparr>"

lemma seen_Nil: "line_start s \<Longrightarrow> seen s [] = s"
  by (cases s) (simp add: seen_def line_start_def begins_with_def)

lemma seen_step:
  assumes "line_start s" "c \<noteq> LF"
  shows "blast_hops c (seen s p) = seen s (p @ [c])"
proof (cases "length p < 9")
  case False
  then have "\<not> length p < 8" "\<not> length p < 2" by auto
  then show ?thesis using assms False
    by (cases s) (simp add: blast_hops_def seen_def line_start_def begins_with_snoc Let_def)
next
  case True
  let ?n = "length p" let ?s = "seen s p"
  define z where "z \<longleftrightarrow> c = ''delivered'' ! ?n \<or> c = ''DELIVERED'' ! ?n"
  define x where "x \<longleftrightarrow> c = ''received'' ! ?n \<or> c = ''RECEIVED'' ! ?n"
  define y where "y \<longleftrightarrow> c = [CR, LF] ! ?n \<or> c = [CR, LF] ! ?n"
  have snoc: "is_delivered (p @ [c]) \<longleftrightarrow> is_delivered p \<and> z" "is_received (p @ [c]) \<longleftrightarrow> is_received p \<and> (?n < 8 \<longrightarrow> x)"
    "is_empty_line (p @ [c]) \<longleftrightarrow> is_empty_line p \<and> (?n < 2 \<longrightarrow> y)"
    using True unfolding begins_with_snoc z_def x_def y_def by blast+
  have ny: "?n = 1 \<Longrightarrow> \<not> y" using assms(2) by (simp add: y_def)
  have f: "flaginheader ?s" "pos ?s = ?n" "flagmaybez ?s = is_delivered p" "flagmaybex ?s = is_received p"
    "flagmaybey ?s = is_empty_line p" "hops ?s = hops s + (if 9 \<le> ?n \<and> is_delivered p then 1 else 0) +
       (if 8 \<le> ?n \<and> is_received p then 1 else 0)"
    using True assms(1) by (simp_all add: seen_def line_start_def)
  let ?z = "is_delivered p \<and> z" and ?x = "is_received p \<and> (?n < 8 \<longrightarrow> x)" and ?y = "is_empty_line p \<and> (?n < 2 \<longrightarrow> y)"
  have "blast_hops c ?s = ?s\<lparr>flagmaybez := ?z, flagmaybex := ?x, flagmaybey := ?y,
     hops := hops ?s + (if ?z \<and> ?n = 8 then 1 else 0) + (if ?x \<and> ?n = 7 then 1 else 0),
     flaginheader := \<not> (?y \<and> ?n = 1), pos := ?n + 1\<rparr>"
    using True assms(2) f(1,2) unfolding z_def x_def y_def
    by (simp only: blast_hops_def Let_def f(3-5) if_True if_False not_True_eq_False de_Morgan_conj not_not not_imp imp_conv_disj) auto
  also have "\<dots> = seen s (p @ [c])"
    using True ny f assms(1) unfolding seen_def snoc
    by (cases s) (auto simp: line_start_def)
  finally show ?thesis .
qed

lemma seen_fold:
  assumes "line_start s" "LF \<notin> set p"
  shows "fold blast_hops p s = seen s p"
  using assms(2)
proof (induction p rule: rev_induct)
  case Nil
  then show ?case using seen_Nil [OF assms(1)] by simp
next
  case (snoc c p)
  then show ?case using seen_step [OF assms(1), of c p] by auto
qed

lemma seen_LF:
  assumes "line_start s"
  shows "blast_hops LF (seen s p) = (seen s p)\<lparr>flaginheader := \<not> (is_empty_line p \<and> length p = 1),
     pos := 0, flagmaybex := True, flagmaybey := True, flagmaybez := True\<rparr>"
proof -
  have "pos (seen s p) = 8 \<Longrightarrow> LF \<noteq> ''delivered'' ! pos (seen s p) \<and> LF \<noteq> ''DELIVERED'' ! pos (seen s p)"
    "pos (seen s p) = 7 \<Longrightarrow> LF \<noteq> ''received'' ! pos (seen s p) \<and> LF \<noteq> ''RECEIVED'' ! pos (seen s p)"
    "pos (seen s p) = 1 \<Longrightarrow> LF = [CR, LF] ! pos (seen s p)" by simp_all
  moreover have "flaginheader (seen s p)" "pos (seen s p) = min 9 (length p)" "flagmaybey (seen s p) = is_empty_line p"
    using assms by (simp_all add: seen_def line_start_def)
  ultimately show ?thesis by (cases "seen s p") (auto simp: blast_hops_def Let_def)
qed

lemma empty_line_CR: "LF \<notin> set p \<Longrightarrow> is_empty_line p \<and> length p = 1 \<longleftrightarrow> p = [CR]"
  by (cases p) (auto simp: begins_with_def)

lemma begins_with_CR:
  assumes "CR \<notin> set low" "CR \<notin> set up" "n \<le> length low" "n \<le> length up"
  shows "n \<le> length (p @ [CR]) \<and> begins_with low up n (p @ [CR]) \<longleftrightarrow> n \<le> length p \<and> begins_with low up n p"
proof (cases "n \<le> length p")
  case True
  then show ?thesis by (auto simp: begins_with_snoc)
next
  case False
  then have "length p < n" by simp
  then have "\<not> (CR = low ! length p \<or> CR = up ! length p)" using assms by (metis nth_mem order_less_le_trans)
  then show ?thesis using \<open>length p < n\<close> by (auto simp: begins_with_snoc)
qed

text \<open>The two words differ in their first letter, so that a line counts once.\<close>

lemma hop_line_once: "8 \<le> length p \<Longrightarrow> is_delivered p \<Longrightarrow> is_received p \<Longrightarrow> False"
proof -
  assume "8 \<le> length p" "is_delivered p" "is_received p"
  then have "p ! 0 = CHR ''d'' \<or> p ! 0 = CHR ''D''" "p ! 0 = CHR ''r'' \<or> p ! 0 = CHR ''R''"
    unfolding begins_with_def by (auto dest!: spec [of _ 0])
  then show False by auto
qed

lemma dot_no_hop: "p \<noteq> [] \<Longrightarrow> hd p = CHR ''.'' \<Longrightarrow> \<not> is_delivered p \<and> \<not> is_received p"
  by (cases p) (auto simp: begins_with_def intro!: exI [of _ 0])

lemma hops_stuff:
  assumes "line_start s" "LF \<notin> set l"
  shows "(if l = [] then \<not> flaginheader (fold blast_hops (stuff l) s) else line_start (fold blast_hops (stuff l) s))"
    and "hops (fold blast_hops (stuff l) s) = hops s + (if hop_line l then 1 else 0)"
proof -
  let ?d = "if l \<noteq> [] \<and> hd l = CHR ''.'' then ''.'' @ l else l"
  let ?p = "?d @ [CR]"
  have nl: "LF \<notin> set ?p" using assms(2) by auto
  have e: "fold blast_hops (stuff l) s = blast_hops LF (seen s ?p)"
    using seen_fold [OF assms(1) nl] unfolding stuff_def by (simp add: append.assoc [symmetric] del: append.assoc append_assoc)
  have cr: "is_empty_line ?p \<and> length ?p = 1 \<longleftrightarrow> l = []" using empty_line_CR [OF nl] by (auto split: if_splits)
  show "if l = [] then \<not> flaginheader (fold blast_hops (stuff l) s) else line_start (fold blast_hops (stuff l) s)"
    unfolding e seen_LF [OF assms(1)] cr using assms(1) by (simp add: line_start_def seen_def)
  have b9: "9 \<le> length ?p \<and> is_delivered ?p \<longleftrightarrow> 9 \<le> length ?d \<and> is_delivered ?d"
    by (rule begins_with_CR) simp_all
  have b8: "8 \<le> length ?p \<and> is_received ?p \<longleftrightarrow> 8 \<le> length ?d \<and> is_received ?d"
    by (rule begins_with_CR) simp_all
  have h: "hops (fold blast_hops (stuff l) s) = hops s + (if 9 \<le> length ?p \<and> is_delivered ?p then 1 else 0) +
       (if 8 \<le> length ?p \<and> is_received ?p then 1 else 0)"
    unfolding e seen_LF [OF assms(1)] by (simp add: seen_def)
  also have "\<dots> = hops s + (if hop_line ?d then 1 else 0)"
    unfolding b9 b8 hop_line_def using hop_line_once [of ?d] by auto
  also have "hop_line ?d \<longleftrightarrow> hop_line l"
  proof (cases "l \<noteq> [] \<and> hd l = CHR ''.''")
    case True
    then show ?thesis using dot_no_hop [of l] dot_no_hop [of "''.'' @ l"] by (simp add: hop_line_def)
  next
    case False
    then show ?thesis by auto
  qed
  finally show "hops (fold blast_hops (stuff l) s) = hops s + (if hop_line l then 1 else 0)" .
qed

lemma hops_body: "\<not> flaginheader s \<Longrightarrow> fold blast_hops inp s = s"
  by (induction inp) (simp_all add: blast_hops_def)

definition hop_count :: "char list list \<Rightarrow> nat" where
  "hop_count ls = length (filter hop_line (takeWhile (\<lambda>l. l \<noteq> []) ls))"

lemma hops_stuffs:
  assumes "line_start s" "\<forall>l \<in> set ls. LF \<notin> set l"
  shows "hops (fold blast_hops (concat (map stuff ls)) s) = hops s + hop_count ls \<and>
    (if [] \<in> set ls then \<not> flaginheader (fold blast_hops (concat (map stuff ls)) s)
     else line_start (fold blast_hops (concat (map stuff ls)) s))"
  using assms
proof (induction ls arbitrary: s)
  case Nil
  then show ?case by (simp add: hop_count_def)
next
  case (Cons l ls)
  let ?s = "fold blast_hops (stuff l) s"
  have hs: "if l = [] then \<not> flaginheader ?s else line_start ?s" "hops ?s = hops s + (if hop_line l then 1 else 0)"
    using hops_stuff [of s l] Cons.prems by auto
  show ?case
  proof (cases "l = []")
    case True
    then have "\<not> hop_line l" by (simp add: hop_line_def)
    then show ?thesis using hs True hops_body [of ?s] by (simp add: hop_count_def)
  next
    case False
    then show ?thesis using hs Cons.IH [of ?s] Cons.prems by (simp add: hop_count_def)
  qed
qed

lemma hops_end:
  assumes "line_start s \<or> \<not> flaginheader s"
  shows "hops (fold blast_hops [CHR ''.'', CR, LF] s) = hops s"
proof (cases "flaginheader s")
  case True
  then have "line_start s" using assms by blast
  from seen_fold [OF this, of "[CHR ''.'', CR]"] seen_LF [OF this, of "[CHR ''.'', CR]"]
  show ?thesis by (simp add: seen_def begins_with_def)
next
  case False
  then show ?thesis using hops_body [of s "[CHR ''.'', CR, LF]"] by simp
qed

lemma smtpd_reads_wire:
  assumes "\<forall>l \<in> set ls. LF \<notin> set l"
  shows "\<exists>s. smtpd_blast (on_wire ls @ next_command) = Inr (s, next_command) \<and> stored s = as_message ls \<and> hops s = hop_count ls"
proof -
  let ?w = "concat (map stuff ls)" let ?f = "fold blast_hops ?w blast_init"
  have init: "state blast_init = 1" "stored blast_init = []" "line_start blast_init" "hops blast_init = 0"
    by (simp_all add: blast_init_def line_start_def)
  let ?s = "?f\<lparr>state := 1, stored := as_message ls\<rparr>"
  have 1: "smtpd_blast (on_wire ls @ next_command) = smtpd_blast_loop ?s ([CHR ''.'', CR, LF] @ next_command)"
    using smtpd_blast_loop_runs [of blast_init ?w 1 "as_message ls" "[CHR ''.'', CR, LF] @ next_command"]
      runs_stuffs [OF assms] init
    by (simp add: smtpd_blast_def on_wire_def)
  also have "runs (state ?s) [CHR ''.'', CR] = Some (3, [])" by (simp add: blast_switch_def)
  then have "smtpd_blast_loop ?s ([CHR ''.'', CR, LF] @ next_command) =
      smtpd_blast_loop ((fold blast_hops [CHR ''.'', CR] ?s)\<lparr>state := 3, stored := as_message ls\<rparr>) (LF # next_command)"
    using smtpd_blast_loop_runs [of ?s "[CHR ''.'', CR]" 3 "[]" "LF # next_command"] by simp
  also have "\<dots> = Inr (blast_hops LF ((fold blast_hops [CHR ''.'', CR] ?s)\<lparr>state := 3, stored := as_message ls\<rparr>), next_command)"
    by (simp add: blast_switch_def Let_def)
  also have "blast_hops LF ((fold blast_hops [CHR ''.'', CR] ?s)\<lparr>state := 3, stored := as_message ls\<rparr>) =
      (fold blast_hops [CHR ''.'', CR, LF] ?s)\<lparr>state := 3, stored := as_message ls\<rparr>"
    by (simp add: blast_hops_update)
  finally have run: "smtpd_blast (on_wire ls @ next_command) =
      Inr ((fold blast_hops [CHR ''.'', CR, LF] ?s)\<lparr>state := 3, stored := as_message ls\<rparr>, next_command)" .
  have "hops ?s = hop_count ls" "line_start ?s \<or> \<not> flaginheader ?s"
    using hops_stuffs [OF init(3) assms] init(4) by (auto simp: line_start_def split: if_splits)
  from hops_end [OF this(2)] this(1)
  have "hops (fold blast_hops [CHR ''.'', CR, LF] ?s) = hop_count ls" by simp
  then show ?thesis using run by auto
qed

lemma remote_blast_incomplete:
  assumes "\<forall>l \<in> set ls. LF \<notin> set l" and "LF \<notin> set rest" and "rest \<noteq> [] \<or> e = Read_error"
  shows "\<exists>d. LF \<notin> set d \<and> remote_blast e (as_message ls @ rest) =
    Inl (case e of At_eof \<Rightarrow> Perm_partialline | Read_error \<Rightarrow> Temp_read, concat (map stuff ls) @ d)"
proof -
  let ?sent = "concat (map stuff ls)" let ?x = "case e of At_eof \<Rightarrow> Perm_partialline | Read_error \<Rightarrow> Temp_read"
  have "\<exists>d. LF \<notin> set d \<and> remote_blast_loop e rest ?sent = Inl (?x, ?sent @ d)"
  proof (cases rest)
    case Nil
    then show ?thesis using assms(3) by (intro exI [of _ "[]"]) (simp add: remote_blast_loop.simps)
  next
    case (Cons c m)
    then have "LF \<notin> set (c # m)" using assms(2) by simp
    from blast_line_partial [OF this, of e] this Cons show ?thesis
      by (intro exI [of _ "(if c = CHR ''.'' then [c] else []) @ rest"]) (auto simp: remote_blast_loop.simps)
  qed
  then show ?thesis using remote_blast_loop_complete [OF assms(1), of e rest "[]"] by (auto simp: remote_blast_def)
qed

section \<open>Properties\<close>

text \<open>C32: what the server's \<open>blast\<close> stores of what the client's \<open>blast\<close> sent is the message, byte for byte: for every
  message of complete lines, of whatever bytes, the client sends it without an error, and the server, reading that from the
  connection, stores exactly the message, consumes exactly what was sent, never reports a stray newline, and has counted
  the lines of the header that start with \<open>Received\<close> or \<open>Delivered\<close>.\<close>

theorem blast_roundtrip:
  assumes "\<forall>l \<in> set ls. LF \<notin> set l"
  shows "\<exists>sent s. remote_blast At_eof (as_message ls) = Inr sent \<and>
     smtpd_blast (sent @ next_command) = Inr (s, next_command) \<and> stored s = as_message ls \<and> hops s = hop_count ls"
  using remote_blast_complete [OF assms] smtpd_reads_wire [OF assms] by blast

theorem blast_roundtrip_witness:
  "\<exists>sent s. remote_blast At_eof (as_message [''Received: x'', [], ''.'', [CR]]) = Inr sent \<and>
     smtpd_blast (sent @ ''QUIT'') = Inr (s, ''QUIT'') \<and> stored s = as_message [''Received: x'', [], ''.'', [CR]] \<and>
     hops s = hop_count [''Received: x'', [], ''.'', [CR]]"
  by (rule blast_roundtrip) simp

text \<open>C39: the client sends no partial message as a whole one. If the message does not end with a newline, or reading it
  fails, \<open>blast\<close> does not return, and what it has sent by then ends no message: a server that reads it is still waiting.\<close>

theorem blast_partial:
  assumes "\<forall>l \<in> set ls. LF \<notin> set l" and "LF \<notin> set rest" and "rest \<noteq> [] \<or> e = Read_error"
  shows "\<exists>x sent. remote_blast e (as_message ls @ rest) = Inl (x, sent) \<and>
     (x = Perm_partialline \<longleftrightarrow> e = At_eof) \<and> (\<exists>got. smtpd_blast sent = Inl (Conn_lost got))"
proof -
  let ?sent = "concat (map stuff ls)" let ?x = "case e of At_eof \<Rightarrow> Perm_partialline | Read_error \<Rightarrow> Temp_read"
  obtain d where d: "LF \<notin> set d" "remote_blast e (as_message ls @ rest) = Inl (?x, ?sent @ d)"
    using remote_blast_incomplete [OF assms] by blast
  obtain st out where "runs 1 d = Some (st, out)" using runs_no_LF [OF d(1)] by blast
  then have "runs (state blast_init) (?sent @ d) = Some (st, as_message ls @ out)"
    using runs_append [OF runs_stuffs [OF assms(1)], of d] by (simp add: blast_init_def del: One_nat_def)
  from smtpd_blast_loop_runs [OF this, of "[]"]
  have "\<exists>got. smtpd_blast (?sent @ d) = Inl (Conn_lost got)" by (simp add: smtpd_blast_def)
  moreover have "?x = Perm_partialline \<longleftrightarrow> e = At_eof" by (cases e) simp_all
  ultimately show ?thesis using d(2) by blast
qed

theorem blast_partial_witness:
  "\<exists>x sent. remote_blast At_eof (as_message [''a''] @ ''.'') = Inl (x, sent) \<and>
     (x = Perm_partialline \<longleftrightarrow> At_eof = At_eof) \<and> (\<exists>got. smtpd_blast sent = Inl (Conn_lost got))"
  by (rule blast_partial) simp_all

end
