(* ===== verification/Remote.thy ===== *)
theory Remote
  imports Dotstuff Base64 Header Numtext
begin

text \<open>
  The SMTP client, \<open>qmail-remote.c\<close>.

  The \<open>client\<close> is what changes while a message is sent: the bytes the server will still send, the text of its last reply
  (\<open>smtptext\<close>), the bytes given to \<open>smtpto\<close>, the report given to \<open>subfdoutsmall\<close>, and \<open>flagcritical\<close>. Its surroundings, \<open>remote_env\<close>,
  do not change: \<open>net\<close> says, of the bytes given to the connection so far, whether it has taken them, so that a failing \<open>safewrite\<close>
  may happen at any \<open>put\<close>; \<open>rmem\<close> says whether memory can be had; the message that \<open>ssin\<close> will deliver; the strings of the command
  line and the control files. \<open>matchregex\<close> (the C library's regular expressions) and the exchange after \<open>STARTTLS\<close>
  (OpenSSL) are parameters. No file \<open>control/tlshosts/\<close> is there, so that \<open>needtlsauth\<close> is 0.

  A function that ends the process by \<open>zerodie\<close> gives \<open>Inl\<close> with the final client; its report ends with a NUL.
\<close>

section \<open>State\<close>

record client =
  reply :: "char list"
  smtptext :: "char list"
  sent :: "char list"
  report :: "char list"
  flagcritical :: bool

record remote_env =
  rmem :: "nat \<Rightarrow> bool"
  net :: "char list \<Rightarrow> bool"
  partner :: ip_address
  helohost :: "char list"
  sender :: "char list"
  reciplist :: "char list list"
  message :: "char list"
  message_end :: ending
  auth_smtp_user :: "char list"
  auth_smtp_pass :: "char list"
  allow_insecure_auth :: bool
  can_tls :: bool
  matchregex :: "char list \<Rightarrow> char list \<Rightarrow> int"
  starttls :: "client \<Rightarrow> client + bool \<times> client"

section \<open>Reports\<close>

definition out :: "char list \<Rightarrow> client \<Rightarrow> client" where
  "out s st = st\<lparr>report := report st @ cstr s\<rparr>"

definition zero :: "client \<Rightarrow> client" where
  "zero st = st\<lparr>report := report st @ [NUL]\<rparr>"

definition zerodie :: "client \<Rightarrow> client + 'a" where
  "zerodie st = Inl (zero st)"

fun outsafe :: "char list \<Rightarrow> char list" where
  "outsafe [] = []"
| "outsafe (ch # s) = (let ch = (if sch ch < 33 then CHR ''?'' else ch); ch = (if sch ch > 126 then CHR ''?'' else ch) in ch # outsafe s)"

definition temp_nomem :: "client \<Rightarrow> client + 'a" where
  "temp_nomem st = zerodie (out (''ZOut of memory. (#4.3.0)'' @ [LF]) st)"

definition temp_oserr :: "client \<Rightarrow> client + 'a" where
  "temp_oserr st = zerodie (out (''ZSystem resources temporarily unavailable. (#4.3.0)'' @ [LF]) st)"

definition temp_noconn :: "client \<Rightarrow> client + 'a" where
  "temp_noconn st = zerodie (out (''ZSorry, I wasn't able to establish an SMTP connection. (#4.4.1)'' @ [LF]) st)"

definition temp_read :: "client \<Rightarrow> client + 'a" where
  "temp_read st = zerodie (out (''ZUnable to read message. (#4.3.0)'' @ [LF]) st)"

definition temp_dnscanon :: "client \<Rightarrow> client + 'a" where
  "temp_dnscanon st = zerodie (out (''ZCNAME lookup failed temporarily. (#4.4.3)'' @ [LF]) st)"

definition temp_dns :: "client \<Rightarrow> client + 'a" where
  "temp_dns st = zerodie (out (''ZSorry, I couldn't find any host by that name. (#4.1.2)'' @ [LF]) st)"

definition perm_partialline :: "client \<Rightarrow> client + 'a" where
  "perm_partialline st = zerodie (out (''DSMTP cannot transfer messages with partial final lines. (#5.6.2)'' @ [LF]) st)"

definition perm_dns :: "char list \<Rightarrow> client \<Rightarrow> client + 'a" where
  "perm_dns host st =
     zerodie (out (''. (#5.1.2)'' @ [LF])
       ((out (''DSorry, I couldn't find any host named '') st)
         \<lparr>report := report (out (''DSorry, I couldn't find any host named '') st) @ outsafe host\<rparr>))"

definition perm_nomx :: "client \<Rightarrow> client + 'a" where
  "perm_nomx st = zerodie (out (''DSorry, I couldn't find a mail exchanger or IP address. (#5.4.4)'' @ [LF]) st)"

definition perm_ambigmx :: "client \<Rightarrow> client + 'a" where
  "perm_ambigmx st = zerodie (out (''DSorry. Although I'm listed as a best-preference MX or A for that host,'' @ [LF] @
     ''it isn't in my control/locals file, so I don't treat it as local. (#5.4.6)'' @ [LF]) st)"

definition outhost :: "remote_env \<Rightarrow> client \<Rightarrow> client" where
  "outhost env st = st\<lparr>report := report st @ ip_fmt (partner env)\<rparr>"

definition dropped :: "remote_env \<Rightarrow> client \<Rightarrow> client + 'a" where
  "dropped env st =
     (let st = out '' but connection died. '' (outhost env (out ''ZConnected to '' st));
          st = (if flagcritical st then out ''Possible duplicate! '' st else st)
      in zerodie (out (''(#4.4.2)'' @ [LF]) st))"

section \<open>The connection\<close>

definition put_net :: "remote_env \<Rightarrow> char list \<Rightarrow> client \<Rightarrow> client + client" where
  "put_net env bs st =
     (let st' = st\<lparr>sent := sent st @ bs\<rparr> in if net env (sent st') then Inr st' else dropped env st')"

definition HUGESMTPTEXT :: nat where "HUGESMTPTEXT = 5000"

definition get :: "remote_env \<Rightarrow> client \<Rightarrow> client + char \<times> client" where
  "get env st =
     (case reply st of
        [] \<Rightarrow> dropped env st
      | ch # r \<Rightarrow>
          (let st = st\<lparr>reply := r\<rparr>
           in if ch \<noteq> CR \<and> length (smtptext st) < HUGESMTPTEXT
              then if \<not> rmem env (length (smtptext st) + 1) then temp_nomem st
                   else Inr (ch, st\<lparr>smtptext := smtptext st @ [ch]\<rparr>)
              else Inr (ch, st)))"

lemma get_shorter: "get env st = Inr (ch, st') \<Longrightarrow> length (reply st') < length (reply st)"
  by (auto simp: get_def dropped_def temp_nomem_def zerodie_def Let_def split: list.splits if_splits)

text \<open>\<open>while (ch != '\n') get(&ch);\<close>\<close>

function to_eol :: "remote_env \<Rightarrow> char \<Rightarrow> client \<Rightarrow> client + client" where
  "to_eol env ch st =
     (if ch = LF then Inr st else andthen (get env st) (\<lambda>(ch, st). to_eol env ch st))"
  by pat_completeness auto
termination by (relation "measure (\<lambda>(env, ch, st). length (reply st))") (auto dest: get_shorter)

declare to_eol.simps [simp del]

lemma to_eol_shorter: "to_eol env ch st = Inr st' \<Longrightarrow> length (reply st') \<le> length (reply st)"
proof (induction env ch st rule: to_eol.induct)
  case (1 env ch st)
  show ?case
  proof (cases "ch = LF")
    case True
    then show ?thesis using "1.prems" by (simp add: to_eol.simps)
  next
    case False
    then obtain c s where g: "get env st = Inr (c, s)" and "to_eol env c s = Inr st'"
      using "1.prems" by (subst (asm) to_eol.simps) (auto simp: andthen_Inr)
    then show ?thesis using "1.IH" [OF False g refl] get_shorter [OF g] by simp
  qed
qed

text \<open>The lines of a reply that another line follows.\<close>

function reply_lines :: "remote_env \<Rightarrow> client \<Rightarrow> client + char \<times> client" where
  "reply_lines env st =
     andthen (get env st) (\<lambda>(ch, st).
       if ch \<noteq> CHR ''-'' then Inr (ch, st)
       else andthen (to_eol env ch st) (\<lambda>st.
            andthen (get env st) (\<lambda>(_, st).
            andthen (get env st) (\<lambda>(_, st).
            andthen (get env st) (\<lambda>(_, st). reply_lines env st)))))"
  by pat_completeness auto
termination
  by (relation "measure (\<lambda>(env, st). length (reply st))") (auto dest!: get_shorter to_eol_shorter)

declare reply_lines.simps [simp del]

definition add_digit :: "ulong \<Rightarrow> char \<Rightarrow> ulong" where
  "add_digit code ch = code * 10 + of_int (int (uch ch) - 48)"

definition smtpcode :: "remote_env \<Rightarrow> client \<Rightarrow> client + ulong \<times> client" where
  "smtpcode env st =
     (if \<not> rmem env 1 then temp_nomem st
      else andthen (get env (st\<lparr>smtptext := []\<rparr>)) (\<lambda>(c1, st).
           andthen (get env st) (\<lambda>(c2, st).
           andthen (get env st) (\<lambda>(c3, st).
           andthen (reply_lines env st) (\<lambda>(ch, st).
           andthen (to_eol env ch st) (\<lambda>st.
             Inr (add_digit (add_digit (add_digit 0 c1) c2) c3, st)))))))"

definition outsmtptext :: "client \<Rightarrow> client" where
  "outsmtptext st =
     (if smtptext st = [] then st
      else (out ''Remote host said: '' st)
        \<lparr>report := report (out ''Remote host said: '' st) @ map (\<lambda>c. if c = NUL then CHR ''?'' else c) (smtptext st),
         smtptext := []\<rparr>)"

definition crlf :: "char list" where "crlf = [CR, LF]"

definition quit :: "remote_env \<Rightarrow> char list \<Rightarrow> char list \<Rightarrow> client \<Rightarrow> client + 'a" where
  "quit env pre post st =
     andthen (put_net env (''QUIT'' @ crlf) st) (\<lambda>st.
       zerodie (outsmtptext (out (''.'' @ [LF]) (out post (outhost env (out pre st))))))"

text \<open>
  \<open>blast\<close> gives the connection the encoded message. Dying at any of its bytes leaves the same report, so that it is asked
  once whether the connection has taken them all; \<open>flagcritical\<close> is set between the message and the final dot.
\<close>

definition client_blast :: "remote_env \<Rightarrow> client \<Rightarrow> client + client" where
  "client_blast env st =
     (case remote_blast_loop (message_end env) (message env) [] of
        Inl (x, s) \<Rightarrow>
          andthen (put_net env s st) (case x of Temp_read \<Rightarrow> temp_read | Perm_partialline \<Rightarrow> perm_partialline)
      | Inr s \<Rightarrow>
          andthen (put_net env s st) (\<lambda>st. put_net env (''.'' @ crlf) (st\<lparr>flagcritical := True\<rparr>)))"

section \<open>The dialogue\<close>

definition after_code :: "remote_env \<Rightarrow> char list \<Rightarrow> client \<Rightarrow> (ulong \<Rightarrow> client \<Rightarrow> client + 'a) \<Rightarrow> client + 'a" where
  "after_code env cmd st k = andthen (put_net env cmd st) (\<lambda>st. andthen (smtpcode env st) (\<lambda>(code, st). k code st))"

definition say_helo :: "remote_env \<Rightarrow> client \<Rightarrow> client + client" where
  "say_helo env st =
     after_code env (''EHLO '' @ helohost env @ crlf) st (\<lambda>code st.
       if code \<noteq> 250
       then after_code env (''HELO '' @ helohost env @ crlf) st (\<lambda>code st.
              if code \<noteq> 250 then quit env ''ZConnected to '' '' but my name was rejected'' st else Inr st)
       else Inr st)"

text \<open>The search for \<open>STARTTLS\<close> among the lines of the reply; the result is where it stops.\<close>

function starttls_at :: "char list \<Rightarrow> nat \<Rightarrow> nat" where
  "starttls_at text i =
     (let i' = i + str_chr (drop i text) LF + 1
      in if i' + 12 < length text \<and> str_diffn (drop (i' + 4) text) (''STARTTLS'' @ [LF]) 9 \<noteq> 0 then starttls_at text i' else i')"
  by pat_completeness auto
termination by (relation "measure (\<lambda>(text, i). length text - i)") auto

declare starttls_at.simps [simp del]

definition tls_part :: "remote_env \<Rightarrow> client \<Rightarrow> client + bool \<times> client" where
  "tls_part env st =
     (if \<not> can_tls env then Inr (False, st)
      else if starttls_at (smtptext st) 0 + 12 < length (smtptext st) then starttls env st else Inr (False, st))"

definition cat0 :: "remote_env \<Rightarrow> char list \<Rightarrow> char list option" where
  "cat0 env s = (if rmem env (length s + 1) then Some (s @ [NUL]) else None)"

text \<open>Whether to try \<open>AUTH PLAIN\<close> and \<open>AUTH LOGIN\<close>.\<close>

definition auth_offers :: "remote_env \<Rightarrow> bool \<Rightarrow> client \<Rightarrow> int \<times> int \<times> client" where
  "auth_offers env ssl st =
     (if allow_insecure_auth env \<or> ssl
      then let st = st\<lparr>smtptext := (case cat0 env (smtptext st) of None \<Rightarrow> smtptext st | Some t \<Rightarrow> t)\<rparr>
           in if auth_smtp_user env \<noteq> [] \<and> auth_smtp_pass env \<noteq> []
              then (matchregex env (smtptext st) (''AUTH[^'' @ [LF] @ '']+PLAIN''),
                    matchregex env (smtptext st) (''AUTH[^'' @ [LF] @ '']+LOGIN''), st)
              else (0, 0, st)
      else (0, 0, st))"

definition auth_plain :: "remote_env \<Rightarrow> client \<Rightarrow> client + client" where
  "auth_plain env st =
     (let plain = [NUL] @ auth_smtp_user env @ [NUL] @ auth_smtp_pass env;
          n = length (auth_smtp_user env)
      in if \<not> rmem env 1 \<or> \<not> rmem env (1 + n + 1) \<or> \<not> rmem env (1 + n + 1) \<or> \<not> rmem env (length plain + 1)
         then temp_nomem st
         else let (r, slop) = b64encode (rmem env) plain []
              in if r \<noteq> 0 then temp_nomem st
                 else after_code env (''AUTH PLAIN '' @ slop @ crlf) st (\<lambda>code st.
                        if code \<noteq> 235 then quit env ''ZConnected to '' '' but AUTH PLAIN was rejected'' st else Inr st))"

definition auth_answer :: "remote_env \<Rightarrow> char list \<Rightarrow> ulong \<Rightarrow> char list \<Rightarrow> client \<Rightarrow> client + client" where
  "auth_answer env secret wanted complaint st =
     (let (r, slop) = b64encode (rmem env) secret []
      in if r < 0 then temp_nomem st
         else after_code env (slop @ crlf) st (\<lambda>code st.
                if code \<noteq> wanted then quit env ''ZConnected to '' complaint st else Inr st))"

definition auth_login :: "remote_env \<Rightarrow> client \<Rightarrow> client + client" where
  "auth_login env st =
     after_code env (''AUTH LOGIN'' @ crlf) st (\<lambda>code st.
       if code \<noteq> 334 then quit env ''ZConnected to '' '' but AUTH LOGIN command was rejected'' st
       else andthen (auth_answer env (auth_smtp_user env) 334 '' but AUTH LOGIN username was rejected'' st) (\<lambda>st.
            auth_answer env (auth_smtp_pass env) 235 '' but AUTH LOGIN password was rejected'' st))"

definition auth_part :: "remote_env \<Rightarrow> bool \<Rightarrow> client \<Rightarrow> client + bool \<times> client" where
  "auth_part env ssl st =
     (let (try_plain, try_login, st) = auth_offers env ssl st
      in if try_plain > 0 then andthen (auth_plain env st) (\<lambda>st. Inr (True, st))
         else if try_login > 0 then andthen (auth_login env st) (\<lambda>st. Inr (True, st))
         else Inr (False, st))"

definition mail_cmd :: "remote_env \<Rightarrow> bool \<Rightarrow> char list" where
  "mail_cmd env authd =
     (if authd then ''MAIL FROM:<'' @ sender env @ ''> AUTH=<'' @ auth_smtp_user env @ ''>'' @ crlf
      else ''MAIL FROM:<'' @ sender env @ ''>'' @ crlf)"

definition mail_part :: "remote_env \<Rightarrow> bool \<Rightarrow> client \<Rightarrow> client + client" where
  "mail_part env authd st =
     after_code env (mail_cmd env authd) st (\<lambda>code st.
       if code \<ge> 500 then quit env ''DConnected to '' '' but sender was rejected'' st
       else if code \<ge> 400 then quit env ''ZConnected to '' '' but sender was rejected'' st
       else Inr st)"

fun rcpt_part :: "remote_env \<Rightarrow> char list list \<Rightarrow> bool \<Rightarrow> client \<Rightarrow> client + bool \<times> client" where
  "rcpt_part env [] flagbother st = Inr (flagbother, st)"
| "rcpt_part env (r # rs) flagbother st =
     after_code env (''RCPT TO:<'' @ r @ ''>'' @ crlf) st (\<lambda>code st.
       if code \<ge> 500
       then rcpt_part env rs flagbother
              (zero (outsmtptext (out ('' does not like recipient.'' @ [LF]) (outhost env (out ''h'' st)))))
       else if code \<ge> 400
       then rcpt_part env rs flagbother
              (zero (outsmtptext (out ('' does not like recipient.'' @ [LF]) (outhost env (out ''s'' st)))))
       else rcpt_part env rs True (zero (out ''r'' st)))"

definition data_part :: "remote_env \<Rightarrow> client \<Rightarrow> client + 'a" where
  "data_part env st =
     after_code env (''DATA'' @ crlf) st (\<lambda>code st.
       if code \<ge> 500 then quit env ''D'' '' failed on DATA command'' st
       else if code \<ge> 400 then quit env ''Z'' '' failed on DATA command'' st
       else andthen (client_blast env st) (\<lambda>st.
            andthen (smtpcode env st) (\<lambda>(code, st).
              let st = st\<lparr>flagcritical := False\<rparr>
              in if code \<ge> 500 then quit env ''D'' '' failed after I sent the message'' st
                 else if code \<ge> 400 then quit env ''Z'' '' failed after I sent the message'' st
                 else quit env ''K'' '' accepted message'' st)))"

text \<open>\<open>smtp\<close> returns only when the greeting sends it to the next mail exchanger.\<close>

definition smtp :: "remote_env \<Rightarrow> client \<Rightarrow> client + client" where
  "smtp env st =
     andthen (smtpcode env st) (\<lambda>(code, st).
       if code \<ge> 400 \<and> code < 600 then Inr st
       else if code \<noteq> 220 then quit env ''ZConnected to '' '' but greeting failed'' st
       else andthen (say_helo env st) (\<lambda>st.
            andthen (tls_part env st) (\<lambda>(ssl, st).
            andthen (auth_part env ssl st) (\<lambda>(authd, st).
            andthen (mail_part env authd st) (\<lambda>st.
            andthen (rcpt_part env (reciplist env) False st) (\<lambda>(flagbother, st).
              if \<not> flagbother then quit env ''DGiving up on '' [] st
              else data_part env st))))))"

section \<open>What a report says\<close>

text \<open>A report is a sequence of items, each ended by a NUL. \<open>bad_exit\<close>: the process has ended with one more item, which tells
  of a failure.\<close>

definition items :: "char list list \<Rightarrow> char list" where
  "items rs = concat (map (\<lambda>i. i @ [NUL]) rs)"

lemma items_simps [simp]: "items [] = []" "items (r # rs) = r @ NUL # items rs" "items (rs @ qs) = items rs @ items qs"
  by (simp_all add: items_def)

definition fails_with :: "char list \<Rightarrow> bool" where
  "fails_with item \<longleftrightarrow> NUL \<notin> set item \<and> item \<noteq> [] \<and> hd item \<in> {CHR ''Z'', CHR ''D''}"

definition bad_exit :: "char list \<Rightarrow> client \<Rightarrow> bool" where
  "bad_exit rep fin \<longleftrightarrow> (\<exists>item. report fin = rep @ item @ [NUL] \<and> fails_with item)"

lemma report_simps [simp]:
  "report (out s st) = report st @ cstr s" "report (zero st) = report st @ [NUL]" "report (outhost env st) = report st @ ip_fmt (partner env)"
  "sent (out s st) = sent st" "sent (zero st) = sent st" "sent (outhost env st) = sent st"
  "smtptext (out s st) = smtptext st" "smtptext (outhost env st) = smtptext st"
  "reply (out s st) = reply st" "reply (zero st) = reply st" "reply (outhost env st) = reply st" "reply (outsmtptext st) = reply st"
  by (simp_all add: out_def zero_def outhost_def outsmtptext_def)

lemma bad_exit_I: "report fin = rep @ item @ [NUL] \<Longrightarrow> fails_with item \<Longrightarrow> bad_exit rep fin"
  unfolding bad_exit_def by blast

lemma zerodie_bad: "report st = rep @ item \<Longrightarrow> fails_with item \<Longrightarrow> ends (bad_exit rep) P (zerodie st)"
  by (simp add: zerodie_def) (rule bad_exit_I, simp_all)

lemma fails_with_append: "fails_with a \<Longrightarrow> NUL \<notin> set b \<Longrightarrow> fails_with (a @ b)"
  by (auto simp: fails_with_def)

lemma ip_fmt_no_NUL: "NUL \<notin> set (ip_fmt ip)"
  by (cases ip) (auto simp: ip_fmt_def dest: fmt_ulong_char)

lemma outsmtptext_report:
  obtains t where "report (outsmtptext st) = report st @ t" "NUL \<notin> set t" "sent (outsmtptext st) = sent st"
proof (cases "smtptext st = []")
  case True
  then show thesis using that [of "[]"] by (simp add: outsmtptext_def)
next
  case False
  have "NUL \<notin> set (cstr ''Remote host said: '' @ map (\<lambda>c. if c = NUL then CHR ''?'' else c) (smtptext st))" by auto
  then show thesis using that [of "cstr ''Remote host said: '' @ map (\<lambda>c. if c = NUL then CHR ''?'' else c) (smtptext st)"] False
    by (simp add: outsmtptext_def)
qed

lemma temp_nomem_bad: "report st = rep \<Longrightarrow> ends (bad_exit rep) P (temp_nomem st)"
  unfolding temp_nomem_def by (rule zerodie_bad [where item = "''ZOut of memory. (#4.3.0)'' @ [LF]"]) (simp_all add: fails_with_def)

lemma temp_read_bad: "report st = rep \<Longrightarrow> ends (bad_exit rep) P (temp_read st)"
  unfolding temp_read_def
  by (rule zerodie_bad [where item = "''ZUnable to read message. (#4.3.0)'' @ [LF]"]) (simp_all add: fails_with_def)

lemma perm_partialline_bad: "report st = rep \<Longrightarrow> ends (bad_exit rep) P (perm_partialline st)"
  unfolding perm_partialline_def
  by (rule zerodie_bad [where item = "''DSMTP cannot transfer messages with partial final lines. (#5.6.2)'' @ [LF]"])
    (simp_all add: fails_with_def)

lemma dropped_bad:
  assumes "report st = rep"
  shows "ends (bad_exit rep) P (dropped env st)"
proof -
  let ?i = "cstr ''ZConnected to '' @ ip_fmt (partner env) @ cstr '' but connection died. '' @
     (if flagcritical st then cstr ''Possible duplicate! '' else []) @ cstr (''(#4.4.2)'' @ [LF])"
  have "fails_with ?i" by (rule fails_with_append) (auto simp: fails_with_def ip_fmt_no_NUL)
  moreover have "flagcritical (out s (outhost env (out t st))) = flagcritical st" for s t by (simp add: out_def outhost_def)
  ultimately show ?thesis
    unfolding dropped_def Let_def using assms by (intro zerodie_bad [where item = ?i]) simp_all
qed

text \<open>A call whose failures are bad exits, in front of the rest of a function.\<close>

lemma ends_then:
  assumes "ends (bad_exit rep) P r" "\<And>fin. bad_exit rep fin \<Longrightarrow> E fin" "\<And>a. r = Inr a \<Longrightarrow> P a \<Longrightarrow> ends E Q (f a)"
  shows "ends E Q (andthen r f)"
  using assms by (cases r) auto

lemma ends_then2:
  assumes "ends (bad_exit rep) (\<lambda>a. R (snd a)) r" "\<And>fin. bad_exit rep fin \<Longrightarrow> E fin" "\<And>x s. r = Inr (x, s) \<Longrightarrow> R s \<Longrightarrow> ends E Q (g x s)"
  shows "ends E Q (andthen r (\<lambda>(x, s). g x s))"
  using assms by (cases r) auto

lemma put_net_ends:
  "ends (bad_exit (report st)) (\<lambda>st'. report st' = report st \<and> sent st' = sent st @ bs \<and> reply st' = reply st) (put_net env bs st)"
  by (simp add: put_net_def Let_def dropped_bad)

abbreviation same :: "client \<Rightarrow> client \<Rightarrow> bool" where
  "same st st' \<equiv> report st' = report st \<and> sent st' = sent st"

lemma get_ends: "ends (bad_exit (report st)) (\<lambda>a. same st (snd a)) (get env st)"
  by (cases "reply st") (simp_all add: get_def Let_def dropped_bad temp_nomem_bad)

lemma to_eol_ends: "ends (bad_exit (report st)) (same st) (to_eol env ch st)"
proof (induction env ch st rule: to_eol.induct)
  case (1 env ch st)
  show ?case
  proof (cases "ch = LF")
    case True
    then show ?thesis by (simp add: to_eol.simps)
  next
    case False
    have "ends (bad_exit (report st)) (same st) (andthen (get env st) (\<lambda>(ch, st). to_eol env ch st))"
    proof (cases "get env st")
      case (Inl e)
      then show ?thesis using get_ends [of st env] by simp
    next
      case (Inr a)
      then obtain c s where g: "get env st = Inr (c, s)" by (cases a) auto
      then have "same st s" using get_ends [of st env] by simp
      then show ?thesis using "1.IH" [OF False g refl] g by simp
    qed
    then show ?thesis using False by (subst to_eol.simps) simp
  qed
qed

lemma reply_lines_ends: "ends (bad_exit (report st)) (\<lambda>a. same st (snd a)) (reply_lines env st)"
proof (induction "length (reply st)" arbitrary: st rule: less_induct)
  case less
  have step: "ends (bad_exit (report st)) (\<lambda>a. same st (snd a) \<and> length (reply (snd a)) < length (reply s)) (get env s)"
    if "same st s" for s
    using get_ends [of s env] get_shorter [of env s] that by (cases "get env s") auto
  have eol: "ends (bad_exit (report st)) (\<lambda>s'. same st s' \<and> length (reply s') \<le> length (reply s)) (to_eol env ch s)"
    if "same st s" for s ch
    using to_eol_ends [of s env ch] to_eol_shorter [of env ch s] that by (cases "to_eol env ch s") auto
  show ?case
    apply (subst reply_lines.simps)
    apply (rule ends_then2 [OF step], simp, assumption)
    subgoal for ch s
      apply (cases "ch = CHR ''-''"; simp)
      apply (rule ends_then [OF eol], simp, assumption)
      apply (rule ends_then2 [OF step], simp, assumption)
      apply (rule ends_then2 [OF step], simp, assumption)
      apply (rule ends_then2 [OF step], simp, assumption)
      subgoal for _ _ _ _ _ _ s' using less [of s'] by simp
      done
    done
qed

lemma smtpcode_ends: "ends (bad_exit (report st)) (\<lambda>a. same st (snd a)) (smtpcode env st)"
proof -
  have step: "ends (bad_exit (report st)) (\<lambda>a. same st (snd a)) (get env s)" if "same st s" for s
    using get_ends [of s env] that by simp
  have lines: "ends (bad_exit (report st)) (\<lambda>a. same st (snd a)) (reply_lines env s)" if "same st s" for s
    using reply_lines_ends [of s env] that by simp
  have eol: "ends (bad_exit (report st)) (same st) (to_eol env ch s)" if "same st s" for s ch
    using to_eol_ends [of s env ch] that by simp
  show ?thesis
    unfolding smtpcode_def
    apply (simp add: temp_nomem_bad)
    apply (intro impI)
    apply (rule ends_then2 [OF step], simp, assumption)
    apply (rule ends_then2 [OF step], simp, assumption)
    apply (rule ends_then2 [OF step], simp, assumption)
    apply (rule ends_then2 [OF lines], simp, assumption)
    apply (rule ends_then [OF eol], simp, assumption)
    apply simp
    done
qed

text \<open>A reply, as it stands on the wire: three bytes, its code, and what follows them up to the end of the line; behind a hyphen there comes another line.\<close>

inductive reply_rest :: "char list \<Rightarrow> bool" where
  Last: "LF \<notin> set x \<Longrightarrow> x = [] \<or> hd x \<noteq> CHR ''-'' \<Longrightarrow> reply_rest (x @ [LF])"
| More: "LF \<notin> set x \<Longrightarrow> length z = 3 \<Longrightarrow> reply_rest y \<Longrightarrow> reply_rest (''-'' @ x @ [LF] @ z @ y)"

definition smtp_reply :: "char list \<Rightarrow> bool" where
  "smtp_reply t \<longleftrightarrow> length t \<ge> 3 \<and> reply_rest (drop 3 t)"

text \<open>The number that the first three bytes, as decimal digits, stand for.\<close>

definition digit :: "char \<Rightarrow> int" where
  "digit ch = int (uch ch) - int (uch (CHR ''0''))"

definition reply_code :: "char list \<Rightarrow> ulong" where
  "reply_code t = of_int (100 * digit (t ! 0) + 10 * digit (t ! 1) + digit (t ! 2))"

lemma get_reads: "get env st = Inr (ch, s) \<Longrightarrow> reply st = ch # reply s"
  by (auto simp: get_def dropped_def temp_nomem_def zerodie_def Let_def split: list.splits if_splits)

lemma to_eol_reads: "to_eol env ch st = Inr s \<Longrightarrow> \<exists>x. ch # reply st = x @ LF # reply s \<and> LF \<notin> set x"
proof (induction env ch st rule: to_eol.induct)
  case (1 env ch st)
  show ?case
  proof (cases "ch = LF")
    case True
    then show ?thesis using "1.prems" by (intro exI [of _ "[]"]) (simp add: to_eol.simps)
  next
    case False
    then obtain c u where g: "get env st = Inr (c, u)" and e: "to_eol env c u = Inr s"
      using "1.prems" by (subst (asm) to_eol.simps) (auto simp: andthen_Inr)
    from "1.IH" [OF False g refl e] obtain x where "c # reply u = x @ LF # reply s" "LF \<notin> set x" by blast
    then show ?thesis using False get_reads [OF g] by (intro exI [of _ "ch # x"]) simp
  qed
qed

lemma reply_lines_reads:
  "reply_lines env st = Inr (ch, s) \<Longrightarrow> to_eol env ch s = Inr u \<Longrightarrow> \<exists>y. reply st = y @ reply u \<and> reply_rest y"
proof (induction "length (reply st)" arbitrary: st rule: less_induct)
  case less
  obtain c s1 where g: "get env st = Inr (c, s1)" using less.prems(1) by (subst (asm) reply_lines.simps) (auto simp: andthen_Inr)
  note r = get_reads [OF g]
  show ?case
  proof (cases "c = CHR ''-''")
    case False
    then have "c = ch" "s1 = s" using less.prems(1) g by (simp_all add: reply_lines.simps [of env st])
    then obtain x where x: "reply st = (x @ [LF]) @ reply u" "LF \<notin> set x" using to_eol_reads [OF less.prems(2)] r by auto
    then have "x = [] \<or> hd x \<noteq> CHR ''-''" using False r by (cases x) auto
    then show ?thesis using x reply_rest.Last by blast
  next
    case True
    obtain s2 z1 s3 z2 s4 z3 s5 where m: "to_eol env c s1 = Inr s2" "get env s2 = Inr (z1, s3)" "get env s3 = Inr (z2, s4)" "get env s4 = Inr (z3, s5)"
      "reply_lines env s5 = Inr (ch, s)"
      using less.prems(1) g True by (subst (asm) reply_lines.simps) (auto simp: andthen_Inr)
    obtain x where x: "c # reply s1 = x @ LF # reply s2" "LF \<notin> set x" using to_eol_reads [OF m(1)] by blast
    then obtain x' where x': "x = c # x'" using True by (cases x) auto
    have z: "reply s2 = [z1, z2, z3] @ reply s5" using get_reads [OF m(2)] get_reads [OF m(3)] get_reads [OF m(4)] by simp
    have "length (reply s5) < length (reply st)" using r x x' z by simp
    from less.hyps [OF this m(5) less.prems(2)] obtain y where y: "reply s5 = y @ reply u" "reply_rest y" by blast
    have "reply_rest (''-'' @ x' @ [LF] @ [z1, z2, z3] @ y)" by (rule reply_rest.More) (use x(2) x' y(2) in simp_all)
    moreover have "reply st = (''-'' @ x' @ [LF] @ [z1, z2, z3] @ y) @ reply u" using r x x' z y(1) True by simp
    ultimately show ?thesis by blast
  qed
qed

lemma smtpcode_reads:
  assumes "smtpcode env st = Inr (code, s)"
  shows "\<exists>t. reply st = t @ reply s \<and> smtp_reply t \<and> code = reply_code t"
proof -
  obtain c1 s1 c2 s2 c3 s3 ch s4 where g: "get env (st\<lparr>smtptext := []\<rparr>) = Inr (c1, s1)" "get env s1 = Inr (c2, s2)" "get env s2 = Inr (c3, s3)"
    "reply_lines env s3 = Inr (ch, s4)" "to_eol env ch s4 = Inr s" and code: "code = add_digit (add_digit (add_digit 0 c1) c2) c3"
    using assms by (auto simp: smtpcode_def andthen_Inr temp_nomem_def zerodie_def split: if_splits)
  obtain y where y: "reply s3 = y @ reply s" "reply_rest y" using reply_lines_reads [OF g(4,5)] by blast
  have "reply st = ([c1, c2, c3] @ y) @ reply s" using get_reads [OF g(1)] get_reads [OF g(2)] get_reads [OF g(3)] y(1) by simp
  moreover have "smtp_reply ([c1, c2, c3] @ y)" using y(2) by (simp add: smtp_reply_def numeral_3_eq_3)
  moreover have "code = reply_code ([c1, c2, c3] @ y)"
    unfolding code by (simp add: add_digit_def reply_code_def digit_def algebra_simps)
  ultimately show ?thesis by blast
qed

lemma after_code_says:
  assumes "\<And>fin. bad_exit (report st) fin \<Longrightarrow> E fin"
    and "\<And>t st'. report st' = report st \<Longrightarrow> sent st' = sent st @ cmd \<Longrightarrow> smtp_reply t \<Longrightarrow> reply st = t @ reply st' \<Longrightarrow> ends E Q (k (reply_code t) st')"
  shows "ends E Q (after_code env cmd st k)"
proof -
  have "ends E Q (andthen (smtpcode env s) (\<lambda>(code, st). k code st))" if s: "report s = report st" "sent s = sent st @ cmd" "reply s = reply st" for s
  proof (cases "smtpcode env s")
    case (Inl fin)
    then show ?thesis using smtpcode_ends [of s env] assms(1) s(1) by simp
  next
    case (Inr a)
    obtain code u where a: "a = (code, u)" by fastforce
    obtain t where t: "reply s = t @ reply u" "smtp_reply t" "code = reply_code t" using smtpcode_reads Inr a by blast
    have "same s u" using smtpcode_ends [of s env] Inr a by simp
    then show ?thesis using assms(2) [of u t] t s Inr a by simp
  qed
  then show ?thesis
    unfolding after_code_def by (intro ends_then [OF put_net_ends]) (auto intro: assms(1))
qed

lemma after_code_ends:
  assumes "\<And>fin. bad_exit (report st) fin \<Longrightarrow> E fin"
    and "\<And>code st'. report st' = report st \<Longrightarrow> sent st' = sent st @ cmd \<Longrightarrow> ends E Q (k code st')"
  shows "ends E Q (after_code env cmd st k)"
  by (rule after_code_says [OF assms])

lemma quit_report:
  "ends (\<lambda>fin. bad_exit (report st) fin \<or> (\<exists>t. report fin = report st @ cstr pre @ t @ [NUL] \<and> NUL \<notin> set t \<and>
       sent fin = sent st @ ''QUIT'' @ crlf \<and> reply fin = reply st)) P (quit env pre post st)"
  unfolding quit_def
proof (rule ends_then [OF put_net_ends])
  fix s :: client assume s: "report s = report st \<and> sent s = sent st @ ''QUIT'' @ crlf \<and> reply s = reply st"
  let ?o = "out (''.'' @ [LF]) (out post (outhost env (out pre s)))"
  obtain t where t: "report (outsmtptext ?o) = report ?o @ t" "NUL \<notin> set t" "sent (outsmtptext ?o) = sent ?o"
    by (rule outsmtptext_report)
  have "report (zero (outsmtptext ?o)) =
      report st @ cstr pre @ (ip_fmt (partner env) @ cstr post @ cstr (''.'' @ [LF]) @ t) @ [NUL]"
    "NUL \<notin> set (ip_fmt (partner env) @ cstr post @ cstr (''.'' @ [LF]) @ t)"
    "sent (zero (outsmtptext ?o)) = sent st @ ''QUIT'' @ crlf" "reply (zero (outsmtptext ?o)) = reply st"
    using t s by (simp_all add: ip_fmt_no_NUL)
  then show "ends (\<lambda>fin. bad_exit (report st) fin \<or> (\<exists>t. report fin = report st @ cstr pre @ t @ [NUL] \<and> NUL \<notin> set t \<and>
       sent fin = sent st @ ''QUIT'' @ crlf \<and> reply fin = reply st)) P (zerodie (outsmtptext ?o))"
    unfolding zerodie_def ends_simps by blast
qed simp

lemma quit_bad:
  assumes "fails_with (cstr pre)"
  shows "ends (bad_exit (report st)) P (quit env pre post st)"
proof (rule ends_mono [OF quit_report])
  fix fin assume "bad_exit (report st) fin \<or> (\<exists>t. report fin = report st @ cstr pre @ t @ [NUL] \<and> NUL \<notin> set t \<and>
       sent fin = sent st @ ''QUIT'' @ crlf \<and> reply fin = reply st)"
  then show "bad_exit (report st) fin"
  proof (elim disjE exE conjE)
    fix t assume "report fin = report st @ cstr pre @ t @ [NUL]" "NUL \<notin> set t"
    then show ?thesis using fails_with_append [OF assms, of t] by (intro bad_exit_I [where item = "cstr pre @ t"]) simp_all
  qed
qed

lemma quit_ends: "fails_with (cstr pre) \<Longrightarrow> (\<And>fin. bad_exit (report st) fin \<Longrightarrow> E fin) \<Longrightarrow> ends E P (quit env pre post st)"
  by (rule ends_mono [OF quit_bad])

text \<open>What the other parts of the dialogue leave.\<close>

definition further :: "client \<Rightarrow> client \<Rightarrow> bool" where
  "further st st' \<longleftrightarrow> report st' = report st \<and> (\<exists>x. sent st' = sent st @ x)"

lemma further_refl [simp]: "further st st"
  by (simp add: further_def)

lemma further_report: "further st st' \<Longrightarrow> report st' = report st"
  by (simp add: further_def)

lemma further_sent: "report st' = report st \<Longrightarrow> sent st' = sent st @ x \<Longrightarrow> further st st'"
  by (auto simp: further_def)

lemma further_trans: "further s t \<Longrightarrow> further t u \<Longrightarrow> further s u"
  by (auto simp: further_def)

lemma ends_further:
  "further st s \<Longrightarrow> ends (bad_exit (report s)) (\<lambda>a. further s (f a)) r \<Longrightarrow> ends (bad_exit (report st)) (\<lambda>a. further st (f a)) r"
  by (cases r) (auto simp: further_report intro: further_trans)

lemma quit_bad_ends: "report st = rep \<Longrightarrow> fails_with (cstr pre) \<Longrightarrow> ends (bad_exit rep) P (quit env pre post st)"
  using quit_bad by blast

lemma fails_with_literals [simp]:
  "fails_with (CHR ''Z'' # s) \<longleftrightarrow> NUL \<notin> set s" "fails_with (CHR ''D'' # s) \<longleftrightarrow> NUL \<notin> set s"
  by (simp_all add: fails_with_def)

lemma say_helo_ends: "ends (bad_exit (report st)) (further st) (say_helo env st)"
  unfolding say_helo_def
proof (rule after_code_ends)
  fix code and s :: client assume s: "report s = report st" "sent s = sent st @ ''EHLO '' @ helohost env @ crlf"
  have "ends (bad_exit (report st)) (further st) (after_code env (''HELO '' @ helohost env @ crlf) s
     (\<lambda>code st. if code \<noteq> 250 then quit env ''ZConnected to '' '' but my name was rejected'' st else Inr st))"
    by (rule after_code_ends) (use s in \<open>auto simp: further_def intro: quit_bad_ends\<close>)
  then show "ends (bad_exit (report st)) (further st) (if code \<noteq> 250
       then after_code env (''HELO '' @ helohost env @ crlf) s
         (\<lambda>code st. if code \<noteq> 250 then quit env ''ZConnected to '' '' but my name was rejected'' st else Inr st)
       else Inr s)"
    using further_sent [OF s] by simp
qed simp

text \<open>What is relied on in the exchange after \<open>STARTTLS\<close>: it ends with a report of a failure, or it goes on without one.\<close>

definition tls_ok :: "remote_env \<Rightarrow> bool" where
  "tls_ok env \<longleftrightarrow> (\<forall>st. ends (bad_exit (report st)) (\<lambda>a. further st (snd a)) (starttls env st))"

lemma tls_part_ends: "tls_ok env \<Longrightarrow> ends (bad_exit (report st)) (\<lambda>a. further st (snd a)) (tls_part env st)"
  by (simp add: tls_part_def tls_ok_def)

lemma auth_plain_ends: "ends (bad_exit (report st)) (further st) (auth_plain env st)"
proof -
  have "ends (bad_exit (report st)) (further st) (after_code env cmd st (\<lambda>code st.
          if code \<noteq> 235 then quit env ''ZConnected to '' '' but AUTH PLAIN was rejected'' st else Inr st))" for cmd
    by (rule after_code_ends) (auto simp: further_def intro: quit_bad_ends)
  then show ?thesis by (simp add: auth_plain_def Let_def temp_nomem_bad split: prod.split)
qed

lemma auth_answer_ends: "ends (bad_exit (report st)) (further st) (auth_answer env secret wanted complaint st)"
proof -
  have "ends (bad_exit (report st)) (further st) (after_code env cmd st (\<lambda>code st.
          if code \<noteq> wanted then quit env ''ZConnected to '' complaint st else Inr st))" for cmd
    by (rule after_code_ends) (auto simp: further_def intro: quit_bad_ends)
  then show ?thesis by (simp add: auth_answer_def Let_def temp_nomem_bad split: prod.split)
qed

lemma auth_login_ends: "ends (bad_exit (report st)) (further st) (auth_login env st)"
  unfolding auth_login_def
proof (rule after_code_ends)
  fix code and s :: client assume "report s = report st" "sent s = sent st @ ''AUTH LOGIN'' @ crlf"
  then have f: "further st s" by (rule further_sent)
  have a: "ends (bad_exit (report st)) (further st) (auth_answer env x y z s')" if "further st s'" for x y z s'
    using ends_further [OF that auth_answer_ends] by simp
  have "ends (bad_exit (report st)) (further st)
     (andthen (auth_answer env (auth_smtp_user env) 334 '' but AUTH LOGIN username was rejected'' s)
        (auth_answer env (auth_smtp_pass env) 235 '' but AUTH LOGIN password was rejected''))"
    by (rule ends_then [OF a [OF f]]) (simp_all add: a)
  then show "ends (bad_exit (report st)) (further st)
     (if code \<noteq> 334 then quit env ''ZConnected to '' '' but AUTH LOGIN command was rejected'' s
      else andthen (auth_answer env (auth_smtp_user env) 334 '' but AUTH LOGIN username was rejected'' s)
        (auth_answer env (auth_smtp_pass env) 235 '' but AUTH LOGIN password was rejected''))"
    using f by (simp add: quit_bad_ends further_report)
qed simp

lemma auth_offers_same: "auth_offers env ssl st = (p, l, st') \<Longrightarrow> same st st'"
  by (auto simp: auth_offers_def Let_def split: if_splits)

lemma auth_part_ends: "ends (bad_exit (report st)) (\<lambda>a. further st (snd a)) (auth_part env ssl st)"
proof -
  obtain p l s where o: "auth_offers env ssl st = (p, l, s)" by (cases "auth_offers env ssl st") auto
  then have f: "further st s" and r: "report s = report st" using auth_offers_same by (auto simp: further_def)
  have "ends (bad_exit (report st)) (\<lambda>a. further st (snd a)) (andthen x (\<lambda>st. Inr (True, st)))"
    if "ends (bad_exit (report s)) (further s) x" for x
    using that f r by (cases x) (auto intro: further_trans)
  then show ?thesis using o f auth_plain_ends auth_login_ends by (simp add: auth_part_def)
qed

lemma mail_part_ends:
  "ends (bad_exit (report st)) (\<lambda>st'. report st' = report st \<and> sent st' = sent st @ mail_cmd env authd \<and>
     (\<exists>t. smtp_reply t \<and> reply_code t < 400 \<and> reply st = t @ reply st')) (mail_part env authd st)"
  unfolding mail_part_def by (rule after_code_says) (auto intro: quit_bad_ends simp: not_le)

definition rcpt_cmds :: "char list list \<Rightarrow> char list" where
  "rcpt_cmds rs = concat (map (\<lambda>r. ''RCPT TO:<'' @ r @ ''>'' @ crlf) rs)"

definition rcpt_item :: "char list \<Rightarrow> bool" where
  "rcpt_item i \<longleftrightarrow> NUL \<notin> set i \<and> i \<noteq> [] \<and> hd i \<in> {CHR ''r'', CHR ''h'', CHR ''s''}"

abbreviation likes :: "char list list \<Rightarrow> bool" where
  "likes is \<equiv> (\<exists>i \<in> set is. hd i = CHR ''r'')"

text \<open>The item that stands for a reply to RCPT.\<close>

definition answers :: "char list \<Rightarrow> char list \<Rightarrow> bool" where
  "answers t i \<longleftrightarrow> smtp_reply t \<and> hd i = (if reply_code t \<ge> 500 then CHR ''h'' else if reply_code t \<ge> 400 then CHR ''s'' else CHR ''r'')"

definition rcpts_done :: "client \<Rightarrow> char list list \<Rightarrow> bool \<Rightarrow> bool \<times> client \<Rightarrow> bool" where
  "rcpts_done st rs b a \<longleftrightarrow> (\<exists>is ts. length is = length rs \<and> list_all rcpt_item is \<and> list_all2 answers ts is \<and> report (snd a) = report st @ items is \<and>
     sent (snd a) = sent st @ rcpt_cmds rs \<and> reply st = concat ts @ reply (snd a) \<and> (fst a \<longleftrightarrow> b \<or> likes is))"

definition rcpts_died :: "client \<Rightarrow> nat \<Rightarrow> client \<Rightarrow> bool" where
  "rcpts_died st n fin \<longleftrightarrow> (\<exists>is ts rest. length is \<le> n \<and> list_all rcpt_item is \<and> list_all2 answers ts is \<and> reply st = concat ts @ rest \<and>
     bad_exit (report st @ items is) fin)"

lemma rcpt_part_ends: "ends (rcpts_died st (length rs)) (rcpts_done st rs b) (rcpt_part env rs b st)"
proof (induction rs arbitrary: b st)
  case Nil
  then show ?case by (simp add: rcpts_done_def rcpt_cmds_def)
next
  case (Cons r rs)
  let ?cmd = "''RCPT TO:<'' @ r @ ''>'' @ crlf"
  have step: "ends (rcpts_died st (length (r # rs))) (rcpts_done st (r # rs) b) (rcpt_part env rs b' s)"
    if "rcpt_item i" "answers t i" "report s = report st @ i @ [NUL]" "sent s = sent st @ ?cmd" "reply st = t @ reply s" "b' \<longleftrightarrow> b \<or> hd i = CHR ''r''" for b' s i t
  proof (rule ends_mono [OF Cons.IH])
    fix fin assume "rcpts_died s (length rs) fin"
    then obtain is' ts rest where "length is' \<le> length rs" "list_all rcpt_item is'" "list_all2 answers ts is'" "reply s = concat ts @ rest"
      "bad_exit (report s @ items is') fin"
      unfolding rcpts_died_def by blast
    then show "rcpts_died st (length (r # rs)) fin"
      unfolding rcpts_died_def using that by (intro exI [of _ "i # is'"] exI [of _ "t # ts"] exI [of _ rest]) simp
  next
    fix a assume "rcpts_done s rs b' a"
    then obtain is' ts where "length is' = length rs" "list_all rcpt_item is'" "list_all2 answers ts is'" "report (snd a) = report s @ items is'"
      "sent (snd a) = sent s @ rcpt_cmds rs" "reply s = concat ts @ reply (snd a)" "fst a \<longleftrightarrow> b' \<or> likes is'" unfolding rcpts_done_def by blast
    then show "rcpts_done st (r # rs) b a"
      unfolding rcpts_done_def using that by (intro exI [of _ "i # is'"] exI [of _ "t # ts"]) (auto simp: rcpt_cmds_def)
  qed
  show ?case
    unfolding rcpt_part.simps
  proof (rule after_code_says)
    fix fin assume "bad_exit (report st) fin"
    then show "rcpts_died st (length (r # rs)) fin" unfolding rcpts_died_def by (intro exI [of _ "[]"] exI [of _ "reply st"]) simp
  next
    fix t and s :: client assume s: "report s = report st" "sent s = sent st @ ?cmd" "smtp_reply t" "reply st = t @ reply s"
    have no: "ends (rcpts_died st (length (r # rs))) (rcpts_done st (r # rs) b)
       (rcpt_part env rs b (zero (outsmtptext (out ('' does not like recipient.'' @ [LF]) (outhost env (out [c] s))))))"
      if "c = (if reply_code t \<ge> 500 then CHR ''h'' else CHR ''s'')" "reply_code t \<ge> 400" for c
    proof -
      let ?o = "out ('' does not like recipient.'' @ [LF]) (outhost env (out [c] s))"
      obtain x where x: "report (outsmtptext ?o) = report ?o @ x" "NUL \<notin> set x" "sent (outsmtptext ?o) = sent ?o"
        by (rule outsmtptext_report)
      show ?thesis
        by (rule step [where i = "c # ip_fmt (partner env) @ cstr ('' does not like recipient.'' @ [LF]) @ x" and t = t])
          (use that x s in \<open>auto simp: rcpt_item_def answers_def ip_fmt_no_NUL\<close>)
    qed
    have le: "reply_code t \<ge> 500 \<Longrightarrow> reply_code t \<ge> 400" using order_trans [of "400 :: ulong" 500 "reply_code t"] by (simp add: word_le_nat_alt)
    have yes: "ends (rcpts_died st (length (r # rs))) (rcpts_done st (r # rs) b) (rcpt_part env rs True (zero (out ''r'' s)))" if "\<not> reply_code t \<ge> 400"
      by (rule step [where i = "''r''" and t = t]) (use s that le in \<open>auto simp: rcpt_item_def answers_def\<close>)
    show "ends (rcpts_died st (length (r # rs))) (rcpts_done st (r # rs) b)
       (if reply_code t \<ge> 500 then rcpt_part env rs b
              (zero (outsmtptext (out ('' does not like recipient.'' @ [LF]) (outhost env (out ''h'' s)))))
       else if reply_code t \<ge> 400 then rcpt_part env rs b
              (zero (outsmtptext (out ('' does not like recipient.'' @ [LF]) (outhost env (out ''s'' s)))))
       else rcpt_part env rs True (zero (out ''r'' s)))"
      using no [of "CHR ''h''"] no [of "CHR ''s''"] yes le by (simp del: rcpt_part.simps)
  qed
qed

text \<open>A message is accepted: the connection has taken all of it, and the replies that have been read, to DATA and to the message, have codes below 400.\<close>

definition accepted :: "remote_env \<Rightarrow> client \<Rightarrow> client \<Rightarrow> bool" where
  "accepted env st fin \<longleftrightarrow> (\<exists>body goahead verdict. remote_blast (message_end env) (message env) = Inr body \<and>
     sent fin = sent st @ ''DATA'' @ crlf @ body @ ''QUIT'' @ crlf \<and> reply st = goahead @ verdict @ reply fin \<and>
     smtp_reply goahead \<and> reply_code goahead < 400 \<and> smtp_reply verdict \<and> reply_code verdict < 400)"

lemma client_blast_ends:
  "ends (bad_exit (report st)) (\<lambda>st'. report st' = report st \<and> reply st' = reply st \<and>
     (\<exists>body. remote_blast (message_end env) (message env) = Inr body \<and> sent st' = sent st @ body)) (client_blast env st)"
proof (cases "remote_blast_loop (message_end env) (message env) []")
  case (Inl a)
  obtain x s where a: "a = (x, s)" by fastforce
  show ?thesis unfolding client_blast_def Inl a sum.case prod.case
    by (rule ends_then [OF put_net_ends]) (auto intro: temp_read_bad perm_partialline_bad split: blast_exit.split)
next
  case (Inr s)
  then have b: "remote_blast (message_end env) (message env) = Inr (s @ ''.'' @ crlf)"
    by (simp add: remote_blast_def crlf_def)
  show ?thesis unfolding client_blast_def Inr sum.case
  proof (rule ends_then [OF put_net_ends])
    fix t :: client assume "report t = report st \<and> sent t = sent st @ s \<and> reply t = reply st"
    then show "ends (bad_exit (report st)) (\<lambda>st'. report st' = report st \<and> reply st' = reply st \<and>
     (\<exists>body. remote_blast (message_end env) (message env) = Inr body \<and> sent st' = sent st @ body))
      (put_net env (''.'' @ crlf) (t\<lparr>flagcritical := True\<rparr>))"
      using put_net_ends [of "t\<lparr>flagcritical := True\<rparr>" "''.'' @ crlf" env] b
      by (auto elim!: ends_mono)
  qed simp
qed

lemma data_part_ends:
  "ends (\<lambda>fin. bad_exit (report st) fin \<or> (\<exists>t. report fin = report st @ ''K'' @ t @ [NUL] \<and> NUL \<notin> set t) \<and>
     accepted env st fin) P (data_part env st)"
  (is "ends ?E P _")
  unfolding data_part_def
proof (rule after_code_says)
  fix goahead and s :: client assume s: "report s = report st" "sent s = sent st @ ''DATA'' @ crlf" "smtp_reply goahead" "reply st = goahead @ reply s"
  let ?last = "andthen (client_blast env s) (\<lambda>st. andthen (smtpcode env st) (\<lambda>(code, st).
              let st = st\<lparr>flagcritical := False\<rparr>
              in if code \<ge> 500 then quit env ''D'' '' failed after I sent the message'' st
                 else if code \<ge> 400 then quit env ''Z'' '' failed after I sent the message'' st
                 else quit env ''K'' '' accepted message'' st))"
  have last: "ends ?E P ?last" if ok: "reply_code goahead < 400"
  proof (rule ends_then [OF client_blast_ends])
    fix fin assume "bad_exit (report s) fin"
    then show "?E fin" using s by simp
  next
    fix u :: client assume "report u = report s \<and> reply u = reply s \<and> (\<exists>body. remote_blast (message_end env) (message env) = Inr body \<and> sent u = sent s @ body)"
    then obtain body where u: "report u = report st" "remote_blast (message_end env) (message env) = Inr body" "reply u = reply s"
      "sent u = sent st @ ''DATA'' @ crlf @ body" using s by auto
    show "ends ?E P (andthen (smtpcode env u) (\<lambda>(code, st).
              let st = st\<lparr>flagcritical := False\<rparr>
              in if code \<ge> 500 then quit env ''D'' '' failed after I sent the message'' st
                 else if code \<ge> 400 then quit env ''Z'' '' failed after I sent the message'' st
                 else quit env ''K'' '' accepted message'' st))"
    proof (cases "smtpcode env u")
      case (Inl e)
      then show ?thesis using smtpcode_ends [of u env] u by simp
    next
      case (Inr a)
      obtain c v where a: "a = (c, v)" by fastforce
      then have v: "report v = report st" "sent v = sent u" using smtpcode_ends [of u env] Inr u by auto
      obtain verdict where d: "reply u = verdict @ reply v" "smtp_reply verdict" "c = reply_code verdict" using smtpcode_reads Inr a by blast
      let ?v = "v\<lparr>flagcritical := False\<rparr>"
      have bad: "ends ?E P (quit env pre post ?v)" if "fails_with (cstr pre)" for pre post
        by (rule quit_ends [OF that]) (use v in simp)
      have good: "ends ?E P (quit env ''K'' '' accepted message'' ?v)" if c: "c < 400"
      proof (rule ends_mono [OF quit_report])
        fix fin assume "bad_exit (report ?v) fin \<or> (\<exists>t. report fin = report ?v @ cstr ''K'' @ t @ [NUL] \<and> NUL \<notin> set t \<and>
           sent fin = sent ?v @ ''QUIT'' @ crlf \<and> reply fin = reply ?v)"
        then show "?E fin"
        proof (elim disjE exE conjE)
          fix t assume *: "report fin = report ?v @ cstr ''K'' @ t @ [NUL]" "NUL \<notin> set t" "sent fin = sent ?v @ ''QUIT'' @ crlf" "reply fin = reply ?v"
          have "accepted env st fin"
            unfolding accepted_def using s u v * c d ok by (intro exI [of _ body] exI [of _ goahead] exI [of _ verdict]) simp
          then show ?thesis using * v by auto
        qed (use v in simp)
      qed
      show ?thesis using bad [of "''D''"] bad [of "''Z''"] good unfolding Inr a
        by (simp add: Let_def fails_with_def not_le)
    qed
  qed
  show "ends ?E P (if reply_code goahead \<ge> 500 then quit env ''D'' '' failed on DATA command'' s
       else if reply_code goahead \<ge> 400 then quit env ''Z'' '' failed on DATA command'' s
       else ?last)"
    using last s by (auto intro!: quit_ends simp: fails_with_def not_le)
qed simp

lemma data_part_not_Inr [simp]: "data_part env st \<noteq> Inr x"
  by (rule notI) (drule ends_Inr [OF data_part_ends [where P = "\<lambda>_. False"]])

lemma items_snoc: "items (rs @ [r]) = items rs @ r @ [NUL]"
  by simp

text \<open>The dialogue up to MAIL: the greeting, the name, TLS and the user. It leaves the client \<open>u\<close>.\<close>

definition introduced :: "remote_env \<Rightarrow> client \<Rightarrow> bool \<Rightarrow> client \<Rightarrow> bool" where
  "introduced env st authd u \<longleftrightarrow> (\<exists>s1 s2 ssl s3. smtpcode env st = Inr (220, s1) \<and> say_helo env s1 = Inr s2 \<and> tls_part env s2 = Inr (ssl, s3) \<and>
     auth_part env ssl s3 = Inr (authd, u))"

text \<open>What the report says is what the server has said: each item, r, h or s, is for the reply to one recipient, in order; and K is for a message
  whose sender, of whose recipients one, and which itself the server took.\<close>

definition told :: "remote_env \<Rightarrow> client \<Rightarrow> client \<Rightarrow> bool" where
  "told env st fin \<longleftrightarrow> (\<exists>rs final. report fin = items (rs @ [final]) \<and> list_all rcpt_item rs \<and> length rs \<le> length (reciplist env) \<and>
     (fails_with final \<and> rs = [] \<or>
      (\<exists>authd (u :: client) (v :: client) mail ts. introduced env st authd u \<and> smtp_reply mail \<and> reply_code mail < 400 \<and> list_all2 answers ts rs \<and>
         reply u = mail @ concat ts @ reply v \<and>
         (fails_with final \<or>
          NUL \<notin> set final \<and> (\<exists>t. final = ''K'' @ t) \<and> length rs = length (reciplist env) \<and> likes rs \<and>
          sent v = sent u @ mail_cmd env authd @ rcpt_cmds (reciplist env) \<and> accepted env v fin))))"

lemma told_first: "report st = [] \<Longrightarrow> bad_exit (report st) fin \<Longrightarrow> told env st' fin"
  unfolding told_def bad_exit_def
proof (elim exE conjE)
  fix item assume "report st = []" "report fin = report st @ item @ [NUL]" "fails_with item"
  then show "\<exists>rs final. report fin = items (rs @ [final]) \<and> list_all rcpt_item rs \<and> length rs \<le> length (reciplist env) \<and>
     (fails_with final \<and> rs = [] \<or>
      (\<exists>authd (u :: client) (v :: client) mail ts. introduced env st' authd u \<and> smtp_reply mail \<and> reply_code mail < 400 \<and> list_all2 answers ts rs \<and>
         reply u = mail @ concat ts @ reply v \<and>
         (fails_with final \<or>
          NUL \<notin> set final \<and> (\<exists>t. final = ''K'' @ t) \<and> length rs = length (reciplist env) \<and> likes rs \<and>
          sent v = sent u @ mail_cmd env authd @ rcpt_cmds (reciplist env) \<and> accepted env v fin)))"
    by (intro exI [of _ "[]"] exI [of _ item]) simp
qed

lemma told_bad:
  assumes "bad_exit (items rs) fin" "list_all rcpt_item rs" "length rs \<le> length (reciplist env)"
    and "introduced env st authd u" "smtp_reply mail" "reply_code mail < 400" "list_all2 answers ts rs" "reply u = mail @ concat ts @ rest"
  shows "told env st fin"
proof -
  obtain item where i: "report fin = items rs @ item @ [NUL]" "fails_with item" using assms(1) unfolding bad_exit_def by blast
  have v: "\<exists>v :: client. reply v = rest" by (rule exI [of _ "st\<lparr>reply := rest\<rparr>"]) simp
  then obtain v :: client where "reply v = rest" by blast
  then have "\<exists>authd (u :: client) (v :: client) mail ts. introduced env st authd u \<and> smtp_reply mail \<and> reply_code mail < 400 \<and> list_all2 answers ts rs \<and>
      reply u = mail @ concat ts @ reply v \<and> fails_with item" using assms(4-8) i(2) by blast
  then show ?thesis unfolding told_def using i assms(2,3) by (intro exI [of _ rs] exI [of _ item] conjI) (simp, assumption, assumption, blast)
qed

lemma rcpts_told:
  assumes "introduced env st authd u" "report u = []"
  shows "ends (told env st) P (andthen (mail_part env authd u) (\<lambda>st. andthen (rcpt_part env (reciplist env) False st) (\<lambda>(flagbother, st).
      if \<not> flagbother then quit env ''DGiving up on '' [] st else data_part env st)))"
proof (rule ends_then [OF mail_part_ends])
  show "told env st fin" if "bad_exit (report u) fin" for fin by (rule told_first [OF assms(2) that])
next
  fix s :: client assume s: "report s = report u \<and> sent s = sent u @ mail_cmd env authd \<and> (\<exists>t. smtp_reply t \<and> reply_code t < 400 \<and> reply u = t @ reply s)"
  then obtain mail where mail: "smtp_reply mail" "reply_code mail < 400" "reply u = mail @ reply s" and s2: "report s = []" "sent s = sent u @ mail_cmd env authd"
    using assms(2) by auto
  show "ends (told env st) P (andthen (rcpt_part env (reciplist env) False s) (\<lambda>(flagbother, st).
      if \<not> flagbother then quit env ''DGiving up on '' [] st else data_part env st))"
  proof (cases "rcpt_part env (reciplist env) False s")
    case (Inl fin)
    then have "rcpts_died s (length (reciplist env)) fin" using rcpt_part_ends [of s "reciplist env" False env] by simp
    then obtain is' ts rest where r: "length is' \<le> length (reciplist env)" "list_all rcpt_item is'" "list_all2 answers ts is'" "reply s = concat ts @ rest"
      "bad_exit (items is') fin" unfolding rcpts_died_def s2 by auto
    have "told env st fin" by (rule told_bad [OF r(5) r(2) r(1) assms(1) mail(1,2) r(3)]) (use mail(3) r(4) in simp)
    then show ?thesis using Inl by simp
  next
    case (Inr a)
    obtain b v where a: "a = (b, v)" by fastforce
    have "rcpts_done s (reciplist env) False a" using rcpt_part_ends [of s "reciplist env" False env] Inr by simp
    then obtain rs ts where rs: "length rs = length (reciplist env)" "list_all rcpt_item rs" "list_all2 answers ts rs" "report v = items rs" "b \<longleftrightarrow> likes rs"
      "sent v = sent s @ rcpt_cmds (reciplist env)" "reply s = concat ts @ reply v"
      using s2 a unfolding rcpts_done_def by auto
    have died: "told env st fin" if "bad_exit (report v) fin" for fin
      by (rule told_bad [OF _ rs(2) _ assms(1) mail(1,2) rs(3)]) (use that rs mail(3) in simp_all)
    have no: "ends (told env st) P (quit env ''DGiving up on '' [] v)"
      by (rule quit_ends [OF _ died]) (simp_all add: fails_with_def)
    have yes: "ends (told env st) P (data_part env v)" if "b"
    proof (rule ends_mono [OF data_part_ends])
      fix fin assume "bad_exit (report v) fin \<or> (\<exists>t. report fin = report v @ ''K'' @ t @ [NUL] \<and> NUL \<notin> set t) \<and> accepted env v fin"
      then show "told env st fin"
      proof (elim disjE exE conjE)
        assume "bad_exit (report v) fin"
        then show ?thesis by (rule died)
      next
        fix t assume k: "report fin = report v @ ''K'' @ t @ [NUL]" "NUL \<notin> set t" "accepted env v fin"
        have "introduced env st authd u \<and> smtp_reply mail \<and> reply_code mail < 400 \<and> list_all2 answers ts rs \<and> reply u = mail @ concat ts @ reply v \<and>
          (fails_with (''K'' @ t) \<or> NUL \<notin> set (''K'' @ t) \<and> (\<exists>x. ''K'' @ t = ''K'' @ x) \<and> length rs = length (reciplist env) \<and> likes rs \<and>
           sent v = sent u @ mail_cmd env authd @ rcpt_cmds (reciplist env) \<and> accepted env v fin)"
          using assms(1) mail rs s2 k \<open>b\<close> by simp
        then show ?thesis unfolding told_def using rs(1,2,4) k(1) by (intro exI [of _ rs] exI [of _ "''K'' @ t"] conjI) (simp, assumption, simp, blast)
      qed
    qed
    show ?thesis using no yes Inr a by simp
  qed
qed

lemma smtp_ends:
  assumes "report st = []" "tls_ok env"
  shows "ends (told env st) (same st) (smtp env st)"
proof -
  have first: "told env st fin" if "report s = []" "bad_exit (report s) fin" for s :: client and fin using that by (rule told_first)
  have f: "report s' = []" if "further s s'" "report s = []" for s s' using that by (simp add: further_def)
  show ?thesis
    unfolding smtp_def
  proof (rule ends_then2 [OF smtpcode_ends])
    fix code and s :: client assume c: "smtpcode env st = Inr (code, s)" and s: "same st s"
    then have r: "report s = []" using assms(1) by simp
    let ?main = "andthen (say_helo env s) (\<lambda>st.
            andthen (tls_part env st) (\<lambda>(ssl, st).
            andthen (auth_part env ssl st) (\<lambda>(authd, st).
            andthen (mail_part env authd st) (\<lambda>st.
            andthen (rcpt_part env (reciplist env) False st) (\<lambda>(flagbother, st).
              if \<not> flagbother then quit env ''DGiving up on '' [] st
              else data_part env st)))))"
    have main: "ends (told env st) (same st) ?main" if "code = 220"
    proof (rule ends_then [OF say_helo_ends], erule first [OF r], rule ends_then2 [OF tls_part_ends [OF assms(2)]])
      fix s1 fin assume "further s s1" "bad_exit (report s1) fin"
      then show "told env st fin" using first [of s1] f r by simp
    next
      fix s1 ssl s2 assume s1: "say_helo env s = Inr s1" "further s s1" "tls_part env s1 = Inr (ssl, s2)" "further s1 s2"
      then have r2: "report s2 = []" using f r by blast
      show "ends (told env st) (same st) (andthen (auth_part env ssl s2) (\<lambda>(authd, st).
            andthen (mail_part env authd st) (\<lambda>st.
            andthen (rcpt_part env (reciplist env) False st) (\<lambda>(flagbother, st).
              if \<not> flagbother then quit env ''DGiving up on '' [] st else data_part env st))))"
      proof (rule ends_then2 [OF auth_part_ends], erule first [OF r2])
        fix authd s3 assume s3: "auth_part env ssl s2 = Inr (authd, s3)" "further s2 s3"
        have i: "introduced env st authd s3" unfolding introduced_def using c s1 s3 \<open>code = 220\<close> by blast
        show "ends (told env st) (same st) (andthen (mail_part env authd s3) (\<lambda>st. andthen (rcpt_part env (reciplist env) False st) (\<lambda>(flagbother, st).
              if \<not> flagbother then quit env ''DGiving up on '' [] st else data_part env st)))"
          by (rule rcpts_told [OF i f [OF s3(2) r2]])
      qed
    qed
    have greet: "ends (told env st) (same st) (quit env ''ZConnected to '' '' but greeting failed'' s)"
      by (rule quit_ends, simp add: fails_with_def, erule first [OF r])
    show "ends (told env st) (same st) (if code \<ge> 400 \<and> code < 600 then Inr s
       else if code \<noteq> 220 then quit env ''ZConnected to '' '' but greeting failed'' s else ?main)"
      using main greet s by simp
  qed (rule first [OF assms(1)])
qed

text \<open>Without TLS the client has, up to there, read whole replies of the server, the greeting first, and nothing else.\<close>

definition heard :: "client \<Rightarrow> client \<Rightarrow> bool" where
  "heard st s \<longleftrightarrow> (\<exists>ts. list_all smtp_reply ts \<and> reply st = concat ts @ reply s)"

lemma heard_same: "reply s = reply st \<Longrightarrow> heard st s"
  unfolding heard_def by (rule exI [of _ "[]"]) simp

lemma heard_more: "heard st s \<Longrightarrow> smtp_reply t \<Longrightarrow> reply s = t @ reply u \<Longrightarrow> heard st u"
  unfolding heard_def
proof (elim exE conjE)
  fix ts assume "smtp_reply t" "reply s = t @ reply u" "list_all smtp_reply ts" "reply st = concat ts @ reply s"
  then show "\<exists>ts. list_all smtp_reply ts \<and> reply st = concat ts @ reply u" by (intro exI [of _ "ts @ [t]"]) simp
qed

lemma quit_not_Inr [simp]: "quit env pre post st \<noteq> Inr x"
  by (simp add: quit_def zerodie_def andthen_def split: sum.split)

lemma after_code_heard: "after_code env cmd s k = Inr x \<Longrightarrow> heard st s \<Longrightarrow> (\<And>code u. heard st u \<Longrightarrow> k code u = Inr x \<Longrightarrow> P) \<Longrightarrow> P"
proof -
  assume a: "after_code env cmd s k = Inr x" and h: "heard st s" and P: "\<And>code u. heard st u \<Longrightarrow> k code u = Inr x \<Longrightarrow> P"
  obtain v code u where v: "put_net env cmd s = Inr v" "smtpcode env v = Inr (code, u)" "k code u = Inr x"
    using a by (auto simp: after_code_def andthen_Inr)
  obtain t where "reply v = t @ reply u" "smtp_reply t" using smtpcode_reads [OF v(2)] by blast
  moreover have "reply v = reply s" using put_net_ends [of s cmd env] v(1) by simp
  ultimately show P using heard_more [OF h] P [OF _ v(3)] by simp
qed

lemma say_helo_heard: "say_helo env s = Inr u \<Longrightarrow> heard st s \<Longrightarrow> heard st u"
  unfolding say_helo_def by (erule after_code_heard, assumption) (auto split: if_split_asm elim: after_code_heard)

lemma auth_answer_heard: "auth_answer env secret wanted complaint s = Inr u \<Longrightarrow> heard st s \<Longrightarrow> heard st u"
  by (auto simp: auth_answer_def Let_def temp_nomem_def zerodie_def split: prod.splits if_split_asm elim: after_code_heard)

lemma auth_part_heard:
  assumes "auth_part env ssl s = Inr (authd, u)" "heard st s"
  shows "heard st u"
proof -
  obtain p l v where o: "auth_offers env ssl s = (p, l, v)" by (cases "auth_offers env ssl s") auto
  then have v: "heard st v" using assms(2) by (auto simp: auth_offers_def heard_def Let_def split: if_split_asm)
  have plain: "heard st u" if "auth_plain env v = Inr u"
    using that v by (auto simp: auth_plain_def Let_def temp_nomem_def zerodie_def split: prod.splits if_split_asm elim: after_code_heard)
  have login: "heard st u" if "auth_login env v = Inr u"
    using that [unfolded auth_login_def] v
    by (rule after_code_heard) (auto simp: andthen_Inr split: if_split_asm dest: auth_answer_heard)
  show ?thesis using assms(1) v plain login by (auto simp: auth_part_def o andthen_Inr split: if_split_asm)
qed

lemma introduced_heard:
  assumes "introduced env st authd u" "\<not> can_tls env"
  shows "heard st u"
proof -
  obtain s1 s2 where s: "smtpcode env st = Inr (220, s1)" "say_helo env s1 = Inr s2" "auth_part env False s2 = Inr (authd, u)"
    using assms by (auto simp: introduced_def tls_part_def)
  obtain t where "reply st = t @ reply s1" "smtp_reply t" using smtpcode_reads [OF s(1)] by blast
  then have "heard st s1" using heard_more [OF heard_same [OF refl]] by blast
  then show ?thesis using auth_part_heard [OF s(3)] say_helo_heard [OF s(2)] by blast
qed

section \<open>Routes, addresses and mail exchangers\<close>

text \<open>
  The value of a route in \<open>control/smtproutes\<close>, \<open>relay:port user password\<close>, is a C string in a buffer that holds more bytes
  behind it: \<open>m\<close> is the buffer from the value on. Reading or writing behind the buffer is \<open>None\<close>.
\<close>

record route =
  route_host :: "char list"
  route_port :: "ulong option"
  route_user :: "char list"
  route_pass :: "char list"
  route_insecure :: bool
  route_buf :: "char list"

definition route_auth :: "char list \<Rightarrow> nat \<Rightarrow> route \<Rightarrow> route option" where
  "route_auth m i r =
     (if i + 1 \<ge> length m then None
      else let j = str_chr (drop (i + 1) m) SP
           in if j \<ge> length m then None
              else if m ! j \<noteq> NUL
              then if i + j + 2 > length m then None
                   else let m = m[i + j + 1 := NUL]
                        in if NUL \<notin> set (drop (i + j + 2) m) then None
                           else Some (r\<lparr>route_user := cstr (drop (i + 1) m), route_pass := cstr (drop (i + j + 2) m), route_buf := m\<rparr>)
              else Some (r\<lparr>route_buf := m\<rparr>))"

definition parse_route :: "char list \<Rightarrow> route option" where
  "parse_route m =
     (let i = str_chr m SP;
          r = \<lparr>route_host = [], route_port = None, route_user = [], route_pass = [], route_insecure = False, route_buf = m\<rparr>;
          res = (if char_at m i \<noteq> NUL
                 then let m = m[i := NUL]
                      in if i + 1 \<ge> length m then None
                         else if m ! (i + 1) = CHR ''-'' then route_auth m (i + 1) (r\<lparr>route_insecure := True\<rparr>)
                         else route_auth m i r
                 else Some r)
      in case res of
           None \<Rightarrow> None
         | Some r \<Rightarrow>
             (let m = route_buf r; i = str_chr m (CHR '':'')
              in if char_at m i \<noteq> NUL
                 then let p = snd (scan_ulong (drop (i + 1) m)); m = m[i := NUL]
                      in Some (r\<lparr>route_port := Some p, route_host := cstr m, route_buf := m\<rparr>)
                 else Some (r\<lparr>route_host := cstr m\<rparr>)))"

text \<open>The route of a host: its own, else that of the rest of its name from some dot on, else that of the empty name.\<close>

fun find_route :: "(char list \<Rightarrow> nat option) \<Rightarrow> char list \<Rightarrow> nat \<Rightarrow> nat \<Rightarrow> nat option" where
  "find_route look host i 0 = None"
| "find_route look host i (Suc n) =
     (if i = 0 \<or> i = length host \<or> host ! i = CHR ''.''
      then case look (drop i host) of
             Some off \<Rightarrow> Some off
           | None \<Rightarrow> find_route look host (Suc i) n
      else find_route look host (Suc i) n)"

definition route_for :: "char list \<Rightarrow> (char list \<Rightarrow> nat option) \<Rightarrow> char list \<Rightarrow> nat option" where
  "route_for routes look host =
     (case find_route look host 0 (length host + 1) of
        None \<Rightarrow> None
      | Some off \<Rightarrow> if char_at routes off = NUL then None else Some off)"

text \<open>\<open>dns_cname\<close> replaces its argument by the canonical name; it is a parameter, with its result code.\<close>

definition addrmangle ::
  "(nat \<Rightarrow> bool) \<Rightarrow> (char list \<Rightarrow> int \<times> char list) \<Rightarrow> char list \<Rightarrow> bool \<Rightarrow> client \<Rightarrow> client + char list \<times> bool" where
  "addrmangle mem dns_cname s flagcname st =
     (let j = str_rchr s (CHR ''@''); n = str_len s
      in if char_at s j = NUL then (if \<not> mem (n + 1) then temp_nomem st else Inr (take n s, flagcname))
         else if \<not> mem (n + 1) then temp_nomem st
         else let (r, q) = quote mem [] (take j s)
              in if r = 0 then temp_nomem st
                 else if \<not> mem (length q + 2) then temp_nomem st
                 else let host = cstr (drop (j + 1) s)
                      in if \<not> mem (length host + 1) then temp_nomem st
                         else andthen (if flagcname
                                       then let (d, host) = dns_cname host
                                            in if d = 0 then Inr (False, host)
                                               else if d = - 3 then temp_nomem st
                                               else if d = - 1 then temp_dnscanon st
                                               else Inr (True, host)
                                       else Inr (False, host))
                                (\<lambda>(alias, host). if \<not> mem (length q + 1 + length host + 1) then temp_nomem st
                                                 else Inr (q @ ''@'' @ host, alias)))"

text \<open>A mail exchanger with its preference; \<open>ipme_is\<close> tells the addresses of this host.\<close>

record ip_mx =
  ip :: ip_address
  pref :: nat

definition prefme :: "(ip_address \<Rightarrow> bool) \<Rightarrow> ip_mx list \<Rightarrow> bool \<Rightarrow> bool \<Rightarrow> nat" where
  "prefme ipme_is ips relay flagallaliases =
     (let p = fold (\<lambda>m p. if ipme_is (ip m) then if pref m < p then pref m else p else p) ips 100000;
          p = (if relay then 300000 else p)
      in if flagallaliases then 500000 else p)"

definition dead :: "client + unit \<Rightarrow> client" where
  "dead r = projl r"

text \<open>
  The loop over the exchangers. \<open>conn k\<close> is what comes of the \<open>k\<close>th that is tried: no socket, no connection, or
  one with what its server will send. \<open>smtpfrom\<close> is not emptied between connections: bytes of a server that were read ahead stay in front of what
  the next one sends; \<open>ahead k\<close> is how many of the unread bytes were read ahead. The sequence of calls of \<open>tcpto_err\<close> is
  part of the result.
\<close>

datatype conn = No_socket | No_connection | Server "char list"

fun try_mx ::
  "(ip_address \<Rightarrow> remote_env) \<Rightarrow> (ip_address \<Rightarrow> bool) \<Rightarrow> (nat \<Rightarrow> conn) \<Rightarrow> (nat \<Rightarrow> bool) \<Rightarrow> (nat \<Rightarrow> nat) \<Rightarrow> nat \<Rightarrow> nat
   \<Rightarrow> ip_mx list \<Rightarrow> client \<Rightarrow> (ip_address \<times> bool) list \<Rightarrow> client \<times> (ip_address \<times> bool) list" where
  "try_mx env tcpto conn timedout ahead pm k [] st errs =
     (dead (temp_noconn st), errs)"
| "try_mx env tcpto conn timedout ahead pm k (m # ms) st errs =
     (if \<not> pref m < pm \<or> tcpto (ip m) then try_mx env tcpto conn timedout ahead pm k ms st errs
      else case conn k of
             No_socket \<Rightarrow> (dead (temp_oserr st), errs)
           | No_connection \<Rightarrow> try_mx env tcpto conn timedout ahead pm (Suc k) ms st (errs @ [(ip m, timedout k)])
           | Server server \<Rightarrow>
               (case smtp (env (ip m)) (st\<lparr>reply := reply st @ server\<rparr>) of
                  Inl fin \<Rightarrow> (fin, errs @ [(ip m, False)])
                | Inr st' \<Rightarrow>
                    try_mx env tcpto conn timedout ahead pm (Suc k) ms (st'\<lparr>reply := take (ahead k) (reply st')\<rparr>)
                      (errs @ [(ip m, False), (ip m, timedout k)])))"

definition deliver ::
  "(ip_address \<Rightarrow> remote_env) \<Rightarrow> (ip_address \<Rightarrow> bool) \<Rightarrow> (ip_address \<Rightarrow> bool) \<Rightarrow> (nat \<Rightarrow> conn) \<Rightarrow> (nat \<Rightarrow> bool) \<Rightarrow> (nat \<Rightarrow> nat)
   \<Rightarrow> char list \<Rightarrow> int \<Rightarrow> ip_mx list \<Rightarrow> bool \<Rightarrow> bool \<Rightarrow> client \<Rightarrow> client \<times> (ip_address \<times> bool) list" where
  "deliver env ipme_is tcpto conn timedout ahead host dns ips relay flagallaliases st =
     (let exit = (\<lambda>r. (dead r, []))
      in if dns = - 3 then exit (temp_nomem st)
         else if dns = - 1 then exit (temp_dns st)
         else if dns = - 2 then exit (perm_dns host st)
         else if dns = 1 \<and> ips = [] then exit (temp_dns st)
         else if ips = [] then exit (perm_nomx st)
         else let pm = prefme ipme_is ips relay flagallaliases
              in if \<forall>m \<in> set ips. \<not> pref m < pm then exit (perm_ambigmx st)
                 else try_mx env tcpto conn timedout ahead pm 0 ips st [])"

fun mangle_all ::
  "(nat \<Rightarrow> bool) \<Rightarrow> (char list \<Rightarrow> int \<times> char list) \<Rightarrow> char list list \<Rightarrow> bool \<Rightarrow> client \<Rightarrow> client + char list list \<times> bool" where
  "mangle_all mem dns_cname [] flagcname st = Inr ([], True)"
| "mangle_all mem dns_cname (r # rs) flagcname st =
     andthen (addrmangle mem dns_cname r flagcname st) (\<lambda>(a, alias).
     andthen (mangle_all mem dns_cname rs flagcname st) (\<lambda>(as, allaliases).
       Inr (a # as, alias \<and> allaliases)))"

text \<open>
  \<open>main\<close> after \<open>getcontrols\<close>: the route of the host, the addresses, the exchangers, the delivery. \<open>dns_ip\<close> and \<open>dns_mxip\<close> give a
  result code and the list of exchangers.
\<close>

definition remote_main ::
  "remote_env \<Rightarrow> char list \<Rightarrow> (char list \<Rightarrow> nat option) \<Rightarrow> (char list \<Rightarrow> int \<times> char list) \<Rightarrow> (char list \<Rightarrow> int \<times> ip_mx list)
   \<Rightarrow> (char list \<Rightarrow> int \<times> ip_mx list) \<Rightarrow> (ip_address \<Rightarrow> bool) \<Rightarrow> (ip_address \<Rightarrow> bool) \<Rightarrow> (nat \<Rightarrow> conn) \<Rightarrow> (nat \<Rightarrow> bool) \<Rightarrow> (nat \<Rightarrow> nat)
   \<Rightarrow> char list \<Rightarrow> char list \<Rightarrow> char list list \<Rightarrow> (client \<times> (ip_address \<times> bool) list) option" where
  "remote_main env routes look dns_cname dns_ip dns_mxip ipme_is tcpto conn timedout ahead host from recips =
     (let st = \<lparr>reply = [], smtptext = [], sent = [], report = [], flagcritical = False\<rparr>;
          relay = route_for routes look host;
          route = (case relay of None \<Rightarrow> Some None | Some off \<Rightarrow> map_option Some (parse_route (drop off routes)))
      in case route of
           None \<Rightarrow> None
         | Some r \<Rightarrow>
             (let host = (case r of None \<Rightarrow> host | Some r \<Rightarrow> route_host r);
                  env = (case r of None \<Rightarrow> env
                         | Some r \<Rightarrow> env\<lparr>auth_smtp_user := route_user r, auth_smtp_pass := route_pass r,
                                       allow_insecure_auth := allow_insecure_auth env \<or> route_insecure r,
                                       can_tls := can_tls env \<and> \<not> route_insecure r\<rparr>);
                  res = andthen (addrmangle (rmem env) dns_cname from False st) (\<lambda>(from, _).
                        andthen (mangle_all (rmem env) dns_cname recips (r = None) st) (\<lambda>(recips, allaliases).
                          Inr (from, recips, allaliases)))
              in Some (case res of
                         Inl fin \<Rightarrow> (fin, [])
                       | Inr (from, recips, allaliases) \<Rightarrow>
                           (let (dns, ips) = (if r \<noteq> None then dns_ip host else dns_mxip host)
                            in deliver (\<lambda>a. env\<lparr>sender := from, reciplist := recips, partner := a\<rparr>) ipme_is tcpto conn timedout ahead
                                 host dns ips (r \<noteq> None) allaliases st))))"

section \<open>Any delivery reports\<close>

text \<open>A delivery has failed before there was a dialogue, or was a dialogue with one of the exchangers. What this client read came from that exchanger,
  behind what was read ahead from the ones before it.\<close>

definition served :: "(ip_address \<Rightarrow> remote_env) \<Rightarrow> (nat \<Rightarrow> conn) \<Rightarrow> (nat \<Rightarrow> nat) \<Rightarrow> client \<Rightarrow> bool" where
  "served env conn ahead fin \<longleftrightarrow> bad_exit [] fin \<or>
     (\<exists>a k server left (s :: client). conn k = Server server \<and> reply s = left @ server \<and> ((\<forall>k. ahead k = 0) \<longrightarrow> left = []) \<and> report s = [] \<and> sent s = [] \<and>
        told (env a) s fin)"

lemma zerodie_bad_exit: "report st = [] \<Longrightarrow> fails_with (cstr s) \<Longrightarrow> bad_exit [] (dead (zerodie (out s st)))"
  unfolding zerodie_def dead_def sum.sel by (rule bad_exit_I [where item = "cstr s"]) simp_all

lemma zerodie_served: "report st = [] \<Longrightarrow> fails_with (cstr s) \<Longrightarrow> served env conn ahead (dead (zerodie (out s st)))"
  using zerodie_bad_exit by (simp add: served_def)

lemma served_noconn: "report st = [] \<Longrightarrow> served env conn ahead (dead (temp_noconn st))"
  unfolding temp_noconn_def by (rule zerodie_served) (simp_all add: fails_with_def)

lemma served_oserr: "report st = [] \<Longrightarrow> served env conn ahead (dead (temp_oserr st))"
  unfolding temp_oserr_def by (rule zerodie_served) (simp_all add: fails_with_def)

lemma try_mx_served:
  assumes "\<And>a. tls_ok (env a)" and "report st = []" "sent st = []" "(\<forall>k. ahead k = 0) \<longrightarrow> reply st = []"
  shows "served env conn ahead (fst (try_mx env tcpto conn timedout ahead pm k ms st errs))"
  using assms(2-4)
proof (induction ms arbitrary: k st errs)
  case Nil
  then show ?case using served_noconn [of st env conn ahead] by (simp only: try_mx.simps fst_conv)
next
  case (Cons m ms)
  show ?case
  proof (cases "\<not> pref m < pm \<or> tcpto (ip m)")
    case True
    then show ?thesis using Cons by simp
  next
    case False
    show ?thesis
    proof (cases "conn k")
      case No_socket
      then have "fst (try_mx env tcpto conn timedout ahead pm k (m # ms) st errs) = dead (temp_oserr st)"
        using False by simp
      then show ?thesis using served_oserr [OF Cons.prems(1), of env conn ahead] by (simp only:)
    next
      case No_connection
      then show ?thesis using False Cons by simp
    next
      case (Server server)
      let ?s = "st\<lparr>reply := reply st @ server\<rparr>"
      have e: "ends (told (env (ip m)) ?s) (same ?s) (smtp (env (ip m)) ?s)"
        by (rule smtp_ends) (use Cons.prems assms in auto)
      show ?thesis
      proof (cases "smtp (env (ip m)) ?s")
        case (Inl fin)
        then have f: "fst (try_mx env tcpto conn timedout ahead pm k (m # ms) st errs) = fin" "told (env (ip m)) ?s fin"
          using e False Server by simp_all
        have "conn k = Server server \<and> reply ?s = reply st @ server \<and> ((\<forall>k. ahead k = 0) \<longrightarrow> reply st = []) \<and> report ?s = [] \<and> sent ?s = [] \<and> told (env (ip m)) ?s fin"
          using f(2) Server Cons.prems by simp
        then show ?thesis unfolding f(1) served_def by blast
      next
        case (Inr st')
        let ?t = "st'\<lparr>reply := take (ahead k) (reply st')\<rparr>"
        have "report ?t = []" "sent ?t = []" "(\<forall>k. ahead k = 0) \<longrightarrow> reply ?t = []" using Inr e Cons.prems by simp_all
        note i = Cons.IH [OF this]
        show ?thesis using i False Server Inr by simp
      qed
    qed
  qed
qed

lemma perm_dns_served:
  assumes "report st = []"
  shows "served env conn ahead (dead (perm_dns host st))"
proof -
  have safe: "NUL \<notin> set (outsafe s)" for s
  proof (induction s)
    case (Cons c s)
    have "sch c < 33 \<or> c \<noteq> NUL" by (cases "c = NUL") (simp_all add: sch_def)
    then show ?case using Cons by (auto simp: Let_def)
  qed simp
  let ?a = "''DSorry, I couldn't find any host named ''" and ?b = "''. (#5.1.2)'' @ [LF]"
  have "bad_exit [] (dead (perm_dns host st))"
  proof (rule bad_exit_I)
    show "report (dead (perm_dns host st)) = [] @ (?a @ outsafe host @ ?b) @ [NUL]"
      by (simp add: perm_dns_def zerodie_def dead_def assms)
    show "fails_with (?a @ outsafe host @ ?b)" by (rule fails_with_append) (auto simp: fails_with_def safe)
  qed
  then show ?thesis by (simp add: served_def)
qed

section \<open>Routes with a user and a password\<close>

lemma str_chr_before: "c \<notin> set s \<Longrightarrow> NUL \<notin> set s \<Longrightarrow> str_chr (s @ c # t) c = length s"
  by (induction s) auto

lemma str_chr_end: "c \<notin> set s \<Longrightarrow> NUL \<notin> set s \<Longrightarrow> str_chr (s @ NUL # t) c = length s"
  by (induction s) auto

lemma str_chr_le: "str_chr s c \<le> length s"
  by (induction s) auto

lemma parse_route_auth:
  assumes h: "SP \<notin> set h" "NUL \<notin> set h" "CHR '':'' \<notin> set h"
    and u: "SP \<notin> set u" "NUL \<notin> set u" "u \<noteq> []" "hd u \<noteq> CHR ''-''" and p: "NUL \<notin> set p"
  shows "\<exists>r. parse_route (h @ SP # u @ SP # p @ NUL # rest) = Some r \<and> route_host r = h \<and> \<not> route_insecure r \<and>
     (if length u = length h then route_user r = [] \<and> route_pass r = [] else route_user r = u \<and> route_pass r = p)"
proof -
  let ?m = "h @ SP # u @ SP # p @ NUL # rest" let ?n = "h @ NUL # u @ SP # p @ NUL # rest"
  let ?r = "\<lparr>route_host = [], route_port = None, route_user = [], route_pass = [], route_insecure = False, route_buf = ?m\<rparr>"
  have i: "str_chr ?m SP = length h" using h by (intro str_chr_before)
  have cut: "?m[length h := NUL] = ?n" by (simp add: list_update_append)
  have nxt: "?n ! (length h + 1) \<noteq> CHR ''-''" using u(3,4) by (cases u) (auto simp: nth_append)
  have j: "str_chr (drop (length h + 1) ?n) SP = length u" using u by (simp add: str_chr_before)
  have at: "?n ! length u = NUL \<longleftrightarrow> length u = length h"
  proof (cases "length u < length h")
    case True
    then show ?thesis using h(2) by (auto simp: nth_append in_set_conv_nth)
  next
    case False
    show ?thesis
    proof (cases "length u = length h")
      case True
      then show ?thesis by (simp add: nth_append)
    next
      case neq: False
      then obtain d where d: "length u = length h + Suc d"
        using False less_imp_Suc_add [of "length h" "length u"] by auto
      then have "?n ! length u = u ! d" by (simp add: nth_append)
      then show ?thesis using u(2) neq d by (metis add_Suc_right le_add2 less_Suc_eq_le nth_mem)
    qed
  qed
  let ?k = "h @ NUL # u @ NUL # p @ NUL # rest"
  have cut2: "?n[Suc (length h + length u) := NUL] = ?k" by (simp add: list_update_append)
  have drops: "drop (Suc (length h)) ?k = u @ NUL # p @ NUL # rest" "drop (Suc (Suc (length h + length u))) ?k = p @ NUL # rest"
    by simp_all
  have auth: "route_auth ?n (length h) ?r = Some (if length u = length h then ?r\<lparr>route_buf := ?n\<rparr>
     else ?r\<lparr>route_user := u, route_pass := p, route_buf := ?k\<rparr>)"
    unfolding route_auth_def Let_def j using at u(2) p by (simp add: cut2 drops del: drop_append list_update_append)
  have m: "char_at ?m (length h) \<noteq> NUL" by (simp add: char_at_append)
  have colon: "str_chr (h @ NUL # t) (CHR '':'') = length h" "char_at (h @ NUL # t) (length h) = NUL" "cstr (h @ NUL # t) = h" for t
    using h by (simp_all add: str_chr_end char_at_append)
  show ?thesis
    using m nxt auth unfolding parse_route_def Let_def i cut by (simp add: colon)
qed

section \<open>A lost QUIT\<close>

text \<open>
  A connection that takes the message and is then closed by the server, which has accepted it: the final \<open>QUIT\<close> fails, and the
  client reports a temporary failure, without its warning of a duplicate, so that the message is sent again.
\<close>

definition no_quit_env :: remote_env where
  "no_quit_env = \<lparr>rmem = \<lambda>_. True, net = (\<lambda>s. drop (length s - 6) s \<noteq> ''QUIT'' @ crlf), partner = (10, 0, 0, 1), helohost = ''me'',
     sender = ''a'', reciplist = [''b''], message = ''x'' @ [LF], message_end = At_eof, auth_smtp_user = [], auth_smtp_pass = [],
     allow_insecure_auth = False, can_tls = False, matchregex = \<lambda>_ _. 0, starttls = \<lambda>st. Inr (False, st)\<rparr>"

definition friendly_server :: "char list" where
  "friendly_server = ''220 hi'' @ crlf @ ''250 me'' @ crlf @ ''250 ok'' @ crlf @ ''250 ok'' @ crlf @ ''354 go'' @ crlf @ ''250 accepted'' @ crlf"

definition new_client :: "char list \<Rightarrow> client" where
  "new_client server = \<lparr>reply = server, smtptext = [], sent = [], report = [], flagcritical = False\<rparr>"

lemma lost_quit:
  "case smtp no_quit_env (new_client friendly_server) of
     Inr _ \<Rightarrow> False
   | Inl fin \<Rightarrow> reply fin = [] \<and> report fin = items [''r'', ''ZConnected to 10.0.0.1 but connection died. (#4.4.2)'' @ [LF]]"
  by code_simp

section \<open>Properties\<close>

text \<open>C17: however the server answers, whenever the connection dies and whatever memory fails, \<open>smtp\<close> ends with a report that says
  what the server has said, or returns to try the next exchanger, having reported and sent nothing, when the greeting was a refusal. The report has an item for each recipient in
  order, as far as it got, which is r, s or h as the code of the server's reply to this recipient is below 400, below 500 or above; and then one item more: Z or D, a
  failure; or K. K only if there was an item for every recipient and an r among them, the client has sent, after the greeting and what belongs to it, exactly MAIL, the RCPT of
  each recipient, DATA, the whole message as \<open>blast\<close> encodes it with its final dot, and QUIT, and the replies to MAIL, to DATA and to the message had codes below 400. The
  replies are the ones on the wire: what the server sends is split into them without a gap (without TLS from the greeting on). What is relied on in an exchange under TLS is
  \<open>tls_ok\<close>.\<close>

theorem smtp_told:
  assumes "tls_ok env" and "report st = []"
  shows "case smtp env st of
       Inr st' \<Rightarrow> report st' = [] \<and> sent st' = sent st \<and>
         (\<exists>greeting. reply st = greeting @ reply st' \<and> smtp_reply greeting \<and> reply_code greeting \<ge> 400 \<and> reply_code greeting < 600)
     | Inl fin \<Rightarrow> \<exists>rs final. report fin = items (rs @ [final]) \<and> list_all rcpt_item rs \<and> length rs \<le> length (reciplist env) \<and>
         NUL \<notin> set final \<and> final \<noteq> [] \<and>
         (hd final \<in> {CHR ''Z'', CHR ''D''} \<and> rs = [] \<or>
          (\<exists>authd u mail ts rest. introduced env st authd u \<and> (\<not> can_tls env \<longrightarrow> heard st u) \<and>
             smtp_reply mail \<and> reply_code mail < 400 \<and> list_all2 answers ts rs \<and> reply u = mail @ concat ts @ rest \<and>
             (hd final \<in> {CHR ''Z'', CHR ''D''} \<or>
              hd final = CHR ''K'' \<and> length rs = length (reciplist env) \<and> (\<exists>i \<in> set rs. hd i = CHR ''r'') \<and>
              (\<exists>body goahead verdict. remote_blast (message_end env) (message env) = Inr body \<and>
                 sent fin = sent u @ mail_cmd env authd @ rcpt_cmds (reciplist env) @ ''DATA'' @ crlf @ body @ ''QUIT'' @ crlf \<and>
                 rest = goahead @ verdict @ reply fin \<and> smtp_reply goahead \<and> reply_code goahead < 400 \<and>
                 smtp_reply verdict \<and> reply_code verdict < 400))))"
proof (cases "smtp env st")
  case (Inl fin)
  then have "told env st fin" using smtp_ends [OF assms(2,1)] by simp
  then obtain rs final where 1: "report fin = items (rs @ [final])" "list_all rcpt_item rs" "length rs \<le> length (reciplist env)"
    and 2: "fails_with final \<and> rs = [] \<or> (\<exists>authd (u :: client) (v :: client) mail ts. introduced env st authd u \<and> smtp_reply mail \<and> reply_code mail < 400 \<and>
         list_all2 answers ts rs \<and> reply u = mail @ concat ts @ reply v \<and>
         (fails_with final \<or> NUL \<notin> set final \<and> (\<exists>t. final = ''K'' @ t) \<and> length rs = length (reciplist env) \<and> likes rs \<and>
          sent v = sent u @ mail_cmd env authd @ rcpt_cmds (reciplist env) \<and> accepted env v fin))"
    unfolding told_def by blast
  have f: "NUL \<notin> set final" "final \<noteq> []" using 2 by (auto simp: fails_with_def)
  have fail: "fails_with final \<Longrightarrow> hd final \<in> {CHR ''Z'', CHR ''D''}" by (simp add: fails_with_def)
  let ?goal = "(hd final \<in> {CHR ''Z'', CHR ''D''} \<and> rs = [] \<or>
          (\<exists>authd u mail ts rest. introduced env st authd u \<and> (\<not> can_tls env \<longrightarrow> heard st u) \<and>
             smtp_reply mail \<and> reply_code mail < 400 \<and> list_all2 answers ts rs \<and> reply u = mail @ concat ts @ rest \<and>
             (hd final \<in> {CHR ''Z'', CHR ''D''} \<or>
              hd final = CHR ''K'' \<and> length rs = length (reciplist env) \<and> (\<exists>i \<in> set rs. hd i = CHR ''r'') \<and>
              (\<exists>body goahead verdict. remote_blast (message_end env) (message env) = Inr body \<and>
                 sent fin = sent u @ mail_cmd env authd @ rcpt_cmds (reciplist env) @ ''DATA'' @ crlf @ body @ ''QUIT'' @ crlf \<and>
                 rest = goahead @ verdict @ reply fin \<and> smtp_reply goahead \<and> reply_code goahead < 400 \<and>
                 smtp_reply verdict \<and> reply_code verdict < 400))))"
  show ?thesis
    unfolding Inl sum.case
  proof (rule exI [of _ rs], rule exI [of _ final], intro conjI 1 f, use 2 in \<open>elim disjE exE conjE\<close>)
    assume "fails_with final" "rs = []"
    then show ?goal using fail by blast
  next
    fix authd and u v :: client and mail ts
    assume u: "introduced env st authd u" "smtp_reply mail" "reply_code mail < 400" "list_all2 answers ts rs" "reply u = mail @ concat ts @ reply v"
    assume "fails_with final"
    then show ?goal using fail u introduced_heard [OF u(1)] by blast
  next
    fix authd and u v :: client and mail ts t
    assume u: "introduced env st authd u" "smtp_reply mail" "reply_code mail < 400" "list_all2 answers ts rs" "reply u = mail @ concat ts @ reply v"
      and k: "final = ''K'' @ t" "length rs = length (reciplist env)" "likes rs" "sent v = sent u @ mail_cmd env authd @ rcpt_cmds (reciplist env)" "accepted env v fin"
    have "hd final = CHR ''K''" using k(1) by simp
    moreover obtain body goahead verdict where "remote_blast (message_end env) (message env) = Inr body"
      "sent fin = sent u @ mail_cmd env authd @ rcpt_cmds (reciplist env) @ ''DATA'' @ crlf @ body @ ''QUIT'' @ crlf"
      "reply v = goahead @ verdict @ reply fin" "smtp_reply goahead" "reply_code goahead < 400" "smtp_reply verdict" "reply_code verdict < 400"
      using k(4,5) unfolding accepted_def by auto
    ultimately show ?goal using u k(2,3) introduced_heard [OF u(1)] by blast
  qed
next
  case (Inr st')
  then obtain code s where c: "smtpcode env st = Inr (code, s)" "code \<ge> 400 \<and> code < 600 \<and> s = st'"
    by (auto simp: smtp_def andthen_Inr split: if_split_asm)
  then show ?thesis using Inr smtp_ends [OF assms(2,1)] assms(2) smtpcode_reads [OF c(1)] by auto
qed

theorem smtp_told_witness:
  "case smtp no_quit_env (new_client friendly_server) of
       Inr st' \<Rightarrow> report st' = [] \<and> sent st' = sent (new_client friendly_server) \<and>
         (\<exists>greeting. reply (new_client friendly_server) = greeting @ reply st' \<and> smtp_reply greeting \<and> reply_code greeting \<ge> 400 \<and> reply_code greeting < 600)
     | Inl fin \<Rightarrow> \<exists>rs final. report fin = items (rs @ [final]) \<and> list_all rcpt_item rs \<and> length rs \<le> length (reciplist no_quit_env) \<and>
         NUL \<notin> set final \<and> final \<noteq> [] \<and>
         (hd final \<in> {CHR ''Z'', CHR ''D''} \<and> rs = [] \<or>
          (\<exists>authd u mail ts rest. introduced no_quit_env (new_client friendly_server) authd u \<and> (\<not> can_tls no_quit_env \<longrightarrow> heard (new_client friendly_server) u) \<and>
             smtp_reply mail \<and> reply_code mail < 400 \<and> list_all2 answers ts rs \<and> reply u = mail @ concat ts @ rest \<and>
             (hd final \<in> {CHR ''Z'', CHR ''D''} \<or>
              hd final = CHR ''K'' \<and> length rs = length (reciplist no_quit_env) \<and> (\<exists>i \<in> set rs. hd i = CHR ''r'') \<and>
              (\<exists>body goahead verdict. remote_blast (message_end no_quit_env) (message no_quit_env) = Inr body \<and>
                 sent fin = sent u @ mail_cmd no_quit_env authd @ rcpt_cmds (reciplist no_quit_env) @ ''DATA'' @ crlf @ body @ ''QUIT'' @ crlf \<and>
                 rest = goahead @ verdict @ reply fin \<and> smtp_reply goahead \<and> reply_code goahead < 400 \<and>
                 smtp_reply verdict \<and> reply_code verdict < 400))))"
  by (rule smtp_told) (simp_all add: tls_ok_def no_quit_env_def new_client_def)

text \<open>a user and a password after the relay in \<open>control/smtproutes\<close> are used, unless the user's name is exactly as long as the
  relay's: then they are silently left out, since the test for the second blank looks at the wrong place.\<close>

theorem route_user_dropped:
  assumes "SP \<notin> set h" and "NUL \<notin> set h" and "CHR '':'' \<notin> set h"
    and "SP \<notin> set u" and "NUL \<notin> set u" and "u \<noteq> []" and "hd u \<noteq> CHR ''-''" and "NUL \<notin> set p"
  shows "\<exists>r. parse_route (h @ SP # u @ SP # p @ NUL # rest) = Some r \<and> route_host r = h \<and>
     (if length u = length h then route_user r = [] \<and> route_pass r = [] else route_user r = u \<and> route_pass r = p)"
  using parse_route_auth [OF assms] by blast

theorem route_user_dropped_witness:
  "\<exists>r. parse_route (''relay'' @ SP # ''admin'' @ SP # ''secret'' @ NUL # []) = Some r \<and> route_host r = ''relay'' \<and>
     (if length ''admin'' = length ''relay'' then route_user r = [] \<and> route_pass r = [] else route_user r = ''admin'' \<and> route_pass r = ''secret'')"
  by (rule route_user_dropped) simp_all

lemma deliver_served:
  assumes "\<And>a. tls_ok (env a)" "report st = []" "sent st = []" "reply st = []"
  shows "served env conn ahead (fst (deliver env ipme_is tcpto conn timedout ahead host dns ips relay allaliases st))"
proof -
  have dead: "served env conn ahead (dead (temp_nomem st))" "served env conn ahead (dead (temp_dns st))"
    "served env conn ahead (dead (perm_nomx st))" "served env conn ahead (dead (perm_ambigmx st))"
    unfolding temp_nomem_def temp_dns_def perm_nomx_def perm_ambigmx_def
    by (rule zerodie_served [OF assms(2)], simp add: fails_with_def)+
  have "(\<forall>k. ahead k = 0) \<longrightarrow> reply st = []" using assms(4) by simp
  note mx = try_mx_served [OF assms(1-3) this, where tcpto = tcpto and conn = conn and timedout = timedout and
        pm = "prefme ipme_is ips relay allaliases" and k = 0 and ms = ips and errs = "[]"]
  show ?thesis
    unfolding deliver_def Let_def
    using dead perm_dns_served [OF assms(2), of env conn ahead host] mx
    by (simp only: if_distrib [of fst] fst_conv split: if_split) blast
qed

text \<open>Whatever the name servers, the exchangers and the table of timeouts say, a delivery ends with a well-formed report for the
  exchanger that was used.\<close>

theorem deliver_told:
  assumes "\<And>a. tls_ok (env a)" and "\<And>a. reciplist (env a) = recips" and "report st = []" "sent st = []" "reply st = []"
  shows "\<exists>rs final. report (fst (deliver env ipme_is tcpto conn timedout ahead host dns ips relay allaliases st)) = items (rs @ [final]) \<and>
     list_all rcpt_item rs \<and> length rs \<le> length recips \<and> final \<noteq> [] \<and> hd final \<in> {CHR ''Z'', CHR ''D'', CHR ''K''}"
  using deliver_served [where env = env and conn = conn and ahead = ahead and ipme_is = ipme_is and tcpto = tcpto and timedout = timedout and host = host and
    dns = dns and ips = ips and relay = relay and allaliases = allaliases, OF assms(1,3-5)] unfolding served_def
proof (elim disjE exE conjE)
  let ?fin = "fst (deliver env ipme_is tcpto conn timedout ahead host dns ips relay allaliases st)"
  assume "bad_exit [] ?fin"
  then obtain item where "report ?fin = items ([] @ [item])" "fails_with item" unfolding bad_exit_def by auto
  then show ?thesis by (intro exI [of _ "[]"] exI [of _ item]) (auto simp: fails_with_def)
next
  fix a s assume "told (env a) s (fst (deliver env ipme_is tcpto conn timedout ahead host dns ips relay allaliases st))"
  then show ?thesis unfolding told_def assms(2) by (elim exE conjE, intro exI conjI) (assumption+, auto simp: fails_with_def)
qed

theorem deliver_told_witness:
  "\<exists>rs final. report (fst (deliver (\<lambda>a. no_quit_env\<lparr>partner := a\<rparr>) (\<lambda>_. False) (\<lambda>_. False) (\<lambda>_. Server friendly_server) (\<lambda>_. False)
       (\<lambda>_. 0) ''host'' 0 [\<lparr>ip = (10, 0, 0, 1), pref = 5\<rparr>] False False (new_client []))) = items (rs @ [final]) \<and>
     list_all rcpt_item rs \<and> length rs \<le> length [''b''] \<and> final \<noteq> [] \<and> hd final \<in> {CHR ''Z'', CHR ''D'', CHR ''K''}"
  by (rule deliver_told [where env = "\<lambda>a. no_quit_env\<lparr>partner := a\<rparr>"]) (simp_all add: tls_ok_def no_quit_env_def new_client_def)

end
