(* ===== verification/Qmailc.thy ===== *)
theory Qmailc
  imports Substdio Datetime Numtext
begin

text \<open>
  Handing a message to \<open>qmail-queue\<close>: \<open>qmail.c\<close>, with the fields \<open>received.c\<close> and \<open>newfield.c\<close> put in front of it.

  A \<open>qmail\<close> is the structure of that name after \<open>qmail_open\<close>: its stream \<open>qss\<close>, a real \<open>substdio\<close> on a pipe, and \<open>flagerr\<close>. The
  child reads the message from one pipe and the envelope from another; \<open>message_pipe\<close> keeps what was written to the first when
  \<open>qmail_from\<close> closes it, and \<open>envelope_pipe\<close> is the script of the second until then. Creating pipes and the child is not modelled.
  The result of \<open>None\<close> is a \<open>write\<close> that never returns.
\<close>

section \<open>State\<close>

type_synonym pipe = "fdout list \<times> char list"

record qmail =
  qss :: "pipe substdio"
  flagerr :: bool
  message_pipe :: "char list"
  envelope_pipe :: "fdout list"

definition qq_buf :: "char list" where
  "qq_buf = replicate 1024 NUL"

definition qmail_opened :: "fdout list \<Rightarrow> fdout list \<Rightarrow> qmail" where
  "qmail_opened m e = \<lparr>qss = substdio_fdbuf (m, []) qq_buf, flagerr = False, message_pipe = [], envelope_pipe = e\<rparr>"

section \<open>Operations\<close>

definition qmail_fail :: "qmail \<Rightarrow> qmail" where
  "qmail_fail qq = qq\<lparr>flagerr := True\<rparr>"

definition put_result :: "qmail \<Rightarrow> (bool \<times> pipe substdio) option \<Rightarrow> qmail option" where
  "put_result qq res = map_option (\<lambda>(ok, ss). if ok then qq\<lparr>qss := ss\<rparr> else qq\<lparr>qss := ss, flagerr := True\<rparr>) res"

definition qmail_put :: "qmail \<Rightarrow> char list \<Rightarrow> qmail option" where
  "qmail_put qq s = (if \<not> flagerr qq then put_result qq (substdio_put fd_write (qss qq) s) else Some qq)"

definition qmail_puts :: "qmail \<Rightarrow> char list \<Rightarrow> qmail option" where
  "qmail_puts qq s = (if \<not> flagerr qq then put_result qq (substdio_puts fd_write (qss qq) s) else Some qq)"

definition qmail_from :: "qmail \<Rightarrow> char list \<Rightarrow> qmail option" where
  "qmail_from qq s =
     Option.bind (put_result qq (substdio_flush fd_write (qss qq))) (\<lambda>qq.
     let qq = qq\<lparr>message_pipe := snd (sw (qss qq)), qss := substdio_fdbuf (envelope_pipe qq, []) (sx (qss qq))\<rparr>
     in Option.bind (qmail_put qq ''F'') (\<lambda>qq. Option.bind (qmail_puts qq s) (\<lambda>qq. qmail_put qq [NUL])))"

definition qmail_to :: "qmail \<Rightarrow> char list \<Rightarrow> qmail option" where
  "qmail_to qq s = Option.bind (qmail_put qq ''T'') (\<lambda>qq. Option.bind (qmail_puts qq s) (\<lambda>qq. qmail_put qq [NUL]))"

text \<open>
  \<open>qmail_close\<close>, first the end of the envelope, then the verdict on the child: whether \<open>wait_pid\<close> found it, its wait status and
  what it has written to \<open>pierr\<close> (at most 255 bytes are kept).
\<close>

definition close_envelope :: "qmail \<Rightarrow> qmail option" where
  "close_envelope qq =
     Option.bind (qmail_put qq [NUL]) (\<lambda>qq.
       if \<not> flagerr qq then put_result qq (substdio_flush fd_write (qss qq)) else Some qq)"

definition wait_crashed :: "nat \<Rightarrow> bool" where
  "wait_crashed w \<longleftrightarrow> w mod 128 \<noteq> 0"

definition wait_exitcode :: "nat \<Rightarrow> nat" where
  "wait_exitcode w = w div 256"

definition close_verdict :: "bool \<Rightarrow> bool \<Rightarrow> nat \<Rightarrow> char list \<Rightarrow> char list" where
  "close_verdict err waited wstat errstr =
     (let errstr = take 255 errstr; exitcode = wait_exitcode wstat
      in if \<not> waited then ''Zqq waitpid surprise (#4.3.0)''
         else if wait_crashed wstat then ''Zqq crashed (#4.3.0)''
         else if exitcode = 1 then ''IYour SPAM has been ignored.''
         else if exitcode = 115 \<or> exitcode = 11 then ''Denvelope address too long for qq (#5.1.3)''
         else if exitcode = 31 then ''Dmail server permanently rejected message (#5.3.0)''
         else if exitcode = 32 then ''Dwe do not accept SPAM (#5.3.0)''
         else if exitcode = 51 then ''Zqq out of memory (#4.3.0)''
         else if exitcode = 52 then ''Zqq timeout (#4.3.0)''
         else if exitcode = 53 then ''Zqq write error or disk full (#4.3.0)''
         else if exitcode = 0 \<and> \<not> err then []
         else if exitcode = 0 \<or> exitcode = 54 then ''Zqq read error (#4.3.0)''
         else if exitcode = 55 then ''Zqq unable to read configuration (#4.3.0)''
         else if exitcode = 56 then ''Zqq trouble making network connection (#4.3.0)''
         else if exitcode = 61 then ''Zqq trouble in home directory (#4.3.0)''
         else if exitcode \<in> {63, 64, 65, 66, 62} then ''Zqq trouble creating files in queue (#4.3.0)''
         else if exitcode = 71 then ''Zmail server temporarily rejected message (#4.3.0)''
         else if exitcode = 72 then ''Zconnection to mail server timed out (#4.4.1)''
         else if exitcode = 73 then ''Zconnection to mail server rejected (#4.4.1)''
         else if exitcode = 74 then ''Zcommunication with mail server failed (#4.4.2)''
         else if exitcode = 91 \<or> exitcode = 81 then ''Zqq internal bug (#4.3.0)''
         else if exitcode = 120 then ''Zunable to exec qq (#4.3.0)''
         else if exitcode = 82 \<and> length errstr > 2 then cstr errstr
         else if exitcode \<ge> 11 \<and> exitcode \<le> 40 then ''Dqq permanent problem (#5.3.0)''
         else ''Zqq temporary problem (#4.3.0)'')"

section \<open>Fields\<close>

definition issafe :: "char \<Rightarrow> bool" where
  "issafe ch \<longleftrightarrow>
     ch = CHR ''.'' \<or> ch = CHR ''@'' \<or> ch = CHR ''%'' \<or> ch = CHR ''+'' \<or> ch = CHR ''/'' \<or> ch = CHR ''='' \<or> ch = CHR '':'' \<or> ch = CHR ''-'' \<or>
     (sch ch \<ge> 97 \<and> sch ch \<le> 122) \<or> (sch ch \<ge> 65 \<and> sch ch \<le> 90) \<or> (sch ch \<ge> 48 \<and> sch ch \<le> 57)"

fun safeput :: "char list \<Rightarrow> char list" where
  "safeput [] = []"
| "safeput (ch # s) = (if ch = NUL then [] else (if issafe ch then ch else CHR ''?'') # safeput s)"

text \<open>The bytes that \<open>received\<close> puts; \<open>remoteinfo\<close> and \<open>helo\<close> may be null pointers.\<close>

definition received ::
  "(int \<Rightarrow> datetime) \<Rightarrow> int \<Rightarrow> char list \<Rightarrow> char list \<Rightarrow> char list \<Rightarrow> char list \<Rightarrow> char list option \<Rightarrow> char list option \<Rightarrow> char list" where
  "received localtime now protocol local remoteip remotehost remoteinfo helo =
     ''Received: from '' @ safeput remotehost @
     (case helo of None \<Rightarrow> [] | Some h \<Rightarrow> '' (HELO '' @ safeput h @ '')'') @
     '' ('' @ (case remoteinfo of None \<Rightarrow> [] | Some i \<Rightarrow> safeput i @ ''@'') @ safeput remoteip @
     '')'' @ [LF] @ ''  by '' @ safeput local @ '' with '' @ cstr protocol @ ''; '' @ date822fmt localtime (datetime_tai now)"

definition datefmt :: "(int \<Rightarrow> datetime) \<Rightarrow> int \<Rightarrow> char list" where
  "datefmt localtime when = fmt_str ''Date: '' @ date822fmt localtime (datetime_tai when)"

definition msgidfmt :: "nat \<Rightarrow> char list \<Rightarrow> int \<Rightarrow> char list" where
  "msgidfmt pid idhost when =
     (let dt = datetime_tai when
      in fmt_str ''Message-ID: <'' @ fmt_uint (nat (year dt + 1900)) @ fmt_uint0 (nat (mon dt + 1)) 2 @ fmt_uint0 (nat (mday dt)) 2 @
         fmt_uint0 (nat (hour dt)) 2 @ fmt_uint0 (nat (minute dt)) 2 @ fmt_uint0 (nat (sec dt)) 2 @ fmt_str ''.'' @ fmt_uint pid @
         fmt_str ''.qmail@'' @ fmt_strn idhost (length idhost) @ fmt_str (''>'' @ [LF]))"

definition newfield_datemake :: "(nat \<Rightarrow> bool) \<Rightarrow> (int \<Rightarrow> datetime) \<Rightarrow> int \<Rightarrow> char list option" where
  "newfield_datemake mem localtime when =
     (if mem (length (datefmt localtime when)) then Some (datefmt localtime when) else None)"

definition newfield_msgidmake :: "(nat \<Rightarrow> bool) \<Rightarrow> nat \<Rightarrow> char list \<Rightarrow> int \<Rightarrow> char list option" where
  "newfield_msgidmake mem pid idhost when =
     (if mem (length (msgidfmt pid idhost when)) then Some (msgidfmt pid idhost when) else None)"

section \<open>What has been handed over\<close>

text \<open>The state after \<open>qmail_open\<close> and some calls: without an error, the stream has been given exactly the bytes.\<close>

definition qq_ok :: "char list \<Rightarrow> qmail \<Rightarrow> bool" where
  "qq_ok bs qq \<longleftrightarrow> out_inv (qss qq) \<and> (\<not> flagerr qq \<longrightarrow> out_sent snd (qss qq) = bs)"

lemma qq_opened: "qq_ok [] (qmail_opened m e)"
  using fdw.sent_fdbuf [where w = "(m, [])" and buf = qq_buf] by (simp add: qq_ok_def qmail_opened_def qq_buf_def)

lemma qmail_put_ok:
  assumes "qq_ok bs qq"
  shows "\<exists>qq'. qmail_put qq s = Some qq' \<and> qq_ok (bs @ s) qq' \<and> (flagerr qq \<longrightarrow> flagerr qq') \<and>
    message_pipe qq' = message_pipe qq \<and> envelope_pipe qq' = envelope_pipe qq"
proof (cases "flagerr qq")
  case True
  then show ?thesis using assms by (simp add: qmail_put_def qq_ok_def)
next
  case False
  have "out_inv (qss qq)" using assms by (simp add: qq_ok_def)
  from fdw.put_puts [OF this, of s] show ?thesis
    using assms False by (cases rule: fdw.puts_all_cases) (auto simp: qmail_put_def put_result_def qq_ok_def)
qed

lemma qmail_puts_put: "qmail_puts qq s = qmail_put qq (cstr s)"
proof -
  have "take (str_len s) s = cstr s" by (induction s) auto
  then show ?thesis by (simp add: qmail_puts_def qmail_put_def substdio_puts_def)
qed

lemma qmail_to_ok:
  assumes "qq_ok bs qq"
  shows "\<exists>qq'. qmail_to qq s = Some qq' \<and> qq_ok (bs @ ''T'' @ cstr s @ [NUL]) qq' \<and> message_pipe qq' = message_pipe qq \<and>
    (flagerr qq \<longrightarrow> flagerr qq')"
proof -
  obtain q1 where 1: "qmail_put qq ''T'' = Some q1" "qq_ok (bs @ ''T'') q1" "message_pipe q1 = message_pipe qq" "flagerr qq \<longrightarrow> flagerr q1"
    using qmail_put_ok [OF assms] by blast
  obtain q2 where 2: "qmail_put q1 (cstr s) = Some q2" "qq_ok ((bs @ ''T'') @ cstr s) q2" "message_pipe q2 = message_pipe q1" "flagerr q1 \<longrightarrow> flagerr q2"
    using qmail_put_ok [OF 1(2)] by blast
  obtain q3 where 3: "qmail_put q2 [NUL] = Some q3" "qq_ok (((bs @ ''T'') @ cstr s) @ [NUL]) q3" "message_pipe q3 = message_pipe q2"
    "flagerr q2 \<longrightarrow> flagerr q3" using qmail_put_ok [OF 2(2)] by blast
  show ?thesis using 1 2 3 by (simp add: qmail_to_def qmail_puts_put)
qed

lemma put_result_flush:
  assumes "out_inv (qss qq)"
  obtains qq' where "put_result qq (substdio_flush fd_write (qss qq)) = Some qq'" "out_inv (qss qq')"
    "flagerr qq \<Longrightarrow> flagerr qq'" "\<not> flagerr qq' \<Longrightarrow> snd (sw (qss qq')) = out_sent snd (qss qq)"
    "message_pipe qq' = message_pipe qq" "envelope_pipe qq' = envelope_pipe qq" "sx (qss qq') \<noteq> []"
  using assms
proof (cases rule: fdw.flush_outcome)
  case (1 s')
  then show thesis using that [of "qq\<lparr>qss := s'\<rparr>"] by (auto simp: put_result_def out_inv_def)
next
  case (2 s' k)
  then show thesis using that [of "qq\<lparr>qss := s', flagerr := True\<rparr>"] by (auto simp: put_result_def out_inv_def)
qed

lemma qmail_from_ok:
  assumes "qq_ok bs qq"
  shows "\<exists>qq'. qmail_from qq s = Some qq' \<and> qq_ok (''F'' @ cstr s @ [NUL]) qq' \<and> (\<not> flagerr qq' \<longrightarrow> message_pipe qq' = bs)"
proof -
  have "out_inv (qss qq)" using assms by (simp add: qq_ok_def)
  then obtain q0 where 0: "put_result qq (substdio_flush fd_write (qss qq)) = Some q0" "flagerr qq \<Longrightarrow> flagerr q0"
    "\<not> flagerr q0 \<Longrightarrow> snd (sw (qss q0)) = out_sent snd (qss qq)" "sx (qss q0) \<noteq> []" by (rule put_result_flush) blast
  let ?q = "q0\<lparr>message_pipe := snd (sw (qss q0)), qss := substdio_fdbuf (envelope_pipe q0, []) (sx (qss q0))\<rparr>"
  have q: "qq_ok [] ?q" using fdw.sent_fdbuf 0(4) by (simp add: qq_ok_def)
  have m: "message_pipe ?q = bs" if "\<not> flagerr ?q" using 0 that assms by (auto simp: qq_ok_def)
  obtain q1 where 1: "qmail_put ?q ''F'' = Some q1" "qq_ok ([] @ ''F'') q1" "message_pipe q1 = message_pipe ?q" "flagerr ?q \<longrightarrow> flagerr q1"
    using qmail_put_ok [OF q, of "''F''"] by blast
  obtain q2 where 2: "qmail_put q1 (cstr s) = Some q2" "qq_ok (([] @ ''F'') @ cstr s) q2" "message_pipe q2 = message_pipe q1" "flagerr q1 \<longrightarrow> flagerr q2"
    using qmail_put_ok [OF 1(2)] by blast
  obtain q3 where 3: "qmail_put q2 [NUL] = Some q3" "qq_ok ((([] @ ''F'') @ cstr s) @ [NUL]) q3" "message_pipe q3 = message_pipe q2"
    "flagerr q2 \<longrightarrow> flagerr q3" using qmail_put_ok [OF 2(2)] by blast
  have "qmail_from qq s = Some q3" using 0(1) 1(1) 2(1) 3(1) by (simp add: qmail_from_def qmail_puts_put Let_def)
  then show ?thesis using 1 2 3 m by auto
qed

lemma close_envelope_ok:
  assumes "qq_ok bs qq"
  shows "\<exists>qq'. close_envelope qq = Some qq' \<and> message_pipe qq' = message_pipe qq \<and> (\<not> flagerr qq' \<longrightarrow> \<not> flagerr qq \<and> snd (sw (qss qq')) = bs @ [NUL])"
proof -
  obtain q1 where 1: "qmail_put qq [NUL] = Some q1" "qq_ok (bs @ [NUL]) q1" "flagerr qq \<longrightarrow> flagerr q1" "message_pipe q1 = message_pipe qq"
    using qmail_put_ok [OF assms] by blast
  then have "out_inv (qss q1)" by (simp add: qq_ok_def)
  then obtain q2 where "put_result q1 (substdio_flush fd_write (qss q1)) = Some q2" "flagerr q1 \<Longrightarrow> flagerr q2"
    "\<not> flagerr q2 \<Longrightarrow> snd (sw (qss q2)) = out_sent snd (qss q1)" "message_pipe q2 = message_pipe q1" by (rule put_result_flush) blast
  then show ?thesis using 1 by (auto simp: close_envelope_def qq_ok_def)
qed

text \<open>Any number of pieces and of recipients.\<close>

fun put_all :: "qmail \<Rightarrow> char list list \<Rightarrow> qmail option" where
  "put_all qq [] = Some qq"
| "put_all qq (s # ss) = Option.bind (qmail_put qq s) (\<lambda>qq. put_all qq ss)"

fun to_all :: "qmail \<Rightarrow> char list list \<Rightarrow> qmail option" where
  "to_all qq [] = Some qq"
| "to_all qq (r # rs) = Option.bind (qmail_to qq r) (\<lambda>qq. to_all qq rs)"

lemma put_all_ok: "qq_ok bs qq \<Longrightarrow> \<exists>qq'. put_all qq ss = Some qq' \<and> qq_ok (bs @ concat ss) qq'"
proof (induction ss arbitrary: bs qq)
  case (Cons s ss)
  obtain q where "qmail_put qq s = Some q" "qq_ok (bs @ s) q" using qmail_put_ok [OF Cons.prems] by blast
  then show ?case using Cons.IH [of "bs @ s" q] by simp
qed simp

lemma to_all_ok:
  "qq_ok bs qq \<Longrightarrow> \<exists>qq'. to_all qq rs = Some qq' \<and> qq_ok (bs @ concat (map (\<lambda>r. ''T'' @ cstr r @ [NUL]) rs)) qq' \<and>
     message_pipe qq' = message_pipe qq \<and> (flagerr qq \<longrightarrow> flagerr qq')"
proof (induction rs arbitrary: bs qq)
  case (Cons r rs)
  obtain q where "qmail_to qq r = Some q" "qq_ok (bs @ ''T'' @ cstr r @ [NUL]) q" "message_pipe q = message_pipe qq"
    "flagerr qq \<longrightarrow> flagerr q" using qmail_to_ok [OF Cons.prems] by blast
  then show ?case using Cons.IH [of "bs @ ''T'' @ cstr r @ [NUL]" q] by auto
qed simp

section \<open>One-line texts\<close>

lemma fmt_no_LF: "LF \<notin> set (fmt_ulong u)" "LF \<notin> set (fmt_uint u)" "LF \<notin> set (fmt_uint0 u n)"
  by (auto simp: fmt_uint_def fmt_uint0_def fmt_pad_eq dest: fmt_ulong_char)

lemma fmt_str_no_LF: "LF \<notin> set s \<Longrightarrow> LF \<notin> set (fmt_str s)"
  by (induction s) auto

lemma date822fmt_line:
  assumes "\<And>t. 0 \<le> mon (localtime t) \<and> mon (localtime t) < 12"
  obtains d where "date822fmt localtime dt = d @ [LF]" "LF \<notin> set d"
proof -
  let ?n = "localtime (datetime_untai dt)"
  have "nat (mon ?n) < length montab" using assms by (simp add: montab_def nat_less_iff)
  then have "montab ! nat (mon ?n) \<in> set montab" by simp
  then have m: "LF \<notin> set (fmt_str (montab ! nat (mon ?n)))" by (intro fmt_str_no_LF) (auto simp: montab_def)
  have line: "\<exists>d. a @ b @ fmt_str [LF] = d @ [LF] \<and> LF \<notin> set d" if "LF \<notin> set a" "LF \<notin> set b" for a b
    using that by (intro exI [of _ "a @ b"]) simp
  have "\<exists>d. date822fmt localtime dt = d @ [LF] \<and> LF \<notin> set d"
    unfolding date822fmt_def Let_def by (rule line) (simp_all add: fmt_no_LF m)
  then show thesis using that by blast
qed

lemma safeput_no_LF: "LF \<notin> set (safeput s)" "SP \<notin> set (safeput s)"
  by (induction s) (auto simp: issafe_def sch_def)

section \<open>Properties\<close>

text \<open>C37: a message handed to \<open>qmail-queue\<close> in any pieces, with a sender and recipients, arrives whole or the error flag is set: the
  calls return whatever the pipes do, and if the flag is not set at the end, one pipe has got exactly the message and the
  other exactly the envelope, F sender T recipient ... and the final NUL.\<close>

theorem qmail_hands_over:
  "\<exists>q q1 q2 q3. put_all (qmail_opened m e) pieces = Some q \<and> qmail_from q sender = Some q1 \<and> to_all q1 rcpts = Some q2 \<and>
     close_envelope q2 = Some q3 \<and>
     (flagerr q3 \<or> message_pipe q3 = concat pieces \<and>
        snd (sw (qss q3)) = ''F'' @ cstr sender @ [NUL] @ concat (map (\<lambda>r. ''T'' @ cstr r @ [NUL]) rcpts) @ [NUL])"
proof -
  obtain q where q: "put_all (qmail_opened m e) pieces = Some q" "qq_ok (concat pieces) q"
    using put_all_ok [OF qq_opened, of m e pieces] by auto
  obtain q1 where q1: "qmail_from q sender = Some q1" "qq_ok (''F'' @ cstr sender @ [NUL]) q1" "\<not> flagerr q1 \<longrightarrow> message_pipe q1 = concat pieces"
    using qmail_from_ok [OF q(2), of sender] by blast
  obtain q2 where q2: "to_all q1 rcpts = Some q2" "message_pipe q2 = message_pipe q1" "flagerr q1 \<longrightarrow> flagerr q2"
    "qq_ok ((''F'' @ cstr sender @ [NUL]) @ concat (map (\<lambda>r. ''T'' @ cstr r @ [NUL]) rcpts)) q2"
    using to_all_ok [OF q1(2)] by blast
  obtain q3 where q3: "close_envelope q2 = Some q3" "message_pipe q3 = message_pipe q2"
    "\<not> flagerr q3 \<longrightarrow> \<not> flagerr q2 \<and> snd (sw (qss q3)) =
       ((''F'' @ cstr sender @ [NUL]) @ concat (map (\<lambda>r. ''T'' @ cstr r @ [NUL]) rcpts)) @ [NUL]"
    using close_envelope_ok [OF q2(4)] by blast
  show ?thesis using q q1 q2 q3 by (intro exI [of _ q] exI [of _ q1] exI [of _ q2] exI [of _ q3]) auto
qed

text \<open>\<open>qmail_close\<close> reports success exactly for a child that was waited for, did not crash and exited 0, after a hand-over
  without an error (or for one that exited 82 with a text that starts with a NUL); every other verdict starts with D, Z or I, unless
  the child exited 82 with a text of its own.\<close>

theorem close_verdict_success:
  "(close_verdict err waited wstat errstr = [] \<longleftrightarrow>
      waited \<and> \<not> wait_crashed wstat \<and> (wait_exitcode wstat = 0 \<and> \<not> err \<or>
        wait_exitcode wstat = 82 \<and> length errstr > 2 \<and> hd errstr = NUL)) \<and>
   (close_verdict err waited wstat errstr = [] \<or> wait_exitcode wstat = 82 \<or>
      hd (close_verdict err waited wstat errstr) \<in> {CHR ''D'', CHR ''Z'', CHR ''I''})"
proof -
  have "cstr (take 255 errstr) = [] \<longleftrightarrow> hd errstr = NUL" if "length (take 255 errstr) > 2"
    using that by (cases errstr) (auto simp: cstr_def)
  then show ?thesis
    by (cases "wait_exitcode wstat = 82"; cases "wait_exitcode wstat = 0") (simp_all add: close_verdict_def Let_def)
qed

text \<open>Nobody can break out of the \<open>Received\<close> field: whatever bytes the remote names hold, what is put is two lines, each ended by
  its only newline, and the second starts with a blank. The month that the C library's \<open>localtime\<close> gives is one of the twelve.\<close>

theorem received_two_lines:
  assumes "LF \<notin> set protocol" and "\<And>t. 0 \<le> mon (localtime t) \<and> mon (localtime t) < 12"
  shows "\<exists>a b. received localtime now protocol local remoteip remotehost remoteinfo helo = a @ [LF] @ b @ [LF] \<and>
     LF \<notin> set a \<and> LF \<notin> set b \<and> take 10 a = ''Received: '' \<and> hd b = SP"
proof -
  obtain d where d: "date822fmt localtime (datetime_tai now) = d @ [LF]" "LF \<notin> set d"
    by (rule date822fmt_line [OF assms(2)])
  have p: "LF \<notin> set (cstr protocol)" using assms(1) by (auto simp: cstr_def dest: set_takeWhileD)
  let ?a = "''Received: from '' @ safeput remotehost @ (case helo of None \<Rightarrow> [] | Some h \<Rightarrow> '' (HELO '' @ safeput h @ '')'') @
     '' ('' @ (case remoteinfo of None \<Rightarrow> [] | Some i \<Rightarrow> safeput i @ ''@'') @ safeput remoteip @ '')''"
  let ?b = "''  by '' @ safeput local @ '' with '' @ cstr protocol @ ''; '' @ d"
  have "received localtime now protocol local remoteip remotehost remoteinfo helo = ?a @ [LF] @ ?b @ [LF]"
    unfolding received_def d by (simp split: option.split)
  moreover have "LF \<notin> set ?a" "LF \<notin> set ?b" "take 10 ?a = ''Received: ''" "hd ?b = SP"
    using safeput_no_LF d(2) p by (simp_all split: option.split)
  ultimately show ?thesis by blast
qed

theorem received_two_lines_witness:
  "\<exists>a b. received (\<lambda>_. datetime_tai 0) 0 ''SMTP'' ''mx'' ''1.2.3.4'' ''evil'' None (Some (''x'' @ [LF] @ ''Subject: y'')) = a @ [LF] @ b @ [LF] \<and>
     LF \<notin> set a \<and> LF \<notin> set b \<and> take 10 a = ''Received: '' \<and> hd b = SP"
proof (rule received_two_lines)
  have "0 \<le> mon (datetime_tai 0) \<and> mon (datetime_tai 0) < 12" by code_simp
  then show "0 \<le> mon (datetime_tai 0) \<and> mon (datetime_tai 0) < 12" for t :: int .
qed simp

end
