(* ===== verification/Smtpd.thy ===== *)
theory Smtpd
  imports Dotstuff Qmailc Constmap
begin

text \<open>
  The SMTP server, \<open>qmail-smtpd.c\<close>, with \<open>commands.c\<close> and \<open>rcpthosts.c\<close>.

  The \<open>server\<close> is the state that a session keeps in the program's variables, what the client will still send and what has been
  put to \<open>ssout\<close>. \<open>conf\<close> is what \<open>setup\<close> and \<open>readenv\<close> have read from the control files and the environment. What happens outside during one
  command, the answers of plugins, name servers, the SPF library, the recipient checker, the clock and the child \<open>qmail-queue\<close>, is an
  \<open>outside\<close>; every command has one of its own. The session has no authentication program and no TLS (\<open>useauth\<close> is 0 and
  \<open>deny_tls\<close> 1), so that \<open>authd\<close> and \<open>ssl\<close> stay 0. Log lines on descriptor 2 are left out. Pipes to \<open>qmail-queue\<close> are as in
  \<open>Qmailc\<close>: what has been put to them is kept as two lists, with the error flag.

  A function that ends the process gives \<open>Inl\<close>, with the final state.
\<close>

section \<open>State\<close>

record conf =
  cmem :: "nat \<Rightarrow> bool"
  greeting :: "char list"
  local :: "char list"
  remoteip :: "char list"
  remotehost :: "char list"
  remoteinfo :: "char list option"
  liphost :: "char list option"
  ipme_is :: "ip_address \<Rightarrow> bool"
  databytes :: ulong
  bmf :: "char list option"
  bmfnr :: "char list option"
  brt :: "char list option"
  brtnr :: "char list option"
  bhelo :: "char list option"
  matchregex :: "char list \<Rightarrow> char list \<Rightarrow> int"
  mfchk :: nat
  maxrcpt :: int
  relayrej :: bool
  spfbehavior :: nat
  rcpthosts :: "(char list \<times> constmap) option"
  morercpthosts :: "(char list \<Rightarrow> int) option"
  vrt :: "(char list \<Rightarrow> int \<times> char list) option"
  vrtlimit :: nat
  help_version :: bool
  localtime :: "int \<Rightarrow> datetime"

record server =
  incoming :: "char list"
  replies :: "char list"
  seenmail :: bool
  flagbarfbmf :: bool
  flagbarfbrt :: bool
  flagbarfbhelo :: bool
  flagbarfspf :: bool
  spfbarfmsg :: "char list"
  addr :: "char list"
  mailfrom :: "char list"
  rcptto :: "char list"
  rcptcounter :: int
  relayclient :: "char list option"
  allowed :: bool
  helohost :: "char list"
  fakehelo :: "char list option"
  vrtcount :: nat
  bytestooverflow :: ulong
  sppheaders :: "char list"
  submitted :: "(bool \<times> char list \<times> char list) list"

datatype spf = SPF_OK | SPF_NONE | SPF_UNKNOWN | SPF_NEUTRAL | SPF_SOFTFAIL | SPF_FAIL | SPF_ERROR | SPF_NOMEM

text \<open>A run of plugins: what it says, what it makes of the address, the headers it adds, and its result; \<open>None\<close> is leaving.\<close>

record spp =
  spp_text :: "char list"
  spp_addr :: "char list option"
  spp_headers :: "char list"
  spp_result :: "int option"

record outside =
  spp :: spp
  mx :: int
  spf_result :: spf
  spf_explanation :: "char list"
  spf_info :: "char list"
  rcptcheck :: "bool \<times> char list"
  now :: int
  qq_open :: "nat option"
  qq_writes :: bool
  qq_waited :: bool
  qq_wstat :: nat
  qq_errstr :: "char list"
  timed_out :: bool

type_synonym result = "server + server"

section \<open>Replies\<close>

definition crlf :: "char list" where "crlf = [CR, LF]"

definition say :: "char list \<Rightarrow> server \<Rightarrow> server" where
  "say s st = st\<lparr>replies := replies st @ cstr s\<rparr>"

definition die :: "char list \<Rightarrow> server \<Rightarrow> server + 'a" where
  "die s st = Inl (say s st)"

definition die_read :: "server \<Rightarrow> server + 'a" where "die_read st = Inl st"

definition die_alarm :: "server \<Rightarrow> server + 'a" where "die_alarm = die (''451 timeout (#4.4.2)'' @ crlf)"

definition die_nomem :: "server \<Rightarrow> server + 'a" where "die_nomem = die (''421 out of memory (#4.3.0)'' @ crlf)"

definition die_control :: "server \<Rightarrow> server + 'a" where "die_control = die (''421 unable to read controls (#4.3.0)'' @ crlf)"

definition die_vrt :: "server \<Rightarrow> server + 'a" where "die_vrt = die (''421 too many invalid addresses, goodbye (#4.3.0)'' @ crlf)"

definition straynewline :: "server \<Rightarrow> server + 'a" where
  "straynewline = die (''451 See http://pobox.com/~djb/docs/smtplf.html.'' @ crlf)"

definition err_bmf :: "server \<Rightarrow> server" where
  "err_bmf = say (''553 sorry, your envelope sender has been denied (#5.7.1)'' @ crlf)"

definition err_brt :: "server \<Rightarrow> server" where
  "err_brt = say (''553 sorry, your envelope recipient has been denied (#5.7.1)'' @ crlf)"

definition err_bhelo :: "server \<Rightarrow> server" where
  "err_bhelo = say (''553 sorry, your HELO host name has been denied (#5.7.1)'' @ crlf)"

definition err_hmf :: "server \<Rightarrow> server" where
  "err_hmf = say (''553 sorry, your envelope sender domain must exist (#5.7.1)'' @ crlf)"

definition err_smf :: "server \<Rightarrow> server" where "err_smf = say (''451 DNS temporary failure (#4.3.0)'' @ crlf)"

definition err_nogateway :: "server \<Rightarrow> server" where
  "err_nogateway = say (''553 sorry, that domain isn't in my list of allowed rcpthosts (#5.7.1)'' @ crlf)"

definition err_unimpl :: "server \<Rightarrow> server" where "err_unimpl = say (''502 unimplemented (#5.5.1)'' @ crlf)"

definition err_syntax :: "server \<Rightarrow> server" where "err_syntax = say (''555 syntax error (#5.5.4)'' @ crlf)"

definition err_relay :: "server \<Rightarrow> server" where "err_relay = say (''553 we don't relay (#5.7.1)'' @ crlf)"

definition err_wantmail :: "server \<Rightarrow> server" where "err_wantmail = say (''503 MAIL first (#5.5.1)'' @ crlf)"

definition err_seenmail :: "server \<Rightarrow> server" where "err_seenmail = say (''503 only one MAIL command allowed (#5.5.1)'' @ crlf)"

definition err_wantrcpt :: "server \<Rightarrow> server" where "err_wantrcpt = say (''503 RCPT first (#5.5.1)'' @ crlf)"

definition err_noop :: "server \<Rightarrow> server" where "err_noop = say (''250 ok'' @ crlf)"

definition err_vrfy :: "server \<Rightarrow> server" where "err_vrfy = say (''252 send some mail, i'll try my best'' @ crlf)"

definition err_qqt :: "server \<Rightarrow> server" where "err_qqt = say (''451 qqt failure (#4.3.0)'' @ crlf)"

definition err_badrcpt :: "server \<Rightarrow> server" where "err_badrcpt = say (''553 sorry, no mailbox here by that name. (#5.1.1)'' @ crlf)"

definition err_noauthavail :: "server \<Rightarrow> server" where "err_noauthavail = say (''503 auth not available (#5.3.3)'' @ crlf)"

definition err_size :: "server \<Rightarrow> server" where
  "err_size = say (''552 sorry, that message size exceeds my databytes limit (#5.3.4)'' @ crlf)"

definition err_vrt :: "server \<Rightarrow> server" where
  "err_vrt = say (''553 sorry, this recipient is not in my validrcptto list (#5.7.1)'' @ crlf)"

definition smtp_greet :: "conf \<Rightarrow> char list \<Rightarrow> server \<Rightarrow> server" where
  "smtp_greet c code st = st\<lparr>replies := replies st @ cstr code @ greeting c\<rparr>"

definition smtp_help :: "conf \<Rightarrow> server \<Rightarrow> server" where
  "smtp_help c st =
     (if help_version c
      then say (''214-qmail home page: http://pobox.com/~djb/qmail.html'' @ crlf @
                ''214 jms1 combined patch v7.08 http://qmail.jms1.net/patches/combined.shtml'' @ crlf) st
      else say (''214 qmail home page: http://pobox.com/~djb/qmail.html'' @ crlf) st)"

definition smtp_quit :: "conf \<Rightarrow> server \<Rightarrow> result" where
  "smtp_quit c st = Inl (say crlf (smtp_greet c ''221 '' st))"

definition dohelo :: "conf \<Rightarrow> char list \<Rightarrow> server \<Rightarrow> result" where
  "dohelo c arg st =
     (let n = str_len arg; h = take n arg @ [NUL]
      in if \<not> cmem c (n + 1) \<or> \<not> cmem c (n + 1) then die_nomem st
         else Inr (st\<lparr>helohost := h, fakehelo := (if case_diffs (remotehost c) h \<noteq> 0 then Some h else None)\<rparr>))"

text \<open>\<open>saferead\<close> when the client sends no more: the connection has ended or the time is over.\<close>

definition read_fails :: "outside \<Rightarrow> server \<Rightarrow> server + 'a" where
  "read_fails w st = (if timed_out w then die_alarm st else die_read st)"

section \<open>Addresses\<close>

text \<open>The loop that copies the address, stripping quotes.\<close>

fun addr_copy :: "conf \<Rightarrow> char \<Rightarrow> bool \<Rightarrow> bool \<Rightarrow> char list \<Rightarrow> char list \<Rightarrow> char list option" where
  "addr_copy c terminator flagesc flagquoted [] acc = Some acc"
| "addr_copy c terminator flagesc flagquoted (ch # s) acc =
     (if ch = NUL then Some acc
      else if flagesc then
        if \<not> cmem c (length acc + 1) then None else addr_copy c terminator False flagquoted s (acc @ [ch])
      else if \<not> flagquoted \<and> ch = terminator then Some acc
      else if ch = BSL then addr_copy c terminator True flagquoted s acc
      else if ch = DQ then addr_copy c terminator False (\<not> flagquoted) s acc
      else if \<not> cmem c (length acc + 1) then None
      else addr_copy c terminator False flagquoted s (acc @ [ch]))"

text \<open>Where the address starts in the argument of MAIL or RCPT, and the character that ends it.\<close>

definition addr_start :: "char list \<Rightarrow> char list \<times> char" where
  "addr_start arg =
     (let i = str_chr arg (CHR ''<'')
      in if char_at arg i \<noteq> NUL then (drop (i + 1) arg, CHR ''>'')
         else let arg = drop (str_chr arg (CHR '':'')) arg;
                  arg = (if char_at arg 0 = CHR '':'' then drop 1 arg else arg)
              in (dropWhile (\<lambda>ch. ch = SP) arg, SP))"

definition strip_route :: "char list \<Rightarrow> char list" where
  "strip_route arg =
     (if char_at arg 0 = CHR ''@'' then drop (str_chr arg (CHR '':'') + (if char_at arg (str_chr arg (CHR '':'')) = NUL then 0 else 1)) arg
      else arg)"

definition lip_replace :: "conf \<Rightarrow> char list \<Rightarrow> char list" where
  "lip_replace c s =
     (case liphost c of None \<Rightarrow> s
      | Some h \<Rightarrow>
          (let i = byte_rchr s (CHR ''@'')
           in if i < length s then
                if char_at s (i + 1) = CHR ''['' then
                  (let (n, ip) = ip_scanbracket (drop (i + 1) s) (0, 0, 0, 0)
                   in if char_at s (i + 1 + n) = NUL \<and> ipme_is c ip then take (i + 1) s @ h @ [NUL] else s)
                else s
              else s))"

definition addrparse :: "conf \<Rightarrow> char list \<Rightarrow> server \<Rightarrow> server + bool \<times> server" where
  "addrparse c arg st =
     (let (arg, terminator) = addr_start arg
      in if \<not> cmem c 1 then die_nomem st
         else case addr_copy c terminator False False (strip_route arg) [] of
                None \<Rightarrow> die_nomem st
              | Some s \<Rightarrow>
                  (if \<not> cmem c (length s + 1) then die_nomem st
                   else let s = lip_replace c (s @ [NUL])
                        in if \<not> cmem c (length s) then die_nomem st
                           else Inr (\<not> length s > 900, st\<lparr>addr := s\<rparr>)))"

section \<open>Checks\<close>

text \<open>
  \<open>sizelimit\<close> reads behind the end of its argument, which is a part of the buffer of \<open>commands\<close>: \<open>m\<close> is that buffer from the
  argument on. \<open>None\<close> is reading behind the buffer.
\<close>

function size_digits :: "char list \<Rightarrow> nat \<Rightarrow> ulong \<Rightarrow> (nat \<times> ulong) option" where
  "size_digits m p sizebytes =
     (let p = p + 1
      in if p \<ge> length m then None
         else if m ! p \<noteq> NUL \<and> sch (m ! p) > 47 \<and> sch (m ! p) < 58
         then size_digits m p (sizebytes * 10 + of_int (sch (m ! p) - 48))
         else Some (p, sizebytes))"
  by pat_completeness auto
termination by (relation "measure (\<lambda>(m, p, sizebytes). length m - p)") auto

declare size_digits.simps [simp del]

lemma size_digits_forward: "size_digits m p u = Some (p', u') \<Longrightarrow> p < p' \<and> p' < length m"
proof (induction m p u rule: size_digits.induct)
  case (1 m p u)
  then show ?case by (subst (asm) (2) size_digits.simps) (auto simp: Let_def split: if_split_asm)
qed

function size_loop :: "ulong \<Rightarrow> char list \<Rightarrow> nat \<Rightarrow> ulong \<Rightarrow> bool option" where
  "size_loop limit m p sizebytes =
     (let p = p + 1
      in if p \<ge> length m then None
         else if m ! p = NUL then Some True
         else let i = str_chr (drop p m) (CHR ''='')
              in if p + i \<ge> length m then None
                 else let m = m[p + i := NUL]
                      in if case_diffs (drop p m) ''SIZE'' = 0
                         then case size_digits m (p + i) sizebytes of
                                None \<Rightarrow> None
                              | Some (p, sizebytes) \<Rightarrow>
                                  (if sint (limit - sizebytes) < 0 then Some False else size_loop limit m p sizebytes)
                         else size_loop limit m (p + 1) sizebytes)"
  by pat_completeness auto
termination by (relation "measure (\<lambda>(limit, m, p, sizebytes). length m - p)") (auto dest!: size_digits_forward)

declare size_loop.simps [simp del]

definition sizelimit :: "ulong \<Rightarrow> char list \<Rightarrow> bool option" where
  "sizelimit limit m =
     (let i = str_chr m (CHR ''<'');
          (p, terminator) =
            (if char_at m i \<noteq> NUL then (i + 1, CHR ''>'')
             else let p = str_chr m (CHR '':'');
                      p = (if char_at m p = CHR '':'' then p + 1 else p)
                  in (p + length (takeWhile (\<lambda>ch. ch = SP) (drop p m)), SP));
          p = p + str_chr (drop p m) terminator;
          p = (if char_at m p \<noteq> NUL \<and> terminator = CHR ''>'' then p + 1 else p)
      in size_loop limit m p 0)"

text \<open>A list of patterns, each ended by a NUL; the result is the pattern that decided.\<close>

function bm_patterns :: "(char list \<Rightarrow> char list \<Rightarrow> int) \<Rightarrow> char list \<Rightarrow> char list \<Rightarrow> char list option" where
  "bm_patterns mr subject bmb =
     (if bmb = [] then None
      else let p = takeWhile (\<lambda>ch. ch \<noteq> NUL) bmb;
               negate = (p \<noteq> [] \<and> hd p = CHR ''!'');
               curregex = (if negate then tl p else p) @ [NUL];
               x = mr subject curregex
           in if negate \<and> x = 0 then Some (p @ [NUL])
              else if \<not> negate \<and> x > 0 then Some (p @ [NUL])
              else bm_patterns mr subject (drop (length p + 1) bmb))"
  by pat_completeness auto
termination by (relation "measure (\<lambda>(mr, subject, bmb). length bmb)") auto

declare bm_patterns.simps [simp del]

definition bmcheck :: "conf \<Rightarrow> char list option \<Rightarrow> char list \<Rightarrow> bool" where
  "bmcheck c bm subject =
     (case bm of None \<Rightarrow> False | Some bmb \<Rightarrow> bm_patterns (matchregex c) subject bmb \<noteq> None)"

text \<open>The result of \<open>dns_mxip\<close> for the domain of the address: 0, or the code of the failure. DNS_HARD is -2.\<close>

definition mfcheck :: "conf \<Rightarrow> int \<Rightarrow> char list \<Rightarrow> int" where
  "mfcheck c dns_mx s =
     (if str_diff s ''#@[]'' = 0 then 0
      else if mfchk c = 0 then 0
      else let j = byte_rchr s (CHR ''@'') + 1
           in if length s = 1 then 0
              else if j < length s then (if dns_mx < 0 then dns_mx else 0)
              else - 2)"

fun relay_scan :: "char list \<Rightarrow> bool" where
  "relay_scan [] = False"
| "relay_scan (ch # s) = (if ch = CHR ''@'' then True else if ch = CHR ''%'' then True else if ch = CHR ''!'' then True else relay_scan s)"

definition addrrelay :: "conf \<Rightarrow> char list \<Rightarrow> bool" where
  "addrrelay c s =
     (if relayrej c
      then let r = rev s; box = dropWhile (\<lambda>ch. ch \<noteq> CHR ''@'') r
           in relay_scan (if box = [] then r else tl box)
      else False)"

text \<open>\<open>rcpthosts\<close>: the domain of the address, or what follows one of its dots, is in the table or in the second, larger one.\<close>

fun domain_loop :: "(char list \<Rightarrow> int) \<Rightarrow> bool \<Rightarrow> char list \<Rightarrow> int" where
  "domain_loop look start [] = 0"
| "domain_loop look start (ch # s) =
     (if start \<or> ch = CHR ''.'' then (let r = look (ch # s) in if r \<noteq> 0 then r else domain_loop look False s)
      else domain_loop look False s)"

definition rh_look :: "char list \<times> constmap \<Rightarrow> char list \<Rightarrow> int" where
  "rh_look rh key = (case constmap (fst rh) (snd rh) key of Some (Some _) \<Rightarrow> 1 | _ \<Rightarrow> 0)"

definition rcpthosts_check :: "(nat \<Rightarrow> bool) \<Rightarrow> (char list \<times> constmap) option \<Rightarrow> (char list \<Rightarrow> int) option \<Rightarrow> char list \<Rightarrow> int" where
  "rcpthosts_check mem rh morerh buf =
     (case rh of None \<Rightarrow> 1
      | Some rh \<Rightarrow>
          (let j = byte_rchr buf (CHR ''@'')
           in if j \<ge> length buf then 1
              else let host = drop (j + 1) buf
                   in if \<not> mem (length host + 1) then - 1
                      else let host = case_lowerb host;
                               r = domain_loop (rh_look rh) True host
                           in if r \<noteq> 0 then 1
                              else case morerh of None \<Rightarrow> 0 | Some cdb \<Rightarrow> domain_loop cdb True host))"

text \<open>\<open>vrtcheck\<close>: the address, then its box with \<open>-default\<close> for what follows a break, from the last on, then its domain.\<close>

fun vrt_defaults :: "(char list \<Rightarrow> int \<times> char list) \<Rightarrow> char list \<Rightarrow> char list \<Rightarrow> nat \<Rightarrow> (char list \<times> char list) option" where
  "vrt_defaults look user adom 0 = None"
| "vrt_defaults look user adom (Suc fuel) =
     (let k = byte_rchr user (CHR ''-'')
      in if k \<ge> length user then None
         else let utry = take (k + 1) user @ ''default'' @ adom; (r, dval) = look utry
              in if r > 0 then Some (utry, dval) else vrt_defaults look (take k user) adom fuel)"

definition vrtcheck :: "conf \<Rightarrow> char list \<Rightarrow> bool" where
  "vrtcheck c s =
     (case vrt c of None \<Rightarrow> True
      | Some look \<Rightarrow>
          (let laddr = case_lowerb s; whole = butlast laddr; (r, dval) = look whole;
               j = byte_rchr laddr (CHR ''@'');
               found = (if r > 0 then Some (whole, dval)
                        else if j < length laddr
                        then case vrt_defaults look (take j laddr) (butlast (drop j laddr)) (length laddr) of
                               Some f \<Rightarrow> Some f
                             | None \<Rightarrow> (let (r, dval) = look (butlast (drop j laddr)) in if r > 0 then Some (butlast (drop j laddr), dval) else None)
                        else None)
           in case found of None \<Rightarrow> False | Some (f, dval) \<Rightarrow> \<not> (dval \<noteq> [] \<and> hd dval = CHR ''-'')))"

section \<open>Commands\<close>

definition run_spp :: "spp \<Rightarrow> bool \<Rightarrow> server \<Rightarrow> server + int \<times> server" where
  "run_spp w addrenv st =
     (let st = st\<lparr>replies := replies st @ spp_text w, sppheaders := sppheaders st @ spp_headers w,
                  addr := (case spp_addr w of Some s \<Rightarrow> if addrenv then s @ [NUL] else addr st | None \<Rightarrow> addr st)\<rparr>
      in case spp_result w of None \<Rightarrow> Inl st | Some r \<Rightarrow> Inr (r, st))"

definition after_helo :: "conf \<Rightarrow> char list \<Rightarrow> server \<Rightarrow> result" where
  "after_helo c arg st =
     andthen (dohelo c arg (st\<lparr>seenmail := False\<rparr>)) (\<lambda>st.
       Inr (case bhelo c of None \<Rightarrow> st | Some b \<Rightarrow> st\<lparr>flagbarfbhelo := bmcheck c (Some b) (helohost st)\<rparr>))"

definition smtp_helo :: "conf \<Rightarrow> outside \<Rightarrow> char list \<Rightarrow> server \<Rightarrow> result" where
  "smtp_helo c w arg st =
     andthen (run_spp (spp w) False st) (\<lambda>(r, st).
       if r = 0 then Inr st else after_helo c arg (say crlf (smtp_greet c ''250 '' st)))"

definition smtp_size :: "conf \<Rightarrow> server \<Rightarrow> server" where
  "smtp_size c st = say (fmt_ulong (unat (databytes c))) (say (crlf @ ''250-SIZE '') st)"

definition smtp_ehlo :: "conf \<Rightarrow> outside \<Rightarrow> char list \<Rightarrow> server \<Rightarrow> result" where
  "smtp_ehlo c w arg st =
     andthen (run_spp (spp w) False st) (\<lambda>(r, st).
       if r = 0 then Inr st
       else after_helo c arg
              (say (crlf @ ''250-PIPELINING'' @ crlf @ ''250 8BITMIME'' @ crlf) (smtp_size c (smtp_greet c ''250-'' st))))"

definition smtp_rset :: "conf \<Rightarrow> server \<Rightarrow> result" where
  "smtp_rset c st =
     (if \<not> cmem c 1 then die_nomem st
      else Inr (say (''250 flushed'' @ crlf) (st\<lparr>sppheaders := [], seenmail := False\<rparr>)))"

text \<open>The two switches on the result of \<open>spfcheck\<close>: the least \<open>spfbehavior\<close> at which a result counts against the sender.\<close>

definition spf_limit :: "spf \<Rightarrow> nat option" where
  "spf_limit r =
     (case r of SPF_NONE \<Rightarrow> Some 6 | SPF_UNKNOWN \<Rightarrow> Some 6 | SPF_NEUTRAL \<Rightarrow> Some 5 | SPF_SOFTFAIL \<Rightarrow> Some 4 | SPF_FAIL \<Rightarrow> Some 3 | _ \<Rightarrow> None)"

definition mail_spf :: "conf \<Rightarrow> outside \<Rightarrow> server \<Rightarrow> server + bool \<times> server" where
  "mail_spf c w st =
     (let st = st\<lparr>flagbarfspf := False\<rparr>
      in if spfbehavior c \<noteq> 0 \<and> relayclient st = None
         then if spf_result w = SPF_NOMEM then die_nomem st
              else if spf_result w = SPF_ERROR
              then if spfbehavior c < 2 then Inr (True, st) else Inr (False, say (''451 SPF lookup failure (#4.3.0)'' @ crlf) st)
              else case spf_limit (spf_result w) of
                     None \<Rightarrow> Inr (True, st)
                   | Some k \<Rightarrow> if spfbehavior c < k then Inr (True, st)
                               else Inr (True, st\<lparr>spfbarfmsg := spf_explanation w @ [NUL], flagbarfspf := True\<rparr>)
         else Inr (True, st))"

definition mail_accept :: "conf \<Rightarrow> server \<Rightarrow> result" where
  "mail_accept c st =
     (let from = cstr (addr st)
      in if \<not> cmem c 1 \<or> \<not> cmem c (length from + 1) \<or> \<not> cmem c (length from + 1) then die_nomem (st\<lparr>seenmail := True\<rparr>)
         else Inr (say (''250 ok'' @ crlf) (st\<lparr>seenmail := True, rcptto := [], mailfrom := from @ [NUL], rcptcounter := 0\<rparr>)))"

definition mail_checks :: "conf \<Rightarrow> outside \<Rightarrow> server \<Rightarrow> result" where
  "mail_checks c w st =
     (let barf = (bmf c \<noteq> None \<and> length (addr st) \<noteq> 1 \<and> bmcheck c (bmf c) (addr st));
          barf = (if \<not> barf \<and> bmfnr c \<noteq> None \<and> length (addr st) \<noteq> 1 \<and> relayclient st = None
                  then bmcheck c (bmfnr c) (addr st) else barf);
          st = st\<lparr>flagbarfbmf := barf\<rparr>;
          r = mfcheck c (mx w) (addr st)
      in if r = - 2 then Inr (err_hmf st)
         else if r = - 1 then Inr (err_smf st)
         else if r = - 3 then die_nomem st
         else andthen (mail_spf c w st) (\<lambda>(go, st). if go then mail_accept c st else Inr st))"

definition smtp_mail :: "conf \<Rightarrow> outside \<Rightarrow> char list \<Rightarrow> server \<Rightarrow> result option" where
  "smtp_mail c w m st =
     (if seenmail st then Some (Inr (err_seenmail st))
      else case addrparse c m st of
             Inl e \<Rightarrow> Some (Inl e)
           | Inr (ok, st) \<Rightarrow>
               if \<not> ok then Some (Inr (err_syntax st))
               else case run_spp (spp w) True st of
                      Inl e \<Rightarrow> Some (Inl e)
                    | Inr (spp_val, st) \<Rightarrow>
                        if spp_val = 0 then Some (Inr st)
                        else case (if spp_val = 1 \<and> databytes c \<noteq> 0 then sizelimit (databytes c) m else Some True) of
                               None \<Rightarrow> None
                             | Some False \<Rightarrow> Some (Inr (err_size st))
                             | Some True \<Rightarrow> Some (mail_checks c w st))"

text \<open>\<open>err_spf\<close> goes through the lines of the explanation, but puts it from its start every time, up to the end of the line.\<close>

function err_spf_loop :: "char list \<Rightarrow> nat \<Rightarrow> char list" where
  "err_spf_loop msg i =
     (if i < length msg
      then let j = byte_chr (drop i msg) LF + i
           in (if j < length msg then ''550-'' @ cstr (take j msg) else ''550 '' @ cstr msg @ '' (#5.7.1)'' @ crlf) @
              err_spf_loop msg (j + 1)
      else [])"
  by pat_completeness auto
termination by (relation "measure (\<lambda>(msg, i). length msg - i)") auto

declare err_spf_loop.simps [simp del]

definition checkrcptcount :: "conf \<Rightarrow> server \<Rightarrow> bool" where
  "checkrcptcount c st = (if maxrcpt c = - 1 then False else rcptcounter st > maxrcpt c)"

definition rcpt_barf :: "conf \<Rightarrow> server \<Rightarrow> server" where
  "rcpt_barf c st =
     (let st = (case brt c of None \<Rightarrow> st | Some b \<Rightarrow> st\<lparr>flagbarfbrt := bmcheck c (Some b) (addr st)\<rparr>)
      in if \<not> flagbarfbrt st \<and> brtnr c \<noteq> None \<and> relayclient st = None
         then st\<lparr>flagbarfbrt := bmcheck c (brtnr c) (addr st)\<rparr> else st)"

definition rcpt_accept :: "conf \<Rightarrow> server \<Rightarrow> result" where
  "rcpt_accept c st =
     (let n = length (rcptto st); s = cstr (addr st)
      in if \<not> cmem c (n + 2) then die_nomem st
         else if \<not> cmem c (n + 1 + length s + 1) \<or> \<not> cmem c (n + 1 + length s + 1) then die_nomem st
         else Inr (say (''250 ok'' @ crlf) (st\<lparr>rcptto := rcptto st @ ''T'' @ s @ [NUL]\<rparr>)))"

definition rcpt_last :: "conf \<Rightarrow> outside \<Rightarrow> server \<Rightarrow> result" where
  "rcpt_last c w st =
     (if relayclient st = None \<and> \<not> vrtcheck c (addr st)
      then let st = (if vrtlimit c \<noteq> 0 then st\<lparr>vrtcount := vrtcount st + 1\<rparr> else st)
           in if vrtlimit c \<noteq> 0 \<and> vrtcount st \<ge> vrtlimit c then die_vrt st else Inr (err_vrt st)
      else if \<not> fst (rcptcheck w)
      then Inr (if snd (rcptcheck w) \<noteq> [] then say (snd (rcptcheck w)) st else err_badrcpt st)
      else rcpt_accept c st)"

text \<open>What a recipient that no list has denied still has to pass: \<open>rcpthosts\<close> or the right to relay, and the plugins.\<close>

definition rcpt_gate :: "conf \<Rightarrow> outside \<Rightarrow> server \<Rightarrow> result" where
  "rcpt_gate c w st =
     (let r = (if relayclient st = None
               then rcpthosts_check (cmem c) (rcpthosts c) (morercpthosts c) (cstr (addr st)) else 1)
      in if r = - 1 then die_control st
         else andthen (run_spp (spp w) True (st\<lparr>allowed := r \<noteq> 0\<rparr>)) (\<lambda>(spp_val, st).
           if spp_val = 0 then Inr st
           else case relayclient st of
                  Some rc \<Rightarrow>
                    (let s = butlast (addr st) @ cstr rc @ [NUL]
                     in if \<not> cmem c (length s) \<or> \<not> cmem c (length s) then die_nomem st
                        else rcpt_last c w (st\<lparr>addr := s\<rparr>))
                | None \<Rightarrow>
                    (if spp_val = 1 \<and> \<not> allowed st then Inr (err_nogateway st) else rcpt_last c w st)))"

definition smtp_rcpt :: "conf \<Rightarrow> outside \<Rightarrow> char list \<Rightarrow> server \<Rightarrow> result" where
  "smtp_rcpt c w m st =
     (let st = st\<lparr>rcptcounter := rcptcounter st + 1\<rparr>
      in if \<not> seenmail st then Inr (err_wantmail st)
         else if checkrcptcount c st then Inr (err_syntax st)
         else andthen (addrparse c m st) (\<lambda>(ok, st).
           if \<not> ok then Inr (err_syntax st)
           else if addrrelay c (addr st) then Inr (err_relay st)
           else if flagbarfbhelo st then Inr (err_bhelo st)
           else if flagbarfbmf st then Inr (err_bmf st)
           else let st = rcpt_barf c st
                in if flagbarfbrt st then Inr (err_brt st)
                   else if flagbarfspf st
                   then Inr (st\<lparr>replies := replies st @ err_spf_loop (spfbarfmsg st) 0\<rparr>)
                   else rcpt_gate c w st))"

section \<open>Data\<close>

text \<open>\<open>put\<close> counts down to the limit, where it sets the error flag.\<close>

fun put_bytes :: "ulong \<Rightarrow> bool \<Rightarrow> char list \<Rightarrow> ulong \<times> bool" where
  "put_bytes b err [] = (b, err)"
| "put_bytes b err (ch # s) =
     (let (b, err) = (if b \<noteq> 0 then (b - 1, if b - 1 = 0 then True else err) else (b, err)) in put_bytes b err s)"

definition spfreceived :: "conf \<Rightarrow> outside \<Rightarrow> server \<Rightarrow> ulong \<times> bool \<times> char list" where
  "spfreceived c w st =
     (let b = bytestooverflow st
      in if spfbehavior c = 0 \<or> relayclient st \<noteq> None then (b, False, [])
         else let s = ''Received-SPF: '' @ spf_info w @ [LF]
              in if b \<noteq> 0 then (let b = b - of_nat (length s) in (b, b \<le> 0, s)) else (b, False, s))"

definition acceptmessage :: "int \<Rightarrow> nat \<Rightarrow> server \<Rightarrow> server" where
  "acceptmessage when qp st =
     say crlf (say (fmt_ulong qp) (say '' qp '' (say (fmt_ulong (unat (of_int when :: ulong))) (say ''250 ok '' st))))"

definition MAXHOPS :: nat where "MAXHOPS = 100"

definition data_verdict :: "conf \<Rightarrow> outside \<Rightarrow> nat \<Rightarrow> bool \<Rightarrow> char list \<Rightarrow> server \<Rightarrow> server" where
  "data_verdict c w qp toomanyhops qqx st =
     (if qqx = [] then acceptmessage (now w) qp st
      else if toomanyhops then say (''554 too many hops, this message is looping (#5.4.6)'' @ crlf) st
      else if databytes c \<noteq> 0 \<and> bytestooverflow st = 0 then err_size st
      else say crlf (say (tl qqx)
             (say (if hd qqx = CHR ''I'' then ''250 ok '' else if hd qqx = CHR ''D'' then ''554 '' else ''451 '') st)))"

text \<open>From the answer 354 on: the message and the envelope go to \<open>qmail-queue\<close>, behind the header lines \<open>hdrs\<close>.\<close>

definition data_receive :: "conf \<Rightarrow> outside \<Rightarrow> nat \<Rightarrow> char list \<Rightarrow> server \<Rightarrow> result" where
  "data_receive c w qp hdrs st =
     (let (b, err, spfline) = spfreceived c w st
      in case smtpd_blast (incoming st) of
           Inl (Stray _) \<Rightarrow> straynewline (st\<lparr>bytestooverflow := b\<rparr>)
         | Inl (Conn_lost _) \<Rightarrow> read_fails w (st\<lparr>bytestooverflow := b, incoming := []\<rparr>)
         | Inr (s, rest) \<Rightarrow>
             (let (b, err) = put_bytes b err (stored s);
                  toomanyhops = (hops s \<ge> MAXHOPS);
                  err = (err \<or> toomanyhops \<or> \<not> qq_writes w);
                  qqx = close_verdict err (qq_waited w) (qq_wstat w) (qq_errstr w);
                  message = hdrs @ spfline @ stored s;
                  envelope = ''F'' @ cstr (mailfrom st) @ [NUL] @ rcptto st @ [NUL]
              in Inr (data_verdict c w qp toomanyhops qqx
                   (st\<lparr>incoming := rest, bytestooverflow := b, submitted := submitted st @ [(qqx = [], message, envelope)]\<rparr>))))"

definition smtp_data :: "conf \<Rightarrow> outside \<Rightarrow> server \<Rightarrow> result" where
  "smtp_data c w st =
     (if \<not> seenmail st then Inr (err_wantmail st)
      else if rcptto st = [] then Inr (err_wantrcpt st)
      else andthen (run_spp (spp w) False st) (\<lambda>(r, st).
        if r = 0 then Inr st
        else let st = st\<lparr>seenmail := False, bytestooverflow := (if databytes c \<noteq> 0 then databytes c + 1 else bytestooverflow st)\<rparr>
             in case qq_open w of
                  None \<Rightarrow> Inr (err_qqt st)
                | Some qp \<Rightarrow>
                    (let st = say (''354 go ahead'' @ crlf) st
                     in if \<not> cmem c 6 then die_nomem st
                        else let helo = (if case_diffs (remotehost c) (helohost st) \<noteq> 0 then Some (helohost st) else None);
                                 top = received (localtime c) (now w) (''SMTP'' @ [NUL]) (local c) (remoteip c) (remotehost c)
                                         (remoteinfo c) helo @ sppheaders st
                             in if \<not> cmem c 1 then die_nomem st else data_receive c w qp top (st\<lparr>sppheaders := []\<rparr>))))"

section \<open>The session\<close>

text \<open>\<open>starttls\<close> without a certificate.\<close>

definition smtp_tls :: "char list \<Rightarrow> server \<Rightarrow> server" where
  "smtp_tls m st =
     (if char_at m 0 \<noteq> NUL then say (''501 Syntax error (no parameters allowed) (#5.5.4)'' @ crlf) st
      else say (''454 TLS not available (4.3.0)'' @ crlf) st)"

definition dispatch :: "conf \<Rightarrow> outside \<Rightarrow> char list \<Rightarrow> char list \<Rightarrow> server \<Rightarrow> result option" where
  "dispatch c w cmd m st =
     (if case_diffs ''rcpt'' cmd = 0 then Some (smtp_rcpt c w m st)
      else if case_diffs ''mail'' cmd = 0 then smtp_mail c w m st
      else if case_diffs ''data'' cmd = 0 then Some (smtp_data c w st)
      else if case_diffs ''auth'' cmd = 0 then Some (Inr (err_noauthavail st))
      else if case_diffs ''quit'' cmd = 0 then Some (smtp_quit c st)
      else if case_diffs ''helo'' cmd = 0 then Some (smtp_helo c w m st)
      else if case_diffs ''ehlo'' cmd = 0 then Some (smtp_ehlo c w m st)
      else if case_diffs ''rset'' cmd = 0 then Some (smtp_rset c st)
      else if case_diffs ''help'' cmd = 0 then Some (Inr (smtp_help c st))
      else if case_diffs ''starttls'' cmd = 0 then Some (Inr (smtp_tls m st))
      else if case_diffs ''noop'' cmd = 0 then Some (Inr (err_noop st))
      else if case_diffs ''vrfy'' cmd = 0 then Some (Inr (err_vrfy st))
      else Some (Inr (err_unimpl st)))"

text \<open>
  One round of \<open>commands\<close>: read a line, take its word and its argument, run the command. \<open>stale\<close> are the bytes that the buffer
  holds behind the line.
\<close>

definition command_parts :: "char list \<Rightarrow> char list \<Rightarrow> char list \<times> char list" where
  "command_parts line stale =
     (let line = (if line \<noteq> [] \<and> last line = CR then butlast line else line);
          m = line @ [NUL] @ stale;
          i = str_chr m SP
      in (take i m, dropWhile (\<lambda>ch. ch = SP) (drop i m)))"

definition command_round :: "conf \<Rightarrow> outside \<Rightarrow> char list \<Rightarrow> server \<Rightarrow> result option" where
  "command_round c w stale st =
     (let line = takeWhile (\<lambda>ch. ch \<noteq> LF) (incoming st)
      in if \<not> cmem c (length line + 1) then Some (die_nomem st)
         else if LF \<notin> set (incoming st) then Some (read_fails w (st\<lparr>incoming := []\<rparr>))
         else let (cmd, m) = command_parts line stale
              in dispatch c w cmd m (st\<lparr>incoming := tl (dropWhile (\<lambda>ch. ch \<noteq> LF) (incoming st))\<rparr>))"

end
