(* ===== verification/Session.thy ===== *)
theory Session
  imports Smtpd
begin

text \<open>
  What holds in every session of the SMTP server: the invariant of the envelope over all commands, with the commands as a step
  relation, and the behaviours that follow.
\<close>

section \<open>The envelope\<close>

text \<open>\<open>core\<close> is what a session keeps about the envelope; most functions leave it alone.\<close>

definition core :: "server \<Rightarrow> char list \<times> char list \<times> bool \<times> (bool \<times> char list \<times> char list) list \<times> char list option" where
  "core st = (rcptto st, mailfrom st, seenmail st, submitted st, relayclient st)"

abbreviation keeps_core :: "server \<Rightarrow> server \<Rightarrow> bool" where
  "keeps_core st st' \<equiv> core st' = core st"

lemma core_say [simp]: "core (say s st) = core st"
  by (simp add: core_def say_def)

lemma core_updates [simp]:
  "core (st\<lparr>replies := xs\<rparr>) = core st" "core (st\<lparr>flagbarfbmf := b\<rparr>) = core st" "core (st\<lparr>flagbarfbrt := b\<rparr>) = core st"
  "core (st\<lparr>flagbarfbhelo := b\<rparr>) = core st" "core (st\<lparr>flagbarfspf := b\<rparr>) = core st" "core (st\<lparr>spfbarfmsg := xs\<rparr>) = core st"
  "core (st\<lparr>addr := xs\<rparr>) = core st" "core (st\<lparr>rcptcounter := n\<rparr>) = core st" "core (st\<lparr>allowed := b\<rparr>) = core st"
  "core (st\<lparr>helohost := xs\<rparr>) = core st" "core (st\<lparr>fakehelo := h\<rparr>) = core st" "core (st\<lparr>vrtcount := k\<rparr>) = core st"
  "core (st\<lparr>bytestooverflow := w\<rparr>) = core st" "core (st\<lparr>sppheaders := xs\<rparr>) = core st" "core (st\<lparr>incoming := xs\<rparr>) = core st"
  by (simp_all add: core_def)

lemmas err_defs = err_bmf_def err_brt_def err_bhelo_def err_hmf_def err_smf_def err_nogateway_def err_unimpl_def err_syntax_def
  err_relay_def err_wantmail_def err_seenmail_def err_wantrcpt_def err_noop_def err_vrfy_def err_qqt_def err_badrcpt_def
  err_noauthavail_def err_size_def err_vrt_def

lemmas die_defs = die_def die_read_def die_alarm_def die_nomem_def die_control_def die_vrt_def straynewline_def read_fails_def

lemma core_smtp_greet [simp]: "core (smtp_greet c s st) = core st"
  by (simp add: smtp_greet_def)

text \<open>A recipient list as it is kept, of recipients with a property.\<close>

definition rcpts_text :: "char list list \<Rightarrow> char list" where
  "rcpts_text rs = concat (map (\<lambda>r. ''T'' @ r @ [NUL]) rs)"

definition rcpts_ok :: "(char list \<Rightarrow> bool) \<Rightarrow> char list list \<Rightarrow> bool" where
  "rcpts_ok P rs \<longleftrightarrow> (\<forall>r \<in> set rs. NUL \<notin> set r \<and> P r)"

definition envelope_ok :: "(char list \<Rightarrow> bool) \<Rightarrow> char list \<Rightarrow> bool" where
  "envelope_ok P env \<longleftrightarrow>
     (\<exists>f rs. env = ''F'' @ f @ [NUL] @ rcpts_text rs @ [NUL] \<and> NUL \<notin> set f \<and> rs \<noteq> [] \<and> rcpts_ok P rs)"

definition session_inv :: "char list option \<Rightarrow> (char list \<Rightarrow> bool) \<Rightarrow> server \<Rightarrow> bool" where
  "session_inv rc P st \<longleftrightarrow>
     relayclient st = rc \<and> (\<exists>rs. rcptto st = rcpts_text rs \<and> rcpts_ok P rs) \<and>
     (seenmail st \<longrightarrow> (\<exists>f. mailfrom st = f @ [NUL] \<and> NUL \<notin> set f)) \<and>
     (\<forall>(acc, msg, env) \<in> set (submitted st). envelope_ok P env)"

lemma session_inv_core: "core st' = core st \<Longrightarrow> session_inv rc P st' = session_inv rc P st"
  by (simp add: core_def session_inv_def)

lemma rcpts_text_simps [simp]: "rcpts_text [] = []" "rcpts_text (rs @ [r]) = rcpts_text rs @ ''T'' @ r @ [NUL]"
  "rcpts_text rs = [] \<longleftrightarrow> rs = []"
  by (simp_all add: rcpts_text_def)

text \<open>\<open>holds I r\<close>: a step that has returned or exited leaves the invariant.\<close>

abbreviation holds :: "(server \<Rightarrow> bool) \<Rightarrow> result \<Rightarrow> bool" where
  "holds I r \<equiv> ends (\<lambda>_. True) I r"

lemma addrparse_core: "ends (\<lambda>_. True) (\<lambda>a. keeps_core st (snd a)) (addrparse c m st)"
  by (simp add: addrparse_def Let_def die_defs split: prod.split option.split)

lemma run_spp_core: "ends (\<lambda>_. True) (\<lambda>a. keeps_core st (snd a)) (run_spp s b st)"
  by (simp add: run_spp_def Let_def split: option.split)

lemma holds_then:
  assumes "ends (\<lambda>_. True) (\<lambda>a. R (snd a)) r" "\<And>x s. R s \<Longrightarrow> holds I (g x s)"
  shows "holds I (andthen r (\<lambda>(x, s). g x s))"
  using assms by (cases r) auto

lemma dohelo_core: "holds (keeps_core st) (dohelo c arg st)"
  by (simp add: dohelo_def Let_def die_defs)

lemma seenmail_off: "session_inv rc P st \<Longrightarrow> session_inv rc P (st\<lparr>seenmail := False\<rparr>)"
  by (simp add: session_inv_def)

lemma after_helo_inv:
  assumes "session_inv rc P st"
  shows "holds (session_inv rc P) (after_helo c arg st)"
proof -
  let ?s = "st\<lparr>seenmail := False\<rparr>"
  have s: "session_inv rc P ?s" using assms by (rule seenmail_off)
  show ?thesis
  proof (cases "dohelo c arg ?s")
    case (Inl e)
    then show ?thesis by (simp add: after_helo_def)
  next
    case (Inr st')
    then have "core st' = core ?s" using dohelo_core [of ?s c arg] by simp
    then have "session_inv rc P st'" using s session_inv_core by blast
    then show ?thesis using Inr session_inv_core [of "st'\<lparr>flagbarfbhelo := b\<rparr>" st' for b]
      by (simp add: after_helo_def split: option.split)
  qed
qed

lemma inv_by_core: "session_inv rc P st \<Longrightarrow> core st' = core st \<Longrightarrow> session_inv rc P st'"
  using session_inv_core by blast

lemma smtp_helo_inv: "session_inv rc P st \<Longrightarrow> holds (session_inv rc P) (smtp_helo c w arg st)"
  unfolding smtp_helo_def
  by (rule holds_then [OF run_spp_core]) (auto intro!: after_helo_inv elim: inv_by_core)

lemma smtp_ehlo_inv: "session_inv rc P st \<Longrightarrow> holds (session_inv rc P) (smtp_ehlo c w arg st)"
  unfolding smtp_ehlo_def
  by (rule holds_then [OF run_spp_core]) (auto intro!: after_helo_inv elim: inv_by_core simp: smtp_size_def)

lemma smtp_rset_inv:
  assumes "session_inv rc P st"
  shows "holds (session_inv rc P) (smtp_rset c st)"
proof -
  have "session_inv rc P (st\<lparr>sppheaders := [], seenmail := False\<rparr>)"
    by (rule seenmail_off, rule inv_by_core [OF assms]) simp
  then have "session_inv rc P (say s (st\<lparr>sppheaders := [], seenmail := False\<rparr>))" for s
    by (rule inv_by_core) simp
  then show ?thesis by (simp add: smtp_rset_def die_defs)
qed

lemma mail_accept_inv:
  assumes "session_inv rc P st"
  shows "holds (session_inv rc P) (mail_accept c st)"
proof -
  have "session_inv rc P (say s (st\<lparr>seenmail := True, rcptto := [], mailfrom := cstr (addr st) @ [NUL], rcptcounter := 0\<rparr>))" for s
    using assms by (auto simp: session_inv_def say_def rcpts_ok_def intro!: exI [of _ "[]"])
  then show ?thesis by (simp add: mail_accept_def Let_def die_defs)
qed

lemma mail_spf_core: "ends (\<lambda>_. True) (\<lambda>a. keeps_core st (snd a)) (mail_spf c w st)"
  by (simp add: mail_spf_def Let_def die_defs split: option.split)

lemma mail_checks_inv:
  assumes "session_inv rc P st"
  shows "holds (session_inv rc P) (mail_checks c w st)"
proof -
  have u: "session_inv rc P (st\<lparr>flagbarfbmf := b\<rparr>)" for b by (rule inv_by_core [OF assms]) simp
  have "holds (session_inv rc P) (andthen (mail_spf c w (st\<lparr>flagbarfbmf := b\<rparr>)) (\<lambda>(go, st). if go then mail_accept c st else Inr st))" for b
    by (rule holds_then [OF mail_spf_core]) (auto intro!: mail_accept_inv intro: inv_by_core [OF assms])
  then show ?thesis
    using u unfolding mail_checks_def Let_def by (auto simp: err_defs die_defs intro: inv_by_core [OF assms])
qed

lemma smtp_mail_inv:
  assumes "session_inv rc P st" "smtp_mail c w m st = Some r"
  shows "holds (session_inv rc P) r"
proof -
  have err: "session_inv rc P (err_seenmail s)" "session_inv rc P (err_syntax s)" "session_inv rc P (err_size s)"
    if "session_inv rc P s" for s using inv_by_core [OF that] by (simp_all add: err_defs)
  show ?thesis
  proof (cases "seenmail st")
    case True
    then have "r = Inr (err_seenmail st)" using assms(2) by (simp add: smtp_mail_def)
    then show ?thesis using err(1) [OF assms(1)] by simp
  next
    case not_seen: False
    show ?thesis
    proof (cases "addrparse c m st")
      case (Inl e)
      then show ?thesis using assms not_seen by (auto simp: smtp_mail_def)
    next
      case parsed: (Inr p)
      obtain ok s where p: "p = (ok, s)" by fastforce
      have s: "session_inv rc P s" using addrparse_core [of st c m] parsed p inv_by_core [OF assms(1)] by simp
      show ?thesis
      proof (cases "run_spp (spp w) True s")
        case (Inl e)
        then have "r = (if \<not> ok then Inr (err_syntax s) else Inl e)"
          using assms(2) not_seen parsed p by (simp add: smtp_mail_def split: if_splits)
        then show ?thesis using err(2) [OF s] by simp
      next
        case (Inr q)
        obtain v t where q: "q = (v, t)" by fastforce
        have t: "session_inv rc P t" using run_spp_core [of s "spp w" True] Inr q inv_by_core [OF s] by simp
        define z where "z = (if v = 1 \<and> databytes c \<noteq> 0 then sizelimit (databytes c) m else Some True)"
        have e: "smtp_mail c w m st = (if \<not> ok then Some (Inr (err_syntax s)) else if v = 0 then Some (Inr t)
            else case z of None \<Rightarrow> None | Some False \<Rightarrow> Some (Inr (err_size t)) | Some True \<Rightarrow> Some (mail_checks c w t))"
          unfolding smtp_mail_def z_def using not_seen parsed p Inr q by simp
        have "r \<in> {Inr (err_syntax s), Inr t, Inr (err_size t), mail_checks c w t}"
          using assms(2) unfolding e by (cases z) (auto split: if_splits bool.splits)
        then show ?thesis using err s t mail_checks_inv [OF t, of c w] by auto
      qed
    qed
  qed
qed

lemma err_inv:
  assumes "session_inv rc P st"
  shows "session_inv rc P (err_wantmail st)" "session_inv rc P (err_syntax st)" "session_inv rc P (err_relay st)"
    "session_inv rc P (err_bhelo st)" "session_inv rc P (err_bmf st)" "session_inv rc P (err_brt st)" "session_inv rc P (err_nogateway st)"
    "session_inv rc P (err_vrt st)" "session_inv rc P (err_badrcpt st)" "session_inv rc P (err_wantrcpt st)" "session_inv rc P (err_qqt st)"
    "session_inv rc P (err_size st)" "session_inv rc P (say s st)"
  using inv_by_core [OF assms] by (simp_all add: err_defs)

text \<open>A recipient may be added: it comes without a NUL, and it has the property.\<close>

lemma rcpt_accept_inv:
  assumes "session_inv rc P st" "P (cstr (addr st))"
  shows "holds (session_inv rc P) (rcpt_accept c st)"
proof -
  obtain rs where rs: "rcptto st = rcpts_text rs" "rcpts_ok P rs" using assms(1) by (auto simp: session_inv_def)
  have "session_inv rc P (st\<lparr>rcptto := rcptto st @ ''T'' @ cstr (addr st) @ [NUL]\<rparr>)"
    using assms rs by (auto simp: session_inv_def rcpts_ok_def intro!: exI [of _ "rs @ [cstr (addr st)]"])
  then show ?thesis by (simp add: rcpt_accept_def Let_def die_defs err_inv)
qed

lemma rcpt_last_inv:
  assumes "session_inv rc P st" "P (cstr (addr st))"
  shows "holds (session_inv rc P) (rcpt_last c w st)"
proof -
  have "session_inv rc P (st\<lparr>vrtcount := k\<rparr>)" for k by (rule inv_by_core [OF assms(1)]) simp
  then show ?thesis
    using rcpt_accept_inv [OF assms, of c] assms(1) by (simp add: rcpt_last_def Let_def die_defs err_inv)
qed

lemma rcpt_barf_core [simp]: "core (rcpt_barf c st) = core st" "addr (rcpt_barf c st) = addr st"
  by (simp_all add: rcpt_barf_def Let_def split: option.split)

text \<open>
  Which recipients a session may accept: \<open>neutral\<close> are the worlds whose plugins leave addresses and decisions alone. Then a
  recipient of a session that may not relay is one that \<open>rcpthosts\<close> allows.
\<close>

definition neutral :: "outside \<Rightarrow> bool" where
  "neutral w \<longleftrightarrow> spp_addr (spp w) = None \<and> spp_result (spp w) \<noteq> None \<and> the (spp_result (spp w)) \<in> {0, 1}"

definition may_receive :: "conf \<Rightarrow> char list option \<Rightarrow> char list \<Rightarrow> bool" where
  "may_receive c rc r \<longleftrightarrow> rc = None \<longrightarrow> rcpthosts_check (cmem c) (rcpthosts c) (morercpthosts c) r \<notin> {0, - 1}"

definition says_of :: "conf \<Rightarrow> char list option \<Rightarrow> outside \<Rightarrow> (char list \<Rightarrow> bool) \<Rightarrow> bool" where
  "says_of c rc w P \<longleftrightarrow> (\<forall>r. P r) \<or> neutral w \<and> P = may_receive c rc"

lemma rcpt_gate_inv:
  assumes "session_inv rc P st" "says_of c rc w P"
  shows "holds (session_inv rc P) (rcpt_gate c w st)"
proof -
  define r where "r = (if relayclient st = None
               then rcpthosts_check (cmem c) (rcpthosts c) (morercpthosts c) (cstr (addr st)) else 1)"
  let ?st = "st\<lparr>allowed := r \<noteq> 0\<rparr>"
  have rc: "relayclient st = rc" using assms(1) by (simp add: session_inv_def)
  have st: "session_inv rc P ?st" by (rule inv_by_core [OF assms(1)]) simp
  show ?thesis
  proof (cases "r = - 1")
    case True
    then show ?thesis by (simp add: rcpt_gate_def r_def [symmetric] Let_def die_defs)
  next
    case ok: False
    show ?thesis
    proof (cases "run_spp (spp w) True ?st")
      case (Inl e)
      then show ?thesis using ok by (simp add: rcpt_gate_def r_def [symmetric] Let_def)
    next
      case (Inr q)
      obtain v t where q: "q = (v, t)" by fastforce
      have c: "core t = core ?st" using run_spp_core [of ?st "spp w" True] Inr q by simp
      have t: "session_inv rc P t" by (rule inv_by_core [OF st c])
      have rct: "relayclient t = rc" using t by (simp add: session_inv_def)
      have spp: "v = the (spp_result (spp w)) \<and> (spp_addr (spp w) = None \<longrightarrow> addr t = addr st \<and> allowed t = (r \<noteq> 0))"
        using Inr q by (auto simp: run_spp_def Let_def split: option.splits)
      have e: "rcpt_gate c w st = (if v = 0 then Inr t else case rc of
            Some rc \<Rightarrow> (let s = butlast (addr t) @ cstr rc @ [NUL]
                     in if \<not> cmem c (length s) \<or> \<not> cmem c (length s) then die_nomem t else rcpt_last c w (t\<lparr>addr := s\<rparr>))
          | None \<Rightarrow> if v = 1 \<and> \<not> allowed t then Inr (err_nogateway t) else rcpt_last c w t)"
        unfolding rcpt_gate_def r_def [symmetric] using ok Inr q rct by simp
      show ?thesis
      proof (cases rc)
        case None
        have "holds (session_inv rc P) (rcpt_last c w t)" if "v \<noteq> 0" "\<not> (v = 1 \<and> \<not> allowed t)"
        proof (rule rcpt_last_inv [OF t])
          show "P (cstr (addr t))"
          proof (cases "\<forall>r. P r")
            case False
            then have n: "neutral w" "P = may_receive c rc" using assms(2) by (auto simp: says_of_def)
            then have "v = 1" "addr t = addr st" "allowed t = (r \<noteq> 0)" using spp that(1) by (auto simp: neutral_def)
            then show ?thesis using n(2) ok that(2) None rc by (simp add: may_receive_def r_def)
          qed simp
        qed
        then show ?thesis using e None t by (simp add: err_inv)
      next
        case (Some d)
        have "P r" for r using assms(2) Some by (auto simp: says_of_def may_receive_def)
        then have "holds (session_inv rc P) (rcpt_last c w (t\<lparr>addr := s\<rparr>))" for s
          by (intro rcpt_last_inv) (auto intro: inv_by_core [OF t])
        then show ?thesis using e Some t by (simp add: Let_def die_defs)
      qed
    qed
  qed
qed

lemma smtp_rcpt_inv:
  assumes "session_inv rc P st" "says_of c rc w P"
  shows "holds (session_inv rc P) (smtp_rcpt c w m st)"
proof -
  let ?st = "st\<lparr>rcptcounter := rcptcounter st + 1\<rparr>"
  have st: "session_inv rc P ?st" by (rule inv_by_core [OF assms(1)]) simp
  have "holds (session_inv rc P) (let st = rcpt_barf c s
                in if flagbarfbrt st then Inr (err_brt st)
                   else if flagbarfspf st
                   then Inr (st\<lparr>replies := replies st @ err_spf_loop (spfbarfmsg st) 0\<rparr>)
                   else rcpt_gate c w st)" if "session_inv rc P s" for s
  proof -
    have b: "session_inv rc P (rcpt_barf c s)" by (rule inv_by_core [OF that]) simp
    have "session_inv rc P ((rcpt_barf c s)\<lparr>replies := x\<rparr>)" for x by (rule inv_by_core [OF b]) simp
    then show ?thesis using b rcpt_gate_inv [OF b assms(2)] by (simp add: Let_def err_inv)
  qed
  then have "holds (session_inv rc P) (andthen (addrparse c m ?st) (\<lambda>(ok, st).
           if \<not> ok then Inr (err_syntax st)
           else if addrrelay c (addr st) then Inr (err_relay st)
           else if flagbarfbhelo st then Inr (err_bhelo st)
           else if flagbarfbmf st then Inr (err_bmf st)
           else let st = rcpt_barf c st
                in if flagbarfbrt st then Inr (err_brt st)
                   else if flagbarfspf st
                   then Inr (st\<lparr>replies := replies st @ err_spf_loop (spfbarfmsg st) 0\<rparr>)
                   else rcpt_gate c w st))"
    by (intro holds_then [OF addrparse_core]) (simp add: err_inv inv_by_core [OF st] del: core_updates)
  then show ?thesis using st by (simp add: smtp_rcpt_def Let_def err_inv)
qed

lemma data_verdict_core [simp]: "core (data_verdict c w qp tmh qqx st) = core st"
  by (simp add: data_verdict_def acceptmessage_def err_defs)

lemma data_receive_inv:
  fixes c :: conf and w :: outside and st :: server
  assumes "session_inv rc P st" "envelope_ok P (''F'' @ cstr (mailfrom st) @ [NUL] @ rcptto st @ [NUL])"
  shows "holds (session_inv rc P) (data_receive c w qp tp st)"
proof -
  have sub: "session_inv rc P (st\<lparr>incoming := rest, bytestooverflow := b', submitted := submitted st @ [(x, message,
      ''F'' @ cstr (mailfrom st) @ [NUL] @ rcptto st @ [NUL])]\<rparr>)" for rest b' x message
    using assms by (auto simp: session_inv_def)
  obtain b err top' where s: "spfreceived c w st = (b, err, top')" by (cases "spfreceived c w st") auto
  show ?thesis
  proof (cases "smtpd_blast (incoming st)")
    case (Inl x)
    then show ?thesis by (cases x) (simp_all add: data_receive_def s die_defs)
  next
    case (Inr y)
    obtain z rest where y: "y = (z, rest)" by fastforce
    show ?thesis unfolding data_receive_def s Inr y
      by (simp add: Let_def case_prod_beta) (rule inv_by_core [OF sub], simp)
  qed
qed

lemma smtp_data_inv:
  fixes c :: conf and w :: outside and st :: server
  assumes "session_inv rc P st"
  shows "holds (session_inv rc P) (smtp_data c w st)"
proof (cases "seenmail st \<and> rcptto st \<noteq> []")
  case False
  then show ?thesis using assms by (auto simp: smtp_data_def err_inv)
next
  case True
  obtain f where f: "mailfrom st = f @ [NUL]" "NUL \<notin> set f" using assms True by (auto simp: session_inv_def)
  obtain rs where rs: "rcptto st = rcpts_text rs" "rcpts_ok P rs" "rs \<noteq> []" using assms True by (auto simp: session_inv_def)
  define off where "off s \<longleftrightarrow> core s = (rcptto st, mailfrom st, False, submitted st, relayclient st)" for s
  have inv: "session_inv rc P s" if "off s" for s
    using that by (intro inv_by_core [OF seenmail_off [OF assms]]) (simp add: off_def core_def)
  have "holds (session_inv rc P) (data_receive c w qp tp s)" if s: "off s" for qp tp and s :: server
  proof (rule data_receive_inv [OF inv [OF s]])
    have mt: "mailfrom s = f @ [NUL]" "rcptto s = rcpts_text rs" using s f rs by (simp_all add: core_def off_def)
    show "envelope_ok P (''F'' @ cstr (mailfrom s) @ [NUL] @ rcptto s @ [NUL])"
      unfolding envelope_ok_def using f rs mt
      by (intro exI [of _ f] exI [of _ rs]) (simp add: cstr_append cstr_nonul)
  qed
  moreover have "session_inv rc P t" "off (t\<lparr>seenmail := False\<rparr>)" if c: "core t = core st" for t :: server
    using inv_by_core [OF assms c] c by (simp_all add: off_def core_def)
  moreover have "off s \<Longrightarrow> session_inv rc P (err_qqt s)" "off s \<Longrightarrow> off (say x s)" "off s \<Longrightarrow> off (s\<lparr>sppheaders := y\<rparr>)"
    "off s \<Longrightarrow> off (s\<lparr>bytestooverflow := b\<rparr>)" for s x y b
    using err_inv(11) [OF inv] by (simp_all add: off_def)
  ultimately have "holds (session_inv rc P) (andthen (run_spp (spp w) False st) (\<lambda>(r, st).
        if r = 0 then Inr st
        else let st = st\<lparr>seenmail := False, bytestooverflow := (if databytes c \<noteq> 0 then databytes c + 1 else bytestooverflow st)\<rparr>
             in case qq_open w of
                  None \<Rightarrow> Inr (err_qqt st)
                | Some qp \<Rightarrow>
                    (let st = say (''354 go ahead'' @ crlf) st
                     in if \<not> cmem c 6 then die_nomem st
                        else let helo = (if case_diffs (remotehost c) (helohost st) \<noteq> 0 then Some (helohost st) else None);
                                 top = received (localtime c) (now w) (''SMTP'' @ [NUL]) (local c) (remoteip c) (remotehost c)
                                         (remoteinfo c) helo @ sppheaders st
                             in if \<not> cmem c 1 then die_nomem st else data_receive c w qp top (st\<lparr>sppheaders := []\<rparr>))))"
    by (intro holds_then [OF run_spp_core]) (auto simp: Let_def die_defs split: option.split)
  then show ?thesis using True by (simp add: smtp_data_def)
qed

text \<open>Every command keeps the invariant, and so does every round of the loop.\<close>

lemma dispatch_inv:
  assumes "session_inv rc P st" "says_of c rc w P" "dispatch c w cmd m st = Some r"
  shows "holds (session_inv rc P) r"
proof -
  note s = smtp_rcpt_inv [OF assms(1,2), of m] smtp_data_inv [OF assms(1), of c w] smtp_helo_inv [OF assms(1), of c w m]
    smtp_ehlo_inv [OF assms(1), of c w m] smtp_rset_inv [OF assms(1), of c] smtp_mail_inv [OF assms(1), of c w m r]
  have say: "session_inv rc P (say x st)" for x by (rule err_inv(13) [OF assms(1)])
  show ?thesis
    using assms(3) s say unfolding dispatch_def smtp_tls_def smtp_help_def smtp_quit_def err_defs
    by (auto split: if_splits)
qed

lemma command_round_inv:
  assumes "session_inv rc P st" "says_of c rc w P" "command_round c w stale st = Some r"
  shows "holds (session_inv rc P) r"
proof -
  have i: "session_inv rc P (st\<lparr>incoming := x\<rparr>)" for x by (rule inv_by_core [OF assms(1)]) simp
  show ?thesis
    using assms(3) dispatch_inv [OF i assms(2)] unfolding command_round_def Let_def
    by (auto simp: die_defs split: if_splits prod.splits)
qed

end
