(* ===== verification/Reachable.thy ===== *)
theory Reachable
  imports Session
begin

text \<open>
  The SMTP server as a transition system: one transition is one round of the loop of \<open>commands\<close> that returns. What holds in every
  reachable state, that sessions end, and what some of the commands do to particular lines.
\<close>

section \<open>Transitions\<close>

text \<open>A session in which every round happens in one of the worlds \<open>W\<close>.\<close>

inductive session :: "conf \<Rightarrow> (outside \<Rightarrow> bool) \<Rightarrow> server \<Rightarrow> server \<Rightarrow> bool" for c :: conf and W :: "outside \<Rightarrow> bool" where
  start: "session c W st st"
| round: "session c W st st' \<Longrightarrow> W w \<Longrightarrow> command_round c w stale st' = Some (Inr st'') \<Longrightarrow> session c W st st''"

inductive_cases sessionE: "session c W st st'"

text \<open>The state in which \<open>main\<close> enters the loop.\<close>

definition fresh :: "server \<Rightarrow> bool" where
  "fresh st \<longleftrightarrow> \<not> seenmail st \<and> rcptto st = [] \<and> submitted st = []"

lemma fresh_inv: "fresh st \<Longrightarrow> session_inv (relayclient st) P st"
  by (auto simp: fresh_def session_inv_def rcpts_ok_def intro!: exI [of _ "[]"])

lemma session_keeps:
  assumes "session c W st st'" "fresh st" "\<And>w. W w \<Longrightarrow> says_of c (relayclient st) w P"
  shows "session_inv (relayclient st) P st'"
  using assms
proof (induction rule: session.induct)
  case (start st)
  then show ?case by (simp add: fresh_inv)
next
  case (round st st' w stale st'')
  then have "session_inv (relayclient st) P st'" "says_of c (relayclient st) w P" by simp_all
  then have "holds (session_inv (relayclient st) P) (Inr st'')" using command_round_inv round.hyps by blast
  then show ?case by simp
qed

section \<open>What a round leaves behind\<close>

text \<open>Input is only taken away, and the flag of the denied recipient stays when no \<open>badrcptto\<close> sets it anew.\<close>

definition later :: "conf \<Rightarrow> server \<Rightarrow> server \<Rightarrow> bool" where
  "later c st s \<longleftrightarrow> length (incoming s) \<le> length (incoming st) \<and> (brt c = None \<and> flagbarfbrt st \<longrightarrow> flagbarfbrt s)"

lemma later_refl [simp]: "later c st st"
  by (simp add: later_def)

lemma later_trans: "later c st s \<Longrightarrow> later c s t \<Longrightarrow> later c st t"
  by (auto simp: later_def)

lemma later_updates [simp]:
  "later c st (say x s) = later c st s"
  "later c st (s\<lparr>replies := xs\<rparr>) = later c st s" "later c st (s\<lparr>flagbarfbmf := b\<rparr>) = later c st s"
  "later c st (s\<lparr>flagbarfbhelo := b\<rparr>) = later c st s" "later c st (s\<lparr>flagbarfspf := b\<rparr>) = later c st s"
  "later c st (s\<lparr>spfbarfmsg := xs\<rparr>) = later c st s" "later c st (s\<lparr>addr := xs\<rparr>) = later c st s"
  "later c st (s\<lparr>rcptcounter := n\<rparr>) = later c st s" "later c st (s\<lparr>allowed := b\<rparr>) = later c st s"
  "later c st (s\<lparr>helohost := xs\<rparr>) = later c st s" "later c st (s\<lparr>fakehelo := h\<rparr>) = later c st s"
  "later c st (s\<lparr>vrtcount := k\<rparr>) = later c st s" "later c st (s\<lparr>bytestooverflow := u\<rparr>) = later c st s"
  "later c st (s\<lparr>sppheaders := xs\<rparr>) = later c st s" "later c st (s\<lparr>seenmail := b\<rparr>) = later c st s"
  "later c st (s\<lparr>mailfrom := xs\<rparr>) = later c st s" "later c st (s\<lparr>rcptto := xs\<rparr>) = later c st s"
  "later c st (s\<lparr>submitted := us\<rparr>) = later c st s" "later c st (smtp_greet c' xs s) = later c st s"
  by (simp_all add: later_def say_def smtp_greet_def)

lemma later_say [simp]: "later c st (say x s) = later c st s"
  by simp

lemma later_rcpt_barf: "later c st s \<Longrightarrow> later c st (rcpt_barf c s)"
  by (auto simp: later_def rcpt_barf_def Let_def split: option.split)

lemma addrparse_later: "later c st s \<Longrightarrow> ends (\<lambda>_. True) (\<lambda>a. later c st (snd a)) (addrparse c' m s)"
  by (simp add: addrparse_def Let_def die_defs split: prod.split option.split)

lemma run_spp_later: "later c st s \<Longrightarrow> ends (\<lambda>_. True) (\<lambda>a. later c st (snd a)) (run_spp p b s)"
  by (simp add: run_spp_def Let_def split: option.split)

lemma after_helo_later: "later c st s \<Longrightarrow> holds (later c st) (after_helo c' arg s)"
  by (simp add: after_helo_def dohelo_def Let_def die_defs split: option.split)

lemma smtp_helo_later: "holds (later c st) (smtp_helo c' w arg st)"
  unfolding smtp_helo_def by (rule holds_then [OF run_spp_later [where c = c, OF later_refl]]) (simp add: after_helo_later)

lemma smtp_ehlo_later: "holds (later c st) (smtp_ehlo c' w arg st)"
  unfolding smtp_ehlo_def smtp_size_def by (rule holds_then [OF run_spp_later [where c = c, OF later_refl]]) (simp add: after_helo_later)

lemma mail_checks_later: "later c st s \<Longrightarrow> holds (later c st) (mail_checks c' w s)"
  unfolding mail_checks_def Let_def
  by (simp add: err_defs die_defs mail_spf_def mail_accept_def Let_def split: option.split)

lemma smtp_mail_later:
  assumes "smtp_mail c' w m st = Some r"
  shows "holds (later c st) r"
proof (cases "seenmail st")
  case True
  then show ?thesis using assms by (auto simp: smtp_mail_def err_defs)
next
  case not_seen: False
  show ?thesis
  proof (cases "addrparse c' m st")
    case (Inl e)
    then show ?thesis using assms not_seen by (auto simp: smtp_mail_def)
  next
    case parsed: (Inr p)
    then have p: "later c st (snd p)" using addrparse_later [OF later_refl, of c st c' m] by simp
    show ?thesis
    proof (cases "run_spp (spp w) True (snd p)")
      case (Inl e)
      then have "r \<in> {Inr (err_syntax (snd p)), Inl e}"
        using assms not_seen parsed by (cases p) (simp add: smtp_mail_def split: if_splits)
      then show ?thesis using p by (auto simp: err_defs)
    next
      case (Inr q)
      then have q: "later c st (snd q)" using run_spp_later [OF p, of "spp w" True] by simp
      have "r \<in> {Inr (err_syntax (snd p)), Inr (snd q), Inr (err_size (snd q)), mail_checks c' w (snd q)}"
        using assms not_seen parsed Inr by (cases p; cases q) (auto simp: smtp_mail_def split: if_splits option.splits bool.splits)
      then show ?thesis using p q mail_checks_later [OF q, of c' w] by (auto simp: err_defs)
    qed
  qed
qed

lemma rcpt_last_later: "later c st s \<Longrightarrow> holds (later c st) (rcpt_last c' w s)"
  by (simp add: rcpt_last_def rcpt_accept_def Let_def err_defs die_defs)

lemma rcpt_gate_later: "later c st s \<Longrightarrow> holds (later c st) (rcpt_gate c' w s)"
  unfolding rcpt_gate_def Let_def
  by (auto simp: die_defs err_defs intro!: holds_then [OF run_spp_later] rcpt_last_later split: option.split)

lemma smtp_rcpt_later: "holds (later c st) (smtp_rcpt c w m st)"
proof -
  have "later c st (st\<lparr>rcptcounter := rcptcounter st + 1\<rparr>)" by simp
  then show ?thesis
    unfolding smtp_rcpt_def Let_def
    by (auto simp: err_defs intro!: holds_then [OF addrparse_later] rcpt_gate_later later_rcpt_barf)
qed

lemma smtpd_blast_loop_rest: "smtpd_blast_loop s inp = Inr (t, rest) \<Longrightarrow> length rest \<le> length inp"
  by (induction s inp rule: smtpd_blast_loop.induct) (fastforce simp: Let_def split: blast_act.splits)+

lemma data_receive_later: "later c st s \<Longrightarrow> holds (later c st) (data_receive c' w qp hdrs s)"
  unfolding data_receive_def Let_def smtpd_blast_def data_verdict_def acceptmessage_def err_defs die_defs case_prod_beta
  by (auto simp: later_def say_def dest!: smtpd_blast_loop_rest split: sum.split smtpd_exit.split)

lemma smtp_data_later: "holds (later c st) (smtp_data c' w st)"
  unfolding smtp_data_def Let_def
  by (auto simp: err_defs die_defs intro!: holds_then [OF run_spp_later] data_receive_later split: option.split)

lemma dispatch_later:
  assumes "dispatch c w cmd m st = Some r"
  shows "holds (later c st) r"
  using assms smtp_mail_later [of c w m st r c] smtp_rcpt_later [of c st w m] smtp_data_later [of c st c w]
    smtp_helo_later [of c st c w m] smtp_ehlo_later [of c st c w m]
  unfolding dispatch_def smtp_tls_def smtp_help_def smtp_quit_def smtp_rset_def err_defs die_defs
  by (auto split: if_splits)

lemma command_round_later:
  assumes "command_round c w stale st = Some (Inr st')"
  shows "length (incoming st') < length (incoming st)" "brt c = None \<Longrightarrow> flagbarfbrt st \<Longrightarrow> flagbarfbrt st'"
proof -
  let ?rest = "tl (dropWhile (\<lambda>ch. ch \<noteq> LF) (incoming st))"
  obtain cmd m where LF: "LF \<in> set (incoming st)" and d: "dispatch c w cmd m (st\<lparr>incoming := ?rest\<rparr>) = Some (Inr st')"
    using assms unfolding command_round_def Let_def by (auto simp: die_defs split: if_splits prod.splits)
  have l: "later c (st\<lparr>incoming := ?rest\<rparr>) st'" using dispatch_later [OF d] by simp
  have "dropWhile (\<lambda>ch. ch \<noteq> LF) (incoming st) \<noteq> []" using LF by (auto simp: dropWhile_eq_Nil_conv)
  then have "length ?rest < length (dropWhile (\<lambda>ch. ch \<noteq> LF) (incoming st))" by simp
  also have "\<dots> \<le> length (incoming st)" by (rule length_dropWhile_le)
  finally show "length (incoming st') < length (incoming st)" using l by (simp add: later_def)
  show "brt c = None \<Longrightarrow> flagbarfbrt st \<Longrightarrow> flagbarfbrt st'" using l by (simp add: later_def)
qed

section \<open>The size parameter\<close>

lemma str_chr_nohit: "c \<notin> set s \<Longrightarrow> NUL \<notin> set s \<Longrightarrow> str_chr (s @ t) c = length s + str_chr t c"
  by (induction s) auto

lemma sch_digit: "digitval ch < 10 \<Longrightarrow> sch ch > 47 \<and> sch ch < 58 \<and> ch \<noteq> NUL \<and> sch ch - 48 = int (digitval ch)"
  using digitval_less_10_iff [of ch] by (auto simp: sch_def digitval_def unat_sub_if')

lemma size_digits_run:
  assumes "\<forall>ch \<in> set ds. digitval ch < 10" "m = pre @ x # ds @ NUL # post"
  shows "size_digits m (length pre) (of_nat n) = Some (length pre + length ds + 1, of_nat (digits_value ds n))"
  using assms
proof (induction ds arbitrary: pre x n)
  case Nil
  then show ?case by (subst size_digits.simps) (simp add: nth_append)
next
  case (Cons d ds)
  have d: "sch d > 47 \<and> sch d < 58 \<and> d \<noteq> NUL \<and> sch d - 48 = int (digitval d)" using Cons.prems(1) sch_digit by simp
  have u: "of_nat n * 10 + of_int (sch d - 48) = (of_nat (n * 10 + digitval d) :: ulong)" using d by simp
  have "size_digits m (length (pre @ [x])) (of_nat (n * 10 + digitval d)) =
      Some (length (pre @ [x]) + length ds + 1, of_nat (digits_value ds (n * 10 + digitval d)))"
    using Cons.prems by (intro Cons.IH [where x = d]) auto
  then show ?case using d Cons.prems(2) u by (subst size_digits.simps) (simp add: nth_append Let_def del: of_nat_add of_nat_mult)
qed

lemma size_loop_end:
  "p + 1 < length m \<Longrightarrow> m ! (p + 1) = NUL \<Longrightarrow> size_loop limit m p u = Some True"
  "length m \<le> p + 1 \<Longrightarrow> size_loop limit m p u = None"
  by (subst size_loop.simps; simp add: Let_def)+

text \<open>\<open>MAIL FROM:<address> SIZE=number\<close>, with the stale bytes that the command buffer holds behind it.\<close>

lemma sizelimit_reads:
  fixes n :: nat and stale :: "char list"
  assumes "CHR ''>'' \<notin> set ad" "NUL \<notin> set ad"
  defines "m \<equiv> ''FROM:<'' @ ad @ ''> SIZE='' @ fmt_ulong n @ [NUL] @ stale"
    and "m' \<equiv> ''FROM:<'' @ ad @ ''> SIZE'' @ [NUL] @ fmt_ulong n @ [NUL] @ stale"
  shows "sizelimit limit m =
    (if sint (limit - of_nat n) < 0 then Some False
     else size_loop limit m' (length ad + length (fmt_ulong n) + 13) (of_nat n))"
proof -
  have lt: "str_chr m (CHR ''<'') = 5" by (simp add: m_def)
  have gt: "str_chr (drop 6 m) (CHR ''>'') = length ad" using str_chr_nohit [OF assms(1,2)] by (simp add: m_def)
  have at5: "char_at m 5 \<noteq> NUL" and gtat: "char_at m (6 + length ad) = CHR ''>''"
    by (simp_all add: m_def char_at_def nth_append)
  have start: "sizelimit limit m = size_loop limit m (length ad + 7) 0"
    unfolding sizelimit_def lt Let_def using gt at5 gtat by (simp add: add.commute)
  have at: "length ad + 8 < length m" "m ! (length ad + 8) = CHR ''S''" "length ad + 8 + 4 < length m"
    by (simp_all add: m_def nth_append)
  have drop8: "drop (length ad + 8) ((''FROM:<'' @ ad @ ''> '') @ q) = q" for q :: "char list"
    by (simp add: append_assoc [symmetric] del: append_assoc append_Cons)
  have d8: "drop (length ad + 8) m = ''SIZE='' @ fmt_ulong n @ [NUL] @ stale"
    "drop (length ad + 8) m' = ''SIZE'' @ [NUL] @ fmt_ulong n @ [NUL] @ stale"
    using drop8 [of "''SIZE='' @ fmt_ulong n @ [NUL] @ stale"] drop8 [of "''SIZE'' @ [NUL] @ fmt_ulong n @ [NUL] @ stale"]
    by (simp_all add: m_def m'_def)
  have eq: "str_chr (drop (length ad + 8) m) (CHR ''='') = 4" by (simp add: d8)
  have set': "m[length ad + 8 + 4 := NUL] = m'" by (simp add: m_def m'_def list_update_append)
  have m': "m' = (''FROM:<'' @ ad @ ''> SIZE'') @ NUL # fmt_ulong n @ NUL # stale" "length m' = length m" by (simp_all add: m'_def m_def)
  have dig: "size_digits m' (length ad + 8 + 4) 0 = Some (length ad + length (fmt_ulong n) + 13, of_nat n)"
  proof -
    have pre: "length (''FROM:<'' @ ad @ ''> SIZE'') = length ad + 8 + 4" by simp
    show ?thesis
      using size_digits_run [OF digits_fmt_ulong m'(1), of 0] unfolding pre by (simp add: digits_value_fmt_ulong)
  qed
  have size: "case_diffs (drop (length ad + 8) m') ''SIZE'' = 0" by (simp add: d8 case_diffs_eq_0_iff)
  show ?thesis unfolding start
    by (subst size_loop.simps) (use at eq set' dig size m'(2) in \<open>simp add: Let_def add.commute\<close>)
qed

section \<open>An example session\<close>

declare cm_search.simps [code]

text \<open>A host that receives for \<open>example.org\<close> only, with \<open>bad@x\<close> in \<open>badrcpttonorelay\<close>.\<close>

definition demo_conf :: conf where
  "demo_conf = \<lparr>cmem = (\<lambda>_. True), greeting = ''mx'', local = ''mx'', remoteip = ''10.0.0.1'', remotehost = ''h'', remoteinfo = None,
     liphost = None, ipme_is = (\<lambda>_. False), databytes = 0, bmf = None, bmfnr = None, brt = None, brtnr = Some (''bad@x'' @ [NUL]),
     bhelo = None, matchregex = (\<lambda>s r. if s = r then 1 else 0), mfchk = 0, maxrcpt = - 1, relayrej = False, spfbehavior = 0,
     rcpthosts = Some (''example.org'' @ [NUL], the (constmap_init (\<lambda>_. True) (''example.org'' @ [NUL]) False)), morercpthosts = None, vrt = None, vrtlimit = 0, help_version = False,
     localtime = datetime_tai\<rparr>"

definition demo_world :: outside where
  "demo_world = \<lparr>spp = \<lparr>spp_text = [], spp_addr = None, spp_headers = [], spp_result = Some 1\<rparr>, mx = 0, spf_result = SPF_OK,
     spf_explanation = [], spf_info = [], rcptcheck = (True, []), now = 0, qq_open = Some 7, qq_writes = True, qq_waited = True,
     qq_wstat = 0, qq_errstr = [], timed_out = False\<rparr>"

definition demo_start :: "char list \<Rightarrow> server" where
  "demo_start text = \<lparr>incoming = text, replies = [], seenmail = False, flagbarfbmf = False, flagbarfbrt = False, flagbarfbhelo = False,
     flagbarfspf = False, spfbarfmsg = [], addr = [], mailfrom = [], rcptto = [], rcptcounter = 0, relayclient = None, allowed = False,
     helohost = ''h'' @ [NUL], fakehelo = None, vrtcount = 0, bytestooverflow = 0, sppheaders = [], submitted = []\<rparr>"

fun demo_rounds :: "nat \<Rightarrow> server \<Rightarrow> server option" where
  "demo_rounds 0 st = Some st"
| "demo_rounds (Suc n) st =
     (case command_round demo_conf demo_world [] st of Some (Inr st') \<Rightarrow> demo_rounds n st' | _ \<Rightarrow> None)"

lemma demo_rounds_from:
  "session demo_conf (\<lambda>w. w = demo_world) st st' \<Longrightarrow> demo_rounds n st' = Some st'' \<Longrightarrow> session demo_conf (\<lambda>w. w = demo_world) st st''"
proof (induction n arbitrary: st')
  case (Suc n)
  then obtain s where "command_round demo_conf demo_world [] st' = Some (Inr s)" "demo_rounds n s = Some st''"
    by (auto split: option.splits sum.splits)
  with Suc show ?case by (blast intro: session.round)
qed simp

lemmas demo_session = demo_rounds_from [OF session.start]

lemma demo_fresh [simp]: "fresh (demo_start s)" "relayclient (demo_start s) = None" "brt demo_conf = None"
  by (simp_all add: fresh_def demo_start_def demo_conf_def)

definition demo_mail :: "char list" where
  "demo_mail = ''MAIL FROM:<a@b>'' @ crlf @ ''RCPT TO:<x@c.d>'' @ crlf @ ''RCPT TO:<x@example.org>'' @ crlf @ ''DATA'' @ crlf @ ''hi'' @ crlf @ ''.'' @ crlf"

text \<open>One message has gone to the queue, for the recipient of this host.\<close>

lemma demo_mail_sent: "map_option (\<lambda>st. map (\<lambda>(acc, msg, env). (acc, env)) (submitted st)) (demo_rounds 4 (demo_start demo_mail)) =
  Some [(True, ''Fa@b'' @ [NUL] @ ''Tx@example.org'' @ [NUL, NUL])]"
  by code_simp

lemma demo_mail_end:
  obtains st' msg where "session demo_conf (\<lambda>w. w = demo_world) (demo_start demo_mail) st'"
    "(True, msg, ''Fa@b'' @ [NUL] @ ''Tx@example.org'' @ [NUL, NUL]) \<in> set (submitted st')"
proof -
  obtain st' where r: "demo_rounds 4 (demo_start demo_mail) = Some st'"
    and s: "map (\<lambda>(acc, msg, env). (acc, env)) (submitted st') = [(True, ''Fa@b'' @ [NUL] @ ''Tx@example.org'' @ [NUL, NUL])]"
    using demo_mail_sent by auto
  then obtain msg where "submitted st' = [(True, msg, ''Fa@b'' @ [NUL] @ ''Tx@example.org'' @ [NUL, NUL])]"
    by (auto simp: map_eq_Cons_conv)
  then show thesis using that demo_session [OF r] by simp
qed

lemma demo_barf: "map_option (\<lambda>st. flagbarfbrt st \<and> seenmail st \<and> rcptto st = [])
    (demo_rounds 2 (demo_start (''MAIL FROM:<a@b>'' @ crlf @ ''RCPT TO:<bad@x>'' @ crlf))) = Some True"
  by code_simp

lemma demo_barf_next: "map_option (\<lambda>st. (\<lambda>r. case r of Inr _ \<Rightarrow> True | _ \<Rightarrow> False) (smtp_rcpt demo_conf demo_world (''TO:<x@example.org>'' @ [NUL]) st))
    (demo_rounds 2 (demo_start (''MAIL FROM:<a@b>'' @ crlf @ ''RCPT TO:<bad@x>'' @ crlf))) = Some True"
  by code_simp

section \<open>Properties\<close>

text \<open>C33: In every reachable state of a session, whatever the client and the world did, each message handed to \<open>qmail-queue\<close> has
  a well-formed envelope: \<open>F\<close>, a sender without NUL, and one or more recipients without NUL, each behind a \<open>T\<close>.\<close>

theorem session_envelopes:
  assumes "session c W st st'" "fresh st" "(acc, msg, env) \<in> set (submitted st')"
  shows "\<exists>f rs. env = ''F'' @ f @ [NUL] @ concat (map (\<lambda>r. ''T'' @ r @ [NUL]) rs) @ [NUL] \<and> NUL \<notin> set f \<and> rs \<noteq> [] \<and>
    (\<forall>r \<in> set rs. NUL \<notin> set r)"
proof -
  have "session_inv (relayclient st) (\<lambda>_. True) st'" using assms(1,2) by (rule session_keeps) (simp add: says_of_def)
  then show ?thesis using assms(3) by (fastforce simp: session_inv_def envelope_ok_def rcpts_ok_def rcpts_text_def)
qed

theorem session_envelopes_witness:
  "\<exists>st' msg f rs. session demo_conf (\<lambda>w. w = demo_world) (demo_start demo_mail) st' \<and>
     (True, msg, ''Fa@b'' @ [NUL] @ ''Tx@example.org'' @ [NUL, NUL]) \<in> set (submitted st') \<and>
     ''Fa@b'' @ [NUL] @ ''Tx@example.org'' @ [NUL, NUL] = ''F'' @ f @ [NUL] @ concat (map (\<lambda>r. ''T'' @ r @ [NUL]) rs) @ [NUL] \<and> rs \<noteq> []"
proof -
  obtain st' msg where s: "session demo_conf (\<lambda>w. w = demo_world) (demo_start demo_mail) st'"
    "(True, msg, ''Fa@b'' @ [NUL] @ ''Tx@example.org'' @ [NUL, NUL]) \<in> set (submitted st')" by (rule demo_mail_end)
  from session_envelopes [OF s(1) demo_fresh(1) s(2)] s show ?thesis by blast
qed

text \<open>C16: No open relay. When the client may not relay and no plugin overrules the decision, every recipient of every message that a session
  hands to \<open>qmail-queue\<close> is one that \<open>rcpthosts\<close> or \<open>morercpthosts\<close> lists, or has no domain.\<close>

theorem no_open_relay:
  assumes "session c W st st'" "fresh st" "relayclient st = None" "\<forall>w. W w \<longrightarrow> neutral w" "(acc, msg, env) \<in> set (submitted st')"
  shows "\<exists>f rs. env = ''F'' @ f @ [NUL] @ concat (map (\<lambda>r. ''T'' @ r @ [NUL]) rs) @ [NUL] \<and>
    (\<forall>r \<in> set rs. rcpthosts_check (cmem c) (rcpthosts c) (morercpthosts c) r \<notin> {0, - 1})"
proof -
  have "session_inv (relayclient st) (may_receive c (relayclient st)) st'"
    using assms(1,2) by (rule session_keeps) (simp add: says_of_def assms(4))
  then show ?thesis using assms(3,5)
    by (fastforce simp: session_inv_def envelope_ok_def rcpts_ok_def rcpts_text_def may_receive_def)
qed

theorem no_open_relay_witness:
  "\<exists>st' msg f rs. session demo_conf (\<lambda>w. w = demo_world) (demo_start demo_mail) st' \<and>
     (True, msg, ''Fa@b'' @ [NUL] @ ''Tx@example.org'' @ [NUL, NUL]) \<in> set (submitted st') \<and>
     ''Fa@b'' @ [NUL] @ ''Tx@example.org'' @ [NUL, NUL] = ''F'' @ f @ [NUL] @ concat (map (\<lambda>r. ''T'' @ r @ [NUL]) rs) @ [NUL] \<and>
     (\<forall>r \<in> set rs. rcpthosts_check (cmem demo_conf) (rcpthosts demo_conf) (morercpthosts demo_conf) r \<notin> {0, - 1})"
proof -
  obtain st' msg where s: "session demo_conf (\<lambda>w. w = demo_world) (demo_start demo_mail) st'"
    "(True, msg, ''Fa@b'' @ [NUL] @ ''Tx@example.org'' @ [NUL, NUL]) \<in> set (submitted st')" by (rule demo_mail_end)
  have "\<forall>w. w = demo_world \<longrightarrow> neutral w" by (simp add: neutral_def demo_world_def)
  from no_open_relay [OF s(1) demo_fresh(1,2) this s(2)] s show ?thesis by blast
qed

text \<open>Once a recipient has been denied by \<open>badrcpttonorelay\<close> on a host without \<open>badrcptto\<close>, nothing in the session puts the flag
  back: no later RCPT, in whatever transaction, adds a recipient.\<close>

theorem barf_sticks:
  assumes "session c W st st'" "flagbarfbrt st" "brt c = None" "smtp_rcpt c w m st' = Inr s"
  shows "flagbarfbrt s \<and> rcptto s = rcptto st'"
proof -
  have f: "flagbarfbrt st'" using assms(1,2)
    by (induction rule: session.induct) (auto dest: command_round_later(2) simp: assms(3))
  let ?st = "st'\<lparr>rcptcounter := rcptcounter st' + 1\<rparr>"
  have "later c st' ?st" by simp
  have l: "flagbarfbrt s" using smtp_rcpt_later [of c st' w m] f assms(3,4) by (simp add: later_def)
  have a: "ends (\<lambda>_. True) (\<lambda>(ok, u). flagbarfbrt u \<and> rcptto u = rcptto st') (addrparse c m ?st)"
    using f by (simp add: addrparse_def Let_def die_defs split: prod.split option.split)
  have "rcpt_barf c u = u" if "flagbarfbrt u" for u using that assms(3) by (simp add: rcpt_barf_def)
  then have "ends (\<lambda>_. True) (\<lambda>u. rcptto u = rcptto st') (smtp_rcpt c w m st')"
    unfolding smtp_rcpt_def Let_def using a
    by (auto simp: err_defs say_def Let_def intro!: ends_andthen [OF a])
  then show ?thesis using l assms(4) by simp
qed

theorem barf_sticks_witness:
  "\<exists>st' s. session demo_conf (\<lambda>w. w = demo_world) st' st' \<and> smtp_rcpt demo_conf demo_world (''TO:<x@example.org>'' @ [NUL]) st' = Inr s \<and>
     seenmail st' \<and> flagbarfbrt s \<and> rcptto s = []"
proof -
  obtain st' where r: "demo_rounds 2 (demo_start (''MAIL FROM:<a@b>'' @ crlf @ ''RCPT TO:<bad@x>'' @ crlf)) = Some st'"
    and f: "flagbarfbrt st'" "seenmail st'" "rcptto st' = []" using demo_barf by auto
  obtain s where s: "smtp_rcpt demo_conf demo_world (''TO:<x@example.org>'' @ [NUL]) st' = Inr s"
    using demo_barf_next r by (auto split: sum.splits)
  from barf_sticks [where W = "\<lambda>w. w = demo_world", OF session.start f(1) demo_fresh(3) s] show ?thesis
    using s f by (auto intro: session.start)
qed

text \<open>The size that a client declares with MAIL is compared with the limit as a 32-bit number, and refused when the difference is
  negative. If it is not refused, the scan goes on behind the NUL that ends the line: with a second NUL there the size is accepted, and
  with the buffer ending there the server reads outside of it.\<close>

theorem sizelimit_decides:
  assumes "CHR ''>'' \<notin> set ad" "NUL \<notin> set ad"
  shows "sizelimit limit (''FROM:<'' @ ad @ ''> SIZE='' @ fmt_ulong n @ [NUL] @ [NUL] @ stale) = Some (\<not> sint (limit - of_nat n) < 0) \<and>
    sizelimit limit (''FROM:<'' @ ad @ ''> SIZE='' @ fmt_ulong n @ [NUL]) = (if sint (limit - of_nat n) < 0 then Some False else None)"
proof -
  let ?m = "\<lambda>stale. ''FROM:<'' @ ad @ ''> SIZE'' @ [NUL] @ fmt_ulong n @ [NUL] @ stale"
  have l: "length (?m s) = length ad + length (fmt_ulong n) + 13 + 1 + length s" for s by simp
  have n: "?m (NUL # s) ! (length ad + length (fmt_ulong n) + 13 + 1) = NUL" for s
    using nth_append_length [of "?m []" NUL s] l [of "[]"] by (simp only: append_assoc append_Cons append_Nil list.size add_0_right)
  have "size_loop limit (?m (NUL # stale)) (length ad + length (fmt_ulong n) + 13) (of_nat n) = Some True"
    by (rule size_loop_end(1), simp only: l, simp, rule n)
  moreover have "size_loop limit (?m []) (length ad + length (fmt_ulong n) + 13) (of_nat n) = None"
    by (rule size_loop_end(2), simp only: l, simp)
  ultimately show ?thesis
    using sizelimit_reads [OF assms, of limit n "NUL # stale"] sizelimit_reads [OF assms, of limit n "[]"]
    by (simp only: append_Cons append_Nil if_split) auto
qed

theorem sizelimit_decides_witness:
  "sizelimit 1000 (''FROM:<a@b> SIZE='' @ fmt_ulong 999 @ [NUL] @ [NUL] @ ''RCPT'') = Some True \<and>
   sizelimit 1000 (''FROM:<a@b> SIZE='' @ fmt_ulong 999 @ [NUL]) = None"
proof -
  have "\<not> sint (1000 - of_nat 999 :: ulong) < 0" by (simp add: sint_uint)
  then show ?thesis using sizelimit_decides [of "''a@b''" 1000 999 "''RCPT''"] by simp
qed

end
