(* ===== verification/Endtoend.thy ===== *)
theory Endtoend
  imports Remote Reachable Header
begin

text \<open>
  The SMTP client and the SMTP server together: what \<open>qmail-smtpd\<close> makes of the commands and the message that \<open>qmail-remote\<close> sends.
\<close>

section \<open>Reports\<close>

lemma items_inject:
  "items xs = items ys \<Longrightarrow> \<forall>x \<in> set xs. NUL \<notin> set x \<Longrightarrow> \<forall>y \<in> set ys. NUL \<notin> set y \<Longrightarrow> xs = ys"
proof (induction xs arbitrary: ys)
  case Nil
  then show ?case by (cases ys) auto
next
  case (Cons x xs)
  then obtain y zs where ys: "ys = y # zs" by (cases ys) auto
  have "cstr (items (x # xs)) = cstr (items (y # zs))" using Cons.prems(1) ys by simp
  then have xy: "x = y" using Cons.prems(2,3) ys by simp
  then show ?case using Cons.IH [of zs] Cons.prems ys by simp
qed

section \<open>The message\<close>

text \<open>A message is sent as a whole only if it was read to its end and its last line is complete.\<close>

lemma remote_blast_whole:
  assumes "remote_blast e s = Inr body"
  obtains ls where "s = as_message ls" "\<forall>l \<in> set ls. LF \<notin> set l" "e = At_eof"
proof -
  obtain ls rest where s: "s = as_message ls @ rest" "\<forall>l \<in> set ls. LF \<notin> set l" "LF \<notin> set rest" by (rule text_split)
  have "\<not> (rest \<noteq> [] \<or> e = Read_error)"
  proof
    assume r: "rest \<noteq> [] \<or> e = Read_error"
    obtain x sent where "remote_blast e s = Inl (x, sent)" using remote_blast_incomplete [OF s(2,3) r] s(1) by auto
    then show False using assms by simp
  qed
  then show thesis using that s by (cases e) auto
qed

text \<open>\<open>qmail-queue\<close> drops the message without storing it: it ends with code 1, or with a text of its own that begins with I.\<close>

definition dropped_by_queue :: "outside \<Rightarrow> bool" where
  "dropped_by_queue w \<longleftrightarrow> wait_exitcode (qq_wstat w) = 1 \<or> wait_exitcode (qq_wstat w) = 82 \<and> hd (qq_errstr w) = CHR ''I''"

lemma verdict_drops: "hd (close_verdict err waited wstat errstr) = CHR ''I'' \<Longrightarrow> close_verdict err waited wstat errstr \<noteq> [] \<Longrightarrow>
    wait_exitcode wstat = 1 \<or> wait_exitcode wstat = 82 \<and> hd errstr = CHR ''I''"
  by (cases errstr) (auto simp: close_verdict_def Let_def split: if_split_asm)

lemma verdict_code:
  assumes "data_verdict c w qp many qqx st = u"
  shows "\<exists>answer. replies u = replies st @ answer \<and> (qqx = [] \<or> hd qqx = CHR ''I'' \<or> reply_code answer \<ge> 400)"
proof -
  have code: "reply_code (CHR ''4'' # CHR ''5'' # CHR ''1'' # x) \<ge> 400" "reply_code (CHR ''5'' # CHR ''5'' # CHR ''2'' # x) \<ge> 400"
    "reply_code (CHR ''5'' # CHR ''5'' # CHR ''4'' # x) \<ge> 400" for x
    by (simp_all add: reply_code_def digit_def word_le_nat_alt)
  have "replies (say s v) = replies v @ cstr s" for s v by (simp add: say_def)
  then show ?thesis using code unfolding assms [symmetric] data_verdict_def acceptmessage_def err_size_def by (auto simp: crlf_def)
qed

lemma data_receive_stores:
  assumes "\<forall>l \<in> set ls. LF \<notin> set l" "incoming st = on_wire ls @ next_command"
  shows "\<exists>u acc spf answer. data_receive c w qp hdrs st = Inr u \<and> incoming u = next_command \<and>
    submitted u = submitted st @ [(acc, hdrs @ spf @ as_message ls, ''F'' @ cstr (mailfrom st) @ [NUL] @ rcptto st @ [NUL])] \<and>
    replies u = replies st @ answer \<and> (reply_code answer < 400 \<longrightarrow> acc \<or> dropped_by_queue w)"
proof -
  obtain s where s: "smtpd_blast (incoming st) = Inr (s, next_command)" "stored s = as_message ls"
    using smtpd_reads_wire [OF assms(1), of next_command] assms(2) by auto
  obtain b err spf where sp: "spfreceived c w st = (b, err, spf)" by (cases "spfreceived c w st") auto
  obtain b' err' where p: "put_bytes b err (stored s) = (b', err')" by fastforce
  let ?many = "hops s \<ge> MAXHOPS"
  let ?qqx = "close_verdict (err' \<or> ?many \<or> \<not> qq_writes w) (qq_waited w) (qq_wstat w) (qq_errstr w)"
  let ?v = "st\<lparr>incoming := next_command, bytestooverflow := b',
    submitted := submitted st @ [(?qqx = [], hdrs @ spf @ stored s, ''F'' @ cstr (mailfrom st) @ [NUL] @ rcptto st @ [NUL])]\<rparr>"
  let ?u = "data_verdict c w qp ?many ?qqx ?v"
  have d: "data_receive c w qp hdrs st = Inr ?u" unfolding data_receive_def sp s(1) by (simp add: p Let_def)
  obtain answer where a: "replies ?u = replies st @ answer" "?qqx = [] \<or> hd ?qqx = CHR ''I'' \<or> reply_code answer \<ge> 400"
    using verdict_code [OF refl, of c w qp ?many ?qqx ?v] by auto
  have "reply_code answer < 400 \<longrightarrow> ?qqx = [] \<or> dropped_by_queue w"
    using a(2) verdict_drops unfolding dropped_by_queue_def by (metis leD)
  moreover have "incoming ?u = incoming ?v" "submitted ?u = submitted ?v"
    by (simp_all add: data_verdict_def acceptmessage_def err_size_def say_def)
  ultimately show ?thesis using d a(1) s(2)
    by (intro exI [of _ ?u] exI [of _ "?qqx = []"] exI [of _ spf] exI [of _ answer]) simp
qed

section \<open>The address\<close>

text \<open>The server's loop over what \<open>quote\<close> has written.\<close>

lemma addr_copy_doit:
  assumes "\<And>n. cmem c n" "NUL \<notin> set s"
  shows "addr_copy c term False True (doit_loop s @ DQ # r) acc = addr_copy c term False False r (acc @ s)"
  using assms(2) by (induction s arbitrary: acc) (auto simp: assms(1))

lemma addr_copy_plain:
  assumes "\<And>n. cmem c n" "\<forall>x \<in> set s. x \<notin> {NUL, term, BSL, DQ}"
  shows "addr_copy c term False False (s @ r) acc = addr_copy c term False False r (acc @ s)"
  using assms(2) by (induction s arbitrary: acc) (auto simp: assms(1))

lemma quote_plain:
  assumes "\<not> quote_need s" "x \<in> set s"
  shows "x \<notin> {NUL, CHR ''>'', CHR ''<'', BSL, DQ, LF, SP, CHR ''@''}"
proof -
  have "x = CHR ''.'' \<or> atom_char x" using assms quote_chars [of s x] by (auto simp: quote_need_def split: if_splits)
  moreover have "list_all (\<lambda>c. c \<noteq> CHR ''.'' \<and> \<not> atom_char c) [NUL, CHR ''>'', CHR ''<'', BSL, DQ, LF, SP, CHR ''@'']" by code_simp
  ultimately show ?thesis by (auto simp: list_all_iff)
qed

lemma addr_copy_quote:
  assumes "\<And>n. cmem c n" "NUL \<notin> set s" "quote mem sa s = (1, q)"
  shows "addr_copy c (CHR ''>'') False False (q @ r) acc = addr_copy c (CHR ''>'') False False r (acc @ s)"
proof (cases "quote_need s")
  case True
  then have "q = DQ # doit_loop s @ [DQ]" using assms(3) by (simp add: quote_def doit_def split: if_splits)
  then show ?thesis using addr_copy_doit [OF assms(1,2)] by simp
next
  case False
  then have "q = s" using assms(3) by (simp add: quote_def split: if_splits)
  then show ?thesis using addr_copy_plain [OF assms(1)] quote_plain [OF False] by simp
qed

lemma doit_loop_set: "x \<in> set (doit_loop s) \<Longrightarrow> x = BSL \<or> x \<in> set s"
  by (induction s) (auto split: if_splits)

lemma quote_set: "quote mem sa s = (1, q) \<Longrightarrow> x \<in> set q \<Longrightarrow> x \<in> {BSL, DQ} \<or> x \<in> set s"
  using doit_loop_set [of x s] by (auto simp: quote_def doit_def split: if_splits)

lemma quote_hd: "quote mem sa s = (1, q) \<Longrightarrow> q \<noteq> [] \<and> hd q \<noteq> CHR ''@''"
  using quote_plain [of s "hd s"] by (auto simp: quote_def doit_def quote_need_def split: if_splits)

definition plain_host :: "char list \<Rightarrow> bool" where
  "plain_host h \<longleftrightarrow> (\<forall>x \<in> set h. x \<notin> {NUL, LF, CHR ''@'', CHR ''>'', BSL, DQ}) \<and> char_at h 0 \<noteq> CHR ''[''"

lemma addrparse_reads:
  assumes "\<And>n. cmem c n" "NUL \<notin> set s" "quote mem sa s = (1, q)" "plain_host h"
    "CHR ''<'' \<notin> set p" "NUL \<notin> set p" "length s + length h < 899"
  shows "addrparse c (p @ ''<'' @ q @ ''@'' @ h @ ''>'' @ NUL # stale) st = Inr (True, st\<lparr>addr := s @ ''@'' @ h @ [NUL]\<rparr>)"
proof -
  let ?rest = "q @ ''@'' @ h @ ''>'' @ NUL # stale"
  have i: "str_chr (p @ ''<'' @ ?rest) (CHR ''<'') = length p" using str_chr_nohit [OF assms(5,6)] by simp
  have start: "addr_start (p @ ''<'' @ ?rest) = (?rest, CHR ''>'')"
    unfolding addr_start_def i Let_def by (simp add: char_at_append)
  have "char_at ?rest 0 \<noteq> CHR ''@''" using quote_hd [OF assms(3)] by (cases q) auto
  then have route: "strip_route ?rest = ?rest" by (simp add: strip_route_def)
  have "addr_copy c (CHR ''>'') False False ((''@'' @ h) @ ''>'' @ NUL # stale) s =
      addr_copy c (CHR ''>'') False False (''>'' @ NUL # stale) (s @ ''@'' @ h)"
    using assms(4) by (intro addr_copy_plain [OF assms(1)]) (auto simp: plain_host_def)
  then have copy: "addr_copy c (CHR ''>'') False False ?rest [] = Some (s @ ''@'' @ h)"
    using addr_copy_quote [OF assms(1-3), of "''@'' @ h @ ''>'' @ NUL # stale" "[]"] by simp
  have "byte_rchr (s @ ''@'' @ h @ [NUL]) (CHR ''@'') = length s"
    using assms(4) byte_rchr_append [of "CHR ''@''" "h @ [NUL]" s] by (auto simp: plain_host_def)
  moreover have "char_at (h @ [NUL]) 0 \<noteq> CHR ''[''" using assms(4) by (cases h) (auto simp: plain_host_def)
  ultimately have lip: "lip_replace c (s @ ''@'' @ h @ [NUL]) = s @ ''@'' @ h @ [NUL]"
    unfolding lip_replace_def Let_def by (simp add: char_at_append split: option.split)
  show ?thesis unfolding addrparse_def start Let_def prod.case route copy option.case
    using assms(1,7) lip by simp
qed

text \<open>A line of the client, as \<open>commands\<close> splits it.\<close>

lemma command_parts_verb:
  assumes "SP \<notin> set v" "NUL \<notin> set v" "char_at m 0 \<noteq> SP" "m \<noteq> []"
  shows "command_parts (v @ SP # m @ [CR]) stale = (v, m @ NUL # stale)"
proof -
  have "str_chr (v @ SP # m @ NUL # stale) SP = length v" using str_chr_nohit [OF assms(1,2)] by simp
  moreover have "dropWhile (\<lambda>ch. ch = SP) (SP # m @ NUL # stale) = m @ NUL # stale" using assms(3,4) by (cases m) auto
  ultimately show ?thesis by (simp add: command_parts_def Let_def butlast_append)
qed

lemma command_round_line:
  assumes "LF \<notin> set line" "\<forall>n. cmem c n" "command_parts line stale = (cmd, m)" "inp = line @ LF # rest"
  shows "command_round c w stale (st\<lparr>incoming := inp\<rparr>) = dispatch c w cmd m (st\<lparr>incoming := rest\<rparr>)"
proof -
  have "takeWhile (\<lambda>ch. ch \<noteq> LF) inp = line" "dropWhile (\<lambda>ch. ch \<noteq> LF) inp = LF # rest"
    using assms(1) unfolding assms(4) by (induction line) auto
  then show ?thesis using assms(2,3) by (simp add: command_round_def assms(4))
qed

section \<open>A delivery that succeeds\<close>

definition good_env :: remote_env where
  "good_env = no_quit_env\<lparr>net := \<lambda>_. True\<rparr>"

definition good_server :: "char list" where
  "good_server = friendly_server @ ''221 bye'' @ [CR, LF]"

definition good_reason :: "char list" where
  "good_reason = ''10.0.0.1 accepted message.'' @ [LF] @ ''Remote host said: 250 accepted'' @ [LF]"

lemma good_delivery:
  "case smtp good_env (new_client good_server) of Inr _ \<Rightarrow> False | Inl fin \<Rightarrow> report fin = items [''r'', ''K'' @ good_reason]"
  by code_simp

lemma good_mangle: "addrmangle (\<lambda>_. True) (\<lambda>_. (0, [])) (''a b'' @ ''@'' @ ''c.d'' @ [NUL]) False (new_client []) =
    Inr ([DQ] @ ''a b'' @ [DQ] @ ''@c.d'', False)"
  by code_simp

end
