(* ===== verification/Steady.thy ===== *)
theory Steady
  imports Substdio
begin

text \<open>
  Buffered output that does not fail: a writer that fails only when it is broken, and does not break by being used, makes every
  output routine succeed. This is the side of the contract \<open>writer\<close> that programs need to come to a good end.
\<close>

declare oneread.simps [code] allwrite.simps [code] substdio_bput.simps [code] put_direct.simps [code] substdio_copy.simps [code]

locale steady_writer = writer +
  fixes broken :: "'a \<Rightarrow> bool"
  assumes op_steady: "op w buf = (r, w') \<Longrightarrow> \<not> broken w \<Longrightarrow> \<not> broken w' \<and> r \<noteq> Wr_fail"
begin

lemma allwrite_steady: "allwrite op w buf = Some y \<Longrightarrow> \<not> broken w \<Longrightarrow> fst y \<and> \<not> broken (snd y)"
proof -
  have "o' = op \<longrightarrow> \<not> broken w \<longrightarrow> fst y \<and> \<not> broken (snd y)" if "allwrite o' w buf = Some y" for o' w buf y
  proof (rule allwrite.raw_induct [where P = "\<lambda>o' w buf y. o' = op \<longrightarrow> \<not> broken w \<longrightarrow> fst y \<and> \<not> broken (snd y)", OF _ that])
    fix self o' w buf y
    assume IH: "\<And>o' w buf y. self o' w buf = Some y \<Longrightarrow> o' = op \<longrightarrow> \<not> broken w \<longrightarrow> fst y \<and> \<not> broken (snd y)"
      and eq: "(if buf = [] then Some (True, w)
        else case o' w buf of (Wrote k, w') \<Rightarrow> self o' w' (drop k buf) | (Wr_intr, w') \<Rightarrow> self o' w' buf
             | (Wr_fail, w') \<Rightarrow> Some (False, w')) = Some y"
    show "o' = op \<longrightarrow> \<not> broken w \<longrightarrow> fst y \<and> \<not> broken (snd y)"
    proof (intro impI)
      assume "o' = op" "\<not> broken w"
      then show "fst y \<and> \<not> broken (snd y)"
        using eq IH op_steady [of w buf "fst (op w buf)" "snd (op w buf)"]
        by (cases "op w buf"; cases "fst (op w buf)") (auto split: if_splits)
    qed
  qed
  then show "allwrite op w buf = Some y \<Longrightarrow> \<not> broken w \<Longrightarrow> fst y \<and> \<not> broken (snd y)" by blast
qed

lemma flush_steady: "substdio_flush op s = Some y \<Longrightarrow> \<not> broken (sw s) \<Longrightarrow> fst y \<and> \<not> broken (sw (snd y))"
  by (auto simp: substdio_flush_def split: if_splits option.splits dest: allwrite_steady)

lemma bput_steady: "substdio_bput op s buf = Some y \<Longrightarrow> \<not> broken (sw s) \<Longrightarrow> fst y \<and> \<not> broken (sw (snd y))"
proof -
  have "o' = op \<longrightarrow> \<not> broken (sw s) \<longrightarrow> fst y \<and> \<not> broken (sw (snd y))" if "substdio_bput o' s buf = Some y" for o' s buf y
  proof (rule substdio_bput.raw_induct [where P = "\<lambda>o' s buf y. o' = op \<longrightarrow> \<not> broken (sw s) \<longrightarrow> fst y \<and> \<not> broken (sw (snd y))", OF _ that])
    fix self o' s buf y
    assume IH: "\<And>o' s buf y. self o' s buf = Some y \<Longrightarrow> o' = op \<longrightarrow> \<not> broken (sw s) \<longrightarrow> fst y \<and> \<not> broken (sw (snd y))"
      and eq: "(let n = sn s - sp s in if n < length buf
           then case substdio_flush o' (to_buffer s (take n buf)) of None \<Rightarrow> None
                | Some (ok, s') \<Rightarrow> if \<not> ok then Some (False, s') else self o' s' (drop n buf)
           else Some (True, to_buffer s buf)) = Some y"
    show "o' = op \<longrightarrow> \<not> broken (sw s) \<longrightarrow> fst y \<and> \<not> broken (sw (snd y))"
    proof (intro impI)
      assume o: "o' = op" and b: "\<not> broken (sw s)"
      have sb: "\<not> broken (sw (to_buffer s x))" for x using b by (simp add: to_buffer_def)
      show "fst y \<and> \<not> broken (sw (snd y))"
      proof (cases "substdio_flush op (to_buffer s (take (sn s - sp s) buf))")
        case None
        then show ?thesis using eq o sb by (auto simp: Let_def split: if_splits)
      next
        case (Some q)
        then have "fst q \<and> \<not> broken (sw (snd q))" using flush_steady sb by blast
        then show ?thesis using eq o sb Some IH [of op "snd q" "drop (sn s - sp s) buf" y]
          by (cases q) (auto simp: Let_def split: if_splits)
      qed
    qed
  qed
  then show "substdio_bput op s buf = Some y \<Longrightarrow> \<not> broken (sw s) \<Longrightarrow> fst y \<and> \<not> broken (sw (snd y))" by blast
qed

lemma put_direct_steady: "put_direct op n s buf = Some y \<Longrightarrow> \<not> broken (sw s) \<Longrightarrow> fst y \<and> \<not> broken (sw (snd y))"
proof -
  have "o' = op \<longrightarrow> \<not> broken (sw s) \<longrightarrow> fst y \<and> \<not> broken (sw (snd y))" if "put_direct o' n s buf = Some y" for o' n s buf y
  proof (rule put_direct.raw_induct [where P = "\<lambda>o' n s buf y. o' = op \<longrightarrow> \<not> broken (sw s) \<longrightarrow> fst y \<and> \<not> broken (sw (snd y))", OF _ that])
    fix self o' n s buf y
    assume IH: "\<And>o' n s buf y. self o' n s buf = Some y \<Longrightarrow> o' = op \<longrightarrow> \<not> broken (sw s) \<longrightarrow> fst y \<and> \<not> broken (sw (snd y))"
      and eq: "(if sn s < length buf
           then let n' = if length buf < n then length buf else n
                in case allwrite o' (sw s) (take n' buf) of None \<Rightarrow> None
                   | Some (ok, w') \<Rightarrow> if \<not> ok then Some (False, s\<lparr>sw := w'\<rparr>) else self o' n' (s\<lparr>sw := w'\<rparr>) (drop n' buf)
           else Some (True, to_buffer s buf)) = Some y"
    show "o' = op \<longrightarrow> \<not> broken (sw s) \<longrightarrow> fst y \<and> \<not> broken (sw (snd y))"
    proof (intro impI)
      assume o: "o' = op" and b: "\<not> broken (sw s)"
      let ?n = "if length buf < n then length buf else n"
      show "fst y \<and> \<not> broken (sw (snd y))"
      proof (cases "allwrite op (sw s) (take ?n buf)")
        case None
        then show ?thesis using eq o b by (auto simp: Let_def to_buffer_def split: if_split_asm)
      next
        case (Some q)
        then have "fst q \<and> \<not> broken (snd q)" using allwrite_steady b by blast
        then show ?thesis using eq o b Some IH [of op ?n "s\<lparr>sw := snd q\<rparr>" "drop ?n buf" y]
          by (cases q) (auto simp: Let_def to_buffer_def split: if_split_asm)
      qed
    qed
  qed
  then show "put_direct op n s buf = Some y \<Longrightarrow> \<not> broken (sw s) \<Longrightarrow> fst y \<and> \<not> broken (sw (snd y))" by blast
qed

lemma put_steady: "substdio_put op s buf = Some y \<Longrightarrow> \<not> broken (sw s) \<Longrightarrow> fst y \<and> \<not> broken (sw (snd y))"
proof -
  assume eq: "substdio_put op s buf = Some y" and b: "\<not> broken (sw s)"
  show "fst y \<and> \<not> broken (sw (snd y))"
  proof (cases "substdio_flush op s")
    case None
    then show ?thesis using eq b by (auto simp: substdio_put_def Let_def to_buffer_def split: if_split_asm)
  next
    case (Some q)
    then have q: "fst q \<and> \<not> broken (sw (snd q))" using flush_steady b by blast
    then show ?thesis using eq b Some put_direct_steady [of _ "snd q" buf y]
      by (cases q) (auto simp: substdio_put_def Let_def to_buffer_def split: if_split_asm)
  qed
qed

lemma copy_steady:
  "substdio_copy op rop so si = Some y \<Longrightarrow> \<not> broken (sw so) \<Longrightarrow> fst y \<noteq> (- 3 :: int) \<and> \<not> broken (sw (fst (snd y)))"
proof -
  have "o' = op \<longrightarrow> \<not> broken (sw so) \<longrightarrow> fst y \<noteq> (- 3 :: int) \<and> \<not> broken (sw (fst (snd y)))"
    if "substdio_copy o' r so si = Some y" for o' and r :: "'c \<Rightarrow> nat \<Rightarrow> rd \<times> 'c" and so si y
  proof (rule substdio_copy.raw_induct
      [where P = "\<lambda>o' r so si y. o' = op \<longrightarrow> \<not> broken (sw so) \<longrightarrow> fst y \<noteq> (- 3 :: int) \<and> \<not> broken (sw (fst (snd y)))", OF _ that])
    fix self o' and r :: "'c \<Rightarrow> nat \<Rightarrow> rd \<times> 'c" and so si y
    assume IH: "\<And>o' r so si y. self o' r so si = Some y \<Longrightarrow>
        o' = op \<longrightarrow> \<not> broken (sw so) \<longrightarrow> fst y \<noteq> (- 3 :: int) \<and> \<not> broken (sw (fst (snd y)))"
      and eq: "(case substdio_feed r si of None \<Rightarrow> None
         | Some (n, si') \<Rightarrow> if n < 0 then Some (- 2, so, si') else if n = 0 then Some (0, so, si')
           else case substdio_put o' so (take (nat n) (substdio_peek si')) of None \<Rightarrow> None
             | Some (ok, so') \<Rightarrow> if \<not> ok then Some (- 3, so', si') else self o' r so' (substdio_seek si' (nat n))) = Some y"
    show "o' = op \<longrightarrow> \<not> broken (sw so) \<longrightarrow> fst y \<noteq> (- 3 :: int) \<and> \<not> broken (sw (fst (snd y)))"
    proof (intro impI)
      assume o: "o' = op" and b: "\<not> broken (sw so)"
      obtain n si' where f: "substdio_feed r si = Some (n, si')" using eq by (cases "substdio_feed r si") auto
      show "fst y \<noteq> (- 3 :: int) \<and> \<not> broken (sw (fst (snd y)))"
      proof (cases "n > 0")
        case False
        then show ?thesis using eq f b by (auto split: if_split_asm)
      next
        case True
        obtain q where q: "substdio_put op so (take (nat n) (substdio_peek si')) = Some q"
          using eq f True o by (cases "substdio_put op so (take (nat n) (substdio_peek si'))") auto
        then have "fst q \<and> \<not> broken (sw (snd q))" using put_steady b by blast
        then show ?thesis using eq f True o q IH [of op r "snd q" "substdio_seek si' (nat n)" y] by (cases q) auto
      qed
    qed
  qed
  then show "substdio_copy op rop so si = Some y \<Longrightarrow> \<not> broken (sw so) \<Longrightarrow> fst y \<noteq> (- 3 :: int) \<and> \<not> broken (sw (fst (snd y)))" by blast
qed

end

interpretation fds: steady_writer fd_write snd "\<lambda>w. length (fst w)" "\<lambda>w. Out_fail \<in> set (fst w)"
  by unfold_locales (auto simp: fd_write_def Let_def split: list.splits fdout.splits)

end
