(* ===== verification/Queue.thy ===== *)
theory Queue
  imports Steady Numtext Datetime Outcome
begin

text \<open>
  The program that puts a message into the queue, \<open>qmail-queue.c\<close>.

  The queue's files of one message are the record \<open>qdir\<close>: which of the links \<open>pid/...\<close>, \<open>mess/...\<close>, \<open>intd/...\<close> and \<open>todo/...\<close>
  there are, and for the two files what has been written and whether it has been forced to the disk; \<open>todo\<close> is a second link to the
  file \<open>intd\<close>. The process \<open>qproc\<close> keeps all states of the directory that there have been, since the machine may stop at any time.
  Which system calls fail is in the \<open>qenv\<close>, with what the kernel makes of reads and writes; the streams are those of \<open>Substdio\<close>.
  Signals and the failure of the allocations in \<open>tapcheck\<close>, whose results are not looked at, are left out.
\<close>

section \<open>State\<close>

record qdir =
  pidlink :: bool
  messlink :: bool
  intdlink :: bool
  todolink :: bool
  messdata :: "char list"
  messsync :: bool
  intddata :: "char list"
  intdsync :: bool

datatype call = Chdir_qmail | Read_taps | Map_taps | Chdir_queue | Alloc_received | Alloc_pidfn | Fstat_mess | Alloc_messfn | Alloc_todofn
  | Alloc_intdfn | Link_mess | Unlink_pid | Fsync_mess | Excl_intd | Fsync_intd | Link_todo | Trunc_intd | Unlink_intd | Trunc_mess | Unlink_mess

record qenv =
  fails :: "call \<Rightarrow> bool"
  pid_taken :: "nat \<Rightarrow> bool"
  mypid :: nat
  uid :: nat
  auto_uida :: nat
  auto_uidd :: nat
  auto_uids :: nat
  starttime :: int
  localtime :: "int \<Rightarrow> datetime"
  in0 :: "fdin list"
  in1 :: "fdin list"
  mess_script :: "fdout list"
  intd_script :: "fdout list"
  taps :: "char list"
  behind_taps :: "char list"
  tapmatch :: "char list \<Rightarrow> char list \<Rightarrow> int"

record qproc =
  dir :: qdir
  trail :: "qdir list"
  flagmademess :: bool
  flagmadeintd :: bool
  ssin :: "fdin list substdio"
  ssout :: "(fdout list \<times> char list) substdio"
  chkaddr :: "char list"
  tapped :: bool

type_synonym 'a qrun = "qend \<times> qproc + 'a"

definition set_dir :: "(qdir \<Rightarrow> qdir) \<Rightarrow> qproc \<Rightarrow> qproc" where
  "set_dir f st = st\<lparr>dir := f (dir st), trail := trail st @ [dir st]\<rparr>"

section \<open>Ends\<close>

definition die :: "nat \<Rightarrow> qproc \<Rightarrow> 'a qrun" where
  "die e st = Inl (Exit e, st)"

definition cleanup_mess :: "qenv \<Rightarrow> qproc \<Rightarrow> qproc" where
  "cleanup_mess env st =
     (if flagmademess st
      then let st = (if fails env Trunc_mess then st else set_dir (\<lambda>d. d\<lparr>messdata := [], messsync := False\<rparr>) st)
           in if fails env Unlink_mess then st else set_dir (\<lambda>d. d\<lparr>messlink := False\<rparr>) st
      else st)"

definition cleanup :: "qenv \<Rightarrow> qproc \<Rightarrow> qproc" where
  "cleanup env st =
     (if flagmadeintd st
      then let st = (if fails env Trunc_intd then st else set_dir (\<lambda>d. d\<lparr>intddata := [], intdsync := False\<rparr>) st)
           in if fails env Unlink_intd then st else cleanup_mess env (set_dir (\<lambda>d. d\<lparr>intdlink := False\<rparr>) st)
      else cleanup_mess env st)"

definition die_write :: "qenv \<Rightarrow> qproc \<Rightarrow> 'a qrun" where "die_write env st = die 53 (cleanup env st)"

definition die_read :: "qenv \<Rightarrow> qproc \<Rightarrow> 'a qrun" where "die_read env st = die 54 (cleanup env st)"

section \<open>Texts\<close>

definition receivedfmt :: "qenv \<Rightarrow> char list" where
  "receivedfmt env =
     ''Received: (qmail '' @ fmt_ulong (mypid env) @ '' invoked '' @
     (if uid env = auto_uida env then ''by alias''
      else if uid env = auto_uidd env then ''from network''
      else if uid env = auto_uids env then ''for bounce''
      else ''by uid '' @ fmt_ulong (uid env)) @
     ''); '' @ date822fmt (localtime env) (datetime_tai (starttime env))"

definition pidfmt :: "qenv \<Rightarrow> nat \<Rightarrow> char list" where
  "pidfmt env seq = ''pid/'' @ fmt_ulong (mypid env) @ ''.'' @ fmt_ulong (unat (of_int (starttime env) :: ulong)) @ ''.'' @ fmt_ulong seq @ [NUL]"

text \<open>\<open>for (seq = 1;seq < 10;++seq)\<close>; the name of the first fits as long as the others.\<close>

fun pid_loop :: "qenv \<Rightarrow> nat list \<Rightarrow> qproc \<Rightarrow> qproc qrun" where
  "pid_loop env [] st = die 63 st"
| "pid_loop env (seq # seqs) st =
     (if length (pidfmt env seq) > length (pidfmt env 1) then die 81 st
      else if pid_taken env seq then pid_loop env seqs st
      else Inr (set_dir (\<lambda>d. d\<lparr>pidlink := True\<rparr>) st))"

definition pidopen :: "qenv \<Rightarrow> qproc \<Rightarrow> qproc qrun" where
  "pidopen env st = (if fails env Alloc_pidfn then die 51 st else pid_loop env [1..<10] st)"

text \<open>
  \<open>tapcheck\<close>: each line of \<open>control/taps\<close> is a pattern, a colon and an address. A pattern is searched up to the next colon, even behind
  the end of its line; \<open>slack\<close> is what stands in memory behind the last line.
\<close>

function tap_loop :: "(char list \<Rightarrow> char list \<Rightarrow> int) \<Rightarrow> char list \<Rightarrow> char list \<Rightarrow> char list \<Rightarrow> char list option" where
  "tap_loop mr chk slack tap =
     (if tap = [] then None
      else let pat = takeWhile (\<lambda>c. c \<noteq> CHR '':'') tap; rest = dropWhile (\<lambda>c. c \<noteq> CHR '':'') tap;
               negate = (hd tap = CHR ''!'');
               tapaddr = cstr (drop 1 (rest @ slack));
               x = mr (cstr chk) (cstr (if negate then tl pat else pat))
           in if negate \<and> x = 0 then Some tapaddr
              else if \<not> negate \<and> x > 0 then Some tapaddr
              else tap_loop mr chk slack (drop 1 (dropWhile (\<lambda>c. c \<noteq> NUL) rest)))"
  by pat_completeness auto
termination
proof (relation "measure (\<lambda>(mr, chk, slack, tap). length tap)", simp)
  fix mr :: "char list \<Rightarrow> char list \<Rightarrow> int" and chk slack tap pat rest :: "char list" and x xa xb
  assume *: "tap \<noteq> []" "rest = dropWhile (\<lambda>c. c \<noteq> CHR '':'') tap"
  have "length (drop 1 (dropWhile (\<lambda>c. c \<noteq> NUL) rest)) \<le> length rest - 1" using length_dropWhile_le [of "\<lambda>c. c \<noteq> NUL" rest] by simp
  moreover have "length rest \<le> length tap" using length_dropWhile_le *(2) by simp
  ultimately have "length (drop 1 (dropWhile (\<lambda>c. c \<noteq> NUL) rest)) < length tap" using *(1) by (cases tap) auto
  then show "((mr, chk, slack, drop 1 (dropWhile (\<lambda>c. c \<noteq> NUL) rest)), mr, chk, slack, tap) \<in> measure (\<lambda>(mr, chk, slack, tap). length tap)"
    by simp
qed

declare tap_loop.simps [simp del]

definition tapcheck :: "qenv \<Rightarrow> char list \<Rightarrow> char list option" where
  "tapcheck env chk = tap_loop (tapmatch env) chk (behind_taps env) (taps env)"

section \<open>Output and input of the process\<close>

datatype qfile = Mess | Intd

text \<open>What has been written through \<open>ssout\<close> so far is what the file holds.\<close>

definition noted :: "qfile \<Rightarrow> (fdout list \<times> char list) substdio \<Rightarrow> qproc \<Rightarrow> qproc" where
  "noted f ss st =
     (case f of
        Mess \<Rightarrow> set_dir (\<lambda>d. d\<lparr>messdata := snd (sw ss), messsync := False\<rparr>) (st\<lparr>ssout := ss\<rparr>)
      | Intd \<Rightarrow> set_dir (\<lambda>d. d\<lparr>intddata := snd (sw ss), intdsync := False\<rparr>) (st\<lparr>ssout := ss\<rparr>))"

definition wrote :: "qenv \<Rightarrow> qfile \<Rightarrow> (bool \<times> (fdout list \<times> char list) substdio) option \<Rightarrow> qproc \<Rightarrow> qproc qrun" where
  "wrote env f res st =
     (case res of None \<Rightarrow> Inl (Hang, st)
      | Some (ok, ss) \<Rightarrow> (if ok then Inr (noted f ss st) else die_write env (noted f ss st)))"

definition bput :: "qenv \<Rightarrow> qfile \<Rightarrow> char list \<Rightarrow> qproc \<Rightarrow> qproc qrun" where
  "bput env f s st = wrote env f (substdio_bput fd_write (ssout st) s) st"

fun bputs :: "qenv \<Rightarrow> qfile \<Rightarrow> char list list \<Rightarrow> qproc \<Rightarrow> qproc qrun" where
  "bputs env f [] st = Inr st"
| "bputs env f (s # ss) st = andthen (bput env f s st) (bputs env f ss)"

definition put :: "qenv \<Rightarrow> qfile \<Rightarrow> char list \<Rightarrow> qproc \<Rightarrow> qproc qrun" where
  "put env f s st = wrote env f (substdio_put fd_write (ssout st) s) st"

definition flush :: "qenv \<Rightarrow> qfile \<Rightarrow> qproc \<Rightarrow> qproc qrun" where
  "flush env f st = wrote env f (substdio_flush fd_write (ssout st)) st"

definition get_char :: "qenv \<Rightarrow> qproc \<Rightarrow> (char \<times> qproc) qrun" where
  "get_char env st =
     (case substdio_get fd_read (ssin st) 1 of
        None \<Rightarrow> Inl (Hang, st)
      | Some (Got (ch # _), ss) \<Rightarrow> Inr (ch, st\<lparr>ssin := ss\<rparr>)
      | Some (_, ss) \<Rightarrow> die_read env (st\<lparr>ssin := ss\<rparr>))"

section \<open>The message\<close>

definition copy_message :: "qenv \<Rightarrow> qproc \<Rightarrow> qproc qrun" where
  "copy_message env st =
     andthen (bput env Mess (receivedfmt env) st) (\<lambda>st.
     andthen (case substdio_copy fd_write fd_read (ssout st) (ssin st) of
                None \<Rightarrow> Inl (Hang, st)
              | Some (r, so, si) \<Rightarrow>
                  (let st = noted Mess so (st\<lparr>ssin := si\<rparr>)
                   in if r = - 2 then die_read env st else if r = - 3 then die_write env st else Inr st)) (\<lambda>st.
     andthen (flush env Mess st) (\<lambda>st.
       if fails env Fsync_mess then die_write env st else Inr (set_dir (\<lambda>d. d\<lparr>messsync := True\<rparr>) st))))"

section \<open>The envelope\<close>

definition ADDR :: nat where "ADDR = 1003"

text \<open>
  The loop over the bytes of an address, from \<open>len\<close> on; \<open>ch\<close> is the byte read before. The result is the value of \<open>len\<close> at the end.
  \<open>puts\<close> is \<open>substdio_put\<close> or \<open>substdio_bput\<close>.
\<close>

fun address :: "qenv \<Rightarrow> (char list \<Rightarrow> qproc \<Rightarrow> qproc qrun) \<Rightarrow> char \<Rightarrow> nat \<Rightarrow> nat \<Rightarrow> qproc \<Rightarrow> (nat \<times> qproc) qrun" where
  "address env puts ch len 0 st = Inr (len, st)"
| "address env puts ch len (Suc k) st =
     (let st = st\<lparr>chkaddr := (if len = 1 then [ch] else if len > 1 then chkaddr st @ [ch] else chkaddr st)\<rparr>
      in andthen (get_char env st) (\<lambda>(ch, st).
         andthen (puts [ch] st) (\<lambda>st.
           if ch = NUL then Inr (len, st) else address env puts ch (len + 1) k st)))"

definition tap :: "qenv \<Rightarrow> qproc \<Rightarrow> qproc qrun" where
  "tap env st =
     (let st = st\<lparr>chkaddr := chkaddr st @ [NUL]\<rparr>
      in if tapped st then Inr st
         else case tapcheck env (chkaddr st) of
                None \<Rightarrow> Inr st
              | Some tapaddr \<Rightarrow>
                  (let st = st\<lparr>tapped := True\<rparr>
                   in if tapaddr = [] then Inr st
                      else bputs env Intd [''T'', tapaddr, [NUL]] st))"

text \<open>The loop over the recipients; the fuel is the length of the input.\<close>

fun recipients :: "qenv \<Rightarrow> nat \<Rightarrow> qproc \<Rightarrow> qproc qrun" where
  "recipients env 0 st = Inl (Hang, st)"
| "recipients env (Suc k) st =
     andthen (get_char env st) (\<lambda>(ch, st).
       if ch = NUL then Inr st
       else if ch \<noteq> CHR ''T'' then die 91 st
       else andthen (bput env Intd [ch] st) (\<lambda>st.
            andthen (address env (bput env Intd) ch 0 ADDR st) (\<lambda>(len, st).
            andthen (tap env st) (\<lambda>st.
              if len \<ge> ADDR then die 11 st else recipients env k st))))"

definition sender :: "qenv \<Rightarrow> qproc \<Rightarrow> qproc qrun" where
  "sender env st =
     andthen (get_char env st) (\<lambda>(ch, st).
       if ch \<noteq> CHR ''F'' then die 91 st
       else andthen (bput env Intd [ch] st) (\<lambda>st.
            andthen (address env (put env Intd) ch 0 ADDR (st\<lparr>chkaddr := chkaddr st @ [NUL]\<rparr>)) (\<lambda>(len, st).
              if len \<ge> ADDR then die 11 st else tap env st)))"

definition copy_envelope :: "qenv \<Rightarrow> qproc \<Rightarrow> qproc qrun" where
  "copy_envelope env st =
     andthen (bputs env Intd [''u'', fmt_ulong (uid env), [NUL], ''p'', fmt_ulong (mypid env), [NUL]] st) (\<lambda>st.
     andthen (sender env st) (\<lambda>st.
     andthen (recipients env (length (in_stream fd_left (ssin st)) + 1) st) (\<lambda>st.
     andthen (flush env Intd st) (\<lambda>st.
       if fails env Fsync_intd then die_write env st else Inr (set_dir (\<lambda>d. d\<lparr>intdsync := True\<rparr>) st)))))"

section \<open>The program\<close>

text \<open>What is left in the buffers from the message does not matter: no byte of it is read before it is overwritten.\<close>

definition inbuf :: "char list" where "inbuf = replicate 2048 NUL"

definition outbuf :: "char list" where "outbuf = replicate 256 NUL"

definition start :: qproc where
  "start = \<lparr>dir = \<lparr>pidlink = False, messlink = False, intdlink = False, todolink = False, messdata = [], messsync = False,
     intddata = [], intdsync = False\<rparr>, trail = [], flagmademess = False, flagmadeintd = False,
     ssin = substdio_fdbuf [] inbuf, ssout = substdio_fdbuf ([], []) outbuf, chkaddr = [], tapped = False\<rparr>"

definition make_mess :: "qenv \<Rightarrow> qproc \<Rightarrow> qproc qrun" where
  "make_mess env st =
     andthen (pidopen env st) (\<lambda>st.
       if fails env Fstat_mess then die 63 st
       else if fails env Alloc_messfn \<or> fails env Alloc_todofn \<or> fails env Alloc_intdfn then die 51 st
       else if fails env Link_mess then die 64 st
       else let st = set_dir (\<lambda>d. d\<lparr>messlink := True\<rparr>) st
            in if fails env Unlink_pid then die 63 st
               else Inr ((set_dir (\<lambda>d. d\<lparr>pidlink := False\<rparr>) st)\<lparr>flagmademess := True,
                      ssout := substdio_fdbuf (mess_script env, []) outbuf, ssin := substdio_fdbuf (in0 env) inbuf\<rparr>))"

definition make_intd :: "qenv \<Rightarrow> qproc \<Rightarrow> qproc qrun" where
  "make_intd env st =
     (if fails env Excl_intd then die 65 st
      else Inr ((set_dir (\<lambda>d. d\<lparr>intdlink := True, intddata := [], intdsync := False\<rparr>) st)\<lparr>flagmadeintd := True,
             ssout := substdio_fdbuf (intd_script env, []) outbuf, ssin := substdio_fdbuf (in1 env) inbuf\<rparr>))"

definition qmail_queue :: "qenv \<Rightarrow> qend \<times> qproc" where
  "qmail_queue env =
     (let r =
        (if fails env Chdir_qmail then die 61 start
         else if fails env Read_taps \<or> fails env Map_taps then die 65 start
         else if fails env Chdir_queue then die 62 start
         else if fails env Alloc_received then die 51 start
         else andthen (make_mess env start) (\<lambda>st.
              andthen (copy_message env st) (\<lambda>st.
              andthen (make_intd env st) (\<lambda>st.
              andthen (copy_envelope env st) (\<lambda>st.
                if fails env Link_todo then die 66 st
                else (die 0 (set_dir (\<lambda>d. d\<lparr>todolink := True\<rparr>) st) :: qproc qrun))))))
      in case r of Inl e \<Rightarrow> e | Inr st \<Rightarrow> (Hang, st))"

section \<open>Nothing is queued before the end\<close>

definition unqueued :: "qproc \<Rightarrow> bool" where
  "unqueued st \<longleftrightarrow> (\<forall>d \<in> insert (dir st) (set (trail st)). \<not> todolink d)"

definition gave_up :: "qend \<times> qproc \<Rightarrow> bool" where
  "gave_up fin \<longleftrightarrow> unqueued (snd fin) \<and> (\<exists>e. fst fin = Exit e \<and> e \<noteq> 0)"

abbreviation leaves :: "('a \<Rightarrow> bool) \<Rightarrow> 'a qrun \<Rightarrow> bool" where
  "leaves P r \<equiv> ends gave_up P r"

lemma unqueued_updates [simp]:
  "unqueued (st\<lparr>ssin := si\<rparr>) = unqueued st" "unqueued (st\<lparr>ssout := so\<rparr>) = unqueued st"
  "unqueued (st\<lparr>chkaddr := xs\<rparr>) = unqueued st" "unqueued (st\<lparr>tapped := b\<rparr>) = unqueued st"
  "unqueued (st\<lparr>flagmademess := b\<rparr>) = unqueued st" "unqueued (st\<lparr>flagmadeintd := b\<rparr>) = unqueued st"
  by (simp_all add: unqueued_def)

lemma unqueued_set_dir: "unqueued st \<Longrightarrow> (\<And>d. todolink (f d) = todolink d) \<Longrightarrow> unqueued (set_dir f st)"
  by (auto simp: unqueued_def set_dir_def)

lemma unqueued_cleanup: "unqueued st \<Longrightarrow> unqueued (cleanup env st)"
  by (auto simp: cleanup_def cleanup_mess_def Let_def intro!: unqueued_set_dir)

lemma gave_up_die [simp]: "unqueued st \<Longrightarrow> e \<noteq> 0 \<Longrightarrow> ends gave_up P (die e st)"
  by (simp add: die_def gave_up_def)

lemma gave_up_die_write [simp]: "unqueued st \<Longrightarrow> ends gave_up P (die_write env st)"
  by (simp add: die_write_def unqueued_cleanup)

lemma gave_up_die_read [simp]: "unqueued st \<Longrightarrow> ends gave_up P (die_read env st)"
  by (simp add: die_read_def unqueued_cleanup)

section \<open>Streams\<close>

abbreviation inp :: "qproc \<Rightarrow> char list" where
  "inp st \<equiv> in_stream fd_left (ssin st)"

abbreviation outp :: "qproc \<Rightarrow> char list" where
  "outp st \<equiv> out_sent snd (ssout st)"

definition ready :: "qproc \<Rightarrow> bool" where
  "ready st \<longleftrightarrow> unqueued st \<and> in_inv (ssin st) \<and> out_inv (ssout st)"

text \<open>A step that has read \<open>i\<close> and put \<open>s\<close>, through to the file \<open>f\<close>; the message of an envelope stays as it is.\<close>

definition moved :: "qfile \<Rightarrow> char list \<Rightarrow> char list \<Rightarrow> qproc \<Rightarrow> qproc \<Rightarrow> bool" where
  "moved f i s st st' \<longleftrightarrow> ready st' \<and> inp st = i @ inp st' \<and> outp st' = outp st @ s \<and>
     (f = Intd \<longrightarrow> (messlink (dir st'), messsync (dir st'), messdata (dir st'), intdlink (dir st')) =
        (messlink (dir st), messsync (dir st), messdata (dir st), intdlink (dir st))) \<and>
     (f = Mess \<longrightarrow> messlink (dir st') = messlink (dir st))"

lemma moved_trans: "moved f i s st st' \<Longrightarrow> moved f j u st' st'' \<Longrightarrow> moved f (i @ j) (s @ u) st st''"
  by (auto simp: moved_def)

lemma moved_refl: "ready st \<Longrightarrow> moved f [] [] st st"
  by (simp add: moved_def)

lemma noted_unqueued: "unqueued st \<Longrightarrow> unqueued (noted f ss st)"
  by (cases f) (auto simp: noted_def intro!: unqueued_set_dir)

lemma wrote_moved:
  assumes "ready st" "fdw.puts_all s (ssout st) res"
  shows "leaves (\<lambda>st'. moved f [] s st st' \<and> chkaddr st' = chkaddr st \<and> tapped st' = tapped st) (wrote env f res st)"
  using assms(2)
proof (cases rule: fdw.puts_all_cases)
  case (1 s')
  then show ?thesis using assms(1) noted_unqueued [of st f s']
    by (cases f) (simp_all add: wrote_def moved_def ready_def noted_def set_dir_def)
next
  case (2 s' k)
  then show ?thesis using assms(1) noted_unqueued [of st f s'] by (simp add: wrote_def ready_def)
qed

lemma bput_moved: "ready st \<Longrightarrow>
    leaves (\<lambda>st'. moved f [] s st st' \<and> chkaddr st' = chkaddr st \<and> tapped st' = tapped st) (bput env f s st)"
  unfolding bput_def by (rule wrote_moved) (simp_all add: ready_def fdw.bput_puts)

lemma put_moved: "ready st \<Longrightarrow>
    leaves (\<lambda>st'. moved f [] s st st' \<and> chkaddr st' = chkaddr st \<and> tapped st' = tapped st) (put env f s st)"
  unfolding put_def by (rule wrote_moved) (simp_all add: ready_def fdw.put_puts)

lemma get_char_moved:
  assumes "ready st"
  shows "leaves (\<lambda>(ch, st'). moved f [ch] [] st st' \<and> chkaddr st' = chkaddr st \<and> tapped st' = tapped st) (get_char env st)"
proof -
  have "in_inv (ssin st)" "0 < (1::nat)" using assms by (simp_all add: ready_def)
  then show ?thesis
  proof (cases rule: fdr.get_outcome)
    case (1 bs s')
    show ?thesis
    proof (cases bs)
      case Nil
      then show ?thesis using 1 assms by (simp add: get_char_def ready_def)
    next
      case (Cons c bs')
      then have "bs = [c]" using 1(4) by simp
      then show ?thesis using 1 assms by (simp add: get_char_def moved_def ready_def)
    qed
  next
    case (2 s')
    then show ?thesis using assms by (simp add: get_char_def ready_def)
  qed
qed

section \<open>The envelope that is written\<close>

definition chk_after :: "char list \<Rightarrow> char list \<Rightarrow> char list" where
  "chk_after chk r = (if r = [] then chk else r) @ [NUL]"

definition tap_spec :: "qenv \<Rightarrow> bool \<Rightarrow> char list \<Rightarrow> char list \<times> bool" where
  "tap_spec env done chk =
     (if done then ([], True)
      else case tapcheck env chk of None \<Rightarrow> ([], False) | Some a \<Rightarrow> (if a = [] then [] else ''T'' @ a @ [NUL], True))"

fun recips_text :: "qenv \<Rightarrow> bool \<Rightarrow> char list \<Rightarrow> char list list \<Rightarrow> char list" where
  "recips_text env done chk [] = []"
| "recips_text env done chk (r # rs) =
     (let chk = chk_after chk r; (t, done) = tap_spec env done chk in ''T'' @ r @ [NUL] @ t @ recips_text env done chk rs)"

definition todo_text :: "qenv \<Rightarrow> char list \<Rightarrow> char list list \<Rightarrow> char list" where
  "todo_text env f rs =
     ''u'' @ fmt_ulong (uid env) @ [NUL] @ ''p'' @ fmt_ulong (mypid env) @ [NUL] @ ''F'' @ f @ [NUL] @
     (let chk = chk_after [NUL] f; (t, done) = tap_spec env False chk in t @ recips_text env done chk rs)"

definition address_ok :: "char list \<Rightarrow> bool" where
  "address_ok r \<longleftrightarrow> NUL \<notin> set r \<and> length r < ADDR"

definition chk_end :: "char list \<Rightarrow> nat \<Rightarrow> char \<Rightarrow> char list \<Rightarrow> char list" where
  "chk_end chk len ch r = (if len = 0 then (if r = [] then chk else r) else if len = 1 then ch # r else chk @ ch # r)"

definition puts_to_intd :: "(char list \<Rightarrow> qproc \<Rightarrow> qproc qrun) \<Rightarrow> bool" where
  "puts_to_intd puts \<longleftrightarrow> (\<forall>s st. ready st \<longrightarrow>
     leaves (\<lambda>st'. moved Intd [] s st st' \<and> chkaddr st' = chkaddr st \<and> tapped st' = tapped st) (puts s st))"

lemma puts_to_intd: "puts_to_intd (put env Intd)" "puts_to_intd (bput env Intd)"
  by (simp_all add: puts_to_intd_def put_moved bput_moved)

lemma ready_chkaddr [simp]: "ready (st\<lparr>chkaddr := xs\<rparr>) = ready st" "ready (st\<lparr>tapped := b\<rparr>) = ready st"
  by (simp_all add: ready_def)

lemma moved_chkaddr [simp]: "moved f i s (st\<lparr>chkaddr := xs\<rparr>) st' = moved f i s st st'"
  "moved f i s st (st'\<lparr>chkaddr := xs\<rparr>) = moved f i s st st'"
  by (simp_all add: moved_def)

definition address_post :: "nat \<Rightarrow> nat \<Rightarrow> char \<Rightarrow> qproc \<Rightarrow> nat \<times> qproc \<Rightarrow> bool" where
  "address_post len k ch st a \<longleftrightarrow> ready (snd a) \<and> tapped (snd a) = tapped st \<and> (fst a < len + k \<longrightarrow>
     (\<exists>r. NUL \<notin> set r \<and> fst a = len + length r \<and> moved Intd (r @ [NUL]) (r @ [NUL]) st (snd a) \<and>
       chkaddr (snd a) = chk_end (chkaddr st) len ch r))"

lemma address_post_step:
  assumes v: "moved Intd [c] [c] st v" "tapped v = tapped st"
      "chkaddr v = (if len = 1 then [ch] else if len > 1 then chkaddr st @ [ch] else chkaddr st)"
    and "c \<noteq> NUL" "address_post (len + 1) k c v a"
  shows "address_post len (Suc k) ch st a"
  unfolding address_post_def
proof (intro conjI impI)
  show "ready (snd a)" "tapped (snd a) = tapped st" using assms by (simp_all add: address_post_def)
  assume "fst a < len + Suc k"
  then obtain r where r: "NUL \<notin> set r" "fst a = len + 1 + length r" "moved Intd (r @ [NUL]) (r @ [NUL]) v (snd a)"
    "chkaddr (snd a) = chk_end (chkaddr v) (len + 1) c r" using assms(5) by (auto simp: address_post_def)
  have "moved Intd ((c # r) @ [NUL]) ((c # r) @ [NUL]) st (snd a)" using moved_trans [of Intd "[c]" "[c]" st v] v r(3) by simp
  moreover have "chkaddr (snd a) = chk_end (chkaddr st) len ch (c # r)" using r(4) v by (auto simp: chk_end_def)
  ultimately show "\<exists>r. NUL \<notin> set r \<and> fst a = len + length r \<and> moved Intd (r @ [NUL]) (r @ [NUL]) st (snd a) \<and>
      chkaddr (snd a) = chk_end (chkaddr st) len ch r"
    using r(1,2) assms(4) by (intro exI [of _ "c # r"]) auto
qed

lemma address_moved:
  assumes "puts_to_intd puts" "ready st"
  shows "leaves (address_post len k ch st) (address env puts ch len k st)"
  using assms(2)
proof (induction k arbitrary: ch len st)
  case 0
  then show ?case by (simp add: address_post_def)
next
  case (Suc k)
  let ?chk = "if len = 1 then [ch] else if len > 1 then chkaddr st @ [ch] else chkaddr st"
  let ?st = "st\<lparr>chkaddr := ?chk\<rparr>"
  have "leaves (address_post len (Suc k) ch st)
      (andthen (puts [c] u) (\<lambda>st. if c = NUL then Inr (len, st) else address env puts c (len + 1) k st))"
    if u: "moved Intd [c] [] st u" "chkaddr u = ?chk" "tapped u = tapped st" for c u
  proof (rule ends_andthen)
    have "ready u" using u by (simp add: moved_def)
    then show "leaves (\<lambda>v. moved Intd [] [c] u v \<and> chkaddr v = chkaddr u \<and> tapped v = tapped u) (puts [c] u)"
      using assms(1) by (simp add: puts_to_intd_def)
  next
    fix v assume "moved Intd [] [c] u v \<and> chkaddr v = chkaddr u \<and> tapped v = tapped u"
    then have v: "moved Intd [c] [c] st v" "chkaddr v = ?chk" "tapped v = tapped st"
      using moved_trans [OF u(1), of "[]" "[c]" v] u by simp_all
    then have rv: "ready v" by (simp add: moved_def)
    show "leaves (address_post len (Suc k) ch st) (if c = NUL then Inr (len, v) else address env puts c (len + 1) k v)"
    proof (cases "c = NUL")
      case True
      then show ?thesis using v rv by (auto simp: address_post_def chk_end_def intro!: exI [of _ "[]"])
    next
      case False
      then show ?thesis using ends_mono [OF Suc.IH [OF rv] _ address_post_step [OF v(1,3,2) False]] by simp
    qed
  qed
  then show ?case unfolding address.simps Let_def using get_char_moved [of ?st Intd env] Suc.prems
    by (intro ends_andthen [OF get_char_moved [of ?st Intd env]]) (auto simp: split_paired_all)
qed

text \<open>Two steps in sequence, of which the second leaves what is wanted.\<close>

lemma moved_then:
  assumes "ready st" "\<And>v. moved Intd [] s st v \<Longrightarrow> chkaddr v = chkaddr st \<Longrightarrow> tapped v = tapped st \<Longrightarrow> leaves P (g v)"
  shows "leaves P (andthen (bput env Intd s st) g)"
  by (rule ends_andthen [OF bput_moved [OF assms(1), of Intd s env]]) (use assms(2) in auto)

lemma moved_ready: "moved f i s st v \<Longrightarrow> ready v"
  by (simp add: moved_def)

lemma bputs_moved: "ready st \<Longrightarrow>
    leaves (\<lambda>v. moved Intd [] (concat ss) st v \<and> chkaddr v = chkaddr st \<and> tapped v = tapped st) (bputs env Intd ss st)"
proof (induction ss arbitrary: st)
  case Nil
  then show ?case by (simp add: moved_refl)
next
  case (Cons s ss)
  show ?case unfolding bputs.simps
  proof (rule moved_then [OF Cons.prems])
    fix u assume u: "moved Intd [] s st u" "chkaddr u = chkaddr st" "tapped u = tapped st"
    then show "leaves (\<lambda>v. moved Intd [] (concat (s # ss)) st v \<and> chkaddr v = chkaddr st \<and> tapped v = tapped st) (bputs env Intd ss u)"
      using moved_trans [OF u(1)] by (intro ends_mono [OF Cons.IH [OF moved_ready [OF u(1)]]]) fastforce+
  qed
qed

lemma tap_moved:
  assumes "ready st"
  shows "leaves (\<lambda>v. moved Intd [] (fst (tap_spec env (tapped st) (chkaddr st @ [NUL]))) st v \<and>
      tapped v = snd (tap_spec env (tapped st) (chkaddr st @ [NUL])) \<and> chkaddr v = chkaddr st @ [NUL]) (tap env st)"
proof -
  let ?st = "st\<lparr>chkaddr := chkaddr st @ [NUL], tapped := True\<rparr>"
  have "leaves (\<lambda>v. moved Intd [] (''T'' @ a @ [NUL]) st v \<and> tapped v \<and> chkaddr v = chkaddr st @ [NUL])
      (bputs env Intd [''T'', a, [NUL]] ?st)" for a
    by (rule ends_mono [OF bputs_moved]) (use assms in \<open>auto simp: moved_def\<close>)
  then show ?thesis using assms by (simp add: tap_def Let_def tap_spec_def moved_refl moved_def del: bputs.simps split: option.split)
qed

definition record_text :: "char list \<Rightarrow> char list" where
  "record_text r = ''T'' @ r @ [NUL]"

definition recipients_post :: "qenv \<Rightarrow> qproc \<Rightarrow> qproc \<Rightarrow> bool" where
  "recipients_post env st v \<longleftrightarrow> (\<exists>rs. list_all address_ok rs \<and>
     moved Intd (concat (map record_text rs) @ [NUL]) (recips_text env (tapped st) (chkaddr st) rs) st v)"

lemma moved_shorter: "moved f (c # i) s st v \<Longrightarrow> length (inp v) < length (inp st)"
  by (simp add: moved_def)

lemma recipients_post_step:
  assumes "address_ok r" "moved Intd (record_text r) (record_text r) st u" "chkaddr u = (if r = [] then chkaddr st else r)" "tapped u = tapped st"
    "moved Intd [] (fst (tap_spec env (tapped u) (chkaddr u @ [NUL]))) u v" "tapped v = snd (tap_spec env (tapped u) (chkaddr u @ [NUL]))"
    "chkaddr v = chkaddr u @ [NUL]" "recipients_post env v w"
  shows "recipients_post env st w"
proof -
  obtain rs where rs: "list_all address_ok rs"
    "moved Intd (concat (map record_text rs) @ [NUL]) (recips_text env (tapped v) (chkaddr v) rs) v w"
    using assms(8) by (auto simp: recipients_post_def)
  have "moved Intd (record_text r @ concat (map record_text rs) @ [NUL])
      (record_text r @ fst (tap_spec env (tapped u) (chkaddr u @ [NUL])) @ recips_text env (tapped v) (chkaddr v) rs) st w"
    using moved_trans [OF moved_trans [OF assms(2,5)] rs(2)] by simp
  then show ?thesis unfolding recipients_post_def using rs(1) assms(1,3,4,6,7)
    by (intro exI [of _ "r # rs"]) (simp add: chk_after_def Let_def case_prod_beta record_text_def)
qed

lemma recipients_moved:
  assumes "ready st" "length (inp st) < k"
  shows "leaves (recipients_post env st) (recipients env k st)"
  using assms
proof (induction k arbitrary: st)
  case (Suc k)
  have "leaves (recipients_post env st)
     (if ch = NUL then Inr u else if ch \<noteq> CHR ''T'' then die 91 u
      else andthen (bput env Intd [ch] u) (\<lambda>st.
            andthen (address env (bput env Intd) ch 0 ADDR st) (\<lambda>(len, st).
            andthen (tap env st) (\<lambda>st.
              if len \<ge> ADDR then die 11 st else recipients env k st))))"
    if u: "moved Intd [ch] [] st u" "chkaddr u = chkaddr st" "tapped u = tapped st" for ch u
  proof (cases "ch = CHR ''T''")
    case False
    have "recipients_post env st u" if "ch = NUL"
      unfolding recipients_post_def using u that by (intro exI [of _ "[]"]) simp
    moreover have "unqueued u" using u by (simp add: moved_def ready_def)
    ultimately show ?thesis using False by simp
  next
    case T: True
    have "leaves (recipients_post env st) (andthen (bput env Intd [ch] u) (\<lambda>st.
            andthen (address env (bput env Intd) ch 0 ADDR st) (\<lambda>(len, st).
            andthen (tap env st) (\<lambda>st. if len \<ge> ADDR then die 11 st else recipients env k st))))"
    proof (rule moved_then [OF moved_ready [OF u(1)]])
      fix v assume v: "moved Intd [] [ch] u v" "chkaddr v = chkaddr u" "tapped v = tapped u"
      have uv: "moved Intd [ch] [ch] st v" using moved_trans [OF u(1) v(1)] by simp
      show "leaves (recipients_post env st) (andthen (address env (bput env Intd) ch 0 ADDR v) (\<lambda>(len, st).
            andthen (tap env st) (\<lambda>st. if len \<ge> ADDR then die 11 st else recipients env k st)))"
      proof (rule ends_andthen [OF address_moved [OF puts_to_intd(2) moved_ready [OF v(1)]]])
        fix a assume a: "address_post 0 ADDR ch v a"
        obtain n x where ax: "a = (n, x)" by fastforce
        then have rx: "ready x" and tx: "tapped x = tapped st" using a u v by (simp_all add: address_post_def)
        have "leaves (recipients_post env st) (andthen (tap env x) (\<lambda>st. if n \<ge> ADDR then die 11 st else recipients env k st))"
        proof (rule ends_andthen [OF tap_moved [OF rx]])
          fix y assume y: "moved Intd [] (fst (tap_spec env (tapped x) (chkaddr x @ [NUL]))) x y \<and>
            tapped y = snd (tap_spec env (tapped x) (chkaddr x @ [NUL])) \<and> chkaddr y = chkaddr x @ [NUL]"
          show "leaves (recipients_post env st) (if n \<ge> ADDR then die 11 y else recipients env k y)"
          proof (cases "n < ADDR")
            case False
            then show ?thesis using y by (simp add: moved_def ready_def)
          next
            case True
            then obtain r where r: "NUL \<notin> set r" "n = length r" "moved Intd (r @ [NUL]) (r @ [NUL]) v x"
              "chkaddr x = chk_end (chkaddr v) 0 ch r" using a ax by (auto simp: address_post_def)
            have ok: "address_ok r" using r True by (simp add: address_ok_def)
            have sx: "moved Intd (record_text r) (record_text r) st x"
              using moved_trans [OF uv r(3)] T by (simp add: record_text_def)
            have cx: "chkaddr x = (if r = [] then chkaddr st else r)" using r(4) u v by (simp add: chk_end_def)
            have "length (inp y) < length (inp st)" using sx y by (auto simp: moved_def record_text_def)
            then have "leaves (recipients_post env y) (recipients env k y)"
              using Suc y by (intro Suc.IH) (auto simp: moved_def)
            then have "leaves (recipients_post env st) (recipients env k y)"
              using recipients_post_step [OF ok sx cx tx] y by (auto elim!: ends_mono)
            then show ?thesis using True by simp
          qed
        qed
        then show "leaves (recipients_post env st) (case a of (len, st) \<Rightarrow>
            andthen (tap env st) (\<lambda>st. if len \<ge> ADDR then die 11 st else recipients env k st))" by (simp add: ax)
      qed
    qed
    then show ?thesis using T by simp
  qed
  then show ?case unfolding recipients.simps
    by (intro ends_andthen [OF get_char_moved [OF Suc.prems(1), of Intd env]]) (auto simp: split_paired_all)
qed simp

definition sender_post :: "qenv \<Rightarrow> qproc \<Rightarrow> qproc \<Rightarrow> bool" where
  "sender_post env st v \<longleftrightarrow> (\<exists>f. address_ok f \<and>
     moved Intd (''F'' @ f @ [NUL]) (''F'' @ f @ [NUL] @ fst (tap_spec env False (chk_after [NUL] f))) st v \<and>
     tapped v = snd (tap_spec env False (chk_after [NUL] f)) \<and> chkaddr v = chk_after [NUL] f)"

lemma sender_moved:
  assumes "ready st" "chkaddr st = []" "\<not> tapped st"
  shows "leaves (sender_post env st) (sender env st)"
proof -
  have "leaves (sender_post env st)
     (if ch \<noteq> CHR ''F'' then die 91 u
      else andthen (bput env Intd [ch] u) (\<lambda>st.
           andthen (address env (put env Intd) ch 0 ADDR (st\<lparr>chkaddr := chkaddr st @ [NUL]\<rparr>)) (\<lambda>(len, st).
             if len \<ge> ADDR then die 11 st else tap env st)))"
    if u: "moved Intd [ch] [] st u" "chkaddr u = []" "\<not> tapped u" for ch u
  proof (cases "ch = CHR ''F''")
    case False
    then show ?thesis using u by (simp add: moved_def ready_def)
  next
    case F: True
    have "leaves (sender_post env st) (andthen (bput env Intd [ch] u) (\<lambda>st.
           andthen (address env (put env Intd) ch 0 ADDR (st\<lparr>chkaddr := chkaddr st @ [NUL]\<rparr>)) (\<lambda>(len, st).
             if len \<ge> ADDR then die 11 st else tap env st)))"
    proof (rule moved_then [OF moved_ready [OF u(1)]])
      fix w assume w: "moved Intd [] [ch] u w" "chkaddr w = chkaddr u" "tapped w = tapped u"
      let ?v = "w\<lparr>chkaddr := chkaddr w @ [NUL]\<rparr>"
      have uv: "moved Intd [ch] [ch] st ?v" "ready ?v" using moved_trans [OF u(1) w(1)] w(1) by (simp_all add: moved_ready)
      show "leaves (sender_post env st) (andthen (address env (put env Intd) ch 0 ADDR ?v) (\<lambda>(len, st).
             if len \<ge> ADDR then die 11 st else tap env st))"
      proof (rule ends_andthen [OF address_moved [OF puts_to_intd(1) uv(2)]])
        fix a assume a: "address_post 0 ADDR ch ?v a"
        obtain n x where ax: "a = (n, x)" by fastforce
        then have rx: "ready x" and tx: "tapped x = False" using a u w by (simp_all add: address_post_def)
        have "leaves (sender_post env st) (if n \<ge> ADDR then die 11 x else tap env x)"
        proof (cases "n < ADDR")
          case False
          then show ?thesis using rx by (simp add: ready_def)
        next
          case True
          then obtain f where f: "NUL \<notin> set f" "n = length f" "moved Intd (f @ [NUL]) (f @ [NUL]) ?v x"
            "chkaddr x = chk_end (chkaddr ?v) 0 ch f" using a ax by (auto simp: address_post_def)
          have ok: "address_ok f" using f True by (simp add: address_ok_def)
          have cx: "chkaddr x @ [NUL] = chk_after [NUL] f" using f(4) u w by (simp add: chk_end_def chk_after_def)
          have sx: "moved Intd (''F'' @ f @ [NUL]) (''F'' @ f @ [NUL]) st x" using moved_trans [OF uv(1) f(3)] F by simp
          have "sender_post env st y" if y: "moved Intd [] (fst (tap_spec env (tapped x) (chkaddr x @ [NUL]))) x y"
            "tapped y = snd (tap_spec env (tapped x) (chkaddr x @ [NUL]))" "chkaddr y = chkaddr x @ [NUL]" for y
            unfolding sender_post_def using moved_trans [OF sx y(1)] y(2,3) ok cx tx by (intro exI [of _ f]) simp
          then have "leaves (sender_post env st) (tap env x)" by (intro ends_mono [OF tap_moved [OF rx, of env]]) auto
          then show ?thesis using True by simp
        qed
        then show "leaves (sender_post env st) (case a of (len, st) \<Rightarrow> if len \<ge> ADDR then die 11 st else tap env st)" by (simp add: ax)
      qed
    qed
    then show ?thesis using F by simp
  qed
  then show ?thesis unfolding sender_def using assms
    by (intro ends_andthen [OF get_char_moved [OF assms(1), of Intd env]]) (auto simp: split_paired_all)
qed

text \<open>After a flush the file holds all that was put.\<close>

lemma flush_done:
  assumes "unqueued st" "out_inv (ssout st)"
  shows "leaves (\<lambda>v. unqueued v \<and> chkaddr v = chkaddr st \<and> tapped v = tapped st \<and> messlink (dir v) = messlink (dir st) \<and>
      (case f of Mess \<Rightarrow> messdata (dir v) = outp st
       | Intd \<Rightarrow> intddata (dir v) = outp st \<and> messsync (dir v) = messsync (dir st) \<and> messdata (dir v) = messdata (dir st))) (flush env f st)"
  using assms(2)
proof (cases rule: fdw.flush_outcome)
  case (1 s')
  then show ?thesis using assms noted_unqueued [of st f s']
    by (cases f) (simp_all add: flush_def wrote_def noted_def set_dir_def)
next
  case (2 s' k)
  then show ?thesis using assms noted_unqueued [of st f s'] by (simp add: flush_def wrote_def)
qed

definition message_done :: "qenv \<Rightarrow> qproc \<Rightarrow> bool" where
  "message_done env st \<longleftrightarrow> unqueued st \<and> messlink (dir st) \<and> messsync (dir st) \<and> messdata (dir st) = receivedfmt env @ fd_left (in0 env)"

lemma copy_message_done:
  assumes "ready st" "messlink (dir st)" "inp st = fd_left (in0 env)" "outp st = []"
  shows "leaves (\<lambda>v. message_done env v \<and> chkaddr v = chkaddr st \<and> tapped v = tapped st) (copy_message env st)"
  unfolding copy_message_def
proof (rule ends_andthen [OF bput_moved [OF assms(1), of Mess "receivedfmt env" env]])
  let ?P = "\<lambda>v. message_done env v \<and> chkaddr v = chkaddr st \<and> tapped v = tapped st"
  let ?Q = "\<lambda>v. unqueued v \<and> out_inv (ssout v) \<and> messlink (dir v) \<and> outp v = receivedfmt env @ fd_left (in0 env) \<and> chkaddr v = chkaddr st \<and> tapped v = tapped st"
  fix u assume u: "moved Mess [] (receivedfmt env) st u \<and> chkaddr u = chkaddr st \<and> tapped u = tapped st"
  then have ru: "ready u" "messlink (dir u)" "inp u = fd_left (in0 env)" "outp u = receivedfmt env"
    using assms by (simp_all add: moved_def)
  show "leaves ?P (andthen (case substdio_copy fd_write fd_read (ssout u) (ssin u) of
                None \<Rightarrow> Inl (Hang, u)
              | Some (r, so, si) \<Rightarrow>
                  (let st = noted Mess so (u\<lparr>ssin := si\<rparr>)
                   in if r = - 2 then die_read env st else if r = - 3 then die_write env st else Inr st)) (\<lambda>st.
     andthen (flush env Mess st) (\<lambda>st.
       if fails env Fsync_mess then die_write env st else Inr (set_dir (\<lambda>d. d\<lparr>messsync := True\<rparr>) st))))"
  proof (rule ends_andthen)
    have inv: "in_inv (ssin u)" "out_inv (ssout u)" "unqueued u" using ru by (simp_all add: ready_def)
    have unq: "unqueued (noted Mess so (u\<lparr>ssin := si\<rparr>))" for so si using noted_unqueued inv(3) by simp
    from inv(1,2) show "leaves ?Q (case substdio_copy fd_write fd_read (ssout u) (ssin u) of
                None \<Rightarrow> Inl (Hang, u)
              | Some (r, so, si) \<Rightarrow>
                  (let st = noted Mess so (u\<lparr>ssin := si\<rparr>)
                   in if r = - 2 then die_read env st else if r = - 3 then die_write env st else Inr st))"
    proof (cases rule: fdc.copy_outcome)
      case (1 so si)
      then show ?thesis using ru u unq [of so si] by (simp add: ready_def noted_def set_dir_def)
    next
      case (2 so si)
      then show ?thesis using unq by simp
    next
      case (3 so si)
      then show ?thesis using unq by simp
    qed
  next
    fix v assume v: "?Q v"
    then show "leaves ?P (andthen (flush env Mess v) (\<lambda>st.
       if fails env Fsync_mess then die_write env st else Inr (set_dir (\<lambda>d. d\<lparr>messsync := True\<rparr>) st)))"
    proof (intro ends_andthen [OF flush_done])
      fix w assume "unqueued w \<and> chkaddr w = chkaddr v \<and> tapped w = tapped v \<and> messlink (dir w) = messlink (dir v) \<and>
        (case Mess of Mess \<Rightarrow> messdata (dir w) = outp v
         | Intd \<Rightarrow> intddata (dir w) = outp v \<and> messsync (dir w) = messsync (dir v) \<and> messdata (dir w) = messdata (dir v))"
      then have w: "unqueued w" "messlink (dir w)" "messdata (dir w) = receivedfmt env @ fd_left (in0 env)"
          "chkaddr w = chkaddr st" "tapped w = tapped st"
        using v by simp_all
      then show "leaves ?P (if fails env Fsync_mess then die_write env w else Inr (set_dir (\<lambda>d. d\<lparr>messsync := True\<rparr>) w))"
        using unqueued_set_dir [OF w(1), of "\<lambda>d. d\<lparr>messsync := True\<rparr>"] by (simp add: message_done_def set_dir_def)
    qed simp_all
  qed
qed

text \<open>The queued envelope.\<close>

definition envelope_done :: "qenv \<Rightarrow> qproc \<Rightarrow> bool" where
  "envelope_done env st \<longleftrightarrow> message_done env st \<and> intdsync (dir st) \<and>
     (\<exists>f rs rest. fd_left (in1 env) = ''F'' @ f @ [NUL] @ concat (map record_text rs) @ [NUL] @ rest \<and>
        list_all address_ok (f # rs) \<and> intddata (dir st) = todo_text env f rs)"

lemma moved_message: "moved Intd i s st v \<Longrightarrow> message_done env st \<Longrightarrow> message_done env v"
  by (auto simp: moved_def message_done_def ready_def)

lemma copy_envelope_done:
  assumes "ready st" "message_done env st" "inp st = fd_left (in1 env)" "outp st = []" "chkaddr st = []" "\<not> tapped st"
  shows "leaves (envelope_done env) (copy_envelope env st)"
proof -
  let ?head = "''u'' @ fmt_ulong (uid env) @ [NUL] @ ''p'' @ fmt_ulong (mypid env) @ [NUL]"
  let ?fin = "\<lambda>st. if fails env Fsync_intd then die_write env st else Inr (set_dir (\<lambda>d. d\<lparr>intdsync := True\<rparr>) st)"
  have rest: "leaves (envelope_done env) (andthen (sender env u) (\<lambda>st.
      andthen (recipients env (length (in_stream fd_left (ssin st)) + 1) st) (\<lambda>st. andthen (flush env Intd st) ?fin)))"
    if u: "moved Intd [] ?head st u" "chkaddr u = []" "\<not> tapped u" for u
  proof (rule ends_andthen [OF sender_moved [OF moved_ready [OF u(1)] u(2,3)]])
    fix v assume "sender_post env u v"
    then obtain f where f: "address_ok f"
      "moved Intd (''F'' @ f @ [NUL]) (''F'' @ f @ [NUL] @ fst (tap_spec env False (chk_after [NUL] f))) u v"
      "tapped v = snd (tap_spec env False (chk_after [NUL] f))" "chkaddr v = chk_after [NUL] f" by (auto simp: sender_post_def)
    show "leaves (envelope_done env) (andthen (recipients env (length (in_stream fd_left (ssin v)) + 1) v) (\<lambda>st. andthen (flush env Intd st) ?fin))"
    proof (rule ends_andthen [OF recipients_moved [OF moved_ready [OF f(2)]]])
      fix w assume "recipients_post env v w"
      then obtain rs where rs: "list_all address_ok rs"
        "moved Intd (concat (map record_text rs) @ [NUL]) (recips_text env (tapped v) (chkaddr v) rs) v w" by (auto simp: recipients_post_def)
      have all: "moved Intd (''F'' @ f @ [NUL] @ concat (map record_text rs) @ [NUL]) (todo_text env f rs) st w"
        using moved_trans [OF moved_trans [OF u(1) f(2)] rs(2)] f(3,4) by (simp add: todo_text_def Let_def case_prod_beta)
      then have w: "message_done env w" "outp w = todo_text env f rs" "out_inv (ssout w)" "unqueued w"
        "fd_left (in1 env) = ''F'' @ f @ [NUL] @ concat (map record_text rs) @ [NUL] @ inp w"
        using moved_message [OF all assms(2)] assms(3,4) by (simp_all add: moved_def ready_def)
      show "leaves (envelope_done env) (andthen (flush env Intd w) ?fin)"
      proof (rule ends_andthen [OF flush_done [OF w(4,3)]])
        fix x assume "unqueued x \<and> chkaddr x = chkaddr w \<and> tapped x = tapped w \<and> messlink (dir x) = messlink (dir w) \<and>
          (case Intd of Mess \<Rightarrow> messdata (dir x) = outp w
           | Intd \<Rightarrow> intddata (dir x) = outp w \<and> messsync (dir x) = messsync (dir w) \<and> messdata (dir x) = messdata (dir w))"
        then have x: "message_done env x" "unqueued x" "intddata (dir x) = todo_text env f rs" using w by (simp_all add: message_done_def)
        then have "message_done env (set_dir (\<lambda>d. d\<lparr>intdsync := True\<rparr>) x)"
          using unqueued_set_dir [OF x(2), of "\<lambda>d. d\<lparr>intdsync := True\<rparr>"] by (simp add: message_done_def set_dir_def)
        then have "envelope_done env (set_dir (\<lambda>d. d\<lparr>intdsync := True\<rparr>) x)"
          unfolding envelope_done_def using w(5) f(1) rs(1) x(3)
          by (intro conjI exI [of _ f] exI [of _ rs] exI [of _ "inp w"]) (simp_all add: set_dir_def)
        then show "leaves (envelope_done env) (?fin x)" using x(2) by simp
      qed
    qed simp
  qed
  show ?thesis
    unfolding copy_envelope_def
    by (rule ends_andthen [OF bputs_moved [OF assms(1)]]) (rule rest, use assms(5,6) in simp_all)
qed

section \<open>The whole program\<close>

lemma fresh_streams: fixes x :: "fdout list" shows "in_stream fd_left (substdio_fdbuf w inbuf) = fd_left w" "in_inv (substdio_fdbuf w inbuf)"
  "out_sent snd (substdio_fdbuf (x, []) outbuf) = []" "out_inv (substdio_fdbuf (x, [] :: char list) outbuf)"
  by (simp_all add: fdr.stream_fdbuf fdw.sent_fdbuf inbuf_def outbuf_def)

definition blank :: "qproc \<Rightarrow> bool" where
  "blank st \<longleftrightarrow> unqueued st \<and> chkaddr st = [] \<and> \<not> tapped st"

lemma blank_unqueued: "blank st \<Longrightarrow> unqueued st"
  by (simp add: blank_def)

lemma ends_if: "(b \<Longrightarrow> ends E P x) \<Longrightarrow> (\<not> b \<Longrightarrow> ends E P y) \<Longrightarrow> ends E P (if b then x else y)"
  by simp

lemma ends_only: "ends E (\<lambda>_. False) r \<Longrightarrow> E (case r of Inl e \<Rightarrow> e | Inr a \<Rightarrow> f a)"
  by (cases r) auto

lemma blank_set_dir: "blank st \<Longrightarrow> (\<And>d. todolink (f d) = todolink d) \<Longrightarrow> blank (set_dir f st)"
  using unqueued_set_dir [of st f] by (simp add: blank_def set_dir_def)

lemma pid_loop_blank: "blank st \<Longrightarrow> leaves blank (pid_loop env seqs st)"
  by (induction seqs) (auto intro: blank_set_dir simp: blank_unqueued)

lemma make_mess_done:
  "leaves (\<lambda>v. blank v \<and> ready v \<and> messlink (dir v) \<and> inp v = fd_left (in0 env) \<and> outp v = []) (make_mess env start)"
  unfolding make_mess_def
proof (rule ends_andthen)
  have b: "blank start" by (simp add: blank_def start_def unqueued_def)
  then show "leaves blank (pidopen env start)" by (simp add: pidopen_def pid_loop_blank) (simp add: blank_def)
next
  fix st assume b: "blank st"
  let ?a = "set_dir (\<lambda>d. d\<lparr>messlink := True\<rparr>) st" let ?b = "set_dir (\<lambda>d. d\<lparr>pidlink := False\<rparr>) ?a"
  have ab: "blank ?a" "blank ?b" by (intro blank_set_dir b; simp)+
  then show "leaves (\<lambda>v. blank v \<and> ready v \<and> messlink (dir v) \<and> inp v = fd_left (in0 env) \<and> outp v = [])
     (if fails env Fstat_mess then die 63 st
       else if fails env Alloc_messfn \<or> fails env Alloc_todofn \<or> fails env Alloc_intdfn then die 51 st
       else if fails env Link_mess then die 64 st
       else let st = ?a
            in if fails env Unlink_pid then die 63 st
               else Inr ((set_dir (\<lambda>d. d\<lparr>pidlink := False\<rparr>) st)\<lparr>flagmademess := True,
                      ssout := substdio_fdbuf (mess_script env, []) outbuf, ssin := substdio_fdbuf (in0 env) inbuf\<rparr>))"
    using b by (simp add: Let_def blank_def ready_def fresh_streams) (simp add: set_dir_def)
qed

lemma make_intd_done:
  assumes "message_done env st" "blank st"
  shows "leaves (\<lambda>v. ready v \<and> message_done env v \<and> inp v = fd_left (in1 env) \<and> outp v = [] \<and> chkaddr v = [] \<and> \<not> tapped v) (make_intd env st)"
  using assms unqueued_set_dir [of st "\<lambda>d. d\<lparr>intdlink := True, intddata := [], intdsync := False\<rparr>"]
  by (simp add: make_intd_def blank_def message_done_def ready_def fresh_streams) (simp add: set_dir_def)

text \<open>The end of the program: it gave up, or the last step has been taken from a state with message and envelope done.\<close>

definition queued_end :: "qenv \<Rightarrow> qend \<times> qproc \<Rightarrow> bool" where
  "queued_end env fin \<longleftrightarrow> fst fin = Exit 0 \<and> (\<exists>st. envelope_done env st \<and> snd fin = set_dir (\<lambda>d. d\<lparr>todolink := True\<rparr>) st)"

lemma qmail_queue_end: "gave_up (qmail_queue env) \<or> queued_end env (qmail_queue env)"
proof -
  let ?E = "\<lambda>fin. gave_up fin \<or> queued_end env fin"
  let ?last = "\<lambda>st. if fails env Link_todo then die 66 st else (die 0 (set_dir (\<lambda>d. d\<lparr>todolink := True\<rparr>) st) :: qproc qrun)"
  have weak: "ends ?E P r" if "leaves P r" for P and r :: "'z qrun" using that by (rule ends_mono) auto
  have die: "ends ?E P (die e start)" if "e \<noteq> 0" for P e
    using that by (intro weak) (simp add: unqueued_def start_def)
  have last: "ends ?E (\<lambda>_. False) (?last st)" if "envelope_done env st" for st
    using that by (auto simp: envelope_done_def message_done_def die_def gave_up_def queued_end_def)
  have run: "ends ?E (\<lambda>_. False) (andthen (make_mess env start) (\<lambda>st. andthen (copy_message env st) (\<lambda>st.
      andthen (make_intd env st) (\<lambda>st. andthen (copy_envelope env st) ?last))))"
  proof (rule ends_andthen [OF weak [OF make_mess_done]])
    fix u assume u: "blank u \<and> ready u \<and> messlink (dir u) \<and> inp u = fd_left (in0 env) \<and> outp u = []"
    show "ends ?E (\<lambda>_. False) (andthen (copy_message env u) (\<lambda>st. andthen (make_intd env st) (\<lambda>st. andthen (copy_envelope env st) ?last)))"
    proof (rule ends_andthen [OF weak [OF copy_message_done]])
      fix v assume v: "message_done env v \<and> chkaddr v = chkaddr u \<and> tapped v = tapped u"
      then have "blank v" using u by (simp add: blank_def message_done_def)
      then show "ends ?E (\<lambda>_. False) (andthen (make_intd env v) (\<lambda>st. andthen (copy_envelope env st) ?last))"
        by (intro ends_andthen [OF weak [OF make_intd_done]] ends_andthen [OF weak [OF copy_envelope_done]] last) (use v in auto)
    qed (use u in simp_all)
  qed
  have "ends ?E (\<lambda>_. False) (if fails env Chdir_qmail then die 61 start
         else if fails env Read_taps \<or> fails env Map_taps then die 65 start
         else if fails env Chdir_queue then die 62 start
         else if fails env Alloc_received then die 51 start
         else andthen (make_mess env start) (\<lambda>st. andthen (copy_message env st) (\<lambda>st.
           andthen (make_intd env st) (\<lambda>st. andthen (copy_envelope env st) ?last))))"
    by (intro ends_if die run) simp_all
  then show ?thesis unfolding qmail_queue_def Let_def
    by (rule ends_only)
qed

section \<open>Nothing stops a healthy run\<close>

text \<open>The process can go on: its streams are in order, and neither descriptor is going to fail.\<close>

definition fine :: "qproc \<Rightarrow> bool" where
  "fine st \<longleftrightarrow> ready st \<and> \<not> fd_bad (sw (ssin st)) \<and> Out_fail \<notin> set (fst (sw (ssout st)))"

lemma fine_updates [simp]: "fine (st\<lparr>chkaddr := xs\<rparr>) = fine st" "fine (st\<lparr>tapped := b\<rparr>) = fine st"
  by (simp_all add: fine_def)

text \<open>\<open>goes i r\<close>: the step \<open>r\<close> returns, in a fine state with the input \<open>i\<close> still to read.\<close>

definition goes :: "char list \<Rightarrow> qproc qrun \<Rightarrow> bool" where
  "goes i r \<longleftrightarrow> (\<exists>v. r = Inr v \<and> fine v \<and> inp v = i)"

lemma goes_then: "goes i r \<Longrightarrow> (\<And>v. fine v \<Longrightarrow> inp v = i \<Longrightarrow> goes j (f v)) \<Longrightarrow> goes j (andthen r f)"
  by (auto simp: goes_def)

lemma wrote_goes:
  assumes "fine st" "fdw.puts_all s (ssout st) res" "\<And>y. res = Some y \<Longrightarrow> fst y \<and> Out_fail \<notin> set (fst (sw (snd y)))"
  shows "goes (inp st) (wrote env f res st)"
proof -
  from assms(2) obtain so where so: "res = Some (True, so)" "out_inv so"
    using assms(3) by (cases rule: fdw.puts_all_cases) auto
  have "Out_fail \<notin> set (fst (sw so))" using assms(3) [OF so(1)] by simp
  then show ?thesis using assms(1) so noted_unqueued [of st f so]
    by (cases f) (simp_all add: goes_def wrote_def fine_def ready_def noted_def set_dir_def)
qed

lemma bput_goes: "fine st \<Longrightarrow> goes (inp st) (bput env f s st)"
  unfolding bput_def by (rule wrote_goes) (auto simp: fine_def ready_def intro: fdw.bput_puts dest: fds.bput_steady)

lemma put_goes: "fine st \<Longrightarrow> goes (inp st) (put env f s st)"
  unfolding put_def by (rule wrote_goes) (auto simp: fine_def ready_def intro: fdw.put_puts dest: fds.put_steady)

lemma bputs_goes: "fine st \<Longrightarrow> goes (inp st) (bputs env f ss st)"
proof (induction ss arbitrary: st)
  case Nil
  then show ?case by (simp add: goes_def)
next
  case (Cons s ss)
  show ?case unfolding bputs.simps
    by (rule goes_then [OF bput_goes [OF Cons.prems]]) (use Cons.IH in fastforce)
qed

lemma flush_returns:
  assumes "out_inv (ssout st)" "Out_fail \<notin> set (fst (sw (ssout st)))"
  shows "\<exists>v. flush env f st = Inr v"
  using assms(1)
proof (cases rule: fdw.flush_outcome)
  case (1 so)
  then show ?thesis by (simp add: flush_def wrote_def)
next
  case (2 so k)
  then show ?thesis using assms(2) fds.flush_steady [OF 2(1)] by simp
qed

lemma get_char_goes:
  assumes "fine st" "inp st = c # i"
  shows "\<exists>v. get_char env st = Inr (c, v) \<and> fine v \<and> inp v = i"
proof -
  have "in_inv (ssin st)" "\<not> fd_bad (sw (ssin st))" using assms(1) by (simp_all add: fine_def ready_def)
  then show ?thesis
  proof (cases rule: fdr.get_byte)
    case (1 s')
    then show ?thesis using assms(2) by simp
  next
    case (2 c' s')
    then show ?thesis using assms by (simp add: get_char_def fine_def ready_def)
  qed
qed

lemma address_goes:
  assumes "\<And>s st. fine st \<Longrightarrow> goes (inp st) (puts s st)" "fine st" "NUL \<notin> set r" "length r < k" "inp st = r @ NUL # i"
  shows "\<exists>v. address env puts ch len k st = Inr (len + length r, v) \<and> fine v \<and> inp v = i"
  using assms(2-5)
proof (induction k arbitrary: ch len st r)
  case (Suc k)
  let ?st = "st\<lparr>chkaddr := if len = 1 then [ch] else if len > 1 then chkaddr st @ [ch] else chkaddr st\<rparr>"
  obtain c t where c: "r @ NUL # i = c # t" "c = NUL \<longleftrightarrow> r = []" "c \<noteq> NUL \<Longrightarrow> \<exists>r'. r = c # r' \<and> t = r' @ NUL # i"
    using Suc.prems(2) by (cases r) auto
  obtain u where u: "get_char env ?st = Inr (c, u)" "fine u" "inp u = t"
    using get_char_goes [of ?st c t env] Suc.prems(1,4) c(1) by auto
  obtain v where v: "puts [c] u = Inr v" "fine v" "inp v = t" using assms(1) [OF u(2), of "[c]"] u(3) by (auto simp: goes_def)
  show ?case
  proof (cases "c = NUL")
    case True
    then show ?thesis using u v c by (simp add: Let_def)
  next
    case False
    then obtain r' where r: "r = c # r'" "inp v = r' @ NUL # i" using c(3) v(3) by auto
    have "NUL \<notin> set r'" "length r' < k" using Suc.prems(2,3) r(1) by auto
    then obtain w where "address env puts c (len + 1) k v = Inr (len + 1 + length r', w) \<and> fine w \<and> inp w = i"
      using Suc.IH [OF v(2) _ _ r(2), of c "len + 1"] by blast
    then show ?thesis using u(1) v(1) False r(1) by (simp add: Let_def)
  qed
qed simp

lemma tap_goes: "fine st \<Longrightarrow> goes (inp st) (tap env st)"
  using bputs_goes [of "st\<lparr>chkaddr := chkaddr st @ [NUL], tapped := True\<rparr>" env Intd]
  by (auto simp: tap_def Let_def goes_def simp del: bputs.simps split: option.split)

lemma bput_goes_to: "fine st \<Longrightarrow> inp st = i \<Longrightarrow> \<exists>v. bput env f s st = Inr v \<and> fine v \<and> inp v = i"
  using bput_goes [of st env f s] by (auto simp: goes_def)

lemma tap_goes_to: "fine st \<Longrightarrow> inp st = i \<Longrightarrow> \<exists>v. tap env st = Inr v \<and> fine v \<and> inp v = i"
  using tap_goes [of st env] by (auto simp: goes_def)

lemma recipients_goes:
  assumes "fine st" "list_all address_ok rs" "inp st = concat (map record_text rs) @ NUL # i" "length rs < k"
  shows "goes i (recipients env k st)"
  using assms
proof (induction rs arbitrary: st k)
  case Nil
  then obtain k' where k: "k = Suc k'" by (cases k) auto
  obtain v where "get_char env st = Inr (NUL, v)" "fine v" "inp v = i" using get_char_goes [of st NUL i env] Nil.prems by auto
  then show ?case by (simp add: k goes_def)
next
  case (Cons r rs)
  then obtain k' where k: "k = Suc k'" by (cases k) auto
  define j where "j = concat (map record_text rs) @ NUL # i"
  have r: "NUL \<notin> set r" "length r < ADDR" using Cons.prems(2) by (simp_all add: address_ok_def)
  have i: "inp st = CHR ''T'' # (r @ NUL # j)" unfolding Cons.prems(3) j_def by (simp add: record_text_def [of r])
  obtain u where u: "get_char env st = Inr (CHR ''T'', u)" "fine u" "inp u = r @ NUL # j"
    using get_char_goes [OF Cons.prems(1) i, of env] by blast
  obtain v where v: "bput env Intd ''T'' u = Inr v" "fine v" "inp v = r @ NUL # j"
    using bput_goes_to [OF u(2,3)] by blast
  obtain w where w: "address env (bput env Intd) (CHR ''T'') 0 ADDR v = Inr (0 + length r, w)" "fine w" "inp w = j"
    using address_goes [where env = env and puts = "bput env Intd" and ch = "CHR ''T''" and len = 0, OF bput_goes v(2) r v(3)] by blast
  obtain x where x: "tap env w = Inr x" "fine x" "inp x = j" using tap_goes_to [OF w(2,3)] by blast
  have "goes i (recipients env k' x)"
    using Cons.IH [OF x(2) _ x(3) [unfolded j_def]] Cons.prems(2,4) k by simp
  then show ?case using u(1) v(1) w(1) x(1) r(2) by (simp add: k)
qed

lemma sender_goes:
  assumes "fine st" "address_ok f" "inp st = CHR ''F'' # (f @ NUL # i)"
  shows "goes i (sender env st)"
proof -
  have f: "NUL \<notin> set f" "length f < ADDR" using assms(2) by (simp_all add: address_ok_def)
  obtain u where u: "get_char env st = Inr (CHR ''F'', u)" "fine u" "inp u = f @ NUL # i"
    using get_char_goes [OF assms(1,3), of env] by blast
  obtain v where v: "bput env Intd ''F'' u = Inr v" "fine v" "inp v = f @ NUL # i"
    using bput_goes_to [OF u(2,3)] by blast
  let ?v = "v\<lparr>chkaddr := chkaddr v @ [NUL]\<rparr>"
  have 1: "fine ?v" "inp ?v = f @ NUL # i" using v by simp_all
  obtain w where w: "address env (put env Intd) (CHR ''F'') 0 ADDR ?v = Inr (0 + length f, w)" "fine w" "inp w = i"
    using address_goes [where env = env and puts = "put env Intd" and ch = "CHR ''F''" and len = 0, OF put_goes 1(1) f 1(2)] by blast
  have "goes i (tap env w)" using tap_goes [OF w(2), of env] w(3) by simp
  then show ?thesis using u(1) v(1) w(1) f(2) by (simp add: sender_def)
qed

lemma copy_message_goes:
  assumes "fine st" "\<not> fails env Fsync_mess"
  shows "\<exists>v. copy_message env st = Inr v"
proof -
  obtain u where u: "bput env Mess (receivedfmt env) st = Inr u" "fine u"
    using bput_goes_to [OF assms(1) refl] by blast
  have inv: "in_inv (ssin u)" "out_inv (ssout u)" "\<not> fd_bad (sw (ssin u))" "Out_fail \<notin> set (fst (sw (ssout u)))"
    using u(2) by (simp_all add: fine_def ready_def)
  from inv(1,2) obtain so si where c: "substdio_copy fd_write fd_read (ssout u) (ssin u) = Some (0, so, si)" "out_inv so"
  proof (cases rule: fdc.copy_outcome)
    case (3 so si)
    then show thesis using fds.copy_steady [OF 3(1)] inv(4) by simp
  qed (use inv(3) in auto)
  have "Out_fail \<notin> set (fst (sw so))" using fds.copy_steady [OF c(1)] inv(4) by simp
  then have "\<exists>v. flush env Mess (noted Mess so (u\<lparr>ssin := si\<rparr>)) = Inr v"
    using c(2) by (intro flush_returns) (simp_all add: noted_def set_dir_def)
  then show ?thesis using u(1) c(1) assms(2) by (auto simp: copy_message_def Let_def)
qed

lemma copy_envelope_goes:
  assumes "fine st" "\<not> fails env Fsync_intd" "list_all address_ok (f # rs)"
    "inp st = ''F'' @ f @ [NUL] @ concat (map record_text rs) @ [NUL] @ rest"
  shows "\<exists>v. copy_envelope env st = Inr v"
proof -
  let ?i = "concat (map record_text rs) @ NUL # rest"
  obtain u where u: "bputs env Intd [''u'', fmt_ulong (uid env), [NUL], ''p'', fmt_ulong (mypid env), [NUL]] st = Inr u"
      "fine u" "inp u = CHR ''F'' # (f @ NUL # ?i)"
    using bputs_goes [OF assms(1), of env Intd "[''u'', fmt_ulong (uid env), [NUL], ''p'', fmt_ulong (mypid env), [NUL]]"] assms(4)
    unfolding goes_def by auto
  obtain v where v: "sender env u = Inr v" "fine v" "inp v = ?i"
    using sender_goes [OF u(2) _ u(3), of env] assms(3) by (auto simp: goes_def)
  have "length rs \<le> length (concat (map record_text rs))"
    by (induction rs) (simp_all add: record_text_def)
  then have "length rs < length (inp v) + 1" using v(3) by simp
  from recipients_goes [OF v(2) _ v(3) this, of env] assms(3)
  obtain w where w: "recipients env (length (inp v) + 1) v = Inr w" "fine w" by (auto simp: goes_def)
  obtain x where "flush env Intd w = Inr x" using flush_returns [of w env Intd] w(2) by (auto simp: fine_def ready_def)
  then show ?thesis using u(1) v(1) w(1) assms(2) by (simp add: copy_envelope_def del: bputs.simps)
qed

lemma pid_loop_goes: "\<exists>seq \<in> set seqs. \<not> pid_taken env seq \<Longrightarrow> \<forall>seq \<in> set seqs. length (pidfmt env seq) = length (pidfmt env 1) \<Longrightarrow>
    \<exists>v. pid_loop env seqs st = Inr v"
  by (induction seqs) auto

lemma pidfmt_one_digit: "seq \<in> set [1..<10] \<Longrightarrow> length (pidfmt env seq) = length (pidfmt env 1)"
  using fmt_ulong_rec [of seq] fmt_ulong_rec [of 1] by (auto simp: pidfmt_def)

text \<open>What a run needs: no call fails, one of the nine names \<open>pid/...\<close> is free, and the descriptors deliver and take everything.\<close>

definition healthy :: "qenv \<Rightarrow> bool" where
  "healthy env \<longleftrightarrow> fails env = (\<lambda>_. False) \<and> (\<exists>seq \<in> set [1..<10]. \<not> pid_taken env seq) \<and> \<not> fd_bad (in0 env) \<and> \<not> fd_bad (in1 env) \<and>
     Out_fail \<notin> set (mess_script env) \<and> Out_fail \<notin> set (intd_script env)"

lemma make_mess_goes:
  assumes "healthy env"
  shows "\<exists>v. make_mess env start = Inr v \<and> fine v \<and> blank v \<and> messlink (dir v) \<and> inp v = fd_left (in0 env) \<and> outp v = []"
proof -
  obtain u where u: "pidopen env start = Inr u"
  proof -
    have "\<exists>seq \<in> set [1..<10]. \<not> pid_taken env seq" "\<not> fails env Alloc_pidfn" using assms by (simp_all add: healthy_def del: upt_rec_numeral set_upt)
    moreover have "\<forall>seq \<in> set [1..<10]. length (pidfmt env seq) = length (pidfmt env 1)" using pidfmt_one_digit by blast
    ultimately show thesis using that pid_loop_goes [of "[1..<10]" env start] unfolding pidopen_def by (metis (full_types))
  qed
  obtain v where v: "make_mess env start = Inr v" "sw (ssin v) = in0 env" "sw (ssout v) = (mess_script env, [])"
    using assms u by (simp add: make_mess_def healthy_def Let_def substdio_fdbuf_def)
  then show ?thesis using make_mess_done [of env] assms by (simp add: fine_def healthy_def)
qed

lemma healthy_accepts:
  assumes "healthy env" "list_all address_ok (f # rs)"
    "fd_left (in1 env) = ''F'' @ f @ [NUL] @ concat (map record_text rs) @ [NUL] @ rest"
  shows "fst (qmail_queue env) = Exit 0"
proof -
  obtain u where u: "make_mess env start = Inr u" "fine u" "blank u" "messlink (dir u)" "inp u = fd_left (in0 env)" "outp u = []"
    using make_mess_goes [OF assms(1)] by blast
  obtain v where v: "copy_message env u = Inr v"
    using copy_message_goes [OF u(2), of env] assms(1) by (auto simp: healthy_def)
  have "message_done env v \<and> chkaddr v = chkaddr u \<and> tapped v = tapped u"
    using copy_message_done [of u env] u(2,4-6) v by (simp add: fine_def)
  then have mv: "message_done env v" "blank v" using u(3) by (simp_all add: blank_def message_done_def)
  obtain w where w: "make_intd env v = Inr w" "sw (ssin w) = in1 env" "sw (ssout w) = (intd_script env, [])"
    using assms(1) by (simp add: make_intd_def healthy_def substdio_fdbuf_def)
  then have "fine w" "inp w = fd_left (in1 env)" using make_intd_done [OF mv] assms(1) by (simp_all add: fine_def healthy_def)
  then obtain x where x: "copy_envelope env w = Inr x"
    using copy_envelope_goes [of w env f rs rest] assms by (auto simp: healthy_def)
  show ?thesis using u(1) v w(1) x assms(1) by (simp add: qmail_queue_def healthy_def die_def)
qed

section \<open>Properties\<close>

text \<open>C18: A message enters the queue whole or not at all. Whatever fails, at every moment at which \<open>todo\<close> is there, \<open>mess\<close> is there too, with the
  Received line and every byte of standard input, and the envelope holds the sender and all recipients that were given, and both have been
  forced to the disk. The program never hangs, and its exit code is 0 exactly if the message is in the queue.\<close>

theorem queue_atomic:
  "case qmail_queue env of (e, st) \<Rightarrow>
     (\<exists>code. e = Exit code \<and> (code = 0 \<longleftrightarrow> todolink (dir st))) \<and>
     (\<forall>d \<in> set (trail st @ [dir st]). todolink d \<longrightarrow>
        messlink d \<and> messsync d \<and> messdata d = receivedfmt env @ fd_left (in0 env) \<and> intdsync d \<and>
        (\<exists>f rs rest. fd_left (in1 env) = ''F'' @ f @ [NUL] @ concat (map (\<lambda>r. ''T'' @ r @ [NUL]) rs) @ [NUL] @ rest \<and>
           list_all address_ok (f # rs) \<and> intddata d = todo_text env f rs))"
proof -
  obtain e st where q: "qmail_queue env = (e, st)" by fastforce
  have "gave_up (e, st) \<or> queued_end env (e, st)" using qmail_queue_end [of env] q by simp
  then show ?thesis
  proof
    assume "gave_up (e, st)"
    then show ?thesis by (auto simp: q gave_up_def unqueued_def)
  next
    assume "queued_end env (e, st)"
    then obtain s where s: "e = Exit 0" "envelope_done env s" "st = set_dir (\<lambda>d. d\<lparr>todolink := True\<rparr>) s"
      by (auto simp: queued_end_def)
    then have "\<forall>d \<in> set (trail s @ [dir s]). \<not> todolink d" by (auto simp: envelope_done_def message_done_def unqueued_def)
    moreover have rt: "(\<lambda>r. ''T'' @ r @ [NUL]) = record_text" by (simp add: fun_eq_iff record_text_def)
    ultimately show ?thesis using s unfolding q prod.case rt
      by (auto simp: set_dir_def envelope_done_def message_done_def)
  qed
qed

text \<open>Reads and writes that are split and interrupted, one name that is taken, and a recipient.\<close>

definition demo_env :: qenv where
  "demo_env = \<lparr>fails = (\<lambda>_. False), pid_taken = (\<lambda>seq. seq = 1), mypid = 7, uid = 0, auto_uida = 1, auto_uidd = 2, auto_uids = 3,
     starttime = 0, localtime = datetime_tai, in0 = [Chunk ''hi'', In_intr, Chunk [LF]], in1 = [Chunk (''Fa'' @ [NUL] @ ''T''), Chunk (''b'' @ [NUL, NUL])],
     mess_script = [Out_intr, Takes 3], intd_script = [Takes 1], taps = [], behind_taps = [NUL], tapmatch = (\<lambda>_ _. 0)\<rparr>"

lemma demo_healthy: "healthy demo_env"
  by (simp add: healthy_def demo_env_def) (auto intro: bexI [of _ 2])

lemma demo_text: "fd_left (in0 demo_env) = ''hi'' @ [LF]"
    "fd_left (in1 demo_env) = ''F'' @ ''a'' @ [NUL] @ concat (map record_text [''b'']) @ [NUL] @ []"
  by (simp_all add: demo_env_def record_text_def)

lemma demo_addresses: "list_all address_ok [''a'', ''b'']"
  by (simp add: address_ok_def ADDR_def)

theorem queue_atomic_witness:
  "\<exists>d \<in> set (trail (snd (qmail_queue demo_env)) @ [dir (snd (qmail_queue demo_env))]).
     todolink d \<and> messlink d \<and> messsync d \<and> messdata d = receivedfmt demo_env @ ''hi'' @ [LF]"
proof -
  have e: "fst (qmail_queue demo_env) = Exit 0" using healthy_accepts [OF demo_healthy demo_addresses demo_text(2)] .
  obtain st where q: "qmail_queue demo_env = (Exit 0, st)" using e by (cases "qmail_queue demo_env") simp
  then show ?thesis using queue_atomic [of demo_env] demo_text(1) by (auto simp: q)
qed

text \<open>C25: A message that can be queued is queued. If no system call fails, one of the nine names under \<open>pid\<close> is free, both descriptors
  can be read and written to the end (in pieces of any size, with interrupts), and descriptor 1 holds a sender, any number of recipients and
  the closing NUL, none of them with a NUL or of 1003 bytes and more, then the program exits with 0.\<close>

theorem queue_accepts:
  assumes "fails env = (\<lambda>_. False)" "\<exists>seq \<in> {1..9}. \<not> pid_taken env seq" "\<not> fd_bad (in0 env)" "\<not> fd_bad (in1 env)"
    "Out_fail \<notin> set (mess_script env)" "Out_fail \<notin> set (intd_script env)"
    "fd_left (in1 env) = ''F'' @ f @ [NUL] @ concat (map (\<lambda>r. ''T'' @ r @ [NUL]) rs) @ [NUL] @ rest"
    "\<forall>x \<in> set (f # rs). NUL \<notin> set x \<and> length x < 1003"
  shows "fst (qmail_queue env) = Exit 0"
proof -
  have rt: "(\<lambda>r. ''T'' @ r @ [NUL]) = record_text" by (simp add: fun_eq_iff record_text_def)
  have "healthy env" using assms(1-6) unfolding healthy_def by (auto simp del: upt_rec_numeral)
  moreover have "list_all address_ok (f # rs)" using assms(8) by (simp add: list_all_iff address_ok_def ADDR_def)
  ultimately show ?thesis using healthy_accepts assms(7) [unfolded rt] by blast
qed

theorem queue_accepts_witness: "fst (qmail_queue demo_env) = Exit 0"
  by (rule queue_accepts [of demo_env "''a''" "[''b'']" "[]"]) (auto simp: demo_env_def intro: bexI [of _ 2])

end
