(* ===== verification/Lines.thy ===== *)
theory Lines
  imports Headerbody Steady
begin

text \<open>
  All that \<open>getln\<close> can do, with a descriptor and an allocator that may fail: it returns, and delivers the bytes up to the separator
  or to the end, or \<open>-1\<close>. A file that is read while it is written to is a reader as well: \<open>file_read\<close> reads the current content
  behind an offset.
\<close>

lemma line_split: "c \<notin> set l \<Longrightarrow> takeWhile (\<lambda>x. x \<noteq> c) (l @ c # s) = l"  "c \<notin> set l \<Longrightarrow> dropWhile (\<lambda>x. x \<noteq> c) (l @ c # s) = c # s"
  by (induction l) auto

context reader
begin

lemma getln2_loop_any:
  assumes "in_inv ss"
  shows "\<exists>r ss' sa' cont. getln2_loop mem op ss sa sep = Some (r, ss', sa', cont) \<and> in_inv ss' \<and> bad (sw ss') = bad (sw ss) \<and>
     (r = - 1 \<and> (bad (sw ss) \<or> (\<exists>n. \<not> mem n)) \<or>
      r = 0 \<and> (\<exists>x. sa' = sa @ x \<and> stream ss = x @ cont @ stream ss' \<and> sep \<notin> set x \<and>
         (if cont = [] then stream ss' = [] else \<exists>y. cont = y @ [sep] \<and> sep \<notin> set y)))"
  using assms
proof (induction "length (stream ss)" arbitrary: ss sa rule: less_induct)
  case less
  from less.prems show ?case
  proof (cases rule: feed_outcome)
    case (1 s')
    let ?x = "take (sp s') (substdio_peek s')" let ?i = "byte_chr ?x sep" let ?n = "substdio_seek s' (sp s')"
    have sk: "stream ss = ?x @ stream ?n" "length ?x = sp s'" "in_inv ?n" "bad (sw ?n) = bad (sw ss)"
      using seek_stream [of s' "sp s'"] 1 by simp_all
    have ln: "getln2_loop mem op ss sa sep = (if ?i < sp s' then Some (0, substdio_seek s' (?i + 1), sa, take (?i + 1) ?x)
        else if \<not> mem (length sa + sp s') then Some (- 1, s', sa, []) else getln2_loop mem op ?n (sa @ ?x) sep)"
      using 1 by (subst getln2_loop.simps) (simp add: Let_def substdio_get_def getthis_all)
    show ?thesis
    proof (cases "sep \<in> set ?x")
      case True
      then have i: "?i < sp s'" using byte_chr_less_iff [of ?x sep] sk(2) by simp
      let ?m = "substdio_seek s' (?i + 1)"
      have m: "in_inv ?m" "stream s' = take (?i + 1) (substdio_peek s') @ stream ?m" "sw ?m = sw s'"
        using seek_stream [of s' "?i + 1"] i 1 by simp_all
      define t where "t = takeWhile (\<lambda>c. c \<noteq> sep) ?x"
      have t: "take (?i + 1) ?x = t @ [sep]" "sep \<notin> set t" using take_Suc_byte_chr [OF True] by (auto simp: t_def dest: set_takeWhileD)
      have "take (?i + 1) (substdio_peek s') = take (?i + 1) ?x" using i by (simp add: min_def)
      then have "stream ss = (t @ [sep]) @ stream ?m" using m(2) 1(4) unfolding t(1) by simp
      then have "\<exists>x. sa = sa @ x \<and> stream ss = x @ (t @ [sep]) @ stream ?m \<and> sep \<notin> set x \<and>
         (if t @ [sep] = [] then stream ?m = [] else \<exists>y. t @ [sep] = y @ [sep] \<and> sep \<notin> set y)"
        using t(2) by simp
      moreover have "getln2_loop mem op ss sa sep = Some (0, ?m, sa, t @ [sep])" using ln i unfolding t(1) by simp
      moreover have "bad (sw ?m) = bad (sw ss)" using m(3) 1(5) by simp
      ultimately show ?thesis using m(1) by blast
    next
      case False
      then have i: "\<not> ?i < sp s'" using byte_chr_miss [OF False] sk(2) by linarith
      show ?thesis
      proof (cases "mem (length sa + sp s')")
        case True
        have "length (stream ?n) < length (stream ss)" using sk(1,2) 1(3) by simp
        note IH = less.hyps [OF this sk(3), of "sa @ ?x"]
        then obtain r ss' sa' cont where *: "getln2_loop mem op ?n (sa @ ?x) sep = Some (r, ss', sa', cont)" "in_inv ss'"
          "bad (sw ss') = bad (sw ?n)" "r = - 1 \<and> (bad (sw ?n) \<or> (\<exists>n. \<not> mem n)) \<or>
            r = 0 \<and> (\<exists>x. sa' = (sa @ ?x) @ x \<and> stream ?n = x @ cont @ stream ss' \<and> sep \<notin> set x \<and>
         (if cont = [] then stream ss' = [] else \<exists>y. cont = y @ [sep] \<and> sep \<notin> set y))" by blast
        have g: "getln2_loop mem op ss sa sep = Some (r, ss', sa', cont)" using ln i True *(1) by simp
        show ?thesis
        proof (cases "r = - 1")
          case True
          then show ?thesis using g *(2-4) sk(4) by auto
        next
          case neq: False
          then obtain x where "r = 0" "sa' = sa @ ?x @ x" "stream ss = (?x @ x) @ cont @ stream ss'" "sep \<notin> set (?x @ x)"
            "if cont = [] then stream ss' = [] else \<exists>y. cont = y @ [sep] \<and> sep \<notin> set y"
            using *(4) False sk(1) by auto
          then show ?thesis using g *(2,3) sk(4) by blast
        qed
      next
        case nomem: False
        then show ?thesis using ln i 1(2,5) by auto
      qed
    qed
  next
    case (2 s')
    then show ?thesis using less.prems by (subst getln2_loop.simps) simp
  next
    case (3 s')
    then show ?thesis using less.prems by (subst getln2_loop.simps) simp
  qed
qed

lemma getln_any:
  assumes "in_inv ss"
  obtains (fail) ss' sa' where "getln mem op ss sa m sep = Some (- 1, ss', sa', m)" "bad (sw ss) \<or> (\<exists>n. \<not> mem n)"
  | (line) ss' l where "getln mem op ss sa m sep = Some (0, ss', l @ [sep], True)" "sep \<notin> set l"
      "stream ss = l @ sep # stream ss'" "in_inv ss'" "bad (sw ss') = bad (sw ss)"
  | (rest) ss' where "getln mem op ss sa m sep = Some (0, ss', stream ss, False)" "sep \<notin> set (stream ss)" "stream ss' = []"
      "in_inv ss'" "bad (sw ss') = bad (sw ss)"
proof (cases "mem 0")
  case False
  then show thesis using that(1) by (auto simp: getln_def getln2_def)
next
  case True
  from getln2_loop_any [OF assms, of mem "[]" sep] obtain r ss' sa' cont where
    *: "getln2_loop mem op ss [] sep = Some (r, ss', sa', cont)" "in_inv ss'" "bad (sw ss') = bad (sw ss)"
    "r = - 1 \<and> (bad (sw ss) \<or> (\<exists>n. \<not> mem n)) \<or> r = 0 \<and> (\<exists>x. sa' = [] @ x \<and> stream ss = x @ cont @ stream ss' \<and> sep \<notin> set x \<and>
         (if cont = [] then stream ss' = [] else \<exists>y. cont = y @ [sep] \<and> sep \<notin> set y))" by blast
  have g: "getln mem op ss sa m sep = Some (if r = - 1 then (- 1, ss', sa', m)
                else if cont = [] then (0, ss', sa', False)
                else if \<not> mem (length sa' + length cont + 1) then (- 1, ss', sa', m)
                else (0, ss', sa' @ cont, True))"
    using True *(1) by (simp add: getln_def getln2_def)
  show thesis
  proof (cases "r = - 1")
    case True
    then show thesis using that(1) g *(4) by simp
  next
    case False
    then have x: "stream ss = sa' @ cont @ stream ss'" "sep \<notin> set sa'" "if cont = [] then stream ss' = [] else \<exists>y. cont = y @ [sep] \<and> sep \<notin> set y"
      using *(4) by auto
    show thesis
    proof (cases "cont = []")
      case True
      then show thesis using that(3) [of ss'] g x *(2,3) False by simp
    next
      case ne: False
      then obtain y where y: "cont = y @ [sep]" "sep \<notin> set y" using x(3) by auto
      show thesis
      proof (cases "mem (length sa' + length cont + 1)")
        case True
        then show thesis using that(2) [of ss' "sa' @ y"] g x y ne False *(2,3) by simp
      next
        case nomem: False
        then show thesis using that(1) g ne False by auto
      qed
    qed
  qed
qed

end

section \<open>A file that is written to while it is read\<close>

text \<open>\<open>read\<close> on a descriptor at offset \<open>off\<close> of a file with the given content; \<open>broken\<close> reads fail.\<close>

definition file_read :: "bool \<Rightarrow> char list \<Rightarrow> nat \<Rightarrow> nat \<Rightarrow> rd \<times> nat" where
  "file_read broken content off n =
     (if broken then (Rd_fail, off) else (let bs = take n (drop off content) in (Got bs, off + length bs)))"

interpretation flr: reader "file_read broken content" "\<lambda>off. drop off content" "\<lambda>_. broken" "\<lambda>_. 0"
proof unfold_locales
  fix off n bs off'
  assume *: "file_read broken content off n = (Got bs, off')" "0 < n"
  then have "bs = take n (drop off content)" "off' = off + length bs" by (auto simp: file_read_def Let_def split: if_split_asm)
  then have "drop off content = bs @ drop off' content"
    by (metis append_take_drop_id add.commute drop_drop length_take min.cobounded2 min_def take_all drop_all nle_le)
  then show "length bs \<le> n \<and> drop off content = bs @ drop off' content \<and> broken = broken \<and> (bs = [] \<longrightarrow> drop off content = [])"
    using * \<open>bs = _\<close> by auto
qed (auto simp: file_read_def Let_def split: if_split_asm)

section \<open>Output without a buffer\<close>

text \<open>After \<open>substdio_putflush\<close> nothing waits in the buffer, and it succeeds if the descriptor takes everything.\<close>

lemma putflush_empties: "substdio_putflush op s buf = Some (ok, s') \<Longrightarrow> sp s' = 0"
  by (auto simp: substdio_putflush_def substdio_flush_def split: option.splits if_splits)

lemma putflush_steady:
  "substdio_putflush fd_write s buf = Some y \<Longrightarrow> Out_fail \<notin> set (fst (sw s)) \<Longrightarrow> fst y \<and> Out_fail \<notin> set (fst (sw (snd y)))"
  unfolding substdio_putflush_def
  by (auto split: option.splits if_splits prod.splits dest!: fds.flush_steady fds.allwrite_steady)

end
