(* ===== verification/Clean.thy ===== *)
theory Clean
  imports Lines Numtext Outcome
begin

text \<open>
  The program that removes files from the queue, \<open>qmail-clean.c\<close>. It reads requests, each a name ending with NUL, and answers with
  one byte. A round of its loop sees the directory \<open>pid\<close>, the clock and the outcome of every \<open>unlink\<close> as they are then (\<open>cround\<close>);
  the process keeps the names it has called \<open>unlink\<close> on. The loop runs with fuel for the bytes of the input, which suffices: every
  round takes at least one.
\<close>

section \<open>State\<close>

datatype unlinked = Gone | Absent | Stuck

record cround =
  piddir :: "(char list \<times> int option) list option"
  clock :: int
  line_mem :: "nat \<Rightarrow> bool"
  unlink_of :: "char list \<Rightarrow> unlinked"

record clean =
  cin :: "fdin list substdio"
  cout :: "(fdout list \<times> char list) substdio"
  unlinks :: "char list list"
  cleanuploop :: nat

record cenv =
  chdirs :: "bool \<times> bool"
  clean_mem :: "nat \<Rightarrow> bool"
  rounds :: "nat \<Rightarrow> cround"
  requests_in :: "fdin list"
  answers_out :: "fdout list"

type_synonym 'a crun = "qend \<times> clean + 'a"

definition unlink :: "char list \<Rightarrow> clean \<Rightarrow> clean" where
  "unlink name st = st\<lparr>unlinks := unlinks st @ [name]\<rparr>"

section \<open>Old pid files\<close>

definition OSSIFIED :: int where "OSSIFIED = 129600"

fun cleanuppid_loop :: "cround \<Rightarrow> (char list \<times> int option) list \<Rightarrow> clean \<Rightarrow> clean" where
  "cleanuppid_loop r [] st = st"
| "cleanuppid_loop r ((d_name, atime) # ds) st =
     (if d_name = ''.'' then cleanuppid_loop r ds st
      else if d_name = ''..'' then cleanuppid_loop r ds st
      else if \<not> line_mem r 4 then cleanuppid_loop r ds st
      else if \<not> line_mem r (4 + length d_name) then cleanuppid_loop r ds st
      else if \<not> line_mem r (5 + length d_name) then cleanuppid_loop r ds st
      else case atime of
             None \<Rightarrow> cleanuppid_loop r ds st
           | Some t \<Rightarrow> (if clock r < t + OSSIFIED then cleanuppid_loop r ds st
                       else cleanuppid_loop r ds (unlink (''pid/'' @ d_name) st)))"

definition cleanuppid :: "cround \<Rightarrow> clean \<Rightarrow> clean" where
  "cleanuppid r st = (case piddir r of None \<Rightarrow> st | Some ds \<Rightarrow> cleanuppid_loop r ds st)"

section \<open>Requests\<close>

definition respond :: "char \<Rightarrow> clean \<Rightarrow> clean crun" where
  "respond s st =
     (case substdio_putflush fd_write (cout st) [s] of
        None \<Rightarrow> Inl (Hang, st)
      | Some (ok, ss) \<Rightarrow> (if ok then Inr (st\<lparr>cout := ss\<rparr>) else Inl (Exit 100, st\<lparr>cout := ss\<rparr>)))"

text \<open>\<open>for (i = 5;i < line.len - 1;++i)\<close>: the \<open>continue\<close> in its body goes on with this loop.\<close>

fun digits_loop :: "char list \<Rightarrow> clean \<Rightarrow> clean crun" where
  "digits_loop [] st = Inr st"
| "digits_loop (c # s) st = (if digitval c > 9 then andthen (respond (CHR ''x'') st) (digits_loop s) else digits_loop s st)"

text \<open>The macro \<open>U\<close> for each of the names, and the answer when all is done.\<close>

fun remove_all :: "cround \<Rightarrow> nat \<Rightarrow> (char list \<times> bool) list \<Rightarrow> clean \<Rightarrow> clean crun" where
  "remove_all r mid [] st = respond (CHR ''+'') st"
| "remove_all r mid ((prefix, flag) # us) st =
     (let name = cstr (fmtqfn prefix mid flag); st = unlink name st
      in if unlink_of r name = Stuck then respond (CHR ''!'') st else remove_all r mid us st)"

definition request :: "cround \<Rightarrow> char list \<Rightarrow> clean \<Rightarrow> clean crun" where
  "request r line st =
     (if length line < 7 then respond (CHR ''x'') st
      else if length line > 100 then respond (CHR ''x'') st
      else if last line \<noteq> NUL then respond (CHR ''x'') st
      else andthen (digits_loop (butlast (drop 5 line)) st) (\<lambda>st.
        let (n, mid) = scan_ulong (drop 5 line) in
        if n = 0 then respond (CHR ''x'') st
        else if byte_equal line 5 ''foop/'' then remove_all r (unat mid) [(''intd/'', False), (''mess/'', True)] st
        else if byte_equal line 4 ''todo/'' then remove_all r (unat mid) [(''intd/'', False), (''todo/'', False)] st
        else respond (CHR ''x'') st))"

section \<open>The loop\<close>

fun clean_loop :: "cenv \<Rightarrow> nat \<Rightarrow> nat \<Rightarrow> char list \<Rightarrow> clean \<Rightarrow> qend \<times> clean" where
  "clean_loop env n 0 line st = (Hang, st)"
| "clean_loop env n (Suc k) line st =
     (let st = (if cleanuploop st \<noteq> 0 then st\<lparr>cleanuploop := cleanuploop st - 1\<rparr> else (cleanuppid (rounds env n) st)\<lparr>cleanuploop := 30\<rparr>)
      in case getln (clean_mem env) fd_read (cin st) line False NUL of
           None \<Rightarrow> (Hang, st)
         | Some (res, ss, line, m) \<Rightarrow>
             (let st = st\<lparr>cin := ss\<rparr>
              in if res = - 1 then (Exit 0, st)
                 else if \<not> m then (Exit 0, st)
                 else case request (rounds env n) line st of
                        Inl e \<Rightarrow> e
                      | Inr st \<Rightarrow> clean_loop env (Suc n) k line st))"

definition clean_start :: "cenv \<Rightarrow> clean" where
  "clean_start env = \<lparr>cin = substdio_fdbuf (requests_in env) (replicate 256 NUL), cout = substdio_fdbuf (answers_out env, []) (replicate 256 NUL),
     unlinks = [], cleanuploop = 0\<rparr>"

definition qmail_clean :: "cenv \<Rightarrow> qend \<times> clean" where
  "qmail_clean env =
     (if \<not> fst (chdirs env) then (Exit 111, clean_start env)
      else if \<not> snd (chdirs env) then (Exit 111, clean_start env)
      else if \<not> clean_mem env 200 then (Exit 111, clean_start env)
      else clean_loop env 0 (length (fd_left (requests_in env)) + 1) [] (clean_start env))"


section \<open>Answers\<close>

definition answered :: "clean \<Rightarrow> char list" where
  "answered st = snd (sw (cout st))"

text \<open>The streams are in order, and no answer waits in the buffer.\<close>

definition tidy :: "clean \<Rightarrow> bool" where
  "tidy st \<longleftrightarrow> in_inv (cin st) \<and> out_inv (cout st) \<and> sp (cout st) = 0"

lemma tidy_updates [simp]: "tidy (unlink name st) = tidy st" "tidy (st\<lparr>cleanuploop := n\<rparr>) = tidy st"
  "cin (unlink name st) = cin st" "cout (unlink name st) = cout st" "cleanuploop (unlink name st) = cleanuploop st"
  "answered (unlink name st) = answered st" "answered (st\<lparr>cleanuploop := n\<rparr>) = answered st" "answered (st\<lparr>cin := ss\<rparr>) = answered st"
  "unlinks (unlink name st) = unlinks st @ [name]"
  by (simp_all add: tidy_def unlink_def answered_def)

lemma respond_tidy:
  assumes "tidy st"
  obtains (ok) ss where "respond c st = Inr (st\<lparr>cout := ss\<rparr>)" "tidy (st\<lparr>cout := ss\<rparr>)" "answered (st\<lparr>cout := ss\<rparr>) = answered st @ [c]"
      "Out_fail \<notin> set (fst (sw (cout st))) \<Longrightarrow> Out_fail \<notin> set (fst (sw ss))"
  | (bad) ss where "respond c st = Inl (Exit 100, st\<lparr>cout := ss\<rparr>)" "Out_fail \<in> set (fst (sw (cout st)))"
proof -
  have "out_inv (cout st)" "sp (cout st) = 0" using assms by (simp_all add: tidy_def)
  then show thesis
  proof (cases rule: fdw.putflush_outcome [of "cout st" "[c]"])
    case (1 ss)
    then show thesis using that(1) [of ss] assms putflush_steady [of "cout st" "[c]"] putflush_empties [OF 1(1)]
      by (simp add: respond_def tidy_def answered_def out_sent_def)
  next
    case (2 ss k)
    then show thesis using that(2) [of ss] putflush_steady [of "cout st" "[c]"] by (auto simp: respond_def)
  qed
qed

section \<open>What a round leaves alone\<close>

text \<open>Names that are removed: old files under \<open>pid\<close>, and files of a message.\<close>

definition message_file :: "char list \<Rightarrow> bool" where
  "message_file name \<longleftrightarrow> (\<exists>mid. name \<in> {''intd/'' @ fmt_ulong mid, ''todo/'' @ fmt_ulong mid, ''mess/'' @ fmt_ulong (mid mod 23) @ ''/'' @ fmt_ulong mid})"

definition old_pid_file :: "cround \<Rightarrow> char list \<Rightarrow> bool" where
  "old_pid_file r name \<longleftrightarrow> (\<exists>ds d t. piddir r = Some ds \<and> (d, Some t) \<in> set ds \<and> d \<noteq> ''.'' \<and> d \<noteq> ''..'' \<and> t + 129600 \<le> clock r \<and> name = ''pid/'' @ d)"

definition removable :: "cenv \<Rightarrow> char list \<Rightarrow> bool" where
  "removable env name \<longleftrightarrow> message_file name \<or> (\<exists>n. old_pid_file (rounds env n) name)"

lemma cstr_fmtqfn: "NUL \<notin> set d \<Longrightarrow> cstr (fmtqfn d mid f) = d @ (if f then fmt_ulong (mid mod 23) @ ''/'' else []) @ fmt_ulong mid"
  by (simp add: fmtqfn_def fmt_str_cstr cstr_nonul cstr_append auto_split_def)

definition removes :: "(char list \<Rightarrow> bool) \<Rightarrow> clean \<Rightarrow> clean \<Rightarrow> bool" where
  "removes P st st' \<longleftrightarrow> (\<exists>us. unlinks st' = unlinks st @ us \<and> (\<forall>u \<in> set us. P u)) \<and> cin st' = cin st \<and> cleanuploop st' = cleanuploop st"

lemma removes_refl: "removes P st st"
  by (simp add: removes_def)

lemma removes_trans: "removes P st st' \<Longrightarrow> removes P st' st'' \<Longrightarrow> removes P st st''"
  by (auto simp: removes_def)

lemma removes_unlink: "P name \<Longrightarrow> removes P st (unlink name st)"
  by (simp add: removes_def)

lemma cleanuppid_loop_old:
  assumes "piddir r = Some ds0" "set ds \<subseteq> set ds0"
  shows "removes (old_pid_file r) st (cleanuppid_loop r ds st) \<and> cout (cleanuppid_loop r ds st) = cout st"
  using assms(2)
proof (induction ds arbitrary: st)
  case (Cons d ds)
  obtain d_name atime where d: "d = (d_name, atime)" by fastforce
  show ?case
  proof (cases "d_name = ''.'' \<or> d_name = ''..'' \<or> \<not> line_mem r 4 \<or> \<not> line_mem r (4 + length d_name) \<or> \<not> line_mem r (5 + length d_name) \<or>
      (case atime of None \<Rightarrow> True | Some t \<Rightarrow> clock r < t + OSSIFIED)")
    case True
    then have "cleanuppid_loop r (d # ds) st = cleanuppid_loop r ds st" by (auto simp: d split: option.splits)
    then show ?thesis using Cons by simp
  next
    case False
    then obtain t where t: "atime = Some t" "\<not> clock r < t + OSSIFIED" by (cases atime) auto
    have "old_pid_file r (''pid/'' @ d_name)"
      using False t assms(1) Cons.prems d by (auto simp: old_pid_file_def OSSIFIED_def)
    then have "removes (old_pid_file r) st (unlink (''pid/'' @ d_name) st)" by (rule removes_unlink)
    moreover have "cleanuppid_loop r (d # ds) st = cleanuppid_loop r ds (unlink (''pid/'' @ d_name) st)" using False t by (simp add: d)
    ultimately show ?thesis using Cons.IH [of "unlink (''pid/'' @ d_name) st"] Cons.prems removes_trans by simp
  qed
qed (simp add: removes_refl)

lemma cleanuppid_old: "removes (old_pid_file r) st (cleanuppid r st) \<and> cout (cleanuppid r st) = cout st"
  using cleanuppid_loop_old [of r] by (cases "piddir r") (auto simp: cleanuppid_def removes_refl)

text \<open>What a request may do: it exits with 100, or returns with some answers; names of message files are removed.\<close>

definition kept :: "clean \<Rightarrow> clean crun \<Rightarrow> bool" where
  "kept st r \<longleftrightarrow> ends (\<lambda>e. fst e = Exit 100 \<and> removes message_file st (snd e)) (\<lambda>st'. tidy st' \<and> removes message_file st st') r"

lemma kept_respond: "tidy st \<Longrightarrow> kept st (respond c st)"
  by (erule respond_tidy [of _ c]) (simp_all add: kept_def removes_def)

lemma kept_from: "removes message_file st st' \<Longrightarrow> kept st' r \<Longrightarrow> kept st r"
  unfolding kept_def by (erule ends_mono) (auto intro: removes_trans)

lemma kept_then: "kept st r \<Longrightarrow> (\<And>st'. tidy st' \<Longrightarrow> kept st' (f st')) \<Longrightarrow> kept st (andthen r f)"
  by (cases r) (auto simp: kept_def [of _ "Inl _"] kept_def [of _ "Inr _"] intro: kept_from)

lemma kept_digits: "tidy st \<Longrightarrow> kept st (digits_loop s st)"
proof (induction s arbitrary: st)
  case Nil
  then show ?case by (simp add: kept_def removes_refl)
next
  case (Cons c s)
  then show ?case by (auto intro: kept_then kept_respond)
qed

lemma kept_remove_all:
  assumes "tidy st" "\<forall>(p, f) \<in> set us. (p, f) \<in> {(''intd/'', False), (''todo/'', False), (''mess/'', True)}"
  shows "kept st (remove_all r mid us st)"
  using assms
proof (induction us arbitrary: st)
  case Nil
  then show ?case by (simp add: kept_respond)
next
  case (Cons u us)
  obtain p f where u: "u = (p, f)" "(p, f) \<in> {(''intd/'', False), (''todo/'', False), (''mess/'', True)}" using Cons.prems(2) by (cases u) auto
  then have "message_file (cstr (fmtqfn p mid f))" by (auto simp: message_file_def cstr_fmtqfn)
  then have r: "removes message_file st (unlink (cstr (fmtqfn p mid f)) st)" by (rule removes_unlink)
  have t: "tidy (unlink (cstr (fmtqfn p mid f)) st)" using Cons.prems(1) by simp
  show ?case using kept_from [OF r kept_respond [OF t]] kept_from [OF r Cons.IH [OF t]] Cons.prems(2) by (simp add: u(1) Let_def)
qed

lemma kept_request: "tidy st \<Longrightarrow> kept st (request r line st)"
proof -
  assume "tidy st"
  have "kept st (andthen (digits_loop (butlast (drop 5 line)) st) (\<lambda>st.
        let (n, mid) = scan_ulong (drop 5 line) in
        if n = 0 then respond (CHR ''x'') st
        else if byte_equal line 5 ''foop/'' then remove_all r (unat mid) [(''intd/'', False), (''mess/'', True)] st
        else if byte_equal line 4 ''todo/'' then remove_all r (unat mid) [(''intd/'', False), (''todo/'', False)] st
        else respond (CHR ''x'') st))" (is "kept st ?r")
    by (rule kept_then [OF kept_digits [OF \<open>tidy st\<close>]])
      (auto simp: Let_def kept_respond simp del: remove_all.simps split: prod.split intro!: kept_remove_all)
  then show ?thesis unfolding request_def using kept_respond [OF \<open>tidy st\<close>] by (simp del: digits_loop.simps)
qed


section \<open>All of a run\<close>

lemma clean_loop_run:
  assumes "tidy st" "\<forall>u \<in> set (unlinks st). removable env u" "length (in_stream fd_left (cin st)) < k"
  shows "\<exists>e st'. clean_loop env n k line st = (Exit e, st') \<and> e \<in> {0, 100} \<and> (\<forall>u \<in> set (unlinks st'). removable env u)"
  using assms
proof (induction k arbitrary: n line st)
  case (Suc k)
  let ?r = "rounds env n"
  define u where "u = (if cleanuploop st \<noteq> 0 then st\<lparr>cleanuploop := cleanuploop st - 1\<rparr> else (cleanuppid ?r st)\<lparr>cleanuploop := 30\<rparr>)"
  have old: "old_pid_file ?r x \<Longrightarrow> removable env x" "message_file x \<Longrightarrow> removable env x" for x by (auto simp: removable_def)
  have u: "cin u = cin st" "cout u = cout st" "\<forall>x \<in> set (unlinks u). removable env x"
    using cleanuppid_old [of ?r st] Suc.prems(2) old(1) by (auto simp: u_def removes_def)
  then have tu: "tidy u" using Suc.prems(1) by (simp add: tidy_def)
  have step: "clean_loop env n (Suc k) line st =
      (case getln (clean_mem env) fd_read (cin u) line False NUL of
           None \<Rightarrow> (Hang, u)
         | Some (res, ss, line, m) \<Rightarrow>
             (if res = - 1 then (Exit 0, u\<lparr>cin := ss\<rparr>)
                 else if \<not> m then (Exit 0, u\<lparr>cin := ss\<rparr>)
                 else case request ?r line (u\<lparr>cin := ss\<rparr>) of
                        Inl e \<Rightarrow> e
                      | Inr st \<Rightarrow> clean_loop env (Suc n) k line st))"
    unfolding clean_loop.simps Let_def u_def by (rule refl)
  have "in_inv (cin u)" using tu by (simp add: tidy_def)
  then show ?case
  proof (cases rule: fdr.getln_any [where mem = "clean_mem env" and sa = line and m = False and sep = NUL])
    case (line ss l)
    let ?v = "u\<lparr>cin := ss\<rparr>"
    have tv: "tidy ?v" using tu line by (simp add: tidy_def)
    have "kept ?v (request ?r (l @ [NUL]) ?v)" by (rule kept_request [OF tv])
    show ?thesis
    proof (cases "request ?r (l @ [NUL]) ?v")
      case (Inl e)
      then show ?thesis using \<open>kept _ _\<close> u(3) old(2) line(1) unfolding step by (cases e) (auto simp: kept_def removes_def)
    next
      case (Inr w)
      then have w: "tidy w" "removes message_file ?v w" using \<open>kept _ _\<close> by (simp_all add: kept_def)
      have "\<forall>x \<in> set (unlinks w). removable env x" using w(2) u(3) old(2) by (auto simp: removes_def)
      moreover have "length (in_stream fd_left (cin w)) < k"
        using w(2) line(3) u(1) Suc.prems(3) by (simp add: removes_def)
      ultimately show ?thesis using Suc.IH [OF w(1), of "Suc n" "l @ [NUL]"] line(1) Inr unfolding step by simp
    qed
  qed (simp_all add: step u(3) del: clean_loop.simps)
qed simp

lemma clean_start_tidy: "tidy (clean_start env)" "unlinks (clean_start env) = []"
    "in_stream fd_left (cin (clean_start env)) = fd_left (requests_in env)"
  by (simp_all add: clean_start_def tidy_def fdr.stream_fdbuf fdw.sent_fdbuf) (simp add: substdio_fdbuf_def)

section \<open>Requests that the queue manager makes\<close>

text \<open>A request is to remove what is left of a message (\<open>foop\<close>) or its envelope (\<open>todo\<close>).\<close>

datatype want = Foop | Todo

definition want_text :: "want \<times> nat \<Rightarrow> char list" where
  "want_text w = fmtqfn (case fst w of Foop \<Rightarrow> ''foop/'' | Todo \<Rightarrow> ''todo/'') (snd w) False"

definition want_files :: "want \<times> nat \<Rightarrow> char list list" where
  "want_files w = [''intd/'' @ fmt_ulong (snd w), case fst w of Foop \<Rightarrow> ''mess/'' @ fmt_ulong (snd w mod 23) @ ''/'' @ fmt_ulong (snd w) | Todo \<Rightarrow> ''todo/'' @ fmt_ulong (snd w)]"

definition want_answer :: "cround \<Rightarrow> want \<times> nat \<Rightarrow> char" where
  "want_answer r w = (if \<exists>f \<in> set (want_files w). unlink_of r f = Stuck then CHR ''!'' else CHR ''+'')"

lemma fmt_ulong_length: "u < 10 ^ n \<Longrightarrow> 0 < n \<Longrightarrow> length (fmt_ulong u) \<le> n"
proof (induction n arbitrary: u)
  case (Suc n)
  show ?case
  proof (cases "u < 10")
    case True
    then show ?thesis by (simp add: fmt_ulong_rec [of u])
  next
    case False
    then have "n \<noteq> 0" using Suc.prems(1) by (cases n) auto
    moreover have "u div 10 < 10 ^ n" using Suc.prems(1) by (simp add: less_mult_imp_div_less mult.commute)
    ultimately show ?thesis using Suc.IH [of "u div 10"] False by (simp add: fmt_ulong_rec [of u])
  qed
qed simp

lemma digits_loop_none: "\<forall>c \<in> set s. digitval c < 10 \<Longrightarrow> digits_loop s st = Inr st"
  by (induction s) auto

lemma request_want:
  assumes "snd w < 2 ^ 32"
  shows "request r (want_text w) st =
     remove_all r (snd w) [(''intd/'', False), case fst w of Foop \<Rightarrow> (''mess/'', True) | Todo \<Rightarrow> (''todo/'', False)] st"
proof -
  obtain k mid where w: "w = (k, mid)" by fastforce
  define p where "p = (case k of Foop \<Rightarrow> ''foop/'' | Todo \<Rightarrow> ''todo/'')"
  have p: "length p = 5" "NUL \<notin> set p" by (cases k; simp add: p_def)+
  have t: "want_text w = p @ fmt_ulong mid @ [NUL]" "drop 5 (want_text w) = fmt_ulong mid @ [NUL]"
    using p by (simp_all add: want_text_def w fmtqfn_def fmt_str_cstr cstr_nonul p_def)
  have "length (fmt_ulong mid) \<le> 10" using fmt_ulong_length [of mid 10] assms w by simp
  moreover have "1 \<le> length (fmt_ulong mid)" using fmt_ulong_neq_Nil [of mid] by (cases "fmt_ulong mid") auto
  ultimately have l: "\<not> length (want_text w) < 7" "\<not> length (want_text w) > 100" "last (want_text w) = NUL" by (simp_all add: t p)
  have "digits_loop (butlast (drop 5 (want_text w))) st = Inr st"
    unfolding t(2) by (simp add: digits_loop_none digits_fmt_ulong)
  moreover have "scan_ulong (drop 5 (want_text w)) = (length (fmt_ulong mid), of_nat mid)"
    unfolding t(2) by (rule scan_fmt_ulong) simp
  moreover have "unat (of_nat mid :: ulong) = mid" using assms w by (simp add: unat_of_nat)
  moreover have "byte_equal (want_text w) 5 ''foop/'' \<longleftrightarrow> k = Foop" "byte_equal (want_text w) 4 ''todo/'' \<longleftrightarrow> k = Todo"
    using p by (cases k; simp add: byte_diff_eq_0_iff t p_def)+
  ultimately show ?thesis using l by (cases k) (simp_all add: request_def w Let_def)
qed


lemma remove_all_answers:
  assumes "tidy st" "Out_fail \<notin> set (fst (sw (cout st)))"
  shows "\<exists>st'. remove_all r mid us st = Inr st' \<and> tidy st' \<and> cin st' = cin st \<and> Out_fail \<notin> set (fst (sw (cout st'))) \<and>
     answered st' = answered st @ [if \<exists>(p, f) \<in> set us. unlink_of r (cstr (fmtqfn p mid f)) = Stuck then CHR ''!'' else CHR ''+'']"
  using assms
proof (induction us arbitrary: st)
  case Nil
  from Nil(1) show ?case by (rule respond_tidy [of _ "CHR ''+''"]) (use Nil in auto)
next
  case (Cons u us)
  obtain p f where u: "u = (p, f)" by fastforce
  let ?st = "unlink (cstr (fmtqfn p mid f)) st"
  have t: "tidy ?st" "Out_fail \<notin> set (fst (sw (cout ?st)))" using Cons.prems by simp_all
  show ?case
  proof (cases "unlink_of r (cstr (fmtqfn p mid f)) = Stuck")
    case True
    from t(1) show ?thesis by (rule respond_tidy [of _ "CHR ''!''"]) (use t True in \<open>auto simp: u Let_def\<close>)
  next
    case False
    then show ?thesis using Cons.IH [OF t] by (simp add: u Let_def)
  qed
qed

lemma request_answers:
  assumes "tidy st" "Out_fail \<notin> set (fst (sw (cout st)))" "snd w < 2 ^ 32"
  shows "\<exists>st'. request r (want_text w) st = Inr st' \<and> tidy st' \<and> cin st' = cin st \<and> Out_fail \<notin> set (fst (sw (cout st'))) \<and>
     answered st' = answered st @ [want_answer r w]"
  using remove_all_answers [OF assms(1,2), of r "snd w" "[(''intd/'', False), case fst w of Foop \<Rightarrow> (''mess/'', True) | Todo \<Rightarrow> (''todo/'', False)]"]
  unfolding request_want [OF assms(3)] by (cases "fst w") (simp_all add: want_answer_def want_files_def cstr_fmtqfn)

lemma want_text_line: "\<exists>l. want_text w = l @ [NUL] \<and> NUL \<notin> set l"
  by (cases "fst w") (simp_all add: want_text_def fmtqfn_def fmt_str_cstr cstr_nonul)

lemma clean_loop_answers:
  assumes "tidy st" "Out_fail \<notin> set (fst (sw (cout st)))" "\<forall>w \<in> set ws. snd w < 2 ^ 32" "\<not> fd_bad (sw (cin st))" "\<forall>n. clean_mem env n"
    "in_stream fd_left (cin st) = concat (map want_text ws)" "length ws < k"
  shows "\<exists>st'. clean_loop env n k line st = (Exit 0, st') \<and> answered st' = answered st @ map (\<lambda>i. want_answer (rounds env (n + i)) (ws ! i)) [0..<length ws]"
  using assms
proof (induction ws arbitrary: n k line st)
  case Nil
  then obtain k' where k: "k = Suc k'" by (cases k) auto
  let ?u = "if cleanuploop st \<noteq> 0 then st\<lparr>cleanuploop := cleanuploop st - 1\<rparr> else (cleanuppid (rounds env n) st)\<lparr>cleanuploop := 30\<rparr>"
  have u: "cin ?u = cin st" "cout ?u = cout st" using cleanuppid_old [of "rounds env n" st] by (auto simp: removes_def)
  then have i: "in_inv (cin ?u)" using Nil by (simp add: tidy_def)
  from fdr.getln_line [OF i, of "clean_mem env" line False NUL] u Nil
  obtain ss where "getln (clean_mem env) fd_read (cin ?u) line False NUL = Some (0, ss, [], False)" by auto
  then show ?case using u by (simp add: k Let_def answered_def split del: if_split)
next
  case (Cons w ws)
  then obtain k' where k: "k = Suc k'" by (cases k) auto
  define u where "u = (if cleanuploop st \<noteq> 0 then st\<lparr>cleanuploop := cleanuploop st - 1\<rparr> else (cleanuppid (rounds env n) st)\<lparr>cleanuploop := 30\<rparr>)"
  have u: "cin u = cin st" "cout u = cout st" using cleanuppid_old [of "rounds env n" st] by (auto simp: removes_def u_def)
  then have tu: "tidy u" "answered u = answered st" using Cons.prems by (simp_all add: tidy_def answered_def)
  obtain l where l: "want_text w = l @ [NUL]" "NUL \<notin> set l" using want_text_line by blast
  have st: "in_stream fd_left (cin u) = l @ NUL # concat (map want_text ws)" using Cons.prems(6) u by (simp add: l)
  have "in_inv (cin u)" "\<not> fd_bad (sw (cin u))" using tu Cons.prems(4) u by (simp_all add: tidy_def)
  from fdr.getln_line [OF this Cons.prems(5), of line False NUL]
  obtain ss where g: "getln (clean_mem env) fd_read (cin u) line False NUL = Some (0, ss, want_text w, True)" "in_inv ss" "\<not> fd_bad (sw ss)"
      "in_stream fd_left ss = concat (map want_text ws)"
    unfolding st line_split [OF l(2)] l(1) by auto
  let ?v = "u\<lparr>cin := ss\<rparr>"
  have tv: "tidy ?v" "Out_fail \<notin> set (fst (sw (cout ?v)))" using tu(1) g(2) u(2) Cons.prems(2) by (simp_all add: tidy_def)
  have "snd w < 2 ^ 32" using Cons.prems(3) by simp
  from request_answers [OF tv this, of "rounds env n"] obtain x where
    x: "request (rounds env n) (want_text w) ?v = Inr x" "tidy x" "cin x = ss" "Out_fail \<notin> set (fst (sw (cout x)))"
       "answered x = answered st @ [want_answer (rounds env n) w]" using tu(2) by auto
  have "clean_loop env n k line st = clean_loop env (Suc n) k' (want_text w) x"
    unfolding k clean_loop.simps u_def [symmetric] Let_def g(1) by (simp add: x(1))
  moreover have "\<exists>st'. clean_loop env (Suc n) k' (want_text w) x = (Exit 0, st') \<and>
      answered st' = answered x @ map (\<lambda>i. want_answer (rounds env (Suc n + i)) (ws ! i)) [0..<length ws]"
    by (rule Cons.IH) (use x g Cons.prems k in auto)
  moreover have "map (\<lambda>i. want_answer (rounds env (n + i)) ((w # ws) ! i)) [0..<length (w # ws)] =
      want_answer (rounds env n) w # map (\<lambda>i. want_answer (rounds env (Suc n + i)) (ws ! i)) [0..<length ws]"
    by (simp add: upt_conv_Cons map_Suc_upt [symmetric] o_def del: upt.simps)
  ultimately show ?case using x(5) by simp
qed


text \<open>A request with something else than digits is refused and carried out all the same: it has two answers.\<close>

lemma request_answers_twice:
  assumes "tidy st" "Out_fail \<notin> set (fst (sw (cout st)))" "\<forall>f. unlink_of r f \<noteq> Stuck"
  shows "\<exists>st'. request r (''foop/1a'' @ [NUL]) st = Inr st' \<and> answered st' = answered st @ ''x+''"
proof -
  have d: "butlast (drop 5 (''foop/1a'' @ [NUL])) = ''1a''" "digitval (CHR ''1'') = 1" "digitval (CHR ''a'') = 49"
    by (simp_all add: digitval_def)
  from assms(1) show ?thesis
  proof (cases rule: respond_tidy [of _ "CHR ''x''"])
    case (ok ss)
    have sc: "scan_ulong (drop 5 (''foop/1a'' @ [NUL])) = (1, 1)" by (simp add: scan_ulong_def d Let_def)
    have "digits_loop (butlast (drop 5 (''foop/1a'' @ [NUL]))) st = Inr (st\<lparr>cout := ss\<rparr>)" unfolding d by (simp add: d ok(1))
    then have "request r (''foop/1a'' @ [NUL]) st = remove_all r 1 [(''intd/'', False), (''mess/'', True)] (st\<lparr>cout := ss\<rparr>)"
      unfolding request_def sc by (simp add: Let_def eval_nat_numeral del: remove_all.simps digits_loop.simps)
    then show ?thesis using remove_all_answers [OF ok(2), of r 1 "[(''intd/'', False), (''mess/'', True)]"] ok(3,4) assms(2,3) by auto
  next
    case (bad ss)
    then show ?thesis using assms(2) by simp
  qed
qed

section \<open>Properties\<close>

text \<open>C28: Whatever it reads, the program ends, and removes nothing but files of a message (\<open>intd\<close>, \<open>todo\<close>, \<open>mess\<close>) and files under \<open>pid\<close>
  that have not been read for 36 hours; never the files with recipients or a bounce.\<close>

theorem clean_only_removes:
  "(\<exists>code. fst (qmail_clean env) = Exit code) \<and> list_all (\<lambda>name.
     message_file name \<or> (\<exists>n ds d t. piddir (rounds env n) = Some ds \<and> (d, Some t) \<in> set ds \<and> t + 129600 \<le> clock (rounds env n) \<and> name = ''pid/'' @ d)) (unlinks (snd (qmail_clean env)))"
proof -
  have "\<exists>e st'. clean_loop env 0 (length (fd_left (requests_in env)) + 1) [] (clean_start env) = (Exit e, st') \<and> e \<in> {0, 100} \<and>
      (\<forall>u \<in> set (unlinks st'). removable env u)"
    by (rule clean_loop_run) (simp_all add: clean_start_tidy)
  then show ?thesis unfolding qmail_clean_def
    by (auto simp: list_all_iff clean_start_tidy removable_def old_pid_file_def simp del: clean_loop.simps)
qed

text \<open>C27: The queue manager and \<open>qmail-clean\<close> stay in step. To a sequence of requests \<open>foop/N\<close> and \<open>todo/N\<close> the program gives exactly one answer
  each, in order: \<open>+\<close> if both files of the request are gone, \<open>!\<close> if one of them cannot be removed.\<close>

theorem clean_answers:
  assumes "fd_left (requests_in env) = concat (map want_text ws)" "\<not> fd_bad (requests_in env)" "\<forall>w \<in> set ws. snd w < 2 ^ 32"
    "chdirs env = (True, True)" "\<forall>n. clean_mem env n" "Out_fail \<notin> set (answers_out env)"
  shows "fst (qmail_clean env) = Exit 0 \<and> answered (snd (qmail_clean env)) = map (\<lambda>i. want_answer (rounds env i) (ws ! i)) [0..<length ws]"
proof -
  have "length ws \<le> length (concat (map want_text ws))"
  proof (induction ws)
    case (Cons w ws)
    then show ?case using want_text_line [of w] by auto
  qed simp
  moreover have "answered (clean_start env) = []" "sw (cin (clean_start env)) = requests_in env" "fst (sw (cout (clean_start env))) = answers_out env"
    by (simp_all add: clean_start_def answered_def substdio_fdbuf_def)
  ultimately show ?thesis
    using clean_loop_answers [of "clean_start env" ws env "length (fd_left (requests_in env)) + 1" 0 "[]"] assms
    by (auto simp: qmail_clean_def clean_start_tidy)
qed

theorem clean_answers_witness:
  "let env = \<lparr>chdirs = (True, True), clean_mem = \<lambda>_. True, rounds = \<lambda>n. \<lparr>piddir = None, clock = 0, line_mem = \<lambda>_. True,
       unlink_of = \<lambda>f. if f = ''todo/5'' then Stuck else Gone\<rparr>,
       requests_in = [Chunk (want_text (Foop, 24)), In_intr, Chunk (want_text (Todo, 5))], answers_out = [Out_intr]\<rparr>
   in answered (snd (qmail_clean env)) = ''+!''"
proof -
  let ?r = "\<lparr>piddir = None, clock = 0, line_mem = \<lambda>_. True, unlink_of = \<lambda>f. if f = ''todo/5'' then Stuck else Gone\<rparr>"
  let ?env = "\<lparr>chdirs = (True, True), clean_mem = \<lambda>_. True, rounds = \<lambda>n. ?r,
       requests_in = [Chunk (want_text (Foop, 24)), In_intr, Chunk (want_text (Todo, 5))], answers_out = [Out_intr]\<rparr>"
  have n: "want_text w \<noteq> []" for w using want_text_line [of w] by auto
  have u: "fmt_ulong 5 = ''5''" by code_simp
  have "want_answer ?r (Foop, 24) = CHR ''+''" "want_answer ?r (Todo, 5) = CHR ''!''"
    by (simp_all add: want_answer_def want_files_def u)
  then show ?thesis using clean_answers [of ?env "[(Foop, 24), (Todo, 5)]"] n by (simp add: Let_def upt_rec)
qed

end
