(* ===== verification/Rewrite.thy ===== *)
theory Rewrite
  imports Constmap Numtext
begin

text \<open>
  How the queue manager rewrites addresses and what it does with them: \<open>rewrite\<close> (\<open>qmail-send.c\<close>, and the same code in
  \<open>qmail-todo.c\<close>), which decides whether a recipient is local or remote and under which name it is delivered, \<open>senderadd\<close>,
  \<open>stripvdomprepend\<close>, the paragraph that \<open>addbounce\<close> adds to a bounce, the retry times, and \<open>logsafe\<close> (\<open>qsutil.c\<close>).
  The control files are \<open>constmap\<close>s with the buffers they point into. A \<open>stralloc\<close> operation fails if \<open>mem\<close> denies the size.
  The lemmas relate the index loops to a description by parts of the address, and bound the retry times.
\<close>

section \<open>The tables\<close>

text \<open>What \<open>constmap\<close> returns, as the string that is pointed to. The search returns on every table that \<open>constmap_init\<close> has built.\<close>

definition cm_value :: "built \<Rightarrow> char list \<Rightarrow> char list option" where
  "cm_value t k = (case t of (buf, fc, cm) \<Rightarrow> case constmap buf cm k of Some (Some off) \<Rightarrow> Some (cstr (drop off buf)) | _ \<Rightarrow> None)"

record controls =
  envnoathost :: "char list"
  mappercenthack :: built
  maplocals :: built
  mapvdoms :: built

definition cat :: "(nat \<Rightarrow> bool) \<Rightarrow> char list \<Rightarrow> char list \<Rightarrow> char list option" where
  "cat mem sa s = (if mem (length sa + length s) then Some (sa @ s) else None)"

section \<open>Rewriting\<close>

text \<open>\<open>while (constmap(&mappercenthack,...))\<close>, from the last \<open>@\<close> at \<open>i\<close>.\<close>

function percent_loop :: "built \<Rightarrow> char list \<Rightarrow> nat \<Rightarrow> char list" where
  "percent_loop t addr i =
     (if cm_value t (drop (i + 1) addr) \<noteq> None
      then let j = byte_rchr (take i addr) (CHR ''%'')
           in if j = i then addr else percent_loop t ((take i addr)[j := CHR ''@'']) j
      else addr)"
  by pat_completeness auto
termination
proof (relation "measure (\<lambda>(t, addr, i). i)", simp)
  fix t addr i j
  assume "cm_value t (drop (i + 1) addr) \<noteq> None" "j = byte_rchr (take i addr) (CHR ''%'')" "j \<noteq> i"
  moreover have "byte_rchr (take i addr) (CHR ''%'') \<le> length (take i addr)" by (rule byte_rchr_le)
  ultimately have "j < i" by simp
  then show "((t, (take i addr)[j := CHR ''@''], j), t, addr, i) \<in> measure (\<lambda>(t, addr, i). i)" by simp
qed

declare percent_loop.simps [simp del]

text \<open>The loop over the positions of a virtual domain.\<close>

fun vdom_loop :: "built \<Rightarrow> char list \<Rightarrow> nat \<Rightarrow> nat list \<Rightarrow> char list option" where
  "vdom_loop t addr at [] = None"
| "vdom_loop t addr at (i # is) =
     (if i = 0 \<or> i = at + 1 \<or> i = length addr \<or> (i > at \<and> addr ! i = CHR ''.'')
      then case cm_value t (drop i addr) of
             Some x \<Rightarrow> (if x = [] then None else Some x)
           | None \<Rightarrow> vdom_loop t addr at is
      else vdom_loop t addr at is)"

text \<open>The result is the return value and \<open>rwline\<close>.\<close>

definition rewrite_steps :: "controls \<Rightarrow> (nat \<Rightarrow> bool) \<Rightarrow> char list \<Rightarrow> (nat \<times> char list) option" where
  "rewrite_steps ctl mem recip =
     Option.bind (cat mem [] ''T'') (\<lambda>rwline.
     Option.bind (cat mem [] (cstr recip)) (\<lambda>addr.
     let i = byte_rchr addr (CHR ''@'') in
     Option.bind (if i = length addr then Option.bind (cat mem addr ''@'') (\<lambda>addr. cat mem addr (envnoathost ctl)) else Some addr) (\<lambda>addr.
     let addr = percent_loop (mappercenthack ctl) addr i; at = byte_rchr addr (CHR ''@'') in
     if cm_value (maplocals ctl) (drop (at + 1) addr) \<noteq> None
     then Option.bind (cat mem rwline addr) (\<lambda>rwline. Option.bind (cat mem rwline [NUL]) (\<lambda>rwline. Some (1, rwline)))
     else case vdom_loop (mapvdoms ctl) addr at [0..<length addr + 1] of
            Some x \<Rightarrow>
              Option.bind (cat mem rwline x) (\<lambda>rwline. Option.bind (cat mem rwline ''-'') (\<lambda>rwline.
              Option.bind (cat mem rwline addr) (\<lambda>rwline. Option.bind (cat mem rwline [NUL]) (\<lambda>rwline. Some (1, rwline)))))
          | None \<Rightarrow>
              Option.bind (cat mem rwline addr) (\<lambda>rwline. Option.bind (cat mem rwline [NUL]) (\<lambda>rwline. Some (2, rwline))))))"

definition rewrite :: "controls \<Rightarrow> (nat \<Rightarrow> bool) \<Rightarrow> char list \<Rightarrow> nat \<times> char list" where
  "rewrite ctl mem recip = (case rewrite_steps ctl mem recip of None \<Rightarrow> (0, []) | Some r \<Rightarrow> r)"

text \<open>\<open>senderadd\<close>: what is added to \<open>sa\<close>; its allocations are tried until they succeed.\<close>

definition senderadd :: "char list \<Rightarrow> char list \<Rightarrow> char list" where
  "senderadd sender recip =
     (let i = str_len sender in
      if i \<ge> 4 \<and> str_diff (drop (i - 4) sender) ''-@[]'' = 0
      then let j = byte_rchr (take (i - 4) sender) (CHR ''@''); k = str_rchr recip (CHR ''@'')
           in if char_at recip k \<noteq> NUL \<and> j + 5 \<le> i
              then take j sender @ take k recip @ ''='' @ cstr (drop (k + 1) recip) @ ''@'' @ take (i - 5 - j) (drop (j + 1) sender)
              else cstr sender
      else cstr sender)"

section \<open>Bounce text and log text\<close>

text \<open>The loop of \<open>stripvdomprepend\<close>.\<close>

fun strip_loop :: "built \<Rightarrow> char list \<Rightarrow> char list \<Rightarrow> nat list \<Rightarrow> char list" where
  "strip_loop t recip domain [] = recip"
| "strip_loop t recip domain (i # is) =
     (if i = 0 \<or> i = str_len domain \<or> char_at domain i = CHR ''.''
      then case cm_value t (cstr (drop i domain)) of
             Some prepend \<Rightarrow>
               (if prepend = [] then recip
                else let i = str_len prepend
                     in if str_diffn recip prepend i \<noteq> 0 then recip
                        else if char_at recip i \<noteq> CHR ''-'' then recip
                        else drop (i + 1) recip)
           | None \<Rightarrow> strip_loop t recip domain is
      else strip_loop t recip domain is)"

definition stripvdomprepend :: "built \<Rightarrow> char list \<Rightarrow> char list" where
  "stripvdomprepend t recip =
     (let i = str_rchr recip (CHR ''@'') in
      if char_at recip i = NUL then recip
      else let domain = drop (i + 1) recip in strip_loop t recip domain [0..<str_len domain + 1])"

text \<open>\<open>for (pos = bouncetext.len - 2;pos > 0;--pos)\<close>; the argument is \<open>pos\<close>.\<close>

fun slash_loop :: "nat \<Rightarrow> char list \<Rightarrow> char list" where
  "slash_loop 0 s = s"
| "slash_loop (Suc p) s = slash_loop p (if s ! Suc p = LF \<and> s ! p = LF then s[Suc p := CHR ''/''] else s)"

definition bounce_paragraph :: "built \<Rightarrow> char list \<Rightarrow> char list \<Rightarrow> char list" where
  "bounce_paragraph t recip report =
     (let text = ''<'' @ cstr (stripvdomprepend t recip);
          text = map (\<lambda>c. if c = LF then CHR ''_'' else c) text;
          text = text @ ''>:'' @ [LF] @ cstr report;
          text = (if char_at report 0 \<noteq> NUL \<and> report ! (str_len report - 1) \<noteq> LF then text @ [LF] else text);
          text = slash_loop (length text - 2) text
      in text @ [LF])"

definition log_issafe :: "char \<Rightarrow> bool" where
  "log_issafe ch = (if ch = CHR ''%'' then False else if sch ch < 33 then False else if sch ch > 126 then False else True)"

definition logsafe :: "char list \<Rightarrow> char list" where
  "logsafe s = map (\<lambda>ch. if ch = LF then CHR ''/'' else if \<not> log_issafe ch then CHR ''_'' else ch) (cstr s)"

section \<open>Retry times\<close>

fun squareroot_loop :: "nat \<Rightarrow> int \<Rightarrow> int \<Rightarrow> int \<Rightarrow> int" where
  "squareroot_loop 0 x y yy = y"
| "squareroot_loop (Suc j) x y yy =
     (let y21 = push_bit (j + 1) y + push_bit (j + j) 1
      in if y21 \<le> x - yy then squareroot_loop j x (y + push_bit j 1) (yy + y21) else squareroot_loop j x y yy)"

definition squareroot :: "int \<Rightarrow> int" where
  "squareroot x = squareroot_loop 16 x 0 0"

text \<open>\<open>chanskip\<close> is 10 for the local and 20 for the remote channel.\<close>

definition nextretry :: "int \<Rightarrow> int \<Rightarrow> int \<Rightarrow> int" where
  "nextretry recent chanskip birth =
     (let n = (if birth > recent then 0 else squareroot (recent - birth)) + chanskip in birth + n * n)"


section \<open>Rewriting by the parts of an address\<close>

definition before :: "char \<Rightarrow> char list \<Rightarrow> char list" where
  "before c s = rev (tl (dropWhile (\<lambda>x. x \<noteq> c) (rev s)))"

definition after :: "char \<Rightarrow> char list \<Rightarrow> char list" where
  "after c s = rev (takeWhile (\<lambda>x. x \<noteq> c) (rev s))"

lemma before_append [simp]: "c \<notin> set t \<Longrightarrow> before c (s @ c # t) = s"
proof -
  assume "c \<notin> set t"
  then have "dropWhile (\<lambda>x. x \<noteq> c) (rev t) = []" by (auto simp: dropWhile_eq_Nil_conv)
  then show ?thesis by (simp add: before_def dropWhile_append)
qed

lemma after_append [simp]: "c \<notin> set t \<Longrightarrow> after c (s @ c # t) = t"
proof -
  assume "c \<notin> set t"
  then have "takeWhile (\<lambda>x. x \<noteq> c) (rev t) = rev t" by (auto simp: takeWhile_eq_all_conv)
  then show ?thesis by (simp add: after_def takeWhile_append)
qed

lemma last_split:
  assumes "c \<in> set s"
  obtains u v where "s = u @ c # v" "c \<notin> set v" "byte_rchr s c = length u" "before c s = u" "after c s = v"
proof -
  from split_list_last [OF assms] obtain u v where "s = u @ c # v" "c \<notin> set v" by blast
  with that show thesis by (simp add: byte_rchr_append)
qed

text \<open>A host under \<open>control/percenthack\<close> hands the address on to the host behind the last percent sign of the box.\<close>

function resolve :: "built \<Rightarrow> char list \<Rightarrow> char list \<Rightarrow> char list" where
  "resolve t box host =
     (if cm_value t host \<noteq> None \<and> CHR ''%'' \<in> set box then resolve t (before (CHR ''%'') box) (after (CHR ''%'') box)
      else box @ CHR ''@'' # host)"
  by pat_completeness auto
termination
proof (relation "measure (\<lambda>(t, box, host). length box)", simp)
  fix t box host
  assume "cm_value t host \<noteq> None \<and> CHR ''%'' \<in> set box"
  then obtain u v where "box = u @ CHR ''%'' # v" "before (CHR ''%'') box = u" by (elim conjE last_split)
  then show "((t, before (CHR ''%'') box, after (CHR ''%'') box), t, box, host) \<in> measure (\<lambda>(t, box, host). length box)" by simp
qed

declare resolve.simps [simp del]

text \<open>The suffixes of a host, from a dot on, down to the empty one.\<close>

fun dot_suffixes :: "char list \<Rightarrow> char list list" where
  "dot_suffixes [] = [[]]"
| "dot_suffixes (c # s) = (if c = CHR ''.'' then (c # s) # dot_suffixes s else dot_suffixes s)"

fun domain_keys :: "char list \<Rightarrow> char list list" where
  "domain_keys [] = [[]]"
| "domain_keys (c # s) = (c # s) # dot_suffixes s"

fun vdom_of :: "built \<Rightarrow> char list list \<Rightarrow> char list option" where
  "vdom_of t [] = None"
| "vdom_of t (k # ks) = (case cm_value t k of None \<Rightarrow> vdom_of t ks | Some x \<Rightarrow> if x = [] then None else Some x)"

definition canonical :: "controls \<Rightarrow> char list \<Rightarrow> char list" where
  "canonical ctl recip =
     (if CHR ''@'' \<in> set recip then resolve (mappercenthack ctl) (before (CHR ''@'') recip) (after (CHR ''@'') recip)
      else resolve (mappercenthack ctl) recip (envnoathost ctl))"

definition rewrite_ref :: "controls \<Rightarrow> char list \<Rightarrow> nat \<times> char list" where
  "rewrite_ref ctl recip =
     (let addr = canonical ctl recip; host = after (CHR ''@'') addr
      in if cm_value (maplocals ctl) host \<noteq> None then (1, ''T'' @ addr @ [NUL])
         else case vdom_of (mapvdoms ctl) (addr # domain_keys host) of
                Some x \<Rightarrow> (1, ''T'' @ x @ ''-'' @ addr @ [NUL])
              | None \<Rightarrow> (2, ''T'' @ addr @ [NUL]))"

lemma percent_loop_resolve: "percent_loop t (box @ CHR ''@'' # host) (length box) = resolve t box host"
proof (induction t box host rule: resolve.induct)
  case (1 t box host)
  show ?case
  proof (cases "cm_value t host \<noteq> None \<and> CHR ''%'' \<in> set box")
    case True
    then obtain u v where uv: "box = u @ CHR ''%'' # v" "CHR ''%'' \<notin> set v" by (elim conjE last_split)
    then have "percent_loop t (u @ CHR ''@'' # v) (length u) = resolve t u v" using 1 [OF True] by simp
    then show ?thesis using True uv
      by (simp add: percent_loop.simps [of t "u @ CHR ''%'' # v @ CHR ''@'' # host"] resolve.simps [of t "u @ CHR ''%'' # v"] byte_rchr_append)
  next
    case False
    then show ?thesis by (auto simp: percent_loop.simps [of t "box @ CHR ''@'' # host"] resolve.simps [of t box] byte_rchr_miss Let_def)
  qed
qed

lemma at_in_resolve: "CHR ''@'' \<in> set (resolve t box host)"
  by (induction t box host rule: resolve.induct) (simp add: resolve.simps)

lemma vdom_loop_skip: "\<forall>i \<in> set is. 0 < i \<and> i \<le> at \<and> i < length addr \<Longrightarrow> vdom_loop t addr at (is @ js) = vdom_loop t addr at js"
proof (induction "is")
  case (Cons i "is")
  then have "i \<noteq> 0" "i \<noteq> at + 1" "i \<noteq> length addr" "\<not> i > at" by auto
  then show ?case using Cons by simp
qed simp

lemma vdom_loop_dots: "i > at + 1 \<Longrightarrow> i \<le> length addr \<Longrightarrow> vdom_loop t addr at [i..<length addr + 1] = vdom_of t (dot_suffixes (drop i addr))"
proof (induction "length addr - i" arbitrary: i)
  case 0
  then have "[i..<length addr + 1] = [i]" by simp
  then show ?case using 0 by (simp split: option.split)
next
  case (Suc n)
  then have d: "drop i addr = addr ! i # drop (Suc i) addr" "[i..<length addr + 1] = i # [Suc i..<length addr + 1]"
    using upt_conv_Cons [of i "length addr + 1"] by (simp_all add: Cons_nth_drop_Suc del: upt.simps)
  have "vdom_loop t addr at [Suc i..<length addr + 1] = vdom_of t (dot_suffixes (drop (Suc i) addr))"
    by (rule Suc.hyps(1)) (use Suc.hyps(2) Suc.prems in auto)
  moreover have "i \<noteq> 0" "i \<noteq> at + 1" "i \<noteq> length addr" "at < i" using Suc.prems Suc.hyps(2) by auto
  ultimately show ?case unfolding d(2) vdom_loop.simps by (simp only: d(1) dot_suffixes.simps) (simp add: d(1) [symmetric])
qed

lemma vdom_loop_keys:
  assumes "addr = box @ CHR ''@'' # host" "box @ CHR ''@'' # host \<noteq> []"
  shows "vdom_loop t addr (length box) [0..<length addr + 1] = vdom_of t (addr # domain_keys host)"
proof -
  let ?at = "length box" let ?n = "length addr + 1"
  have "[0..<?n] = 0 # ([1..<?at + 1] @ [?at + 1..<?n])"
    using upt_add_eq_append [of 1 "?at + 1" "length host + 1"] upt_conv_Cons [of 0 ?n] assms(1) by (simp del: upt.simps split: option.split)
  moreover have "vdom_loop t addr ?at ([1..<?at + 1] @ [?at + 1..<?n]) = vdom_loop t addr ?at [?at + 1..<?n]"
    by (rule vdom_loop_skip) (use assms(1) in auto)
  moreover have "vdom_loop t addr ?at [?at + 1..<?n] = vdom_of t (domain_keys host)"
  proof (cases host)
    case Nil
    then show ?thesis using assms(1) by (simp add: upt_rec [of "?at + 1"] split: option.split)
  next
    case (Cons c h)
    then have l: "[?at + 1..<?n] = (?at + 1) # [?at + 2..<?n]" "?at + 2 \<le> length addr"
      using assms(1) upt_conv_Cons [of "?at + 1" ?n] by (simp_all del: upt.simps)
    have "vdom_loop t addr ?at [?at + 2..<?n] = vdom_of t (dot_suffixes h)"
      using vdom_loop_dots [of ?at "?at + 2" addr t] l(2) assms(1) Cons by (simp del: upt.simps)
    then show ?thesis unfolding l(1) using assms(1) Cons by (simp del: upt.simps split: option.split)
  qed
  ultimately show ?thesis by (simp del: upt.simps split: option.split)
qed

lemma vdom_of_start: "vdom_loop t (box @ CHR ''@'' # host) (length box) [0..<length (box @ CHR ''@'' # host) + 1] =
    vdom_of t ((box @ CHR ''@'' # host) # domain_keys host)"
  by (rule vdom_loop_keys) simp_all

lemma cat_all [simp]: "cat (\<lambda>_. True) sa s = Some (sa @ s)"
  by (simp add: cat_def)

lemma cat_some: "cat mem sa s = Some r \<Longrightarrow> r = sa @ s"
  by (simp add: cat_def split: if_split_asm)

text \<open>The loops over positions do what the description by parts says.\<close>

lemma rewrite_all: "rewrite ctl (\<lambda>_. True) recip = rewrite_ref ctl (cstr recip)"
proof -
  let ?r = "cstr recip" let ?t = "mappercenthack ctl"
  define addr where "addr = canonical ctl ?r"
  have "CHR ''@'' \<in> set addr" by (simp add: addr_def canonical_def at_in_resolve)
  then obtain box host where a: "addr = box @ CHR ''@'' # host" "byte_rchr addr (CHR ''@'') = length box" "after (CHR ''@'') addr = host"
    by (rule last_split)
  have p: "percent_loop ?t (if byte_rchr ?r (CHR ''@'') = length ?r then ?r @ ''@'' @ envnoathost ctl else ?r) (byte_rchr ?r (CHR ''@'')) = addr"
  proof (cases "CHR ''@'' \<in> set ?r")
    case True
    then obtain u v where "?r = u @ CHR ''@'' # v" "byte_rchr ?r (CHR ''@'') = length u" "before (CHR ''@'') ?r = u" "after (CHR ''@'') ?r = v"
      by (rule last_split)
    then show ?thesis using True by (simp add: addr_def canonical_def percent_loop_resolve)
  next
    case False
    then show ?thesis by (simp add: addr_def canonical_def byte_rchr_miss percent_loop_resolve)
  qed
  have l: "rewrite ctl (\<lambda>_. True) recip =
      (let addr = percent_loop ?t (if byte_rchr ?r (CHR ''@'') = length ?r then ?r @ ''@'' @ envnoathost ctl else ?r) (byte_rchr ?r (CHR ''@''));
           at = byte_rchr addr (CHR ''@'')
       in if cm_value (maplocals ctl) (drop (at + 1) addr) \<noteq> None then (1, ''T'' @ addr @ [NUL])
          else case vdom_loop (mapvdoms ctl) addr at [0..<length addr + 1] of
                 Some x \<Rightarrow> (1, ''T'' @ x @ ''-'' @ addr @ [NUL]) | None \<Rightarrow> (2, ''T'' @ addr @ [NUL]))"
    by (auto simp: rewrite_def rewrite_steps_def Let_def split: option.split)
  show ?thesis
    unfolding l p Let_def a(2) rewrite_ref_def addr_def [symmetric] a(3)
    using vdom_of_start [of "mapvdoms ctl" box host] by (simp add: a(1))
qed

text \<open>Memory that is denied makes the result \<open>None\<close> and nothing else.\<close>

definition opt_le :: "'a option \<Rightarrow> 'a option \<Rightarrow> bool" where
  "opt_le x y \<longleftrightarrow> x = None \<or> x = y"

lemma opt_le_refl: "opt_le x x"
  by (simp add: opt_le_def)

lemma opt_le_cat: "opt_le (cat mem sa s) (Some (sa @ s))"
  by (simp add: opt_le_def cat_def)

lemma opt_le_bind:
  assumes "opt_le x y" "\<And>v. opt_le (f v) (g v)"
  shows "opt_le (Option.bind x f) (Option.bind y g)"
proof (cases x)
  case (Some a)
  then have "y = Some a" using assms(1) by (simp add: opt_le_def)
  then show ?thesis using Some assms(2) by simp
qed (simp add: opt_le_def)

lemma opt_le_if: "opt_le x x' \<Longrightarrow> opt_le y y' \<Longrightarrow> opt_le (if b then x else y) (if b then x' else y')"
  by simp

lemma opt_le_case: "opt_le x x' \<Longrightarrow> (\<And>v. opt_le (f v) (f' v)) \<Longrightarrow>
    opt_le (case z of None \<Rightarrow> x | Some v \<Rightarrow> f v) (case z of None \<Rightarrow> x' | Some v \<Rightarrow> f' v)"
  by (cases z) simp_all

lemma rewrite_some: "rewrite ctl mem recip = (0, []) \<or> rewrite ctl mem recip = rewrite ctl (\<lambda>_. True) recip"
proof -
  have "opt_le (rewrite_steps ctl mem recip) (rewrite_steps ctl (\<lambda>_. True) recip)"
    unfolding rewrite_steps_def cat_all Let_def
    by (intro opt_le_bind opt_le_if opt_le_case opt_le_refl opt_le_cat)
  then show ?thesis by (auto simp: opt_le_def rewrite_def)
qed


section \<open>Owner addresses\<close>

lemma senderadd_verp:
  assumes "NUL \<notin> set (f @ h @ b @ d)" "CHR ''@'' \<notin> set h" "CHR ''@'' \<notin> set d"
  shows "senderadd (f @ ''@'' @ h @ ''-@[]'') (b @ ''@'' @ d) = f @ b @ ''='' @ d @ ''@'' @ h"
proof -
  let ?s = "f @ ''@'' @ h @ ''-@[]''" let ?r = "b @ ''@'' @ d"
  have n: "NUL \<notin> set ?s" "NUL \<notin> set ?r" using assms(1) by auto
  have l: "str_len ?s = length f + length h + 5" using cstr_nonul [OF n(1)] by (simp add: str_len_cstr)
  have e: "drop (str_len ?s - 4) ?s = ''-@[]''" unfolding l by simp
  have j: "byte_rchr (take (str_len ?s - 4) ?s) (CHR ''@'') = length f"
    using byte_rchr_append [OF assms(2), of f] unfolding l by simp
  have k: "str_rchr ?r (CHR ''@'') = length b" "char_at ?r (length b) = CHR ''@''"
    using byte_rchr_append [OF assms(3), of b] cstr_nonul [OF n(2)] by (simp_all add: str_rchr_cstr char_at_append)
  have "senderadd ?s ?r = take (length f) ?s @ take (length b) ?r @ ''='' @ cstr (drop (length b + 1) ?r) @ ''@'' @ take (str_len ?s - 5 - length f) (drop (length f + 1) ?s)"
    unfolding senderadd_def Let_def e j k(1) k(2) unfolding l by simp
  also have "cstr (drop (length b + 1) ?r) = d" using assms(1) by (simp add: cstr_nonul)
  finally show ?thesis unfolding l by simp
qed

section \<open>Bounce text\<close>

lemma slash_length [simp]: "length (slash_loop p s) = length s"
  by (induction p s rule: slash_loop.induct) auto

lemma slash_above: "i > p \<Longrightarrow> slash_loop p s ! i = s ! i"
  by (induction p s rule: slash_loop.induct) auto

lemma slash_0: "slash_loop p s ! 0 = s ! 0"
  by (induction p s rule: slash_loop.induct) auto

text \<open>Behind the loop no two newlines stand together up to position \<open>p\<close>; every byte is as it was, or a newline became a slash.\<close>

lemma slash_top: "slash_loop p t ! p = LF \<Longrightarrow> p < length t \<Longrightarrow> t ! p = LF"
proof (cases p)
  case (Suc q)
  assume "slash_loop p t ! p = LF" "p < length t"
  then show ?thesis using Suc slash_above [of q "Suc q" "if t ! Suc q = LF \<and> t ! q = LF then t[Suc q := CHR ''/''] else t"]
    by (simp split: if_split_asm)
qed simp

lemma slash_no_blank: "0 < i \<Longrightarrow> i \<le> p \<Longrightarrow> p < length s \<Longrightarrow> \<not> (slash_loop p s ! i = LF \<and> slash_loop p s ! (i - 1) = LF)"
proof (induction p s rule: slash_loop.induct)
  case (2 p s)
  define t where "t = (if s ! Suc p = LF \<and> s ! p = LF then s[Suc p := CHR ''/''] else s)"
  have t: "slash_loop (Suc p) s = slash_loop p t" "length t = length s" by (simp_all add: t_def)
  show ?case
  proof (cases "i = Suc p")
    case True
    have "slash_loop p t ! Suc p = t ! Suc p" by (rule slash_above) simp
    moreover have "slash_loop p t ! p = LF \<Longrightarrow> t ! p = LF" using slash_top [of p t] t(2) 2(4) by simp
    moreover have "\<not> (t ! Suc p = LF \<and> t ! p = LF)" using 2(4) by (simp add: t_def)
    ultimately show ?thesis using True unfolding t(1) by auto
  next
    case False
    then show ?thesis using 2(1) [folded t_def] 2(2-4) unfolding t by simp
  qed
qed simp

lemma slash_bytes: "i < length s \<Longrightarrow> slash_loop p s ! i = s ! i \<or> 0 < i \<and> s ! i = LF \<and> s ! (i - 1) = LF"
proof (induction p s rule: slash_loop.induct)
  case (2 p s)
  define t where "t = (if s ! Suc p = LF \<and> s ! p = LF then s[Suc p := CHR ''/''] else s)"
  have t: "t ! j = s ! j \<or> j = Suc p \<and> s ! Suc p = LF \<and> s ! p = LF" "t ! j = LF \<Longrightarrow> s ! j = LF" if "j < length s" for j
    using that by (cases "j = Suc p"; simp add: t_def split: if_split_asm)+
  have "slash_loop p t ! i = t ! i \<or> 0 < i \<and> t ! i = LF \<and> t ! (i - 1) = LF"
    using 2(1) [folded t_def] 2(2) by (simp add: t_def)
  moreover have "i - 1 < length s" using 2(2) by simp
  ultimately show ?case using t(1) [OF 2(2)] t(2) [OF 2(2)] t(2) [of "i - 1"] by (auto simp: t_def)
qed simp

definition underscored :: "char list \<Rightarrow> char list" where
  "underscored s = map (\<lambda>c. if c = LF then CHR ''_'' else c) s"

lemma last_two: "2 \<le> length p \<Longrightarrow> drop (length p - 2) p = [p ! (length p - 2), p ! (length p - 1)]"
proof -
  assume "2 \<le> length p"
  then obtain q y z where "p = q @ [y, z]"
    by (metis One_nat_def Suc_1 append_assoc append_Cons append_Nil length_0_conv length_Cons not_less_eq_eq rev_exhaust length_append_singleton zero_le bot_nat_0.extremum_unique)
  then show ?thesis by (simp add: nth_append)
qed

lemma bounce_paragraph_text:
  fixes recip report :: "char list" and t :: built
  defines "h \<equiv> ''<'' @ underscored (cstr (stripvdomprepend t recip)) @ ''>:'' @ [LF]" and "p \<equiv> bounce_paragraph t recip report"
  shows "take (length h) p = h" "length p \<ge> 2 \<and> p ! (length p - 1) = LF \<and> p ! (length p - 2) = LF"
    "0 < i \<Longrightarrow> i + 2 < length p \<Longrightarrow> \<not> (p ! i = LF \<and> p ! (i - 1) = LF)"
proof -
  define u where "u = (if char_at report 0 \<noteq> NUL \<and> report ! (str_len report - 1) \<noteq> LF then cstr report @ [LF] else cstr report)"
  have p: "p = slash_loop (length (h @ u) - 2) (h @ u) @ [LF]"
  proof -
    have hu: "h @ u = (if char_at report 0 \<noteq> NUL \<and> report ! (str_len report - 1) \<noteq> LF
        then (underscored (''<'' @ cstr (stripvdomprepend t recip)) @ ''>:'' @ [LF] @ cstr report) @ [LF]
        else underscored (''<'' @ cstr (stripvdomprepend t recip)) @ ''>:'' @ [LF] @ cstr report)"
      by (simp only: h_def u_def underscored_def list.map map_append append_assoc split: if_split) simp
    show ?thesis unfolding hu p_def bounce_paragraph_def Let_def underscored_def by (rule refl)
  qed
  have lp: "length p = length h + length u + 1" by (simp add: p)
  have nth: "p ! i = slash_loop (length (h @ u) - 2) (h @ u) ! i" if "i < length h + length u" for i
    using that by (simp add: p nth_append)
  have hh: "length h \<ge> 4" "h ! (length h - 1) = LF" by (simp_all add: h_def nth_append)
  have hl: "h ! i \<noteq> LF" if "i + 1 < length h" for i
  proof -
    have "h ! i \<in> set (butlast h)" using that by (metis add_lessD1 length_butlast less_diff_conv nth_butlast nth_mem)
    then show ?thesis by (auto simp: h_def underscored_def butlast_append split: if_split_asm)
  qed
  show "take (length h) p = h"
  proof (rule nth_equalityI)
    fix i assume "i < length (take (length h) p)"
    then have i: "i < length h" by simp
    have "slash_loop (length (h @ u) - 2) (h @ u) ! i = (h @ u) ! i"
    proof (cases "i = 0")
      case True
      then show ?thesis by (simp add: slash_0)
    next
      case False
      then have "(h @ u) ! (i - 1) \<noteq> LF" using hl [of "i - 1"] i by (simp add: nth_append less_imp_diff_less)
      then show ?thesis using slash_bytes [of i "h @ u" "length (h @ u) - 2"] i by auto
    qed
    then show "take (length h) p ! i = h ! i" using i nth [of i] by (simp add: nth_append)
  qed (simp add: lp)
  have ul: "(h @ u) ! (length (h @ u) - 1) = LF"
  proof (cases "cstr report = []")
    case True
    then have "u = []" by (cases report) (auto simp: u_def split: if_split_asm)
    then show ?thesis using hh by simp
  next
    case False
    then have "report ! (str_len report - 1) = last (cstr report)"
      by (metis str_len_cstr cstr_prefix diff_less last_conv_nth length_greater_0_conv less_numeral_extra(1) nth_append)
    moreover have "char_at report 0 \<noteq> NUL" using False by (cases report) auto
    ultimately have "u \<noteq> []" "last u = LF" using False by (auto simp: u_def)
    then show ?thesis by (metis append_is_Nil_conv last_append last_conv_nth)
  qed
  have "slash_loop (length (h @ u) - 2) (h @ u) ! (length (h @ u) - 1) = LF"
    unfolding ul [symmetric] by (rule slash_above) (use hh in auto)
  then show "length p \<ge> 2 \<and> p ! (length p - 1) = LF \<and> p ! (length p - 2) = LF"
    using hh(1) nth [of "length h + length u - 1"] by (simp add: lp) (simp add: p nth_append)
  show "\<not> (p ! i = LF \<and> p ! (i - 1) = LF)" if "0 < i" "i + 2 < length p"
    using slash_no_blank [of i "length (h @ u) - 2" "h @ u"] that nth [of i] nth [of "i - 1"] by (auto simp: lp)
qed

section \<open>Log text\<close>

lemma log_issafe_iff: "log_issafe c \<longleftrightarrow> c \<noteq> CHR ''%'' \<and> 33 \<le> uch c \<and> uch c \<le> 126"
proof -
  obtain n where n: "uch c = n" "n < 256" by simp
  have "sch c = (if n < 128 then int n else int n - 256)" unfolding sch_def n(1) ..
  then show ?thesis using n by (auto simp: log_issafe_def)
qed

lemma logsafe_bytes: "c \<in> set (logsafe s) \<Longrightarrow> 33 \<le> uch c \<and> uch c \<le> 126 \<and> c \<noteq> CHR ''%''"
proof -
  assume "c \<in> set (logsafe s)"
  then obtain x where "c = (if x = LF then CHR ''/'' else if \<not> log_issafe x then CHR ''_'' else x)"
    unfolding logsafe_def set_map by (elim imageE)
  then show ?thesis by (cases "x = LF"; cases "log_issafe x") (simp_all add: log_issafe_iff)
qed

section \<open>Retry times\<close>

lemma squareroot_loop_correct:
  assumes "0 \<le> y" "yy = y * y" "yy \<le> x" "x < (y + 2 ^ j) * (y + 2 ^ j)"
  shows "let r = squareroot_loop j x y yy in 0 \<le> r \<and> r * r \<le> x \<and> x < (r + 1) * (r + 1)"
  using assms
proof (induction j x y yy rule: squareroot_loop.induct)
  case (2 j x y yy)
  define b :: int where "b = 2 ^ j"
  define y21 where "y21 = push_bit (j + 1) y + push_bit (j + j) 1"
  have y21: "y21 = 2 * y * b + b * b" "push_bit j 1 = b" "2 ^ Suc j = 2 * b" "0 < b"
    by (simp_all add: push_bit_eq_mult power_add y21_def b_def)
  have eq: "(y + b) * (y + b) = yy + y21" "(y + 2 * b) * (y + 2 * b) = (y + b + b) * (y + b + b)"
    unfolding y21(1) 2(4) by algebra+
  show ?case
  proof (cases "y21 \<le> x - yy")
    case True
    have "let r = squareroot_loop j x (y + push_bit j 1) (yy + y21) in 0 \<le> r \<and> r * r \<le> x \<and> x < (r + 1) * (r + 1)"
      using True eq 2(3-6) y21(2-4) by (intro 2(1) [folded y21_def]) (simp_all add: b_def)
    then show ?thesis using True by (simp add: y21_def)
  next
    case False
    then have "x < (y + b) * (y + b)" using eq by simp
    then have "let r = squareroot_loop j x y yy in 0 \<le> r \<and> r * r \<le> x \<and> x < (r + 1) * (r + 1)"
      using False 2(3-5) by (intro 2(2) [folded y21_def]) (simp_all add: b_def)
    then show ?thesis using False by (simp add: y21_def)
  qed
qed simp

lemma squareroot_correct:
  assumes "0 \<le> x" "x \<le> int_max"
  shows "0 \<le> squareroot x" "squareroot x * squareroot x \<le> x" "x < (squareroot x + 1) * (squareroot x + 1)"
  using squareroot_loop_correct [of 0 0 x 16] assms by (simp_all add: squareroot_def Let_def int_max_def)

text \<open>With positive skip the next try lies in the future, and not further than the bound; nothing overflows.\<close>

lemma nextretry_bounds:
  assumes "0 \<le> birth" "0 < skip" "skip \<le> 20" "birth \<le> recent" "recent \<le> int_max - 1854000"
  shows "recent < nextretry recent skip birth" "nextretry recent skip birth \<le> recent + (2 * squareroot (recent - birth) + skip) * skip"
    "fits32 (nextretry recent skip birth)"
proof -
  let ?a = "recent - birth" let ?n = "squareroot ?a"
  have n: "0 \<le> ?n" "?n * ?n \<le> ?a" "?a < (?n + 1) * (?n + 1)"
    using squareroot_correct [of ?a] assms by (simp_all add: int_max_def)
  have r: "nextretry recent skip birth = birth + (?n + skip) * (?n + skip)"
    using assms(4) by (simp add: nextretry_def Let_def)
  have "(?n + 1) * (?n + 1) \<le> (?n + skip) * (?n + skip)"
    by (rule mult_mono) (use n(1) assms(2) in auto)
  then show "recent < nextretry recent skip birth" unfolding r using n(3) by linarith
  have e: "(?n + skip) * (?n + skip) = ?n * ?n + (2 * ?n + skip) * skip" by algebra
  then show u: "nextretry recent skip birth \<le> recent + (2 * squareroot (recent - birth) + skip) * skip"
    unfolding r using n(2) by linarith
  have "?n < 46341"
  proof (rule ccontr)
    assume "\<not> ?n < 46341"
    then have "46341 * 46341 \<le> ?n * ?n" by (intro mult_mono) auto
    then show False using n(2) assms by (simp add: int_max_def)
  qed
  then have "(2 * ?n + skip) * skip \<le> (2 * 46340 + 20) * 20" using n(1) assms by (intro mult_mono) auto
  then show "fits32 (nextretry recent skip birth)"
    using u assms \<open>recent < nextretry recent skip birth\<close> by (simp add: fits32_def int_max_def int_min_def)
qed

section \<open>Taking a virtual domain off again\<close>

lemma cm_value_nonul: "cm_value t k = Some x \<Longrightarrow> NUL \<notin> set x"
  by (auto simp: cm_value_def split: option.splits prod.splits)

definition strip_with :: "char list \<Rightarrow> char list option \<Rightarrow> char list" where
  "strip_with recip v =
     (case v of None \<Rightarrow> recip
      | Some x \<Rightarrow> if take (length x) (cstr recip) = x \<and> char_at recip (length x) = CHR ''-'' then drop (length x + 1) recip else recip)"

lemma strip_loop_vdom:
  assumes "NUL \<notin> set domain"
  shows "\<forall>i \<in> set is. i \<le> length domain \<Longrightarrow> strip_loop t recip domain is =
    strip_with recip (vdom_of t (map (\<lambda>i. drop i domain) (filter (\<lambda>i. i = 0 \<or> i = length domain \<or> domain ! i = CHR ''.'') is)))"
proof (induction "is")
  case Nil
  show ?case by (simp add: strip_with_def)
next
  case (Cons i "is")
  have d: "str_len domain = length domain" using assms by (simp add: str_len_cstr cstr_nonul)
  have c: "(i = 0 \<or> i = length domain \<or> char_at domain i = CHR ''.'') = (i = 0 \<or> i = length domain \<or> domain ! i = CHR ''.'')"
    using Cons.prems by (auto simp: char_at_def)
  have n: "cstr (drop i domain) = drop i domain" using assms by (meson cstr_nonul in_set_dropD)
  have x: "str_len x = length x" "str_diffn recip x (length x) \<noteq> 0 \<longleftrightarrow> take (length x) (cstr recip) \<noteq> x"
    if "cm_value t (drop i domain) = Some x" for x
    using cm_value_nonul [OF that] by (simp_all add: str_len_cstr cstr_nonul str_diffn_eq_0_iff)
  show ?case
  proof (cases "cm_value t (drop i domain)")
    case None
    then show ?thesis using Cons by (simp add: d c n)
  next
    case (Some v)
    then show ?thesis using Cons by (simp add: d c n x [OF Some] Let_def) (simp add: strip_with_def)
  qed
qed

lemma dot_suffixes_filter: "map (\<lambda>i. drop i s) (filter (\<lambda>i. i = length s \<or> s ! i = CHR ''.'') [0..<length s + 1]) = dot_suffixes s"
proof (induction s)
  case (Cons c s)
  have u: "[0..<length (c # s) + 1] = 0 # map Suc [0..<length s + 1]"
    by (simp add: map_Suc_upt upt_conv_Cons del: upt.simps)
  have "map (\<lambda>i. drop i (c # s)) (filter (\<lambda>i. i = length (c # s) \<or> (c # s) ! i = CHR ''.'') (map Suc [0..<length s + 1])) = dot_suffixes s"
    using Cons by (simp add: filter_map o_def del: upt.simps)
  then show ?case unfolding u by (cases "c = CHR ''.''") (simp_all del: upt.simps)
qed simp

lemma domain_keys_filter:
  "map (\<lambda>i. drop i s) (filter (\<lambda>i. i = 0 \<or> i = length s \<or> s ! i = CHR ''.'') [0..<length s + 1]) = domain_keys s"
proof (cases s)
  case (Cons c h)
  have u: "[0..<length (c # h) + 1] = 0 # map Suc [0..<length h + 1]"
    by (simp add: map_Suc_upt upt_conv_Cons del: upt.simps)
  show ?thesis unfolding Cons u using dot_suffixes_filter [of h] by (simp add: filter_map o_def del: upt.simps)
qed simp

lemma stripvdomprepend_host:
  assumes "NUL \<notin> set (p @ host)" "CHR ''@'' \<notin> set host"
  shows "stripvdomprepend t (p @ CHR ''@'' # host) = strip_with (p @ CHR ''@'' # host) (vdom_of t (domain_keys host))"
proof -
  let ?r = "p @ CHR ''@'' # host"
  have "cstr ?r = ?r" using assms(1) by (simp add: cstr_nonul)
  then have i: "str_rchr ?r (CHR ''@'') = length p" using byte_rchr_append [OF assms(2), of p] by (simp add: str_rchr_cstr)
  have l: "str_len host = length host" using assms(1) by (simp add: str_len_cstr cstr_nonul)
  have "strip_loop t ?r host [0..<length host + 1] = strip_with ?r (vdom_of t (domain_keys host))"
    unfolding domain_keys_filter [symmetric] by (rule strip_loop_vdom) (use assms(1) in auto)
  then show ?thesis by (simp add: stripvdomprepend_def i l char_at_append Let_def del: upt.simps)
qed

lemma set_resolve: "set (resolve t box host) \<subseteq> insert (CHR ''@'') (set box \<union> set host)"
proof (induction t box host rule: resolve.induct)
  case (1 t box host)
  show ?case
  proof (cases "cm_value t host \<noteq> None \<and> CHR ''%'' \<in> set box")
    case True
    then obtain u v where uv: "box = u @ CHR ''%'' # v" "before (CHR ''%'') box = u" "after (CHR ''%'') box = v" by (elim conjE last_split)
    then show ?thesis using 1 [OF True] True by (subst resolve.simps) auto
  qed (subst resolve.simps, auto)
qed

lemma canonical_nonul: "NUL \<notin> set recip \<Longrightarrow> NUL \<notin> set (envnoathost ctl) \<Longrightarrow> NUL \<notin> set (canonical ctl recip)"
proof (cases "CHR ''@'' \<in> set recip")
  case True
  assume "NUL \<notin> set recip"
  from True obtain u v where "recip = u @ CHR ''@'' # v" "before (CHR ''@'') recip = u" "after (CHR ''@'') recip = v" by (rule last_split)
  then show ?thesis using True set_resolve [of "mappercenthack ctl" u v] \<open>NUL \<notin> set recip\<close> by (auto simp: canonical_def)
next
  case False
  assume "NUL \<notin> set recip" "NUL \<notin> set (envnoathost ctl)"
  then show ?thesis using False set_resolve [of "mappercenthack ctl" recip "envnoathost ctl"] by (auto simp: canonical_def)
qed

lemma strip_rewrite:
  assumes "NUL \<notin> set recip" "NUL \<notin> set (envnoathost ctl)" "rewrite_ref ctl recip = (k, ''T'' @ r @ [NUL])"
    "cm_value (maplocals ctl) (after (CHR ''@'') (canonical ctl recip)) = None" "cm_value (mapvdoms ctl) (canonical ctl recip) = None"
  shows "stripvdomprepend (mapvdoms ctl) r = canonical ctl recip"
proof -
  let ?a = "canonical ctl recip"
  have "CHR ''@'' \<in> set ?a" by (simp add: canonical_def at_in_resolve)
  then obtain box host where a: "?a = box @ CHR ''@'' # host" "CHR ''@'' \<notin> set host" "after (CHR ''@'') ?a = host" by (rule last_split)
  have n: "NUL \<notin> set (box @ host)" using canonical_nonul [OF assms(1,2)] by (simp add: a(1))
  show ?thesis
  proof (cases "vdom_of (mapvdoms ctl) (domain_keys host)")
    case None
    then have "r = box @ CHR ''@'' # host" using assms(3-5) a by (simp add: rewrite_ref_def Let_def)
    then show ?thesis using stripvdomprepend_host [OF n a(2)] None by (simp add: strip_with_def a(1))
  next
    case (Some x)
    have "vdom_of t ks = Some x \<Longrightarrow> \<exists>k. cm_value t k = Some x" for t ks
      by (induction ks) (auto split: option.splits if_splits)
    then have x: "NUL \<notin> set x" using Some cm_value_nonul by blast
    have r: "r = (x @ ''-'' @ box) @ CHR ''@'' # host" using Some assms(3-5) a by (simp add: rewrite_ref_def Let_def)
    have nr: "NUL \<notin> set ((x @ ''-'' @ box) @ host)" using n x by auto
    then have "cstr r = r" using x n by (intro cstr_nonul) (auto simp: r)
    then have "strip_with r (Some x) = box @ CHR ''@'' # host" by (simp add: strip_with_def r char_at_append)
    then show ?thesis using stripvdomprepend_host [OF nr a(2)] Some by (simp add: r a(1))
  qed
qed

text \<open>Tables that \<open>constmap_init\<close> has built are read by their lines.\<close>

lemma cm_value_init:
  assumes "constmap_init mok s fc = Some cm"
  shows "cm_value (s, fc, cm) k = None \<longleftrightarrow> find (key_matches fc k) (rev (cm_lines [] s)) = None"
    "fc \<Longrightarrow> cm_value (s, fc, cm) k = map_option value_of (find (key_matches fc k) (rev (cm_lines [] s)))"
  using constmap_lookup [OF constmap_init_for [OF assms], of k] by (auto simp: cm_value_def split: option.splits)

lemma constmap_inits: "constmap_init (\<lambda>_. True) s fc \<noteq> None"
  by (simp add: constmap_init_def Let_def)

text \<open>No local host, and the virtual domain \<open>b.c\<close> of the user \<open>v\<close>.\<close>

definition demo_table :: "char list \<Rightarrow> bool \<Rightarrow> built" where
  "demo_table s fc = (s, fc, the (constmap_init (\<lambda>_. True) s fc))"

definition demo_controls :: controls where
  "demo_controls = \<lparr>envnoathost = ''h'', mappercenthack = demo_table [] False, maplocals = demo_table [] False,
     mapvdoms = demo_table (''b.c:v'' @ [NUL]) True\<rparr>"

lemma demo_none: "cm_value (demo_table [] False) k = None"
  using cm_value_init(1) [of "\<lambda>_. True" "[]" False "the (constmap_init (\<lambda>_. True) [] False)" k] constmap_inits [of "[]" False]
  by (simp add: demo_table_def)

lemma demo_vdoms: "cm_value (demo_table (''b.c:v'' @ [NUL]) True) k = (if map lower k = ''b.c'' then Some ''v'' else None)"
proof -
  have "cm_value (demo_table (''b.c:v'' @ [NUL]) True) k = map_option value_of (find (key_matches True k) (rev (cm_lines [] (''b.c:v'' @ [NUL]))))"
    using cm_value_init(2) [of "\<lambda>_. True" "''b.c:v'' @ [NUL]" True "the (constmap_init (\<lambda>_. True) (''b.c:v'' @ [NUL]) True)" k]
      constmap_inits [of "''b.c:v'' @ [NUL]" True]
    unfolding demo_table_def by simp
  also have "\<dots> = (if map lower k = ''b.c'' then Some ''v'' else None)"
    by (auto simp: key_matches_def key_of_def value_of_def lower_def)
  finally show ?thesis .
qed

lemma demo_canonical: "canonical demo_controls ''a@b.c'' = ''a@b.c''"
  by (simp add: canonical_def demo_controls_def resolve.simps before_def after_def)

lemma demo_rewrite: "rewrite demo_controls (\<lambda>_. True) ''a@b.c'' = (1, ''T'' @ ''v-a@b.c'' @ [NUL])"
  unfolding rewrite_all by (simp add: rewrite_ref_def demo_canonical Let_def)
    (simp add: demo_controls_def demo_none demo_vdoms [simplified] after_def lower_def)

section \<open>Properties\<close>

text \<open>C29: For a recipient that is not at a local host and has no entry of its own, \<open>stripvdomprepend\<close> takes off again what \<open>rewrite\<close> has
  put before the address: a bounce names the address and not the user of the virtual domain.\<close>

theorem strip_undoes_rewrite:
  assumes "rewrite ctl mem recip = (k, ''T'' @ r @ [NUL])" "NUL \<notin> set (envnoathost ctl)"
    "cm_value (maplocals ctl) (after (CHR ''@'') (canonical ctl (cstr recip))) = None" "cm_value (mapvdoms ctl) (canonical ctl (cstr recip)) = None"
  shows "stripvdomprepend (mapvdoms ctl) r = canonical ctl (cstr recip)"
  using strip_rewrite [of "cstr recip" ctl k r] assms rewrite_all [of ctl recip] rewrite_some [of ctl mem recip] by auto

theorem strip_undoes_rewrite_witness: "stripvdomprepend (mapvdoms demo_controls) ''v-a@b.c'' = ''a@b.c''"
  using strip_undoes_rewrite [OF demo_rewrite] by (simp add: demo_canonical) (simp add: demo_controls_def demo_none demo_vdoms [simplified] lower_def)

text \<open>A sender of the form \<open>owner-@host-@[]\<close> becomes \<open>owner-box=reciphost@host\<close> for each recipient \<open>box@reciphost\<close>, so that a bounce tells
  which recipient it is about.\<close>

theorem senderadd_tells_recipient:
  assumes "NUL \<notin> set (owner @ host @ box @ reciphost)" "CHR ''@'' \<notin> set host" "CHR ''@'' \<notin> set reciphost"
  shows "senderadd (owner @ ''@'' @ host @ ''-@[]'') (box @ ''@'' @ reciphost) = owner @ box @ ''='' @ reciphost @ ''@'' @ host"
  using senderadd_verp [OF assms] .

theorem senderadd_tells_recipient_witness: "senderadd ''owner-@list.org-@[]'' ''joe@a.net'' = ''owner-joe=a.net@list.org''"
  using senderadd_tells_recipient [of "''owner-''" "''list.org''" "''joe''" "''a.net''"] by simp


text \<open>C30: What is added to a bounce for a recipient is one paragraph: it starts with the recipient in angle brackets on a line of its own,
  ends with an empty line, and has no other empty line before its last two bytes, whatever the report and the recipient contain.\<close>

theorem bounce_one_paragraph:
  "let p = bounce_paragraph t recip report; h = ''<'' @ underscored (cstr (stripvdomprepend t recip)) @ ''>:'' @ [LF] in
     take (length h) p = h \<and> drop (length p - 2) p = [LF, LF] \<and>
     (\<forall>i. \<not> (0 < i \<and> i + 2 < length p \<and> p ! i = LF \<and> p ! (i - 1) = LF))"
proof -
  let ?p = "bounce_paragraph t recip report"
  have l: "length ?p \<ge> 2 \<and> ?p ! (length ?p - 1) = LF \<and> ?p ! (length ?p - 2) = LF" by (rule bounce_paragraph_text)
  then have "drop (length ?p - 2) ?p = [LF, LF]"
    using last_two [of ?p] by simp
  then show ?thesis using bounce_paragraph_text(1,3) by (simp add: Let_def) blast
qed

text \<open>C31: A delivery that did not succeed is tried again later than now, not later than the square root of the message's age tells, and the
  time does not overflow, as long as the clock is three weeks from its end.\<close>

theorem nextretry_later:
  assumes "0 \<le> birth" "birth \<le> recent" "0 < skip" "skip \<le> 20" "recent \<le> int_max - 1854000"
  shows "recent < nextretry recent skip birth \<and> fits32 (nextretry recent skip birth) \<and>
    (\<exists>n. 0 \<le> n \<and> n * n \<le> recent - birth \<and> recent - birth < (n + 1) * (n + 1) \<and> nextretry recent skip birth = birth + (n + skip) * (n + skip))"
proof -
  have "nextretry recent skip birth = birth + (squareroot (recent - birth) + skip) * (squareroot (recent - birth) + skip)"
    using assms(2) by (simp add: nextretry_def Let_def)
  moreover have "0 \<le> recent - birth" "recent - birth \<le> int_max" using assms by simp_all
  ultimately show ?thesis
    using nextretry_bounds [OF assms(1,3,4,2,5)] squareroot_correct [of "recent - birth"] by blast
qed

theorem nextretry_later_witness: "(1000000 :: int) < nextretry 1000000 10 999000 \<and> fits32 (nextretry 1000000 10 999000)"
  using nextretry_later [of 999000 1000000 10] by (simp add: int_max_def)

end
