(* ===== verification/Todo.thy ===== *)
theory Todo
  imports Lines Rewrite Outcome
begin

text \<open>
  The program that takes new messages out of \<open>todo\<close>, \<open>qmail-todo.c\<close>: it reads the envelope of a message and writes its sender to \<open>info\<close> and
  its recipients, rewritten, to \<open>local\<close> and \<open>remote\<close>; then it has \<open>qmail-clean\<close> remove \<open>todo\<close> and tells \<open>qmail-send\<close>.
  The files of a message are a \<open>qfiles\<close>; the process keeps all their states, as the machine may stop at any time. Each system call is made
  at most once for a message, so that \<open>tfails\<close> says which of them fail; what the kernel makes of reads and writes are scripts. What is to be
  sent to \<open>qmail-send\<close> is \<open>comm_buf\<close>. \<open>qmail-clean\<close> is known by whether it removes \<open>todo\<close> and what it answers.
\<close>

section \<open>State\<close>

datatype channel = Local | Remote

definition chanaddr :: "channel \<Rightarrow> char list" where
  "chanaddr c = (case c of Local \<Rightarrow> ''local/'' | Remote \<Rightarrow> ''remote/'')"

text \<open>The channels in the order of the loops over them.\<close>

instantiation channel :: linorder
begin

definition less_eq_channel :: "channel \<Rightarrow> channel \<Rightarrow> bool" where
  "less_eq_channel c d \<longleftrightarrow> c = Local \<or> d = Remote"

definition less_channel :: "channel \<Rightarrow> channel \<Rightarrow> bool" where
  "less_channel c d \<longleftrightarrow> c = Local \<and> d = Remote"

instance
proof
  fix x y z :: channel
  show "x < y \<longleftrightarrow> x \<le> y \<and> \<not> y \<le> x" "x \<le> x" "x \<le> y \<Longrightarrow> y \<le> z \<Longrightarrow> x \<le> z" "x \<le> y \<Longrightarrow> y \<le> x \<Longrightarrow> x = y" "x \<le> y \<or> y \<le> x"
    by (cases x; cases y; cases z; simp add: less_eq_channel_def less_channel_def)+
qed

end

definition channels :: "channel list" where
  "channels = sorted_list_of_set {Local, Remote}"

lemma channels_eq: "channels = [Local, Remote]"
proof -
  have "sorted [Local, Remote]" "distinct [Local, Remote]" by (simp_all add: less_eq_channel_def)
  from sorted_list_of_set_unique [of "{Local, Remote}" "[Local, Remote]"] show ?thesis
    by (simp add: channels_def less_eq_channel_def less_channel_def)
qed

record qfiles =
  todo_there :: bool
  info_data :: "char list option"
  info_sync :: bool
  chan_data :: "channel \<Rightarrow> char list option"
  chan_sync :: "channel \<Rightarrow> bool"

datatype tcall = Open_todo | Stat_mess | Unlink_chan channel | Unlink_info | Excl_info | Excl_chan channel | Fsync_chan channel | Fsync_info
  | Ask_clean | Read_clean

record tenv =
  tfails :: "tcall \<Rightarrow> bool"
  tmem :: "nat \<Rightarrow> bool"
  tctl :: controls
  todo_in :: "fdin list"
  info_out :: "fdout list"
  chan_out :: "channel \<Rightarrow> fdout list"
  mess_bytes :: ulong
  clean_removes :: bool
  clean_reply :: char

record tproc =
  files :: qfiles
  ttrail :: "qfiles list"
  comm_buf :: "char list"
  flagstopasap :: bool
  flagchan :: "channel \<Rightarrow> bool"
  tss :: "fdin list substdio"
  ssinfo :: "(fdout list \<times> char list) substdio"
  sschan :: "channel \<Rightarrow> (fdout list \<times> char list) substdio"
  todo_uid :: ulong
  todo_pid :: ulong

datatype tend = Returned | Hung

type_synonym 'a trun = "tend \<times> tproc + 'a"

definition set_files :: "(qfiles \<Rightarrow> qfiles) \<Rightarrow> tproc \<Rightarrow> tproc" where
  "set_files f st = st\<lparr>files := f (files st), ttrail := ttrail st @ [files st]\<rparr>"

section \<open>Communication\<close>

text \<open>A message to \<open>qmail-send\<close> is added as a whole or not at all.\<close>

fun cats :: "(nat \<Rightarrow> bool) \<Rightarrow> char list \<Rightarrow> char list list \<Rightarrow> char list option" where
  "cats mem sa [] = Some sa"
| "cats mem sa (s # ss) = Option.bind (cat mem sa s) (\<lambda>sa. cats mem sa ss)"

definition comm_add :: "(nat \<Rightarrow> bool) \<Rightarrow> char list list \<Rightarrow> char list \<Rightarrow> char list" where
  "comm_add mem ss buf = (case cats mem buf ss of None \<Rightarrow> buf | Some buf' \<Rightarrow> buf')"

definition log1 :: "(nat \<Rightarrow> bool) \<Rightarrow> char list \<Rightarrow> char list \<Rightarrow> char list" where
  "log1 mem x buf = comm_add mem [''L'', cstr x, [NUL]] buf"

definition log3 :: "(nat \<Rightarrow> bool) \<Rightarrow> char list \<Rightarrow> char list \<Rightarrow> char list \<Rightarrow> char list \<Rightarrow> char list" where
  "log3 mem x y z buf = comm_add mem [''L'', cstr x, cstr y, cstr z, [NUL]] buf"

definition comm_write :: "(nat \<Rightarrow> bool) \<Rightarrow> nat \<Rightarrow> bool \<Rightarrow> bool \<Rightarrow> char list \<Rightarrow> char list" where
  "comm_write mem mid loc rem buf =
     comm_add mem [''D'', if loc \<and> rem then ''B'' else if loc then ''L'' else if rem then ''R'' else ''X'', fmt_ulong mid, [NUL]] buf"

definition comm_info :: "(nat \<Rightarrow> bool) \<Rightarrow> nat \<Rightarrow> nat \<Rightarrow> char list \<Rightarrow> nat \<Rightarrow> nat \<Rightarrow> char list \<Rightarrow> char list" where
  "comm_info mem mid bytes sender pid uid buf =
     comm_add mem [''Linfo msg '', fmt_ulong mid, '': bytes '', fmt_ulong bytes, '' from <'',
       map (\<lambda>ch. if ch = LF then CHR ''/'' else if \<not> log_issafe ch then CHR ''_'' else ch) (cstr sender),
       ''> qp '', fmt_ulong pid, '' uid '', fmt_ulong uid, [LF], [NUL]] buf"

text \<open>\<open>log3(...); goto fail;\<close>\<close>

definition give_up :: "tenv \<Rightarrow> char list \<Rightarrow> char list \<Rightarrow> tproc \<Rightarrow> 'a trun" where
  "give_up env what name st = Inl (Returned, st\<lparr>comm_buf := log3 (tmem env) (''warning: qmail-todo: '' @ what) name [LF] (comm_buf st)\<rparr>)"

definition fn_info :: "nat \<Rightarrow> char list" where "fn_info mid = fmtqfn ''info/'' mid True"
definition fn_todo :: "nat \<Rightarrow> char list" where "fn_todo mid = fmtqfn ''todo/'' mid False"
definition fn_mess :: "nat \<Rightarrow> char list" where "fn_mess mid = fmtqfn ''mess/'' mid True"
definition fn_chan :: "nat \<Rightarrow> channel \<Rightarrow> char list" where "fn_chan mid c = fmtqfn (chanaddr c) mid True"

section \<open>Making room\<close>

fun unlink_chans :: "tenv \<Rightarrow> nat \<Rightarrow> channel list \<Rightarrow> tproc \<Rightarrow> tproc trun" where
  "unlink_chans env mid [] st = Inr st"
| "unlink_chans env mid (c # cs) st =
     (if tfails env (Unlink_chan c) then give_up env ''unable to unlink '' (fn_chan mid c) st
      else unlink_chans env mid cs (set_files (\<lambda>d. d\<lparr>chan_data := (chan_data d)(c := None)\<rparr>) st))"

definition todo_open :: "tenv \<Rightarrow> nat \<Rightarrow> tproc \<Rightarrow> tproc trun" where
  "todo_open env mid st =
     (if tfails env Open_todo then give_up env ''unable to open '' (fn_todo mid) st
      else if tfails env Stat_mess then give_up env ''unable to stat '' (fn_mess mid) st
      else andthen (unlink_chans env mid channels st) (\<lambda>st.
        if tfails env Unlink_info then give_up env ''unable to unlink '' (fn_info mid) st
        else let st = set_files (\<lambda>d. d\<lparr>info_data := None\<rparr>) st in
        if tfails env Excl_info then give_up env ''unable to create '' (fn_info mid) st
        else let st = set_files (\<lambda>d. d\<lparr>info_data := Some [], info_sync := False\<rparr>) st in
        Inr (st\<lparr>comm_buf := log3 (tmem env) ''new msg '' (fmt_ulong mid) [LF] (comm_buf st), flagchan := (\<lambda>_. False),
            tss := substdio_fdbuf (todo_in env) (replicate 8192 NUL), ssinfo := substdio_fdbuf (info_out env, []) (replicate 512 NUL),
            todo_uid := 0, todo_pid := 0\<rparr>)))"

section \<open>Records\<close>

definition noted_info :: "(fdout list \<times> char list) substdio \<Rightarrow> tproc \<Rightarrow> tproc" where
  "noted_info ss st = set_files (\<lambda>d. d\<lparr>info_data := Some (snd (sw ss)), info_sync := False\<rparr>) (st\<lparr>ssinfo := ss\<rparr>)"

definition noted_chan :: "channel \<Rightarrow> (fdout list \<times> char list) substdio \<Rightarrow> tproc \<Rightarrow> tproc" where
  "noted_chan c ss st = set_files (\<lambda>d. d\<lparr>chan_data := (chan_data d)(c := Some (snd (sw ss))), chan_sync := (chan_sync d)(c := False)\<rparr>)
     (st\<lparr>sschan := (sschan st)(c := ss)\<rparr>)"

definition sender_record :: "tenv \<Rightarrow> nat \<Rightarrow> char list \<Rightarrow> tproc \<Rightarrow> tproc trun" where
  "sender_record env mid line st =
     (case substdio_putflush fd_write (ssinfo st) line of
        None \<Rightarrow> Inl (Hung, st)
      | Some (ok, ss) \<Rightarrow>
          (let st = noted_info ss st
           in if \<not> ok then give_up env ''trouble writing to '' (fn_info mid) st
              else Inr (st\<lparr>comm_buf := comm_info (tmem env) mid (unat (mess_bytes env)) (tl line) (unat (todo_pid st)) (unat (todo_uid st)) (comm_buf st)\<rparr>)))"

definition recipient_record :: "tenv \<Rightarrow> nat \<Rightarrow> char list \<Rightarrow> tproc \<Rightarrow> tproc trun" where
  "recipient_record env mid line st =
     (case rewrite (tctl env) (tmem env) (tl line) of (r, rwline) \<Rightarrow>
        if r = 0 then Inl (Returned, st\<lparr>comm_buf := log1 (tmem env) (''alert: out of memory, sleeping...'' @ [LF]) (comm_buf st)\<rparr>)
        else let c = (if r = 2 then Remote else Local) in
        andthen (if flagchan st c then Inr st
                 else if tfails env (Excl_chan c) then give_up env ''unable to create '' (fn_chan mid c) st
                 else Inr ((set_files (\<lambda>d. d\<lparr>chan_data := (chan_data d)(c := Some []), chan_sync := (chan_sync d)(c := False)\<rparr>) st)
                    \<lparr>sschan := (sschan st)(c := substdio_fdbuf (chan_out env c, []) (replicate 1024 NUL)), flagchan := (flagchan st)(c := True)\<rparr>)) (\<lambda>st.
        case substdio_bput fd_write (sschan st c) rwline of
          None \<Rightarrow> Inl (Hung, st)
        | Some (ok, ss) \<Rightarrow>
            (let st = noted_chan c ss st in if \<not> ok then give_up env ''trouble writing to '' (fn_chan mid c) st else Inr st)))"

definition todo_record :: "tenv \<Rightarrow> nat \<Rightarrow> char list \<Rightarrow> tproc \<Rightarrow> tproc trun" where
  "todo_record env mid line st =
     (if char_at line 0 = CHR ''u'' then Inr (let (n, u) = scan_ulong (tl line) in st\<lparr>todo_uid := u\<rparr>)
      else if char_at line 0 = CHR ''p'' then Inr (let (n, u) = scan_ulong (tl line) in st\<lparr>todo_pid := u\<rparr>)
      else if char_at line 0 = CHR ''F'' then sender_record env mid line st
      else if char_at line 0 = CHR ''T'' then recipient_record env mid line st
      else give_up env ''unknown record type in '' (fn_todo mid) st)"

text \<open>The loop over the records; its fuel is the length of the file.\<close>

fun todo_loop :: "tenv \<Rightarrow> nat \<Rightarrow> nat \<Rightarrow> tproc \<Rightarrow> tproc trun" where
  "todo_loop env mid 0 st = Inl (Hung, st)"
| "todo_loop env mid (Suc k) st =
     (case getln (tmem env) fd_read (tss st) [] False NUL of
        None \<Rightarrow> Inl (Hung, st)
      | Some (r, ss, line, m) \<Rightarrow>
          (let st = st\<lparr>tss := ss\<rparr>
           in if r = - 1 then give_up env ''trouble reading '' (fn_todo mid) st
              else if \<not> m then Inr st
              else andthen (todo_record env mid line st) (todo_loop env mid k)))"

section \<open>The end of a message\<close>

fun finish_chans :: "tenv \<Rightarrow> nat \<Rightarrow> channel list \<Rightarrow> tproc \<Rightarrow> tproc trun" where
  "finish_chans env mid [] st = Inr st"
| "finish_chans env mid (c # cs) st =
     (if flagchan st c
      then case substdio_flush fd_write (sschan st c) of
             None \<Rightarrow> Inl (Hung, st)
           | Some (ok, ss) \<Rightarrow>
               (let st = noted_chan c ss st
                in if \<not> ok then give_up env ''trouble writing to '' (fn_chan mid c) st
                   else if tfails env (Fsync_chan c) then give_up env ''trouble fsyncing '' (fn_chan mid c) st
                   else finish_chans env mid cs (set_files (\<lambda>d. d\<lparr>chan_sync := (chan_sync d)(c := True)\<rparr>) st))
      else finish_chans env mid cs st)"

definition cleandied :: "tenv \<Rightarrow> tproc \<Rightarrow> tproc" where
  "cleandied env st = st\<lparr>comm_buf := log1 (tmem env) (''alert: qmail-todo: oh no! lost qmail-clean connection! dying...'' @ [LF]) (comm_buf st),
     flagstopasap := True\<rparr>"

definition todo_finish :: "tenv \<Rightarrow> nat \<Rightarrow> tproc \<Rightarrow> tproc trun" where
  "todo_finish env mid st =
     (case substdio_flush fd_write (ssinfo st) of
        None \<Rightarrow> Inl (Hung, st)
      | Some (ok, ss) \<Rightarrow>
          (let st = noted_info ss st
           in if \<not> ok then give_up env ''trouble writing to '' (fn_info mid) st
              else if tfails env Fsync_info then give_up env ''trouble fsyncing '' (fn_info mid) st
              else andthen (finish_chans env mid channels (set_files (\<lambda>d. d\<lparr>info_sync := True\<rparr>) st)) (\<lambda>st.
                if tfails env Ask_clean then Inl (Returned, cleandied env st)
                else let st = (if clean_removes env then set_files (\<lambda>d. d\<lparr>todo_there := False\<rparr>) st else st) in
                if tfails env Read_clean then Inl (Returned, cleandied env st)
                else if clean_reply env \<noteq> CHR ''+''
                then Inl (Returned, st\<lparr>comm_buf := log3 (tmem env) ''warning: qmail-clean unable to clean up '' (fn_todo mid) [LF] (comm_buf st)\<rparr>)
                else Inr (st\<lparr>comm_buf := comm_write (tmem env) mid (flagchan st Local) (flagchan st Remote) (comm_buf st)\<rparr>))))"

definition todo_message :: "tenv \<Rightarrow> nat \<Rightarrow> tproc \<Rightarrow> tproc trun" where
  "todo_message env mid st =
     andthen (todo_open env mid st) (\<lambda>st.
     andthen (todo_loop env mid (length (fd_left (todo_in env)) + 1) st) (todo_finish env mid))"


section \<open>The directory and the pipes\<close>

text \<open>The process between two messages: the names of \<open>todo\<close> still to be looked at if the directory is open, what \<open>qmail-send\<close> has been
  sent (\<open>tsent\<close>) and how much of \<open>comm_buf\<close> that is.\<close>

record tmain =
  tododir :: "char list list option"
  nexttodorun :: int
  todo_recent :: int
  out_buf :: "char list"
  comm_pos :: nat
  tsent :: "char list"
  stopasap :: bool
  flagreadasap :: bool
  flagsendalive :: bool

definition SLEEP_TODO :: int where "SLEEP_TODO = 1500"

definition todo_begin :: "qfiles \<Rightarrow> char list \<Rightarrow> tproc" where
  "todo_begin d buf = \<lparr>files = d, ttrail = [], comm_buf = buf, flagstopasap = False, flagchan = (\<lambda>_. False), tss = substdio_fdbuf [] [NUL],
     ssinfo = substdio_fdbuf ([], []) [NUL], sschan = (\<lambda>_. substdio_fdbuf ([], []) [NUL]), todo_uid = 0, todo_pid = 0\<rparr>"

text \<open>\<open>todo_do\<close>, with the state of the trigger and what \<open>opendir\<close> finds; \<open>env\<close> tells for each message how its system calls go.\<close>

definition todo_do :: "(nat \<Rightarrow> bool) \<Rightarrow> (nat \<Rightarrow> tenv) \<Rightarrow> bool \<Rightarrow> char list list option \<Rightarrow> (nat \<Rightarrow> qfiles) \<Rightarrow> tmain \<Rightarrow> (tend \<times> (nat \<Rightarrow> qfiles) \<times> tmain)" where
  "todo_do mem env pulled opendir fs m =
     (if stopasap m then (Returned, fs, m)
      else if tododir m = None \<and> \<not> pulled \<and> todo_recent m < nexttodorun m then (Returned, fs, m)
      else if tododir m = None \<and> opendir = None
      then (Returned, fs, m\<lparr>out_buf := log3 mem ''alert: unable to opendir '' ''todo'' ('', sleeping...'' @ [LF]) (out_buf m)\<rparr>)
      else let m = (if tododir m = None then m\<lparr>tododir := opendir, nexttodorun := todo_recent m + SLEEP_TODO\<rparr> else m) in
        case the (tododir m) of
          [] \<Rightarrow> (Returned, fs, m\<lparr>tododir := None\<rparr>)
        | d_name # ds \<Rightarrow>
            (let m = m\<lparr>tododir := Some ds\<rparr> in
             if d_name = ''.'' then (Returned, fs, m)
             else if d_name = ''..'' then (Returned, fs, m)
             else let (len, w) = scan_ulong d_name; mid = unat w in
             if len = 0 \<or> char_at d_name len \<noteq> NUL then (Returned, fs, m)
             else case todo_message (env mid) mid (todo_begin (fs mid) (out_buf m)) of
                    Inl (e, st) \<Rightarrow> (e, fs(mid := files st), m\<lparr>out_buf := comm_buf st, stopasap := flagstopasap st\<rparr>)
                  | Inr st \<Rightarrow> (Returned, fs(mid := files st), m\<lparr>out_buf := comm_buf st, stopasap := flagstopasap st\<rparr>)))"

definition comm_canwrite :: "tmain \<Rightarrow> bool" where
  "comm_canwrite m = (if \<not> flagsendalive m then False else if out_buf m \<noteq> [] then True else False)"

text \<open>\<open>comm_do\<close>: \<open>w\<close> and \<open>epipe\<close> are what \<open>write\<close> returns if the descriptor is ready, \<open>got\<close> is the byte that \<open>read\<close> delivers, \<open>readerr\<close> an error
  of \<open>read\<close> that is not an interrupt.\<close>

definition comm_do_write :: "bool \<Rightarrow> int \<Rightarrow> bool \<Rightarrow> tmain \<Rightarrow> tmain" where
  "comm_do_write isset w epipe m =
     (if flagsendalive m \<and> comm_canwrite m \<and> isset
      then if w \<le> 0 then (if w = - 1 \<and> epipe then m\<lparr>flagsendalive := False\<rparr> else m)
           else let m = m\<lparr>tsent := tsent m @ take (nat w) (drop (comm_pos m) (out_buf m)), comm_pos := comm_pos m + nat w\<rparr>
                in if comm_pos m = length (out_buf m) then m\<lparr>out_buf := [], comm_pos := 0\<rparr> else m
      else m)"

definition comm_do_read :: "(nat \<Rightarrow> bool) \<Rightarrow> bool \<Rightarrow> char option \<Rightarrow> bool \<Rightarrow> tmain \<Rightarrow> tmain" where
  "comm_do_read mem isset got readerr m =
     (if flagsendalive m \<and> isset
      then case got of
             None \<Rightarrow> (if readerr then m\<lparr>flagsendalive := False\<rparr> else m)
           | Some c \<Rightarrow>
               (if c = CHR ''H'' then m\<lparr>flagreadasap := True\<rparr>
                else if c = CHR ''X''
                then (if \<not> stopasap m then m\<lparr>out_buf := log1 mem (''status: qmail-todo stop processing asap'' @ [LF]) (out_buf m), stopasap := True\<rparr>
                      else m\<lparr>stopasap := True\<rparr>)
                else m\<lparr>out_buf := log1 mem (''warning: qmail-todo: qmail-send speaks an obscure dialect'' @ [LF]) (out_buf m)\<rparr>)
      else m)"

section \<open>What the files are to hold\<close>

text \<open>The records of an envelope, and what becomes of them.\<close>

definition info_text :: "char list list \<Rightarrow> char list" where
  "info_text ls = concat (map (\<lambda>l. if char_at l 0 = CHR ''F'' then l @ [NUL] else []) ls)"

definition routed :: "controls \<Rightarrow> channel \<Rightarrow> char list \<Rightarrow> char list" where
  "routed ctl c l =
     (if char_at l 0 = CHR ''T''
      then (case rewrite_ref ctl (tl l) of (r, rwline) \<Rightarrow> if (if r = 2 then Remote else Local) = c then rwline else [])
      else [])"

definition chan_text :: "controls \<Rightarrow> channel \<Rightarrow> char list list \<Rightarrow> char list" where
  "chan_text ctl c ls = concat (map (routed ctl c) ls)"

lemma text_snoc: "info_text (ls @ [l]) = info_text ls @ (if char_at l 0 = CHR ''F'' then l @ [NUL] else [])"
    "chan_text ctl c (ls @ [l]) = chan_text ctl c ls @ routed ctl c l" "info_text [] = []" "chan_text ctl c [] = []"
  by (simp_all add: info_text_def chan_text_def)

text \<open>The files of a message that \<open>qmail-send\<close> may deliver: all written and forced to the disk, and no channel without a recipient.\<close>

definition complete :: "controls \<Rightarrow> char list list \<Rightarrow> qfiles \<Rightarrow> bool" where
  "complete ctl ls d \<longleftrightarrow> info_data d = Some (info_text ls) \<and> info_sync d \<and>
     (\<forall>c. if chan_text ctl c ls = [] then chan_data d c = None else chan_data d c = Some (chan_text ctl c ls) \<and> chan_sync d c)"

definition todo_kept :: "tproc \<Rightarrow> bool" where
  "todo_kept st \<longleftrightarrow> (\<forall>d \<in> insert (files st) (set (ttrail st)). todo_there d)"

definition settled :: "tenv \<Rightarrow> tend \<times> tproc \<Rightarrow> bool" where
  "settled env fin \<longleftrightarrow> fst fin = Returned \<and>
     (\<forall>d \<in> insert (files (snd fin)) (set (ttrail (snd fin))). todo_there d \<or> complete (tctl env) (cm_lines [] (fd_left (todo_in env))) d)"

lemma todo_kept_updates [simp]:
  "todo_kept (st\<lparr>comm_buf := b\<rparr>) = todo_kept st" "todo_kept (st\<lparr>tss := ss\<rparr>) = todo_kept st" "todo_kept (st\<lparr>ssinfo := si\<rparr>) = todo_kept st"
  "todo_kept (st\<lparr>sschan := sc\<rparr>) = todo_kept st" "todo_kept (st\<lparr>flagchan := fc\<rparr>) = todo_kept st" "todo_kept (st\<lparr>flagstopasap := f\<rparr>) = todo_kept st"
  "todo_kept (st\<lparr>todo_uid := u\<rparr>) = todo_kept st" "todo_kept (st\<lparr>todo_pid := u\<rparr>) = todo_kept st"
  by (simp_all add: todo_kept_def)

lemma todo_kept_set: "todo_kept st \<Longrightarrow> (\<And>d. todo_there (f d) = todo_there d) \<Longrightarrow> todo_kept (set_files f st)"
  by (auto simp: todo_kept_def set_files_def)

lemma todo_kept_noted: "todo_kept st \<Longrightarrow> todo_kept (noted_info ss st)" "todo_kept st \<Longrightarrow> todo_kept (noted_chan c ss st)"
  by (simp_all add: noted_info_def noted_chan_def todo_kept_set)

lemma todo_kept_settled: "todo_kept st \<Longrightarrow> settled env (Returned, st)"
  by (auto simp: todo_kept_def settled_def)

lemma give_up_settled [simp]: "todo_kept st \<Longrightarrow> ends (settled env) P (give_up env' what name st)"
  by (simp add: give_up_def todo_kept_settled)

section \<open>Record after record\<close>

definition records_done :: "tenv \<Rightarrow> char list list \<Rightarrow> tproc \<Rightarrow> bool" where
  "records_done env ls st \<longleftrightarrow> todo_kept st \<and> out_inv (ssinfo st) \<and> out_sent snd (ssinfo st) = info_text ls \<and>
     (\<forall>c. if flagchan st c then out_inv (sschan st c) \<and> out_sent snd (sschan st c) = chan_text (tctl env) c ls \<and> chan_text (tctl env) c ls \<noteq> []
          else chan_data (files st) c = None \<and> chan_text (tctl env) c ls = [])"

lemma records_done_kept: "records_done env ls st \<Longrightarrow> todo_kept st"
  by (simp add: records_done_def)

lemma records_done_updates [simp]:
  "records_done env ls (st\<lparr>comm_buf := b\<rparr>) = records_done env ls st" "records_done env ls (st\<lparr>tss := ss\<rparr>) = records_done env ls st"
  "records_done env ls (st\<lparr>todo_uid := u\<rparr>) = records_done env ls st" "records_done env ls (st\<lparr>todo_pid := u\<rparr>) = records_done env ls st"
  by (simp_all add: records_done_def)

lemma sender_record_done:
  assumes "records_done env ls st" "char_at l 0 = CHR ''F''"
  shows "ends (settled env) (\<lambda>v. records_done env (ls @ [l]) v \<and> tss v = tss st) (sender_record env mid (l @ [NUL]) st)"
proof -
  have inv: "out_inv (ssinfo st)" "todo_kept st" using assms(1) by (simp_all add: records_done_def)
  from inv(1) show ?thesis
  proof (cases rule: fdw.putflush_outcome [of _ "l @ [NUL]"])
    case (1 ss)
    have "out_sent snd ss = snd (sw ss)" using putflush_empties [OF 1(1)] by (simp add: out_sent_def)
    moreover have "routed (tctl env) c l = []" for c using assms(2) by (simp add: routed_def)
    ultimately have "records_done env (ls @ [l]) (noted_info ss st)"
      using 1 assms todo_kept_noted(1) [OF inv(2), of ss] unfolding records_done_def
      by (simp add: text_snoc) (simp add: noted_info_def set_files_def)
    then show ?thesis using 1(1) by (simp add: sender_record_def Let_def) (simp add: noted_info_def set_files_def)
  next
    case (2 ss k)
    then show ?thesis using todo_kept_noted(1) [OF inv(2), of ss] by (simp add: sender_record_def Let_def)
  qed
qed


lemma rewrite_routed:
  assumes "rewrite ctl mem (tl (l @ [NUL])) = (r, rwline)" "r \<noteq> 0" "char_at l 0 = CHR ''T''" "NUL \<notin> set l"
  shows "routed ctl c l = (if c = (if r = 2 then Remote else Local) then rwline else [])" "rwline \<noteq> []"
proof -
  have "l \<noteq> []" using assms(3) by auto
  then have t: "tl (l @ [NUL]) = tl l @ [NUL]" "cstr (tl l @ [NUL]) = tl l" using assms(4) by (cases l; simp)+
  have "rewrite ctl mem (tl (l @ [NUL])) = rewrite_ref ctl (tl l)"
    using assms(1,2) rewrite_all [of ctl "tl l @ [NUL]"] rewrite_some [of ctl mem "tl l @ [NUL]"] by (auto simp: t)
  then have ref: "rewrite_ref ctl (tl l) = (r, rwline)" using assms(1) by simp
  then show "routed ctl c l = (if c = (if r = 2 then Remote else Local) then rwline else [])" using assms(3) by (auto simp: routed_def)
  show "rwline \<noteq> []" using ref by (auto simp: rewrite_ref_def Let_def split: if_splits option.splits)
qed

lemma recipient_record_done:
  assumes "records_done env ls st" "char_at l 0 = CHR ''T''" "NUL \<notin> set l"
  shows "ends (settled env) (\<lambda>v. records_done env (ls @ [l]) v \<and> tss v = tss st) (recipient_record env mid (l @ [NUL]) st)"
proof -
  obtain r rwline where rw: "rewrite (tctl env) (tmem env) (tl (l @ [NUL])) = (r, rwline)" by fastforce
  show ?thesis
  proof (cases "r = 0")
    case True
    then show ?thesis using rw records_done_kept [OF assms(1)] by (simp add: recipient_record_def todo_kept_settled)
  next
    case False
    define c where "c = (if r = 2 then Remote else Local)"
    have rt: "routed (tctl env) d l = (if d = c then rwline else [])" "rwline \<noteq> []" for d
      using rewrite_routed [OF rw False assms(2,3)] by (simp_all add: c_def)
    let ?open = "if flagchan st c then Inr st
                 else if tfails env (Excl_chan c) then give_up env ''unable to create '' (fn_chan mid c) st
                 else Inr ((set_files (\<lambda>d. d\<lparr>chan_data := (chan_data d)(c := Some []), chan_sync := (chan_sync d)(c := False)\<rparr>) st)
                    \<lparr>sschan := (sschan st)(c := substdio_fdbuf (chan_out env c, []) (replicate 1024 NUL)), flagchan := (flagchan st)(c := True)\<rparr>)"
    let ?open_done = "\<lambda>v. todo_kept v \<and> out_inv (ssinfo v) \<and> out_sent snd (ssinfo v) = info_text ls \<and> flagchan v c \<and> tss v = tss st \<and>
       out_inv (sschan v c) \<and> out_sent snd (sschan v c) = chan_text (tctl env) c ls \<and>
       (\<forall>d. d \<noteq> c \<longrightarrow> (if flagchan v d then out_inv (sschan v d) \<and> out_sent snd (sschan v d) = chan_text (tctl env) d ls \<and> chan_text (tctl env) d ls \<noteq> []
          else chan_data (files v) d = None \<and> chan_text (tctl env) d ls = []))"
    have open_: "ends (settled env) ?open_done ?open"
    proof (cases "flagchan st c")
      case True
      then show ?thesis using assms(1) by (simp add: records_done_def)
    next
      case False
      then show ?thesis using assms(1)
        by (auto simp: records_done_def fdw.sent_fdbuf set_files_def todo_kept_def)
    qed
    have "ends (settled env) (\<lambda>v. records_done env (ls @ [l]) v \<and> tss v = tss st) (andthen ?open (\<lambda>st.
        case substdio_bput fd_write (sschan st c) rwline of
          None \<Rightarrow> Inl (Hung, st)
        | Some (ok, ss) \<Rightarrow>
            (let st = noted_chan c ss st in if \<not> ok then give_up env ''trouble writing to '' (fn_chan mid c) st else Inr st)))"
    proof (rule ends_andthen [OF open_])
      fix v assume v: "?open_done v"
      then have "fdw.puts_all rwline (sschan v c) (substdio_bput fd_write (sschan v c) rwline)" by (intro fdw.bput_puts) simp
      then show "ends (settled env) (\<lambda>v. records_done env (ls @ [l]) v \<and> tss v = tss st) (case substdio_bput fd_write (sschan v c) rwline of
          None \<Rightarrow> Inl (Hung, v)
        | Some (ok, ss) \<Rightarrow>
            (let st = noted_chan c ss v in if \<not> ok then give_up env ''trouble writing to '' (fn_chan mid c) st else Inr st))"
      proof (cases rule: fdw.puts_all_cases)
        case (1 ss)
        have k: "todo_kept (noted_chan c ss v)" using v todo_kept_noted(2) by blast
        have "records_done env (ls @ [l]) (noted_chan c ss v)"
          unfolding records_done_def
          using k v 1(2,4) rt assms(2) by (simp add: text_snoc) (auto simp: noted_chan_def set_files_def)
        then show ?thesis using 1(1) v by (simp add: Let_def) (simp add: noted_chan_def set_files_def)
      next
        case (2 ss k)
        then show ?thesis using v todo_kept_noted(2) [of v c ss] by (simp add: Let_def)
      qed
    qed
    then show ?thesis using False rw unfolding recipient_record_def c_def Let_def by simp
  qed
qed

lemma todo_record_done:
  assumes "records_done env ls st" "NUL \<notin> set l"
  shows "ends (settled env) (\<lambda>v. records_done env (ls @ [l]) v \<and> tss v = tss st) (todo_record env mid (l @ [NUL]) st)"
proof -
  have c: "char_at (l @ [NUL]) 0 = char_at l 0" by (cases l) simp_all
  have other: "records_done env (ls @ [l]) st" if "char_at l 0 \<noteq> CHR ''F''" "char_at l 0 \<noteq> CHR ''T''"
    using assms(1) that by (simp add: records_done_def text_snoc routed_def)
  show ?thesis unfolding todo_record_def c
    using other sender_record_done [OF assms(1)] recipient_record_done [OF assms(1) _ assms(2)] records_done_kept [OF assms(1)]
    by (auto simp: Let_def split: prod.split)
qed


lemma cm_lines_split: "NUL \<notin> set l \<Longrightarrow> cm_lines [] (l @ NUL # s) = l # cm_lines [] s" "NUL \<notin> set l \<Longrightarrow> cm_lines [] l = []"
proof -
  have "cm_lines cur (l @ NUL # s) = (cur @ l) # cm_lines [] s" "cm_lines cur l = []" if "NUL \<notin> set l" for cur
    using that by (induction l arbitrary: cur) auto
  then show "NUL \<notin> set l \<Longrightarrow> cm_lines [] (l @ NUL # s) = l # cm_lines [] s" "NUL \<notin> set l \<Longrightarrow> cm_lines [] l = []" by simp_all
qed

lemma todo_loop_done:
  assumes "records_done env ls st" "in_inv (tss st)" "length (in_stream fd_left (tss st)) < k"
  shows "ends (settled env) (records_done env (ls @ cm_lines [] (in_stream fd_left (tss st)))) (todo_loop env mid k st)"
  using assms
proof (induction k arbitrary: ls st)
  case (Suc k)
  from Suc.prems(2) show ?case
  proof (cases rule: fdr.getln_any [where mem = "tmem env" and sa = "[]" and m = False and sep = NUL])
    case (fail ss sa)
    then show ?thesis using records_done_kept [OF Suc.prems(1)] by simp
  next
    case (rest ss)
    then show ?thesis using Suc.prems(1) by (simp add: cm_lines_split)
  next
    case (line ss l)
    let ?v = "st\<lparr>tss := ss\<rparr>"
    have st: "cm_lines [] (in_stream fd_left (tss st)) = l # cm_lines [] (in_stream fd_left ss)"
      using line(2) by (simp add: line(3) cm_lines_split)
    have "ends (settled env) (records_done env (ls @ cm_lines [] (in_stream fd_left (tss st))))
        (andthen (todo_record env mid (l @ [NUL]) ?v) (todo_loop env mid k))"
    proof (rule ends_andthen)
      show "ends (settled env) (\<lambda>v. records_done env (ls @ [l]) v \<and> tss v = tss ?v) (todo_record env mid (l @ [NUL]) ?v)"
        by (rule todo_record_done) (use Suc.prems(1) line(2) in simp_all)
      fix v assume v: "records_done env (ls @ [l]) v \<and> tss v = tss ?v"
      then have "in_inv (tss v)" "length (in_stream fd_left (tss v)) < k" using line(3,4) Suc.prems(3) by simp_all
      from Suc.IH [OF _ this, of "ls @ [l]"] v
      show "ends (settled env) (records_done env (ls @ cm_lines [] (in_stream fd_left (tss st)))) (todo_loop env mid k v)"
        by (simp add: st)
    qed
    then show ?thesis by (simp add: line(1) Let_def)
  qed
qed simp

lemma todo_open_done:
  assumes "todo_kept st"
  shows "ends (settled env) (\<lambda>v. records_done env [] v \<and> in_inv (tss v) \<and> in_stream fd_left (tss v) = fd_left (todo_in env)) (todo_open env mid st)"
proof -
  have un: "ends (settled env) (\<lambda>v. todo_kept v \<and> (\<forall>c. c \<in> set cs \<or> chan_data (files st) c = None \<longrightarrow> chan_data (files v) c = None)) (unlink_chans env mid cs st)"
    if "todo_kept st" for cs and st :: tproc
    using that
  proof (induction cs arbitrary: st)
    case (Cons c cs)
    let ?v = "set_files (\<lambda>d. d\<lparr>chan_data := (chan_data d)(c := None)\<rparr>) st"
    have "todo_kept ?v" using Cons.prems by (simp add: todo_kept_set)
    from Cons.IH [OF this] have "ends (settled env) (\<lambda>v. todo_kept v \<and> (\<forall>d. d \<in> set (c # cs) \<or> chan_data (files st) d = None \<longrightarrow> chan_data (files v) d = None))
        (unlink_chans env mid cs ?v)" by (rule ends_mono) (auto simp: set_files_def)
    then show ?case using Cons.prems by simp
  qed simp
  have all: "c \<in> set channels" for c by (cases c) (simp_all add: channels_eq)
  have "ends (settled env) (\<lambda>v. records_done env [] v \<and> in_inv (tss v) \<and> in_stream fd_left (tss v) = fd_left (todo_in env))
     (andthen (unlink_chans env mid channels st) (\<lambda>st.
        if tfails env Unlink_info then give_up env ''unable to unlink '' (fn_info mid) st
        else let st = set_files (\<lambda>d. d\<lparr>info_data := None\<rparr>) st in
        if tfails env Excl_info then give_up env ''unable to create '' (fn_info mid) st
        else let st = set_files (\<lambda>d. d\<lparr>info_data := Some [], info_sync := False\<rparr>) st in
        Inr (st\<lparr>comm_buf := log3 (tmem env) ''new msg '' (fmt_ulong mid) [LF] (comm_buf st), flagchan := (\<lambda>_. False),
            tss := substdio_fdbuf (todo_in env) (replicate 8192 NUL), ssinfo := substdio_fdbuf (info_out env, []) (replicate 512 NUL),
            todo_uid := 0, todo_pid := 0\<rparr>)))"
  proof (rule ends_andthen [OF un [OF assms]])
    fix u assume u: "todo_kept u \<and> (\<forall>c. c \<in> set channels \<or> chan_data (files st) c = None \<longrightarrow> chan_data (files u) c = None)"
    have n: "replicate 8192 NUL \<noteq> []" "replicate 512 NUL \<noteq> []" "replicate 8192 NUL = [] \<longleftrightarrow> False" "replicate 512 NUL = [] \<longleftrightarrow> False" by simp_all
    have k: "todo_kept (set_files (\<lambda>d. d\<lparr>info_data := None\<rparr>) u)"
      "todo_kept (set_files (\<lambda>d. d\<lparr>info_data := Some [], info_sync := False\<rparr>) (set_files (\<lambda>d. d\<lparr>info_data := None\<rparr>) u))"
      using u by (simp_all add: todo_kept_set)
    then show "ends (settled env) (\<lambda>v. records_done env [] v \<and> in_inv (tss v) \<and> in_stream fd_left (tss v) = fd_left (todo_in env))
      (if tfails env Unlink_info then give_up env ''unable to unlink '' (fn_info mid) u
        else let st = set_files (\<lambda>d. d\<lparr>info_data := None\<rparr>) u in
        if tfails env Excl_info then give_up env ''unable to create '' (fn_info mid) st
        else let st = set_files (\<lambda>d. d\<lparr>info_data := Some [], info_sync := False\<rparr>) st in
        Inr (st\<lparr>comm_buf := log3 (tmem env) ''new msg '' (fmt_ulong mid) [LF] (comm_buf st), flagchan := (\<lambda>_. False),
            tss := substdio_fdbuf (todo_in env) (replicate 8192 NUL), ssinfo := substdio_fdbuf (info_out env, []) (replicate 512 NUL),
            todo_uid := 0, todo_pid := 0\<rparr>))"
      using u all by (simp add: Let_def records_done_def text_snoc fdr.stream_fdbuf fdw.sent_fdbuf) (simp add: set_files_def)
  qed
  then show ?thesis using assms unfolding todo_open_def by (simp add: Let_def)
qed


text \<open>The files of the channels are finished one after the other; those in \<open>cs\<close> still have to be.\<close>

definition chan_of :: "tenv \<Rightarrow> char list list \<Rightarrow> channel list \<Rightarrow> tproc \<Rightarrow> channel \<Rightarrow> bool" where
  "chan_of env ls cs st c \<longleftrightarrow>
     (if flagchan st c
      then chan_text (tctl env) c ls \<noteq> [] \<and> (if c \<in> set cs then out_inv (sschan st c) \<and> out_sent snd (sschan st c) = chan_text (tctl env) c ls
           else chan_data (files st) c = Some (chan_text (tctl env) c ls) \<and> chan_sync (files st) c)
      else chan_data (files st) c = None \<and> chan_text (tctl env) c ls = [])"

definition finished :: "tenv \<Rightarrow> char list list \<Rightarrow> channel list \<Rightarrow> tproc \<Rightarrow> bool" where
  "finished env ls cs st \<longleftrightarrow> todo_kept st \<and> info_data (files st) = Some (info_text ls) \<and> info_sync (files st) \<and> (\<forall>c. chan_of env ls cs st c)"

lemma finish_chans_done:
  assumes "finished env ls cs st" "distinct cs"
  shows "ends (settled env) (finished env ls []) (finish_chans env mid cs st)"
  using assms
proof (induction cs arbitrary: st)
  case (Cons c cs)
  show ?case
  proof (cases "flagchan st c")
    case False
    moreover have "chan_of env ls cs st e" if "chan_of env ls (c # cs) st e" for e
      using that False by (cases "e = c") (simp_all add: chan_of_def)
    ultimately have "finished env ls cs st" using Cons.prems(1) by (simp add: finished_def)
    then show ?thesis using Cons False by simp
  next
    case True
    have "chan_of env ls (c # cs) st c" "todo_kept st" using Cons.prems(1) by (simp_all add: finished_def)
    then have inv: "out_inv (sschan st c)" "out_sent snd (sschan st c) = chan_text (tctl env) c ls" "todo_kept st"
      using True by (simp_all add: chan_of_def)
    from inv(1) show ?thesis
    proof (cases rule: fdw.flush_outcome)
      case (1 ss)
      let ?v = "set_files (\<lambda>d. d\<lparr>chan_sync := (chan_sync d)(c := True)\<rparr>) (noted_chan c ss st)"
      have k: "todo_kept (noted_chan c ss st)" "todo_kept ?v" using inv(3) by (simp_all add: todo_kept_noted todo_kept_set)
      have "finished env ls cs ?v" unfolding finished_def
      proof (intro conjI allI)
        fix e
        have "chan_of env ls (c # cs) st e" using Cons.prems(1) by (simp add: finished_def)
        then show "chan_of env ls cs ?v e" using Cons.prems(2) 1(5) inv(2) True
          by (cases "e = c") (simp_all add: chan_of_def noted_chan_def set_files_def)
      qed (use k(2) Cons.prems(1) in \<open>simp_all add: finished_def noted_chan_def set_files_def\<close>)
      then show ?thesis using Cons.IH [of ?v] Cons.prems(2) True 1(1) k(1) by (simp add: Let_def)
    next
      case (2 ss k)
      then show ?thesis using True todo_kept_noted(2) [OF inv(3), of c ss] by (simp add: Let_def)
    qed
  qed
qed simp

lemma finished_complete: "finished env ls [] st \<Longrightarrow> complete (tctl env) ls (files st) \<and> todo_kept st \<and> (\<forall>c. flagchan st c \<longleftrightarrow> chan_text (tctl env) c ls \<noteq> [])"
proof -
  assume *: "finished env ls [] st"
  have "flagchan st c \<longleftrightarrow> chan_text (tctl env) c ls \<noteq> []"
    "if chan_text (tctl env) c ls = [] then chan_data (files st) c = None else chan_data (files st) c = Some (chan_text (tctl env) c ls) \<and> chan_sync (files st) c" for c
  proof -
    have "chan_of env ls [] st c" using * by (simp add: finished_def)
    then show "flagchan st c \<longleftrightarrow> chan_text (tctl env) c ls \<noteq> []"
      "if chan_text (tctl env) c ls = [] then chan_data (files st) c = None else chan_data (files st) c = Some (chan_text (tctl env) c ls) \<and> chan_sync (files st) c"
      by (cases "flagchan st c"; simp add: chan_of_def)+
  qed
  then show ?thesis using * by (simp add: finished_def complete_def)
qed

text \<open>What is left of a message that has been announced to \<open>qmail-send\<close>.\<close>

definition announced :: "tenv \<Rightarrow> nat \<Rightarrow> char list list \<Rightarrow> tproc \<Rightarrow> bool" where
  "announced env mid ls st \<longleftrightarrow> settled env (Returned, st) \<and> complete (tctl env) ls (files st) \<and> (todo_there (files st) \<longrightarrow> \<not> clean_removes env) \<and>
     (\<exists>buf. comm_buf st = comm_write (tmem env) mid (chan_text (tctl env) Local ls \<noteq> []) (chan_text (tctl env) Remote ls \<noteq> []) buf)"

lemma todo_finish_done:
  assumes "records_done env ls st" "ls = cm_lines [] (fd_left (todo_in env))"
  shows "ends (settled env) (announced env mid ls) (todo_finish env mid st)"
proof -
  have inv: "out_inv (ssinfo st)" "out_sent snd (ssinfo st) = info_text ls" "todo_kept st"
    using assms(1) by (simp_all add: records_done_def)
  from inv(1) show ?thesis
  proof (cases rule: fdw.flush_outcome)
    case (2 ss k)
    then show ?thesis using todo_kept_noted(1) [OF inv(3), of ss] by (simp add: todo_finish_def Let_def)
  next
    case (1 ss)
    let ?u = "noted_info ss st" let ?v = "set_files (\<lambda>d. d\<lparr>info_sync := True\<rparr>) ?u"
    have k: "todo_kept ?u" "todo_kept ?v" using inv(3) by (simp_all add: todo_kept_noted todo_kept_set)
    have fin: "finished env ls channels ?v" unfolding finished_def
    proof (intro conjI allI)
      fix c
      have "c \<in> set channels" by (cases c) (simp_all add: channels_eq)
      moreover have "if flagchan st c then out_inv (sschan st c) \<and> out_sent snd (sschan st c) = chan_text (tctl env) c ls \<and> chan_text (tctl env) c ls \<noteq> []
          else chan_data (files st) c = None \<and> chan_text (tctl env) c ls = []" using assms(1) by (simp add: records_done_def)
      ultimately show "chan_of env ls channels ?v c"
        by (cases "flagchan st c") (simp_all add: chan_of_def noted_info_def set_files_def)
    qed (use k(2) 1(5) inv(2) in \<open>simp_all add: noted_info_def set_files_def\<close>)
    have d: "distinct channels" by (simp add: channels_eq)
    have "ends (settled env) (announced env mid ls) (andthen (finish_chans env mid channels ?v) (\<lambda>st.
                if tfails env Ask_clean then Inl (Returned, cleandied env st)
                else let st = (if clean_removes env then set_files (\<lambda>d. d\<lparr>todo_there := False\<rparr>) st else st) in
                if tfails env Read_clean then Inl (Returned, cleandied env st)
                else if clean_reply env \<noteq> CHR ''+''
                then Inl (Returned, st\<lparr>comm_buf := log3 (tmem env) ''warning: qmail-clean unable to clean up '' (fn_todo mid) [LF] (comm_buf st)\<rparr>)
                else Inr (st\<lparr>comm_buf := comm_write (tmem env) mid (flagchan st Local) (flagchan st Remote) (comm_buf st)\<rparr>)))"
    proof (rule ends_andthen [OF finish_chans_done [OF fin d]])
      fix w assume w: "finished env ls [] w"
      note c = finished_complete [OF w]
      let ?x = "if clean_removes env then set_files (\<lambda>d. d\<lparr>todo_there := False\<rparr>) w else w"
      have x: "complete (tctl env) ls (files ?x)" "\<forall>e \<in> insert (files ?x) (set (ttrail ?x)). todo_there e \<or> complete (tctl env) ls e"
          "todo_there (files ?x) \<longrightarrow> \<not> clean_removes env" "flagchan ?x = flagchan w"
        using c unfolding todo_kept_def complete_def by (auto simp: set_files_def split: if_split_asm)
      then have s: "settled env (Returned, ?x\<lparr>comm_buf := b\<rparr>)" "settled env (Returned, cleandied env ?x)" "settled env (Returned, cleandied env w)" for b
        using c unfolding settled_def todo_kept_def assms(2) cleandied_def by simp_all
      show "ends (settled env) (announced env mid ls) (if tfails env Ask_clean then Inl (Returned, cleandied env w)
                else let st = ?x in
                if tfails env Read_clean then Inl (Returned, cleandied env st)
                else if clean_reply env \<noteq> CHR ''+''
                then Inl (Returned, st\<lparr>comm_buf := log3 (tmem env) ''warning: qmail-clean unable to clean up '' (fn_todo mid) [LF] (comm_buf st)\<rparr>)
                else Inr (st\<lparr>comm_buf := comm_write (tmem env) mid (flagchan st Local) (flagchan st Remote) (comm_buf st)\<rparr>))"
        using s x c unfolding announced_def Let_def by auto
    qed
    then show ?thesis using 1(1) k(1) unfolding todo_finish_def by (simp add: Let_def)
  qed
qed

lemma todo_message_done:
  assumes "todo_kept st"
  shows "ends (settled env) (announced env mid (cm_lines [] (fd_left (todo_in env)))) (todo_message env mid st)"
  unfolding todo_message_def
proof (rule ends_andthen [OF todo_open_done [OF assms]])
  fix u assume u: "records_done env [] u \<and> in_inv (tss u) \<and> in_stream fd_left (tss u) = fd_left (todo_in env)"
  then show "ends (settled env) (announced env mid (cm_lines [] (fd_left (todo_in env))))
     (andthen (todo_loop env mid (length (fd_left (todo_in env)) + 1) u) (todo_finish env mid))"
    using todo_loop_done [of env "[]" u "length (fd_left (todo_in env)) + 1" mid] todo_finish_done
    by (intro ends_andthen [where P = "records_done env (cm_lines [] (fd_left (todo_in env)))"]) auto
qed


section \<open>What is told to qmail-send\<close>

text \<open>What has been sent and what is still to be sent.\<close>

definition all_told :: "tmain \<Rightarrow> char list" where
  "all_told m = tsent m @ drop (comm_pos m) (out_buf m)"

definition pos_ok :: "tmain \<Rightarrow> bool" where
  "pos_ok m \<longleftrightarrow> comm_pos m \<le> length (out_buf m)"

lemma comm_add_extends: "\<exists>s. comm_add mem ss buf = buf @ s \<and> (s = [] \<or> s = concat ss)"
proof -
  have "cats mem buf ss = Some r \<Longrightarrow> r = buf @ concat ss" for r
  proof (induction ss arbitrary: buf)
    case (Cons a ss)
    then obtain y where "cat mem buf a = Some y" "cats mem y ss = Some r" by (auto simp: bind_eq_Some_conv)
    then show ?case using Cons.IH [of y] cat_some [of mem buf a y] by simp
  qed simp
  then show ?thesis by (cases "cats mem buf ss") (auto simp: comm_add_def)
qed

lemma comm_do_write_told:
  assumes "pos_ok m" "w \<le> int (length (out_buf m) - comm_pos m)"
  shows "pos_ok (comm_do_write isset w epipe m)" "all_told (comm_do_write isset w epipe m) = all_told m"
proof -
  have *: "take n (drop k xs) @ drop (k + n) xs = drop k xs" for n k and xs :: "char list"
    by (metis append_take_drop_id add.commute drop_drop)
  show "pos_ok (comm_do_write isset w epipe m)" using assms
    by (auto simp: comm_do_write_def pos_ok_def Let_def)
  have "drop (comm_pos m) (out_buf m) = take (nat w) (drop (comm_pos m) (out_buf m))" if "comm_pos m + nat w = length (out_buf m)"
    using that by (simp add: add.commute)
  then show "all_told (comm_do_write isset w epipe m) = all_told m" using assms * [of "nat w" "comm_pos m" "out_buf m"]
    by (auto simp: comm_do_write_def all_told_def Let_def)
qed


section \<open>Properties\<close>

text \<open>C19: A message on its way from \<open>todo\<close> to the queue proper is never lost, whatever fails and whenever the machine stops: at every moment
  \<open>todo\<close> is still there, or \<open>info\<close> holds the sender and \<open>local\<close> and \<open>remote\<close> hold every recipient of the envelope once, rewritten, in order,
  and all of them have been forced to the disk. Processing the message ends, and \<open>qmail-send\<close> is told of it only when this is done, with the
  channels that have recipients.\<close>

theorem todo_loses_nothing:
  "let ls = cm_lines [] (fd_left (todo_in env)); safe = (\<lambda>q. todo_there q \<or> complete (tctl env) ls q) in
   case todo_message env mid (todo_begin (d\<lparr>todo_there := True\<rparr>) buf) of
     Inl (e, st) \<Rightarrow> e = Returned \<and> list_all safe (ttrail st @ [files st])
   | Inr st \<Rightarrow> list_all safe (ttrail st @ [files st]) \<and> complete (tctl env) ls (files st) \<and>
       (\<exists>b. comm_buf st = comm_write (tmem env) mid (chan_text (tctl env) Local ls \<noteq> []) (chan_text (tctl env) Remote ls \<noteq> []) b)"
proof -
  have "todo_kept (todo_begin (d\<lparr>todo_there := True\<rparr>) buf)" by (simp add: todo_kept_def todo_begin_def)
  from todo_message_done [OF this, of env mid] show ?thesis
    by (auto simp: announced_def settled_def list_all_iff Let_def ends_def split: sum.split)
qed

text \<open>Every record for \<open>qmail-send\<close> is one string ending with NUL, or nothing if there is no memory for it: how much of the buffer the
  kernel takes does not matter, what has been sent and what is still to be sent are together the same as before.\<close>

theorem comm_keeps_records:
  assumes "pos_ok m" "w \<le> int (length (out_buf m) - comm_pos m)"
  shows "all_told (comm_do_write isset w epipe m) = all_told m \<and> pos_ok (comm_do_write isset w epipe m) \<and>
    (\<exists>s. comm_write mem mid loc rem (out_buf m) = out_buf m @ s \<and> (s = [] \<or>
       s = ''D'' @ (if loc \<and> rem then ''B'' else if loc then ''L'' else if rem then ''R'' else ''X'') @ fmt_ulong mid @ [NUL]))"
  using comm_do_write_told [OF assms, of isset epipe]
    comm_add_extends [of mem "[''D'', if loc \<and> rem then ''B'' else if loc then ''L'' else if rem then ''R'' else ''X'', fmt_ulong mid, [NUL]]" "out_buf m"]
  by (simp add: comm_write_def)

theorem comm_keeps_records_witness:
  "let m = \<lparr>tododir = None, nexttodorun = 0, todo_recent = 0, out_buf = ''DL7'' @ [NUL], comm_pos = 1, tsent = ''D'', stopasap = False, flagreadasap = False,
     flagsendalive = True\<rparr> in all_told (comm_do_write True 2 False m) = ''DL7'' @ [NUL]"
  using comm_keeps_records [of "\<lparr>tododir = None, nexttodorun = 0, todo_recent = 0, out_buf = ''DL7'' @ [NUL], comm_pos = 1, tsent = ''D'', stopasap = False,
     flagreadasap = False, flagsendalive = True\<rparr>" 2 True False]
  by (simp add: Let_def pos_ok_def) (simp add: all_told_def)

end
