(* ===== verification/Bounce.thy ===== *)
theory Bounce
  imports Lines Qmailc Header
begin

text \<open>
  The message that \<open>injectbounce\<close> (\<open>qmail-send.c\<close>) hands to \<open>qmail-queue\<close> when a message is done and some of its recipients have
  failed: a header, the paragraphs collected in the bounce file, and a copy of the message, all of it or its first \<open>bouncemaxbytes\<close>.
  The files are read with \<open>file_read\<close>; a file that cannot be opened is \<open>None\<close>. The loops that copy a file have the length of the
  file as fuel. The lemmas say what has been handed over if the error flag is not set in the end.
\<close>

section \<open>Text\<close>

record bounce_conf =
  bouncemaxbytes :: int
  bouncefrom :: "char list"
  bouncehost :: "char list"
  doublebounceto :: "char list"
  bounce_localtime :: "int \<Rightarrow> datetime"

definition quoted :: "char list \<Rightarrow> char list" where
  "quoted s = snd (quote (\<lambda>_. True) [] s)"

definition quoted2 :: "char list \<Rightarrow> char list" where
  "quoted2 s = snd (quote2 (\<lambda>_. True) [] s)"

text \<open>What is put before the bounce file.\<close>

definition bounce_head :: "bounce_conf \<Rightarrow> int \<Rightarrow> char list \<Rightarrow> char list \<Rightarrow> char list list" where
  "bounce_head bc now sender bouncerecip =
     [datefmt (bounce_localtime bc) now, ''From: '', quoted (bouncefrom bc), ''@'', bouncehost bc, LF # ''To: '', quoted2 bouncerecip,
      LF # ''Subject: failure notice'' @ [LF, LF] @ ''Hi. This is the qmail-send program at '', bouncehost bc,
      (if sender \<noteq> []
       then ''.'' @ [LF] @ ''I'' @ [CHR 0x27] @ ''m afraid I wasn'' @ [CHR 0x27] @ ''t able to deliver your message to the following addresses.'' @ [LF] @
         ''This is a permanent error; I'' @ [CHR 0x27] @ ''ve given up. Sorry it didn'' @ [CHR 0x27] @ ''t work out.'' @ [LF, LF]
       else ''.'' @ [LF] @ ''I tried to deliver a bounce message to this address, but the bounce bounced!'' @ [LF, LF])]"

definition bounce_middle :: "char list \<Rightarrow> char list list" where
  "bounce_middle sender =
     [if sender \<noteq> [] then ''--- Below this line is a copy of the message.'' @ [LF, LF] else ''--- Below this line is the original bounce.'' @ [LF, LF],
      ''Return-Path: <'', quoted2 sender, ''>'' @ [LF]]"

section \<open>Copying files\<close>

text \<open>\<open>while ((r = substdio_get(&ssread,buf,sizeof(buf))) > 0) qmail_put(&qqt,buf,r);\<close>, and whether \<open>r\<close> is \<open>-1\<close> then.\<close>

fun copy_in :: "nat \<Rightarrow> ('w \<Rightarrow> nat \<Rightarrow> rd \<times> 'w) \<Rightarrow> 'w substdio \<Rightarrow> qmail \<Rightarrow> (bool \<times> qmail) option" where
  "copy_in 0 op ss qq = None"
| "copy_in (Suc k) op ss qq =
     (case substdio_get op ss 128 of
        None \<Rightarrow> None
      | Some (Got bs, ss) \<Rightarrow> (if bs = [] then Some (False, qq) else Option.bind (qmail_put qq bs) (copy_in k op ss))
      | Some (_, ss) \<Rightarrow> Some (True, qq))"

text \<open>\<open>(bytestogo < sizeof buf) ? bytestogo : sizeof buf\<close>; the comparison is unsigned.\<close>

definition toget :: "int \<Rightarrow> nat" where
  "toget bytestogo = (if 0 \<le> bytestogo \<and> bytestogo < 128 then nat bytestogo else 128)"

text \<open>The loop for \<open>bouncemaxbytes\<close>; \<open>r\<close> is the last result of \<open>substdio_get\<close>.\<close>

fun copy_max :: "nat \<Rightarrow> ('w \<Rightarrow> nat \<Rightarrow> rd \<times> 'w) \<Rightarrow> 'w substdio \<Rightarrow> int \<Rightarrow> int \<Rightarrow> qmail \<Rightarrow> (int \<times> qmail) option" where
  "copy_max 0 op ss togo r qq = None"
| "copy_max (Suc k) op ss togo r qq =
     (if toget togo > 0
      then case substdio_get op ss (toget togo) of
             None \<Rightarrow> None
           | Some (Got bs, ss) \<Rightarrow>
               (if bs = [] then Some (0, qq)
                else Option.bind (qmail_put qq bs) (copy_max k op ss (togo - int (toget togo)) (int (length bs))))
           | Some (_, ss) \<Rightarrow> Some (- 1, qq)
      else Some (r, qq))"

definition open_file :: "nat substdio" where
  "open_file = substdio_fdbuf 0 (replicate 128 NUL)"

definition copy_bounce :: "(bool \<times> char list) option \<Rightarrow> qmail \<Rightarrow> qmail option" where
  "copy_bounce f qq =
     (case f of
        None \<Rightarrow> Some (qmail_fail qq)
      | Some (broken, content) \<Rightarrow>
          Option.bind (copy_in (length content + 1) (file_read broken content) open_file qq)
            (\<lambda>(err, qq). Some (if err then qmail_fail qq else qq)))"

definition copy_original :: "int \<Rightarrow> (bool \<times> char list) option \<Rightarrow> qmail \<Rightarrow> qmail option" where
  "copy_original maxbytes f qq =
     (case f of
        None \<Rightarrow> Some (qmail_fail qq)
      | Some (broken, content) \<Rightarrow>
          (if maxbytes \<noteq> 0
           then Option.bind (copy_max (length content + 2) (file_read broken content) open_file maxbytes 0 qq) (\<lambda>(r, qq).
                Option.bind (if r > 0 then qmail_puts qq (LF # LF # ''--- End of message stripped.'' @ [LF]) else Some qq) (\<lambda>qq.
                Some (if r = - 1 then qmail_fail qq else qq)))
           else Option.bind (copy_in (length content + 1) (file_read broken content) open_file qq)
                  (\<lambda>(err, qq). Some (if err then qmail_fail qq else qq))))"

section \<open>Handing over\<close>

text \<open>From \<open>newfield_datemake\<close> to the end of the envelope; the result is the \<open>struct qmail\<close> before the child is waited for.\<close>

definition hand_bounce :: "bounce_conf \<Rightarrow> int \<Rightarrow> char list \<Rightarrow> (bool \<times> char list) option \<Rightarrow> (bool \<times> char list) option \<Rightarrow> qmail \<Rightarrow> qmail option" where
  "hand_bounce bc now sender bounce original qq =
     (let (bouncesender, bouncerecip) = (if sender \<noteq> [] then ([], sender) else (''#@[]'', doublebounceto bc)) in
      Option.bind (put_all qq (bounce_head bc now sender bouncerecip)) (\<lambda>qq.
      Option.bind (copy_bounce bounce qq) (\<lambda>qq.
      Option.bind (put_all qq (bounce_middle sender)) (\<lambda>qq.
      Option.bind (copy_original (bouncemaxbytes bc) original qq) (\<lambda>qq.
      Option.bind (qmail_from qq bouncesender) (\<lambda>qq.
      Option.bind (qmail_to qq bouncerecip) close_envelope))))))"


section \<open>What is handed over\<close>

lemma qq_ok_fail: "qq_ok bs qq \<Longrightarrow> qq_ok bs' (qmail_fail qq)"
  by (simp add: qq_ok_def qmail_fail_def)

lemma flagerr_fail [simp]: "flagerr (qmail_fail qq)"
  by (simp add: qmail_fail_def)

context reader
begin

lemma copy_in_ok:
  assumes "in_inv ss" "qq_ok bs qq" "length (stream ss) < k"
  obtains (ok) qq' where "copy_in k op ss qq = Some (False, qq')" "qq_ok (bs @ stream ss) qq'" "flagerr qq \<longrightarrow> flagerr qq'"
  | (bad) qq' x where "copy_in k op ss qq = Some (True, qq')" "qq_ok x qq'" "bad (sw ss)"
proof -
  have "(\<exists>qq'. copy_in k op ss qq = Some (False, qq') \<and> qq_ok (bs @ stream ss) qq' \<and> (flagerr qq \<longrightarrow> flagerr qq')) \<or>
      (\<exists>qq' x. copy_in k op ss qq = Some (True, qq') \<and> qq_ok x qq' \<and> bad (sw ss))"
    using assms
  proof (induction k arbitrary: ss bs qq)
    case (Suc k)
    have "0 < (128 :: nat)" by simp
    with Suc.prems(1) show ?case
    proof (cases rule: get_outcome)
      case (1 b s')
      show ?thesis
      proof (cases "b = []")
        case True
        then show ?thesis using 1 Suc.prems by simp
      next
        case False
        obtain q where q: "qmail_put qq b = Some q" "qq_ok (bs @ b) q" "flagerr qq \<longrightarrow> flagerr q" using qmail_put_ok [OF Suc.prems(2)] by blast
        have "length (stream s') < k" using 1(3) Suc.prems(3) False by (cases b) auto
        from Suc.IH [OF 1(2) q(2) this] show ?thesis using 1(1,3,6) q False by auto
      qed
    next
      case (2 s')
      then show ?thesis using Suc.prems(2) by auto
    qed
  qed simp
  then show thesis using that by blast
qed

end

lemma open_file_stream: "in_inv open_file" "in_stream (\<lambda>off. drop off content) open_file = content"
  using flr.stream_fdbuf [where w = 0 and buf = "replicate 128 NUL"] by (simp_all add: open_file_def)

text \<open>What a copied file adds: its content, unless the error flag is set.\<close>

lemma copy_bounce_ok:
  assumes "qq_ok bs qq"
  shows "\<exists>qq'. copy_bounce f qq = Some qq' \<and> (\<exists>x. qq_ok x qq') \<and> (flagerr qq \<longrightarrow> flagerr qq') \<and>
    (\<not> flagerr qq' \<longrightarrow> (\<exists>broken content. f = Some (broken, content) \<and> qq_ok (bs @ content) qq'))"
proof (cases f)
  case None
  then show ?thesis using qq_ok_fail [of bs qq] assms by (auto simp: copy_bounce_def)
next
  case (Some fc)
  obtain broken content where f: "f = Some (broken, content)" using Some by (cases fc) auto
  have "length (in_stream (\<lambda>off. drop off content) open_file) < length content + 1" by (simp add: open_file_stream)
  with open_file_stream(1) assms show ?thesis
  proof (cases rule: flr.copy_in_ok [where broken = broken])
    case (ok qq')
    then show ?thesis by (auto simp: copy_bounce_def f open_file_stream)
  next
    case (bad qq' x)
    then show ?thesis using qq_ok_fail [of x qq'] by (auto simp: copy_bounce_def f)
  qed
qed


definition stripped :: "char list" where
  "stripped = LF # LF # ''--- End of message stripped.'' @ [LF]"

text \<open>
  The copy of the message: all of it, or its first \<open>bouncemaxbytes\<close>. The remark that it has been cut comes when there was something to read each time
  that the loop asked, that is, when the message has more bytes than the whole blocks of 128 below the limit: also for a message that is not longer than the limit.
\<close>

definition copy_of :: "int \<Rightarrow> char list \<Rightarrow> char list" where
  "copy_of maxbytes content =
     (if maxbytes \<le> 0 then content
      else take (nat maxbytes) content @ (if 128 * ((nat maxbytes - 1) div 128) < length content then stripped else []))"

text \<open>Reads from a file that works: a request for a whole buffer, and one for less.\<close>

definition file_at :: "nat \<Rightarrow> nat substdio \<Rightarrow> bool" where
  "file_at off ss \<longleftrightarrow> sp ss = 0 \<and> sn ss = 128 \<and> length (sx ss) = 128 \<and> sw ss = off"

lemma file_at_open: "file_at 0 open_file"
  by (simp add: file_at_def open_file_def substdio_fdbuf_def)

lemma oneread_file: "oneread (file_read False content) off n = Some (Got (take n (drop off content)), off + length (take n (drop off content)))"
  by (subst oneread.simps) (simp add: file_read_def Let_def)

lemma get_broken:
  assumes "file_at off ss"
  obtains ss' where "substdio_get (file_read True content) ss n = Some (Rd_fail, ss')"
proof -
  have "oneread (file_read True content) off n = Some (Rd_fail, off)" for n by (subst oneread.simps) (simp add: file_read_def)
  then show thesis using assms that by (simp add: substdio_get_def file_at_def from_fd_def after_feed_def substdio_feed_def)
qed

lemma get_block:
  assumes "file_at off ss"
  obtains ss' where "substdio_get (file_read False content) ss 128 = Some (Got (take 128 (drop off content)), ss')"
    "file_at (off + length (take 128 (drop off content))) ss'"
  using assms that [of "ss\<lparr>sw := off + length (take 128 (drop off content))\<rparr>"]
  by (simp add: substdio_get_def file_at_def from_fd_def oneread_file)

lemma get_part:
  assumes "file_at off ss" "0 < n" "n < 128"
  obtains ss' where "substdio_get (file_read False content) ss n = Some (Got (take n (drop off content)), ss')"
proof -
  let ?bs = "take 128 (drop off content)"
  have inv: "in_inv ss" "in_stream (\<lambda>off. drop off content) ss = drop off content" using assms(1) by (auto simp: file_at_def in_inv_def in_stream_def)
  have g: "substdio_get (file_read False content) ss n = after_feed n (substdio_feed (file_read False content) ss)"
    using assms by (simp add: substdio_get_def file_at_def)
  have len: "sp s' = length ?bs" if "substdio_feed (file_read False content) ss = Some (k, s')" "0 < k" for k s'
    using that assms(1) by (auto simp: substdio_feed_def file_at_def oneread_file Let_def split: if_split_asm)
  from inv(1) show thesis
  proof (cases rule: flr.feed_outcome [where broken = False and content = content])
    case (1 s')
    then have sp: "sp s' = length ?bs" using len [OF 1(1)] by simp
    obtain bs s2 where b: "getthis s' n = (Got bs, s2)" "in_stream (\<lambda>off. drop off content) s' = bs @ in_stream (\<lambda>off. drop off content) s2"
      using flr.getthis_stream [OF 1(2) assms(2) 1(3)] by metis
    have "bs = take (if sp s' > n then n else sp s') (drop (sn s') (sx s'))" using b(1) by (auto simp: getthis_def split: if_split_asm)
    then have "length bs = min n (length ?bs)" using sp 1(2) by (auto simp: in_inv_def min_def)
    then have "length bs = length (take n (drop off content))" using assms(3) by simp
    moreover have "drop off content = bs @ in_stream (\<lambda>off. drop off content) s2" using b(2) 1(4) inv(2) by simp
    then have "bs = take (length bs) (drop off content)" by simp
    ultimately have "bs = take n (drop off content)" by (metis length_take min.cobounded1 min_def take_all)
    then show thesis using that g 1(1,3) b(1) by (simp add: after_feed_def)
  next
    case (2 s')
    then show thesis using that [of s'] g inv(2) by (simp add: after_feed_def)
  qed simp
qed

lemma copy_max_file:
  assumes "file_at off ss" "qq_ok bs qq" "length (drop off content) + 1 < k"
  shows "\<exists>r' qq'. copy_max k (file_read False content) ss togo r qq = Some (r', qq') \<and> (flagerr qq \<longrightarrow> flagerr qq') \<and>
    qq_ok (bs @ (if togo < 0 then drop off content else take (nat togo) (drop off content))) qq' \<and>
    (if togo < 0 then r' = 0 else if togo = 0 then r' = r
     else 0 \<le> r' \<and> (0 < r' \<longleftrightarrow> 128 * ((nat togo - 1) div 128) < length (drop off content)))"
  using assms
proof (induction k arbitrary: off ss bs qq togo r)
  case (Suc k)
  let ?l = "drop off content"
  consider "togo = 0" | "?l = []" "togo \<noteq> 0" | "?l \<noteq> []" "0 < togo" "togo < 128" | "?l \<noteq> []" "togo < 0 \<or> 128 \<le> togo" by linarith
  then show ?case
  proof cases
    case 1
    then show ?thesis using Suc.prems by (simp add: toget_def)
  next
    case 2
    have pos: "0 < toget togo" using 2 by (simp add: toget_def)
    obtain ss' where "substdio_get (file_read False content) ss (toget togo) = Some (Got [], ss')"
    proof (cases "toget togo = 128")
      case True
      then show thesis using get_block [OF Suc.prems(1), of content] 2 that by auto
    next
      case False
      then have "toget togo < 128" by (auto simp: toget_def split: if_split_asm)
      then show thesis using get_part [OF Suc.prems(1) pos, of content] 2 that by auto
    qed
    moreover note pos
    ultimately show ?thesis using 2 Suc.prems(2) by simp
  next
    case 3
    have t: "toget togo = nat togo" "0 < toget togo" using 3 by (simp_all add: toget_def)
    obtain ss' where g: "substdio_get (file_read False content) ss (nat togo) = Some (Got (take (nat togo) ?l), ss')"
    proof -
      have "0 < nat togo" "nat togo < 128" using 3 by simp_all
      from get_part [OF Suc.prems(1) this] that show thesis by blast
    qed
    obtain q where q: "qmail_put qq (take (nat togo) ?l) = Some q" "qq_ok (bs @ take (nat togo) ?l) q" "flagerr qq \<longrightarrow> flagerr q" using qmail_put_ok [OF Suc.prems(2)] by blast
    have k: "k \<noteq> 0" using Suc.prems(3) by simp
    then obtain k' where "k = Suc k'" by (cases k) auto
    then have "copy_max (Suc k) (file_read False content) ss togo r qq = Some (int (length (take (nat togo) ?l)), q)"
      using g q(1) t 3 by (simp add: toget_def)
    moreover have "(nat togo - 1) div 128 = 0" using 3 by simp
    ultimately show ?thesis using q 3 by auto
  next
    case 4
    have t: "toget togo = 128" using 4 by (auto simp: toget_def)
    obtain ss' where g: "substdio_get (file_read False content) ss 128 = Some (Got (take 128 ?l), ss')" "file_at (off + length (take 128 ?l)) ss'"
      by (rule get_block [OF Suc.prems(1)])
    obtain q where q: "qmail_put qq (take 128 ?l) = Some q" "qq_ok (bs @ take 128 ?l) q" "flagerr qq \<longrightarrow> flagerr q" using qmail_put_ok [OF Suc.prems(2)] by blast
    have eq: "copy_max (Suc k) (file_read False content) ss togo r qq = copy_max k (file_read False content) ss' (togo - 128) (int (length (take 128 ?l))) q"
      using g(1) q(1) t 4(1) by simp
    have d: "drop (off + length (take 128 ?l)) content = drop 128 ?l" by (simp add: add.commute min_def)
    have len: "length (drop (off + length (take 128 ?l)) content) + 1 < k" using Suc.prems(3) 4(1) unfolding d by (cases ?l) auto
    note ih = Suc.IH [OF g(2) q(2) len, of "togo - 128" "int (length (take 128 ?l))", unfolded d]
    show ?thesis
    proof (cases "togo < 0")
      case True
      have "take 128 ?l @ drop (128 + off) content = ?l" using append_take_drop_id [of 128 ?l] by (simp add: add.commute)
      then show ?thesis using True ih q(3) unfolding eq by auto
    next
      case False
      then have big: "128 \<le> togo" using 4(2) by simp
      then have n: "nat (togo - 128) = nat togo - 128" "128 \<le> nat togo" by linarith+
      then have tk: "take 128 ?l @ take (nat (togo - 128)) (drop 128 ?l) = take (nat togo) ?l" using take_add [of 128 "nat togo - 128" ?l] by simp
      have nonempty: "0 < length ?l" using 4(1) by simp
      show ?thesis
      proof (cases "togo = 128")
        case True
        have z: "(nat togo - 1) div 128 = 0" "\<not> togo < 0" "togo \<noteq> 0" "togo - 128 = 0" "nat (togo - 128) = 0" using True by simp_all
        obtain r' qq' where "copy_max k (file_read False content) ss' (togo - 128) (int (length (take 128 ?l))) q = Some (r', qq')" "flagerr q \<longrightarrow> flagerr qq'"
          "qq_ok ((bs @ take 128 ?l) @ take 0 (drop 128 ?l)) qq'" "r' = int (length (take 128 ?l))" using ih unfolding z(4,5) by auto
        moreover have "0 < int (length (take 128 ?l))" using nonempty by simp
        moreover have "take (nat togo) ?l = take 128 ?l" using True by simp
        ultimately show ?thesis unfolding eq z(1) if_not_P [OF z(2)] if_not_P [OF z(3)] using q(3) nonempty
          by (intro exI [of _ r'] exI [of _ qq']) simp
      next
        case False
        have div: "(nat togo - 1) div 128 = Suc ((nat togo - 129) div 128)"
          using n(2) False big by (subst div_if) auto
        have "128 * ((nat (togo - 128) - 1) div 128) < length (drop 128 ?l) \<longleftrightarrow> 128 * ((nat togo - 1) div 128) < length ?l"
          unfolding div n(1) by (auto simp: less_diff_conv)
        then show ?thesis using ih q(3) tk False big unfolding eq by auto
      qed
    qed
  qed
qed simp

lemma copy_original_ok:
  assumes "qq_ok bs qq"
  shows "\<exists>qq'. copy_original maxbytes f qq = Some qq' \<and> (\<exists>x. qq_ok x qq') \<and> (flagerr qq \<longrightarrow> flagerr qq') \<and>
    (\<not> flagerr qq' \<longrightarrow> (\<exists>broken content. f = Some (broken, content) \<and> qq_ok (bs @ copy_of maxbytes content) qq'))"
proof (cases f)
  case None
  then show ?thesis using qq_ok_fail [of bs qq] assms by (auto simp: copy_original_def)
next
  case (Some fc)
  obtain broken content where f: "f = Some (broken, content)" using Some by (cases fc) auto
  consider "maxbytes = 0" | "maxbytes \<noteq> 0" "broken" | "maxbytes \<noteq> 0" "\<not> broken" by blast
  then show ?thesis
  proof cases
    case 1
    have "length (in_stream (\<lambda>off. drop off content) open_file) < length content + 1" by (simp add: open_file_stream)
    with open_file_stream(1) assms show ?thesis
    proof (cases rule: flr.copy_in_ok [where broken = broken])
      case (ok qq')
      then show ?thesis using 1 by (auto simp: copy_original_def f open_file_stream copy_of_def)
    next
      case (bad qq' x)
      then show ?thesis using 1 qq_ok_fail [of x qq'] by (auto simp: copy_original_def f)
    qed
  next
    case 2
    have t: "0 < toget maxbytes" using 2 by (simp add: toget_def)
    have "\<exists>ss'. substdio_get (file_read True content) open_file (toget maxbytes) = Some (Rd_fail, ss')"
      using get_broken [OF file_at_open] by blast
    then have "copy_original maxbytes f qq = Some (qmail_fail qq)" using 2 t by (auto simp: copy_original_def f numeral_eq_Suc)
    then show ?thesis using qq_ok_fail [OF assms, of bs] by auto
  next
    case 3
    have k: "length (drop 0 content) + 1 < length content + 2" by simp
    obtain r qq' where m: "copy_max (length content + 2) (file_read False content) open_file maxbytes 0 qq = Some (r, qq')" "flagerr qq \<longrightarrow> flagerr qq'"
      "qq_ok (bs @ (if maxbytes < 0 then drop 0 content else take (nat maxbytes) (drop 0 content))) qq'"
      "if maxbytes < 0 then r = 0 else if maxbytes = 0 then r = 0 else 0 \<le> r \<and> (0 < r \<longleftrightarrow> 128 * ((nat maxbytes - 1) div 128) < length (drop 0 content))"
      using copy_max_file [OF file_at_open assms k, of maxbytes 0] by blast
    have c: "copy_max (length content + 2) (file_read False content) open_file maxbytes 0 qq = Some (r, qq')" "flagerr qq \<longrightarrow> flagerr qq'"
      "qq_ok (bs @ (if maxbytes < 0 then content else take (nat maxbytes) content)) qq'"
      "if maxbytes < 0 then r = 0 else 0 \<le> r \<and> (0 < r \<longleftrightarrow> 128 * ((nat maxbytes - 1) div 128) < length content)"
      using m 3(1) by (simp_all only: drop_0 if_False)
    have "cstr (LF # LF # ''--- End of message stripped.'' @ [LF]) = stripped" by (simp add: stripped_def)
    then have p: "qmail_puts q (LF # LF # ''--- End of message stripped.'' @ [LF]) = qmail_put q stripped" for q by (simp only: qmail_puts_put)
    obtain q where q: "qmail_put qq' stripped = Some q" "qq_ok ((bs @ (if maxbytes < 0 then content else take (nat maxbytes) content)) @ stripped) q" "flagerr qq' \<longrightarrow> flagerr q"
      using qmail_put_ok [OF c(3)] by blast
    have e: "copy_original maxbytes f qq = (if r > 0 then Some q else Some qq')"
      unfolding copy_original_def f using 3 c(1,4) q(1) p by (auto split: if_split_asm)
    show ?thesis
    proof (cases "r > 0")
      case True
      then have "qq_ok (bs @ copy_of maxbytes content) q" using q(2) c(4) 3(1) by (auto simp: copy_of_def split: if_split_asm)
      then show ?thesis using True e q(3) c(2) f by auto
    next
      case False
      then have "qq_ok (bs @ copy_of maxbytes content) qq'" using c(3,4) 3(1) by (auto simp: copy_of_def split: if_split_asm)
      then show ?thesis using False e c(2) f by auto
    qed
  qed
qed

lemma put_all_flag: "qq_ok bs qq \<Longrightarrow> put_all qq ss = Some qq' \<Longrightarrow> flagerr qq \<Longrightarrow> flagerr qq'"
proof (induction ss arbitrary: bs qq)
  case (Cons s ss)
  obtain q where "qmail_put qq s = Some q" "qq_ok (bs @ s) q" "flagerr qq \<longrightarrow> flagerr q" using qmail_put_ok [OF Cons.prems(1)] by blast
  then show ?case using Cons.IH [of "bs @ s" q] Cons.prems by simp
qed simp

lemma put_result_flag: "put_result qq res = Some qq' \<Longrightarrow> flagerr qq \<Longrightarrow> flagerr qq'"
  by (auto simp: put_result_def split: if_split_asm)

lemma qmail_put_flag: "qmail_put qq s = Some qq' \<Longrightarrow> flagerr qq \<Longrightarrow> flagerr qq'"
  by (auto simp: qmail_put_def dest: put_result_flag split: if_split_asm)

lemma qmail_from_flag:
  assumes "qmail_from qq s = Some qq'" "flagerr qq"
  shows "flagerr qq'"
proof -
  let ?env = "\<lambda>q0. q0\<lparr>message_pipe := snd (sw (qss q0)), qss := substdio_fdbuf (envelope_pipe q0, []) (sx (qss q0))\<rparr>"
  obtain y ya yb where y: "put_result qq (substdio_flush fd_write (qss qq)) = Some y" "qmail_put (?env y) ''F'' = Some ya" "qmail_put ya (cstr s) = Some yb" "qmail_put yb [NUL] = Some qq'"
    using assms unfolding qmail_from_def qmail_puts_put Let_def bind_eq_Some_conv by auto
  have "flagerr (?env y)" using put_result_flag [OF y(1) assms(2)] by simp
  then show ?thesis using y(2-) qmail_put_flag by metis
qed

text \<open>The whole bounce: nothing hangs, and without an error everything has arrived.\<close>

definition handed_over :: "bounce_conf \<Rightarrow> int \<Rightarrow> char list \<Rightarrow> (bool \<times> char list) option \<Rightarrow> (bool \<times> char list) option \<Rightarrow> qmail \<Rightarrow> bool" where
  "handed_over bc now sender bounce original q \<longleftrightarrow>
     (let bouncerecip = (if sender \<noteq> [] then sender else doublebounceto bc); bouncesender = (if sender \<noteq> [] then [] else ''#@[]'') in
      \<exists>b1 content b2 orig. bounce = Some (b1, content) \<and> original = Some (b2, orig) \<and>
       message_pipe q = concat (bounce_head bc now sender bouncerecip) @ content @ concat (bounce_middle sender) @ copy_of (bouncemaxbytes bc) orig \<and>
       snd (sw (qss q)) = ''F'' @ bouncesender @ [NUL] @ ''T'' @ cstr bouncerecip @ [NUL, NUL])"

lemma hand_bounce_ok:
  "\<exists>q. hand_bounce bc now sender bounce original (qmail_opened m e) = Some q \<and> (flagerr q \<or> handed_over bc now sender bounce original q)"
proof -
  define br where "br = (if sender \<noteq> [] then sender else doublebounceto bc)"
  define bs where "bs = (if sender \<noteq> [] then [] else ''#@[]'')"
  have bs: "cstr bs = bs" "(if sender \<noteq> [] then ([], sender) else (''#@[]'', doublebounceto bc)) = (bs, br)" by (simp_all add: bs_def br_def)
  let ?h = "concat (bounce_head bc now sender br)" let ?m = "concat (bounce_middle sender)"
  obtain q1 where 1: "put_all (qmail_opened m e) (bounce_head bc now sender br) = Some q1" "qq_ok ?h q1"
    using put_all_ok [OF qq_opened, of m e] by auto
  obtain q2 x2 where 2: "copy_bounce bounce q1 = Some q2" "qq_ok x2 q2" "\<not> flagerr q2 \<Longrightarrow> \<exists>b content. bounce = Some (b, content) \<and> qq_ok (?h @ content) q2"
    using copy_bounce_ok [OF 1(2), of bounce] by blast
  obtain q3 where 3: "put_all q2 (bounce_middle sender) = Some q3" "qq_ok (x2 @ ?m) q3" using put_all_ok [OF 2(2)] by blast
  obtain q4 x4 where 4: "copy_original (bouncemaxbytes bc) original q3 = Some q4" "qq_ok x4 q4" "flagerr q3 \<longrightarrow> flagerr q4"
    "\<And>y. qq_ok y q3 \<Longrightarrow> \<not> flagerr q4 \<Longrightarrow> \<exists>b content. original = Some (b, content) \<and> qq_ok (y @ copy_of (bouncemaxbytes bc) content) q4"
  proof -
    obtain q4 x4 where q4: "copy_original (bouncemaxbytes bc) original q3 = Some q4" "qq_ok x4 q4" "flagerr q3 \<longrightarrow> flagerr q4"
      using copy_original_ok [OF 3(2), of "bouncemaxbytes bc" original] by blast
    moreover have "\<exists>b content. original = Some (b, content) \<and> qq_ok (y @ copy_of (bouncemaxbytes bc) content) q4"
      if "qq_ok y q3" "\<not> flagerr q4" for y
      using copy_original_ok [OF that(1), of "bouncemaxbytes bc" original] that(2) q4(1) by auto
    ultimately show thesis using that by blast
  qed
  obtain q5 where 5: "qmail_from q4 bs = Some q5" "qq_ok (''F'' @ cstr bs @ [NUL]) q5" using qmail_from_ok [OF 4(2), of bs] by blast
  obtain q6 where 6: "qmail_to q5 br = Some q6" "qq_ok ((''F'' @ cstr bs @ [NUL]) @ ''T'' @ cstr br @ [NUL]) q6" "message_pipe q6 = message_pipe q5"
    "flagerr q5 \<longrightarrow> flagerr q6" using qmail_to_ok [OF 5(2), of br] by blast
  obtain q7 where 7: "close_envelope q6 = Some q7" "message_pipe q7 = message_pipe q6"
    "\<not> flagerr q7 \<longrightarrow> \<not> flagerr q6 \<and> snd (sw (qss q7)) = ((''F'' @ cstr bs @ [NUL]) @ ''T'' @ cstr br @ [NUL]) @ [NUL]"
    using close_envelope_ok [OF 6(2)] by blast
  have run: "hand_bounce bc now sender bounce original (qmail_opened m e) = Some q7"
    unfolding hand_bounce_def Let_def bs(2) by (simp add: 1(1) 2(1) 3(1) 4(1) 5(1) 6(1) 7(1))
  have "handed_over bc now sender bounce original q7" if ok: "\<not> flagerr q7"
  proof -
    have fl: "\<not> flagerr q6" "\<not> flagerr q5" "\<not> flagerr q4" "\<not> flagerr q3" "\<not> flagerr q2"
      using ok 7(3) 6(4) qmail_from_flag [OF 5(1)] 4(3) put_all_flag [OF 2(2) 3(1)] by auto
    obtain b1 content where c: "bounce = Some (b1, content)" "qq_ok (?h @ content) q2" using 2(3) [OF fl(5)] by blast
    have "qq_ok ((?h @ content) @ ?m) q3" using put_all_ok [OF c(2), of "bounce_middle sender"] 3(1) by auto
    from 4(4) [OF this fl(3)] obtain b2 orig where o: "original = Some (b2, orig)"
      "qq_ok (((?h @ content) @ ?m) @ copy_of (bouncemaxbytes bc) orig) q4" by blast
    have "message_pipe q5 = ((?h @ content) @ ?m) @ copy_of (bouncemaxbytes bc) orig" using qmail_from_ok [OF o(2), of bs] 5(1) fl(2) by auto
    then show ?thesis unfolding handed_over_def Let_def br_def [symmetric] bs_def [symmetric]
      using c(1) o(1) 6(3) 7(2,3) ok bs(1) by auto
  qed
  then show ?thesis using run by blast
qed

section \<open>Properties\<close>

text \<open>C20: A bounce that is handed over is complete. Whatever the pipes and the files do, putting the bounce together ends, and the error flag is set
  or \<open>qmail-queue\<close> has got the header, all of the bounce file, and all of the message or, if \<open>bouncemaxbytes\<close> is positive, exactly its first \<open>bouncemaxbytes\<close>; and
  an envelope with one recipient: the sender of the message, or the postmaster if that was a bounce itself. The remark that the message has been stripped follows whenever the
  message has more bytes than the whole blocks of 128 below the limit (\<open>copy_of\<close>): the loop counts the bytes it asks for and not those it gets, so that the remark
  can also follow a message that is not longer than the limit (\<open>qmail-send.c\<close>, line 754).\<close>

theorem bounce_hands_over:
  "\<exists>q. hand_bounce bc now sender bounce original (qmail_opened m e) = Some q \<and>
    (flagerr q \<or>
     (let bouncerecip = (if sender \<noteq> [] then sender else doublebounceto bc); bouncesender = (if sender \<noteq> [] then [] else ''#@[]'') in
      \<exists>b1 content b2 orig. bounce = Some (b1, content) \<and> original = Some (b2, orig) \<and>
       message_pipe q = concat (bounce_head bc now sender bouncerecip) @ content @ concat (bounce_middle sender) @ copy_of (bouncemaxbytes bc) orig \<and>
       snd (sw (qss q)) = ''F'' @ bouncesender @ [NUL] @ ''T'' @ cstr bouncerecip @ [NUL, NUL]))"
  using hand_bounce_ok unfolding handed_over_def .

end
