(* ===== verification/Control.thy ===== *)
theory Control
  imports Lines Rewrite
begin

text \<open>
  Control files, \<open>control.c\<close>, and what the programs do with them when they start: \<open>getcontrols\<close> and \<open>regetcontrols\<close> of \<open>qmail-todo.c\<close> and
  \<open>qmail-send.c\<close>, and the concurrency that \<open>qmail-send\<close> learns from the delivery programs. A control file is absent, or cannot be opened, or has
  a content, of which the reads may fail. An allocation fails if \<open>mem\<close> denies its size. A result is the return value with what is stored; a read
  that does not return would be \<open>None\<close>.
\<close>

section \<open>Files\<close>

datatype cfile = Missing | Unopened | Readable bool "char list"

type_synonym cfiles = "char list \<Rightarrow> cfile"

definition open_control :: "nat substdio" where
  "open_control = substdio_fdbuf 0 (replicate 64 NUL)"

definition white :: "char \<Rightarrow> bool" where
  "white c \<longleftrightarrow> c = LF \<or> c = SP \<or> c = TAB"

definition striptrailingwhitespace :: "char list \<Rightarrow> char list" where
  "striptrailingwhitespace sa = rev (dropWhile white (rev sa))"

definition control_readline :: "(nat \<Rightarrow> bool) \<Rightarrow> cfile \<Rightarrow> char list \<Rightarrow> (int \<times> char list) option" where
  "control_readline mem f sa =
     (case f of
        Missing \<Rightarrow> Some (0, sa)
      | Unopened \<Rightarrow> Some (- 1, sa)
      | Readable broken content \<Rightarrow>
          (case getln mem (file_read broken content) open_control sa False LF of
             None \<Rightarrow> None
           | Some (r, ss, sa, m) \<Rightarrow> Some (if r = - 1 then (- 1, sa) else (1, striptrailingwhitespace sa))))"

text \<open>\<open>me\<close> and \<open>meok\<close>\<close>

type_synonym cme = "char list \<times> bool"

definition control_init :: "(nat \<Rightarrow> bool) \<Rightarrow> cfiles \<Rightarrow> cme \<Rightarrow> (int \<times> cme) option" where
  "control_init mem fs st =
     map_option (\<lambda>(r, me). (r, (me, if r = 1 then True else snd st))) (control_readline mem (fs ''control/me'') (fst st))"

definition copied :: "(nat \<Rightarrow> bool) \<Rightarrow> char list \<Rightarrow> char list \<Rightarrow> int \<times> char list" where
  "copied mem sa x = (if mem (length x) then (1, x) else (- 1, sa))"

definition control_rldef :: "(nat \<Rightarrow> bool) \<Rightarrow> cme \<Rightarrow> cfile \<Rightarrow> bool \<Rightarrow> char list option \<Rightarrow> (int \<times> char list) option" where
  "control_rldef mem st f flagme def =
     map_option (\<lambda>(r, sa).
       if r \<noteq> 0 then (r, sa)
       else if flagme \<and> snd st then copied mem sa (fst st)
       else case def of Some d \<Rightarrow> copied mem sa (cstr d) | None \<Rightarrow> (r, sa)) (control_readline mem f [])"

text \<open>The number is stored in an \<open>int\<close>.\<close>

definition control_readint :: "(nat \<Rightarrow> bool) \<Rightarrow> cfile \<Rightarrow> int \<Rightarrow> (int \<times> int) option" where
  "control_readint mem f i =
     map_option (\<lambda>(r, line).
       if r = 0 then (0, i)
       else if r = - 1 then (- 1, i)
       else if \<not> mem (length line + 1) then (- 1, i)
       else let (n, u) = scan_ulong (line @ [NUL]) in if n = 0 then (0, i) else (1, sint u)) (control_readline mem f [])"

text \<open>One line of \<open>control_readfile\<close>; the result is \<open>sa\<close> with the line, if memory suffices.\<close>

definition add_line :: "(nat \<Rightarrow> bool) \<Rightarrow> char list \<Rightarrow> char list \<Rightarrow> char list option" where
  "add_line mem sa line =
     (let line = striptrailingwhitespace line in
      Option.bind (cat mem line [NUL]) (\<lambda>line.
      if line ! 0 \<noteq> NUL \<and> line ! 0 \<noteq> CHR ''#'' then cat mem sa line else Some sa))"

partial_function (option) readfile_loop :: "(nat \<Rightarrow> bool) \<Rightarrow> (nat \<Rightarrow> nat \<Rightarrow> rd \<times> nat) \<Rightarrow> nat substdio \<Rightarrow> char list \<Rightarrow> (int \<times> char list) option" where
  "readfile_loop mem op ss sa =
     (case getln mem op ss [] False LF of
        None \<Rightarrow> None
      | Some (r, ss, line, m) \<Rightarrow>
          (if r = - 1 then Some (- 1, sa)
           else if \<not> m \<and> line = [] then Some (1, sa)
           else case add_line mem sa line of
                  None \<Rightarrow> Some (- 1, sa)
                | Some sa \<Rightarrow> (if \<not> m then Some (1, sa) else readfile_loop mem op ss sa)))"

definition control_readfile :: "(nat \<Rightarrow> bool) \<Rightarrow> cme \<Rightarrow> cfile \<Rightarrow> bool \<Rightarrow> (int \<times> char list) option" where
  "control_readfile mem st f flagme =
     (if \<not> mem 0 then Some (- 1, [])
      else case f of
        Missing \<Rightarrow>
          Some (if flagme \<and> snd st
                then (case cat mem [] (fst st) of None \<Rightarrow> (- 1, []) | Some sa \<Rightarrow> (case cat mem sa [NUL] of None \<Rightarrow> (- 1, sa) | Some sa \<Rightarrow> (1, sa)))
                else (0, []))
      | Unopened \<Rightarrow> Some (- 1, [])
      | Readable broken content \<Rightarrow> readfile_loop mem (file_read broken content) open_control [])"

section \<open>What is in a control file\<close>

function lines_of :: "char list \<Rightarrow> char list list" where
  "lines_of [] = []"
| "lines_of (c # s) = takeWhile (\<lambda>x. x \<noteq> LF) (c # s) # lines_of (tl (dropWhile (\<lambda>x. x \<noteq> LF) (c # s)))"
  by pat_completeness auto
termination
  by (relation "measure length") (auto simp: less_Suc_eq_le intro: le_trans [OF diff_le_self length_dropWhile_le])

definition entries :: "char list \<Rightarrow> char list list" where
  "entries content = filter (\<lambda>l. l \<noteq> [] \<and> hd l \<noteq> NUL \<and> hd l \<noteq> CHR ''#'') (map striptrailingwhitespace (lines_of content))"

definition joined :: "char list list \<Rightarrow> char list" where
  "joined ls = concat (map (\<lambda>l. l @ [NUL]) ls)"

lemma strip_LF [simp]: "striptrailingwhitespace (l @ [LF]) = striptrailingwhitespace l"
  by (simp add: striptrailingwhitespace_def white_def)

lemma lines_of_line: "LF \<notin> set l \<Longrightarrow> lines_of (l @ LF # s) = l # lines_of s"
  by (cases l) (auto simp: line_split)

lemma lines_of_rest: "LF \<notin> set l \<Longrightarrow> l \<noteq> [] \<Longrightarrow> lines_of l = [l]"
proof -
  assume *: "LF \<notin> set l" "l \<noteq> []"
  then have "takeWhile (\<lambda>x. x \<noteq> LF) l = l" "dropWhile (\<lambda>x. x \<noteq> LF) l = []"
    by (auto simp: takeWhile_eq_all_conv dropWhile_eq_Nil_conv)
  then show ?thesis using *(2) by (cases l) (simp_all only: lines_of.simps, simp_all)
qed

lemma entries_line: "LF \<notin> set l \<Longrightarrow> joined (entries (l @ LF # s)) = joined (entries (l @ [LF])) @ joined (entries s)"
  by (simp add: entries_def joined_def lines_of_line)

definition entry_of :: "char list \<Rightarrow> char list" where
  "entry_of l = (let e = striptrailingwhitespace l in if e \<noteq> [] \<and> hd e \<noteq> NUL \<and> hd e \<noteq> CHR ''#'' then e @ [NUL] else [])"

lemma add_line_ok:
  "add_line mem sa line = Some sa' \<Longrightarrow> sa' = sa @ entry_of line"
  "add_line mem sa line = None \<Longrightarrow> \<exists>n. \<not> mem n"
  by (auto simp: add_line_def Let_def cat_def entry_of_def bind_eq_Some_conv bind_eq_None_conv nth_append hd_conv_nth split: if_split_asm)

lemma entries_Cons: "LF \<notin> set l \<Longrightarrow> joined (entries (l @ LF # s)) = entry_of (l @ [LF]) @ joined (entries s)"
  "LF \<notin> set l \<Longrightarrow> l \<noteq> [] \<Longrightarrow> joined (entries l) = entry_of l" "joined (entries []) = []"
  by (simp_all add: entries_def joined_def lines_of_line lines_of_rest entry_of_def Let_def)

text \<open>The loop returns, and takes all entries unless a read or an allocation fails.\<close>

lemma readfile_loop_ok:
  assumes "in_inv ss"
  shows "\<exists>r sa'. readfile_loop mem (file_read broken content) ss sa = Some (r, sa') \<and>
    (r = - 1 \<and> (broken \<or> (\<exists>n. \<not> mem n)) \<or> r = 1 \<and> sa' = sa @ joined (entries (in_stream (\<lambda>off. drop off content) ss)))"
  using assms
proof (induction "length (in_stream (\<lambda>off. drop off content) ss)" arbitrary: ss sa rule: less_induct)
  case less
  from less.prems show ?case
  proof (cases rule: flr.getln_any [where broken = broken and content = content and mem = mem and sa = "[]" and m = False and sep = LF])
    case (fail ss' sa')
    then show ?thesis by (subst readfile_loop.simps) simp
  next
    case (line ss' l)
    show ?thesis
    proof (cases "add_line mem sa (l @ [LF])")
      case None
      then show ?thesis using line(1) add_line_ok(2) [OF None] by (subst readfile_loop.simps) simp
    next
      case (Some sa1)
      have "readfile_loop mem (file_read broken content) ss sa = readfile_loop mem (file_read broken content) ss' sa1"
        using line(1) Some by (subst readfile_loop.simps) simp
      moreover have "length (in_stream (\<lambda>off. drop off content) ss') < length (in_stream (\<lambda>off. drop off content) ss)" using line(3) by simp
      moreover have "joined (entries (in_stream (\<lambda>off. drop off content) ss)) = entry_of (l @ [LF]) @ joined (entries (in_stream (\<lambda>off. drop off content) ss'))"
        unfolding line(3) using entries_Cons(1) [OF line(2)] .
      ultimately show ?thesis using less.hyps [of ss' sa1] line(4) add_line_ok(1) [OF Some] by auto
    qed
  next
    case (rest ss')
    show ?thesis
    proof (cases "in_stream (\<lambda>off. drop off content) ss = []")
      case True
      then show ?thesis using rest(1) by (subst readfile_loop.simps) (simp add: entries_Cons)
    next
      case ne: False
      show ?thesis
      proof (cases "add_line mem sa (in_stream (\<lambda>off. drop off content) ss)")
        case None
        then show ?thesis using rest(1) ne add_line_ok(2) [OF None] by (subst readfile_loop.simps) simp
      next
        case (Some sa1)
        then show ?thesis using rest(1,2) ne add_line_ok(1) [OF Some] entries_Cons(2) [OF rest(2) ne] by (subst readfile_loop.simps) simp
      qed
    qed
  qed
qed

text \<open>The first line of a file.\<close>

lemma open_control_stream: "in_inv open_control" "in_stream (\<lambda>off. drop off content) open_control = content"
  using flr.stream_fdbuf [where w = 0 and buf = "replicate 64 NUL"] by (simp_all add: open_control_def)

lemma control_readline_ok:
  "\<exists>r sa'. control_readline mem f sa = Some (r, sa') \<and>
    (case f of Missing \<Rightarrow> r = 0 \<and> sa' = sa | Unopened \<Rightarrow> r = - 1
     | Readable broken content \<Rightarrow> r = - 1 \<and> (broken \<or> (\<exists>n. \<not> mem n)) \<or> r = 1 \<and> sa' = striptrailingwhitespace (takeWhile (\<lambda>c. c \<noteq> LF) content))"
proof (cases f)
  case (Readable broken content)
  from open_control_stream(1) show ?thesis
  proof (cases rule: flr.getln_any [where broken = broken and content = content and mem = mem and sa = sa and m = False and sep = LF])
    case (line ss' l)
    have c: "content = l @ LF # in_stream (\<lambda>off. drop off content) ss'" using line(3) unfolding open_control_stream .
    have "takeWhile (\<lambda>c. c \<noteq> LF) content = l" by (subst c) (rule line_split(1) [OF line(2)])
    then show ?thesis using line(1) Readable by (simp add: control_readline_def)
  next
    case (rest ss')
    then have "takeWhile (\<lambda>c. c \<noteq> LF) content = content" by (auto simp: open_control_stream takeWhile_eq_all_conv)
    then show ?thesis using rest(1) Readable by (simp add: control_readline_def open_control_stream del: takeWhile_eq_all_conv)
  qed (simp add: control_readline_def Readable)
qed (simp_all add: control_readline_def)

section \<open>What \<open>qmail-todo\<close> and \<open>qmail-send\<close> read\<close>

text \<open>An outer \<open>None\<close> would be a call that does not return, an inner one is the return value 0.\<close>

definition needs :: "(int \<times> 'a) option \<Rightarrow> bool \<Rightarrow> ('a \<Rightarrow> 'b option option) \<Rightarrow> 'b option option" where
  "needs r must k = (case r of None \<Rightarrow> None | Some (n, x) \<Rightarrow> (if n = - 1 \<or> must \<and> n \<noteq> 1 then Some None else k x))"

definition table :: "(nat \<Rightarrow> bool) \<Rightarrow> char list \<Rightarrow> bool \<Rightarrow> built option" where
  "table mem s fc = map_option (\<lambda>cm. (s, fc, cm)) (constmap_init mem s fc)"

text \<open>Locals, \<open>percenthack\<close> and \<open>virtualdomains\<close>. If a file is absent, \<open>control_readfile\<close> leaves an empty text.\<close>

definition get_tables :: "(nat \<Rightarrow> bool) \<Rightarrow> cfiles \<Rightarrow> cme \<Rightarrow> char list \<Rightarrow> controls option option" where
  "get_tables mem fs st noathost =
     needs (control_readfile mem st (fs ''control/locals'') True) True (\<lambda>sa.
     case table mem sa False of None \<Rightarrow> Some None | Some locals \<Rightarrow>
     needs (control_readfile mem st (fs ''control/percenthack'') False) False (\<lambda>sa.
     case table mem sa False of None \<Rightarrow> Some None | Some percent \<Rightarrow>
     needs (control_readfile mem st (fs ''control/virtualdomains'') False) False (\<lambda>sa.
     case table mem sa True of None \<Rightarrow> Some None | Some vdoms \<Rightarrow>
     Some (Some \<lparr>envnoathost = noathost, mappercenthack = percent, maplocals = locals, mapvdoms = vdoms\<rparr>))))"

text \<open>\<open>getcontrols\<close> of \<open>qmail-todo.c\<close>.\<close>

definition todo_getcontrols :: "(nat \<Rightarrow> bool) \<Rightarrow> cfiles \<Rightarrow> (controls \<times> cme) option option" where
  "todo_getcontrols mem fs =
     needs (control_init mem fs ([], False)) False (\<lambda>st.
     needs (control_rldef mem st (fs ''control/envnoathost'') True (Some ''envnoathost'')) True (\<lambda>noathost.
     map_option (map_option (\<lambda>ctl. (ctl, st))) (get_tables mem fs st noathost)))"

text \<open>\<open>regetcontrols\<close>, after a SIGHUP, with what is logged. Copies and tables are made until memory suffices.\<close>

definition regetcontrols :: "(nat \<Rightarrow> bool) \<Rightarrow> char list \<Rightarrow> cfiles \<Rightarrow> cme \<Rightarrow> controls \<Rightarrow> (controls \<times> char list) option" where
  "regetcontrols mem who fs st ctl =
     (case control_readfile mem st (fs ''control/locals'') True of
        None \<Rightarrow> None
      | Some (r, newlocals) \<Rightarrow>
          (if r \<noteq> 1 then Some (ctl, ''alert: '' @ who @ ''unable to reread control/locals'' @ [LF])
           else case control_readfile mem st (fs ''control/virtualdomains'') False of
                  None \<Rightarrow> None
                | Some (r, newvdoms) \<Rightarrow>
                    (if r = - 1 then Some (ctl, ''alert: '' @ who @ ''unable to reread control/virtualdomains'' @ [LF])
                     else Some (ctl\<lparr>maplocals := the (table (\<lambda>_. True) newlocals False), mapvdoms := the (table (\<lambda>_. True) newvdoms True)\<rparr>, []))))"

section \<open>What the files say about an address\<close>

text \<open>The text of a one-line file and the entries of a file with many; \<open>control/me\<close> is the default of some.\<close>

definition me_of :: "cfiles \<Rightarrow> char list option" where
  "me_of fs = (case fs ''control/me'' of Readable broken content \<Rightarrow> Some (striptrailingwhitespace (takeWhile (\<lambda>c. c \<noteq> LF) content)) | _ \<Rightarrow> None)"

definition control_setting :: "cfiles \<Rightarrow> char list \<Rightarrow> char list \<Rightarrow> char list" where
  "control_setting fs name dflt =
     (case fs name of Readable broken content \<Rightarrow> striptrailingwhitespace (takeWhile (\<lambda>c. c \<noteq> LF) content)
      | _ \<Rightarrow> (case me_of fs of Some me \<Rightarrow> me | None \<Rightarrow> dflt))"

definition file_lines :: "cfiles \<Rightarrow> char list \<Rightarrow> bool \<Rightarrow> char list list" where
  "file_lines fs name flagme =
     (case fs name of Readable broken content \<Rightarrow> entries content
      | _ \<Rightarrow> (case me_of fs of Some me \<Rightarrow> if flagme then [me] else [] | None \<Rightarrow> []))"

text \<open>A line names a host; the last line \<open>domain:user\<close> for a domain counts. Case is ignored.\<close>

definition lists_host :: "char list list \<Rightarrow> char list \<Rightarrow> bool" where
  "lists_host ls host \<longleftrightarrow> (\<exists>l \<in> set ls. map lower l = map lower host)"

definition user_for :: "char list list \<Rightarrow> char list \<Rightarrow> char list option" where
  "user_for ls domain =
     (case filter (\<lambda>l. CHR '':'' \<in> set l \<and> map lower (takeWhile (\<lambda>c. c \<noteq> CHR '':'') l) = map lower domain) ls of
        [] \<Rightarrow> None
      | found \<Rightarrow> Some (tl (dropWhile (\<lambda>c. c \<noteq> CHR '':'') (last found))))"

text \<open>While the host is under \<open>percenthack\<close>, what stands behind the last percent sign of the box is the next host.\<close>

function handed_on :: "char list list \<Rightarrow> char list \<Rightarrow> char list \<Rightarrow> char list \<times> char list" where
  "handed_on percents box host =
     (if lists_host percents host \<and> CHR ''%'' \<in> set box then handed_on percents (before (CHR ''%'') box) (after (CHR ''%'') box) else (box, host))"
  by pat_completeness auto
termination
proof (relation "measure (\<lambda>(ls, box, host). length box)", simp)
  fix ls box host
  assume "lists_host ls host \<and> CHR ''%'' \<in> set box"
  then obtain u v where "box = u @ CHR ''%'' # v" "before (CHR ''%'') box = u" by (elim conjE last_split)
  then show "((ls, before (CHR ''%'') box, after (CHR ''%'') box), ls, box, host) \<in> measure (\<lambda>(ls, box, host). length box)" by simp
qed

declare handed_on.simps [simp del]

text \<open>The first key with an entry decides; an entry without a user is one that says that the address is not in a virtual domain.\<close>

fun user_of :: "char list list \<Rightarrow> char list list \<Rightarrow> char list option" where
  "user_of vdoms [] = None"
| "user_of vdoms (k # ks) = (case user_for vdoms k of None \<Rightarrow> user_of vdoms ks | Some x \<Rightarrow> if x = [] then None else Some x)"

definition rewrite_by_files :: "cfiles \<Rightarrow> char list \<Rightarrow> nat \<times> char list" where
  "rewrite_by_files fs recip =
     (let (box, host) = (if CHR ''@'' \<in> set recip then (before (CHR ''@'') recip, after (CHR ''@'') recip)
                         else (recip, control_setting fs ''control/envnoathost'' ''envnoathost''));
          (box, host) = handed_on (file_lines fs ''control/percenthack'' False) box host;
          addr = box @ CHR ''@'' # host; host = after (CHR ''@'') addr
      in if lists_host (file_lines fs ''control/locals'' True) host then (1, ''T'' @ addr @ [NUL])
         else case user_of (file_lines fs ''control/virtualdomains'' False) (addr # domain_keys host) of
                Some x \<Rightarrow> (1, ''T'' @ x @ ''-'' @ addr @ [NUL])
              | None \<Rightarrow> (2, ''T'' @ addr @ [NUL]))"

text \<open>The tables that are built from the files answer by the lines.\<close>

lemma cm_lines_line: "NUL \<notin> set l \<Longrightarrow> cm_lines cur (l @ NUL # s) = (cur @ l) # cm_lines [] s"
  by (induction l arbitrary: cur) auto

lemma cm_lines_joined: "\<forall>l \<in> set ls. NUL \<notin> set l \<Longrightarrow> cm_lines [] (joined ls) = ls"
  by (induction ls) (simp_all add: joined_def cm_lines_line)

lemma table_value:
  assumes "table mem (joined ls) fc = Some t" "\<forall>l \<in> set ls. NUL \<notin> set l"
  shows "cm_value t k = None \<longleftrightarrow> find (key_matches fc k) (rev ls) = None"
    "fc \<Longrightarrow> cm_value t k = map_option value_of (find (key_matches fc k) (rev ls))"
  using assms(1) cm_value_init [of mem "joined ls" fc _ k] by (auto simp: table_def cm_lines_joined [OF assms(2)])

lemma table_names:
  assumes "table mem (joined ls) False = Some t" "\<forall>l \<in> set ls. NUL \<notin> set l"
  shows "cm_value t k \<noteq> None \<longleftrightarrow> lists_host ls k"
  unfolding table_value(1) [OF assms] by (auto simp: find_None_iff lists_host_def key_matches_def key_of_def)

lemma find_rev_filter: "find P (rev ls) = (if filter P ls = [] then None else Some (last (filter P ls)))"
  by (induction ls rule: rev_induct) auto

lemma table_user:
  assumes "table mem (joined ls) True = Some t" "\<forall>l \<in> set ls. NUL \<notin> set l"
  shows "cm_value t k = user_for ls k"
proof -
  let ?P = "\<lambda>l. CHR '':'' \<in> set l \<and> map lower (takeWhile (\<lambda>c. c \<noteq> CHR '':'') l) = map lower k"
  have p: "key_matches True k = ?P" by (auto simp: fun_eq_iff key_matches_def key_of_def byte_chr_takeWhile takeWhile_eq_take [symmetric])
  have v: "value_of l = tl (dropWhile (\<lambda>c. c \<noteq> CHR '':'') l)" for l
    by (simp add: value_of_def byte_chr_takeWhile dropWhile_eq_drop drop_Suc tl_drop)
  show ?thesis unfolding table_value(2) [OF assms TrueI] p find_rev_filter user_for_def by (auto simp: v split: list.split)
qed

lemma resolve_names:
  assumes "\<And>k. cm_value t k \<noteq> None \<longleftrightarrow> lists_host ls k"
  shows "resolve t box host = (case handed_on ls box host of (b, h) \<Rightarrow> b @ CHR ''@'' # h)"
  using assms
proof (induction t box host rule: resolve.induct)
  case (1 t box host)
  have c: "cm_value t host \<noteq> None \<longleftrightarrow> lists_host ls host" by (rule "1.prems")
  show ?case
  proof (cases "lists_host ls host \<and> CHR ''%'' \<in> set box")
    case True
    then have "cm_value t host \<noteq> None \<and> CHR ''%'' \<in> set box" using c by simp
    from "1.IH" [OF this "1.prems"] this True show ?thesis by (simp add: resolve.simps [of t box] handed_on.simps [of ls box])
  next
    case False
    have "resolve t box host = box @ CHR ''@'' # host" using False c by (subst resolve.simps) auto
    moreover have "handed_on ls box host = (box, host)" using False by (subst handed_on.simps) auto
    ultimately show ?thesis by simp
  qed
qed

lemma vdom_user: "(\<And>k. cm_value t k = user_for ls k) \<Longrightarrow> vdom_of t ks = user_of ls ks"
  by (induction ks) (auto split: option.split)

text \<open>What \<open>getcontrols\<close> leaves.\<close>

lemma needs_SomeD: "needs r must k = Some (Some z) \<Longrightarrow> \<exists>n x. r = Some (n, x) \<and> n \<noteq> - 1 \<and> (must \<longrightarrow> n = 1) \<and> k x = Some (Some z)"
  by (auto simp: needs_def split: option.splits if_split_asm)

lemma init_me_of:
  assumes "control_init mem fs ([], False) = Some (n, st)" "n \<noteq> - 1"
  shows "st = (case me_of fs of Some me \<Rightarrow> (me, True) | None \<Rightarrow> ([], False))"
  using assms control_readline_ok [of mem "fs ''control/me''" "[]"] by (auto simp: control_init_def me_of_def split: cfile.splits)

lemma rldef_setting:
  assumes "control_rldef mem (case me_of fs of Some me \<Rightarrow> (me, True) | None \<Rightarrow> ([], False)) (fs name) True (Some d) = Some (1, x)" "NUL \<notin> set d"
  shows "x = control_setting fs name d"
  using assms control_readline_ok [of mem "fs name" "[]"]
  by (auto simp: control_rldef_def control_setting_def copied_def cstr_nonul split: cfile.splits option.splits if_split_asm)

lemma readfile_lines:
  assumes "control_readfile mem (case me_of fs of Some me \<Rightarrow> (me, True) | None \<Rightarrow> ([], False)) (fs name) flagme = Some (n, sa)" "n \<noteq> - 1"
  shows "sa = joined (file_lines fs name flagme)"
proof (cases "fs name")
  case (Readable broken content)
  have "\<exists>r sa'. readfile_loop mem (file_read broken content) open_control [] = Some (r, sa') \<and>
    (r = - 1 \<and> (broken \<or> (\<exists>n. \<not> mem n)) \<or> r = 1 \<and> sa' = [] @ joined (entries (in_stream (\<lambda>off. drop off content) open_control)))"
    by (rule readfile_loop_ok [OF open_control_stream(1)])
  then show ?thesis using assms Readable by (auto simp: control_readfile_def file_lines_def open_control_stream split: if_split_asm)
qed (use assms in \<open>auto simp: control_readfile_def file_lines_def cat_def joined_def split: option.splits if_split_asm\<close>)

lemma controls_read:
  assumes "todo_getcontrols mem fs = Some (Some (ctl, st))"
  shows "envnoathost ctl = control_setting fs ''control/envnoathost'' ''envnoathost''"
    "table mem (joined (file_lines fs ''control/locals'' True)) False = Some (maplocals ctl)"
    "table mem (joined (file_lines fs ''control/percenthack'' False)) False = Some (mappercenthack ctl)"
    "table mem (joined (file_lines fs ''control/virtualdomains'' False)) True = Some (mapvdoms ctl)"
proof -
  obtain n where i: "control_init mem fs ([], False) = Some (n, st)" "n \<noteq> - 1"
    and r: "needs (control_rldef mem st (fs ''control/envnoathost'') True (Some ''envnoathost'')) True (\<lambda>noathost.
      map_option (map_option (\<lambda>ctl. (ctl, st))) (get_tables mem fs st noathost)) = Some (Some (ctl, st))"
  proof -
    obtain n st' where *: "control_init mem fs ([], False) = Some (n, st')" "n \<noteq> - 1"
      "needs (control_rldef mem st' (fs ''control/envnoathost'') True (Some ''envnoathost'')) True (\<lambda>noathost.
        map_option (map_option (\<lambda>ctl. (ctl, st'))) (get_tables mem fs st' noathost)) = Some (Some (ctl, st))"
      using needs_SomeD [OF assms [unfolded todo_getcontrols_def]] by blast
    moreover have "st' = st" using needs_SomeD [OF *(3)] by auto
    ultimately show thesis using that by simp
  qed
  note st = init_me_of [OF i]
  obtain noathost where n: "control_rldef mem st (fs ''control/envnoathost'') True (Some ''envnoathost'') = Some (1, noathost)"
    and g: "get_tables mem fs st noathost = Some (Some ctl)" using needs_SomeD [OF r] by auto
  obtain m1 sa1 where f1: "control_readfile mem st (fs ''control/locals'') True = Some (m1, sa1)" "m1 \<noteq> - 1"
    and k1: "(case table mem sa1 False of None \<Rightarrow> Some None | Some locals \<Rightarrow>
     needs (control_readfile mem st (fs ''control/percenthack'') False) False (\<lambda>sa.
     case table mem sa False of None \<Rightarrow> Some None | Some percent \<Rightarrow>
     needs (control_readfile mem st (fs ''control/virtualdomains'') False) False (\<lambda>sa.
     case table mem sa True of None \<Rightarrow> Some None | Some vdoms \<Rightarrow>
     Some (Some \<lparr>envnoathost = noathost, mappercenthack = percent, maplocals = locals, mapvdoms = vdoms\<rparr>)))) = Some (Some ctl)"
    using needs_SomeD [OF g [unfolded get_tables_def]] by blast
  obtain locals where t1: "table mem sa1 False = Some locals"
    and k2: "needs (control_readfile mem st (fs ''control/percenthack'') False) False (\<lambda>sa.
     case table mem sa False of None \<Rightarrow> Some None | Some percent \<Rightarrow>
     needs (control_readfile mem st (fs ''control/virtualdomains'') False) False (\<lambda>sa.
     case table mem sa True of None \<Rightarrow> Some None | Some vdoms \<Rightarrow>
     Some (Some \<lparr>envnoathost = noathost, mappercenthack = percent, maplocals = locals, mapvdoms = vdoms\<rparr>))) = Some (Some ctl)"
    using k1 by (cases "table mem sa1 False") auto
  obtain m2 sa2 where f2: "control_readfile mem st (fs ''control/percenthack'') False = Some (m2, sa2)" "m2 \<noteq> - 1"
    and k3: "(case table mem sa2 False of None \<Rightarrow> Some None | Some percent \<Rightarrow>
     needs (control_readfile mem st (fs ''control/virtualdomains'') False) False (\<lambda>sa.
     case table mem sa True of None \<Rightarrow> Some None | Some vdoms \<Rightarrow>
     Some (Some \<lparr>envnoathost = noathost, mappercenthack = percent, maplocals = locals, mapvdoms = vdoms\<rparr>))) = Some (Some ctl)"
    using needs_SomeD [OF k2] by blast
  obtain percent where t2: "table mem sa2 False = Some percent"
    and k4: "needs (control_readfile mem st (fs ''control/virtualdomains'') False) False (\<lambda>sa.
     case table mem sa True of None \<Rightarrow> Some None | Some vdoms \<Rightarrow>
     Some (Some \<lparr>envnoathost = noathost, mappercenthack = percent, maplocals = locals, mapvdoms = vdoms\<rparr>)) = Some (Some ctl)"
    using k3 by (cases "table mem sa2 False") auto
  obtain m3 sa3 vdoms where f3: "control_readfile mem st (fs ''control/virtualdomains'') False = Some (m3, sa3)" "m3 \<noteq> - 1"
    and t3: "table mem sa3 True = Some vdoms" and c: "ctl = \<lparr>envnoathost = noathost, mappercenthack = percent, maplocals = locals, mapvdoms = vdoms\<rparr>"
    using needs_SomeD [OF k4] by (auto split: option.splits)
  show "envnoathost ctl = control_setting fs ''control/envnoathost'' ''envnoathost''"
    using rldef_setting [OF n [unfolded st]] c by simp
  show "table mem (joined (file_lines fs ''control/locals'' True)) False = Some (maplocals ctl)"
    using readfile_lines [OF f1(1) [unfolded st] f1(2)] t1 c by simp
  show "table mem (joined (file_lines fs ''control/percenthack'' False)) False = Some (mappercenthack ctl)"
    using readfile_lines [OF f2(1) [unfolded st] f2(2)] t2 c by simp
  show "table mem (joined (file_lines fs ''control/virtualdomains'' False)) True = Some (mapvdoms ctl)"
    using readfile_lines [OF f3(1) [unfolded st] f3(2)] t3 c by simp
qed

definition plain_files :: "cfiles \<Rightarrow> bool" where
  "plain_files fs \<longleftrightarrow> (\<forall>name broken content. \<not> (fs name = Readable broken content \<and> NUL \<in> set content))"

lemma set_strip: "x \<in> set (striptrailingwhitespace l) \<Longrightarrow> x \<in> set l"
  unfolding striptrailingwhitespace_def by (auto dest: set_dropWhileD)

lemma set_lines_of: "l \<in> set (lines_of s) \<Longrightarrow> x \<in> set l \<Longrightarrow> x \<in> set s"
proof (induction s rule: lines_of.induct)
  case (2 c s)
  have d: "x \<in> set (tl (dropWhile P xs)) \<Longrightarrow> x \<in> set xs" for P xs by (metis list.sel(2) list.set_sel(2) set_dropWhileD)
  consider "l = takeWhile (\<lambda>x. x \<noteq> LF) (c # s)" | "l \<in> set (lines_of (tl (dropWhile (\<lambda>x. x \<noteq> LF) (c # s))))" using "2.prems"(1) unfolding lines_of.simps by auto
  then show ?case
  proof cases
    case 1
    then show ?thesis using "2.prems"(2) set_takeWhileD by metis
  next
    case 2
    show ?thesis by (rule d [OF "2.IH" [OF 2 "2.prems"(2)]])
  qed
qed simp

lemma plain_lines:
  assumes "plain_files fs" "l \<in> set (file_lines fs name flagme)"
  shows "NUL \<notin> set l"
proof -
  have e: "NUL \<notin> set l" if "l \<in> set (entries content)" "NUL \<notin> set content" for content l
    using that by (auto simp: entries_def dest: set_strip set_lines_of)
  have m: "NUL \<notin> set me" if "me_of fs = Some me" for me
    using that assms(1) by (auto simp: me_of_def plain_files_def dest!: set_strip set_takeWhileD split: cfile.splits)
  show ?thesis using assms by (auto simp: file_lines_def plain_files_def dest: e m m [OF sym] split: cfile.splits option.splits if_split_asm)
qed

lemma rewrite_files:
  assumes "todo_getcontrols mem fs = Some (Some (ctl, st))" "plain_files fs"
  shows "rewrite_ref ctl recip = rewrite_by_files fs recip"
proof -
  note c = controls_read [OF assms(1)]
  have p: "\<forall>l \<in> set (file_lines fs name flagme). NUL \<notin> set l" for name flagme using plain_lines [OF assms(2)] by blast
  have l: "cm_value (maplocals ctl) k \<noteq> None \<longleftrightarrow> lists_host (file_lines fs ''control/locals'' True) k" for k by (rule table_names [OF c(2) p])
  have h: "cm_value (mappercenthack ctl) k \<noteq> None \<longleftrightarrow> lists_host (file_lines fs ''control/percenthack'' False) k" for k by (rule table_names [OF c(3) p])
  have v: "cm_value (mapvdoms ctl) k = user_for (file_lines fs ''control/virtualdomains'' False) k" for k by (rule table_user [OF c(4) p])
  note r = resolve_names [of "mappercenthack ctl" "file_lines fs ''control/percenthack'' False", OF h]
  show ?thesis
    by (simp only: rewrite_ref_def rewrite_by_files_def canonical_def c(1) l vdom_user [of "mapvdoms ctl", OF v] r Let_def) (simp split: prod.split)
qed

section \<open>Properties\<close>

text \<open>C23: reading a control file always returns. On success the text has exactly the entries of the file: its lines without trailing blanks, those that are
  empty or begin with a number sign left out, each with a NUL; if there is no file it is empty or, where that is the default, the name of the host. It fails only
  if the file cannot be opened or read, or memory is denied.\<close>

theorem control_readfile_correct:
  "case control_readfile mem st f flagme of None \<Rightarrow> False
   | Some (r, sa) \<Rightarrow>
      (case f of
         Missing \<Rightarrow> (if r = - 1 then \<exists>n. \<not> mem n else if flagme \<and> snd st then r = 1 \<and> sa = fst st @ [NUL] else r = 0 \<and> sa = [])
       | Unopened \<Rightarrow> r = - 1
       | Readable broken content \<Rightarrow> (if r = 1 then sa = joined (entries content) else r = - 1 \<and> (broken \<or> (\<exists>n. \<not> mem n))))"
proof (cases "f")
  case (Readable broken content)
  show ?thesis using readfile_loop_ok [OF open_control_stream(1), of mem broken content "[]"] Readable
    by (auto simp: control_readfile_def open_control_stream)
qed (auto simp: control_readfile_def cat_def split: option.splits if_splits)

text \<open>C26: Rewriting is what the control files say. When \<open>getcontrols\<close> has read them, with no NUL in any, \<open>rewrite\<close> does what the lines of the files tell, without any table: the
  recipient gets the host in \<open>control/envnoathost\<close> if it has none; a host named in \<open>control/percenthack\<close> gives way to the one behind the last percent sign, as often as there is
  one; then the host is looked for in \<open>control/locals\<close> (or \<open>control/me\<close>), and the address, its host and the host's suffixes from each dot on, one after the other, in
  \<open>control/virtualdomains\<close>, where the last line for a name counts. With too little memory the result is 0, never a different address.\<close>

theorem rewrite_correct:
  assumes "todo_getcontrols mem fs = Some (Some (ctl, st))" "plain_files fs"
  shows "rewrite ctl (\<lambda>_. True) recip = rewrite_by_files fs (cstr recip) \<and> rewrite ctl mem' recip \<in> {(0, []), rewrite_by_files fs (cstr recip)}"
  using rewrite_all [of ctl recip] rewrite_some [of ctl mem' recip] rewrite_files [OF assms] by auto

definition demo_files :: cfiles where
  "demo_files name =
     (if name = ''control/me'' then Readable False (''h'' @ [LF]) else if name = ''control/virtualdomains'' then Readable False (''.B.c:v'' @ [LF]) else Missing)"

lemma demo_files_read: "\<exists>ctl st. todo_getcontrols (\<lambda>_. True) demo_files = Some (Some (ctl, st))"
proof -
  have "\<exists>r me. control_readline (\<lambda>_. True) (demo_files ''control/me'') [] = Some (1, me)"
    using control_readline_ok [of "\<lambda>_. True" "demo_files ''control/me''" "[]"] by (auto simp: demo_files_def)
  then obtain me where i: "control_init (\<lambda>_. True) demo_files ([], False) = Some (1, me, True)" by (auto simp: control_init_def)
  have v: "\<exists>sa. control_readfile (\<lambda>_. True) st (demo_files ''control/virtualdomains'') f = Some (1, sa)" for st f
    using readfile_loop_ok [OF open_control_stream(1), of "\<lambda>_. True" False "''.B.c:v'' @ [LF]" "[]"] by (auto simp: control_readfile_def demo_files_def)
  obtain sa where sa: "control_readfile (\<lambda>_. True) (me, True) (demo_files ''control/virtualdomains'') False = Some (1, sa)" using v by blast
  have n: "demo_files ''control/locals'' = Missing" "demo_files ''control/percenthack'' = Missing" "demo_files ''control/envnoathost'' = Missing"
    by (simp_all add: demo_files_def)
  have t: "\<exists>b. table (\<lambda>_. True) s f = Some b" for s f by (simp add: table_def constmap_init_def Let_def)
  obtain b1 b2 b3 where b: "table (\<lambda>_. True) (me @ [NUL]) False = Some b1" "table (\<lambda>_. True) [] False = Some b2" "table (\<lambda>_. True) sa True = Some b3" using t by metis
  have l: "control_readfile (\<lambda>_. True) (me, True) Missing True = Some (1, me @ [NUL])" "control_readfile (\<lambda>_. True) (me, True) Missing False = Some (0, [])"
    by (simp_all add: control_readfile_def cat_def)
  have d: "control_rldef (\<lambda>_. True) (me, True) Missing True (Some d) = Some (1, me)" for d by (simp add: control_rldef_def control_readline_def copied_def)
  show ?thesis
    unfolding todo_getcontrols_def i needs_def option.case prod.case n d get_tables_def l
    using b sa by auto
qed

theorem rewrite_correct_witness:
  "\<exists>ctl st. todo_getcontrols (\<lambda>_. True) demo_files = Some (Some (ctl, st)) \<and> rewrite ctl (\<lambda>_. True) ''a@x.b.c'' = (1, ''T'' @ ''v-a@x.b.c'' @ [NUL])"
proof -
  obtain ctl st where c: "todo_getcontrols (\<lambda>_. True) demo_files = Some (Some (ctl, st))" using demo_files_read by blast
  have p: "plain_files demo_files" by (auto simp: plain_files_def demo_files_def split: if_split_asm)
  have "rewrite_by_files demo_files ''a@x.b.c'' = (1, ''T'' @ ''v-a@x.b.c'' @ [NUL])"
    by code_simp
  then show ?thesis using rewrite_correct [OF c p, of "''a@x.b.c''" "\<lambda>_. True"] c by (intro exI [of _ ctl] exI [of _ st]) simp
qed

end
