(* ===== verification/Manager.thy ===== *)
theory Manager
  imports Bounce Todo Prioq
begin

text \<open>
  The queue manager, \<open>qmail-send.c\<close> (with \<open>EXTERNAL_TODO\<close>), and \<open>readsubdir.c\<close>. A \<open>send\<close> is the state of the process together with
  the files that it shares with the other programs: for each message number a \<open>mfiles\<close>. Each function of the source is an operation on
  it; the variables of the source are its fields. What the outside world does during a call is a \<open>sys\<close>: the time, which system calls are
  \<open>denied\<close>, and how \<open>qmail-queue\<close> and \<open>qmail-clean\<close> behave. A call that does not return is \<open>None\<close>.

  Allocations that are tried until they succeed do succeed here. A \<open>prioq\<close> whose block would be as large as the address space is left out
  (\<open>pqput\<close> is \<open>None\<close>). The field \<open>story\<close> is not in the program: it records for each message what has happened to it, newest first.
\<close>

section \<open>State\<close>

record mfiles =
  finfo :: "(char list \<times> int) option"
  ftodo :: bool
  fmess :: "char list option"
  fmess_atime :: int
  fchan :: "channel \<Rightarrow> char list option"
  fchan_mtime :: "channel \<Rightarrow> int"
  fbounce :: "char list option"

datatype event =
    Delivered channel nat
  | Bounced channel nat "char list"
  | Injected "char list" "char list"
  | Discarded "char list"

record job =
  refs :: int
  jid :: ulong
  jchannel :: channel
  jretry :: int
  jsender :: "char list"
  numtodo :: int
  flaghiteof :: bool
  flagdying :: bool

record del =
  used :: bool
  dj :: nat
  delid :: ulong
  mpos :: nat
  recip :: "char list"

record pass =
  pass_id :: ulong
  pass_j :: nat
  pass_mpos :: nat
  pass_ss :: "nat substdio"

record readsubdir =
  rs_name :: "char list"
  rs_dir :: "char list list option"
  rs_pos :: nat

record send =
  qf :: "ulong \<Rightarrow> mfiles"
  story :: "ulong \<Rightarrow> event list"
  pqdone :: prioq
  pqchan :: "channel \<Rightarrow> prioq"
  pqfail :: prioq
  jo :: "job list"
  dels :: "channel \<Rightarrow> del list"
  masterdelid :: ulong
  concurrencyused :: "channel \<Rightarrow> nat"
  dline :: "channel \<Rightarrow> char list"
  spawn_buf :: "channel \<Rightarrow> char list"
  spawn_pos :: "channel \<Rightarrow> nat"
  spawn_sent :: "channel \<Rightarrow> char list"
  flagspawnalive :: "channel \<Rightarrow> bool"
  flagexitasap :: bool
  pass :: "channel \<Rightarrow> pass"
  vdoms :: built
  todoline :: "char list"
  flagtodoalive :: bool
  recent :: int
  flagcleanup :: bool
  cleanuptime :: int
  cleanupdir :: readsubdir
  logtext :: "char list"

record sconf =
  lifetime :: int
  bounce :: bounce_conf

text \<open>\<open>Remove\<close> stands for \<open>unlink\<close>, \<open>Mark\<close> for the calls of \<open>markdone\<close>.\<close>

datatype scall = Stat_info | Stat_todo | Stat_chan channel | Stat_bounce | Atime_mess | Open_info | Fstat_info | Read_info
  | Open_chan | Read_chan | Mark | Copy_recip | Remove_chan | Remove_info | Remove_bounce
  | Open_queue | Open_bounce | Read_bounce | Open_mess | Read_mess | Utime | Tell_clean | Hear_clean

record sys =
  clock :: int
  denied :: "scall \<Rightarrow> bool"
  smem :: "nat \<Rightarrow> bool"
  message_out :: "fdout list"
  envelope_out :: "fdout list"
  queue_pid :: nat
  queue_waited :: bool
  queue_wstat :: nat
  queue_err :: "char list"
  cleaner_removes :: bool
  cleaner_reply :: char

definition SLEEP_SYSFAIL :: int where "SLEEP_SYSFAIL = 123"
definition SLEEP_CLEANUP :: int where "SLEEP_CLEANUP = 76431"
definition SEND_OSSIFIED :: int where "SEND_OSSIFIED = 129600"
definition REPORTMAX :: nat where "REPORTMAX = 10000"

definition chanskip :: "channel \<Rightarrow> int" where
  "chanskip c = (case c of Local \<Rightarrow> 10 | Remote \<Rightarrow> 20)"

definition set_file :: "ulong \<Rightarrow> (mfiles \<Rightarrow> mfiles) \<Rightarrow> send \<Rightarrow> send" where
  "set_file i f s = s\<lparr>qf := (qf s)(i := f (qf s i))\<rparr>"

definition happened :: "ulong \<Rightarrow> event \<Rightarrow> send \<Rightarrow> send" where
  "happened i e s = s\<lparr>story := (story s)(i := e # story s i)\<rparr>"

definition set_job :: "nat \<Rightarrow> (job \<Rightarrow> job) \<Rightarrow> send \<Rightarrow> send" where
  "set_job j f s = s\<lparr>jo := (jo s)[j := f (jo s ! j)]\<rparr>"

text \<open>\<open>stat\<close>\<close>

datatype stat = Exists | Noent | Failed

definition stat :: "sys \<Rightarrow> scall \<Rightarrow> bool \<Rightarrow> stat" where
  "stat y call there = (if denied y call then Failed else if there then Exists else Noent)"

section \<open>Log\<close>

definition log1 :: "char list \<Rightarrow> send \<Rightarrow> send" where
  "log1 x s = s\<lparr>logtext := logtext s @ cstr x\<rparr>"

definition log2 :: "char list \<Rightarrow> char list \<Rightarrow> send \<Rightarrow> send" where
  "log2 x y s = log1 y (log1 x s)"

definition log3 :: "char list \<Rightarrow> char list \<Rightarrow> char list \<Rightarrow> send \<Rightarrow> send" where
  "log3 x y z s = log1 z (log1 y (log1 x s))"

definition num :: "ulong \<Rightarrow> char list" where
  "num i = fmt_ulong (unat i)"

definition fname_info :: "ulong \<Rightarrow> char list" where "fname_info i = fmtqfn ''info/'' (unat i) True"
definition fname_todo :: "ulong \<Rightarrow> char list" where "fname_todo i = fmtqfn ''todo/'' (unat i) False"
definition fname_mess :: "ulong \<Rightarrow> char list" where "fname_mess i = fmtqfn ''mess/'' (unat i) True"
definition fname_foop :: "ulong \<Rightarrow> char list" where "fname_foop i = fmtqfn ''foop/'' (unat i) False"
definition fname_split :: "ulong \<Rightarrow> char list" where "fname_split i = fmtqfn [] (unat i) True"
definition fname_bounce :: "ulong \<Rightarrow> char list" where "fname_bounce i = fmtqfn ''bounce/'' (unat i) False"
definition fname_chan :: "ulong \<Rightarrow> channel \<Rightarrow> char list" where "fname_chan i c = fmtqfn (chanaddr c) (unat i) True"

definition cleandied :: "send \<Rightarrow> send" where
  "cleandied s = (log1 (''alert: oh no! lost qmail-clean connection! dying...'' @ [LF]) s)\<lparr>flagexitasap := True\<rparr>"

definition spawndied :: "channel \<Rightarrow> send \<Rightarrow> send" where
  "spawndied c s = (let s = log1 (''alert: oh no! lost spawn connection! dying...'' @ [LF]) s
     in s\<lparr>flagspawnalive := (flagspawnalive s)(c := False), flagexitasap := True\<rparr>)"

text \<open>\<open>substdio_putflush(&sstoqc,...)\<close> with \<open>foop\<close>, and the answer.\<close>

definition ask_foop :: "sys \<Rightarrow> ulong \<Rightarrow> send \<Rightarrow> send" where
  "ask_foop y i s =
     (if denied y Tell_clean then cleandied s
      else let s = (if cleaner_removes y then set_file i (\<lambda>f. f\<lparr>fmess := None\<rparr>) s else s) in
      if denied y Hear_clean then cleandied s
      else if cleaner_reply y \<noteq> CHR ''+'' then log3 ''warning: qmail-clean unable to clean up '' (fname_foop i) [LF] s
      else s)"

section \<open>Info\<close>

text \<open>The sender with its terminating NUL, and the time of birth. A read from a file returns, so there is no third result.\<close>

definition getinfo :: "sys \<Rightarrow> ulong \<Rightarrow> send \<Rightarrow> (char list \<times> int) option" where
  "getinfo y i s =
     (case finfo (qf s i) of
        None \<Rightarrow> None
      | Some (content, mtime) \<Rightarrow>
          (if denied y Open_info then None
           else if denied y Fstat_info then None
           else case getln (smem y) (file_read (denied y Read_info) content) open_file [] False NUL of
                  None \<Rightarrow> None
                | Some (r, ss, line, m) \<Rightarrow>
                    (if r = - 1 then None
                     else if \<not> m then None
                     else if char_at line 0 \<noteq> CHR ''F'' then None
                     else Some (cstr (tl line) @ [NUL], mtime))))"

section \<open>Communication\<close>

definition comm_canwrite :: "channel \<Rightarrow> send \<Rightarrow> bool" where
  "comm_canwrite c s = (if spawn_buf s c \<noteq> [] then False else True)"

definition comm_write :: "channel \<Rightarrow> nat \<Rightarrow> ulong \<Rightarrow> char list \<Rightarrow> char list \<Rightarrow> send \<Rightarrow> send" where
  "comm_write c delnum i sendr rcp s =
     (if spawn_buf s c \<noteq> [] then s
      else s\<lparr>spawn_buf := (spawn_buf s)(c := [char_of (delnum mod 256), char_of (delnum div 256 mod 256)] @ cstr (fname_split i) @ [NUL] @
               senderadd sendr rcp @ [NUL] @ cstr rcp @ [NUL]),
             spawn_pos := (spawn_pos s)(c := 0)\<rparr>)"

text \<open>One round of the loop of \<open>comm_do\<close>; \<open>w\<close> and \<open>epipe\<close> are what \<open>write\<close> returns if the descriptor is ready.\<close>

definition comm_do :: "channel \<Rightarrow> bool \<Rightarrow> int \<Rightarrow> bool \<Rightarrow> send \<Rightarrow> send" where
  "comm_do c isset w epipe s =
     (if flagspawnalive s c \<and> spawn_buf s c \<noteq> [] \<and> isset
      then if w \<le> 0 then (if w = - 1 \<and> epipe then spawndied c s else s)
           else let s = s\<lparr>spawn_sent := (spawn_sent s)(c := spawn_sent s c @ take (nat w) (drop (spawn_pos s c) (spawn_buf s c))),
                          spawn_pos := (spawn_pos s)(c := spawn_pos s c + nat w)\<rparr>
                in if spawn_pos s c = length (spawn_buf s c) then s\<lparr>spawn_buf := (spawn_buf s)(c := [])\<rparr> else s
      else s)"


section \<open>Directories\<close>

text \<open>\<open>opendir\<close> gives the names in the subdirectory with the given number; it is tried until it succeeds.\<close>

definition readsubdir_init :: "char list \<Rightarrow> readsubdir" where
  "readsubdir_init name = \<lparr>rs_name = name, rs_dir = None, rs_pos = 0\<rparr>"

definition READSUBDIR_NAMELEN :: nat where "READSUBDIR_NAMELEN = 10"

definition readsubdir_next :: "(nat \<Rightarrow> char list list) \<Rightarrow> readsubdir \<Rightarrow> int \<times> ulong \<times> readsubdir" where
  "readsubdir_next opendir rs =
     (case rs_dir rs of
        None \<Rightarrow>
          (if rs_pos rs \<ge> auto_split then (0, 0, rs)
           else if str_len (rs_name rs) > READSUBDIR_NAMELEN then (- 1, 0, rs\<lparr>rs_pos := rs_pos rs + 1\<rparr>)
           else (- 1, 0, rs\<lparr>rs_dir := Some (opendir (rs_pos rs)), rs_pos := rs_pos rs + 1\<rparr>))
      | Some [] \<Rightarrow> (- 1, 0, rs\<lparr>rs_dir := None\<rparr>)
      | Some (d_name # ds) \<Rightarrow>
          (let rs = rs\<lparr>rs_dir := Some ds\<rparr>
           in if d_name = ''.'' then (- 1, 0, rs)
              else if d_name = ''..'' then (- 1, 0, rs)
              else let (n, i) = scan_ulong d_name
                   in if n = 0 \<or> char_at d_name n \<noteq> NUL then (- 2, i, rs) else (1, i, rs)))"

section \<open>Priority queues\<close>

text \<open>\<open>while (!prioq_insert(...)) nomem();\<close>\<close>

definition pqput :: "prioq \<Rightarrow> prioq_elt \<Rightarrow> prioq option" where
  "pqput pq pe =
     (if prioq_fits (Suc (unat (len pq)))
      then case prioq_insert (\<lambda>_. True) pe pq pe of Some (True, pq) \<Rightarrow> Some pq | _ \<Rightarrow> None
      else None)"

definition put_chan :: "channel \<Rightarrow> prioq_elt \<Rightarrow> send \<Rightarrow> send option" where
  "put_chan c pe s = map_option (\<lambda>pq. s\<lparr>pqchan := (pqchan s)(c := pq)\<rparr>) (pqput (pqchan s c) pe)"

definition put_done :: "prioq_elt \<Rightarrow> send \<Rightarrow> send option" where
  "put_done pe s = map_option (\<lambda>pq. s\<lparr>pqdone := pq\<rparr>) (pqput (pqdone s) pe)"

definition put_fail :: "prioq_elt \<Rightarrow> send \<Rightarrow> send option" where
  "put_fail pe s = map_option (\<lambda>pq. s\<lparr>pqfail := pq\<rparr>) (pqput (pqfail s) pe)"

text \<open>The loop of \<open>pqadd\<close> over the channel files; the result is the name that could not be examined, or the channels with a file.\<close>

fun stat_chans :: "sys \<Rightarrow> ulong \<Rightarrow> channel list \<Rightarrow> send \<Rightarrow> char list + channel list" where
  "stat_chans y i [] s = Inr []"
| "stat_chans y i (c # cs) s =
     (case stat y (Stat_chan c) (fchan (qf s i) c \<noteq> None) of
        Failed \<Rightarrow> Inl (fname_chan i c)
      | Noent \<Rightarrow> stat_chans y i cs s
      | Exists \<Rightarrow> andthen (stat_chans y i cs s) (\<lambda>cs. Inr (c # cs)))"

fun put_chans :: "(channel \<Rightarrow> prioq_elt) \<Rightarrow> channel list \<Rightarrow> send \<Rightarrow> send option" where
  "put_chans pe [] s = Some s"
| "put_chans pe (c # cs) s = Option.bind (put_chan c (pe c) s) (put_chans pe cs)"

definition pqadd_fail :: "sys \<Rightarrow> ulong \<Rightarrow> char list \<Rightarrow> send \<Rightarrow> send option" where
  "pqadd_fail y i name s =
     put_fail \<lparr>dt = clock y + SLEEP_SYSFAIL, id = i\<rparr> (log3 ''warning: unable to stat '' name (''; will try again later'' @ [LF]) s)"

definition pqadd :: "sys \<Rightarrow> ulong \<Rightarrow> send \<Rightarrow> send option" where
  "pqadd y i s =
     (case stat y Stat_info (finfo (qf s i) \<noteq> None) of
        Failed \<Rightarrow> pqadd_fail y i (fname_info i) s
      | Noent \<Rightarrow> Some s
      | Exists \<Rightarrow>
         (case stat y Stat_todo (ftodo (qf s i)) of
            Exists \<Rightarrow> Some s
          | Failed \<Rightarrow> pqadd_fail y i (fname_todo i) s
          | Noent \<Rightarrow>
             (case stat_chans y i channels s of
                Inl name \<Rightarrow> pqadd_fail y i name s
              | Inr cs \<Rightarrow>
                  Option.bind (put_chans (\<lambda>c. \<lparr>dt = fchan_mtime (qf s i) c, id = i\<rparr>) cs s) (\<lambda>s.
                  if cs = [] then put_done \<lparr>dt = clock y, id = i\<rparr> s else Some s))))"

text \<open>\<open>pqstart\<close>: the message numbers that the loop finds, and the loop itself.\<close>

function subdir_ids :: "(nat \<Rightarrow> char list list) \<Rightarrow> readsubdir \<Rightarrow> ulong list" where
  "subdir_ids opendir rs =
     (case readsubdir_next opendir rs of (x, i, rs') \<Rightarrow>
        if x = 0 then [] else if x > 0 then i # subdir_ids opendir rs' else subdir_ids opendir rs')"
  by pat_completeness auto
termination
  by (relation "inv_image (less_than <*lex*> less_than) (\<lambda>(opendir, rs). (2 * (auto_split - rs_pos rs) + (if rs_dir rs = None then 0 else 1),
       case rs_dir rs of None \<Rightarrow> 0 | Some ds \<Rightarrow> length ds))")
    (auto simp: readsubdir_next_def Let_def split: option.splits list.splits if_splits prod.splits)

declare subdir_ids.simps [simp del]

fun pqadds :: "(nat \<Rightarrow> sys) \<Rightarrow> ulong list \<Rightarrow> send \<Rightarrow> send option" where
  "pqadds env [] s = Some s"
| "pqadds env (i # is) s = Option.bind (pqadd (env 0) i s) (pqadds (\<lambda>n. env (Suc n)) is)"

definition pqstart :: "(nat \<Rightarrow> sys) \<Rightarrow> (nat \<Rightarrow> char list list) \<Rightarrow> send \<Rightarrow> send option" where
  "pqstart env opendir s = pqadds env (subdir_ids opendir (readsubdir_init ''info'')) s"

text \<open>The loop of \<open>pqfinish\<close> for one channel; every element that \<open>prioq_min\<close> finds goes.\<close>

fun pqfinish_loop :: "(nat \<Rightarrow> sys) \<Rightarrow> nat \<Rightarrow> channel \<Rightarrow> send \<Rightarrow> send" where
  "pqfinish_loop env 0 c s = s"
| "pqfinish_loop env (Suc k) c s =
     (case prioq_min (pqchan s c) of
        None \<Rightarrow> s
      | Some pe \<Rightarrow>
          (let s = s\<lparr>pqchan := (pqchan s)(c := prioq_delmin (pqchan s c))\<rparr>; i = Prioq.id pe in
           pqfinish_loop env k c
             (if denied (env k) Utime \<or> fchan (qf s i) c = None
              then log3 ''warning: unable to utime '' (fname_chan i c) (''; message will be retried too soon'' @ [LF]) s
              else set_file i (\<lambda>f. f\<lparr>fchan_mtime := (fchan_mtime f)(c := dt pe)\<rparr>) s)))"

definition pqfinish :: "(channel \<Rightarrow> nat \<Rightarrow> sys) \<Rightarrow> send \<Rightarrow> send" where
  "pqfinish env s = fold (\<lambda>c s. pqfinish_loop (env c) (unat (len (pqchan s c))) c s) channels s"

definition pqrun :: "send \<Rightarrow> send" where
  "pqrun s = s\<lparr>pqchan := \<lambda>c. (pqchan s c)\<lparr>field := map_option (\<lambda>p. map (\<lambda>pe. pe\<lparr>dt := recent s\<rparr>) (take (unat (len (pqchan s c))) p) @
     drop (unat (len (pqchan s c))) p) (field (pqchan s c))\<rparr>\<rparr>"

section \<open>Jobs\<close>

definition free_job :: "send \<Rightarrow> nat" where
  "free_job s = length (takeWhile (\<lambda>b. refs b \<noteq> 0) (jo s))"

definition job_avail :: "send \<Rightarrow> bool" where
  "job_avail s = (free_job s < length (jo s))"

definition job_open :: "ulong \<Rightarrow> channel \<Rightarrow> send \<Rightarrow> (nat \<times> send) option" where
  "job_open i c s =
     (let j = free_job s in
      if j = length (jo s) then None
      else Some (j, set_job j (\<lambda>b. b\<lparr>refs := 1, jid := i, jchannel := c, numtodo := 0, flaghiteof := False\<rparr>) s))"

text \<open>The loop over the other channels: whether one of them is still going.\<close>

fun more_channels :: "sys \<Rightarrow> ulong \<Rightarrow> channel \<Rightarrow> channel list \<Rightarrow> send \<Rightarrow> bool \<times> send" where
  "more_channels y i c0 [] s = (False, s)"
| "more_channels y i c0 (c # cs) s =
     (if c \<noteq> c0
      then case stat y (Stat_chan c) (fchan (qf s i) c \<noteq> None) of
             Exists \<Rightarrow> (True, s)
           | Failed \<Rightarrow> (False, log3 ''warning: unable to stat '' (fname_chan i c) [LF] s)
           | Noent \<Rightarrow> more_channels y i c0 cs s
      else more_channels y i c0 cs s)"

definition job_close :: "sys \<Rightarrow> nat \<Rightarrow> send \<Rightarrow> send option" where
  "job_close y j s =
     (let s = set_job j (\<lambda>b. b\<lparr>refs := refs b - 1\<rparr>) s; b = jo s ! j; i = jid b; c = jchannel b in
      if 0 < refs b then Some s
      else if flaghiteof b \<and> numtodo b = 0
      then if denied y Remove_chan \<or> fchan (qf s i) c = None
           then put_chan c \<lparr>dt = clock y + SLEEP_SYSFAIL, id = i\<rparr> (log3 ''warning: unable to unlink '' (fname_chan i c) (''; will try again later'' @ [LF]) s)
           else case more_channels y i c channels (set_file i (\<lambda>f. f\<lparr>fchan := (fchan f)(c := None)\<rparr>) s) of (going, s) \<Rightarrow>
                  if going then Some s else put_done \<lparr>dt = clock y, id = i\<rparr> s
      else put_chan c \<lparr>dt = jretry b, id = i\<rparr> s)"


section \<open>Bounces\<close>

text \<open>The files are opened and written until all of the paragraph is there.\<close>

definition addbounce :: "ulong \<Rightarrow> char list \<Rightarrow> char list \<Rightarrow> send \<Rightarrow> send" where
  "addbounce i rcp report s =
     set_file i (\<lambda>f. f\<lparr>fbounce := Some (case_option [] (\<lambda>x. x) (fbounce f) @ bounce_paragraph (vdoms s) rcp report)\<rparr>) s"

text \<open>\<open>owner-@host-@[]\<close> becomes \<open>owner-@host\<close>; the argument ends with its NUL.\<close>

definition strip_owner :: "char list \<Rightarrow> char list" where
  "strip_owner sa =
     (if length sa \<ge> 5 \<and> str_diff (drop (length sa - 5) sa) ''-@[]'' = 0 then (take (length sa - 4) sa)[length sa - 5 := NUL] else sa)"

definition readable :: "sys \<Rightarrow> scall \<Rightarrow> scall \<Rightarrow> char list option \<Rightarrow> (bool \<times> char list) option" where
  "readable y op rd file = (if denied y op then None else map_option (\<lambda>content. (denied y rd, content)) file)"

definition injectbounce :: "sys \<Rightarrow> bounce_conf \<Rightarrow> ulong \<Rightarrow> send \<Rightarrow> (bool \<times> send) option" where
  "injectbounce y bc i s =
     (case getinfo y i s of
        None \<Rightarrow> Some (False, s)
      | Some (sa, birth) \<Rightarrow>
          (let sendr = cstr (strip_owner sa) in
           case stat y Stat_bounce (fbounce (qf s i) \<noteq> None) of
             Noent \<Rightarrow> Some (True, s)
           | Failed \<Rightarrow> Some (False, log3 ''warning: unable to stat '' (fname_bounce i) [LF] s)
           | Exists \<Rightarrow>
              Option.bind
                (if sendr = ''#@[]''
                 then Some (True, happened i (Discarded (the (fbounce (qf s i)))) (log3 ''triple bounce: discarding '' (fname_bounce i) [LF] s))
                 else if denied y Open_queue
                 then Some (False, log1 (''warning: unable to start qmail-queue, will try later'' @ [LF]) s)
                 else Option.bind (hand_bounce bc (clock y) sendr (readable y Open_bounce Read_bounce (fbounce (qf s i)))
                        (readable y Open_mess Read_mess (fmess (qf s i))) (qmail_opened (message_out y) (envelope_out y))) (\<lambda>qq.
                   if close_verdict (flagerr qq) (queue_waited y) (queue_wstat y) (queue_err y) \<noteq> []
                   then Some (False, log1 (''warning: trouble injecting bounce message, will try later'' @ [LF]) s)
                   else Some (True, happened i (Injected (message_pipe qq) (snd (sw (qss qq))))
                          (log3 '' qp '' (fmt_ulong (queue_pid y)) [LF] (log2 ''bounce msg '' (num i) s)))))
                (\<lambda>(go, s).
                   if \<not> go then Some (False, s)
                   else if denied y Remove_bounce
                   then Some (False, log3 ''warning: unable to unlink '' (fname_bounce i) [LF] s)
                   else Some (True, set_file i (\<lambda>f. f\<lparr>fbounce := None\<rparr>) s))))"

section \<open>Deliveries\<close>

definition chanstatusmsg :: "channel \<Rightarrow> char list" where
  "chanstatusmsg c = (case c of Local \<Rightarrow> '' local '' | Remote \<Rightarrow> '' remote '')"

definition tochan :: "channel \<Rightarrow> char list" where
  "tochan c = (case c of Local \<Rightarrow> '' to local '' | Remote \<Rightarrow> '' to remote '')"

text \<open>\<open>concurrency[c]\<close> is the length of \<open>d[c]\<close>.\<close>

definition status_chan :: "channel \<Rightarrow> send \<Rightarrow> send" where
  "status_chan c s = log2 ''/'' (fmt_ulong (length (dels s c))) (log2 (chanstatusmsg c) (fmt_ulong (concurrencyused s c)) s)"

definition del_status :: "send \<Rightarrow> send" where
  "del_status s =
     (let s = fold status_chan channels (log1 ''status:'' s);
          s = (if flagexitasap s then log1 '' exitasap'' s else s)
      in log1 [LF] s)"

definition del_canexit :: "send \<Rightarrow> bool" where
  "del_canexit s = list_all (\<lambda>c. \<not> (flagspawnalive s c \<and> concurrencyused s c \<noteq> 0)) channels"

definition del_avail :: "channel \<Rightarrow> send \<Rightarrow> bool" where
  "del_avail c s = (flagspawnalive s c \<and> comm_canwrite c s \<and> concurrencyused s c < length (dels s c))"

definition free_del :: "channel \<Rightarrow> send \<Rightarrow> nat" where
  "free_del c s = length (takeWhile used (dels s c))"

definition del_start :: "sys \<Rightarrow> nat \<Rightarrow> nat \<Rightarrow> char list \<Rightarrow> send \<Rightarrow> send" where
  "del_start y j pos rcp s =
     (let c = jchannel (jo s ! j); n = free_del c s in
      if \<not> flagspawnalive s c then s
      else if \<not> comm_canwrite c s then s
      else if n = length (dels s c) then s
      else if denied y Copy_recip then log1 (''alert: out of memory, sleeping...'' @ [LF]) s
      else
        let delnr = masterdelid s;
            s = set_job j (\<lambda>b. b\<lparr>refs := refs b + 1\<rparr>) s;
            s = s\<lparr>dels := (dels s)(c := (dels s c)[n := \<lparr>used = True, dj = j, delid = delnr, mpos = pos, recip = cstr rcp @ [NUL]\<rparr>]),
                  masterdelid := delnr + 1, concurrencyused := (concurrencyused s)(c := concurrencyused s c + 1)\<rparr>;
            s = comm_write c n (jid (jo s ! j)) (jsender (jo s ! j)) rcp s
        in del_status (log1 [LF] (log1 (logsafe rcp) (log3 '': msg '' (num (jid (jo s ! j))) (tochan c) (log2 ''starting delivery '' (num delnr) s)))))"

text \<open>One byte at \<open>pos\<close> of a file is overwritten.\<close>

definition poke :: "char list \<Rightarrow> nat \<Rightarrow> char \<Rightarrow> char list" where
  "poke content pos ch = (if pos < length content then content[pos := ch] else content @ replicate (pos - length content) NUL @ [ch])"

definition markdone :: "sys \<Rightarrow> channel \<Rightarrow> ulong \<Rightarrow> nat \<Rightarrow> send \<Rightarrow> send" where
  "markdone y c i pos s =
     (case fchan (qf s i) c of
        Some content \<Rightarrow>
          (if denied y Mark then log3 ''warning: trouble marking '' (fname_chan i c) (''; message will be delivered twice!'' @ [LF]) s
           else set_file i (\<lambda>f. f\<lparr>fchan := (fchan f)(c := Some (poke content pos (CHR ''D'')))\<rparr>) s)
      | None \<Rightarrow> log3 ''warning: trouble marking '' (fname_chan i c) (''; message will be delivered twice!'' @ [LF]) s)"

definition too_long :: "char list" where
  "too_long = ''I'' @ [CHR 0x27] @ ''m not going to try again; this message has been in the queue too long.'' @ [LF]"

text \<open>The report as it is taken, and what becomes of it, before the job is closed.\<close>

definition report_line :: "bool \<Rightarrow> char list \<Rightarrow> char list" where
  "report_line dying line = (if line ! 2 = CHR ''Z'' \<and> dying then butlast (line[2 := CHR ''D'']) @ too_long @ [NUL] else line)"

definition report_logged :: "char list \<Rightarrow> char list \<Rightarrow> char list \<Rightarrow> send \<Rightarrow> send" where
  "report_logged nr what line s = log1 [LF] (log1 (logsafe (drop 3 line)) (log3 ''delivery '' nr what s))"

definition answered_done :: "sys \<Rightarrow> channel \<Rightarrow> del \<Rightarrow> event \<Rightarrow> send \<Rightarrow> send" where
  "answered_done y c d e s =
     (let i = jid (jo s ! dj d) in set_job (dj d) (\<lambda>b. b\<lparr>numtodo := numtodo b - 1\<rparr>) (happened i e (markdone y c i (mpos d) s)))"

definition report_taken :: "sys \<Rightarrow> channel \<Rightarrow> del \<Rightarrow> char list \<Rightarrow> send \<Rightarrow> send" where
  "report_taken y c d line s =
     (let i = jid (jo s ! dj d); nr = num (delid d) in
      if line ! 2 = CHR ''K'' then answered_done y c d (Delivered c (mpos d)) (report_logged nr '': success: '' line s)
      else if line ! 2 = CHR ''Z'' then report_logged nr '': deferral: '' line s
      else if line ! 2 = CHR ''D''
      then answered_done y c d (Bounced c (mpos d) (bounce_paragraph (vdoms s) (recip d) (drop 3 line)))
             (addbounce i (recip d) (drop 3 line) (report_logged nr '': failure: '' line s))
      else log3 ''delivery '' nr ('': report mangled, will defer'' @ [LF]) s)"

definition del_free :: "channel \<Rightarrow> nat \<Rightarrow> send \<Rightarrow> send" where
  "del_free c n s = s\<lparr>dels := (dels s)(c := (dels s c)[n := (dels s c ! n)\<lparr>used := False\<rparr>]), concurrencyused := (concurrencyused s)(c := concurrencyused s c - 1)\<rparr>"

text \<open>The number is put together from an unsigned and a signed byte.\<close>

definition report_num :: "char list \<Rightarrow> int" where
  "report_num line = int (uch (line ! 0)) + sch (line ! 1) * 256"

definition del_report :: "sys \<Rightarrow> channel \<Rightarrow> char list \<Rightarrow> send \<Rightarrow> send option" where
  "del_report y c line s =
     (let delnum = report_num line; n = nat delnum; d = dels s c ! n in
      if delnum < 0 \<or> n \<ge> length (dels s c) \<or> \<not> used d
      then Some (log1 (''warning: internal error: delivery report out of range'' @ [LF]) s)
      else Option.bind (job_close y (dj d) (report_taken y c d (report_line (flagdying (jo s ! dj d)) line) s)) (\<lambda>s.
           Some (del_status (del_free c n s))))"

definition del_byte :: "sys \<Rightarrow> channel \<Rightarrow> char \<Rightarrow> send \<Rightarrow> send option" where
  "del_byte y c ch s =
     (let line = take REPORTMAX (dline s c @ [ch]) in
      if ch = NUL \<and> length line > 2
      then Option.bind (del_report y c line s) (\<lambda>s. Some (s\<lparr>dline := (dline s)(c := [])\<rparr>))
      else Some (s\<lparr>dline := (dline s)(c := line)\<rparr>))"

fun del_bytes :: "(nat \<Rightarrow> sys) \<Rightarrow> channel \<Rightarrow> char list \<Rightarrow> send \<Rightarrow> send option" where
  "del_bytes env c [] s = Some s"
| "del_bytes env c (ch # cs) s = Option.bind (del_byte (env 0) c ch s) (del_bytes (\<lambda>n. env (Suc n)) c cs)"

text \<open>\<open>del_dochan\<close> with what \<open>read\<close> delivers.\<close>

definition del_dochan :: "(nat \<Rightarrow> sys) \<Rightarrow> channel \<Rightarrow> rd \<Rightarrow> send \<Rightarrow> send option" where
  "del_dochan env c r s =
     (case r of
        Got bs \<Rightarrow> (if bs = [] then Some (spawndied c s) else del_bytes env c bs s)
      | _ \<Rightarrow> Some s)"


section \<open>Passes\<close>

definition chan_content :: "ulong \<Rightarrow> channel \<Rightarrow> send \<Rightarrow> char list" where
  "chan_content i c s = case_option [] (\<lambda>x. x) (fchan (qf s i) c)"

definition set_pass :: "channel \<Rightarrow> (pass \<Rightarrow> pass) \<Rightarrow> send \<Rightarrow> send" where
  "set_pass c f s = s\<lparr>pass := (pass s)(c := f (pass s c))\<rparr>"

text \<open>The first part of \<open>pass_dochan\<close>: whether to go on.\<close>

definition pass_trouble :: "channel \<Rightarrow> ulong \<Rightarrow> send \<Rightarrow> (bool \<times> send) option" where
  "pass_trouble c i s =
     map_option (\<lambda>s. (False, s)) (put_chan c \<lparr>dt = recent s + SLEEP_SYSFAIL, id = i\<rparr>
       (log3 ''warning: trouble opening '' (fname_chan i c) (''; will try again later'' @ [LF]) s))"

definition pass_open :: "sys \<Rightarrow> sconf \<Rightarrow> channel \<Rightarrow> send \<Rightarrow> (bool \<times> send) option" where
  "pass_open y conf c s =
     (if pass_id (pass s c) \<noteq> 0 then Some (True, s)
      else if \<not> job_avail s then Some (False, s)
      else case prioq_min (pqchan s c) of
             None \<Rightarrow> Some (False, s)
           | Some pe \<Rightarrow>
              (if dt pe > recent s then Some (False, s)
               else let i = Prioq.id pe;
                        s = set_pass c (\<lambda>p. p\<lparr>pass_mpos := 0\<rparr>) (s\<lparr>pqchan := (pqchan s)(c := prioq_delmin (pqchan s c))\<rparr>)
                    in if denied y Open_chan \<or> fchan (qf s i) c = None then pass_trouble c i s
                       else case getinfo y i s of
                              None \<Rightarrow> pass_trouble c i s
                            | Some (line, birth) \<Rightarrow>
                                Option.bind (job_open i c s) (\<lambda>(j, s).
                                Some (True, set_job j (\<lambda>b. b\<lparr>jretry := nextretry (recent s) (chanskip c) birth, flagdying := recent s > birth + lifetime conf,
                                                  jsender := line\<rparr>)
                                    (set_pass c (\<lambda>p. p\<lparr>pass_id := i, pass_ss := open_file, pass_j := j\<rparr>) s)))))"

definition end_pass :: "sys \<Rightarrow> channel \<Rightarrow> send \<Rightarrow> send option" where
  "end_pass y c s = Option.bind (job_close y (pass_j (pass s c)) s) (\<lambda>s. Some (set_pass c (\<lambda>p. p\<lparr>pass_id := 0\<rparr>) s))"

text \<open>The second part: one record.\<close>

definition pass_record :: "sys \<Rightarrow> channel \<Rightarrow> char list \<Rightarrow> send \<Rightarrow> send option" where
  "pass_record y c line s =
     (let p = pass s c; next = set_pass c (\<lambda>p. p\<lparr>pass_mpos := pass_mpos p + length line\<rparr>) in
      if char_at line 0 = CHR ''T''
      then Some (next (del_start y (pass_j p) (pass_mpos p) (tl line) (set_job (pass_j p) (\<lambda>b. b\<lparr>numtodo := numtodo b + 1\<rparr>) s)))
      else if char_at line 0 = CHR ''D'' then Some (next s)
      else end_pass y c (log3 ''warning: unknown record type in '' (fname_chan (pass_id p) c) (''!'' @ [LF]) s))"

definition pass_line :: "sys \<Rightarrow> channel \<Rightarrow> send \<Rightarrow> send option" where
  "pass_line y c s =
     (let p = pass s c in
      case getln (smem y) (file_read (denied y Read_chan) (chan_content (pass_id p) c s)) (pass_ss p) [] False NUL of
        None \<Rightarrow> None
      | Some (r, ss, line, m) \<Rightarrow>
          (let s = set_pass c (\<lambda>p. p\<lparr>pass_ss := ss\<rparr>) s
           in if r = - 1
              then end_pass y c (log3 ''warning: trouble reading '' (fname_chan (pass_id p) c) (''; will try again later'' @ [LF]) s)
              else if \<not> m then end_pass y c (set_job (pass_j p) (\<lambda>b. b\<lparr>flaghiteof := True\<rparr>) s)
              else pass_record y c line s))"

definition pass_dochan :: "sys \<Rightarrow> sconf \<Rightarrow> channel \<Rightarrow> send \<Rightarrow> send option" where
  "pass_dochan y conf c s =
     (if flagexitasap s then Some s
      else Option.bind (pass_open y conf c s) (\<lambda>(go, s).
           if \<not> go then Some s
           else if \<not> del_avail c s then Some s
           else pass_line y c s))"

section \<open>The end of a message\<close>

definition messdone_fail :: "sys \<Rightarrow> ulong \<Rightarrow> send \<Rightarrow> send option" where
  "messdone_fail y i s = put_done \<lparr>dt = clock y + SLEEP_SYSFAIL, id = i\<rparr> s"

definition later :: "char list \<Rightarrow> char list \<Rightarrow> send \<Rightarrow> send" where
  "later what name s = log3 what name (''; will try again later'' @ [LF]) s"

fun messdone_chans :: "sys \<Rightarrow> ulong \<Rightarrow> channel list \<Rightarrow> send \<Rightarrow> stat \<times> send" where
  "messdone_chans y i [] s = (Noent, s)"
| "messdone_chans y i (c # cs) s =
     (case stat y (Stat_chan c) (fchan (qf s i) c \<noteq> None) of
        Exists \<Rightarrow> (Exists, s)
      | Failed \<Rightarrow> (Failed, later ''warning: unable to stat '' (fname_chan i c) s)
      | Noent \<Rightarrow> messdone_chans y i cs s)"

definition messdone :: "sys \<Rightarrow> sconf \<Rightarrow> ulong \<Rightarrow> send \<Rightarrow> send option" where
  "messdone y conf i s =
     (case messdone_chans y i channels s of
        (Exists, s) \<Rightarrow> Some s
      | (Failed, s) \<Rightarrow> messdone_fail y i s
      | (Noent, s) \<Rightarrow>
         (case stat y Stat_todo (ftodo (qf s i)) of
            Exists \<Rightarrow> Some s
          | Failed \<Rightarrow> messdone_fail y i (later ''warning: unable to stat '' (fname_todo i) s)
          | Noent \<Rightarrow>
             (case stat y Stat_info (finfo (qf s i) \<noteq> None) of
                Noent \<Rightarrow> Some s
              | Failed \<Rightarrow> messdone_fail y i (later ''warning: unable to stat '' (fname_info i) s)
              | Exists \<Rightarrow>
                  Option.bind (injectbounce y (bounce conf) i s) (\<lambda>(go, s).
                  if \<not> go then messdone_fail y i s
                  else let s = log3 ''end msg '' (num i) [LF] s in
                  if denied y Remove_info then messdone_fail y i (later ''warning: unable to unlink '' (fname_info i) s)
                  else Some (ask_foop y i (set_file i (\<lambda>f. f\<lparr>finfo := None\<rparr>) s))))))"

definition take_fail :: "sys \<Rightarrow> send \<Rightarrow> send option" where
  "take_fail y s =
     (case prioq_min (pqfail s) of
        None \<Rightarrow> Some s
      | Some pe \<Rightarrow> (if dt pe \<le> recent s then pqadd y (Prioq.id pe) (s\<lparr>pqfail := prioq_delmin (pqfail s)\<rparr>) else Some s))"

definition take_done :: "sys \<Rightarrow> sconf \<Rightarrow> send \<Rightarrow> send option" where
  "take_done y conf s =
     (case prioq_min (pqdone s) of
        None \<Rightarrow> Some s
      | Some pe \<Rightarrow> (if dt pe \<le> recent s then messdone y conf (Prioq.id pe) (s\<lparr>pqdone := prioq_delmin (pqdone s)\<rparr>) else Some s))"

definition pass_do :: "(nat \<Rightarrow> sys) \<Rightarrow> sconf \<Rightarrow> send \<Rightarrow> send option" where
  "pass_do env conf s =
     Option.bind (pass_dochan (env 0) conf Local s) (\<lambda>s.
     Option.bind (pass_dochan (env 1) conf Remote s) (\<lambda>s.
     Option.bind (take_fail (env 2) s) (take_done (env 3) conf)))"

section \<open>New messages\<close>

definition tododied :: "send \<Rightarrow> send" where
  "tododied s = (log1 (''alert: oh no! lost qmail-todo connection! dying...'' @ [LF]) s)\<lparr>flagexitasap := True, flagtodoalive := False\<rparr>"

definition flagged :: "char \<Rightarrow> channel list option" where
  "flagged ch =
     (if ch = CHR ''L'' then Some [Local]
      else if ch = CHR ''R'' then Some [Remote]
      else if ch = CHR ''B'' then Some [Local, Remote]
      else if ch = CHR ''X'' then Some []
      else None)"

definition todo_del :: "sys \<Rightarrow> char list \<Rightarrow> send \<Rightarrow> send option" where
  "todo_del y x s =
     (case flagged (char_at x 0) of
        None \<Rightarrow> Some (log1 (''warning: qmail-send unable to understand qmail-todo'' @ [LF]) s)
      | Some cs \<Rightarrow>
          (let x = tl x; (n, i) = scan_ulong x in
           if n = 0 \<or> char_at x n \<noteq> NUL then Some (log1 (''warning: qmail-send unable to understand qmail-todo'' @ [LF]) s)
           else let pe = \<lparr>dt = clock y, id = i\<rparr> in
                Option.bind (put_chans (\<lambda>_. pe) cs s) (\<lambda>s. if cs = [] then put_done pe s else Some s)))"

definition todo_record :: "sys \<Rightarrow> char list \<Rightarrow> send \<Rightarrow> send option" where
  "todo_record y line s =
     (if char_at line 0 = CHR ''D'' then (if flagexitasap s then Some s else todo_del y (tl line) s)
      else if char_at line 0 = CHR ''L'' then Some (log1 (tl line) s)
      else if char_at line 0 = CHR ''X'' then Some (if flagexitasap s then s\<lparr>flagtodoalive := False\<rparr> else tododied s)
      else Some (log1 (''warning: qmail-send unable to understand qmail-todo: report mangled'' @ [LF]) s))"

definition todo_byte :: "sys \<Rightarrow> char \<Rightarrow> send \<Rightarrow> send option" where
  "todo_byte y ch s =
     (let line = take REPORTMAX (todoline s @ [ch]) in
      if ch = NUL \<and> length line > 1
      then Option.bind (todo_record y line (s\<lparr>todoline := line\<rparr>)) (\<lambda>s. Some (s\<lparr>todoline := []\<rparr>))
      else Some (s\<lparr>todoline := line\<rparr>))"

fun todo_bytes :: "(nat \<Rightarrow> sys) \<Rightarrow> char list \<Rightarrow> send \<Rightarrow> send option" where
  "todo_bytes env [] s = Some s"
| "todo_bytes env (ch # cs) s = Option.bind (todo_byte (env 0) ch s) (todo_bytes (\<lambda>n. env (Suc n)) cs)"

definition todo_do :: "(nat \<Rightarrow> sys) \<Rightarrow> bool \<Rightarrow> rd \<Rightarrow> send \<Rightarrow> send option" where
  "todo_do env isset r s =
     (if \<not> flagtodoalive s then Some s
      else if \<not> isset then Some s
      else case r of
             Got bs \<Rightarrow> (if bs = [] then Some (if flagexitasap s then s\<lparr>flagtodoalive := False\<rparr> else tododied s) else todo_bytes env bs s)
           | _ \<Rightarrow> Some s)"

section \<open>Cleanups\<close>

definition cleanup_do :: "sys \<Rightarrow> (nat \<Rightarrow> char list list) \<Rightarrow> send \<Rightarrow> send" where
  "cleanup_do y opendir s =
     (if \<not> flagcleanup s \<and> recent s < cleanuptime s then s
      else let s = (if \<not> flagcleanup s then s\<lparr>cleanupdir := readsubdir_init ''mess'', flagcleanup := True\<rparr> else s);
               (x, i, rs) = readsubdir_next opendir (cleanupdir s); s = s\<lparr>cleanupdir := rs\<rparr>
           in if x = 0 then s\<lparr>flagcleanup := False, cleanuptime := recent s + SLEEP_CLEANUP\<rparr>
              else if x \<noteq> 1 then s
              else if stat y Atime_mess (fmess (qf s i) \<noteq> None) \<noteq> Exists then s
              else if recent s \<le> fmess_atime (qf s i) + SEND_OSSIFIED then s
              else if stat y Stat_info (finfo (qf s i) \<noteq> None) \<noteq> Noent then s
              else if stat y Stat_todo (ftodo (qf s i)) \<noteq> Noent then s
              else ask_foop y i s)"

section \<open>The main loop\<close>

text \<open>What happens between two calls of \<open>select\<close>. \<open>ready\<close> and \<open>wrote\<close> tell how the writes to the delivery programs go, \<open>reports\<close> and
  \<open>todo_notes\<close> what is read.\<close>

record round =
  times :: "int \<times> int"
  alarmed :: bool
  reread_vdoms :: "built option"
  select_ok :: bool
  wready :: "channel \<Rightarrow> bool"
  wrote :: "channel \<Rightarrow> int \<times> bool"
  rready :: "channel \<Rightarrow> bool"
  reports :: "channel \<Rightarrow> rd"
  todo_notes :: "bool \<times> rd"
  env_del :: "channel \<Rightarrow> nat \<Rightarrow> sys"
  env_todo :: "nat \<Rightarrow> sys"
  env_pass :: "nat \<Rightarrow> sys"
  env_clean :: sys
  mess_dir :: "nat \<Rightarrow> char list list"

definition del_do :: "round \<Rightarrow> channel \<Rightarrow> send \<Rightarrow> send option" where
  "del_do w c s = (if flagspawnalive s c \<and> rready w c then del_dochan (env_del w c) c (reports w c) s else Some s)"

definition before_select :: "round \<Rightarrow> send \<Rightarrow> send" where
  "before_select w s =
     (let s = s\<lparr>recent := fst (times w)\<rparr>;
          s = (if alarmed w then pqrun s else s)
      in case reread_vdoms w of None \<Rightarrow> s | Some t \<Rightarrow> s\<lparr>vdoms := t\<rparr>)"

definition main_round :: "round \<Rightarrow> sconf \<Rightarrow> send \<Rightarrow> send option" where
  "main_round w conf s =
     (let s = before_select w s in
      if \<not> select_ok w then Some s
      else let s = s\<lparr>recent := snd (times w)\<rparr>;
               s = fold (\<lambda>c. comm_do c (wready w c) (fst (wrote w c)) (snd (wrote w c))) channels s
           in Option.bind (del_do w Local s) (\<lambda>s.
              Option.bind (del_do w Remote s) (\<lambda>s.
              Option.bind (todo_do (env_todo w) (fst (todo_notes w)) (snd (todo_notes w)) s) (\<lambda>s.
              Option.bind (pass_do (env_pass w) conf s) (\<lambda>s. Some (cleanup_do (env_clean w) (mess_dir w) s))))))"

text \<open>The condition of the loop.\<close>

definition may_exit :: "send \<Rightarrow> bool" where
  "may_exit s = (flagexitasap s \<and> del_canexit s \<and> \<not> flagtodoalive s)"

text \<open>The variables of a new process, and what it does before its first \<open>select\<close>; \<open>conc\<close> is what the control files and the delivery programs allow.\<close>

definition send_init :: "(channel \<Rightarrow> nat) \<Rightarrow> built \<Rightarrow> int \<Rightarrow> (ulong \<Rightarrow> mfiles) \<Rightarrow> (ulong \<Rightarrow> event list) \<Rightarrow> send" where
  "send_init conc t now fs st =
     \<lparr>qf = fs, story = st, pqdone = \<lparr>field = None, len = 0, a = 0\<rparr>, pqchan = (\<lambda>_. \<lparr>field = None, len = 0, a = 0\<rparr>),
       pqfail = \<lparr>field = None, len = 0, a = 0\<rparr>,
       jo = replicate (conc Local + conc Remote) \<lparr>refs = 0, jid = 0, jchannel = Local, jretry = 0, jsender = [], numtodo = 0, flaghiteof = False, flagdying = False\<rparr>,
       dels = (\<lambda>c. replicate (conc c) \<lparr>used = False, dj = 0, delid = 0, mpos = 0, recip = []\<rparr>), masterdelid = 1, concurrencyused = (\<lambda>_. 0),
       dline = (\<lambda>_. []), spawn_buf = (\<lambda>_. []), spawn_pos = (\<lambda>_. 0), spawn_sent = (\<lambda>_. []), flagspawnalive = (\<lambda>_. True), flagexitasap = False,
       pass = (\<lambda>_. \<lparr>pass_id = 0, pass_j = 0, pass_mpos = 0, pass_ss = open_file\<rparr>), vdoms = t, todoline = [], flagtodoalive = True, recent = 0,
       flagcleanup = False, cleanuptime = now, cleanupdir = readsubdir_init ''mess'', logtext = []\<rparr>"

definition send_start :: "(nat \<Rightarrow> sys) \<Rightarrow> (nat \<Rightarrow> char list list) \<Rightarrow> send \<Rightarrow> send option" where
  "send_start env opendir s = map_option del_status (pqstart env opendir s)"

end
