(* ===== verification/Ledger.thy ===== *)
theory Ledger
  imports Manager "HOL-Library.Sublist"
begin

text \<open>
  The queue manager loses no recipient. The invariant of \<open>Manager\<close> has six parts: the priority queues are heaps; each message is held in
  one place (\<open>hold_ok\<close>); the files of a message show what has happened to it (\<open>files_ok\<close>); a job counts its references (\<open>refs_ok\<close>) and
  its recipients (\<open>jobs_ok\<close>); a pass reads its file record by record (\<open>pass_ok\<close>). Each operation is shown to keep it, for any behaviour of
  the outside world. The step relation at the end adds what the other programs do.
\<close>

section \<open>Recipients\<close>

text \<open>The records of a channel file begin where a NUL ends; a recipient is a record with a \<open>T\<close>.\<close>

definition starts :: "char list \<Rightarrow> nat set" where
  "starts u = {p. p < length u \<and> (p = 0 \<or> u ! (p - 1) = NUL)}"

definition open_at :: "char list \<Rightarrow> nat set" where
  "open_at u = {p \<in> starts u. u ! p = CHR ''T''}"

definition whole :: "char list \<Rightarrow> bool" where
  "whole u \<longleftrightarrow> u = [] \<or> last u = NUL"

definition answered :: "event list \<Rightarrow> channel \<Rightarrow> nat set" where
  "answered es c = {p. Delivered c p \<in> set es \<or> (\<exists>t. Bounced c p t \<in> set es)}"

text \<open>The file that began as \<open>u\<close> and in which some of the recipients in \<open>A\<close> have been marked.\<close>

definition marked :: "char list \<Rightarrow> nat set \<Rightarrow> char list \<Rightarrow> bool" where
  "marked u A x \<longleftrightarrow> length x = length u \<and> (\<forall>p < length u. x ! p = u ! p \<or> p \<in> open_at u \<and> p \<in> A \<and> x ! p = CHR ''D'')"

definition sent_off :: "event list \<Rightarrow> char list \<Rightarrow> bool" where
  "sent_off es t \<longleftrightarrow> (\<exists>m v. Injected m v \<in> set es \<and> sublist t m) \<or> (\<exists>x. Discarded x \<in> set es \<and> sublist t x)"

lemma open_at_less: "p \<in> open_at u \<Longrightarrow> p < length u"
  by (simp add: open_at_def starts_def)

lemma finite_open_at [simp]: "finite (open_at u)"
  by (rule finite_subset [of _ "{..<length u}"]) (auto dest: open_at_less)

lemma answered_Cons:
  "answered (Delivered c p # es) d = (if c = d then insert p (answered es d) else answered es d)"
  "answered (Bounced c p t # es) d = (if c = d then insert p (answered es d) else answered es d)"
  "answered (Injected m v # es) d = answered es d" "answered (Discarded x # es) d = answered es d"
  by (auto simp: answered_def)

lemma marked_mono: "marked u A x \<Longrightarrow> A \<subseteq> B \<Longrightarrow> marked u B x"
  by (auto simp: marked_def)

lemma marked_refl: "marked u A u"
  by (simp add: marked_def)

text \<open>Marks keep the ends of the records.\<close>

lemma marked_starts:
  assumes "marked u A x" "p < length u"
  shows "x ! p = NUL \<longleftrightarrow> u ! p = NUL"
  using assms by (auto simp: marked_def open_at_def)

lemma marked_open:
  assumes "marked u A x" "p < length u" "p = 0 \<or> x ! (p - 1) = NUL" "x ! p = CHR ''T''"
  shows "p \<in> open_at u"
proof -
  have "p = 0 \<or> u ! (p - 1) = NUL" using assms(3) marked_starts [OF assms(1), of "p - 1"] assms(2) by auto
  moreover have "u ! p = CHR ''T''" using assms(1,2,4) by (auto simp: marked_def)
  ultimately show ?thesis using assms(2) by (simp add: open_at_def starts_def)
qed

lemma marked_answered:
  assumes "marked u A x" "p \<in> open_at u" "x ! p \<noteq> CHR ''T''"
  shows "p \<in> A"
  using assms open_at_less [OF assms(2)] by (auto simp: marked_def open_at_def)

lemma marked_poke:
  assumes "marked u A x" "p \<in> open_at u" "p \<in> A"
  shows "marked u A (poke x p (CHR ''D''))"
  using assms open_at_less [OF assms(2)] by (auto simp: marked_def poke_def nth_list_update)

lemma poke_inside: "marked u A x \<Longrightarrow> p \<in> open_at u \<Longrightarrow> poke x p ch = x[p := ch]"
  by (auto simp: marked_def poke_def dest: open_at_less)

section \<open>Lists and queues\<close>

lemma filter_update:
  "n < length xs \<Longrightarrow> length (filter P (xs[n := x])) + (if P (xs ! n) then 1 else 0) = length (filter P xs) + (if P x then 1 else 0)"
proof (induction xs arbitrary: n)
  case (Cons y ys)
  then show ?case by (cases n) auto
qed simp

lemma nth_update: "xs[j := b] ! k = (if k = j \<and> j < length xs then b else xs ! k)"
  by (cases "j < length xs") (auto simp: nth_list_update list_update_beyond)

lemma pqput_ok:
  assumes "pqput pq pe = Some pq'" "prioq_inv pq"
  shows "prioq_inv pq'" "prioq_bag pq' = add_mset pe (prioq_bag pq)"
proof -
  have s: "size (prioq_bag pq) \<le> unat (len pq)" by (simp add: prioq_bag_def ga_list_def split: option.split)
  have f: "prioq_fits (Suc (unat (len pq)))" using assms(1) by (simp add: pqput_def split: if_split_asm)
  then have "prioq_fits (Suc (size (prioq_bag pq)))"
  proof -
    let ?b = "unat (100 :: 32 word)" let ?z = "unat sizeof_prioq_elt"
    have "?b + Suc (size (prioq_bag pq)) + Suc (size (prioq_bag pq)) div 8 \<le> ?b + Suc (unat (len pq)) + Suc (unat (len pq)) div 8"
      using s div_le_mono [of "Suc (size (prioq_bag pq))" "Suc (unat (len pq))" 8] by linarith
    then have "(?b + Suc (size (prioq_bag pq)) + Suc (size (prioq_bag pq)) div 8) * ?z \<le> (?b + Suc (unat (len pq)) + Suc (unat (len pq)) div 8) * ?z"
      by (rule mult_le_mono1)
    then show ?thesis using f unfolding prioq_fits_def ga_room_def by linarith
  qed
  from prioq_insert_ok [OF assms(2) this, of "\<lambda>_. True" pe pe] f assms(1)
  show "prioq_inv pq'" "prioq_bag pq' = add_mset pe (prioq_bag pq)"
    by (auto simp: pqput_def split: if_split_asm)
qed

definition pq_count :: "prioq \<Rightarrow> ulong \<Rightarrow> nat" where
  "pq_count pq i = count (image_mset Prioq.id (prioq_bag pq)) i"

lemma pq_count_put: "pqput pq pe = Some pq' \<Longrightarrow> prioq_inv pq \<Longrightarrow> pq_count pq' i = pq_count pq i + (if Prioq.id pe = i then 1 else 0)"
  by (simp add: pq_count_def pqput_ok)

lemma pq_min_del:
  assumes "prioq_inv pq" "prioq_min pq = Some pe"
  shows "prioq_inv (prioq_delmin pq)" "pq_count pq i = pq_count (prioq_delmin pq) i + (if Prioq.id pe = i then 1 else 0)"
proof -
  have m: "pe \<in># prioq_bag pq" using prioq_min_ok [OF assms(1)] assms(2) by blast
  have d: "prioq_inv (prioq_delmin pq)" "prioq_bag (prioq_delmin pq) = prioq_bag pq - {#pe#}"
    using prioq_delmin_ok [OF assms(1)] assms(2) by auto
  then show "prioq_inv (prioq_delmin pq)" by simp
  have "prioq_bag pq = add_mset pe (prioq_bag (prioq_delmin pq))" using m d(2) by simp
  then show "pq_count pq i = pq_count (prioq_delmin pq) i + (if Prioq.id pe = i then 1 else 0)"
    unfolding pq_count_def by simp
qed


section \<open>The invariant\<close>

definition active :: "mfiles \<Rightarrow> bool" where
  "active f \<longleftrightarrow> finfo f \<noteq> None \<and> \<not> ftodo f"

text \<open>\<open>u\<close> is what the channel files were when the message came.\<close>

definition chan_ok :: "char list \<Rightarrow> nat set \<Rightarrow> bool \<Rightarrow> char list option \<Rightarrow> bool" where
  "chan_ok u A info x \<longleftrightarrow> whole u \<and> (case x of Some x \<Rightarrow> info \<and> marked u A x | None \<Rightarrow> open_at u \<subseteq> A)"

definition file_ok :: "(channel \<Rightarrow> char list) \<Rightarrow> event list \<Rightarrow> mfiles \<Rightarrow> bool" where
  "file_ok u es f \<longleftrightarrow> (finfo f \<noteq> None \<or> ftodo f \<longrightarrow> fmess f \<noteq> None) \<and> (\<not> ftodo f \<longrightarrow>
     (\<forall>c. chan_ok (u c) (answered es c) (finfo f \<noteq> None) (fchan f c)) \<and>
     (\<forall>c p t. Bounced c p t \<in> set es \<longrightarrow> sent_off es t \<or> finfo f \<noteq> None \<and> (\<exists>x. fbounce f = Some x \<and> sublist t x)))"

definition files_ok :: "(ulong \<Rightarrow> channel \<Rightarrow> char list) \<Rightarrow> (ulong \<Rightarrow> event list) \<Rightarrow> (ulong \<Rightarrow> mfiles) \<Rightarrow> bool" where
  "files_ok arr st fs \<longleftrightarrow> \<not> active (fs 0) \<and> (\<forall>i. file_ok (arr i) (st i) (fs i))"

definition pqs_ok :: "(channel \<Rightarrow> prioq) \<Rightarrow> prioq \<Rightarrow> prioq \<Rightarrow> bool" where
  "pqs_ok pc pd pf \<longleftrightarrow> (\<forall>c. prioq_inv (pc c)) \<and> prioq_inv pd \<and> prioq_inv pf"

text \<open>A message waits for a channel, or has a job there, or is to be examined again, or has been announced; \<open>pend\<close> are the announcements that
  have not been read.\<close>

definition in_jobs :: "job list \<Rightarrow> channel \<Rightarrow> ulong \<Rightarrow> nat" where
  "in_jobs js c i = length (filter (\<lambda>b. refs b > 0 \<and> jid b = i \<and> jchannel b = c) js)"

definition in_pend :: "(ulong \<times> channel list) list \<Rightarrow> channel \<Rightarrow> ulong \<Rightarrow> nat" where
  "in_pend pend c i = length (filter (\<lambda>n. fst n = i \<and> c \<in> set (snd n)) pend)"

definition held :: "(ulong \<times> channel list) list \<Rightarrow> (channel \<Rightarrow> prioq) \<Rightarrow> prioq \<Rightarrow> job list \<Rightarrow> channel \<Rightarrow> ulong \<Rightarrow> nat" where
  "held pend pc pf js c i = pq_count (pc c) i + in_jobs js c i + pq_count pf i + in_pend pend c i"

definition hold_ok :: "(ulong \<times> channel list) list \<Rightarrow> (channel \<Rightarrow> prioq) \<Rightarrow> prioq \<Rightarrow> job list \<Rightarrow> (ulong \<Rightarrow> mfiles) \<Rightarrow> bool" where
  "hold_ok pend pc pf js fs \<longleftrightarrow> (\<forall>c i. held pend pc pf js c i \<le> 1 \<and>
     (0 < pq_count (pc c) i + in_jobs js c i + in_pend pend c i \<longrightarrow> active (fs i) \<and> fchan (fs i) c \<noteq> None)) \<and> (\<forall>n \<in> set pend. distinct (snd n))"

definition on_pass :: "(channel \<Rightarrow> pass) \<Rightarrow> channel \<Rightarrow> nat \<Rightarrow> bool" where
  "on_pass ps c j \<longleftrightarrow> pass_id (ps c) \<noteq> 0 \<and> pass_j (ps c) = j"

definition dels_of :: "del list \<Rightarrow> nat \<Rightarrow> del list" where
  "dels_of ds j = filter (\<lambda>d. used d \<and> dj d = j) ds"

definition slots_ok :: "job list \<Rightarrow> (channel \<Rightarrow> del list) \<Rightarrow> (channel \<Rightarrow> nat) \<Rightarrow> (channel \<Rightarrow> pass) \<Rightarrow> bool" where
  "slots_ok js ds cu ps \<longleftrightarrow>
     (\<forall>c. \<forall>d \<in> set (ds c). used d \<longrightarrow> dj d < length js \<and> jchannel (js ! dj d) = c) \<and>
     (\<forall>c. cu c = length (filter used (ds c))) \<and>
     (\<forall>c. pass_id (ps c) \<noteq> 0 \<longrightarrow> pass_j (ps c) < length js \<and> jchannel (js ! pass_j (ps c)) = c \<and> jid (js ! pass_j (ps c)) = pass_id (ps c))"

text \<open>\<open>x\<close> counts references that are held by neither a delivery nor a pass.\<close>

definition refs_ok :: "(nat \<Rightarrow> nat) \<Rightarrow> job list \<Rightarrow> (channel \<Rightarrow> del list) \<Rightarrow> (channel \<Rightarrow> pass) \<Rightarrow> bool" where
  "refs_ok x js ds ps \<longleftrightarrow> (\<forall>j < length js. refs (js ! j) =
     int (length (dels_of (ds (jchannel (js ! j))) j) + (if on_pass ps (jchannel (js ! j)) j then 1 else 0) + x j))"

definition reads :: "char list \<Rightarrow> pass \<Rightarrow> bool" where
  "reads x p \<longleftrightarrow> in_inv (pass_ss p) \<and> in_stream (\<lambda>off. drop off x) (pass_ss p) = drop (pass_mpos p) x \<and> pass_mpos p \<le> length x \<and>
     (pass_mpos p = 0 \<or> x ! (pass_mpos p - 1) = NUL)"

definition pass_ok :: "(ulong \<Rightarrow> mfiles) \<Rightarrow> (channel \<Rightarrow> pass) \<Rightarrow> bool" where
  "pass_ok fs ps \<longleftrightarrow> (\<forall>c. pass_id (ps c) \<noteq> 0 \<longrightarrow> reads (case_option [] (\<lambda>x. x) (fchan (fs (pass_id (ps c))) c)) (ps c))"

text \<open>\<open>T\<close> are the recipients that the job has read and that have not been answered since, \<open>lim\<close> is how far it has read.\<close>

definition job_limit :: "char list \<Rightarrow> (channel \<Rightarrow> pass) \<Rightarrow> nat \<Rightarrow> job \<Rightarrow> nat" where
  "job_limit u ps j b = (if on_pass ps (jchannel b) j then pass_mpos (ps (jchannel b)) else if flaghiteof b then length u else 0)"

definition job_ok :: "char list \<Rightarrow> nat set \<Rightarrow> nat set \<Rightarrow> nat \<Rightarrow> nat list \<Rightarrow> job \<Rightarrow> bool" where
  "job_ok u A T lim ms b \<longleftrightarrow> numtodo b = int (card T) \<and> T \<subseteq> open_at u \<and> (\<forall>p \<in> open_at u. p < lim \<longrightarrow> p \<in> T \<or> p \<in> A) \<and> distinct ms \<and> set ms \<subseteq> T"

definition job_good :: "(ulong \<Rightarrow> channel \<Rightarrow> char list) \<Rightarrow> (ulong \<Rightarrow> event list) \<Rightarrow> nat set \<Rightarrow> (channel \<Rightarrow> del list) \<Rightarrow> (channel \<Rightarrow> pass) \<Rightarrow> nat \<Rightarrow> job \<Rightarrow> bool" where
  "job_good arr st P ds ps j b \<longleftrightarrow>
     (let c = jchannel b; u = arr (jid b) c in
      job_ok u (answered (st (jid b)) c) P (job_limit u ps j b) (map mpos (dels_of (ds c) j)) b \<and>
      (on_pass ps c j \<longrightarrow> P \<subseteq> {..<pass_mpos (ps c)} \<and> \<not> flaghiteof b))"

definition jobs_ok :: "(ulong \<Rightarrow> channel \<Rightarrow> char list) \<Rightarrow> (ulong \<Rightarrow> event list) \<Rightarrow> (nat \<Rightarrow> nat set) \<Rightarrow> job list \<Rightarrow> (channel \<Rightarrow> del list) \<Rightarrow> (channel \<Rightarrow> pass) \<Rightarrow> bool" where
  "jobs_ok arr st T js ds ps \<longleftrightarrow> (\<forall>j < length js. 0 < refs (js ! j) \<longrightarrow> job_good arr st (T j) ds ps j (js ! j))"

definition inv :: "(ulong \<Rightarrow> channel \<Rightarrow> char list) \<Rightarrow> (ulong \<times> channel list) list \<Rightarrow> (nat \<Rightarrow> nat) \<Rightarrow> (nat \<Rightarrow> nat set) \<Rightarrow> send \<Rightarrow> bool" where
  "inv arr pend x T s \<longleftrightarrow> pqs_ok (pqchan s) (pqdone s) (pqfail s) \<and> hold_ok pend (pqchan s) (pqfail s) (jo s) (qf s) \<and> files_ok arr (story s) (qf s) \<and>
     slots_ok (jo s) (dels s) (concurrencyused s) (pass s) \<and> refs_ok x (jo s) (dels s) (pass s) \<and> pass_ok (qf s) (pass s) \<and>
     jobs_ok arr (story s) T (jo s) (dels s) (pass s)"

lemma invI:
  assumes "pqs_ok (pqchan s) (pqdone s) (pqfail s)" "hold_ok pend (pqchan s) (pqfail s) (jo s) (qf s)" "files_ok arr (story s) (qf s)"
    "slots_ok (jo s) (dels s) (concurrencyused s) (pass s)" "refs_ok x (jo s) (dels s) (pass s)" "pass_ok (qf s) (pass s)"
    "jobs_ok arr (story s) T (jo s) (dels s) (pass s)"
  shows "inv arr pend x T s"
  using assms by (simp add: inv_def)

lemma invD:
  assumes "inv arr pend x T s"
  shows "pqs_ok (pqchan s) (pqdone s) (pqfail s)" "hold_ok pend (pqchan s) (pqfail s) (jo s) (qf s)" "files_ok arr (story s) (qf s)"
    "slots_ok (jo s) (dels s) (concurrencyused s) (pass s)" "refs_ok x (jo s) (dels s) (pass s)" "pass_ok (qf s) (pass s)"
    "jobs_ok arr (story s) T (jo s) (dels s) (pass s)"
  using assms by (simp_all add: inv_def)

text \<open>Nothing else in the state matters.\<close>

named_theorems quiet \<open>operations on the state that the invariant does not look at\<close>

lemma inv_same:
  assumes "inv arr pend x T s" "pqchan s' = pqchan s" "pqdone s' = pqdone s" "pqfail s' = pqfail s" "jo s' = jo s" "dels s' = dels s"
    "concurrencyused s' = concurrencyused s" "pass s' = pass s" "qf s' = qf s" "story s' = story s"
  shows "inv arr pend x T s'"
  using assms by (simp add: inv_def)

lemma inv_quiet [quiet]:
  "inv arr pend x T (log1 t s) = inv arr pend x T s" "inv arr pend x T (log2 t t2 s) = inv arr pend x T s"
  "inv arr pend x T (log3 t t2 t3 s) = inv arr pend x T s" "inv arr pend x T (s\<lparr>logtext := l\<rparr>) = inv arr pend x T s"
  "inv arr pend x T (s\<lparr>masterdelid := n\<rparr>) = inv arr pend x T s" "inv arr pend x T (s\<lparr>dline := dl\<rparr>) = inv arr pend x T s"
  "inv arr pend x T (s\<lparr>spawn_buf := sb\<rparr>) = inv arr pend x T s" "inv arr pend x T (s\<lparr>spawn_pos := spo\<rparr>) = inv arr pend x T s"
  "inv arr pend x T (s\<lparr>spawn_sent := ss\<rparr>) = inv arr pend x T s" "inv arr pend x T (s\<lparr>flagspawnalive := fa\<rparr>) = inv arr pend x T s"
  "inv arr pend x T (s\<lparr>flagexitasap := fe\<rparr>) = inv arr pend x T s" "inv arr pend x T (s\<lparr>vdoms := v\<rparr>) = inv arr pend x T s"
  "inv arr pend x T (s\<lparr>todoline := tl'\<rparr>) = inv arr pend x T s" "inv arr pend x T (s\<lparr>flagtodoalive := ft\<rparr>) = inv arr pend x T s"
  "inv arr pend x T (s\<lparr>recent := re\<rparr>) = inv arr pend x T s" "inv arr pend x T (s\<lparr>flagcleanup := fc\<rparr>) = inv arr pend x T s"
  "inv arr pend x T (s\<lparr>cleanuptime := ct\<rparr>) = inv arr pend x T s" "inv arr pend x T (s\<lparr>cleanupdir := cd\<rparr>) = inv arr pend x T s"
  by (simp_all add: inv_def log1_def log2_def log3_def)

declare quiet [simp]

lemma status_fields:
  "del_status s = s\<lparr>logtext := logtext (del_status s)\<rparr>"
  by (simp add: del_status_def status_chan_def log1_def log2_def Let_def channels_eq)

lemma inv_more [quiet, simp]:
  "inv arr pend x T (del_status s) = inv arr pend x T s" "inv arr pend x T (comm_write c n i sendr rcp s) = inv arr pend x T s"
  "inv arr pend x T (cleandied s) = inv arr pend x T s" "inv arr pend x T (spawndied c s) = inv arr pend x T s"
  "inv arr pend x T (tododied s) = inv arr pend x T s" "inv arr pend x T (later what name s) = inv arr pend x T s"
  "inv arr pend x T (report_logged nr what line s) = inv arr pend x T s"
  by (subst status_fields, simp) (simp_all add: comm_write_def cleandied_def spawndied_def Let_def tododied_def later_def report_logged_def)

lemma comm_do_inv: "inv arr pend x T (comm_do c isset w epipe s) = inv arr pend x T s"
  by (simp add: comm_do_def Let_def)


section \<open>Moving a message\<close>

lemma held_zero_iff: "held pend pc pf js c i = 0 \<longleftrightarrow> pq_count (pc c) i = 0 \<and> in_jobs js c i = 0 \<and> pq_count pf i = 0 \<and> in_pend pend c i = 0"
  by (simp add: held_def)

lemma held_le: "hold_ok pend pc pf js fs \<Longrightarrow> held pend pc pf js c i \<le> 1"
  by (simp add: hold_ok_def)

lemma held_active:
  "hold_ok pend pc pf js fs \<Longrightarrow> 0 < pq_count (pc c) i \<or> 0 < in_jobs js c i \<or> 0 < in_pend pend c i \<Longrightarrow> active (fs i) \<and> fchan (fs i) c \<noteq> None"
  by (auto simp: hold_ok_def)

lemma in_jobs_pos: "j < length js \<Longrightarrow> 0 < refs (js ! j) \<Longrightarrow> 0 < in_jobs js (jchannel (js ! j)) (jid (js ! j))"
  unfolding in_jobs_def by (simp add: filter_empty_conv) (metis nth_mem)

text \<open>\<open>hold_ok\<close> for other places with no more in them.\<close>

lemma hold_okI:
  assumes "hold_ok pend pc pf js fs"
    and "\<And>c i. held pend' pc' pf' js' c i \<le> held pend pc pf js c i \<or> held pend' pc' pf' js' c i \<le> 1"
    and "\<And>c i. 0 < pq_count (pc' c) i + in_jobs js' c i + in_pend pend' c i \<Longrightarrow>
      0 < pq_count (pc c) i + in_jobs js c i + in_pend pend c i \<or> active (fs i) \<and> fchan (fs i) c \<noteq> None"
    and "\<forall>n \<in> set pend'. distinct (snd n)"
  shows "hold_ok pend' pc' pf' js' fs"
  unfolding hold_ok_def
proof (intro conjI allI impI)
  fix c i
  show "held pend' pc' pf' js' c i \<le> 1" using assms(2) [of c i] held_le [OF assms(1), of c i] by linarith
  show "active (fs i)" "fchan (fs i) c \<noteq> None" if "0 < pq_count (pc' c) i + in_jobs js' c i + in_pend pend' c i"
    using assms(3) [OF that] assms(1) by (auto simp: hold_ok_def)
qed (rule assms(4))

lemma hold_distinct: "hold_ok pend pc pf js fs \<Longrightarrow> \<forall>n \<in> set pend. distinct (snd n)"
  by (simp add: hold_ok_def)

lemma put_chan_inv:
  assumes "inv arr pend x T s" "put_chan c pe s = Some s'" "held pend (pqchan s) (pqfail s) (jo s) c (Prioq.id pe) = 0"
    "active (qf s (Prioq.id pe))" "fchan (qf s (Prioq.id pe)) c \<noteq> None"
  shows "inv arr pend x T s'" "qf s' = qf s" "story s' = story s" "\<And>d i. d \<noteq> c \<or> i \<noteq> Prioq.id pe \<Longrightarrow>
    held pend (pqchan s') (pqfail s') (jo s') d i = held pend (pqchan s) (pqfail s) (jo s) d i"
proof -
  obtain pq where pq: "pqput (pqchan s c) pe = Some pq" "s' = s\<lparr>pqchan := (pqchan s)(c := pq)\<rparr>"
    using assms(2) by (auto simp: put_chan_def)
  note I = invD [OF assms(1)]
  have inv: "prioq_inv (pqchan s c)" using I(1) by (simp add: pqs_ok_def)
  have n: "pq_count (pq) i = pq_count (pqchan s c) i + (if Prioq.id pe = i then 1 else 0)" for i
    using pq_count_put [OF pq(1) inv] .
  have "pqs_ok ((pqchan s)(c := pq)) (pqdone s) (pqfail s)" using I(1) pqput_ok [OF pq(1) inv] by (simp add: pqs_ok_def)
  moreover have "hold_ok pend ((pqchan s)(c := pq)) (pqfail s) (jo s) (qf s)"
  proof (rule hold_okI [OF I(2)])
    fix d i
    show "held pend ((pqchan s)(c := pq)) (pqfail s) (jo s) d i \<le> held pend (pqchan s) (pqfail s) (jo s) d i \<or>
        held pend ((pqchan s)(c := pq)) (pqfail s) (jo s) d i \<le> 1"
      using assms(3) n by (auto simp: held_def)
    show "0 < pq_count (((pqchan s)(c := pq)) d) i + in_jobs (jo s) d i + in_pend pend d i \<Longrightarrow>
        0 < pq_count (pqchan s d) i + in_jobs (jo s) d i + in_pend pend d i \<or> active (qf s i) \<and> fchan (qf s i) d \<noteq> None"
      using assms(4,5) n by (auto split: if_split_asm)
  qed (rule hold_distinct [OF I(2)])
  ultimately show "inv arr pend x T s'" using I pq(2) by (simp add: inv_def)
  show "qf s' = qf s" "story s' = story s" using pq(2) by simp_all
  show "held pend (pqchan s') (pqfail s') (jo s') d i = held pend (pqchan s) (pqfail s) (jo s) d i" if "d \<noteq> c \<or> i \<noteq> Prioq.id pe" for d i
    using that n pq(2) by (auto simp: held_def)
qed

lemma put_done_inv:
  assumes "inv arr pend x T s" "put_done pe s = Some s'"
  shows "inv arr pend x T s'" "qf s' = qf s" "story s' = story s"
proof -
  obtain pq where pq: "pqput (pqdone s) pe = Some pq" "s' = s\<lparr>pqdone := pq\<rparr>" using assms(2) by (auto simp: put_done_def)
  note I = invD [OF assms(1)]
  have "prioq_inv pq" using I(1) pqput_ok [OF pq(1)] by (simp add: pqs_ok_def)
  then show "inv arr pend x T s'" using assms(1) pq(2) by (simp add: inv_def pqs_ok_def)
  show "qf s' = qf s" "story s' = story s" using pq(2) by simp_all
qed

lemma put_fail_inv:
  assumes "inv arr pend x T s" "put_fail pe s = Some s'" "\<And>c. held pend (pqchan s) (pqfail s) (jo s) c (Prioq.id pe) = 0"
  shows "inv arr pend x T s'" "qf s' = qf s" "story s' = story s"
    "\<And>d i. i \<noteq> Prioq.id pe \<Longrightarrow> held pend (pqchan s') (pqfail s') (jo s') d i = held pend (pqchan s) (pqfail s) (jo s) d i"
proof -
  obtain pq where pq: "pqput (pqfail s) pe = Some pq" "s' = s\<lparr>pqfail := pq\<rparr>" using assms(2) by (auto simp: put_fail_def)
  note I = invD [OF assms(1)]
  have inv: "prioq_inv (pqfail s)" using I(1) by (simp add: pqs_ok_def)
  have n: "pq_count pq i = pq_count (pqfail s) i + (if Prioq.id pe = i then 1 else 0)" for i using pq_count_put [OF pq(1) inv] .
  have "pqs_ok (pqchan s) (pqdone s) pq" using I(1) pqput_ok [OF pq(1) inv] by (simp add: pqs_ok_def)
  moreover have "hold_ok pend (pqchan s) pq (jo s) (qf s)"
  proof (rule hold_okI [OF I(2)])
    fix d i
    show "held pend (pqchan s) pq (jo s) d i \<le> held pend (pqchan s) (pqfail s) (jo s) d i \<or> held pend (pqchan s) pq (jo s) d i \<le> 1"
      using assms(3) [of d] n by (auto simp: held_def)
  qed (use hold_distinct [OF I(2)] in auto)
  ultimately show "inv arr pend x T s'" using I pq(2) by (simp add: inv_def)
  show "qf s' = qf s" "story s' = story s" using pq(2) by simp_all
  show "held pend (pqchan s') (pqfail s') (jo s') d i = held pend (pqchan s) (pqfail s) (jo s) d i" if "i \<noteq> Prioq.id pe" for d i
    using that n pq(2) by (auto simp: held_def)
qed

lemma set_job_fields [simp]:
  "qf (set_job j f s) = qf s" "story (set_job j f s) = story s" "pqdone (set_job j f s) = pqdone s" "pqchan (set_job j f s) = pqchan s"
  "pqfail (set_job j f s) = pqfail s" "jo (set_job j f s) = (jo s)[j := f (jo s ! j)]" "dels (set_job j f s) = dels s"
  "concurrencyused (set_job j f s) = concurrencyused s" "pass (set_job j f s) = pass s" "recent (set_job j f s) = recent s"
  by (simp_all add: set_job_def)

lemma slots_update:
  assumes "slots_ok js ds cu ps" "jid b = jid (js ! j)" "jchannel b = jchannel (js ! j)"
  shows "slots_ok (js[j := b]) ds cu ps"
proof -
  have "jchannel (js[j := b] ! k) = jchannel (js ! k) \<and> jid (js[j := b] ! k) = jid (js ! k)" for k
    using assms(2,3) by (cases "k = j"; cases "j < length js") (auto simp: list_update_beyond)
  then show ?thesis using assms(1) by (simp add: slots_ok_def)
qed

lemma refs_irrelevant [simp]: "job_good arr st P ds ps j (b\<lparr>refs := r\<rparr>) = job_good arr st P ds ps j b"
  by (simp add: job_good_def Let_def job_ok_def job_limit_def)

lemma jobs_update:
  "jobs_ok arr st T js ds ps \<Longrightarrow> (0 < refs b \<Longrightarrow> job_good arr st (T j) ds ps j b) \<Longrightarrow> jobs_ok arr st T (js[j := b]) ds ps"
  by (auto simp: jobs_ok_def nth_update)

lemma jobs_okD: "jobs_ok arr st T js ds ps \<Longrightarrow> j < length js \<Longrightarrow> 0 < refs (js ! j) \<Longrightarrow> job_good arr st (T j) ds ps j (js ! j)"
  by (simp add: jobs_ok_def)

lemma refs_update:
  assumes "refs_ok x js ds ps" "jchannel b = jchannel (js ! j)" "j < length js" "refs b = refs (js ! j) - int (x j) + int n"
  shows "refs_ok (x(j := n)) (js[j := b]) ds ps"
  unfolding refs_ok_def
proof (intro allI impI)
  fix k
  assume "k < length (js[j := b])"
  with assms show "refs (js[j := b] ! k) = int (length (dels_of (ds (jchannel (js[j := b] ! k))) k) + (if on_pass ps (jchannel (js[j := b] ! k)) k then 1 else 0) + (x(j := n)) k)"
    unfolding refs_ok_def by (cases "k = j") auto
qed

text \<open>A reference is given up.\<close>

lemma in_jobs_update:
  "j < length js \<Longrightarrow> in_jobs (js[j := b]) c i + (if refs (js ! j) > 0 \<and> jid (js ! j) = i \<and> jchannel (js ! j) = c then 1 else 0) =
     in_jobs js c i + (if refs b > 0 \<and> jid b = i \<and> jchannel b = c then 1 else 0)"
  unfolding in_jobs_def by (rule filter_update)

lemma drop_ref_inv:
  assumes "inv arr pend x T s" "j < length (jo s)" "0 < x j"
  shows "inv arr pend (x(j := x j - 1)) T (set_job j (\<lambda>b. b\<lparr>refs := refs b - 1\<rparr>) s)"
    and "refs (jo s ! j) = 1 \<Longrightarrow> held pend (pqchan s) (pqfail s) ((jo s)[j := (jo s ! j)\<lparr>refs := 0\<rparr>]) (jchannel (jo s ! j)) (jid (jo s ! j)) = 0"
    and "active (qf s (jid (jo s ! j)))" "fchan (qf s (jid (jo s ! j))) (jchannel (jo s ! j)) \<noteq> None"
proof -
  note I = invD [OF assms(1)]
  let ?x = "x(j := x j - 1)" let ?s = "set_job j (\<lambda>b. b\<lparr>refs := refs b - 1\<rparr>) s"
  let ?b = "(jo s ! j)\<lparr>refs := refs (jo s ! j) - 1\<rparr>"
  have pos: "0 < refs (jo s ! j)" using I(5) assms(2,3) by (auto simp: refs_ok_def)
  have n: "in_jobs ((jo s)[j := ?b]) c i \<le> in_jobs (jo s) c i" for c i using in_jobs_update [OF assms(2), of ?b c i] pos by (auto split: if_split_asm)
  have "hold_ok pend (pqchan s) (pqfail s) ((jo s)[j := ?b]) (qf s)"
  proof (rule hold_okI [OF I(2)])
    fix c i
    show "held pend (pqchan s) (pqfail s) ((jo s)[j := ?b]) c i \<le> held pend (pqchan s) (pqfail s) (jo s) c i \<or>
        held pend (pqchan s) (pqfail s) ((jo s)[j := ?b]) c i \<le> 1" using n by (simp add: held_def)
    show "0 < pq_count (pqchan s c) i + in_jobs ((jo s)[j := ?b]) c i + in_pend pend c i \<Longrightarrow>
        0 < pq_count (pqchan s c) i + in_jobs (jo s) c i + in_pend pend c i \<or> active (qf s i) \<and> fchan (qf s i) c \<noteq> None"
      using n [of c i] by linarith
  qed (rule hold_distinct [OF I(2)])
  moreover have "slots_ok ((jo s)[j := ?b]) (dels s) (concurrencyused s) (pass s)"
    using slots_update [OF I(4), of ?b] by simp
  moreover have "refs_ok ?x ((jo s)[j := ?b]) (dels s) (pass s)" using refs_update [OF I(5) _ assms(2), of ?b "x j - 1"] assms(3) by simp
  moreover have "jobs_ok arr (story s) T ((jo s)[j := ?b]) (dels s) (pass s)"
    using I(7) jobs_okD [OF I(7) assms(2) pos] by (intro jobs_update) simp_all
  ultimately show "inv arr pend ?x T ?s" using I by (simp add: inv_def)
  have p: "0 < in_jobs (jo s) (jchannel (jo s ! j)) (jid (jo s ! j))" using in_jobs_pos [OF assms(2) pos] .
  show "active (qf s (jid (jo s ! j)))" "fchan (qf s (jid (jo s ! j))) (jchannel (jo s ! j)) \<noteq> None"
    using held_active [OF I(2)] p by blast+
  show "refs (jo s ! j) = 1 \<Longrightarrow> held pend (pqchan s) (pqfail s) ((jo s)[j := (jo s ! j)\<lparr>refs := 0\<rparr>]) (jchannel (jo s ! j)) (jid (jo s ! j)) = 0"
    using p held_le [OF I(2), of "jchannel (jo s ! j)" "jid (jo s ! j)"] in_jobs_update [OF assms(2), of ?b "jchannel (jo s ! j)" "jid (jo s ! j)"]
    by (simp add: held_def)
qed


lemma pass_refs:
  assumes "slots_ok js ds cu ps" "refs_ok x js ds ps" "pass_id (ps c) \<noteq> 0"
  shows "pass_j (ps c) < length js" "0 < refs (js ! pass_j (ps c))" "jchannel (js ! pass_j (ps c)) = c" "jid (js ! pass_j (ps c)) = pass_id (ps c)"
    "on_pass ps c (pass_j (ps c))" "0 < in_jobs js c (pass_id (ps c))"
proof -
  show *: "pass_j (ps c) < length js" "jchannel (js ! pass_j (ps c)) = c" "jid (js ! pass_j (ps c)) = pass_id (ps c)" "on_pass ps c (pass_j (ps c))"
    using assms(1,3) by (auto simp: slots_ok_def on_pass_def)
  show **: "0 < refs (js ! pass_j (ps c))" using assms(2) * by (auto simp: refs_ok_def)
  show "0 < in_jobs js c (pass_id (ps c))" using in_jobs_pos [OF *(1) **] *(2,3) by simp
qed

lemma del_refs:
  assumes "slots_ok js ds cu ps" "refs_ok x js ds ps" "d \<in> set (ds c)" "used d"
  shows "dj d < length js" "0 < refs (js ! dj d)" "jchannel (js ! dj d) = c" "0 < in_jobs js c (jid (js ! dj d))" "d \<in> set (dels_of (ds c) (dj d))"
proof -
  show *: "dj d < length js" "jchannel (js ! dj d) = c" using assms(1,3,4) by (auto simp: slots_ok_def)
  show m: "d \<in> set (dels_of (ds c) (dj d))" using assms(3,4) by (simp add: dels_of_def)
  then have l: "0 < length (dels_of (ds c) (dj d))" by (cases "dels_of (ds c) (dj d)") auto
  have "int (length (dels_of (ds c) (dj d))) \<le> refs (js ! dj d)" using assms(2) * by (simp add: refs_ok_def)
  then show **: "0 < refs (js ! dj d)" using l by linarith
  show "0 < in_jobs js c (jid (js ! dj d))" using in_jobs_pos [OF *(1) **] *(2) by simp
qed

text \<open>Another state of the files of one message.\<close>

lemma set_file_fields [simp]:
  "qf (set_file i f s) = (qf s)(i := f (qf s i))" "story (set_file i f s) = story s" "pqdone (set_file i f s) = pqdone s" "pqchan (set_file i f s) = pqchan s"
  "pqfail (set_file i f s) = pqfail s" "jo (set_file i f s) = jo s" "dels (set_file i f s) = dels s"
  "concurrencyused (set_file i f s) = concurrencyused s" "pass (set_file i f s) = pass s" "recent (set_file i f s) = recent s"
  by (simp_all add: set_file_def)

lemma happened_fields [simp]:
  "qf (happened i e s) = qf s" "story (happened i e s) = (story s)(i := e # story s i)" "pqdone (happened i e s) = pqdone s" "pqchan (happened i e s) = pqchan s"
  "pqfail (happened i e s) = pqfail s" "jo (happened i e s) = jo s" "dels (happened i e s) = dels s"
  "concurrencyused (happened i e s) = concurrencyused s" "pass (happened i e s) = pass s" "recent (happened i e s) = recent s"
  by (simp_all add: happened_def)

lemma set_file_inv:
  assumes "inv arr pend x T s" "active (f (qf s i)) \<longleftrightarrow> active (qf s i)" "file_ok (arr i) (story s i) (f (qf s i))"
    and "\<And>c. 0 < pq_count (pqchan s c) i \<or> 0 < in_jobs (jo s) c i \<or> 0 < in_pend pend c i \<Longrightarrow> fchan (f (qf s i)) c \<noteq> None"
    and "\<And>c. pass_id (pass s c) = i \<Longrightarrow> 0 < in_jobs (jo s) c i \<Longrightarrow> reads (case_option [] (\<lambda>x. x) (fchan (f (qf s i)) c)) (pass s c)"
  shows "inv arr pend x T (set_file i f s)"
proof -
  note I = invD [OF assms(1)]
  have "hold_ok pend (pqchan s) (pqfail s) (jo s) ((qf s)(i := f (qf s i)))"
    using I(2) assms(2,4) unfolding hold_ok_def by auto
  moreover have "files_ok arr (story s) ((qf s)(i := f (qf s i)))" using I(3) assms(2,3) by (auto simp: files_ok_def)
  moreover have "pass_ok ((qf s)(i := f (qf s i))) (pass s)"
    using I(6) assms(5) pass_refs(6) [OF I(4,5)] unfolding pass_ok_def by auto
  ultimately show ?thesis using I by (simp add: inv_def)
qed

lemma unlink_chan_inv:
  assumes "inv arr pend x T s" "held pend (pqchan s) (pqfail s) (jo s) c i = 0" "open_at (arr i c) \<subseteq> answered (story s i) c"
  shows "inv arr pend x T (set_file i (\<lambda>f. f\<lparr>fchan := (fchan f)(c := None)\<rparr>) s)"
proof (rule set_file_inv [OF assms(1)])
  note I = invD [OF assms(1)]
  have z: "pq_count (pqchan s c) i = 0" "in_jobs (jo s) c i = 0" "in_pend pend c i = 0" using assms(2) by (simp_all add: held_zero_iff)
  show "active ((qf s i)\<lparr>fchan := (fchan (qf s i))(c := None)\<rparr>) \<longleftrightarrow> active (qf s i)" by (simp add: active_def)
  show "file_ok (arr i) (story s i) ((qf s i)\<lparr>fchan := (fchan (qf s i))(c := None)\<rparr>)"
    using I(3) assms(3) by (simp add: files_ok_def file_ok_def) (simp add: chan_ok_def)
  fix d
  show "fchan ((qf s i)\<lparr>fchan := (fchan (qf s i))(c := None)\<rparr>) d \<noteq> None"
    if "0 < pq_count (pqchan s d) i \<or> 0 < in_jobs (jo s) d i \<or> 0 < in_pend pend d i"
    using that z held_active [OF I(2) that] by (cases "d = c") auto
  show "reads (case_option [] (\<lambda>x. x) (fchan ((qf s i)\<lparr>fchan := (fchan (qf s i))(c := None)\<rparr>) d)) (pass s d)"
    if "pass_id (pass s d) = i" "0 < in_jobs (jo s) d i"
  proof -
    have "d \<noteq> c" using that z by auto
    moreover have "i \<noteq> 0" using held_active [OF I(2)] that(2) I(3) by (auto simp: files_ok_def)
    ultimately show ?thesis using I(6) that(1) by (auto simp: pass_ok_def)
  qed
qed

lemma log_fields [simp]:
  "qf (log1 t s) = qf s" "story (log1 t s) = story s" "pqdone (log1 t s) = pqdone s" "pqchan (log1 t s) = pqchan s" "pqfail (log1 t s) = pqfail s"
  "jo (log1 t s) = jo s" "dels (log1 t s) = dels s" "pass (log1 t s) = pass s" "recent (log1 t s) = recent s" "concurrencyused (log1 t s) = concurrencyused s"
  "vdoms (log1 t s) = vdoms s"
  by (simp_all add: log1_def)

lemma log3_fields [simp]:
  "qf (log3 t t2 t3 s) = qf s" "story (log3 t t2 t3 s) = story s" "pqdone (log3 t t2 t3 s) = pqdone s" "pqchan (log3 t t2 t3 s) = pqchan s" "pqfail (log3 t t2 t3 s) = pqfail s"
  "jo (log3 t t2 t3 s) = jo s" "dels (log3 t t2 t3 s) = dels s" "pass (log3 t t2 t3 s) = pass s" "recent (log3 t t2 t3 s) = recent s"
  "concurrencyused (log3 t t2 t3 s) = concurrencyused s" "vdoms (log3 t t2 t3 s) = vdoms s"
  by (simp_all add: log3_def)

lemma more_channels_inv: "inv arr pend x T s \<Longrightarrow> inv arr pend x T (snd (more_channels y i c0 cs s))"
  by (induction y i c0 cs s rule: more_channels.induct) (auto split: stat.split)

section \<open>Closing a job\<close>

lemma job_close_inv:
  assumes "inv arr pend x T s" "job_close y j s = Some s'" "j < length (jo s)" "0 < x j"
  shows "inv arr pend (x(j := x j - 1)) T s'"
proof -
  let ?s = "set_job j (\<lambda>b. b\<lparr>refs := refs b - 1\<rparr>) s" and ?x = "x(j := x j - 1)"
  let ?b = "jo s ! j" let ?i = "jid ?b" and ?c = "jchannel ?b"
  note I = invD [OF assms(1)]
  note D = drop_ref_inv [OF assms(1,3,4)]
  have b: "jo ?s ! j = ?b\<lparr>refs := refs ?b - 1\<rparr>" using assms(3) by simp
  have pos: "0 < refs ?b" using I(5) assms(3,4) by (auto simp: refs_ok_def)
  show ?thesis
  proof (cases "0 < refs ?b - 1")
    case True
    then have "s' = ?s" using assms(2,3) by (simp add: job_close_def Let_def)
    then show ?thesis using D(1) by simp
  next
    case False
    then have one: "refs ?b = 1" using pos by linarith
    have h: "held pend (pqchan ?s) (pqfail ?s) (jo ?s) ?c ?i = 0" using D(2) [OF one] one by simp
    have off: "\<not> on_pass (pass s) ?c j" "x j = 1" using I(5) assms(3,4) one unfolding refs_ok_def by (force split: if_split_asm)+
    have act: "active (qf ?s ?i)" "fchan (qf ?s ?i) ?c \<noteq> None" using D(3,4) by simp_all
    obtain content where content: "fchan (qf s ?i) ?c = Some content" using act(2) by auto
    have close: "job_close y j s =
      (if flaghiteof ?b \<and> numtodo ?b = 0
       then if denied y Remove_chan
            then put_chan ?c \<lparr>dt = clock y + SLEEP_SYSFAIL, id = ?i\<rparr> (log3 ''warning: unable to unlink '' (fname_chan ?i ?c) (''; will try again later'' @ [LF]) ?s)
            else case more_channels y ?i ?c channels (set_file ?i (\<lambda>f. f\<lparr>fchan := (fchan f)(?c := None)\<rparr>) ?s) of (going, s) \<Rightarrow>
              if going then Some s else put_done \<lparr>dt = clock y, id = ?i\<rparr> s
       else put_chan ?c \<lparr>dt = jretry ?b, id = ?i\<rparr> ?s)"
      using assms(3) one content by (simp add: job_close_def Let_def split: prod.split)
    show ?thesis
    proof (cases "flaghiteof ?b \<and> numtodo ?b = 0")
      case False
      then have "put_chan ?c \<lparr>dt = jretry ?b, id = ?i\<rparr> ?s = Some s'" using assms(2) close by (simp split: if_split_asm)
      from put_chan_inv(1) [OF D(1) this] h act show ?thesis by simp
    next
      case fin: True
      show ?thesis
      proof (cases "denied y Remove_chan")
        case True
        let ?l = "log3 ''warning: unable to unlink '' (fname_chan ?i ?c) (''; will try again later'' @ [LF]) ?s"
        have "put_chan ?c \<lparr>dt = clock y + SLEEP_SYSFAIL, id = ?i\<rparr> ?l = Some s'" "inv arr pend ?x T ?l" using assms(2) close fin True D(1) by simp_all
        from put_chan_inv(1) [OF this(2,1)] h act show ?thesis by simp
      next
        case False
        have "job_good arr (story s) (T j) (dels s) (pass s) j ?b" using jobs_okD [OF I(7) assms(3) pos] .
        then have ans: "open_at (arr ?i ?c) \<subseteq> answered (story s ?i) ?c"
          using fin off(1) finite_subset [OF _ finite_open_at] unfolding job_good_def Let_def job_ok_def job_limit_def
          by (auto dest: open_at_less)
        have u: "inv arr pend ?x T (set_file ?i (\<lambda>f. f\<lparr>fchan := (fchan f)(?c := None)\<rparr>) ?s)"
          using unlink_chan_inv [OF D(1) h] ans by simp
        obtain going t where m: "more_channels y ?i ?c channels (set_file ?i (\<lambda>f. f\<lparr>fchan := (fchan f)(?c := None)\<rparr>) ?s) = (going, t)" by fastforce
        then have t: "inv arr pend ?x T t" using more_channels_inv [OF u, of y ?i ?c channels] by simp
        have "(if going then Some t else put_done \<lparr>dt = clock y, id = ?i\<rparr> t) = Some s'" using assms(2) close fin False m by simp
        then show ?thesis using put_done_inv(1) [OF t] t by (auto split: if_split_asm)
      qed
    qed
  qed
qed


section \<open>A delivery ends\<close>

lemma dels_of_at:
  assumes "n < length ds"
  shows "dels_of (ds[n := d]) k = dels_of (take n ds) k @ (if used d \<and> dj d = k then [d] else []) @ dels_of (drop (Suc n) ds) k"
  using assms by (simp add: upd_conv_take_nth_drop dels_of_def)

lemma dels_of_nth:
  assumes "n < length ds"
  shows "dels_of ds k = dels_of (take n ds) k @ (if used (ds ! n) \<and> dj (ds ! n) = k then [ds ! n] else []) @ dels_of (drop (Suc n) ds) k"
  using dels_of_at [OF assms, of "ds ! n" k] by simp

lemma job_good_dels:
  assumes "job_good arr st P ds ps j b" "distinct (map mpos (dels_of (ds' (jchannel b)) j))" "mpos ` set (dels_of (ds' (jchannel b)) j) \<subseteq> P"
  shows "job_good arr st P ds' ps j b"
  using assms by (simp add: job_good_def Let_def job_ok_def)

lemma job_goodD:
  assumes "job_good arr st P ds ps j b"
  shows "distinct (map mpos (dels_of (ds (jchannel b)) j))" "mpos ` set (dels_of (ds (jchannel b)) j) \<subseteq> P" "numtodo b = int (card P)"
    "P \<subseteq> open_at (arr (jid b) (jchannel b))" "on_pass ps (jchannel b) j \<Longrightarrow> P \<subseteq> {..<pass_mpos (ps (jchannel b))} \<and> \<not> flaghiteof b"
    "finite P"
  using assms by (auto simp: job_good_def Let_def job_ok_def intro: finite_subset [OF _ finite_open_at])

lemma del_free_fields [simp]:
  "qf (del_free c n s) = qf s" "story (del_free c n s) = story s" "pqdone (del_free c n s) = pqdone s" "pqchan (del_free c n s) = pqchan s"
  "pqfail (del_free c n s) = pqfail s" "jo (del_free c n s) = jo s" "pass (del_free c n s) = pass s" "recent (del_free c n s) = recent s" "vdoms (del_free c n s) = vdoms s"
  by (simp_all add: del_free_def)

lemma del_free_inv:
  assumes "inv arr pend x T s" "n < length (dels s c)" "used (dels s c ! n)"
  defines "d \<equiv> dels s c ! n"
  shows "inv arr pend (x(dj d := x (dj d) + 1)) T (del_free c n s)"
    and "mpos d \<in> T (dj d)" "mpos d \<notin> mpos ` set (dels_of (dels (del_free c n s) c) (dj d))"
    and "dj d < length (jo s)" "0 < refs (jo s ! dj d)" "jchannel (jo s ! dj d) = c"
proof -
  note I = invD [OF assms(1)]
  have d: "d \<in> set (dels s c)" "used d" using assms(2,3) by (simp_all add: d_def)
  note R = del_refs [where c = c, OF I(4,5) d]
  show "dj d < length (jo s)" "0 < refs (jo s ! dj d)" "jchannel (jo s ! dj d) = c" by (rule R)+
  let ?D = "(dels s)(c := (dels s c)[n := d\<lparr>used := False\<rparr>])"
  have D: "dels (del_free c n s) = ?D" by (simp add: del_free_def d_def)
  have old: "dels_of (dels s c) k = dels_of (take n (dels s c)) k @ (if dj d = k then [d] else []) @ dels_of (drop (Suc n) (dels s c)) k" for k
    using dels_of_nth [OF assms(2), of k] d(2) by (simp add: d_def)
  have new: "dels_of (?D c) k = dels_of (take n (dels s c)) k @ dels_of (drop (Suc n) (dels s c)) k" for k
    using dels_of_at [OF assms(2), of "d\<lparr>used := False\<rparr>" k] by simp
  note G = jobs_okD [OF I(7) R(1,2)]
  show "mpos d \<in> T (dj d)" using job_goodD(2) [OF G] R(3,5) by auto
  show "mpos d \<notin> mpos ` set (dels_of (dels (del_free c n s) c) (dj d))"
    using job_goodD(1) [OF G] R(3) old [of "dj d"] new [of "dj d"] unfolding D by auto
  have "slots_ok (jo s) ?D ((concurrencyused s)(c := concurrencyused s c - 1)) (pass s)"
  proof -
    have f: "length (filter used ((dels s c)[n := d\<lparr>used := False\<rparr>])) = length (filter used (dels s c)) - 1"
      using filter_update [OF assms(2), of used "d\<lparr>used := False\<rparr>"] assms(3) by simp
    have m: "e \<in> set (dels s c)" if "e \<in> set ((dels s c)[n := d\<lparr>used := False\<rparr>])" "used e" for e
      using that set_update_subset_insert [of "dels s c" n "d\<lparr>used := False\<rparr>"] by auto
    show ?thesis using I(4) f m unfolding slots_ok_def by (auto split: if_split_asm)
  qed
  moreover have "refs_ok (x(dj d := x (dj d) + 1)) (jo s) ?D (pass s)"
    unfolding refs_ok_def
  proof (intro allI impI)
    fix k
    assume k: "k < length (jo s)"
    then have r: "refs (jo s ! k) = int (length (dels_of (dels s (jchannel (jo s ! k))) k) + (if on_pass (pass s) (jchannel (jo s ! k)) k then 1 else 0) + x k)"
      using I(5) by (simp add: refs_ok_def)
    show "refs (jo s ! k) = int (length (dels_of (?D (jchannel (jo s ! k))) k) + (if on_pass (pass s) (jchannel (jo s ! k)) k then 1 else 0) +
        (x(dj d := x (dj d) + 1)) k)"
    proof (cases "jchannel (jo s ! k) = c")
      case True
      then show ?thesis using r old [of k] new [of k] by auto
    next
      case False
      then have "k \<noteq> dj d" using R(3) by auto
      then show ?thesis using r False by simp
    qed
  qed
  moreover have "jobs_ok arr (story s) T (jo s) ?D (pass s)"
    unfolding jobs_ok_def
  proof (intro allI impI)
    fix k
    assume k: "k < length (jo s)" "0 < refs (jo s ! k)"
    note g = jobs_okD [OF I(7) k]
    show "job_good arr (story s) (T k) ?D (pass s) k (jo s ! k)"
    proof (rule job_good_dels [OF g])
      show "distinct (map mpos (dels_of (?D (jchannel (jo s ! k))) k))"
        using job_goodD(1) [OF g] old [of k] new [of k] by (cases "jchannel (jo s ! k) = c") auto
      show "mpos ` set (dels_of (?D (jchannel (jo s ! k))) k) \<subseteq> T k"
        using job_goodD(2) [OF g] old [of k] new [of k] by (cases "jchannel (jo s ! k) = c") auto
    qed
  qed
  ultimately show "inv arr pend (x(dj d := x (dj d) + 1)) T (del_free c n s)"
    using I D unfolding inv_def by (simp add: del_free_def d_def)
qed


section \<open>An answer\<close>

lemma answered_sub: "answered es c \<subseteq> answered (e # es) c"
  by (auto simp: answered_def)

lemma sent_off_Cons: "sent_off es t \<Longrightarrow> sent_off (e # es) t"
  by (auto simp: sent_off_def)

lemma chan_ok_mono: "chan_ok u A info f \<Longrightarrow> A \<subseteq> B \<Longrightarrow> chan_ok u B info f"
  by (auto simp: chan_ok_def intro: marked_mono split: option.splits)

lemma file_ok_Cons:
  assumes "file_ok u es f" "\<And>c p t. e = Bounced c p t \<Longrightarrow> finfo f \<noteq> None \<and> (\<exists>x. fbounce f = Some x \<and> sublist t x)"
  shows "file_ok u (e # es) f"
proof -
  have "chan_ok (u c) (answered (e # es) c) (finfo f \<noteq> None) (fchan f c)" if "\<not> ftodo f" for c
    using assms(1) that chan_ok_mono [OF _ answered_sub] by (auto simp: file_ok_def)
  moreover have "sent_off (e # es) t \<or> finfo f \<noteq> None \<and> (\<exists>x. fbounce f = Some x \<and> sublist t x)"
    if "\<not> ftodo f" "Bounced c p t \<in> set (e # es)" for c p t
  proof (cases "e = Bounced c p t")
    case True
    then show ?thesis using assms(2) by blast
  next
    case False
    then have "Bounced c p t \<in> set es" using that(2) by simp
    then show ?thesis using assms(1) that(1) sent_off_Cons unfolding file_ok_def by blast
  qed
  ultimately show ?thesis using assms(1) by (simp add: file_ok_def)
qed

lemma job_good_mono:
  assumes "job_good arr st P ds ps j b" "\<And>i c. answered (st i) c \<subseteq> answered (st' i) c"
  shows "job_good arr st' P ds ps j b"
  using assms(1) assms(2) [of "jid b" "jchannel b"] by (simp add: job_good_def Let_def job_ok_def) blast

lemma happened_inv:
  assumes "inv arr pend x T s" "\<And>c p t. e = Bounced c p t \<Longrightarrow> finfo (qf s i) \<noteq> None \<and> (\<exists>x. fbounce (qf s i) = Some x \<and> sublist t x)"
  shows "inv arr pend x T (happened i e s)"
proof -
  note I = invD [OF assms(1)]
  let ?st = "(story s)(i := e # story s i)"
  have "file_ok (arr k) (?st k) (qf s k)" for k
  proof (cases "k = i")
    case True
    have "file_ok (arr i) (story s i) (qf s i)" using I(3) by (simp add: files_ok_def)
    then have "file_ok (arr i) (e # story s i) (qf s i)" by (rule file_ok_Cons) (rule assms(2))
    then show ?thesis using True by simp
  next
    case False
    then show ?thesis using I(3) by (simp add: files_ok_def)
  qed
  then have "files_ok arr ?st (qf s)" using I(3) by (simp add: files_ok_def)
  moreover have "answered (story s k) c \<subseteq> answered (?st k) c" for k c by (simp add: answered_sub)
  then have "jobs_ok arr ?st T (jo s) (dels s) (pass s)"
    using I(7) job_good_mono [of arr "story s" _ _ _ _ _ ?st] unfolding jobs_ok_def by blast
  ultimately show ?thesis using I by (simp add: inv_def)
qed

lemma happened_commute: "happened i e (log1 t s) = log1 t (happened i e s)" "happened i e (set_file k f s) = set_file k f (happened i e s)"
  by (simp_all add: happened_def log1_def set_file_def)

lemma markdone_happened: "happened i e (markdone y c k p s) = markdone y c k p (happened i e s)"
  by (cases "fchan (qf s k) c"; cases "denied y Mark") (simp_all only: markdone_def log3_def happened_commute happened_fields option.case if_True if_False)

lemma reads_poke:
  assumes "reads x p" "k < pass_mpos p" "x ! k \<noteq> NUL"
  shows "reads (x[k := ch]) p"
proof -
  let ?ss = "pass_ss p" and ?m = "pass_mpos p"
  let ?h = "take (sp ?ss) (drop (sn ?ss) (sx ?ss))"
  have s: "?h @ drop (sw ?ss) x = drop ?m x" "?m \<le> length x" using assms(1) by (simp_all add: reads_def in_stream_def)
  have "k < sw ?ss"
  proof (rule ccontr)
    assume "\<not> k < sw ?ss"
    then have "length (drop (sw ?ss) x) > length (drop ?m x)" using s(2) assms(2) by simp
    moreover have "length (drop (sw ?ss) x) \<le> length (drop ?m x)" unfolding s(1) [symmetric] by simp
    ultimately show False by simp
  qed
  then have "drop (sw ?ss) (x[k := ch]) = drop (sw ?ss) x" "drop ?m (x[k := ch]) = drop ?m x" using assms(2) by simp_all
  moreover have "?m = 0 \<or> x[k := ch] ! (?m - 1) = NUL" if "?m = 0 \<or> x ! (?m - 1) = NUL"
    using that assms(2,3) by (cases "k = ?m - 1") (auto simp: nth_list_update)
  ultimately show ?thesis using assms(1) unfolding reads_def in_stream_def by simp
qed

lemma job_unique:
  assumes "hold_ok pend pc pf js fs" "j < length js" "k < length js" "0 < refs (js ! j)" "0 < refs (js ! k)"
    "jid (js ! j) = jid (js ! k)" "jchannel (js ! j) = jchannel (js ! k)"
  shows "j = k"
proof (rule ccontr)
  assume "j \<noteq> k"
  define P where "P = (\<lambda>b :: job. refs b > 0 \<and> jid b = jid (js ! j) \<and> jchannel b = jchannel (js ! j))"
  have "card {i. i < length js \<and> P (js ! i)} = in_jobs js (jchannel (js ! j)) (jid (js ! j))"
    by (simp add: in_jobs_def P_def length_filter_conv_card)
  moreover have "{j, k} \<subseteq> {i. i < length js \<and> P (js ! i)}" using assms by (simp add: P_def)
  then have "card {j, k} \<le> card {i. i < length js \<and> P (js ! i)}" by (rule card_mono [rotated]) simp
  ultimately show False using \<open>j \<noteq> k\<close> held_le [OF assms(1), of "jchannel (js ! j)" "jid (js ! j)"] by (simp add: held_def)
qed

lemma mark_inv:
  assumes "inv arr pend x T s" "j < length (jo s)" "0 < refs (jo s ! j)" "p \<in> T j" "p \<in> answered (story s (jid (jo s ! j))) (jchannel (jo s ! j))"
  shows "inv arr pend x T (markdone y (jchannel (jo s ! j)) (jid (jo s ! j)) p s)"
proof -
  let ?c = "jchannel (jo s ! j)" and ?i = "jid (jo s ! j)"
  note I = invD [OF assms(1)]
  have pos: "0 < in_jobs (jo s) ?c ?i" using in_jobs_pos [OF assms(2,3)] .
  then have act: "active (qf s ?i)" and "fchan (qf s ?i) ?c \<noteq> None" using held_active [OF I(2)] by blast+
  then obtain content where c: "fchan (qf s ?i) ?c = Some content" by auto
  note G = jobs_okD [OF I(7) assms(2,3)]
  have o: "p \<in> open_at (arr ?i ?c)" using job_goodD(4) [OF G] assms(4) by auto
  have ok: "file_ok (arr ?i) (story s ?i) (qf s ?i)" using I(3) by (simp add: files_ok_def)
  then have ch: "chan_ok (arr ?i ?c) (answered (story s ?i) ?c) (finfo (qf s ?i) \<noteq> None) (Some content)"
    using act c unfolding file_ok_def active_def by metis
  then have m: "marked (arr ?i ?c) (answered (story s ?i) ?c) content" by (simp add: chan_ok_def)
  let ?x = "poke content p (CHR ''D'')"
  let ?f = "\<lambda>f. f\<lparr>fchan := (fchan f)(?c := Some ?x)\<rparr>"
  have "inv arr pend x T (set_file ?i ?f s)"
  proof (rule set_file_inv [OF assms(1)])
    show "active (?f (qf s ?i)) \<longleftrightarrow> active (qf s ?i)" by (simp add: active_def)
    have "chan_ok (arr ?i ?c) (answered (story s ?i) ?c) (finfo (qf s ?i) \<noteq> None) (Some ?x)"
      using ch marked_poke [OF m o assms(5)] by (simp add: chan_ok_def)
    then show "file_ok (arr ?i) (story s ?i) (?f (qf s ?i))" using ok by (simp add: file_ok_def)
    show "fchan (?f (qf s ?i)) d \<noteq> None" if "0 < pq_count (pqchan s d) ?i \<or> 0 < in_jobs (jo s) d ?i \<or> 0 < in_pend pend d ?i" for d
      using held_active [OF I(2) that] by simp
    fix d
    assume d: "pass_id (pass s d) = ?i" "0 < in_jobs (jo s) d ?i"
    have "?i \<noteq> 0" using act I(3) by (auto simp: files_ok_def)
    then have nz: "pass_id (pass s d) \<noteq> 0" using d(1) by simp
    then have r: "reads (case_option [] (\<lambda>x. x) (fchan (qf s ?i) d)) (pass s d)" using I(6) d(1) unfolding pass_ok_def by metis
    show "reads (case_option [] (\<lambda>x. x) (fchan (?f (qf s ?i)) d)) (pass s d)"
    proof (cases "d = ?c")
      case False
      then show ?thesis using r by simp
    next
      case True
      note R = pass_refs [OF I(4,5) nz]
      have "pass_j (pass s d) = j" using job_unique [OF I(2) R(1) assms(2) R(2) assms(3)] R(3,4) d(1) True by simp
      then have "p < pass_mpos (pass s d)" using job_goodD(5) [OF G] R(5) assms(4) True by auto
      moreover have "content ! p \<noteq> NUL" using m o open_at_less [OF o] by (auto simp: marked_def open_at_def)
      ultimately show ?thesis using reads_poke [of content "pass s d" p] r c True poke_inside [OF m o] by simp
    qed
  qed
  then show ?thesis using assms(1) c by (simp add: markdone_def)
qed

lemma numtodo_inv:
  assumes "inv arr pend x T s" "j < length (jo s)" "p \<in> T j" "p \<notin> mpos ` set (dels_of (dels s (jchannel (jo s ! j))) j)"
    "p \<in> answered (story s (jid (jo s ! j))) (jchannel (jo s ! j))"
  shows "inv arr pend x (T(j := T j - {p})) (set_job j (\<lambda>b. b\<lparr>numtodo := numtodo b - 1\<rparr>) s)"
proof -
  note I = invD [OF assms(1)]
  let ?b = "(jo s ! j)\<lparr>numtodo := numtodo (jo s ! j) - 1\<rparr>" and ?T = "T(j := T j - {p})"
  have n: "in_jobs ((jo s)[j := ?b]) c i = in_jobs (jo s) c i" for c i using in_jobs_update [OF assms(2), of ?b c i] by simp
  have "hold_ok pend (pqchan s) (pqfail s) ((jo s)[j := ?b]) (qf s)" using I(2) by (simp add: hold_ok_def held_def n)
  moreover have "slots_ok ((jo s)[j := ?b]) (dels s) (concurrencyused s) (pass s)" using slots_update [OF I(4), of ?b] by simp
  moreover have "refs_ok x ((jo s)[j := ?b]) (dels s) (pass s)" using refs_update [OF I(5) _ assms(2), of ?b "x j"] by simp
  moreover have "jobs_ok arr (story s) ?T ((jo s)[j := ?b]) (dels s) (pass s)"
    unfolding jobs_ok_def
  proof (intro allI impI)
    fix k
    assume k: "k < length ((jo s)[j := ?b])" "0 < refs ((jo s)[j := ?b] ! k)"
    show "job_good arr (story s) (?T k) (dels s) (pass s) k ((jo s)[j := ?b] ! k)"
    proof (cases "k = j")
      case False
      then show ?thesis using jobs_okD [OF I(7), of k] k by simp
    next
      case True
      then have "0 < refs (jo s ! j)" using k(2) assms(2) by simp
      note g = jobs_okD [OF I(7) assms(2) this]
      have "0 < card (T j)" using job_goodD(6) [OF g] assms(3) by (auto simp: card_gt_0_iff)
      then have "int (card (T j - {p})) = int (card (T j)) - 1" using assms(3) job_goodD(6) [OF g] by (simp add: of_nat_diff)
      then show ?thesis using g True assms(2-5) by (auto simp: job_good_def Let_def job_ok_def job_limit_def)
    qed
  qed
  ultimately show ?thesis using I by (simp add: inv_def)
qed

end
