(* ===== verification/Upkeep.thy ===== *)
theory Upkeep
  imports Ledger
begin

text \<open>Each operation of the queue manager keeps the invariant.\<close>

section \<open>Operations that do not look at the slots\<close>

lemma put_slots:
  "put_chan c pe (s\<lparr>dels := D, concurrencyused := U\<rparr>) = map_option (\<lambda>s. s\<lparr>dels := D, concurrencyused := U\<rparr>) (put_chan c pe s)"
  "put_done pe (s\<lparr>dels := D, concurrencyused := U\<rparr>) = map_option (\<lambda>s. s\<lparr>dels := D, concurrencyused := U\<rparr>) (put_done pe s)"
  "put_chan c pe (s\<lparr>pass := P\<rparr>) = map_option (\<lambda>s. s\<lparr>pass := P\<rparr>) (put_chan c pe s)"
  "put_done pe (s\<lparr>pass := P\<rparr>) = map_option (\<lambda>s. s\<lparr>pass := P\<rparr>) (put_done pe s)"
  by (cases s; simp add: put_chan_def put_done_def option.map_comp comp_def)+

lemma log_slots:
  "log1 t (s\<lparr>dels := D, concurrencyused := U\<rparr>) = (log1 t s)\<lparr>dels := D, concurrencyused := U\<rparr>"
  "log3 t t2 t3 (s\<lparr>dels := D, concurrencyused := U\<rparr>) = (log3 t t2 t3 s)\<lparr>dels := D, concurrencyused := U\<rparr>"
  "log1 t (s\<lparr>pass := P\<rparr>) = (log1 t s)\<lparr>pass := P\<rparr>" "log3 t t2 t3 (s\<lparr>pass := P\<rparr>) = (log3 t t2 t3 s)\<lparr>pass := P\<rparr>"
  by (simp_all add: log3_def log1_def)

lemma set_slots:
  "set_file i f (s\<lparr>dels := D, concurrencyused := U\<rparr>) = (set_file i f s)\<lparr>dels := D, concurrencyused := U\<rparr>"
  "set_job j g (s\<lparr>dels := D, concurrencyused := U\<rparr>) = (set_job j g s)\<lparr>dels := D, concurrencyused := U\<rparr>"
  "happened i e (s\<lparr>dels := D, concurrencyused := U\<rparr>) = (happened i e s)\<lparr>dels := D, concurrencyused := U\<rparr>"
  "set_file i f (s\<lparr>pass := P\<rparr>) = (set_file i f s)\<lparr>pass := P\<rparr>" "set_job j g (s\<lparr>pass := P\<rparr>) = (set_job j g s)\<lparr>pass := P\<rparr>"
  by (simp_all add: set_file_def set_job_def happened_def)

lemma more_channels_slots:
  "more_channels y i c0 cs (s\<lparr>dels := D, concurrencyused := U\<rparr>) = map_prod (\<lambda>x. x) (\<lambda>s. s\<lparr>dels := D, concurrencyused := U\<rparr>) (more_channels y i c0 cs s)"
  "more_channels y i c0 cs (s\<lparr>pass := P\<rparr>) = map_prod (\<lambda>x. x) (\<lambda>s. s\<lparr>pass := P\<rparr>) (more_channels y i c0 cs s)"
  by (induction cs) (auto simp: log_slots split: stat.split)

lemmas slots = put_slots log_slots set_slots more_channels_slots

lemma slot_fields: "jo (s\<lparr>dels := D, concurrencyused := U\<rparr>) = jo s" "qf (s\<lparr>dels := D, concurrencyused := U\<rparr>) = qf s"
  "jo (s\<lparr>pass := P\<rparr>) = jo s" "qf (s\<lparr>pass := P\<rparr>) = qf s"
  by simp_all

lemma job_close_slots:
  "job_close y j (s\<lparr>dels := D, concurrencyused := U\<rparr>) = map_option (\<lambda>s. s\<lparr>dels := D, concurrencyused := U\<rparr>) (job_close y j s)"
  unfolding job_close_def Let_def slots slot_fields if_distrib [of "map_option f" for f] option.map
  by (simp only: case_prod_unfold fst_map_prod snd_map_prod put_slots option.map if_distrib [of "map_option f" for f])

lemma job_close_pass: "job_close y j (s\<lparr>pass := P\<rparr>) = map_option (\<lambda>s. s\<lparr>pass := P\<rparr>) (job_close y j s)"
  unfolding job_close_def Let_def slots slot_fields if_distrib [of "map_option f" for f] option.map
  by (simp only: case_prod_unfold fst_map_prod snd_map_prod put_slots option.map if_distrib [of "map_option f" for f])

lemma job_close_fields:
  assumes "job_close y j s = Some s'"
  shows "dels s' = dels s" "concurrencyused s' = concurrencyused s" "pass s' = pass s"
proof -
  have "job_close y j s = map_option (\<lambda>s'. s'\<lparr>dels := dels s, concurrencyused := concurrencyused s\<rparr>) (job_close y j s)"
    "job_close y j s = map_option (\<lambda>s'. s'\<lparr>pass := pass s\<rparr>) (job_close y j s)"
    unfolding job_close_slots [symmetric] job_close_pass [symmetric] by simp_all
  then have e: "s' = s'\<lparr>dels := dels s, concurrencyused := concurrencyused s\<rparr>" "s' = s'\<lparr>pass := pass s\<rparr>"
    unfolding assms option.map option.inject by - assumption+
  have "dels (s'\<lparr>dels := dels s, concurrencyused := concurrencyused s\<rparr>) = dels s"
    "concurrencyused (s'\<lparr>dels := dels s, concurrencyused := concurrencyused s\<rparr>) = concurrencyused s" "pass (s'\<lparr>pass := pass s\<rparr>) = pass s" by simp_all
  then show "dels s' = dels s" "concurrencyused s' = concurrencyused s" "pass s' = pass s" unfolding e [symmetric] by - assumption+
qed

lemma report_taken_slots:
  "report_taken y c d line (s\<lparr>dels := D, concurrencyused := U\<rparr>) = (report_taken y c d line s)\<lparr>dels := D, concurrencyused := U\<rparr>"
  by (simp add: report_taken_def answered_done_def addbounce_def markdone_def report_logged_def Let_def slots split: option.split)

lemma report_taken_fields: "dels (report_taken y c d line s) = dels s" "concurrencyused (report_taken y c d line s) = concurrencyused s"
  by (simp_all add: report_taken_def answered_done_def addbounce_def markdone_def report_logged_def Let_def split: option.split)

lemma del_report_free_first:
  "del_report y c line s =
     (let n = nat (report_num line); d = dels s c ! n in
      if report_num line < 0 \<or> n \<ge> length (dels s c) \<or> \<not> used d
      then Some (log1 (''warning: internal error: delivery report out of range'' @ [LF]) s)
      else map_option del_status (job_close y (dj d) (report_taken y c d (report_line (flagdying (jo s ! dj d)) line) (del_free c n s))))"
proof -
  have "Option.bind (job_close y k (report_taken y c d l s)) (\<lambda>s. Some (del_status (del_free c n s))) =
      map_option del_status (job_close y k (report_taken y c d l (del_free c n s)))" for k d l n
  proof -
    let ?D = "(dels s)(c := (dels s c)[n := (dels s c ! n)\<lparr>used := False\<rparr>])" and ?U = "(concurrencyused s)(c := concurrencyused s c - 1)"
    have e: "del_free c n s = s\<lparr>dels := ?D, concurrencyused := ?U\<rparr>" by (simp add: del_free_def)
    have f: "del_free c n s' = s'\<lparr>dels := ?D, concurrencyused := ?U\<rparr>" if "job_close y k (report_taken y c d l s) = Some s'" for s'
      using job_close_fields(1,2) [OF that] by (simp add: del_free_def report_taken_fields)
    show ?thesis unfolding e report_taken_slots job_close_slots using f
      by (cases "job_close y k (report_taken y c d l s)") simp_all
  qed
  then show ?thesis by (simp add: del_report_def Let_def)
qed

section \<open>Reports\<close>

lemma addbounce_inv:
  assumes "inv arr pend x T s"
  shows "inv arr pend x T (addbounce i rcp report s)"
  unfolding addbounce_def
proof (rule set_file_inv [OF assms])
  note I = invD [OF assms]
  let ?f = "\<lambda>f :: mfiles. f\<lparr>fbounce := Some (case_option [] (\<lambda>x. x) (fbounce f) @ bounce_paragraph (vdoms s) rcp report)\<rparr>"
  show "active (?f (qf s i)) = active (qf s i)" by (simp add: active_def)
  have ok: "file_ok (arr i) (story s i) (qf s i)" using I(3) by (simp add: files_ok_def)
  have "sent_off (story s i) t \<or> finfo (qf s i) \<noteq> None \<and> (\<exists>x. fbounce (?f (qf s i)) = Some x \<and> sublist t x)"
    if "\<not> ftodo (qf s i)" "Bounced c p t \<in> set (story s i)" for c p t
  proof -
    have "sent_off (story s i) t \<or> finfo (qf s i) \<noteq> None \<and> (\<exists>x. fbounce (qf s i) = Some x \<and> sublist t x)"
      using ok that unfolding file_ok_def by blast
    moreover have "sublist t (x @ z)" if "sublist t x" for x z using that by (simp add: sublist_append)
    ultimately show ?thesis by auto
  qed
  then show "file_ok (arr i) (story s i) (?f (qf s i))" using ok unfolding file_ok_def by simp
next
  note I = invD [OF assms]
  fix c
  show "fchan ((qf s i)\<lparr>fbounce := Some (case_option [] (\<lambda>x. x) (fbounce (qf s i)) @ bounce_paragraph (vdoms s) rcp report)\<rparr>) c \<noteq> None"
    if "0 < pq_count (pqchan s c) i \<or> 0 < in_jobs (jo s) c i \<or> 0 < in_pend pend c i" using held_active [OF I(2) that] by simp
  assume *: "pass_id (pass s c) = i" "0 < in_jobs (jo s) c i"
  then have "pass_id (pass s c) \<noteq> 0" using held_active [OF I(2), of c i] I(3) by (auto simp: files_ok_def)
  then have "reads (case_option [] (\<lambda>x. x) (fchan (qf s (pass_id (pass s c))) c)) (pass s c)" using I(6) by (simp add: pass_ok_def)
  then show "reads (case_option [] (\<lambda>x. x) (fchan ((qf s i)\<lparr>fbounce := Some (case_option [] (\<lambda>x. x) (fbounce (qf s i)) @ bounce_paragraph (vdoms s) rcp report)\<rparr>) c)) (pass s c)"
    using *(1) by simp
qed

lemma addbounce_fields [simp]:
  "story (addbounce i rcp report s) = story s" "jo (addbounce i rcp report s) = jo s" "dels (addbounce i rcp report s) = dels s"
  "vdoms (addbounce i rcp report s) = vdoms s" "finfo (qf (addbounce i rcp report s) i) = finfo (qf s i)"
  "\<exists>x. fbounce (qf (addbounce i rcp report s) i) = Some x \<and> sublist (bounce_paragraph (vdoms s) rcp report) x"
  by (simp_all add: addbounce_def set_file_def)

lemma markdone_fields [simp]:
  "story (markdone y c i p s) = story s" "jo (markdone y c i p s) = jo s" "dels (markdone y c i p s) = dels s"
  by (simp_all add: markdone_def split: option.split)

lemma answered_done_inv:
  assumes "inv arr pend x T s" "dj d < length (jo s)" "0 < refs (jo s ! dj d)" "jchannel (jo s ! dj d) = c" "mpos d \<in> T (dj d)"
    "mpos d \<notin> mpos ` set (dels_of (dels s c) (dj d))"
    and "e = Delivered c (mpos d) \<or> (\<exists>t x. e = Bounced c (mpos d) t \<and> fbounce (qf s (jid (jo s ! dj d))) = Some x \<and> sublist t x)"
  shows "inv arr pend x (T(dj d := T (dj d) - {mpos d})) (answered_done y c d e s)"
proof -
  note I = invD [OF assms(1)]
  let ?i = "jid (jo s ! dj d)"
  let ?h = "happened ?i e s" let ?m = "markdone y c ?i (mpos d) ?h"
  have "active (qf s ?i)" using held_active [OF I(2)] in_jobs_pos [OF assms(2,3)] by blast
  then have h: "inv arr pend x T ?h" using happened_inv [OF assms(1), of e ?i] assms(7) by (auto simp: active_def)
  have a: "mpos d \<in> answered (story ?h ?i) c" using assms(7) by (auto simp: answered_Cons)
  have m: "inv arr pend x T ?m" using mark_inv [OF h, of "dj d" "mpos d" y] assms(2-5) a by simp
  have "answered_done y c d e s = set_job (dj d) (\<lambda>b. b\<lparr>numtodo := numtodo b - 1\<rparr>) ?m"
    by (simp add: answered_done_def Let_def markdone_happened)
  then show ?thesis using numtodo_inv [OF m, of "dj d" "mpos d"] assms(2-6) a by simp
qed

lemma report_taken_inv:
  assumes "inv arr pend x T s" "dj d < length (jo s)" "0 < refs (jo s ! dj d)" "jchannel (jo s ! dj d) = c" "mpos d \<in> T (dj d)"
    "mpos d \<notin> mpos ` set (dels_of (dels s c) (dj d))"
  shows "\<exists>T. inv arr pend x T (report_taken y c d line s)" "length (jo (report_taken y c d line s)) = length (jo s)"
proof -
  show "length (jo (report_taken y c d line s)) = length (jo s)"
    by (simp add: report_taken_def answered_done_def Let_def report_logged_def)
  let ?nr = "num (delid d)" and ?i = "jid (jo s ! dj d)"
  consider (K) "line ! 2 = CHR ''K''" | (Z) "line ! 2 = CHR ''Z''" | (D) "line ! 2 = CHR ''D''"
    | (bad) "line ! 2 \<noteq> CHR ''K''" "line ! 2 \<noteq> CHR ''Z''" "line ! 2 \<noteq> CHR ''D''" by blast
  then show "\<exists>T. inv arr pend x T (report_taken y c d line s)"
  proof cases
    case K
    let ?s = "report_logged ?nr '': success: '' line s"
    have "inv arr pend x T ?s" using assms(1) by simp
    from answered_done_inv [OF this, of d c "Delivered c (mpos d)" y] K show ?thesis using assms
      by (auto simp: report_taken_def Let_def) (auto simp: report_logged_def)
  next
    case Z
    then show ?thesis using assms(1) by (auto simp: report_taken_def Let_def)
  next
    case D
    let ?l = "report_logged ?nr '': failure: '' line s"
    let ?s = "addbounce ?i (recip d) (drop 3 line) ?l"
    have l: "vdoms ?l = vdoms s" "jo ?l = jo s" "dels ?l = dels s" by (simp_all add: report_logged_def)
    have "inv arr pend x T ?s" using assms(1) addbounce_inv by simp
    from answered_done_inv [OF this, of d c "Bounced c (mpos d) (bounce_paragraph (vdoms s) (recip d) (drop 3 line))" y] D show ?thesis
      using assms addbounce_fields(6) [of ?i "recip d" "drop 3 line" ?l] l by (auto simp: report_taken_def Let_def)
  next
    case bad
    then show ?thesis using assms(1) by (auto simp: report_taken_def Let_def)
  qed
qed

definition good :: "(ulong \<Rightarrow> channel \<Rightarrow> char list) \<Rightarrow> (ulong \<times> channel list) list \<Rightarrow> send \<Rightarrow> bool" where
  "good arr pend s \<longleftrightarrow> (\<exists>T. inv arr pend (\<lambda>_. 0) T s)"

lemma goodI: "inv arr pend (\<lambda>_. 0) T s \<Longrightarrow> good arr pend s"
  by (auto simp: good_def)

lemma del_report_good:
  assumes "good arr pend s" "del_report y c line s = Some s'"
  shows "good arr pend s'"
proof -
  obtain T where i: "inv arr pend (\<lambda>_. 0) T s" using assms(1) by (auto simp: good_def)
  let ?n = "nat (report_num line)" let ?d = "dels s c ! ?n"
  show ?thesis
  proof (cases "report_num line < 0 \<or> ?n \<ge> length (dels s c) \<or> \<not> used ?d")
    case True
    then show ?thesis using assms(2) i by (auto simp: del_report_def Let_def good_def)
  next
    case False
    then have n: "?n < length (dels s c)" "used ?d" by auto
    let ?f = "del_free c ?n s" let ?line = "report_line (flagdying (jo s ! dj ?d)) line"
    note F = del_free_inv [OF i n]
    obtain T' where t: "inv arr pend ((\<lambda>_. 0)(dj ?d := 0 + 1)) T' (report_taken y c ?d ?line ?f)" "length (jo (report_taken y c ?d ?line ?f)) = length (jo s)"
      using report_taken_inv [OF F(1), of ?d c y ?line] F(2-6) by auto
    obtain s1 where s1: "job_close y (dj ?d) (report_taken y c ?d ?line ?f) = Some s1" "s' = del_status s1"
      using assms(2) False by (auto simp: del_report_free_first Let_def)
    have "inv arr pend (\<lambda>_. 0) T' s1" using job_close_inv [OF t(1) s1(1)] F(4) t(2) by (simp add: fun_upd_idem)
    then show ?thesis using s1(2) by (auto simp: good_def)
  qed
qed

lemma good_quiet [simp]:
  "good arr pend (log1 t s) = good arr pend s" "good arr pend (log3 t t2 t3 s) = good arr pend s"
  "good arr pend (s\<lparr>dline := dl\<rparr>) = good arr pend s" "good arr pend (s\<lparr>todoline := tl'\<rparr>) = good arr pend s"
  "good arr pend (s\<lparr>flagtodoalive := ft\<rparr>) = good arr pend s" "good arr pend (s\<lparr>recent := re\<rparr>) = good arr pend s"
  "good arr pend (s\<lparr>flagcleanup := fc\<rparr>) = good arr pend s" "good arr pend (s\<lparr>cleanuptime := ct\<rparr>) = good arr pend s"
  "good arr pend (s\<lparr>cleanupdir := cd\<rparr>) = good arr pend s" "good arr pend (s\<lparr>vdoms := v\<rparr>) = good arr pend s"
  "good arr pend (s\<lparr>flagexitasap := fe\<rparr>) = good arr pend s"
  "good arr pend (cleandied s) = good arr pend s" "good arr pend (spawndied c s) = good arr pend s" "good arr pend (tododied s) = good arr pend s"
  "good arr pend (later what name s) = good arr pend s" "good arr pend (comm_do c isset w epipe s) = good arr pend s" "good arr pend (del_status s) = good arr pend s"
  by (simp_all add: good_def comm_do_inv)

lemma del_byte_good:
  assumes "good arr pend s" "del_byte y c ch s = Some s'"
  shows "good arr pend s'"
  using assms del_report_good [OF assms(1)] by (auto simp: del_byte_def Let_def bind_eq_Some_conv split: if_split_asm)

lemma del_bytes_good: "good arr pend s \<Longrightarrow> del_bytes env c cs s = Some s' \<Longrightarrow> good arr pend s'"
  by (induction env c cs s rule: del_bytes.induct) (auto simp: bind_eq_Some_conv dest: del_byte_good)

lemma del_dochan_good: "good arr pend s \<Longrightarrow> del_dochan env c r s = Some s' \<Longrightarrow> good arr pend s'"
  by (auto simp: del_dochan_def split: rd.splits if_splits dest: del_bytes_good)

section \<open>Starting a delivery\<close>

text \<open>The state after \<open>del_start\<close>, up to what the invariant does not look at.\<close>

definition del_add :: "channel \<Rightarrow> nat \<Rightarrow> nat \<Rightarrow> del \<Rightarrow> send \<Rightarrow> send" where
  "del_add c n j d s = (set_job j (\<lambda>b. b\<lparr>refs := refs b + 1\<rparr>) s)
     \<lparr>dels := (dels s)(c := (dels s c)[n := d]), concurrencyused := (concurrencyused s)(c := concurrencyused s c + 1)\<rparr>"

lemma slots_dels:
  assumes "slots_ok js ds cu ps" "\<And>e. e \<in> set dl \<Longrightarrow> used e \<Longrightarrow> e \<in> set (ds c) \<or> dj e < length js \<and> jchannel (js ! dj e) = c"
    "u = length (filter used dl)"
  shows "slots_ok js (ds(c := dl)) (cu(c := u)) ps"
  using assms unfolding slots_ok_def by (simp split: if_split) blast

lemma del_add_inv:
  assumes "inv arr pend x T s" "n < length (dels s c)" "\<not> used (dels s c ! n)" "used d" "j < length (jo s)" "0 < refs (jo s ! j)"
    "jchannel (jo s ! j) = c" "dj d = j" "mpos d \<in> T j" "mpos d \<notin> mpos ` set (dels_of (dels s c) j)"
  shows "inv arr pend x T (del_add c n j d s)"
proof -
  note I = invD [OF assms(1)]
  let ?D = "(dels s)(c := (dels s c)[n := d])" and ?b = "(jo s ! j)\<lparr>refs := refs (jo s ! j) + 1\<rparr>"
  let ?js = "(jo s)[j := ?b]"
  have old: "dels_of (dels s c) k = dels_of (take n (dels s c)) k @ dels_of (drop (Suc n) (dels s c)) k" for k
    using dels_of_nth [OF assms(2), of k] assms(3) by simp
  have new: "dels_of (?D c) k = dels_of (take n (dels s c)) k @ (if j = k then [d] else []) @ dels_of (drop (Suc n) (dels s c)) k" for k
    using dels_of_at [OF assms(2), of d k] assms(4,8) by simp
  have nj: "in_jobs ?js e i = in_jobs (jo s) e i" for e i using in_jobs_update [OF assms(5), of ?b e i] assms(6) by simp
  have "hold_ok pend (pqchan s) (pqfail s) ?js (qf s)" using I(2) by (simp add: hold_ok_def held_def nj)
  moreover have "slots_ok ?js ?D ((concurrencyused s)(c := concurrencyused s c + 1)) (pass s)"
  proof -
    have f: "length (filter used ((dels s c)[n := d])) = length (filter used (dels s c)) + 1"
      using filter_update [OF assms(2), of used d] assms(3,4) by simp
    have m: "e \<in> set (dels s c) \<or> e = d" if "e \<in> set ((dels s c)[n := d])" for e
      using that set_update_subset_insert [of "dels s c" n d] by auto
    have cu: "concurrencyused s c = length (filter used (dels s c))" using I(4) by (simp add: slots_ok_def)
    have "slots_ok ?js (dels s) (concurrencyused s) (pass s)" using slots_update [OF I(4), of ?b] by simp
    moreover have "jchannel (?js ! j) = c" using assms(5,7) by simp
    then have "e \<in> set (dels s c) \<or> dj e < length ?js \<and> jchannel (?js ! dj e) = c" if "e \<in> set ((dels s c)[n := d])" for e
      using m [OF that] assms(5,8) by auto
    ultimately show ?thesis using f cu by (intro slots_dels) simp_all
  qed
  moreover have "refs_ok x ?js ?D (pass s)"
    unfolding refs_ok_def
  proof (intro allI impI)
    fix k
    assume "k < length ?js"
    then have k: "k < length (jo s)" by simp
    then have r: "refs (jo s ! k) = int (length (dels_of (dels s (jchannel (jo s ! k))) k) + (if on_pass (pass s) (jchannel (jo s ! k)) k then 1 else 0) + x k)"
      using I(5) by (simp add: refs_ok_def)
    show "refs (?js ! k) = int (length (dels_of (?D (jchannel (?js ! k))) k) + (if on_pass (pass s) (jchannel (?js ! k)) k then 1 else 0) + x k)"
    proof (cases "k = j")
      case True
      then show ?thesis using r k assms(7) old [of k] new [of k] by simp
    next
      case False
      then show ?thesis using r k old [of k] new [of k] by (cases "jchannel (jo s ! k) = c") simp_all
    qed
  qed
  moreover have "jobs_ok arr (story s) T ?js ?D (pass s)"
    unfolding jobs_ok_def
  proof (intro allI impI)
    fix k
    assume k: "k < length ?js" "0 < refs (?js ! k)"
    have g: "job_good arr (story s) (T k) (dels s) (pass s) k (?js ! k)"
      using jobs_okD [OF I(7), of k] k assms(5,6) by (cases "k = j") simp_all
    show "job_good arr (story s) (T k) ?D (pass s) k (?js ! k)"
    proof (rule job_good_dels [OF g])
      have c: "jchannel (?js ! k) = c" if "k = j" using that assms(5,7) by simp
      show "distinct (map mpos (dels_of (?D (jchannel (?js ! k))) k))"
        using job_goodD(1) [OF g] old [of k] new [of k] assms(10) c by (cases "jchannel (?js ! k) = c"; cases "k = j") auto
      show "mpos ` set (dels_of (?D (jchannel (?js ! k))) k) \<subseteq> T k"
        using job_goodD(2) [OF g] old [of k] new [of k] assms(9) c by (cases "jchannel (?js ! k) = c"; cases "k = j") auto
    qed
  qed
  ultimately show ?thesis using I unfolding inv_def by (simp add: del_add_def)
qed

lemma del_add_chan:
  "jo (del_add c n j d s) = (jo s)[j := (jo s ! j)\<lparr>refs := refs (jo s ! j) + 1\<rparr>]" "pass (del_add c n j d s) = pass s"
  "qf (del_add c n j d s) = qf s" "story (del_add c n j d s) = story s"
  by (simp_all add: del_add_def)

lemma takeWhile_stops: "length (takeWhile P xs) \<noteq> length xs \<Longrightarrow> length (takeWhile P xs) < length xs \<and> \<not> P (xs ! length (takeWhile P xs))"
  using nth_length_takeWhile [of P xs] length_takeWhile_le [of P xs] by fastforce

lemma del_start_inv:
  assumes "inv arr pend x T s" "j < length (jo s)" "0 < refs (jo s ! j)" "pos \<in> T j"
    "pos \<notin> mpos ` set (dels_of (dels s (jchannel (jo s ! j))) j)"
  shows "inv arr pend x T (del_start y j pos rcp s)"
proof -
  let ?c = "jchannel (jo s ! j)" let ?n = "free_del ?c s"
  let ?d = "\<lparr>used = True, dj = j, delid = masterdelid s, mpos = pos, recip = cstr rcp @ [NUL]\<rparr>"
  show ?thesis
  proof (cases "flagspawnalive s ?c \<and> comm_canwrite ?c s \<and> ?n \<noteq> length (dels s ?c) \<and> \<not> denied y Copy_recip")
    case False
    then show ?thesis using assms(1) by (auto simp: del_start_def Let_def)
  next
    case True
    then have n: "?n < length (dels s ?c)" "\<not> used (dels s ?c ! ?n)" using takeWhile_stops [of used "dels s ?c"] by (auto simp: free_del_def)
    have d: "inv arr pend x T (del_add ?c ?n j ?d s)" by (rule del_add_inv [OF assms(1) n]) (use assms in simp_all)
    let ?s1 = "(set_job j (\<lambda>b. b\<lparr>refs := refs b + 1\<rparr>) s)
       \<lparr>dels := (dels s)(?c := (dels s ?c)[?n := ?d]), masterdelid := masterdelid s + 1, concurrencyused := (concurrencyused s)(?c := concurrencyused s ?c + 1)\<rparr>"
    have "?s1 = (del_add ?c ?n j ?d s)\<lparr>masterdelid := masterdelid s + 1\<rparr>" by (simp add: del_add_def)
    then have "inv arr pend x T ?s1" using d by simp
    then show ?thesis using True by (simp add: del_start_def Let_def set_job_def)
  qed
qed


section \<open>Passes\<close>

lemma set_pass_fields [simp]:
  "qf (set_pass c f s) = qf s" "story (set_pass c f s) = story s" "pqdone (set_pass c f s) = pqdone s" "pqchan (set_pass c f s) = pqchan s"
  "pqfail (set_pass c f s) = pqfail s" "jo (set_pass c f s) = jo s" "dels (set_pass c f s) = dels s" "concurrencyused (set_pass c f s) = concurrencyused s"
  "pass (set_pass c f s) = (pass s)(c := f (pass s c))" "recent (set_pass c f s) = recent s"
  by (simp_all add: set_pass_def)

text \<open>A change of the pass of one channel, as the jobs see it.\<close>

lemma job_good_pass:
  assumes "job_good arr st P ds ps j b" "on_pass ps' (jchannel b) j = on_pass ps (jchannel b) j"
    "on_pass ps (jchannel b) j \<Longrightarrow> pass_mpos (ps' (jchannel b)) = pass_mpos (ps (jchannel b))"
  shows "job_good arr st P ds ps' j b"
  using assms by (auto simp: job_good_def Let_def job_limit_def)

lemma on_pass_upd: "on_pass (ps(c := p)) d j = (if c = d then pass_id p \<noteq> 0 \<and> pass_j p = j else on_pass ps d j)"
  by (simp add: on_pass_def)

lemma idle_pass_inv:
  assumes "inv arr pend x T s" "pass_id (pass s c) = 0" "pass_id p = 0"
  shows "inv arr pend x T (s\<lparr>pass := (pass s)(c := p)\<rparr>)"
proof -
  note I = invD [OF assms(1)]
  have o: "on_pass ((pass s)(c := p)) d j = on_pass (pass s) d j" for d j using assms(2,3) by (simp add: on_pass_def)
  have "jobs_ok arr (story s) T (jo s) (dels s) ((pass s)(c := p))"
    unfolding jobs_ok_def
  proof (intro allI impI)
    fix k
    assume "k < length (jo s)" "0 < refs (jo s ! k)"
    from jobs_okD [OF I(7) this] show "job_good arr (story s) (T k) (dels s) ((pass s)(c := p)) k (jo s ! k)"
      by (rule job_good_pass) (use o assms(2) in \<open>auto simp: on_pass_def\<close>)
  qed
  moreover have "slots_ok (jo s) (dels s) (concurrencyused s) ((pass s)(c := p))" using I(4) assms(3) by (simp add: slots_ok_def)
  moreover have "refs_ok x (jo s) (dels s) ((pass s)(c := p))" using I(5) by (simp add: refs_ok_def o)
  moreover have "pass_ok (qf s) ((pass s)(c := p))" using I(6) assms(3) by (simp add: pass_ok_def)
  ultimately show ?thesis using I by (simp add: inv_def)
qed

text \<open>The pass ends, at the end of the file if \<open>eof\<close>; its reference to the job is still counted.\<close>

definition ended :: "bool \<Rightarrow> job \<Rightarrow> job" where
  "ended eof b = (if eof then b\<lparr>flaghiteof := True\<rparr> else b)"

lemma ended_fields [simp]: "refs (ended eof b) = refs b" "jid (ended eof b) = jid b" "jchannel (ended eof b) = jchannel b" "numtodo (ended eof b) = numtodo b"
  "flaghiteof (ended eof b) = (eof \<or> flaghiteof b)"
  by (simp_all add: ended_def)

lemma end_pass_inv:
  assumes "inv arr pend x T s" "pass_id (pass s c) \<noteq> 0" "pass_id p = 0" "eof \<Longrightarrow> pass_mpos (pass s c) = length (arr (pass_id (pass s c)) c)"
  shows "inv arr pend (x(pass_j (pass s c) := x (pass_j (pass s c)) + 1)) T ((set_job (pass_j (pass s c)) (ended eof) s)\<lparr>pass := (pass s)(c := p)\<rparr>)"
    and "pass_j (pass s c) < length (jo s)"
proof -
  note I = invD [OF assms(1)]
  note R = pass_refs [OF I(4,5) assms(2)]
  let ?j = "pass_j (pass s c)" and ?ps = "(pass s)(c := p)"
  show "?j < length (jo s)" by (rule R)
  let ?b = "ended eof (jo s ! ?j)" and ?x = "x(?j := x ?j + 1)"
  let ?js = "(jo s)[?j := ?b]"
  have nj: "in_jobs ?js e i = in_jobs (jo s) e i" for e i using in_jobs_update [OF R(1), of ?b e i] by simp
  have js: "refs (?js ! k) = refs (jo s ! k)" "jid (?js ! k) = jid (jo s ! k)" "jchannel (?js ! k) = jchannel (jo s ! k)" for k
    by (simp_all add: nth_update)
  have o: "on_pass ?ps d k = (on_pass (pass s) d k \<and> d \<noteq> c)" for d k using assms(3) by (auto simp: on_pass_def)
  have oc: "on_pass (pass s) c k = (k = ?j)" for k using assms(2) by (auto simp: on_pass_def)
  have "hold_ok pend (pqchan s) (pqfail s) ?js (qf s)" using I(2) by (simp add: hold_ok_def held_def nj)
  moreover have "slots_ok ?js (dels s) (concurrencyused s) ?ps"
    using slots_update [OF I(4), of ?b] assms(3) by (simp add: slots_ok_def)
  moreover have "refs_ok ?x ?js (dels s) ?ps"
    unfolding refs_ok_def js
  proof (intro allI impI)
    fix k
    assume k: "k < length ?js"
    then have "refs (jo s ! k) = int (length (dels_of (dels s (jchannel (jo s ! k))) k) + (if on_pass (pass s) (jchannel (jo s ! k)) k then 1 else 0) + x k)"
      using I(5) by (simp add: refs_ok_def)
    then show "refs (jo s ! k) = int (length (dels_of (dels s (jchannel (jo s ! k))) k) + (if on_pass ?ps (jchannel (jo s ! k)) k then 1 else 0) + ?x k)"
      using o oc R(3) by (cases "k = ?j"; cases "jchannel (jo s ! k) = c") auto
  qed
  moreover have "pass_ok (qf s) ?ps" using I(6) assms(3) by (simp add: pass_ok_def)
  moreover have "jobs_ok arr (story s) T ?js (dels s) ?ps"
    unfolding jobs_ok_def
  proof (intro allI impI)
    fix k
    assume k: "k < length ?js" "0 < refs (?js ! k)"
    have g: "job_good arr (story s) (T k) (dels s) (pass s) k (jo s ! k)" using jobs_okD [OF I(7), of k] k by (simp add: js)
    show "job_good arr (story s) (T k) (dels s) ?ps k (?js ! k)"
    proof (cases "k = ?j")
      case True
      have l: "job_limit (arr (pass_id (pass s c)) c) ?ps k ?b \<le> pass_mpos (pass s c)"
        using job_goodD(5) [OF g] True R(3-5) assms(4) o by (auto simp: job_limit_def)
      have "?js ! k = ?b" using True R(1) by simp
      moreover have "job_good arr (story s) (T k) (dels s) ?ps k ?b"
        using g True R(3-5) l o unfolding job_good_def Let_def job_ok_def by (auto simp: job_limit_def)
      ultimately show ?thesis by simp
    next
      case False
      then have "job_good arr (story s) (T k) (dels s) (pass s) k (?js ! k)" using g by simp
      then show ?thesis by (rule job_good_pass) (use o oc False in \<open>auto simp: on_pass_def\<close>)
    qed
  qed
  ultimately show "inv arr pend ?x T ((set_job ?j (ended eof) s)\<lparr>pass := ?ps\<rparr>)" using I unfolding inv_def by simp
qed

lemma end_pass_good:
  assumes "inv arr pend (\<lambda>_. 0) T s" "pass_id (pass s c) \<noteq> 0" "pass_j (f (pass s c)) = pass_j (pass s c)"
    and "eof \<Longrightarrow> pass_mpos (pass s c) = length (arr (pass_id (pass s c)) c)"
    and "end_pass y c (set_job (pass_j (pass s c)) (ended eof) (set_pass c f s)) = Some s'"
  shows "good arr pend s'"
proof -
  let ?j = "pass_j (pass s c)" and ?p = "(f (pass s c))\<lparr>pass_id := 0\<rparr>"
  let ?s = "set_job ?j (ended eof) (set_pass c f s)"
  let ?P = "(pass s)(c := ?p)"
  obtain s1 where s1: "job_close y ?j ?s = Some s1" "s' = set_pass c (\<lambda>p. p\<lparr>pass_id := 0\<rparr>) s1"
    using assms(3,5) by (auto simp: end_pass_def bind_eq_Some_conv)
  have "pass s1 = (pass s)(c := f (pass s c))" using job_close_fields(3) [OF s1(1)] by simp
  then have s': "s' = s1\<lparr>pass := ?P\<rparr>" using s1(2) by (simp add: set_pass_def)
  have "?s\<lparr>pass := ?P\<rparr> = (set_job ?j (ended eof) s)\<lparr>pass := ?P\<rparr>" by (simp add: set_job_def set_pass_def)
  then have "job_close y ?j ((set_job ?j (ended eof) s)\<lparr>pass := ?P\<rparr>) = Some s'" using s1(1) s' job_close_pass [where y = y and j = ?j and s = ?s and P = ?P] by simp
  moreover have "inv arr pend ((\<lambda>_. 0)(?j := 0 + 1)) T ((set_job ?j (ended eof) s)\<lparr>pass := ?P\<rparr>)"
    using end_pass_inv(1) [OF assms(1,2), of ?p eof] assms(4) by simp
  ultimately have "inv arr pend (\<lambda>_. 0) T s'"
    using job_close_inv [of arr pend "(\<lambda>_. 0)(?j := 0 + 1)" T _ y ?j s'] end_pass_inv(2) [OF assms(1,2), of ?p False] by (simp add: fun_upd_idem)
  then show ?thesis by (rule goodI)
qed


lemma slots_pass:
  "slots_ok js ds cu ps \<Longrightarrow> pass_j p < length js \<and> jchannel (js ! pass_j p) = c \<and> jid (js ! pass_j p) = pass_id p \<Longrightarrow> slots_ok js ds cu (ps(c := p))"
  by (simp add: slots_ok_def)

text \<open>A record is read: \<open>N\<close> is the recipient, if it is one that is still to be delivered to.\<close>

lemma advance_inv:
  assumes "inv arr pend x T s" "pass_id (pass s c) \<noteq> 0" "pass_id p = pass_id (pass s c)" "pass_j p = pass_j (pass s c)"
    "pass_mpos (pass s c) < pass_mpos p" "reads (case_option [] (\<lambda>x. x) (fchan (qf s (pass_id p)) c)) p"
    and "\<And>q. q \<in> open_at (arr (pass_id p) c) \<Longrightarrow> pass_mpos (pass s c) \<le> q \<Longrightarrow> q < pass_mpos p \<Longrightarrow> q \<in> N \<or> q \<in> answered (story s (pass_id p)) c"
    and "N \<subseteq> open_at (arr (pass_id p) c)" "N \<subseteq> {pass_mpos (pass s c)..<pass_mpos p}"
  shows "inv arr pend x (T(pass_j p := T (pass_j p) \<union> N))
    ((set_job (pass_j p) (\<lambda>b. b\<lparr>numtodo := numtodo b + int (card N)\<rparr>) s)\<lparr>pass := (pass s)(c := p)\<rparr>)"
proof -
  note I = invD [OF assms(1)]
  note R = pass_refs [OF I(4,5) assms(2), folded assms(3,4)]
  let ?j = "pass_j p" and ?i = "pass_id p" and ?ps = "(pass s)(c := p)"
  let ?b = "(jo s ! ?j)\<lparr>numtodo := numtodo (jo s ! ?j) + int (card N)\<rparr>" and ?T = "T(?j := T ?j \<union> N)"
  let ?js = "(jo s)[?j := ?b]"
  have nj: "in_jobs ?js e i = in_jobs (jo s) e i" for e i using in_jobs_update [OF R(1), of ?b e i] by simp
  have js: "refs (?js ! k) = refs (jo s ! k)" "jid (?js ! k) = jid (jo s ! k)" "jchannel (?js ! k) = jchannel (jo s ! k)" for k
    by (simp_all add: nth_update)
  have o: "on_pass ?ps d k = on_pass (pass s) d k" for d k using assms(2-4) by (auto simp: on_pass_def)
  have oc: "on_pass (pass s) c k = (k = ?j)" for k using assms(2,4) by (auto simp: on_pass_def)
  have "hold_ok pend (pqchan s) (pqfail s) ?js (qf s)" using I(2) by (simp add: hold_ok_def held_def nj)
  moreover have "slots_ok ?js (dels s) (concurrencyused s) ?ps"
    using slots_update [OF I(4), of ?b ?j] R(1,3,4) by (intro slots_pass) simp_all
  moreover have "refs_ok x ?js (dels s) ?ps" using I(5) unfolding refs_ok_def js o by simp
  moreover have "pass_ok (qf s) ?ps" using I(6) assms(6) by (simp add: pass_ok_def)
  moreover have "jobs_ok arr (story s) ?T ?js (dels s) ?ps"
    unfolding jobs_ok_def
  proof (intro allI impI)
    fix k
    assume k: "k < length ?js" "0 < refs (?js ! k)"
    have g: "job_good arr (story s) (T k) (dels s) (pass s) k (jo s ! k)" using jobs_okD [OF I(7), of k] k by (simp add: js)
    show "job_good arr (story s) (?T k) (dels s) ?ps k (?js ! k)"
    proof (cases "k = ?j")
      case False
      then have "job_good arr (story s) (T k) (dels s) (pass s) k (?js ! k)" using g by simp
      then have "job_good arr (story s) (T k) (dels s) ?ps k (?js ! k)" by (rule job_good_pass) (use o oc False in \<open>auto simp: on_pass_def\<close>)
      then show ?thesis using False by simp
    next
      case True
      let ?u = "arr ?i c" and ?A = "answered (story s ?i) c"
      have b: "?js ! k = ?b" using True R(1) by simp
      have j: "jo s ! k = jo s ! ?j" using True by simp
      have old: "T ?j \<subseteq> {..<pass_mpos (pass s c)}" "\<not> flaghiteof (jo s ! ?j)" using job_goodD(5) [OF g] True oc R(3) by auto
      have "finite N" using assms(8) finite_open_at by (rule finite_subset)
      moreover have "T ?j \<inter> N = {}" using old(1) assms(9) by (meson atLeastLessThan_iff disjoint_iff leD lessThan_iff subsetD)
      ultimately have card: "int (card (T ?j \<union> N)) = int (card (T ?j)) + int (card N)"
        using job_goodD(6) [OF g] True by (simp add: card_Un_disjoint)
      have lim: "job_limit ?u (pass s) k (jo s ! k) = pass_mpos (pass s c)" "job_limit ?u ?ps k ?b = pass_mpos p"
        using True R(3) oc o by (simp_all add: job_limit_def)
      have jo: "job_ok ?u ?A (T ?j) (pass_mpos (pass s c)) (map mpos (dels_of (dels s c) k)) (jo s ! ?j)"
        using g True R(3,4) lim(1) by (simp add: job_good_def Let_def)
      have "job_ok ?u ?A (T ?j \<union> N) (pass_mpos p) (map mpos (dels_of (dels s c) k)) ?b"
        using jo card assms(7,8) unfolding job_ok_def by (auto simp: not_less) (metis not_le)
      moreover have "T ?j \<union> N \<subseteq> {..<pass_mpos p}" using old(1) assms(5,9) by (auto simp: subset_iff)
      ultimately show ?thesis unfolding b job_good_def Let_def using True R(3,4) lim(2) old(2) by simp
    qed
  qed
  ultimately show ?thesis using I unfolding inv_def by simp
qed

text \<open>What the next record of the file is.\<close>

lemma record_read:
  assumes "reads x p" "in_stream (\<lambda>off. drop off x) (pass_ss p) = l @ NUL # in_stream (\<lambda>off. drop off x) ss" "NUL \<notin> set l" "in_inv ss"
  shows "reads x (p\<lparr>pass_ss := ss, pass_mpos := pass_mpos p + (length l + 1)\<rparr>)" "pass_mpos p < length x"
    and "\<And>q. pass_mpos p < q \<Longrightarrow> q < pass_mpos p + (length l + 1) \<Longrightarrow> x ! (q - 1) \<noteq> NUL" "l \<noteq> [] \<Longrightarrow> x ! pass_mpos p = hd l"
proof -
  let ?m = "pass_mpos p" let ?rest = "in_stream (\<lambda>off. drop off x) ss"
  have d: "drop ?m x = l @ NUL # ?rest" "?m \<le> length x" using assms(1,2) by (auto simp: reads_def)
  have "length (drop ?m x) = length (l @ NUL # ?rest)" by (simp only: d(1))
  then have len: "length x - ?m = length l + 1 + length ?rest" by simp
  then show "?m < length x" by simp
  have nth: "x ! (?m + k) = (l @ NUL # ?rest) ! k" for k using nth_drop [OF d(2), of k] by (simp only: d(1))
  have "drop (?m + (length l + 1)) x = drop (length l + 1) (drop ?m x)" by (simp add: add.commute)
  then have "drop (?m + (length l + 1)) x = ?rest" using d(1) by simp
  moreover have "x ! (?m + (length l + 1) - 1) = NUL" using nth [of "length l"] by simp
  moreover have "?m + (length l + 1) \<le> length x" using len d(2) by linarith
  ultimately show "reads x (p\<lparr>pass_ss := ss, pass_mpos := ?m + (length l + 1)\<rparr>)" using assms(4) by (simp add: reads_def)
  show "x ! (q - 1) \<noteq> NUL" if "?m < q" "q < ?m + (length l + 1)" for q
  proof -
    have "q - 1 - ?m < length l" "q - 1 = ?m + (q - 1 - ?m)" using that by linarith+
    then have "x ! (q - 1) = l ! (q - 1 - ?m)" using nth [of "q - 1 - ?m"] by (simp add: nth_append)
    then show ?thesis using \<open>q - 1 - ?m < length l\<close> assms(3) by (metis nth_mem)
  qed
  show "x ! ?m = hd l" if "l \<noteq> []" using nth [of 0] that by (simp add: hd_conv_nth nth_append)
qed

lemma quiet_pass:
  "comm_write c n i sendr rcp (s\<lparr>pass := P\<rparr>) = (comm_write c n i sendr rcp s)\<lparr>pass := P\<rparr>"
  "del_status (s\<lparr>pass := P\<rparr>) = (del_status s)\<lparr>pass := P\<rparr>" "log2 t t2 (s\<lparr>pass := P\<rparr>) = (log2 t t2 s)\<lparr>pass := P\<rparr>"
  by (simp add: comm_write_def) (simp_all add: del_status_def status_chan_def log2_def log1_def Let_def channels_eq)

lemma del_start_pass: "del_start y j pos rcp (s\<lparr>pass := P\<rparr>) = (del_start y j pos rcp s)\<lparr>pass := P\<rparr>"
proof -
  let ?c = "jchannel (jo s ! j)"
  have f: "jo (s\<lparr>pass := P\<rparr>) = jo s" "flagspawnalive (s\<lparr>pass := P\<rparr>) = flagspawnalive s" "comm_canwrite ?c (s\<lparr>pass := P\<rparr>) = comm_canwrite ?c s"
    "free_del ?c (s\<lparr>pass := P\<rparr>) = free_del ?c s" "dels (s\<lparr>pass := P\<rparr>) = dels s" "masterdelid (s\<lparr>pass := P\<rparr>) = masterdelid s"
    by (simp_all add: comm_canwrite_def free_del_def)
  have u: "(s\<lparr>pass := P\<rparr>)\<lparr>dels := D, masterdelid := m, concurrencyused := U\<rparr> = (s\<lparr>dels := D, masterdelid := m, concurrencyused := U\<rparr>)\<lparr>pass := P\<rparr>" for s :: send and D m U
    by simp
  have g: "dels (s\<lparr>pass := P\<rparr>) = dels s" "concurrencyused (s\<lparr>pass := P\<rparr>) = concurrencyused s" "jo (s\<lparr>pass := P\<rparr>) = jo s" for s :: send by simp_all
  show ?thesis unfolding del_start_def Let_def f slots g u quiet_pass by (simp only: if_distrib [of "\<lambda>s. s\<lparr>pass := P\<rparr>"])
qed

lemma del_start_keeps: "pass (del_start y j pos rcp s) = pass s"
proof -
  have "del_start y j pos rcp s = (del_start y j pos rcp s)\<lparr>pass := pass s\<rparr>" unfolding del_start_pass [symmetric] by simp
  moreover have "pass ((del_start y j pos rcp s)\<lparr>pass := pass s\<rparr>) = pass s" by simp
  ultimately show ?thesis by simp
qed


lemma file_chan: "files_ok arr st fs \<Longrightarrow> active (fs i) \<Longrightarrow> chan_ok (arr i c) (answered (st i) c) (finfo (fs i) \<noteq> None) (fchan (fs i) c)"
  unfolding files_ok_def file_ok_def active_def by blast

lemma set_pass_const: "set_pass c f s = s\<lparr>pass := (pass s)(c := f (pass s c))\<rparr>"
  by (simp add: set_pass_def)

text \<open>The record at the position of the pass has been read as \<open>l\<close>, and \<open>ss\<close> is the rest.\<close>

lemma pass_record_good:
  assumes "inv arr pend (\<lambda>_. 0) T s" "pass_id (pass s c) \<noteq> 0"
    and "in_stream (\<lambda>off. drop off (chan_content (pass_id (pass s c)) c s)) (pass_ss (pass s c)) =
      l @ NUL # in_stream (\<lambda>off. drop off (chan_content (pass_id (pass s c)) c s)) ss" "NUL \<notin> set l" "in_inv ss"
    and "pass_record y c (l @ [NUL]) (set_pass c (\<lambda>p. p\<lparr>pass_ss := ss\<rparr>) s) = Some s'"
  shows "good arr pend s'"
proof -
  note I = invD [OF assms(1)]
  let ?p = "pass s c" let ?i = "pass_id ?p" and ?j = "pass_j ?p" let ?x = "chan_content ?i c s"
  note R = pass_refs [OF I(4,5) assms(2)]
  have a0: "active (qf s ?i) \<and> fchan (qf s ?i) c \<noteq> None" using held_active [OF I(2)] R(6) by blast
  then have act: "active (qf s ?i)" "fchan (qf s ?i) c = Some ?x" by (auto simp: chan_content_def)
  have ok: "chan_ok (arr ?i c) (answered (story s ?i) c) (finfo (qf s ?i) \<noteq> None) (fchan (qf s ?i) c)"
    using file_chan [OF I(3) act(1)] .
  have m: "marked (arr ?i c) (answered (story s ?i) c) ?x" using ok act(2) by (simp add: chan_ok_def)
  have r: "reads ?x ?p" using I(6) assms(2) by (simp add: pass_ok_def chan_content_def)
  note rec = record_read [OF r assms(3-5)]
  let ?q = "?p\<lparr>pass_ss := ss, pass_mpos := pass_mpos ?p + (length l + 1)\<rparr>"
  let ?P = "(pass s)(c := ?q)"
  have st: "q = pass_mpos ?p" if "q \<in> open_at (arr ?i c)" "pass_mpos ?p \<le> q" "q < pass_mpos ?p + (length l + 1)" for q
  proof (rule ccontr)
    assume "q \<noteq> pass_mpos ?p"
    then have "pass_mpos ?p < q" using that(2) by simp
    moreover have "x = NUL" if "x = ?x ! (q - 1)" for x
      using marked_starts [OF m, of "q - 1"] open_at_less [OF \<open>q \<in> open_at (arr ?i c)\<close>] \<open>q \<in> open_at (arr ?i c)\<close> \<open>pass_mpos ?p < q\<close> that
      by (auto simp: open_at_def starts_def)
    ultimately show False using rec(3) [OF _ that(3)] by simp
  qed
  have adv: "inv arr pend (\<lambda>_. 0) (T(?j := T ?j \<union> N)) ((set_job ?j (\<lambda>b. b\<lparr>numtodo := numtodo b + int (card N)\<rparr>) s)\<lparr>pass := ?P\<rparr>)"
    if "N \<subseteq> {pass_mpos ?p}" "N \<subseteq> open_at (arr ?i c)" "pass_mpos ?p \<in> open_at (arr ?i c) \<Longrightarrow> pass_mpos ?p \<in> N \<or> pass_mpos ?p \<in> answered (story s ?i) c" for N
  proof -
    have "inv arr pend (\<lambda>_. 0) (T(pass_j ?q := T (pass_j ?q) \<union> N)) ((set_job (pass_j ?q) (\<lambda>b. b\<lparr>numtodo := numtodo b + int (card N)\<rparr>) s)\<lparr>pass := ?P\<rparr>)"
    proof (rule advance_inv [OF assms(1,2)])
      show "reads (case_option [] (\<lambda>x. x) (fchan (qf s (pass_id ?q)) c)) ?q" using rec(1) by (simp add: chan_content_def)
      show "q \<in> N \<or> q \<in> answered (story s (pass_id ?q)) c"
        if "q \<in> open_at (arr (pass_id ?q) c)" "pass_mpos ?p \<le> q" "q < pass_mpos ?q" for q
        using st [of q] that \<open>pass_mpos ?p \<in> open_at (arr ?i c) \<Longrightarrow> pass_mpos ?p \<in> N \<or> pass_mpos ?p \<in> answered (story s ?i) c\<close> by simp
    qed (use that(1,2) in auto)
    then show ?thesis by simp
  qed
  have len: "pass_mpos ?p < length (arr ?i c)" using rec(2) m by (simp add: marked_def)
  have line: "char_at (l @ [NUL]) 0 = ch \<Longrightarrow> ch \<noteq> NUL \<Longrightarrow> l \<noteq> [] \<and> ?x ! pass_mpos ?p = ch" for ch
    using rec(4) by (cases l) auto
  consider (T) "char_at (l @ [NUL]) 0 = CHR ''T''" | (D) "char_at (l @ [NUL]) 0 = CHR ''D''"
    | (bad) "char_at (l @ [NUL]) 0 \<noteq> CHR ''T''" "char_at (l @ [NUL]) 0 \<noteq> CHR ''D''" by blast
  then show ?thesis
  proof cases
    case T
    let ?m = "pass_mpos ?p"
    have "?x ! ?m = CHR ''T''" using line [OF T] by simp
    moreover have "?m = 0 \<or> ?x ! (?m - 1) = NUL" using r by (auto simp: reads_def)
    ultimately have o: "?m \<in> open_at (arr ?i c)" using marked_open [OF m len] by simp
    let ?s1 = "set_job ?j (\<lambda>b. b\<lparr>numtodo := numtodo b + 1\<rparr>) s"
    have a: "inv arr pend (\<lambda>_. 0) (T(?j := T ?j \<union> {?m})) (?s1\<lparr>pass := ?P\<rparr>)" using adv [of "{?m}"] o by simp
    have g: "job_good arr (story s) (T ?j) (dels s) (pass s) ?j (jo s ! ?j)" using jobs_okD [OF I(7) R(1,2)] .
    have "?m \<notin> T ?j" using job_goodD(5) [OF g] R(3,5) by auto
    then have "?m \<notin> mpos ` set (dels_of (dels s c) ?j)" using job_goodD(2) [OF g] R(3) by auto
    then have d: "inv arr pend (\<lambda>_. 0) (T(?j := T ?j \<union> {?m})) (del_start y ?j ?m (tl (l @ [NUL])) (?s1\<lparr>pass := ?P\<rparr>))"
      using R(1-3) by (intro del_start_inv [OF a]) simp_all
    let ?s2 = "?s1\<lparr>pass := (pass s)(c := ?p\<lparr>pass_ss := ss\<rparr>)\<rparr>"
    have "s' = set_pass c (\<lambda>p. p\<lparr>pass_mpos := pass_mpos p + length (l @ [NUL])\<rparr>) (del_start y ?j ?m (tl (l @ [NUL])) ?s2)"
      using assms(6) T by (simp add: pass_record_def Let_def set_pass_const slots)
    also have "\<dots> = (del_start y ?j ?m (tl (l @ [NUL])) ?s2)\<lparr>pass := ?P\<rparr>" by (simp add: set_pass_const del_start_keeps)
    also have "\<dots> = del_start y ?j ?m (tl (l @ [NUL])) (?s1\<lparr>pass := ?P\<rparr>)" by (simp only: del_start_pass) simp
    finally show ?thesis using d by (auto intro: goodI)
  next
    case D
    have "?x ! pass_mpos ?p \<noteq> CHR ''T''" using line [OF D] by simp
    then have ans: "pass_mpos ?p \<in> open_at (arr ?i c) \<Longrightarrow> pass_mpos ?p \<in> answered (story s ?i) c" using marked_answered [OF m] by blast
    have a: "inv arr pend (\<lambda>_. 0) (T(?j := T ?j \<union> {})) ((set_job ?j (\<lambda>b. b\<lparr>numtodo := numtodo b + int (card ({} :: nat set))\<rparr>) s)\<lparr>pass := ?P\<rparr>)"
      by (rule adv) (use ans in simp_all)
    have "s' = s\<lparr>pass := ?P\<rparr>" using assms(6) D by (simp add: pass_record_def Let_def set_pass_const)
    moreover have "set_job ?j (\<lambda>b. b\<lparr>numtodo := numtodo b + int (card ({} :: nat set))\<rparr>) s = s" by (simp add: set_job_def)
    ultimately show ?thesis using a goodI by simp
  next
    case bad
    let ?t = "''warning: unknown record type in ''" and ?u = "''!'' @ [LF]"
    let ?l = "log3 ?t (fname_chan ?i c) ?u s"
    have "log3 ?t (fname_chan ?i c) ?u (set_pass c (\<lambda>p. p\<lparr>pass_ss := ss\<rparr>) s) = set_job ?j (ended False) (set_pass c (\<lambda>p. p\<lparr>pass_ss := ss\<rparr>) ?l)"
      by (simp add: set_pass_const log_slots set_job_def ended_def)
    then have "end_pass y c (set_job (pass_j (pass ?l c)) (ended False) (set_pass c (\<lambda>p. p\<lparr>pass_ss := ss\<rparr>) ?l)) = Some s'"
      using assms(6) bad by (simp add: pass_record_def Let_def)
    then show ?thesis using end_pass_good [of arr pend T ?l c "\<lambda>p. p\<lparr>pass_ss := ss\<rparr>" False y s'] assms(1,2) by simp
  qed
qed


lemma ended_eqs: "set_job j (ended False) s = s" "ended True = (\<lambda>b. b\<lparr>flaghiteof := True\<rparr>)"
  by (simp_all add: set_job_def ended_def fun_eq_iff)

lemma pass_line_good:
  assumes "good arr pend s" "pass_id (pass s c) \<noteq> 0" "pass_line y c s = Some s'"
  shows "good arr pend s'"
proof -
  obtain T where i: "inv arr pend (\<lambda>_. 0) T s" using assms(1) by (auto simp: good_def)
  note I = invD [OF i]
  let ?p = "pass s c" let ?i = "pass_id ?p" let ?x = "chan_content ?i c s"
  note R = pass_refs [OF I(4,5) assms(2)]
  have r: "reads ?x ?p" using I(6) assms(2) by (simp add: pass_ok_def chan_content_def)
  then have "in_inv (pass_ss ?p)" by (simp add: reads_def)
  then show ?thesis
  proof (cases rule: flr.getln_any [where broken = "denied y Read_chan" and content = ?x and mem = "smem y" and sa = "[]" and m = False and sep = NUL])
    case (fail ss' sa')
    let ?l = "log3 ''warning: trouble reading '' (fname_chan ?i c) (''; will try again later'' @ [LF]) s"
    have "end_pass y c (set_job (pass_j ?p) (ended False) (set_pass c (\<lambda>p. p\<lparr>pass_ss := ss'\<rparr>) ?l)) = Some s'"
      using assms(3) fail(1) by (simp add: pass_line_def Let_def ended_eqs set_pass_const log_slots)
    then show ?thesis using end_pass_good [of arr pend T ?l c "\<lambda>p. p\<lparr>pass_ss := ss'\<rparr>" False y s'] i assms(2) by simp
  next
    case (line ss' l)
    have "pass_record y c (l @ [NUL]) (set_pass c (\<lambda>p. p\<lparr>pass_ss := ss'\<rparr>) s) = Some s'"
      using assms(3) line(1) by (simp add: pass_line_def Let_def)
    then show ?thesis using pass_record_good [OF i assms(2) line(3,2,4)] by simp
  next
    case (rest ss')
    have a: "active (qf s ?i) \<and> fchan (qf s ?i) c \<noteq> None" using held_active [OF I(2)] R(6) by blast
    then have ch: "chan_ok (arr ?i c) (answered (story s ?i) c) (finfo (qf s ?i) \<noteq> None) (Some ?x)"
      using file_chan [OF I(3), of ?i c] by (auto simp: chan_content_def)
    then have m: "marked (arr ?i c) (answered (story s ?i) c) ?x" and w: "whole (arr ?i c)" by (simp_all add: chan_ok_def)
    have e: "length (arr ?i c) = length ?x" using m by (simp add: marked_def)
    have d: "NUL \<notin> set (drop (pass_mpos ?p) ?x)" "pass_mpos ?p \<le> length ?x" using rest(2) r by (auto simp: reads_def)
    have "pass_mpos ?p = length (arr ?i c)"
    proof (rule ccontr)
      assume "pass_mpos ?p \<noteq> length (arr ?i c)"
      then have lt: "pass_mpos ?p < length ?x" using d(2) e by simp
      then have ne: "arr ?i c \<noteq> []" "?x \<noteq> []" using e by auto
      then have "arr ?i c ! (length ?x - 1) = NUL" using w e by (simp add: whole_def last_conv_nth)
      then have "?x ! (length ?x - 1) = NUL" using marked_starts [OF m, of "length ?x - 1"] ne e by simp
      then have "last (drop (pass_mpos ?p) ?x) = NUL" using lt ne by (simp add: last_drop last_conv_nth)
      moreover have "drop (pass_mpos ?p) ?x \<noteq> []" using lt by simp
      ultimately show False using d(1) last_in_set by metis
    qed
    moreover have "end_pass y c (set_job (pass_j ?p) (ended True) (set_pass c (\<lambda>p. p\<lparr>pass_ss := ss'\<rparr>) s)) = Some s'"
      using assms(3) rest(1) by (simp add: pass_line_def Let_def ended_eqs)
    ultimately show ?thesis using end_pass_good [OF i assms(2), of "\<lambda>p. p\<lparr>pass_ss := ss'\<rparr>" True y s'] by simp
  qed
qed

text \<open>A message is taken from the queue of a channel.\<close>

lemma take_chan_inv:
  assumes "inv arr pend x T s" "prioq_min (pqchan s c) = Some pe"
  defines "s' \<equiv> s\<lparr>pqchan := (pqchan s)(c := prioq_delmin (pqchan s c))\<rparr>"
  shows "inv arr pend x T s'" "held pend (pqchan s') (pqfail s') (jo s') c (Prioq.id pe) = 0" "active (qf s (Prioq.id pe))" "fchan (qf s (Prioq.id pe)) c \<noteq> None"
proof -
  note I = invD [OF assms(1)]
  have pq: "prioq_inv (pqchan s c)" using I(1) by (simp add: pqs_ok_def)
  note d = pq_min_del [OF pq assms(2)]
  have pos: "0 < pq_count (pqchan s c) (Prioq.id pe)" using d(2) [of "Prioq.id pe"] by simp
  show "active (qf s (Prioq.id pe))" "fchan (qf s (Prioq.id pe)) c \<noteq> None" using held_active [OF I(2)] pos by blast+
  have le: "pq_count (pqchan s' e) i \<le> pq_count (pqchan s e) i" for e i using d(2) [of i] by (simp add: s'_def)
  have "pqs_ok (pqchan s') (pqdone s) (pqfail s)" using I(1) d(1) by (simp add: pqs_ok_def s'_def)
  moreover have "hold_ok pend (pqchan s') (pqfail s) (jo s) (qf s)"
  proof (rule hold_okI [OF I(2)])
    fix e i
    show "held pend (pqchan s') (pqfail s) (jo s) e i \<le> held pend (pqchan s) (pqfail s) (jo s) e i \<or> held pend (pqchan s') (pqfail s) (jo s) e i \<le> 1"
      using le [of e i] by (simp add: held_def)
    show "0 < pq_count (pqchan s' e) i + in_jobs (jo s) e i + in_pend pend e i \<Longrightarrow>
        0 < pq_count (pqchan s e) i + in_jobs (jo s) e i + in_pend pend e i \<or> active (qf s i) \<and> fchan (qf s i) e \<noteq> None"
      using le [of e i] by linarith
  qed (rule hold_distinct [OF I(2)])
  ultimately show "inv arr pend x T s'" using I by (simp add: inv_def s'_def)
  show "held pend (pqchan s') (pqfail s') (jo s') c (Prioq.id pe) = 0"
    using held_le [OF I(2), of c "Prioq.id pe"] d(2) [of "Prioq.id pe"] by (simp add: held_def s'_def)
qed

lemma open_pass_inv:
  assumes "inv arr pend (\<lambda>_. 0) T s" "pass_id (pass s c) = 0" "held pend (pqchan s) (pqfail s) (jo s) c i = 0" "active (qf s i)"
    "fchan (qf s i) c = Some content" "j < length (jo s)" "refs (jo s ! j) = 0"
    and "refs b = 1" "jid b = i" "jchannel b = c" "numtodo b = 0" "\<not> flaghiteof b"
    and "pass_id p = i" "pass_j p = j" "pass_mpos p = 0" "pass_ss p = open_file"
  shows "inv arr pend (\<lambda>_. 0) (T(j := {})) (s\<lparr>jo := (jo s)[j := b], pass := (pass s)(c := p)\<rparr>)"
proof -
  note I = invD [OF assms(1)]
  let ?js = "(jo s)[j := b]" and ?ps = "(pass s)(c := p)"
  have i: "i \<noteq> 0" using assms(4) I(3) by (auto simp: files_ok_def)
  have nj: "in_jobs ?js e k = in_jobs (jo s) e k + (if e = c \<and> k = i then 1 else 0)" for e k
    using in_jobs_update [OF assms(6), of b e k] assms(7-10) by auto
  have nod: "dj d \<noteq> j" if "d \<in> set (dels s e)" "used d" for d e
    using del_refs(2) [OF I(4,5) that] assms(7) by auto
  have nop: "pass_id (pass s e) \<noteq> 0 \<Longrightarrow> pass_j (pass s e) \<noteq> j" for e using pass_refs(2) [OF I(4,5), of e] assms(7) by auto
  have dn: "dels_of (dels s e) j = []" for e using nod by (auto simp: dels_of_def filter_empty_conv)
  have o: "on_pass ?ps e k = (if e = c then k = j else on_pass (pass s) e k)" for e k using assms(13,14) i by (auto simp: on_pass_def)
  have op: "\<not> on_pass (pass s) c k" "\<not> on_pass (pass s) e j" for e k using assms(2) nop by (auto simp: on_pass_def)
  have xj: "refs (jo s ! k) = int (length (dels_of (dels s (jchannel (jo s ! k))) k) + (if on_pass (pass s) (jchannel (jo s ! k)) k then 1 else 0))"
    if "k < length (jo s)" for k using I(5) that by (simp add: refs_ok_def)
  have "hold_ok pend (pqchan s) (pqfail s) ?js (qf s)"
  proof (rule hold_okI [OF I(2)])
    fix e k
    show "held pend (pqchan s) (pqfail s) ?js e k \<le> held pend (pqchan s) (pqfail s) (jo s) e k \<or> held pend (pqchan s) (pqfail s) ?js e k \<le> 1"
      using assms(3) nj by (auto simp: held_def)
    show "0 < pq_count (pqchan s e) k + in_jobs ?js e k + in_pend pend e k \<Longrightarrow>
        0 < pq_count (pqchan s e) k + in_jobs (jo s) e k + in_pend pend e k \<or> active (qf s k) \<and> fchan (qf s k) e \<noteq> None"
      using nj assms(4,5) by (auto split: if_split_asm)
  qed (rule hold_distinct [OF I(2)])
  moreover have "slots_ok ?js (dels s) (concurrencyused s) ?ps"
    using I(4) nod nop assms(6,9,10,13,14) unfolding slots_ok_def by (simp add: nth_update)
  moreover have "refs_ok (\<lambda>_. 0) ?js (dels s) ?ps"
    unfolding refs_ok_def
  proof (intro allI impI)
    fix k
    assume k: "k < length ?js"
    show "refs (?js ! k) = int (length (dels_of (dels s (jchannel (?js ! k))) k) + (if on_pass ?ps (jchannel (?js ! k)) k then 1 else 0) + 0)"
    proof (cases "k = j")
      case True
      then show ?thesis using assms(6,8,10) dn o by simp
    next
      case False
      then show ?thesis using xj [of k] k o op(1) by auto
    qed
  qed
  moreover have "pass_ok (qf s) ?ps"
    using I(6) assms(5,13,15,16) open_file_stream unfolding pass_ok_def by (simp add: reads_def)
  moreover have "jobs_ok arr (story s) (T(j := {})) ?js (dels s) ?ps"
    unfolding jobs_ok_def
  proof (intro allI impI)
    fix k
    assume k: "k < length ?js" "0 < refs (?js ! k)"
    show "job_good arr (story s) ((T(j := {})) k) (dels s) ?ps k (?js ! k)"
    proof (cases "k = j")
      case True
      then show ?thesis using assms(6,10-12,15) dn o by (simp add: job_good_def Let_def job_ok_def job_limit_def)
    next
      case False
      then have "job_good arr (story s) (T k) (dels s) (pass s) k (jo s ! k)" using jobs_okD [OF I(7), of k] k by simp
      then have "job_good arr (story s) (T k) (dels s) ?ps k (jo s ! k)" by (rule job_good_pass) (use o op False in \<open>auto simp: on_pass_def\<close>)
      then show ?thesis using False by simp
    qed
  qed
  ultimately show ?thesis using I unfolding inv_def by simp
qed


lemma set_pass_pass: "pass (set_pass c f s) c = f (pass s c)"
  by simp

lemma pass_open_good:
  assumes "good arr pend s" "pass_open y conf c s = Some (go, s')"
  shows "good arr pend s'" "go \<Longrightarrow> pass_id (pass s' c) \<noteq> 0"
proof -
  obtain T where i: "inv arr pend (\<lambda>_. 0) T s" using assms(1) by (auto simp: good_def)
  have "good arr pend s' \<and> (go \<longrightarrow> pass_id (pass s' c) \<noteq> 0)"
  proof (cases "pass_id (pass s c) \<noteq> 0")
    case True
    then show ?thesis using assms by (simp add: pass_open_def)
  next
    case idle: False
    show ?thesis
    proof (cases "\<not> job_avail s \<or> prioq_min (pqchan s c) = None \<or> dt (the (prioq_min (pqchan s c))) > recent s")
      case True
      then show ?thesis using assms idle by (auto simp: pass_open_def split: option.splits if_split_asm)
    next
      case False
      then obtain pe where pe: "prioq_min (pqchan s c) = Some pe" "\<not> dt pe > recent s" "job_avail s" by auto
      let ?i = "Prioq.id pe"
      let ?s1 = "s\<lparr>pqchan := (pqchan s)(c := prioq_delmin (pqchan s c))\<rparr>" let ?s2 = "set_pass c (\<lambda>p. p\<lparr>pass_mpos := 0\<rparr>) ?s1"
      note tk = take_chan_inv [OF i pe(1)]
      have i2: "inv arr pend (\<lambda>_. 0) T ?s2" using idle_pass_inv [OF tk(1), of c "(pass s c)\<lparr>pass_mpos := 0\<rparr>"] idle by (simp add: set_pass_def)
      have h2: "held pend (pqchan ?s2) (pqfail ?s2) (jo ?s2) c ?i = 0" "active (qf ?s2 ?i)" "fchan (qf ?s2 ?i) c \<noteq> None" using tk(2-4) by simp_all
      obtain content where content: "fchan (qf ?s2 ?i) c = Some content" using h2(3) by auto
      have run: "pass_open y conf c s = (if denied y Open_chan then pass_trouble c ?i ?s2
         else case getinfo y ?i ?s2 of None \<Rightarrow> pass_trouble c ?i ?s2
            | Some (line, birth) \<Rightarrow> Option.bind (job_open ?i c ?s2) (\<lambda>(j, s). Some (True, set_job j (\<lambda>b. b\<lparr>jretry := nextretry (recent s) (chanskip c) birth,
                flagdying := recent s > birth + lifetime conf, jsender := line\<rparr>) (set_pass c (\<lambda>p. p\<lparr>pass_id := ?i, pass_ss := open_file, pass_j := j\<rparr>) s))))"
        using pe idle content by (simp add: pass_open_def Let_def)
      have trouble: "good arr pend t \<and> \<not> g" if "pass_trouble c ?i ?s2 = Some (g, t)" for g t
      proof -
        let ?l = "log3 ''warning: trouble opening '' (fname_chan ?i c) (''; will try again later'' @ [LF]) ?s2"
        have r: "put_chan c \<lparr>dt = recent ?s2 + SLEEP_SYSFAIL, id = ?i\<rparr> ?l = Some t" "\<not> g" using that by (auto simp: pass_trouble_def)
        have l: "inv arr pend (\<lambda>_. 0) T ?l" using i2 by simp
        have "inv arr pend (\<lambda>_. 0) T t" by (rule put_chan_inv(1) [OF l r(1)]) (use h2 in simp_all)
        then show ?thesis using r(2) goodI by simp
      qed
      show ?thesis
      proof (cases "denied y Open_chan \<or> getinfo y ?i ?s2 = None")
        case True
        then have "pass_trouble c ?i ?s2 = Some (go, s')" using run assms(2) by (cases "denied y Open_chan") simp_all
        then show ?thesis using trouble by blast
      next
        case False
        then obtain line birth where g: "getinfo y ?i ?s2 = Some (line, birth)" by auto
        let ?j = "free_job s"
        have j: "?j < length (jo s)" "refs (jo s ! ?j) = 0"
          using pe(3) takeWhile_stops [of "\<lambda>b. refs b \<noteq> 0" "jo s"] by (auto simp: job_avail_def free_job_def)
        have fj: "free_job ?s2 = ?j" by (simp add: free_job_def)
        let ?b = "(jo s ! ?j)\<lparr>refs := 1, jid := ?i, jchannel := c, numtodo := 0, flaghiteof := False, jretry := nextretry (recent s) (chanskip c) birth,
            flagdying := recent s > birth + lifetime conf, jsender := line\<rparr>"
        let ?p = "(pass s c)\<lparr>pass_mpos := 0, pass_id := ?i, pass_ss := open_file, pass_j := ?j\<rparr>"
        have s': "s' = ?s2\<lparr>jo := (jo ?s2)[?j := ?b], pass := (pass ?s2)(c := ?p)\<rparr>" and go
          using run assms(2) False g j fj by (auto simp: job_open_def Let_def set_job_def set_pass_def)
        have "inv arr pend (\<lambda>_. 0) (T(?j := {})) s'" unfolding s'
          by (rule open_pass_inv [OF i2 _ h2(1,2) content]) (use idle j in simp_all)
        moreover have "?i \<noteq> 0" using h2(2) invD(3) [OF i2] by (auto simp: files_ok_def)
        ultimately show ?thesis using s' by (auto intro: goodI)
      qed
    qed
  qed
  then show "good arr pend s'" "go \<Longrightarrow> pass_id (pass s' c) \<noteq> 0" by simp_all
qed

lemma pass_dochan_good: "good arr pend s \<Longrightarrow> pass_dochan y conf c s = Some s' \<Longrightarrow> good arr pend s'"
  by (auto simp: pass_dochan_def bind_eq_Some_conv split: if_split_asm dest: pass_open_good intro: pass_line_good)

section \<open>Messages that are new or have to be examined again\<close>

lemma stat_chans_there: "stat_chans y i cs s = Inr ds \<Longrightarrow> ds = filter (\<lambda>c. fchan (qf s i) c \<noteq> None) cs"
  by (induction cs arbitrary: ds) (auto simp: stat_def andthen_def split: stat.splits sum.splits if_split_asm)

lemma put_chans_inv:
  assumes "inv arr pend x T s" "put_chans pe cs s = Some s'" "distinct cs" "\<And>c. c \<in> set cs \<Longrightarrow> Prioq.id (pe c) = i"
    and "\<And>c. c \<in> set cs \<Longrightarrow> held pend (pqchan s) (pqfail s) (jo s) c i = 0 \<and> active (qf s i) \<and> fchan (qf s i) c \<noteq> None"
  shows "inv arr pend x T s' \<and> (\<forall>d k. d \<notin> set cs \<or> k \<noteq> i \<longrightarrow> held pend (pqchan s') (pqfail s') (jo s') d k = held pend (pqchan s) (pqfail s) (jo s) d k)"
  using assms
proof (induction cs arbitrary: s)
  case (Cons c cs)
  then obtain s1 where s1: "put_chan c (pe c) s = Some s1" "put_chans pe cs s1 = Some s'" by (auto simp: bind_eq_Some_conv)
  have c: "Prioq.id (pe c) = i" "held pend (pqchan s) (pqfail s) (jo s) c i = 0" "active (qf s i)" "fchan (qf s i) c \<noteq> None" using Cons.prems(4) [of c] Cons.prems(5) [of c] by simp_all
  note P = put_chan_inv [OF Cons.prems(1) s1(1), unfolded c(1), OF c(2-4)]
  have "inv arr pend x T s' \<and> (\<forall>d k. d \<notin> set cs \<or> k \<noteq> i \<longrightarrow> held pend (pqchan s') (pqfail s') (jo s') d k = held pend (pqchan s1) (pqfail s1) (jo s1) d k)"
  proof (rule Cons.IH [OF P(1) s1(2)])
    fix d
    assume d: "d \<in> set cs"
    then have "d \<noteq> c" using Cons.prems(3) by auto
    then show "held pend (pqchan s1) (pqfail s1) (jo s1) d i = 0 \<and> active (qf s1 i) \<and> fchan (qf s1 i) d \<noteq> None"
      using Cons.prems(5) [of d] P(2) P(4) [of d i] d by simp
  qed (use Cons.prems(3,4) in simp_all)
  then show ?case using P(4) by auto
qed simp

lemma pqadd_inv:
  assumes "inv arr pend x T s" "pqadd y i s = Some s'" "\<And>c. held pend (pqchan s) (pqfail s) (jo s) c i = 0"
  shows "inv arr pend x T s' \<and> (\<forall>d k. k \<noteq> i \<longrightarrow> held pend (pqchan s') (pqfail s') (jo s') d k = held pend (pqchan s) (pqfail s) (jo s) d k)"
proof -
  have fail: "inv arr pend x T s' \<and> (\<forall>d k. k \<noteq> i \<longrightarrow> held pend (pqchan s') (pqfail s') (jo s') d k = held pend (pqchan s) (pqfail s) (jo s) d k)"
    if "pqadd_fail y i name s = Some s'" for name
  proof -
    let ?l = "log3 ''warning: unable to stat '' name (''; will try again later'' @ [LF]) s"
    have "put_fail \<lparr>dt = clock y + SLEEP_SYSFAIL, id = i\<rparr> ?l = Some s'" "inv arr pend x T ?l" using that assms(1) by (simp_all add: pqadd_fail_def)
    from put_fail_inv [OF this(2,1)] assms(3) show ?thesis by simp
  qed
  show ?thesis
  proof (cases "stat y Stat_info (finfo (qf s i) \<noteq> None) = Exists \<and> stat y Stat_todo (ftodo (qf s i)) = Noent \<and> (\<exists>cs. stat_chans y i channels s = Inr cs)")
    case False
    then show ?thesis using assms(1,2) fail by (auto simp: pqadd_def split: stat.splits sum.splits)
  next
    case True
    then obtain cs where cs: "stat_chans y i channels s = Inr cs" by blast
    have c: "cs = filter (\<lambda>c. fchan (qf s i) c \<noteq> None) channels" using stat_chans_there [OF cs] .
    have a: "active (qf s i)" using True by (auto simp: stat_def active_def split: if_split_asm)
    obtain s1 where s1: "put_chans (\<lambda>c. \<lparr>dt = fchan_mtime (qf s i) c, id = i\<rparr>) cs s = Some s1"
        "(if cs = [] then put_done \<lparr>dt = clock y, id = i\<rparr> s1 else Some s1) = Some s'"
      using assms(2) True cs by (auto simp: pqadd_def bind_eq_Some_conv)
    have p: "inv arr pend x T s1 \<and> (\<forall>d k. d \<notin> set cs \<or> k \<noteq> i \<longrightarrow> held pend (pqchan s1) (pqfail s1) (jo s1) d k = held pend (pqchan s) (pqfail s) (jo s) d k)"
      by (rule put_chans_inv [OF assms(1) s1(1)]) (use a assms(3) in \<open>simp_all add: c\<close>, simp add: channels_eq)
    show ?thesis
    proof (cases "cs = []")
      case True
      then have d: "put_done \<lparr>dt = clock y, id = i\<rparr> s1 = Some s'" using s1(2) by simp
      then have "pqchan s' = pqchan s1" "pqfail s' = pqfail s1" "jo s' = jo s1" by (auto simp: put_done_def)
      then show ?thesis using p put_done_inv(1) [OF _ d] by simp
    next
      case False
      then show ?thesis using p s1(2) by simp
    qed
  qed
qed

lemma take_fail_good:
  assumes "good arr pend s" "take_fail y s = Some s'"
  shows "good arr pend s'"
proof -
  obtain T where i: "inv arr pend (\<lambda>_. 0) T s" using assms(1) by (auto simp: good_def)
  note I = invD [OF i]
  show ?thesis
  proof (cases "\<exists>pe. prioq_min (pqfail s) = Some pe \<and> dt pe \<le> recent s")
    case False
    then show ?thesis using assms by (auto simp: take_fail_def split: option.splits if_split_asm)
  next
    case True
    then obtain pe where pe: "prioq_min (pqfail s) = Some pe" "dt pe \<le> recent s" by blast
    let ?s = "s\<lparr>pqfail := prioq_delmin (pqfail s)\<rparr>"
    have pq: "prioq_inv (pqfail s)" using I(1) by (simp add: pqs_ok_def)
    note d = pq_min_del [OF pq pe(1)]
    have le: "pq_count (pqfail ?s) k \<le> pq_count (pqfail s) k" for k using d(2) [of k] by simp
    have "hold_ok pend (pqchan s) (pqfail ?s) (jo s) (qf s)"
      by (rule hold_okI [OF I(2)]) (use le hold_distinct [OF I(2)] in \<open>auto simp: held_def\<close>)
    then have "inv arr pend (\<lambda>_. 0) T ?s" using I d(1) by (simp add: inv_def pqs_ok_def)
    moreover have "held pend (pqchan ?s) (pqfail ?s) (jo ?s) c (Prioq.id pe) = 0" for c
      using held_le [OF I(2), of c "Prioq.id pe"] d(2) [of "Prioq.id pe"] by (simp add: held_def)
    moreover have "pqadd y (Prioq.id pe) ?s = Some s'" using assms(2) pe by (simp add: take_fail_def)
    ultimately show ?thesis using pqadd_inv by (blast intro: goodI)
  qed
qed


section \<open>The end of a message\<close>

text \<open>A change of the files of a message that has no channel file.\<close>

lemma no_chan_inv:
  assumes "inv arr pend x T s" "\<And>c. fchan (qf s i) c = None" "file_ok (arr i) (story s i) (f (qf s i))" "active (f (qf s i)) \<Longrightarrow> i \<noteq> 0"
  shows "inv arr pend x T (set_file i f s)"
proof -
  note I = invD [OF assms(1)]
  have no: "pq_count (pqchan s c) i = 0 \<and> in_jobs (jo s) c i = 0 \<and> in_pend pend c i = 0" for c
    using held_active [OF I(2), of c i] assms(2) [of c] by (metis gr0I)
  have "hold_ok pend (pqchan s) (pqfail s) (jo s) ((qf s)(i := f (qf s i)))"
    using I(2) no unfolding hold_ok_def by auto
  moreover have "files_ok arr (story s) ((qf s)(i := f (qf s i)))" using I(3) assms(3,4) by (auto simp: files_ok_def)
  moreover have "pass_ok ((qf s)(i := f (qf s i))) (pass s)"
  proof -
    have "pass_id (pass s c) \<noteq> i" if "pass_id (pass s c) \<noteq> 0" for c using pass_refs(6) [OF I(4,5) that] no [of c] by auto
    then show ?thesis using I(6) unfolding pass_ok_def by simp
  qed
  ultimately show ?thesis using I by (simp add: inv_def)
qed

text \<open>\<open>qmail-queue\<close> does not exit with 82 and an empty message: that would count as success.\<close>

definition honest :: "sys \<Rightarrow> bool" where
  "honest y \<longleftrightarrow> \<not> (wait_exitcode (queue_wstat y) = 82 \<and> char_at (queue_err y) 0 = NUL)"

lemma verdict_handed:
  assumes "close_verdict err (queue_waited y) (queue_wstat y) (queue_err y) = []" "honest y"
  shows "\<not> err" "wait_exitcode (queue_wstat y) = 0"
proof -
  have "char_at (queue_err y) 0 = NUL" if "length (queue_err y) > 2" "hd (queue_err y) = NUL"
    using that by (cases "queue_err y") simp_all
  then show "\<not> err" "wait_exitcode (queue_wstat y) = 0"
    using assms close_verdict_success [of err "queue_waited y" "queue_wstat y" "queue_err y"] by (auto simp: honest_def)
qed

lemma handed_over_all:
  assumes "hand_bounce bc now sendr (Some (b, content)) orig (qmail_opened m e) = Some q" "\<not> flagerr q"
  shows "sublist content (message_pipe q)"
proof -
  obtain q' where "hand_bounce bc now sendr (Some (b, content)) orig (qmail_opened m e) = Some q'" "flagerr q' \<or> handed_over bc now sendr (Some (b, content)) orig q'"
    using hand_bounce_ok by blast
  then have "handed_over bc now sendr (Some (b, content)) orig q" using assms by simp
  then show ?thesis by (auto simp: handed_over_def Let_def)
qed

definition settled_story :: "event list \<Rightarrow> bool" where
  "settled_story es \<longleftrightarrow> (\<forall>c p t. Bounced c p t \<in> set es \<longrightarrow> sent_off es t)"

lemma settled_Injected:
  assumes "file_ok u es f" "\<not> ftodo f" "fbounce f = Some content" "sublist content m"
  shows "settled_story (Injected m v # es)"
  unfolding settled_story_def
proof (intro allI impI)
  fix c p t
  assume "Bounced c p t \<in> set (Injected m v # es)"
  then have "Bounced c p t \<in> set es" by simp
  then have "sent_off es t \<or> sublist t content" using assms(1-3) unfolding file_ok_def by auto
  then show "sent_off (Injected m v # es) t" using assms(4) sublist_order.order.trans by (auto simp: sent_off_def)
qed

lemma settled_Discarded:
  assumes "file_ok u es f" "\<not> ftodo f" "fbounce f = Some content"
  shows "settled_story (Discarded content # es)"
  unfolding settled_story_def
proof (intro allI impI)
  fix c p t
  assume "Bounced c p t \<in> set (Discarded content # es)"
  then have "Bounced c p t \<in> set es" by simp
  then have "sent_off es t \<or> sublist t content" using assms unfolding file_ok_def by auto
  then show "sent_off (Discarded content # es) t" by (auto simp: sent_off_def)
qed

lemma settled_no_bounce: "file_ok u es f \<Longrightarrow> \<not> ftodo f \<Longrightarrow> fbounce f = None \<Longrightarrow> settled_story es"
  unfolding file_ok_def settled_story_def by fastforce

lemma file_ok_settled: "file_ok u es f \<Longrightarrow> settled_story es \<Longrightarrow> file_ok u es (f\<lparr>fbounce := None\<rparr>)"
  by (simp add: file_ok_def settled_story_def)

lemma injectbounce_inv:
  assumes "inv arr pend x T s" "honest y" "active (qf s i)" "\<And>c. fchan (qf s i) c = None" "injectbounce y bc i s = Some (go, s')"
  shows "inv arr pend x T s'" "active (qf s' i)" "\<And>c. fchan (qf s' i) c = None" "go \<Longrightarrow> settled_story (story s' i) \<and> fbounce (qf s' i) = None"
proof -
  note I = invD [OF assms(1)]
  have ok: "file_ok (arr i) (story s i) (qf s i)" and nt: "\<not> ftodo (qf s i)" and i0: "i \<noteq> 0"
    using I(3) assms(3) by (auto simp: files_ok_def active_def)
  have thesis_if: "inv arr pend x T t \<Longrightarrow> qf t i = qf s i \<Longrightarrow> (go \<Longrightarrow> settled_story (story t i) \<and> fbounce (qf s i) = None) \<Longrightarrow> s' = t \<Longrightarrow>
      inv arr pend x T s' \<and> active (qf s' i) \<and> (\<forall>c. fchan (qf s' i) c = None) \<and> (go \<longrightarrow> settled_story (story s' i) \<and> fbounce (qf s' i) = None)" for t
    using assms(3,4) by simp
  have "inv arr pend x T s' \<and> active (qf s' i) \<and> (\<forall>c. fchan (qf s' i) c = None) \<and> (go \<longrightarrow> settled_story (story s' i) \<and> fbounce (qf s' i) = None)"
  proof (cases "getinfo y i s")
    case None
    then show ?thesis using assms(1,5) by (intro thesis_if [of s]) (auto simp: injectbounce_def)
  next
    case (Some r)
    then obtain sa birth where gi: "getinfo y i s = Some (sa, birth)" by (cases r) auto
    let ?snd = "cstr (strip_owner sa)"
    show ?thesis
    proof (cases "stat y Stat_bounce (fbounce (qf s i) \<noteq> None)")
      case Noent
      then have "fbounce (qf s i) = None" by (auto simp: stat_def split: if_split_asm)
      then show ?thesis using assms(1,5) gi Noent settled_no_bounce [OF ok nt] by (intro thesis_if [of s]) (auto simp: injectbounce_def Let_def)
    next
      case Failed
      then show ?thesis using assms(1,5) gi
        by (intro thesis_if [of "log3 ''warning: unable to stat '' (fname_bounce i) [LF] s"]) (auto simp: injectbounce_def Let_def)
    next
      case Exists
      then obtain content where content: "fbounce (qf s i) = Some content" by (auto simp: stat_def split: if_split_asm)
      define rest where "rest = (\<lambda>(go, s). if \<not> go then Some (False, s)
                   else if denied y Remove_bounce
                   then Some (False, log3 ''warning: unable to unlink '' (fname_bounce i) [LF] s)
                   else Some (True, set_file i (\<lambda>f. f\<lparr>fbounce := None\<rparr>) s))"
      have rest: ?thesis if r: "rest (go1, t) = Some (go, s')" "inv arr pend x T t" "qf t = qf s" "go1 \<Longrightarrow> settled_story (story t i)" for go1 t
      proof (cases "go1 \<and> \<not> denied y Remove_bounce")
        case False
        then have "s' = (if go1 then log3 ''warning: unable to unlink '' (fname_bounce i) [LF] t else t)" "\<not> go"
          using r(1) by (auto simp: rest_def split: if_split_asm)
        then show ?thesis using r(2,3) assms(3,4) by simp
      next
        case True
        then have s': "s' = set_file i (\<lambda>f. f\<lparr>fbounce := None\<rparr>) t" using r(1) by (auto simp: rest_def)
        have okt: "file_ok (arr i) (story t i) (qf t i)" using invD(3) [OF r(2)] by (simp add: files_ok_def)
        have "inv arr pend x T s'" unfolding s'
          using r(2-4) True assms(3,4) i0 file_ok_settled [OF okt] by (intro no_chan_inv) simp_all
        then show ?thesis using s' r(3,4) True assms(3,4) by (simp add: active_def)
      qed
      show ?thesis
      proof (cases "?snd = ''#@[]''")
        case True
        let ?t = "happened i (Discarded content) (log3 ''triple bounce: discarding '' (fname_bounce i) [LF] s)"
        have "rest (True, ?t) = Some (go, s')" using assms(5) gi Exists content True unfolding rest_def by (simp add: injectbounce_def Let_def)
        moreover have "inv arr pend x T ?t" by (rule happened_inv) (use assms(1) in simp_all)
        ultimately show ?thesis using settled_Discarded [OF ok nt content] by (intro rest [of True ?t]) simp_all
      next
        case single: False
        show ?thesis
        proof (cases "denied y Open_queue")
          case True
          let ?t = "log1 (''warning: unable to start qmail-queue, will try later'' @ [LF]) s"
          have "rest (False, ?t) = Some (go, s')" using assms(5) gi Exists content True single unfolding rest_def by (simp add: injectbounce_def Let_def)
          then show ?thesis using assms(1) by (intro rest [of False ?t]) simp_all
        next
          case started: False
          let ?orig = "readable y Open_mess Read_mess (fmess (qf s i))" and ?bounce = "readable y Open_bounce Read_bounce (fbounce (qf s i))"
          obtain qq where qq: "hand_bounce bc (clock y) ?snd ?bounce ?orig (qmail_opened (message_out y) (envelope_out y)) = Some qq"
            "flagerr qq \<or> handed_over bc (clock y) ?snd ?bounce ?orig qq" using hand_bounce_ok by blast
          let ?v = "close_verdict (flagerr qq) (queue_waited y) (queue_wstat y) (queue_err y)"
          let ?bad = "log1 (''warning: trouble injecting bounce message, will try later'' @ [LF]) s"
          let ?t = "happened i (Injected (message_pipe qq) (snd (sw (qss qq)))) (log3 '' qp '' (fmt_ulong (queue_pid y)) [LF] (log2 ''bounce msg '' (num i) s))"
          have run: "rest (if ?v \<noteq> [] then (False, ?bad) else (True, ?t)) = Some (go, s')"
            using assms(5) gi Exists content single started qq(1) unfolding rest_def by (simp add: injectbounce_def Let_def split: if_split_asm)
          show ?thesis
          proof (cases "?v = []")
            case False
            then show ?thesis using run assms(1) by (intro rest [of False ?bad]) simp_all
          next
            case True
            have "\<not> flagerr qq" using verdict_handed(1) [OF True assms(2)] .
            then have "handed_over bc (clock y) ?snd ?bounce ?orig qq" using qq(2) by simp
            then have "sublist content (message_pipe qq)" using content by (auto simp: handed_over_def Let_def readable_def split: if_split_asm)
            then have "settled_story (story ?t i)" using settled_Injected [OF ok nt content] by (simp add: log2_def)
            moreover have "inv arr pend x T ?t" by (rule happened_inv) (use assms(1) in simp_all)
            moreover have "rest (True, ?t) = Some (go, s')" using run True by simp
            ultimately show ?thesis by (intro rest [of True ?t]) (simp_all add: log2_def)
          qed
        qed
      qed
    qed
  qed
  then show "inv arr pend x T s'" "active (qf s' i)" "\<And>c. fchan (qf s' i) c = None" "go \<Longrightarrow> settled_story (story s' i) \<and> fbounce (qf s' i) = None" by auto
qed


text \<open>\<open>qmail-clean\<close> may remove the text of a message that is neither in the queue nor in \<open>todo\<close>.\<close>

lemma ask_foop_inv:
  assumes "inv arr pend x T s" "finfo (qf s i) = None" "\<not> ftodo (qf s i)"
  shows "inv arr pend x T (ask_foop y i s)"
proof -
  note I = invD [OF assms(1)]
  have ok: "file_ok (arr i) (story s i) (qf s i)" using I(3) by (simp add: files_ok_def)
  then have no: "fchan (qf s i) c = None" for c
    using assms(2,3) by (cases "fchan (qf s i) c") (auto simp: file_ok_def chan_ok_def split: option.splits)
  have "file_ok (arr i) (story s i) ((qf s i)\<lparr>fmess := None\<rparr>)" using ok assms(2,3) by (simp add: file_ok_def)
  then have "inv arr pend x T (set_file i (\<lambda>f. f\<lparr>fmess := None\<rparr>) s)"
    using assms(1,2) no by (intro no_chan_inv) (simp_all add: active_def)
  then show ?thesis using assms(1) by (simp add: ask_foop_def Let_def)
qed

lemma messdone_chans_inv:
  assumes "messdone_chans y i cs s = (r, t)"
  shows "inv arr pend x T t = inv arr pend x T s" "qf t = qf s" "story t = story s" "r = Noent \<Longrightarrow> \<forall>c \<in> set cs. fchan (qf s i) c = None"
  using assms by (induction cs) (auto simp: stat_def later_def split: if_split_asm)

lemma put_done_good: "good arr pend s \<Longrightarrow> put_done pe s = Some s' \<Longrightarrow> good arr pend s'"
  unfolding good_def using put_done_inv(1) by blast

lemma messdone_fail_good: "good arr pend s \<Longrightarrow> messdone_fail y i s = Some s' \<Longrightarrow> good arr pend s'"
  by (simp add: messdone_fail_def put_done_good)

lemma messdone_good:
  assumes "good arr pend s" "honest y" "messdone y conf i s = Some s'"
  shows "good arr pend s'"
proof -
  obtain T where i0: "inv arr pend (\<lambda>_. 0) T s" using assms(1) by (auto simp: good_def)
  obtain r t where m: "messdone_chans y i channels s = (r, t)" by fastforce
  note M = messdone_chans_inv [OF m]
  have i: "inv arr pend (\<lambda>_. 0) T t" using i0 M(1) by simp
  then have g: "good arr pend t" by (rule goodI)
  show ?thesis
  proof (cases "r = Noent \<and> stat y Stat_todo (ftodo (qf t i)) = Noent \<and> stat y Stat_info (finfo (qf t i) \<noteq> None) = Exists")
    case False
    have l: "good arr pend (later w n t)" for w n using g by simp
    show ?thesis using False assms(3) m g messdone_fail_good [OF g, of y i s'] messdone_fail_good [OF l, of y i _ _ s']
      by (auto simp: messdone_def split: stat.splits)
  next
    case True
    then have a: "active (qf t i)" by (auto simp: stat_def active_def split: if_split_asm)
    have no: "fchan (qf t i) c = None" for c using M(2,4) True by (cases c) (simp_all add: channels_eq)
    obtain go u where j: "injectbounce y (bounce conf) i t = Some (go, u)"
      "(if \<not> go then messdone_fail y i u
        else let s = log3 ''end msg '' (num i) [LF] u in
        if denied y Remove_info then messdone_fail y i (later ''warning: unable to unlink '' (fname_info i) s)
        else Some (ask_foop y i (set_file i (\<lambda>f. f\<lparr>finfo := None\<rparr>) s))) = Some s'"
      using assms(3) m True by (auto simp: messdone_def bind_eq_Some_conv)
    note J = injectbounce_inv [OF i assms(2) a no j(1)]
    show ?thesis
    proof (cases "go \<and> \<not> denied y Remove_info")
      case False
      have g: "good arr pend (later w n (log3 v v2 v3 u))" "good arr pend u" for w n v v2 v3 using goodI [OF J(1)] by simp_all
      show ?thesis using False j(2) messdone_fail_good [OF g(1), of y i _ _ _ _ _ s'] messdone_fail_good [OF g(2), of y i s']
        by (auto simp: Let_def split: if_split_asm)
    next
      case True
      let ?l = "log3 ''end msg '' (num i) [LF] u"
      let ?g = "set_file i (\<lambda>f. f\<lparr>finfo := None\<rparr>) ?l"
      have s: "settled_story (story u i)" using J(4) True by simp
      have ok: "file_ok (arr i) (story u i) (qf u i)" using invD(3) [OF J(1)] by (simp add: files_ok_def)
      have nt: "\<not> ftodo (qf u i)" using J(2) by (simp add: active_def)
      have "chan_ok (arr i c) (answered (story u i) c) False (fchan (qf u i) c)" for c
      proof -
        have "chan_ok (arr i c) (answered (story u i) c) (finfo (qf u i) \<noteq> None) (fchan (qf u i) c)" using ok nt unfolding file_ok_def by blast
        then show ?thesis using J(3) [of c] by (simp add: chan_ok_def)
      qed
      then have "file_ok (arr i) (story u i) ((qf u i)\<lparr>finfo := None\<rparr>)" using s nt by (simp add: file_ok_def settled_story_def)
      then have "inv arr pend (\<lambda>_. 0) T ?g" using J(1,3) by (intro no_chan_inv) (simp_all add: active_def)
      then have "inv arr pend (\<lambda>_. 0) T (ask_foop y i ?g)" using nt by (intro ask_foop_inv) simp_all
      then show ?thesis using j(2) True by (auto simp: Let_def intro: goodI)
    qed
  qed
qed

lemma take_done_good:
  assumes "good arr pend s" "honest y" "take_done y conf s = Some s'"
  shows "good arr pend s'"
proof -
  obtain T where i: "inv arr pend (\<lambda>_. 0) T s" using assms(1) by (auto simp: good_def)
  have pq: "prioq_inv (pqdone s)" using invD(1) [OF i] by (simp add: pqs_ok_def)
  show ?thesis
  proof (cases "\<exists>pe. prioq_min (pqdone s) = Some pe \<and> dt pe \<le> recent s")
    case False
    then show ?thesis using assms by (auto simp: take_done_def split: option.splits if_split_asm)
  next
    case True
    then obtain pe where pe: "prioq_min (pqdone s) = Some pe" "dt pe \<le> recent s" by blast
    have "inv arr pend (\<lambda>_. 0) T (s\<lparr>pqdone := prioq_delmin (pqdone s)\<rparr>)" using i pq_min_del(1) [OF pq pe(1)] by (simp add: inv_def pqs_ok_def)
    moreover have "messdone y conf (Prioq.id pe) (s\<lparr>pqdone := prioq_delmin (pqdone s)\<rparr>) = Some s'" using assms(3) pe by (simp add: take_done_def)
    ultimately show ?thesis using messdone_good [OF _ assms(2)] by (blast intro: goodI)
  qed
qed

lemma cleanup_do_good:
  assumes "good arr pend s"
  shows "good arr pend (cleanup_do y opendir s)"
proof -
  obtain T where i: "inv arr pend (\<lambda>_. 0) T s" using assms by (auto simp: good_def)
  have ask: "good arr pend (ask_foop y k t)"
    if "inv arr pend (\<lambda>_. 0) T t" "stat y Stat_info (finfo (qf t k) \<noteq> None) = Noent" "stat y Stat_todo (ftodo (qf t k)) = Noent" for t k
  proof -
    have "finfo (qf t k) = None" using that(2) by (cases "finfo (qf t k)") (auto simp: stat_def split: if_split_asm)
    moreover have "\<not> ftodo (qf t k)" using that(3) by (auto simp: stat_def split: if_split_asm)
    ultimately show ?thesis using goodI [OF ask_foop_inv [OF that(1)]] by simp
  qed
  let ?s = "if \<not> flagcleanup s then s\<lparr>cleanupdir := readsubdir_init ''mess'', flagcleanup := True\<rparr> else s"
  obtain x k rs where n: "readsubdir_next opendir (cleanupdir ?s) = (x, k, rs)" by (cases "readsubdir_next opendir (cleanupdir ?s)")
  define u where "u = ?s\<lparr>cleanupdir := rs\<rparr>"
  have t: "inv arr pend (\<lambda>_. 0) T u" using i by (simp add: u_def)
  have "cleanup_do y opendir s = (if \<not> flagcleanup s \<and> recent s < cleanuptime s then s
      else if x = 0 then u\<lparr>flagcleanup := False, cleanuptime := recent u + SLEEP_CLEANUP\<rparr>
      else if x \<noteq> 1 then u
      else if stat y Atime_mess (fmess (qf u k) \<noteq> None) \<noteq> Exists then u
      else if recent u \<le> fmess_atime (qf u k) + SEND_OSSIFIED then u
      else if stat y Stat_info (finfo (qf u k) \<noteq> None) \<noteq> Noent then u
      else if stat y Stat_todo (ftodo (qf u k)) \<noteq> Noent then u
      else ask_foop y k u)"
    unfolding u_def cleanup_do_def Let_def n prod.case by (rule refl)
  then show ?thesis using assms goodI [OF t] ask [OF t] by simp
qed

section \<open>Start and end\<close>

lemma pqadds_inv:
  assumes "inv arr pend x T s" "pqadds env is s = Some s'" "distinct is" "\<And>c i. i \<in> set is \<Longrightarrow> held pend (pqchan s) (pqfail s) (jo s) c i = 0"
  shows "inv arr pend x T s'"
  using assms
proof (induction "is" arbitrary: s env)
  case (Cons i "is")
  then obtain s1 where s1: "pqadd (env 0) i s = Some s1" "pqadds (\<lambda>n. env (Suc n)) is s1 = Some s'" by (auto simp: bind_eq_Some_conv)
  have P: "inv arr pend x T s1 \<and> (\<forall>d k. k \<noteq> i \<longrightarrow> held pend (pqchan s1) (pqfail s1) (jo s1) d k = held pend (pqchan s) (pqfail s) (jo s) d k)"
    using pqadd_inv [OF Cons.prems(1) s1(1)] Cons.prems(4) by simp
  show ?case
  proof (rule Cons.IH [OF _ s1(2)])
    fix c k
    assume "k \<in> set is"
    moreover from this have "k \<noteq> i" using Cons.prems(3) by auto
    ultimately show "held pend (pqchan s1) (pqfail s1) (jo s1) c k = 0" using P Cons.prems(4) [of k c] by simp
  qed (use P Cons.prems(3) in simp_all)
qed simp

lemma empty_pq: "prioq_inv \<lparr>field = None, len = 0, a = 0\<rparr>" "pq_count \<lparr>field = None, len = 0, a = 0\<rparr> i = 0"
  by (simp_all add: prioq_inv_def ga_inv_def pq_count_def prioq_bag_def ga_list_def)

lemma replicate_unused: "filter used (replicate n \<lparr>used = False, dj = 0, delid = 0, mpos = 0, recip = []\<rparr>) = []"
  by (induction n) simp_all

lemma send_init_inv:
  assumes "files_ok arr st fs"
  shows "inv arr [] (\<lambda>_. 0) T (send_init conc t now fs st)" "held [] (pqchan (send_init conc t now fs st)) (pqfail (send_init conc t now fs st)) (jo (send_init conc t now fs st)) c i = 0"
proof -
  let ?b = "\<lparr>refs = 0, jid = 0, jchannel = Local, jretry = 0, jsender = [], numtodo = 0, flaghiteof = False, flagdying = False\<rparr> :: job"
  have j: "in_jobs (replicate n ?b) c i = 0" for n c i by (induction n) (simp_all add: in_jobs_def)
  have d: "dels_of (replicate n \<lparr>used = False, dj = 0, delid = 0, mpos = 0, recip = []\<rparr>) k = []" for n k by (induction n) (simp_all add: dels_of_def)
  show "inv arr [] (\<lambda>_. 0) T (send_init conc t now fs st)"
    using assms empty_pq replicate_unused j d
    by (auto simp: inv_def send_init_def pqs_ok_def hold_ok_def held_def in_pend_def slots_ok_def refs_ok_def on_pass_def pass_ok_def jobs_ok_def)
  show "held [] (pqchan (send_init conc t now fs st)) (pqfail (send_init conc t now fs st)) (jo (send_init conc t now fs st)) c i = 0"
    using empty_pq j by (simp add: held_def send_init_def in_pend_def)
qed

lemma send_start_good:
  assumes "files_ok arr st fs" "send_start env opendir (send_init conc t now fs st) = Some s'" "distinct (subdir_ids opendir (readsubdir_init ''info''))"
  shows "good arr [] s'"
proof -
  obtain s1 where s1: "pqadds env (subdir_ids opendir (readsubdir_init ''info'')) (send_init conc t now fs st) = Some s1" "s' = del_status s1"
    using assms(2) by (auto simp: send_start_def pqstart_def)
  have "inv arr [] (\<lambda>_. 0) (\<lambda>_. {}) s1"
    using pqadds_inv [OF send_init_inv(1) [OF assms(1)] s1(1) assms(3)] send_init_inv(2) [OF assms(1)] by blast
  then show ?thesis using s1(2) by (auto intro: goodI)
qed

end
