(* ===== verification/Views.thy ===== *)
theory Views
  imports Ledger
begin

text \<open>
  What the operations of the queue manager leave alone. A view of the state looks only at fields that belong to the pipes; the operations on the queue, the jobs and
  the deliveries do not change what it shows, except that a delivery may be written to a delivery program. The instances are the unfinished line of
  announcements, what has been written to the delivery programs, and a buffer that is waiting to be written.
\<close>

locale view =
  fixes f :: "send \<Rightarrow> 'a" and v :: 'a
  assumes ignores [simp]: "f (s\<lparr>qf := x1\<rparr>) = f s" "f (s\<lparr>story := x2\<rparr>) = f s" "f (s\<lparr>pqdone := x3\<rparr>) = f s" "f (s\<lparr>pqchan := x4\<rparr>) = f s"
    "f (s\<lparr>pqfail := x5\<rparr>) = f s" "f (s\<lparr>jo := x6\<rparr>) = f s" "f (s\<lparr>dels := x7\<rparr>) = f s" "f (s\<lparr>masterdelid := x8\<rparr>) = f s"
    "f (s\<lparr>concurrencyused := x9\<rparr>) = f s" "f (s\<lparr>dline := x10\<rparr>) = f s" "f (s\<lparr>flagexitasap := x11\<rparr>) = f s" "f (s\<lparr>pass := x12\<rparr>) = f s"
    "f (s\<lparr>flagcleanup := x13\<rparr>) = f s" "f (s\<lparr>cleanuptime := x14\<rparr>) = f s" "f (s\<lparr>cleanupdir := x15\<rparr>) = f s" "f (s\<lparr>logtext := x16\<rparr>) = f s"
    "f (s\<lparr>recent := x17\<rparr>) = f s" "f (s\<lparr>vdoms := x18\<rparr>) = f s"
  assumes writes: "f s = v \<Longrightarrow> f (comm_write c n i sendr rcp s) = v"
begin

lemma plain [simp]:
  "f (log1 t s) = f s" "f (log2 t t2 s) = f s" "f (log3 t t2 t3 s) = f s" "f (set_file i g s) = f s" "f (set_job j h s) = f s" "f (happened i e s) = f s"
  "f (set_pass c k s) = f s" "f (later what name s) = f s" "f (report_logged nr what line s) = f s" "f (cleandied s) = f s" "f (del_free c n s) = f s"
  "f (addbounce i rcp report s) = f s" "f (markdone y c i p s) = f s" "f (ask_foop y i s) = f s" "f (del_status s) = f s" "f (pqrun s) = f s"
proof -
  show st: "f (del_status s) = f s" by (subst status_fields) simp
qed (simp_all add: log1_def log2_def log3_def set_file_def set_job_def happened_def set_pass_def later_def report_logged_def cleandied_def
    Let_def del_free_def addbounce_def markdone_def ask_foop_def pqrun_def split: option.split)

lemma taken [simp]: "f (answered_done y c d e s) = f s" "f (report_taken y c d line s) = f s"
proof -
  show "f (answered_done y c d e s) = f s" for s e by (simp add: answered_done_def Let_def)
  then show "f (report_taken y c d line s) = f s" by (simp add: report_taken_def Let_def)
qed

lemma start: "f s = v \<Longrightarrow> f (del_start y j pos rcp s) = v"
  by (simp add: del_start_def Let_def writes)

lemma put: "put_chan c pe s = Some s' \<Longrightarrow> f s' = f s" "put_done pe s = Some s' \<Longrightarrow> f s' = f s"
  "put_fail pe s = Some s' \<Longrightarrow> f s' = f s" "put_chans pes cs s = Some s' \<Longrightarrow> f s' = f s"
  subgoal by (auto simp: put_chan_def)
  subgoal by (auto simp: put_done_def)
  subgoal by (auto simp: put_fail_def)
  subgoal by (induction pes cs s rule: put_chans.induct) (auto simp: bind_eq_Some_conv put_chan_def)
  done

lemma chans: "f (snd (more_channels y i c0 cs s)) = f s" "f (snd (messdone_chans y i cs s)) = f s"
  by (induction cs) (simp_all split: stat.split)

lemma close:
  assumes "job_close y j s = Some s'"
  shows "f s' = f s"
proof -
  have "f u = f t" if "more_channels y i c cs t = (go, u)" for i c cs t go u using chans(1) [of y i c cs t] that by simp
  then show ?thesis using assms unfolding job_close_def Let_def by (fastforce split: if_split_asm prod.splits dest: put)
qed

lemma del_bytes:
  assumes "del_bytes env c bs s = Some s'"
  shows "f s' = f s"
proof -
  have r: "del_report y c line s = Some s' \<Longrightarrow> f s' = f s" for y line s s'
    by (auto simp: del_report_def Let_def bind_eq_Some_conv split: if_split_asm dest: close)
  have b: "del_byte y c ch s = Some s' \<Longrightarrow> f s' = f s" for y ch s s'
    by (auto simp: del_byte_def Let_def bind_eq_Some_conv split: if_split_asm dest: r)
  show ?thesis using assms
  proof (induction bs arbitrary: env s)
    case (Cons ch bs)
    then obtain u where u: "del_byte (env 0) c ch s = Some u" "del_bytes (\<lambda>n. env (Suc n)) c bs u = Some s'" by (auto simp: bind_eq_Some_conv)
    show ?case using Cons.IH [OF u(2)] b [OF u(1)] by simp
  qed simp
qed

lemma pass: "pass_dochan y conf c s = Some s' \<Longrightarrow> f s = v \<Longrightarrow> f s' = v"
proof -
  have e: "end_pass y c s = Some s' \<Longrightarrow> f s' = f s" for s s' by (auto simp: end_pass_def bind_eq_Some_conv dest: close)
  have r: "pass_record y c line s = Some s' \<Longrightarrow> f s = v \<Longrightarrow> f s' = v" for line s s'
    by (auto simp: pass_record_def Let_def start split: if_split_asm dest: e)
  have l: "pass_line y c s = Some s' \<Longrightarrow> f s = v \<Longrightarrow> f s' = v" for s s'
    by (auto simp: pass_line_def Let_def split: if_split_asm option.splits prod.splits dest!: e r)
  have t: "pass_trouble c i s = Some (go, s') \<Longrightarrow> f s' = f s" for i s go s' by (auto simp: pass_trouble_def dest: put)
  have "pass_open y conf c s = Some (go, s') \<Longrightarrow> f s' = f s" for s go s'
    by (auto simp: pass_open_def job_open_def Let_def bind_eq_Some_conv split: if_split_asm option.splits prod.splits dest!: t)
  then show "pass_dochan y conf c s = Some s' \<Longrightarrow> f s = v \<Longrightarrow> f s' = v"
    by (fastforce simp: pass_dochan_def bind_eq_Some_conv split: if_split_asm dest: l)
qed

lemma pqadd: "pqadd y i s = Some s' \<Longrightarrow> f s' = f s"
proof -
  have "pqadd_fail y i name s = Some s' \<Longrightarrow> f s' = f s" for i name s s' by (auto simp: pqadd_fail_def dest: put)
  then show "pqadd y i s = Some s' \<Longrightarrow> f s' = f s"
    by (auto simp: pqadd_def bind_eq_Some_conv split: stat.splits sum.splits if_split_asm dest: put)
qed

lemma take_fail: "take_fail y s = Some s' \<Longrightarrow> f s' = f s"
  by (fastforce simp: take_fail_def split: option.splits if_split_asm dest: pqadd)

definition shown :: "'a \<Rightarrow> (bool \<times> send) option \<Rightarrow> bool" where
  "shown x r \<longleftrightarrow> (case r of None \<Rightarrow> True | Some p \<Rightarrow> f (snd p) = x)"

lemma shown_bind: "shown x r \<Longrightarrow> (\<And>g t. f t = x \<Longrightarrow> shown x (F (g, t))) \<Longrightarrow> shown x (Option.bind r F)"
  by (cases r) (auto simp: shown_def)

lemma shown_any: "(\<And>q. shown x (F q)) \<Longrightarrow> shown x (Option.bind r F)"
  by (cases r) (auto simp: shown_def)

lemma shown_if: "(b \<Longrightarrow> shown x r) \<Longrightarrow> (\<not> b \<Longrightarrow> shown x t) \<Longrightarrow> shown x (if b then r else t)"
  by simp

lemma shown_Some: "f t = x \<Longrightarrow> shown x (Some (g, t))"
  by (simp add: shown_def)

lemma injectbounce_shown: "shown (f s) (injectbounce y bc i s)"
proof (cases "getinfo y i s")
  case None
  then show ?thesis by (simp add: injectbounce_def shown_def)
next
  case (Some p)
  then obtain sa birth where g: "getinfo y i s = Some (sa, birth)" by (cases p) auto
  show ?thesis unfolding injectbounce_def g option.case prod.case Let_def
  proof (cases "stat y Stat_bounce (fbounce (qf s i) \<noteq> None)"; simp only: stat.case)
  qed (rule shown_Some shown_bind shown_if shown_any refl | unfold prod.case | simp only: plain)+
qed

lemma take_done: "take_done y conf s = Some s' \<Longrightarrow> f s' = f s"
proof -
  have m: "messdone_fail y i s = Some s' \<Longrightarrow> f s' = f s" for i s s' by (auto simp: messdone_fail_def dest: put)
  have c: "f u = f s" if "messdone_chans y i cs s = (r, u)" for i cs s r u using chans(2) [of y i cs s] that by simp
  have b: "f u = f s" if "injectbounce y bc i s = Some (go, u)" for bc i s go u
    using injectbounce_shown [of s y bc i] that by (simp add: shown_def)
  have "messdone y conf i s = Some s' \<Longrightarrow> f s' = f s" for i s s'
    by (auto simp: messdone_def Let_def bind_eq_Some_conv split: prod.splits stat.splits if_split_asm dest!: m b c)
  then show "take_done y conf s = Some s' \<Longrightarrow> f s' = f s" by (fastforce simp: take_done_def split: option.splits if_split_asm)
qed

lemma cleanup [simp]: "f (cleanup_do y opendir s) = f s"
  by (simp add: cleanup_do_def Let_def split: prod.split)

end

text \<open>A view that shows neither whether the other programs live nor what \<open>qmail-todo\<close> has said.\<close>

locale wide_view = view +
  assumes spawn_alive [simp]: "f (s\<lparr>flagspawnalive := x1\<rparr>) = f s"
begin

lemma del_dochan: "del_dochan env c r s = Some s' \<Longrightarrow> f s' = f s"
  by (auto simp: del_dochan_def spawndied_def Let_def split: rd.splits if_split_asm dest: del_bytes)

end

locale deaf_view = wide_view +
  assumes todo_side [simp]: "f (s\<lparr>todoline := x1\<rparr>) = f s" "f (s\<lparr>flagtodoalive := x2\<rparr>) = f s"
begin

lemma todo_do: "todo_do env isset r s = Some s' \<Longrightarrow> f s' = f s"
proof -
  have d: "todo_del y x s = Some s' \<Longrightarrow> f s' = f s" for y x s s'
    by (auto simp: todo_del_def Let_def bind_eq_Some_conv split: option.splits prod.splits if_split_asm dest: put)
  have r: "todo_record y line s = Some s' \<Longrightarrow> f s' = f s" for y line s s'
    by (auto simp: todo_record_def tododied_def split: if_split_asm dest: d)
  have b: "todo_byte y ch s = Some s' \<Longrightarrow> f s' = f s" for y ch s s'
    by (auto simp: todo_byte_def Let_def bind_eq_Some_conv split: if_split_asm dest: r)
  have "f s' = f s" if "todo_bytes env bs s = Some s'" for env bs s s'
    using that
  proof (induction bs arbitrary: env s)
    case (Cons ch bs)
    then obtain u where u: "todo_byte (env 0) ch s = Some u" "todo_bytes (\<lambda>n. env (Suc n)) bs u = Some s'" by (auto simp: bind_eq_Some_conv)
    show ?case using Cons.IH [OF u(2)] b [OF u(1)] by simp
  qed simp
  then show "todo_do env isset r s = Some s' \<Longrightarrow> f s' = f s" by (auto simp: todo_do_def tododied_def split: rd.splits if_split_asm)
qed

end

text \<open>The instances: the line that \<open>qmail-todo\<close> has begun, what a delivery program has got, and an order that waits in the buffer for it.\<close>

interpretation line: wide_view todoline v for v
  by unfold_locales (simp_all add: comm_write_def)

lemma line_comm_do [simp]: "todoline (comm_do c isset w epipe s) = todoline s"
  by (simp add: comm_do_def spawndied_def Let_def)

interpretation got: deaf_view "\<lambda>s. spawn_sent s c" v for c v
  by unfold_locales (simp_all add: comm_write_def)

definition waiting :: "channel \<Rightarrow> char list \<Rightarrow> send \<Rightarrow> bool" where
  "waiting c bs s \<longleftrightarrow> flagspawnalive s c \<and> spawn_buf s c = bs \<and> bs \<noteq> [] \<and> spawn_pos s c = 0"

interpretation order: view "waiting c bs" True for c bs
  by unfold_locales (auto simp: waiting_def comm_write_def)

text \<open>What is in a buffer has not been written in part.\<close>

definition untouched :: "channel \<Rightarrow> send \<Rightarrow> bool" where
  "untouched c s \<longleftrightarrow> flagspawnalive s c \<and> (spawn_buf s c \<noteq> [] \<longrightarrow> spawn_pos s c = 0)"

interpretation fresh: view "untouched c" True for c
  by unfold_locales (auto simp: untouched_def comm_write_def)

lemma untouched_waiting: "untouched c s \<Longrightarrow> spawn_buf s c = bs \<Longrightarrow> bs \<noteq> [] \<Longrightarrow> waiting c bs s"
  by (simp add: untouched_def waiting_def)

text \<open>Writing to one program leaves the other alone; a whole order is written at once if the program takes it.\<close>

lemma comm_do_other:
  assumes "k \<noteq> c"
  shows "waiting c bs (comm_do k isset w epipe s) = waiting c bs s" "spawn_sent (comm_do k isset w epipe s) c = spawn_sent s c"
    "spawn_buf (comm_do k isset w epipe s) c = spawn_buf s c" "flagspawnalive (comm_do k isset w epipe s) c = flagspawnalive s c"
  using assms by (simp_all add: comm_do_def spawndied_def waiting_def Let_def log1_def)

lemma comm_do_empty: "spawn_buf s c = [] \<Longrightarrow> comm_do c isset w epipe s = s"
  by (simp add: comm_do_def)

lemma comm_do_order: "waiting c bs s \<Longrightarrow> spawn_sent (comm_do c True (int (length bs)) epipe s) c = spawn_sent s c @ bs"
  by (auto simp: comm_do_def waiting_def Let_def)

lemma comm_do_fields:
  "qf (comm_do c isset w False s) = qf s" "pqchan (comm_do c isset w False s) = pqchan s" "jo (comm_do c isset w False s) = jo s"
  "dels (comm_do c isset w False s) = dels s" "concurrencyused (comm_do c isset w False s) = concurrencyused s"
  "flagexitasap (comm_do c isset w False s) = flagexitasap s" "pass (comm_do c isset w False s) = pass s" "recent (comm_do c isset w False s) = recent s"
  "pqfail (comm_do c isset w False s) = pqfail s" "pqdone (comm_do c isset w False s) = pqdone s" "flagtodoalive (comm_do c isset w False s) = flagtodoalive s" "flagspawnalive (comm_do c isset w False s) = flagspawnalive s"
  by (simp_all add: comm_do_def Let_def)

end
