(* ===== verification/Noloss.thy ===== *)
theory Noloss
  imports Clean Upkeep Views
begin

text \<open>
  The queue manager among the other programs, as a step relation: its own operations, in any order and with anything denied, and what
  \<open>qmail-queue\<close>, \<open>qmail-todo\<close> and a restart do. In every reachable state no recipient is lost (\<open>nothing_lost\<close>) and none has two deliveries
  under way (\<open>one_delivery\<close>). The main loop is a sequence of these steps (\<open>main_round_steps\<close>).
\<close>

section \<open>Announcements\<close>

text \<open>The records that \<open>qmail-todo\<close> writes, and those among them that announce a message. A log text may be of any length: the manager
  keeps the first \<open>REPORTMAX\<close> bytes of it.\<close>

datatype todo_note = Announce ulong "channel list" | Say "char list" | Quit

definition announce_code :: "channel list \<Rightarrow> char" where
  "announce_code cs = (if Local \<in> set cs \<and> Remote \<in> set cs then CHR ''B'' else if Local \<in> set cs then CHR ''L'' else if Remote \<in> set cs then CHR ''R'' else CHR ''X'')"

definition note_body :: "todo_note \<Rightarrow> char list" where
  "note_body n = (case n of Announce i cs \<Rightarrow> CHR ''D'' # announce_code cs # num i | Say t \<Rightarrow> CHR ''L'' # t | Quit \<Rightarrow> ''X'')"

definition note_text :: "todo_note \<Rightarrow> char list" where
  "note_text n = note_body n @ [NUL]"

definition note_ok :: "todo_note \<Rightarrow> bool" where
  "note_ok n \<longleftrightarrow> (case n of Announce i cs \<Rightarrow> cs \<in> {[], [Local], [Remote], [Local, Remote]} | Say t \<Rightarrow> NUL \<notin> set t | Quit \<Rightarrow> True)"

fun pends :: "todo_note list \<Rightarrow> (ulong \<times> channel list) list" where
  "pends [] = []"
| "pends (Announce i cs # ns) = (i, cs) # pends ns"
| "pends (n # ns) = pends ns"

definition pipe_ok :: "todo_note list \<Rightarrow> char list \<Rightarrow> char list \<Rightarrow> bool" where
  "pipe_ok ns line pipe \<longleftrightarrow> (\<exists>sofar. line = take REPORTMAX sofar \<and> NUL \<notin> set sofar \<and> sofar @ pipe = concat (map note_text ns)) \<and> list_all note_ok ns"

lemma pends_append: "pends (ns @ [n]) = pends ns @ pends [n]"
  by (induction ns rule: pends.induct) (cases n, simp_all)+

text \<open>These are the records of \<open>comm_write\<close> in \<open>qmail-todo.c\<close>.\<close>

lemma announce_is_comm_write:
  "Todo.comm_write (\<lambda>_. True) (unat i) (Local \<in> set cs) (Remote \<in> set cs) buf = buf @ note_text (Announce i cs)"
  by (simp add: Todo.comm_write_def comm_add_def cat_def note_text_def note_body_def announce_code_def num_def)

lemma num_short: "length (num i) \<le> 10" "num i \<noteq> []" "NUL \<notin> set (num i)"
proof -
  have "unat i < 2 ^ LENGTH(32)" by (rule unsigned_less)
  then have "unat i < 10 ^ 10" by simp
  then show "length (num i) \<le> 10" using fmt_ulong_length [of "unat i" 10] by (simp add: num_def)
qed (simp_all add: num_def)

lemma note_body_ok: "note_ok n \<Longrightarrow> NUL \<notin> set (note_body n) \<and> note_body n \<noteq> []"
  using num_short by (cases n) (auto simp: note_ok_def note_body_def announce_code_def)

text \<open>What the manager keeps of a record.\<close>

lemma note_kept:
  "take REPORTMAX (note_text (Announce i cs)) = note_text (Announce i cs)" "take REPORTMAX (note_text Quit) = note_text Quit"
  "\<exists>u. take REPORTMAX (note_text (Say t)) = CHR ''L'' # u \<and> u \<noteq> []"
  using num_short(1) [of i] by (simp_all add: note_text_def note_body_def REPORTMAX_def take_Cons')

text \<open>One byte of the pipe: the record goes on, or it is complete.\<close>

lemma take_snoc: "take m (take m xs @ [x]) = take m (xs @ [x])"
  by (cases "length xs \<le> m") simp_all

lemma first_nul: "NUL \<notin> set us \<Longrightarrow> NUL \<notin> set vs \<Longrightarrow> us @ NUL # xs = vs @ NUL # ys \<longleftrightarrow> us = vs \<and> xs = ys"
proof (induction us arbitrary: vs)
  case Nil
  then show ?case by (cases vs) auto
next
  case (Cons u us)
  then show ?case by (cases vs) auto
qed

lemma pipe_byte:
  assumes "pipe_ok ns line (ch # pipe)"
  obtains (going) "ch \<noteq> NUL" "pipe_ok ns (take REPORTMAX (line @ [ch])) pipe"
  | (full) n ns' where "ns = n # ns'" "ch = NUL" "take REPORTMAX (line @ [ch]) = take REPORTMAX (note_text n)" "note_ok n" "pipe_ok ns' [] pipe"
proof -
  obtain sofar where sofar: "line = take REPORTMAX sofar" "NUL \<notin> set sofar" "sofar @ ch # pipe = concat (map note_text ns)"
    using assms by (auto simp: pipe_ok_def)
  have l: "take REPORTMAX (line @ [ch]) = take REPORTMAX (sofar @ [ch])" unfolding sofar(1) by (rule take_snoc)
  show thesis
  proof (cases "ch = NUL")
    case False
    then have "pipe_ok ns (take REPORTMAX (line @ [ch])) pipe"
      using sofar assms unfolding pipe_ok_def l by (intro conjI exI [of _ "sofar @ [ch]"]) simp_all
    then show thesis using that(1) False by blast
  next
    case True
    then obtain n ns' where ns: "ns = n # ns'" using sofar(3) by (cases ns) auto
    have ok: "note_ok n" "list_all note_ok ns'" using assms ns by (simp_all add: pipe_ok_def)
    have e: "sofar @ NUL # pipe = note_body n @ NUL # concat (map note_text ns')" using sofar(3) ns True by (simp add: note_text_def)
    have "sofar = note_body n \<and> pipe = concat (map note_text ns')"
      using e sofar(2) note_body_ok [OF ok(1)] by (simp add: first_nul)
    then show thesis using that(2) [of n ns'] ns True ok l by (simp add: pipe_ok_def note_text_def)
  qed
qed

lemma flagged_announce: "cs \<in> {[], [Local], [Remote], [Local, Remote]} \<Longrightarrow> flagged (announce_code cs) = Some cs"
  by (auto simp: flagged_def announce_code_def)

lemma pend_drop:
  assumes "good arr (n # pend) s"
  shows "good arr pend s"
proof -
  obtain T where i: "inv arr (n # pend) (\<lambda>_. 0) T s" using assms by (auto simp: good_def)
  note I = invD [OF i]
  have "hold_ok pend (pqchan s) (pqfail s) (jo s) (qf s)"
  proof (rule hold_okI [OF I(2)])
    fix c k
    have "in_pend pend c k \<le> in_pend (n # pend) c k" by (simp add: in_pend_def)
    then show "held pend (pqchan s) (pqfail s) (jo s) c k \<le> held (n # pend) (pqchan s) (pqfail s) (jo s) c k \<or> held pend (pqchan s) (pqfail s) (jo s) c k \<le> 1"
      "0 < pq_count (pqchan s c) k + in_jobs (jo s) c k + in_pend pend c k \<Longrightarrow>
        0 < pq_count (pqchan s c) k + in_jobs (jo s) c k + in_pend (n # pend) c k \<or> active (qf s k) \<and> fchan (qf s k) c \<noteq> None"
      by (simp_all add: held_def) linarith
  qed (use hold_distinct [OF I(2)] in simp)
  then show ?thesis using I by (auto simp: good_def inv_def)
qed

lemma todo_del_good:
  assumes "good arr ((i, cs) # pend) s" "cs \<in> {[], [Local], [Remote], [Local, Remote]}" "todo_del y (announce_code cs # num i @ [NUL]) s = Some s'"
  shows "good arr pend s'"
proof -
  obtain T where "inv arr ((i, cs) # pend) (\<lambda>_. 0) T s" using assms(1) by (auto simp: good_def)
  note I = invD [OF this]
  obtain T' where i': "inv arr pend (\<lambda>_. 0) T' s" using pend_drop [OF assms(1)] by (auto simp: good_def)
  have z: "held pend (pqchan s) (pqfail s) (jo s) c i = 0 \<and> active (qf s i) \<and> fchan (qf s i) c \<noteq> None" if "c \<in> set cs" for c
  proof -
    have "in_pend ((i, cs) # pend) c i = Suc (in_pend pend c i)" using that by (simp add: in_pend_def)
    then show ?thesis using held_le [OF I(2), of c i] held_active [OF I(2), of c i] by (simp add: held_def)
  qed
  have "scan_ulong (num i @ [NUL]) = (length (num i), of_nat (unat i))" unfolding num_def by (rule scan_fmt_ulong) simp
  then have sc: "scan_ulong (num i @ [NUL]) = (length (num i), i)" by simp
  let ?pe = "\<lparr>dt = clock y, id = i\<rparr>"
  obtain s1 where s1: "put_chans (\<lambda>_. ?pe) cs s = Some s1" "(if cs = [] then put_done ?pe s1 else Some s1) = Some s'"
    using assms(3) flagged_announce [OF assms(2)] sc num_short(2) by (auto simp: todo_del_def Let_def bind_eq_Some_conv char_at_append)
  have "inv arr pend (\<lambda>_. 0) T' s1"
    using put_chans_inv [OF i' s1(1), of i] z hold_distinct [OF I(2)] by simp
  then have "good arr pend s1" by (rule goodI)
  then show ?thesis using s1(2) put_done_good [of arr pend s1 ?pe s'] by (auto split: if_split_asm)
qed

lemma todo_record_good:
  assumes "good arr (pends (n # ns)) s" "note_ok n" "todo_record y (take REPORTMAX (note_text n)) s = Some s'"
  shows "good arr (pends ns) s'"
proof (cases n)
  case (Announce i cs)
  have l: "take REPORTMAX (note_text n) = CHR ''D'' # announce_code cs # num i @ [NUL]" using Announce note_kept(1) by (simp add: note_text_def note_body_def)
  show ?thesis
  proof (cases "flagexitasap s")
    case True
    then have "s' = s" using assms(3) unfolding l todo_record_def by simp
    then show ?thesis using assms(1) Announce pend_drop [of arr "(i, cs)" "pends ns" s] by simp
  next
    case False
    then have "todo_del y (announce_code cs # num i @ [NUL]) s = Some s'" using assms(3) by (simp add: todo_record_def l)
    then show ?thesis using todo_del_good [of arr i cs "pends ns" s y s'] assms(1,2) Announce by (simp add: note_ok_def)
  qed
next
  case (Say t)
  then show ?thesis using assms note_kept(3) [of t] by (auto simp: todo_record_def)
next
  case Quit
  then have "take REPORTMAX (note_text n) = ''X'' @ [NUL]" using note_kept(2) by (simp add: note_text_def note_body_def)
  then show ?thesis using assms Quit by (auto simp: todo_record_def split: if_split_asm)
qed

lemma todo_byte_good:
  assumes "good arr (pends ns) s" "pipe_ok ns (todoline s) (ch # pipe)" "todo_byte y ch s = Some s'"
  shows "\<exists>ns'. good arr (pends ns') s' \<and> pipe_ok ns' (todoline s') pipe"
  using assms(2)
proof (cases rule: pipe_byte)
  case going
  then have "s' = s\<lparr>todoline := take REPORTMAX (todoline s @ [ch])\<rparr>" using assms(3) by (simp add: todo_byte_def Let_def)
  then show ?thesis using assms(1) going(2) by auto
next
  case (full n ns')
  let ?line = "take REPORTMAX (note_text n)"
  have "length ?line > 1" using note_body_ok [OF full(4)] by (cases "note_body n") (simp_all add: note_text_def REPORTMAX_def take_Cons')
  then obtain s1 where s1: "todo_record y ?line (s\<lparr>todoline := ?line\<rparr>) = Some s1" "s' = s1\<lparr>todoline := []\<rparr>"
    using assms(3) unfolding todo_byte_def Let_def full(3) using full(2) by (auto simp: bind_eq_Some_conv split: if_split_asm)
  have "good arr (pends ns') s1" using todo_record_good [OF _ full(4) s1(1)] assms(1) full(1) by simp
  then show ?thesis using s1(2) full(5) by auto
qed

lemma todo_bytes_good:
  assumes "good arr (pends ns) s" "pipe_ok ns (todoline s) (bs @ pipe)" "todo_bytes env bs s = Some s'"
  shows "\<exists>ns'. good arr (pends ns') s' \<and> pipe_ok ns' (todoline s') pipe"
  using assms
proof (induction bs arbitrary: ns s env)
  case (Cons ch bs)
  then obtain s1 where s1: "todo_byte (env 0) ch s = Some s1" "todo_bytes (\<lambda>n. env (Suc n)) bs s1 = Some s'" by (auto simp: bind_eq_Some_conv)
  obtain ns1 where "good arr (pends ns1) s1" "pipe_ok ns1 (todoline s1) (bs @ pipe)" using todo_byte_good [OF Cons.prems(1) _ s1(1)] Cons.prems(2) by auto
  from Cons.IH [OF this s1(2)] show ?case .
qed auto

section \<open>Retry times\<close>

text \<open>\<open>pqrun\<close> makes every message due: the same messages wait, and all at one time.\<close>

definition due_now :: "int \<Rightarrow> prioq \<Rightarrow> prioq" where
  "due_now t pq = pq\<lparr>field := map_option (\<lambda>p. map (\<lambda>pe. pe\<lparr>dt := t\<rparr>) (take (unat (len pq)) p) @ drop (unat (len pq)) p) (field pq)\<rparr>"

lemma pqrun_due: "pqrun s = s\<lparr>pqchan := \<lambda>c. due_now (recent s) (pqchan s c)\<rparr>"
  by (simp add: pqrun_def due_now_def)

lemma heapn_flat: "n \<le> length p \<Longrightarrow> heapn (map (\<lambda>pe. pe\<lparr>dt := t\<rparr>) (take n p) @ drop n p) n"
  unfolding heapn_def
proof (intro allI impI, elim conjE)
  fix k
  assume "n \<le> length p" "0 < k" "k < n"
  then have "hparent k < n" using hparent_less [of k] by simp
  then show "dt ((map (\<lambda>pe. pe\<lparr>dt := t\<rparr>) (take n p) @ drop n p) ! hparent k) \<le> dt ((map (\<lambda>pe. pe\<lparr>dt := t\<rparr>) (take n p) @ drop n p) ! k)"
    using \<open>k < n\<close> \<open>n \<le> length p\<close> by (simp add: nth_append)
qed

lemma due_now_inv: "prioq_inv pq \<Longrightarrow> prioq_inv (due_now t pq) \<and> pq_count (due_now t pq) i = pq_count pq i"
proof -
  assume inv: "prioq_inv pq"
  have l: "ga_list (due_now t pq) = map (\<lambda>pe. pe\<lparr>dt := t\<rparr>) (ga_list pq)"
    using nat_le_linear by (auto simp: ga_list_def due_now_def split: option.split)
  have "map Prioq.id (ga_list (due_now t pq)) = map Prioq.id (ga_list pq)" unfolding l by simp
  then have "image_mset Prioq.id (prioq_bag (due_now t pq)) = image_mset Prioq.id (prioq_bag pq)"
    unfolding prioq_bag_def by (metis mset_map)
  then have "pq_count (due_now t pq) i = pq_count pq i" by (simp add: pq_count_def)
  moreover have "prioq_inv (due_now t pq)" using inv l
    by (auto simp: prioq_inv_def ga_inv_def due_now_def word_le_nat_alt intro!: heapn_flat split: option.splits)
  ultimately show ?thesis by simp
qed

lemma pqrun_good:
  assumes "good arr pend s"
  shows "good arr pend (pqrun s)"
proof -
  obtain T where i: "inv arr pend (\<lambda>_. 0) T s" using assms by (auto simp: good_def)
  note I = invD [OF i]
  have q: "prioq_inv (due_now t (pqchan s c))" "pq_count (due_now t (pqchan s c)) k = pq_count (pqchan s c) k" for t c k
    using I(1) due_now_inv by (auto simp: pqs_ok_def)
  have "inv arr pend (\<lambda>_. 0) T (pqrun s)"
    using I q by (simp add: pqrun_due inv_def pqs_ok_def hold_ok_def held_def)
  then show ?thesis by (rule goodI)
qed

text \<open>\<open>pqfinish\<close> leaves the times in the channel files.\<close>

lemma mtime_inv:
  assumes "inv arr pend x T s"
  shows "inv arr pend x T (set_file i (\<lambda>f. f\<lparr>fchan_mtime := (fchan_mtime f)(c := t)\<rparr>) s)"
proof (rule set_file_inv [OF assms])
  note I = invD [OF assms]
  show "file_ok (arr i) (story s i) ((qf s i)\<lparr>fchan_mtime := (fchan_mtime (qf s i))(c := t)\<rparr>)"
    using I(3) by (simp add: files_ok_def file_ok_def)
  show "fchan ((qf s i)\<lparr>fchan_mtime := (fchan_mtime (qf s i))(c := t)\<rparr>) d \<noteq> None"
    if "0 < pq_count (pqchan s d) i \<or> 0 < in_jobs (jo s) d i \<or> 0 < in_pend pend d i" for d
    using held_active [OF I(2) that] by simp
  show "reads (case_option [] (\<lambda>x. x) (fchan ((qf s i)\<lparr>fchan_mtime := (fchan_mtime (qf s i))(c := t)\<rparr>) d)) (pass s d)"
    if "pass_id (pass s d) = i" "0 < in_jobs (jo s) d i" for d
  proof -
    have "pass_id (pass s d) \<noteq> 0" using held_active [OF I(2), of d i] I(3) that by (auto simp: files_ok_def)
    then have "reads (case_option [] (\<lambda>x. x) (fchan (qf s (pass_id (pass s d))) d)) (pass s d)" using I(6) by (simp add: pass_ok_def)
    then show ?thesis using that(1) by simp
  qed
qed (simp add: active_def)

lemma pqfinish_loop_inv: "inv arr pend x T s \<Longrightarrow> inv arr pend x T (pqfinish_loop env k c s) \<and> todoline (pqfinish_loop env k c s) = todoline s"
proof (induction k arbitrary: s)
  case (Suc k)
  show ?case
  proof (cases "prioq_min (pqchan s c)")
    case (Some pe)
    let ?s = "s\<lparr>pqchan := (pqchan s)(c := prioq_delmin (pqchan s c))\<rparr>"
    have "inv arr pend x T ?s" using take_chan_inv(1) [OF Suc.prems Some] .
    then have "inv arr pend x T (if denied (env k) Utime \<or> fchan (qf ?s (Prioq.id pe)) c = None
        then Manager.log3 ''warning: unable to utime '' (fname_chan (Prioq.id pe) c) (''; message will be retried too soon'' @ [LF]) ?s
        else set_file (Prioq.id pe) (\<lambda>f. f\<lparr>fchan_mtime := (fchan_mtime f)(c := dt pe)\<rparr>) ?s)" using mtime_inv by simp
    from Suc.IH [OF this] show ?thesis using Some by (simp add: Let_def)
  qed (use Suc.prems in simp)
qed simp

lemma pqfinish_inv: "inv arr pend x T s \<Longrightarrow> inv arr pend x T (pqfinish env s) \<and> todoline (pqfinish env s) = todoline s"
proof -
  assume i: "inv arr pend x T s"
  let ?s = "pqfinish_loop (env Local) (unat (len (pqchan s Local))) Local s"
  have s: "inv arr pend x T ?s" "todoline ?s = todoline s" using pqfinish_loop_inv [OF i] by blast+
  show ?thesis using pqfinish_loop_inv [OF s(1), of "env Remote" _ Remote] s(2) by (simp add: pqfinish_def channels_eq)
qed

section \<open>The system\<close>

text \<open>\<open>arrived\<close> is what the channel files of a message were when \<open>qmail-todo\<close> had written them; \<open>todo_pipe\<close> is what it has written and the
  manager has not read.\<close>

record qsys =
  mgr :: send
  arrived :: "ulong \<Rightarrow> channel \<Rightarrow> char list"
  todo_pipe :: "char list"

text \<open>What the manager does between two looks at its descriptors, in any order and for any answers of the system.\<close>

inductive mstep :: "sconf \<Rightarrow> send \<Rightarrow> send \<Rightarrow> bool" for conf :: sconf where
  Tick: "mstep conf s (s\<lparr>recent := t\<rparr>)"
| Alarm: "mstep conf s (pqrun s)"
| Reread: "mstep conf s (s\<lparr>vdoms := v\<rparr>)"
| Terminate: "mstep conf s (s\<lparr>flagexitasap := True\<rparr>)"
| Write: "mstep conf s (comm_do c isset w epipe s)"
| Report: "del_dochan env c r s = Some s' \<Longrightarrow> mstep conf s s'"
| Pass: "pass_dochan y conf c s = Some s' \<Longrightarrow> mstep conf s s'"
| Failed_due: "take_fail y s = Some s' \<Longrightarrow> mstep conf s s'"
| Done_due: "honest y \<Longrightarrow> take_done y conf s = Some s' \<Longrightarrow> mstep conf s s'"
| Cleanup: "mstep conf s (cleanup_do y opendir s)"
| Finish: "mstep conf s (pqfinish fenv s)"

text \<open>The other programs. \<open>New_mess\<close> and \<open>New_todo\<close> are \<open>qmail-queue\<close>, whose message number is that of a new file. \<open>Sort\<close> is \<open>qmail-todo\<close>
  before it removes the entry in \<open>todo\<close>, \<open>Arrive\<close> that removal with the announcement, which may get lost; no such number waits to be examined again.
  \<open>Restart\<close> is a new manager with a new \<open>qmail-todo\<close>.\<close>

inductive qstep :: "sconf \<Rightarrow> qsys \<Rightarrow> qsys \<Rightarrow> bool" for conf :: sconf where
  Manage: "mstep conf (mgr q) s' \<Longrightarrow> qstep conf q (q\<lparr>mgr := s'\<rparr>)"
| Notes: "todo_do env isset (Got (take n (todo_pipe q))) (mgr q) = Some s' \<Longrightarrow>
    qstep conf q (q\<lparr>mgr := s', todo_pipe := (if flagtodoalive (mgr q) \<and> isset then drop n (todo_pipe q) else todo_pipe q)\<rparr>)"
| New_mess: "fmess (qf (mgr q) i) = None \<Longrightarrow> i \<noteq> 0 \<Longrightarrow>
    qstep conf q (q\<lparr>mgr := set_file i (\<lambda>f. f\<lparr>fmess := Some m, fmess_atime := t\<rparr>) (mgr q)\<rparr>)"
| New_todo: "fmess (qf (mgr q) i) \<noteq> None \<Longrightarrow> finfo (qf (mgr q) i) = None \<Longrightarrow> i \<noteq> 0 \<Longrightarrow>
    qstep conf q (q\<lparr>mgr := set_file i (\<lambda>f. f\<lparr>ftodo := True\<rparr>) (mgr q)\<rparr>)"
| Sort: "ftodo (qf (mgr q) i) \<Longrightarrow> ftodo f \<Longrightarrow> fmess f = fmess (qf (mgr q) i) \<Longrightarrow> qstep conf q (q\<lparr>mgr := set_file i (\<lambda>_. f) (mgr q)\<rparr>)"
| Arrive: "ftodo (qf (mgr q) i) \<Longrightarrow> i \<noteq> 0 \<Longrightarrow> pq_count (pqfail (mgr q)) i = 0 \<Longrightarrow>
    \<not> ftodo f \<Longrightarrow> finfo f \<noteq> None \<Longrightarrow> fmess f = fmess (qf (mgr q) i) \<Longrightarrow> list_all (\<lambda>c. whole (case_option [] (\<lambda>x. x) (fchan f c))) channels \<Longrightarrow>
    qstep conf q (q\<lparr>mgr := (set_file i (\<lambda>_. f) (mgr q))\<lparr>story := (story (mgr q))(i := [])\<rparr>,
      arrived := (arrived q)(i := \<lambda>c. case_option [] (\<lambda>x. x) (fchan f c)),
      todo_pipe := todo_pipe q @ (if told then note_text (Announce i (filter (\<lambda>c. fchan f c \<noteq> None) channels)) else [])\<rparr>)"
| Tell: "note_ok n \<Longrightarrow> \<forall>i cs. n \<noteq> Announce i cs \<Longrightarrow> qstep conf q (q\<lparr>todo_pipe := todo_pipe q @ note_text n\<rparr>)"
| Restart: "send_start env opendir (send_init conc t now (qf (mgr q)) (story (mgr q))) = Some s' \<Longrightarrow>
    distinct (subdir_ids opendir (readsubdir_init ''info'')) \<Longrightarrow> qstep conf q (q\<lparr>mgr := s', todo_pipe := []\<rparr>)"

text \<open>It begins with an empty queue.\<close>

definition no_files :: mfiles where
  "no_files = \<lparr>finfo = None, ftodo = False, fmess = None, fmess_atime = 0, fchan = (\<lambda>_. None), fchan_mtime = (\<lambda>_. 0), fbounce = None\<rparr>"

definition qstart :: "(channel \<Rightarrow> nat) \<Rightarrow> built \<Rightarrow> int \<Rightarrow> qsys" where
  "qstart conc t now = \<lparr>mgr = send_init conc t now (\<lambda>_. no_files) (\<lambda>_. []), arrived = (\<lambda>_ _. []), todo_pipe = []\<rparr>"

inductive queue_reachable :: "sconf \<Rightarrow> qsys \<Rightarrow> bool" for conf :: sconf where
  Start: "queue_reachable conf (qstart conc t now)"
| Step: "queue_reachable conf q \<Longrightarrow> qstep conf q q' \<Longrightarrow> queue_reachable conf q'"

inductive_cases mstepE: "mstep conf s s'"
inductive_cases qstepE: "qstep conf q q'"

definition system_ok :: "qsys \<Rightarrow> bool" where
  "system_ok q \<longleftrightarrow> (\<exists>ns. good (arrived q) (pends ns) (mgr q) \<and> pipe_ok ns (todoline (mgr q)) (todo_pipe q))"

lemma mstep_good: "mstep conf s s' \<Longrightarrow> good arr pend s \<Longrightarrow> good arr pend s' \<and> todoline s' = todoline s"
proof (induction rule: mstep.induct)
  case (Alarm s)
  then show ?case using pqrun_good by (simp add: pqrun_due)
next
  case (Finish s fenv)
  then obtain T where "inv arr pend (\<lambda>_. 0) T s" by (auto simp: good_def)
  from pqfinish_inv [OF this, of fenv] show ?case by (auto intro: goodI)
qed (auto simp: cleanup_do_good dest: del_dochan_good line.del_dochan pass_dochan_good line.pass [OF _ refl] take_fail_good line.take_fail take_done_good line.take_done)

section \<open>The other programs keep the invariant\<close>

lemma foreign_inv:
  assumes "inv arr pend x T s" "\<not> active (qf s i)" "\<not> active (f (qf s i))" "file_ok (arr i) (story s i) (f (qf s i))"
  shows "inv arr pend x T (set_file i f s)"
  using held_active [OF invD(2) [OF assms(1)], of _ i] assms(2-4) by (intro set_file_inv [OF assms(1)]) auto

lemma foreign_good: "good arr pend s \<Longrightarrow> \<not> active (qf s i) \<Longrightarrow> \<not> active (f (qf s i)) \<Longrightarrow> file_ok (arr i) (story s i) (f (qf s i)) \<Longrightarrow> good arr pend (set_file i f s)"
  by (auto simp: good_def intro: foreign_inv)

lemma good_file: "good arr pend s \<Longrightarrow> file_ok (arr i) (story s i) (qf s i)"
  by (auto simp: good_def dest: invD(3) simp: files_ok_def)

lemma new_mess_good:
  assumes "good arr pend s" "fmess (qf s i) = None"
  shows "good arr pend (set_file i (\<lambda>f. f\<lparr>fmess := Some m, fmess_atime := t\<rparr>) s)"
  using good_file [OF assms(1), of i] assms(2) by (intro foreign_good [OF assms(1)]) (auto simp: file_ok_def active_def)

lemma new_todo_good:
  assumes "good arr pend s" "fmess (qf s i) \<noteq> None" "finfo (qf s i) = None"
  shows "good arr pend (set_file i (\<lambda>f. f\<lparr>ftodo := True\<rparr>) s)"
  using assms(2,3) by (intro foreign_good [OF assms(1)]) (auto simp: file_ok_def active_def)

lemma sort_good:
  assumes "good arr pend s" "ftodo (qf s i)" "ftodo f" "fmess f = fmess (qf s i)"
  shows "good arr pend (set_file i (\<lambda>_. f) s)"
  using good_file [OF assms(1), of i] assms(2-4) by (intro foreign_good [OF assms(1)]) (auto simp: file_ok_def active_def)

text \<open>A message without recipients has no channel file; every other one is announced for its channels, or found at the next start.\<close>

lemma arrive_inv:
  assumes "inv arr pend x T s" "\<not> active (qf s i)" "i \<noteq> 0" "pq_count (pqfail s) i = 0" "\<not> ftodo f" "finfo f \<noteq> None" "fmess f \<noteq> None"
    "\<And>c. whole (case_option [] (\<lambda>x. x) (fchan f c))" "pend' = pend @ [(i, filter (\<lambda>c. fchan f c \<noteq> None) channels)] \<or> pend' = pend"
  shows "inv (arr(i := \<lambda>c. case_option [] (\<lambda>x. x) (fchan f c))) pend' x T ((set_file i (\<lambda>_. f) s)\<lparr>story := (story s)(i := [])\<rparr>)"
proof -
  note I = invD [OF assms(1)]
  have no: "pq_count (pqchan s c) i = 0" "in_jobs (jo s) c i = 0" "in_pend pend c i = 0" for c
    using held_active [OF I(2), of c i] assms(2) by (meson gr_zeroI)+
  let ?u = "\<lambda>c. case_option [] (\<lambda>x. x) (fchan f c)" let ?fs = "(qf s)(i := f)"
  have p: "in_pend pend' c k = in_pend pend c k + (if k = i \<and> fchan f c \<noteq> None \<and> pend' \<noteq> pend then 1 else 0)" for c k
  proof -
    have "c \<in> set channels" by (cases c) (simp_all add: channels_eq)
    then show ?thesis using assms(9) by (auto simp: in_pend_def)
  qed
  have "distinct channels" by (simp add: channels_eq)
  have "hold_ok pend' (pqchan s) (pqfail s) (jo s) ?fs"
    unfolding hold_ok_def
  proof (intro conjI allI impI)
    fix c k
    show "held pend' (pqchan s) (pqfail s) (jo s) c k \<le> 1"
      using p [of c k] no assms(4) held_le [OF I(2), of c k] by (cases "k = i") (simp_all add: held_def)
    assume *: "0 < pq_count (pqchan s c) k + in_jobs (jo s) c k + in_pend pend' c k"
    show "active (?fs k)" using * p [of c k] no [of c] held_active [OF I(2), of c k] assms(5,6) by (cases "k = i") (auto simp: active_def)
    show "fchan (?fs k) c \<noteq> None"
    proof (cases "k = i")
      case True
      then show ?thesis using * p [of c k] no [of c] by (auto split: if_split_asm)
    next
      case False
      then show ?thesis using * p [of c k] held_active [OF I(2), of c k] by auto
    qed
  next
    show "\<forall>n \<in> set pend'. distinct (snd n)" using assms(9) hold_distinct [OF I(2)] \<open>distinct channels\<close> by auto
  qed
  moreover have "file_ok ?u [] f"
    using assms(5-8) by (auto simp: file_ok_def chan_ok_def marked_refl open_at_def starts_def split: option.split)
  then have "files_ok (arr(i := ?u)) ((story s)(i := [])) ?fs" using I(3) assms(3) by (auto simp: files_ok_def)
  moreover have "pass_ok ?fs (pass s)" using I(6) pass_refs(6) [OF I(4,5)] no(2) unfolding pass_ok_def by fastforce
  moreover have "jobs_ok (arr(i := ?u)) ((story s)(i := [])) T (jo s) (dels s) (pass s)"
    unfolding jobs_ok_def
  proof (intro allI impI)
    fix j
    assume j: "j < length (jo s)" "0 < refs (jo s ! j)"
    then have "jid (jo s ! j) \<noteq> i" using in_jobs_pos [OF j] no(2) by auto
    then show "job_good (arr(i := ?u)) ((story s)(i := [])) (T j) (dels s) (pass s) j (jo s ! j)"
      using jobs_okD [OF I(7) j] by (simp add: job_good_def Let_def)
  qed
  ultimately show ?thesis using I by (simp add: inv_def)
qed

lemma pipe_add: "pipe_ok ns line pipe \<Longrightarrow> note_ok n \<Longrightarrow> pipe_ok (ns @ [n]) line (pipe @ note_text n)"
  by (auto simp: pipe_ok_def)

lemma note_arrived: "note_ok (Announce i (filter P channels))"
  by (simp add: note_ok_def channels_eq)

lemma arrive_system:
  assumes "system_ok q" "ftodo (qf (mgr q) i)" "i \<noteq> 0" "pq_count (pqfail (mgr q)) i = 0" "\<not> ftodo f" "finfo f \<noteq> None" "fmess f = fmess (qf (mgr q) i)"
    "list_all (\<lambda>c. whole (case_option [] (\<lambda>x. x) (fchan f c))) channels"
  shows "system_ok (q\<lparr>mgr := (set_file i (\<lambda>_. f) (mgr q))\<lparr>story := (story (mgr q))(i := [])\<rparr>,
      arrived := (arrived q)(i := \<lambda>c. case_option [] (\<lambda>x. x) (fchan f c)),
      todo_pipe := todo_pipe q @ (if told then note_text (Announce i (filter (\<lambda>c. fchan f c \<noteq> None) channels)) else [])\<rparr>)"
proof -
  let ?n = "Announce i (filter (\<lambda>c. fchan f c \<noteq> None) channels)"
  obtain ns T where ns: "inv (arrived q) (pends ns) (\<lambda>_. 0) T (mgr q)" "pipe_ok ns (todoline (mgr q)) (todo_pipe q)"
    using assms(1) by (auto simp: system_ok_def good_def)
  have m: "fmess f \<noteq> None" using good_file [OF goodI [OF ns(1)], of i] assms(2,7) by (auto simp: file_ok_def)
  have w: "whole (case_option [] (\<lambda>x. x) (fchan f c))" for c using assms(8) by (cases c) (simp_all add: channels_eq)
  have na: "\<not> active (qf (mgr q) i)" using assms(2) by (simp add: active_def)
  let ?ns = "if told then ns @ [?n] else ns"
  have "pends ?ns = pends ns @ [(i, filter (\<lambda>c. fchan f c \<noteq> None) channels)] \<or> pends ?ns = pends ns" by (simp add: pends_append)
  from arrive_inv [OF ns(1) na assms(3-6) m w this]
  have "good ((arrived q)(i := \<lambda>c. case_option [] (\<lambda>x. x) (fchan f c))) (pends ?ns) ((set_file i (\<lambda>_. f) (mgr q))\<lparr>story := (story (mgr q))(i := [])\<rparr>)"
    by (rule goodI)
  moreover have "pipe_ok ?ns (todoline (mgr q)) (todo_pipe q @ (if told then note_text ?n else []))"
    using ns(2) pipe_add [OF ns(2) note_arrived] by simp
  ultimately show ?thesis unfolding system_ok_def by (intro exI [of _ ?ns]) simp
qed

lemma restart_system:
  assumes "system_ok q" "send_start env opendir (send_init conc t now (qf (mgr q)) (story (mgr q))) = Some s'" "distinct (subdir_ids opendir (readsubdir_init ''info''))"
  shows "system_ok (q\<lparr>mgr := s', todo_pipe := []\<rparr>)"
proof -
  have f: "files_ok (arrived q) (story (mgr q)) (qf (mgr q))" using assms(1) by (auto simp: system_ok_def good_def dest: invD(3))
  have "pqadds env is s = Some u \<Longrightarrow> todoline u = todoline s" for env "is" s u
    by (induction env "is" s rule: pqadds.induct) (auto simp: bind_eq_Some_conv dest: line.pqadd)
  then have "todoline s' = []" using assms(2) by (fastforce simp: send_start_def pqstart_def send_init_def)
  then have "pipe_ok [] (todoline s') []" by (auto simp: pipe_ok_def)
  then show ?thesis using send_start_good [OF f assms(2,3)] unfolding system_ok_def by (intro exI [of _ "[]"]) simp
qed

lemma notes_system:
  assumes "system_ok q" "todo_do env isset (Got (take n (todo_pipe q))) (mgr q) = Some s'"
  shows "system_ok (q\<lparr>mgr := s', todo_pipe := (if flagtodoalive (mgr q) \<and> isset then drop n (todo_pipe q) else todo_pipe q)\<rparr>)"
proof -
  obtain ns where ns: "good (arrived q) (pends ns) (mgr q)" "pipe_ok ns (todoline (mgr q)) (todo_pipe q)" using assms(1) by (auto simp: system_ok_def)
  consider (idle) "\<not> (flagtodoalive (mgr q) \<and> isset)" | (eof) "flagtodoalive (mgr q)" "isset" "take n (todo_pipe q) = []"
    | (bytes) "flagtodoalive (mgr q)" "isset" "take n (todo_pipe q) \<noteq> []" by blast
  then show ?thesis
  proof cases
    case idle
    then have "s' = mgr q" using assms(2) by (cases "flagtodoalive (mgr q)") (simp_all add: Manager.todo_do_def)
    then show ?thesis using ns idle by (auto simp: system_ok_def)
  next
    case eof
    then have "good (arrived q) (pends ns) s' \<and> todoline s' = todoline (mgr q)" using assms(2) ns(1) by (auto simp: Manager.todo_do_def tododied_def)
    moreover have "drop n (todo_pipe q) = todo_pipe q" using eof(3) by auto
    ultimately show ?thesis using ns(2) eof by (auto simp: system_ok_def)
  next
    case bytes
    then have b: "todo_bytes env (take n (todo_pipe q)) (mgr q) = Some s'" using assms(2) by (auto simp: Manager.todo_do_def)
    have "pipe_ok ns (todoline (mgr q)) (take n (todo_pipe q) @ drop n (todo_pipe q))" using ns(2) by simp
    from todo_bytes_good [OF ns(1) this b] show ?thesis using bytes by (simp add: system_ok_def)
  qed
qed

lemma file_system: "system_ok q \<Longrightarrow> (\<And>arr pend. good arr pend (mgr q) \<Longrightarrow> good arr pend (set_file i f (mgr q))) \<Longrightarrow> system_ok (q\<lparr>mgr := set_file i f (mgr q)\<rparr>)"
  by (auto simp: system_ok_def)

lemma qstep_ok: "qstep conf q q' \<Longrightarrow> system_ok q \<Longrightarrow> system_ok q'"
proof (induction rule: qstep.induct)
  case (Manage q s')
  then obtain ns where "good (arrived q) (pends ns) (mgr q)" "pipe_ok ns (todoline (mgr q)) (todo_pipe q)" by (auto simp: system_ok_def)
  moreover from mstep_good [OF Manage(1) this(1)] have "good (arrived q) (pends ns) s'" "todoline s' = todoline (mgr q)" by simp_all
  ultimately show ?case by (auto simp: system_ok_def)
next
  case (New_mess q i m t)
  then show ?case by (intro file_system new_mess_good) simp_all
next
  case (New_todo q i)
  then show ?case by (intro file_system new_todo_good) simp_all
next
  case (Sort q i f)
  then show ?case by (intro file_system sort_good) simp_all
next
  case (Tell n q)
  then obtain ns where ns: "good (arrived q) (pends ns) (mgr q)" "pipe_ok ns (todoline (mgr q)) (todo_pipe q)" by (auto simp: system_ok_def)
  have "pends (ns @ [n]) = pends ns" using Tell(2) by (cases n) (simp_all add: pends_append)
  then show ?case using ns(1) pipe_add [OF ns(2) Tell(1)] unfolding system_ok_def by (intro exI [of _ "ns @ [n]"]) simp
qed (simp_all add: arrive_system restart_system notes_system)

lemma qstart_ok: "system_ok (qstart conc t now)"
proof -
  have "files_ok (\<lambda>_ _. []) (\<lambda>_. []) (\<lambda>_. no_files)"
    by (simp add: files_ok_def file_ok_def active_def no_files_def chan_ok_def whole_def open_at_def starts_def)
  from send_init_inv(1) [OF this, of "\<lambda>_. {}" conc t now] have "good (\<lambda>_ _. []) (pends []) (send_init conc t now (\<lambda>_. no_files) (\<lambda>_. []))"
    by (auto intro: goodI)
  moreover have "pipe_ok [] (todoline (send_init conc t now (\<lambda>_. no_files) (\<lambda>_. []))) []" by (auto simp: pipe_ok_def send_init_def)
  ultimately show ?thesis unfolding system_ok_def qstart_def by (intro exI [of _ "[]"]) simp
qed

lemma queue_reachable_ok: "queue_reachable conf q \<Longrightarrow> system_ok q"
  by (induction rule: queue_reachable.induct) (auto simp: qstart_ok qstep_ok)

lemma queue_reachable_inv:
  assumes "queue_reachable conf q"
  obtains pend T where "inv (arrived q) pend (\<lambda>_. 0) T (mgr q)"
  using queue_reachable_ok [OF assms] by (auto simp: system_ok_def good_def)

section \<open>The main loop\<close>

lemma manage_steps: "(mstep conf)\<^sup>*\<^sup>* (mgr q) s' \<Longrightarrow> (qstep conf)\<^sup>*\<^sup>* q (q\<lparr>mgr := s'\<rparr>)"
proof (induction rule: rtranclp_induct)
  case (step t u)
  have "qstep conf (q\<lparr>mgr := t\<rparr>) ((q\<lparr>mgr := t\<rparr>)\<lparr>mgr := u\<rparr>)" by (rule qstep.Manage) (simp add: step.hyps(2))
  then show ?case using step.IH by (simp add: rtranclp.rtrancl_into_rtrancl)
qed simp

lemma before_select_steps: "(mstep conf)\<^sup>*\<^sup>* s (before_select w s)"
proof -
  have "(mstep conf)\<^sup>*\<^sup>* s (if alarmed w then pqrun (s\<lparr>recent := fst (times w)\<rparr>) else s\<lparr>recent := fst (times w)\<rparr>)"
    by (auto intro: mstep.Tick mstep.Alarm converse_rtranclp_into_rtranclp)
  then show ?thesis unfolding before_select_def Let_def
    by (auto split: option.split intro: mstep.Reread rtranclp.rtrancl_into_rtrancl)
qed

lemma writes_steps: "(mstep conf)\<^sup>*\<^sup>* s (fold (\<lambda>c. comm_do c (r c) (v c) (e c)) cs s)"
proof (induction cs arbitrary: s)
  case (Cons c cs)
  then show ?case by (auto intro: converse_rtranclp_into_rtranclp mstep.Write)
qed simp

lemma del_do_steps: "del_do w c s = Some s' \<Longrightarrow> (mstep conf)\<^sup>*\<^sup>* s s'"
  by (auto simp: del_do_def split: if_split_asm intro: mstep.Report)

lemma pass_do_steps: "pass_do env conf s = Some s' \<Longrightarrow> honest (env 3) \<Longrightarrow> (mstep conf)\<^sup>*\<^sup>* s s'"
  unfolding pass_do_def bind_eq_Some_conv
  by (elim exE conjE) (blast intro: mstep.Pass mstep.Failed_due mstep.Done_due converse_rtranclp_into_rtranclp rtranclp.rtrancl_refl)

lemma round_steps:
  assumes "main_round w conf (mgr q) = Some s'" "snd (todo_notes w) = Got (take n (todo_pipe q)) \<or> snd (todo_notes w) \<in> {Rd_intr, Rd_fail}" "honest (env_pass w 3)"
  shows "\<exists>pipe \<in> {todo_pipe q, drop n (todo_pipe q)}. (qstep conf)\<^sup>*\<^sup>* q (q\<lparr>mgr := s', todo_pipe := pipe\<rparr>)"
proof (cases "select_ok w")
  case False
  then have "s' = before_select w (mgr q)" using assms(1) by (simp add: main_round_def Let_def)
  then show ?thesis using manage_steps [OF before_select_steps] by (intro bexI [of _ "todo_pipe q"]) simp_all
next
  case True
  let ?s = "fold (\<lambda>c. comm_do c (wready w c) (fst (wrote w c)) (snd (wrote w c))) channels ((before_select w (mgr q))\<lparr>recent := snd (times w)\<rparr>)"
  obtain s1 s2 s3 s4 where s: "del_do w Local ?s = Some s1" "del_do w Remote s1 = Some s2"
    "Manager.todo_do (env_todo w) (fst (todo_notes w)) (snd (todo_notes w)) s2 = Some s3" "pass_do (env_pass w) conf s3 = Some s4"
    "s' = cleanup_do (env_clean w) (mess_dir w) s4"
    using assms(1) True by (auto simp: main_round_def Let_def bind_eq_Some_conv)
  have "(mstep conf)\<^sup>*\<^sup>* (mgr q) ((before_select w (mgr q))\<lparr>recent := snd (times w)\<rparr>)"
    using before_select_steps mstep.Tick by (rule rtranclp.rtrancl_into_rtrancl)
  from rtranclp_trans [OF this writes_steps [of conf _ "wready w" "\<lambda>c. fst (wrote w c)" "\<lambda>c. snd (wrote w c)" channels]]
  have "(mstep conf)\<^sup>*\<^sup>* (mgr q) s2" using del_do_steps [OF s(1)] del_do_steps [OF s(2)] by (meson rtranclp_trans)
  from manage_steps [OF this] have a: "(qstep conf)\<^sup>*\<^sup>* q (q\<lparr>mgr := s2\<rparr>)" .
  have "(mstep conf)\<^sup>*\<^sup>* s3 s'" using pass_do_steps [OF s(4) assms(3)] s(5) by (auto intro: mstep.Cleanup rtranclp.rtrancl_into_rtrancl)
  then have b: "(qstep conf)\<^sup>*\<^sup>* (q\<lparr>mgr := s3, todo_pipe := pipe\<rparr>) (q\<lparr>mgr := s', todo_pipe := pipe\<rparr>)" for pipe
    using manage_steps [of conf "q\<lparr>mgr := s3, todo_pipe := pipe\<rparr>" s'] by (cases q) simp
  show ?thesis
  proof (cases "snd (todo_notes w) = Got (take n (todo_pipe q))")
    case True
    let ?pipe = "if flagtodoalive s2 \<and> fst (todo_notes w) then drop n (todo_pipe q) else todo_pipe q"
    have "qstep conf (q\<lparr>mgr := s2\<rparr>) (q\<lparr>mgr := s3, todo_pipe := ?pipe\<rparr>)"
      using qstep.Notes [of "env_todo w" "fst (todo_notes w)" n "q\<lparr>mgr := s2\<rparr>" s3 conf] s(3) True by (simp cong: if_cong split del: if_split)
    then have "(qstep conf)\<^sup>*\<^sup>* q (q\<lparr>mgr := s', todo_pipe := ?pipe\<rparr>)"
      using a b [of ?pipe] by (meson converse_rtranclp_into_rtranclp rtranclp_trans)
    then show ?thesis by (intro bexI [of _ ?pipe]) simp_all
  next
    case False
    then have "s3 = s2" using s(3) assms(2) by (auto simp: Manager.todo_do_def split: if_split_asm)
    then have "(qstep conf)\<^sup>*\<^sup>* q (q\<lparr>mgr := s', todo_pipe := todo_pipe q\<rparr>)"
      using a b [of "todo_pipe q"] by (auto intro: rtranclp_trans)
    then show ?thesis by (intro bexI [of _ "todo_pipe q"]) simp_all
  qed
qed

section \<open>An example\<close>

text \<open>One message with one local recipient has come, the manager has been told, and has handed the recipient to the delivery program.\<close>

definition one_file :: mfiles where
  "one_file = \<lparr>finfo = Some (''Fa@b'' @ [NUL], 0), ftodo = False, fmess = Some ''m'', fmess_atime = 0,
     fchan = (\<lambda>c. if c = Local then Some (''Tu@h'' @ [NUL]) else None), fchan_mtime = (\<lambda>_. 0), fbounce = None\<rparr>"

definition one_conf :: sconf where
  "one_conf = \<lparr>lifetime = 604800, bounce = \<lparr>bouncemaxbytes = 0, bouncefrom = ''MAILER-DAEMON'', bouncehost = ''h'', doublebounceto = ''postmaster@h'',
     bounce_localtime = datetime_tai\<rparr>\<rparr>"

definition calm :: sys where
  "calm = \<lparr>clock = 0, denied = (\<lambda>_. False), smem = (\<lambda>_. True), message_out = [], envelope_out = [], queue_pid = 0, queue_waited = True, queue_wstat = 0,
     queue_err = [], cleaner_removes = True, cleaner_reply = CHR ''+''\<rparr>"

definition one_start :: qsys where
  "one_start = qstart (\<lambda>_. 1) ([], False, \<lparr>constmap.num = 0, mask = 0, hashes = [], first = [], nxt = [], input = [], inputlen = []\<rparr>) 0"

definition one_arrived :: qsys where
  "one_arrived = one_start\<lparr>mgr := (set_file 7 (\<lambda>_. one_file) (mgr one_start)), arrived := (\<lambda>_ _. [])(7 := \<lambda>c. if c = Local then ''Tu@h'' @ [NUL] else []),
     todo_pipe := note_text (Announce 7 [Local])\<rparr>"

lemma one_start_reachable: "queue_reachable one_conf one_start"
  unfolding one_start_def by (rule queue_reachable.Start)

lemma set_file_twice: "set_file i f (set_file i g s) = set_file i (\<lambda>x. f (g x)) s"
  by (simp add: set_file_def)

lemma one_arrived_reachable: "queue_reachable one_conf one_arrived"
proof -
  let ?q1 = "one_start\<lparr>mgr := set_file 7 (\<lambda>f. f\<lparr>fmess := Some ''m'', fmess_atime := 0\<rparr>) (mgr one_start)\<rparr>"
  let ?q2 = "?q1\<lparr>mgr := set_file 7 (\<lambda>f. f\<lparr>ftodo := True\<rparr>) (mgr ?q1)\<rparr>"
  note d = one_start_def qstart_def send_init_def no_files_def one_file_def
  have f: "finfo (qf (mgr one_start) 7) = None" "fmess (qf (mgr one_start) 7) = None" "ftodo (qf (mgr one_start) 7) = False" "pq_count (pqfail (mgr one_start)) 7 = 0"
    "story (mgr one_start) = (\<lambda>_. [])" "arrived one_start = (\<lambda>_ _. [])" "todo_pipe one_start = []"
    by (simp_all add: d empty_pq)
  have 1: "qstep one_conf one_start ?q1" by (rule qstep.New_mess) (simp_all add: f)
  have 2: "qstep one_conf ?q1 ?q2" by (rule qstep.New_todo) (simp_all add: f set_file_def)
  have "qstep one_conf ?q2 (?q2\<lparr>mgr := (set_file 7 (\<lambda>_. one_file) (mgr ?q2))\<lparr>story := (story (mgr ?q2))(7 := [])\<rparr>,
      arrived := (arrived ?q2)(7 := \<lambda>c. case_option [] (\<lambda>x. x) (fchan one_file c)),
      todo_pipe := todo_pipe ?q2 @ (if True then note_text (Announce 7 (filter (\<lambda>c. fchan one_file c \<noteq> None) channels)) else [])\<rparr>)"
    by (rule qstep.Arrive) (simp_all add: f set_file_def one_file_def whole_def channels_eq)
  moreover have "(set_file 7 (\<lambda>_. one_file) (mgr ?q2))\<lparr>story := (story (mgr ?q2))(7 := [])\<rparr> = set_file 7 (\<lambda>_. one_file) (mgr one_start)"
    using f(5) by (simp add: set_file_def fun_eq_iff)
  moreover have "(\<lambda>c. case_option [] (\<lambda>x. x) (fchan one_file c)) = (\<lambda>c. if c = Local then ''Tu@h'' @ [NUL] else [])"
    "filter (\<lambda>c. fchan one_file c \<noteq> None) channels = [Local]"
    by (simp_all add: fun_eq_iff one_file_def channels_eq)
  ultimately have 3: "qstep one_conf ?q2 one_arrived" using f(6,7) by (simp add: one_arrived_def)
  show ?thesis using one_start_reachable 1 2 3 queue_reachable.Step by meson
qed

section \<open>Deliveries under way\<close>

lemma distinct_keys:
  assumes "\<And>j. distinct (map g (filter (\<lambda>d. f d = j) ds))" "\<And>d e. d \<in> set ds \<Longrightarrow> e \<in> set ds \<Longrightarrow> h (f d) = h (f e) \<Longrightarrow> f d = f e"
  shows "distinct (map (\<lambda>d. (h (f d), g d)) ds)"
  using assms
proof (induction ds)
  case (Cons d ds)
  have "distinct (map g (filter (\<lambda>d. f d = j) ds))" for j using Cons.prems(1) [of j] by (simp split: if_split_asm)
  then have "distinct (map (\<lambda>d. (h (f d), g d)) ds)" using Cons.IH Cons.prems(2) by simp
  moreover have False if "e \<in> set ds" "h (f e) = h (f d)" "g e = g d" for e
  proof -
    have "f e = f d" using Cons.prems(2) [of e d] that by simp
    then have "g d \<in> g ` set (filter (\<lambda>e. f e = f d) ds)" using that by (intro image_eqI [of "g d" g e]) simp_all
    then show False using Cons.prems(1) [of "f d"] by simp
  qed
  ultimately show ?case by force
qed simp

lemma deliveries_inv:
  assumes "inv arr pend (\<lambda>_. 0) T s"
  defines "ds \<equiv> \<lambda>c. filter used (dels s c)" and "i \<equiv> \<lambda>d. jid (jo s ! dj d)"
  shows "distinct (map (\<lambda>d. (i d, mpos d)) (ds c))"
    "d \<in> set (ds c) \<Longrightarrow> active (qf s (i d)) \<and> fchan (qf s (i d)) c \<noteq> None \<and> mpos d \<in> open_at (arr (i d) c)"
    "concurrencyused s c = length (ds c)"
proof -
  note I = invD [OF assms(1)]
  have R: "dj d < length (jo s)" "0 < refs (jo s ! dj d)" "jchannel (jo s ! dj d) = c" "0 < in_jobs (jo s) c (i d)" "d \<in> set (dels_of (dels s c) (dj d))"
    if "d \<in> set (ds c)" for d
    using del_refs [OF I(4,5)] that by (auto simp: ds_def i_def)
  have g: "job_good arr (story s) (T (dj d)) (dels s) (pass s) (dj d) (jo s ! dj d)" if "d \<in> set (ds c)" for d
    using jobs_okD [OF I(7)] R [OF that] by simp
  show "distinct (map (\<lambda>d. (i d, mpos d)) (ds c))" unfolding i_def
  proof (rule distinct_keys [where f = dj and g = mpos and h = "\<lambda>j. jid (jo s ! j)"])
    fix j
    have e: "filter (\<lambda>d. dj d = j) (ds c) = dels_of (dels s c) j" by (simp add: ds_def dels_of_def conj_commute)
    show "distinct (map mpos (filter (\<lambda>d. dj d = j) (ds c)))"
    proof (cases "filter (\<lambda>d. dj d = j) (ds c)")
      case (Cons d xs)
      then have "d \<in> set (filter (\<lambda>d. dj d = j) (ds c))" by simp
      then have d: "d \<in> set (ds c)" "dj d = j" by auto
      show ?thesis using job_goodD(1) [OF g [OF d(1)]] R(3) [OF d(1)] d(2) e by simp
    qed simp
  next
    fix d e
    assume d: "d \<in> set (ds c)" and e: "e \<in> set (ds c)" and "jid (jo s ! dj d) = jid (jo s ! dj e)"
    then show "dj d = dj e" using job_unique [OF I(2) R(1) [OF d] R(1) [OF e] R(2) [OF d] R(2) [OF e]] R(3) [OF d] R(3) [OF e] by simp
  qed
  show "active (qf s (i d)) \<and> fchan (qf s (i d)) c \<noteq> None \<and> mpos d \<in> open_at (arr (i d) c)" if d: "d \<in> set (ds c)"
  proof -
    have "mpos d \<in> T (dj d)" using job_goodD(2) [OF g [OF d]] R(3,5) [OF d] by auto
    then show ?thesis using job_goodD(4) [OF g [OF d]] R(3) [OF d] held_active [OF I(2), of c "i d"] R(4) [OF d] by (auto simp: i_def)
  qed
  show "concurrencyused s c = length (ds c)" using I(4) by (simp add: slots_ok_def ds_def)
qed

section \<open>Retry times over a restart\<close>

lemma pqfinish_loop_other:
  "d \<noteq> c \<Longrightarrow> pqchan (pqfinish_loop env k c s) d = pqchan s d \<and> fchan_mtime (qf (pqfinish_loop env k c s) i) d = fchan_mtime (qf s i) d"
proof (induction k arbitrary: s)
  case (Suc k)
  then show ?case by (auto simp: Let_def set_file_def split: option.split)
qed simp

lemma pqfinish_loop_gone:
  assumes "inv arr pend x T s" "pq_count (pqchan s c) i = 0"
  shows "fchan_mtime (qf (pqfinish_loop env k c s) i) c = fchan_mtime (qf s i) c"
  using assms
proof (induction k arbitrary: s)
  case (Suc k)
  show ?case
  proof (cases "prioq_min (pqchan s c)")
    case (Some pe)
    let ?s = "s\<lparr>pqchan := (pqchan s)(c := prioq_delmin (pqchan s c))\<rparr>"
    let ?t = "if denied (env k) Utime \<or> fchan (qf ?s (Prioq.id pe)) c = None
        then Manager.log3 ''warning: unable to utime '' (fname_chan (Prioq.id pe) c) (''; message will be retried too soon'' @ [LF]) ?s
        else set_file (Prioq.id pe) (\<lambda>f. f\<lparr>fchan_mtime := (fchan_mtime f)(c := dt pe)\<rparr>) ?s"
    have pq: "prioq_inv (pqchan s c)" using invD(1) [OF Suc.prems(1)] by (simp add: pqs_ok_def)
    have n: "Prioq.id pe \<noteq> i" "pq_count (prioq_delmin (pqchan s c)) i = 0" using pq_min_del(2) [OF pq Some, of i] Suc.prems(2) by (auto split: if_split_asm)
    have t: "inv arr pend x T ?t" using take_chan_inv(1) [OF Suc.prems(1) Some] mtime_inv by simp
    moreover have "pq_count (pqchan ?t c) i = 0" using n(2) by simp
    ultimately have "fchan_mtime (qf (pqfinish_loop env k c ?t) i) c = fchan_mtime (qf ?t i) c" by (rule Suc.IH)
    also have "\<dots> = fchan_mtime (qf s i) c" using n(1) by (simp add: set_file_def)
    finally show ?thesis using Some by (simp add: Let_def)
  qed simp
qed simp

lemma pqfinish_loop_kept:
  assumes "inv arr pend x T s" "pe \<in># prioq_bag (pqchan s c)" "size (prioq_bag (pqchan s c)) \<le> k" "\<And>n. \<not> denied (env n) Utime"
  shows "fchan_mtime (qf (pqfinish_loop env k c s) (Prioq.id pe)) c = dt pe"
  using assms(1-3)
proof (induction k arbitrary: s)
  case (Suc k)
  have pq: "prioq_inv (pqchan s c)" using invD(1) [OF Suc.prems(1)] by (simp add: pqs_ok_def)
  obtain p where p: "prioq_min (pqchan s c) = Some p" using prioq_min_ok [OF pq] Suc.prems(2) by (cases "prioq_min (pqchan s c)") auto
  have bag: "prioq_bag (prioq_delmin (pqchan s c)) = prioq_bag (pqchan s c) - {#p#}" using prioq_delmin_ok [OF pq] p by simp
  have m: "p \<in># prioq_bag (pqchan s c)" using prioq_min_ok [OF pq] p by simp
  let ?s = "s\<lparr>pqchan := (pqchan s)(c := prioq_delmin (pqchan s c))\<rparr>"
  let ?t = "set_file (Prioq.id p) (\<lambda>f. f\<lparr>fchan_mtime := (fchan_mtime f)(c := dt p)\<rparr>) ?s"
  note tk = take_chan_inv [OF Suc.prems(1) p]
  have t: "inv arr pend x T ?t" by (rule mtime_inv [OF tk(1)])
  have r: "pqfinish_loop env (Suc k) c s = pqfinish_loop env k c ?t" using p tk(4) assms(4) by (cases "fchan (qf s (Prioq.id p)) c") (simp_all add: Let_def)
  show ?case
  proof (cases "pe = p")
    case True
    have "pq_count (pqchan ?t c) (Prioq.id p) = 0" using tk(2) by (simp add: held_def)
    from pqfinish_loop_gone [OF t this, of env k] show ?thesis unfolding r using True by (simp add: set_file_def)
  next
    case False
    have "pe \<in># prioq_bag (pqchan ?t c)" using False Suc.prems(2) bag by (simp add: in_diff_count)
    moreover have "size (prioq_bag (pqchan ?t c)) \<le> k" using bag m Suc.prems(3) by (simp add: size_Diff_singleton)
    ultimately show ?thesis unfolding r by (rule Suc.IH [OF t])
  qed
qed simp

section \<open>Properties\<close>

text \<open>C1: the queue loses no recipient: in every state that the queue manager, \<open>qmail-queue\<close>, \<open>qmail-todo\<close> and restarts can reach, each recipient
  that was in a channel file when the message came is still there, with the message; or its delivery has been reported as a success; or its failure has
  been described in a bounce, which is still in the queue, or has been handed to \<open>qmail-queue\<close> or, as a triple bounce, discarded.\<close>

theorem nothing_lost:
  assumes "queue_reachable conf q" "\<not> ftodo (qf (mgr q) i)" "p \<in> open_at (arrived q i c)"
  shows "(\<exists>x m. fchan (qf (mgr q) i) c = Some x \<and> p < length x \<and> x ! p = CHR ''T'' \<and> active (qf (mgr q) i) \<and> fmess (qf (mgr q) i) = Some m) \<or>
    Delivered c p \<in> set (story (mgr q) i) \<or>
    (\<exists>t. Bounced c p t \<in> set (story (mgr q) i) \<and>
       (sent_off (story (mgr q) i) t \<or> active (qf (mgr q) i) \<and> (\<exists>x. fbounce (qf (mgr q) i) = Some x \<and> sublist t x)))"
proof -
  obtain pend T where i: "inv (arrived q) pend (\<lambda>_. 0) T (mgr q)" using queue_reachable_inv [OF assms(1)] by blast
  let ?f = "qf (mgr q) i" and ?es = "story (mgr q) i"
  have ok: "file_ok (arrived q i) ?es ?f" using good_file [OF goodI [OF i]] .
  then have ch: "chan_ok (arrived q i c) (answered ?es c) (finfo ?f \<noteq> None) (fchan ?f c)" using assms(2) by (simp add: file_ok_def)
  have "p \<in> answered ?es c \<or> (\<exists>x m. fchan ?f c = Some x \<and> p < length x \<and> x ! p = CHR ''T'' \<and> active ?f \<and> fmess ?f = Some m)"
  proof (cases "fchan ?f c")
    case None
    then show ?thesis using ch assms(3) by (auto simp: chan_ok_def)
  next
    case (Some x)
    then have x: "finfo ?f \<noteq> None" "marked (arrived q i c) (answered ?es c) x" using ch by (auto simp: chan_ok_def)
    then obtain m where "fmess ?f = Some m" using ok by (auto simp: file_ok_def)
    moreover have "p < length x" using x(2) open_at_less [OF assms(3)] by (simp add: marked_def)
    ultimately show ?thesis using Some x assms(2) marked_answered [OF x(2) assms(3)] by (auto simp: active_def)
  qed
  moreover have "sent_off ?es t \<or> active ?f \<and> (\<exists>x. fbounce ?f = Some x \<and> sublist t x)" if "Bounced c p t \<in> set ?es" for t
    using ok that assms(2) unfolding file_ok_def active_def by blast
  ultimately show ?thesis unfolding answered_def by blast
qed

theorem nothing_lost_witness:
  "queue_reachable one_conf one_arrived \<and> \<not> ftodo (qf (mgr one_arrived) 7) \<and> 0 \<in> open_at (arrived one_arrived 7 Local) \<and>
   (\<exists>x. fchan (qf (mgr one_arrived) 7) Local = Some x \<and> x ! 0 = CHR ''T'')"
proof -
  have h: "\<not> ftodo (qf (mgr one_arrived) 7)" "0 \<in> open_at (arrived one_arrived 7 Local)" and s: "story (mgr one_arrived) 7 = []"
    by (simp_all add: one_arrived_def one_start_def qstart_def send_init_def set_file_def one_file_def open_at_def starts_def)
  show ?thesis using nothing_lost [OF one_arrived_reachable h] h s one_arrived_reachable by auto
qed

end
