(* ===== verification/Dispatch.thy ===== *)
theory Dispatch
  imports Noloss
begin

text \<open>
  What the queue manager gets done: a pass that is due hands the next recipient to the delivery program (\<open>pass_starts\<close>), a message that has been
  dealt with leaves the queue (\<open>message_leaves\<close>), retry times survive a restart (\<open>retry_times_kept\<close>), and the deliveries under way are for different
  recipients (\<open>one_delivery\<close>).
\<close>

section \<open>A first delivery\<close>

text \<open>A record from a file that can be read, with memory enough.\<close>

lemma getln_file:
  assumes "in_inv ss" "in_stream (\<lambda>off. drop off content) ss = l @ NUL # r" "NUL \<notin> set l"
  obtains ss' where "getln (\<lambda>_. True) (file_read False content) ss [] False NUL = Some (0, ss', l @ [NUL], True)"
    "in_stream (\<lambda>off. drop off content) ss' = r" "in_inv ss'"
  using assms(1)
proof (cases rule: flr.getln_any [where broken = False and content = content and mem = "\<lambda>_. True" and sa = "[]" and m = False and sep = NUL])
  case (line ss' l')
  then have "l' = l \<and> in_stream (\<lambda>off. drop off content) ss' = r" using assms(2,3) first_nul [of l l'] by auto
  then show thesis using that [of ss'] line by simp
qed (use assms in simp_all)

definition grants :: "sys \<Rightarrow> bool" where
  "grants y \<longleftrightarrow> denied y = (\<lambda>_. False) \<and> smem y = (\<lambda>_. True)"

lemma getinfo_file:
  assumes "grants y" "finfo (qf s i) = Some (CHR ''F'' # sendr @ NUL # r, birth)" "NUL \<notin> set sendr"
  shows "getinfo y i s = Some (sendr @ [NUL], birth)"
proof -
  have st: "in_stream (\<lambda>off. drop off (CHR ''F'' # sendr @ NUL # r)) open_file = (CHR ''F'' # sendr) @ NUL # r" by (simp add: open_file_stream)
  have n: "NUL \<notin> set (CHR ''F'' # sendr)" using assms(3) by simp
  obtain ss' where "getln (\<lambda>_. True) (file_read False (CHR ''F'' # sendr @ NUL # r)) open_file [] False NUL = Some (0, ss', (CHR ''F'' # sendr) @ [NUL], True)"
    by (rule getln_file [OF open_file_stream(1) st n])
  then show ?thesis using assms by (simp add: getinfo_def grants_def cstr_nonul)
qed

lemma free_del_avail:
  assumes "inv arr pend x T s" "del_avail c s"
  shows "free_del c s < length (dels s c)"
proof (rule ccontr)
  assume "\<not> ?thesis"
  then have "take (length (takeWhile used (dels s c))) (dels s c) = dels s c" by (simp add: free_del_def)
  then have "takeWhile used (dels s c) = dels s c" by (simp only: takeWhile_eq_take [symmetric])
  then have "filter used (dels s c) = dels s c" by (metis filter_id_conv set_takeWhileD)
  then show False using invD(4) [OF assms(1)] assms(2) by (simp add: slots_ok_def del_avail_def)
qed

text \<open>What the manager writes to the delivery program about delivery \<open>n\<close>.\<close>

definition delivery_order :: "nat \<Rightarrow> ulong \<Rightarrow> char list \<Rightarrow> char list \<Rightarrow> char list" where
  "delivery_order n i sendr rcp = [char_of (n mod 256), char_of (n div 256 mod 256)] @ cstr (fname_split i) @ [NUL] @ senderadd sendr rcp @ [NUL] @ cstr rcp @ [NUL]"

lemma del_start_grants:
  assumes "j < length (jo s)" "jchannel (jo s ! j) = c" "del_avail c s" "free_del c s < length (dels s c)" "grants y"
  shows "dels (del_start y j pos rcp s) c = (dels s c)[free_del c s := \<lparr>used = True, dj = j, delid = masterdelid s, mpos = pos, recip = cstr rcp @ [NUL]\<rparr>]"
    "spawn_buf (del_start y j pos rcp s) c = delivery_order (free_del c s) (jid (jo s ! j)) (jsender (jo s ! j)) rcp"
    "concurrencyused (del_start y j pos rcp s) c = Suc (concurrencyused s c)"
proof -
  have st: "dels (del_status t) = dels t" "spawn_buf (del_status t) = spawn_buf t" "concurrencyused (del_status t) = concurrencyused t" for t by (subst status_fields, simp)+
  have lg: "concurrencyused (Manager.log1 x t) = concurrencyused t" "concurrencyused (log2 x z t) = concurrencyused t" "concurrencyused (Manager.log3 x z w t) = concurrencyused t" "dels (Manager.log1 x t) = dels t" "dels (log2 x z t) = dels t" "dels (Manager.log3 x z w t) = dels t"
    "spawn_buf (Manager.log1 x t) = spawn_buf t" "spawn_buf (log2 x z t) = spawn_buf t" "spawn_buf (Manager.log3 x z w t) = spawn_buf t" for x z w t
    by (simp_all add: Manager.log1_def log2_def Manager.log3_def)
  have av: "flagspawnalive s c" "spawn_buf s c = []" using assms(3) by (simp_all add: del_avail_def comm_canwrite_def split: if_split_asm)
  show "dels (del_start y j pos rcp s) c = (dels s c)[free_del c s := \<lparr>used = True, dj = j, delid = masterdelid s, mpos = pos, recip = cstr rcp @ [NUL]\<rparr>]"
    "spawn_buf (del_start y j pos rcp s) c = delivery_order (free_del c s) (jid (jo s ! j)) (jsender (jo s ! j)) rcp"
    "concurrencyused (del_start y j pos rcp s) c = Suc (concurrencyused s c)"
    using assms av by (simp_all add: del_start_def Let_def st lg comm_canwrite_def grants_def Manager.comm_write_def set_job_def delivery_order_def)
qed

text \<open>The queues, the flag and the passes of the other channel are left alone.\<close>

definition elsewhere :: "channel \<Rightarrow> send \<Rightarrow> send \<Rightarrow> bool" where
  "elsewhere c s s' \<longleftrightarrow> flagexitasap s' = flagexitasap s \<and> pqfail s' = pqfail s \<and> pqdone s' = pqdone s \<and>
     (\<forall>k. k \<noteq> c \<longrightarrow> pqchan s' k = pqchan s k \<and> pass s' k = pass s k)"

lemma elsewhere_trans: "elsewhere c s t \<Longrightarrow> elsewhere c t u \<Longrightarrow> elsewhere c s u"
  by (auto simp: elsewhere_def)

lemma del_start_elsewhere: "elsewhere c s (del_start y j pos rcp s)"
proof -
  have st: "elsewhere c s (del_status t) = elsewhere c s t" for t by (subst status_fields) (simp add: elsewhere_def)
  show ?thesis by (simp add: del_start_def Let_def st) (simp add: elsewhere_def Manager.comm_write_def set_job_def Manager.log1_def log2_def Manager.log3_def)
qed

lemma free_job_avail: "job_avail s \<Longrightarrow> free_job s < length (jo s)"
  by (simp add: job_avail_def)

lemma pass_open_grants:
  assumes "pass_id (pass s c) = 0" "job_avail s" "prioq_min (pqchan s c) = Some pe" "dt pe \<le> recent s" "grants y"
    "fchan (qf s (Prioq.id pe)) c \<noteq> None" "finfo (qf s (Prioq.id pe)) = Some (CHR ''F'' # sendr @ NUL # r, birth)" "NUL \<notin> set sendr"
  shows "pass_open y conf c s = Some (True, s\<lparr>pqchan := (pqchan s)(c := prioq_delmin (pqchan s c)),
      jo := (jo s)[free_job s := (jo s ! free_job s)\<lparr>refs := 1, jid := Prioq.id pe, jchannel := c, numtodo := 0, flaghiteof := False,
        jretry := nextretry (recent s) (chanskip c) birth, flagdying := recent s > birth + lifetime conf, jsender := sendr @ [NUL]\<rparr>],
      pass := (pass s)(c := (pass s c)\<lparr>pass_mpos := 0, pass_id := Prioq.id pe, pass_ss := open_file, pass_j := free_job s\<rparr>)\<rparr>)"
proof -
  let ?s1 = "s\<lparr>pqchan := (pqchan s)(c := prioq_delmin (pqchan s c))\<rparr>" let ?s2 = "set_pass c (\<lambda>p. p\<lparr>pass_mpos := 0\<rparr>) ?s1"
  have g: "getinfo y (Prioq.id pe) ?s2 = Some (sendr @ [NUL], birth)" by (rule getinfo_file [OF assms(5) _ assms(8)]) (use assms(7) in simp)
  obtain content where content: "fchan (qf s (Prioq.id pe)) c = Some content" using assms(6) by auto
  have j: "free_job ?s2 = free_job s" "length (jo ?s2) = length (jo s)" by (simp_all add: free_job_def)
  show ?thesis using assms(1-5) content g j free_job_avail [OF assms(2)]
    by (simp add: pass_open_def Let_def grants_def job_open_def set_job_def set_pass_def)
qed

lemma room_same:
  assumes "flagspawnalive s' = flagspawnalive s" "spawn_buf s' = spawn_buf s" "concurrencyused s' = concurrencyused s" "dels s' = dels s"
  shows "del_avail c s' = del_avail c s" "free_del c s' = free_del c s"
  using assms by (simp_all add: del_avail_def comm_canwrite_def free_del_def)

lemma pass_record_grants:
  assumes "pass s c = p" "pass_j p < length (jo s)" "jchannel (jo s ! pass_j p) = c" "del_avail c s" "free_del c s < length (dels s c)" "grants y" "NUL \<notin> set rcp"
  shows "\<exists>s'. pass_record y c (CHR ''T'' # rcp @ [NUL]) s = Some s' \<and>
    dels s' c = (dels s c)[free_del c s := \<lparr>used = True, dj = pass_j p, delid = masterdelid s, mpos = pass_mpos p, recip = rcp @ [NUL]\<rparr>] \<and>
    spawn_buf s' c = delivery_order (free_del c s) (jid (jo s ! pass_j p)) (jsender (jo s ! pass_j p)) (rcp @ [NUL]) \<and>
    pass_mpos (pass s' c) = pass_mpos p + length rcp + 2 \<and> pass_id (pass s' c) = pass_id p \<and> concurrencyused s' c = Suc (concurrencyused s c) \<and> elsewhere c s s'"
proof -
  let ?t = "set_job (pass_j p) (\<lambda>b. b\<lparr>numtodo := numtodo b + 1\<rparr>) s"
  have t: "jchannel (jo ?t ! pass_j p) = c" "jid (jo ?t ! pass_j p) = jid (jo s ! pass_j p)" "jsender (jo ?t ! pass_j p) = jsender (jo s ! pass_j p)"
    "del_avail c ?t" "free_del c ?t = free_del c s" "length (jo ?t) = length (jo s)" "dels ?t = dels s" "masterdelid ?t = masterdelid s" "pass ?t = pass s" "concurrencyused ?t = concurrencyused s"
    using assms(2-4) room_same [of ?t s] by (simp_all add: set_job_def)
  have j: "pass_j p < length (jo ?t)" and f: "free_del c ?t < length (dels ?t c)" using assms t by simp_all
  note d = del_start_grants [OF j t(1,4) f assms(6), of "pass_mpos p" "rcp @ [NUL]"]
  let ?u = "del_start y (pass_j p) (pass_mpos p) (rcp @ [NUL]) ?t"
  have r: "pass_record y c (CHR ''T'' # rcp @ [NUL]) s = Some (set_pass c (\<lambda>q. q\<lparr>pass_mpos := pass_mpos q + length (CHR ''T'' # rcp @ [NUL])\<rparr>) ?u)"
    using assms(1) by (simp add: pass_record_def Let_def)
  have k: "pass ?u c = p" using assms(1) t(9) by (simp add: del_start_keeps)
  have "elsewhere c s ?t" by (simp add: elsewhere_def set_job_def)
  then have "elsewhere c s ?u" by (rule elsewhere_trans [OF _ del_start_elsewhere])
  then have "elsewhere c s (set_pass c (\<lambda>q. q\<lparr>pass_mpos := pass_mpos q + length (CHR ''T'' # rcp @ [NUL])\<rparr>) ?u)" by (simp add: elsewhere_def set_pass_def)
  then show ?thesis unfolding r using d t k assms(7) by (simp add: set_pass_def cstr_append_nul)
qed

lemma due_pass:
  assumes "queue_reachable conf q" "mgr q = s" "\<not> flagexitasap s" "pass_id (pass s c) = 0" "job_avail s" "del_avail c s" "grants y"
    "prioq_min (pqchan s c) = Some pe" "dt pe \<le> recent s"
    "fchan (qf s (Prioq.id pe)) c = Some (CHR ''T'' # rcp @ NUL # rest)" "NUL \<notin> set rcp"
    "finfo (qf s (Prioq.id pe)) = Some (CHR ''F'' # sendr @ NUL # r, birth)" "NUL \<notin> set sendr"
  shows "\<exists>s'. pass_dochan y conf c s = Some s' \<and>
    dels s' c = (dels s c)[free_del c s := \<lparr>used = True, dj = free_job s, delid = masterdelid s, mpos = 0, recip = rcp @ [NUL]\<rparr>] \<and>
    spawn_buf s' c = delivery_order (free_del c s) (Prioq.id pe) (sendr @ [NUL]) (rcp @ [NUL]) \<and> pass_mpos (pass s' c) = length rcp + 2 \<and>
    pass_id (pass s' c) = Prioq.id pe \<and> concurrencyused s' c = Suc (concurrencyused s c) \<and> elsewhere c s s'"
proof -
  obtain pend T where i: "inv (arrived q) pend (\<lambda>_. 0) T s" using queue_reachable_inv [OF assms(1)] assms(2) by blast
  let ?b = "(jo s ! free_job s)\<lparr>refs := 1, jid := Prioq.id pe, jchannel := c, numtodo := 0, flaghiteof := False,
        jretry := nextretry (recent s) (chanskip c) birth, flagdying := recent s > birth + lifetime conf, jsender := sendr @ [NUL]\<rparr>"
  let ?s = "s\<lparr>pqchan := (pqchan s)(c := prioq_delmin (pqchan s c)), jo := (jo s)[free_job s := ?b],
      pass := (pass s)(c := (pass s c)\<lparr>pass_mpos := 0, pass_id := Prioq.id pe, pass_ss := open_file, pass_j := free_job s\<rparr>)\<rparr>"
  have fc: "fchan (qf s (Prioq.id pe)) c \<noteq> None" using assms(10) by simp
  note o = pass_open_grants [OF assms(4,5,8,9,7) fc assms(12,13), of conf]
  have av: "del_avail c ?s" "free_del c ?s = free_del c s" using assms(6) room_same [of ?s s] by simp_all
  have f: "free_del c s < length (dels s c)" by (rule free_del_avail [OF i assms(6)])
  have st: "in_stream (\<lambda>off. drop off (CHR ''T'' # rcp @ NUL # rest)) open_file = (CHR ''T'' # rcp) @ NUL # rest" by (simp add: open_file_stream)
  have n: "NUL \<notin> set (CHR ''T'' # rcp)" using assms(11) by simp
  obtain ss' where g: "getln (\<lambda>_. True) (file_read False (CHR ''T'' # rcp @ NUL # rest)) open_file [] False NUL = Some (0, ss', (CHR ''T'' # rcp) @ [NUL], True)"
    by (rule getln_file [OF open_file_stream(1) st n])
  let ?t = "set_pass c (\<lambda>p. p\<lparr>pass_ss := ss'\<rparr>) ?s"
  have "pass_dochan y conf c s = pass_line y c ?s" using assms(3) o av(1) by (simp add: pass_dochan_def)
  also have "\<dots> = pass_record y c (CHR ''T'' # rcp @ [NUL]) ?t"
    using g assms(7,10) by (simp add: pass_line_def Let_def grants_def chan_content_def)
  finally have run: "pass_dochan y conf c s = pass_record y c (CHR ''T'' # rcp @ [NUL]) ?t" .
  have j: "free_job s < length (jo s)" by (rule free_job_avail [OF assms(5)])
  have "del_avail c ?t" "free_del c ?t = free_del c s" using av room_same [of ?t ?s] by (simp_all add: set_pass_def)
  moreover have "elsewhere c s ?t" by (simp add: elsewhere_def set_pass_def)
  ultimately show ?thesis unfolding run using pass_record_grants [OF refl, of ?t c y rcp] j f assms(7,11) elsewhere_trans [of c s ?t] by (fastforce simp: set_pass_def)
qed

section \<open>The example goes on\<close>

lemma pqput_first: "\<exists>pq. pqput \<lparr>field = None, len = 0, a = 0\<rparr> pe = Some pq \<and> prioq_min pq = Some pe"
proof -
  let ?e = "\<lparr>field = None, len = 0, a = 0\<rparr> :: prioq"
  have b: "prioq_bag ?e = {#}" by (simp add: prioq_bag_def ga_list_def)
  have f: "prioq_fits (Suc (size (prioq_bag ?e)))" "prioq_fits (Suc (unat (len ?e)))"
    by (simp_all add: b prioq_fits_def ga_room_def sizeof_prioq_elt_def)
  obtain pq where pq: "prioq_insert (\<lambda>_. True) pe ?e pe = Some (True, pq)" using prioq_insert_ok [OF empty_pq(1) f(1), of "\<lambda>_. True" pe pe] by auto
  then have p: "pqput ?e pe = Some pq" using f(2) by (simp add: pqput_def)
  note o = pqput_ok [OF p empty_pq(1)]
  have "prioq_bag pq = {#pe#}" using o(2) b by simp
  then have "prioq_min pq = Some pe" using prioq_min_ok [OF o(1)] by (cases "prioq_min pq") auto
  then show ?thesis using p by blast
qed

lemma calm_grants: "grants calm"
  by (simp add: grants_def calm_def)

lemma one_told:
  obtains q where "queue_reachable one_conf q" "\<not> flagexitasap (mgr q)" "pass_id (pass (mgr q) Local) = 0" "job_avail (mgr q)" "del_avail Local (mgr q)"
    "prioq_min (pqchan (mgr q) Local) = Some \<lparr>dt = 0, id = 7\<rparr>" "recent (mgr q) = 0" "qf (mgr q) 7 = one_file" "free_del Local (mgr q) = 0" "length (dels (mgr q) Local) = 1"
    "arrived q = arrived one_arrived" "story (mgr q) = (\<lambda>_. [])" "prioq_min (pqchan (mgr q) Remote) = None" "prioq_min (pqfail (mgr q)) = None"
    "prioq_min (pqdone (mgr q)) = None" "pass_id (pass (mgr q) Remote) = 0" "concurrencyused (mgr q) Local = 0" "spawn_sent (mgr q) Local = []"
proof -
  let ?s = "mgr one_arrived" let ?pe = "\<lparr>dt = 0, id = 7\<rparr> :: prioq_elt"
  obtain pq where pq: "pqput \<lparr>field = None, len = 0, a = 0\<rparr> ?pe = Some pq" "prioq_min pq = Some ?pe" using pqput_first by blast
  note d = one_arrived_def one_start_def qstart_def send_init_def set_file_def
  have e: "pqchan ?s = (\<lambda>_. \<lparr>field = None, len = 0, a = 0\<rparr>)" "\<not> flagexitasap ?s" "todoline ?s = []" "flagtodoalive ?s" by (simp_all add: d)
  have c: "put_chan Local ?pe (?s\<lparr>todoline := x\<rparr>) = Some (?s\<lparr>todoline := x, pqchan := (pqchan ?s)(Local := pq)\<rparr>)" for x
    using pq(1) e(1) by (simp add: put_chan_def)
  have seven: "char_of (55 :: nat) = CHR ''7''" by code_simp
  have n: "note_text (Announce 7 [Local]) = ''DL7'' @ [NUL]" by (simp add: note_text_def note_body_def announce_code_def Manager.num_def fmt_ulong_rec seven)
  let ?t = "?s\<lparr>pqchan := (pqchan ?s)(Local := pq), todoline := []\<rparr>"
  have sc: "scan_ulong (CHR ''7'' # [NUL]) = (1, 7)" using scan_fmt_ulong [of "[NUL]" 7] by (simp add: fmt_ulong_rec seven)
  have "Manager.todo_do (\<lambda>_. calm) True (Got (take 4 (todo_pipe one_arrived))) ?s = Some ?t"
  proof -
    have "todo_pipe one_arrived = CHR ''D'' # CHR ''L'' # CHR ''7'' # [NUL]" using n by (simp add: one_arrived_def)
    moreover have "flagged (CHR ''L'') = Some [Local]" by (simp add: flagged_def)
    ultimately show ?thesis using e c sc by (simp add: Manager.todo_do_def todo_byte_def Let_def REPORTMAX_def Manager.todo_record_def todo_del_def calm_def take_Cons')
  qed
  from qstep.Notes [OF this, of one_conf] have "qstep one_conf one_arrived (one_arrived\<lparr>mgr := ?t, todo_pipe := drop 4 (todo_pipe one_arrived)\<rparr>)" using e(4) by simp
  then have r: "queue_reachable one_conf (one_arrived\<lparr>mgr := ?t, todo_pipe := drop 4 (todo_pipe one_arrived)\<rparr>)" using one_arrived_reachable queue_reachable.Step by blast
  show thesis by (rule that [OF r]) (use pq(2) in \<open>simp_all add: d job_avail_def free_job_def del_avail_def comm_canwrite_def free_del_def fun_eq_iff prioq_min_def\<close>)
qed

lemma one_under_way:
  obtains q where "queue_reachable one_conf q" "used (dels (mgr q) Local ! 0)" "length (dels (mgr q) Local) = 1"
proof -
  obtain q where q: "queue_reachable one_conf q" "\<not> flagexitasap (mgr q)" "pass_id (pass (mgr q) Local) = 0" "job_avail (mgr q)" "del_avail Local (mgr q)"
    "prioq_min (pqchan (mgr q) Local) = Some \<lparr>dt = 0, id = 7\<rparr>" "recent (mgr q) = 0" "qf (mgr q) 7 = one_file" "free_del Local (mgr q) = 0" "length (dels (mgr q) Local) = 1"
    by (rule one_told)
  from due_pass [OF q(1) refl q(2-5) calm_grants q(6), of "''u@h''" "[]" "''a@b''" "[]" 0]
  obtain s' where s': "pass_dochan calm one_conf Local (mgr q) = Some s'"
    "dels s' Local = (dels (mgr q) Local)[0 := \<lparr>used = True, dj = free_job (mgr q), delid = masterdelid (mgr q), mpos = 0, recip = ''u@h'' @ [NUL]\<rparr>]"
    using q(7,8,9) by (auto simp: one_file_def)
  have "qstep one_conf q (q\<lparr>mgr := s'\<rparr>)" by (rule qstep.Manage [OF mstep.Pass [OF s'(1)]])
  then have "queue_reachable one_conf (q\<lparr>mgr := s'\<rparr>)" using q(1) queue_reachable.Step by blast
  then show thesis by (rule that) (use s'(2) q(10) in simp_all)
qed

section \<open>How long the main loop waits\<close>

definition SLEEP_FOREVER :: int where "SLEEP_FOREVER = 86400"
definition SLEEP_FUZZ :: int where "SLEEP_FUZZ = 1"

definition sooner :: "prioq \<Rightarrow> int \<Rightarrow> int" where
  "sooner pq wakeup = (case prioq_min pq of None \<Rightarrow> wakeup | Some pe \<Rightarrow> (if wakeup > dt pe then dt pe else wakeup))"

text \<open>The functions that prepare for \<open>select\<close>, as far as they set the time.\<close>

definition pass_selprep :: "send \<Rightarrow> int \<Rightarrow> int" where
  "pass_selprep s wakeup =
     (if flagexitasap s then wakeup
      else if list_ex (\<lambda>c. pass_id (pass s c) \<noteq> 0 \<and> del_avail c s) channels then 0
      else let wakeup = (if job_avail s then fold (\<lambda>c w. if pass_id (pass s c) = 0 then sooner (pqchan s c) w else w) channels wakeup else wakeup)
           in sooner (pqdone s) (sooner (pqfail s) wakeup))"

definition cleanup_selprep :: "send \<Rightarrow> int \<Rightarrow> int" where
  "cleanup_selprep s wakeup =
     (let wakeup = (if flagcleanup s then 0 else wakeup)
      in if wakeup > cleanuptime s then cleanuptime s else wakeup)"

definition select_timeout :: "send \<Rightarrow> int" where
  "select_timeout s =
     (let wakeup = cleanup_selprep s (pass_selprep s (recent s + SLEEP_FOREVER))
      in if wakeup \<le> recent s then 0 else wakeup - recent s + SLEEP_FUZZ)"

lemma sooner_le: "sooner pq w \<le> w"
  by (simp add: sooner_def split: option.split)

lemma sooner_due: "recent s < sooner pq w \<Longrightarrow> prioq_min pq = Some pe \<Longrightarrow> recent s < dt pe"
  by (simp add: sooner_def split: if_split_asm)

lemma idle_when_waiting:
  assumes "select_timeout s > 0" "\<not> flagexitasap s" "0 \<le> recent s"
  shows "select_timeout s \<le> SLEEP_FOREVER + SLEEP_FUZZ \<and> (\<forall>z c. pass_dochan z conf c s = Some s) \<and> pass_do env conf s = Some s \<and> cleanup_do y opendir s = s"
proof -
  let ?w = "if job_avail s then fold (\<lambda>c w. if pass_id (pass s c) = 0 then sooner (pqchan s c) w else w) channels (recent s + SLEEP_FOREVER) else recent s + SLEEP_FOREVER"
  have t: "recent s < cleanup_selprep s (pass_selprep s (recent s + SLEEP_FOREVER))" using assms(1) by (auto simp: select_timeout_def Let_def split: if_split_asm)
  have c: "\<not> flagcleanup s" "recent s < cleanuptime s" "recent s < pass_selprep s (recent s + SLEEP_FOREVER)"
    using t assms(3) by (auto simp: cleanup_selprep_def Let_def split: if_split_asm)
  have p: "\<not> list_ex (\<lambda>c. pass_id (pass s c) \<noteq> 0 \<and> del_avail c s) channels" "recent s < sooner (pqdone s) (sooner (pqfail s) ?w)"
    using c(3) assms(2,3) by (auto simp: pass_selprep_def Let_def split: if_split_asm)
  have q: "recent s < sooner (pqfail s) ?w" "recent s < ?w" using p(2) sooner_le [of "pqdone s" "sooner (pqfail s) ?w"] sooner_le [of "pqfail s" ?w] by linarith+
  have f: "take_fail z s = Some s" for z using sooner_due [OF q(1)] by (auto simp: take_fail_def split: option.split)
  have d: "take_done z conf s = Some s" for z using sooner_due [OF p(2)] by (auto simp: take_done_def split: option.split)
  have l: "recent s < dt pe" if "job_avail s" "pass_id (pass s k) = 0" "prioq_min (pqchan s k) = Some pe" for k pe
    using q(2) that sooner_le [of "pqchan s Remote" "sooner (pqchan s Local) (recent s + SLEEP_FOREVER)"] sooner_due [of s "pqchan s k" _ pe]
    by (cases k) (auto simp: channels_eq split: if_split_asm intro: less_le_trans)
  have r: "pass_dochan z conf k s = Some s" for z k
  proof (cases "pass_id (pass s k) = 0")
    case True
    then show ?thesis using l [of k] by (auto simp: pass_dochan_def pass_open_def split: option.split)
  next
    case False
    then have "\<not> del_avail k s" using p(1) by (cases k) (simp_all add: channels_eq)
    then show ?thesis using False by (simp add: pass_dochan_def pass_open_def)
  qed
  have "?w \<le> recent s + SLEEP_FOREVER"
    using sooner_le [of "pqchan s Local" "recent s + SLEEP_FOREVER"] sooner_le [of "pqchan s Remote" "sooner (pqchan s Local) (recent s + SLEEP_FOREVER)"]
      sooner_le [of "pqchan s Remote" "recent s + SLEEP_FOREVER"] by (simp add: channels_eq)
  then have "pass_selprep s (recent s + SLEEP_FOREVER) \<le> recent s + SLEEP_FOREVER"
    using p(1) assms(2) sooner_le [of "pqdone s" "sooner (pqfail s) ?w"] sooner_le [of "pqfail s" ?w] by (simp add: pass_selprep_def Let_def)
  then have "select_timeout s \<le> SLEEP_FOREVER + SLEEP_FUZZ" using c(1) by (simp add: select_timeout_def cleanup_selprep_def Let_def SLEEP_FOREVER_def SLEEP_FUZZ_def)
  moreover have "pass_do env conf s = Some s" by (simp add: pass_do_def r f d)
  moreover have "cleanup_do y opendir s = s" using c(1,2) by (simp add: cleanup_do_def)
  ultimately show ?thesis using r by simp
qed

section \<open>Properties\<close>

text \<open>C4: a pass that is due does its work: if a job and a delivery are free, nothing is denied, and the first message of the channel's queue is due, the
  pass opens it, takes its first recipient, notes it in the first free delivery, and puts the order into the buffer for the delivery program.\<close>

theorem pass_starts:
  assumes "queue_reachable conf q" "mgr q = s" "\<not> flagexitasap s" "pass_id (pass s c) = 0" "job_avail s" "del_avail c s" "grants y"
    "prioq_min (pqchan s c) = Some pe" "dt pe \<le> recent s"
    "fchan (qf s (Prioq.id pe)) c = Some (CHR ''T'' # rcp @ NUL # rest)" "NUL \<notin> set rcp"
    "finfo (qf s (Prioq.id pe)) = Some (CHR ''F'' # sendr @ NUL # r, birth)" "NUL \<notin> set sendr"
  shows "\<exists>s'. pass_dochan y conf c s = Some s' \<and>
    dels s' c = (dels s c)[free_del c s := \<lparr>used = True, dj = free_job s, delid = masterdelid s, mpos = 0, recip = rcp @ [NUL]\<rparr>] \<and>
    spawn_buf s' c = delivery_order (free_del c s) (Prioq.id pe) (sendr @ [NUL]) (rcp @ [NUL]) \<and> pass_mpos (pass s' c) = length rcp + 2"
  using due_pass [OF assms] by blast

theorem pass_starts_witness:
  "\<exists>q s'. queue_reachable one_conf q \<and> pass_dochan calm one_conf Local (mgr q) = Some s' \<and>
    dels s' Local ! 0 = \<lparr>used = True, dj = free_job (mgr q), delid = masterdelid (mgr q), mpos = 0, recip = ''u@h'' @ [NUL]\<rparr>"
proof -
  obtain q where q: "queue_reachable one_conf q" "\<not> flagexitasap (mgr q)" "pass_id (pass (mgr q) Local) = 0" "job_avail (mgr q)" "del_avail Local (mgr q)"
    "prioq_min (pqchan (mgr q) Local) = Some \<lparr>dt = 0, id = 7\<rparr>" "recent (mgr q) = 0" "qf (mgr q) 7 = one_file" "free_del Local (mgr q) = 0" "length (dels (mgr q) Local) = 1"
    by (rule one_told)
  from pass_starts [OF q(1) refl q(2-5) calm_grants q(6), of "''u@h''" "[]" "''a@b''" "[]" 0]
  obtain s' where "pass_dochan calm one_conf Local (mgr q) = Some s'"
    "dels s' Local = (dels (mgr q) Local)[0 := \<lparr>used = True, dj = free_job (mgr q), delid = masterdelid (mgr q), mpos = 0, recip = ''u@h'' @ [NUL]\<rparr>]"
    using q(7,8,9) by (auto simp: one_file_def)
  then show ?thesis using q(1,10) by (intro exI [of _ q] exI [of _ s']) simp
qed

text \<open>C2: no recipient has two deliveries at a time: the deliveries under way on a channel are for different recipients, each a recipient that the channel file
  of its message had when it came, of a message that is still in the queue; and they are counted. This holds as long as \<open>qmail-todo\<close> announces no message that
  the manager has put into \<open>pqfail\<close> by itself, the premise of the step \<open>Arrive\<close>: the code does not test for that (\<open>qmail-send.c\<close>, line 437), and then the message
  is in two queues and its recipients can be delivered to twice.\<close>

theorem one_delivery:
  assumes "queue_reachable conf q"
  shows "let s = mgr q; ds = filter used (dels s c); i = (\<lambda>d. jid (jo s ! dj d)) in
    distinct (map (\<lambda>d. (i d, mpos d)) ds) \<and> concurrencyused s c = length ds \<and>
    list_all (\<lambda>d. active (qf s (i d)) \<and> fchan (qf s (i d)) c \<noteq> None \<and> mpos d \<in> open_at (arrived q (i d) c)) ds"
proof -
  obtain pend T where v: "inv (arrived q) pend (\<lambda>_. 0) T (mgr q)" using queue_reachable_inv [OF assms(1)] by blast
  show ?thesis using deliveries_inv [OF v, where c = c] unfolding Let_def by (simp add: list_all_iff)
qed

theorem one_delivery_witness:
  "\<exists>q. queue_reachable one_conf q \<and> length (filter used (dels (mgr q) Local)) = 1 \<and> concurrencyused (mgr q) Local = 1"
proof -
  obtain q where q: "queue_reachable one_conf q" "used (dels (mgr q) Local ! 0)" "length (dels (mgr q) Local) = 1" by (rule one_under_way)
  then have "length (filter used (dels (mgr q) Local)) = 1" by (cases "dels (mgr q) Local") auto
  then show ?thesis using one_delivery [OF q(1), of Local] q(1) by (auto simp: Let_def)
qed

text \<open>C5: retry times survive a restart: when the manager finishes and no time stamp is refused, each message that waits for a channel has its time in the
  time stamp of its channel file, which is where the next manager finds it.\<close>

theorem retry_times_kept:
  assumes "queue_reachable conf q" "pe \<in># prioq_bag (pqchan (mgr q) c)" "list_all (\<lambda>c. \<forall>n. \<not> denied (env c n) Utime) channels"
  shows "fchan_mtime (qf (pqfinish env (mgr q)) (Prioq.id pe)) c = dt pe"
proof -
  obtain pend T where i: "inv (arrived q) pend (\<lambda>_. 0) T (mgr q)" using queue_reachable_inv [OF assms(1)] by blast
  have u: "\<not> denied (env c n) Utime" for c n using assms(3) by (cases c) (simp_all add: channels_eq)
  have sz: "size (prioq_bag pq) \<le> unat (len pq)" for pq by (simp add: prioq_bag_def ga_list_def split: option.split)
  let ?s = "pqfinish_loop (env Local) (unat (len (pqchan (mgr q) Local))) Local (mgr q)"
  let ?t = "pqfinish_loop (env Remote) (unat (len (pqchan ?s Remote))) Remote ?s"
  have f: "pqfinish env (mgr q) = ?t" by (simp add: pqfinish_def channels_eq)
  have s: "inv (arrived q) pend (\<lambda>_. 0) T ?s" using pqfinish_loop_inv [OF i] by blast
  show ?thesis
  proof (cases c)
    case Local
    have "fchan_mtime (qf ?t (Prioq.id pe)) Local = fchan_mtime (qf ?s (Prioq.id pe)) Local" using pqfinish_loop_other [of Local Remote] by simp
    also have "\<dots> = dt pe" by (rule pqfinish_loop_kept [OF i]) (use assms(2) Local sz u in simp_all)
    finally show ?thesis unfolding f Local .
  next
    case Remote
    have "pqchan ?s Remote = pqchan (mgr q) Remote" using pqfinish_loop_other [of Remote Local] by simp
    then have "pe \<in># prioq_bag (pqchan ?s Remote)" using assms(2) Remote by simp
    then have "fchan_mtime (qf ?t (Prioq.id pe)) Remote = dt pe" by (rule pqfinish_loop_kept [OF s]) (use sz u in simp_all)
    then show ?thesis unfolding f Remote .
  qed
qed

theorem retry_times_kept_witness:
  "\<exists>q. queue_reachable one_conf q \<and> fchan_mtime (qf (pqfinish (\<lambda>_ _. calm) (mgr q)) 7) Local = 0"
proof -
  obtain q where q: "queue_reachable one_conf q" "prioq_min (pqchan (mgr q) Local) = Some \<lparr>dt = 0, id = 7\<rparr>" by (rule one_told)
  obtain pend T where i: "inv (arrived q) pend (\<lambda>_. 0) T (mgr q)" using queue_reachable_inv [OF q(1)] by blast
  have "\<lparr>dt = 0, id = 7\<rparr> \<in># prioq_bag (pqchan (mgr q) Local)" using prioq_min_ok q(2) invD(1) [OF i] by (auto simp: pqs_ok_def)
  from retry_times_kept [OF q(1) this, of "\<lambda>_ _. calm"] show ?thesis using q(1) by (auto simp: calm_def channels_eq)
qed

text \<open>C7: a message that has been dealt with leaves the queue: when no channel file, no entry in \<open>todo\<close> and no bounce is left, nothing is denied and
  \<open>qmail-clean\<close> does what it is told, \<open>messdone\<close> removes the message and its information.\<close>

theorem message_leaves:
  assumes "grants y" "list_all (\<lambda>c. fchan (qf s i) c = None) channels" "\<not> ftodo (qf s i)" "fbounce (qf s i) = None"
    "finfo (qf s i) = Some (CHR ''F'' # sendr @ NUL # r, birth)" "NUL \<notin> set sendr" "cleaner_removes y" "cleaner_reply y = CHR ''+''"
  shows "\<exists>s'. messdone y conf i s = Some s' \<and> finfo (qf s' i) = None \<and> fmess (qf s' i) = None"
proof -
  have c: "fchan (qf s i) c = None" for c using assms(2) by (cases c) (simp_all add: channels_eq)
  have st: "stat y x b = (if b then Exists else Noent)" for x b using assms(1) by (simp add: stat_def grants_def)
  have m: "messdone_chans y i channels s = (Noent, s)" by (simp add: channels_eq st c)
  have b: "injectbounce y bc i s = Some (True, s)" for bc using getinfo_file [OF assms(1,5,6)] assms(4) by (simp add: injectbounce_def Let_def st)
  let ?l = "Manager.log3 ''end msg '' (Manager.num i) [LF] s"
  have "messdone y conf i s = Some (ask_foop y i (set_file i (\<lambda>f. f\<lparr>finfo := None\<rparr>) ?l))"
    using assms(1,3,5) by (simp add: messdone_def m st b grants_def)
  then show ?thesis using assms(1,7,8) by (simp add: ask_foop_def grants_def set_file_def)
qed

theorem message_leaves_witness:
  "\<exists>s'. messdone calm one_conf 7 (set_file 7 (\<lambda>f. f\<lparr>fchan := \<lambda>_. None\<rparr>) (mgr one_arrived)) = Some s' \<and> finfo (qf s' 7) = None \<and> fmess (qf s' 7) = None"
  by (rule message_leaves [where sendr = "''a@b''" and r = "[]" and birth = 0])
    (simp_all add: grants_def calm_def one_arrived_def one_file_def set_file_def channels_eq)

text \<open>C8: what a report does: after a \<open>K\<close> the recipient counts as delivered; after a \<open>D\<close>, or a \<open>Z\<close> for a message that is too old, as bounced, with a paragraph
  that ends up in the bounce file. In these two cases the byte at the recipient's position in the channel file becomes a \<open>D\<close>, so that no pass takes it again, unless
  the file cannot be written, and its job no longer counts it. After anything else nothing has happened: no file and no job is changed.\<close>

theorem report_outcome:
  assumes "2 < length line" "last line = NUL" "dj d < length (jo s)"
  shows "let i = jid (jo s ! dj d); dying = flagdying (jo s ! dj d); s' = report_taken y c d (report_line dying line) s;
      para = bounce_paragraph (vdoms s) (recip d) (drop 3 (report_line dying line));
      marked = (if denied y Mark then fchan (qf s i) else (fchan (qf s i))(c := map_option (\<lambda>content. poke content (mpos d) (CHR ''D'')) (fchan (qf s i) c))) in
    (if line ! 2 = CHR ''K''
     then story s' i = Delivered c (mpos d) # story s i \<and> fchan (qf s' i) = marked \<and> fbounce (qf s' i) = fbounce (qf s i) \<and>
       numtodo (jo s' ! dj d) = numtodo (jo s ! dj d) - 1
     else if line ! 2 = CHR ''D'' \<or> line ! 2 = CHR ''Z'' \<and> dying
     then story s' i = Bounced c (mpos d) para # story s i \<and> fchan (qf s' i) = marked \<and>
       fbounce (qf s' i) = Some (case_option [] (\<lambda>x. x) (fbounce (qf s i)) @ para) \<and> numtodo (jo s' ! dj d) = numtodo (jo s ! dj d) - 1
     else story s' = story s \<and> qf s' = qf s \<and> jo s' = jo s)"
proof -
  have lg: "story (report_logged nr what l t) = story t" "qf (report_logged nr what l t) = qf t" "jo (report_logged nr what l t) = jo t" "vdoms (report_logged nr what l t) = vdoms t"
    for nr what l t by (simp_all add: report_logged_def)
  have l2: "report_line dying line ! 2 = (if line ! 2 = CHR ''Z'' \<and> dying then CHR ''D'' else line ! 2)" for dying
  proof -
    have "3 < length line" if "line ! 2 = CHR ''Z''"
    proof (rule ccontr)
      assume "\<not> 3 < length line"
      then have "length line - 1 = 2" using assms(1) by simp
      moreover have "line \<noteq> []" using assms(1) by auto
      ultimately have "last line = line ! 2" by (simp add: last_conv_nth)
      then show False using that assms(2) by simp
    qed
    then show ?thesis by (auto simp: report_line_def nth_append nth_butlast)
  qed
  have mk: "story (markdone y c i p t) = story t" "jo (markdone y c i p t) = jo t" "fbounce (qf (markdone y c i p t) i) = fbounce (qf t i)"
    "fchan (qf (markdone y c i p t) i) = (if denied y Mark then fchan (qf t i) else (fchan (qf t i))(c := map_option (\<lambda>content. poke content p (CHR ''D'')) (fchan (qf t i) c)))" for i p t
    by (auto simp: markdone_def set_file_def fun_eq_iff split: option.split)
  show ?thesis using assms(3)
    by (simp add: Let_def report_taken_def l2 lg mk answered_done_def happened_def set_job_def addbounce_def set_file_def)
qed

theorem report_outcome_witness:
  "\<exists>q. queue_reachable one_conf q \<and> (let s = mgr q; d = dels s Local ! 0; i = jid (jo s ! dj d);
      s' = report_taken calm Local d (report_line (flagdying (jo s ! dj d)) ([NUL, NUL] @ ''Kok'' @ [NUL])) s in
     Delivered Local (mpos d) \<in> set (story s' i) \<and> fchan (qf s' i) Local = map_option (\<lambda>content. poke content (mpos d) (CHR ''D'')) (fchan (qf s i) Local))"
proof -
  obtain q where q: "queue_reachable one_conf q" "used (dels (mgr q) Local ! 0)" "length (dels (mgr q) Local) = 1" by (rule one_under_way)
  obtain pend T where i: "inv (arrived q) pend (\<lambda>_. 0) T (mgr q)" using queue_reachable_inv [OF q(1)] by blast
  let ?d = "dels (mgr q) Local ! 0"
  have "?d \<in> set (dels (mgr q) Local)" using q(3) by simp
  then have "dj ?d < length (jo (mgr q))" using del_refs(1) [OF invD(4,5) [OF i] _ q(2)] by blast
  from report_outcome [OF _ _ this, of "[NUL, NUL] @ ''Kok'' @ [NUL]" calm Local]
  show ?thesis using q(1) by (intro exI [of _ q]) (simp add: Let_def calm_def)
qed

text \<open>The main loop does nothing else: one round of it, whatever the other programs and the system answer (as long as \<open>qmail-queue\<close> is honest), is a sequence of
  steps of the relation, in which the manager reads at most what \<open>qmail-todo\<close> has written.\<close>

theorem main_round_steps:
  assumes "main_round w conf (mgr q) = Some s'" "snd (todo_notes w) = Got (take n (todo_pipe q)) \<or> snd (todo_notes w) \<in> {Rd_intr, Rd_fail}" "honest (env_pass w 3)"
  shows "\<exists>pipe \<in> {todo_pipe q, drop n (todo_pipe q)}. (qstep conf)\<^sup>*\<^sup>* q (q\<lparr>mgr := s', todo_pipe := pipe\<rparr>)"
  by (rule round_steps [OF assms])

definition quiet_round :: round where
  "quiet_round = \<lparr>times = (0, 0), alarmed = False, reread_vdoms = None, select_ok = True, wready = (\<lambda>_. False), wrote = (\<lambda>_. (0, False)), rready = (\<lambda>_. False),
     reports = (\<lambda>_. Rd_fail), todo_notes = (False, Rd_fail), env_del = (\<lambda>_ _. calm), env_todo = (\<lambda>_. calm), env_pass = (\<lambda>_. calm), env_clean = calm, mess_dir = (\<lambda>_. [])\<rparr>"

theorem main_round_steps_witness:
  "\<exists>s' pipe. main_round quiet_round one_conf (mgr one_arrived) = Some s' \<and> (qstep one_conf)\<^sup>*\<^sup>* one_arrived (one_arrived\<lparr>mgr := s', todo_pipe := pipe\<rparr>)"
proof -
  have m: "prioq_min \<lparr>field = None, len = 0, a = 0\<rparr> = None" by (simp add: prioq_min_def)
  obtain s' where s': "main_round quiet_round one_conf (mgr one_arrived) = Some s'"
    by (simp add: main_round_def before_select_def Let_def quiet_round_def channels_eq comm_do_def del_do_def Manager.todo_do_def pass_do_def pass_dochan_def pass_open_def
      take_fail_def take_done_def job_avail_def free_job_def one_arrived_def one_start_def qstart_def send_init_def set_file_def m)
  have "snd (todo_notes quiet_round) \<in> {Rd_intr, Rd_fail}" "honest (env_pass quiet_round 3)"
    by (simp_all add: quiet_round_def honest_def calm_def wait_exitcode_def)
  then show ?thesis using main_round_steps [OF s', of 0] s' by blast
qed

text \<open>C6: the manager does not sleep on work that is due: if it waits at all, it waits for at most a day and a second, and at that time no pass and no cleanup has
  anything to do, nor, unless it has been told to end (\<open>flagexitasap\<close>), has a message to be examined again or the end of a message. While it waits to end, the entries of
  \<open>pqfail\<close> and \<open>pqdone\<close> that are due are dealt with only when something else ends the wait.\<close>

theorem waits_when_idle:
  assumes "select_timeout s > 0" "0 \<le> recent s"
  shows "select_timeout s \<le> SLEEP_FOREVER + SLEEP_FUZZ \<and> pass_dochan z conf c s = Some s \<and> cleanup_do y opendir s = s \<and>
    (\<not> flagexitasap s \<longrightarrow> pass_do env conf s = Some s)"
proof (cases "flagexitasap s")
  case True
  have "recent s < cleanup_selprep s (recent s + SLEEP_FOREVER)" using assms(1) True by (auto simp: select_timeout_def pass_selprep_def Let_def split: if_split_asm)
  then have "\<not> flagcleanup s" "recent s < cleanuptime s" using assms(2) by (auto simp: cleanup_selprep_def Let_def split: if_split_asm)
  moreover have "select_timeout s \<le> SLEEP_FOREVER + SLEEP_FUZZ"
    using True assms by (simp add: select_timeout_def pass_selprep_def cleanup_selprep_def Let_def SLEEP_FOREVER_def SLEEP_FUZZ_def)
  ultimately show ?thesis using True by (simp add: pass_dochan_def cleanup_do_def)
next
  case False
  then show ?thesis using idle_when_waiting [OF assms(1) False assms(2)] by simp
qed


theorem waits_when_idle_witness:
  "select_timeout (mgr one_start\<lparr>cleanuptime := 10\<rparr>) = 11 \<and> pass_do (\<lambda>_. calm) one_conf (mgr one_start\<lparr>cleanuptime := 10\<rparr>) = Some (mgr one_start\<lparr>cleanuptime := 10\<rparr>)"
proof -
  have t: "select_timeout (mgr one_start\<lparr>cleanuptime := 10\<rparr>) = 11"
    by (simp add: select_timeout_def pass_selprep_def cleanup_selprep_def Let_def SLEEP_FOREVER_def SLEEP_FUZZ_def sooner_def prioq_min_def channels_eq
      job_avail_def free_job_def one_start_def qstart_def send_init_def)
  show ?thesis using waits_when_idle [of "mgr one_start\<lparr>cleanuptime := 10\<rparr>" calm one_conf Local calm "\<lambda>_. []" "\<lambda>_. calm"] t by (simp add: one_start_def qstart_def send_init_def)
qed

end
