(* ===== verification/Startup.thy ===== *)
theory Startup
  imports Control Dispatch
begin

text \<open>
  The start of the queue manager: the control files of \<open>qmail-send.c\<close>, the limits that the delivery programs announce, and everything up to the
  first \<open>select\<close>; \<open>reread\<close> after a SIGHUP; and the end.
\<close>

section \<open>Control files\<close>

text \<open>\<open>getcontrols\<close>; what it reads are the limits on deliveries, the configuration and the tables.\<close>

definition send_getcontrols :: "(nat \<Rightarrow> bool) \<Rightarrow> cfiles \<Rightarrow> (int \<Rightarrow> datetime) \<Rightarrow> (sconf \<times> (channel \<Rightarrow> int) \<times> controls \<times> cme) option option" where
  "send_getcontrols mem fs localtime =
     needs (control_init mem fs ([], False)) False (\<lambda>st.
     needs (control_readint mem (fs ''control/bouncemaxbytes'') 0) False (\<lambda>maxbytes.
     needs (control_readint mem (fs ''control/queuelifetime'') 604800) False (\<lambda>life.
     needs (control_readint mem (fs ''control/concurrencylocal'') 10) False (\<lambda>loc.
     needs (control_readint mem (fs ''control/concurrencyremote'') 20) False (\<lambda>rem.
     needs (control_rldef mem st (fs ''control/envnoathost'') True (Some ''envnoathost'')) True (\<lambda>noathost.
     needs (control_rldef mem st (fs ''control/bouncefrom'') False (Some ''MAILER-DAEMON'')) True (\<lambda>from.
     needs (control_rldef mem st (fs ''control/bouncehost'') True (Some ''bouncehost'')) True (\<lambda>host.
     needs (control_rldef mem st (fs ''control/doublebouncehost'') True (Some ''doublebouncehost'')) True (\<lambda>dhost.
     needs (control_rldef mem st (fs ''control/doublebounceto'') False (Some ''postmaster'')) True (\<lambda>dto.
     case Option.bind (cat mem dto ''@'') (\<lambda>sa. Option.bind (cat mem sa dhost) (\<lambda>sa. cat mem sa [NUL])) of
       None \<Rightarrow> Some None
     | Some sa \<Rightarrow>
         map_option (map_option (\<lambda>ctl.
             (\<lparr>lifetime = life, bounce = \<lparr>bouncemaxbytes = maxbytes, bouncefrom = from, bouncehost = host, doublebounceto = cstr sa, bounce_localtime = localtime\<rparr>\<rparr>,
              (\<lambda>c. case c of Local \<Rightarrow> loc | Remote \<Rightarrow> rem), ctl, st)))
           (get_tables mem fs st noathost)))))))))))"

text \<open>\<open>reread\<close>; \<open>home\<close> tells whether \<open>chdir\<close> succeeds. Only \<open>mapvdoms\<close> is used by \<open>qmail-send\<close>
  itself. The byte that tells \<open>qmail-todo\<close> to reread is not part of the state: its arrival is a byte of \<open>comm_do_read\<close>.\<close>

definition reread :: "(nat \<Rightarrow> bool) \<Rightarrow> bool \<Rightarrow> cfiles \<Rightarrow> cme \<Rightarrow> controls \<Rightarrow> send \<Rightarrow> (controls \<times> send) option" where
  "reread mem home fs st ctl s =
     (if \<not> home then Some (ctl, Manager.log1 (''alert: unable to reread controls: unable to switch to home directory'' @ [LF]) s)
      else map_option (\<lambda>(ctl, alert). (ctl, (Manager.log1 alert s)\<lparr>vdoms := mapvdoms ctl\<rparr>)) (regetcontrols mem [] fs st ctl))"

section \<open>The start\<close>

text \<open>What a delivery program can handle, as two bytes; the comparison is unsigned.\<close>

definition limited :: "int \<Rightarrow> char \<times> char \<Rightarrow> nat" where
  "limited conc said = (let u = uch (fst said) + uch (snd said) * 256; n = unat (word_of_int conc :: 32 word) in if n > u then u else n)"

text \<open>\<open>said c\<close> is \<open>None\<close> if the program of the channel has died. The result is an alert and an exit with 111, or the state before the loop.\<close>

record boot =
  to_home :: bool
  to_queue :: bool
  mutex_open :: bool
  mutex_locked :: bool
  said :: "channel \<Rightarrow> (char \<times> char) option"

definition send_boot :: "boot \<Rightarrow> (nat \<Rightarrow> bool) \<Rightarrow> cfiles \<Rightarrow> (int \<Rightarrow> datetime) \<Rightarrow> int \<Rightarrow> (nat \<Rightarrow> sys) \<Rightarrow> (nat \<Rightarrow> char list list) \<Rightarrow> (ulong \<Rightarrow> mfiles) \<Rightarrow> (ulong \<Rightarrow> event list)
    \<Rightarrow> (char list + sconf \<times> controls \<times> send) option" where
  "send_boot b mem cfs localtime now env opendir fs es =
     (if \<not> to_home b then Some (Inl (''alert: cannot start: unable to switch to home directory'' @ [LF]))
      else case send_getcontrols mem cfs localtime of
        None \<Rightarrow> None
      | Some None \<Rightarrow> Some (Inl (''alert: cannot start: unable to read controls'' @ [LF]))
      | Some (Some (conf, conc, ctl, st)) \<Rightarrow>
         (if \<not> to_queue b then Some (Inl (''alert: cannot start: unable to switch to queue directory'' @ [LF]))
          else if \<not> mutex_open b then Some (Inl (''alert: cannot start: unable to open mutex'' @ [LF]))
          else if \<not> mutex_locked b then Some (Inl (''alert: cannot start: qmail-send is already running'' @ [LF]))
          else case (said b Local, said b Remote) of
            (Some l, Some r) \<Rightarrow>
              map_option (\<lambda>s. Inr (conf, ctl, s))
                (send_start env opendir (send_init (\<lambda>c. limited (conc c) (case c of Local \<Rightarrow> l | Remote \<Rightarrow> r)) (mapvdoms ctl) now fs es))
          | _ \<Rightarrow> Some (Inl (''alert: cannot start: hath the daemon spawn no fire?'' @ [LF]))))"

section \<open>Lemmas\<close>

lemma needs_Some: "needs (Some (1, x)) must k = k x" "needs (Some (0, x)) False k = k x"
  by (simp_all add: needs_def)

lemma rldef_absent: "mem = (\<lambda>_. True) \<Longrightarrow> control_rldef mem (me, True) Missing flagme (Some d) = Some (1, if flagme then me else cstr d)"
  by (simp add: control_rldef_def control_readline_def copied_def)

lemma readint_absent: "control_readint mem Missing i = Some (0, i)"
  by (simp add: control_readint_def control_readline_def)

lemma readfile_absent: "mem = (\<lambda>_. True) \<Longrightarrow> control_readfile mem (me, True) Missing flagme = Some (if flagme then (1, me @ [NUL]) else (0, []))"
  by (simp add: control_readfile_def cat_def)

lemma table_all: "table (\<lambda>_. True) s fc = Some (the (table (\<lambda>_. True) s fc))"
  by (simp add: table_def constmap_init_def Let_def)

lemma init_me: "mem = (\<lambda>_. True) \<Longrightarrow> fs ''control/me'' = Readable False content \<Longrightarrow>
  control_init mem fs ([], False) = Some (1, (striptrailingwhitespace (takeWhile (\<lambda>c. c \<noteq> LF) content), True))"
  using control_readline_ok [of mem "fs ''control/me''" "[]"] by (auto simp: control_init_def)

lemma boot_keeps_slots:
  assumes "send_start env opendir (send_init conc t now fs es) = Some s"
  shows "length (dels s c) = conc c"
proof -
  have put: "put_chan c pe s = Some u \<Longrightarrow> dels u = dels s" "put_done pe s = Some u \<Longrightarrow> dels u = dels s" "put_fail pe s = Some u \<Longrightarrow> dels u = dels s" for c pe s u
    by (auto simp: put_chan_def put_done_def put_fail_def)
  have puts: "put_chans pes cs s = Some u \<Longrightarrow> dels u = dels s" for pes cs s u
    by (induction pes cs s rule: put_chans.induct) (auto simp: bind_eq_Some_conv put_chan_def)
  have lg: "dels (Manager.log3 x y z s) = dels s" for x y z s by (simp add: Manager.log3_def Manager.log1_def)
  have add: "pqadd y i s = Some u \<Longrightarrow> dels u = dels s" for y i s u
    by (auto simp: pqadd_def pqadd_fail_def lg bind_eq_Some_conv split: stat.splits sum.splits if_split_asm dest!: put puts)
  have adds: "dels u = dels s" if "pqadds env is s = Some u" for env "is" s u
    using that
  proof (induction "is" arbitrary: env s)
    case (Cons i "is")
    then obtain v where v: "pqadd (env 0) i s = Some v" "pqadds (\<lambda>n. env (Suc n)) is v = Some u" by (auto simp: bind_eq_Some_conv)
    show ?case using Cons.IH [OF v(2)] add [OF v(1)] by simp
  qed simp
  have st: "dels (del_status s) = dels s" for s by (subst status_fields) simp
  show ?thesis using assms adds by (fastforce simp: send_start_def pqstart_def st send_init_def)
qed

lemma no_subdir_ids: "rs_dir rs = None \<or> rs_dir rs = Some [] \<Longrightarrow> subdir_ids (\<lambda>_. []) rs = []"
proof (induction "\<lambda>_ :: nat. [] :: char list list" rs rule: subdir_ids.induct)
  case (1 rs)
  show ?case
    using 1 by (subst subdir_ids.simps) (auto simp: readsubdir_next_def split: prod.splits if_splits)
qed

lemma only_me:
  assumes "fs = (\<lambda>n. if n = ''control/me'' then Readable False (me @ [LF]) else Missing)" "LF \<notin> set me" "striptrailingwhitespace me = me"
  shows "send_getcontrols (\<lambda>_. True) fs lt = Some (Some
    (\<lparr>lifetime = 604800, bounce = \<lparr>bouncemaxbytes = 0, bouncefrom = ''MAILER-DAEMON'', bouncehost = me, doublebounceto = cstr (''postmaster@'' @ me), bounce_localtime = lt\<rparr>\<rparr>,
     (\<lambda>c. case c of Local \<Rightarrow> 10 | Remote \<Rightarrow> 20),
     \<lparr>envnoathost = me, mappercenthack = the (table (\<lambda>_. True) [] False), maplocals = the (table (\<lambda>_. True) (me @ [NUL]) False), mapvdoms = the (table (\<lambda>_. True) [] True)\<rparr>,
     (me, True)))"
proof -
  let ?m = "\<lambda>_. True"
  have tw: "takeWhile (\<lambda>c. c \<noteq> LF) (me @ [LF]) = me" using line_split(1) [OF assms(2), of "[]"] by simp
  have i: "control_init ?m fs ([], False) = Some (1, (me, True))" using init_me [OF refl, of fs "me @ [LF]"] assms(1,3) tw by simp
  have g: "get_tables ?m fs (me, True) noathost = Some (Some \<lparr>envnoathost = noathost, mappercenthack = the (table ?m [] False),
      maplocals = the (table ?m (me @ [NUL]) False), mapvdoms = the (table ?m [] True)\<rparr>)" for noathost
  proof -
    obtain u v w where "table ?m (me @ [NUL]) False = Some u" "table ?m [] False = Some v" "table ?m [] True = Some w" using table_all by metis
    then show ?thesis using assms(1) by (simp add: get_tables_def readfile_absent needs_Some)
  qed
  have c: "cstr ((x @ [NUL]) :: char list) = cstr x" for x by (induction x) simp_all
  have f: "fs ''control/bouncemaxbytes'' = Missing" "fs ''control/queuelifetime'' = Missing" "fs ''control/concurrencylocal'' = Missing" "fs ''control/concurrencyremote'' = Missing"
    "fs ''control/envnoathost'' = Missing" "fs ''control/bouncefrom'' = Missing" "fs ''control/bouncehost'' = Missing" "fs ''control/doublebouncehost'' = Missing"
    "fs ''control/doublebounceto'' = Missing" by (simp_all add: assms(1))
  show ?thesis unfolding send_getcontrols_def i needs_Some f
    by (simp add: needs_Some readint_absent rldef_absent cat_def g c)
qed

lemma demo_controls:
  "\<exists>conf conc ctl st. send_getcontrols (\<lambda>_. True) (\<lambda>n. if n = ''control/me'' then Readable False (''h'' @ [LF]) else Missing) datetime_tai = Some (Some (conf, conc, ctl, st))"
proof -
  have "LF \<notin> set ''h''" "striptrailingwhitespace ''h'' = ''h''" by (simp_all add: striptrailingwhitespace_def white_def)
  from only_me [OF refl this, of datetime_tai] show ?thesis by blast
qed

section \<open>Properties\<close>

text \<open>What the manager assumes if the host has been given a name and nothing else: a week in the queue, ten local and twenty remote deliveries, bounces
  from \<open>MAILER-DAEMON\<close> at the host, double bounces to its postmaster, the host's own name as the only local domain, no virtual domains.\<close>

theorem defaults:
  assumes "fs = (\<lambda>n. if n = ''control/me'' then Readable False (me @ [LF]) else Missing)" "LF \<notin> set me" "striptrailingwhitespace me = me"
  shows "send_getcontrols (\<lambda>_. True) fs lt = Some (Some
    (\<lparr>lifetime = 604800, bounce = \<lparr>bouncemaxbytes = 0, bouncefrom = ''MAILER-DAEMON'', bouncehost = me, doublebounceto = cstr (''postmaster@'' @ me), bounce_localtime = lt\<rparr>\<rparr>,
     (\<lambda>c. case c of Local \<Rightarrow> 10 | Remote \<Rightarrow> 20),
     \<lparr>envnoathost = me, mappercenthack = the (table (\<lambda>_. True) [] False), maplocals = the (table (\<lambda>_. True) (me @ [NUL]) False), mapvdoms = the (table (\<lambda>_. True) [] True)\<rparr>,
     (me, True)))"
  by (rule only_me [OF assms])

theorem defaults_witness:
  "case send_getcontrols (\<lambda>_. True) (\<lambda>n. if n = ''control/me'' then Readable False (''h'' @ [LF]) else Missing) datetime_tai of
     Some (Some (conf, _)) \<Rightarrow> lifetime conf = 604800 \<and> doublebounceto (bounce conf) = ''postmaster@h'' | _ \<Rightarrow> False"
proof -
  have "LF \<notin> set ''h''" "striptrailingwhitespace ''h'' = ''h''" by (simp_all add: striptrailingwhitespace_def white_def)
  from defaults [OF refl this, of datetime_tai] show ?thesis by simp
qed

text \<open>C24: the manager never has more deliveries under way on a channel than the delivery program has said it can handle, nor than the control file allows.\<close>

theorem boot_limits:
  assumes "send_boot b mem cfs localtime now env opendir fs es = Some (Inr (conf, ctl, s))" "said b c = Some (x, y)"
  shows "length (dels s c) \<le> uch x + uch y * 256 \<and>
    (\<exists>conc st. send_getcontrols mem cfs localtime = Some (Some (conf, conc, ctl, st)) \<and> length (dels s c) \<le> unat (word_of_int (conc c) :: 32 word))"
proof -
  obtain conc l r st where "send_start env opendir (send_init (\<lambda>c. limited (conc c) (case c of Local \<Rightarrow> l | Remote \<Rightarrow> r)) (mapvdoms ctl) now fs es) = Some s"
    "said b Local = Some l" "said b Remote = Some r" and g: "send_getcontrols mem cfs localtime = Some (Some (conf, conc, ctl, st))"
    using assms(1) by (auto simp: send_boot_def split: if_split_asm option.splits)
  moreover from boot_keeps_slots [OF this(1), of c] have "length (dels s c) = limited (conc c) (case c of Local \<Rightarrow> l | Remote \<Rightarrow> r)" .
  ultimately show ?thesis using assms(2) g by (cases c) (auto simp: limited_def Let_def)
qed

theorem boot_limits_witness:
  "\<exists>conf ctl s. send_boot \<lparr>to_home = True, to_queue = True, mutex_open = True, mutex_locked = True, said = (\<lambda>_. Some (CHR ''A'', NUL))\<rparr> (\<lambda>_. True)
      (\<lambda>n. if n = ''control/me'' then Readable False (''h'' @ [LF]) else Missing) datetime_tai 0 (\<lambda>_. calm) (\<lambda>_. []) (\<lambda>_. no_files) (\<lambda>_. []) = Some (Inr (conf, ctl, s)) \<and>
    length (dels s Local) \<le> 65"
proof -
  let ?b = "\<lparr>to_home = True, to_queue = True, mutex_open = True, mutex_locked = True, said = (\<lambda>_. Some (CHR ''A'', NUL))\<rparr>"
  let ?fs = "\<lambda>n. if n = ''control/me'' then Readable False (''h'' @ [LF]) else Missing"
  obtain conf conc ctl st where g: "send_getcontrols (\<lambda>_. True) ?fs datetime_tai = Some (Some (conf, conc, ctl, st))" using demo_controls by blast
  have st: "send_start (\<lambda>_. calm) (\<lambda>_. []) u = Some (del_status u)" for u
    using no_subdir_ids [of "readsubdir_init ''info''"] by (simp add: send_start_def pqstart_def readsubdir_init_def)
  have r: "\<exists>s. send_boot ?b (\<lambda>_. True) ?fs datetime_tai 0 (\<lambda>_. calm) (\<lambda>_. []) (\<lambda>_. no_files) (\<lambda>_. []) = Some (Inr (conf, ctl, s))"
    by (simp add: send_boot_def g st)
  then obtain s where s: "send_boot ?b (\<lambda>_. True) ?fs datetime_tai 0 (\<lambda>_. calm) (\<lambda>_. []) (\<lambda>_. no_files) (\<lambda>_. []) = Some (Inr (conf, ctl, s))" by blast
  have "said ?b Local = Some (CHR ''A'', NUL)" by simp
  from boot_limits [OF s this] s show ?thesis by auto
qed

end
