(* ===== verification/Todorun.thy ===== *)
theory Todorun
  imports Control Dispatch
begin

text \<open>
  The process \<open>qmail-todo\<close> from its start to its exit (\<open>qmail-todo.c\<close>), around the work on one message that \<open>Todo\<close> models, and what it says to the
  queue manager: nothing but whole records that the manager understands, as the step relation of \<open>Noloss\<close> has it.
\<close>

section \<open>The process\<close>

definition todo_init :: "int \<Rightarrow> tmain" where
  "todo_init now = \<lparr>tododir = None, nexttodorun = now, todo_recent = 0, out_buf = [], comm_pos = 0, tsent = [], stopasap = False, flagreadasap = False, flagsendalive = True\<rparr>"

text \<open>What \<open>main\<close> does before its loop; the result is an exit code or the state of the loop. What it logs before it exits stays in the buffer that only the
  loop writes. \<open>read\<close> is the result of the one read that is made for the starting byte, with whether it was interrupted: the loop around it compares
  with an assignment, and ends.\<close>

definition todo_boot :: "bool \<Rightarrow> bool \<Rightarrow> int \<times> bool \<Rightarrow> (nat \<Rightarrow> bool) \<Rightarrow> cfiles \<Rightarrow> int \<Rightarrow> (nat + controls \<times> cme \<times> tmain) option" where
  "todo_boot home queue read mem cfs now =
     (if \<not> home then Some (Inl 111)
      else case todo_getcontrols mem cfs of
        None \<Rightarrow> None
      | Some None \<Rightarrow> Some (Inl 111)
      | Some (Some (ctl, st)) \<Rightarrow>
          (if \<not> queue then Some (Inl 111)
           else let m = todo_init now in
             if fst read = - 1 \<and> \<not> snd read then Some (Inl 100) else Some (Inr (ctl, st, m))))"

definition todo_selprep :: "tmain \<Rightarrow> int \<Rightarrow> int" where
  "todo_selprep m wakeup =
     (if stopasap m then wakeup
      else let wakeup = (if tododir m \<noteq> None then 0 else wakeup) in if wakeup > nexttodorun m then nexttodorun m else wakeup)"

text \<open>\<open>comm_exit\<close> is \<open>None\<close> where it exits.\<close>

definition comm_exit :: "(nat \<Rightarrow> bool) \<Rightarrow> char list \<Rightarrow> char list option" where
  "comm_exit mem buf = cats mem buf [''X'', [NUL]]"

definition comm_selprep :: "(nat \<Rightarrow> bool) \<Rightarrow> tmain \<Rightarrow> tmain option" where
  "comm_selprep mem m =
     (if flagsendalive m \<and> stopasap m \<and> \<not> Todo.comm_canwrite m then map_option (\<lambda>b. m\<lparr>out_buf := b\<rparr>) (comm_exit mem (out_buf m)) else Some m)"

record tround =
  ttimes :: "int \<times> int"
  thome :: bool
  tfiles :: cfiles
  tround_mem :: "nat \<Rightarrow> bool"
  tselect :: "bool option"
  tpulled :: bool
  topendir :: "char list list option"
  tmess :: "nat \<Rightarrow> tenv"
  twready :: bool
  twrote :: "nat \<Rightarrow> int \<times> bool"
  trready :: bool
  tgot :: "char option \<times> bool"

definition todo_reread :: "tround \<Rightarrow> cme \<Rightarrow> controls \<times> tmain \<Rightarrow> (controls \<times> tmain) option" where
  "todo_reread w st = (\<lambda>(ctl, m).
     (if \<not> thome w then Some (ctl, m\<lparr>out_buf := Todo.log1 (tround_mem w) (''alert: qmail-todo: unable to reread controls: unable to switch to home directory'' @ [LF]) (out_buf m)\<rparr>)
      else map_option (\<lambda>(ctl, alert). (ctl, if alert = [] then m else m\<lparr>out_buf := Todo.log1 (tround_mem w) alert (out_buf m)\<rparr>))
             (regetcontrols (tround_mem w) ''qmail-todo: '' (tfiles w) st ctl)))"

text \<open>One round of the loop of \<open>main\<close>. The result is an exit code, or what the round leaves; \<open>tselect\<close> is the result of \<open>select\<close>, \<open>None\<close> an error that is
  logged and \<open>Some False\<close> an interrupt; \<open>twrote n\<close> is what \<open>write\<close> returns for \<open>n\<close> bytes.\<close>

definition todo_round :: "tround \<Rightarrow> cme \<Rightarrow> controls \<times> (nat \<Rightarrow> qfiles) \<times> tmain \<Rightarrow> (nat + controls \<times> (nat \<Rightarrow> qfiles) \<times> tmain) option" where
  "todo_round w st = (\<lambda>(ctl, fs, m).
     (let m = m\<lparr>todo_recent := fst (ttimes w)\<rparr> in
      case (if flagreadasap m then todo_reread w st (ctl, m\<lparr>flagreadasap := False\<rparr>) else Some (ctl, m)) of
        None \<Rightarrow> None
      | Some (ctl, m) \<Rightarrow>
          (if \<not> flagsendalive m then Some (Inl (if stopasap m then 0 else 1))
           else case comm_selprep (tround_mem w) m of
                  None \<Rightarrow> Some (Inl 1)
                | Some m \<Rightarrow>
                    (case tselect w of
                       None \<Rightarrow> Some (Inr (ctl, fs, m\<lparr>out_buf := Todo.log1 (tround_mem w) (''warning: qmail-todo: trouble in select'' @ [LF]) (out_buf m)\<rparr>))
                     | Some False \<Rightarrow> Some (Inr (ctl, fs, m))
                     | Some True \<Rightarrow>
                         (case Todo.todo_do (tround_mem w) (\<lambda>mid. (tmess w mid)\<lparr>tctl := ctl\<rparr>) (tpulled w) (topendir w) fs (m\<lparr>todo_recent := snd (ttimes w)\<rparr>) of
                            (Hung, fs, m) \<Rightarrow> None
                          | (Returned, fs, m) \<Rightarrow>
                              (let wrote = twrote w (length (out_buf m) - comm_pos m) in
                               Some (Inr (ctl, fs, comm_do_read (tround_mem w) (trready w) (fst (tgot w)) (snd (tgot w))
                                 (comm_do_write (twready w) (fst wrote) (snd wrote) m)))))))))"

section \<open>What it says\<close>

definition adds :: "char list \<Rightarrow> char list \<Rightarrow> bool" where
  "adds x y \<longleftrightarrow> (\<exists>ns. y = x @ concat (map note_text ns) \<and> list_all note_ok ns)"

lemma adds_refl [simp]: "adds x x"
  by (auto simp: adds_def intro: exI [of _ "[]"])

lemma adds_trans: "adds x y \<Longrightarrow> adds y z \<Longrightarrow> adds x z"
  unfolding adds_def by (elim exE conjE) (rule_tac x = "ns @ nsa" in exI, simp)

lemma adds_note: "note_ok n \<Longrightarrow> adds x (x @ note_text n)"
  unfolding adds_def by (intro exI [of _ "[n]"]) simp

lemma comm_add_note: "note_ok n \<Longrightarrow> concat ss = note_text n \<Longrightarrow> adds x (comm_add mem ss x)"
  using comm_add_extends [of mem ss x] adds_note [of n x] by auto

lemma log_adds: "adds x (Todo.log1 mem t x)" "adds x (Todo.log3 mem t t2 t3 x)"
proof -
  show "adds x (Todo.log1 mem t x)" unfolding Todo.log1_def
    by (rule comm_add_note [of "Say (cstr t)"]) (simp_all add: note_ok_def note_text_def note_body_def)
  show "adds x (Todo.log3 mem t t2 t3 x)" unfolding Todo.log3_def
    by (rule comm_add_note [of "Say (cstr t @ cstr t2 @ cstr t3)"]) (simp_all add: note_ok_def note_text_def note_body_def)
qed

lemma write_adds:
  assumes "mid < 2 ^ 32"
  shows "adds x (Todo.comm_write mem mid loc rem x)"
proof -
  let ?cs = "(if loc then [Local] else []) @ (if rem then [Remote] else [])"
  have "unat (of_nat mid :: ulong) = mid" using assms by (simp add: unat_of_nat)
  then have n: "Manager.num (of_nat mid) = fmt_ulong mid" by (simp add: Manager.num_def)
  show ?thesis unfolding Todo.comm_write_def
    by (rule comm_add_note [of "Announce (of_nat mid) ?cs"]) (simp_all add: note_ok_def note_text_def note_body_def announce_code_def n)
qed

lemma info_adds: "adds x (comm_info mem mid bytes sendr pid uid x)"
proof -
  let ?s = "map (\<lambda>ch. if ch = LF then CHR ''/'' else if \<not> log_issafe ch then CHR ''_'' else ch) (cstr sendr)"
  have d: "NUL \<notin> set (fmt_ulong k)" for k by simp
  have "NUL \<notin> set ?s" using nul_notin_cstr [of sendr] by auto
  then show ?thesis unfolding comm_info_def
    by (intro comm_add_note [of "Say (''info msg '' @ fmt_ulong mid @ '': bytes '' @ fmt_ulong bytes @ '' from <'' @ ?s @ ''> qp '' @ fmt_ulong pid @ '' uid '' @ fmt_ulong uid @ [LF])"])
      (simp_all add: note_ok_def note_text_def note_body_def d)
qed

definition told_from :: "char list \<Rightarrow> tproc \<Rightarrow> bool" where
  "told_from x st \<longleftrightarrow> adds x (comm_buf st)"

abbreviation speaks_from :: "char list \<Rightarrow> tproc trun \<Rightarrow> bool" where
  "speaks_from x \<equiv> ends (\<lambda>(e, st). told_from x st) (told_from x)"

lemma told_log: "told_from x st \<Longrightarrow> told_from x (st\<lparr>comm_buf := Todo.log1 mem t (comm_buf st)\<rparr>)"
  "told_from x st \<Longrightarrow> told_from x (st\<lparr>comm_buf := Todo.log3 mem t t2 t3 (comm_buf st)\<rparr>)"
  using log_adds adds_trans by (auto simp: told_from_def)

lemma told_updates [simp]:
  "told_from x (set_files f st) = told_from x st" "told_from x (st\<lparr>flagchan := fc\<rparr>) = told_from x st" "told_from x (st\<lparr>tss := ss\<rparr>) = told_from x st"
  "told_from x (noted_info so st) = told_from x st" "told_from x (noted_chan c so st) = told_from x st"
  "told_from x (st\<lparr>sschan := sc\<rparr>) = told_from x st" "told_from x (st\<lparr>ssinfo := so\<rparr>) = told_from x st"
  "told_from x (st\<lparr>todo_uid := u\<rparr>) = told_from x st" "told_from x (st\<lparr>todo_pid := u\<rparr>) = told_from x st" "told_from x (st\<lparr>flagstopasap := b\<rparr>) = told_from x st"
  by (simp_all add: told_from_def set_files_def noted_info_def noted_chan_def)

lemma speaks_if: "(b \<Longrightarrow> speaks_from x r) \<Longrightarrow> (\<not> b \<Longrightarrow> speaks_from x q) \<Longrightarrow> speaks_from x (if b then r else q)"
  by simp

lemma give_up_told: "told_from x st \<Longrightarrow> speaks_from x (give_up env what name st)"
  by (simp add: give_up_def told_log)

lemma unlink_chans_told: "told_from x st \<Longrightarrow> speaks_from x (unlink_chans env mid cs st)"
  by (induction env mid cs st rule: unlink_chans.induct) (simp_all add: give_up_told)

lemma todo_open_told:
  assumes "told_from x st"
  shows "speaks_from x (todo_open env mid st)"
proof -
  have *: "speaks_from x (andthen (unlink_chans env mid channels st) f)" if "\<And>u. told_from x u \<Longrightarrow> speaks_from x (f u)" for f
    by (rule ends_andthen [OF unlink_chans_told [OF assms]]) (rule that)
  show ?thesis unfolding todo_open_def Let_def
    by (intro speaks_if give_up_told assms *) (simp_all add: told_log)
qed

lemma sender_told: "told_from x st \<Longrightarrow> speaks_from x (sender_record env mid line st)"
proof -
  assume *: "told_from x st"
  have i: "told_from x (u\<lparr>comm_buf := comm_info mem k b sd p w (comm_buf u)\<rparr>)" if "told_from x u" for u mem k b sd p w
    using that info_adds adds_trans by (auto simp: told_from_def)
  show ?thesis using * by (auto simp: sender_record_def Let_def give_up_told i split: option.split)
qed

lemma recipient_told: "told_from x st \<Longrightarrow> speaks_from x (recipient_record env mid line st)"
proof -
  assume *: "told_from x st"
  have b: "speaks_from x (case r of None \<Rightarrow> Inl (Hung, u) | Some (ok, ss) \<Rightarrow> let u = noted_chan c ss u in if \<not> ok then give_up env what name u else Inr u)" if "told_from x u" for r u c what name
    using that by (auto simp: Let_def give_up_told split: option.split)
  obtain r rwline where r: "rewrite (tctl env) (tmem env) (tl line) = (r, rwline)" by (cases "rewrite (tctl env) (tmem env) (tl line)")
  show ?thesis
  proof (cases "r = 0")
    case True
    then show ?thesis using * r by (simp add: recipient_record_def told_log)
  next
    case False
    then show ?thesis unfolding recipient_record_def r prod.case if_not_P [OF False] Let_def
      by (intro ends_andthen [where P = "told_from x"] b [unfolded Let_def]) (use * in \<open>simp_all add: give_up_told\<close>)
  qed
qed

lemma record_told: "told_from x st \<Longrightarrow> speaks_from x (Todo.todo_record env mid line st)"
  by (auto simp: Todo.todo_record_def sender_told recipient_told give_up_told split: prod.split)

lemma loop_told: "told_from x st \<Longrightarrow> speaks_from x (todo_loop env mid k st)"
proof (induction k arbitrary: st)
  case (Suc k)
  have "speaks_from x (andthen (Todo.todo_record env mid line u) (todo_loop env mid k))" if "told_from x u" for line u
    by (rule ends_andthen [OF record_told [OF that]]) (rule Suc.IH)
  then show ?case using Suc.prems by (auto simp: Let_def give_up_told split: option.split)
qed simp

lemma finish_chans_told: "told_from x st \<Longrightarrow> speaks_from x (finish_chans env mid cs st)"
proof (induction cs arbitrary: st)
  case (Cons c cs)
  then show ?case by (auto simp: Let_def give_up_told split: option.split)
qed simp

lemma finish_told:
  assumes "told_from x st" "mid < 2 ^ 32"
  shows "speaks_from x (todo_finish env mid st)"
proof -
  have c: "told_from x (Todo.cleandied env u)" if "told_from x u" for u using told_log(1) [OF that] by (simp add: Todo.cleandied_def)
  have w: "told_from x (u\<lparr>comm_buf := Todo.comm_write mem mid a1 b1 (comm_buf u)\<rparr>)" if "told_from x u" for u mem a1 b1
    using that write_adds [OF assms(2)] adds_trans by (auto simp: told_from_def)
  have *: "speaks_from x (andthen (finish_chans env mid channels u) f)" if "told_from x u" "\<And>v. told_from x v \<Longrightarrow> speaks_from x (f v)" for u f
    by (rule ends_andthen [OF finish_chans_told [OF that(1)]]) (rule that(2))
  show ?thesis unfolding todo_finish_def Let_def using assms(1)
    by (auto simp: give_up_told told_log c w intro!: * split: option.split)
qed

lemma message_told:
  assumes "mid < 2 ^ 32"
  shows "speaks_from buf (todo_message env mid (todo_begin d buf))"
proof -
  have "told_from buf (todo_begin d buf)" by (simp add: told_from_def todo_begin_def)
  from todo_open_told [OF this] show ?thesis unfolding todo_message_def
    by (rule ends_andthen) (rule ends_andthen [OF loop_told], simp_all add: finish_told [OF _ assms])
qed

section \<open>Runs\<close>

text \<open>Between two rounds the files may change in any way.\<close>

inductive todo_reach :: "tmain \<Rightarrow> bool" where
  Begin: "todo_reach (todo_init now)"
| Round: "todo_reach m \<Longrightarrow> todo_round w st (ctl, fs, m) = Some (Inr (ctl', fs', m')) \<Longrightarrow> \<forall>n. fst (twrote w n) \<le> int n \<Longrightarrow> todo_reach m'"

definition speaks :: "tmain \<Rightarrow> bool" where
  "speaks m \<longleftrightarrow> pos_ok m \<and> adds [] (all_told m)"

lemma speaks_more:
  assumes "speaks m" "adds (out_buf m) b"
  shows "speaks (m\<lparr>out_buf := b\<rparr>)"
proof -
  obtain ns where ns: "b = out_buf m @ concat (map note_text ns)" "list_all note_ok ns" using assms(2) by (auto simp: adds_def)
  have "adds (all_told m) (all_told (m\<lparr>out_buf := b\<rparr>))" using assms(1) ns unfolding adds_def by (intro exI [of _ ns]) (simp add: speaks_def all_told_def pos_ok_def)
  then show ?thesis using assms(1) ns adds_trans by (auto simp: speaks_def pos_ok_def)
qed

lemma speaks_updates [simp]:
  "speaks (m\<lparr>tododir := x\<rparr>) = speaks m" "speaks (m\<lparr>nexttodorun := y\<rparr>) = speaks m" "speaks (m\<lparr>todo_recent := y\<rparr>) = speaks m"
  "speaks (m\<lparr>stopasap := z\<rparr>) = speaks m" "speaks (m\<lparr>flagreadasap := z\<rparr>) = speaks m" "speaks (m\<lparr>flagsendalive := z\<rparr>) = speaks m"
  by (simp_all add: speaks_def all_told_def pos_ok_def)

lemma todo_do_speaks:
  assumes "speaks m" "Todo.todo_do mem env pulled od fs m = (e, fs', m')"
  shows "speaks m'"
proof -
  have t: "told_from (out_buf m) u" if "todo_message (env (unat w)) (unat w) (todo_begin d (out_buf m)) = Inl (x, u) \<or> todo_message (env (unat w)) (unat w) (todo_begin d (out_buf m)) = Inr u"
    for x u d and w :: ulong
  proof -
    have "unat w < 2 ^ LENGTH(32)" by (rule unsigned_less)
    then have "unat w < 2 ^ 32" by simp
    from message_told [OF this, of "out_buf m" "env (unat w)" d] show ?thesis using that by auto
  qed
  have msg1: "adds (out_buf m) (comm_buf u)" if "todo_message (env (unat w)) (unat w) (todo_begin d (out_buf m)) = Inl (x, u)" for x u d and w :: ulong
    using t [OF disjI1 [OF that]] by (simp add: told_from_def)
  have msg2: "adds (out_buf m) (comm_buf u)" if "todo_message (env (unat w)) (unat w) (todo_begin d (out_buf m)) = Inr u" for u d and w :: ulong
    using t [OF disjI2 [OF that]] by (simp add: told_from_def)
  have b: "speaks (m\<lparr>tododir := x, out_buf := c\<rparr>)" "speaks (m\<lparr>nexttodorun := y, tododir := x, out_buf := c\<rparr>)" if "adds (out_buf m) c" for x y c
    using speaks_more [of "m\<lparr>tododir := x\<rparr>" c] speaks_more [of "m\<lparr>nexttodorun := y, tododir := x\<rparr>" c] assms(1) that by simp_all
  show ?thesis using assms(2) assms(1) unfolding Todo.todo_do_def Let_def
    by (auto simp: speaks_more b log_adds split: if_split_asm list.splits prod.splits sum.splits option.splits intro!: b dest: msg1 msg2)
qed

lemma reread_speaks:
  assumes "speaks m" "todo_reread w st (ctl, m) = Some (ctl', m')"
  shows "speaks m'"
  using assms by (auto simp: todo_reread_def speaks_more log_adds split: if_split_asm)

lemma selprep_speaks:
  assumes "speaks m" "comm_selprep mem m = Some m'"
  shows "speaks m'"
proof -
  have "adds (out_buf m) b" if "comm_exit mem (out_buf m) = Some b" for b
  proof -
    from that obtain u where u: "cat mem (out_buf m) ''X'' = Some u" "cat mem u [NUL] = Some b" unfolding comm_exit_def cats.simps bind_eq_Some_conv by auto
    then have "b = out_buf m @ note_text Quit" using cat_some [OF u(1)] cat_some [OF u(2)] by (simp add: note_text_def note_body_def)
    then show ?thesis using adds_note [of Quit] by (simp add: note_ok_def)
  qed
  then show ?thesis using assms by (auto simp: comm_selprep_def speaks_more split: if_split_asm)
qed

lemma read_speaks: "speaks m \<Longrightarrow> speaks (comm_do_read mem isset got readerr m)"
  by (auto simp: comm_do_read_def speaks_more log_adds split: option.split)

lemma write_speaks: "speaks m \<Longrightarrow> v \<le> int (length (out_buf m) - comm_pos m) \<Longrightarrow> speaks (comm_do_write isset v epipe m)"
  using comm_do_write_told [of m v isset epipe] by (simp add: speaks_def)

lemma todo_round_speaks:
  assumes "speaks m" "todo_round w st (ctl, fs, m) = Some (Inr (ctl', fs', m'))" "\<forall>n. fst (twrote w n) \<le> int n"
  shows "speaks m'"
proof -
  let ?m = "m\<lparr>todo_recent := fst (ttimes w)\<rparr>"
  obtain ctl1 m1 where 1: "(if flagreadasap ?m then todo_reread w st (ctl, ?m\<lparr>flagreadasap := False\<rparr>) else Some (ctl, ?m)) = Some (ctl1, m1)" and al: "flagsendalive m1"
    using assms(2) by (auto simp: todo_round_def Let_def split: option.splits if_split_asm)
  have s1: "speaks m1" using 1 assms(1) reread_speaks [of "?m\<lparr>flagreadasap := False\<rparr>" w st ctl ctl1 m1] by (auto split: if_split_asm)
  obtain m2 where 2: "comm_selprep (tround_mem w) m1 = Some m2" using assms(2) 1 al by (auto simp: todo_round_def Let_def split: option.splits)
  note s2 = selprep_speaks [OF s1 2]
  have r: "(case tselect w of
                       None \<Rightarrow> Some (Inr (ctl1, fs, m2\<lparr>out_buf := Todo.log1 (tround_mem w) (''warning: qmail-todo: trouble in select'' @ [LF]) (out_buf m2)\<rparr>))
                     | Some False \<Rightarrow> Some (Inr (ctl1, fs, m2))
                     | Some True \<Rightarrow>
                         (case Todo.todo_do (tround_mem w) (\<lambda>mid. (tmess w mid)\<lparr>tctl := ctl1\<rparr>) (tpulled w) (topendir w) fs (m2\<lparr>todo_recent := snd (ttimes w)\<rparr>) of
                            (Hung, fs, m) \<Rightarrow> None
                          | (Returned, fs, m) \<Rightarrow>
                              (let wrote = twrote w (length (out_buf m) - comm_pos m) in
                               Some (Inr (ctl1, fs, comm_do_read (tround_mem w) (trready w) (fst (tgot w)) (snd (tgot w))
                                 (comm_do_write (twready w) (fst wrote) (snd wrote) m)))))) = (Some (Inr (ctl', fs', m')) :: (nat + _) option)"
    using assms(2) 1 2 al by (simp add: todo_round_def Let_def)
  show ?thesis
  proof (cases "tselect w = Some True")
    case False
    then show ?thesis using r s2 by (auto simp: speaks_more log_adds split: option.splits bool.splits)
  next
    case True
    then obtain fs3 m3 where 3: "Todo.todo_do (tround_mem w) (\<lambda>mid. (tmess w mid)\<lparr>tctl := ctl1\<rparr>) (tpulled w) (topendir w) fs (m2\<lparr>todo_recent := snd (ttimes w)\<rparr>) = (Returned, fs3, m3)"
      using r by (auto split: prod.splits tend.splits)
    have s3: "speaks m3" using todo_do_speaks [OF _ 3] s2 by simp
    have "fst (twrote w n) \<le> int n" for n using assms(3) by simp
    from write_speaks [OF s3 this] show ?thesis using r True 3 read_speaks by (auto simp: Let_def)
  qed
qed

section \<open>Properties\<close>

text \<open>C21: all that \<open>qmail-todo\<close> ever says to the queue manager is a sequence of whole records: announcements, log texts and its end, in the form that the
  manager reads, however the system calls go, whatever memory is denied, and however little of the buffer the kernel takes at a time.\<close>

theorem todo_says_records:
  assumes "todo_reach m"
  shows "\<exists>ns. pipe_ok ns [] (all_told m)"
proof -
  have "speaks m" using assms
  proof (induction rule: todo_reach.induct)
    case (Begin now)
    then show ?case by (simp add: speaks_def all_told_def pos_ok_def todo_init_def)
  next
    case (Round m w st ctl fs ctl' fs' m')
    then show ?case using todo_round_speaks by blast
  qed
  then obtain ns where "all_told m = concat (map note_text ns)" "list_all note_ok ns" by (auto simp: speaks_def adds_def)
  then show ?thesis unfolding pipe_ok_def by (intro exI [of _ ns] conjI exI [of _ "[]"]) simp_all
qed

lemma todo_says_records_witness: "\<exists>m. todo_reach m \<and> length (out_buf m) = 41 \<and> (\<exists>ns. pipe_ok ns [] (all_told m))"
proof -
  let ?w = "\<lambda>d. \<lparr>ttimes = (1, 1), thome = True, tfiles = (\<lambda>_. Missing), tround_mem = (\<lambda>_. True), tselect = None, tpulled = False, topendir = None,
    tmess = (\<lambda>_. d), twready = False, twrote = (\<lambda>_. (0, False)), trready = False, tgot = (None, False)\<rparr>"
  let ?m = "(todo_init 0)\<lparr>todo_recent := 1, out_buf := Todo.log1 (\<lambda>_. True) (''warning: qmail-todo: trouble in select'' @ [LF]) []\<rparr>"
  have "todo_round (?w d) st (ctl, fs, todo_init 0) = Some (Inr (ctl, fs, ?m))" for d st ctl fs
    by (simp add: todo_round_def todo_init_def comm_selprep_def)
  from todo_reach.Round [OF todo_reach.Begin this] have r: "todo_reach ?m" by simp
  have "length (out_buf ?m) = 41" by (simp add: Todo.log1_def comm_add_def cat_def cstr_def)
  then show ?thesis using r todo_says_records [OF r] by blast
qed

end
