(* ===== verification/Spawn.thy ===== *)
theory Spawn
  imports Manager Clean
begin

text \<open>
  The programs between the queue manager and the deliveries (\<open>spawn.c\<close> with \<open>qmail-lspawn.c\<close> or \<open>qmail-rspawn.c\<close>): they read commands, start one child
  for each, collect what it says, and report its result. Each command is answered exactly once, in the form that the manager reads.
\<close>

section \<open>Reports\<close>

text \<open>\<open>substdio_puts\<close> of what begins at \<open>s\<close>; \<open>None\<close> if no NUL is there.\<close>

definition puts_at :: "char list \<Rightarrow> char list option" where
  "puts_at s = (if NUL \<in> set s then Some (cstr s) else None)"

fun rresult :: "char list \<Rightarrow> nat \<Rightarrow> nat list \<Rightarrow> int" where
  "rresult s j [] = - 1"
| "rresult s j (k # ks) =
     (if s ! k \<noteq> NUL then rresult s j ks
      else if s ! j = CHR ''K'' then 1
      else if s ! j = CHR ''Z'' then 0
      else if s ! j = CHR ''D'' then - 1
      else rresult s (k + 1) ks)"

fun rtext :: "char list \<Rightarrow> int \<Rightarrow> int \<Rightarrow> nat list \<Rightarrow> char list option" where
  "rtext s result orr [] = Some []"
| "rtext s result orr (k # ks) =
     (if s ! k \<noteq> NUL then rtext s result orr ks
      else let k = k + 1 in
        Option.bind (puts_at (tl s)) (\<lambda>t.
        if result \<le> orr \<and> k < length s \<and> s ! k \<in> {CHR ''Z'', CHR ''D'', CHR ''K''}
        then map_option (\<lambda>u. t @ u) (puts_at (drop (k + 1) s)) else Some t))"

text \<open>\<open>report\<close> of \<open>qmail-rspawn.c\<close>\<close>

definition remote_report :: "nat \<Rightarrow> char list \<Rightarrow> char list option" where
  "remote_report wstat s =
     (if wait_crashed wstat then Some (''Zqmail-remote crashed.'' @ [LF])
      else if wait_exitcode wstat = 111 then Some (''ZUnable to run qmail-remote.'' @ [LF])
      else if wait_exitcode wstat \<noteq> 0 then Some (''DUnable to run qmail-remote.'' @ [LF])
      else if s = [] then Some (''Zqmail-remote produced no output.'' @ [LF])
      else let result = rresult s 0 [0..<length s];
               orr = (if s ! 0 = CHR ''s'' then 0 else if s ! 0 = CHR ''h'' then - 1 else result)
           in map_option (\<lambda>t. (if orr = 1 then CHR ''K'' else if orr = 0 then CHR ''Z'' else CHR ''D'') # t) (rtext s result orr [1..<length s]))"

text \<open>What \<open>qmail-remote\<close> is started with.\<close>

definition remote_args :: "char list \<times> char list \<times> char list \<times> nat \<Rightarrow> char list list" where
  "remote_args = (\<lambda>(m, s, r, at). [''qmail-remote'', drop (at + 1) r, s, r])"

definition QLX_USAGE :: nat where "QLX_USAGE = 112"
definition QLX_ROOT :: nat where "QLX_ROOT = 113"
definition QLX_NFS :: nat where "QLX_NFS = 115"
definition QLX_NOALIAS :: nat where "QLX_NOALIAS = 116"
definition QLX_CDB :: nat where "QLX_CDB = 117"
definition QLX_SYS :: nat where "QLX_SYS = 118"
definition QLX_NOMEM :: nat where "QLX_NOMEM = 119"
definition QLX_EXECSOFT :: nat where "QLX_EXECSOFT = 120"
definition QLX_EXECPW :: nat where "QLX_EXECPW = 121"
definition QLX_EXECHARD :: nat where "QLX_EXECHARD = 126"

text \<open>\<open>report\<close> of \<open>qmail-lspawn.c\<close>\<close>

definition local_report :: "nat \<Rightarrow> char list \<Rightarrow> char list option" where
  "local_report wstat s =
     (let e = wait_exitcode wstat in
      if wait_crashed wstat then Some (''Zqmail-local crashed.'' @ [LF])
      else if e = QLX_CDB then Some (''ZTrouble reading users/cdb in qmail-lspawn.'' @ [LF])
      else if e = QLX_NOMEM then Some (''ZOut of memory in qmail-lspawn.'' @ [LF])
      else if e = QLX_SYS then Some (''ZTemporary failure in qmail-lspawn.'' @ [LF])
      else if e = QLX_NOALIAS then Some (''ZUnable to find alias user!'' @ [LF])
      else if e = QLX_ROOT then Some (''ZNot allowed to perform deliveries as root.'' @ [LF])
      else if e = QLX_USAGE then Some (''ZInternal qmail-lspawn bug.'' @ [LF])
      else if e = QLX_NFS then Some (''ZNFS failure in qmail-local.'' @ [LF])
      else if e = QLX_EXECHARD then Some (''DUnable to run qmail-local.'' @ [LF])
      else if e = QLX_EXECSOFT then Some (''ZUnable to run qmail-local.'' @ [LF])
      else if e = QLX_EXECPW then Some (''ZUnable to run qmail-getpw.'' @ [LF])
      else Some ((if e \<in> {111, 71, 74, 75} then CHR ''Z'' else if e = 0 then CHR ''K'' else CHR ''D'') # takeWhile (\<lambda>c. c \<noteq> NUL) s))"

section \<open>The state\<close>

text \<open>\<open>fdout\<close> tells whether the end of the pipe that the parent keeps is open. \<open>work\<close> is not in the program: message, sender, recipient and the place of
  the at sign that the child was given.\<close>

record delivery =
  dused :: bool
  fdout :: bool
  pid :: nat
  wstat :: nat
  doutput :: "char list"
  work :: "char list \<times> char list \<times> char list \<times> nat"

record spawner =
  slots :: "delivery list"
  stage :: nat
  flagabort :: bool
  delnum :: int
  messid :: "char list"
  sender :: "char list"
  srecip :: "char list"
  flagreading :: bool
  ssout :: "char list"

datatype scall = Open_mess | Stat_mess | Not_regular | Wrong_owner | Pipe_child | Fork_child

record spenv =
  spfails :: "scall \<Rightarrow> bool"
  spmem :: "nat \<Rightarrow> bool"
  child :: nat

text \<open>The two bytes of a number, as an \<open>int\<close> is cut to characters.\<close>

definition two_bytes :: "int \<Rightarrow> char list" where
  "two_bytes n = [char_of (n mod 256), char_of (n div 256 mod 256)]"

definition spawn_init :: "nat \<Rightarrow> spawner" where
  "spawn_init auto_spawn =
     \<lparr>slots = replicate auto_spawn \<lparr>dused = False, fdout = False, pid = 0, wstat = 0, doutput = [], work = ([], [], [], 0)\<rparr>, stage = 0, flagabort = False, delnum = 0,
      messid = [], sender = [], srecip = [], flagreading = True, ssout = two_bytes (int auto_spawn)\<rparr>"

section \<open>Commands\<close>

definition spawn_err :: "char list \<Rightarrow> spawner \<Rightarrow> spawner" where
  "spawn_err s st = st\<lparr>ssout := ssout st @ two_bytes (delnum st) @ cstr s @ [NUL]\<rparr>"

definition messid_ok :: "char list \<Rightarrow> bool" where
  "messid_ok m = list_all (\<lambda>i. m ! i \<noteq> NUL \<longrightarrow> (i = 0 \<or> m ! i \<noteq> CHR ''/'') \<longrightarrow> (uch (m ! i) + 208) mod 256 \<le> 9) [0..<length m]"

definition docmd :: "spenv \<Rightarrow> spawner \<Rightarrow> spawner" where
  "docmd env st =
     (if flagabort st then spawn_err (''Zqmail-spawn out of memory. (#4.3.0)'' @ [LF]) st
      else if delnum st < 0 then spawn_err (''ZInternal error: delnum negative. (#4.3.5)'' @ [LF]) st
      else if delnum st \<ge> int (length (slots st)) then spawn_err (''ZInternal error: delnum too big. (#4.3.5)'' @ [LF]) st
      else let n = nat (delnum st) in
      if dused (slots st ! n) then spawn_err (''ZInternal error: delnum in use. (#4.3.5)'' @ [LF]) st
      else if \<not> messid_ok (messid st) then spawn_err (''DInternal error: messid has nonnumerics. (#5.3.5)'' @ [LF]) st
      else if length (messid st) > 100 then spawn_err (''DInternal error: messid too long. (#5.3.5)'' @ [LF]) st
      else if messid st ! 0 = NUL then spawn_err (''DInternal error: messid too short. (#5.3.5)'' @ [LF]) st
      else if \<not> spmem env 0 then spawn_err (''Zqmail-spawn out of memory. (#4.3.0)'' @ [LF]) st
      else let st = st\<lparr>slots := (slots st)[n := (slots st ! n)\<lparr>doutput := []\<rparr>]\<rparr>; j = byte_rchr (srecip st) (CHR ''@'') in
      if j \<ge> length (srecip st) then spawn_err (''DSorry, address must include host name. (#5.1.3)'' @ [LF]) st
      else if spfails env Open_mess then spawn_err (''Zqmail-spawn unable to open message. (#4.3.0)'' @ [LF]) st
      else if spfails env Stat_mess then spawn_err (''Zqmail-spawn unable to fstat message. (#4.3.0)'' @ [LF]) st
      else if spfails env Not_regular then spawn_err (''ZSorry, message has wrong type. (#4.3.5)'' @ [LF]) st
      else if spfails env Wrong_owner then spawn_err (''ZSorry, message has wrong owner. (#4.3.5)'' @ [LF]) st
      else if spfails env Pipe_child then spawn_err (''Zqmail-spawn unable to create pipe. (#4.3.0)'' @ [LF]) st
      else if spfails env Fork_child then spawn_err (''Zqmail-spawn unable to fork. (#4.3.0)'' @ [LF]) st
      else st\<lparr>slots := (slots st)[n := (slots st ! n)\<lparr>fdout := True, pid := child env, dused := True,
                work := (cstr (messid st), cstr (sender st), cstr (srecip st), j)\<rparr>]\<rparr>)"

definition append_to :: "(nat \<Rightarrow> bool) \<Rightarrow> char \<Rightarrow> char list \<Rightarrow> bool \<Rightarrow> char list \<times> bool" where
  "append_to mem ch sa abort = (if mem (length sa + 1) then (sa @ [ch], abort) else (sa, True))"

text \<open>One byte in \<open>getcmd\<close>\<close>

definition cmd_byte :: "spenv \<Rightarrow> char \<Rightarrow> spawner \<Rightarrow> spawner" where
  "cmd_byte env ch st =
     (if stage st = 0 then st\<lparr>delnum := int (uch ch), stage := 1\<rparr>
      else if stage st = 1 then st\<lparr>delnum := delnum st + sch ch * 256, messid := [], stage := 2\<rparr>
      else if stage st = 2 then
        (let (m, ab) = append_to (spmem env) ch (messid st) (flagabort st); st = st\<lparr>messid := m, flagabort := ab\<rparr> in
         if ch \<noteq> NUL then st else st\<lparr>sender := [], stage := 3\<rparr>)
      else if stage st = 3 then
        (let (m, ab) = append_to (spmem env) ch (sender st) (flagabort st); st = st\<lparr>sender := m, flagabort := ab\<rparr> in
         if ch \<noteq> NUL then st else st\<lparr>srecip := [], stage := 4\<rparr>)
      else if stage st = 4 then
        (let (m, ab) = append_to (spmem env) ch (srecip st) (flagabort st); st = st\<lparr>srecip := m, flagabort := ab\<rparr> in
         if ch \<noteq> NUL then st else (docmd env st)\<lparr>flagabort := False, stage := 0\<rparr>)
      else st)"

fun cmd_bytes :: "(nat \<Rightarrow> spenv) \<Rightarrow> char list \<Rightarrow> spawner \<Rightarrow> spawner" where
  "cmd_bytes env [] st = st"
| "cmd_bytes env (ch # bs) st = cmd_bytes (\<lambda>n. env (Suc n)) bs (cmd_byte (env 0) ch st)"

definition getcmd :: "(nat \<Rightarrow> spenv) \<Rightarrow> rd \<Rightarrow> spawner \<Rightarrow> spawner" where
  "getcmd env r st =
     (case r of
        Got bs \<Rightarrow> (if bs = [] then st\<lparr>flagreading := False\<rparr> else cmd_bytes env bs st)
      | Rd_intr \<Rightarrow> st
      | Rd_fail \<Rightarrow> st\<lparr>flagreading := False\<rparr>)"

section \<open>Children\<close>

definition ended :: "nat \<Rightarrow> nat \<Rightarrow> delivery \<Rightarrow> delivery" where
  "ended p w d = (if dused d \<and> pid d = p then d\<lparr>fdout := False, wstat := w, pid := 0\<rparr> else d)"

text \<open>\<open>sigchld\<close> with what \<open>wait_nohang\<close> returns\<close>

definition sigchld :: "(nat \<times> nat) list \<Rightarrow> spawner \<Rightarrow> spawner" where
  "sigchld es st = st\<lparr>slots := map (fold (\<lambda>(p, w). ended p w) es) (slots st)\<rparr>"

definition truncmess :: "char list" where
  "truncmess = LF # ''Error report too long, sorry.'' @ [LF]"

definition shorten :: "nat \<Rightarrow> (nat \<Rightarrow> bool) \<Rightarrow> char list \<Rightarrow> char list" where
  "shorten truncreport mem s =
     (if truncreport > 100 \<and> length s > truncreport
      then let s = take (truncreport - length truncmess - 3) s in (if mem (length s + length truncmess) then s @ truncmess else s)
      else s)"

text \<open>Reading the pipe of one child; \<open>rep\<close> is the function \<open>report\<close> of the program.\<close>

definition slot_read :: "(nat \<Rightarrow> char list \<Rightarrow> char list option) \<Rightarrow> nat \<Rightarrow> (nat \<Rightarrow> bool) \<Rightarrow> nat \<Rightarrow> rd \<Rightarrow> spawner \<Rightarrow> spawner option" where
  "slot_read rep truncreport mem i r st =
     (let d = slots st ! i in
      case r of
        Got bs \<Rightarrow>
          (if bs = []
           then map_option (\<lambda>t. st\<lparr>ssout := ssout st @ two_bytes (int i) @ t @ [NUL], slots := (slots st)[i := d\<lparr>dused := False\<rparr>]\<rparr>) (rep (wstat d) (doutput d))
           else Some (st\<lparr>slots := (slots st)[i := d\<lparr>doutput := shorten truncreport mem (doutput d @ bs)\<rparr>]\<rparr>))
      | _ \<Rightarrow> Some st)"

fun slots_read :: "(nat \<Rightarrow> char list \<Rightarrow> char list option) \<Rightarrow> nat \<Rightarrow> (nat \<Rightarrow> bool) \<Rightarrow> (nat \<Rightarrow> rd option) \<Rightarrow> nat list \<Rightarrow> spawner \<Rightarrow> spawner option" where
  "slots_read rep truncreport mem got [] st = Some st"
| "slots_read rep truncreport mem got (i # is) st =
     (case got i of
        Some r \<Rightarrow> if dused (slots st ! i) then Option.bind (slot_read rep truncreport mem i r st) (slots_read rep truncreport mem got is)
                  else slots_read rep truncreport mem got is st
      | None \<Rightarrow> slots_read rep truncreport mem got is st)"

text \<open>What a round of the loop meets: the children that end, whether \<open>select\<close> fails, what is read where something can be read.\<close>

record spround =
  exits :: "(nat \<times> nat) list"
  selected :: bool
  commands :: "rd option"
  cmd_env :: "nat \<Rightarrow> spenv"
  outputs :: "nat \<Rightarrow> rd option"
  out_mem :: "nat \<Rightarrow> bool"

definition spawn_done :: "spawner \<Rightarrow> bool" where
  "spawn_done st \<longleftrightarrow> \<not> flagreading st \<and> list_all (\<lambda>d. \<not> dused d) (slots st)"

definition spawn_round :: "(nat \<Rightarrow> char list \<Rightarrow> char list option) \<Rightarrow> nat \<Rightarrow> spround \<Rightarrow> spawner \<Rightarrow> spawner option" where
  "spawn_round rep truncreport w st =
     (let st = sigchld (exits w) st in
      if \<not> selected w then Some st
      else let st = (if flagreading st then (case commands w of Some r \<Rightarrow> getcmd (cmd_env w) r st | None \<Rightarrow> st) else st) in
        slots_read rep truncreport (out_mem w) (outputs w) [0..<length (slots st)] st)"

section \<open>What the manager is to read\<close>

definition cmd_num :: "char \<Rightarrow> char \<Rightarrow> int" where
  "cmd_num lo hi = int (uch lo) + sch hi * 256"

definition cmd_text :: "int \<times> char list \<times> char list \<times> char list \<Rightarrow> char list" where
  "cmd_text = (\<lambda>(d, m, s, r). two_bytes d @ m @ [NUL] @ s @ [NUL] @ r @ [NUL])"

definition cmd_ok :: "int \<times> char list \<times> char list \<times> char list \<Rightarrow> bool" where
  "cmd_ok = (\<lambda>(d, m, s, r). - 32768 \<le> d \<and> d < 32768 \<and> NUL \<notin> set m \<and> NUL \<notin> set s \<and> NUL \<notin> set r)"

definition rec_text :: "int \<times> char list \<Rightarrow> char list" where
  "rec_text = (\<lambda>(d, t). two_bytes d @ t @ [NUL])"

definition answer_text :: "char list \<Rightarrow> bool" where
  "answer_text t \<longleftrightarrow> NUL \<notin> set t \<and> t \<noteq> [] \<and> hd t \<in> {CHR ''K'', CHR ''Z'', CHR ''D''}"

lemma sch_range: "- 128 \<le> sch c" "sch c < 128"
  using uch_less [of c] by (simp_all add: sch_def del: uch_less)

lemma cmd_num_range: "- 32768 \<le> cmd_num lo hi" "cmd_num lo hi < 32768"
  using uch_less [of lo] sch_range [of hi] by (simp_all add: cmd_num_def del: uch_less)

lemma two_bytes_num [simp]: "two_bytes (cmd_num lo hi) = [lo, hi]"
proof -
  have lo: "int (uch lo) mod 256 = int (uch lo)" "int (uch lo) div 256 = 0" using uch_less [of lo] by auto
  have "sch hi mod 256 = int (uch hi)" using uch_less [of hi] by (auto simp: sch_def)
  moreover have "char_of (int (uch c)) = c" for c by (metis char_of_char of_char_of of_nat_of_char)
  moreover have "cmd_num lo hi div 256 = sch hi" "cmd_num lo hi mod 256 = int (uch lo)" using lo by (auto simp: cmd_num_def)
  ultimately show ?thesis by (simp add: two_bytes_def)
qed

lemma length_two_bytes [simp]: "length (two_bytes n) = 2"
  by (simp add: two_bytes_def)

lemma report_num_two_bytes: "- 32768 \<le> d \<Longrightarrow> d < 32768 \<Longrightarrow> report_num (two_bytes d @ x) = d"
proof -
  assume d: "- 32768 \<le> d" "d < 32768"
  let ?h = "d div 256"
  have h: "- 128 \<le> ?h" "?h < 128" using d by auto
  have u: "int (uch (char_of (k mod 256) :: char)) = k mod 256" for k :: int
    by (metis mod_mod_trivial of_char_of of_nat_of_char)
  have "sch (char_of (?h mod 256)) = ?h"
  proof (cases "0 \<le> ?h")
    case True
    then have "?h mod 256 = ?h" using h by simp
    then show ?thesis using u [of ?h] h by (simp add: sch_def)
  next
    case False
    then have "(?h + 256) mod 256 = ?h + 256" using h by (intro mod_pos_pos_trivial) auto
    then have "?h mod 256 = ?h + 256" by simp
    then show ?thesis using u [of ?h] h False by (simp add: sch_def)
  qed
  then show ?thesis using u [of d] by (simp add: report_num_def two_bytes_def)
qed

lemma nonul_cstr: "NUL \<notin> set (cstr s)"
  by simp

section \<open>Both programs report a letter and a text\<close>

lemma rtext_nonul: "rtext s result orr ks = Some t \<Longrightarrow> NUL \<notin> set t"
proof (induction s result orr ks arbitrary: t rule: rtext.induct)
  case (2 s result orr k ks)
  then show ?case by (auto simp: Let_def puts_at_def bind_eq_Some_conv split: if_split_asm)
qed simp

lemma remote_report_answers: "remote_report w s = Some t \<Longrightarrow> answer_text t"
  by (auto simp: remote_report_def answer_text_def Let_def dest: rtext_nonul split: if_split_asm)

lemma local_report_answers: "local_report w s = Some t \<Longrightarrow> answer_text t"
  by (auto simp: local_report_def answer_text_def Let_def dest: set_takeWhileD split: if_split_asm)

section \<open>Every command has one answer\<close>

definition running :: "spawner \<Rightarrow> int \<Rightarrow> bool" where
  "running st d \<longleftrightarrow> 0 \<le> d \<and> nat d < length (slots st) \<and> dused (slots st ! nat d)"

text \<open>The commands that have come, and the answers that have been given: the children that run have been given what one of the commands says.\<close>

definition books :: "nat \<Rightarrow> (int \<times> char list \<times> char list \<times> char list) list \<Rightarrow> (int \<times> char list) list \<Rightarrow> spawner \<Rightarrow> bool" where
  "books n cmds rs st \<longleftrightarrow>
     length (slots st) = n \<and> list_all cmd_ok cmds \<and> list_all (\<lambda>(d, t). - 32768 \<le> d \<and> d < max 32768 (int n) \<and> answer_text t) rs \<and>
     ssout st = two_bytes (int n) @ concat (map rec_text rs) \<and>
     (\<forall>d. count_list (map fst cmds) d = count_list (map fst rs) d + (if running st d then 1 else 0)) \<and>
     (\<forall>i. i < n \<longrightarrow> dused (slots st ! i) \<longrightarrow> (\<exists>m s r. (int i, m, s, r) \<in> set cmds \<and> work (slots st ! i) = (m, s, r, byte_rchr (r @ [NUL]) (CHR ''@''))))"

text \<open>The beginning of a command that has not come to its end.\<close>

inductive reading :: "spawner \<Rightarrow> char list \<Rightarrow> bool" where
  R0: "stage st = 0 \<Longrightarrow> \<not> flagabort st \<Longrightarrow> reading st []"
| R1: "stage st = 1 \<Longrightarrow> \<not> flagabort st \<Longrightarrow> delnum st = int (uch lo) \<Longrightarrow> reading st [lo]"
| R2: "stage st = 2 \<Longrightarrow> delnum st = cmd_num lo hi \<Longrightarrow> NUL \<notin> set m \<Longrightarrow> \<not> flagabort st \<longrightarrow> messid st = m \<Longrightarrow> reading st ([lo, hi] @ m)"
| R3: "stage st = 3 \<Longrightarrow> delnum st = cmd_num lo hi \<Longrightarrow> NUL \<notin> set m \<Longrightarrow> NUL \<notin> set s \<Longrightarrow> \<not> flagabort st \<longrightarrow> messid st = m @ [NUL] \<and> sender st = s \<Longrightarrow>
      reading st ([lo, hi] @ m @ [NUL] @ s)"
| R4: "stage st = 4 \<Longrightarrow> delnum st = cmd_num lo hi \<Longrightarrow> NUL \<notin> set m \<Longrightarrow> NUL \<notin> set s \<Longrightarrow> NUL \<notin> set r \<Longrightarrow>
      \<not> flagabort st \<longrightarrow> messid st = m @ [NUL] \<and> sender st = s @ [NUL] \<and> srecip st = r \<Longrightarrow> reading st ([lo, hi] @ m @ [NUL] @ s @ [NUL] @ r)"

lemma books_cong: "slots u = slots st \<Longrightarrow> ssout u = ssout st \<Longrightarrow> books n cmds rs u = books n cmds rs st"
  by (simp add: books_def running_def)

lemma books_err:
  assumes "books n cmds rs st" "cmd_ok c" "fst c = delnum st" "answer_text (cstr t)"
  shows "books n (cmds @ [c]) (rs @ [(delnum st, cstr t)]) (spawn_err t st)"
  using assms by (auto simp: books_def running_def spawn_err_def rec_text_def cmd_ok_def split: prod.splits)

lemma books_output:
  assumes "books n cmds rs st" "k < n" "dused d = dused (slots st ! k)" "work d = work (slots st ! k)"
  shows "books n cmds rs (st\<lparr>slots := (slots st)[k := d]\<rparr>)"
  using assms by (auto simp: books_def running_def nth_list_update)

lemma books_start:
  assumes "books n cmds rs st" "k < n" "\<not> dused (slots st ! k)" "dused d" "cmd_ok (int k, m, s, r)" "work d = (m, s, r, byte_rchr (r @ [NUL]) (CHR ''@''))"
  shows "books n (cmds @ [(int k, m, s, r)]) rs (st\<lparr>slots := (slots st)[k := d]\<rparr>)"
proof -
  have r: "running (st\<lparr>slots := (slots st)[k := d]\<rparr>) x \<longleftrightarrow> x = int k \<or> running st x" for x
    using assms by (auto simp: books_def running_def nth_list_update)
  moreover have "\<not> running st (int k)" using assms(3) by (simp add: running_def)
  ultimately show ?thesis using assms unfolding books_def r by (auto simp: nth_list_update)
qed

lemma books_report:
  assumes "books n cmds rs st" "k < n" "dused (slots st ! k)" "answer_text t" "\<not> dused d"
  shows "books n cmds (rs @ [(int k, t)]) (st\<lparr>ssout := ssout st @ two_bytes (int k) @ t @ [NUL], slots := (slots st)[k := d]\<rparr>)"
proof -
  have r: "running (st\<lparr>ssout := b, slots := (slots st)[k := d]\<rparr>) x \<longleftrightarrow> x \<noteq> int k \<and> running st x" for x b
    using assms by (auto simp: books_def running_def nth_list_update)
  moreover have "running st (int k)" using assms(1,2,3) by (simp add: running_def books_def)
  ultimately show ?thesis using assms unfolding books_def r by (auto simp: nth_list_update rec_text_def)
qed

lemma err_texts: "answer_text (cstr (CHR ''Z'' # t))" "answer_text (cstr (CHR ''D'' # t))"
  by (simp_all add: answer_text_def)

lemma cstr_end: "NUL \<notin> set m \<Longrightarrow> cstr (m @ [NUL]) = m"
  by (simp add: cstr_nonul)

lemma docmd_books:
  assumes "books n cmds rs st" "cmd_ok (delnum st, m, s, r)"
    and "\<not> flagabort st \<longrightarrow> messid st = m @ [NUL] \<and> sender st = s @ [NUL] \<and> srecip st = r @ [NUL]"
  shows "\<exists>rs'. books n (cmds @ [(delnum st, m, s, r)]) rs' (docmd env st)"
proof -
  have err: "\<exists>rs'. books n (cmds @ [(delnum u, m, s, r)]) rs' (spawn_err (c # t) u)" if "books n cmds rs u" "delnum u = delnum st" "c = CHR ''Z'' \<or> c = CHR ''D''" for c t u
    using books_err [OF that(1), of "(delnum u, m, s, r)" "c # t"] err_texts assms(2) that(2,3) by (auto simp del: cstr_Cons)
  let ?k = "nat (delnum st)"
  let ?u = "st\<lparr>slots := (slots st)[?k := (slots st ! ?k)\<lparr>doutput := []\<rparr>]\<rparr>"
  have u: "books n cmds rs ?u" if "?k < n" using books_output [OF assms(1) that] by simp
  have k: "?k < n" if "\<not> delnum st < 0" "\<not> int (length (slots st)) \<le> delnum st" using that assms(1) by (auto simp: books_def)
  have e2: "\<exists>rs'. books n (cmds @ [(delnum st, m, s, r)]) rs' (spawn_err (c # t) ?u)"
    if "\<not> delnum st < 0" "\<not> int (length (slots st)) \<le> delnum st" "c = CHR ''Z'' \<or> c = CHR ''D''" for c t
    using err [OF u [OF k [OF that(1,2)]] _ that(3)] by simp
  have start: "books n (cmds @ [(delnum st, m, s, r)]) rs (st\<lparr>slots := (slots st)[?k := d]\<rparr>)"
    if "\<not> delnum st < 0" "\<not> int (length (slots st)) \<le> delnum st" "\<not> dused (slots st ! ?k)" "\<not> flagabort st" "dused d"
      "work d = (cstr (messid st), cstr (sender st), cstr (srecip st), byte_rchr (srecip st) (CHR ''@''))" for d
    using books_start [OF assms(1) k [OF that(1,2)] that(3,5), of m s r] assms(2,3) that by (auto simp: cmd_ok_def cstr_end)
  show ?thesis
    unfolding docmd_def Let_def
    using k by (simp add: err [OF assms(1)] e2) (auto intro!: exI [of _ rs] start)
qed

definition accounted :: "nat \<Rightarrow> char list \<Rightarrow> spawner \<Rightarrow> bool" where
  "accounted n ins st \<longleftrightarrow> (\<exists>cmds rest rs. ins = concat (map cmd_text cmds) @ rest \<and> reading st rest \<and> books n cmds rs st)"

lemma accountedI: "ins = concat (map cmd_text cmds) @ rest \<Longrightarrow> reading st rest \<Longrightarrow> books n cmds rs st \<Longrightarrow> accounted n ins st"
  unfolding accounted_def by blast

lemma cmd_byte_other: "ssout (cmd_byte env ch st) = ssout st" "slots (cmd_byte env ch st) = slots st" if "stage st \<noteq> 4 \<or> ch \<noteq> NUL"
  using that by (auto simp: cmd_byte_def Let_def split: prod.splits)

lemma docmd_delnum: "delnum (docmd env st) = delnum st"
  by (simp add: docmd_def spawn_err_def Let_def)

lemma cmd_byte_accounted:
  assumes "accounted n ins st"
  shows "accounted n (ins @ [ch]) (cmd_byte env ch st)"
proof -
  obtain cmds rest rs where *: "ins = concat (map cmd_text cmds) @ rest" "reading st rest" "books n cmds rs st" using assms unfolding accounted_def by blast
  have quiet: ?thesis if "stage st \<noteq> 4 \<or> ch \<noteq> NUL" "reading (cmd_byte env ch st) (rest @ [ch])"
    using accountedI [of "ins @ [ch]" cmds "rest @ [ch]"] * that books_cong [of "cmd_byte env ch st" st] cmd_byte_other [OF that(1)] by simp
  from *(2) show ?thesis
  proof cases
    case R0
    have "reading (cmd_byte env ch st) [ch]" by (rule R1) (use R0 in \<open>simp_all add: cmd_byte_def\<close>)
    then show ?thesis using R0 by (intro quiet) simp_all
  next
    case (R1 lo)
    have "reading (cmd_byte env ch st) ([lo, ch] @ [])" by (rule R2) (use R1 in \<open>simp_all add: cmd_byte_def cmd_num_def\<close>)
    then show ?thesis using R1 by (intro quiet) simp_all
  next
    case (R2 lo hi m)
    show ?thesis
    proof (cases "ch = NUL")
      case True
      have "reading (cmd_byte env ch st) ([lo, hi] @ m @ [NUL] @ [])" by (rule R3) (use R2 True in \<open>auto simp: cmd_byte_def append_to_def\<close>)
      then show ?thesis using R2 True by (intro quiet) simp_all
    next
      case False
      have "reading (cmd_byte env ch st) ([lo, hi] @ (m @ [ch]))" by (rule reading.R2) (use R2 False in \<open>auto simp: cmd_byte_def append_to_def\<close>)
      then show ?thesis using R2 False by (intro quiet) simp_all
    qed
  next
    case (R3 lo hi m s)
    show ?thesis
    proof (cases "ch = NUL")
      case True
      have "reading (cmd_byte env ch st) ([lo, hi] @ m @ [NUL] @ s @ [NUL] @ [])" by (rule R4) (use R3 True in \<open>auto simp: cmd_byte_def append_to_def\<close>)
      then show ?thesis using R3 True by (intro quiet) simp_all
    next
      case False
      have "reading (cmd_byte env ch st) ([lo, hi] @ m @ [NUL] @ (s @ [ch]))" by (rule reading.R3) (use R3 False in \<open>auto simp: cmd_byte_def append_to_def\<close>)
      then show ?thesis using R3 False by (intro quiet) simp_all
    qed
  next
    case (R4 lo hi m s r)
    show ?thesis
    proof (cases "ch = NUL")
      case False
      have "reading (cmd_byte env ch st) ([lo, hi] @ m @ [NUL] @ s @ [NUL] @ (r @ [ch]))" by (rule reading.R4) (use R4 False in \<open>auto simp: cmd_byte_def append_to_def\<close>)
      then show ?thesis using R4 False by (intro quiet) simp_all
    next
      case True
      obtain r' ab where ap: "append_to (spmem env) ch (srecip st) (flagabort st) = (r', ab)" by fastforce
      let ?u = "st\<lparr>srecip := r', flagabort := ab\<rparr>"
      have u: "books n cmds rs ?u" using *(3) books_cong [of ?u st] by simp
      have c: "cmd_ok (delnum ?u, m, s, r)" using R4 cmd_num_range [of lo hi] by (simp add: cmd_ok_def)
      have "\<not> flagabort ?u \<longrightarrow> messid ?u = m @ [NUL] \<and> sender ?u = s @ [NUL] \<and> srecip ?u = r @ [NUL]"
        using R4 True ap by (auto simp: append_to_def split: if_split_asm)
      from docmd_books [OF u c this, of env] obtain rs' where d: "books n (cmds @ [(delnum ?u, m, s, r)]) rs' (docmd env ?u)" by blast
      have b: "cmd_byte env ch st = (docmd env ?u)\<lparr>flagabort := False, stage := 0\<rparr>" using R4 True ap by (simp add: cmd_byte_def)
      have "books n (cmds @ [(delnum ?u, m, s, r)]) rs' (cmd_byte env ch st)" unfolding b using d books_cong [of "(docmd env ?u)\<lparr>flagabort := False, stage := 0\<rparr>" "docmd env ?u"] by simp
      moreover have "reading (cmd_byte env ch st) []" unfolding b by (rule R0) simp_all
      moreover have "ins @ [ch] = concat (map cmd_text (cmds @ [(delnum ?u, m, s, r)])) @ []" using *(1) R4 True by (simp add: cmd_text_def)
      ultimately show ?thesis by (intro accountedI)
    qed
  qed
qed

lemma cmd_bytes_accounted: "accounted n ins st \<Longrightarrow> accounted n (ins @ bs) (cmd_bytes env bs st)"
proof (induction bs arbitrary: ins st env)
  case (Cons b bs)
  from Cons.IH [OF cmd_byte_accounted [OF Cons.prems]] show ?case by simp
qed simp

text \<open>What is not about commands leaves the reader where it is.\<close>

lemma reading_cong:
  assumes "reading st rest" "stage u = stage st" "flagabort u = flagabort st" "delnum u = delnum st" "messid u = messid st" "sender u = sender st" "srecip u = srecip st"
  shows "reading u rest"
  using assms(1)
proof cases
  case R0
  then show ?thesis using assms reading.R0 [of u] by simp
next
  case (R1 lo)
  then show ?thesis using assms reading.R1 [of u lo] by simp
next
  case (R2 lo hi m)
  then show ?thesis using assms reading.R2 [of u lo hi m] by simp
next
  case (R3 lo hi m s)
  then show ?thesis using assms reading.R3 [of u lo hi m s] by simp
next
  case (R4 lo hi m s r)
  then show ?thesis using assms reading.R4 [of u lo hi m s r] by simp
qed

lemma ended_keeps: "dused (fold (\<lambda>(p, w). ended p w) es d) = dused d" "work (fold (\<lambda>(p, w). ended p w) es d) = work d"
proof -
  have "dused (ended p w d) = dused d" "work (ended p w d) = work d" for p w d by (simp_all add: ended_def)
  then show "dused (fold (\<lambda>(p, w). ended p w) es d) = dused d" "work (fold (\<lambda>(p, w). ended p w) es d) = work d"
    by (induction es arbitrary: d) auto
qed

lemma sigchld_accounted: "accounted n ins st \<Longrightarrow> accounted n ins (sigchld es st)"
proof -
  assume "accounted n ins st"
  then obtain cmds rest rs where *: "ins = concat (map cmd_text cmds) @ rest" "reading st rest" "books n cmds rs st" unfolding accounted_def by blast
  have "running (sigchld es st) d = running st d" for d by (auto simp: running_def sigchld_def ended_keeps)
  then have "books n cmds rs (sigchld es st)" using *(3) by (auto simp: books_def sigchld_def ended_keeps)
  moreover have "reading (sigchld es st) rest" using reading_cong [OF *(2), of "sigchld es st"] by (simp add: sigchld_def)
  ultimately show ?thesis using *(1) by (intro accountedI)
qed

text \<open>The two programs differ in what they do with the result of a child; here it matters only that they say something the manager understands.\<close>

locale reporter =
  fixes rep :: "nat \<Rightarrow> char list \<Rightarrow> char list option"
  assumes rep_answers: "rep w s = Some t \<Longrightarrow> answer_text t"
begin

lemma slot_accounted:
  assumes "accounted n ins st" "i < n" "dused (slots st ! i)" "slot_read rep tr mem i r st = Some u"
  shows "accounted n ins u"
proof -
  obtain cmds rest rs where *: "ins = concat (map cmd_text cmds) @ rest" "reading st rest" "books n cmds rs st" using assms(1) unfolding accounted_def by blast
  have rd: "reading (st\<lparr>ssout := b, slots := ds\<rparr>) rest" "reading (st\<lparr>slots := ds\<rparr>) rest" for b ds using reading_cong [OF *(2)] by simp_all
  have 1: "accounted n ins (st\<lparr>ssout := ssout st @ two_bytes (int i) @ t @ [NUL], slots := (slots st)[i := d]\<rparr>)" if "rep w s = Some t" "\<not> dused d" for w s t d
    by (rule accountedI [OF *(1) rd(1) books_report [OF *(3) assms(2,3) rep_answers [OF that(1)] that(2)]])
  have 2: "accounted n ins (st\<lparr>slots := (slots st)[i := d]\<rparr>)" if "dused d = dused (slots st ! i)" "work d = work (slots st ! i)" for d
    by (rule accountedI [OF *(1) rd(2) books_output [OF *(3) assms(2) that]])
  show ?thesis using assms(4) 1 2 assms(1,3) by (auto simp: slot_read_def Let_def split: rd.splits if_split_asm)
qed

lemma slots_accounted:
  assumes "accounted n ins st" "\<forall>i \<in> set is. i < n" "slots_read rep tr mem got is st = Some u"
  shows "accounted n ins u"
  using assms
proof (induction "is" arbitrary: st)
  case (Cons i "is")
  show ?case
  proof (cases "got i = None \<or> \<not> dused (slots st ! i)")
    case True
    then show ?thesis using Cons by (auto split: option.splits)
  next
    case False
    then obtain r v where "slot_read rep tr mem i r st = Some v" "slots_read rep tr mem got is v = Some u" using Cons.prems(3) by (auto simp: bind_eq_Some_conv)
    then show ?thesis using Cons.IH [of v] slot_accounted [OF Cons.prems(1), of i tr mem r v] Cons.prems(2) False by simp
  qed
qed simp

end

interpretation rspawn: reporter remote_report
  by unfold_locales (rule remote_report_answers)

interpretation lspawn: reporter local_report
  by unfold_locales (rule local_report_answers)

text \<open>What a round reads from the manager.\<close>

definition taken :: "spround \<Rightarrow> spawner \<Rightarrow> char list" where
  "taken w st = (if selected w \<and> flagreading st then (case commands w of Some (Got bs) \<Rightarrow> bs | _ \<Rightarrow> []) else [])"

inductive spawn_reach :: "(nat \<Rightarrow> char list \<Rightarrow> char list option) \<Rightarrow> nat \<Rightarrow> nat \<Rightarrow> char list \<Rightarrow> spawner \<Rightarrow> bool" for rep truncreport n where
  Boot: "spawn_reach rep truncreport n [] (spawn_init n)"
| Turn: "spawn_reach rep truncreport n ins st \<Longrightarrow> spawn_round rep truncreport w st = Some st' \<Longrightarrow> spawn_reach rep truncreport n (ins @ taken w st) st'"

lemma init_accounted: "accounted n [] (spawn_init n)"
proof (rule accountedI)
  show "reading (spawn_init n) []" by (rule R0) (simp_all add: spawn_init_def)
  show "books n [] [] (spawn_init n)" by (auto simp: books_def running_def spawn_init_def)
qed simp

context reporter begin

lemma round_accounted:
  assumes "accounted n ins st" "spawn_round rep tr w st = Some u"
  shows "accounted n (ins @ taken w st) u"
proof -
  let ?st = "sigchld (exits w) st"
  have a: "accounted n ins ?st" by (rule sigchld_accounted [OF assms(1)])
  let ?v = "if flagreading ?st then (case commands w of Some r \<Rightarrow> getcmd (cmd_env w) r ?st | None \<Rightarrow> ?st) else ?st"
  have f: "flagreading ?st = flagreading st" by (simp add: sigchld_def)
  have stop: "accounted n ins (?st\<lparr>flagreading := False\<rparr>)"
  proof -
    obtain cmds rest rs where *: "ins = concat (map cmd_text cmds) @ rest" "reading ?st rest" "books n cmds rs ?st" using a unfolding accounted_def by blast
    show ?thesis using accountedI [OF *(1) reading_cong [OF *(2)], of "?st\<lparr>flagreading := False\<rparr>" n rs] books_cong [of "?st\<lparr>flagreading := False\<rparr>" ?st] *(3) by simp
  qed
  have v: "accounted n (ins @ taken w st) ?v" if "selected w"
    using a stop cmd_bytes_accounted [OF a] that by (auto simp: f taken_def getcmd_def split: option.split rd.split)
  show ?thesis
  proof (cases "selected w")
    case False
    then show ?thesis using assms(2) a by (simp add: spawn_round_def taken_def)
  next
    case True
    then have s: "slots_read rep tr (out_mem w) (outputs w) [0..<length (slots ?v)] ?v = Some u" using assms(2) by (simp add: spawn_round_def Let_def)
    have "length (slots ?v) = n" using v [OF True] by (auto simp: accounted_def books_def)
    then show ?thesis using slots_accounted [OF v [OF True] _ s] by simp
  qed
qed

lemma reach_accounted: "spawn_reach rep tr n ins st \<Longrightarrow> accounted n ins st"
  by (induction rule: spawn_reach.induct) (auto intro: init_accounted round_accounted)

end

section \<open>What the manager asks is done\<close>

lemma cmd_byte_field:
  assumes "spmem env = (\<lambda>_. True)" "\<not> flagabort st"
  shows "stage st = 2 \<Longrightarrow> cmd_byte env ch st = (if ch \<noteq> NUL then st\<lparr>messid := messid st @ [ch]\<rparr> else st\<lparr>messid := messid st @ [ch], sender := [], stage := 3\<rparr>)"
    and "stage st = 3 \<Longrightarrow> cmd_byte env ch st = (if ch \<noteq> NUL then st\<lparr>sender := sender st @ [ch]\<rparr> else st\<lparr>sender := sender st @ [ch], srecip := [], stage := 4\<rparr>)"
    and "stage st = 4 \<Longrightarrow> cmd_byte env ch st =
      (if ch \<noteq> NUL then st\<lparr>srecip := srecip st @ [ch]\<rparr> else (docmd env (st\<lparr>srecip := srecip st @ [ch]\<rparr>))\<lparr>flagabort := False, stage := 0\<rparr>)"
  using assms by (cases st; simp add: cmd_byte_def append_to_def)+

lemma sender_reads:
  assumes "\<forall>k. spmem (env k) = (\<lambda>_. True)" "NUL \<notin> set m"
  shows "stage st = 2 \<Longrightarrow> \<not> flagabort st \<Longrightarrow> cmd_bytes env (m @ [NUL] @ bs) st = cmd_bytes (\<lambda>n. env (n + (length m + 1))) bs (st\<lparr>messid := messid st @ m @ [NUL], sender := [], stage := 3\<rparr>)"
    and "stage st = 3 \<Longrightarrow> \<not> flagabort st \<Longrightarrow> cmd_bytes env (m @ [NUL] @ bs) st = cmd_bytes (\<lambda>n. env (n + (length m + 1))) bs (st\<lparr>sender := sender st @ m @ [NUL], srecip := [], stage := 4\<rparr>)"
    and "stage st = 4 \<Longrightarrow> \<not> flagabort st \<Longrightarrow>
      cmd_bytes env (m @ [NUL]) st = (docmd (env (length m)) (st\<lparr>srecip := srecip st @ m @ [NUL]\<rparr>))\<lparr>flagabort := False, stage := 0\<rparr>"
  using assms
proof (induction m arbitrary: env st)
  case Nil
  { case 1 then show ?case by (simp add: cmd_byte_field)
  next case 2 then show ?case by (simp add: cmd_byte_field)
  next case 3 then show ?case by (simp add: cmd_byte_field) }
next
  case (Cons c m)
  { case 1
    then show ?case using Cons.IH(1) [of "st\<lparr>messid := messid st @ [c]\<rparr>" "\<lambda>n. env (Suc n)"] by (auto simp: cmd_byte_field)
  next case 2
    then show ?case using Cons.IH(2) [of "st\<lparr>sender := sender st @ [c]\<rparr>" "\<lambda>n. env (Suc n)"] by (auto simp: cmd_byte_field)
  next case 3
    then show ?case using Cons.IH(3) [of "st\<lparr>srecip := srecip st @ [c]\<rparr>" "\<lambda>n. env (Suc n)"] by (auto simp: cmd_byte_field) }
qed

lemma command_reads:
  assumes "\<forall>k. spmem (env k) = (\<lambda>_. True)" "NUL \<notin> set m" "NUL \<notin> set s" "NUL \<notin> set r" "stage st = 0" "\<not> flagabort st"
  shows "\<exists>k. cmd_bytes env ([lo, hi] @ m @ [NUL] @ s @ [NUL] @ r @ [NUL]) st =
    (docmd (env k) (st\<lparr>delnum := cmd_num lo hi, messid := m @ [NUL], sender := s @ [NUL], srecip := r @ [NUL], stage := 4\<rparr>))\<lparr>flagabort := False, stage := 0\<rparr>"
proof -
  let ?e2 = "\<lambda>n. env (Suc (Suc n))"
  let ?st2 = "st\<lparr>delnum := cmd_num lo hi, messid := [], stage := 2\<rparr>"
  have "cmd_bytes env ([lo, hi] @ m @ [NUL] @ s @ [NUL] @ r @ [NUL]) st = cmd_bytes ?e2 (m @ [NUL] @ s @ [NUL] @ r @ [NUL]) ?st2"
    using assms(5) by (simp add: cmd_byte_def cmd_num_def)
  also have "\<dots> = cmd_bytes (\<lambda>n. ?e2 (n + (length m + 1))) (s @ [NUL] @ r @ [NUL]) (?st2\<lparr>messid := [] @ m @ [NUL], sender := [], stage := 3\<rparr>)"
    using sender_reads(1) [of ?e2 m ?st2 "s @ [NUL] @ r @ [NUL]"] assms by simp
  also have "\<dots> = cmd_bytes (\<lambda>n. ?e2 (n + (length s + 1) + (length m + 1))) (r @ [NUL]) (?st2\<lparr>messid := m @ [NUL], sender := s @ [NUL], srecip := [], stage := 4\<rparr>)"
    using sender_reads(2) [of "\<lambda>n. ?e2 (n + (length m + 1))" s "?st2\<lparr>messid := m @ [NUL], sender := [], stage := 3\<rparr>" "r @ [NUL]"] assms by simp
  finally show ?thesis
    using sender_reads(3) [of "\<lambda>n. ?e2 (n + (length s + 1) + (length m + 1))" r "?st2\<lparr>messid := m @ [NUL], sender := s @ [NUL], srecip := [], stage := 4\<rparr>"] assms by (cases st) auto
qed

lemma split_name:
  shows "\<exists>m. fname_split i = m @ [NUL] \<and> NUL \<notin> set m \<and> messid_ok (m @ [NUL]) \<and> length (m @ [NUL]) \<le> 100 \<and> m \<noteq> []"
proof -
  let ?a = "fmt_ulong (unat i mod 23)" and ?b = "fmt_ulong (unat i)"
  have f: "fname_split i = (?a @ ''/'' @ ?b) @ [NUL]" by (simp add: fname_split_def fmtqfn_def fmt_str_cstr auto_split_def)
  have u: "unat i < 10 ^ 10" using unsigned_less [of i, where 'a = nat] by simp
  have len: "length ?a \<le> 2" "length ?b \<le> 10" using fmt_ulong_length [of "unat i mod 23" 2] fmt_ulong_length [OF u] by simp_all
  have ch: "c = NUL \<or> c = CHR ''/'' \<or> (uch c + 208) mod 256 \<le> 9" if "c \<in> set ((?a @ ''/'' @ ?b) @ [NUL])" for c
  proof -
    have "(uch d + 208) mod 256 \<le> 9" if "48 \<le> uch d" "uch d \<le> 57" for d
    proof -
      have "uch d + 208 = uch d - 48 + 256" using that by simp
      moreover have "uch d - 48 < 256" using that by linarith
      ultimately have "(uch d + 208) mod 256 = uch d - 48" by (simp only: mod_add_self2 mod_less)
      then show ?thesis using that by linarith
    qed
    then show ?thesis using that fmt_ulong_char by auto
  qed
  have first: "hd ?a \<in> set ?a" by simp
  have "messid_ok ((?a @ ''/'' @ ?b) @ [NUL])"
    unfolding messid_ok_def list_all_iff
  proof (intro ballI impI)
    fix k assume k: "k \<in> set [0..<length ((?a @ ''/'' @ ?b) @ [NUL])]" "((?a @ ''/'' @ ?b) @ [NUL]) ! k \<noteq> NUL" "k = 0 \<or> ((?a @ ''/'' @ ?b) @ [NUL]) ! k \<noteq> CHR ''/''"
    then have "((?a @ ''/'' @ ?b) @ [NUL]) ! k \<in> set ((?a @ ''/'' @ ?b) @ [NUL])" by (intro nth_mem) (use k(1) in \<open>simp only: set_upt atLeastLessThan_iff\<close>)
    moreover have "((?a @ ''/'' @ ?b) @ [NUL]) ! k \<noteq> CHR ''/''"
    proof (cases "k = 0")
      case True
      have "((?a @ ''/'' @ ?b) @ [NUL]) ! 0 = hd ?a" by (cases ?a) simp_all
      then show ?thesis using True first fmt_ulong_not_special(3) by metis
    qed (use k(3) in simp)
    ultimately show "(uch (((?a @ ''/'' @ ?b) @ [NUL]) ! k) + 208) mod 256 \<le> 9" using ch k(2) by blast
  qed
  then show ?thesis using f len by (intro exI [of _ "?a @ ''/'' @ ?b"]) auto
qed

lemma senderadd_nonul: "NUL \<notin> set x \<Longrightarrow> NUL \<notin> set r \<Longrightarrow> NUL \<notin> set (senderadd x r)"
  by (auto simp: senderadd_def Let_def dest: in_set_takeD in_set_dropD)

lemma char_of_int: "char_of k = (char_of (int k) :: char)"
  by (simp add: char_of_def bit_of_nat_iff)

lemma docmd_starts:
  assumes "\<not> flagabort st" "delnum st = int n" "n < length (slots st)" "\<not> dused (slots st ! n)" "messid_ok (messid st)" "length (messid st) \<le> 100" "messid st ! 0 \<noteq> NUL"
    and "spmem env = (\<lambda>_. True)" "spfails env = (\<lambda>_. False)" "byte_rchr (srecip st) (CHR ''@'') < length (srecip st)"
  shows "docmd env st = st\<lparr>slots := (slots st)[n := (slots st ! n)\<lparr>doutput := [], fdout := True, pid := child env, dused := True,
    work := (cstr (messid st), cstr (sender st), cstr (srecip st), byte_rchr (srecip st) (CHR ''@''))\<rparr>]\<rparr>"
  using assms by (simp add: docmd_def Let_def)

lemma command_starts_core:
  assumes "reading st []" "n < length (slots st)" "n < 32768" "\<not> dused (slots st ! n)" "spawn_buf s c = []"
    and "NUL \<notin> set sendr" "NUL \<notin> set box" "NUL \<notin> set host" "CHR ''@'' \<notin> set host" "\<forall>k. spmem (env k) = (\<lambda>_. True) \<and> spfails (env k) = (\<lambda>_. False)"
    and st_def: "st' = cmd_bytes env (spawn_buf (Manager.comm_write c n i sendr (box @ ''@'' @ host) s) c) st"
  shows "running st' (int n) \<and> work (slots st' ! n) = (cstr (fname_split i), senderadd sendr (box @ ''@'' @ host), box @ ''@'' @ host, length box) \<and>
    remote_args (work (slots st' ! n)) = [''qmail-remote'', host, senderadd sendr (box @ ''@'' @ host), box @ ''@'' @ host] \<and> ssout st' = ssout st"
proof -
  let ?r = "box @ ''@'' @ host" and ?k = "int n"
  obtain m where m: "fname_split i = m @ [NUL]" "NUL \<notin> set m" "messid_ok (m @ [NUL])" "length (m @ [NUL]) \<le> 100" "m \<noteq> []" using split_name by blast
  have s: "NUL \<notin> set (senderadd sendr ?r)" using senderadd_nonul [of sendr ?r] assms(6-8) by simp
  have r: "NUL \<notin> set ?r" using assms(7,8) by simp
  obtain lo hi where num: "two_bytes ?k = [lo, hi]" "cmd_num lo hi = ?k"
  proof -
    have "two_bytes ?k = [char_of (?k mod 256), char_of (?k div 256 mod 256)]" by (simp add: two_bytes_def)
    then show ?thesis using that report_num_two_bytes [of ?k "[]"] assms(3) by (simp add: report_num_def cmd_num_def)
  qed
  have "spawn_buf (Manager.comm_write c n i sendr ?r s) c = [lo, hi] @ m @ [NUL] @ senderadd sendr ?r @ [NUL] @ ?r @ [NUL]"
  proof -
    have "[char_of (n mod 256), char_of (n div 256 mod 256)] = two_bytes ?k" unfolding two_bytes_def char_of_int zmod_int zdiv_int by simp
    then have b: "[char_of (n mod 256), char_of (n div 256 mod 256)] = [lo, hi]" unfolding num(1) .
    have c: "cstr (m @ [NUL]) = m" "cstr ?r = ?r" using cstr_end [OF m(2)] cstr_nonul [OF r] by simp_all
    have "spawn_buf (Manager.comm_write c n i sendr ?r s) c = [char_of (n mod 256), char_of (n div 256 mod 256)] @ cstr (fname_split i) @ [NUL] @ senderadd sendr ?r @ [NUL] @ cstr ?r @ [NUL]"
      unfolding Manager.comm_write_def using assms(5) by simp
    then show ?thesis unfolding b c m(1) .
  qed
  moreover have st0: "stage st = 0" "\<not> flagabort st" using assms(1) by (auto elim: reading.cases)
  moreover have mem: "\<forall>k. spmem (env k) = (\<lambda>_. True)" using assms(10) by blast
  ultimately obtain k where st': "st' = (docmd (env k) (st\<lparr>delnum := ?k, messid := m @ [NUL], sender := senderadd sendr ?r @ [NUL], srecip := ?r @ [NUL], stage := 4\<rparr>))\<lparr>flagabort := False, stage := 0\<rparr>"
    using command_reads [OF mem m(2) s r st0, of lo hi] unfolding st_def num(2) by auto
  have at: "byte_rchr (?r @ [NUL]) (CHR ''@'') = length box" using byte_rchr_append [of "CHR ''@''" "host @ [NUL]" box] assms(9) by simp
  have m0: "(m @ [NUL]) ! 0 \<noteq> NUL" using m(2,5) by (cases m) auto
  have e: "spmem (env k) = (\<lambda>_. True)" "spfails (env k) = (\<lambda>_. False)" using assms(10) by simp_all
  let ?u = "st\<lparr>delnum := ?k, messid := m @ [NUL], sender := senderadd sendr ?r @ [NUL], srecip := ?r @ [NUL], stage := 4\<rparr>"
  have "docmd (env k) ?u = ?u\<lparr>slots := (slots ?u)[n := (slots ?u ! n)\<lparr>doutput := [], fdout := True, pid := child (env k), dused := True,
      work := (cstr (messid ?u), cstr (sender ?u), cstr (srecip ?u), byte_rchr (srecip ?u) (CHR ''@''))\<rparr>]\<rparr>"
    by (rule docmd_starts) (use m0 st0(2) e assms(2,4) m(3,4) in \<open>simp_all add: at [simplified]\<close>)
  moreover have "cstr (srecip ?u) = ?r" "cstr (sender ?u) = senderadd sendr ?r" "byte_rchr (srecip ?u) (CHR ''@'') = length box" "cstr (messid ?u) = cstr (fname_split i)"
    using cstr_end [OF r] cstr_end [OF s] at m(1) by simp_all
  ultimately have "st' = ?u\<lparr>slots := (slots st)[n := (slots st ! n)\<lparr>doutput := [], fdout := True, pid := child (env k), dused := True,
      work := (cstr (fname_split i), senderadd sendr ?r, ?r, length box)\<rparr>], flagabort := False, stage := 0\<rparr>"
    unfolding st' by simp
  then show ?thesis using assms(2) by (simp add: running_def remote_args_def)
qed

section \<open>Properties\<close>

text \<open>A command that has come in whole has three NULs behind its number. There is only one way to split what has come in into commands.\<close>

definition unfinished :: "char list \<Rightarrow> bool" where
  "unfinished s \<longleftrightarrow> length (filter (\<lambda>c. c = NUL) (drop 2 s)) < 3"

lemma no_nuls: "NUL \<notin> set s \<Longrightarrow> filter (\<lambda>c. c = NUL) s = []"
  by (auto simp: filter_empty_conv)

lemma reading_unfinished: "reading st rest \<Longrightarrow> unfinished rest"
  by (cases rule: reading.cases) (auto simp: unfinished_def no_nuls)

lemma cmd_text_finished: "\<not> unfinished (cmd_text c @ s)"
proof -
  obtain d m x r where "c = (d, m, x, r)" by (cases c) auto
  then show ?thesis by (simp add: unfinished_def cmd_text_def)
qed

lemma cmd_text_inject:
  assumes "cmd_ok c" "cmd_ok c'" "cmd_text c @ s = cmd_text c' @ s'"
  shows "c = c' \<and> s = s'"
proof -
  obtain d m x r where c: "c = (d, m, x, r)" by (cases c) auto
  obtain d' m' x' r' where c': "c' = (d', m', x', r')" by (cases c') auto
  have e: "two_bytes d @ m @ NUL # x @ NUL # r @ NUL # s = two_bytes d' @ m' @ NUL # x' @ NUL # r' @ NUL # s'"
    using assms(3) by (simp add: c c' cmd_text_def)
  have two: "take 2 (two_bytes x @ y) = two_bytes x" "drop 2 (two_bytes x @ y) = y" for x y by simp_all
  have eq: "two_bytes d = two_bytes d'" using arg_cong [OF e, of "take 2"] by (simp only: two)
  have "- 32768 \<le> d" "d < 32768" "- 32768 \<le> d'" "d' < 32768" using assms(1,2) unfolding c c' cmd_ok_def by simp_all
  note r = report_num_two_bytes [OF this(1,2), of "[]"] report_num_two_bytes [OF this(3,4), of "[]"]
  have "d = d'" by (rule trans [OF r(1) [symmetric]], subst eq, rule r(2))
  have *: "a = b \<and> y = z" if "a @ NUL # y = b @ NUL # z" "NUL \<notin> set a" "NUL \<notin> set b" for a b y z
  proof -
    have "a = b" using arg_cong [OF that(1), of "takeWhile (\<lambda>x. x \<noteq> NUL)"] line_split(1) [OF that(2), of y] line_split(1) [OF that(3), of z] by (simp only:)
    then show ?thesis using that(1) by simp
  qed
  have n: "NUL \<notin> set m" "NUL \<notin> set m'" "NUL \<notin> set x" "NUL \<notin> set x'" "NUL \<notin> set r" "NUL \<notin> set r'" using assms(1,2) by (simp_all add: c c' cmd_ok_def)
  have e1: "m @ NUL # x @ NUL # r @ NUL # s = m' @ NUL # x' @ NUL # r' @ NUL # s'" using arg_cong [OF e, of "drop 2"] by (simp only: two)
  have e2: "m = m'" "x @ NUL # r @ NUL # s = x' @ NUL # r' @ NUL # s'" using * [OF e1 n(1,2)] by simp_all
  have e3: "x = x'" "r @ NUL # s = r' @ NUL # s'" using * [OF e2(2) n(3,4)] by simp_all
  show ?thesis using * [OF e3(2) n(5,6)] e2(1) e3(1) \<open>d = d'\<close> by (simp add: c c')
qed

lemma split_unique:
  "list_all cmd_ok cs \<Longrightarrow> list_all cmd_ok cs' \<Longrightarrow> unfinished r \<Longrightarrow> unfinished r' \<Longrightarrow>
     concat (map cmd_text cs) @ r = concat (map cmd_text cs') @ r' \<Longrightarrow> cs = cs' \<and> r = r'"
proof (induction cs arbitrary: cs')
  case Nil
  then show ?case using cmd_text_finished by (cases cs') auto
next
  case (Cons c cs)
  then obtain c' ds where cs': "cs' = c' # ds" using cmd_text_finished [of c "concat (map cmd_text cs) @ r"] by (cases cs') auto
  have "c = c' \<and> concat (map cmd_text cs) @ r = concat (map cmd_text ds) @ r'"
    using Cons.prems(1,2,5) by (intro cmd_text_inject) (simp_all add: cs')
  then show ?case using Cons.IH [of ds] Cons.prems(1-4) by (simp add: cs')
qed

text \<open>C10: whatever comes from the manager, whatever fails, and whatever the deliveries do: what the program has written is its limit and then records that the
  manager reads, each with a letter K, Z or D; and every command that has come in whole has exactly one record with its number, unless its delivery is under
  way. No string of a command has a NUL in it, and what is left is a command whose end has not come, so that there is only one way to split what has come in
  (\<open>split_unique\<close>).\<close>

theorem each_command_answered:
  assumes "spawn_reach rep truncreport n ins st" "rep = remote_report \<or> rep = local_report"
  shows "\<exists>cmds rest rs. ins = concat (map cmd_text cmds) @ rest \<and> list_all cmd_ok cmds \<and> reading st rest \<and> unfinished rest \<and>
    ssout st = two_bytes (int n) @ concat (map rec_text rs) \<and>
    list_all (\<lambda>(d, t). - 32768 \<le> d \<and> d < max 32768 (int n) \<and> NUL \<notin> set t \<and> t \<noteq> [] \<and> hd t \<in> {CHR ''K'', CHR ''Z'', CHR ''D''}) rs \<and>
    (\<forall>d. count_list (map fst cmds) d = count_list (map fst rs) d + (if running st d then 1 else 0))"
proof -
  have "accounted n ins st" using assms rspawn.reach_accounted lspawn.reach_accounted by blast
  then obtain cmds rest rs where *: "ins = concat (map cmd_text cmds) @ rest" "reading st rest" "books n cmds rs st" unfolding accounted_def by blast
  have "list_all (\<lambda>(d, t). - 32768 \<le> d \<and> d < max 32768 (int n) \<and> NUL \<notin> set t \<and> t \<noteq> [] \<and> hd t \<in> {CHR ''K'', CHR ''Z'', CHR ''D''}) rs"
    using *(3) unfolding books_def answer_text_def by (auto elim!: list.pred_mono_strong)
  moreover have "unfinished rest" using *(2) by (rule reading_unfinished)
  ultimately show ?thesis using * unfolding books_def by blast
qed

text \<open>The command \<open>1\<close>, \<open>a\<close>, \<open>b\<close> for delivery 0: an address without a host.\<close>

lemma each_command_answered_witness:
  "\<exists>st cmds rest rs. spawn_reach remote_report 0 1 ([NUL, NUL] @ ''1'' @ [NUL] @ ''a'' @ [NUL] @ ''b'' @ [NUL]) st \<and>
    [NUL, NUL] @ ''1'' @ [NUL] @ ''a'' @ [NUL] @ ''b'' @ [NUL] = concat (map cmd_text cmds) @ rest \<and> list_all cmd_ok cmds \<and> unfinished rest \<and> reading st rest \<and> length (ssout st) = 54 \<and> ssout st = two_bytes (int 1) @ concat (map rec_text rs) \<and>
    (\<forall>d. count_list (map fst cmds) d = count_list (map fst rs) d + (if running st d then 1 else 0))"
proof -
  let ?bs = "[NUL, NUL] @ ''1'' @ [NUL] @ ''a'' @ [NUL] @ ''b'' @ [NUL]"
  let ?w = "\<lparr>exits = [], selected = True, commands = Some (Got ?bs), cmd_env = (\<lambda>_. \<lparr>spfails = (\<lambda>_. False), spmem = (\<lambda>_. True), child = 5\<rparr>),
    outputs = (\<lambda>_. None), out_mem = (\<lambda>_. True)\<rparr>"
  let ?st = "getcmd (cmd_env ?w) (Got ?bs) (spawn_init 1)"
  have idle: "slots_read rep tr mem (\<lambda>_. None) is u = Some u" for rep tr mem "is" u by (induction "is") simp_all
  have none: "sigchld [] u = u" for u by (cases u) (simp add: sigchld_def)
  have "spawn_round remote_report 0 ?w (spawn_init 1) = Some ?st"
    unfolding spawn_round_def spround.simps none idle Let_def by (simp add: spawn_init_def)
  from spawn_reach.Turn [OF spawn_reach.Boot this] have r: "spawn_reach remote_report 0 1 ?bs ?st" by (simp add: taken_def spawn_init_def)
  let ?e = "\<lparr>spfails = (\<lambda>_. False), spmem = (\<lambda>_. True), child = 5\<rparr> :: spenv"
  have "?st = (docmd ?e ((spawn_init 1)\<lparr>delnum := cmd_num NUL NUL, messid := ''1'' @ [NUL], sender := ''a'' @ [NUL], srecip := ''b'' @ [NUL], stage := 4\<rparr>))\<lparr>flagabort := False, stage := 0\<rparr>"
    using command_reads [of "\<lambda>_. ?e" "''1''" "''a''" "''b''" "spawn_init 1" NUL NUL] by (simp add: getcmd_def spawn_init_def)
  then have "ssout ?st = two_bytes 1 @ two_bytes 0 @ ''DSorry, address must include host name. (#5.1.3)'' @ [LF, NUL]"
    by (simp add: docmd_def spawn_init_def cmd_num_def sch_def messid_ok_def spawn_err_def byte_rchr_Cons)
  then have "length (ssout ?st) = 54" by simp
  then obtain st where st: "spawn_reach remote_report 0 1 ?bs st" "length (ssout st) = 54" using r by blast
  from each_command_answered [OF st(1) disjI1 [OF refl]] st show ?thesis by blast
qed

text \<open>C15: what the manager writes to start a delivery starts exactly this delivery: message, sender with the recipient put in, recipient, and the host after the last at
  sign.\<close>

theorem command_starts:
  assumes "reading st []" "n < length (slots st)" "n < 32768" "\<not> dused (slots st ! n)" "spawn_buf s c = []"
    and "NUL \<notin> set sendr" "NUL \<notin> set box" "NUL \<notin> set host" "CHR ''@'' \<notin> set host" "\<forall>k. spmem (env k) = (\<lambda>_. True) \<and> spfails (env k) = (\<lambda>_. False)"
  shows "let st' = cmd_bytes env (spawn_buf (Manager.comm_write c n i sendr (box @ ''@'' @ host) s) c) st in
    running st' (int n) \<and> work (slots st' ! n) = (cstr (fname_split i), senderadd sendr (box @ ''@'' @ host), box @ ''@'' @ host, length box) \<and>
    remote_args (work (slots st' ! n)) = [''qmail-remote'', host, senderadd sendr (box @ ''@'' @ host), box @ ''@'' @ host] \<and> ssout st' = ssout st"
  using command_starts_core [OF assms refl, of i] unfolding Let_def .

lemma command_starts_witness:
  "\<forall>s. let st' = cmd_bytes (\<lambda>_. \<lparr>spfails = (\<lambda>_. False), spmem = (\<lambda>_. True), child = 5\<rparr>)
      (spawn_buf (Manager.comm_write Remote 0 1 ''a'' (''b'' @ ''@'' @ ''h'') (s\<lparr>spawn_buf := (\<lambda>_. [])\<rparr>)) Remote) (spawn_init 1) in
    running st' 0 \<and> remote_args (work (slots st' ! 0)) = [''qmail-remote'', ''h'', ''a'', ''b@h'']"
proof
  fix s :: send
  have "reading (spawn_init 1) []" by (rule R0) (simp_all add: spawn_init_def)
  moreover have "0 < length (slots (spawn_init 1))" "\<not> dused (slots (spawn_init 1) ! 0)" by (simp_all add: spawn_init_def)
  moreover have "senderadd ''a'' ''b@h'' = ''a''" by (simp add: senderadd_def Let_def)
  ultimately show "let st' = cmd_bytes (\<lambda>_. \<lparr>spfails = (\<lambda>_. False), spmem = (\<lambda>_. True), child = 5\<rparr>)
      (spawn_buf (Manager.comm_write Remote 0 1 ''a'' (''b'' @ ''@'' @ ''h'') (s\<lparr>spawn_buf := (\<lambda>_. [])\<rparr>)) Remote) (spawn_init 1) in
    running st' 0 \<and> remote_args (work (slots st' ! 0)) = [''qmail-remote'', ''h'', ''a'', ''b@h'']"
    using command_starts [of "spawn_init 1" 0 "s\<lparr>spawn_buf := (\<lambda>_. [])\<rparr>" Remote "''a''" "''b''" "''h''" "\<lambda>_. \<lparr>spfails = (\<lambda>_. False), spmem = (\<lambda>_. True), child = 5\<rparr>" 1]
    by (simp add: Let_def remote_args_def)
qed

end
