(* ===== verification/Chain.thy ===== *)
theory Chain
  imports Spawn Endtoend
begin

text \<open>
  A remote delivery from end to end: \<open>qmail-remote\<close> reports to \<open>qmail-rspawn\<close>, which reports to \<open>qmail-send\<close>. What the manager takes for a success means that
  an exchanger has taken the message, and that a server stores it as it was.
\<close>

section \<open>The report of \<open>qmail-rspawn\<close>\<close>

lemma rresult_skip: "\<forall>k \<in> set ks. s ! k \<noteq> NUL \<Longrightarrow> rresult s j (ks @ rest) = rresult s j rest"
  by (induction ks) simp_all

lemma rresult_item:
  assumes "NUL \<notin> set x" "x \<noteq> []"
  shows "rresult (p @ x @ NUL # y) (length p) [length p..<length (p @ x @ NUL # y)] =
    (if hd x = CHR ''K'' then 1 else if hd x = CHR ''Z'' then 0 else if hd x = CHR ''D'' then - 1
     else rresult (p @ x @ NUL # y) (length (p @ x @ [NUL])) [length (p @ x @ [NUL])..<length (p @ x @ NUL # y)])"
proof -
  let ?s = "p @ x @ NUL # y" and ?i = "length p" and ?m = "length (p @ x)"
  have u: "[?i..<length ?s] = [?i..<?m] @ ?m # [Suc ?m..<length ?s]"

  proof -
    have "length ?s = ?m + Suc (length y)" "?i \<le> ?m" "?m < ?m + Suc (length y)" by simp_all
    then show ?thesis using upt_add_eq_append [of ?i ?m "Suc (length y)"] upt_conv_Cons [of ?m "?m + Suc (length y)"] by (simp only:)
  qed
  have "?s ! k \<noteq> NUL" if "k \<in> set [?i..<?m]" for k
  proof -
    have "?s ! k = x ! (k - ?i)" "k - ?i < length x" using that by (auto simp: nth_append)
    then show ?thesis using assms(1) by (metis nth_mem)
  qed
  then have "rresult ?s ?i [?i..<length ?s] = rresult ?s ?i (?m # [Suc ?m..<length ?s])" unfolding u by (intro rresult_skip) blast
  moreover have "?s ! ?m = NUL" by (simp add: nth_append)
  moreover have "?s ! ?i = hd x" using assms(2) by (simp add: nth_append hd_conv_nth)
  ultimately show ?thesis by simp
qed

lemma rresult_success:
  assumes "list_all (\<lambda>i. NUL \<notin> set i \<and> i \<noteq> []) is" "rresult (p @ items is) (length p) [length p..<length (p @ items is)] = 1"
  shows "\<exists>i \<in> set is. hd i = CHR ''K''"
  using assms
proof (induction "is" arbitrary: p)
  case (Cons x "is")
  have x: "NUL \<notin> set x" "x \<noteq> []" using Cons.prems(1) by simp_all
  have "(p @ x @ [NUL]) @ items is = p @ items (x # is)" by simp
  then show ?case using Cons.IH [of "p @ x @ [NUL]"] Cons.prems rresult_item [OF x, of p "items is"] by (auto split: if_split_asm)
qed simp

lemma remote_success:
  assumes "remote_report w (items is) = Some t" "hd t = CHR ''K''" "list_all (\<lambda>i. NUL \<notin> set i \<and> i \<noteq> []) is"
  shows "\<exists>i \<in> set is. hd i = CHR ''K''"
proof -
  have "rresult (items is) 0 [0..<length (items is)] = 1" using assms(1,2)
    by (auto simp: remote_report_def Let_def split: if_split_asm)
  then show ?thesis using rresult_success [OF assms(3), of "[]"] by simp
qed

text \<open>What the manager takes for a success is a K of \<open>qmail-remote\<close>, which is for a dialogue with an exchanger.\<close>

lemma success_told:
  assumes "served env conn ahead fin" "remote_report w (report fin) = Some t" "hd t = CHR ''K''"
  obtains a k server left s authd u v mail ts rs where "conn k = Server server" "reply s = left @ server" "(\<forall>k. ahead k = 0) \<longrightarrow> left = []"
    "introduced (env a) s authd u" "smtp_reply mail" "reply_code mail < 400" "list_all2 answers ts rs" "reply u = mail @ concat ts @ reply v"
    "length rs = length (reciplist (env a))" "\<exists>i \<in> set rs. hd i = CHR ''r''"
    "sent v = sent u @ mail_cmd (env a) authd @ rcpt_cmds (reciplist (env a))" "accepted (env a) v fin"
proof -
  have K: "\<exists>i \<in> set is. hd i = CHR ''K''" if "report fin = items is" "list_all (\<lambda>i. NUL \<notin> set i \<and> i \<noteq> []) is" for "is"
    using remote_success [OF assms(2) [unfolded that(1)] assms(3) that(2)] .
  have "\<not> bad_exit [] fin"
  proof
    assume "bad_exit [] fin"
    then obtain item where "report fin = items [item]" "fails_with item" unfolding bad_exit_def by auto
    then show False using K [of "[item]"] by (auto simp: fails_with_def)
  qed
  then obtain a k server left and s :: client where s: "conn k = Server server" "reply s = left @ server" "(\<forall>k. ahead k = 0) \<longrightarrow> left = []" "told (env a) s fin"
    using assms(1) unfolding served_def by blast
  obtain rs final where *: "report fin = items (rs @ [final])" "list_all rcpt_item rs"
    "fails_with final \<and> rs = [] \<or>
      (\<exists>authd (u :: client) (v :: client) mail ts. introduced (env a) s authd u \<and> smtp_reply mail \<and> reply_code mail < 400 \<and> list_all2 answers ts rs \<and>
         reply u = mail @ concat ts @ reply v \<and>
         (fails_with final \<or>
          NUL \<notin> set final \<and> (\<exists>t. final = ''K'' @ t) \<and> length rs = length (reciplist (env a)) \<and> (\<exists>i \<in> set rs. hd i = CHR ''r'') \<and>
          sent v = sent u @ mail_cmd (env a) authd @ rcpt_cmds (reciplist (env a)) \<and> accepted (env a) v fin))" using s(4) unfolding told_def by blast
  have "list_all (\<lambda>i. NUL \<notin> set i \<and> i \<noteq> []) (rs @ [final])" using *(2,3) by (auto simp: list_all_iff rcpt_item_def fails_with_def)
  from K [OF *(1) this] have "\<not> fails_with final" using *(2) by (auto simp: list_all_iff rcpt_item_def fails_with_def)
  then show thesis using *(3) s(1-3) that by blast
qed

section \<open>What is accepted is stored\<close>

lemma accepted_stored:
  assumes "accepted env v fin"
  obtains body goahead verdict where "sent fin = sent v @ ''DATA'' @ [CR, LF] @ body @ ''QUIT'' @ [CR, LF]" "reply v = goahead @ verdict @ reply fin"
    "smtp_reply goahead" "reply_code goahead < 400" "smtp_reply verdict" "reply_code verdict < 400"
    "(\<forall>c w qp hdrs sv. incoming sv = body @ ''QUIT'' @ [CR, LF] \<longrightarrow>
      (\<exists>sv' acc spfline answer. data_receive c w qp hdrs sv = Inr sv' \<and> incoming sv' = ''QUIT'' @ [CR, LF] \<and>
        submitted sv' = submitted sv @ [(acc, hdrs @ spfline @ message env, ''F'' @ cstr (mailfrom sv) @ [NUL] @ rcptto sv @ [NUL])] \<and>
        replies sv' = replies sv @ answer \<and> (reply_code answer < 400 \<longrightarrow> acc \<or> dropped_by_queue w)))"
proof -
  obtain body goahead verdict where body: "remote_blast (message_end env) (message env) = Inr body"
    "sent fin = sent v @ ''DATA'' @ [CR, LF] @ body @ ''QUIT'' @ [CR, LF]" "reply v = goahead @ verdict @ reply fin"
    "smtp_reply goahead" "reply_code goahead < 400" "smtp_reply verdict" "reply_code verdict < 400"
    using assms unfolding accepted_def Remote.crlf_def by blast
  obtain ls where ls: "message env = as_message ls" "\<forall>l \<in> set ls. LF \<notin> set l" "message_end env = At_eof"
    using remote_blast_whole [OF body(1)] by blast
  then have "body = on_wire ls" using remote_blast_complete [OF ls(2)] body(1) by simp
  then have "(\<forall>c w qp hdrs sv. incoming sv = body @ ''QUIT'' @ [CR, LF] \<longrightarrow>
      (\<exists>sv' acc spfline answer. data_receive c w qp hdrs sv = Inr sv' \<and> incoming sv' = ''QUIT'' @ [CR, LF] \<and>
        submitted sv' = submitted sv @ [(acc, hdrs @ spfline @ message env, ''F'' @ cstr (mailfrom sv) @ [NUL] @ rcptto sv @ [NUL])] \<and>
        replies sv' = replies sv @ answer \<and> (reply_code answer < 400 \<longrightarrow> acc \<or> dropped_by_queue w)))"
    by (intro allI impI) (simp only: ls(1), rule data_receive_stores [OF ls(2)], simp only:)
  then show thesis by (rule that [OF body(2-7)])
qed

section \<open>Property\<close>

text \<open>C9: a recipient that the queue manager marks as done after a remote delivery has the message. Whenever the report that \<open>qmail-remote\<close> leaves, read by
  \<open>qmail-rspawn\<close> and passed on to the manager, is taken as a success, there was a dialogue with one of the exchangers, in which, after the greeting, the client has sent
  exactly MAIL, the RCPT of this recipient, DATA, the message and QUIT, and the server's replies to all four, as they stand on the wire one after the other, have codes below 400. If
  that server is \<open>qmail-smtpd\<close>, it gets from these bytes exactly the message, and it gives an answer with such a code only if its queue has accepted the message, or if the
  queue was made to drop it. (The bytes come from this exchanger, but for what may have been read ahead of one tried before: the buffer is not emptied between connections.)\<close>

theorem success_means_stored:
  assumes "\<And>a. tls_ok (env a)" "\<And>a. reciplist (env a) = [r]" "\<And>a. message (env a) = msg" "report st = []" "sent st = []" "reply st = []"
    and "remote_report w (report (fst (deliver env own slow conn timedout ahead host answer mxs routed_by all_alias st))) = Some t"
    and "report_line dying (rec_text (d, t)) ! 2 = CHR ''K''"
  shows "\<exists>a k server left s authd u mail rcpt goahead verdict rest body.
    conn k = Server server \<and> reply s = left @ server \<and> ((\<forall>k. ahead k = 0) \<longrightarrow> left = []) \<and>
    introduced (env a) s authd u \<and> (\<not> can_tls (env a) \<longrightarrow> heard s u) \<and> reply u = mail @ rcpt @ goahead @ verdict @ rest \<and>
    (\<forall>x \<in> {mail, rcpt, goahead, verdict}. smtp_reply x \<and> reply_code x < 400) \<and>
    sent (fst (deliver env own slow conn timedout ahead host answer mxs routed_by all_alias st)) = sent u @ mail_cmd (env a) authd @ ''RCPT TO:<'' @ r @ ''>'' @ [CR, LF] @ ''DATA'' @ [CR, LF] @ body @ ''QUIT'' @ [CR, LF] \<and>
    (\<forall>c w qp hdrs sv. incoming sv = body @ ''QUIT'' @ [CR, LF] \<longrightarrow>
      (\<exists>sv' acc spfline answer. data_receive c w qp hdrs sv = Inr sv' \<and> incoming sv' = ''QUIT'' @ [CR, LF] \<and>
        submitted sv' = submitted sv @ [(acc, hdrs @ spfline @ msg, ''F'' @ cstr (mailfrom sv) @ [NUL] @ rcptto sv @ [NUL])] \<and>
        replies sv' = replies sv @ answer \<and> (reply_code answer < 400 \<longrightarrow> acc \<or> dropped_by_queue w)))"
proof -
  let ?fin = "fst (deliver env own slow conn timedout ahead host answer mxs routed_by all_alias st)"
  have served: "served env conn ahead ?fin"
    by (rule deliver_served [OF assms(1,4-6)])
  have "answer_text t" by (rule remote_report_answers [OF assms(7)])
  then have K: "hd t = CHR ''K''" using assms(8) by (cases t) (auto simp: answer_text_def report_line_def rec_text_def two_bytes_def nth_append split: if_split_asm)
  obtain a k server left s authd u v mail ts rs where 1: "conn k = Server server" "reply s = left @ server" "(\<forall>k. ahead k = 0) \<longrightarrow> left = []"
    "introduced (env a) s authd u" "smtp_reply mail" "reply_code mail < 400" "list_all2 answers ts rs" "reply u = mail @ concat ts @ reply v"
    "length rs = length (reciplist (env a))" "\<exists>i \<in> set rs. hd i = CHR ''r''"
    "sent v = sent u @ mail_cmd (env a) authd @ rcpt_cmds (reciplist (env a))" "accepted (env a) v ?fin"
    by (rule success_told [OF served assms(7) K])
  obtain rcpt i where r: "ts = [rcpt]" "rs = [i]" "answers rcpt i" "hd i = CHR ''r''"
    using 1(7,9,10) unfolding assms(2) by (cases rs) (auto simp: list_all2_Cons2)
  then have rcpt: "smtp_reply rcpt" "reply_code rcpt < 400" by (auto simp: answers_def not_le split: if_split_asm)
  obtain body goahead verdict where 2: "sent ?fin = sent v @ ''DATA'' @ [CR, LF] @ body @ ''QUIT'' @ [CR, LF]" "reply v = goahead @ verdict @ reply ?fin"
    "smtp_reply goahead" "reply_code goahead < 400" "smtp_reply verdict" "reply_code verdict < 400"
    "(\<forall>c w qp hdrs sv. incoming sv = body @ ''QUIT'' @ [CR, LF] \<longrightarrow>
      (\<exists>sv' acc spfline answer. data_receive c w qp hdrs sv = Inr sv' \<and> incoming sv' = ''QUIT'' @ [CR, LF] \<and>
        submitted sv' = submitted sv @ [(acc, hdrs @ spfline @ message (env a), ''F'' @ cstr (mailfrom sv) @ [NUL] @ rcptto sv @ [NUL])] \<and>
        replies sv' = replies sv @ answer \<and> (reply_code answer < 400 \<longrightarrow> acc \<or> dropped_by_queue w)))"
    by (rule accepted_stored [OF 1(12)])
  have "reply u = mail @ rcpt @ goahead @ verdict @ reply ?fin" using 1(8) 2(2) r(1) by simp
  moreover have "sent ?fin = sent u @ mail_cmd (env a) authd @ ''RCPT TO:<'' @ r @ ''>'' @ [CR, LF] @ ''DATA'' @ [CR, LF] @ body @ ''QUIT'' @ [CR, LF]"
    using 2(1) 1(11) unfolding assms(2) by (simp add: rcpt_cmds_def Remote.crlf_def)
  moreover have "\<forall>x \<in> {mail, rcpt, goahead, verdict}. smtp_reply x \<and> reply_code x < 400" using 1(5,6) rcpt 2(3-6) by simp
  moreover have "\<not> can_tls (env a) \<longrightarrow> heard s u" using introduced_heard [OF 1(4)] by blast
  ultimately show ?thesis using 1(1-4) 2(7) [unfolded assms(3)]
    by - (rule exI [of _ a], rule exI [of _ k], rule exI [of _ server], rule exI [of _ left], rule exI [of _ s], rule exI [of _ authd],
      rule exI [of _ u], rule exI [of _ mail], rule exI [of _ rcpt], rule exI [of _ goahead], rule exI [of _ verdict], rule exI [of _ "reply ?fin"], rule exI [of _ body], intro conjI; assumption)
qed

lemma good_report: "remote_report 0 (items [''r'', ''K'' @ good_reason]) = Some (''K'' @ good_reason)"
  by code_simp

lemma success_means_stored_witness:
  "\<exists>fin :: client. report fin = items [''r'', ''K'' @ good_reason] \<and> (\<exists>(a :: ip_address) (k :: nat) server left s authd u mail rcpt goahead verdict rest body.
    Server good_server = Server server \<and> reply s = left @ server \<and> ((\<forall>k :: nat. (0 :: nat) = 0) \<longrightarrow> left = []) \<and>
    introduced good_env s authd u \<and> (\<not> can_tls good_env \<longrightarrow> heard s u) \<and> reply u = mail @ rcpt @ goahead @ verdict @ rest \<and>
    (\<forall>x \<in> {mail, rcpt, goahead, verdict}. smtp_reply x \<and> reply_code x < 400) \<and>
    sent fin = sent u @ mail_cmd good_env authd @ ''RCPT TO:<'' @ ''b'' @ ''>'' @ [CR, LF] @ ''DATA'' @ [CR, LF] @ body @ ''QUIT'' @ [CR, LF] \<and>
    (\<forall>c w qp hdrs sv. incoming sv = body @ ''QUIT'' @ [CR, LF] \<longrightarrow>
      (\<exists>sv' acc spfline answer. data_receive c w qp hdrs sv = Inr sv' \<and> incoming sv' = ''QUIT'' @ [CR, LF] \<and>
        submitted sv' = submitted sv @ [(acc, hdrs @ spfline @ (''x'' @ [LF]), ''F'' @ cstr (mailfrom sv) @ [NUL] @ rcptto sv @ [NUL])] \<and>
        replies sv' = replies sv @ answer \<and> (reply_code answer < 400 \<longrightarrow> acc \<or> dropped_by_queue w))))"
proof -
  let ?d = "deliver (\<lambda>_. good_env) (\<lambda>_. False) (\<lambda>_. False) (\<lambda>_. Server good_server) (\<lambda>_. False) (\<lambda>_. 0) ''h'' 0 [\<lparr>ip = (10, 0, 0, 1), pref = 5\<rparr>] False False (new_client [])"
  obtain fin where fin: "smtp good_env (new_client good_server) = Inl fin" "report fin = items [''r'', ''K'' @ good_reason]"
    using good_delivery by (simp split: sum.splits)
  have "(new_client [])\<lparr>reply := reply (new_client []) @ good_server\<rparr> = new_client good_server" by (simp add: new_client_def)
  then have d: "fst ?d = fin" using fin(1) by (simp add: deliver_def prefme_def)
  have r: "remote_report 0 (report (fst ?d)) = Some (''K'' @ good_reason)" unfolding d fin(2) by (rule good_report)
  have m: "report_line False (rec_text (0, ''K'' @ good_reason)) ! 2 = CHR ''K''" by (simp add: report_line_def rec_text_def two_bytes_def)
  have env: "tls_ok good_env" "reciplist good_env = [''b'']" "message good_env = ''x'' @ [LF]" "report (new_client []) = []" "sent (new_client []) = []" "reply (new_client []) = []"
    by (simp_all add: good_env_def no_quit_env_def new_client_def tls_ok_def)
  from success_means_stored [OF env r m] fin(2) show ?thesis unfolding d by (intro exI [of _ fin] conjI)
qed

end
