(* ===== verification/Users.thy ===== *)
theory Users
  imports Spawn
begin

text \<open>
  Who gets a local delivery: the constant database (\<open>cdb_*.c\<close>), the user that \<open>qmail-getpw.c\<close> finds for an address, and the child of
  \<open>qmail-lspawn.c\<close> that takes this user's identity and runs \<open>qmail-local\<close>.
\<close>

unbundle bit_operations_syntax

section \<open>The constant database\<close>

text \<open>A file is its content and a predicate that tells which reads fail.\<close>

type_synonym cdbfile = "(nat \<Rightarrow> nat \<Rightarrow> bool) \<times> char list"

definition cdb_hash :: "char list \<Rightarrow> 32 word" where
  "cdb_hash buf = foldl (\<lambda>h c. (h + push_bit 5 h) XOR of_nat (uch c)) 5381 buf"

definition cdb_unpack :: "char list \<Rightarrow> 32 word" where
  "cdb_unpack buf = push_bit 8 (push_bit 8 (push_bit 8 (of_nat (uch (buf ! 3))) + of_nat (uch (buf ! 2))) + of_nat (uch (buf ! 1))) + of_nat (uch (buf ! 0))"

definition cdb_bread :: "cdbfile \<Rightarrow> nat \<Rightarrow> nat \<Rightarrow> char list option" where
  "cdb_bread db pos m = (if m = 0 then Some [] else if fst db pos m \<or> length (snd db) < pos + m then None else Some (take m (drop pos (snd db))))"

text \<open>\<open>match\<close> compares 32 bytes at a time.\<close>

function cdb_match :: "cdbfile \<Rightarrow> nat \<Rightarrow> char list \<Rightarrow> int" where
  "cdb_match db pos key =
     (if key = [] then 1
      else let n = (if 32 > length key then length key else 32) in
        case cdb_bread db pos n of
          None \<Rightarrow> - 1
        | Some buf \<Rightarrow> if buf \<noteq> take n key then 0 else cdb_match db (pos + n) (drop n key))"
  by pat_completeness auto

termination
  by (relation "measure (\<lambda>(db, pos, key). length key)") auto

declare cdb_match.simps [simp del]

text \<open>Where a record is found: the position of its data and their length.\<close>

datatype found = Cdb_error | Cdb_none | Cdb_found nat "32 word"

fun seek_loop :: "cdbfile \<Rightarrow> char list \<Rightarrow> 32 word \<Rightarrow> 32 word \<Rightarrow> 32 word \<Rightarrow> nat \<Rightarrow> found" where
  "seek_loop db key pos lenhash h2 0 = Cdb_none"
| "seek_loop db key pos lenhash h2 (Suc k) =
     (case cdb_bread db (unat (pos + 8 * h2)) 8 of
        None \<Rightarrow> Cdb_error
      | Some packbuf \<Rightarrow>
          (let poskd = cdb_unpack (drop 4 packbuf);
               next = seek_loop db key pos lenhash (if h2 + 1 = lenhash then 0 else h2 + 1) k in
           if poskd = 0 then Cdb_none
           else if cdb_unpack packbuf = cdb_hash key
           then (case cdb_bread db (unat poskd) 8 of
                   None \<Rightarrow> Cdb_error
                 | Some packbuf \<Rightarrow>
                     (if cdb_unpack packbuf = of_nat (length key)
                      then (let r = cdb_match db (unat poskd + 8) key in
                            if r = - 1 then Cdb_error
                            else if r = 1 then Cdb_found (unat poskd + 8 + length key) (cdb_unpack (drop 4 packbuf)) else next)
                      else next))
           else next))"

definition cdb_seek :: "cdbfile \<Rightarrow> char list \<Rightarrow> found" where
  "cdb_seek db key =
     (let h = cdb_hash key in
      case cdb_bread db (unat (8 * (h AND 255))) 8 of
        None \<Rightarrow> Cdb_error
      | Some packbuf \<Rightarrow>
          (let pos = cdb_unpack packbuf; lenhash = cdb_unpack (drop 4 packbuf) in
           if lenhash = 0 then Cdb_none else seek_loop db key pos lenhash (drop_bit 8 h mod lenhash) (unat lenhash)))"

section \<open>The user of an address\<close>

record passwd =
  pw_name :: "char list"
  pw_uid :: nat
  pw_gid :: nat
  pw_dir :: "char list"

text \<open>What \<open>stat\<close> says of a home directory: its owner, or an error that is temporary or not.\<close>

datatype homedir = Owned nat | Stat_temp | Stat_perm

record pwenv =
  getpwnam :: "char list \<Rightarrow> passwd option"
  pw_busy :: "char list \<Rightarrow> bool"
  home :: "char list \<Rightarrow> homedir"
  auto_usera :: "char list"
  auto_break :: char

text \<open>\<open>userext\<close> with \<open>extension\<close> at \<open>local + k\<close>; the result is the user with \<open>dash\<close> and \<open>extension\<close>, if there is one, or an exit code.\<close>

fun userext :: "pwenv \<Rightarrow> char list \<Rightarrow> nat \<Rightarrow> nat + (passwd \<times> char list \<times> char list) option" where
  "userext e loc k =
     (let next = (case k of 0 \<Rightarrow> Inr None | Suc k' \<Rightarrow> userext e loc k') in
      if k < 32 \<and> (k = length loc \<or> loc ! k = auto_break e)
      then let username = case_lowers (take k loc) in
        if pw_busy e username then Inl QLX_SYS
        else case getpwnam e username of
               None \<Rightarrow> next
             | Some pw \<Rightarrow>
                 (if pw_uid pw \<noteq> 0
                  then case home e (pw_dir pw) of
                         Owned u \<Rightarrow>
                           (if u = pw_uid pw
                            then Inr (Some (pw, if k < length loc then (''-'', drop (k + 1) loc) else ('''', [])))
                            else next)
                       | Stat_temp \<Rightarrow> Inl QLX_NFS
                       | Stat_perm \<Rightarrow> next
                  else next)
      else next)"

declare userext.simps [simp del]

definition getpw_text :: "passwd \<Rightarrow> char list \<Rightarrow> char list \<Rightarrow> char list" where
  "getpw_text pw dash ext =
     pw_name pw @ [NUL] @ fmt_ulong (pw_uid pw) @ [NUL] @ fmt_ulong (pw_gid pw) @ [NUL] @ pw_dir pw @ [NUL] @ dash @ [NUL] @ ext @ [NUL]"

text \<open>The program \<open>qmail-getpw\<close>: an exit code, or what it prints before it exits with 0.\<close>

definition qmail_getpw :: "pwenv \<Rightarrow> char list \<Rightarrow> nat + char list" where
  "qmail_getpw e loc =
     (case userext e loc (length loc) of
        Inl c \<Rightarrow> Inl c
      | Inr (Some (pw, dash, ext)) \<Rightarrow> Inr (getpw_text pw dash ext)
      | Inr None \<Rightarrow> (case getpwnam e (auto_usera e) of None \<Rightarrow> Inl QLX_NOALIAS | Some pw \<Rightarrow> Inr (getpw_text pw ''-'' loc)))"

section \<open>The child of \<open>qmail-lspawn\<close>\<close>

datatype lcall = Pipe_pw | Fork_pw | Gid_pw | Uid_pw | Move_pw | Exec_pw | Slurp_pw | Wait_pw | Crash_pw | Chdir_home | Move_in | Move_out | Copy_err
  | Set_gid | Set_uid | Exec_soft | Exec_hard

datatype userdb = No_cdb | Unopened_cdb | Cdb cdbfile

record lenv =
  lfails :: "lcall \<Rightarrow> bool"
  lmem :: "nat \<Rightarrow> bool"
  users :: userdb
  pws :: pwenv

definition from_getpw :: "lenv \<Rightarrow> char list \<Rightarrow> nat + char list" where
  "from_getpw e loc =
     (if lfails e Pipe_pw then Inl QLX_SYS
      else if lfails e Fork_pw then Inl QLX_SYS
      else let child = (if lfails e Gid_pw then Inl QLX_USAGE
                        else if lfails e Uid_pw then Inl QLX_USAGE
                        else if lfails e Move_pw then Inl QLX_SYS
                        else if lfails e Exec_pw then Inl QLX_EXECPW else qmail_getpw (pws e) loc) in
      if lfails e Slurp_pw then Inl QLX_SYS
      else if lfails e Wait_pw then Inr (case child of Inl c \<Rightarrow> [] | Inr t \<Rightarrow> t)
      else if lfails e Crash_pw then Inl QLX_SYS else child)"

fun nughde_loop :: "lenv \<Rightarrow> cdbfile \<Rightarrow> char list \<Rightarrow> char list \<Rightarrow> char list \<Rightarrow> bool \<Rightarrow> nat \<Rightarrow> nat + char list option" where
  "nughde_loop e db loc low wildchars flagwild 0 = Inr None"
| "nughde_loop e db loc low wildchars flagwild (Suc k) =
     (let next = nughde_loop e db loc low wildchars True k in
      if \<not> flagwild \<or> k = 0 \<or> byte_chr wildchars (low ! k) < length wildchars
      then case cdb_seek db (take (Suc k) low) of
             Cdb_error \<Rightarrow> Inl QLX_CDB
           | Cdb_none \<Rightarrow> next
           | Cdb_found pos dlen \<Rightarrow>
               (if \<not> lmem e (unat dlen) then Inl QLX_NOMEM
                else case cdb_bread db pos (unat dlen) of
                       None \<Rightarrow> Inl QLX_CDB
                     | Some nughde \<Rightarrow>
                         (case Option.bind (if flagwild then cat (lmem e) nughde (cstr (drop k loc)) else Some nughde) (\<lambda>sa. cat (lmem e) sa [NUL]) of
                            None \<Rightarrow> Inl QLX_NOMEM
                          | Some sa \<Rightarrow> Inr (Some sa)))
      else next)"

definition nughde_get :: "lenv \<Rightarrow> char list \<Rightarrow> nat + char list" where
  "nughde_get e loc =
     (case (if lmem e 1 then Option.bind (cat (lmem e) ''!'' (cstr loc)) (\<lambda>sa. cat (lmem e) sa [NUL]) else None) of
        None \<Rightarrow> Inl QLX_NOMEM
      | Some sa \<Rightarrow>
          (let low = case_lowerb sa in
           if \<not> lmem e 0 then Inl QLX_NOMEM
           else case users e of
                  No_cdb \<Rightarrow> from_getpw e loc
                | Unopened_cdb \<Rightarrow> Inl QLX_CDB
                | Cdb db \<Rightarrow>
                    (case cdb_seek db [] of
                       Cdb_found pos dlen \<Rightarrow>
                         (if \<not> lmem e (unat dlen) then Inl QLX_NOMEM
                          else case cdb_bread db pos (unat dlen) of
                                 None \<Rightarrow> Inl QLX_CDB
                               | Some wildchars \<Rightarrow>
                                   (case nughde_loop e db loc low wildchars False (length low) of
                                      Inl c \<Rightarrow> Inl c
                                    | Inr (Some sa) \<Rightarrow> Inr sa
                                    | Inr None \<Rightarrow> from_getpw e loc))
                     | _ \<Rightarrow> Inl QLX_CDB)))"

text \<open>One field of \<open>nughde\<close>, and what is behind it\<close>

definition field :: "char list \<Rightarrow> (char list \<times> char list) option" where
  "field x = (let n = byte_chr x NUL in if n = length x then None else Some (take n x, drop (n + 1) x))"

record local_run =
  largs :: "char list list"
  luid :: int
  lgid :: int

text \<open>The child: an exit code, or \<open>qmail-local\<close> with its arguments and identity.\<close>

definition local_child :: "lenv \<Rightarrow> char list \<Rightarrow> char list \<times> char list \<times> char list \<times> nat \<Rightarrow> nat + local_run" where
  "local_child e aliasempty = (\<lambda>(m, s, r, at).
     (let loc = take at r in
      if loc = [] then Inl 0
      else if lfails e Chdir_home then Inl QLX_USAGE
      else case nughde_get e loc of
        Inl c \<Rightarrow> Inl c
      | Inr x \<Rightarrow>
          (case field x of None \<Rightarrow> Inl QLX_USAGE | Some (user, x) \<Rightarrow>
           let uid = sint (snd (scan_ulong x)) in
           case field x of None \<Rightarrow> Inl QLX_USAGE | Some (_, x) \<Rightarrow>
           let gid = sint (snd (scan_ulong x)) in
           case field x of None \<Rightarrow> Inl QLX_USAGE | Some (_, x) \<Rightarrow>
           case field x of None \<Rightarrow> Inl QLX_USAGE | Some (dir, x) \<Rightarrow>
           case field x of None \<Rightarrow> Inl QLX_USAGE | Some (dash, x) \<Rightarrow>
           case field x of None \<Rightarrow> Inl QLX_USAGE | Some (ext, x) \<Rightarrow>
           if lfails e Move_in then Inl QLX_SYS
           else if lfails e Move_out then Inl QLX_SYS
           else if lfails e Copy_err then Inl QLX_SYS
           else if lfails e Set_gid then Inl QLX_USAGE
           else if lfails e Set_uid then Inl QLX_USAGE
           else if uid = 0 then Inl QLX_ROOT
           else if lfails e Exec_soft then Inl QLX_EXECSOFT
           else if lfails e Exec_hard then Inl QLX_EXECHARD
           else Inr \<lparr>largs = [''bin/qmail-local'', ''--'', user, dir, loc, dash, ext, drop (at + 1) r, s, aliasempty], luid = uid, lgid = gid\<rparr>)))"

section \<open>Lemmas on the database\<close>

lemma cdb_bread_some: "cdb_bread db pos n = Some b \<Longrightarrow> b = take n (drop pos (snd db)) \<and> (n = 0 \<or> pos + n \<le> length (snd db))"
  by (auto simp: cdb_bread_def split: if_split_asm)

lemma cdb_match_range: "cdb_match db pos key \<in> {- 1, 0, 1}"
  by (induction db pos key rule: cdb_match.induct) (subst cdb_match.simps, auto simp: Let_def split: option.split)

lemma cdb_match_found: "cdb_match db pos key = 1 \<Longrightarrow> take (length key) (drop pos (snd db)) = key \<and> (key = [] \<or> pos + length key \<le> length (snd db))"
proof (induction db pos key rule: cdb_match.induct)
  case (1 db pos key)
  show ?case
  proof (cases "key = []")
    case False
    let ?n = "if 32 > length key then length key else 32"
    obtain b where b: "cdb_bread db pos ?n = Some b" "b = take ?n key" "cdb_match db (pos + ?n) (drop ?n key) = 1"
      using "1.prems" False by (subst (asm) cdb_match.simps) (auto simp: Let_def split: option.splits if_split_asm)
    have n: "0 < ?n" "?n \<le> length key" using False by auto
    have ih: "take (length (drop ?n key)) (drop (pos + ?n) (snd db)) = drop ?n key \<and> (drop ?n key = [] \<or> pos + ?n + length (drop ?n key) \<le> length (snd db))"
      using "1.IH" [OF False refl b(1)] b(2,3) by simp
    have bd: "take ?n key = take ?n (drop pos (snd db))" "pos + ?n \<le> length (snd db)" using cdb_bread_some [OF b(1)] b(2) n(1) by simp_all
    have "take (length key) (drop pos (snd db)) = take ?n (drop pos (snd db)) @ take (length key - ?n) (drop ?n (drop pos (snd db)))"
      by (metis n(2) le_add_diff_inverse take_add)
    also have "\<dots> = take ?n key @ drop ?n key" using bd(1) ih by (simp add: add.commute)
    finally show ?thesis using ih bd(2) n by (cases "drop ?n key = []") auto
  qed simp
qed

text \<open>There is a record at \<open>p\<close> with this key; its data follow.\<close>

definition record_at :: "char list \<Rightarrow> nat \<Rightarrow> char list \<Rightarrow> 32 word \<Rightarrow> bool" where
  "record_at f p key dlen \<longleftrightarrow> p + 8 + length key \<le> length f \<and> cdb_unpack (take 8 (drop p f)) = of_nat (length key) \<and>
     cdb_unpack (drop 4 (take 8 (drop p f))) = dlen \<and> take (length key) (drop (p + 8) f) = key"

lemma seek_loop_found: "seek_loop db key pos lenhash h2 k = Cdb_found q dlen \<Longrightarrow> \<exists>p. q = p + 8 + length key \<and> record_at (snd db) p key dlen"
proof (induction db key pos lenhash h2 k rule: seek_loop.induct)
  case (2 db key pos lenhash h2 k)
  obtain pb where pb: "cdb_bread db (unat (pos + 8 * h2)) 8 = Some pb" using "2.prems" by (auto split: option.splits)
  let ?p = "unat (cdb_unpack (drop 4 pb))"
  let ?next = "seek_loop db key pos lenhash (if h2 + 1 = lenhash then 0 else h2 + 1) k"
  note step = "2.prems" [unfolded seek_loop.simps pb option.case Let_def]
  have p0: "cdb_unpack (drop 4 pb) \<noteq> 0" using step by auto
  show ?case
  proof (cases "?next = Cdb_found q dlen")
    case True
    then show ?thesis using "2.IH" [OF pb refl] by blast
  next
    case False
    then have h: "cdb_unpack pb = cdb_hash key" using step p0 by (simp split: if_split_asm)
    have "cdb_bread db ?p 8 \<noteq> None" using step p0 h by (cases "cdb_bread db ?p 8") simp_all
    then obtain b where b: "cdb_bread db ?p 8 = Some b" by blast
    note step2 = step [unfolded if_not_P [OF p0] if_P [OF h] b option.case]
    have l: "cdb_unpack b = of_nat (length key)" using step2 False by (simp split: if_split_asm)
    have m: "cdb_match db (?p + 8) key = 1" using step2 False l cdb_match_range [of db "?p + 8" key] by (simp split: if_split_asm)
    have q: "q = ?p + 8 + length key" "dlen = cdb_unpack (drop 4 b)" using step2 l m by simp_all
    then have "record_at (snd db) ?p key dlen" using cdb_bread_some [OF b] cdb_match_found [OF m] l by (auto simp: record_at_def add.assoc)
    then show ?thesis using q(1) by blast
  qed
qed simp

section \<open>Lemmas on users\<close>

definition user_at :: "pwenv \<Rightarrow> char list \<Rightarrow> nat \<Rightarrow> passwd option" where
  "user_at e loc k =
     (if k < 32 \<and> (k = length loc \<or> loc ! k = auto_break e)
      then case getpwnam e (case_lowers (take k loc)) of
             Some pw \<Rightarrow> (if pw_uid pw \<noteq> 0 \<and> home e (pw_dir pw) = Owned (pw_uid pw) then Some pw else None)
           | None \<Rightarrow> None
      else None)"

text \<open>Who owns an address: the user whose name, up to a break character, is longest; else the alias user.\<close>

definition owner :: "pwenv \<Rightarrow> char list \<Rightarrow> (passwd \<times> char list \<times> char list) option" where
  "owner e loc =
     (let ks = {k. k \<le> length loc \<and> user_at e loc k \<noteq> None} in
      if ks = {} then map_option (\<lambda>pw. (pw, ''-'', loc)) (getpwnam e (auto_usera e))
      else map_option (\<lambda>pw. (pw, if Max ks < length loc then ''-'' else '''', drop (Max ks + 1) loc)) (user_at e loc (Max ks)))"

lemma userext_step:
  assumes "\<forall>x. \<not> pw_busy e x" "\<forall>d. home e d \<noteq> Stat_temp" "k \<le> length loc"
  shows "userext e loc k =
    (case user_at e loc k of
       Some pw \<Rightarrow> Inr (Some (pw, if k < length loc then ''-'' else '''', drop (k + 1) loc))
     | None \<Rightarrow> (case k of 0 \<Rightarrow> Inr None | Suc k' \<Rightarrow> userext e loc k'))"
  using assms by (subst userext.simps) (auto simp: user_at_def Let_def split: option.split homedir.split)

lemma userext_longest:
  assumes "\<forall>x. \<not> pw_busy e x" "\<forall>d. home e d \<noteq> Stat_temp" "k \<le> length loc"
  shows "userext e loc k =
    (let ks = {j. j \<le> k \<and> user_at e loc j \<noteq> None} in
     Inr (if ks = {} then None else map_option (\<lambda>pw. (pw, if Max ks < length loc then ''-'' else '''', drop (Max ks + 1) loc)) (user_at e loc (Max ks))))"
  using assms(3)
proof (induction k)
  case 0
  have *: "{j. j \<le> 0 \<and> user_at e loc j \<noteq> None} = (if user_at e loc 0 = None then {} else {0})"
    by (cases "user_at e loc 0") (auto, metis neq0_conv option.distinct(1))
  show ?case unfolding userext_step [OF assms(1,2) 0] * by (simp split: option.split)
next
  case (Suc k)
  show ?case
  proof (cases "user_at e loc (Suc k)")
    case None
    then have "{j. j \<le> Suc k \<and> user_at e loc j \<noteq> None} = {j. j \<le> k \<and> user_at e loc j \<noteq> None}" by (auto simp: le_Suc_eq)
    then show ?thesis using Suc userext_step [OF assms(1,2) Suc.prems] None by simp
  next
    case (Some pw)
    have "Max {j. j \<le> Suc k \<and> user_at e loc j \<noteq> None} = Suc k" by (rule Max_eqI) (use Some in auto)
    then show ?thesis using userext_step [OF assms(1,2) Suc.prems] Some by (auto simp: Let_def)
  qed
qed

lemma field_text: "NUL \<notin> set x \<Longrightarrow> field (x @ NUL # y) = Some (x, y)"
proof -
  assume "NUL \<notin> set x"
  then have "byte_chr (x @ NUL # y) NUL = length x" by (induction x) auto
  then show ?thesis by (simp add: field_def)
qed

lemma scan_id: "u < 2 ^ 31 \<Longrightarrow> sint (snd (scan_ulong (fmt_ulong u @ NUL # y))) = int u"
proof -
  assume u: "u < 2 ^ 31"
  have "\<not> digitval NUL < 10" by (simp add: digitval_less_10_iff)
  then have "snd (scan_ulong (fmt_ulong u @ NUL # y)) = of_nat u" using scan_fmt_ulong [of "NUL # y" u] by simp
  moreover have "sint (of_nat u :: 32 word) = int u" using u by (simp add: signed_of_nat signed_take_bit_int_eq_self)
  ultimately show ?thesis by simp
qed

lemma userext_or_alias:
  assumes "\<forall>x. \<not> pw_busy e x" "\<forall>d. home e d \<noteq> Stat_temp"
  shows "userext e loc (length loc) = Inr None \<and> owner e loc = map_option (\<lambda>pw. (pw, ''-'', loc)) (getpwnam e (auto_usera e)) \<or>
    (\<exists>t. userext e loc (length loc) = Inr (Some t) \<and> owner e loc = Some t)"
proof -
  let ?ks = "{k. k \<le> length loc \<and> user_at e loc k \<noteq> None}"
  show ?thesis
  proof (cases "?ks = {}")
    case True
    show ?thesis unfolding userext_longest [OF assms order_refl] owner_def Let_def if_P [OF True] by simp
  next
    case False
    then have "Max ?ks \<in> ?ks" by (intro Max_in) simp_all
    then obtain pw where "user_at e loc (Max ?ks) = Some pw" by blast
    then show ?thesis unfolding userext_longest [OF assms order_refl] owner_def Let_def if_not_P [OF False] by simp
  qed
qed

lemma userext_owner:
  "userext e loc (length loc) = Inr (Some t) \<Longrightarrow> \<forall>x. \<not> pw_busy e x \<Longrightarrow> \<forall>d. home e d \<noteq> Stat_temp \<Longrightarrow> owner e loc = Some t"
  using userext_or_alias [of e loc] by auto

lemma getpw_is_owner:
  assumes "\<forall>x. \<not> pw_busy e x" "\<forall>d. home e d \<noteq> Stat_temp"
  shows "qmail_getpw e loc = (case owner e loc of None \<Rightarrow> Inl QLX_NOALIAS | Some (pw, dash, ext) \<Rightarrow> Inr (getpw_text pw dash ext))"
  using userext_or_alias [OF assms, of loc] by (auto simp: qmail_getpw_def split: option.split)

lemma owner_nonul:
  assumes "owner e loc = Some (pw, dash, ext)" "NUL \<notin> set loc"
  shows "\<exists>x. getpwnam e x = Some pw" "NUL \<notin> set dash" "NUL \<notin> set ext"
  using assms by (auto simp: owner_def user_at_def Let_def dest: in_set_dropD split: if_split_asm option.splits)

lemma nughde_no_cdb:
  assumes "users e = No_cdb" "lmem e = (\<lambda>_. True)" "lfails e = (\<lambda>_. False)"
  shows "nughde_get e loc = qmail_getpw (pws e) loc"
  using assms by (simp add: nughde_get_def from_getpw_def cat_def Let_def)

section \<open>Properties\<close>

text \<open>C14: without a table of users, a local delivery to \<open>box@host\<close> runs \<open>qmail-local\<close> as the owner of \<open>box\<close>: the user other than root whose name, up to a break
  character, is the longest beginning of it and who owns his home directory, with the rest as the extension; else the alias user. It never runs as root, and it
  gets home directory, sender and host as they are.\<close>

theorem delivery_identity:
  assumes "users e = No_cdb" "lmem e = (\<lambda>_. True)" "lfails e = (\<lambda>_. False)" "\<forall>x. \<not> pw_busy (pws e) x" "\<forall>d. home (pws e) d \<noteq> Stat_temp"
    and "\<forall>x pw. getpwnam (pws e) x = Some pw \<longrightarrow> NUL \<notin> set (pw_name pw) \<and> NUL \<notin> set (pw_dir pw) \<and> pw_uid pw < 2 ^ 31 \<and> pw_gid pw < 2 ^ 31"
    and "box \<noteq> []" "NUL \<notin> set box"
  shows "local_child e aliasempty (m, s, box @ ''@'' @ host, length box) =
    (case owner (pws e) box of
       None \<Rightarrow> Inl QLX_NOALIAS
     | Some (pw, dash, ext) \<Rightarrow>
         (if pw_uid pw = 0 then Inl QLX_ROOT
          else Inr \<lparr>largs = [''bin/qmail-local'', ''--'', pw_name pw, pw_dir pw, box, dash, ext, host, s, aliasempty], luid = int (pw_uid pw), lgid = int (pw_gid pw)\<rparr>))"
proof (cases "owner (pws e) box")
  case None
  then show ?thesis using assms(3,7) by (simp add: local_child_def nughde_no_cdb [OF assms(1-3)] getpw_is_owner [OF assms(4,5)])
next
  case (Some t)
  obtain pw dash ext where t: "t = (pw, dash, ext)" by (cases t)
  note o = Some [unfolded t]
  have pw: "NUL \<notin> set (pw_name pw)" "NUL \<notin> set (pw_dir pw)" "pw_uid pw < 2 ^ 31" "pw_gid pw < 2 ^ 31" using assms(6) owner_nonul(1) [OF o assms(8)] by blast+
  note nn = owner_nonul(2,3) [OF o assms(8)]
  have "nughde_get e box = Inr (getpw_text pw dash ext)" by (simp add: nughde_no_cdb [OF assms(1-3)] getpw_is_owner [OF assms(4,5)] o)
  then show ?thesis using assms(3,7) pw nn
    by (simp add: local_child_def getpw_text_def field_text scan_id o t Some)
qed

lemma delivery_identity_witness:
  "\<exists>pe e. owner pe ''joe-list'' = Some (\<lparr>pw_name = ''joe'', pw_uid = 7, pw_gid = 8, pw_dir = ''/home/joe''\<rparr>, ''-'', ''list'') \<and>
    local_child e [] ([], ''a'', ''joe-list'' @ ''@'' @ ''h'', length ''joe-list'') =
      Inr \<lparr>largs = [''bin/qmail-local'', ''--'', ''joe'', ''/home/joe'', ''joe-list'', ''-'', ''list'', ''h'', ''a'', []], luid = 7, lgid = 8\<rparr>"
proof -
  let ?joe = "\<lparr>pw_name = ''joe'', pw_uid = 7, pw_gid = 8, pw_dir = ''/home/joe''\<rparr>"
  let ?pe = "\<lparr>getpwnam = (\<lambda>n. if n = ''joe'' then Some ?joe else None), pw_busy = (\<lambda>_. False), home = (\<lambda>_. Owned 7), auto_usera = ''alias'', auto_break = CHR ''-''\<rparr>"
  let ?e = "\<lparr>lfails = (\<lambda>_. False), lmem = (\<lambda>_. True), users = No_cdb, pws = ?pe\<rparr>"
  have u8: "userext ?pe ''joe-list'' (length ''joe-list'') = Inr (Some (?joe, ''-'', ''list''))" by code_simp
  have o: "owner ?pe ''joe-list'' = Some (?joe, ''-'', ''list'')" by (rule userext_owner [OF u8]) simp_all
  have "local_child ?e [] ([], ''a'', ''joe-list'' @ ''@'' @ ''h'', length ''joe-list'') =
      Inr \<lparr>largs = [''bin/qmail-local'', ''--'', ''joe'', ''/home/joe'', ''joe-list'', ''-'', ''list'', ''h'', ''a'', []], luid = 7, lgid = 8\<rparr>"
    using delivery_identity [of ?e "''joe-list''" "[]" "[]" "''a''" "''h''"] o by simp
  then show ?thesis using o by blast
qed

text \<open>C22: what a lookup in the constant database finds is a record with exactly this key, within the file.\<close>

theorem cdb_finds_key:
  assumes "cdb_seek db key = Cdb_found q dlen"
  shows "\<exists>p. q = p + 8 + length key \<and> record_at (snd db) p key dlen"
  using assms seek_loop_found by (auto simp: cdb_seek_def Let_def split: option.splits if_split_asm)

definition small_db :: cdbfile where
  "small_db = ((\<lambda>_ _. False), replicate 40 NUL @ map char_of [48, 0, 0, 0, 1, 0, 0, 0 :: nat] @ map char_of [5, 21, 0, 0, 56, 0, 0, 0 :: nat]
     @ map char_of [0, 0, 0, 0, 2, 0, 0, 0 :: nat] @ ''ab'')"

lemma small_db_seek: "cdb_seek small_db [] = Cdb_found 64 2"
  by code_simp

lemma cdb_finds_key_witness: "\<exists>p. 64 = p + 8 + length ([] :: char list) \<and> record_at (snd small_db) p [] 2"
  by (rule cdb_finds_key [OF small_db_seek])

end
