(* ===== verification/Pop3.thy ===== *)
theory Pop3
  imports Control Smtpd Prioq
begin

text \<open>
  The POP server (\<open>qmail-pop3d.c\<close>, \<open>maildir.c\<close>): the messages of a maildir in the order of their times, the commands of a session, and what is done with the
  files at its end. Output is what has been given to \<open>ssout\<close>; a write that fails ends the process.
\<close>

section \<open>The maildir\<close>

record pfile =
  mtime :: int
  atime :: int
  content :: "char list"

type_synonym disk = "char list \<Rightarrow> pfile option"

text \<open>What the outside decides: memory, the clock, the names that \<open>readdir\<close> gives, and which calls fail.\<close>

record penv =
  pmem :: "nat \<Rightarrow> bool"
  pmok :: "32 word \<Rightarrow> bool"
  pnow :: int
  popendir :: "char list \<Rightarrow> char list list option"
  no_open :: "char list \<Rightarrow> bool"
  no_unlink :: "char list \<Rightarrow> bool"
  no_rename :: "char list \<Rightarrow> bool"
  no_read :: "char list \<Rightarrow> bool"
  pnet :: "char list \<Rightarrow> bool"

definition pcats :: "(nat \<Rightarrow> bool) \<Rightarrow> char list \<Rightarrow> char list list \<Rightarrow> char list option" where
  "pcats mem sa ss = foldl (\<lambda>r s. Option.bind r (\<lambda>sa. cat mem sa s)) (Some sa) ss"

fun clean_tmp :: "penv \<Rightarrow> char list list \<Rightarrow> disk \<Rightarrow> disk" where
  "clean_tmp e [] d = d"
| "clean_tmp e (d_name # ds) d =
     (if char_at d_name 0 = CHR ''.'' then clean_tmp e ds d
      else if \<not> pmem e 4 then d
      else case pcats (pmem e) ''tmp/'' [d_name, [NUL]] of
             None \<Rightarrow> d
           | Some sa \<Rightarrow>
               (case d (cstr sa) of
                  Some f \<Rightarrow> clean_tmp e ds (if pnow e > atime f + 129600 \<and> \<not> no_unlink e (cstr sa) then d(cstr sa := None) else d)
                | None \<Rightarrow> clean_tmp e ds d))"

definition maildir_clean :: "penv \<Rightarrow> disk \<Rightarrow> disk" where
  "maildir_clean e d = (case popendir e ''tmp'' of None \<Rightarrow> d | Some ds \<Rightarrow> clean_tmp e ds d)"

text \<open>\<open>append\<close>; the result tells whether all names were read. The outer \<open>None\<close> is a write outside of memory, which does not happen.\<close>

fun append_loop :: "penv \<Rightarrow> disk \<Rightarrow> char list \<Rightarrow> char list list \<Rightarrow> prioq \<times> char list \<Rightarrow> (bool \<times> prioq \<times> char list) option" where
  "append_loop e d subdir [] (pq, names) = Some (True, pq, names)"
| "append_loop e d subdir (d_name # ds) (pq, names) =
     (if char_at d_name 0 = CHR ''.'' then append_loop e d subdir ds (pq, names)
      else case pcats (pmem e) names [subdir, ''/'', d_name, [NUL]] of
             None \<Rightarrow> Some (False, pq, names)
           | Some names' \<Rightarrow>
               (case d (cstr (drop (length names) names')) of
                  Some f \<Rightarrow>
                    (if mtime f < pnow e
                     then let pe = \<lparr>dt = mtime f, id = of_nat (length names)\<rparr> in
                       case prioq_insert (pmok e) pe pq pe of
                         None \<Rightarrow> None
                       | Some (False, pq) \<Rightarrow> Some (False, pq, names')
                       | Some (True, pq) \<Rightarrow> append_loop e d subdir ds (pq, names')
                     else append_loop e d subdir ds (pq, names'))
                | None \<Rightarrow> append_loop e d subdir ds (pq, names')))"

definition append_dir :: "penv \<Rightarrow> disk \<Rightarrow> char list \<Rightarrow> prioq \<times> char list \<Rightarrow> (bool \<times> prioq \<times> char list) option" where
  "append_dir e d subdir st = (case popendir e subdir of None \<Rightarrow> Some (False, st) | Some ds \<Rightarrow> append_loop e d subdir ds st)"

definition maildir_scan :: "penv \<Rightarrow> disk \<Rightarrow> (bool \<times> prioq \<times> char list) option" where
  "maildir_scan e d =
     (let pq = \<lparr>field = None, len = 0, a = 0\<rparr> in
      if \<not> pmem e 0 then Some (True, pq, [])
      else case append_dir e d ''new'' (pq, []) of
             Some (True, st) \<Rightarrow> append_dir e d ''cur'' st
           | r \<Rightarrow> r)"

section \<open>The state\<close>

record pmess =
  flagdeleted :: bool
  psize :: ulong
  fn :: "char list"

record pop =
  mess :: "pmess list"
  lastn :: nat
  disk :: disk
  pop_in :: "char list"
  pop_out :: "char list"

fun take_messages :: "disk \<Rightarrow> char list \<Rightarrow> nat \<Rightarrow> prioq \<Rightarrow> pmess list" where
  "take_messages d names 0 pq = []"
| "take_messages d names (Suc k) pq =
     (case prioq_min pq of
        None \<Rightarrow> []
      | Some pe \<Rightarrow>
          (let f = cstr (drop (unat (id pe)) names) in
           \<lparr>flagdeleted = False, psize = (case d f of None \<Rightarrow> 0 | Some x \<Rightarrow> of_nat (length (content x))), fn = f\<rparr> # take_messages d names k (prioq_delmin pq)))"

section \<open>Replies\<close>

definition puts :: "char list \<Rightarrow> pop \<Rightarrow> pop" where
  "puts s st = st\<lparr>pop_out := pop_out st @ s\<rparr>"

text \<open>An exit is \<open>Inl\<close>.\<close>

definition flush :: "penv \<Rightarrow> pop \<Rightarrow> pop + pop" where
  "flush e st = (if pnet e (pop_out st) then Inr st else Inl st)"

definition pop_err :: "penv \<Rightarrow> char list \<Rightarrow> pop \<Rightarrow> pop + pop" where
  "pop_err e s st = flush e (puts (''-ERR '' @ s @ [CR, LF]) st)"

definition okay :: "penv \<Rightarrow> pop \<Rightarrow> pop + pop" where
  "okay e st = flush e (puts (''+OK '' @ [CR, LF]) st)"

definition die :: "pop \<Rightarrow> pop + pop" where
  "die st = Inl st"

definition pop_nomem :: "penv \<Rightarrow> pop \<Rightarrow> pop + pop" where
  "pop_nomem e st = andthen (pop_err e ''out of memory'' st) die"

text \<open>\<open>getlist\<close>\<close>

definition getlist :: "penv \<Rightarrow> pop \<Rightarrow> (pop + pop) option" where
  "getlist e st =
     (let st = st\<lparr>disk := maildir_clean e (disk st)\<rparr> in
      case maildir_scan e (disk st) of
        None \<Rightarrow> None
      | Some (False, _) \<Rightarrow> Some (andthen (pop_err e ''unable to scan $HOME/Maildir'' st) die)
      | Some (True, pq, names) \<Rightarrow>
          (if \<not> pmok e (12 * len pq) then Some (pop_nomem e st)
           else Some (Inr (st\<lparr>mess := take_messages (disk st) names (unat (len pq)) pq\<rparr>))))"

text \<open>\<open>msgno\<close>: the message with its index, or \<open>None\<close> with an error that has been sent.\<close>

definition msgno :: "penv \<Rightarrow> char list \<Rightarrow> pop \<Rightarrow> pop + (nat option \<times> pop)" where
  "msgno e arg st =
     (let (n, u) = scan_ulong arg; no = (\<lambda>s. andthen (pop_err e s st) (\<lambda>st. Inr (None, st))) in
      if n = 0 then no ''syntax error''
      else if u = 0 then no ''messages are counted from 1''
      else let i = unat (u - 1) in
      if i \<ge> length (mess st) then no ''not that many messages''
      else if flagdeleted (mess st ! i) then no ''already deleted''
      else Inr (Some i, st))"

section \<open>Commands\<close>

definition pop3_stat :: "penv \<Rightarrow> pop \<Rightarrow> pop + pop" where
  "pop3_stat e st =
     (let total = foldl (\<lambda>t m. if flagdeleted m then t else t + psize m) 0 (mess st) in
      flush e (puts (''+OK '' @ fmt_uint (length (mess st)) @ '' '' @ fmt_ulong (unat total) @ [CR, LF]) st))"

definition pop3_rset :: "penv \<Rightarrow> pop \<Rightarrow> pop + pop" where
  "pop3_rset e st = okay e (st\<lparr>mess := map (\<lambda>m. m\<lparr>flagdeleted := False\<rparr>) (mess st), lastn := 0\<rparr>)"

definition pop3_last :: "penv \<Rightarrow> pop \<Rightarrow> pop + pop" where
  "pop3_last e st = flush e (puts (''+OK '' @ fmt_uint (lastn st) @ [CR, LF]) st)"

text \<open>The loop of \<open>pop3_quit\<close>\<close>

fun quit_loop :: "penv \<Rightarrow> pmess list \<Rightarrow> pop \<Rightarrow> pop + pop" where
  "quit_loop e [] st = Inr st"
| "quit_loop e (m # ms) st =
     (if flagdeleted m
      then andthen (if no_unlink e (fn m) \<or> disk st (fn m) = None then pop_err e ''unable to unlink all deleted messages'' st
                    else Inr (st\<lparr>disk := (disk st)(fn m := None)\<rparr>)) (quit_loop e ms)
      else if str_start (fn m) ''new/''
      then case (if pmem e 4 then pcats (pmem e) ''cur/'' [drop 4 (fn m), '':2,'', [NUL]] else None) of
             None \<Rightarrow> pop_nomem e st
           | Some sa \<Rightarrow>
               quit_loop e ms (case disk st (fn m) of
                   Some f \<Rightarrow> (if no_rename e (fn m) then st else st\<lparr>disk := (disk st)(fn m := None, cstr sa := Some f)\<rparr>)
                 | None \<Rightarrow> st)
      else quit_loop e ms st)"

definition pop3_quit :: "penv \<Rightarrow> pop \<Rightarrow> pop + pop" where
  "pop3_quit e st = andthen (quit_loop e (mess st) st) (\<lambda>st. andthen (okay e st) die)"

definition pop3_dele :: "penv \<Rightarrow> char list \<Rightarrow> pop \<Rightarrow> pop + pop" where
  "pop3_dele e arg st =
     andthen (msgno e arg st) (\<lambda>(r, st).
       case r of
         None \<Rightarrow> Inr st
       | Some i \<Rightarrow> okay e (st\<lparr>mess := (mess st)[i := (mess st ! i)\<lparr>flagdeleted := True\<rparr>], lastn := max (lastn st) (i + 1)\<rparr>))"

definition printfn :: "char list \<Rightarrow> char list" where
  "printfn f = take (str_chr (drop 4 f) (CHR '':'')) (drop 4 f)"

definition listing :: "nat \<Rightarrow> pmess \<Rightarrow> bool \<Rightarrow> char list" where
  "listing i m flaguidl = fmt_uint (i + 1) @ '' '' @ (if flaguidl then printfn (fn m) else fmt_ulong (unat (psize m))) @ [CR, LF]"

definition dolisting :: "penv \<Rightarrow> char list \<Rightarrow> bool \<Rightarrow> pop \<Rightarrow> pop + pop" where
  "dolisting e arg flaguidl st =
     (if char_at arg 0 \<noteq> NUL
      then andthen (msgno e arg st) (\<lambda>(r, st).
             case r of None \<Rightarrow> Inr st | Some i \<Rightarrow> flush e (puts (''+OK '' @ listing i (mess st ! i) flaguidl) st))
      else andthen (okay e st) (\<lambda>st.
             flush e (puts (concat (map (\<lambda>i. listing i (mess st ! i) flaguidl) (filter (\<lambda>i. \<not> flagdeleted (mess st ! i)) [0..<length (mess st)])) @
               ''.'' @ [CR, LF]) st)))"

text \<open>\<open>blast\<close>, which tells whether it has died; the output is not flushed there.\<close>

partial_function (option) pblast_loop :: "(nat \<Rightarrow> bool) \<Rightarrow> (nat \<Rightarrow> nat \<Rightarrow> rd \<times> nat) \<Rightarrow> nat substdio \<Rightarrow> ulong \<Rightarrow> bool \<Rightarrow> char list \<Rightarrow> (bool \<times> char list) option" where
  "pblast_loop mem op ss limit inheaders sofar =
     (case getln mem op ss [] False LF of
        None \<Rightarrow> None
      | Some (r, ss, line, m) \<Rightarrow>
          (if r \<noteq> 0 then Some (True, sofar)
           else if \<not> m \<and> line = [] then Some (False, sofar)
           else let line = (if m then butlast line else line) in
             if limit \<noteq> 0 \<and> \<not> inheaders \<and> limit = 1 then Some (False, sofar)
             else let limit = (if limit \<noteq> 0 \<and> \<not> inheaders then limit - 1 else limit);
                      sofar = sofar @ (if line \<noteq> [] \<and> hd line = CHR ''.'' then ''.'' else []) @ line @ [CR, LF] in
               if \<not> m then Some (False, sofar)
               else pblast_loop mem op ss limit (if line = [] then False else inheaders) sofar))"

definition pblast :: "penv \<Rightarrow> bool \<Rightarrow> char list \<Rightarrow> ulong \<Rightarrow> pop \<Rightarrow> (pop + pop) option" where
  "pblast e broken text limit st =
     map_option (\<lambda>(died, sofar). if died then die (puts sofar st) else flush e (puts (sofar @ [CR, LF] @ ''.'' @ [CR, LF]) st))
       (pblast_loop (pmem e) (file_read broken text) (substdio_fdbuf 0 (replicate 1024 NUL)) limit True [])"

definition pop3_top :: "penv \<Rightarrow> char list \<Rightarrow> pop \<Rightarrow> (pop + pop) option" where
  "pop3_top e arg st =
     (case msgno e arg st of
        Inl st \<Rightarrow> Some (Inl st)
      | Inr (None, st) \<Rightarrow> Some (Inr st)
      | Inr (Some i, st) \<Rightarrow>
          (let arg = dropWhile (\<lambda>c. c = SP) (drop (fst (scan_ulong arg)) arg);
               (n, u) = scan_ulong arg;
               limit = (if n \<noteq> 0 then u + 1 else 0) in
           case disk st (fn (mess st ! i)) of
             Some f \<Rightarrow>
               (if no_open e (fn (mess st ! i)) then Some (pop_err e ''unable to open that message'' st)
                else case okay e st of
                       Inl st \<Rightarrow> Some (Inl st)
                     | Inr st \<Rightarrow> pblast e (no_read e (fn (mess st ! i))) (content f) limit st)
           | None \<Rightarrow> Some (pop_err e ''unable to open that message'' st)))"

definition pop_command :: "penv \<Rightarrow> char list \<Rightarrow> char list \<Rightarrow> pop \<Rightarrow> (pop + pop) option" where
  "pop_command e cmd arg st =
     (if case_diffs ''quit'' cmd = 0 then Some (pop3_quit e st)
      else if case_diffs ''stat'' cmd = 0 then Some (pop3_stat e st)
      else if case_diffs ''list'' cmd = 0 then Some (dolisting e arg False st)
      else if case_diffs ''uidl'' cmd = 0 then Some (dolisting e arg True st)
      else if case_diffs ''dele'' cmd = 0 then Some (pop3_dele e arg st)
      else if case_diffs ''retr'' cmd = 0 then pop3_top e arg st
      else if case_diffs ''rset'' cmd = 0 then Some (pop3_rset e st)
      else if case_diffs ''last'' cmd = 0 then Some (pop3_last e st)
      else if case_diffs ''top'' cmd = 0 then pop3_top e arg st
      else if case_diffs ''noop'' cmd = 0 then Some (okay e st)
      else Some (pop_err e ''unimplemented'' st))"

text \<open>One round of \<open>commands\<close>, as in \<open>Smtpd\<close>. If memory is denied or the connection ends, it returns and \<open>main\<close> ends.\<close>

definition pop_round :: "penv \<Rightarrow> char list \<Rightarrow> pop \<Rightarrow> (pop + pop) option" where
  "pop_round e stale st =
     (let line = takeWhile (\<lambda>c. c \<noteq> LF) (pop_in st) in
      if \<not> pmem e (length line + 1) then Some (die st)
      else if LF \<notin> set (pop_in st) then Some (die (st\<lparr>pop_in := []\<rparr>))
      else let (cmd, arg) = command_parts line stale in
        pop_command e cmd arg (st\<lparr>pop_in := tl (dropWhile (\<lambda>c. c \<noteq> LF) (pop_in st))\<rparr>))"

text \<open>\<open>main\<close> up to the loop\<close>

definition pop_start :: "penv \<Rightarrow> bool \<Rightarrow> pop \<Rightarrow> (pop + pop) option" where
  "pop_start e in_maildir st =
     (if \<not> in_maildir then Some (andthen (pop_err e ''this user has no $HOME/Maildir'' st) die)
      else map_option (\<lambda>r. andthen r (okay e)) (getlist e st))"

section \<open>What becomes of the files\<close>

text \<open>The state after a step, whether the process goes on or not.\<close>

definition after :: "pop + pop \<Rightarrow> pop" where
  "after r = (case r of Inl st \<Rightarrow> st | Inr st \<Rightarrow> st)"

lemma after_simps [simp]: "after (Inl st) = st" "after (Inr st) = st"
  by (simp_all add: after_def)

definition cur_name :: "pmess \<Rightarrow> char list" where
  "cur_name m = cstr (''cur/'' @ drop 4 (fn m) @ '':2,'')"

definition still_new :: "pmess \<Rightarrow> bool" where
  "still_new m \<longleftrightarrow> \<not> flagdeleted m \<and> str_start (fn m) ''new/''"

lemma disk_replies [simp]:
  "disk (puts s st) = disk st" "disk (after (flush e st)) = disk st" "disk (after (pop_err e s st)) = disk st" "disk (after (okay e st)) = disk st"
  "disk (after (pop_nomem e st)) = disk st"
  by (simp_all add: puts_def flush_def pop_err_def okay_def pop_nomem_def die_def)

abbreviation calm :: "pop \<Rightarrow> pop \<Rightarrow> bool" where
  "calm st u \<equiv> disk u = disk st \<and> mess u = mess st"

abbreviation calms :: "pop \<Rightarrow> pop + pop \<Rightarrow> bool" where
  "calms st \<equiv> ends (calm st) (calm st)"

lemma reply_calm:
  assumes "calm st u"
  shows "calms st (flush e (puts s u))" "calms st (pop_err e s u)" "calms st (okay e u)" "calms st (Inr u)"
  using assms by (simp_all add: flush_def pop_err_def okay_def puts_def)

lemma msgno_calm:
  "ends (calm st) (\<lambda>(k, u). calm st u \<and> (\<forall>i. k = Some i \<longrightarrow> i < length (mess st) \<and> unat (snd (scan_ulong arg)) = i + 1)) (msgno e arg st)"
proof -
  have m: "u \<noteq> 0 \<Longrightarrow> unat u = unat (u - 1) + 1" for u :: ulong using unat_minus_one [of u] by (simp add: unat_gt_0)
  show ?thesis unfolding msgno_def Let_def
    by (auto split: prod.split intro!: ends_andthen [OF reply_calm(2) [of st st]] simp: m)
qed

text \<open>DELE marks the message whose number it is given.\<close>

definition marks :: "char list \<Rightarrow> pop \<Rightarrow> pop \<Rightarrow> bool" where
  "marks arg st u \<longleftrightarrow> disk u = disk st \<and> (mess u = mess st \<or>
     (\<exists>i < length (mess st). unat (snd (scan_ulong arg)) = i + 1 \<and> mess u = (mess st)[i := (mess st ! i)\<lparr>flagdeleted := True\<rparr>]))"

lemma dele_marks: "ends (marks arg st) (marks arg st) (pop3_dele e arg st)"
  unfolding pop3_dele_def
proof (rule ends_andthen [OF ends_mono [OF msgno_calm [of st arg e]]])
  show "calm st u \<Longrightarrow> marks arg st u" for u by (simp add: marks_def)
  show "p \<Longrightarrow> p" for p .
  fix a :: "nat option \<times> pop" assume "case a of (k, u) \<Rightarrow> calm st u \<and> (\<forall>i. k = Some i \<longrightarrow> i < length (mess st) \<and> unat (snd (scan_ulong arg)) = i + 1)"
  then show "ends (marks arg st) (marks arg st) (case a of (None, u) \<Rightarrow> Inr u
      | (Some i, u) \<Rightarrow> okay e (u\<lparr>mess := (mess u)[i := (mess u ! i)\<lparr>flagdeleted := True\<rparr>], lastn := max (lastn u) (i + 1)\<rparr>))"
    by (auto simp: marks_def okay_def flush_def puts_def split: option.split)
qed

lemma listing_calm: "calms st (dolisting e arg u st)"
  unfolding dolisting_def
  by (auto intro!: ends_andthen [OF msgno_calm] ends_andthen [OF reply_calm(3)] reply_calm split: option.split)

lemma pblast_calm: "pblast e broken text limit u = Some r \<Longrightarrow> calm st u \<Longrightarrow> calms st r"
  by (auto simp: pblast_def die_def puts_def flush_def)

lemma top_calm: "pop3_top e arg st = Some r \<Longrightarrow> calms st r"
proof -
  assume *: "pop3_top e arg st = Some r"
  note m = msgno_calm [of st arg e]
  show ?thesis
  proof (cases "msgno e arg st")
    case (Inl u)
    then show ?thesis using * m by (auto simp: pop3_top_def)
  next
    case (Inr p)
    obtain k u where p: "p = (k, u)" by (cases p)
    have u: "calm st u" using m Inr p by simp
    have ok: "calm st v" if "okay e u = Inl v \<or> okay e u = Inr v" for v using reply_calm(3) [OF u, of e] that by auto
    have fin: "calms st r" if "(case okay e u of Inl v \<Rightarrow> Some (Inl v) | Inr v \<Rightarrow> pblast e (b v) t l v) = Some r" for b t l
    proof (cases "okay e u")
      case (Inl v)
      then have "calm st v" using ok by blast
      then show ?thesis using that Inl by auto
    next
      case (Inr v)
      then show ?thesis using that ok pblast_calm [of e "b v" t l v r st] by simp
    qed
    show ?thesis using * Inr p u reply_calm [OF u]
      by (auto simp: pop3_top_def Let_def dest!: fin split: option.splits prod.splits if_split_asm)
  qed
qed

lemma pcats_cur: "pcats mem ''cur/'' [x, '':2,'', [NUL]] = Some sa \<Longrightarrow> cstr sa = cstr (''cur/'' @ x @ '':2,'')"
proof -
  assume "pcats mem ''cur/'' [x, '':2,'', [NUL]] = Some sa"
  then have "sa = (''cur/'' @ x @ '':2,'') @ [NUL]" by (auto simp: pcats_def bind_eq_Some_conv dest!: cat_some)
  moreover have "cstr (y @ [NUL]) = cstr y" for y :: "char list" by (induction y) auto
  ultimately show ?thesis by (simp only:)
qed

definition kept_in :: "pop \<Rightarrow> pop \<Rightarrow> pmess list \<Rightarrow> bool" where
  "kept_in st u ms \<longleftrightarrow> (\<forall>f x. disk st f = Some x \<longrightarrow> disk u f = Some x \<or> (\<exists>m \<in> set ms. fn m = f \<and> flagdeleted m) \<or>
     (\<exists>m \<in> set ms. fn m = f \<and> still_new m \<and> disk u (cur_name m) = Some x))"

lemma kept_same: "disk u = disk st \<Longrightarrow> kept_in st u ms"
  by (simp add: kept_in_def)

lemma kept_Cons:
  assumes "kept_in st1 u ms" "\<And>f x. disk st f = Some x \<Longrightarrow> f \<noteq> fn m \<Longrightarrow> disk st1 f = Some x"
    and "\<And>x. disk st (fn m) = Some x \<Longrightarrow> disk st1 (fn m) = Some x \<or> flagdeleted m \<or> still_new m \<and> disk u (cur_name m) = Some x"
  shows "kept_in st u (m # ms)"
  unfolding kept_in_def
proof (intro allI impI)
  fix f x assume f: "disk st f = Some x"
  show "disk u f = Some x \<or> (\<exists>m \<in> set (m # ms). fn m = f \<and> flagdeleted m) \<or> (\<exists>m \<in> set (m # ms). fn m = f \<and> still_new m \<and> disk u (cur_name m) = Some x)"
  proof (cases "disk st1 f = Some x")
    case True
    then show ?thesis using assms(1) unfolding kept_in_def by auto
  next
    case False
    then have "f = fn m" using assms(2) [OF f] by blast
    then show ?thesis using assms(3) f False by auto
  qed
qed

text \<open>What the loop of QUIT relies on: the names are strings, and where a message of \<open>new\<close> would go, there is none, neither on the list nor, while the message is there, in
  the maildir.\<close>

definition quit_safe :: "pop \<Rightarrow> pmess list \<Rightarrow> bool" where
  "quit_safe st ms \<longleftrightarrow> (\<forall>m \<in> set ms. NUL \<notin> set (fn m) \<and>
     (still_new m \<longrightarrow> cur_name m \<notin> fn ` set ms \<and> (disk st (fn m) \<noteq> None \<longrightarrow> disk st (cur_name m) = None)))"

lemma new_names:
  assumes "still_new m" "NUL \<notin> set (fn m)"
  shows "fn m = ''new/'' @ drop 4 (fn m)" "cur_name m = ''cur/'' @ drop 4 (fn m) @ '':2,''"
proof -
  obtain r where r: "fn m = ''new/'' @ r" using assms by (auto simp: still_new_def str_start_iff cstr_nonul)
  then show "fn m = ''new/'' @ drop 4 (fn m)" by simp
  show "cur_name m = ''cur/'' @ drop 4 (fn m) @ '':2,''" using assms(2) unfolding cur_name_def r by (simp add: cstr_nonul)
qed

lemma quit_loop_keeps: "quit_safe st ms \<Longrightarrow> ends (\<lambda>u. kept_in st u ms \<and> mess u = mess st) (\<lambda>u. kept_in st u ms \<and> mess u = mess st) (quit_loop e ms st)"
proof (induction ms arbitrary: st)
  case Nil
  then show ?case by (simp add: kept_same)
next
  case (Cons m ms)
  let ?Q = "\<lambda>v. kept_in st v (m # ms) \<and> mess v = mess st"
  have safe: "quit_safe u ms" if "\<And>m'. m' \<in> set ms \<Longrightarrow> still_new m' \<Longrightarrow> disk u (fn m') \<noteq> None \<Longrightarrow> disk u (cur_name m') = None" for u
    using Cons.prems that by (auto simp: quit_safe_def)
  have was: "disk st (cur_name m') = None" if "m' \<in> set ms" "still_new m'" "disk st (fn m') \<noteq> None" for m'
    using Cons.prems that by (auto simp: quit_safe_def)
  have go: "ends ?Q ?Q (quit_loop e ms u)"
    if "quit_safe u ms" "mess u = mess st" "\<And>f x. disk st f = Some x \<Longrightarrow> f \<noteq> fn m \<Longrightarrow> disk u f = Some x"
      "\<And>v x. kept_in u v ms \<Longrightarrow> disk st (fn m) = Some x \<Longrightarrow> disk u (fn m) = Some x \<or> flagdeleted m \<or> still_new m \<and> disk v (cur_name m) = Some x" for u
  proof (rule ends_mono [OF Cons.IH [OF that(1)]])
    note h = that
    show "?Q v" if v: "kept_in u v ms \<and> mess v = mess u" for v
      using kept_Cons [OF conjunct1 [OF v] h(3) h(4) [OF conjunct1 [OF v]]] v h(2) by simp
    then show "kept_in u v ms \<and> mess v = mess u \<Longrightarrow> ?Q v" for v by blast
  qed
  show ?case
  proof (cases "flagdeleted m")
    case True
    have "ends ?Q (\<lambda>u. mess u = mess st \<and> (disk u = disk st \<or> disk u = (disk st)(fn m := None)))
      (if no_unlink e (fn m) \<or> disk st (fn m) = None then pop_err e ''unable to unlink all deleted messages'' st else Inr (st\<lparr>disk := (disk st)(fn m := None)\<rparr>))"
      using reply_calm(2) [of st st e "''unable to unlink all deleted messages''"] by (auto intro: kept_same elim!: ends_mono)
    then show ?thesis unfolding quit_loop.simps if_P [OF True]
      by (rule ends_andthen) (use True in \<open>auto intro!: go safe simp: was split: if_split_asm\<close>)
  next
    case False
    note nd = this
    show ?thesis
    proof (cases "str_start (fn m) ''new/''")
      case old: False
      show ?thesis using nd old by (auto intro!: go safe simp: was)
    next
      case True
      then have new: "still_new m" using nd by (simp add: still_new_def)
      have free: "disk st (fn m) \<noteq> None \<Longrightarrow> disk st (cur_name m) = None" "cur_name m \<notin> fn ` set (m # ms)" and nul: "NUL \<notin> set (fn m)"
        using Cons.prems new by (auto simp: quit_safe_def)
      have stay: "disk v f = Some x" if "kept_in u v ms" "disk u f = Some x" "f \<notin> fn ` set ms" for u v f x
        using that unfolding kept_in_def image_iff by metis
      have inj: "fn m' = fn m" if "m' \<in> set ms" "still_new m'" "cur_name m' = cur_name m" for m'
      proof -
        have "NUL \<notin> set (fn m')" using Cons.prems that(1) by (simp add: quit_safe_def)
        from new_names [OF that(2) this] new_names [OF new nul] that(3) show ?thesis by (metis append_same_eq same_append_eq)
      qed
      show ?thesis
      proof (cases "if pmem e 4 then pcats (pmem e) ''cur/'' [drop 4 (fn m), '':2,'', [NUL]] else None")
        case None
        then show ?thesis using nd True by (auto simp: pop_nomem_def die_def pop_err_def flush_def puts_def kept_same)
      next
        case (Some sa)
        then have sa: "cstr sa = cur_name m" using pcats_cur by (auto simp: cur_name_def split: if_split_asm)
        let ?u = "case disk st (fn m) of Some f \<Rightarrow> (if no_rename e (fn m) then st else st\<lparr>disk := (disk st)(fn m := None, cur_name m := Some f)\<rparr>) | None \<Rightarrow> st"
        have q: "quit_loop e (m # ms) st = quit_loop e ms ?u" unfolding quit_loop.simps if_not_P [OF nd] if_P [OF True] Some option.case sa ..
        have out: "fn m' \<noteq> cur_name m" if "m' \<in> set (m # ms)" for m' using free(2) that by (metis image_eqI)
        have s: "quit_safe ?u ms"
        proof (rule safe)
          fix m' assume m': "m' \<in> set ms" "still_new m'" "disk ?u (fn m') \<noteq> None"
          have "fn m' \<noteq> cur_name m" "fn m \<noteq> cur_name m" using out m'(1) by simp_all
          then show "disk ?u (cur_name m') = None" using m'(3) inj [OF m'(1,2)] was [OF m'(1,2)]
            by (auto split: option.splits if_split_asm)
        qed
        have d: "disk ?u f = Some x" if "disk st f = Some x" "f \<noteq> fn m" for f x using that free(1) by (cases "disk st (fn m)") auto
        have k: "disk ?u (fn m) = Some x \<or> disk v (cur_name m) = Some x" if "kept_in ?u v ms" "disk st (fn m) = Some x" for v x
          using stay [OF that(1), of "cur_name m" x] that(2) free(2) by (cases "no_rename e (fn m)") auto
        have "mess ?u = mess st" by (auto split: option.split)
        then show ?thesis unfolding q by (rule go [OF s _ d]) (use k new in auto)
      qed
    qed
  qed
qed

lemma quit_keeps:
  assumes "quit_safe st (mess st)"
  shows "kept_in st (after (pop3_quit e st)) (mess st)" "mess (after (pop3_quit e st)) = mess st"
  using quit_loop_keeps [OF assms, of e]
  by (cases "quit_loop e (mess st) st"; auto simp: pop3_quit_def okay_def flush_def puts_def die_def kept_in_def)+

text \<open>Any other command leaves the files alone. DELE marks a message, RSET takes all marks away, and the other commands leave the list as it is.\<close>

definition marked_by :: "char list \<Rightarrow> char list \<Rightarrow> pmess list \<Rightarrow> pmess list \<Rightarrow> bool" where
  "marked_by cmd arg ms ms' \<longleftrightarrow> map fn ms' = map fn ms \<and>
     (\<forall>i < length ms. flagdeleted (ms' ! i) \<longrightarrow> flagdeleted (ms ! i) \<or> case_diffs ''dele'' cmd = 0 \<and> unat (snd (scan_ulong arg)) = i + 1)"

lemma marked_same [simp]: "marked_by cmd arg ms ms"
  by (simp add: marked_by_def)

lemma marked_dele: "case_diffs ''dele'' cmd = 0 \<Longrightarrow> marks arg st u \<Longrightarrow> marked_by cmd arg (mess st) (mess u)"
  by (auto simp: marks_def marked_by_def map_update nth_list_update list_update_same_conv)

lemma marked_rset: "marked_by cmd arg ms (map (\<lambda>m. m\<lparr>flagdeleted := False\<rparr>) ms)"
  by (simp add: marked_by_def comp_def)

lemma command_calm:
  assumes "pop_command e cmd arg st = Some r" "case_diffs ''quit'' cmd \<noteq> 0"
  shows "disk (after r) = disk st \<and> marked_by cmd arg (mess st) (mess (after r))"
proof -
  have calm: "calms st r \<Longrightarrow> ?thesis" by (cases r) simp_all
  have dele: ?thesis if "case_diffs ''dele'' cmd = 0" "r = pop3_dele e arg st"
  proof -
    have m: "marks arg st (after r)" using dele_marks [of arg st e] unfolding that(2) [symmetric] by (cases r) simp_all
    then show ?thesis using marked_dele [OF that(1)] by (simp add: marks_def)
  qed
  have rset: ?thesis if "r = pop3_rset e st"
    using marked_rset [of cmd arg "mess st"] that by (simp add: pop3_rset_def okay_def flush_def puts_def)
  have l: "calms st (pop3_stat e st)" "calms st (pop3_last e st)" using reply_calm(1) [of st st] by (simp_all add: pop3_stat_def pop3_last_def)
  have "case_diffs ''dele'' cmd = 0 \<and> r = pop3_dele e arg st \<or> r = pop3_rset e st \<or> pop3_top e arg st = Some r \<or>
    r \<in> {pop3_stat e st, pop3_last e st, dolisting e arg False st, dolisting e arg True st, okay e st, pop_err e ''unimplemented'' st}"
    using assms by (auto simp: pop_command_def split: if_split_asm)
  then consider "case_diffs ''dele'' cmd = 0" "r = pop3_dele e arg st" | "r = pop3_rset e st" | "pop3_top e arg st = Some r"
    | "r \<in> {pop3_stat e st, pop3_last e st, dolisting e arg False st, dolisting e arg True st, okay e st, pop_err e ''unimplemented'' st}" by blast
  then show ?thesis
  proof cases
    case 4
    then have "calms st r" using l reply_calm(2,3) [of st st] listing_calm [of st e arg] by fast
    then show ?thesis by (rule calm)
  qed (use dele rset calm top_calm in blast)+
qed

section \<open>What is sent of a message\<close>

text \<open>The lines that are sent: all, or the header, the empty line and the first \<open>n - 1\<close> lines of the body.\<close>

fun chosen :: "nat \<Rightarrow> bool \<Rightarrow> char list list \<Rightarrow> char list list" where
  "chosen limit inheaders [] = []"
| "chosen limit inheaders (l # ls) =
     (if limit \<noteq> 0 \<and> \<not> inheaders then if limit = 1 then [] else l # chosen (limit - 1) False ls
      else l # chosen limit (l \<noteq> [] \<and> inheaders) ls)"

definition sent_lines :: "char list list \<Rightarrow> char list" where
  "sent_lines ls = concat (map stuff ls)"

lemma stuff_alt: "(if line \<noteq> [] \<and> hd line = CHR ''.'' then ''.'' else []) @ line @ [CR, LF] = stuff line"
  by (simp add: stuff_def)

lemma pblast_loop_lines:
  assumes "in_inv ss" "mem = (\<lambda>_. True)"
  shows "pblast_loop mem (file_read False text) ss limit inheaders sofar =
    Some (False, sofar @ sent_lines (chosen (unat limit) inheaders (lines_of (in_stream (\<lambda>off. drop off text) ss))))"
  using assms(1)
proof (induction "length (in_stream (\<lambda>off. drop off text) ss)" arbitrary: ss limit inheaders sofar rule: less_induct)
  case less
  let ?str = "\<lambda>ss. in_stream (\<lambda>off. drop off text) ss"
  have z: "unat limit = 0 \<longleftrightarrow> limit = 0" "unat limit = 1 \<longleftrightarrow> limit = 1" by (simp_all add: word_unat_eq_iff)
  have pred: "limit \<noteq> 0 \<Longrightarrow> unat (limit - 1) = unat limit - 1" by (simp add: unat_minus_one)
  from less.prems show ?case
  proof (cases rule: flr.getln_any [where broken = False and content = "text" and mem = mem and sa = "[]" and m = False and sep = LF])
    case (fail ss' sa')
    then show ?thesis using assms(2) by simp
  next
    case (line ss' l)
    have shorter: "length (?str ss') < length (?str ss)" using line(3) by simp
    note ih = less.hyps [OF shorter line(4)]
    have ls: "lines_of (?str ss) = l # lines_of (?str ss')" unfolding line(3) by (rule lines_of_line [OF line(2)])
    show ?thesis using line(1) ih z pred unfolding ls
      by (subst pblast_loop.simps) (auto simp: sent_lines_def stuff_def Let_def)
  next
    case (rest ss')
    show ?thesis
    proof (cases "?str ss = []")
      case True
      then show ?thesis using rest(1) by (subst pblast_loop.simps) (simp add: sent_lines_def)
    next
      case False
      then have ls: "lines_of (?str ss) = [?str ss]" by (rule lines_of_rest [OF rest(2)])
      show ?thesis using rest(1) False z unfolding ls
        by (subst pblast_loop.simps) (auto simp: sent_lines_def stuff_def Let_def)
    qed
  qed
qed

lemma pblast_sends:
  assumes "pmem e = (\<lambda>_. True)"
  shows "pblast e False text limit st = Some (flush e (puts (on_wire (chosen (unat limit) True (lines_of text) @ [[]])) st))"
proof -
  have s: "in_inv (substdio_fdbuf 0 (replicate 1024 NUL) :: nat substdio)" "in_stream (\<lambda>off. drop off text) (substdio_fdbuf 0 (replicate 1024 NUL)) = text"
    using flr.stream_fdbuf [where w = 0 and buf = "replicate 1024 NUL"] by simp_all
  show ?thesis unfolding pblast_def pblast_loop_lines [OF s(1) assms] s(2) by (simp add: on_wire_def sent_lines_def stuff_def)
qed

section \<open>The list of messages\<close>

definition wanted :: "penv \<Rightarrow> disk \<Rightarrow> char list \<Rightarrow> char list list \<Rightarrow> char list list" where
  "wanted e d subdir ds =
     filter (\<lambda>f. case d f of Some x \<Rightarrow> mtime x < pnow e | None \<Rightarrow> False) (map (\<lambda>n. cstr (subdir @ ''/'' @ n)) (filter (\<lambda>n. char_at n 0 \<noteq> CHR ''.'') ds))"

definition name_at :: "char list \<Rightarrow> prioq_elt \<Rightarrow> char list" where
  "name_at names pe = cstr (drop (unat (id pe)) names)"

definition scanned :: "disk \<Rightarrow> char list list \<Rightarrow> prioq \<Rightarrow> char list \<Rightarrow> bool" where
  "scanned d fs pq names \<longleftrightarrow> prioq_inv pq \<and> image_mset (name_at names) (prioq_bag pq) = mset fs \<and>
     (\<forall>pe \<in># prioq_bag pq. NUL \<in> set (drop (unat (id pe)) names) \<and> (\<exists>x. d (name_at names pe) = Some x \<and> mtime x = dt pe))"

lemma name_at_more: "NUL \<in> set (drop (unat (id pe)) names) \<Longrightarrow> name_at (names @ x) pe = name_at names pe"
proof -
  assume n: "NUL \<in> set (drop (unat (id pe)) names)"
  then have "drop (unat (id pe)) (names @ x) = drop (unat (id pe)) names @ x" by (cases "unat (id pe) \<le> length names") simp_all
  moreover have "NUL \<in> set y \<Longrightarrow> cstr (y @ x) = cstr y" for y by (induction y) auto
  ultimately show ?thesis using n by (simp add: name_at_def)
qed

lemma scanned_more:
  assumes "scanned d fs pq names"
  shows "scanned d fs pq (names @ x)"
proof -
  have n: "name_at (names @ x) pe = name_at names pe" "NUL \<in> set (drop (unat (id pe)) (names @ x))" if "pe \<in># prioq_bag pq" for pe
    using assms that name_at_more [of pe names x] by (auto simp: scanned_def)
  have "image_mset (name_at (names @ x)) (prioq_bag pq) = image_mset (name_at names) (prioq_bag pq)" using n(1) by (intro image_mset_cong)
  then show ?thesis using assms n by (auto simp: scanned_def)
qed

lemma fits_less: "prioq_fits n \<Longrightarrow> k \<le> n \<Longrightarrow> prioq_fits k"
proof -
  assume *: "prioq_fits n" "k \<le> n"
  have "(unat (100 :: 32 word) + k + k div 8) * unat sizeof_prioq_elt \<le> (unat (100 :: 32 word) + n + n div 8) * unat sizeof_prioq_elt"
    using *(2) by (intro mult_le_mono1 add_mono div_le_mono) simp_all
  from le_less_trans [OF this] *(1) show ?thesis unfolding prioq_fits_def ga_room_def by blast
qed

lemma pcats_name: "pcats mem names [subdir, ''/'', d_name, [NUL]] = Some names' \<Longrightarrow> names' = names @ subdir @ ''/'' @ d_name @ [NUL]"
  by (auto simp: pcats_def bind_eq_Some_conv dest!: cat_some)

lemma cstr_end_any: "cstr (y @ [NUL]) = cstr y"
  by (induction y) auto

lemma append_loop_scans:
  assumes "append_loop e d subdir ds (pq, names) = Some (True, pq', names')" "scanned d fs pq names"
    and "length names + sum_list (map (\<lambda>n. length subdir + length n + 2) ds) < 2 ^ 32" "prioq_fits (length fs + length ds)"
  shows "scanned d (fs @ wanted e d subdir ds) pq' names' \<and> length names' \<le> length names + sum_list (map (\<lambda>n. length subdir + length n + 2) ds)"
  using assms
proof (induction ds arbitrary: pq names fs)
  case Nil
  then show ?case by (simp add: wanted_def)
next
  case (Cons n ds)
  have w: "wanted e d subdir (n # ds) = (if char_at n 0 \<noteq> CHR ''.'' \<and> (case d (cstr (subdir @ ''/'' @ n)) of Some x \<Rightarrow> mtime x < pnow e | None \<Rightarrow> False)
      then [cstr (subdir @ ''/'' @ n)] else []) @ wanted e d subdir ds"
    by (simp add: wanted_def)
  show ?case
  proof (cases "char_at n 0 = CHR ''.''")
    case True
    then show ?thesis using Cons.IH [of pq names fs] Cons.prems w fits_less [OF Cons.prems(4)] by simp
  next
    case nd: False
    let ?x = "subdir @ ''/'' @ n @ [NUL]"
    obtain names1 where p: "pcats (pmem e) names [subdir, ''/'', n, [NUL]] = Some names1" using Cons.prems(1) nd by (auto split: option.splits)
    have n1: "names1 = names @ ?x" by (rule pcats_name [OF p])
    have f: "cstr (drop (length names) names1) = cstr (subdir @ ''/'' @ n)" using cstr_end_any [of "subdir @ ''/'' @ n"] by (simp add: n1)
    have l1: "length names1 + sum_list (map (\<lambda>n. length subdir + length n + 2) ds) < 2 ^ 32"
      "length names1 + sum_list (map (\<lambda>n. length subdir + length n + 2) ds) = length names + sum_list (map (\<lambda>n. length subdir + length n + 2) (n # ds))"
      using Cons.prems(3) by (simp_all add: n1)
    have s1: "scanned d fs pq names1" unfolding n1 by (rule scanned_more [OF Cons.prems(2)])
    have fit: "prioq_fits (length fs + length ds)" "prioq_fits (Suc (length fs))" using fits_less [OF Cons.prems(4)] by simp_all
    show ?thesis
    proof (cases "case d (cstr (subdir @ ''/'' @ n)) of Some x \<Rightarrow> mtime x < pnow e | None \<Rightarrow> False")
      case False
      then have "append_loop e d subdir ds (pq, names1) = Some (True, pq', names')" using Cons.prems(1) nd p f by (auto split: option.splits)
      from Cons.IH [OF this s1 l1(1) fit(1)] show ?thesis using False w l1(2) by simp
    next
      case True
      then obtain x where x: "d (cstr (subdir @ ''/'' @ n)) = Some x" "mtime x < pnow e" by (auto split: option.splits)
      let ?pe = "\<lparr>dt = mtime x, id = of_nat (length names)\<rparr> :: prioq_elt"
      obtain pq1 where i: "prioq_insert (pmok e) ?pe pq ?pe = Some (True, pq1)" "append_loop e d subdir ds (pq1, names1) = Some (True, pq', names')"
        using Cons.prems(1) nd p f x by (auto simp: Let_def split: option.splits prod.splits bool.splits)
      have sz: "size (prioq_bag pq) = length fs" using s1 by (metis scanned_def size_image_mset size_mset)
      have b: "prioq_inv pq1" "prioq_bag pq1 = add_mset ?pe (prioq_bag pq)"
        using prioq_insert_ok [of pq "pmok e" ?pe ?pe] i(1) s1 fit(2) sz by (auto simp: scanned_def)
      have u: "unat (id ?pe) = length names" using Cons.prems(3) by (simp add: unat_of_nat)
      have nm: "name_at names1 ?pe = cstr (subdir @ ''/'' @ n)" unfolding name_at_def u using f by simp
      have "scanned d (fs @ [cstr (subdir @ ''/'' @ n)]) pq1 names1"
        using s1 b nm x u by (auto simp: scanned_def n1)
      from Cons.IH [OF i(2) this l1(1)] show ?thesis using Cons.prems(4) True nd w l1(2) by simp
    qed
  qed
qed

lemma take_messages_drain:
  "map fn (take_messages d names k pq) = map (name_at names) (fst (drain prioq_min prioq_delmin k pq))"
  by (induction k arbitrary: pq) (auto simp: name_at_def Let_def split: option.split prod.split)

lemma scan_lists:
  assumes "maildir_scan e d = Some (True, pq, names)" "pmem e 0" "popendir e ''new'' = Some ns" "popendir e ''cur'' = Some cs"
    and "prioq_fits (length ns + length cs)" "sum_list (map (\<lambda>n. length n + 5) (ns @ cs)) < 2 ^ 32"
  shows "scanned d (wanted e d ''new'' ns @ wanted e d ''cur'' cs) pq names"
proof -
  let ?q = "\<lparr>field = None, len = 0, a = 0\<rparr> :: prioq"
  obtain pq1 names1 where 1: "append_loop e d ''new'' ns (?q, []) = Some (True, pq1, names1)" "append_loop e d ''cur'' cs (pq1, names1) = Some (True, pq, names)"
    using assms(1-4) by (auto simp: maildir_scan_def append_dir_def Let_def split: option.splits prod.splits bool.splits)
  have s: "scanned d [] ?q []" by (simp add: scanned_def prioq_inv_def ga_inv_def prioq_bag_def ga_list_def)
  have sum: "sum_list (map (\<lambda>n. length ''new'' + length n + 2) ns) + sum_list (map (\<lambda>n. length ''cur'' + length n + 2) cs) < 2 ^ 32"
  proof -
    have "(\<lambda>n :: char list. length ''new'' + length n + 2) = (\<lambda>n. length n + 5)" "(\<lambda>n :: char list. length ''cur'' + length n + 2) = (\<lambda>n. length n + 5)"
      by (rule ext, simp)+
    then show ?thesis using assms(6) by (simp only: map_append sum_list_append)
  qed
  have 2: "scanned d (wanted e d ''new'' ns) pq1 names1" "length names1 \<le> sum_list (map (\<lambda>n. length ''new'' + length n + 2) ns)"
    using append_loop_scans [OF 1(1) s] sum fits_less [OF assms(5), of "length ns"] by simp_all
  have w: "length (wanted e d ''new'' ns) \<le> length ns" unfolding wanted_def by (intro le_trans [OF length_filter_le]) simp
  show ?thesis using append_loop_scans [OF 1(2) 2(1)] 2(2) sum fits_less [OF assms(5)] w by simp
qed

section \<open>Properties\<close>

text \<open>C13: the list of messages has exactly the files of \<open>new\<close> and \<open>cur\<close> whose names do not begin with a dot and that are older than the list, in the order of their
  times.\<close>

theorem getlist_lists:
  assumes "getlist e st = Some (Inr st')" "pmem e 0" "popendir e ''new'' = Some ns" "popendir e ''cur'' = Some cs"
    and "prioq_fits (length ns + length cs)" "sum_list (map (\<lambda>n. length n + 5) (ns @ cs)) < 2 ^ 32"
  shows "mset (map fn (mess st')) = mset (wanted e (disk st') ''new'' ns @ wanted e (disk st') ''cur'' cs) \<and>
    sorted (map (\<lambda>m. mtime (the (disk st' (fn m)))) (mess st'))"
proof -
  let ?d = "maildir_clean e (disk st)"
  obtain pq names where p: "maildir_scan e ?d = Some (True, pq, names)" "st' = st\<lparr>disk := ?d, mess := take_messages ?d names (unat (len pq)) pq\<rparr>"
    using assms(1) by (auto simp: getlist_def Let_def pop_err_def pop_nomem_def die_def flush_def split: option.splits prod.splits bool.splits if_split_asm)
  let ?fs = "wanted e ?d ''new'' ns @ wanted e ?d ''cur'' cs" and ?es = "fst (drain prioq_min prioq_delmin (unat (len pq)) pq)"
  have s: "scanned ?d ?fs pq names" by (rule scan_lists [OF p(1) assms(2-6)])
  then have inv: "prioq_inv pq" by (simp add: scanned_def)
  have "size (prioq_bag pq) \<le> unat (len pq)" by (auto simp: prioq_bag_def ga_list_def split: option.split)
  note dr = pq.drain_law [OF inv this]
  have names: "map fn (mess st') = map (name_at names) ?es" unfolding p(2) using take_messages_drain [of ?d names "unat (len pq)" pq] by simp
  have "mset (map fn (mess st')) = image_mset (name_at names) (prioq_bag pq)" using dr unfolding names by simp
  also have "\<dots> = mset ?fs" using s by (simp add: scanned_def)
  finally have 1: "mset (map fn (mess st')) = mset ?fs" .
  have t: "mtime (the (?d (name_at names pe))) = dt pe" if "pe \<in> set ?es" for pe
  proof -
    have "pe \<in># prioq_bag pq" using that dr by (metis set_mset_mset)
    then show ?thesis using s by (auto simp: scanned_def)
  qed
  have "map (\<lambda>m. mtime (the (?d (fn m)))) (mess st') = map (\<lambda>f. mtime (the (?d f))) (map fn (mess st'))" by simp
  also have "\<dots> = map dt ?es" unfolding names using t by simp
  finally have "sorted (map (\<lambda>m. mtime (the (?d (fn m)))) (mess st'))" using dr by simp
  then show ?thesis using 1 p(2) by simp
qed

lemma getlist_lists_witness:
  "\<exists>e st st'. getlist e st = Some (Inr st') \<and> mset (map fn (mess st')) = {# ''cur/b'', ''new/a'' #} \<and> sorted (map (\<lambda>m. mtime (the (disk st' (fn m)))) (mess st'))"
proof -
  let ?d = "(\<lambda>_. None)(''new/a'' := Some \<lparr>mtime = 5, atime = 5, content = ''x''\<rparr>, ''cur/b'' := Some \<lparr>mtime = 3, atime = 5, content = ''yy''\<rparr>) :: disk"
  let ?e = "\<lparr>pmem = (\<lambda>_. True), pmok = (\<lambda>_. True), pnow = 9, popendir = (\<lambda>s. if s = ''new'' then Some [''.'', ''a''] else if s = ''cur'' then Some [''b''] else None),
    no_open = (\<lambda>_. False), no_unlink = (\<lambda>_. False), no_rename = (\<lambda>_. False), no_read = (\<lambda>_. False), pnet = (\<lambda>_. True)\<rparr>"
  let ?st = "\<lparr>mess = [], lastn = 0, disk = ?d, pop_in = [], pop_out = []\<rparr>"
  have c: "maildir_clean ?e ?d = ?d" by (simp add: maildir_clean_def)
  obtain pq names where p: "maildir_scan ?e ?d = Some (True, pq, names)"
  proof -
    have "case maildir_scan ?e ?d of Some (b, _) \<Rightarrow> b | None \<Rightarrow> False" by code_simp
    then show ?thesis using that by (auto split: option.splits)
  qed
  let ?st' = "?st\<lparr>mess := take_messages ?d names (unat (len pq)) pq\<rparr>"
  have g: "getlist ?e ?st = Some (Inr ?st')" using p c by (simp add: getlist_def)
  have w: "wanted ?e ?d ''new'' [''.'', ''a''] = [''new/a'']" "wanted ?e ?d ''cur'' [''b''] = [''cur/b'']" by code_simp+
  have f: "prioq_fits 3" by (simp add: prioq_fits_def ga_room_def sizeof_prioq_elt_def)
  have "mset (map fn (mess ?st')) = mset (wanted ?e (disk ?st') ''new'' [''.'', ''a''] @ wanted ?e (disk ?st') ''cur'' [''b'']) \<and>
    sorted (map (\<lambda>m. mtime (the (disk ?st' (fn m)))) (mess ?st'))"
    by (rule getlist_lists [OF g]) (use f in \<open>simp_all add: numeral_3_eq_3\<close>)
  then have "mset (map fn (mess ?st')) = {# ''cur/b'', ''new/a'' #} \<and> sorted (map (\<lambda>m. mtime (the (disk ?st' (fn m)))) (mess ?st'))"
    using w by (simp add: add_mset_commute)
  then show ?thesis using g by blast
qed

lemma lines_of_message: "s = as_message ls \<Longrightarrow> \<forall>l \<in> set ls. LF \<notin> set l \<Longrightarrow> lines_of s = ls"
proof (induction ls arbitrary: s)
  case Nil
  then show ?case by simp
next
  case (Cons l ls)
  then show ?case using lines_of_line [of l "as_message ls"] by simp
qed

lemma retr_no:
  assumes "i < length (mess st)" "\<not> flagdeleted (mess st ! i)" "i + 1 < 2 ^ 32"
  shows "msgno e (fmt_ulong (i + 1) @ NUL # stale) st = Inr (Some i, st)"
proof -
  have nul: "\<not> digitval NUL < 10" by (simp add: digitval_less_10_iff)
  have s: "scan_ulong (fmt_ulong (i + 1) @ NUL # stale) = (length (fmt_ulong (i + 1)), of_nat (i + 1))"
    using scan_fmt_ulong [of "NUL # stale" "i + 1"] nul by simp
  have u: "unat (of_nat (i + 1) :: ulong) = i + 1" using assms(3) by (simp only: unat_of_nat) simp
  then have z: "(of_nat (i + 1) :: ulong) \<noteq> 0" by (metis add_is_0 one_neq_zero unat_0)
  have p: "unat ((of_nat (i + 1) :: ulong) - 1) = i" using u unat_minus_one [OF z] by simp
  have l: "length (fmt_ulong (i + 1)) \<noteq> 0" by simp
  show ?thesis unfolding msgno_def s Let_def prod.case if_not_P [OF l] if_not_P [OF z] p using assms(1,2) by simp
qed

text \<open>C12: the answer to RETR is, read as POP prescribes it, the message with each line as it is, and an empty line more; the files stay as they are.\<close>

theorem retr_sends:
  assumes "pmem e = (\<lambda>_. True)" "pnet e = (\<lambda>_. True)" "i < length (mess st)" "\<not> flagdeleted (mess st ! i)" "i + 1 < 2 ^ 32"
    and "disk st (fn (mess st ! i)) = Some f" "\<not> no_open e (fn (mess st ! i))" "\<not> no_read e (fn (mess st ! i))" "content f = as_message ls" "\<forall>l \<in> set ls. LF \<notin> set l"
  shows "\<exists>st' wire. pop3_top e (fmt_ulong (i + 1) @ NUL # stale) st = Some (Inr st') \<and> disk st' = disk st \<and> mess st' = mess st \<and>
    pop_out st' = pop_out st @ ''+OK '' @ [CR, LF] @ wire \<and>
    (\<forall>next_line. \<exists>s. smtpd_blast (wire @ next_line) = Inr (s, next_line) \<and> stored s = as_message (ls @ [[]]))"
proof -
  let ?arg = "fmt_ulong (i + 1) @ NUL # stale"
  let ?wire = "on_wire (ls @ [[]])"
  have nul: "\<not> digitval NUL < 10" by (simp add: digitval_less_10_iff)
  have s1: "fst (scan_ulong ?arg) = length (fmt_ulong (i + 1))" using scan_fmt_ulong [of "NUL # stale" "i + 1"] nul by simp
  have s2: "dropWhile (\<lambda>c. c = SP) (drop (fst (scan_ulong ?arg)) ?arg) = NUL # stale" unfolding s1 by simp
  have s3: "fst (scan_ulong (NUL # stale)) = 0" by (simp add: scan_ulong_def nul)
  obtain u where u: "scan_ulong (NUL # stale) = (0, u)" using s3 by (cases "scan_ulong (NUL # stale)") simp
  have all: "chosen 0 b ms = ms" for b ms by (induction ms arbitrary: b) simp_all
  have ls: "lines_of (content f) = ls" by (rule lines_of_message [OF assms(9,10)])
  let ?st = "puts (''+OK '' @ [CR, LF]) st"
  have ok: "okay e st = Inr ?st" using assms(2) by (simp add: okay_def flush_def)
  have "pop3_top e ?arg st = pblast e False (content f) 0 ?st"
    unfolding pop3_top_def retr_no [OF assms(3-5)] Let_def s2 u using assms(6-8) ok by (simp add: puts_def)
  also have "\<dots> = Some (Inr (puts ?wire ?st))" unfolding pblast_sends [OF assms(1)] using assms(2) by (simp add: all ls flush_def)
  finally have "pop3_top e ?arg st = Some (Inr (puts ?wire ?st))" .
  moreover have "\<exists>s. smtpd_blast (?wire @ next_line) = Inr (s, next_line) \<and> stored s = as_message (ls @ [[]])" for next_line
    using smtpd_reads_wire [of "ls @ [[]]" next_line] assms(10) by auto
  ultimately show ?thesis by (intro exI [of _ "puts ?wire ?st"] exI [of _ ?wire]) (simp add: puts_def)
qed

lemma retr_sends_witness:
  "\<exists>e st st' wire. pop3_top e (fmt_ulong (0 + 1) @ NUL # []) st = Some (Inr st') \<and> pop_out st' = ''+OK '' @ [CR, LF] @ wire \<and>
    (\<exists>s. smtpd_blast (wire @ []) = Inr (s, []) \<and> stored s = as_message ([''a: b'', [], ''.c''] @ [[]]))"
proof -
  let ?f = "\<lparr>mtime = 5, atime = 5, content = as_message [''a: b'', [], ''.c'']\<rparr>"
  let ?e = "\<lparr>pmem = (\<lambda>_. True), pmok = (\<lambda>_. True), pnow = 9, popendir = (\<lambda>s. None), no_open = (\<lambda>_. False), no_unlink = (\<lambda>_. False), no_rename = (\<lambda>_. False),
    no_read = (\<lambda>_. False), pnet = (\<lambda>_. True)\<rparr>"
  let ?st = "\<lparr>mess = [\<lparr>flagdeleted = False, psize = 0, fn = ''new/a''\<rparr>], lastn = 0, disk = (\<lambda>_. Some ?f), pop_in = [], pop_out = []\<rparr>"
  from retr_sends [of ?e 0 ?st ?f "[''a: b'', [], ''.c'']" "[]"]
  obtain st' wire where r: "pop3_top ?e (fmt_ulong (0 + 1) @ NUL # []) ?st = Some (Inr st')" "pop_out st' = ''+OK '' @ [CR, LF] @ wire"
    "\<forall>next_line. \<exists>s. smtpd_blast (wire @ next_line) = Inr (s, next_line) \<and> stored s = as_message ([''a: b'', [], ''.c''] @ [[]])" by auto
  from r(3) have "\<exists>s. smtpd_blast (wire @ []) = Inr (s, []) \<and> stored s = as_message ([''a: b'', [], ''.c''] @ [[]])" by (rule spec)
  then show ?thesis using r(1,2) by blast
qed

section \<open>Sessions\<close>

text \<open>A maildir has a message once: no name of \<open>new\<close> is, with \<open>:2,\<close> after it, in \<open>cur\<close> too.\<close>

definition no_twins :: "disk \<Rightarrow> bool" where
  "no_twins d \<longleftrightarrow> (\<forall>x. d (''new/'' @ x) = None \<or> d (''cur/'' @ x @ '':2,'') = None)"

text \<open>The names of both directories fit into 32-bit counts.\<close>

definition small_maildir :: "penv \<Rightarrow> bool" where
  "small_maildir e \<longleftrightarrow> (case (popendir e ''new'', popendir e ''cur'') of
     (Some ns, Some cs) \<Rightarrow> prioq_fits (length ns + length cs) \<and> sum_list (map (\<lambda>n. length n + 5) (ns @ cs)) < 2 ^ 32
   | _ \<Rightarrow> True)"

text \<open>A session: the list is read, then commands are taken. Between two commands other programs may change the files in any way that leaves each message once.\<close>

inductive pop_session :: "pop + pop \<Rightarrow> bool" where
  Start: "pop_start e b st = Some r \<Longrightarrow> mess st = [] \<Longrightarrow> no_twins (disk st) \<Longrightarrow> small_maildir e \<Longrightarrow> pop_session r"
| Round: "pop_session (Inr st) \<Longrightarrow> pop_round e stale st = Some r \<Longrightarrow> pop_session r"
| Others: "pop_session (Inr st) \<Longrightarrow> no_twins d \<Longrightarrow> pop_session (Inr (st\<lparr>disk := d\<rparr>))"

definition apart :: "char list list \<Rightarrow> bool" where
  "apart fs \<longleftrightarrow> (\<forall>f \<in> set fs. NUL \<notin> set f \<and> (\<forall>x. f = ''new/'' @ x \<longrightarrow> ''cur/'' @ x @ '':2,'' \<notin> set fs))"

lemma apart_safe: "apart (map fn (mess st)) \<Longrightarrow> no_twins (disk st) \<Longrightarrow> quit_safe st (mess st)"
  unfolding quit_safe_def
proof (intro ballI conjI impI)
  fix m assume a: "apart (map fn (mess st))" "no_twins (disk st)" and m: "m \<in> set (mess st)"
  then show n: "NUL \<notin> set (fn m)" by (simp add: apart_def)
  assume s: "still_new m"
  note f = new_names [OF s n]
  show "cur_name m \<notin> fn ` set (mess st)" using a(1) m f by (auto simp: apart_def)
  assume "disk st (fn m) \<noteq> None"
  then show "disk st (cur_name m) = None" using a(2) f unfolding no_twins_def by metis
qed

lemma clean_tmp_only: "clean_tmp e ds d f = None \<or> clean_tmp e ds d f = d f"
proof (induction ds arbitrary: d)
  case (Cons n ds)
  have "clean_tmp e ds (if c then d(k := None) else d) f = None \<or> clean_tmp e ds (if c then d(k := None) else d) f = d f" for c k
  proof -
    have "(d(k := None)) f = None \<or> (d(k := None)) f = d f" by simp
    then show ?thesis using Cons.IH [of d] Cons.IH [of "d(k := None)"] by metis
  qed
  then show ?case using Cons.IH [of d] by (auto split: option.split simp del: fun_upd_apply)
qed simp

lemma clean_no_twins: "no_twins d \<Longrightarrow> no_twins (maildir_clean e d)"
  unfolding no_twins_def maildir_clean_def by (cases "popendir e ''tmp''") (simp_all, metis clean_tmp_only)

lemma getlist_apart:
  assumes "getlist e st = Some (Inr u)" "no_twins (disk st)" "small_maildir e"
  shows "apart (map fn (mess u)) \<and> no_twins (disk u)"
proof -
  let ?d = "maildir_clean e (disk st)"
  obtain pq names where p: "maildir_scan e ?d = Some (True, pq, names)" "u = st\<lparr>disk := ?d, mess := take_messages ?d names (unat (len pq)) pq\<rparr>"
    using assms(1) by (auto simp: getlist_def Let_def pop_err_def pop_nomem_def die_def flush_def split: option.splits prod.splits bool.splits if_split_asm)
  have there: "NUL \<notin> set f \<and> ?d f \<noteq> None" if f: "f \<in> set (map fn (mess u))" for f
  proof (cases "pmem e 0")
    case False
    then have "mess u = []" using p by (auto simp: maildir_scan_def)
    then show ?thesis using f by simp
  next
    case True
    obtain ns cs where n: "popendir e ''new'' = Some ns" "popendir e ''cur'' = Some cs"
      using p(1) True by (auto simp: maildir_scan_def append_dir_def Let_def split: option.splits prod.splits bool.splits)
    have s: "scanned ?d (wanted e ?d ''new'' ns @ wanted e ?d ''cur'' cs) pq names"
      by (rule scan_lists [OF p(1) True n]) (use assms(3) n in \<open>simp_all add: small_maildir_def\<close>)
    then have inv: "prioq_inv pq" by (simp add: scanned_def)
    have "size (prioq_bag pq) \<le> unat (len pq)" by (auto simp: prioq_bag_def ga_list_def split: option.split)
    note dr = pq.drain_law [OF inv this]
    obtain pe where pe: "pe \<in> set (fst (drain prioq_min prioq_delmin (unat (len pq)) pq))" "f = name_at names pe"
      using f unfolding p(2) by (auto simp: take_messages_drain)
    have "pe \<in># prioq_bag pq" using pe(1) dr by (metis set_mset_mset)
    then show ?thesis using s pe(2) unfolding scanned_def by (auto simp: name_at_def)
  qed
  have t: "no_twins ?d" by (rule clean_no_twins [OF assms(2)])
  have "apart (map fn (mess u))" unfolding apart_def using there t unfolding no_twins_def by blast
  then show ?thesis using t p(2) by simp
qed

lemma round_calm:
  assumes "pop_round e stale st = Some r" "quit_safe st (mess st)" "command_parts (takeWhile (\<lambda>c. c \<noteq> LF) (pop_in st)) stale = (cmd, arg)"
  shows "kept_in st (after r) (mess st)" "marked_by cmd arg (mess st) (mess (after r))" "case_diffs ''quit'' cmd \<noteq> 0 \<Longrightarrow> disk (after r) = disk st"
proof -
  let ?u = "st\<lparr>pop_in := tl (dropWhile (\<lambda>c. c \<noteq> LF) (pop_in st))\<rparr>"
  have q: "quit_safe ?u (mess ?u)" using assms(2) by (simp add: quit_safe_def)
  have k: "kept_in ?u v ms = kept_in st v ms" for v ms by (simp add: kept_in_def)
  consider "calms st r" | "case_diffs ''quit'' cmd = 0" "r = pop3_quit e ?u" | "case_diffs ''quit'' cmd \<noteq> 0" "pop_command e cmd arg ?u = Some r"
    using assms(1,3) by (auto simp: pop_round_def die_def Let_def pop_command_def split: if_split_asm)
  then have *: "kept_in st (after r) (mess st) \<and> marked_by cmd arg (mess st) (mess (after r)) \<and> (case_diffs ''quit'' cmd \<noteq> 0 \<longrightarrow> disk (after r) = disk st)"
  proof cases
    case 1
    then show ?thesis by (cases r) (simp_all add: kept_same)
  next
    case 2
    then show ?thesis using quit_keeps [OF q, of e] k by simp
  next
    case 3
    then show ?thesis using command_calm [OF 3(2,1)] by (simp add: kept_same)
  qed
  show "kept_in st (after r) (mess st)" "marked_by cmd arg (mess st) (mess (after r))" using * by blast+
  show "case_diffs ''quit'' cmd \<noteq> 0 \<Longrightarrow> disk (after r) = disk st" using * by blast
qed

lemma quit_not_further: "pop_round e stale st = Some (Inr u) \<Longrightarrow> command_parts (takeWhile (\<lambda>c. c \<noteq> LF) (pop_in st)) stale = (cmd, arg) \<Longrightarrow> case_diffs ''quit'' cmd \<noteq> 0"
  by (auto simp: pop_round_def die_def Let_def pop_command_def pop3_quit_def andthen_def split: if_split_asm sum.splits)

lemma session_safe: "pop_session r \<Longrightarrow> r = Inr st \<Longrightarrow> apart (map fn (mess st)) \<and> no_twins (disk st)"
proof (induction arbitrary: st rule: pop_session.induct)
  case (Start e b st0 r)
  then obtain z where z: "getlist e st0 = Some z" "andthen z (okay e) = Inr st"
    by (auto simp: pop_start_def pop_err_def die_def flush_def split: if_split_asm)
  then obtain u where u: "getlist e st0 = Some (Inr u)" "okay e u = Inr st" by (cases z) auto
  then have "mess st = mess u" "disk st = disk u" using reply_calm(3) [of u u e] by simp_all
  then show ?case using getlist_apart [OF u(1) Start.hyps(3,4)] by simp
next
  case (Round st0 e stale r)
  obtain cmd arg where c: "command_parts (takeWhile (\<lambda>c. c \<noteq> LF) (pop_in st0)) stale = (cmd, arg)" by fastforce
  note i = Round.IH [OF refl] and r = Round.hyps(2) [unfolded Round.prems]
  note n = round_calm [OF r apart_safe [OF conjunct1 [OF i] conjunct2 [OF i]] c]
  have "disk st = disk st0" "map fn (mess st) = map fn (mess st0)" using n(2) n(3) [OF quit_not_further [OF r c]] by (simp_all add: marked_by_def)
  then show ?case using i by simp
next
  case (Others st0 d)
  then show ?case by auto
qed

text \<open>C11: no round of a session loses a message that has not been deleted: every file is still there as it was, or its message is marked as deleted, or the message was in
  \<open>new\<close> and is now, the same, in \<open>cur\<close>. Only QUIT changes files, only DELE with the number of a message marks it, and the names of the listed messages stay. What a session
  relies on, at its start and whenever other programs have changed the maildir between two commands: the maildir has a message once, that is, no name of \<open>new\<close> is
  with \<open>:2,\<close> after it in \<open>cur\<close> too (QUIT renames without a look at the new name); and the names of the directories take less than 32 bits.\<close>

theorem pop_keeps_mail:
  assumes "pop_session (Inr st)" "pop_round e stale st = Some r" "command_parts (takeWhile (\<lambda>c. c \<noteq> LF) (pop_in st)) stale = (cmd, arg)"
  shows "(\<forall>f x. disk st f = Some x \<longrightarrow> disk (after r) f = Some x \<or> (\<exists>m \<in> set (mess st). fn m = f \<and> flagdeleted m) \<or>
      (\<exists>m \<in> set (mess st). fn m = f \<and> still_new m \<and> disk (after r) (cur_name m) = Some x)) \<and>
    (case_diffs ''quit'' cmd \<noteq> 0 \<longrightarrow> disk (after r) = disk st) \<and> map fn (mess (after r)) = map fn (mess st) \<and>
    (\<forall>i < length (mess st). flagdeleted (mess (after r) ! i) \<longrightarrow>
       flagdeleted (mess st ! i) \<or> case_diffs ''dele'' cmd = 0 \<and> unat (snd (scan_ulong arg)) = i + 1)"
proof -
  have "quit_safe st (mess st)" using session_safe [OF assms(1) refl] apart_safe by blast
  from round_calm [OF assms(2) this assms(3)] show ?thesis unfolding kept_in_def marked_by_def by blast
qed

lemma pop_keeps_mail_witness:
  "\<exists>e st u x. pop_session (Inr st) \<and> pop_round e [] st = Some (Inl u) \<and> disk st ''new/a'' = Some x \<and> map fn (mess st) = [''new/a''] \<and> map fn (mess u) = [''new/a''] \<and>
     (disk u ''new/a'' = Some x \<or> (\<exists>m \<in> set (mess st). fn m = ''new/a'' \<and> still_new m \<and> disk u (cur_name m) = Some x))"
proof -
  let ?x = "\<lparr>mtime = 5, atime = 5, content = ''x''\<rparr> :: pfile"
  let ?e = "\<lparr>pmem = (\<lambda>_. True), pmok = (\<lambda>_. True), pnow = 9, popendir = (\<lambda>s. if s = ''new'' then Some [''.'', ''a''] else if s = ''cur'' then Some [] else None),
    no_open = (\<lambda>_. False), no_unlink = (\<lambda>_. False), no_rename = (\<lambda>_. False), no_read = (\<lambda>_. False), pnet = (\<lambda>_. True)\<rparr>"
  let ?st = "\<lparr>mess = [], lastn = 0, disk = (\<lambda>_. None)(''new/a'' := Some ?x), pop_in = ''QUIT'' @ [LF], pop_out = []\<rparr>"
  have "case pop_start ?e True ?st of Some (Inr st) \<Rightarrow>
      (case pop_round ?e [] st of Some (Inl u) \<Rightarrow> True | _ \<Rightarrow> False) \<and> disk st ''new/a'' = Some ?x \<and> map fn (mess st) = [''new/a''] \<and>
      \<not> list_ex flagdeleted (mess st) \<and> takeWhile (\<lambda>c. c \<noteq> LF) (pop_in st) = ''QUIT'' | _ \<Rightarrow> False" by code_simp
  then obtain st where 1: "pop_start ?e True ?st = Some (Inr st)" "case pop_round ?e [] st of Some (Inl u) \<Rightarrow> True | _ \<Rightarrow> False" "disk st ''new/a'' = Some ?x"
    "map fn (mess st) = [''new/a'']" "\<not> list_ex flagdeleted (mess st)" "takeWhile (\<lambda>c. c \<noteq> LF) (pop_in st) = ''QUIT''"
    by (cases "pop_start ?e True ?st") (simp_all split: sum.split_asm)
  then obtain u where "pop_round ?e [] st = Some (Inl u)" by (cases "pop_round ?e [] st") (simp_all split: sum.split_asm)
  note s = 1(1) this 1(3-6)
  have f: "prioq_fits 1" by (simp add: prioq_fits_def ga_room_def sizeof_prioq_elt_def)
  have small: "small_maildir ?e" using fits_less [of 2 2] by (simp add: small_maildir_def prioq_fits_def ga_room_def sizeof_prioq_elt_def)
  have p: "pop_session (Inr st)" by (rule pop_session.Start [OF s(1) _ _ small]) (simp_all add: no_twins_def)
  have c: "command_parts ''QUIT'' [] = (''QUIT'', [NUL])" by code_simp
  from pop_keeps_mail [OF p s(2), of "''QUIT''" "[NUL]"] c s(6)
  have k: "\<forall>f x. disk st f = Some x \<longrightarrow> disk u f = Some x \<or> (\<exists>m \<in> set (mess st). fn m = f \<and> flagdeleted m) \<or>
      (\<exists>m \<in> set (mess st). fn m = f \<and> still_new m \<and> disk u (cur_name m) = Some x)" "map fn (mess u) = map fn (mess st)" by simp_all
  from spec [OF spec [OF k(1), of "''new/a''"], of ?x] s(3,5)
  have "disk u ''new/a'' = Some ?x \<or> (\<exists>m \<in> set (mess st). fn m = ''new/a'' \<and> still_new m \<and> disk u (cur_name m) = Some ?x)" by (auto simp: list_ex_iff)
  moreover have "map fn (mess u) = [''new/a'']" using k(2) s(4) by simp
  ultimately show ?thesis using p s(2-4) by (intro exI [of _ ?e] exI [of _ st] exI [of _ u] exI [of _ ?x] conjI) assumption+
qed

end
