(* ===== verification/Rounds.thy ===== *)
theory Rounds
  imports Dispatch
begin

text \<open>
  What rounds of the main loop of \<open>qmail-send.c\<close> get done, taken together: a message that is due is handed to the delivery program (\<open>order_sent\<close>).
\<close>

section \<open>Two rounds of the main loop\<close>










section \<open>The example goes on\<close>

text \<open>Nothing waits in the queues other than the local one.\<close>

definition lone :: "send \<Rightarrow> bool" where
  "lone s \<longleftrightarrow> \<not> flagexitasap s \<and> prioq_min (pqchan s Remote) = None \<and> prioq_min (pqfail s) = None \<and> prioq_min (pqdone s) = None \<and> pass_id (pass s Remote) = 0"

lemma lone_fields: "flagexitasap t = flagexitasap s \<Longrightarrow> pqchan t Remote = pqchan s Remote \<Longrightarrow> pqfail t = pqfail s \<Longrightarrow> pqdone t = pqdone s \<Longrightarrow>
    pass t Remote = pass s Remote \<Longrightarrow> lone t = lone s"
  by (simp add: lone_def)


definition core :: "send \<Rightarrow> (channel \<Rightarrow> pass) \<times> (channel \<Rightarrow> del list) \<times> (channel \<Rightarrow> nat) \<times> bool" where
  "core s = (pass s, dels s, concurrencyused s, lone s)"

lemma core_kept [simp]:
  "core (s\<lparr>cleanupdir := x1\<rparr>) = core s" "core (s\<lparr>flagcleanup := x2\<rparr>) = core s" "core (s\<lparr>cleanuptime := x3\<rparr>) = core s" "core (s\<lparr>qf := x4\<rparr>) = core s"
  "core (s\<lparr>logtext := x5\<rparr>) = core s" "core (s\<lparr>recent := x6\<rparr>) = core s"
  by (simp_all add: core_def lone_def)

lemma core_foop [simp]: "core (ask_foop calm i s) = core s"
  by (simp add: ask_foop_def calm_def set_file_def Manager.log3_def Manager.log1_def)

lemma core_cleanup [simp]: "core (cleanup_do calm opendir s) = core s"
  by (simp add: cleanup_do_def Let_def split: prod.split)



section \<open>Property\<close>


end
