(* ===== verification/Spec2Isabelle.thy ===== *)
theory Spec2Isabelle
  imports Prelude Bytes Numtext Stralloc Prioq Constmap Base64 Datetime Token822 Header Outcome Substdio Headerbody Dotstuff
    Remote Qmailc Smtpd Session Reachable Endtoend Queue Clean Todo Bounce Startup Todorun
    Chain Users Pop3 Rounds
begin

text \<open>
  A model of qmail 1.03 with the combined patches, as it is under \<open>src/sources/qmail-1.03\<close>, and its correctness.

  The program. qmail receives mail with \<open>qmail-smtpd\<close>, queues it through \<open>qmail-queue\<close>, and sends it on with \<open>qmail-remote\<close>.
  All programs share a library: byte and string routines without bounds of their own, string buffers that grow, buffered input and
  output, tables, number and date formats, and a parser and printer for RFC 822 addresses. The other packages under \<open>src/sources\<close>
  are separate programs.

  The theories, with the files they model:
  \<^item> \<open>Prelude\<close> and \<open>Outcome\<close>: C strings, options and results that every component shares. An exit of a process or a failed
    allocation is \<open>Inl\<close>, a read outside of memory or a loop that does not return is \<open>None\<close>.
  \<^item> \<open>Bytes\<close>, \<open>Numtext\<close>: \<open>byte_*.c\<close>, \<open>str_*.c\<close>, \<open>case_*.c\<close>, \<open>fmt_*.c\<close>, \<open>scan_*.c\<close>, \<open>fmtqfn.c\<close>, \<open>ip.c\<close>.
  \<^item> \<open>Stralloc\<close>: \<open>alloc.c\<close>, \<open>gen_alloc*.h\<close>, \<open>stralloc_*.c\<close>, with 32-bit sizes that wrap.
  \<^item> \<open>Substdio\<close>, \<open>Headerbody\<close>: \<open>subst*.c\<close>, \<open>getln*.c\<close>, \<open>headerbody.c\<close>; the read and write functions are parameters, under
    the contracts \<open>reader\<close> and \<open>writer\<close>, which file descriptors satisfy.
  \<^item> \<open>Prioq\<close>, \<open>Constmap\<close>: the queues of \<open>qmail-send\<close> by time, and the tables of control files.
  \<^item> \<open>Base64\<close>, \<open>Datetime\<close>, \<open>Token822\<close>, \<open>Header\<close>: \<open>base64.c\<close>, \<open>datetime*.c\<close>, \<open>date822fmt.c\<close>, \<open>token822.c\<close>, \<open>quote.c\<close>,
    \<open>hfield.c\<close>.
  \<^item> \<open>Dotstuff\<close>, \<open>Remote\<close>: the two \<open>blast\<close> of client and server; \<open>qmail-remote.c\<close> with its reports. The state of the client is the
    record \<open>client\<close>: what the server has still to say, what was sent, what was reported. The network is the predicate \<open>net\<close>, which
    says which sequences of bytes the connection takes. A reply on the wire is \<open>smtp_reply\<close>, its code \<open>reply_code\<close>.
  \<^item> \<open>Qmailc\<close>: \<open>qmail.c\<close>, \<open>received.c\<close>, \<open>newfield.c\<close>.
  \<^item> \<open>Smtpd\<close>, \<open>Session\<close>, \<open>Reachable\<close>: \<open>qmail-smtpd.c\<close>, \<open>commands.c\<close>, \<open>rcpthosts.c\<close>. The state is the record \<open>server\<close>, one
    function per command, one per reply; \<open>session\<close> is the step relation of the loop of \<open>commands\<close>. What plugins, name servers and the
    queue answer during a command is an \<open>outside\<close>.
  \<^item> \<open>Endtoend\<close> and this theory: client and server together.
  \<^item> \<open>Steady\<close>, \<open>Queue\<close>: \<open>qmail-queue.c\<close>; what is on disk, and what has been forced to it, is a field of the state.
  \<^item> \<open>Rewrite\<close>, \<open>Todo\<close>: \<open>qmail-todo.c\<close> with the rewriting of addresses that it shares with \<open>qmail-send.c\<close>; the files of one message
    are a record, an error is the end of the attempt.
  \<^item> \<open>Clean\<close>: \<open>qmail-clean.c\<close>.
  \<^item> \<open>Lines\<close>, \<open>Bounce\<close>, \<open>Manager\<close>: \<open>qmail-send.c\<close> with \<open>readsubdir.c\<close> and \<open>qsutil.c\<close>. The state \<open>send\<close> holds the variables of the process and
    the files of every message; each function is an operation, \<open>main_round\<close> is the body of the main loop. A ghost field \<open>story\<close> records
    what has been answered about the recipients.
  \<^item> \<open>Control\<close>, \<open>Startup\<close>: \<open>control.c\<close>, the control files of \<open>qmail-send\<close> and \<open>qmail-todo\<close>, and the start of the manager.
  \<^item> \<open>Todorun\<close>: the main loop of \<open>qmail-todo.c\<close> around \<open>Todo\<close>, with what it says to the manager.
  \<^item> \<open>Ledger\<close>, \<open>Upkeep\<close>, \<open>Noloss\<close>, \<open>Dispatch\<close>: the invariant of the manager, that each operation keeps it, the step relation \<open>qstep\<close> of the
    manager with \<open>qmail-queue\<close>, \<open>qmail-todo\<close> and restarts, and what follows from it. \<open>Views\<close>: what each operation of the manager leaves alone, as
    locales over a view of the state, with an interpretation for each view. \<open>Rounds\<close>: what rounds of the main loop bring about.

  \<^item> \<open>Spawn\<close>, \<open>Users\<close>: \<open>spawn.c\<close> with \<open>qmail-rspawn.c\<close> and \<open>qmail-lspawn.c\<close>, which the manager starts: the state \<open>spawner\<close> with a slot for
    each delivery, \<open>spawn_round\<close> the body of the loop; the identity of a local delivery, from \<open>users/cdb\<close> (\<open>cdb_*.c\<close>) or \<open>qmail-getpw.c\<close>. What both
    programs promise of their \<open>report\<close> is the locale \<open>reporter\<close>.
  \<^item> \<open>Pop3\<close>: \<open>qmail-pop3d.c\<close> with \<open>maildir.c\<close> and the loop of \<open>commands.c\<close>; the state \<open>pop\<close> has the list of messages and the files.
  \<^item> \<open>Chain\<close>: \<open>qmail-remote\<close>, \<open>qmail-rspawn\<close> and \<open>qmail-send\<close> together.

  What the lemmas show. Library: each routine against its specification, with its bounds; round trips of the formats; refinement of
  byte streams by the buffers; sorted order from the queue. Client: every end of a dialogue is a well-formed report, which says of each recipient what the server's
  reply to it was, and success only if the replies to sender, DATA and message were good. Server: the invariant \<open>session_inv\<close> of the envelope over all commands, from which there is no open relay; where
  the server reads outside of its buffer. Both: a message that the client sends is stored unchanged, and a recipient arrives as it
  was written. Queue: a message enters it whole or not at all, and is complete at every moment while \<open>qmail-todo\<close> works on it; no recipient is
  ever lost, and none is tried twice at a time; the manager does what is due, whose order reaches the delivery program within two rounds of its loop, does not wait when something is due, keeps retry times over a
  restart, and removes a message that is done. \<open>qmail-todo\<close> says only whole records that the manager understands.
  Deliveries: each command of the manager starts the delivery it asks for and is answered once; what the manager takes as a success of a remote delivery means
  that an exchanger answered well to this recipient and to the whole message, and that a \<open>qmail-smtpd\<close> there has accepted it; a local delivery runs as the owner of the address and never as root. POP: the list is
  complete and in order, a message is sent as it is, and none is lost that has not been deleted, as long as the maildir has each message once. Rewriting: a recipient is rewritten as
  the lines of the control files say, through the tables that are built of them. The other programs and the file system enter the step relation as steps: a file that exists stays
  as it is unless a step changes it, a message number is that of a new file, \<open>readdir\<close> gives each number once, and \<open>qmail-queue\<close> does not
  exit with 82 and an empty text. A crash is a restart between two steps.

  Bounds. Loops over a buffer are recursive on the list or have its length as fuel, which is enough since every round takes at least
  one byte; loops that wait for a system call are \<open>partial_function (option)\<close>, with a theorem that they return.

  Not modelled. Of \<open>qmail-smtpd\<close>: reading the control files, AUTH, STARTTLS, the recipient checker, and the plugin protocol, whose
  results are in \<open>outside\<close>. Of \<open>qmail-remote\<close>: the control files, name servers, and TLS, which are parameters. Of \<open>qmail-todo\<close> and \<open>qmail-send\<close>:
  \<open>select\<close>, whose result is a parameter, and the descriptors. Crashes in the middle of an operation of the manager, and a disk that
  forgets what was written without \<open>fsync\<close> there. The program \<open>qmail-local\<close>, \<open>qmail-inject\<close>,
  \<open>qmail-popup\<close> and the smaller programs, and the other packages, which are separate programs.
\<close>

section \<open>Properties of several components\<close>

text \<open>C34: A recipient arrives as it was. For an address without NUL and newline, whatever its local part, the line RCPT that the client
  makes of what \<open>addrmangle\<close> returns is, to the server, a RCPT command, and \<open>addrparse\<close> finds in it the address.\<close>

theorem recipient_arrives:
  assumes "addrmangle mem cname (box @ ''@'' @ host @ [NUL]) False cl = Inr (ad, alias)"
    and "NUL \<notin> set box" "LF \<notin> set box" "plain_host host" "length box + length host < 899" "\<forall>n. cmem c n"
  shows "\<exists>m. command_round c w stale (st\<lparr>incoming := ''RCPT TO:<'' @ ad @ ''>'' @ [CR, LF] @ rest\<rparr>) =
      Some (smtp_rcpt c w m (st\<lparr>incoming := rest\<rparr>)) \<and>
    (\<forall>st'. addrparse c m st' = Inr (True, st'\<lparr>addr := box @ ''@'' @ host @ [NUL]\<rparr>))"
proof -
  have h: "CHR ''@'' \<notin> set host" "NUL \<notin> set host" "LF \<notin> set host" using assms(4) by (auto simp: plain_host_def)
  have j: "str_rchr (box @ ''@'' @ host @ [NUL]) (CHR ''@'') = length box"
    using byte_rchr_append [OF h(1), of box] h(2) assms(2) by (simp add: str_rchr_cstr cstr_append)
  obtain q where q: "quote mem [] box = (1, q)" and ad: "ad = q @ ''@'' @ host"
    using assms(1) h(2) unfolding addrmangle_def Let_def j
    by (auto simp: char_at_append quote_def doit_def temp_nomem_def zerodie_def dead_def split: if_splits)
  let ?m = "''TO:<'' @ ad @ ''>'' @ NUL # stale"
  let ?line = "''RCPT TO:<'' @ ad @ ''>'' @ [CR]"
  have LF: "LF \<notin> set ?line" using quote_set [OF q, of LF] assms(3) h(3) ad by auto
  have parts: "command_parts ?line stale = (''RCPT'', ?m)"
    using command_parts_verb [of "''RCPT''" "''TO:<'' @ ad @ ''>''" stale] by simp
  have "command_round c w stale (st\<lparr>incoming := ''RCPT TO:<'' @ ad @ ''>'' @ [CR, LF] @ rest\<rparr>) =
      dispatch c w ''RCPT'' ?m (st\<lparr>incoming := rest\<rparr>)"
    by (rule command_round_line [OF LF assms(6) parts]) simp
  moreover have "dispatch c w ''RCPT'' ?m s = Some (smtp_rcpt c w ?m s)" for s
    unfolding dispatch_def by (rule if_P) code_simp
  moreover have "addrparse c ?m st' = Inr (True, st'\<lparr>addr := box @ ''@'' @ host @ [NUL]\<rparr>)" for st'
    using addrparse_reads [OF _ assms(2) q assms(4), of c "''TO:''" stale st'] assms(5,6) ad by simp
  ultimately show ?thesis by (intro exI [of _ ?m]) simp
qed

theorem recipient_arrives_witness:
  "\<exists>m. command_round demo_conf demo_world [] ((demo_start [])\<lparr>incoming := ''RCPT TO:<'' @ ([DQ] @ ''a b'' @ [DQ] @ ''@c.d'') @ ''>'' @ [CR, LF] @ ''QUIT''\<rparr>) =
      Some (smtp_rcpt demo_conf demo_world m ((demo_start [])\<lparr>incoming := ''QUIT''\<rparr>)) \<and>
    (\<forall>st'. addrparse demo_conf m st' = Inr (True, st'\<lparr>addr := ''a b'' @ ''@'' @ ''c.d'' @ [NUL]\<rparr>))"
  by (rule recipient_arrives [OF good_mangle]) (simp_all add: plain_host_def demo_conf_def)

end
